(* ===== verification/Prelude.thy ===== *)
theory Prelude
  imports Complex_Main "HOL-Library.AList" "HOL-Library.Product_Lexorder"
    "HOL-Library.List_Lexorder" "HOL-Library.Char_ord" "HOL-Library.Sublist"
begin

text \<open>
  What the component theories share: the Python values and containers the sources compute
  with, and the facts about them that carry the component proofs.

  \<^item> A \<open>dict\<close> is an association list with distinct keys in insertion order: \<open>map_of\<close> looks
    up, \<open>AList.update\<close> replaces in place or appends at the end, \<open>AList.delete\<close> removes; this
    is the order Python iterates in.
  \<^item> An \<open>int\<close> is unbounded, as in Python. A \<open>float\<close> is an exact real number: rounding and
    overflow of IEEE arithmetic are not modelled. Where the code can hold an infinity it is a
    value of \<open>ext\<close>, where it can also hold a NaN it is a value of \<open>pyfloat\<close>.
  \<^item> \<open>list.sort(key=f)\<close> and \<open>sorted\<close> are stable: \<open>sort_key f\<close>.
\<close>

named_theorems py_simps \<open>unfolding equations of the small Python operations\<close>
named_theorems dict_simps \<open>lookup and key facts about dicts\<close>

section \<open>Exceptions\<close>

text \<open>The exceptions the modelled code raises or lets escape; messages are left out.\<close>

datatype py_error =
    ValueError | TypeError | KeyError | IndexError | OverflowError | StopIteration
  | AttributeError | RuntimeError | AssertionError

text \<open>Sequencing of computations that may raise.\<close>

definition ebind :: "'e + 'a \<Rightarrow> ('a \<Rightarrow> 'e + 'b) \<Rightarrow> 'e + 'b" where
  "ebind r f = (case r of Inl e \<Rightarrow> Inl e | Inr x \<Rightarrow> f x)"

lemma ebind_simps [simp]: "ebind (Inl e) f = Inl e" "ebind (Inr x) f = f x"
  by (simp_all add: ebind_def)

lemma ebind_Inr_iff: "ebind r f = Inr y \<longleftrightarrow> (\<exists>x. r = Inr x \<and> f x = Inr y)"
  by (cases r) auto

section \<open>Numbers\<close>

text \<open>A number of the code that may also be \<open>float('inf')\<close>.\<close>

datatype 'a ext = Fin 'a | Infty

instantiation ext :: (linorder) linorder
begin

definition less_eq_ext :: "'a ext \<Rightarrow> 'a ext \<Rightarrow> bool" where
  "less_eq_ext x y = (case y of Infty \<Rightarrow> True
     | Fin b \<Rightarrow> (case x of Infty \<Rightarrow> False | Fin a \<Rightarrow> a \<le> b))"

definition less_ext :: "'a ext \<Rightarrow> 'a ext \<Rightarrow> bool" where
  "less_ext x y = (case x of Infty \<Rightarrow> False
     | Fin a \<Rightarrow> (case y of Infty \<Rightarrow> True | Fin b \<Rightarrow> a < b))"

instance
  by standard (auto simp: less_eq_ext_def less_ext_def split: ext.splits)

end

lemma ext_le_simps [simp]:
  "Fin a \<le> Fin b \<longleftrightarrow> a \<le> b" "x \<le> Infty" "Infty \<le> Fin b \<longleftrightarrow> False"
  by (auto simp: less_eq_ext_def split: ext.splits)

lemma ext_less_simps [simp]:
  "Fin a < Fin b \<longleftrightarrow> a < b" "Fin a < Infty" "Infty < x \<longleftrightarrow> False"
  by (auto simp: less_ext_def split: ext.splits)

text \<open>A Python float as \<open>json.loads\<close> can produce it.\<close>

datatype pyfloat = Real real | NaN | PosInf | NegInf

definition isfinite :: "pyfloat \<Rightarrow> bool" where
  "isfinite x = (case x of Real _ \<Rightarrow> True | _ \<Rightarrow> False)"

text \<open>\<open>int(x)\<close> of a float truncates towards zero.\<close>

definition trunc_int :: "real \<Rightarrow> int" where
  "trunc_int x = (if 0 \<le> x then \<lfloor>x\<rfloor> else \<lceil>x\<rceil>)"

lemma trunc_int_of_int [simp]: "trunc_int (real_of_int n) = n"
  by (simp add: trunc_int_def)

lemma trunc_int_numeral [simp]: "trunc_int (numeral n) = numeral n" "trunc_int 0 = 0" "trunc_int 1 = 1"
  by (simp_all add: trunc_int_def)

lemma trunc_int_nonneg: "0 \<le> x \<Longrightarrow> 0 \<le> trunc_int x"
  by (simp add: trunc_int_def)

lemma trunc_int_mono: "x \<le> y \<Longrightarrow> trunc_int x \<le> trunc_int y"
proof -
  assume le: "x \<le> y"
  show ?thesis
  proof (cases "0 \<le> x \<longleftrightarrow> 0 \<le> y")
    case True
    with le show ?thesis by (simp add: trunc_int_def floor_mono ceiling_mono)
  next
    case False
    with le have "\<lceil>x\<rceil> \<le> 0" "0 \<le> \<lfloor>y\<rfloor>" "\<not> 0 \<le> x" "0 \<le> y" by (auto simp: ceiling_le_iff)
    then have "\<lceil>x\<rceil> \<le> \<lfloor>y\<rfloor>" by linarith
    with \<open>\<not> 0 \<le> x\<close> \<open>0 \<le> y\<close> show ?thesis by (simp add: trunc_int_def)
  qed
qed

section \<open>Dicts\<close>

type_synonym ('k, 'v) dict = "('k \<times> 'v) list"

abbreviation dict_keys :: "('k, 'v) dict \<Rightarrow> 'k list" where
  "dict_keys d \<equiv> map fst d"

abbreviation dict_values :: "('k, 'v) dict \<Rightarrow> 'v list" where
  "dict_values d \<equiv> map snd d"

abbreviation dict_wf :: "('k, 'v) dict \<Rightarrow> bool" where
  "dict_wf d \<equiv> distinct (map fst d)"

lemma map_of_update [simp, dict_simps]: "map_of (AList.update k v d) = (map_of d)(k \<mapsto> v)"
  by (rule update_conv')

lemma map_of_delete_upd [simp, dict_simps]: "map_of (AList.delete k d) = (map_of d)(k := None)"
  by (rule delete_conv')

text \<open>Keep lookups as lookups.\<close>

declare map_of_eq_Some_iff [simp del]

lemma dict_wf_update [simp, intro]: "dict_wf d \<Longrightarrow> dict_wf (AList.update k v d)"
  by (rule distinct_update)

lemma dict_wf_delete [simp, intro]: "dict_wf d \<Longrightarrow> dict_wf (AList.delete k d)"
  by (rule distinct_delete)

lemma dict_mem_iff [dict_simps]: "dict_wf d \<Longrightarrow> (k, v) \<in> set d \<longleftrightarrow> map_of d k = Some v"
  by (metis map_of_eq_Some_iff)

lemma keys_update_mem: "map_of d k = Some v \<Longrightarrow> map fst (AList.update k w d) = map fst d"
  by (induction d) auto

lemma update_idem_keys [simp]:
  "k \<in> fst ` set d \<Longrightarrow> map fst (AList.update k w d) = map fst d"
  by (induction d) auto

lemma length_update_mem: "map_of d k = Some v \<Longrightarrow> length (AList.update k w d) = length d"
  by (metis keys_update_mem length_map)

lemma values_update: "set (dict_values (AList.update k v d)) \<subseteq> insert v (set (dict_values d))"
  by (induction d) auto

lemma values_delete: "set (dict_values (AList.delete k d)) \<subseteq> set (dict_values d)"
  by (auto simp: AList.delete_eq)

lemma length_delete_mem:
  "dict_wf d \<Longrightarrow> map_of d k = Some v \<Longrightarrow> Suc (length (AList.delete k d)) = length d"
proof (induction d)
  case Nil
  then show ?case by simp
next
  case (Cons a d)
  show ?case
  proof (cases "fst a = k")
    case True
    with Cons.prems have "k \<notin> fst ` set d" by (metis distinct.simps(2) list.simps(9) image_set)
    with True show ?thesis by (cases a) simp
  next
    case False
    with Cons show ?thesis by (cases a) auto
  qed
qed

section \<open>Sorting\<close>

text \<open>\<open>sorted(xs, key=f, reverse=True)\<close> keeps the original order of equal elements.\<close>

definition sort_key_rev :: "('a \<Rightarrow> 'k::linorder) \<Rightarrow> 'a list \<Rightarrow> 'a list" where
  "sort_key_rev f xs = rev (sort_key f (rev xs))"

lemma set_sort_key_rev [simp]: "set (sort_key_rev f xs) = set xs"
  by (simp add: sort_key_rev_def)

lemma hd_sort_key_le:
  assumes "xs \<noteq> []" "x \<in> set xs"
  shows "f (hd (sort_key f xs)) \<le> f x"
proof -
  have "sorted (map f (sort_key f xs))" by simp
  moreover obtain y ys where ys: "sort_key f xs = y # ys"
    using assms(1) by (metis list.exhaust length_sort length_0_conv)
  moreover have "x \<in> set (y # ys)"
    using assms(2) ys by (metis set_sort)
  ultimately show ?thesis by auto
qed

lemma hd_sort_key_in: "xs \<noteq> [] \<Longrightarrow> hd (sort_key f xs) \<in> set xs"
  by (metis hd_in_set length_0_conv length_sort set_sort)

lemma sort_key_Nil_iff [simp]: "sort_key f xs = [] \<longleftrightarrow> xs = []"
  by (metis length_0_conv length_sort)

section \<open>Sums over lists\<close>

lemma sum_list_filter_split:
  fixes f :: "'a \<Rightarrow> int"
  shows "sum_list (map f xs) = sum_list (map f (filter P xs)) + sum_list (map f (filter (\<lambda>x. \<not> P x) xs))"
  by (induction xs) auto

lemma sum_list_nonneg_int: "(\<And>x. x \<in> set xs \<Longrightarrow> (0::int) \<le> f x) \<Longrightarrow> 0 \<le> sum_list (map f xs)"
  by (induction xs) auto

lemma length_filter_mono: "(\<And>x. x \<in> set xs \<Longrightarrow> Q x \<Longrightarrow> P x) \<Longrightarrow> length (filter Q xs) \<le> length (filter P xs)"
  by (induction xs) (auto intro: le_SucI)

lemma length_filter_less:
  assumes "\<And>x. x \<in> set xs \<Longrightarrow> Q x \<Longrightarrow> P x" "y \<in> set xs" "P y" "\<not> Q y"
  shows "length (filter Q xs) < length (filter P xs)"
  using assms
proof (induction xs)
  case Nil
  then show ?case by simp
next
  case (Cons x xs)
  show ?case
  proof (cases "y = x")
    case True
    with Cons.prems length_filter_mono [of xs Q P] show ?thesis by simp
  next
    case False
    with Cons show ?thesis by auto
  qed
qed

section \<open>Strings\<close>

text \<open>Strings are lists of characters; \<open>lower\<close> and \<open>strip\<close> act on the ASCII range.\<close>

definition lower_char :: "char \<Rightarrow> char" where
  "lower_char c = (if CHR ''A'' \<le> c \<and> c \<le> CHR ''Z'' then char_of (of_char c + (32::nat)) else c)"

definition lower :: "string \<Rightarrow> string" where
  "lower s = map lower_char s"

definition is_space :: "char \<Rightarrow> bool" where
  "is_space c \<longleftrightarrow> of_char c \<in> {9, 10, 11, 12, 13, 28, 29, 30, 31, 32::nat}"

definition lstrip :: "string \<Rightarrow> string" where
  "lstrip s = dropWhile is_space s"

definition rstrip :: "string \<Rightarrow> string" where
  "rstrip s = rev (dropWhile is_space (rev s))"

definition strip :: "string \<Rightarrow> string" where
  "strip s = rstrip (lstrip s)"

definition rstrip_char :: "char \<Rightarrow> string \<Rightarrow> string" where
  "rstrip_char c s = rev (dropWhile (\<lambda>x. x = c) (rev s))"

definition startswith :: "string \<Rightarrow> string \<Rightarrow> bool" where
  "startswith s p = prefix p s"

definition endswith :: "string \<Rightarrow> string \<Rightarrow> bool" where
  "endswith s p = suffix p s"

text \<open>\<open>needle in haystack\<close>\<close>

definition contains :: "string \<Rightarrow> string \<Rightarrow> bool" where
  "contains needle hay = sublist needle hay"

definition replace_char :: "char \<Rightarrow> char \<Rightarrow> string \<Rightarrow> string" where
  "replace_char a b s = map (\<lambda>c. if c = a then b else c) s"

fun join :: "string \<Rightarrow> string list \<Rightarrow> string" where
  "join sep [] = []"
| "join sep [x] = x"
| "join sep (x # y # xs) = x @ sep @ join sep (y # xs)"

text \<open>\<open>s.split(c)\<close> for a one-character separator.\<close>

fun split_char :: "char \<Rightarrow> string \<Rightarrow> string list" where
  "split_char c [] = [[]]"
| "split_char c (x # xs) =
     (if x = c then [] # split_char c xs
      else (case split_char c xs of [] \<Rightarrow> [[x]] | y # ys \<Rightarrow> (x # y) # ys))"

lemmas str_defs [py_simps] = lower_def lower_char_def lstrip_def rstrip_def strip_def is_space_def
  rstrip_char_def startswith_def endswith_def contains_def replace_char_def

end
