(* ===== verification/PyJson.thy ===== *)
theory PyJson
  imports Prelude
begin

text \<open>
  The values of \<open>json.loads\<close> and the dictionary reads the request handlers make on them, and
  the decimal and floating point literals the metrics parsers read.
\<close>

section \<open>JSON values\<close>

datatype json =
    JNull
  | JBool bool
  | JInt int
  | JFloat pyfloat
  | JStr string
  | JList "json list"
  | JObj "(string \<times> json) list"

text \<open>\<open>d.get(k)\<close> on a value already known to be a dict; \<open>JNull\<close> is Python's \<open>None\<close>.\<close>

definition jget :: "(string, json) dict \<Rightarrow> string \<Rightarrow> json" where
  "jget d k = (case map_of d k of None \<Rightarrow> JNull | Some v \<Rightarrow> v)"

definition jhas :: "(string, json) dict \<Rightarrow> string \<Rightarrow> bool" where
  "jhas d k \<longleftrightarrow> map_of d k \<noteq> None"

lemma jhas_update [simp]: "jhas (AList.update k v d) k' \<longleftrightarrow> k' = k \<or> jhas d k'"
  by (simp add: jhas_def)

lemma jhas_delete [simp]: "jhas (AList.delete k d) k' \<longleftrightarrow> k' \<noteq> k \<and> jhas d k'"
  by (simp add: jhas_def)

text \<open>Python truthiness of a JSON value.\<close>

definition truthy :: "json \<Rightarrow> bool" where
  "truthy v = (case v of JNull \<Rightarrow> False | JBool b \<Rightarrow> b | JInt n \<Rightarrow> n \<noteq> 0
     | JFloat x \<Rightarrow> x \<noteq> Real 0 | JStr s \<Rightarrow> s \<noteq> [] | JList xs \<Rightarrow> xs \<noteq> [] | JObj d \<Rightarrow> d \<noteq> [])"

text \<open>
  \<open>isinstance(v, (int, float)) and math.isfinite(v)\<close>, and then \<open>int(v)\<close>. A Python bool is an
  int.
\<close>

definition finite_int :: "json \<Rightarrow> int option" where
  "finite_int v = (case v of JInt n \<Rightarrow> Some n | JBool b \<Rightarrow> Some (of_bool b)
     | JFloat (Real x) \<Rightarrow> Some (trunc_int x) | _ \<Rightarrow> None)"

section \<open>Decimal literals\<close>

definition is_digit :: "char \<Rightarrow> bool" where
  "is_digit c \<longleftrightarrow> CHR ''0'' \<le> c \<and> c \<le> CHR ''9''"

definition digit_val :: "char \<Rightarrow> nat" where
  "digit_val c = of_char c - 48"

definition digits_val :: "string \<Rightarrow> nat" where
  "digits_val s = foldl (\<lambda>n c. 10 * n + digit_val c) 0 s"

text \<open>\<open>int(s)\<close> of a string: blanks around, a sign, digits that may be grouped by single underscores.\<close>

fun grouped_digits :: "string \<Rightarrow> bool" where
  "grouped_digits [] = False"
| "grouped_digits [c] = is_digit c"
| "grouped_digits (c # d # cs) =
     (is_digit c \<and> (if d = CHR ''_'' then grouped_digits cs else grouped_digits (d # cs)))"

definition parse_int :: "string \<Rightarrow> int option" where
  "parse_int s =
     (let t = strip s;
          (neg, body) = (case t of
              c # cs \<Rightarrow> if c = CHR ''-'' then (True, cs) else if c = CHR ''+'' then (False, cs) else (False, t)
            | [] \<Rightarrow> (False, []))
      in if grouped_digits body
         then Some ((if neg then -1 else 1) * int (digits_val (filter (\<lambda>c. c \<noteq> CHR ''_'') body)))
         else None)"

text \<open>\<open>int(v)\<close>: an infinite float overflows, a NaN and a bad string are value errors, the rest are
  type errors.\<close>

definition py_int :: "json \<Rightarrow> py_error + int" where
  "py_int v =
     (case v of
        JInt n \<Rightarrow> Inr n
      | JBool b \<Rightarrow> Inr (of_bool b)
      | JFloat (Real x) \<Rightarrow> Inr (trunc_int x)
      | JFloat NaN \<Rightarrow> Inl ValueError
      | JFloat _ \<Rightarrow> Inl OverflowError
      | JStr s \<Rightarrow> (case parse_int s of None \<Rightarrow> Inl ValueError | Some n \<Rightarrow> Inr n)
      | _ \<Rightarrow> Inl TypeError)"

lemma digits_val_snoc [simp]: "digits_val (s @ [c]) = 10 * digits_val s + digit_val c"
  by (simp add: digits_val_def)

lemma is_digit_not_space: "is_digit c \<Longrightarrow> \<not> is_space c"
  by (auto simp: is_digit_def is_space_def less_eq_char_def)

text \<open>
  \<open>float(s)\<close>, None where it raises ValueError: an optional sign, digits with an optional
  fraction (one of the two parts nonempty), an optional exponent.
\<close>

definition parse_sign :: "string \<Rightarrow> real \<times> string" where
  "parse_sign s = (case s of c # r \<Rightarrow>
       if c = CHR ''+'' then (1, r) else if c = CHR ''-'' then (-1, r) else (1, s)
     | [] \<Rightarrow> (1, s))"

definition parse_exponent :: "string \<Rightarrow> real option" where
  "parse_exponent s = (case s of [] \<Rightarrow> Some 1
     | c # r \<Rightarrow> if c = CHR ''e'' \<or> c = CHR ''E'' then
         (let (sg, ds) = parse_sign r in
            if ds \<noteq> [] \<and> list_all is_digit ds
            then Some (if sg = 1 then 10 ^ digits_val ds else 1 / 10 ^ digits_val ds)
            else None)
       else None)"

definition parse_float :: "string \<Rightarrow> real option" where
  "parse_float s =
     (let (sg, s1) = parse_sign s;
          ip = takeWhile is_digit s1;
          r1 = dropWhile is_digit s1;
          (fp, r2) = (case r1 of c # r \<Rightarrow> if c = CHR ''.''
                        then (takeWhile is_digit r, dropWhile is_digit r) else ([], r1)
                      | [] \<Rightarrow> ([], r1))
      in if ip = [] \<and> fp = [] then None
         else map_option (\<lambda>e. sg * (real (digits_val ip) + real (digits_val fp) / 10 ^ length fp) * e)
                (parse_exponent r2))"

lemma takeWhile_all_digits: "list_all is_digit ds \<Longrightarrow> takeWhile is_digit ds = ds"
  by (simp add: list_all_iff)

lemma parse_sign_digit: "list_all is_digit ds \<Longrightarrow> parse_sign ds = (1, ds)"
  by (cases ds) (auto simp: parse_sign_def is_digit_def less_eq_char_def)

lemma parse_float_digits:
  assumes "ds \<noteq> []" "list_all is_digit ds"
  shows "parse_float ds = Some (real (digits_val ds))"
proof -
  have d: "dropWhile is_digit ds = []" using assms(2) by (simp add: list_all_iff)
  have e: "parse_exponent [] = Some 1" by (simp add: parse_exponent_def)
  have z: "digits_val [] = 0" by (simp add: digits_val_def)
  show ?thesis
    by (simp add: parse_float_def Let_def parse_sign_digit takeWhile_all_digits d e z assms)
qed

section \<open>Prometheus samples\<close>

text \<open>
  \<open>re.search(NAME\{[^}]*\}\s+([CLS]+), text)\<close>: the leftmost position at which the name, a label
  block up to the first closing brace, white space and a nonempty run of the class follow.
  White space and the class are disjoint, so the greedy runs never backtrack.
\<close>

fun search_first :: "(string \<Rightarrow> 'a option) \<Rightarrow> string \<Rightarrow> 'a option" where
  "search_first f [] = f []"
| "search_first f (c # s) = (case f (c # s) of Some g \<Rightarrow> Some g | None \<Rightarrow> search_first f s)"

definition sample_at ::
  "string \<Rightarrow> (string \<Rightarrow> bool) \<Rightarrow> (char \<Rightarrow> bool) \<Rightarrow> string \<Rightarrow> string option" where
  "sample_at name labels_ok cls s =
     (if prefix (name @ ''{'') s
      then (let r = drop (length name + 1) s;
                labels = takeWhile (\<lambda>c. c \<noteq> CHR ''}'') r
            in case dropWhile (\<lambda>c. c \<noteq> CHR ''}'') r of
                 [] \<Rightarrow> None
               | _ # r2 \<Rightarrow>
                   (let g = takeWhile cls (dropWhile is_space r2)
                    in if labels_ok labels \<and> takeWhile is_space r2 \<noteq> [] \<and> g \<noteq> []
                       then Some g else None))
      else None)"

definition cls_plain :: "char \<Rightarrow> bool" where
  "cls_plain c \<longleftrightarrow> is_digit c \<or> c = CHR ''.''"

definition cls_sci :: "char \<Rightarrow> bool" where
  "cls_sci c \<longleftrightarrow> is_digit c \<or> c \<in> set ''.eE+''"

text \<open>\<open>extract_value\<close>: the captured run as a float, None when absent or not a float.\<close>

definition extract_value ::
  "string \<Rightarrow> (string \<Rightarrow> bool) \<Rightarrow> (char \<Rightarrow> bool) \<Rightarrow> string \<Rightarrow> real option" where
  "extract_value name labels_ok cls txt =
     (case search_first (sample_at name labels_ok cls) txt of
        None \<Rightarrow> None | Some g \<Rightarrow> parse_float g)"

text \<open>A quoted decimal label: \<open>re.search(KEY="(\d+)", labels)\<close>.\<close>

definition label_at :: "string \<Rightarrow> string \<Rightarrow> string option" where
  "label_at key s =
     (if prefix (key @ [CHR ''='', CHR 0x22]) s
      then (let r = drop (length key + 2) s; ds = takeWhile is_digit r
            in if ds \<noteq> [] \<and> prefix [CHR 0x22] (dropWhile is_digit r) then Some ds else None)
      else None)"

lemma search_first_skip:
  "(\<And>p q. pre = p @ q \<Longrightarrow> q \<noteq> [] \<Longrightarrow> f (q @ s) = None) \<Longrightarrow>
   search_first f (pre @ s) = search_first f s"
proof (induction pre)
  case Nil
  then show ?case by simp
next
  case (Cons c pre)
  have "f (c # pre @ s) = None" using Cons.prems [of "[]" "c # pre"] by simp
  moreover have "search_first f (pre @ s) = search_first f s"
  proof (rule Cons.IH)
    fix p q assume "pre = p @ q" "q \<noteq> []"
    then show "f (q @ s) = None" using Cons.prems [of "c # p" q] by simp
  qed
  ultimately show ?case by simp
qed

lemma search_first_hit: "f s = Some g \<Longrightarrow> search_first f s = Some g"
  by (cases s) auto

text \<open>
  A line \<open>NAME{labels} value\<close> followed by a character outside the class yields its value.
\<close>

lemma sample_at_line:
  assumes labels: "CHR ''}'' \<notin> set labels" "labels_ok labels"
    and g: "g \<noteq> []" "list_all cls g"
    and cls: "\<And>c. cls c \<Longrightarrow> \<not> is_space c"
    and rest: "rest = [] \<or> \<not> cls (hd rest)"
  shows "sample_at name labels_ok cls (name @ ''{'' @ labels @ ''} '' @ g @ rest) = Some g"
proof -
  have tl: "takeWhile (\<lambda>c. c \<noteq> CHR ''}'') (labels @ ''} '' @ g @ rest) = labels"
    using labels(1) by (subst takeWhile_append2) auto
  have dl: "dropWhile (\<lambda>c. c \<noteq> CHR ''}'') (labels @ ''} '' @ g @ rest) = ''} '' @ g @ rest"
    using labels(1) by (subst dropWhile_append2) auto
  have allcls: "\<forall>c\<in>set g. cls c" using g(2) by (simp add: list_all_iff)
  have sp: "dropWhile is_space (CHR '' '' # g @ rest) = g @ rest"
    using g(1) allcls cls by (cases g) (auto simp: is_space_def)
  have run: "takeWhile cls (g @ rest) = g"
    using allcls rest by (subst takeWhile_append2) (auto, cases rest, auto)
  have dr: "drop (length name + 1) (name @ ''{'' @ labels @ ''} '' @ g @ rest) = labels @ ''} '' @ g @ rest"
    by simp
  have ws: "takeWhile is_space (CHR '' '' # g @ rest) \<noteq> []"
    by (simp add: is_space_def)
  have px: "prefix (name @ ''{'') (name @ ''{'' @ labels @ ''} '' @ g @ rest)"
    by (simp add: prefix_def)
  show ?thesis
    unfolding sample_at_def Let_def dr tl dl using px ws sp run g(1) labels(2) by simp
qed

lemma cls_plain_digit: "is_digit c \<Longrightarrow> cls_plain c"
  and cls_sci_digit: "is_digit c \<Longrightarrow> cls_sci c"
  by (simp_all add: cls_plain_def cls_sci_def)

lemma cls_plain_not_space: "cls_plain c \<Longrightarrow> \<not> is_space c"
  using is_digit_not_space [of c] by (auto simp: cls_plain_def) (simp add: is_space_def)

lemma cls_sci_not_space: "cls_sci c \<Longrightarrow> \<not> is_space c"
  using is_digit_not_space [of c] by (auto simp: cls_sci_def) (simp_all add: is_space_def)

lemma prefix_append_cut:
  "prefix p (q @ p' @ r) \<Longrightarrow> length p = length p' \<Longrightarrow> prefix p (q @ p')"
  by (metis append.assoc append_Nil2 le_add2 length_append prefix_length_prefix prefix_prefix prefixI)

text \<open>No sample of that name starts inside \<open>pre\<close>.\<close>

definition no_earlier :: "string \<Rightarrow> string \<Rightarrow> bool" where
  "no_earlier name pre \<longleftrightarrow>
     list_all (\<lambda>q. q \<noteq> [] \<longrightarrow> \<not> prefix (name @ ''{'') (q @ name @ ''{'')) (suffixes pre)"

lemma no_earlier_sample:
  assumes "no_earlier name pre" and "pre = p @ q" "q \<noteq> []"
  shows "sample_at name ok cls (q @ name @ ''{'' @ s) = None"
proof -
  have "q \<in> set (suffixes pre)" using assms(2) by (simp add: suffix_def)
  then have "\<not> prefix (name @ ''{'') (q @ name @ ''{'')"
    using assms(1,3) by (auto simp: no_earlier_def list_all_iff)
  then have "\<not> prefix (name @ ''{'') (q @ (name @ ''{'') @ s)"
    using prefix_append_cut [of "name @ ''{''" q "name @ ''{''" s] by auto
  then show ?thesis by (simp add: sample_at_def)
qed

lemma extract_value_line:
  assumes pre: "no_earlier name pre"
    and "CHR ''}'' \<notin> set labels" "labels_ok labels"
    and "g \<noteq> []" "list_all cls g" "\<And>c. cls c \<Longrightarrow> \<not> is_space c"
    and "rest = [] \<or> \<not> cls (hd rest)"
  shows "extract_value name labels_ok cls (pre @ name @ ''{'' @ labels @ ''} '' @ g @ rest) = parse_float g"
proof -
  have "search_first (sample_at name labels_ok cls) (pre @ name @ ''{'' @ labels @ ''} '' @ g @ rest)
      = search_first (sample_at name labels_ok cls) (name @ ''{'' @ labels @ ''} '' @ g @ rest)"
    by (rule search_first_skip) (rule no_earlier_sample [OF pre])
  also have "\<dots> = Some g"
    by (rule search_first_hit, rule sample_at_line) (fact assms(2-7))+
  finally show ?thesis
    by (simp add: extract_value_def)
qed

text \<open>\<open>digits.digits\<close>, the way a Prometheus client prints a gauge.\<close>

lemma digit_val_le: "is_digit c \<Longrightarrow> digit_val c \<le> 9"
proof -
  assume "is_digit c"
  then have "(of_char c :: nat) \<le> 57" by (simp add: is_digit_def less_eq_char_def)
  then show ?thesis by (simp add: digit_val_def)
qed

lemma digits_val_bound: "list_all is_digit ds \<Longrightarrow> digits_val ds < 10 ^ length ds"
proof (induction ds rule: rev_induct)
  case Nil
  then show ?case by (simp add: digits_val_def)
next
  case (snoc c ds)
  then have "digits_val ds < 10 ^ length ds" "digit_val c \<le> 9"
    by (auto simp: digit_val_le)
  then show ?case by simp
qed

lemma parse_float_decimal:
  assumes "ds \<noteq> []" "list_all is_digit ds" "list_all is_digit fs"
  shows "parse_float (ds @ ''.'' @ fs) = Some (real (digits_val ds) + real (digits_val fs) / 10 ^ length fs)"
proof -
  have nd: "\<not> is_digit (CHR ''.'')" by (simp add: is_digit_def less_eq_char_def)
  have t: "takeWhile is_digit (ds @ CHR ''.'' # fs) = ds" "dropWhile is_digit (ds @ CHR ''.'' # fs) = CHR ''.'' # fs"
    using assms(2) nd by (simp_all add: list_all_iff takeWhile_append2 dropWhile_append2)
  have d: "dropWhile is_digit fs = []" using assms(3) by (simp add: list_all_iff)
  have e: "parse_exponent [] = Some 1" by (simp add: parse_exponent_def)
  have sg: "parse_sign (ds @ CHR ''.'' # fs) = (1, ds @ CHR ''.'' # fs)"
    using assms(1,2) by (cases ds) (auto simp: parse_sign_def is_digit_def less_eq_char_def)
  show ?thesis
    by (simp add: parse_float_def Let_def sg t d e takeWhile_all_digits assms)
qed

lemma trunc_decimal:
  assumes "list_all is_digit fs"
  shows "trunc_int (real n + real (digits_val fs) / 10 ^ length fs) = int n"
proof -
  have "real (digits_val fs) < 10 ^ length fs"
    using digits_val_bound [OF assms] by (metis of_nat_less_iff of_nat_numeral of_nat_power)
  then have "0 \<le> real (digits_val fs) / 10 ^ length fs" "real (digits_val fs) / 10 ^ length fs < 1"
    by simp_all
  then have "\<lfloor>real n + real (digits_val fs) / 10 ^ length fs\<rfloor> = int n"
    by (intro floor_unique) simp_all
  moreover have "0 \<le> real n + real (digits_val fs) / 10 ^ length fs" by simp
  ultimately show ?thesis unfolding trunc_int_def by (simp only: if_True)
qed

end
