(* ===== verification/Metrics.thy ===== *)
theory Metrics
  imports PyJson
begin

text \<open>
  The metrics clients of the proxy (\<open>scheduler/ThunderAgent/backend/vllm_metrics.py\<close>,
  \<open>sglang_metrics.py\<close>, \<open>skyrl_metrics.py\<close>): parsing of a scrape, the sample history, the
  health flag and the derived quantities. The HTTP exchange itself is an argument: each fetch
  takes what the request produced (a raised exception, or a status and a body).
  The abstract class \<open>MetricsClient\<close> (\<open>metrics_base.py\<close>) is the locale \<open>metrics_interface\<close>.
\<close>

datatype 'b response = Raised | Response int 'b

section \<open>vLLM: cache configuration and samples\<close>

record vllm_cache_config =
  block_size :: int
  num_gpu_blocks :: int

definition vllm_total_tokens_capacity :: "vllm_cache_config \<Rightarrow> int" where
  "vllm_total_tokens_capacity c = block_size c * num_gpu_blocks c"

text \<open>\<open>re.search(r'vllm:cache_config_info\{([^}]+)\}', text)\<close> at one position.\<close>

definition label_block_at :: "string \<Rightarrow> string \<Rightarrow> string option" where
  "label_block_at name s =
     (if prefix (name @ ''{'') s
      then (let r = drop (length name + 1) s; labels = takeWhile (\<lambda>c. c \<noteq> CHR ''}'') r
            in if labels \<noteq> [] \<and> dropWhile (\<lambda>c. c \<noteq> CHR ''}'') r \<noteq> [] then Some labels else None)
      else None)"

definition vllm_cache_from_text :: "string \<Rightarrow> vllm_cache_config" where
  "vllm_cache_from_text txt =
     (case search_first (label_block_at ''vllm:cache_config_info'') txt of
        None \<Rightarrow> \<lparr>block_size = 0, num_gpu_blocks = 0\<rparr>
      | Some labels \<Rightarrow>
          \<lparr>block_size = (case search_first (label_at ''block_size'') labels of
              None \<Rightarrow> 0 | Some ds \<Rightarrow> int (digits_val ds)),
           num_gpu_blocks = (case search_first (label_at ''num_gpu_blocks'') labels of
              None \<Rightarrow> 0 | Some ds \<Rightarrow> int (digits_val ds))\<rparr>)"

record vllm_metrics =
  v_num_requests_running :: int
  v_num_requests_waiting :: int
  v_kv_cache_usage_perc :: real
  v_prefix_cache_queries :: int
  v_prefix_cache_hits :: int
  v_prompt_tokens_total :: int
  v_generation_tokens_total :: int
  v_num_preemptions :: int
  v_request_success_stop :: int
  v_request_success_length :: int
  v_request_success_abort :: int
  v_request_success_error :: int
  v_timestamp :: real

definition vllm_prefix_cache_hit_rate :: "vllm_metrics \<Rightarrow> real" where
  "vllm_prefix_cache_hit_rate m =
     (if v_prefix_cache_queries m = 0 then 0
      else real_of_int (v_prefix_cache_hits m) / real_of_int (v_prefix_cache_queries m))"

definition vllm_total_requests_completed :: "vllm_metrics \<Rightarrow> int" where
  "vllm_total_requests_completed m =
     v_request_success_stop m + v_request_success_length m
     + v_request_success_abort m + v_request_success_error m"

text \<open>The default of an integer field, or the truncated sample when the scrape has one.\<close>

definition int_sample :: "real option \<Rightarrow> int" where
  "int_sample v = (case v of None \<Rightarrow> 0 | Some x \<Rightarrow> trunc_int x)"

definition real_sample :: "real option \<Rightarrow> real" where
  "real_sample v = (case v of None \<Rightarrow> 0 | Some x \<Rightarrow> x)"

text \<open>\<open>finished_reason="REASON"\<close> occurs in the label block.\<close>

definition has_reason :: "string \<Rightarrow> string \<Rightarrow> bool" where
  "has_reason reason labels =
     contains (''finished_reason='' @ [CHR 0x22] @ reason @ [CHR 0x22]) labels"

definition any_labels :: "string \<Rightarrow> bool" where
  "any_labels labels = True"

definition vllm_metrics_from_text :: "real \<Rightarrow> string \<Rightarrow> vllm_metrics" where
  "vllm_metrics_from_text now txt =
     \<lparr>v_num_requests_running =
        int_sample (extract_value ''vllm:num_requests_running'' any_labels cls_plain txt),
      v_num_requests_waiting =
        int_sample (extract_value ''vllm:num_requests_waiting'' any_labels cls_plain txt),
      v_kv_cache_usage_perc =
        real_sample (extract_value ''vllm:kv_cache_usage_perc'' any_labels cls_plain txt),
      v_prefix_cache_queries =
        int_sample (extract_value ''vllm:prefix_cache_queries_total'' any_labels cls_sci txt),
      v_prefix_cache_hits =
        int_sample (extract_value ''vllm:prefix_cache_hits_total'' any_labels cls_sci txt),
      v_prompt_tokens_total =
        int_sample (extract_value ''vllm:prompt_tokens_total'' any_labels cls_sci txt),
      v_generation_tokens_total =
        int_sample (extract_value ''vllm:generation_tokens_total'' any_labels cls_sci txt),
      v_num_preemptions =
        int_sample (extract_value ''vllm:num_preemptions_total'' any_labels cls_sci txt),
      v_request_success_stop =
        int_sample (extract_value ''vllm:request_success_total'' (has_reason ''stop'') cls_plain txt),
      v_request_success_length =
        int_sample (extract_value ''vllm:request_success_total'' (has_reason ''length'') cls_plain txt),
      v_request_success_abort =
        int_sample (extract_value ''vllm:request_success_total'' (has_reason ''abort'') cls_plain txt),
      v_request_success_error =
        int_sample (extract_value ''vllm:request_success_total'' (has_reason ''error'') cls_plain txt),
      v_timestamp = now\<rparr>"

section \<open>SGLang: capacity and samples\<close>

record sglang_cache_config =
  sg_total_tokens_capacity :: int

record sglang_metrics =
  s_num_requests_running :: int
  s_num_requests_waiting :: int
  s_token_usage :: real
  s_cache_hit_rate :: real
  s_num_used_tokens :: int
  s_prompt_tokens_total :: int
  s_generation_tokens_total :: int
  s_timestamp :: real

definition sglang_metrics_from_text :: "real \<Rightarrow> string \<Rightarrow> sglang_metrics" where
  "sglang_metrics_from_text now txt =
     \<lparr>s_num_requests_running =
        int_sample (extract_value ''sglang:num_running_reqs'' any_labels cls_sci txt),
      s_num_requests_waiting =
        int_sample (extract_value ''sglang:num_queue_reqs'' any_labels cls_sci txt),
      s_token_usage =
        real_sample (extract_value ''sglang:token_usage'' any_labels cls_sci txt),
      s_cache_hit_rate =
        real_sample (extract_value ''sglang:cache_hit_rate'' any_labels cls_sci txt),
      s_num_used_tokens =
        int_sample (extract_value ''sglang:num_used_tokens'' any_labels cls_sci txt),
      s_prompt_tokens_total =
        int_sample (extract_value ''sglang:prompt_tokens_total'' any_labels cls_sci txt),
      s_generation_tokens_total =
        int_sample (extract_value ''sglang:generation_tokens_total'' any_labels cls_sci txt),
      s_timestamp = now\<rparr>"

text \<open>\<open>_strip_v1\<close> and the endpoint URLs.\<close>

definition strip_v1 :: "string \<Rightarrow> string" where
  "strip_v1 url =
     (let base = rstrip_char (CHR ''/'') url
      in if endswith base ''/v1'' then take (length base - 3) base else base)"

definition sglang_metrics_url :: "string \<Rightarrow> string" where
  "sglang_metrics_url url = strip_v1 url @ ''/metrics''"

definition sglang_server_info_url :: "string \<Rightarrow> string" where
  "sglang_server_info_url url = strip_v1 url @ ''/get_server_info''"

text \<open>\<open>float(s)\<close> of an arbitrary string (digit grouping by underscores left out).\<close>

definition parse_pyfloat :: "string \<Rightarrow> pyfloat option" where
  "parse_pyfloat s =
     (let t = lower (strip s); (sg, body) = parse_sign t
      in if body \<in> {''inf'', ''infinity''} then Some (if sg = 1 then PosInf else NegInf)
         else if body = ''nan'' then Some NaN
         else map_option Real (parse_float t))"

text \<open>\<open>isinstance(v, (int, float)) and v > 0\<close>, then \<open>int(v)\<close>, which raises on an infinity.\<close>

definition positive_number :: "json \<Rightarrow> bool" where
  "positive_number v = (case v of JInt n \<Rightarrow> 0 < n | JBool b \<Rightarrow> b
     | JFloat (Real x) \<Rightarrow> 0 < x | JFloat PosInf \<Rightarrow> True | _ \<Rightarrow> False)"

definition int_of_number :: "json \<Rightarrow> py_error + int" where
  "int_of_number v = (case finite_int v of Some n \<Rightarrow> Inr n
     | None \<Rightarrow> Inl (if v = JFloat NaN then ValueError else OverflowError))"

fun memory_capacities :: "json list \<Rightarrow> py_error + int list" where
  "memory_capacities [] = Inr []"
| "memory_capacities (JObj st # xs) =
     (case jget st ''memory_usage'' of
        JObj mem \<Rightarrow>
          (let cap = jget mem ''token_capacity''
           in if positive_number cap
              then (case int_of_number cap of Inl e \<Rightarrow> Inl e
                    | Inr n \<Rightarrow> map_sum id ((#) n) (memory_capacities xs))
              else memory_capacities xs)
      | _ \<Rightarrow> memory_capacities xs)"
| "memory_capacities (_ # xs) = memory_capacities xs"

definition capacity_from_states :: "(string, json) dict \<Rightarrow> py_error + int option" where
  "capacity_from_states data =
     (case jget data ''internal_states'' of
        JList states \<Rightarrow> map_sum id (\<lambda>cs. if cs = [] then None else Some (Max (set cs)))
                          (memory_capacities states)
      | _ \<Rightarrow> Inr None)"

definition extract_capacity_from_dict :: "(string, json) dict \<Rightarrow> py_error + int option" where
  "extract_capacity_from_dict data =
     (let val = jget data ''max_total_num_tokens''
      in if positive_number val then map_sum id Some (int_of_number val)
         else (case val of
            JStr s \<Rightarrow>
              (case parse_pyfloat s of
                 Some (Real x) \<Rightarrow> if 0 < trunc_int x then Inr (Some (trunc_int x))
                                  else capacity_from_states data
               | Some PosInf \<Rightarrow> Inl OverflowError
               | Some NegInf \<Rightarrow> Inl OverflowError
               | _ \<Rightarrow> capacity_from_states data)
          | _ \<Rightarrow> capacity_from_states data))"

definition extract_capacity :: "json \<Rightarrow> py_error + int option" where
  "extract_capacity v = (case v of
     JObj data \<Rightarrow>
       (case extract_capacity_from_dict data of
          Inl e \<Rightarrow> Inl e
        | Inr (Some c) \<Rightarrow> Inr (Some c)
        | Inr None \<Rightarrow> (case jget data ''server_info'' of
              JObj nested \<Rightarrow> extract_capacity_from_dict nested
            | _ \<Rightarrow> Inr None))
   | _ \<Rightarrow> Inr None)"

section \<open>SkyRL: aggregation over engines\<close>

record skyrl_cache_config =
  sk_total_tokens_capacity :: int
  sk_num_engines :: int

record skyrl_metrics =
  k_num_requests_running :: int
  k_num_requests_waiting :: int
  k_kv_cache_usage_perc :: real
  k_num_preemptions :: int
  k_num_engines :: int
  k_timestamp :: real

text \<open>One entry of the \<open>engines\<close> list: one with an \<open>error\<close> key, or the four optional numbers.\<close>

datatype skyrl_engine =
    EngineError
  | Engine "int option" "int option" "int option" "real option"

definition or_zero :: "'a::zero option \<Rightarrow> 'a" where
  "or_zero v = (case v of None \<Rightarrow> 0 | Some x \<Rightarrow> x)"

fun skyrl_sums :: "skyrl_engine list \<Rightarrow> int \<times> int \<times> int \<times> real list" where
  "skyrl_sums [] = (0, 0, 0, [])"
| "skyrl_sums (EngineError # es) = skyrl_sums es"
| "skyrl_sums (Engine r w p u # es) =
     (case skyrl_sums es of (tr, tw, tp, us) \<Rightarrow>
        (or_zero r + tr, or_zero w + tw, or_zero p + tp, or_zero u # us))"

definition skyrl_aggregate :: "real \<Rightarrow> skyrl_engine list \<Rightarrow> skyrl_metrics" where
  "skyrl_aggregate now es =
     (case skyrl_sums es of (tr, tw, tp, us) \<Rightarrow>
        \<lparr>k_num_requests_running = tr, k_num_requests_waiting = tw,
         k_kv_cache_usage_perc = (if us = [] then 0 else sum_list us / real (length us)),
         k_num_preemptions = tp, k_num_engines = int (length es), k_timestamp = now\<rparr>)"

section \<open>The client object\<close>

text \<open>
  The three client classes have the same fields: \<open>'m\<close> is the sample type, \<open>'c\<close> the cache
  configuration. \<open>mc_client\<close> and \<open>mc_monitor_task\<close> say whether the field is not None.
\<close>

record ('m, 'c) mclient =
  mc_url :: string
  mc_healthy :: bool
  mc_history :: "'m list"
  mc_cache_config :: "'c option"
  mc_client :: bool
  mc_monitor_task :: bool
  mc_monitor_stop :: bool

definition METRICS_HISTORY_SIZE :: nat where
  "METRICS_HISTORY_SIZE = 12"

definition mclient_init :: "string \<Rightarrow> ('m, 'c) mclient" where
  "mclient_init url =
     \<lparr>mc_url = url, mc_healthy = True, mc_history = [], mc_cache_config = None,
      mc_client = False, mc_monitor_task = False, mc_monitor_stop = False\<rparr>"

definition latest_metrics :: "('m, 'c) mclient \<Rightarrow> 'm option" where
  "latest_metrics c = (if mc_history c = [] then None else Some (last (mc_history c)))"

definition is_monitoring :: "('m, 'c) mclient \<Rightarrow> bool" where
  "is_monitoring c = mc_monitor_task c"

text \<open>Append a sample and keep the most recent ones: \<open>history[-METRICS_HISTORY_SIZE:]\<close>.\<close>

definition push_sample :: "'m \<Rightarrow> 'm list \<Rightarrow> 'm list" where
  "push_sample m h =
     (let h' = h @ [m]
      in if METRICS_HISTORY_SIZE < length h' then drop (length h' - METRICS_HISTORY_SIZE) h' else h')"

definition record_sample :: "('m, 'c) mclient \<Rightarrow> 'm \<Rightarrow> ('m, 'c) mclient" where
  "record_sample c m = c\<lparr>mc_history := push_sample m (mc_history c), mc_healthy := True\<rparr>"

type_synonym vllm_client = "(vllm_metrics, vllm_cache_config) mclient"
type_synonym sglang_client = "(sglang_metrics, sglang_cache_config) mclient"
type_synonym skyrl_client = "(skyrl_metrics, skyrl_cache_config) mclient"

definition vllm_fetch_cache_config :: "string response \<Rightarrow> vllm_client \<Rightarrow> vllm_client \<times> bool" where
  "vllm_fetch_cache_config resp c =
     (case resp of
        Response code txt \<Rightarrow>
          if code = 200 then (c\<lparr>mc_cache_config := Some (vllm_cache_from_text txt)\<rparr>, True)
          else (c, False)
      | Raised \<Rightarrow> (c, False))"

definition vllm_fetch_metrics :: "real \<Rightarrow> string response \<Rightarrow> vllm_client \<Rightarrow> vllm_client \<times> bool" where
  "vllm_fetch_metrics now resp c =
     (if \<not> mc_client c then (c, False)
      else case resp of
        Response code txt \<Rightarrow>
          if code = 200 then (record_sample c (vllm_metrics_from_text now txt), True)
          else (c\<lparr>mc_healthy := False\<rparr>, False)
      | Raised \<Rightarrow> (c\<lparr>mc_healthy := False\<rparr>, False))"

definition vllm_calculate_shared_tokens :: "vllm_client \<Rightarrow> int \<Rightarrow> int" where
  "vllm_calculate_shared_tokens c reasoning =
     (case (latest_metrics c, mc_cache_config c) of
        (Some m, Some cfg) \<Rightarrow>
          max 0 (reasoning - trunc_int (v_kv_cache_usage_perc m * real_of_int (vllm_total_tokens_capacity cfg)))
      | _ \<Rightarrow> 0)"

text \<open>\<open>resp.json()\<close> raises for a body that is not JSON: \<open>None\<close> here.\<close>

definition sglang_fetch_cache_config :: "json option response \<Rightarrow> sglang_client \<Rightarrow> sglang_client \<times> bool" where
  "sglang_fetch_cache_config resp c =
     (case resp of
        Response code (Some data) \<Rightarrow>
          if code \<noteq> 200 then (c, False)
          else (case extract_capacity data of
                  Inr (Some cap) \<Rightarrow> (c\<lparr>mc_cache_config := Some \<lparr>sg_total_tokens_capacity = cap\<rparr>\<rparr>, True)
                | _ \<Rightarrow> (c, False))
      | _ \<Rightarrow> (c, False))"

definition sglang_fetch_metrics :: "real \<Rightarrow> string response \<Rightarrow> sglang_client \<Rightarrow> sglang_client \<times> bool" where
  "sglang_fetch_metrics now resp c =
     (if \<not> mc_client c then (c, False)
      else case resp of
        Response code txt \<Rightarrow>
          if code = 200 then (record_sample c (sglang_metrics_from_text now txt), True)
          else (c\<lparr>mc_healthy := False\<rparr>, False)
      | Raised \<Rightarrow> (c\<lparr>mc_healthy := False\<rparr>, False))"

definition sglang_calculate_shared_tokens :: "sglang_client \<Rightarrow> int \<Rightarrow> int" where
  "sglang_calculate_shared_tokens c reasoning =
     (case (latest_metrics c, mc_cache_config c) of
        (Some m, Some cfg) \<Rightarrow>
          max 0 (reasoning - trunc_int (s_token_usage m * real_of_int (sg_total_tokens_capacity cfg)))
      | _ \<Rightarrow> 0)"

definition DEFAULT_TOKENS_PER_ENGINE :: int where
  "DEFAULT_TOKENS_PER_ENGINE = 200000"

definition skyrl_fetch_cache_config :: "skyrl_engine list option response \<Rightarrow> skyrl_client \<Rightarrow> skyrl_client \<times> bool" where
  "skyrl_fetch_cache_config resp c =
     (case resp of
        Response code (Some es) \<Rightarrow>
          if code \<noteq> 200 \<or> es = [] then (c, False)
          else (c\<lparr>mc_cache_config := Some
                   \<lparr>sk_total_tokens_capacity = int (length es) * DEFAULT_TOKENS_PER_ENGINE,
                    sk_num_engines = int (length es)\<rparr>\<rparr>, True)
      | _ \<Rightarrow> (c, False))"

definition skyrl_fetch_metrics :: "real \<Rightarrow> skyrl_engine list option response \<Rightarrow> skyrl_client \<Rightarrow> skyrl_client \<times> bool" where
  "skyrl_fetch_metrics now resp c =
     (if \<not> mc_client c then (c, False)
      else case resp of
        Response code (Some es) \<Rightarrow>
          if code \<noteq> 200 \<or> es = [] then (c\<lparr>mc_healthy := False\<rparr>, False)
          else (record_sample c (skyrl_aggregate now es), True)
      | _ \<Rightarrow> (c\<lparr>mc_healthy := False\<rparr>, False))"

definition skyrl_calculate_shared_tokens :: "skyrl_client \<Rightarrow> int \<Rightarrow> int" where
  "skyrl_calculate_shared_tokens c reasoning =
     (case (latest_metrics c, mc_cache_config c) of
        (Some m, Some cfg) \<Rightarrow>
          max 0 (reasoning - trunc_int (k_kv_cache_usage_perc m / 100 * real_of_int (sk_total_tokens_capacity cfg)))
      | _ \<Rightarrow> 0)"

text \<open>
  \<open>start_monitoring\<close> (the same in the three classes but for the configuration fetch, here a
  function of the client) and \<open>stop_monitoring\<close>.
\<close>

definition start_monitoring ::
  "(('m, 'c) mclient \<Rightarrow> ('m, 'c) mclient \<times> bool) \<Rightarrow> ('m, 'c) mclient \<Rightarrow> ('m, 'c) mclient" where
  "start_monitoring fetch_config c =
     (if mc_monitor_task c then c
      else (fst (fetch_config (c\<lparr>mc_monitor_stop := False, mc_client := True\<rparr>)))\<lparr>mc_monitor_task := True\<rparr>)"

definition stop_monitoring :: "('m, 'c) mclient \<Rightarrow> ('m, 'c) mclient" where
  "stop_monitoring c =
     (if \<not> mc_monitor_task c then c
      else c\<lparr>mc_monitor_stop := True, mc_monitor_task := False, mc_client := False\<rparr>)"

section \<open>The interface of the clients\<close>

text \<open>The last \<open>n\<close> elements: Python's \<open>xs[-n:]\<close>.\<close>

definition last_n :: "nat \<Rightarrow> 'a list \<Rightarrow> 'a list" where
  "last_n n xs = drop (length xs - n) xs"

lemma length_last_n [simp]: "length (last_n n xs) = min n (length xs)"
  by (simp add: last_n_def)

lemma last_n_append: "last_n n (last_n n xs @ ys) = last_n n (xs @ ys)"
  by (cases "length xs \<le> n")
    (simp_all add: last_n_def, cases "n \<le> length ys", simp_all add: add.commute)

lemma last_n_short: "length xs \<le> n \<Longrightarrow> last_n n xs = xs"
  by (simp add: last_n_def)

lemma push_sample_last_n: "push_sample m h = last_n METRICS_HISTORY_SIZE (h @ [m])"
  by (simp add: push_sample_def last_n_def Let_def)

text \<open>
  The monitor loop: one fetch per period, its result ignored, every exception absorbed by the
  fetch itself. \<open>rs\<close> are the exchanges of the successive periods.
\<close>

definition monitor_run :: "('r \<Rightarrow> 'c \<Rightarrow> 'c \<times> bool) \<Rightarrow> 'r list \<Rightarrow> 'c \<Rightarrow> 'c" where
  "monitor_run fetch rs c = foldl (\<lambda>c r. fst (fetch r c)) c rs"

definition samples :: "('r \<Rightarrow> 'm option) \<Rightarrow> 'r list \<Rightarrow> 'm list" where
  "samples sample rs = List.map_filter sample rs"

lemma samples_simps [simp]:
  "samples f [] = []"
  "samples f (r # rs) = (case f r of None \<Rightarrow> samples f rs | Some m \<Rightarrow> m # samples f rs)"
  by (simp_all add: samples_def List.map_filter_simps split: option.split)

locale metrics_interface =
  fixes fetch :: "'r \<Rightarrow> 'c \<Rightarrow> 'c \<times> bool"
    and sample :: "'r \<Rightarrow> 'm option"
    and is_open :: "'c \<Rightarrow> bool"
    and healthy :: "'c \<Rightarrow> bool"
    and history :: "'c \<Rightarrow> 'm list"
    and shared :: "'c \<Rightarrow> int \<Rightarrow> int"
  assumes fetch_closed: "\<not> is_open c \<Longrightarrow> fetch r c = (c, False)"
    and fetch_open: "is_open (fst (fetch r c)) = is_open c"
    and fetch_sample: "is_open c \<Longrightarrow> sample r = Some m \<Longrightarrow>
      healthy (fst (fetch r c)) \<and> history (fst (fetch r c)) = push_sample m (history c)"
    and fetch_none: "is_open c \<Longrightarrow> sample r = None \<Longrightarrow>
      \<not> healthy (fst (fetch r c)) \<and> history (fst (fetch r c)) = history c"
    and fetch_flag: "is_open c \<Longrightarrow> snd (fetch r c) = (sample r \<noteq> None)"
    and shared_nonneg: "0 \<le> shared c n"
begin

lemma run_open: "is_open (monitor_run fetch rs c) = is_open c"
  by (induction rs arbitrary: c) (auto simp: monitor_run_def fetch_open)

lemma run_history:
  "is_open c \<Longrightarrow> length (history c) \<le> METRICS_HISTORY_SIZE \<Longrightarrow>
   history (monitor_run fetch rs c) = last_n METRICS_HISTORY_SIZE (history c @ samples sample rs)"
proof (induction rs arbitrary: c)
  case Nil
  then show ?case by (simp add: monitor_run_def last_n_short)
next
  case (Cons r rs)
  let ?c = "fst (fetch r c)"
  have step: "monitor_run fetch (r # rs) c = monitor_run fetch rs ?c"
    by (simp add: monitor_run_def)
  have op: "is_open ?c" using Cons.prems(1) by (simp add: fetch_open)
  show ?case
  proof (cases "sample r")
    case None
    then have "history ?c = history c" using fetch_none Cons.prems(1) by blast
    then show ?thesis using Cons.IH [OF op] Cons.prems(2) None step by simp
  next
    case (Some m)
    then have h: "history ?c = last_n METRICS_HISTORY_SIZE (history c @ [m])"
      using fetch_sample Cons.prems(1) by (simp add: push_sample_last_n)
    then have "history (monitor_run fetch rs ?c)
        = last_n METRICS_HISTORY_SIZE (history ?c @ samples sample rs)"
      using Cons.IH [OF op] by simp
    then show ?thesis using h Some step by (simp add: last_n_append)
  qed
qed

lemma run_healthy:
  "is_open c \<Longrightarrow> rs \<noteq> [] \<Longrightarrow> healthy (monitor_run fetch rs c) = (sample (last rs) \<noteq> None)"
proof (induction rs rule: rev_induct)
  case Nil
  then show ?case by simp
next
  case (snoc r rs)
  have op: "is_open (monitor_run fetch rs c)" using snoc.prems(1) by (simp add: run_open)
  have "monitor_run fetch (rs @ [r]) c = fst (fetch r (monitor_run fetch rs c))"
    by (simp add: monitor_run_def)
  then show ?case
    using fetch_sample [OF op, of r] fetch_none [OF op, of r] by (cases "sample r") auto
qed

end

text \<open>What an exchange yields: a sample when the reply is usable.\<close>

definition vllm_sample :: "real \<times> string response \<Rightarrow> vllm_metrics option" where
  "vllm_sample r = (case r of (now, Response code txt) \<Rightarrow>
       if code = 200 then Some (vllm_metrics_from_text now txt) else None | _ \<Rightarrow> None)"

definition sglang_sample :: "real \<times> string response \<Rightarrow> sglang_metrics option" where
  "sglang_sample r = (case r of (now, Response code txt) \<Rightarrow>
       if code = 200 then Some (sglang_metrics_from_text now txt) else None | _ \<Rightarrow> None)"

definition skyrl_sample :: "real \<times> skyrl_engine list option response \<Rightarrow> skyrl_metrics option" where
  "skyrl_sample r = (case r of (now, Response code (Some es)) \<Rightarrow>
       if code = 200 \<and> es \<noteq> [] then Some (skyrl_aggregate now es) else None | _ \<Rightarrow> None)"

interpretation vllm_mc: metrics_interface "\<lambda>(now, resp). vllm_fetch_metrics now resp" vllm_sample
  mc_client mc_healthy mc_history vllm_calculate_shared_tokens
  by unfold_locales
    (auto simp: vllm_fetch_metrics_def vllm_sample_def record_sample_def
      vllm_calculate_shared_tokens_def split: response.splits option.splits if_splits)

interpretation sglang_mc: metrics_interface "\<lambda>(now, resp). sglang_fetch_metrics now resp" sglang_sample
  mc_client mc_healthy mc_history sglang_calculate_shared_tokens
  by unfold_locales
    (auto simp: sglang_fetch_metrics_def sglang_sample_def record_sample_def
      sglang_calculate_shared_tokens_def split: response.splits option.splits if_splits)

interpretation skyrl_mc: metrics_interface "\<lambda>(now, resp). skyrl_fetch_metrics now resp" skyrl_sample
  mc_client mc_healthy mc_history skyrl_calculate_shared_tokens
  by unfold_locales
    (auto simp: skyrl_fetch_metrics_def skyrl_sample_def record_sample_def
      skyrl_calculate_shared_tokens_def split: response.splits option.splits if_splits)

section \<open>Properties\<close>

text \<open>The monitor of a vLLM backend keeps exactly the twelve most recent successful scrapes,
  in order, whatever failures are interleaved: after any sequence of exchanges the history is
  the last twelve elements of the old history followed by the successful samples.\<close>

theorem vllm_monitor_window:
  assumes "mc_client c" "length (mc_history c) \<le> METRICS_HISTORY_SIZE"
  shows "mc_history (monitor_run (\<lambda>(now, resp). vllm_fetch_metrics now resp) rs c)
    = last_n METRICS_HISTORY_SIZE (mc_history c @ samples vllm_sample rs)"
  using assms by (rule vllm_mc.run_history)

theorem vllm_monitor_window_witness:
  "mc_history (monitor_run (\<lambda>(now, resp). vllm_fetch_metrics now resp)
      [(1, Raised), (2, Response 503 []), (3, Response 200 [])]
      ((mclient_init ''u'' :: vllm_client)\<lparr>mc_client := True\<rparr>))
    = [vllm_metrics_from_text 3 []]"
  by (subst vllm_monitor_window)
    (simp_all add: mclient_init_def METRICS_HISTORY_SIZE_def vllm_sample_def last_n_def)

text \<open>Reading back a printed gauge: in a scrape whose first \<open>vllm:num_requests_running\<close>
  sample is printed as \<open>ds.fs\<close> (the way Prometheus clients print it), the parsed
  running-request count is the integer part \<open>ds\<close>, whatever precedes and follows the sample and
  whatever its labels are.\<close>

theorem vllm_running_parsed:
  assumes "no_earlier ''vllm:num_requests_running'' pre"
    and "CHR ''}'' \<notin> set labels"
    and "ds \<noteq> []" "list_all is_digit ds" "list_all is_digit fs"
    and "rest = [] \<or> \<not> cls_plain (hd rest)"
  shows "v_num_requests_running (vllm_metrics_from_text now
      (pre @ ''vllm:num_requests_running'' @ ''{'' @ labels @ ''} '' @ (ds @ ''.'' @ fs) @ rest))
    = int (digits_val ds)"
proof -
  have "list_all cls_plain (ds @ ''.'' @ fs)"
    using assms(4,5) by (auto simp: list_all_iff cls_plain_def)
  then have "extract_value ''vllm:num_requests_running'' any_labels cls_plain
      (pre @ ''vllm:num_requests_running'' @ ''{'' @ labels @ ''} '' @ (ds @ ''.'' @ fs) @ rest)
      = parse_float (ds @ ''.'' @ fs)"
    by (intro extract_value_line) (simp_all add: assms any_labels_def cls_plain_not_space)
  also have "\<dots> = Some (real (digits_val ds) + real (digits_val fs) / 10 ^ length fs)"
    by (rule parse_float_decimal) (fact assms)+
  finally show ?thesis
    by (simp add: vllm_metrics_from_text_def int_sample_def trunc_decimal assms(5))
qed

theorem vllm_running_parsed_witness:
  "v_num_requests_running (vllm_metrics_from_text 0
     (''# v '' @ ''vllm:num_requests_running'' @ ''{'' @ ''engine=0'' @ ''} '' @ (''17'' @ ''.'' @ ''0'') @ '' x'')) = 17"
proof -
  have "v_num_requests_running (vllm_metrics_from_text 0
     (''# v '' @ ''vllm:num_requests_running'' @ ''{'' @ ''engine=0'' @ ''} '' @ (''17'' @ ''.'' @ ''0'') @ '' x''))
     = int (digits_val ''17'')"
    by (rule vllm_running_parsed)
      (simp_all add: is_digit_def less_eq_char_def cls_plain_def no_earlier_def)
  also have "\<dots> = 17" by (simp add: digits_val_def digit_val_def)
  finally show ?thesis .
qed

end
