(* ===== verification/Profile.thy ===== *)
theory Profile
  imports Prelude
begin

text \<open>
  The per-program timing profile (\<open>scheduler/ThunderAgent/profile/state.py\<close>): the callbacks of a
  request, the step record they build and the averages. Each callback takes the clock reading
  it makes. The CSV file the steps are also written to is output only and is left out, with the
  field \<open>_csv_initialized\<close> that serves it.
\<close>

record step_metrics =
  sm_program_id :: string
  sm_step_id :: int
  sm_prefill_time :: real
  sm_decode_time :: real
  sm_pause_time :: real
  sm_tool_call_time :: real
  sm_prompt_tokens :: "int option"
  sm_completion_tokens :: "int option"
  sm_cached_tokens :: "int option"
  sm_kv_hit_rate :: "real option"
  sm_completed_at :: real

record profile_state =
  pf_program_id :: string
  pf_steps :: "step_metrics list"
  request_arrive_time :: "real option"
  request_start_time :: "real option"
  first_token_time :: "real option"
  last_token_time :: "real option"
  last_request_end_time :: "real option"
  current_prefill :: real
  current_decode :: real
  current_tool_call :: real
  current_pause :: real

definition profile_init :: "string \<Rightarrow> profile_state" where
  "profile_init pid =
     \<lparr>pf_program_id = pid, pf_steps = [], request_arrive_time = None, request_start_time = None,
      first_token_time = None, last_token_time = None, last_request_end_time = None,
      current_prefill = 0, current_decode = 0, current_tool_call = 0, current_pause = 0\<rparr>"

definition on_request_arrive :: "real \<Rightarrow> profile_state \<Rightarrow> profile_state" where
  "on_request_arrive now p =
     p\<lparr>current_tool_call := (case last_request_end_time p of
         Some e \<Rightarrow> if now - e < 0 then 0 else now - e
       | None \<Rightarrow> 0),
       request_arrive_time := Some now,
       current_pause := 0\<rparr>"

definition on_request_start :: "real \<Rightarrow> profile_state \<Rightarrow> profile_state" where
  "on_request_start now p =
     p\<lparr>current_pause := (case request_arrive_time p of
         Some a \<Rightarrow> if now - a < 0 then 0 else now - a
       | None \<Rightarrow> 0),
       request_start_time := Some now,
       first_token_time := None,
       last_token_time := None,
       current_prefill := 0,
       current_decode := 0\<rparr>"

definition on_first_token :: "real \<Rightarrow> profile_state \<Rightarrow> profile_state" where
  "on_first_token now p =
     (case first_token_time p of
        None \<Rightarrow> p\<lparr>first_token_time := Some now,
                 current_prefill := (case request_start_time p of
                     Some s \<Rightarrow> now - s | None \<Rightarrow> current_prefill p)\<rparr>
      | Some _ \<Rightarrow> p)"

definition on_token :: "real \<Rightarrow> profile_state \<Rightarrow> profile_state" where
  "on_token now p = p\<lparr>last_token_time := Some now\<rparr>"

text \<open>A zero time stamp is false in \<open>self.last_token_time if self.last_token_time else now\<close>.\<close>

definition on_request_end ::
  "real \<Rightarrow> int option \<Rightarrow> int option \<Rightarrow> int option \<Rightarrow> profile_state \<Rightarrow> profile_state" where
  "on_request_end now prompt completion cached p =
     (let decode = (case first_token_time p of
            None \<Rightarrow> current_decode p
          | Some f \<Rightarrow>
              (let e = (case last_token_time p of Some l \<Rightarrow> if l = 0 then now else l | None \<Rightarrow> now)
               in if e - f < 0 then 0 else e - f));
          hit = (case (prompt, cached) of
            (Some pt, Some ct) \<Rightarrow> if 0 < pt then Some (real_of_int ct / real_of_int pt) else None
          | _ \<Rightarrow> None)
      in p\<lparr>current_decode := decode,
           last_request_end_time := Some now,
           pf_steps := pf_steps p @
             [\<lparr>sm_program_id = pf_program_id p,
               sm_step_id = int (length (pf_steps p)) + 1,
               sm_prefill_time = current_prefill p,
               sm_decode_time = decode,
               sm_pause_time = current_pause p,
               sm_tool_call_time = current_tool_call p,
               sm_prompt_tokens = prompt,
               sm_completion_tokens = completion,
               sm_cached_tokens = cached,
               sm_kv_hit_rate = hit,
               sm_completed_at = now\<rparr>]\<rparr>)"

text \<open>\<open>round(x, d)\<close>: to the nearest multiple of \<open>10\<^sup>-\<^sup>d\<close>, ties to the even one.\<close>

definition round_half_even :: "real \<Rightarrow> int" where
  "round_half_even y =
     (let f = \<lfloor>y\<rfloor>; r = y - real_of_int f
      in if r < 1 / 2 then f else if 1 / 2 < r then f + 1 else if even f then f else f + 1)"

definition py_round :: "nat \<Rightarrow> real \<Rightarrow> real" where
  "py_round d x = real_of_int (round_half_even (x * 10 ^ d)) / 10 ^ d"

record profile_averages =
  avg_prefill_s :: real
  avg_decode_s :: real
  avg_pause_s :: real
  avg_tool_call_s :: real
  avg_prompt_tokens :: "real option"
  avg_completion_tokens :: "real option"
  avg_cached_tokens :: "real option"
  avg_kv_hit_rate :: "real option"

definition average_present :: "nat \<Rightarrow> real list \<Rightarrow> real option" where
  "average_present d xs = (if xs = [] then None else Some (py_round d (sum_list xs / real (length xs))))"

definition get_averages :: "profile_state \<Rightarrow> profile_averages" where
  "get_averages p =
     (let n = length (pf_steps p)
      in if n = 0 then
           \<lparr>avg_prefill_s = 0, avg_decode_s = 0, avg_pause_s = 0, avg_tool_call_s = 0,
            avg_prompt_tokens = None, avg_completion_tokens = None, avg_cached_tokens = None,
            avg_kv_hit_rate = None\<rparr>
         else
           \<lparr>avg_prefill_s = py_round 4 (sum_list (map sm_prefill_time (pf_steps p)) / real n),
            avg_decode_s = py_round 4 (sum_list (map sm_decode_time (pf_steps p)) / real n),
            avg_pause_s = py_round 4 (sum_list (map sm_pause_time (pf_steps p)) / real n),
            avg_tool_call_s = py_round 4
              ((if 1 < n then sum_list (map sm_tool_call_time (drop 1 (pf_steps p))) else 0)
               / real (max 1 (n - 1))),
            avg_prompt_tokens = average_present 2
              (map real_of_int (List.map_filter sm_prompt_tokens (pf_steps p))),
            avg_completion_tokens = average_present 2
              (map real_of_int (List.map_filter sm_completion_tokens (pf_steps p))),
            avg_cached_tokens = average_present 2
              (map real_of_int (List.map_filter sm_cached_tokens (pf_steps p))),
            avg_kv_hit_rate = average_present 4 (List.map_filter sm_kv_hit_rate (pf_steps p))\<rparr>)"

section \<open>Callback sequences\<close>

datatype profile_event =
    Arrive real | Start real | FirstToken real | Token real
  | End real "int option" "int option" "int option"

fun profile_step :: "profile_state \<Rightarrow> profile_event \<Rightarrow> profile_state" where
  "profile_step p (Arrive t) = on_request_arrive t p"
| "profile_step p (Start t) = on_request_start t p"
| "profile_step p (FirstToken t) = on_first_token t p"
| "profile_step p (Token t) = on_token t p"
| "profile_step p (End t a b c) = on_request_end t a b c p"

definition profile_run :: "profile_state \<Rightarrow> profile_event list \<Rightarrow> profile_state" where
  "profile_run = foldl profile_step"

definition steps_numbered :: "profile_state \<Rightarrow> bool" where
  "steps_numbered p \<longleftrightarrow>
     map sm_step_id (pf_steps p) = map (\<lambda>i. int i + 1) [0..<length (pf_steps p)]
     \<and> (\<forall>m \<in> set (pf_steps p). sm_program_id m = pf_program_id p \<and> 0 \<le> sm_decode_time m
          \<and> 0 \<le> sm_pause_time m \<and> 0 \<le> sm_tool_call_time m)
     \<and> 0 \<le> current_decode p \<and> 0 \<le> current_pause p \<and> 0 \<le> current_tool_call p"

lemma steps_numbered_init: "steps_numbered (profile_init pid)"
  by (simp add: steps_numbered_def profile_init_def)

lemma steps_numbered_step: "steps_numbered p \<Longrightarrow> steps_numbered (profile_step p e)"
  by (cases e)
    (auto simp: steps_numbered_def on_request_arrive_def on_request_start_def on_first_token_def
      on_token_def on_request_end_def Let_def split: option.splits)

lemma steps_numbered_run: "steps_numbered p \<Longrightarrow> steps_numbered (profile_run p es)"
  unfolding profile_run_def by (induction es arbitrary: p) (simp_all add: steps_numbered_step)

text \<open>Whatever sequence of callbacks arrives, with whatever clock readings (a clock set back
  included), the recorded steps are numbered 1, 2, 3, ... without gaps, all carry the program's
  id, and their decode, pause and tool-call times are never negative.\<close>

theorem profile_steps_numbered:
  "steps_numbered (profile_run (profile_init pid) es)"
  by (rule steps_numbered_run) (rule steps_numbered_init)

text \<open>For a streamed request whose callbacks come in order on a clock that does not run
  backwards, the recorded tool-call, pause, prefill and decode times are exactly the gaps between
  the five instants, so that they tile the time from the end of the previous request to the last
  token without overlap.\<close>

theorem profile_request_tiling:
  fixes pt ct kt :: "int option"
  assumes "last_request_end_time p = Some e0"
    and "e0 \<le> a" "a \<le> s" "s \<le> f" "f \<le> l" "l \<le> e" "l \<noteq> 0"
  defines "p' \<equiv> profile_run p [Arrive a, Start s, FirstToken f, Token f, Token l, End e pt ct kt]"
  shows "pf_steps p' \<noteq> [] \<and>
    (let m = last (pf_steps p') in
       sm_tool_call_time m = a - e0 \<and> sm_pause_time m = s - a \<and> sm_prefill_time m = f - s
       \<and> sm_decode_time m = l - f
       \<and> sm_tool_call_time m + sm_pause_time m + sm_prefill_time m + sm_decode_time m = l - e0)"
  using assms(1-7)
  by (simp add: p'_def profile_run_def on_request_arrive_def on_request_start_def
      on_first_token_def on_token_def on_request_end_def Let_def)

theorem profile_request_tiling_witness:
  "sm_decode_time (last (pf_steps (profile_run ((profile_init ''p'')\<lparr>last_request_end_time := Some 1\<rparr>)
      [Arrive 2, Start 3, FirstToken 5, Token 5, Token 8, End 9 (Some 4) None (Some 1)]))) = 3"
  using profile_request_tiling [of "(profile_init ''p'')\<lparr>last_request_end_time := Some 1\<rparr>" 1 2 3 5 8 9 "Some 4" None "Some 1"]
  by (simp add: Let_def)

end
