(* ===== verification/Program.thy ===== *)
theory Program
  imports PyJson Profile
begin

text \<open>
  A program (\<open>scheduler/ThunderAgent/program/state.py\<close>): its activity, its lifecycle and its
  fields. Program objects are shared: the router's table and the backend it runs on hold the
  same object, so an object is named by a number and lives in a store \<open>nat \<Rightarrow> program\<close>. An
  \<open>asyncio.Event\<close> is likewise a number; whether it is set is part of the router's state.
\<close>

datatype program_status = REASONING | ACTING

datatype program_state = ACTIVE | PAUSED | TERMINATED

record program =
  program_id :: string
  type_id :: string
  agent_type :: string
  num_plan_steps :: "int option"
  prefix_states :: "string list"
  prediction_context :: "(string, json) dict"
  last_arrived_time :: "real option"
  predicted_remaining_time :: "(string, real) dict option"
  predicted_remaining_steps :: "real ext option"
  total_steps :: int
  backend_url :: "string option"
  origin_backend :: "string option"
  status :: program_status
  state :: program_state
  context_len :: int
  total_tokens :: int
  step_count :: int
  profile :: "profile_state option"
  waiting_event :: "nat option"
  marked_for_pause :: bool
  acting_since :: "real option"

text \<open>The dataclass defaults.\<close>

definition program_defaults :: "string \<Rightarrow> string \<Rightarrow> program" where
  "program_defaults pid tid =
     \<lparr>program_id = pid, type_id = tid, agent_type = ''unknown'', num_plan_steps = None,
      prefix_states = [], prediction_context = [], last_arrived_time = None,
      predicted_remaining_time = None, predicted_remaining_steps = None, total_steps = 0,
      backend_url = None, origin_backend = None, status = ACTING, state = ACTIVE,
      context_len = 0, total_tokens = 0, step_count = 0, profile = None, waiting_event = None,
      marked_for_pause = False, acting_since = None\<rparr>"

type_synonym oid = nat
type_synonym store = "oid \<Rightarrow> program"

end
