(* ===== verification/JsonText.thy ===== *)
theory JsonText
  imports PyJson
begin

text \<open>
  \<open>json.dumps(v, ensure_ascii=False, sort_keys=...)\<close> with the default separators. The text of a
  finite float (\<open>float.__repr__\<close>) is the argument \<open>repr\<close>; everything else is written out.
\<close>

definition hex_digit :: "nat \<Rightarrow> char" where
  "hex_digit n = (if n < 10 then char_of (48 + n) else char_of (87 + n))"

definition escape_char :: "char \<Rightarrow> string" where
  "escape_char c =
     (if c = CHR 0x22 then [CHR 0x5C, CHR 0x22]
      else if c = CHR 0x5C then [CHR 0x5C, CHR 0x5C]
      else if c = CHR 0x0A then [CHR 0x5C, CHR ''n'']
      else if c = CHR 0x0D then [CHR 0x5C, CHR ''r'']
      else if c = CHR 0x09 then [CHR 0x5C, CHR ''t'']
      else if c = CHR 0x08 then [CHR 0x5C, CHR ''b'']
      else if c = CHR 0x0C then [CHR 0x5C, CHR ''f'']
      else if (of_char c :: nat) < 32
        then CHR 0x5C # ''u00'' @ [hex_digit (of_char c div 16), hex_digit (of_char c mod 16)]
      else [c])"

definition quote :: "string \<Rightarrow> string" where
  "quote s = CHR 0x22 # concat (map escape_char s) @ [CHR 0x22]"

fun nat_string :: "nat \<Rightarrow> string" where
  "nat_string n = (if n < 10 then [char_of (48 + n)] else nat_string (n div 10) @ [char_of (48 + n mod 10)])"

declare nat_string.simps [simp del]

definition int_string :: "int \<Rightarrow> string" where
  "int_string i = (if i < 0 then CHR ''-'' # nat_string (nat (- i)) else nat_string (nat i))"

definition float_string :: "(real \<Rightarrow> string) \<Rightarrow> pyfloat \<Rightarrow> string" where
  "float_string repr x = (case x of Real r \<Rightarrow> repr r | NaN \<Rightarrow> ''NaN''
     | PosInf \<Rightarrow> ''Infinity'' | NegInf \<Rightarrow> ''-Infinity'')"

fun dumps :: "(real \<Rightarrow> string) \<Rightarrow> bool \<Rightarrow> json \<Rightarrow> string" where
  "dumps repr srt JNull = ''null''"
| "dumps repr srt (JBool b) = (if b then ''true'' else ''false'')"
| "dumps repr srt (JInt n) = int_string n"
| "dumps repr srt (JFloat x) = float_string repr x"
| "dumps repr srt (JStr s) = quote s"
| "dumps repr srt (JList xs) = ''['' @ join '', '' (map (dumps repr srt) xs) @ '']''"
| "dumps repr srt (JObj d) =
     ''{'' @ join '', '' (map (\<lambda>(k, t). quote k @ '': '' @ t)
        ((if srt then sort_key fst else id) (map (\<lambda>(k, v). (k, dumps repr srt v)) d))) @ ''}''"

text \<open>\<open>str.split\<close>-free helpers of the text classification: any of the words occurs.\<close>

definition any_word :: "string list \<Rightarrow> string \<Rightarrow> bool" where
  "any_word ws txt = list_ex (\<lambda>w. contains w txt) ws"

text \<open>\<open>_searchable_text\<close>: the dumps of the values that are not None, joined and lowered.\<close>

definition searchable_text :: "(real \<Rightarrow> string) \<Rightarrow> json list \<Rightarrow> string" where
  "searchable_text repr vs =
     lower (join '' '' (map (dumps repr True) (filter (\<lambda>v. v \<noteq> JNull) vs)))"

lemma nat_string_not_Nil [simp]: "nat_string n \<noteq> []"
  by (subst nat_string.simps) simp

lemma digit_char: "n < 10 \<Longrightarrow> is_digit (char_of (48 + n)) \<and> digit_val (char_of (48 + n)) = n"
  by (simp add: is_digit_def digit_val_def less_eq_char_def)

lemma nat_string_digits: "list_all is_digit (nat_string n)"
proof (induction n rule: nat_string.induct)
  case (1 n)
  show ?case
  proof (cases "n < 10")
    case True
    then show ?thesis using digit_char by (subst nat_string.simps) simp
  next
    case False
    then show ?thesis using 1 digit_char [of "n mod 10"] by (subst nat_string.simps) simp
  qed
qed

text \<open>Printing and reading back a decimal number.\<close>

lemma digits_val_nat_string: "digits_val (nat_string n) = n"
proof (induction n rule: nat_string.induct)
  case (1 n)
  show ?case
  proof (cases "n < 10")
    case True
    then show ?thesis using digit_char
      by (subst nat_string.simps) (simp add: digits_val_def)
  next
    case False
    then show ?thesis using 1 digit_char [of "n mod 10"] by (subst nat_string.simps) simp
  qed
qed

end
