(* ===== verification/TraceText.thy ===== *)
theory TraceText
  imports JsonText
begin

text \<open>
  The text classification of the step predictor (\<open>scheduler/ThunderAgent/scheduler/predictor.py\<close>,
  the static and class methods of \<open>StepMap\<close>): which state bucket a trace step or the last turn
  of a chat payload falls into. The regular expressions are written out as scanners; the text
  of floats and of containers under \<open>str\<close> is the argument \<open>tx\<close>.
\<close>

record pytext =
  float_repr :: "real \<Rightarrow> string"
  container_repr :: "json \<Rightarrow> string"

definition py_str :: "pytext \<Rightarrow> json \<Rightarrow> string" where
  "py_str tx v = (case v of JStr s \<Rightarrow> s | JNull \<Rightarrow> ''None'' | JBool b \<Rightarrow> if b then ''True'' else ''False''
     | JInt n \<Rightarrow> int_string n
     | JFloat (Real r) \<Rightarrow> float_repr tx r | JFloat NaN \<Rightarrow> ''nan'' | JFloat PosInf \<Rightarrow> ''inf''
     | JFloat NegInf \<Rightarrow> ''-inf''
     | _ \<Rightarrow> container_repr tx v)"

text \<open>\<open>a or b\<close>\<close>

definition jor :: "json \<Rightarrow> json \<Rightarrow> json" where
  "jor a b = (if truthy a then a else b)"

definition PROBLEM_WORDS :: "string list" where
  "PROBLEM_WORDS = [''error'', ''failed'', ''no results'', ''no result'', ''not found'', ''unable'',
     ''cannot'', ''invalid'', ''exception'', ''traceback'']"

definition POSITIVE_WORDS :: "string list" where
  "POSITIVE_WORDS = [''success'', ''passed'', ''verified'', ''sufficient'', ''answer'', ''final'']"

definition TYPE_C_ERROR_WORDS :: "string list" where
  "TYPE_C_ERROR_WORDS = [''error executing'', ''doesn'' @ [CHR 0x27] @ ''t exist'', ''does not exist'',
     ''no such'', ''unknown column'', ''syntax error'', ''traceback'', ''exception'']"

definition SCHEMA_WORDS :: "string list" where
  "SCHEMA_WORDS = [''show tables'', ''desc '', ''describe '', ''pragma '', ''schema'']"

text \<open>\<open>str(value or "").strip().lower()\<close>\<close>

definition norm_text :: "pytext \<Rightarrow> json \<Rightarrow> string" where
  "norm_text tx v = lower (strip (py_str tx (jor v (JStr []))))"

definition normalize_workflow :: "pytext \<Rightarrow> json \<Rightarrow> string \<Rightarrow> string" where
  "normalize_workflow tx value filename =
     (let workflow = replace_char (CHR ''_'') (CHR ''-'') (norm_text tx value);
          name = replace_char (CHR ''_'') (CHR ''-'') (lower filename)
      in if workflow \<in> {''plan-solve'', ''plansolve''} then ''plan-solve''
         else if workflow \<in> {''react'', ''re-act''} then ''react''
         else if contains ''agentflow'' workflow then ''agentflow''
         else if contains ''plan-solve'' name then ''plan-solve''
         else if contains ''agentflow'' name then ''agentflow''
         else if contains ''react'' name \<or> contains ''re-act'' name then ''react''
         else ''unknown'')"

definition infer_workload :: "pytext \<Rightarrow> json \<Rightarrow> string \<Rightarrow> string" where
  "infer_workload tx value filename =
     (let workload = norm_text tx value; name = lower filename
      in if workload \<noteq> [] then workload
         else (case find (\<lambda>cand. contains cand name)
                      [''nl2bash'', ''spider'', ''2wiki'', ''mbpp'', ''bamboogle''] of
                 Some cand \<Rightarrow> cand | None \<Rightarrow> ''unknown''))"

fun nested :: "json \<Rightarrow> string list \<Rightarrow> json" where
  "nested v [] = v"
| "nested (JObj d) (k # ks) = nested (jget d k) ks"
| "nested _ (k # ks) = JNull"

definition trace_state_b :: "pytext \<Rightarrow> (string, json) dict \<Rightarrow> string" where
  "trace_state_b tx step =
     (let parsed = jor (jget step ''parsed'') (JObj []);
          output = nested (JObj step) [''tool_call'', ''output''];
          txt = searchable_text (float_repr tx)
                  [parsed, nested output [''observation''], nested output [''raw_observation'']]
      in if any_word PROBLEM_WORDS txt then ''problem''
         else if any_word POSITIVE_WORDS txt then ''positive''
         else ''neutral'')"

text \<open>\<open>parsed.get\<close> raises when \<open>parsed\<close> is a true value that is not a dict.\<close>

definition trace_action :: "pytext \<Rightarrow> (string, json) dict \<Rightarrow> py_error + string" where
  "trace_action tx step =
     (case jor (jget step ''parsed'') (JObj []) of
        JObj parsed \<Rightarrow>
          Inr (lower (strip (py_str tx
            (jor (jor (jget parsed ''action_parsed'') (jget parsed ''action'')) (JStr [])))))
      | _ \<Rightarrow> Inl AttributeError)"

definition trace_state_c ::
  "pytext \<Rightarrow> (string, json) dict \<Rightarrow> json option \<Rightarrow> py_error + string" where
  "trace_state_c tx step previous_step =
     (let output = nested (JObj step) [''tool_call'', ''output'']
      in ebind (trace_action tx step) (\<lambda>action.
         let observation = searchable_text (float_repr tx)
               [nested output [''observation''], nested output [''raw_observation'']]
         in if nested output [''done''] = JBool True \<or> contains ''submit'' action \<or> contains ''final'' action
            then Inr ''final_or_submit''
            else if nested output [''valid_action''] = JBool False \<or> any_word TYPE_C_ERROR_WORDS observation
            then Inr ''error''
            else ebind (case previous_step of
                None \<Rightarrow> Inr False
              | Some prev \<Rightarrow>
                  if action = [] then Inr False
                  else (case prev of
                      JObj d \<Rightarrow> map_sum id (\<lambda>prev_action. action = prev_action) (trace_action tx d)
                    | _ \<Rightarrow> Inl AttributeError)) (\<lambda>repeat.
              Inr (if repeat then ''repeat''
                   else if any_word SCHEMA_WORDS action then ''schema_lookup''
                   else if action \<noteq> [] then ''query_or_command''
                   else ''normal''))))"

text \<open>The bucket of the prefix of length \<open>k \<ge> 1\<close>, from the step before it.\<close>

definition trace_state_at :: "pytext \<Rightarrow> string \<Rightarrow> json list \<Rightarrow> nat \<Rightarrow> py_error + string" where
  "trace_state_at tx workflow steps prefix_k =
     (let i = prefix_k - 1
      in if length steps \<le> i then Inr ''normal''
         else (case steps ! i of
             JObj step \<Rightarrow>
               if workflow = ''agentflow'' then Inr (trace_state_b tx step)
               else trace_state_c tx step (if 0 < i then Some (steps ! (i - 1)) else None)
           | _ \<Rightarrow> Inr ''normal''))"

fun emap :: "('a \<Rightarrow> 'e + 'b) \<Rightarrow> 'a list \<Rightarrow> 'e + 'b list" where
  "emap f [] = Inr []"
| "emap f (x # xs) = ebind (f x) (\<lambda>y. ebind (emap f xs) (\<lambda>ys. Inr (y # ys)))"

definition states_from_trace_steps ::
  "pytext \<Rightarrow> string \<Rightarrow> json list \<Rightarrow> nat \<Rightarrow> py_error + string list" where
  "states_from_trace_steps tx workflow steps total_steps =
     map_sum id ((#) ''start'') (emap (trace_state_at tx workflow steps) [1..<total_steps])"

lemma length_emap: "emap f xs = Inr ys \<Longrightarrow> length ys = length xs"
  by (induction xs arbitrary: ys) (auto simp: ebind_Inr_iff)

section \<open>Chat messages\<close>

definition message_text :: "pytext \<Rightarrow> (string, json) dict \<Rightarrow> string" where
  "message_text tx m = searchable_text (float_repr tx) [jget m ''content'', jget m ''tool_calls'']"

text \<open>\<open>re.fullmatch(r"Action Step\s+(\d+)", key, re.IGNORECASE)\<close>\<close>

definition action_step_number :: "string \<Rightarrow> nat option" where
  "action_step_number key =
     (let r = drop 11 key; ds = dropWhile is_space r
      in if lower (take 11 key) = ''action step'' \<and> takeWhile is_space r \<noteq> []
            \<and> ds \<noteq> [] \<and> list_all is_digit ds
         then Some (digits_val ds) else None)"

definition action_steps :: "(string, json) dict \<Rightarrow> (nat \<times> json) list" where
  "action_steps d = List.map_filter (\<lambda>(k, v). map_option (\<lambda>n. (n, v)) (action_step_number k)) d"

text \<open>\<open>max(xs, key=fst)\<close>: the first of the greatest.\<close>

fun max_by_fst :: "nat \<times> 'a \<Rightarrow> (nat \<times> 'a) list \<Rightarrow> nat \<times> 'a" where
  "max_by_fst best [] = best"
| "max_by_fst best (x # xs) = max_by_fst (if fst best < fst x then x else best) xs"

definition message_content :: "pytext \<Rightarrow> (string, json) dict \<Rightarrow> string" where
  "message_content tx m =
     (case jget m ''content'' of
        JStr s \<Rightarrow> s
      | JObj content \<Rightarrow>
          (let current = List.map_filter (\<lambda>k. map_option (\<lambda>v. (k, v)) (map_of content k))
                 [''context'', ''sub_goal'', ''tool_name'', ''result'', ''observation'', ''status''];
               steps = action_steps content @
                 (case jget content ''memory'' of JObj mem \<Rightarrow> action_steps mem | _ \<Rightarrow> []);
               current' = (case steps of [] \<Rightarrow> current
                 | s # ss \<Rightarrow> AList.update ''latest_action_step'' (snd (max_by_fst s ss)) current)
           in dumps (float_repr tx) True (JObj (if current' \<noteq> [] then current' else content)))
      | v \<Rightarrow> dumps (float_repr tx) True v)"

text \<open>
  \<open>KEYWORD\s*\d*\s*:\<close> at the head of a string, case insensitively: what follows the colon.
\<close>

definition after_header :: "string \<Rightarrow> string \<Rightarrow> string option" where
  "after_header kw s =
     (if lower (take (length kw) s) = kw
      then (case dropWhile is_space (dropWhile is_digit (dropWhile is_space (drop (length kw) s))) of
              c # r \<Rightarrow> if c = CHR '':'' then Some r else None
            | [] \<Rightarrow> None)
      else None)"

lemma after_header_length: "after_header kw s = Some r \<Longrightarrow> length r < length s"
proof -
  assume h: "after_header kw s = Some r"
  let ?t = "dropWhile is_space (dropWhile is_digit (dropWhile is_space (drop (length kw) s)))"
  from h have "?t = CHR '':'' # r"
    by (auto simp: after_header_def split: if_splits list.splits)
  then have "length r < length ?t" by simp
  also have "length ?t \<le> length (dropWhile is_digit (dropWhile is_space (drop (length kw) s)))"
    by (rule length_dropWhile_le)
  also have "\<dots> \<le> length (dropWhile is_space (drop (length kw) s))"
    by (rule length_dropWhile_le)
  also have "\<dots> \<le> length (drop (length kw) s)"
    by (rule length_dropWhile_le)
  also have "\<dots> \<le> length s" by simp
  finally show ?thesis .
qed

lemma header_rest_length:
  assumes "(if bol then after_header kw s else None) = Some r"
  shows "length (dropWhile P (dropWhile Q r)) < length s"
proof -
  have "length r < length s" using assms by (auto split: if_splits dest: after_header_length)
  then show ?thesis
    using length_dropWhile_le [of P "dropWhile Q r"] length_dropWhile_le [of Q r] by linarith
qed

definition NL :: char where "NL = CHR 0x0A"

text \<open>
  \<open>re.findall(r"(?im)^Action\s*\d*\s*:\s*(.*)$", prompt)\<close>; the flag says whether the position is
  the start of a line.
\<close>

function find_actions :: "bool \<Rightarrow> string \<Rightarrow> string list" where
  "find_actions bol [] = []"
| "find_actions bol (c # s) =
     (case (if bol then after_header ''action'' (c # s) else None) of
        Some r \<Rightarrow>
          (let body = dropWhile is_space r
           in takeWhile (\<lambda>x. x \<noteq> NL) body # find_actions False (dropWhile (\<lambda>x. x \<noteq> NL) body))
      | None \<Rightarrow> find_actions (c = NL) s)"
  by pat_completeness auto
termination
  by (relation "measure (\<lambda>(b, s). length s)") (auto dest: header_rest_length)

text \<open>\<open>^(?:Thought|Action|Question)\s*\d*\s*:\<close> at the head of a line.\<close>

definition section_header :: "string \<Rightarrow> bool" where
  "section_header s \<longleftrightarrow> list_ex (\<lambda>kw. after_header kw s \<noteq> None) [''thought'', ''action'', ''question'']"

text \<open>The lazy run of an observation: up to the next section header or the end.\<close>

fun until_section :: "bool \<Rightarrow> string \<Rightarrow> string \<times> string" where
  "until_section bol [] = ([], [])"
| "until_section bol (c # s) =
     (if bol \<and> section_header (c # s) then ([], c # s)
      else (case until_section (c = NL) s of (run, rest) \<Rightarrow> (c # run, rest)))"

lemma until_section_length: "length (snd (until_section bol s)) \<le> length s"
  by (induction bol s rule: until_section.induct) (auto split: prod.splits)

text \<open>Whether the position after the skipped white space is the start of a line.\<close>

definition bol_after :: "string \<Rightarrow> bool" where
  "bol_after r = (let ws = takeWhile is_space r in ws \<noteq> [] \<and> last ws = NL)"

lemma until_section_rest:
  assumes "(if bol then after_header kw s else None) = Some r"
    and "(run, rest) = until_section b (dropWhile is_space r)"
  shows "length rest < length s"
proof -
  have "length rest \<le> length (dropWhile is_space r)"
    using until_section_length [of b "dropWhile is_space r"] assms(2) by (metis snd_conv)
  also have "\<dots> < length s"
    using header_rest_length [OF assms(1), of "\<lambda>_. False" is_space] by simp
  finally show ?thesis .
qed

function find_observations :: "bool \<Rightarrow> string \<Rightarrow> string list" where
  "find_observations bol [] = []"
| "find_observations bol (c # s) =
     (case (if bol then after_header ''observation'' (c # s) else None) of
        Some r \<Rightarrow>
          (let (run, rest) = until_section (bol_after r) (dropWhile is_space r)
           in run # find_observations True rest)
      | None \<Rightarrow> find_observations (c = NL) s)"
  by pat_completeness auto
termination
  by (relation "measure (\<lambda>(b, s). length s)") (auto dest: until_section_rest)

definition action_observation_from_prompt :: "string \<Rightarrow> string \<times> string \<times> string" where
  "action_observation_from_prompt prompt =
     (let actions = find_actions True prompt; observations = find_observations True prompt;
          n = length actions
      in (if actions \<noteq> [] then lower (strip (last actions)) else [],
          if observations \<noteq> [] then lower (strip (last observations)) else [],
          if 2 \<le> n then lower (strip (actions ! (n - 2))) else []))"

section \<open>The prediction context of a request\<close>

definition normalize_agent_type :: "string \<Rightarrow> string" where
  "normalize_agent_type agent_type =
     (let value = replace_char (CHR ''_'') (CHR ''-'') (lower (strip agent_type))
      in if value \<in> {''a'', ''type-a'', ''planning'', ''plan''} then ''A''
         else if value \<in> {''b'', ''type-b'', ''macro-round'', ''macro''} then ''B''
         else if value \<in> {''c'', ''type-c'', ''micro-step'', ''micro''} then ''C''
         else ''unknown'')"

definition is_assistant :: "json \<Rightarrow> bool" where
  "is_assistant m = (case m of JObj d \<Rightarrow> jget d ''role'' = JStr ''assistant'' | _ \<Rightarrow> False)"

text \<open>\<open>message.get("role") in {"tool", "user"}\<close> raises for an unhashable role.\<close>

definition role_in_tool_user :: "(string, json) dict \<Rightarrow> py_error + bool" where
  "role_in_tool_user d = (case jget d ''role'' of JList _ \<Rightarrow> Inl TypeError | JObj _ \<Rightarrow> Inl TypeError
     | r \<Rightarrow> Inr (r = JStr ''tool'' \<or> r = JStr ''user''))"

fun observation_texts :: "pytext \<Rightarrow> json list \<Rightarrow> py_error + string list" where
  "observation_texts tx [] = Inr []"
| "observation_texts tx (JObj d # ms) =
     ebind (role_in_tool_user d) (\<lambda>b. ebind (observation_texts tx ms) (\<lambda>ts.
       Inr (if b then message_text tx d # ts else ts)))"
| "observation_texts tx (_ # ms) = observation_texts tx ms"

fun as_dict :: "json \<Rightarrow> (string, json) dict" where
  "as_dict (JObj d) = d"
| "as_dict _ = []"

fun is_dict :: "json \<Rightarrow> bool" where
  "is_dict (JObj d) = True"
| "is_dict _ = False"

text \<open>The latest action, observation and previous action of a conversation.\<close>

definition conversation_turn ::
  "pytext \<Rightarrow> json list \<Rightarrow> py_error + string \<times> string \<times> string" where
  "conversation_turn tx messages =
     (let assistants = filter is_assistant messages
      in if assistants = [] then
           (let latest = (case find is_dict (rev messages) of
                            Some m \<Rightarrow> as_dict m | None \<Rightarrow> []);
                prompt = message_content tx latest;
                (action, observation, previous) = action_observation_from_prompt prompt
            in Inr (action, if action = [] \<and> observation = [] then lower prompt else observation, previous))
         else
           (let n = length assistants;
                action = message_text tx (as_dict (last assistants));
                previous = (if 2 \<le> n then message_text tx (as_dict (assistants ! (n - 2))) else [])
            in ebind (observation_texts tx (rev (takeWhile (\<lambda>m. \<not> is_assistant m) (rev messages))))
                 (\<lambda>obs. Inr (action, join '' '' obs, previous))))"

definition turn_bucket :: "string \<Rightarrow> string \<Rightarrow> string \<Rightarrow> string \<Rightarrow> string" where
  "turn_bucket agent_type action observation previous_action =
     (let combined = lower (action @ '' '' @ observation)
      in if normalize_agent_type agent_type = ''B'' then
           (if any_word PROBLEM_WORDS combined then ''problem''
            else if any_word POSITIVE_WORDS combined then ''positive''
            else ''neutral'')
         else
           (if contains ''submit'' action \<or> contains ''final'' action then ''final_or_submit''
            else if any_word TYPE_C_ERROR_WORDS observation then ''error''
            else if action \<noteq> [] \<and> action = previous_action then ''repeat''
            else if any_word SCHEMA_WORDS action then ''schema_lookup''
            else if action \<noteq> [] then ''query_or_command''
            else ''normal''))"

definition explicit_context :: "(string, json) dict \<Rightarrow> (string, json) dict" where
  "explicit_context payload =
     (let explicit = jget payload ''prediction_context'';
          explicit' = (case explicit of JObj _ \<Rightarrow> explicit
            | _ \<Rightarrow> (case jget payload ''extra_body'' of
                      JObj extra \<Rightarrow> jget extra ''prediction_context'' | _ \<Rightarrow> explicit))
      in as_dict explicit')"

definition prediction_context_from_payload ::
  "pytext \<Rightarrow> (string, json) dict \<Rightarrow> string \<Rightarrow> string list \<Rightarrow> py_error + (string, json) dict" where
  "prediction_context_from_payload tx payload agent_type prefix_sts =
     (let context = explicit_context payload
      in if truthy (jget context ''state_bucket'') then Inr context
         else (case jget payload ''messages'' of
             JList messages \<Rightarrow>
               if \<not> list_ex is_assistant messages \<and> prefix_sts = []
               then Inr (AList.update ''state_bucket'' (JStr ''start'') context)
               else ebind (conversation_turn tx messages) (\<lambda>(action, observation, previous).
                 Inr (AList.update ''state_bucket'' (JStr (turn_bucket agent_type action observation previous))
                   (AList.update ''previous_action'' (JStr previous)
                     (AList.update ''observation'' (JStr observation)
                       (AList.update ''action'' (JStr action) context)))))
           | _ \<Rightarrow> Inr (AList.update ''state_bucket''
                    (JStr (if prefix_sts = [] then ''start'' else ''normal'')) context)))"

end
