(* ===== verification/Backend.thy ===== *)
theory Backend
  imports Program Metrics
begin

text \<open>
  One inference backend as the proxy sees it (\<open>scheduler/ThunderAgent/backend/state.py\<close>): its
  metrics client, the programs registered on it, and the capacity accounting computed from them.
  The registered programs are references, so every figure takes the object store.
\<close>

definition BUFFER_PER_PROGRAM :: int where
  "BUFFER_PER_PROGRAM = 100"

text \<open>The metrics client a backend holds, and what it is read for.\<close>

datatype backend_client =
    VLLMClient vllm_client
  | SGLangClient sglang_client
  | SkyRLClient skyrl_client

fun client_healthy :: "backend_client \<Rightarrow> bool" where
  "client_healthy (VLLMClient c) = mc_healthy c"
| "client_healthy (SGLangClient c) = mc_healthy c"
| "client_healthy (SkyRLClient c) = mc_healthy c"

text \<open>\<open>cache_config.total_tokens_capacity\<close>, None while there is no cache configuration.\<close>

fun client_capacity :: "backend_client \<Rightarrow> int option" where
  "client_capacity (VLLMClient c) = map_option vllm_total_tokens_capacity (mc_cache_config c)"
| "client_capacity (SGLangClient c) = map_option sg_total_tokens_capacity (mc_cache_config c)"
| "client_capacity (SkyRLClient c) = map_option sk_total_tokens_capacity (mc_cache_config c)"

text \<open>Running and waiting requests of the latest sample.\<close>

fun client_num_requests :: "backend_client \<Rightarrow> (int \<times> int) option" where
  "client_num_requests (VLLMClient c) =
     map_option (\<lambda>m. (v_num_requests_running m, v_num_requests_waiting m)) (latest_metrics c)"
| "client_num_requests (SGLangClient c) =
     map_option (\<lambda>m. (s_num_requests_running m, s_num_requests_waiting m)) (latest_metrics c)"
| "client_num_requests (SkyRLClient c) =
     map_option (\<lambda>m. (k_num_requests_running m, k_num_requests_waiting m)) (latest_metrics c)"

fun client_calculate_shared_tokens :: "backend_client \<Rightarrow> int \<Rightarrow> int" where
  "client_calculate_shared_tokens (VLLMClient c) n = vllm_calculate_shared_tokens c n"
| "client_calculate_shared_tokens (SGLangClient c) n = sglang_calculate_shared_tokens c n"
| "client_calculate_shared_tokens (SkyRLClient c) n = skyrl_calculate_shared_tokens c n"

record backend =
  url :: string
  tool_coefficient :: real
  use_acting_token_decay :: bool
  metrics_client :: backend_client
  be_programs :: "(string, oid) dict"
  shared_tokens :: int
  future_paused_tokens :: int
  scheduling_in_progress :: bool

definition backend_init :: "string \<Rightarrow> real \<Rightarrow> backend_client \<Rightarrow> bool \<Rightarrow> backend" where
  "backend_init u coeff client decay =
     \<lparr>url = u, tool_coefficient = coeff, use_acting_token_decay = decay, metrics_client = client,
      be_programs = [], shared_tokens = 0, future_paused_tokens = 0,
      scheduling_in_progress = False\<rparr>"

definition completions_url :: "string \<Rightarrow> string" where
  "completions_url u =
     (let base = rstrip_char (CHR ''/'') u;
          base' = (if \<not> endswith base ''/v1'' then base @ ''/v1'' else base)
      in base' @ ''/chat/completions'')"

definition healthy :: "backend \<Rightarrow> bool" where
  "healthy b = client_healthy (metrics_client b)"

definition cache_capacity :: "backend \<Rightarrow> int option" where
  "cache_capacity b = client_capacity (metrics_client b)"

definition metrics_num_requests :: "backend \<Rightarrow> (int \<times> int) option" where
  "metrics_num_requests b = client_num_requests (metrics_client b)"

definition programs_with :: "store \<Rightarrow> backend \<Rightarrow> program_status \<Rightarrow> program list" where
  "programs_with objs b s = filter (\<lambda>p. status p = s) (map objs (dict_values (be_programs b)))"

definition reasoning_program_tokens :: "store \<Rightarrow> backend \<Rightarrow> int" where
  "reasoning_program_tokens objs b = sum_list (map total_tokens (programs_with objs b REASONING))"

definition acting_program_tokens :: "store \<Rightarrow> backend \<Rightarrow> int" where
  "acting_program_tokens objs b = sum_list (map total_tokens (programs_with objs b ACTING))"

definition active_program_tokens :: "store \<Rightarrow> backend \<Rightarrow> int" where
  "active_program_tokens objs b =
     trunc_int (real_of_int (reasoning_program_tokens objs b)
       + tool_coefficient b * real_of_int (acting_program_tokens objs b))"

definition active_program_count :: "backend \<Rightarrow> int" where
  "active_program_count b = int (length (be_programs b))"

definition reasoning_program_count :: "store \<Rightarrow> backend \<Rightarrow> int" where
  "reasoning_program_count objs b = int (length (programs_with objs b REASONING))"

definition acting_program_count :: "store \<Rightarrow> backend \<Rightarrow> int" where
  "acting_program_count objs b = int (length (programs_with objs b ACTING))"

definition total_program_tokens :: "store \<Rightarrow> backend \<Rightarrow> int" where
  "total_program_tokens objs b = sum_list (map (total_tokens \<circ> objs) (dict_values (be_programs b)))"

definition update_shared_tokens :: "store \<Rightarrow> backend \<Rightarrow> backend" where
  "update_shared_tokens objs b =
     b\<lparr>shared_tokens :=
       client_calculate_shared_tokens (metrics_client b) (reasoning_program_tokens objs b)\<rparr>"

definition active_program_tokens_ratio :: "store \<Rightarrow> backend \<Rightarrow> real" where
  "active_program_tokens_ratio objs b =
     (case cache_capacity b of
        None \<Rightarrow> 0
      | Some cap \<Rightarrow> if cap = 0 then 0
          else real_of_int (active_program_tokens objs b) / real_of_int cap)"

definition has_capacity :: "store \<Rightarrow> backend \<Rightarrow> int \<Rightarrow> int \<Rightarrow> bool" where
  "has_capacity objs b extra_tokens extra_count =
     (case cache_capacity b of
        None \<Rightarrow> True
      | Some cap \<Rightarrow>
          (let tokens = active_program_tokens objs b + extra_tokens;
               cnt = active_program_count b + extra_count;
               buffer = cnt * BUFFER_PER_PROGRAM;
               required = tokens - shared_tokens b + buffer
           in required \<le> cap))"

definition capacity_overflow :: "store \<Rightarrow> backend \<Rightarrow> bool \<Rightarrow> int" where
  "capacity_overflow objs b include_future_release =
     (case cache_capacity b of
        None \<Rightarrow> 0
      | Some cap \<Rightarrow>
          (let buffer = active_program_count b * BUFFER_PER_PROGRAM;
               required = active_program_tokens objs b - shared_tokens b + buffer;
               required' = (if include_future_release then required - future_paused_tokens b
                            else required)
           in max 0 (required' - cap)))"

definition remaining_capacity :: "store \<Rightarrow> backend \<Rightarrow> int ext" where
  "remaining_capacity objs b =
     (case cache_capacity b of
        None \<Rightarrow> Infty
      | Some cap \<Rightarrow>
          (let buffer = active_program_count b * BUFFER_PER_PROGRAM;
               used = active_program_tokens objs b - shared_tokens b + buffer
           in Fin (cap - used)))"

text \<open>The decayed weight of an ACTING program: \<open>total_tokens * 2 ** -(now - acting_since)\<close>.\<close>

definition decayed_tokens :: "real \<Rightarrow> program \<Rightarrow> real" where
  "decayed_tokens now p =
     (case acting_since p of
        Some t0 \<Rightarrow> real_of_int (total_tokens p) * 2 powr (- (now - t0))
      | None \<Rightarrow> 0)"

definition remaining_capacity_with_decay :: "store \<Rightarrow> backend \<Rightarrow> real \<Rightarrow> int ext" where
  "remaining_capacity_with_decay objs b now =
     (case cache_capacity b of
        None \<Rightarrow> Infty
      | Some cap \<Rightarrow>
          (let acting_decayed = sum_list (map (decayed_tokens now) (programs_with objs b ACTING));
               effective_tokens = trunc_int (real_of_int (reasoning_program_tokens objs b) + acting_decayed);
               buffer = active_program_count b * BUFFER_PER_PROGRAM;
               used = effective_tokens - shared_tokens b + buffer
           in Fin (cap - used)))"

definition register_program :: "string \<Rightarrow> oid \<Rightarrow> backend \<Rightarrow> backend" where
  "register_program pid o' b = b\<lparr>be_programs := AList.update pid o' (be_programs b)\<rparr>"

definition unregister_program :: "string \<Rightarrow> backend \<Rightarrow> backend" where
  "unregister_program pid b = b\<lparr>be_programs := AList.delete pid (be_programs b)\<rparr>"

lemma register_simps [simp]:
  "url (register_program pid o' b) = url b"
  "metrics_client (register_program pid o' b) = metrics_client b"
  "shared_tokens (register_program pid o' b) = shared_tokens b"
  "tool_coefficient (register_program pid o' b) = tool_coefficient b"
  "future_paused_tokens (register_program pid o' b) = future_paused_tokens b"
  "use_acting_token_decay (register_program pid o' b) = use_acting_token_decay b"
  "be_programs (register_program pid o' b) = AList.update pid o' (be_programs b)"
  "cache_capacity (register_program pid o' b) = cache_capacity b"
  "healthy (register_program pid o' b) = healthy b"
  by (simp_all add: register_program_def cache_capacity_def healthy_def)

lemma unregister_simps [simp]:
  "url (unregister_program pid b) = url b"
  "metrics_client (unregister_program pid b) = metrics_client b"
  "shared_tokens (unregister_program pid b) = shared_tokens b"
  "tool_coefficient (unregister_program pid b) = tool_coefficient b"
  "future_paused_tokens (unregister_program pid b) = future_paused_tokens b"
  "use_acting_token_decay (unregister_program pid b) = use_acting_token_decay b"
  "be_programs (unregister_program pid b) = AList.delete pid (be_programs b)"
  "cache_capacity (unregister_program pid b) = cache_capacity b"
  "healthy (unregister_program pid b) = healthy b"
  by (simp_all add: unregister_program_def cache_capacity_def healthy_def)

text \<open>Talking to the backend: the answers of its \<open>/metrics\<close> (and, for SGLang, \<open>/get_server_info\<close>)
  endpoints, or of the SkyRL engines, are arguments; each kind of client reads its own.\<close>

record backend_answers =
  an_now :: real
  an_metrics :: "string response"
  an_server_info :: "json option response"
  an_engines :: "skyrl_engine list option response"

fun client_fetch_metrics :: "backend_answers \<Rightarrow> backend_client \<Rightarrow> backend_client \<times> bool" where
  "client_fetch_metrics a (VLLMClient c) = map_prod VLLMClient id (vllm_fetch_metrics (an_now a) (an_metrics a) c)"
| "client_fetch_metrics a (SGLangClient c) = map_prod SGLangClient id (sglang_fetch_metrics (an_now a) (an_metrics a) c)"
| "client_fetch_metrics a (SkyRLClient c) = map_prod SkyRLClient id (skyrl_fetch_metrics (an_now a) (an_engines a) c)"

fun client_fetch_cache_config :: "backend_answers \<Rightarrow> backend_client \<Rightarrow> backend_client \<times> bool" where
  "client_fetch_cache_config a (VLLMClient c) = map_prod VLLMClient id (vllm_fetch_cache_config (an_metrics a) c)"
| "client_fetch_cache_config a (SGLangClient c) = map_prod SGLangClient id (sglang_fetch_cache_config (an_server_info a) c)"
| "client_fetch_cache_config a (SkyRLClient c) = map_prod SkyRLClient id (skyrl_fetch_cache_config (an_engines a) c)"

fun client_start_monitoring :: "backend_answers \<Rightarrow> backend_client \<Rightarrow> backend_client" where
  "client_start_monitoring a (VLLMClient c) = VLLMClient (start_monitoring (vllm_fetch_cache_config (an_metrics a)) c)"
| "client_start_monitoring a (SGLangClient c) = SGLangClient (start_monitoring (sglang_fetch_cache_config (an_server_info a)) c)"
| "client_start_monitoring a (SkyRLClient c) = SkyRLClient (start_monitoring (skyrl_fetch_cache_config (an_engines a)) c)"

fun client_stop_monitoring :: "backend_client \<Rightarrow> backend_client" where
  "client_stop_monitoring (VLLMClient c) = VLLMClient (stop_monitoring c)"
| "client_stop_monitoring (SGLangClient c) = SGLangClient (stop_monitoring c)"
| "client_stop_monitoring (SkyRLClient c) = SkyRLClient (stop_monitoring c)"

definition be_fetch_metrics :: "backend_answers \<Rightarrow> backend \<Rightarrow> backend" where
  "be_fetch_metrics a b = b\<lparr>metrics_client := fst (client_fetch_metrics a (metrics_client b))\<rparr>"

definition be_fetch_cache_config :: "backend_answers \<Rightarrow> backend \<Rightarrow> backend" where
  "be_fetch_cache_config a b = b\<lparr>metrics_client := fst (client_fetch_cache_config a (metrics_client b))\<rparr>"

definition be_start_monitoring :: "backend_answers \<Rightarrow> backend \<Rightarrow> backend" where
  "be_start_monitoring a b = b\<lparr>metrics_client := client_start_monitoring a (metrics_client b)\<rparr>"

definition be_stop_monitoring :: "backend \<Rightarrow> backend" where
  "be_stop_monitoring b = b\<lparr>metrics_client := client_stop_monitoring (metrics_client b)\<rparr>"

section \<open>Properties\<close>

text \<open>The three capacity checks agree: \<open>has_capacity\<close> with extra tokens and programs holds
  exactly when the extra demand fits in \<open>remaining_capacity\<close>, and \<open>capacity_overflow\<close> is the
  shortfall of \<open>remaining_capacity\<close>, reduced by the tokens marked for a future pause when these
  are to be counted.\<close>

theorem capacity_views_agree:
  "has_capacity objs b et ec
     = (Fin (et + ec * BUFFER_PER_PROGRAM) \<le> remaining_capacity objs b) \<and>
   capacity_overflow objs b future
     = (case remaining_capacity objs b of Infty \<Rightarrow> 0
        | Fin r \<Rightarrow> max 0 (- r - (if future then future_paused_tokens b else 0)))"
  by (auto simp: has_capacity_def capacity_overflow_def remaining_capacity_def Let_def
      algebra_simps split: option.splits)

lemma powr_decay_le: "t0 \<le> now \<Longrightarrow> 2 powr (t0 - now) \<le> (1::real)"
  using powr_mono [of "t0 - now" 0 "2::real"] by simp

lemma decayed_tokens_le: "0 \<le> total_tokens p \<Longrightarrow> (\<And>t0. acting_since p = Some t0 \<Longrightarrow> t0 \<le> now) \<Longrightarrow>
  decayed_tokens now p \<le> real_of_int (total_tokens p)"
  unfolding decayed_tokens_def
  by (auto split: option.split intro!: mult_left_le powr_decay_le)

lemma sum_decayed_le:
  "(\<And>p. p \<in> set ps \<Longrightarrow> 0 \<le> total_tokens p) \<Longrightarrow>
   (\<And>p t0. p \<in> set ps \<Longrightarrow> acting_since p = Some t0 \<Longrightarrow> t0 \<le> now) \<Longrightarrow>
   sum_list (map (decayed_tokens now) ps) \<le> real_of_int (sum_list (map total_tokens ps))"
proof (induction ps)
  case Nil
  then show ?case by simp
next
  case (Cons p ps)
  have "decayed_tokens now p \<le> real_of_int (total_tokens p)"
    by (rule decayed_tokens_le) (use Cons.prems in auto)
  moreover have "sum_list (map (decayed_tokens now) ps) \<le> real_of_int (sum_list (map total_tokens ps))"
    by (rule Cons.IH) (use Cons.prems in auto)
  ultimately show ?case by simp
qed

text \<open>The decay-adjusted capacity the resume logic uses is optimistic: when acting tokens
  have weight at least one, token counts are not negative and no program became ACTING in the
  future, it is never below the plain remaining capacity.\<close>

theorem decay_is_optimistic:
  assumes coeff: "1 \<le> tool_coefficient b"
    and tokens: "\<forall>o' \<in> set (dict_values (be_programs b)). 0 \<le> total_tokens (objs o')"
    and since: "\<forall>o' \<in> set (dict_values (be_programs b)). \<forall>t0. acting_since (objs o') = Some t0 \<longrightarrow> t0 \<le> now"
  shows "remaining_capacity objs b \<le> remaining_capacity_with_decay objs b now"
proof (cases "cache_capacity b")
  case None
  then show ?thesis by (simp add: remaining_capacity_with_decay_def)
next
  case (Some cap)
  let ?A = "real_of_int (acting_program_tokens objs b)"
  let ?D = "sum_list (map (decayed_tokens now) (programs_with objs b ACTING))"
  have "?D \<le> ?A"
    unfolding acting_program_tokens_def
    by (rule sum_decayed_le) (use tokens since in \<open>auto simp: programs_with_def\<close>)
  moreover have "0 \<le> ?A"
    unfolding acting_program_tokens_def
    by (simp, rule sum_list_nonneg_int) (use tokens in \<open>auto simp: programs_with_def\<close>)
  then have "?A \<le> tool_coefficient b * ?A" using coeff mult_right_mono [of 1] by fastforce
  ultimately have "trunc_int (real_of_int (reasoning_program_tokens objs b) + ?D)
      \<le> active_program_tokens objs b"
    unfolding active_program_tokens_def by (intro trunc_int_mono) linarith
  with Some show ?thesis
    by (simp add: remaining_capacity_def remaining_capacity_with_decay_def Let_def)
qed

definition sample_backend :: backend where
  "sample_backend = backend_init ''u'' 1
     (VLLMClient ((mclient_init ''u'')\<lparr>mc_cache_config := Some \<lparr>block_size = 16, num_gpu_blocks = 100\<rparr>\<rparr>)) True
     \<lparr>be_programs := [(''p'', 0)]\<rparr>"

theorem decay_is_optimistic_witness:
  "remaining_capacity (\<lambda>_. (program_defaults ''p'' ''t'')\<lparr>total_tokens := 800, acting_since := Some 0\<rparr>) sample_backend
     = Fin 700 \<and>
   remaining_capacity (\<lambda>_. (program_defaults ''p'' ''t'')\<lparr>total_tokens := 800, acting_since := Some 0\<rparr>) sample_backend
   \<le> remaining_capacity_with_decay
       (\<lambda>_. (program_defaults ''p'' ''t'')\<lparr>total_tokens := 800, acting_since := Some 0\<rparr>) sample_backend 3"
proof
  show "remaining_capacity (\<lambda>_. (program_defaults ''p'' ''t'')\<lparr>total_tokens := 800, acting_since := Some 0\<rparr>)
      sample_backend = Fin 700"
    by (simp add: remaining_capacity_def sample_backend_def backend_init_def cache_capacity_def
        vllm_total_tokens_capacity_def active_program_count_def active_program_tokens_def
        reasoning_program_tokens_def acting_program_tokens_def programs_with_def
        program_defaults_def BUFFER_PER_PROGRAM_def mclient_init_def Let_def)
  show "remaining_capacity (\<lambda>_. (program_defaults ''p'' ''t'')\<lparr>total_tokens := 800, acting_since := Some 0\<rparr>) sample_backend
   \<le> remaining_capacity_with_decay
       (\<lambda>_. (program_defaults ''p'' ''t'')\<lparr>total_tokens := 800, acting_since := Some 0\<rparr>) sample_backend 3"
    by (rule decay_is_optimistic)
      (simp_all add: sample_backend_def backend_init_def)
qed

end
