(* ===== verification/Predictor.thy ===== *)
theory Predictor
  imports TraceText Metrics
begin

text \<open>
  The table-driven step predictor (\<open>StepInfo\<close> and \<open>StepMap\<close> of
  \<open>scheduler/ThunderAgent/scheduler/predictor.py\<close>): per task type, how many finished programs took
  how many steps, the same per prefix state and per transition, and the recent step times per
  backend. A \<open>Counter\<close> is a dict from steps to counts; a missing key counts 0.
\<close>

type_synonym counter = "(int, int) dict"

definition cnt :: "counter \<Rightarrow> int \<Rightarrow> int" where
  "cnt c k = (case map_of c k of None \<Rightarrow> 0 | Some n \<Rightarrow> n)"

definition counter_inc :: "int \<Rightarrow> counter \<Rightarrow> counter" where
  "counter_inc k c = AList.update k (cnt c k + 1) c"

definition counter_total :: "counter \<Rightarrow> int" where
  "counter_total c = sum_list (dict_values c)"

record step_info =
  step_cnt :: counter
  state_step_cnt :: "(int \<times> string, counter) dict"
  transition_step_cnt :: "(int \<times> string \<times> string, counter) dict"
  step_time :: "(string option, real list) dict"

record step_map =
  stm_map :: "(string, step_info) dict"
  history_source :: string

definition step_info_init :: step_info where
  "step_info_init = \<lparr>step_cnt = [], state_step_cnt = [], transition_step_cnt = [], step_time = []\<rparr>"

definition step_map_init :: step_map where
  "step_map_init = \<lparr>stm_map = [], history_source = ''none''\<rparr>"

definition MIN_STATE_SAMPLES :: int where
  "MIN_STATE_SAMPLES = 3"

text \<open>The entry of a type, created empty when missing.\<close>

definition info_of :: "step_map \<Rightarrow> string \<Rightarrow> step_info" where
  "info_of sm tid = (case map_of (stm_map sm) tid of None \<Rightarrow> step_info_init | Some i \<Rightarrow> i)"

text \<open>\<open>d[key][k] += 1\<close> on a \<open>defaultdict(Counter)\<close>.\<close>

definition cell :: "('k, counter) dict \<Rightarrow> 'k \<Rightarrow> counter" where
  "cell d key = (case map_of d key of None \<Rightarrow> [] | Some c \<Rightarrow> c)"

definition cell_inc :: "'k \<Rightarrow> int \<Rightarrow> ('k, counter) dict \<Rightarrow> ('k, counter) dict" where
  "cell_inc key k d = AList.update key (counter_inc k (cell d key)) d"

text \<open>\<open>xs[:n]\<close>\<close>

definition py_take :: "int \<Rightarrow> 'a list \<Rightarrow> 'a list" where
  "py_take n xs = (if 0 \<le> n then take (nat n) xs else take (nat (int (length xs) + n)) xs)"

fun count_states :: "int \<Rightarrow> int \<Rightarrow> string \<Rightarrow> string list \<Rightarrow> step_info \<Rightarrow> step_info" where
  "count_states end_step prefix_k previous [] i = i"
| "count_states end_step prefix_k previous (b # bs) i =
     count_states end_step (prefix_k + 1) b bs
       (i\<lparr>state_step_cnt := cell_inc (prefix_k, b) end_step (state_step_cnt i),
          transition_step_cnt := cell_inc (prefix_k, previous, b) end_step (transition_step_cnt i)\<rparr>)"

definition update_step_cnt :: "string \<Rightarrow> int \<Rightarrow> string \<Rightarrow> string list \<Rightarrow> step_map \<Rightarrow> step_map" where
  "update_step_cnt tid end_step agent_ty states sm =
     (let i = info_of sm tid;
          i1 = i\<lparr>step_cnt := counter_inc end_step (step_cnt i)\<rparr>;
          i2 = (if normalize_agent_type agent_ty \<in> {''B'', ''C''}
                then count_states end_step 0 ''bos'' (py_take end_step states) i1 else i1)
      in sm\<lparr>stm_map := AList.update tid i2 (stm_map sm)\<rparr>)"

section \<open>Conditional endpoint counts\<close>

definition still_possible :: "int \<Rightarrow> counter \<Rightarrow> counter" where
  "still_possible cur c = filter (\<lambda>(step, n). cur \<le> step \<and> 0 < n) c"

definition get_conditional_step_counts :: "step_map \<Rightarrow> string \<Rightarrow> int \<Rightarrow> counter" where
  "get_conditional_step_counts sm tid cur =
     (case map_of (stm_map sm) tid of None \<Rightarrow> [] | Some i \<Rightarrow> still_possible cur (step_cnt i))"

definition get_conditional_state_counts ::
  "step_map \<Rightarrow> string \<Rightarrow> int \<Rightarrow> int \<Rightarrow> string \<Rightarrow> string option \<Rightarrow> counter" where
  "get_conditional_state_counts sm tid cur prefix_k bucket previous =
     (case map_of (stm_map sm) tid of
        None \<Rightarrow> []
      | Some i \<Rightarrow> still_possible cur
          (case previous of
             None \<Rightarrow> cell (state_step_cnt i) (prefix_k, bucket)
           | Some pv \<Rightarrow> cell (transition_step_cnt i) (prefix_k, pv, bucket)))"

definition get_max_prob_step :: "step_map \<Rightarrow> string \<Rightarrow> int \<Rightarrow> real option" where
  "get_max_prob_step sm tid cur =
     (let c = get_conditional_step_counts sm tid cur;
          total_weighted = sum_list (map (\<lambda>(step, n). step * n) c);
          total_counts = sum_list (map snd c)
      in if c = [] then None
         else if total_counts = 0 then None
         else Some (real_of_int total_weighted / real_of_int total_counts))"

definition conditional_mode :: "counter \<Rightarrow> real option" where
  "conditional_mode c =
     (if c = [] then None
      else (let highest = Max (set (dict_values c))
            in Some (real_of_int (Min (set (map fst (filter (\<lambda>(step, n). n = highest) c)))))))"

text \<open>\<open>statistics.median\<close> of the steps, each repeated as often as it was counted.\<close>

definition median :: "int list \<Rightarrow> real" where
  "median xs =
     (let ys = sort xs; n = length ys
      in if n mod 2 = 1 then real_of_int (ys ! (n div 2))
         else real_of_int (ys ! (n div 2 - 1) + ys ! (n div 2)) / 2)"

definition expand :: "counter \<Rightarrow> int list" where
  "expand c = concat (map (\<lambda>(step, n). replicate (nat n) step) c)"

definition conditional_median :: "counter \<Rightarrow> real option" where
  "conditional_median c = (if c = [] then None else Some (median (expand c)))"

text \<open>A cell is used only when it has enough samples.\<close>

definition enough :: "counter \<Rightarrow> bool" where
  "enough c \<longleftrightarrow> MIN_STATE_SAMPLES \<le> sum_list (dict_values c)"

record step_query =
  q_type_id :: string
  q_cur_step :: int
  q_agent_type :: string
  q_num_plan_steps :: "int option"
  q_prefix_k :: "int option"
  q_state_bucket :: "string option"
  q_previous_state :: "string option"

definition nonempty :: "string option \<Rightarrow> string option" where
  "nonempty s = (case s of Some [] \<Rightarrow> None | _ \<Rightarrow> s)"

definition state_candidate :: "step_map \<Rightarrow> step_query \<Rightarrow> counter" where
  "state_candidate sm q =
     (case (q_prefix_k q, nonempty (q_state_bucket q)) of
        (Some k, Some b) \<Rightarrow>
          (let c = get_conditional_state_counts sm (q_type_id q) (q_cur_step q) k b None
           in if enough c then c else [])
      | _ \<Rightarrow> [])"

definition transition_candidate :: "step_map \<Rightarrow> step_query \<Rightarrow> counter" where
  "transition_candidate sm q =
     (case (q_prefix_k q, nonempty (q_state_bucket q), nonempty (q_previous_state q)) of
        (Some k, Some b, Some pv) \<Rightarrow>
          (let c = get_conditional_state_counts sm (q_type_id q) (q_cur_step q) k b (Some pv)
           in if enough c then c else [])
      | _ \<Rightarrow> [])"

definition or_else :: "counter \<Rightarrow> counter \<Rightarrow> counter" where
  "or_else a b = (if a = [] then b else a)"

definition predict_end_step :: "step_map \<Rightarrow> step_query \<Rightarrow> real option" where
  "predict_end_step sm q =
     (let ty = normalize_agent_type (q_agent_type q);
          base = get_conditional_step_counts sm (q_type_id q) (q_cur_step q)
      in if ty = ''B'' then conditional_mode (or_else (state_candidate sm q) base)
         else if ty = ''C'' then conditional_median
           (or_else (or_else (transition_candidate sm q) (state_candidate sm q)) base)
         else get_max_prob_step sm (q_type_id q) (q_cur_step q))"

definition predict_remaining_steps :: "step_map \<Rightarrow> step_query \<Rightarrow> real option" where
  "predict_remaining_steps sm q =
     (if normalize_agent_type (q_agent_type q) = ''A'' then
        (case q_num_plan_steps q of
           None \<Rightarrow> None
         | Some n \<Rightarrow> if n \<le> 0 then None else Some (real_of_int (max 0 (n - q_cur_step q))))
      else map_option (\<lambda>e. max 0 (e - real_of_int (q_cur_step q))) (predict_end_step sm q))"

section \<open>Step times\<close>

definition STEP_TIME_MAXLEN :: nat where
  "STEP_TIME_MAXLEN = 10"

text \<open>\<open>deque(maxlen=10).append\<close> drops the oldest entry when full.\<close>

definition update_step_time :: "string \<Rightarrow> real \<Rightarrow> string option \<Rightarrow> step_map \<Rightarrow> step_map" where
  "update_step_time tid last_step_time backend_url sm =
     (let i = info_of sm tid;
          ts = (case map_of (step_time i) backend_url of None \<Rightarrow> [] | Some ts \<Rightarrow> ts)
      in sm\<lparr>stm_map := AList.update tid
           (i\<lparr>step_time := AList.update backend_url
               (last_n STEP_TIME_MAXLEN (ts @ [last_step_time])) (step_time i)\<rparr>) (stm_map sm)\<rparr>)"

definition get_avg_step_time :: "step_map \<Rightarrow> string \<Rightarrow> string option \<Rightarrow> real option" where
  "get_avg_step_time sm tid backend_url =
     (case map_of (stm_map sm) tid of
        None \<Rightarrow> None
      | Some i \<Rightarrow> (case map_of (step_time i) backend_url of
            None \<Rightarrow> None
          | Some ts \<Rightarrow> if ts = [] then None else Some (sum_list ts / real (length ts))))"

text \<open>\<open>(remaining_steps, {url: (avg_time, remaining_time)})\<close>\<close>

definition predict_remaining_time ::
  "step_map \<Rightarrow> step_query \<Rightarrow> string list \<Rightarrow> (real \<times> (string, real \<times> real) dict) option" where
  "predict_remaining_time sm q backend_urls =
     (case predict_remaining_steps sm q of
        None \<Rightarrow> None
      | Some predicted \<Rightarrow>
          (let remaining = predicted + 1;
               data = List.map_filter (\<lambda>u. map_option (\<lambda>avg. (u, (avg, remaining * avg)))
                        (get_avg_step_time sm (q_type_id q) (Some u))) backend_urls
           in if data = [] then None else Some (remaining, data)))"

section \<open>Counter facts\<close>

lemma cnt_inc [simp]: "cnt (counter_inc k c) k' = cnt c k' + of_bool (k' = k)"
  unfolding cnt_def counter_inc_def by (simp split: option.split)

lemma cell_inc_cell [simp]:
  "cell (cell_inc key k d) key' = (if key' = key then counter_inc k (cell d key) else cell d key')"
  unfolding cell_def cell_inc_def by simp

lemma still_possible_mem:
  "(s, n) \<in> set (still_possible cur c) \<longleftrightarrow> (s, n) \<in> set c \<and> cur \<le> s \<and> 0 < n"
  by (auto simp: still_possible_def)

lemma map_of_still_possible:
  "dict_wf c \<Longrightarrow> cur \<le> s \<Longrightarrow> 0 < cnt c s \<Longrightarrow> (s, cnt c s) \<in> set (still_possible cur c)"
  by (auto simp: still_possible_mem cnt_def dest: map_of_SomeD split: option.splits)


section \<open>Predictions stay among the endpoints still possible\<close>

definition counter_ok :: "counter \<Rightarrow> bool" where
  "counter_ok c \<longleftrightarrow> dict_wf c \<and> (\<forall>n \<in> set (dict_values c). 0 < n)"

text \<open>The tables of one type: every cell counts each endpoint at most as often as the endpoint
  table, because a finished program is counted at most once per prefix.\<close>

definition info_ok :: "step_info \<Rightarrow> bool" where
  "info_ok i \<longleftrightarrow> counter_ok (step_cnt i) \<and>
     (\<forall>key. counter_ok (cell (state_step_cnt i) key)) \<and>
     (\<forall>key. counter_ok (cell (transition_step_cnt i) key)) \<and>
     (\<forall>key k. cnt (cell (state_step_cnt i) key) k \<le> cnt (step_cnt i) k) \<and>
     (\<forall>key k. cnt (cell (transition_step_cnt i) key) k \<le> cnt (step_cnt i) k)"

definition map_ok :: "step_map \<Rightarrow> bool" where
  "map_ok sm \<longleftrightarrow> (\<forall>tid. info_ok (info_of sm tid))"

lemma counter_ok_empty [simp]: "counter_ok []"
  by (simp add: counter_ok_def)

lemma cnt_nonneg: "counter_ok c \<Longrightarrow> 0 \<le> cnt c k"
  by (fastforce simp: counter_ok_def cnt_def split: option.split dest: map_of_SomeD)

lemma counter_ok_inc [simp]: "counter_ok c \<Longrightarrow> counter_ok (counter_inc k c)"
proof -
  assume ok: "counter_ok c"
  have "0 < cnt c k + 1" using cnt_nonneg [OF ok, of k] by simp
  then have "\<forall>n \<in> set (dict_values (AList.update k (cnt c k + 1) c)). 0 < n"
    using ok values_update [of k "cnt c k + 1" c] unfolding counter_ok_def by blast
  then show ?thesis using ok by (simp add: counter_ok_def counter_inc_def)
qed

lemma count_states_step_cnt [simp]: "step_cnt (count_states e pk pv bs i) = step_cnt i"
  by (induction bs arbitrary: pk pv i) simp_all

lemma count_states_state_cells:
  "cnt (cell (state_step_cnt (count_states e pk pv bs i)) (j, b)) k
     \<le> cnt (cell (state_step_cnt i) (j, b)) k + of_bool (k = e \<and> pk \<le> j)"
proof (induction bs arbitrary: pk pv i)
  case Nil
  then show ?case by simp
next
  case (Cons a bs)
  show ?case
    unfolding count_states.simps by (rule order_trans [OF Cons.IH]) auto
qed

lemma count_states_transition_cells:
  "cnt (cell (transition_step_cnt (count_states e pk pv bs i)) (j, p, b)) k
     \<le> cnt (cell (transition_step_cnt i) (j, p, b)) k + of_bool (k = e \<and> pk \<le> j)"
proof (induction bs arbitrary: pk pv i)
  case Nil
  then show ?case by simp
next
  case (Cons a bs)
  show ?case
    unfolding count_states.simps by (rule order_trans [OF Cons.IH]) auto
qed

lemma count_states_ok:
  "\<forall>key. counter_ok (cell (state_step_cnt i) key) \<Longrightarrow>
   \<forall>key. counter_ok (cell (transition_step_cnt i) key) \<Longrightarrow>
   (\<forall>key. counter_ok (cell (state_step_cnt (count_states e pk pv bs i)) key)) \<and>
   (\<forall>key. counter_ok (cell (transition_step_cnt (count_states e pk pv bs i)) key))"
  by (induction bs arbitrary: pk pv i) simp_all

lemma info_ok_init [simp]: "info_ok step_info_init"
  by (simp add: info_ok_def step_info_init_def cell_def)

lemma map_ok_init: "map_ok step_map_init"
  by (simp add: map_ok_def info_of_def step_map_init_def)


lemma info_ok_of: "map_ok sm \<Longrightarrow> info_ok (info_of sm tid)"
  by (simp add: map_ok_def)

lemma info_ok_count:
  assumes "info_ok i"
  shows "info_ok (count_states e pk pv bs (i\<lparr>step_cnt := counter_inc e (step_cnt i)\<rparr>))"
proof -
  let ?i = "i\<lparr>step_cnt := counter_inc e (step_cnt i)\<rparr>"
  have le1: "cnt (cell (state_step_cnt (count_states e pk pv bs ?i)) key) k
      \<le> cnt (step_cnt i) k + of_bool (k = e)" for key k
  proof -
    have "cnt (cell (state_step_cnt (count_states e pk pv bs ?i)) key) k
        \<le> cnt (cell (state_step_cnt i) key) k + of_bool (k = e)"
      using count_states_state_cells [of e pk pv bs ?i "fst key" "snd key" k]
      unfolding prod.collapse by (rule order_trans) simp
    also have "cnt (cell (state_step_cnt i) key) k \<le> cnt (step_cnt i) k"
      using assms unfolding info_ok_def by blast
    finally show ?thesis by simp
  qed
  have le2: "cnt (cell (transition_step_cnt (count_states e pk pv bs ?i)) key) k
      \<le> cnt (step_cnt i) k + of_bool (k = e)" for key k
  proof -
    have "cnt (cell (transition_step_cnt (count_states e pk pv bs ?i)) key) k
        \<le> cnt (cell (transition_step_cnt i) key) k + of_bool (k = e)"
      using count_states_transition_cells [of e pk pv bs ?i "fst key" "fst (snd key)" "snd (snd key)" k]
      unfolding prod.collapse by (rule order_trans) simp
    also have "cnt (cell (transition_step_cnt i) key) k \<le> cnt (step_cnt i) k"
      using assms unfolding info_ok_def by blast
    finally show ?thesis by simp
  qed
  from assms count_states_ok [of ?i e pk pv bs] le1 le2 show ?thesis
    by (simp add: info_ok_def)
qed

lemma info_ok_inc: "info_ok i \<Longrightarrow> info_ok (i\<lparr>step_cnt := counter_inc e (step_cnt i)\<rparr>)"
  using info_ok_count [of i e 0 "[]" "[]"] by simp

lemma info_of_update [simp]:
  "info_of (sm\<lparr>stm_map := AList.update tid i (stm_map sm)\<rparr>) t = (if t = tid then i else info_of sm t)"
  by (simp add: info_of_def)

lemma map_ok_update:
  "map_ok sm \<Longrightarrow> map_ok (update_step_cnt tid e ag states sm)"
  by (auto simp: map_ok_def update_step_cnt_def Let_def info_ok_count info_ok_inc)

text \<open>Recording a finished program keeps the step tables consistent: every endpoint is counted
  a positive number of times, and no prefix-state or transition cell ever counts an endpoint more
  often than the endpoint table of its type does.\<close>

theorem update_step_cnt_ok:
  "map_ok sm \<Longrightarrow> map_ok (update_step_cnt tid e ag states sm)"
  by (rule map_ok_update)

theorem update_step_cnt_ok_witness:
  "map_ok (update_step_cnt ''t'' 3 ''micro_step'' [''start'', ''error'', ''submit''] step_map_init)"
  by (rule update_step_cnt_ok [OF map_ok_init])


section \<open>Where a prediction lies\<close>

lemma still_possible_values: "s \<in> set (map fst (still_possible cur c)) \<Longrightarrow> counter_ok c \<Longrightarrow>
    cur \<le> s \<and> 0 < cnt c s"
  by (auto simp: still_possible_def counter_ok_def cnt_def)

lemma conditional_mode_mem:
  "c \<noteq> [] \<Longrightarrow> \<exists>s \<in> set (map fst c). conditional_mode c = Some (real_of_int s)"
proof -
  assume ne: "c \<noteq> []"
  let ?m = "Max (set (dict_values c))"
  let ?S = "set (map fst (filter (\<lambda>(step, n). n = ?m) c))"
  have "?m \<in> set (dict_values c)" using ne by (intro Max_in) auto
  then obtain x where "x \<in> set c" "snd x = ?m" by auto
  then have "fst x \<in> ?S" by (auto simp: case_prod_beta)
  then have "?S \<noteq> {}" by (metis empty_iff)
  then have "Min ?S \<in> ?S" by (intro Min_in) auto
  then have "Min ?S \<in> set (map fst c)" by auto
  then show ?thesis using ne by (auto simp: conditional_mode_def Let_def)
qed

lemma set_expand: "\<forall>n \<in> set (dict_values c). 0 < n \<Longrightarrow> set (expand c) = set (map fst c)"
  by (force simp: expand_def)

lemma median_bounds:
  assumes "xs \<noteq> []" "\<forall>x \<in> set xs. lo \<le> x \<and> x \<le> hi"
  shows "real_of_int lo \<le> median xs \<and> median xs \<le> real_of_int hi"
proof -
  have nth: "lo \<le> sort xs ! i \<and> sort xs ! i \<le> hi" if "i < length xs" for i
    using assms(2) that by (metis length_sort nth_mem set_sort)
  have "length xs div 2 < length xs" "length xs div 2 - 1 < length xs"
    using assms(1) by (cases xs; simp)+
  from nth [OF this(1)] nth [OF this(2)] show ?thesis
    by (simp add: median_def Let_def)
qed

lemma weighted_bounds:
  assumes "\<forall>(s, n) \<in> set c. lo \<le> s \<and> s \<le> hi \<and> (0::int) < n"
  shows "lo * sum_list (map snd c) \<le> sum_list (map (\<lambda>(s, n). s * n) c) \<and>
    sum_list (map (\<lambda>(s, n). s * n) c) \<le> hi * sum_list (map snd c)"
  using assms
  by (induction c) (auto simp: distrib_left intro!: add_mono mult_right_mono)

lemma sum_snd_pos: "c \<noteq> [] \<Longrightarrow> \<forall>(s, n) \<in> set c. (0::int) < n \<Longrightarrow> 0 < sum_list (map snd c)"
proof (induction c)
  case Nil
  then show ?case by simp
next
  case (Cons p c)
  then show ?case by (cases "c = []") (auto simp: case_prod_beta)
qed


text \<open>The endpoints of a type still possible at a step.\<close>

definition possible :: "step_map \<Rightarrow> string \<Rightarrow> int \<Rightarrow> int \<Rightarrow> bool" where
  "possible sm tid cur s \<longleftrightarrow> cur \<le> s \<and> 0 < cnt (step_cnt (info_of sm tid)) s"

definition usable :: "step_map \<Rightarrow> string \<Rightarrow> int \<Rightarrow> counter \<Rightarrow> bool" where
  "usable sm tid cur c \<longleftrightarrow> (\<forall>n \<in> set (dict_values c). 0 < n) \<and> (\<forall>s \<in> set (map fst c). possible sm tid cur s)"

lemma usable_still_possible:
  assumes "counter_ok c" "\<And>k. cnt c k \<le> cnt (step_cnt (info_of sm tid)) k"
  shows "usable sm tid cur (still_possible cur c)"
proof -
  have "possible sm tid cur s" if "s \<in> set (map fst (still_possible cur c))" for s
    using still_possible_values [OF that assms(1)] assms(2) [of s] by (simp add: possible_def)
  moreover have "0 < n" if "n \<in> set (dict_values (still_possible cur c))" for n
    using that by (auto simp: still_possible_def)
  ultimately show ?thesis by (simp add: usable_def)
qed

lemma usable_Nil [simp]: "usable sm tid cur []"
  by (simp add: usable_def)

lemma usable_or_else: "usable sm tid cur a \<Longrightarrow> usable sm tid cur b \<Longrightarrow> usable sm tid cur (or_else a b)"
  by (simp add: or_else_def)

lemma usable_base: "map_ok sm \<Longrightarrow> usable sm tid cur (get_conditional_step_counts sm tid cur)"
  using info_ok_of [of sm tid] usable_still_possible [of "step_cnt (info_of sm tid)" sm tid cur]
  by (auto simp: get_conditional_step_counts_def info_ok_def info_of_def split: option.splits)

lemma usable_cells:
  assumes "map_ok sm"
  shows "usable sm tid cur (get_conditional_state_counts sm tid cur k b pv)"
proof (cases "map_of (stm_map sm) tid")
  case None
  then show ?thesis by (simp add: get_conditional_state_counts_def)
next
  case (Some i)
  then have i: "info_of sm tid = i" by (simp add: info_of_def)
  with info_ok_of [OF assms, of tid] have ok: "info_ok i" by simp
  show ?thesis
  proof (cases pv)
    case None
    have "usable sm tid cur (still_possible cur (cell (state_step_cnt i) (k, b)))"
      by (rule usable_still_possible) (use ok i in \<open>auto simp: info_ok_def\<close>)
    with Some None show ?thesis by (simp add: get_conditional_state_counts_def)
  next
    case (Some p)
    have "usable sm tid cur (still_possible cur (cell (transition_step_cnt i) (k, p, b)))"
      by (rule usable_still_possible) (use ok i in \<open>auto simp: info_ok_def\<close>)
    with Some \<open>map_of (stm_map sm) tid = Some i\<close> show ?thesis
      by (simp add: get_conditional_state_counts_def)
  qed
qed

lemma usable_candidates:
  assumes "map_ok sm"
  shows "usable sm (q_type_id q) (q_cur_step q) (state_candidate sm q)"
    "usable sm (q_type_id q) (q_cur_step q) (transition_candidate sm q)"
  using usable_cells [OF assms, of "q_type_id q" "q_cur_step q"]
  by (auto simp: state_candidate_def transition_candidate_def Let_def split: option.splits)

text \<open>Every estimator returns a value between two keys of its counter.\<close>

definition between :: "counter \<Rightarrow> real \<Rightarrow> bool" where
  "between c e \<longleftrightarrow> (\<exists>lo \<in> set (map fst c). \<exists>hi \<in> set (map fst c). real_of_int lo \<le> e \<and> e \<le> real_of_int hi)"

lemma between_bounds:
  assumes "c \<noteq> []"
    and "\<And>lo hi. \<forall>s \<in> set (map fst c). lo \<le> s \<and> s \<le> hi \<Longrightarrow> real_of_int lo \<le> e \<and> e \<le> real_of_int hi"
  shows "between c e"
proof -
  let ?K = "set (map fst c)"
  have "Min ?K \<in> ?K" "Max ?K \<in> ?K" using assms(1) by (auto intro!: Min_in Max_in simp del: set_map)
  moreover have "\<forall>s \<in> ?K. Min ?K \<le> s \<and> s \<le> Max ?K" by simp
  then have "real_of_int (Min ?K) \<le> e \<and> e \<le> real_of_int (Max ?K)" by (rule assms(2))
  ultimately show ?thesis unfolding between_def by blast
qed

lemma between_mode: "conditional_mode c = Some e \<Longrightarrow> between c e"
proof -
  assume e: "conditional_mode c = Some e"
  then have "c \<noteq> []" by (auto simp: conditional_mode_def)
  from conditional_mode_mem [OF this] e show ?thesis by (auto simp only: between_def option.inject)
qed

lemma between_median:
  assumes "conditional_median c = Some e" "\<forall>n \<in> set (dict_values c). 0 < n"
  shows "between c e"
proof (rule between_bounds)
  show ne: "c \<noteq> []" using assms(1) by (auto simp: conditional_median_def)
  fix lo hi assume b: "\<forall>s \<in> set (map fst c). lo \<le> s \<and> s \<le> hi"
  have s: "set (expand c) = set (map fst c)" by (rule set_expand [OF assms(2)])
  with ne have "expand c \<noteq> []" by auto
  with b s have "real_of_int lo \<le> median (expand c) \<and> median (expand c) \<le> real_of_int hi"
    by (intro median_bounds) simp_all
  with assms(1) ne show "real_of_int lo \<le> e \<and> e \<le> real_of_int hi"
    by (simp add: conditional_median_def)
qed


lemma between_mean:
  assumes "c \<noteq> []" "\<forall>n \<in> set (dict_values c). 0 < n"
  shows "between c (real_of_int (sum_list (map (\<lambda>(s, n). s * n) c)) / real_of_int (sum_list (map snd c)))"
proof (rule between_bounds [OF assms(1)])
  fix lo hi assume "\<forall>s \<in> set (map fst c). lo \<le> s \<and> s \<le> hi"
  with assms(2) have "\<forall>(s, n) \<in> set c. lo \<le> s \<and> s \<le> hi \<and> 0 < n" by auto
  note w = weighted_bounds [OF this]
  have pos: "0 < sum_list (map snd c)" using sum_snd_pos assms by fastforce
  let ?n = "real_of_int (sum_list (map snd c))"
  let ?w = "real_of_int (sum_list (map (\<lambda>(s, n). s * n) c))"
  from w have "real_of_int lo * ?n \<le> ?w" "?w \<le> real_of_int hi * ?n"
    by (metis of_int_le_iff of_int_mult)+
  with pos show "real_of_int lo \<le> ?w / ?n \<and> ?w / ?n \<le> real_of_int hi"
    by (simp add: le_divide_eq divide_le_eq)
qed

lemma between_usable:
  "between c e \<Longrightarrow> usable sm tid cur c \<Longrightarrow>
   \<exists>lo hi. possible sm tid cur lo \<and> possible sm tid cur hi \<and> real_of_int lo \<le> e \<and> e \<le> real_of_int hi"
  unfolding between_def usable_def by blast

lemma predict_end_step_range:
  assumes ok: "map_ok sm" and e: "predict_end_step sm q = Some e"
  shows "\<exists>lo hi. possible sm (q_type_id q) (q_cur_step q) lo \<and> possible sm (q_type_id q) (q_cur_step q) hi
    \<and> real_of_int lo \<le> e \<and> e \<le> real_of_int hi"
proof -
  let ?base = "get_conditional_step_counts sm (q_type_id q) (q_cur_step q)"
  let ?st = "state_candidate sm q" and ?tr = "transition_candidate sm q"
  note u = usable_base [OF ok] usable_candidates [OF ok] usable_or_else
  consider (b) "conditional_mode (or_else ?st ?base) = Some e"
    | (c) "conditional_median (or_else (or_else ?tr ?st) ?base) = Some e"
    | (m) "get_max_prob_step sm (q_type_id q) (q_cur_step q) = Some e"
    using e by (auto simp: predict_end_step_def Let_def split: if_splits)
  then show ?thesis
  proof cases
    case b
    show ?thesis by (rule between_usable [OF between_mode [OF b]]) (intro u)
  next
    case c
    have us: "usable sm (q_type_id q) (q_cur_step q) (or_else (or_else ?tr ?st) ?base)" by (intro u)
    then have "\<forall>n \<in> set (dict_values (or_else (or_else ?tr ?st) ?base)). 0 < n"
      unfolding usable_def by blast
    from between_usable [OF between_median [OF c this] us] show ?thesis .
  next
    case m
    have us: "usable sm (q_type_id q) (q_cur_step q) ?base" by (intro u)
    then have "\<forall>n \<in> set (dict_values ?base). 0 < n" unfolding usable_def by blast
    then have "between ?base e"
      using m between_mean [of ?base] by (auto simp: get_max_prob_step_def Let_def split: if_splits)
    from between_usable [OF this us] show ?thesis .
  qed
qed

text \<open>C26: A prediction for a program whose agent type is not planning lies between two endpoints
  recorded for its type that are still possible at the current step, whichever table and whichever
  estimator (mode, median or mean) produced it; so it is never negative and the clamp at zero never
  takes effect.\<close>

theorem prediction_among_possible_endpoints:
  assumes "map_ok sm" "normalize_agent_type (q_agent_type q) \<noteq> ''A''"
    and "predict_remaining_steps sm q = Some r"
  shows "\<exists>lo hi. possible sm (q_type_id q) (q_cur_step q) lo \<and> possible sm (q_type_id q) (q_cur_step q) hi
    \<and> real_of_int (lo - q_cur_step q) \<le> r \<and> r \<le> real_of_int (hi - q_cur_step q)
    \<and> predict_end_step sm q = Some (r + real_of_int (q_cur_step q))"
proof -
  from assms(2,3) obtain e where e: "predict_end_step sm q = Some e"
    and r: "r = max 0 (e - real_of_int (q_cur_step q))"
    by (auto simp: predict_remaining_steps_def)
  from predict_end_step_range [OF assms(1) e] obtain lo hi where
    p: "possible sm (q_type_id q) (q_cur_step q) lo" "possible sm (q_type_id q) (q_cur_step q) hi"
    and le: "real_of_int lo \<le> e" "e \<le> real_of_int hi" by blast
  from p(1) have "real_of_int (q_cur_step q) \<le> real_of_int lo" by (simp add: possible_def)
  with le r have "r = e - real_of_int (q_cur_step q)" by simp
  with p le e show ?thesis by (intro exI [of _ lo] exI [of _ hi]) simp
qed


definition sample_map :: step_map where
  "sample_map = update_step_cnt ''t'' 5 ''c'' [''start'', ''error'']
     (update_step_cnt ''t'' 3 ''c'' [''start'', ''error'']
       (update_step_cnt ''t'' 5 ''c'' [''start'', ''error''] step_map_init))"

definition sample_query :: step_query where
  "sample_query = \<lparr>q_type_id = ''t'', q_cur_step = 2, q_agent_type = ''c'', q_num_plan_steps = None,
     q_prefix_k = Some 1, q_state_bucket = Some ''error'', q_previous_state = Some ''start''\<rparr>"

lemma sample_map_ok: "map_ok sample_map"
  unfolding sample_map_def by (intro map_ok_update map_ok_init)

lemma normalize_c: "normalize_agent_type ''c'' = ''C''"
  by code_simp

lemma sample_prediction: "predict_remaining_steps sample_map sample_query = Some 3"
proof -
  have "transition_candidate sample_map sample_query = [(5, 2), (3, 1)]" by code_simp
  then have "predict_end_step sample_map sample_query = conditional_median [(5, 2), (3, 1)]"
    by (simp add: predict_end_step_def sample_query_def normalize_c or_else_def)
  moreover have "expand [(5, 2), (3, 1)] = [5, 5, 3]" by code_simp
  ultimately show ?thesis
    by (simp add: predict_remaining_steps_def sample_query_def normalize_c conditional_median_def
        median_def)
qed

theorem prediction_among_possible_endpoints_witness:
  "\<exists>lo hi. possible sample_map ''t'' 2 lo \<and> possible sample_map ''t'' 2 hi
    \<and> real_of_int (lo - 2) \<le> 3 \<and> 3 \<le> real_of_int (hi - 2)
    \<and> predict_end_step sample_map sample_query = Some 5"
  using prediction_among_possible_endpoints [OF sample_map_ok _ sample_prediction]
  by (simp add: sample_query_def normalize_c)


section \<open>When there is a prediction, and step times\<close>

lemma or_else_Nil [simp]: "or_else a b = [] \<longleftrightarrow> a = [] \<and> b = []"
  by (simp add: or_else_def)

lemma usable_empty: "usable sm tid cur c \<Longrightarrow> \<not> (\<exists>s. possible sm tid cur s) \<Longrightarrow> c = []"
  by (cases c) (auto simp: usable_def)

lemma base_nonempty: "map_ok sm \<Longrightarrow> possible sm tid cur s \<Longrightarrow> get_conditional_step_counts sm tid cur \<noteq> []"
  using info_ok_of [of sm tid] map_of_still_possible [of "step_cnt (info_of sm tid)" cur s]
  by (auto simp: possible_def get_conditional_step_counts_def info_ok_def counter_ok_def info_of_def
      step_info_init_def cnt_def split: option.splits)

lemma mean_defined: "map_ok sm \<Longrightarrow> get_conditional_step_counts sm tid cur \<noteq> [] \<Longrightarrow>
    get_max_prob_step sm tid cur \<noteq> None"
  using usable_base [of sm tid cur] sum_snd_pos [of "get_conditional_step_counts sm tid cur"]
  by (fastforce simp: get_max_prob_step_def usable_def Let_def)

text \<open>For a program whose agent type is not planning there is a prediction exactly when some
  recorded endpoint of its type is still possible at the current step; the sparse prefix-state and
  transition cells never make it unavailable.\<close>

theorem prediction_available:
  assumes ok: "map_ok sm" and ty: "normalize_agent_type (q_agent_type q) \<noteq> ''A''"
  shows "predict_remaining_steps sm q \<noteq> None
    \<longleftrightarrow> (\<exists>s. possible sm (q_type_id q) (q_cur_step q) s)"
proof -
  let ?base = "get_conditional_step_counts sm (q_type_id q) (q_cur_step q)"
  let ?P = "\<exists>s. possible sm (q_type_id q) (q_cur_step q) s"
  have iff: "?base \<noteq> [] \<longleftrightarrow> ?P"
    using base_nonempty [OF ok] usable_empty [OF usable_base [OF ok]] by blast
  have none: "state_candidate sm q = []" "transition_candidate sm q = []" if "\<not> ?P"
    using usable_empty [OF usable_candidates(1) [OF ok] that]
      usable_empty [OF usable_candidates(2) [OF ok] that] by simp_all
  have "predict_end_step sm q \<noteq> None \<longleftrightarrow> ?base \<noteq> []"
  proof (cases ?P)
    case True
    with iff mean_defined [OF ok] show ?thesis
      by (simp add: predict_end_step_def Let_def conditional_mode_def conditional_median_def)
  next
    case False
    with iff none show ?thesis
      by (simp add: predict_end_step_def Let_def conditional_mode_def conditional_median_def
          get_max_prob_step_def)
  qed
  with iff ty show ?thesis by (simp add: predict_remaining_steps_def)
qed

theorem prediction_available_witness:
  "(predict_remaining_steps sample_map sample_query \<noteq> None) = (\<exists>s. possible sample_map ''t'' 2 s)"
  using prediction_available [OF sample_map_ok, of sample_query]
  by (simp add: sample_query_def normalize_c)

end
