(* ===== verification/Router.thy ===== *)
theory Router
  imports Backend Predictor
begin

text \<open>
  The router's state and its bookkeeping (\<open>scheduler/ThunderAgent/scheduler/router.py\<close>): the table
  of programs, the backends, the pool of paused programs, how a backend is selected, and the
  statistics. A backend object is named by its URL, the key of \<open>backends\<close>; a program object by
  its number in the store \<open>objs\<close>; an \<open>asyncio.Event\<close> by its number, \<open>events\<close> telling which are set.
  The clock is an argument \<open>now\<close> of the operations that read it.
\<close>

record paused_info =
  pi_program_id :: string
  pi_total_tokens :: int
  paused_at :: real
  pi_origin_backend :: "string option"
  pi_step_count :: int

record router =
  acting_token_weight :: real
  backends :: "(string, backend) dict"
  programs :: "(string, oid) dict"
  global_waiting_queue :: "(string, paused_info) dict"
  objs :: store
  next_obj :: oid
  events :: "nat \<Rightarrow> bool"
  next_event :: nat
  profile_enabled :: bool
  scheduling_enabled :: bool
  scheduler_policy :: string
  dynamic_sd_enabled :: bool
  sd_switch_threshold :: int
  sd_enable_threshold :: int
  sd_enabled_by_backend :: "(string, bool option) dict"
  sd_projected_load_by_backend :: "(string, int option) dict"
  sd_resumed_by_backend :: "(string, int) dict"
  remaining_step_prediction_enabled :: bool
  char_to_token_ratio :: real
  ratio_initialized :: bool
  weight_sync_active :: bool
  weight_sync_event :: bool
  weight_sync_watchdog :: bool
  step_map :: step_map

section \<open>Construction\<close>

definition create_metrics_client :: "string \<Rightarrow> string \<Rightarrow> py_error + backend_client" where
  "create_metrics_client backend_type u =
     (if backend_type = ''vllm'' then Inr (VLLMClient (mclient_init u))
      else if backend_type = ''sglang'' then Inr (SGLangClient (mclient_init u))
      else if backend_type = ''skyrl'' then Inr (SkyRLClient (mclient_init u))
      else Inl ValueError)"

definition split_urls :: "string \<Rightarrow> string list" where
  "split_urls s = filter (\<lambda>u. u \<noteq> []) (map strip (split_char (CHR '','') s))"

record router_args =
  a_profile_enabled :: bool
  a_scheduling_enabled :: bool
  a_scheduler_policy :: string
  a_dynamic_sd_enabled :: bool
  a_sd_switch_threshold :: int
  a_backend_type :: string
  a_acting_token_weight :: real
  a_use_acting_token_decay :: bool
  a_llm_task_stats_interval :: real
  a_llm_task_stats_file :: "string option"

definition valid_scheduler_policies :: "string list" where
  "valid_scheduler_policies = [''original'', ''remaining_steps'', ''predicted_remaining_steps'']"

fun add_backends :: "router_args \<Rightarrow> string list \<Rightarrow> (string, backend) dict \<Rightarrow> py_error + (string, backend) dict" where
  "add_backends a [] d = Inr d"
| "add_backends a (u # us) d =
     ebind (create_metrics_client (a_backend_type a) u) (\<lambda>c.
       add_backends a us
         (AList.update u (backend_init u (a_acting_token_weight a) c (a_use_acting_token_decay a)) d))"

text \<open>\<open>__init__\<close>; \<open>history\<close> is what \<open>StepMap\<close> loads from the trace directory.\<close>

definition router_init :: "string list \<Rightarrow> router_args \<Rightarrow> step_map \<Rightarrow> py_error + router" where
  "router_init urls a history =
     (if a_scheduler_policy a \<notin> set valid_scheduler_policies then Inl ValueError
      else if a_sd_switch_threshold a \<le> 0 then Inl ValueError
      else if a_dynamic_sd_enabled a \<and> a_backend_type a \<noteq> ''vllm'' then Inl ValueError
      else if (case a_llm_task_stats_file a of Some f \<Rightarrow> f \<noteq> [] | None \<Rightarrow> False)
              \<and> a_llm_task_stats_interval a \<le> 0 then Inl ValueError
      else ebind (add_backends a urls []) (\<lambda>bs.
        let predict = a_scheduling_enabled a \<and> a_scheduler_policy a = ''predicted_remaining_steps''
        in Inr \<lparr>acting_token_weight = a_acting_token_weight a, backends = bs, programs = [],
             global_waiting_queue = [], objs = (\<lambda>_. program_defaults [] []), next_obj = 0,
             events = (\<lambda>_. False), next_event = 0,
             profile_enabled = a_profile_enabled a, scheduling_enabled = a_scheduling_enabled a,
             scheduler_policy = a_scheduler_policy a, dynamic_sd_enabled = a_dynamic_sd_enabled a,
             sd_switch_threshold = a_sd_switch_threshold a,
             sd_enable_threshold = trunc_int (real_of_int (a_sd_switch_threshold a) * (3 / 4)),
             sd_enabled_by_backend = map (\<lambda>(u, b). (u, None)) bs,
             sd_projected_load_by_backend = map (\<lambda>(u, b). (u, None)) bs,
             sd_resumed_by_backend = map (\<lambda>(u, b). (u, 0)) bs,
             remaining_step_prediction_enabled = predict,
             char_to_token_ratio = 5, ratio_initialized = False,
             weight_sync_active = False, weight_sync_event = True, weight_sync_watchdog = False,
             step_map = (if predict then history else step_map_init)\<rparr>))"

section \<open>Access\<close>

definition upd_obj :: "oid \<Rightarrow> (program \<Rightarrow> program) \<Rightarrow> router \<Rightarrow> router" where
  "upd_obj i f r = r\<lparr>objs := (objs r)(i := f (objs r i))\<rparr>"

definition upd_backend :: "string \<Rightarrow> (backend \<Rightarrow> backend) \<Rightarrow> router \<Rightarrow> router" where
  "upd_backend u f r =
     (case map_of (backends r) u of None \<Rightarrow> r
      | Some b \<Rightarrow> r\<lparr>backends := AList.update u (f b) (backends r)\<rparr>)"

text \<open>\<open>self.backends.get(url)\<close> for a URL that may be None.\<close>

definition get_backend :: "router \<Rightarrow> string option \<Rightarrow> backend option" where
  "get_backend r u = Option.bind u (map_of (backends r))"

definition set_event :: "nat \<Rightarrow> bool \<Rightarrow> router \<Rightarrow> router" where
  "set_event e v r = r\<lparr>events := (events r)(e := v)\<rparr>"

definition new_event :: "router \<Rightarrow> nat \<times> router" where
  "new_event r = (next_event r, r\<lparr>next_event := Suc (next_event r), events := (events r)(next_event r := False)\<rparr>)"

abbreviation prog :: "router \<Rightarrow> string \<Rightarrow> program option" where
  "prog r pid \<equiv> map_option (objs r) (map_of (programs r) pid)"

abbreviation table_programs :: "router \<Rightarrow> program list" where
  "table_programs r \<equiv> map (objs r) (dict_values (programs r))"

definition get_inference_task_count :: "router \<Rightarrow> int" where
  "get_inference_task_count r =
     int (length (filter (\<lambda>p. state p = ACTIVE \<and> status p = REASONING \<and> get_backend r (backend_url p) \<noteq> None)
       (table_programs r)))"

section \<open>Weight synchronisation\<close>

definition begin_weight_sync :: "router \<Rightarrow> router" where
  "begin_weight_sync r =
     (if weight_sync_active r then r
      else r\<lparr>weight_sync_active := True, weight_sync_event := False, weight_sync_watchdog := True\<rparr>)"

definition end_weight_sync :: "router \<Rightarrow> router" where
  "end_weight_sync r =
     (if \<not> weight_sync_active r then r
      else r\<lparr>weight_sync_watchdog := False, weight_sync_active := False, weight_sync_event := True\<rparr>)"

text \<open>The watchdog after its sleep.\<close>

definition weight_sync_timeout :: "router \<Rightarrow> router" where
  "weight_sync_timeout r =
     (if weight_sync_active r
      then r\<lparr>weight_sync_active := False, weight_sync_event := True, weight_sync_watchdog := False\<rparr>
      else r)"

section \<open>Backend selection\<close>

definition get_default_backend :: "router \<Rightarrow> py_error + string" where
  "get_default_backend r = (case backends r of [] \<Rightarrow> Inl StopIteration | (u, b) # _ \<Rightarrow> Inr u)"

definition load_of :: "router \<Rightarrow> string \<Rightarrow> int" where
  "load_of r u = int (length (filter (\<lambda>p. backend_url p = Some u) (table_programs r)))"

text \<open>The loop that keeps the first strict minimum of a cost among the admissible backends.\<close>

fun first_min :: "(string \<times> backend \<Rightarrow> 'a::linorder) \<Rightarrow> (backend \<Rightarrow> bool) \<Rightarrow> (string \<times> backend) list
    \<Rightarrow> string option \<Rightarrow> 'a ext \<Rightarrow> string option" where
  "first_min cost ok [] best m = best"
| "first_min cost ok (ub # rest) best m =
     (if ok (snd ub) \<and> Fin (cost ub) < m then first_min cost ok rest (Some (fst ub)) (Fin (cost ub))
      else first_min cost ok rest best m)"

definition select_backend_for_new_program_default :: "router \<Rightarrow> py_error + string" where
  "select_backend_for_new_program_default r =
     (case first_min (\<lambda>ub. load_of r (fst ub)) healthy (backends r) None Infty of
        Some u \<Rightarrow> Inr u
      | None \<Rightarrow> get_default_backend r)"

definition select_backend_for_new_program :: "router \<Rightarrow> int \<Rightarrow> string option" where
  "select_backend_for_new_program r estimated_tokens =
     (if 0 < length (global_waiting_queue r) then None
      else let required_capacity = estimated_tokens + BUFFER_PER_PROGRAM
        in first_min (\<lambda>ub. active_program_tokens (objs r) (snd ub))
             (\<lambda>b. healthy b \<and> \<not> remaining_capacity (objs r) b < Fin required_capacity)
             (backends r) None Infty)"

definition time_cost :: "program \<Rightarrow> string \<Rightarrow> real ext" where
  "time_cost p u =
     (case predicted_remaining_time p of
        None \<Rightarrow> Infty
      | Some [] \<Rightarrow> Infty
      | Some d \<Rightarrow> (case map_of d u of None \<Rightarrow> Infty | Some t \<Rightarrow> Fin t))"

definition select_backend_for_new_program_specsys :: "router \<Rightarrow> program \<Rightarrow> string option" where
  "select_backend_for_new_program_specsys r p =
     (if 0 < length (global_waiting_queue r) then None
      else let required_capacity = total_tokens p + BUFFER_PER_PROGRAM;
               eligible = filter (\<lambda>(u, b). healthy b \<and> Fin required_capacity \<le> remaining_capacity (objs r) b)
                            (backends r)
           in if eligible = [] then None
              else Some (fst (hd (sort_key (\<lambda>(u, b). (time_cost p u, active_program_tokens (objs r) b)) eligible))))"

definition get_backend_for_program :: "router \<Rightarrow> string \<Rightarrow> py_error + string" where
  "get_backend_for_program r pid =
     (case Option.bind (prog r pid) backend_url of
        Some u \<Rightarrow> if map_of (backends r) u \<noteq> None then Inr u else get_default_backend r
      | None \<Rightarrow> get_default_backend r)"

section \<open>Load-based migration\<close>

definition MIGRATION_MARGIN :: int where
  "MIGRATION_MARGIN = 16"

definition get_backend_load :: "backend \<Rightarrow> py_error + int" where
  "get_backend_load b =
     (case metrics_num_requests b of None \<Rightarrow> Inl AttributeError | Some (running, waiting) \<Rightarrow> Inr (running + waiting))"

fun find_lighter :: "string \<Rightarrow> (string \<times> backend) list \<Rightarrow> string \<Rightarrow> int \<Rightarrow> py_error + string" where
  "find_lighter cur [] best m = Inr best"
| "find_lighter cur ((u, b) # rest) best m =
     (if u = cur \<or> \<not> healthy b then find_lighter cur rest best m
      else ebind (get_backend_load b) (\<lambda>l.
        if l < m - MIGRATION_MARGIN then find_lighter cur rest u l else find_lighter cur rest best m))"

text \<open>The result is Python's None when the program is not on a backend.\<close>

definition update_backend_for_program :: "string \<Rightarrow> router \<Rightarrow> (py_error + bool option) \<times> router" where
  "update_backend_for_program pid r =
     (case map_of (programs r) pid of
        None \<Rightarrow> (Inr None, r)
      | Some i \<Rightarrow>
         (case backend_url (objs r i) of
            None \<Rightarrow> (Inr None, r)
          | Some cur \<Rightarrow>
             if cur = [] then (Inr None, r)
             else (case map_of (backends r) cur of
                None \<Rightarrow> (Inl AttributeError, r)
              | Some current_backend \<Rightarrow>
                 (case ebind (get_backend_load current_backend) (find_lighter cur (backends r) cur) of
                    Inl e \<Rightarrow> (Inl e, r)
                  | Inr best \<Rightarrow>
                      if best = cur then (Inr (Some False), r)
                      else (Inr (Some True),
                            upd_backend best (register_program pid i)
                              (upd_obj i (\<lambda>p. p\<lparr>backend_url := Some best\<rparr>)
                                (upd_backend cur (unregister_program pid) r)))))))"

section \<open>Creating programs\<close>

definition system_text :: "json \<Rightarrow> string list" where
  "system_text m =
     (case m of
        JObj d \<Rightarrow>
          if jget d ''role'' \<noteq> JStr ''system'' then []
          else (case jget d ''content'' of
              JStr s \<Rightarrow> [s]
            | JList items \<Rightarrow> List.map_filter (\<lambda>item. case item of
                  JObj it \<Rightarrow> (case jor (jget it ''text'') (jget it ''input_text'') of JStr s \<Rightarrow> Some s | _ \<Rightarrow> None)
                | _ \<Rightarrow> None) items
            | _ \<Rightarrow> [])
      | _ \<Rightarrow> [])"

definition estimate_system_prompt_tokens :: "(string, json) dict \<Rightarrow> int" where
  "estimate_system_prompt_tokens payload =
     (case jget payload ''messages'' of
        JList messages \<Rightarrow>
          (let parts = concat (map system_text messages)
           in if parts = [] then 0 else max 0 (int (length (join [CHR 10] parts)) div 5))
      | _ \<Rightarrow> 0)"

definition new_program :: "string \<Rightarrow> string \<Rightarrow> int \<Rightarrow> string \<Rightarrow> int option \<Rightarrow> bool \<Rightarrow> program" where
  "new_program pid tid steps ag plan prof =
     (program_defaults pid tid)\<lparr>agent_type := normalize_agent_type ag, num_plan_steps := plan,
        total_steps := steps, status := REASONING,
        profile := (if prof then Some (profile_init pid) else None)\<rparr>"

definition refresh_metadata :: "string \<Rightarrow> int option \<Rightarrow> program \<Rightarrow> program" where
  "refresh_metadata ag plan p =
     (let ty = normalize_agent_type ag;
          p1 = (if ty \<noteq> ''unknown'' then p\<lparr>agent_type := ty\<rparr> else p)
      in case plan of Some n \<Rightarrow> if 0 < n then p1\<lparr>num_plan_steps := Some n\<rparr> else p1 | None \<Rightarrow> p1)"

definition get_or_create_program ::
  "string \<Rightarrow> string \<Rightarrow> int \<Rightarrow> string \<Rightarrow> int option \<Rightarrow> router \<Rightarrow> oid \<times> router" where
  "get_or_create_program pid tid steps ag plan r =
     (case map_of (programs r) pid of
        Some i \<Rightarrow> (i, upd_obj i (refresh_metadata ag plan) r)
      | None \<Rightarrow>
          (let i = next_obj r;
               p = new_program pid tid steps ag plan (profile_enabled r)
           in (i, upd_obj i (refresh_metadata ag plan)
                 (r\<lparr>objs := (objs r)(i := p), next_obj := Suc i,
                    programs := AList.update pid i (programs r)\<rparr>))))"

section \<open>Statistics\<close>

definition get_programs_on_backend :: "router \<Rightarrow> string \<Rightarrow> (string, oid) dict" where
  "get_programs_on_backend r u = filter (\<lambda>(pid, i). backend_url (objs r i) = Some u) (programs r)"

definition count_if :: "(program \<Rightarrow> bool) \<Rightarrow> program list \<Rightarrow> int" where
  "count_if P ps = int (length (filter P ps))"

text \<open>\<open>counts[origin] += 1\<close> for the infos whose origin is a backend.\<close>

definition get_paused_counts_by_backend :: "router \<Rightarrow> (string, int) dict" where
  "get_paused_counts_by_backend r =
     foldl (\<lambda>counts info. case pi_origin_backend info of
              None \<Rightarrow> counts
            | Some u \<Rightarrow> (case map_of counts u of None \<Rightarrow> counts | Some n \<Rightarrow> AList.update u (n + 1) counts))
       (map (\<lambda>(u, b). (u, 0)) (backends r)) (dict_values (global_waiting_queue r))"

record backend_stats =
  bs_total :: int
  bs_reasoning :: int
  bs_acting :: int
  bs_paused :: int
  bs_marked :: int
  bs_future_paused_tokens :: int
  bs_sd_enabled :: "bool option"
  bs_sd_projected :: "int option"
  bs_sd_resumed :: int

record program_stats =
  st_total :: int
  st_reasoning :: int
  st_acting :: int
  st_paused :: int
  st_marked :: int
  st_sd_enable_threshold :: "int option"
  st_sd_switch_threshold :: "int option"
  st_per_backend :: "(string, backend_stats) dict"

definition backend_stats_of :: "router \<Rightarrow> string \<Rightarrow> backend \<Rightarrow> backend_stats" where
  "backend_stats_of r u b =
     (let progs = map (objs r) (dict_values (get_programs_on_backend r u))
      in \<lparr>bs_total = int (length progs), bs_reasoning = count_if (\<lambda>p. status p = REASONING) progs,
          bs_acting = count_if (\<lambda>p. status p = ACTING) progs,
          bs_paused = (case map_of (get_paused_counts_by_backend r) u of None \<Rightarrow> 0 | Some n \<Rightarrow> n),
          bs_marked = count_if marked_for_pause progs,
          bs_future_paused_tokens = future_paused_tokens b,
          bs_sd_enabled = the (map_of (sd_enabled_by_backend r) u),
          bs_sd_projected = the (map_of (sd_projected_load_by_backend r) u),
          bs_sd_resumed = the (map_of (sd_resumed_by_backend r) u)\<rparr>)"

definition get_program_stats :: "router \<Rightarrow> program_stats" where
  "get_program_stats r =
     (let ps = table_programs r
      in \<lparr>st_total = int (length ps), st_reasoning = count_if (\<lambda>p. status p = REASONING) ps,
          st_acting = count_if (\<lambda>p. status p = ACTING) ps,
          st_paused = int (length (global_waiting_queue r)),
          st_marked = count_if marked_for_pause ps,
          st_sd_enable_threshold = (if dynamic_sd_enabled r then Some (sd_enable_threshold r) else None),
          st_sd_switch_threshold = (if dynamic_sd_enabled r then Some (sd_switch_threshold r) else None),
          st_per_backend = map (\<lambda>(u, b). (u, backend_stats_of r u b)) (backends r)\<rparr>)"

definition extract_total_tokens :: "json \<Rightarrow> int option" where
  "extract_total_tokens payload =
     (case payload of
        JObj d \<Rightarrow> (case jget d ''usage'' of
            JObj usage \<Rightarrow> finite_int (jget usage ''total_tokens'')
          | _ \<Rightarrow> None)
      | _ \<Rightarrow> None)"

end
