(* ===== verification/Scheduling.thy ===== *)
theory Scheduling
  imports Router
begin

text \<open>
  Pausing and resuming of programs and the periodic control loop
  (\<open>scheduler/ThunderAgent/scheduler/router.py\<close>, from the global paused pool to
  \<open>_wait_for_resume\<close>). No operation here suspends while it holds \<open>pause_resume_lock\<close>, so each is
  one atomic function of the router; it reads the clock once.
\<close>

section \<open>The paused pool\<close>

definition add_to_global_waiting_queue :: "string \<Rightarrow> oid \<Rightarrow> backend option \<Rightarrow> real \<Rightarrow> router \<Rightarrow> router" where
  "add_to_global_waiting_queue pid i b now r =
     r\<lparr>global_waiting_queue := AList.update pid
         \<lparr>pi_program_id = pid, pi_total_tokens = total_tokens (objs r i), paused_at = now,
          pi_origin_backend = map_option url b, pi_step_count = step_count (objs r i)\<rparr>
         (global_waiting_queue r)\<rparr>"

definition remove_from_global_waiting_queue :: "string \<Rightarrow> router \<Rightarrow> router" where
  "remove_from_global_waiting_queue pid r =
     r\<lparr>global_waiting_queue := AList.delete pid (global_waiting_queue r)\<rparr>"

type_synonym paused_entry = "string \<times> oid \<times> paused_info"

definition paused_entries :: "router \<Rightarrow> paused_entry list" where
  "paused_entries r = List.map_filter (\<lambda>(pid, info). map_option (\<lambda>i. (pid, i, info)) (map_of (programs r) pid))
     (global_waiting_queue r)"

definition get_paused_programs_sorted :: "router \<Rightarrow> bool \<Rightarrow> paused_entry list" where
  "get_paused_programs_sorted r ascending =
     (if ascending then sort_key (\<lambda>(pid, i, info). pi_total_tokens info) (paused_entries r)
      else sort_key_rev (\<lambda>(pid, i, info). pi_total_tokens info) (paused_entries r))"

section \<open>Resume priorities\<close>

definition remaining_steps_priority :: "program \<Rightarrow> int ext \<times> int \<times> string" where
  "remaining_steps_priority p =
     (if total_steps p \<le> 0 then Infty else Fin (total_steps p - step_count p), step_count p, program_id p)"

definition candidates_original :: "store \<Rightarrow> paused_entry list \<Rightarrow> oid list" where
  "candidates_original st paused =
     (let is = map (\<lambda>(pid, i, info). i) paused;
          new_group = filter (\<lambda>i. step_count (st i) = 1) is;
          reasoning_group = filter (\<lambda>i. step_count (st i) \<noteq> 1 \<and> status (st i) = REASONING) is;
          acting_group = filter (\<lambda>i. step_count (st i) \<noteq> 1 \<and> status (st i) \<noteq> REASONING) is;
          key = (\<lambda>i. total_tokens (st i))
      in sort_key key reasoning_group @ sort_key key new_group @ sort_key key acting_group)"

definition candidates_remaining_steps :: "store \<Rightarrow> paused_entry list \<Rightarrow> oid list" where
  "candidates_remaining_steps st paused =
     sort_key (\<lambda>i. remaining_steps_priority (st i)) (map (\<lambda>(pid, i, info). i) paused)"

definition usable_prediction :: "program \<Rightarrow> bool" where
  "usable_prediction p = (case predicted_remaining_steps p of Some (Fin x) \<Rightarrow> 0 \<le> x | _ \<Rightarrow> False)"

definition predicted_remaining_steps_priority :: "program \<Rightarrow> real ext \<times> int \<times> string" where
  "predicted_remaining_steps_priority p =
     (case predicted_remaining_steps p of
        Some (Fin x) \<Rightarrow> if x < 0 then Infty else Fin x
      | _ \<Rightarrow> Infty, step_count p, program_id p)"

definition candidates_predicted_remaining_steps :: "store \<Rightarrow> paused_entry list \<Rightarrow> oid list" where
  "candidates_predicted_remaining_steps st paused =
     (let predicted = filter (\<lambda>i. usable_prediction (st i)) (map (\<lambda>(pid, i, info). i) paused);
          unavailable = filter (\<lambda>(pid, i, info). \<not> usable_prediction (st i)) paused
      in sort_key (\<lambda>i. predicted_remaining_steps_priority (st i)) predicted
         @ candidates_original st unavailable)"

definition get_resume_candidates :: "router \<Rightarrow> paused_entry list \<Rightarrow> oid list" where
  "get_resume_candidates r paused =
     (if scheduler_policy r = ''remaining_steps'' then candidates_remaining_steps (objs r) paused
      else if scheduler_policy r = ''predicted_remaining_steps''
      then candidates_predicted_remaining_steps (objs r) paused
      else candidates_original (objs r) paused)"

section \<open>Pausing\<close>

definition get_acting_programs_sorted :: "router \<Rightarrow> string \<Rightarrow> bool \<Rightarrow> (string \<times> oid) list" where
  "get_acting_programs_sorted r u ascending =
     (let ps = filter (\<lambda>(pid, i). backend_url (objs r i) = Some u \<and> status (objs r i) = ACTING) (programs r);
          key = (\<lambda>(pid, i). total_tokens (objs r i))
      in if ascending then sort_key key ps else sort_key_rev key ps)"

definition get_reasoning_programs_sorted :: "router \<Rightarrow> string \<Rightarrow> bool \<Rightarrow> (string \<times> oid) list" where
  "get_reasoning_programs_sorted r u ascending =
     (let ps = filter (\<lambda>(pid, i). backend_url (objs r i) = Some u \<and> status (objs r i) = REASONING
                 \<and> \<not> marked_for_pause (objs r i)) (programs r);
          key = (\<lambda>(pid, i). total_tokens (objs r i))
      in if ascending then sort_key key ps else sort_key_rev key ps)"

text \<open>The event a paused program waits on: a new one, or its old one cleared.\<close>

definition arm_event :: "oid \<Rightarrow> router \<Rightarrow> router" where
  "arm_event i r =
     (case waiting_event (objs r i) of
        None \<Rightarrow> (let (e, r') = new_event r in upd_obj i (\<lambda>p. p\<lparr>waiting_event := Some e\<rparr>) r')
      | Some e \<Rightarrow> set_event e False r)"

definition pause_program :: "string \<Rightarrow> oid \<Rightarrow> real \<Rightarrow> router \<Rightarrow> router" where
  "pause_program pid i now r =
     (case backend_url (objs r i) of
        None \<Rightarrow> r
      | Some u \<Rightarrow> (case map_of (backends r) u of
            None \<Rightarrow> r
          | Some b \<Rightarrow>
              arm_event i
                (upd_obj i (\<lambda>p. p\<lparr>origin_backend := backend_url p, backend_url := None, state := PAUSED\<rparr>)
                  (add_to_global_waiting_queue pid i (Some b) now
                    (upd_backend u (unregister_program pid) r)))))"

definition mark_program_for_pause :: "string \<Rightarrow> oid \<Rightarrow> router \<Rightarrow> router" where
  "mark_program_for_pause pid i r =
     (case backend_url (objs r i) of
        None \<Rightarrow> r
      | Some u \<Rightarrow> (case map_of (backends r) u of
            None \<Rightarrow> r
          | Some b \<Rightarrow>
              upd_backend u (\<lambda>b. b\<lparr>future_paused_tokens := future_paused_tokens b + total_tokens (objs r i)\<rparr>)
                (upd_obj i (\<lambda>p. p\<lparr>marked_for_pause := True\<rparr>) r)))"

text \<open>\<open>future_paused_tokens -= n\<close>, not below 0.\<close>

definition release_marked_tokens :: "int \<Rightarrow> backend \<Rightarrow> backend" where
  "release_marked_tokens n b =
     b\<lparr>future_paused_tokens := (if future_paused_tokens b - n < 0 then 0 else future_paused_tokens b - n)\<rparr>"

definition clear_mark_and_pause :: "string \<Rightarrow> oid \<Rightarrow> real \<Rightarrow> router \<Rightarrow> router" where
  "clear_mark_and_pause pid i now r =
     (case backend_url (objs r i) of
        None \<Rightarrow> r
      | Some u \<Rightarrow> (case map_of (backends r) u of
            None \<Rightarrow> r
          | Some b \<Rightarrow>
              pause_program pid i now
                (upd_backend u (release_marked_tokens (total_tokens (objs r i)))
                  (upd_obj i (\<lambda>p. p\<lparr>marked_for_pause := False\<rparr>) r))))"

section \<open>Resuming\<close>

definition resume_program :: "oid \<Rightarrow> string option \<Rightarrow> router \<Rightarrow> router" where
  "resume_program i target r =
     (let p = objs r i;
          origin = (case origin_backend p of
              Some u \<Rightarrow> if u \<noteq> [] \<and> map_of (backends r) u \<noteq> None then Some u else None
            | None \<Rightarrow> None);
          chosen = (case target of Some u \<Rightarrow> Some u | None \<Rightarrow> origin)
      in case chosen of
           None \<Rightarrow> r
         | Some u \<Rightarrow>
             if state p \<noteq> PAUSED then r
             else (let r1 = upd_obj i (\<lambda>p. p\<lparr>backend_url := Some u, origin_backend := None, state := ACTIVE\<rparr>)
                             (upd_backend u (register_program (program_id p) i) r)
               in case waiting_event p of
                    None \<Rightarrow> r1
                  | Some e \<Rightarrow> upd_obj i (\<lambda>p. p\<lparr>waiting_event := None\<rparr>) (set_event e True r1)))"

definition claim_specific_paused :: "string \<Rightarrow> router \<Rightarrow> oid option \<times> router" where
  "claim_specific_paused pid r =
     (case map_of (global_waiting_queue r) pid of
        None \<Rightarrow> (None, r)
      | Some info \<Rightarrow>
          ((case map_of (programs r) pid of
              None \<Rightarrow> None
            | Some i \<Rightarrow> if state (objs r i) \<noteq> PAUSED then None else Some i),
           r\<lparr>global_waiting_queue := AList.delete pid (global_waiting_queue r)\<rparr>))"

text \<open>The timeout branch of \<open>_wait_for_resume\<close>.\<close>

definition wait_timed_out :: "string \<Rightarrow> router \<Rightarrow> (py_error + unit) \<times> router" where
  "wait_timed_out pid r =
     (case claim_specific_paused pid r of
        (None, r') \<Rightarrow> (Inr (), r')
      | (Some i, r') \<Rightarrow>
          (if origin_backend (objs r' i) = None then
             (case select_backend_for_new_program_default r' of
                Inl e \<Rightarrow> (Inl e, r')
              | Inr u \<Rightarrow> (Inr (), resume_program i (Some u) r'))
           else (Inr (), resume_program i None r')))"

section \<open>Enforcing the capacity\<close>

definition over_capacity :: "router \<Rightarrow> string \<Rightarrow> bool" where
  "over_capacity r u =
     (case map_of (backends r) u of None \<Rightarrow> False | Some b \<Rightarrow> remaining_capacity (objs r) b < Fin 0)"

text \<open>The programs the loop can still pause or mark.\<close>

definition pausable :: "router \<Rightarrow> string \<Rightarrow> (string \<times> oid) list" where
  "pausable r u = filter (\<lambda>(pid, i). backend_url (objs r i) = Some u
     \<and> (status (objs r i) = ACTING \<or> \<not> marked_for_pause (objs r i))) (programs r)"


lemma new_event_simps [simp]:
  "objs (snd (new_event r)) = objs r" "programs (snd (new_event r)) = programs r"
  "backends (snd (new_event r)) = backends r"
  "global_waiting_queue (snd (new_event r)) = global_waiting_queue r"
  "next_obj (snd (new_event r)) = next_obj r"
  "scheduling_enabled (snd (new_event r)) = scheduling_enabled r"
  by (simp_all add: new_event_def)

lemma upd_obj_simps [simp]:
  "objs (upd_obj i f r) = (objs r)(i := f (objs r i))" "programs (upd_obj i f r) = programs r"
  "backends (upd_obj i f r) = backends r" "global_waiting_queue (upd_obj i f r) = global_waiting_queue r"
  "events (upd_obj i f r) = events r" "next_event (upd_obj i f r) = next_event r"
  "next_obj (upd_obj i f r) = next_obj r" "scheduling_enabled (upd_obj i f r) = scheduling_enabled r"
  by (simp_all add: upd_obj_def)

lemma upd_backend_simps [simp]:
  "objs (upd_backend u g r) = objs r" "programs (upd_backend u g r) = programs r"
  "global_waiting_queue (upd_backend u g r) = global_waiting_queue r"
  "events (upd_backend u g r) = events r" "next_event (upd_backend u g r) = next_event r"
  "next_obj (upd_backend u g r) = next_obj r"
  "scheduling_enabled (upd_backend u g r) = scheduling_enabled r"
  "map fst (backends (upd_backend u g r)) = map fst (backends r)"
  "map_of (backends (upd_backend u g r)) = (map_of (backends r))(u := map_option g (map_of (backends r) u))"
  by (auto simp: upd_backend_def keys_update_mem fun_upd_idem split: option.split)

lemma set_event_simps [simp]:
  "objs (set_event e v r) = objs r" "programs (set_event e v r) = programs r"
  "backends (set_event e v r) = backends r" "global_waiting_queue (set_event e v r) = global_waiting_queue r"
  "next_obj (set_event e v r) = next_obj r" "next_event (set_event e v r) = next_event r"
  "scheduling_enabled (set_event e v r) = scheduling_enabled r"
  by (simp_all add: set_event_def)

lemma add_to_queue_simps [simp]:
  "objs (add_to_global_waiting_queue pid i b now r) = objs r"
  "programs (add_to_global_waiting_queue pid i b now r) = programs r"
  "backends (add_to_global_waiting_queue pid i b now r) = backends r"
  "events (add_to_global_waiting_queue pid i b now r) = events r"
  "next_event (add_to_global_waiting_queue pid i b now r) = next_event r"
  "next_obj (add_to_global_waiting_queue pid i b now r) = next_obj r"
  "scheduling_enabled (add_to_global_waiting_queue pid i b now r) = scheduling_enabled r"
  by (simp_all add: add_to_global_waiting_queue_def)

lemma arm_event_simps [simp]:
  "programs (arm_event i r) = programs r" "backends (arm_event i r) = backends r"
  "global_waiting_queue (arm_event i r) = global_waiting_queue r"
  "next_obj (arm_event i r) = next_obj r" "scheduling_enabled (arm_event i r) = scheduling_enabled r"
  by (auto simp: arm_event_def case_prod_beta split: option.split)

lemma arm_event_objs:
  "objs (arm_event i r) = (objs r)(i := (objs r i)\<lparr>waiting_event :=
     Some (case waiting_event (objs r i) of None \<Rightarrow> next_event r | Some e \<Rightarrow> e)\<rparr>)"
  by (auto simp: arm_event_def new_event_def upd_obj_def set_event_def split: option.split)

text \<open>What pausing does to the objects and to the other parts of the router.\<close>

definition paused_object :: "router \<Rightarrow> oid \<Rightarrow> program" where
  "paused_object r i = (objs r i)\<lparr>origin_backend := backend_url (objs r i), backend_url := None,
     state := PAUSED, waiting_event :=
       Some (case waiting_event (objs r i) of None \<Rightarrow> next_event r | Some e \<Rightarrow> e)\<rparr>"

lemma pause_program_valid:
  assumes "backend_url (objs r i) = Some u" "map_of (backends r) u = Some b"
  shows "objs (pause_program pid i now r) = (objs r)(i := paused_object r i)"
    "programs (pause_program pid i now r) = programs r"
    "map_of (backends (pause_program pid i now r)) =
       (map_of (backends r))(u \<mapsto> unregister_program pid b)"
    "map fst (backends (pause_program pid i now r)) = map fst (backends r)"
    "map_of (global_waiting_queue (pause_program pid i now r)) =
       (map_of (global_waiting_queue r))(pid \<mapsto>
         \<lparr>pi_program_id = pid, pi_total_tokens = total_tokens (objs r i), paused_at = now,
          pi_origin_backend = Some (url b), pi_step_count = step_count (objs r i)\<rparr>)"
proof -
  have eq: "pause_program pid i now r = arm_event i
      (upd_obj i (\<lambda>p. p\<lparr>origin_backend := backend_url p, backend_url := None, state := PAUSED\<rparr>)
        (add_to_global_waiting_queue pid i (Some b) now (upd_backend u (unregister_program pid) r)))"
    by (simp add: pause_program_def assms)
  show "objs (pause_program pid i now r) = (objs r)(i := paused_object r i)"
    by (simp add: eq arm_event_objs paused_object_def split: option.split)
  show "programs (pause_program pid i now r) = programs r" by (simp add: eq)
  show "map_of (backends (pause_program pid i now r)) =
       (map_of (backends r))(u \<mapsto> unregister_program pid b)" by (simp add: eq assms)
  show "map fst (backends (pause_program pid i now r)) = map fst (backends r)" by (simp add: eq)
  show "map_of (global_waiting_queue (pause_program pid i now r)) =
       (map_of (global_waiting_queue r))(pid \<mapsto>
         \<lparr>pi_program_id = pid, pi_total_tokens = total_tokens (objs r i), paused_at = now,
          pi_origin_backend = Some (url b), pi_step_count = step_count (objs r i)\<rparr>)"
    by (simp add: eq add_to_global_waiting_queue_def)
qed

lemma mark_program_valid:
  assumes "backend_url (objs r i) = Some u" "map_of (backends r) u = Some b"
  shows "objs (mark_program_for_pause pid i r) = (objs r)(i := (objs r i)\<lparr>marked_for_pause := True\<rparr>)"
    "programs (mark_program_for_pause pid i r) = programs r"
    "map_of (backends (mark_program_for_pause pid i r)) = (map_of (backends r))(u \<mapsto>
       b\<lparr>future_paused_tokens := future_paused_tokens b + total_tokens (objs r i)\<rparr>)"
    "map fst (backends (mark_program_for_pause pid i r)) = map fst (backends r)"
    "global_waiting_queue (mark_program_for_pause pid i r) = global_waiting_queue r"
  by (simp_all add: mark_program_for_pause_def assms)

lemma acting_sorted_hd:
  assumes "get_acting_programs_sorted r u True = (pid, i) # rest"
  shows "(pid, i) \<in> set (programs r)" "backend_url (objs r i) = Some u" "status (objs r i) = ACTING"
proof -
  have "(pid, i) \<in> set (get_acting_programs_sorted r u True)" by (simp add: assms)
  then show "(pid, i) \<in> set (programs r)" "backend_url (objs r i) = Some u" "status (objs r i) = ACTING"
    by (auto simp: get_acting_programs_sorted_def)
qed

lemma reasoning_sorted_hd:
  assumes "get_reasoning_programs_sorted r u True = (pid, i) # rest"
  shows "(pid, i) \<in> set (programs r)" "backend_url (objs r i) = Some u" "status (objs r i) = REASONING"
    "\<not> marked_for_pause (objs r i)"
proof -
  have "(pid, i) \<in> set (get_reasoning_programs_sorted r u True)" by (simp add: assms)
  then show "(pid, i) \<in> set (programs r)" "backend_url (objs r i) = Some u" "status (objs r i) = REASONING"
    "\<not> marked_for_pause (objs r i)"
    by (auto simp: get_reasoning_programs_sorted_def)
qed

lemma pausable_pause:
  assumes "(pid, i) \<in> set (programs r)" "backend_url (objs r i) = Some u" "status (objs r i) = ACTING"
    "map_of (backends r) u = Some b"
  shows "length (pausable (pause_program pid i now r) u) < length (pausable r u)"
  unfolding pausable_def pause_program_valid(1,2) [OF assms(2,4)]
  by (rule length_filter_less [where y = "(pid, i)"]) (use assms in \<open>auto simp: paused_object_def split: if_splits\<close>)

lemma pausable_mark:
  assumes "(pid, i) \<in> set (programs r)" "backend_url (objs r i) = Some u" "status (objs r i) = REASONING"
    "\<not> marked_for_pause (objs r i)" "map_of (backends r) u = Some b"
  shows "length (pausable (mark_program_for_pause pid i r) u) < length (pausable r u)"
  unfolding pausable_def mark_program_valid(1,2) [OF assms(2,5)]
  by (rule length_filter_less [where y = "(pid, i)"]) (use assms in \<open>auto simp: paused_object_def split: if_splits\<close>)

text \<open>\<open>_pause_until_safe\<close>: ACTING programs are paused, REASONING programs only marked.\<close>

function pause_until_safe :: "string \<Rightarrow> real \<Rightarrow> router \<Rightarrow> router" where
  "pause_until_safe u now r =
     (if \<not> over_capacity r u then r
      else (case get_acting_programs_sorted r u True of
          (pid, i) # _ \<Rightarrow> pause_until_safe u now (pause_program pid i now r)
        | [] \<Rightarrow>
           (case get_reasoning_programs_sorted r u True of
              (pid, i) # _ \<Rightarrow> pause_until_safe u now (mark_program_for_pause pid i r)
            | [] \<Rightarrow> r)))"
  by pat_completeness auto

termination
proof (relation "measure (\<lambda>(u, now, r). length (pausable r u))", goal_cases)
  case 1
  then show ?case by simp
next
  case (2 u now r e es pid i)
  then obtain b where "map_of (backends r) u = Some b"
    by (auto simp: over_capacity_def split: option.splits)
  with 2 pausable_mark [OF reasoning_sorted_hd] show ?case by auto
next
  case (3 u now r e es pid i)
  then obtain b where "map_of (backends r) u = Some b"
    by (auto simp: over_capacity_def split: option.splits)
  with 3 pausable_pause [OF acting_sorted_hd] show ?case by auto
qed

declare pause_until_safe.simps [simp del]


text \<open>What every pause and every mark of the loop keeps, the loop keeps.\<close>

lemma pause_until_safe_invariant:
  assumes "P r"
    and pause: "\<And>r pid i. P r \<Longrightarrow> over_capacity r u \<Longrightarrow> (pid, i) \<in> set (programs r) \<Longrightarrow>
      backend_url (objs r i) = Some u \<Longrightarrow> status (objs r i) = ACTING \<Longrightarrow> P (pause_program pid i now r)"
    and mark: "\<And>r pid i. P r \<Longrightarrow> over_capacity r u \<Longrightarrow> (pid, i) \<in> set (programs r) \<Longrightarrow>
      backend_url (objs r i) = Some u \<Longrightarrow> status (objs r i) = REASONING \<Longrightarrow> \<not> marked_for_pause (objs r i) \<Longrightarrow>
      get_acting_programs_sorted r u True = [] \<Longrightarrow> P (mark_program_for_pause pid i r)"
  shows "P (pause_until_safe u now r)"
proof -
  have "v = u \<Longrightarrow> t = now \<Longrightarrow> P r \<Longrightarrow> P (pause_until_safe v t r)" for v t
  proof (induction v t r rule: pause_until_safe.induct)
    case (1 v t r)
    show ?case
    proof (cases "over_capacity r v")
      case False
      then show ?thesis using "1.prems" by (simp add: pause_until_safe.simps)
    next
      case over: True
      note step = pause_until_safe.simps [of v t r]
      show ?thesis
      proof (cases "get_acting_programs_sorted r v True")
        case (Cons a rest)
        obtain pid i where a: "a = (pid, i)" by fastforce
        have "P (pause_program pid i t r)"
          using pause [OF "1.prems"(3)] acting_sorted_hd [OF Cons [unfolded a]] over "1.prems"(1,2) by blast
        with "1.IH"(2) [OF _ Cons a [symmetric]] over "1.prems" have "P (pause_until_safe v t (pause_program pid i t r))" by blast
        with over Cons a show ?thesis by (simp add: step)
      next
        case Nil
        show ?thesis
        proof (cases "get_reasoning_programs_sorted r v True")
          case Nil
          with over \<open>get_acting_programs_sorted r v True = []\<close> have "pause_until_safe v t r = r"
            by (simp add: step)
          with "1.prems" show ?thesis by simp
        next
          case (Cons a rest)
          obtain pid i where a: "a = (pid, i)" by fastforce
          have "P (mark_program_for_pause pid i r)"
            using mark [OF "1.prems"(3)] reasoning_sorted_hd [OF Cons [unfolded a]] over Nil "1.prems"(1,2)
            by blast
          with "1.IH"(1) [OF _ Nil Cons a [symmetric]] over "1.prems"
          have "P (pause_until_safe v t (mark_program_for_pause pid i r))" by blast
          with over Nil Cons a show ?thesis by (simp add: step)
        qed
      qed
    qed
  qed
  with assms(1) show ?thesis by blast
qed

end
