(* ===== verification/Resume.thy ===== *)
theory Resume
  imports Scheduling
begin

text \<open>
  The resume half of the control loop (\<open>_greedy_resume\<close>, its alternative
  \<open>_greedy_resume_specsys\<close>), the switching of speculative decoding, and one tick of the loop
  (\<open>_scheduled_check\<close>) in \<open>scheduler/ThunderAgent/scheduler/router.py\<close>.
\<close>

section \<open>Choosing what to resume\<close>

text \<open>Remaining capacity of the usable backends; a backend with a cache configuration has a finite
  remaining capacity.\<close>

definition resume_capacity :: "store \<Rightarrow> real \<Rightarrow> backend \<Rightarrow> int ext" where
  "resume_capacity st now b =
     (if use_acting_token_decay b then remaining_capacity_with_decay st b now
      else remaining_capacity st b)"

definition collect_caps :: "real \<Rightarrow> router \<Rightarrow> (string \<times> int) list" where
  "collect_caps now r =
     List.map_filter (\<lambda>(u, b).
       if cache_capacity b = None \<or> \<not> healthy b then None
       else (case resume_capacity (objs r) now b of
           Fin remaining \<Rightarrow> if BUFFER_PER_PROGRAM < remaining then Some (u, remaining) else None
         | Infty \<Rightarrow> None)) (backends r)"

definition required_tokens :: "store \<Rightarrow> oid \<Rightarrow> int" where
  "required_tokens st i = total_tokens (st i) + BUFFER_PER_PROGRAM"

text \<open>Walk in priority order, keeping a program while the total still fits.\<close>

fun select_fitting :: "store \<Rightarrow> int \<Rightarrow> int \<Rightarrow> oid list \<Rightarrow> oid list" where
  "select_fitting st limit used [] = []"
| "select_fitting st limit used (i # is) =
     (if used + required_tokens st i \<le> limit
      then i # select_fitting st limit (used + required_tokens st i) is
      else select_fitting st limit used is)"

definition total_capacity :: "(string \<times> int) list \<Rightarrow> int" where
  "total_capacity caps = sum_list (map snd caps)"

definition sort_caps :: "(string \<times> int) list \<Rightarrow> (string \<times> int) list" where
  "sort_caps caps = sort_key (\<lambda>(u, c). - c) caps"

definition resumable :: "real \<Rightarrow> router \<Rightarrow> oid list" where
  "resumable now r =
     (let caps = collect_caps now r
      in if caps = [] \<or> total_capacity caps \<le> 0 then []
         else select_fitting (objs r) (total_capacity caps) 0
                (get_resume_candidates r (get_paused_programs_sorted r True)))"

section \<open>Placement\<close>

text \<open>\<open>self.global_waiting_queue.pop(state.program_id); self._resume_program(...)\<close>\<close>

definition take_and_resume :: "oid \<Rightarrow> string \<Rightarrow> router \<Rightarrow> router" where
  "take_and_resume i u r =
     resume_program i (Some u) (remove_from_global_waiting_queue (program_id (objs r i)) r)"

definition count_pending :: "program \<Rightarrow> string \<Rightarrow> (string, int) dict \<Rightarrow> (string, int) dict" where
  "count_pending p u d =
     (if status p = REASONING
      then AList.update u ((case map_of d u of None \<Rightarrow> 0 | Some n \<Rightarrow> n) + 1) d else d)"

fun bfd_place :: "int \<Rightarrow> oid list \<Rightarrow> (string \<times> int) list \<Rightarrow> (string, int) dict \<Rightarrow> router
    \<Rightarrow> (string, int) dict \<times> router" where
  "bfd_place min_required [] caps pending r = (pending, r)"
| "bfd_place min_required (i # is) [] pending r = (pending, r)"
| "bfd_place min_required (i # is) ((u, cap) # caps) pending r =
     (let required = required_tokens (objs r) i
      in if cap < min_required then (pending, r)
         else if cap < required then bfd_place min_required is ((u, cap) # caps) pending r
         else (let updated = cap - required;
                   caps' = (if BUFFER_PER_PROGRAM < updated then sort_caps ((u, updated) # caps) else caps)
               in bfd_place min_required is caps' (count_pending (objs r i) u pending) (take_and_resume i u r)))"

definition greedy_resume :: "real \<Rightarrow> router \<Rightarrow> (string, int) dict \<times> router" where
  "greedy_resume now r =
     (let chosen = sort_key (\<lambda>i. - total_tokens (objs r i)) (resumable now r)
      in if chosen = [] then ([], r)
         else bfd_place (required_tokens (objs r) (last chosen)) chosen
                (sort_caps (collect_caps now r)) [] r)"

text \<open>The alternative placement by predicted time: the index and the entry of the best backend.\<close>

definition specsys_choice :: "program \<Rightarrow> int \<Rightarrow> (string \<times> int) list \<Rightarrow> (nat \<times> string \<times> int) option" where
  "specsys_choice p required caps =
     (let eligible = filter (\<lambda>(idx, u, c). required \<le> c) (zip [0..<length caps] caps)
      in if eligible = [] then None
         else Some (hd (sort_key (\<lambda>(idx, u, c). (time_cost p u, - c)) eligible)))"

fun specsys_place :: "oid list \<Rightarrow> (string \<times> int) list \<Rightarrow> router \<Rightarrow> router" where
  "specsys_place [] caps r = r"
| "specsys_place (i # is) caps r =
     (if caps = [] then r
      else (let required = required_tokens (objs r) i
            in case specsys_choice (objs r i) required caps of
                 None \<Rightarrow> specsys_place is caps r
               | Some (idx, u, c) \<Rightarrow>
                   (let caps' = (if BUFFER_PER_PROGRAM < c - required then caps[idx := (u, c - required)]
                                 else take idx caps @ drop (Suc idx) caps)
                    in specsys_place is caps' (take_and_resume i u r))))"

definition greedy_resume_specsys :: "real \<Rightarrow> router \<Rightarrow> router" where
  "greedy_resume_specsys now r = specsys_place (resumable now r) (collect_caps now r) r"

section \<open>Dynamic speculative decoding\<close>

definition dynamic_sd_target_state :: "int \<Rightarrow> int \<Rightarrow> int \<Rightarrow> bool option \<Rightarrow> bool option" where
  "dynamic_sd_target_state projected_batch_size enable_threshold disable_threshold current_state =
     (if disable_threshold \<le> projected_batch_size then Some False
      else if projected_batch_size \<le> enable_threshold then Some True
      else current_state)"

definition speculative_decoding_url :: "string \<Rightarrow> string" where
  "speculative_decoding_url u =
     (let base = rstrip_char (CHR ''/'') u;
          base' = (if endswith base ''/v1'' then take (length base - 3) base else base)
      in base' @ ''/v1/engine/speculative_decoding'')"

text \<open>The answer to the POST; \<open>raise_for_status\<close> accepts the 2xx codes.\<close>

definition sd_accepted :: "json option response \<Rightarrow> bool" where
  "sd_accepted resp =
     (case resp of
        Response code (Some (JObj d)) \<Rightarrow> 200 \<le> code \<and> code < 300 \<and> jget d ''status'' = JStr ''success''
      | _ \<Rightarrow> False)"

definition set_backend_sd :: "string \<Rightarrow> bool \<Rightarrow> json option response \<Rightarrow> router \<Rightarrow> router" where
  "set_backend_sd u enabled resp r =
     (if map_of (sd_enabled_by_backend r) u = Some (Some enabled) then r
      else if sd_accepted resp
      then r\<lparr>sd_enabled_by_backend := AList.update u (Some enabled) (sd_enabled_by_backend r)\<rparr>
      else r)"

definition sd_state :: "router \<Rightarrow> string \<Rightarrow> bool option" where
  "sd_state r u = (case map_of (sd_enabled_by_backend r) u of None \<Rightarrow> None | Some s \<Rightarrow> s)"

text \<open>The decisions, with the projected load they rest on; the coroutines gathered afterwards each
  touch the entry of their own backend only.\<close>

fun sd_decisions :: "(string, int) dict \<Rightarrow> (string \<times> backend) list \<Rightarrow> router \<Rightarrow> (string \<times> bool) list \<times> router" where
  "sd_decisions resumed [] r = ([], r)"
| "sd_decisions resumed ((u, b) # bs) r =
     (case metrics_num_requests b of
        None \<Rightarrow> sd_decisions resumed bs r
      | Some (running, waiting) \<Rightarrow>
          if \<not> healthy b then sd_decisions resumed bs r
          else (let n = (case map_of resumed u of None \<Rightarrow> 0 | Some n \<Rightarrow> n);
                    projected = running + n;
                    r1 = r\<lparr>sd_projected_load_by_backend := AList.update u (Some projected) (sd_projected_load_by_backend r),
                           sd_resumed_by_backend := AList.update u n (sd_resumed_by_backend r)\<rparr>;
                    rest = sd_decisions resumed bs r1
                in case dynamic_sd_target_state projected (sd_enable_threshold r) (sd_switch_threshold r) (sd_state r u) of
                     None \<Rightarrow> rest
                   | Some enabled \<Rightarrow> ((u, enabled) # fst rest, snd rest)))"

definition apply_sd :: "(string \<Rightarrow> json option response) \<Rightarrow> (string \<times> bool) list \<Rightarrow> router \<Rightarrow> router" where
  "apply_sd answers ds r = fold (\<lambda>(u, enabled). set_backend_sd u enabled (answers u)) ds r"

definition update_dynamic_sd :: "(string \<Rightarrow> json option response) \<Rightarrow> (string, int) dict \<Rightarrow> router \<Rightarrow> router" where
  "update_dynamic_sd answers resumed r =
     (let (ds, r') = sd_decisions resumed (backends r) r in apply_sd answers ds r')"

section \<open>One tick of the control loop\<close>

definition fetch_all :: "(string \<Rightarrow> backend_answers) \<Rightarrow> router \<Rightarrow> router" where
  "fetch_all an r = r\<lparr>backends := map (\<lambda>(u, b). (u, be_fetch_metrics (an u) b)) (backends r)\<rparr>"

definition enforce_capacity :: "real \<Rightarrow> router \<Rightarrow> router" where
  "enforce_capacity now r =
     fold (\<lambda>u r. case map_of (backends r) u of
             None \<Rightarrow> r
           | Some b \<Rightarrow> if cache_capacity b \<noteq> None \<and> remaining_capacity (objs r) b < Fin 0
                       then pause_until_safe u now r else r)
       (dict_keys (backends r)) r"

text \<open>\<open>_scheduled_check\<close> with nothing else running at its suspension points.\<close>

definition scheduled_check ::
  "(string \<Rightarrow> backend_answers) \<Rightarrow> (string \<Rightarrow> json option response) \<Rightarrow> real \<Rightarrow> router \<Rightarrow> router" where
  "scheduled_check an sd now r =
     (let r1 = fetch_all an r;
          (resumed, r2) = (if scheduling_enabled r1 then greedy_resume now r1 else ([], r1));
          r3 = (if dynamic_sd_enabled r2 then update_dynamic_sd sd resumed r2 else r2)
      in if \<not> scheduling_enabled r3 then r3 else enforce_capacity now r3)"

text \<open>One round of \<open>_scheduler_loop\<close>: the tick is skipped during a weight synchronisation.\<close>

definition scheduler_round ::
  "(string \<Rightarrow> backend_answers) \<Rightarrow> (string \<Rightarrow> json option response) \<Rightarrow> real \<Rightarrow> router \<Rightarrow> router" where
  "scheduler_round an sd now r = (if weight_sync_active r then r else scheduled_check an sd now r)"

end
