(* ===== verification/Handlers.thy ===== *)
theory Handlers
  imports Resume
begin

text \<open>
  The request handler's calls into the router (\<open>update_program_before_request\<close>,
  \<open>update_program_after_request\<close>, \<open>update_program_tokens_streaming\<close>, \<open>release_program\<close> in
  \<open>scheduler/ThunderAgent/scheduler/router.py\<close>). The first can suspend, on the weight
  synchronisation event and on the program's own event; it is cut there into segments, each an
  atomic function of the router. A segment ends by returning a boolean or by suspending on an
  event, saying where it goes on when woken.
\<close>

datatype resume_point =
    FallThrough bool   \<comment> \<open>step 1: go on with step 2 (the flag is \<open>is_new_program\<close>)\<close>
  | ReturnTrue         \<comment> \<open>step 2: a queued new program returns once resumed\<close>

datatype before_outcome = Returned bool | Suspended nat resume_point

section \<open>Prediction on arrival\<close>

text \<open>Pad the prefix states up to \<open>k\<close>, then append or overwrite entry \<open>k\<close>.\<close>

definition record_prefix_state :: "nat \<Rightarrow> string \<Rightarrow> string list \<Rightarrow> string list" where
  "record_prefix_state k b xs =
     (let padded = xs @ replicate (k - length xs) ''normal''
      in if length padded = k then padded @ [b] else padded[k := b])"

definition arrival_query :: "program \<Rightarrow> nat \<Rightarrow> string option \<Rightarrow> string option \<Rightarrow> step_query" where
  "arrival_query p prefix_k bucket previous =
     \<lparr>q_type_id = type_id p, q_cur_step = step_count p, q_agent_type = agent_type p,
      q_num_plan_steps = num_plan_steps p, q_prefix_k = Some (int prefix_k),
      q_state_bucket = bucket, q_previous_state = previous\<rparr>"

definition observe_prefix ::
  "pytext \<Rightarrow> (string, json) dict \<Rightarrow> nat \<Rightarrow> program \<Rightarrow> py_error + (string option \<times> string option \<times> program)" where
  "observe_prefix tx payload prefix_k p =
     (let ty = normalize_agent_type (agent_type p)
      in if ty \<in> {''B'', ''C''} then
           ebind (prediction_context_from_payload tx payload ty (prefix_states p)) (\<lambda>context.
             let bucket = py_str tx (jor (jget context ''state_bucket'') (JStr ''normal''));
                 states = record_prefix_state prefix_k bucket (prefix_states p);
                 previous = (if prefix_k \<noteq> 0 then states ! (prefix_k - 1) else ''bos'')
             in Inr (Some bucket, Some previous,
                     p\<lparr>prediction_context := context, prefix_states := states\<rparr>))
         else Inr (None, None, p))"

definition predict_on_arrival ::
  "pytext \<Rightarrow> oid \<Rightarrow> (string, json) dict \<Rightarrow> bool \<Rightarrow> real \<Rightarrow> router \<Rightarrow> (py_error + unit) \<times> router" where
  "predict_on_arrival tx i payload is_new now r =
     (let p = objs r i; prefix_k = nat (max 0 (step_count p - 1))
      in case observe_prefix tx payload prefix_k p of
           Inl e \<Rightarrow> (Inl e, r)
         | Inr (bucket, previous, p1) \<Rightarrow>
             (let q = arrival_query p1 prefix_k bucket previous;
                  p2 = p1\<lparr>predicted_remaining_steps := map_option Fin (predict_remaining_steps (step_map r) q)\<rparr>;
                  p3 = (case predict_remaining_time (step_map r) q (dict_keys (backends r)) of
                          None \<Rightarrow> p2
                        | Some (steps, data) \<Rightarrow>
                            p2\<lparr>predicted_remaining_time := Some (map (\<lambda>(u, avg, t). (u, t)) data)\<rparr>)
              in if is_new
                 then (Inr (), upd_obj i (\<lambda>_. p3\<lparr>last_arrived_time := Some now\<rparr>) r)
                 else (case last_arrived_time p3 of
                     None \<Rightarrow> (Inl TypeError, upd_obj i (\<lambda>_. p3) r)
                   | Some t0 \<Rightarrow>
                       (Inr (), upd_obj i (\<lambda>_. p3\<lparr>last_arrived_time := Some now\<rparr>)
                          (r\<lparr>step_map := update_step_time (type_id p3) (now - t0) (backend_url p3) (step_map r)\<rparr>)))))"

section \<open>Before the request\<close>

definition set_reasoning :: "program \<Rightarrow> program" where
  "set_reasoning p = p\<lparr>status := REASONING, acting_since := None\<rparr>"

text \<open>Step 3: an ACTIVE program with a backend.\<close>

definition before_step3 :: "oid \<Rightarrow> router \<Rightarrow> before_outcome \<times> router" where
  "before_step3 i r =
     (if get_backend r (backend_url (objs r i)) = None then (Returned False, r)
      else (Returned True, upd_obj i set_reasoning r))"

text \<open>Step 2: a new program gets a backend or is queued.\<close>

definition before_step2 :: "string \<Rightarrow> oid \<Rightarrow> bool \<Rightarrow> real \<Rightarrow> router \<Rightarrow> before_outcome \<times> router" where
  "before_step2 pid i is_new now r =
     (if is_new \<and> backend_url (objs r i) = None then
        (case select_backend_for_new_program r (total_tokens (objs r i)) of
           Some u \<Rightarrow>
             (Returned True,
              upd_obj i set_reasoning
                (upd_backend u (register_program pid i)
                  (upd_obj i (\<lambda>p. p\<lparr>backend_url := Some u\<rparr>) r)))
         | None \<Rightarrow>
             (let (e, r1) = new_event (upd_obj i set_reasoning r);
                  r2 = upd_obj i (\<lambda>p. p\<lparr>waiting_event := Some e, state := PAUSED\<rparr>) r1
              in (Suspended e ReturnTrue, add_to_global_waiting_queue pid i None now r2)))
      else before_step3 i r)"

text \<open>Step 1: a program that is still paused waits for the scheduler.\<close>

definition before_step1 :: "string \<Rightarrow> oid \<Rightarrow> bool \<Rightarrow> real \<Rightarrow> router \<Rightarrow> before_outcome \<times> router" where
  "before_step1 pid i is_new now r =
     (case waiting_event (objs r i) of
        Some e \<Rightarrow> (Suspended e (FallThrough is_new), upd_obj i set_reasoning r)
      | None \<Rightarrow> before_step2 pid i is_new now r)"

definition before_default :: "string \<Rightarrow> oid \<Rightarrow> bool \<Rightarrow> router \<Rightarrow> (py_error + before_outcome) \<times> router" where
  "before_default pid i is_new r =
     (let finish = (\<lambda>u r. (Inr (Returned True), upd_obj i set_reasoning
              (if is_new then upd_backend u (register_program pid i) r else r)))
      in case get_backend r (backend_url (objs r i)) of
           Some b \<Rightarrow> finish (the (backend_url (objs r i))) r
         | None \<Rightarrow>
             (case select_backend_for_new_program_default r of
                Inl e \<Rightarrow> (Inl e, r)
              | Inr u \<Rightarrow> finish u (upd_obj i (\<lambda>p. p\<lparr>backend_url := Some u\<rparr>) r)))"

definition estimate_tokens :: "pytext \<Rightarrow> (string, json) dict \<Rightarrow> real \<Rightarrow> program \<Rightarrow> program" where
  "estimate_tokens tx payload ratio p =
     (let len = int (length (dumps (float_repr tx) False (JObj payload)))
      in p\<lparr>context_len := len, total_tokens := trunc_int (real_of_int len / ratio)\<rparr>)"

text \<open>The segment after the wait for the weight synchronisation.\<close>

definition before_request ::
  "pytext \<Rightarrow> string \<Rightarrow> oid \<Rightarrow> (string, json) dict \<Rightarrow> real \<Rightarrow> router \<Rightarrow> (py_error + before_outcome) \<times> router" where
  "before_request tx pid i payload now r =
     (let r1 = upd_obj i (\<lambda>p. p\<lparr>step_count := step_count p + 1\<rparr>) r;
          is_new = step_count (objs r1 i) = 1;
          (res, r2) = (if remaining_step_prediction_enabled r1
                       then predict_on_arrival tx i payload is_new now r1 else (Inr (), r1))
      in case res of
           Inl e \<Rightarrow> (Inl e, r2)
         | Inr _ \<Rightarrow>
            (let r3 = upd_obj i (estimate_tokens tx payload (char_to_token_ratio r2)) r2
             in if \<not> scheduling_enabled r3 then before_default pid i is_new r3
                else map_prod Inr id (before_step1 pid i is_new now r3)))"

text \<open>The segment after the wait for the program's own event.\<close>

definition before_continue :: "string \<Rightarrow> oid \<Rightarrow> resume_point \<Rightarrow> real \<Rightarrow> router \<Rightarrow> before_outcome \<times> router" where
  "before_continue pid i k now r =
     (case k of FallThrough is_new \<Rightarrow> before_step2 pid i is_new now r | ReturnTrue \<Rightarrow> (Returned True, r))"

section \<open>After the request\<close>

definition update_ratio :: "int \<Rightarrow> int \<Rightarrow> router \<Rightarrow> router" where
  "update_ratio prompt_tokens ctx r =
     (if 0 < prompt_tokens \<and> 0 < ctx then
        (let current_ratio = real_of_int ctx / real_of_int prompt_tokens
         in if \<not> ratio_initialized r
            then r\<lparr>char_to_token_ratio := current_ratio, ratio_initialized := True\<rparr>
            else r\<lparr>char_to_token_ratio := 2 / 10 * current_ratio + 8 / 10 * char_to_token_ratio r\<rparr>)
      else r)"

definition after_request :: "string \<Rightarrow> oid \<Rightarrow> int \<Rightarrow> int \<Rightarrow> real \<Rightarrow> router \<Rightarrow> router" where
  "after_request pid i total_toks prompt_toks now r =
     (let r1 = upd_obj i (\<lambda>p. p\<lparr>status := ACTING, acting_since := Some now\<rparr>) r;
          r2 = update_ratio prompt_toks (context_len (objs r1 i)) r1;
          r3 = upd_obj i (\<lambda>p. p\<lparr>total_tokens := total_toks\<rparr>) r2
      in if marked_for_pause (objs r3 i) then clear_mark_and_pause pid i now r3 else r3)"

definition tokens_streaming :: "oid \<Rightarrow> int \<Rightarrow> router \<Rightarrow> router" where
  "tokens_streaming i delta r = upd_obj i (\<lambda>p. p\<lparr>total_tokens := total_tokens p + delta\<rparr>) r"

section \<open>Release\<close>

definition release_program :: "string \<Rightarrow> real \<Rightarrow> router \<Rightarrow> bool \<times> router" where
  "release_program pid now r =
     (case map_of (programs r) pid of
        None \<Rightarrow> (False, r)
      | Some i \<Rightarrow>
          (let p = objs r i;
               u = (case backend_url p of Some u \<Rightarrow> if u \<noteq> [] \<and> map_of (backends r) u \<noteq> None then Some u else None
                      | None \<Rightarrow> None);
               r1 = (if state p = PAUSED then
                       (let r0 = remove_from_global_waiting_queue pid r
                        in case waiting_event p of Some e \<Rightarrow> set_event e True r0 | None \<Rightarrow> r0)
                     else (case u of
                         Some b \<Rightarrow> if state p = ACTIVE then upd_backend b (unregister_program pid) r else r
                       | None \<Rightarrow> r));
               r2 = (case u of
                       Some b \<Rightarrow> if marked_for_pause p
                         then upd_obj i (\<lambda>p. p\<lparr>marked_for_pause := False\<rparr>)
                                (upd_backend b (release_marked_tokens (total_tokens p)) r1)
                         else r1
                     | None \<Rightarrow> r1);
               r3 = upd_obj i (\<lambda>p. p\<lparr>state := TERMINATED\<rparr>) r2;
               sm = update_step_cnt (type_id p) (step_count p) (agent_type p) (prefix_states p) (step_map r3);
               sm' = (case last_arrived_time p of
                        Some t0 \<Rightarrow> update_step_time (type_id p) (now - t0) (backend_url p) sm
                      | None \<Rightarrow> sm)
           in (True, r3\<lparr>step_map := sm', programs := AList.delete pid (programs r3)\<rparr>)))"

end
