(* ===== verification/RouterInv.thy ===== *)
theory RouterInv
  imports Handlers
begin

text \<open>
  The consistency of the router's three books: the table of programs, the programs registered on
  each backend, and the paused pool, with the fields of the program objects they refer to. Each
  operation of the scheduler and of the request handlers preserves it (in \<open>tr\<close> mode, where the
  router schedules).
\<close>

definition registered :: "router \<Rightarrow> string \<Rightarrow> string \<Rightarrow> oid \<Rightarrow> bool" where
  "registered r u pid i \<longleftrightarrow>
     map_of (programs r) pid = Some i \<and> state (objs r i) = ACTIVE \<and> backend_url (objs r i) = Some u"

definition active_ok :: "router \<Rightarrow> string \<Rightarrow> program \<Rightarrow> bool" where
  "active_ok r pid p \<longleftrightarrow> waiting_event p = None \<and> origin_backend p = None \<and>
     map_of (global_waiting_queue r) pid = None \<and>
     (\<forall>u. backend_url p = Some u \<longrightarrow> map_of (backends r) u \<noteq> None \<and> 1 \<le> step_count p)"

definition paused_ok :: "router \<Rightarrow> string \<Rightarrow> program \<Rightarrow> bool" where
  "paused_ok r pid p \<longleftrightarrow> backend_url p = None \<and> map_of (global_waiting_queue r) pid \<noteq> None \<and>
     1 \<le> step_count p \<and> (\<exists>e. waiting_event p = Some e \<and> e < next_event r \<and> \<not> events r e) \<and>
     (\<forall>u. origin_backend p = Some u \<longrightarrow> map_of (backends r) u \<noteq> None)"

definition program_ok :: "router \<Rightarrow> string \<Rightarrow> oid \<Rightarrow> bool" where
  "program_ok r pid i \<longleftrightarrow> i < next_obj r \<and> program_id (objs r i) = pid \<and> 0 \<le> step_count (objs r i) \<and>
     (case state (objs r i) of ACTIVE \<Rightarrow> active_ok r pid (objs r i)
      | PAUSED \<Rightarrow> paused_ok r pid (objs r i) | TERMINATED \<Rightarrow> False)"

definition backend_ok :: "router \<Rightarrow> string \<Rightarrow> backend \<Rightarrow> bool" where
  "backend_ok r u b \<longleftrightarrow> url b = u \<and> u \<noteq> [] \<and> dict_wf (be_programs b) \<and>
     (\<forall>pid i. map_of (be_programs b) pid = Some i \<longleftrightarrow> registered r u pid i)"

definition marks_ok :: "router \<Rightarrow> bool" where
  "marks_ok r \<longleftrightarrow> (\<forall>i. marked_for_pause (objs r i) \<longrightarrow>
     status (objs r i) = REASONING \<and> (\<exists>pid u. registered r u pid i))"

definition events_distinct :: "router \<Rightarrow> bool" where
  "events_distinct r \<longleftrightarrow> (\<forall>pid i pid' j e. map_of (programs r) pid = Some i \<longrightarrow>
     map_of (programs r) pid' = Some j \<longrightarrow> waiting_event (objs r i) = Some e \<longrightarrow>
     waiting_event (objs r j) = Some e \<longrightarrow> i = j)"

definition router_ok :: "router \<Rightarrow> bool" where
  "router_ok r \<longleftrightarrow> scheduling_enabled r \<and> dict_wf (programs r) \<and> dict_wf (backends r) \<and>
     dict_wf (global_waiting_queue r) \<and>
     (\<forall>pid i. map_of (programs r) pid = Some i \<longrightarrow> program_ok r pid i) \<and>
     (\<forall>pid. map_of (global_waiting_queue r) pid \<noteq> None \<longrightarrow> map_of (programs r) pid \<noteq> None) \<and>
     (\<forall>u b. map_of (backends r) u = Some b \<longrightarrow> backend_ok r u b) \<and>
     marks_ok r \<and> events_distinct r"

lemmas router_ok_defs = router_ok_def program_ok_def backend_ok_def marks_ok_def events_distinct_def
  active_ok_def paused_ok_def registered_def

lemma router_okD:
  assumes "router_ok r"
  shows "scheduling_enabled r" "dict_wf (programs r)" "dict_wf (backends r)" "dict_wf (global_waiting_queue r)"
    "\<And>pid i. map_of (programs r) pid = Some i \<Longrightarrow> program_ok r pid i"
    "\<And>pid. map_of (global_waiting_queue r) pid \<noteq> None \<Longrightarrow> map_of (programs r) pid \<noteq> None"
    "\<And>u b. map_of (backends r) u = Some b \<Longrightarrow> backend_ok r u b" "marks_ok r" "events_distinct r"
  using assms by (simp_all add: router_ok_def)

lemma program_okD:
  assumes "program_ok r pid i"
  shows "i < next_obj r" "program_id (objs r i) = pid" "0 \<le> step_count (objs r i)"
    "state (objs r i) = ACTIVE \<Longrightarrow> active_ok r pid (objs r i)"
    "state (objs r i) = PAUSED \<Longrightarrow> paused_ok r pid (objs r i)"
    "state (objs r i) \<noteq> TERMINATED"
  using assms by (auto simp: program_ok_def split: program_state.splits)

text \<open>Two table entries for the same object are the same entry.\<close>

lemma table_inj:
  assumes "router_ok r" "map_of (programs r) pid = Some i" "map_of (programs r) pid' = Some i"
  shows "pid' = pid"
  using program_okD(2) [OF router_okD(5) [OF assms(1)]] assms(2,3) by metis

lemma paused_iff_queued:
  assumes "router_ok r" "map_of (programs r) pid = Some i"
  shows "state (objs r i) = PAUSED \<longleftrightarrow> map_of (global_waiting_queue r) pid \<noteq> None"
  using router_okD(5) [OF assms]
  by (auto simp: program_ok_def active_ok_def paused_ok_def split: program_state.splits)

text \<open>Parts of the router the invariant does not look at.\<close>

lemma router_ok_frame:
  assumes "router_ok r" "scheduling_enabled r' = scheduling_enabled r" "programs r' = programs r"
    "backends r' = backends r" "global_waiting_queue r' = global_waiting_queue r" "objs r' = objs r"
    "next_obj r' = next_obj r" "events r' = events r" "next_event r' = next_event r"
  shows "router_ok r'"
  using assms
  by (simp add: router_ok_def program_ok_def backend_ok_def marks_ok_def events_distinct_def
      active_ok_def paused_ok_def registered_def cong: program_state.case_cong)

text \<open>The state of the weight synchronisation, which only its own operations change.\<close>

definition same_sync :: "router \<Rightarrow> router \<Rightarrow> bool" where
  "same_sync r r' \<longleftrightarrow> weight_sync_active r' = weight_sync_active r \<and> weight_sync_event r' = weight_sync_event r"

lemma sync_fields [simp]:
  "weight_sync_active (upd_obj i f r) = weight_sync_active r" "weight_sync_event (upd_obj i f r) = weight_sync_event r"
  "weight_sync_active (upd_backend u g r) = weight_sync_active r" "weight_sync_event (upd_backend u g r) = weight_sync_event r"
  "weight_sync_active (set_event e v r) = weight_sync_active r" "weight_sync_event (set_event e v r) = weight_sync_event r"
  "weight_sync_active (snd (new_event r)) = weight_sync_active r" "weight_sync_event (snd (new_event r)) = weight_sync_event r"
  "weight_sync_active (add_to_global_waiting_queue pid i b now r) = weight_sync_active r" "weight_sync_event (add_to_global_waiting_queue pid i b now r) = weight_sync_event r"
  "weight_sync_active (remove_from_global_waiting_queue pid r) = weight_sync_active r" "weight_sync_event (remove_from_global_waiting_queue pid r) = weight_sync_event r"
  by (simp_all add: upd_obj_def upd_backend_def set_event_def new_event_def
      add_to_global_waiting_queue_def remove_from_global_waiting_queue_def split: option.split)

lemma sync_fields_arm [simp]:
  "weight_sync_active (arm_event i r) = weight_sync_active r" "weight_sync_event (arm_event i r) = weight_sync_event r"
  by (simp_all add: arm_event_def case_prod_beta split: option.split)

lemma sync_fields_pause [simp]:
  "weight_sync_active (pause_program pid i now r) = weight_sync_active r"
  "weight_sync_event (pause_program pid i now r) = weight_sync_event r"
  by (simp_all add: pause_program_def split: option.split)

lemma same_sync_simps [simp]:
  "same_sync r (upd_obj i f s) = same_sync r s" "same_sync r (upd_backend u g s) = same_sync r s"
  "same_sync r (set_event e v s) = same_sync r s" "same_sync r (snd (new_event s)) = same_sync r s"
  "same_sync r (add_to_global_waiting_queue pid i b now s) = same_sync r s"
  "same_sync r (r\<lparr>step_map := m\<rparr>)" "same_sync r r"
  by (simp_all add: same_sync_def)

lemma same_sync_trans: "same_sync r s \<Longrightarrow> same_sync s t \<Longrightarrow> same_sync r t"
  by (simp add: same_sync_def)

text \<open>Changes to one object that leave alone the fields the books depend on.\<close>

definition same_core :: "program \<Rightarrow> program \<Rightarrow> bool" where
  "same_core p q \<longleftrightarrow> program_id q = program_id p \<and> state q = state p \<and> backend_url q = backend_url p \<and>
     origin_backend q = origin_backend p \<and> waiting_event q = waiting_event p \<and>
     step_count p \<le> step_count q"

lemma router_ok_upd_obj:
  assumes "router_ok r" "same_core (objs r i) (f (objs r i))"
    and mark: "marked_for_pause (f (objs r i)) \<Longrightarrow> status (f (objs r i)) = REASONING \<and>
      (marked_for_pause (objs r i) \<or> (\<exists>pid u. registered r u pid i))"
  shows "router_ok (upd_obj i f r)"
proof -
  have sc: "same_core (objs r j) (objs (upd_obj i f r) j)" for j
    using assms(2) by (auto simp: same_core_def)
  have reg: "registered (upd_obj i f r) = registered r"
    using sc by (auto simp: registered_def same_core_def fun_eq_iff simp del: upd_obj_simps(1))
  have p: "program_ok (upd_obj i f r) pid j" if "map_of (programs r) pid = Some j" for pid j
    using router_okD(5) [OF assms(1) that] sc [of j]
    by (auto simp: program_ok_def active_ok_def paused_ok_def same_core_def
        simp del: upd_obj_simps(1) split: program_state.splits)
  have "marks_ok (upd_obj i f r)"
    unfolding marks_ok_def reg
  proof (intro allI impI)
    fix j assume m: "marked_for_pause (objs (upd_obj i f r) j)"
    show "status (objs (upd_obj i f r) j) = REASONING \<and> (\<exists>pid u. registered r u pid j)"
    proof (cases "j = i")
      case True
      with m mark router_okD(8) [OF assms(1)] show ?thesis by (auto simp: marks_ok_def)
    next
      case False
      with m router_okD(8) [OF assms(1)] show ?thesis by (auto simp: marks_ok_def)
    qed
  qed
  moreover have "events_distinct (upd_obj i f r)"
    using router_okD(9) [OF assms(1)] sc unfolding events_distinct_def same_core_def by (metis upd_obj_simps(2))
  ultimately show ?thesis
    using assms(1) p by (simp add: router_ok_def backend_ok_def reg)
qed

text \<open>Changes to a backend's figures.\<close>

lemma router_ok_upd_backend:
  assumes "router_ok r" "\<And>b. url (g b) = url b" "\<And>b. be_programs (g b) = be_programs b"
  shows "router_ok (upd_backend u g r)"
proof -
  have reg: "registered (upd_backend u g r) = registered r" by (simp add: registered_def fun_eq_iff)
  have p: "program_ok (upd_backend u g r) pid j" if "map_of (programs r) pid = Some j" for pid j
    using router_okD(5) [OF assms(1) that]
    by (auto simp: program_ok_def active_ok_def paused_ok_def split: program_state.splits)
  moreover have "backend_ok (upd_backend u g r) v b" if "map_of (backends (upd_backend u g r)) v = Some b" for v b
    using that router_okD(7) [OF assms(1)] assms(2,3) by (auto simp: backend_ok_def reg split: if_splits)
  ultimately show ?thesis
    using assms(1) p by (simp add: router_ok_def marks_ok_def events_distinct_def reg)
qed


lemma router_okI:
  assumes "scheduling_enabled r" "dict_wf (programs r)" "dict_wf (backends r)" "dict_wf (global_waiting_queue r)"
    "\<And>pid i. map_of (programs r) pid = Some i \<Longrightarrow> program_ok r pid i"
    "\<And>pid. map_of (global_waiting_queue r) pid \<noteq> None \<Longrightarrow> map_of (programs r) pid \<noteq> None"
    "\<And>u b. map_of (backends r) u = Some b \<Longrightarrow> backend_ok r u b" "marks_ok r" "events_distinct r"
  shows "router_ok r"
  using assms by (simp add: router_ok_def)

text \<open>A table entry an operation does not touch.\<close>

lemma program_ok_other:
  assumes ok: "program_ok r pid j" and same: "objs r' j = objs r j"
    and q: "map_of (global_waiting_queue r') pid = map_of (global_waiting_queue r) pid"
    and b: "\<And>u. map_of (backends r) u \<noteq> None \<Longrightarrow> map_of (backends r') u \<noteq> None"
    and le: "next_obj r \<le> next_obj r'" "next_event r \<le> next_event r'"
    and ev: "\<And>e. state (objs r j) = PAUSED \<Longrightarrow> waiting_event (objs r j) = Some e \<Longrightarrow> e < next_event r \<Longrightarrow> events r' e = events r e"
  shows "program_ok r' pid j"
proof -
  have "active_ok r' pid (objs r j)" if "active_ok r pid (objs r j)"
    using that b by (simp add: active_ok_def q)
  moreover have "paused_ok r' pid (objs r j)" if s: "state (objs r j) = PAUSED" and p: "paused_ok r pid (objs r j)"
  proof -
    from p obtain e where "waiting_event (objs r j) = Some e" "e < next_event r" "\<not> events r e"
      by (auto simp: paused_ok_def)
    with ev [OF s this(1,2)] le(2) p b show ?thesis by (simp add: paused_ok_def q)
  qed
  ultimately show ?thesis
    using ok le(1) by (auto simp: program_ok_def same split: program_state.splits)
qed

section \<open>Pausing\<close>

lemma pause_program_fresh:
  assumes "backend_url (objs r i) = Some u" "map_of (backends r) u = Some b" "waiting_event (objs r i) = None"
  shows "events (pause_program pid i now r) = (events r)(next_event r := False)"
    "next_event (pause_program pid i now r) = Suc (next_event r)"
    "next_obj (pause_program pid i now r) = next_obj r"
    "scheduling_enabled (pause_program pid i now r) = scheduling_enabled r"
    "dict_wf (global_waiting_queue r) \<Longrightarrow> dict_wf (global_waiting_queue (pause_program pid i now r))"
  by (simp_all add: pause_program_def assms arm_event_def new_event_def add_to_global_waiting_queue_def)

lemma registered_ok:
  assumes "router_ok r" "registered r u pid i"
  obtains b where "map_of (programs r) pid = Some i" "map_of (backends r) u = Some b"
    "backend_url (objs r i) = Some u" "state (objs r i) = ACTIVE" "waiting_event (objs r i) = None"
    "map_of (global_waiting_queue r) pid = None" "1 \<le> step_count (objs r i)"
    "program_id (objs r i) = pid" "i < next_obj r" "url b = u"
proof -
  from assms(2) have t: "map_of (programs r) pid = Some i" "backend_url (objs r i) = Some u"
    "state (objs r i) = ACTIVE" by (auto simp: registered_def)
  from router_okD(5) [OF assms(1) t(1)] have p: "program_ok r pid i" .
  from program_okD(4) [OF p t(3)] t(2) obtain b where
    "waiting_event (objs r i) = None" "map_of (global_waiting_queue r) pid = None"
    "map_of (backends r) u = Some b" "1 \<le> step_count (objs r i)"
    by (auto simp: active_ok_def)
  moreover from this(3) router_okD(7) [OF assms(1)] have "url b = u" by (simp add: backend_ok_def)
  ultimately show thesis using t program_okD(1,2) [OF p] by (intro that) simp_all
qed

text \<open>An ACTIVE program of the table is suspended: its object becomes \<open>q\<close>, it leaves every backend
  and enters the pool with a fresh event.\<close>

lemma router_ok_suspend:
  assumes ok: "router_ok r" and t: "map_of (programs r) pid = Some i"
    and st: "1 \<le> step_count (objs r i)"
    and q: "program_id q = pid" "1 \<le> step_count q" "state q = PAUSED" "backend_url q = None"
      "waiting_event q = Some (next_event r)" "\<not> marked_for_pause q"
      "\<And>u. origin_backend q = Some u \<Longrightarrow> map_of (backends r) u \<noteq> None"
    and v: "scheduling_enabled r' = scheduling_enabled r" "programs r' = programs r" "objs r' = (objs r)(i := q)"
      "map fst (backends r') = map fst (backends r)" "next_obj r' = next_obj r"
      "next_event r' = Suc (next_event r)" "events r' = (events r)(next_event r := False)"
      "dict_wf (global_waiting_queue r')"
      "map_of (global_waiting_queue r') = (map_of (global_waiting_queue r))(pid \<mapsto> info)"
    and bes: "\<And>w c'. map_of (backends r') w = Some c' \<Longrightarrow> \<exists>c. map_of (backends r) w = Some c \<and>
      url c' = url c \<and> dict_wf (be_programs c') \<and>
      (\<forall>p j. map_of (be_programs c') p = Some j \<longleftrightarrow> map_of (be_programs c) p = Some j \<and> p \<noteq> pid)"
  shows "router_ok r'"
proof -
  have dom: "map_of (backends r') w \<noteq> None \<longleftrightarrow> map_of (backends r) w \<noteq> None" for w
    by (metis map_of_eq_None_iff set_map v(4))
  have other: "objs r' j = objs r j" if "j \<noteq> i" for j using that by (simp add: v)
  have q_iff: "map_of (programs r) p = Some i \<longleftrightarrow> p = pid" for p using table_inj [OF ok t] t by blast
  have regs: "registered r' w p j \<longleftrightarrow> registered r w p j \<and> p \<noteq> pid" for w p j
  proof (cases "j = i")
    case True
    then show ?thesis by (simp add: registered_def v(2,3) q q_iff)
  next
    case False
    with t show ?thesis by (auto simp: registered_def v(2,3))
  qed
  have progs: "program_ok r' p j" if tj: "map_of (programs r) p = Some j" for p j
  proof (cases "p = pid")
    case True
    with tj t have "j = i" by simp
    with True q program_okD(1) [OF router_okD(5) [OF ok t]] dom show ?thesis
      by (simp add: program_ok_def v paused_ok_def)
  next
    case False
    with tj q_iff have "j \<noteq> i" by blast
    from router_okD(5) [OF ok tj] show ?thesis
      by (rule program_ok_other) (use False \<open>j \<noteq> i\<close> v dom in auto)
  qed
  have bes': "backend_ok r' w c" if "map_of (backends r') w = Some c" for w c
    using bes [OF that] router_okD(7) [OF ok, of w] by (auto simp: backend_ok_def regs)
  have marks: "marks_ok r'"
    unfolding marks_ok_def
  proof (intro allI impI)
    fix j assume m: "marked_for_pause (objs r' j)"
    with q have "j \<noteq> i" by (auto simp: v)
    with m other router_okD(8) [OF ok] obtain p w where
      "status (objs r j) = REASONING" and w: "registered r w p j"
      unfolding marks_ok_def by metis
    moreover from w t \<open>j \<noteq> i\<close> have "p \<noteq> pid" by (auto simp: registered_def)
    ultimately show "status (objs r' j) = REASONING \<and> (\<exists>p w. registered r' w p j)"
      using other [OF \<open>j \<noteq> i\<close>] regs by auto
  qed
  have dist: "events_distinct r'"
    unfolding events_distinct_def
  proof (intro allI impI)
    fix p j p' k e
    assume tt: "map_of (programs r') p = Some j" "map_of (programs r') p' = Some k"
      and w: "waiting_event (objs r' j) = Some e" "waiting_event (objs r' k) = Some e"
    have lt: "e < next_event r" if "map_of (programs r) q = Some l" "waiting_event (objs r l) = Some e" for q l
      using router_okD(5) [OF ok that(1)] that(2)
      by (auto simp: program_ok_def active_ok_def paused_ok_def split: program_state.splits)
    from tt w lt router_okD(9) [OF ok] show "j = k"
      by (auto simp: v q events_distinct_def split: if_splits)
  qed
  show ?thesis
  proof (rule router_okI)
    show "dict_wf (backends r')" using router_okD(3) [OF ok] by (simp only: v(4))
  qed (use router_okD(1,2,4,6) [OF ok] t progs bes' marks dist v in \<open>auto split: if_splits\<close>)
qed

lemma router_ok_pause:
  assumes ok: "router_ok r" and reg: "registered r u pid i" and unmarked: "\<not> marked_for_pause (objs r i)"
  shows "router_ok (pause_program pid i now r)"
proof -
  from registered_ok [OF ok reg] obtain b where a: "map_of (programs r) pid = Some i"
    "map_of (backends r) u = Some b" "backend_url (objs r i) = Some u" "state (objs r i) = ACTIVE"
    "waiting_event (objs r i) = None" "map_of (global_waiting_queue r) pid = None"
    "1 \<le> step_count (objs r i)" "program_id (objs r i) = pid" "i < next_obj r" "url b = u" by metis
  note v = pause_program_valid [OF a(3,2), of pid now] pause_program_fresh [OF a(3,2,5), of pid now]
  show ?thesis
  proof (rule router_ok_suspend [OF ok a(1,7), of "paused_object r i"])
    show "map fst (backends (pause_program pid i now r)) = map fst (backends r)" by (rule v(4))
    fix w c' assume c': "map_of (backends (pause_program pid i now r)) w = Some c'"
    show "\<exists>c. map_of (backends r) w = Some c \<and> url c' = url c \<and> dict_wf (be_programs c') \<and>
      (\<forall>p j. map_of (be_programs c') p = Some j \<longleftrightarrow> map_of (be_programs c) p = Some j \<and> p \<noteq> pid)"
    proof (cases "w = u")
      case True
      from c' True have "c' = unregister_program pid b" by (simp add: v(3))
      with True a(2) router_okD(7) [OF ok a(2)] show ?thesis by (simp add: backend_ok_def)
    next
      case False
      with c' have c: "map_of (backends r) w = Some c'" by (simp add: v(3))
      from router_okD(7) [OF ok c] False reg a show ?thesis using c by (auto simp: backend_ok_def registered_def)
    qed
  qed (use a unmarked v router_okD(4) [OF ok] in \<open>auto simp: paused_object_def\<close>)
qed

lemma router_ok_mark:
  assumes ok: "router_ok r" and reg: "registered r u pid i" and "status (objs r i) = REASONING"
  shows "router_ok (mark_program_for_pause pid i r)"
proof -
  from registered_ok [OF ok reg] obtain b where b: "map_of (backends r) u = Some b"
    "backend_url (objs r i) = Some u" by metis
  have "router_ok (upd_obj i (\<lambda>p. p\<lparr>marked_for_pause := True\<rparr>) r)"
    by (rule router_ok_upd_obj [OF ok]) (use assms in \<open>auto simp: same_core_def\<close>)
  then show ?thesis
    unfolding mark_program_for_pause_def b option.case
    by (rule router_ok_upd_backend) simp_all
qed

lemma registered_upd_obj:
  "same_core (objs r i) (f (objs r i)) \<Longrightarrow> registered (upd_obj i f r) = registered r"
  by (auto simp: registered_def same_core_def fun_eq_iff)

lemma registered_upd_backend [simp]: "registered (upd_backend u g r) = registered r"
  by (simp add: registered_def fun_eq_iff)

lemma router_ok_clear_mark_and_pause:
  assumes ok: "router_ok r" and reg: "registered r u pid i"
  shows "router_ok (clear_mark_and_pause pid i now r)"
proof -
  from registered_ok [OF ok reg] obtain b where b: "map_of (backends r) u = Some b"
    "backend_url (objs r i) = Some u" by metis
  let ?f = "\<lambda>p. p\<lparr>marked_for_pause := False\<rparr>" and ?g = "release_marked_tokens (total_tokens (objs r i))"
  have f: "same_core (objs r i) (?f (objs r i))" by (simp add: same_core_def)
  then have "router_ok (upd_obj i ?f r)" by (rule router_ok_upd_obj [OF ok]) simp
  then have "router_ok (upd_backend u ?g (upd_obj i ?f r))"
    by (rule router_ok_upd_backend) (simp_all add: release_marked_tokens_def)
  then have "router_ok (pause_program pid i now (upd_backend u ?g (upd_obj i ?f r)))"
    by (rule router_ok_pause [where u = u]) (simp_all add: registered_upd_obj [where f = ?f, OF f] reg)
  then show ?thesis by (simp add: clear_mark_and_pause_def b)
qed

text \<open>A program of the table on a backend is registered there.\<close>

lemma table_registered:
  assumes "router_ok r" "(pid, i) \<in> set (programs r)" "backend_url (objs r i) = Some u"
  shows "registered r u pid i"
proof -
  from assms(1,2) have t: "map_of (programs r) pid = Some i" by (simp add: router_okD(2))
  from router_okD(5) [OF assms(1) t] assms(3) have "state (objs r i) = ACTIVE"
    by (auto simp: program_ok_def paused_ok_def split: program_state.splits)
  with t assms(3) show ?thesis by (simp add: registered_def)
qed

lemma router_ok_acting_unmarked: "router_ok r \<Longrightarrow> status (objs r i) = ACTING \<Longrightarrow> \<not> marked_for_pause (objs r i)"
  using router_okD(8) [of r] by (auto simp: marks_ok_def)

lemma router_ok_pause_until_safe: "router_ok r \<Longrightarrow> router_ok (pause_until_safe u now r)"
  by (erule pause_until_safe_invariant)
    (blast intro: router_ok_pause router_ok_mark table_registered dest: router_ok_acting_unmarked)+


section \<open>Resuming\<close>

text \<open>The router after a program has been taken out of the pool and put on a backend.\<close>

definition resumed_object :: "string \<Rightarrow> program \<Rightarrow> program" where
  "resumed_object u p = p\<lparr>backend_url := Some u, origin_backend := None, state := ACTIVE, waiting_event := None\<rparr>"

definition resumed :: "string \<Rightarrow> oid \<Rightarrow> string \<Rightarrow> nat \<Rightarrow> router \<Rightarrow> router \<Rightarrow> bool" where
  "resumed pid i u e r r' \<longleftrightarrow> scheduling_enabled r' = scheduling_enabled r \<and> programs r' = programs r \<and>
     objs r' = (objs r)(i := resumed_object u (objs r i)) \<and>
     map_of (backends r') = (map_of (backends r))(u := map_option (register_program pid i) (map_of (backends r) u)) \<and>
     map fst (backends r') = map fst (backends r) \<and>
     global_waiting_queue r' = AList.delete pid (global_waiting_queue r) \<and>
     events r' = (events r)(e := True) \<and> next_event r' = next_event r \<and> next_obj r' = next_obj r \<and>
     same_sync r r'"

text \<open>A program of the table that is on no backend is placed on one: its object becomes \<open>q\<close>.\<close>

lemma router_ok_place:
  assumes ok: "router_ok r" and t: "map_of (programs r) pid = Some i"
    and np: "state (objs r i) = PAUSED \<or> backend_url (objs r i) = None"
    and u: "map_of (backends r) u = Some b"
    and q: "program_id q = pid" "1 \<le> step_count q" "state q = ACTIVE" "backend_url q = Some u"
      "waiting_event q = None" "\<not> marked_for_pause q" "origin_backend q = None"
    and v: "scheduling_enabled r' = scheduling_enabled r" "programs r' = programs r" "objs r' = (objs r)(i := q)"
      "map_of (backends r') = (map_of (backends r))(u \<mapsto> register_program pid i b)"
      "map fst (backends r') = map fst (backends r)" "next_obj r' = next_obj r"
      "next_event r' = next_event r" "dict_wf (global_waiting_queue r')"
      "map_of (global_waiting_queue r') = (map_of (global_waiting_queue r))(pid := None)"
      "\<And>e. waiting_event (objs r i) \<noteq> Some e \<Longrightarrow> events r' e = events r e"
  shows "router_ok r'"
proof -
  note pi = program_okD [OF router_okD(5) [OF ok t]]
  have q_iff: "map_of (programs r) p = Some i \<longleftrightarrow> p = pid" for p using table_inj [OF ok t] t by blast
  have other: "objs r' j = objs r j" if "j \<noteq> i" for j using that v by simp
  have noreg: "\<not> registered r w p i" "\<not> registered r w pid j" for w p j
    using t np by (auto simp: registered_def)
  have regs: "registered r' w p j \<longleftrightarrow> registered r w p j \<or> (w = u \<and> p = pid \<and> j = i)" for w p j
  proof (cases "j = i")
    case True
    with noreg(1) show ?thesis using v q by (auto simp: registered_def q_iff)
  next
    case False
    then show ?thesis using v by (simp add: registered_def)
  qed
  have progs: "program_ok r' p j" if tj: "map_of (programs r) p = Some j" for p j
  proof (cases "p = pid")
    case True
    with tj t have "j = i" by simp
    with True pi(1) q v show ?thesis by (simp add: program_ok_def active_ok_def)
  next
    case False
    with tj q_iff have ne: "j \<noteq> i" by blast
    have ev: "waiting_event (objs r i) \<noteq> Some e'" if "waiting_event (objs r j) = Some e'" for e'
      using router_okD(9) [OF ok] tj t that ne unfolding events_distinct_def by metis
    from router_okD(5) [OF ok tj] show ?thesis
      by (rule program_ok_other) (use False ne ev v in auto)
  qed
  have bes: "backend_ok r' w c" if c: "map_of (backends r') w = Some c" for w c
  proof (cases "w = u")
    case True
    with c v have c: "c = register_program pid i b" by simp
    from router_okD(7) [OF ok u] have "backend_ok r u b" .
    with True c noreg(2) show ?thesis by (auto simp: backend_ok_def regs)
  next
    case False
    with c v have "map_of (backends r) w = Some c" by simp
    from router_okD(7) [OF ok this] False show ?thesis by (auto simp: backend_ok_def regs)
  qed
  have marks: "marks_ok r'"
    unfolding marks_ok_def
  proof (intro allI impI)
    fix j assume m: "marked_for_pause (objs r' j)"
    with q v have "j \<noteq> i" by auto
    with m other have "marked_for_pause (objs r j)" "status (objs r' j) = status (objs r j)" by simp_all
    with router_okD(8) [OF ok] show "status (objs r' j) = REASONING \<and> (\<exists>p w. registered r' w p j)"
      unfolding marks_ok_def regs by metis
  qed
  have dist: "events_distinct r'"
    using router_okD(9) [OF ok] v q unfolding events_distinct_def by auto
  show ?thesis
  proof (rule router_okI)
    show "dict_wf (backends r')" using router_okD(3) [OF ok] v(5) by (simp only:)
  qed (use router_okD(1,2,4,6) [OF ok] t progs bes marks dist v in \<open>auto split: if_splits\<close>)
qed

lemma paused_unmarked:
  assumes "router_ok r" "map_of (programs r) pid = Some i" "state (objs r i) \<noteq> ACTIVE \<or> backend_url (objs r i) = None"
  shows "\<not> marked_for_pause (objs r i)"
  using router_okD(8) [OF assms(1)] assms(3) by (auto simp: marks_ok_def registered_def)

lemma router_ok_resumed:
  assumes ok: "router_ok r" and t: "map_of (programs r) pid = Some i" and st: "state (objs r i) = PAUSED"
    and u: "map_of (backends r) u = Some b" and e: "waiting_event (objs r i) = Some e"
    and v: "resumed pid i u e r r'"
  shows "router_ok r'"
proof -
  note v' = v [unfolded resumed_def]
  have pi: "program_id (objs r i) = pid" "paused_ok r pid (objs r i)"
    using program_okD [OF router_okD(5) [OF ok t]] st by auto
  show ?thesis
  proof (rule router_ok_place [OF ok t _ u, of "resumed_object u (objs r i)"])
    show "map fst (backends r') = map fst (backends r)" using v' by (simp only:)
  qed (use st pi v' u e paused_unmarked [OF ok t] router_okD(4) [OF ok] in
    \<open>auto simp: resumed_object_def paused_ok_def\<close>)
qed

lemma resume_resumed:
  assumes "state (objs r i) = PAUSED" "map_of (backends r) u = Some b" "waiting_event (objs r i) = Some e"
    "program_id (objs r i) = pid"
  shows "resumed pid i u e r (resume_program i (Some u) (remove_from_global_waiting_queue pid r))"
  using assms
  by (simp add: resumed_def resume_program_def Let_def set_event_def resumed_object_def
      remove_from_global_waiting_queue_def upd_obj_def upd_backend_def keys_update_mem same_sync_def)

lemma paused_event: "router_ok r \<Longrightarrow> map_of (programs r) pid = Some i \<Longrightarrow> state (objs r i) = PAUSED \<Longrightarrow>
    \<exists>e. waiting_event (objs r i) = Some e"
  using router_okD(5) [of r pid i] by (auto simp: program_ok_def paused_ok_def)

lemma router_ok_take_and_resume:
  assumes "router_ok r" "map_of (programs r) pid = Some i" "state (objs r i) = PAUSED"
    "map_of (backends r) u \<noteq> None"
  shows "router_ok (take_and_resume i u r)"
proof -
  obtain e b where e: "waiting_event (objs r i) = Some e" and b: "map_of (backends r) u = Some b"
    using paused_event assms by blast
  have p: "program_id (objs r i) = pid" using program_okD(2) [OF router_okD(5) [OF assms(1,2)]] .
  show ?thesis
    unfolding take_and_resume_def p
    by (rule router_ok_resumed [OF assms(1-3) b e resume_resumed [OF assms(3) b e p]])
qed


section \<open>How the router evolves\<close>

text \<open>A program that waits in the pool for the event \<open>e\<close>.\<close>

definition awaits :: "router \<Rightarrow> string \<Rightarrow> oid \<Rightarrow> nat \<Rightarrow> bool" where
  "awaits r pid i e \<longleftrightarrow> map_of (programs r) pid = Some i \<and> state (objs r i) = PAUSED \<and>
     waiting_event (objs r i) = Some e"

text \<open>No operation but a release forgets a program, an identity or an event that was set, and a
  program stops waiting only with its event set.\<close>

definition evolves :: "router \<Rightarrow> router \<Rightarrow> bool" where
  "evolves r r' \<longleftrightarrow> next_obj r \<le> next_obj r' \<and> next_event r \<le> next_event r' \<and>
     map fst (backends r') = map fst (backends r) \<and> same_sync r r' \<and>
     (\<forall>e < next_event r. events r e \<longrightarrow> events r' e) \<and>
     (\<forall>i < next_obj r. program_id (objs r' i) = program_id (objs r i)) \<and>
     (\<forall>pid i. map_of (programs r) pid = Some i \<longrightarrow> map_of (programs r') pid = Some i) \<and>
     (\<forall>pid i e. awaits r pid i e \<longrightarrow> awaits r' pid i e \<or> events r' e)"

lemma evolves_refl [simp]: "evolves r r"
  by (simp add: evolves_def same_sync_def)

lemma awaits_event: "router_ok r \<Longrightarrow> awaits r pid i e \<Longrightarrow> e < next_event r \<and> \<not> events r e"
  using router_okD(5) [of r pid i] by (auto simp: awaits_def program_ok_def paused_ok_def)

lemma evolves_trans:
  assumes rs: "evolves r s" and st: "evolves s t" and ok: "router_ok r"
  shows "evolves r t"
proof -
  have "awaits t pid i e \<or> events t e" if a: "awaits r pid i e" for pid i e
  proof -
    from awaits_event [OF ok a] rs have "e < next_event s" by (auto simp: evolves_def)
    with a rs st show ?thesis unfolding evolves_def by blast
  qed
  moreover have "\<forall>e < next_event r. events r e \<longrightarrow> events t e"
    using rs st unfolding evolves_def by (meson order_less_le_trans)
  moreover have "\<forall>i < next_obj r. program_id (objs t i) = program_id (objs r i)"
    using rs st unfolding evolves_def by (metis order_less_le_trans)
  moreover have "map fst (backends t) = map fst (backends r)" using rs st by (simp add: evolves_def)
  moreover have "same_sync r t" using rs st by (simp add: evolves_def same_sync_def)
  moreover have "next_obj r \<le> next_obj t" "next_event r \<le> next_event t"
    using rs st unfolding evolves_def by (blast intro: order_trans)+
  moreover have "\<forall>pid i. map_of (programs r) pid = Some i \<longrightarrow> map_of (programs t) pid = Some i"
    using rs st unfolding evolves_def by blast
  ultimately show ?thesis unfolding evolves_def by blast
qed

text \<open>A change of one object.\<close>

lemma evolves_object:
  assumes "objs r' = (objs r)(i := q)" "programs r' = programs r" "next_obj r' = next_obj r"
    "map fst (backends r') = map fst (backends r)" "same_sync r r'" "next_event r \<le> next_event r'" "program_id q = program_id (objs r i)"
    "\<And>e. e < next_event r \<Longrightarrow> events r e \<Longrightarrow> events r' e"
    "\<And>e. state (objs r i) = PAUSED \<Longrightarrow> waiting_event (objs r i) = Some e \<Longrightarrow>
       (state q = PAUSED \<and> waiting_event q = Some e) \<or> events r' e"
  shows "evolves r r'"
  using assms unfolding evolves_def awaits_def by auto

lemma evolves_pause:
  assumes ok: "router_ok r" and reg: "registered r u pid i"
  shows "evolves r (pause_program pid i now r)"
proof -
  from registered_ok [OF ok reg] obtain b where a: "map_of (backends r) u = Some b"
    "backend_url (objs r i) = Some u" "waiting_event (objs r i) = None" by metis
  note v = pause_program_valid [OF a(2,1), of pid now] pause_program_fresh [OF a(2,1,3), of pid now]
  show ?thesis by (rule evolves_object [of _ _ i "paused_object r i"]) (use v(1,2) v(5-) a in \<open>auto simp: same_sync_def paused_object_def v(4) simp del: list.map\<close>)
qed

lemma evolves_upd_obj:
  "program_id (f (objs r i)) = program_id (objs r i) \<Longrightarrow> state (f (objs r i)) = state (objs r i) \<Longrightarrow>
   waiting_event (f (objs r i)) = waiting_event (objs r i) \<Longrightarrow> evolves r (upd_obj i f r)"
  by (rule evolves_object [of _ _ i "f (objs r i)"]) (auto simp: same_sync_def)

lemma evolves_upd_backend: "evolves r (upd_backend u g r)"
  by (simp add: evolves_def awaits_def same_sync_def)

lemma evolves_mark: "router_ok r \<Longrightarrow> evolves r (mark_program_for_pause pid i r)"
proof -
  assume ok: "router_ok r"
  show ?thesis
  proof (cases "get_backend r (backend_url (objs r i))")
    case None
    then show ?thesis by (auto simp: mark_program_for_pause_def get_backend_def split: option.splits bind_splits)
  next
    case (Some b)
    then obtain u where "backend_url (objs r i) = Some u" "map_of (backends r) u = Some b"
      by (auto simp: get_backend_def bind_eq_Some_conv)
    then show ?thesis
      by (simp add: mark_program_for_pause_def evolves_def awaits_def same_sync_def)
  qed
qed

lemma evolves_resumed: "state (objs r i) = PAUSED \<Longrightarrow> waiting_event (objs r i) = Some e \<Longrightarrow>
    resumed pid i u e r r' \<Longrightarrow> evolves r r'"
  by (rule evolves_object [of _ _ i "resumed_object u (objs r i)"])
    (auto simp: resumed_def resumed_object_def)

lemma pause_until_safe_evolves:
  "router_ok r \<Longrightarrow> router_ok (pause_until_safe u now r) \<and> evolves r (pause_until_safe u now r)"
proof (rule pause_until_safe_invariant [where P = "\<lambda>s. router_ok s \<and> evolves r s"])
  assume ok: "router_ok r"
  then show "router_ok r \<and> evolves r r" by simp
  fix s pid j
  assume s: "router_ok s \<and> evolves r s" and t: "(pid, j) \<in> set (programs s)" "backend_url (objs s j) = Some u"
  note reg = table_registered [OF conjunct1 [OF s] t]
  show "router_ok (mark_program_for_pause pid j s) \<and> evolves r (mark_program_for_pause pid j s)"
    if "status (objs s j) = REASONING"
    using s router_ok_mark [OF _ reg that] evolves_trans [OF _ evolves_mark ok] by blast
  show "router_ok (pause_program pid j now s) \<and> evolves r (pause_program pid j now s)"
    if "status (objs s j) = ACTING"
    using s router_ok_pause [OF _ reg router_ok_acting_unmarked [OF _ that]]
      evolves_trans [OF _ evolves_pause [OF _ reg] ok] by blast
qed

end
