(* ===== verification/Capacity.thy ===== *)
theory Capacity
  imports Policy
begin

text \<open>
  Resuming and the capacity of the backends: whatever the greedy resume places, no backend is
  filled beyond the capacity the resume logic reads, and the three books stay consistent.
\<close>

section \<open>Registering one more program\<close>

lemma update_append: "pid \<notin> set (map fst d) \<Longrightarrow> AList.update pid v d = d @ [(pid, v)]"
  by (induction d) auto

lemma trunc_int_add_le: "0 \<le> x \<Longrightarrow> 0 \<le> y \<Longrightarrow> y \<le> real_of_int t \<Longrightarrow> trunc_int (x + y) \<le> trunc_int x + t"
  unfolding trunc_int_def by (simp, linarith)

lemma mult_le_self: "0 \<le> (c::real) \<Longrightarrow> c \<le> 1 \<Longrightarrow> 0 \<le> x \<Longrightarrow> c * x \<le> x"
  by (simp add: mult_left_le_one_le)

text \<open>A program whose weight is at most its tokens.\<close>

definition weight_ok :: "real \<Rightarrow> program \<Rightarrow> bool" where
  "weight_ok now p \<longleftrightarrow> 0 \<le> total_tokens p \<and> (\<forall>t0. acting_since p = Some t0 \<longrightarrow> t0 \<le> now)"

lemma decayed_tokens_nonneg: "0 \<le> total_tokens p \<Longrightarrow> 0 \<le> decayed_tokens now p"
  by (auto simp: decayed_tokens_def split: option.split)

lemma sum_list_nonneg_real: "(\<And>x. x \<in> set xs \<Longrightarrow> (0::real) \<le> f x) \<Longrightarrow> 0 \<le> sum_list (map f xs)"
  by (induction xs) auto

lemma programs_with_register:
  assumes "pid \<notin> set (map fst (be_programs b))" "i \<notin> set (dict_values (be_programs b))"
  shows "programs_with (st(i := q)) (register_program pid i b) s
    = programs_with st b s @ (if status q = s then [q] else [])"
proof -
  have "map (st(i := q)) (dict_values (be_programs b)) = map st (dict_values (be_programs b))"
    using assms(2) by (intro map_cong) auto
  then have "programs_with (st(i := q)) b s = programs_with st b s" by (simp only: programs_with_def)
  then show ?thesis
    using assms(1) by (simp add: programs_with_def update_append)
qed

lemma active_tokens_register:
  assumes "pid \<notin> set (map fst (be_programs b))" "i \<notin> set (dict_values (be_programs b))"
    and w: "0 \<le> tool_coefficient b" "tool_coefficient b \<le> 1" "0 \<le> total_tokens q"
    and ws: "\<And>j. j \<in> set (dict_values (be_programs b)) \<Longrightarrow> 0 \<le> total_tokens (st j)"
  shows "active_program_tokens (st(i := q)) (register_program pid i b) \<le> active_program_tokens st b + total_tokens q"
proof -
  let ?R = "real_of_int (reasoning_program_tokens st b)" and ?A = "real_of_int (acting_program_tokens st b)"
  let ?t = "real_of_int (total_tokens q)" and ?c = "tool_coefficient b"
  have nn: "0 \<le> sum_list (map total_tokens (programs_with st b s))" for s
    by (rule sum_list_nonneg_int) (use ws in \<open>auto simp: programs_with_def\<close>)
  then have "0 \<le> ?R + ?c * ?A"
    using w(1) by (simp add: reasoning_program_tokens_def acting_program_tokens_def)
  from trunc_int_add_le [OF this, of "if status q = REASONING then ?t else ?c * ?t" "total_tokens q"]
  have "trunc_int (?R + ?c * ?A + (if status q = REASONING then ?t else ?c * ?t))
      \<le> trunc_int (?R + ?c * ?A) + total_tokens q"
    using w mult_le_self [of ?c ?t] by simp
  then show ?thesis
    by (cases "status q") (simp_all add: active_program_tokens_def reasoning_program_tokens_def acting_program_tokens_def
        programs_with_register [OF assms(1,2)] algebra_simps)
qed

lemma count_register: "pid \<notin> set (map fst (be_programs b)) \<Longrightarrow>
    active_program_count (register_program pid i b) = active_program_count b + 1"
  by (simp add: active_program_count_def update_append)

lemma decay_sum_register:
  assumes "pid \<notin> set (map fst (be_programs b))" "i \<notin> set (dict_values (be_programs b))"
    and q: "weight_ok now q" and ws: "\<And>j. j \<in> set (dict_values (be_programs b)) \<Longrightarrow> 0 \<le> total_tokens (st j)"
  shows "trunc_int (real_of_int (reasoning_program_tokens (st(i := q)) (register_program pid i b))
      + sum_list (map (decayed_tokens now) (programs_with (st(i := q)) (register_program pid i b) ACTING)))
    \<le> trunc_int (real_of_int (reasoning_program_tokens st b)
      + sum_list (map (decayed_tokens now) (programs_with st b ACTING))) + total_tokens q"
proof -
  let ?R = "real_of_int (reasoning_program_tokens st b)"
  let ?D = "sum_list (map (decayed_tokens now) (programs_with st b ACTING))"
  let ?x = "if status q = REASONING then real_of_int (total_tokens q) else decayed_tokens now q"
  have "0 \<le> sum_list (map total_tokens (programs_with st b REASONING))"
    by (rule sum_list_nonneg_int) (use ws in \<open>auto simp: programs_with_def\<close>)
  moreover have "0 \<le> ?D"
    by (rule sum_list_nonneg_real) (use ws in \<open>auto simp: programs_with_def intro: decayed_tokens_nonneg\<close>)
  ultimately have nn: "0 \<le> ?R + ?D" by (simp add: reasoning_program_tokens_def)
  have "0 \<le> ?x" "?x \<le> real_of_int (total_tokens q)"
    using q decayed_tokens_nonneg decayed_tokens_le by (auto simp: weight_ok_def)
  from trunc_int_add_le [OF nn this]
  show ?thesis
    by (cases "status q") (simp_all add: reasoning_program_tokens_def programs_with_register [OF assms(1,2)] algebra_simps)
qed

text \<open>The capacity the resume logic reads drops by at most what it accounts for.\<close>

lemma resume_capacity_register:
  assumes fresh: "pid \<notin> set (map fst (be_programs b))" "i \<notin> set (dict_values (be_programs b))"
    and w: "0 \<le> tool_coefficient b" "tool_coefficient b \<le> 1" "weight_ok now q"
    and ws: "\<And>j. j \<in> set (dict_values (be_programs b)) \<Longrightarrow> 0 \<le> total_tokens (st j)"
    and c: "Fin c \<le> resume_capacity st now b"
  shows "Fin (c - (total_tokens q + BUFFER_PER_PROGRAM))
    \<le> resume_capacity (st(i := q)) now (register_program pid i b)"
proof (cases "cache_capacity b")
  case None
  then show ?thesis
    by (simp add: resume_capacity_def remaining_capacity_def remaining_capacity_with_decay_def)
next
  case (Some cap)
  have "active_program_tokens (st(i := q)) (register_program pid i b) \<le> active_program_tokens st b + total_tokens q"
    by (rule active_tokens_register [OF fresh w(1,2) _ ws]) (use w(3) in \<open>simp_all add: weight_ok_def\<close>)
  moreover note decay_sum_register [OF fresh w(3), of st, OF ws]
  ultimately show ?thesis
    using Some c
    by (simp add: resume_capacity_def remaining_capacity_def remaining_capacity_with_decay_def Let_def
        count_register [OF fresh(1)] distrib_right split: if_splits)
qed

section \<open>Placement\<close>

definition weights_ok :: "real \<Rightarrow> router \<Rightarrow> bool" where
  "weights_ok now r \<longleftrightarrow> (\<forall>pid i. map_of (programs r) pid = Some i \<longrightarrow> weight_ok now (objs r i)) \<and>
     (\<forall>u b. map_of (backends r) u = Some b \<longrightarrow> 0 \<le> tool_coefficient b \<and> tool_coefficient b \<le> 1)"

text \<open>What the placement loops maintain: the books, the programs still to place, capacities in the
  list that are really there, and backends that are within capacity or no worse than at the start.\<close>

definition caps_real :: "real \<Rightarrow> router \<Rightarrow> (string \<times> int) list \<Rightarrow> bool" where
  "caps_real now r caps \<longleftrightarrow> distinct (map fst caps) \<and> (\<forall>(u, c) \<in> set caps. \<exists>b.
     map_of (backends r) u = Some b \<and> Fin c \<le> resume_capacity (objs r) now b)"

definition no_worse :: "real \<Rightarrow> router \<Rightarrow> router \<Rightarrow> bool" where
  "no_worse now r0 r \<longleftrightarrow> (\<forall>u b0. map_of (backends r0) u = Some b0 \<longrightarrow> (\<exists>b. map_of (backends r) u = Some b \<and>
     (resume_capacity (objs r0) now b0 \<le> resume_capacity (objs r) now b \<or> Fin 0 \<le> resume_capacity (objs r) now b)))"

definition placing :: "real \<Rightarrow> router \<Rightarrow> oid list \<Rightarrow> (string \<times> int) list \<Rightarrow> router \<Rightarrow> bool" where
  "placing now r0 is caps r \<longleftrightarrow> router_ok r \<and> weights_ok now r \<and> distinct is \<and>
     (\<forall>i \<in> set is. claimable r i) \<and> caps_real now r caps \<and> no_worse now r0 r"

lemma not_registered:
  assumes ok: "router_ok r" and t: "map_of (programs r) pid = Some i" "state (objs r i) = PAUSED"
    and b: "map_of (backends r) u = Some b"
  shows "pid \<notin> set (map fst (be_programs b))" "i \<notin> set (dict_values (be_programs b))"
proof -
  from router_okD(7) [OF ok b] have reg: "map_of (be_programs b) p = Some j \<longleftrightarrow> registered r u p j" for p j
    by (simp add: backend_ok_def)
  show "pid \<notin> set (map fst (be_programs b))"
  proof
    assume "pid \<in> set (map fst (be_programs b))"
    then obtain j where "map_of (be_programs b) pid = Some j" by (metis map_of_eq_None_iff not_None_eq set_map)
    with reg t show False by (auto simp: registered_def)
  qed
  show "i \<notin> set (dict_values (be_programs b))"
  proof
    assume "i \<in> set (dict_values (be_programs b))"
    then obtain p where "(p, i) \<in> set (be_programs b)" by auto
    with router_okD(7) [OF ok b] have "map_of (be_programs b) p = Some i" by (simp add: backend_ok_def)
    with reg t(2) show False by (simp add: registered_def)
  qed
qed

lemma registered_weight:
  assumes "router_ok r" "weights_ok now r" "map_of (backends r) u = Some b" "j \<in> set (dict_values (be_programs b))"
  shows "0 \<le> total_tokens (objs r j)"
proof -
  from assms(4) obtain p where "(p, j) \<in> set (be_programs b)" by auto
  with router_okD(7) [OF assms(1,3)] have "map_of (be_programs b) p = Some j" by (simp add: backend_ok_def)
  with router_okD(7) [OF assms(1,3)] have "registered r u p j" by (simp add: backend_ok_def)
  with assms(2) show ?thesis by (auto simp: weights_ok_def registered_def weight_ok_def)
qed

lemma resume_capacity_cong:
  assumes "\<And>j. j \<in> set (dict_values (be_programs b)) \<Longrightarrow> st' j = st j"
  shows "resume_capacity st' now b = resume_capacity st now b"
proof -
  have "map st' (dict_values (be_programs b)) = map st (dict_values (be_programs b))"
    using assms by (intro map_cong) auto
  then have p: "programs_with st' b s = programs_with st b s" for s
    by (simp only: programs_with_def)
  then have "active_program_tokens st' b = active_program_tokens st b"
    "reasoning_program_tokens st' b = reasoning_program_tokens st b"
    by (simp_all add: active_program_tokens_def reasoning_program_tokens_def acting_program_tokens_def)
  with p show ?thesis
    by (simp add: resume_capacity_def remaining_capacity_def remaining_capacity_with_decay_def
        split: option.split)
qed


text \<open>One placement.\<close>

lemma placing_step:
  assumes pl: "placing now r0 (i # is) caps r" and u: "(u, c) \<in> set caps"
    and fits: "required_tokens (objs r) i \<le> c"
    and caps': "distinct (map fst caps')"
      "\<And>v d. (v, d) \<in> set caps' \<Longrightarrow> (v \<noteq> u \<and> (v, d) \<in> set caps) \<or> (v = u \<and> d = c - required_tokens (objs r) i)"
  shows "placing now r0 is caps' (take_and_resume i u r)"
proof -
  let ?r = "take_and_resume i u r" and ?q = "resumed_object u (objs r i)"
  from pl have ok: "router_ok r" and wok: "weights_ok now r" and i: "claimable r i"
    and cr: "caps_real now r caps" and nw: "no_worse now r0 r"
    by (simp_all add: placing_def)
  from cr u obtain b where b: "map_of (backends r) u = Some b" and c: "Fin c \<le> resume_capacity (objs r) now b"
    by (auto simp: caps_real_def)
  from take_and_resume_resumed [OF ok i b] obtain pid e where t: "map_of (programs r) pid = Some i"
    "state (objs r i) = PAUSED" and res: "resumed pid i u e r ?r" by metis
  note v = res [unfolded resumed_def]
  note fresh = not_registered [OF ok t]
  have w: "weight_ok now ?q" "0 \<le> tool_coefficient b" "tool_coefficient b \<le> 1"
    using wok t(1) b by (auto simp: weights_ok_def weight_ok_def resumed_object_def)
  have "Fin (c - (total_tokens ?q + BUFFER_PER_PROGRAM))
      \<le> resume_capacity ((objs r)(i := ?q)) now (register_program pid i b)"
    by (rule resume_capacity_register [OF fresh [OF b] w(2,3,1) _ c])
      (rule registered_weight [OF ok wok b])
  then have cu: "Fin (c - required_tokens (objs r) i)
      \<le> resume_capacity (objs ?r) now (register_program pid i b)"
    using v by (simp add: required_tokens_def resumed_object_def)
  have bu: "map_of (backends ?r) u = Some (register_program pid i b)" using v b by simp
  have other: "map_of (backends ?r) x = map_of (backends r) x" if "x \<noteq> u" for x using v that by simp
  have cap_other: "resume_capacity (objs ?r) now d = resume_capacity (objs r) now d"
    if "map_of (backends r) x = Some d" for x d
    by (rule resume_capacity_cong) (use fresh(2) [OF that] v in auto)
  have wok': "weights_ok now ?r"
    unfolding weights_ok_def
  proof (intro conjI allI impI)
    fix p j assume "map_of (programs ?r) p = Some j"
    then show "weight_ok now (objs ?r j)"
      using wok w(1) v by (auto simp: weights_ok_def)
  next
    fix x d assume "map_of (backends ?r) x = Some d"
    then have "0 \<le> tool_coefficient d \<and> tool_coefficient d \<le> 1"
      using wok w(2,3) v b by (cases "x = u") (auto simp: weights_ok_def)
    then show "0 \<le> tool_coefficient d" "tool_coefficient d \<le> 1" by simp_all
  qed
  have cr': "caps_real now ?r caps'"
    unfolding caps_real_def
  proof (intro conjI caps'(1) ballI, clarify)
    fix x d assume "(x, d) \<in> set caps'"
    from caps'(2) [OF this] show "\<exists>b. map_of (backends ?r) x = Some b \<and> Fin d \<le> resume_capacity (objs ?r) now b"
    proof
      assume "x = u \<and> d = c - required_tokens (objs r) i"
      with bu cu show ?thesis by simp
    next
      assume x: "x \<noteq> u \<and> (x, d) \<in> set caps"
      with cr obtain b' where "map_of (backends r) x = Some b'" "Fin d \<le> resume_capacity (objs r) now b'"
        by (auto simp: caps_real_def)
      with other cap_other x show ?thesis by auto
    qed
  qed
  have nw': "no_worse now r0 ?r"
    unfolding no_worse_def
  proof (intro allI impI)
    fix x b0 assume b0: "map_of (backends r0) x = Some b0"
    show "\<exists>b. map_of (backends ?r) x = Some b \<and> (resume_capacity (objs r0) now b0
        \<le> resume_capacity (objs ?r) now b \<or> Fin 0 \<le> resume_capacity (objs ?r) now b)"
    proof (cases "x = u")
      case True
      from fits have "Fin 0 \<le> Fin (c - required_tokens (objs r) i)" by simp
      with True bu cu show ?thesis by (metis order_trans)
    next
      case False
      from nw b0 obtain b' where "map_of (backends r) x = Some b'" "resume_capacity (objs r0) now b0
        \<le> resume_capacity (objs r) now b' \<or> Fin 0 \<le> resume_capacity (objs r) now b'"
        unfolding no_worse_def by blast
      with other [OF False] cap_other show ?thesis by auto
    qed
  qed
  have "\<forall>j \<in> set is. claimable ?r j"
    using pl claimable_after [OF ok i b] by (auto simp: placing_def)
  with pl wok' cr' nw' router_ok_after [OF ok i b] show ?thesis by (simp add: placing_def)
qed


lemma sort_caps_simps [simp]: "set (sort_caps caps) = set caps" "distinct (map fst (sort_caps caps)) = distinct (map fst caps)"
proof -
  show "set (sort_caps caps) = set caps" by (simp add: sort_caps_def)
  have "mset (map fst (sort_caps caps)) = mset (map fst caps)" by (simp add: sort_caps_def)
  then show "distinct (map fst (sort_caps caps)) = distinct (map fst caps)" by (rule mset_eq_imp_distinct_iff)
qed

lemma placing_bfd: "placing now r0 is caps r \<Longrightarrow> placing now r0 [] [] (snd (bfd_place m is caps pd r))"
proof (induction m "is" caps pd r rule: bfd_place.induct)
  case (3 m i "is" u cap caps pd r)
  let ?req = "required_tokens (objs r) i"
  have dist: "distinct (map fst ((u, cap) # caps))"
    using "3.prems" by (simp add: placing_def caps_real_def)
  let ?c = "if BUFFER_PER_PROGRAM < cap - ?req then sort_caps ((u, cap - ?req) # caps) else caps"
  consider "cap < m" | "\<not> cap < m" "cap < ?req" | "\<not> cap < m" "\<not> cap < ?req" by blast
  then show ?case
  proof cases
    case 1
    with "3.prems" show ?thesis by (simp add: placing_def caps_real_def)
  next
    case 2
    have "placing now r0 is ((u, cap) # caps) r" using "3.prems" by (simp add: placing_def)
    with "3.IH"(1) [OF refl] 2 show ?thesis by simp
  next
    case 3
    have "placing now r0 is ?c (take_and_resume i u r)"
      by (rule placing_step [OF "3.prems", of u cap]) (use 3 dist in \<open>force split: if_splits\<close>)+
    with "3.IH"(2) [OF refl] 3 show ?thesis by (simp add: Let_def)
  qed
qed (auto simp: placing_def caps_real_def)

lemma removed_index:
  assumes "distinct (map fst caps)" "idx < length caps" "caps ! idx = (u, c)"
  shows "distinct (map fst (take idx caps @ drop (Suc idx) caps))"
    "(v, d) \<in> set (take idx caps @ drop (Suc idx) caps) \<Longrightarrow> v \<noteq> u \<and> (v, d) \<in> set caps"
    "distinct (map fst (caps[idx := (u, c')]))"
    "(v, d) \<in> set (caps[idx := (u, c')]) \<Longrightarrow> (v \<noteq> u \<and> (v, d) \<in> set caps) \<or> (v = u \<and> d = c')"
proof -
  have split: "caps = take idx caps @ (u, c) # drop (Suc idx) caps"
    using assms(2,3) by (metis id_take_nth_drop)
  with assms(1) have d: "distinct (map fst (take idx caps @ (u, c) # drop (Suc idx) caps))" by metis
  then show "distinct (map fst (take idx caps @ drop (Suc idx) caps))" by auto
  show a: "(v, d) \<in> set (take idx caps @ drop (Suc idx) caps) \<Longrightarrow> v \<noteq> u \<and> (v, d) \<in> set caps" for v d
    using d by (subst split) (force simp del: append_take_drop_id)
  have up: "caps[idx := (u, c')] = take idx caps @ (u, c') # drop (Suc idx) caps"
    using assms(2) by (simp add: upd_conv_take_nth_drop)
  from d show "distinct (map fst (caps[idx := (u, c')]))" unfolding up by simp
  show "(v, d) \<in> set (caps[idx := (u, c')]) \<Longrightarrow> (v \<noteq> u \<and> (v, d) \<in> set caps) \<or> (v = u \<and> d = c')"
    unfolding up using a [of v d] by auto
qed

lemma specsys_choice_valid:
  assumes "specsys_choice p req caps = Some (idx, u, c)"
  shows "idx < length caps" "caps ! idx = (u, c)" "req \<le> c"
proof -
  let ?e = "filter (\<lambda>(idx, u, c). req \<le> c) (zip [0..<length caps] caps)"
  let ?f = "\<lambda>(idx, u, c). (time_cost p u, - c)"
  from assms have "?e \<noteq> []" "(idx, u, c) = hd (sort_key ?f ?e)"
    by (auto simp: specsys_choice_def Let_def split: if_splits)
  then have "(idx, u, c) \<in> set ?e" by (metis hd_sort_key_in)
  then show "idx < length caps" "caps ! idx = (u, c)" "req \<le> c"
    by (auto simp: in_set_zip)
qed

lemma placing_specsys: "placing now r0 is caps r \<Longrightarrow> placing now r0 [] [] (specsys_place is caps r)"
proof (induction "is" caps r rule: specsys_place.induct)
  case (2 i "is" caps r)
  let ?req = "required_tokens (objs r) i"
  have dist: "distinct (map fst caps)" using "2.prems" by (simp add: placing_def caps_real_def)
  have skip: "placing now r0 is caps r" using "2.prems" by (simp add: placing_def)
  show ?case
  proof (cases "caps = []")
    case True
    with "2.prems" show ?thesis by (simp add: placing_def caps_real_def)
  next
    case False
    show ?thesis
    proof (cases "specsys_choice (objs r i) ?req caps")
      case None
      with "2.IH"(1) [OF False refl None skip] False show ?thesis by simp
    next
      case (Some x)
      obtain idx u c where x: "x = (idx, u, c)" by (cases x) auto
      note ch = specsys_choice_valid [OF Some [unfolded x]]
      let ?c = "if BUFFER_PER_PROGRAM < c - ?req then caps[idx := (u, c - ?req)] else take idx caps @ drop (Suc idx) caps"
      have "placing now r0 is ?c (take_and_resume i u r)"
      proof (rule placing_step [OF "2.prems", of u c])
        show "(u, c) \<in> set caps" using ch by (metis nth_mem)
        show "distinct (map fst ?c)" using removed_index(1,3) [OF dist ch(1,2)] by simp
        show "(v \<noteq> u \<and> (v, d) \<in> set caps) \<or> (v = u \<and> d = c - ?req)" if "(v, d) \<in> set ?c" for v d
          using that removed_index(2,4) [OF dist ch(1,2), of v d] by (auto split: if_splits)
      qed (rule ch(3))
      with "2.IH"(2) [OF False refl Some] x Some False show ?thesis by (simp add: Let_def)
    qed
  qed
qed (auto simp: placing_def caps_real_def)


lemma collect_caps_mem: "(u, c) \<in> set (collect_caps now r) \<Longrightarrow>
    \<exists>b. (u, b) \<in> set (backends r) \<and> resume_capacity (objs r) now b = Fin c"
  by (auto simp: collect_caps_def List.map_filter_def split: if_splits ext.splits)

lemma distinct_map_filter_keys:
  assumes "distinct (map fst xs)" "\<And>x y. f x = Some y \<Longrightarrow> fst y = fst x"
  shows "distinct (map fst (List.map_filter f xs))"
  using assms(1)
proof (induction xs)
  case Nil
  then show ?case by (simp add: List.map_filter_def)
next
  case (Cons x xs)
  have "fst y \<in> set (map fst xs)" if "y \<in> set (List.map_filter f xs)" for y
    using that assms(2) by (force simp: List.map_filter_def)
  with Cons assms(2) [of x] show ?case
    by (auto simp: List.map_filter_def split: option.splits) force
qed

lemma caps_real_collect: "router_ok r \<Longrightarrow> caps_real now r (collect_caps now r)"
  unfolding caps_real_def
proof (intro conjI)
  assume ok: "router_ok r"
  show "distinct (map fst (collect_caps now r))"
    unfolding collect_caps_def
    by (rule distinct_map_filter_keys [OF router_okD(3) [OF ok]])
      (auto split: if_splits ext.splits)
  show "\<forall>(u, c) \<in> set (collect_caps now r). \<exists>b. map_of (backends r) u = Some b \<and> Fin c \<le> resume_capacity (objs r) now b"
    using collect_caps_mem [of _ _ now r] router_okD(3) [OF ok] by (fastforce dest: map_of_is_SomeI)
qed

lemma placing_start:
  assumes "router_ok r" "weights_ok now r" "distinct is" "set is \<subseteq> set (resumable now r)"
    "caps_real now r caps"
  shows "placing now r is caps r"
  using assms resumable_claimable [OF assms(1), of now]
  by (auto simp: placing_def no_worse_def)

lemma placing_greedy:
  assumes "router_ok r" "weights_ok now r"
  shows "placing now r [] [] (snd (greedy_resume now r))"
proof -
  let ?chosen = "sort_key (\<lambda>i. - total_tokens (objs r i)) (resumable now r)"
  have "caps_real now r (sort_caps (collect_caps now r))"
    using caps_real_collect [OF assms(1), of now] by (simp add: caps_real_def)
  then have "placing now r ?chosen (sort_caps (collect_caps now r)) r"
    using resumable_claimable(1) [OF assms(1)] by (intro placing_start [OF assms]) simp_all
  moreover have "placing now r [] [] r"
    by (rule placing_start [OF assms]) (simp_all add: caps_real_def)
  ultimately show ?thesis by (simp add: greedy_resume_def Let_def placing_bfd)
qed

lemma placing_greedy_specsys:
  assumes "router_ok r" "weights_ok now r"
  shows "placing now r [] [] (greedy_resume_specsys now r)"
  unfolding greedy_resume_specsys_def
  by (rule placing_specsys, rule placing_start [OF assms])
    (simp_all add: resumable_claimable(1) assms caps_real_collect)

section \<open>A sample router\<close>

definition sample_client :: backend_client where
  "sample_client = VLLMClient ((mclient_init ''u'')\<lparr>mc_cache_config := Some \<lparr>block_size = 16, num_gpu_blocks = 100\<rparr>\<rparr>)"

definition sample_paused :: program where
  "sample_paused = (program_defaults ''p'' ''t'')\<lparr>state := PAUSED, status := REASONING, step_count := 1,
     total_tokens := 300, waiting_event := Some 0\<rparr>"

definition sample_router :: router where
  "sample_router = \<lparr>acting_token_weight = 1, backends = [(''u'', backend_init ''u'' 1 sample_client False)],
     programs = [(''p'', 0)],
     global_waiting_queue = [(''p'', \<lparr>pi_program_id = ''p'', pi_total_tokens = 300, paused_at = 0,
        pi_origin_backend = None, pi_step_count = 1\<rparr>)],
     objs = (\<lambda>_. program_defaults [] [])(0 := sample_paused), next_obj = 1,
     events = (\<lambda>_. False), next_event = 1, profile_enabled = False, scheduling_enabled = True,
     scheduler_policy = ''original'', dynamic_sd_enabled = True, sd_switch_threshold = 64,
     sd_enable_threshold = 48, sd_enabled_by_backend = [(''u'', None)],
     sd_projected_load_by_backend = [(''u'', None)], sd_resumed_by_backend = [(''u'', 0)],
     remaining_step_prediction_enabled = False, char_to_token_ratio = 5, ratio_initialized = False,
     weight_sync_active = False, weight_sync_event = True, weight_sync_watchdog = False,
     step_map = step_map_init\<rparr>"

lemma sample_router_ok: "router_ok sample_router"
  by (simp add: router_ok_def sample_router_def program_ok_def paused_ok_def sample_paused_def
      program_defaults_def backend_ok_def backend_init_def registered_def marks_ok_def events_distinct_def
      split: if_splits)

lemma sample_weights_ok: "weights_ok 0 sample_router"
  by (simp add: weights_ok_def sample_router_def weight_ok_def sample_paused_def program_defaults_def
      backend_init_def split: if_splits)

section \<open>Properties\<close>

text \<open>C13: Resuming respects the capacity: after a greedy resume every backend either has at least
  the remaining capacity it had before, or still has remaining capacity of at least zero, in the
  measure the resume logic reads (with or without decay of acting tokens). Acting tokens have a
  weight between 0 and 1, token counts are not negative and no program became ACTING in the
  future.\<close>

theorem greedy_resume_within_capacity:
  assumes "router_ok r" "weights_ok now r" "map_of (backends r) u = Some b"
  shows "\<exists>b'. map_of (backends (snd (greedy_resume now r))) u = Some b' \<and>
    (resume_capacity (objs r) now b \<le> resume_capacity (objs (snd (greedy_resume now r))) now b' \<or>
     Fin 0 \<le> resume_capacity (objs (snd (greedy_resume now r))) now b')"
  using placing_greedy [OF assms(1,2)] assms(3) unfolding placing_def no_worse_def by blast

lemma sample_backend_lookup: "map_of (backends sample_router) ''u'' = Some (backend_init ''u'' 1 sample_client False)"
  by (simp add: sample_router_def)

theorem greedy_resume_within_capacity_witness:
  "\<exists>b'. map_of (backends (snd (greedy_resume 0 sample_router))) ''u'' = Some b' \<and>
    (resume_capacity (objs sample_router) 0 (backend_init ''u'' 1 sample_client False)
       \<le> resume_capacity (objs (snd (greedy_resume 0 sample_router))) 0 b' \<or>
     Fin 0 \<le> resume_capacity (objs (snd (greedy_resume 0 sample_router))) 0 b')"
  by (rule greedy_resume_within_capacity [OF sample_router_ok sample_weights_ok sample_backend_lookup])

end
