(* ===== verification/HandlerInv.thy ===== *)
theory HandlerInv
  imports Capacity
begin

text \<open>
  The operations of the request handlers keep the three books consistent: creating a program, the
  segments before a request, the accounting after it, the forced resume after a timeout, and the
  release of a program.
\<close>

section \<open>Placement without regard to weights\<close>

definition books :: "router \<Rightarrow> oid list \<Rightarrow> (string \<times> int) list \<Rightarrow> router \<Rightarrow> bool" where
  "books r0 is caps r \<longleftrightarrow> router_ok r0 \<and> router_ok r \<and> evolves r0 r \<and> distinct is \<and>
     (\<forall>i \<in> set is. claimable r i) \<and> caps_ok r caps"

lemma books_step:
  assumes "books r0 (i # is) caps r" "u \<in> set (map fst caps)" "set (map fst caps') \<subseteq> set (map fst caps)"
  shows "books r0 is caps' (take_and_resume i u r)"
proof -
  from assms(1,2) obtain b where b: "map_of (backends r) u = Some b"
    by (auto simp: books_def caps_ok_def)
  from assms(1) have ok0: "router_ok r0" and ok: "router_ok r" and i: "claimable r i" and ev: "evolves r0 r"
    by (simp_all add: books_def)
  note after = router_ok_after [OF ok i b] claimable_after [OF ok i b] backends_after [OF ok i b]
  have "caps_ok (take_and_resume i u r) caps'"
    unfolding caps_ok_def
  proof
    fix v assume "v \<in> set (map fst caps')"
    with assms(3) have "v \<in> set (map fst caps)" by blast
    with assms(1) have "map_of (backends r) v \<noteq> None" unfolding books_def caps_ok_def by blast
    then show "map_of (backends (take_and_resume i u r)) v \<noteq> None" by (simp only: after(3) not_False_eq_True)
  qed
  moreover have "evolves r (take_and_resume i u r)"
    by (rule take_and_resume_resumed [OF ok i b]) (rule evolves_resumed)
  then have "evolves r0 (take_and_resume i u r)" by (rule evolves_trans [OF ev _ ok0])
  ultimately show ?thesis using assms(1) after(1,2) by (auto simp: books_def)
qed

lemma books_bfd: "books r0 is caps r \<Longrightarrow> router_ok (snd (bfd_place m is caps pd r)) \<and> evolves r0 (snd (bfd_place m is caps pd r))"
proof (induction m "is" caps pd r rule: bfd_place.induct)
  case (3 m i "is" u cap caps pd r)
  let ?req = "required_tokens (objs r) i"
  let ?c = "if BUFFER_PER_PROGRAM < cap - ?req then sort_caps ((u, cap - ?req) # caps) else caps"
  have skip: "books r0 is ((u, cap) # caps) r" using "3.prems" by (simp add: books_def)
  have "books r0 is ?c (take_and_resume i u r)"
    by (rule books_step [OF "3.prems"]) auto
  with "3.IH"(2) [OF refl] "3.IH"(1) [OF refl _ _ skip] "3.prems" show ?case
    by (auto simp: Let_def books_def)
qed (auto simp: books_def)

lemma caps_ok_collect: "router_ok r \<Longrightarrow> caps_ok r (collect_caps now r)"
  using caps_real_collect [of r now] by (fastforce simp: caps_real_def caps_ok_def)

lemma greedy_resume_evolves: "router_ok r \<Longrightarrow> router_ok (snd (greedy_resume now r)) \<and> evolves r (snd (greedy_resume now r))"
proof -
  assume ok: "router_ok r"
  have "books r (sort_key (\<lambda>i. - total_tokens (objs r i)) (resumable now r)) (sort_caps (collect_caps now r)) r"
    using resumable_claimable [OF ok, of now] caps_ok_collect [OF ok, of now] ok
    by (simp add: books_def caps_ok_def)
  from books_bfd [OF this] ok show ?thesis by (simp add: greedy_resume_def Let_def)
qed

section \<open>Creating a program\<close>

lemma router_ok_add_program:
  assumes ok: "router_ok r" and new: "map_of (programs r) pid = None"
    and p: "program_id p = pid" "step_count p = 0" "state p = ACTIVE" "waiting_event p = None"
      "backend_url p = None" "\<not> marked_for_pause p" "origin_backend p = None"
  shows "router_ok (r\<lparr>objs := (objs r)(next_obj r := p), next_obj := Suc (next_obj r),
    programs := AList.update pid (next_obj r) (programs r)\<rparr>)"
proof -
  let ?r = "r\<lparr>objs := (objs r)(next_obj r := p), next_obj := Suc (next_obj r),
    programs := AList.update pid (next_obj r) (programs r)\<rparr>"
  have fresh: "j \<noteq> next_obj r" if "map_of (programs r) q = Some j" for q j
    using program_okD(1) [OF router_okD(5) [OF ok that]] by simp
  have nq: "map_of (global_waiting_queue r) pid = None"
    using router_okD(6) [OF ok, of pid] new by blast
  have regs: "registered ?r u q j \<longleftrightarrow> registered r u q j" for u q j
    using fresh new p(5) by (auto simp: registered_def)
  have progs: "program_ok ?r q j" if "map_of (programs ?r) q = Some j" for q j
  proof (cases "q = pid")
    case True
    with that p nq show ?thesis by (simp add: program_ok_def active_ok_def)
  next
    case False
    with that have t: "map_of (programs r) q = Some j" by simp
    from router_okD(5) [OF ok t] show ?thesis
      by (rule program_ok_other) (use fresh [OF t] in simp_all)
  qed
  have marks: "marks_ok ?r"
    unfolding marks_ok_def
  proof (intro allI impI)
    fix j assume "marked_for_pause (objs ?r j)"
    with p(6) have "j \<noteq> next_obj r" "marked_for_pause (objs r j)" by (auto split: if_splits)
    with router_okD(8) [OF ok] show "status (objs ?r j) = REASONING \<and> (\<exists>q u. registered ?r u q j)"
      unfolding marks_ok_def regs by simp
  qed
  have dist: "events_distinct ?r"
    unfolding events_distinct_def
  proof (intro allI impI)
    fix q j q' k e
    assume t: "map_of (programs ?r) q = Some j" "map_of (programs ?r) q' = Some k"
      and w: "waiting_event (objs ?r j) = Some e" "waiting_event (objs ?r k) = Some e"
    from w p(4) have ne: "j \<noteq> next_obj r" "k \<noteq> next_obj r" by auto
    with t have "map_of (programs r) q = Some j" "map_of (programs r) q' = Some k"
      by (auto split: if_splits)
    with w ne router_okD(9) [OF ok] show "j = k" unfolding events_distinct_def by simp
  qed
  show ?thesis
    by (rule router_okI)
      (use router_okD(1-4,6,7) [OF ok] progs marks dist regs in \<open>auto simp: backend_ok_def\<close>)
qed

lemma refresh_core: "same_core p (refresh_metadata ag plan p)" "status (refresh_metadata ag plan p) = status p"
  "marked_for_pause (refresh_metadata ag plan p) = marked_for_pause p"
  by (auto simp: same_core_def refresh_metadata_def Let_def split: option.split)

section \<open>Quiet changes\<close>

text \<open>A change is quiet when it concerns none of the fields the books depend on.\<close>

definition quiet :: "router \<Rightarrow> router \<Rightarrow> bool" where
  "quiet r r' \<longleftrightarrow> scheduling_enabled r' = scheduling_enabled r \<and> programs r' = programs r \<and>
     backends r' = backends r \<and> global_waiting_queue r' = global_waiting_queue r \<and>
     next_obj r' = next_obj r \<and> events r' = events r \<and> next_event r' = next_event r \<and> same_sync r r' \<and>
     (\<forall>j. same_core (objs r j) (objs r' j) \<and> status (objs r' j) = status (objs r j) \<and>
        marked_for_pause (objs r' j) = marked_for_pause (objs r j))"

lemma same_core_refl [simp]: "same_core p p"
  by (simp add: same_core_def)

lemma same_core_trans: "same_core p q \<Longrightarrow> same_core q s \<Longrightarrow> same_core p s"
  by (auto simp: same_core_def)

lemma quiet_refl [simp]: "quiet r r"
  by (simp add: quiet_def same_sync_def)

lemma quiet_trans: "quiet r s \<Longrightarrow> quiet s t \<Longrightarrow> quiet r t"
  unfolding quiet_def by (metis same_core_trans same_sync_trans)

lemma quiet_upd_obj:
  "same_core (objs r i) (f (objs r i)) \<Longrightarrow> status (f (objs r i)) = status (objs r i) \<Longrightarrow>
   marked_for_pause (f (objs r i)) = marked_for_pause (objs r i) \<Longrightarrow> quiet r (upd_obj i f r)"
  by (simp add: quiet_def same_sync_def)

lemma quiet_fields [simp]:
  "quiet r (r\<lparr>step_map := m\<rparr>)" "quiet r (r\<lparr>char_to_token_ratio := x, ratio_initialized := b\<rparr>)"
  "quiet r (r\<lparr>char_to_token_ratio := x\<rparr>)"
  by (simp_all add: quiet_def same_sync_def)

lemma router_ok_quiet:
  assumes ok: "router_ok r" and q: "quiet r r'"
  shows "router_ok r'"
proof -
  note v = q [unfolded quiet_def]
  from v have sc: "same_core (objs r j) (objs r' j)" for j by blast
  have reg: "registered r' = registered r"
    using sc v by (simp add: registered_def same_core_def fun_eq_iff)
  have p: "program_ok r' pid j" if t: "map_of (programs r) pid = Some j" for pid j
  proof -
    have eq: "programs r' = programs r" "backends r' = backends r" "global_waiting_queue r' = global_waiting_queue r"
      "next_obj r' = next_obj r" "events r' = events r" "next_event r' = next_event r" using v by auto
    from sc [of j] have c: "program_id (objs r' j) = program_id (objs r j)" "state (objs r' j) = state (objs r j)"
      "backend_url (objs r' j) = backend_url (objs r j)" "origin_backend (objs r' j) = origin_backend (objs r j)"
      "waiting_event (objs r' j) = waiting_event (objs r j)" "step_count (objs r j) \<le> step_count (objs r' j)"
      by (simp_all add: same_core_def)
    have "active_ok r' pid (objs r' j)" if "active_ok r pid (objs r j)"
      using that c by (auto simp: active_ok_def eq)
    moreover have "paused_ok r' pid (objs r' j)" if "paused_ok r pid (objs r j)"
      using that c by (auto simp: paused_ok_def eq)
    ultimately show ?thesis
      using router_okD(5) [OF ok t] c by (auto simp: program_ok_def eq split: program_state.splits)
  qed
  have "marks_ok r'"
    using router_okD(8) [OF ok] v by (simp add: marks_ok_def reg)
  moreover have "events_distinct r'"
    using router_okD(9) [OF ok] sc v by (simp add: events_distinct_def same_core_def)
  ultimately show ?thesis
    using ok p v by (simp add: router_ok_def backend_ok_def reg)
qed

lemma observe_prefix_core: "observe_prefix tx payload k p = Inr (b, pv, p') \<Longrightarrow>
    same_core p p' \<and> status p' = status p \<and> marked_for_pause p' = marked_for_pause p \<and> step_count p' = step_count p"
  by (auto simp: observe_prefix_def same_core_def Let_def ebind_Inr_iff split: if_splits)

lemma quiet_upd_const:
  "same_core (objs r i) p \<Longrightarrow> status p = status (objs r i) \<Longrightarrow>
   marked_for_pause p = marked_for_pause (objs r i) \<Longrightarrow> quiet r (upd_obj i (\<lambda>_. p) r)"
  by (simp add: quiet_def same_sync_def)

lemma predict_quiet: "quiet r (snd (predict_on_arrival tx i payload is_new now r))"
proof -
  let ?k = "nat (max 0 (step_count (objs r i) - 1))"
  show ?thesis
  proof (cases "observe_prefix tx payload ?k (objs r i)")
    case (Inl e)
    then show ?thesis by (simp add: predict_on_arrival_def Let_def)
  next
    case (Inr x)
    obtain b pv p1 where x: "x = (b, pv, p1)" by (cases x) auto
    note core = observe_prefix_core [OF Inr [unfolded x]]
    have up: "quiet r (upd_obj i (\<lambda>_. p1\<lparr>predicted_remaining_steps := s, predicted_remaining_time := t,
        last_arrived_time := a\<rparr>) r)" for s t a
      by (rule quiet_upd_const) (use core in \<open>simp_all add: same_core_def\<close>)
    from up have up': "quiet r (upd_obj i (\<lambda>_. p1\<lparr>predicted_remaining_steps := s, predicted_remaining_time := t,
        last_arrived_time := a\<rparr>) (r\<lparr>step_map := m\<rparr>))" for s t a m
      by (simp add: quiet_def)
    have norm: "p1\<lparr>predicted_remaining_steps := s\<rparr>
        = p1\<lparr>predicted_remaining_steps := s, predicted_remaining_time := predicted_remaining_time p1, last_arrived_time := last_arrived_time p1\<rparr>"
      "p1\<lparr>predicted_remaining_steps := s, predicted_remaining_time := t\<rparr>
        = p1\<lparr>predicted_remaining_steps := s, predicted_remaining_time := t, last_arrived_time := last_arrived_time p1\<rparr>"
      "p1\<lparr>predicted_remaining_steps := s, last_arrived_time := a\<rparr>
        = p1\<lparr>predicted_remaining_steps := s, predicted_remaining_time := predicted_remaining_time p1, last_arrived_time := a\<rparr>"
      for s t a by simp_all
    have up1: "quiet r (upd_obj i (\<lambda>_. p1\<lparr>predicted_remaining_steps := s\<rparr>) r)"
      "quiet r (upd_obj i (\<lambda>_. p1\<lparr>predicted_remaining_steps := s, predicted_remaining_time := t\<rparr>) r)"
      "quiet r (upd_obj i (\<lambda>_. p1\<lparr>predicted_remaining_steps := s, last_arrived_time := a\<rparr>) r)"
      "quiet r (upd_obj i (\<lambda>_. p1\<lparr>predicted_remaining_steps := s, last_arrived_time := a\<rparr>) (r\<lparr>step_map := m\<rparr>))" for s t a m
      by (subst norm, rule up up')+
    show ?thesis
      using Inr x by (auto simp: predict_on_arrival_def Let_def up up' up1 split: option.split)
  qed
qed


section \<open>Getting a program\<close>

lemma quiet_evolves: "quiet r r' \<Longrightarrow> evolves r r'"
  by (auto simp: quiet_def evolves_def awaits_def same_core_def)

lemma quiet_refresh: "quiet r (upd_obj i (refresh_metadata ag plan) r)"
  by (rule quiet_upd_obj) (simp_all add: refresh_core)

lemma get_or_create_ok:
  assumes ok: "router_ok r" and g: "get_or_create_program pid tid steps ag plan r = (i, r')"
  shows "router_ok r' \<and> evolves r r' \<and> map_of (programs r') pid = Some i"
proof (cases "map_of (programs r) pid")
  case (Some j)
  with g have "i = j" "r' = upd_obj i (refresh_metadata ag plan) r"
    by (auto simp: get_or_create_program_def)
  with Some quiet_refresh router_ok_quiet [OF ok] show ?thesis by (auto intro: quiet_evolves)
next
  case None
  let ?p = "new_program pid tid steps ag plan (profile_enabled r)"
  let ?r = "r\<lparr>objs := (objs r)(next_obj r := ?p), next_obj := Suc (next_obj r),
    programs := AList.update pid (next_obj r) (programs r)\<rparr>"
  have ok': "router_ok ?r"
    by (rule router_ok_add_program [OF ok None]) (simp_all add: new_program_def program_defaults_def)
  have "j < next_obj r" if "map_of (programs r) q = Some j" for q j
    using program_okD(1) [OF router_okD(5) [OF ok that]] .
  then have ev: "evolves r ?r"
    using None by (fastforce simp: evolves_def awaits_def same_sync_def)
  have r': "r' = upd_obj i (refresh_metadata ag plan) ?r" and i: "i = next_obj r"
    using None g by (auto simp: get_or_create_program_def Let_def)
  have q: "quiet ?r r'" unfolding r' by (rule quiet_refresh)
  from router_ok_quiet [OF ok' q] evolves_trans [OF ev quiet_evolves [OF q] ok] i q show ?thesis
    by (simp add: quiet_def)
qed


section \<open>Before a request\<close>

text \<open>A table program that is not paused and has made a step.\<close>

definition ready :: "router \<Rightarrow> string \<Rightarrow> oid \<Rightarrow> bool" where
  "ready r pid i \<longleftrightarrow> map_of (programs r) pid = Some i \<and> waiting_event (objs r i) = None \<and>
     1 \<le> step_count (objs r i)"

lemma ready_active: "router_ok r \<Longrightarrow> ready r pid i \<Longrightarrow> state (objs r i) = ACTIVE \<and> origin_backend (objs r i) = None
    \<and> map_of (global_waiting_queue r) pid = None \<and> program_id (objs r i) = pid"
  using router_okD(5) [of r pid i]
  by (auto simp: ready_def program_ok_def active_ok_def paused_ok_def split: program_state.splits)

lemma set_reasoning_ok:
  assumes "router_ok r"
  shows "router_ok (upd_obj i set_reasoning r) \<and> evolves r (upd_obj i set_reasoning r)"
  using router_ok_upd_obj [where f = set_reasoning, OF assms, of i] evolves_upd_obj [of set_reasoning r i]
  by (simp add: set_reasoning_def same_core_def)

text \<open>The outcome of a segment: the router stays consistent, and a handler that suspends waits for an
  event of its own program, which is in the pool.\<close>

definition segment_ok :: "string \<Rightarrow> oid \<Rightarrow> router \<Rightarrow> before_outcome \<times> router \<Rightarrow> bool" where
  "segment_ok pid i r res \<longleftrightarrow> router_ok (snd res) \<and> evolves r (snd res) \<and>
     (\<forall>e k. fst res = Suspended e k \<longrightarrow> k \<noteq> FallThrough True \<and> awaits (snd res) pid i e)"

lemma before_step3_ok: "router_ok r \<Longrightarrow> segment_ok pid i r (before_step3 i r)"
  using set_reasoning_ok [of r i] by (simp add: segment_ok_def before_step3_def)

lemma first_min_mem: "first_min cost ok bs best m = Some u \<Longrightarrow> best = Some u \<or> u \<in> set (map fst bs)"
  by (induction bs arbitrary: best m) (auto split: if_splits)

lemma first_min_best: "\<exists>v. first_min cost ok bs (Some u) m = Some v"
  by (induction bs arbitrary: u m) auto

lemma first_min_found: "ub \<in> set bs \<Longrightarrow> ok (snd ub) \<Longrightarrow> first_min cost ok bs None Infty \<noteq> None"
  by (induction bs) (auto simp: first_min_best)

lemma select_valid: "select_backend_for_new_program r n = Some u \<Longrightarrow> map_of (backends r) u \<noteq> None"
  using first_min_mem [of _ _ "backends r" None Infty u]
  by (auto simp: select_backend_for_new_program_def Let_def map_of_eq_None_iff split: if_splits)

lemma select_default_valid:
  assumes "select_backend_for_new_program_default r = Inr u"
  shows "map_of (backends r) u \<noteq> None"
proof -
  have "get_default_backend r = Inr u \<Longrightarrow> u \<in> fst ` set (backends r)"
    by (auto simp: get_default_backend_def split: list.splits)
  with assms first_min_mem [of _ _ "backends r" None Infty u] show ?thesis
    by (auto simp: select_backend_for_new_program_default_def map_of_eq_None_iff split: option.splits)
qed

lemma direct_assign_ok:
  assumes ok: "router_ok r" and rd: "ready r pid i" and none: "backend_url (objs r i) = None"
    and u: "map_of (backends r) u = Some b"
  defines "s \<equiv> upd_backend u (register_program pid i) (upd_obj i (\<lambda>p. p\<lparr>backend_url := Some u\<rparr>) r)"
  shows "router_ok s \<and> evolves r s"
proof -
  from rd have t: "map_of (programs r) pid = Some i" by (simp add: ready_def)
  note act = ready_active [OF ok rd]
  have um: "\<not> marked_for_pause (objs r i)" using paused_unmarked [OF ok t] none by simp
  have "router_ok s"
  proof (rule router_ok_place [OF ok t disjI2 [OF none] u, of "(objs r i)\<lparr>backend_url := Some u\<rparr>"])
    show "map_of (backends s) = (map_of (backends r))(u \<mapsto> register_program pid i b)"
      "map fst (backends s) = map fst (backends r)"
      by (simp_all add: s_def u del: map_of_eq_Some_iff)
  qed (use act um rd router_okD(4) [OF ok] in \<open>auto simp: s_def ready_def fun_upd_idem_iff\<close>)
  moreover have "evolves r s"
    by (rule evolves_object [of _ _ i "(objs r i)\<lparr>backend_url := Some u\<rparr>"]) (auto simp: s_def)
  ultimately show ?thesis ..
qed

text \<open>A new program is queued.\<close>

lemma enqueue_ok:
  fixes now :: real
  assumes ok: "router_ok r" and rd: "ready r pid i" and none: "backend_url (objs r i) = None"
  defines "s \<equiv> add_to_global_waiting_queue pid i None now
    (upd_obj i (\<lambda>p. p\<lparr>waiting_event := Some (next_event r), state := PAUSED\<rparr>) (snd (new_event r)))"
  shows "router_ok s \<and> evolves r s \<and> awaits s pid i (next_event r)"
proof -
  from rd have t: "map_of (programs r) pid = Some i" by (simp add: ready_def)
  note act = ready_active [OF ok rd]
  have um: "\<not> marked_for_pause (objs r i)" using paused_unmarked [OF ok t] none by simp
  let ?q = "(objs r i)\<lparr>waiting_event := Some (next_event r), state := PAUSED\<rparr>"
  have o: "objs s = (objs r)(i := ?q)" by (simp add: s_def)
  have "router_ok s"
  proof (rule router_ok_suspend [OF ok t _ _ _ _ _ _ _ _ _ _ o])
    fix w c' assume "map_of (backends s) w = Some c'"
    then have c: "map_of (backends r) w = Some c'" by (simp add: s_def)
    from router_okD(7) [OF ok c] none t show "\<exists>c. map_of (backends r) w = Some c \<and> url c' = url c \<and>
        dict_wf (be_programs c') \<and>
        (\<forall>p j. map_of (be_programs c') p = Some j \<longleftrightarrow> map_of (be_programs c) p = Some j \<and> p \<noteq> pid)"
      using c by (auto simp: backend_ok_def registered_def)
  qed (use act um rd none router_okD(4) [OF ok] in
      \<open>auto simp: s_def ready_def new_event_def add_to_global_waiting_queue_def\<close>)
  moreover have "evolves r s"
    by (rule evolves_object [OF o]) (use act in \<open>auto simp: s_def new_event_def add_to_global_waiting_queue_def same_sync_def\<close>)
  moreover have "awaits s pid i (next_event r)"
    using t by (simp add: awaits_def o) (simp add: s_def)
  ultimately show ?thesis by blast
qed


lemma segment_trans:
  assumes "segment_ok pid i s res" "evolves r s" "router_ok r"
  shows "segment_ok pid i r res"
  using assms evolves_trans [OF assms(2) _ assms(3)] by (simp add: segment_ok_def)

lemma before_step2_ok:
  assumes ok: "router_ok r" and new: "is_new \<Longrightarrow> ready r pid i"
  shows "segment_ok pid i r (before_step2 pid i is_new now r)"
proof (cases "is_new \<and> backend_url (objs r i) = None")
  case False
  then have "before_step2 pid i is_new now r = before_step3 i r" by (auto simp: before_step2_def)
  with before_step3_ok [OF ok] show ?thesis by simp
next
  case True
  with new have rd: "ready r pid i" and none: "backend_url (objs r i) = None" by simp_all
  show ?thesis
  proof (cases "select_backend_for_new_program r (total_tokens (objs r i))")
    case (Some u)
    from select_valid [OF Some] obtain b where b: "map_of (backends r) u = Some b" by blast
    let ?s = "upd_backend u (register_program pid i) (upd_obj i (\<lambda>p. p\<lparr>backend_url := Some u\<rparr>) r)"
    from direct_assign_ok [OF ok rd none b] have s: "router_ok ?s" "evolves r ?s" by simp_all
    from set_reasoning_ok [OF s(1), of i] evolves_trans [OF s(2) _ ok] True Some show ?thesis
      by (simp add: before_step2_def segment_ok_def)
  next
    case None
    let ?r = "upd_obj i set_reasoning r"
    have r: "router_ok ?r" "evolves r ?r" using set_reasoning_ok [OF ok, of i] by simp_all
    have rd': "ready ?r pid i" "backend_url (objs ?r i) = None"
      using rd none by (simp_all add: ready_def set_reasoning_def)
    note q = enqueue_ok [OF r(1) rd', of now]
    have "before_step2 pid i is_new now r = (Suspended (next_event ?r) ReturnTrue,
        add_to_global_waiting_queue pid i None now
          (upd_obj i (\<lambda>p. p\<lparr>waiting_event := Some (next_event ?r), state := PAUSED\<rparr>) (snd (new_event ?r))))"
      using True None by (simp add: before_step2_def Let_def new_event_def case_prod_beta)
    with q evolves_trans [OF r(2) _ ok] show ?thesis by (simp add: segment_ok_def)
  qed
qed

lemma before_request_ok:
  assumes ok: "router_ok r" and t: "map_of (programs r) pid = Some i"
  shows "case before_request tx pid i payload now r of
    (Inl e, r') \<Rightarrow> router_ok r' \<and> evolves r r' | (Inr out, r') \<Rightarrow> segment_ok pid i r (out, r')"
proof -
  let ?r1 = "upd_obj i (\<lambda>p. p\<lparr>step_count := step_count p + 1\<rparr>) r"
  have q1: "quiet r ?r1" by (rule quiet_upd_obj) (simp_all add: same_core_def)
  have step: "1 \<le> step_count (objs ?r1 i)"
    using program_okD(3) [OF router_okD(5) [OF ok t]] by simp
  define is_new where "is_new \<longleftrightarrow> step_count (objs ?r1 i) = 1"
  obtain res r2 where p: "(if remaining_step_prediction_enabled ?r1
      then predict_on_arrival tx i payload is_new now ?r1 else (Inr (), ?r1)) = (res, r2)" by fastforce
  have q2: "quiet ?r1 r2"
    using p predict_quiet [of ?r1 tx i payload is_new now] by (auto split: if_splits)
  show ?thesis
  proof (cases res)
    case (Inl e)
    have "before_request tx pid i payload now r = (Inl e, r2)"
      using p Inl by (simp add: before_request_def Let_def is_new_def split: if_splits)
    with router_ok_quiet [OF ok] quiet_evolves quiet_trans [OF q1 q2] show ?thesis by simp
  next
    case (Inr x)
    let ?r3 = "upd_obj i (estimate_tokens tx payload (char_to_token_ratio r2)) r2"
    have "quiet r2 ?r3" by (rule quiet_upd_obj) (simp_all add: same_core_def estimate_tokens_def Let_def)
    with q2 have q13: "quiet ?r1 ?r3" by (rule quiet_trans)
    with q1 have q3: "quiet r ?r3" by (rule quiet_trans)
    have ok3: "router_ok ?r3" and ev3: "evolves r ?r3"
      using router_ok_quiet [OF ok q3] quiet_evolves [OF q3] by simp_all
    have eq: "before_request tx pid i payload now r = map_prod Inr id (before_step1 pid i is_new now ?r3)"
      unfolding before_request_def Let_def is_new_def [symmetric] p
      using Inr router_okD(1) [OF ok3] by simp
    have t3: "map_of (programs ?r3) pid = Some i" using q3 t by (simp add: quiet_def)
    from q13 have "same_core (objs ?r1 i) (objs ?r3 i)" unfolding quiet_def by blast
    with step have st3: "1 \<le> step_count (objs ?r3 i)" "step_count (objs ?r1 i) \<le> step_count (objs ?r3 i)"
      unfolding same_core_def by linarith+
    have "segment_ok pid i ?r3 (before_step1 pid i is_new now ?r3)"
    proof (cases "waiting_event (objs ?r3 i)")
      case None
      with t3 st3 have "ready ?r3 pid i" by (simp add: ready_def)
      with before_step2_ok [OF ok3] None show ?thesis by (simp add: before_step1_def)
    next
      case (Some e)
      have w: "waiting_event (objs r i) = Some e"
        using q3 Some unfolding quiet_def same_core_def by metis
      from router_okD(5) [OF ok t] w have st: "state (objs r i) = PAUSED" "1 \<le> step_count (objs r i)"
        by (auto simp: program_ok_def active_ok_def paused_ok_def split: program_state.splits)
      then have "\<not> is_new" by (simp add: is_new_def)
      moreover have "state (objs ?r3 i) = PAUSED" using q3 st unfolding quiet_def same_core_def by metis
      ultimately show ?thesis
        using Some set_reasoning_ok [OF ok3, of i] t3
        by (simp add: before_step1_def segment_ok_def awaits_def set_reasoning_def)
    qed
    from segment_trans [OF this ev3 ok] show ?thesis
      by (simp add: eq map_prod_def case_prod_beta)
  qed
qed

lemma before_continue_ok:
  "router_ok r \<Longrightarrow> k \<noteq> FallThrough True \<Longrightarrow> segment_ok pid i r (before_continue pid i k now r)"
  using before_step2_ok [of r False pid i now]
  by (cases k) (auto simp: before_continue_def segment_ok_def)


section \<open>The forced resume\<close>

lemma timed_out_resumed:
  assumes ok: "router_ok r" and ne: "backends r \<noteq> []"
    and t: "map_of (programs r) pid = Some i" and st: "state (objs r i) = PAUSED"
  obtains r' u b e where "wait_timed_out pid r = (Inr (), r')" "map_of (backends r) u = Some b"
    "waiting_event (objs r i) = Some e" "resumed pid i u e r r'"
proof -
  from paused_iff_queued [OF ok t] st obtain info where q: "map_of (global_waiting_queue r) pid = Some info" by auto
  from router_okD(5) [OF ok t] st have pid: "program_id (objs r i) = pid" and pk: "paused_ok r pid (objs r i)"
    by (auto simp: program_ok_def)
  obtain e where e: "waiting_event (objs r i) = Some e" using paused_event [OF ok t st] by blast
  let ?r = "remove_from_global_waiting_queue pid r"
  have claim: "claim_specific_paused pid r = (Some i, ?r)"
    using q t st by (simp add: claim_specific_paused_def remove_from_global_waiting_queue_def)
  show thesis
  proof (cases "origin_backend (objs r i)")
    case None
    have "select_backend_for_new_program_default ?r = select_backend_for_new_program_default r"
      by (simp add: select_backend_for_new_program_default_def get_default_backend_def load_of_def
          remove_from_global_waiting_queue_def split: option.split list.split)
    moreover have "\<exists>u. select_backend_for_new_program_default r = Inr u"
      using ne by (auto simp: select_backend_for_new_program_default_def get_default_backend_def
          split: option.split list.split)
    then obtain u where u: "select_backend_for_new_program_default r = Inr u" ..
    moreover note u
    moreover from select_default_valid [OF u] obtain b where b: "map_of (backends r) u = Some b" by blast
    ultimately have "wait_timed_out pid r = (Inr (), resume_program i (Some u) ?r)"
      using claim None by (simp add: wait_timed_out_def remove_from_global_waiting_queue_def)
    from that [OF this b e resume_resumed [OF st b e pid]] show thesis .
  next
    case (Some u)
    with pk obtain b where b: "map_of (backends r) u = Some b" by (auto simp: paused_ok_def)
    with router_okD(7) [OF ok b] have "u \<noteq> []" by (simp add: backend_ok_def)
    with Some b have "resume_program i None ?r = resume_program i (Some u) ?r"
      by (simp add: resume_program_def remove_from_global_waiting_queue_def)
    with claim Some have "wait_timed_out pid r = (Inr (), resume_program i (Some u) ?r)"
      by (simp add: wait_timed_out_def remove_from_global_waiting_queue_def)
    from that [OF this b e resume_resumed [OF st b e pid]] show thesis .
  qed
qed

lemma timed_out_ok:
  assumes ok: "router_ok r" and ne: "backends r \<noteq> []"
  shows "router_ok (snd (wait_timed_out pid r)) \<and> evolves r (snd (wait_timed_out pid r))"
proof (cases "map_of (global_waiting_queue r) pid")
  case None
  then show ?thesis using ok by (simp add: wait_timed_out_def claim_specific_paused_def)
next
  case (Some info)
  from router_okD(6) [OF ok, of pid] Some obtain i where t: "map_of (programs r) pid = Some i" by auto
  with paused_iff_queued [OF ok t] Some have st: "state (objs r i) = PAUSED" by simp
  show ?thesis
    by (rule timed_out_resumed [OF ok ne t st])
      (simp add: router_ok_resumed [OF ok t st] evolves_resumed [OF st])
qed

section \<open>After a request\<close>

lemma update_ratio_frame [simp]:
  "objs (update_ratio n c r) = objs r" "backends (update_ratio n c r) = backends r"
  "programs (update_ratio n c r) = programs r" "same_sync r (update_ratio n c r)"
  by (simp_all add: update_ratio_def Let_def same_sync_def)

text \<open>The handler of a request holds the object under its own name.\<close>

lemma after_request_ok:
  assumes ok: "router_ok r" and p: "program_id (objs r i) = pid"
  shows "router_ok (after_request pid i toks prompt now r) \<and> evolves r (after_request pid i toks prompt now r)"
proof (cases "marked_for_pause (objs r i)")
  case False
  let ?f = "\<lambda>p. p\<lparr>status := ACTING, acting_since := Some now, total_tokens := toks\<rparr>"
  have "same_core (objs r i) (?f (objs r i))" by (simp add: same_core_def)
  then have u: "router_ok (upd_obj i ?f r)" by (rule router_ok_upd_obj [OF ok]) (simp add: False)
  have "quiet (upd_obj i ?f r) (after_request pid i toks prompt now r)"
    using False by (simp add: after_request_def update_ratio_def quiet_def Let_def same_sync_def)
  with router_ok_quiet [OF u this] evolves_upd_obj [of ?f r i] evolves_trans [OF _ quiet_evolves ok]
  show ?thesis by simp
next
  case True
  with router_okD(8) [OF ok] obtain q u where reg: "registered r u q i" unfolding marks_ok_def by blast
  with p registered_ok [OF ok reg] have q: "q = pid" by metis
  note reg = reg [unfolded q]
  from registered_ok [OF ok reg] obtain b where b: "map_of (backends r) u = Some b" "backend_url (objs r i) = Some u"
    by metis
  let ?f = "\<lambda>p. p\<lparr>status := ACTING, acting_since := Some now, total_tokens := toks, marked_for_pause := False\<rparr>"
  let ?s = "upd_backend u (release_marked_tokens toks) (upd_obj i ?f r)"
  have f: "same_core (objs r i) (?f (objs r i))" by (simp add: same_core_def)
  then have "router_ok (upd_obj i ?f r)" by (rule router_ok_upd_obj [OF ok]) simp
  then have s: "router_ok ?s" by (rule router_ok_upd_backend) (simp_all add: release_marked_tokens_def)
  have ev: "evolves r ?s"
    by (rule evolves_object [of _ _ i "?f (objs r i)"]) simp_all
  let ?r1 = "upd_obj i (\<lambda>p. p\<lparr>status := ACTING, acting_since := Some now\<rparr>) r"
  let ?r3 = "upd_obj i (\<lambda>p. p\<lparr>total_tokens := toks\<rparr>) (update_ratio prompt (context_len (objs r i)) ?r1)"
  let ?q = "upd_backend u (release_marked_tokens toks) (upd_obj i (\<lambda>p. p\<lparr>marked_for_pause := False\<rparr>) ?r3)"
  have q1: "quiet ?s ?q"
    by (simp add: quiet_def upd_backend_def update_ratio_def Let_def b same_sync_def)
  have eq: "after_request pid i toks prompt now r = pause_program pid i now ?q"
    using True b by (simp add: after_request_def clear_mark_and_pause_def Let_def)
  have okq: "router_ok ?q" by (rule router_ok_quiet [OF s q1])
  have regq: "registered ?q u pid i"
    using reg by (simp add: registered_def)
  have "\<not> marked_for_pause (objs ?q i)" by simp
  then have "router_ok (pause_program pid i now ?q)" by (rule router_ok_pause [OF okq regq])
  moreover have "evolves r ?q" by (rule evolves_trans [OF ev quiet_evolves [OF q1] ok])
  then have "evolves r (pause_program pid i now ?q)"
    by (rule evolves_trans [OF _ evolves_pause [OF okq regq] ok])
  ultimately show ?thesis unfolding eq ..
qed

lemma quiet_streaming: "quiet r (tokens_streaming i d r)"
  unfolding tokens_streaming_def by (rule quiet_upd_obj) (simp_all add: same_core_def)

end
