(* ===== verification/Control.thy ===== *)
theory Control
  imports Capacity
begin

text \<open>
  What the control loop does to the fleet: the effect of enforcing the capacity, the order in which
  programs are resumed, and the reconciliation of speculative decoding.
\<close>

section \<open>Enforcing the capacity\<close>

lemma pause_until_safe_post:
  "over_capacity (pause_until_safe u now r) u \<Longrightarrow>
   get_acting_programs_sorted (pause_until_safe u now r) u True = [] \<and>
   get_reasoning_programs_sorted (pause_until_safe u now r) u True = []"
proof (induction u now r rule: pause_until_safe.induct)
  case (1 u now r)
  note step = pause_until_safe.simps [of u now r]
  show ?case
  proof (cases "over_capacity r u")
    case False
    with "1.prems" step show ?thesis by simp
  next
    case over: True
    show ?thesis
    proof (cases "get_acting_programs_sorted r u True")
      case (Cons a rest)
      obtain pid i where a: "a = (pid, i)" by fastforce
      with step over Cons have eq: "pause_until_safe u now r = pause_until_safe u now (pause_program pid i now r)"
        by simp
      from "1.IH"(2) [OF _ Cons a [symmetric]] over "1.prems" show ?thesis unfolding eq by blast
    next
      case Nil
      show ?thesis
      proof (cases "get_reasoning_programs_sorted r u True")
        case Nil
        with step over \<open>get_acting_programs_sorted r u True = []\<close> show ?thesis by simp
      next
        case (Cons a rest)
        obtain pid i where a: "a = (pid, i)" by fastforce
        with step over Nil Cons
        have eq: "pause_until_safe u now r = pause_until_safe u now (mark_program_for_pause pid i r)"
          by simp
        from "1.IH"(1) [OF _ Nil Cons a [symmetric]] over "1.prems" show ?thesis unfolding eq by blast
      qed
    qed
  qed
qed

lemma acting_sorted_Nil: "get_acting_programs_sorted r u True = [] \<longleftrightarrow>
    (\<forall>(pid, i) \<in> set (programs r). backend_url (objs r i) = Some u \<longrightarrow> status (objs r i) \<noteq> ACTING)"
  by (auto simp: get_acting_programs_sorted_def Let_def filter_empty_conv)

lemma reasoning_sorted_Nil: "get_reasoning_programs_sorted r u True = [] \<longleftrightarrow>
    (\<forall>(pid, i) \<in> set (programs r). backend_url (objs r i) = Some u \<longrightarrow> status (objs r i) = REASONING
       \<longrightarrow> marked_for_pause (objs r i))"
  by (auto simp: get_reasoning_programs_sorted_def Let_def filter_empty_conv)

lemma pause_until_safe_programs: "programs (pause_until_safe u now r) = programs r"
  by (rule pause_until_safe_invariant [where P = "\<lambda>r'. programs r' = programs r"])
    (auto simp: over_capacity_def pause_program_valid(2) mark_program_valid(2) split: option.splits)

text \<open>C28: Enforcing the capacity of a backend ends with the backend within its capacity, or with
  nothing left to do there: no ACTING program on it and every REASONING program marked.\<close>

theorem pause_until_safe_result:
  "\<not> over_capacity (pause_until_safe u now r) u \<or>
   (\<forall>(pid, i) \<in> set (programs r). backend_url (objs (pause_until_safe u now r) i) = Some u \<longrightarrow>
      status (objs (pause_until_safe u now r) i) = REASONING \<and>
      marked_for_pause (objs (pause_until_safe u now r) i))"
proof (cases "over_capacity (pause_until_safe u now r) u")
  case True
  have "status p \<noteq> ACTING \<longleftrightarrow> status p = REASONING" for p by (cases "status p") auto
  with pause_until_safe_post [OF True] show ?thesis
    unfolding acting_sorted_Nil reasoning_sorted_Nil pause_until_safe_programs by fastforce
qed simp

definition only_marked :: "program \<Rightarrow> program \<Rightarrow> bool" where
  "only_marked p q \<longleftrightarrow> q = p \<or> q = p\<lparr>marked_for_pause := True\<rparr>"

lemma only_marked_refl [simp]: "only_marked p p"
  by (simp add: only_marked_def)

lemma only_marked_trans: "only_marked p q \<Longrightarrow> only_marked p (q\<lparr>marked_for_pause := True\<rparr>)"
  by (auto simp: only_marked_def)

lemma pause_until_safe_reasoning_fixed:
  assumes "status (objs r i) = REASONING"
  shows "only_marked (objs r i) (objs (pause_until_safe u now r) i)"
proof (rule pause_until_safe_invariant [where P = "\<lambda>r'. only_marked (objs r i) (objs r' i)"])
  fix s pid j
  assume P: "only_marked (objs r i) (objs s i)" and o: "over_capacity s u"
    and b: "backend_url (objs s j) = Some u"
  from o obtain c where c: "map_of (backends s) u = Some c" by (auto simp: over_capacity_def split: option.splits)
  show "only_marked (objs r i) (objs (mark_program_for_pause pid j s) i)"
    using P only_marked_trans [OF P] by (auto simp: mark_program_valid [OF b c])
  assume "status (objs s j) = ACTING"
  with P assms have "j \<noteq> i" by (auto simp: only_marked_def)
  then show "only_marked (objs r i) (objs (pause_program pid j now s) i)"
    using P by (simp add: pause_program_valid [OF b c])
qed simp

text \<open>A program that is REASONING is never taken off its backend by the control loop's capacity
  check: at most its mark is set, every other field is unchanged.\<close>

theorem enforce_capacity_spares_reasoning:
  assumes "status (objs r i) = REASONING"
  shows "objs (enforce_capacity now r) i = objs r i \<or>
    objs (enforce_capacity now r) i = (objs r i)\<lparr>marked_for_pause := True\<rparr>"
proof -
  define step where "step = (\<lambda>u s. case map_of (backends s) u of None \<Rightarrow> s
    | Some b \<Rightarrow> if cache_capacity b \<noteq> None \<and> remaining_capacity (objs s) b < Fin 0
                then pause_until_safe u now s else s)"
  have one: "only_marked (objs r i) (objs (step u s) i)" if P: "only_marked (objs r i) (objs s i)" for u s
  proof -
    from P assms have "status (objs s i) = REASONING" by (auto simp: only_marked_def)
    from pause_until_safe_reasoning_fixed [OF this, of u now] P
    show ?thesis by (auto simp: step_def only_marked_def split: option.split)
  qed
  have "only_marked (objs r i) (objs (fold step us s) i)" if "only_marked (objs r i) (objs s i)" for us s
    using that by (induction us arbitrary: s) (simp_all add: one)
  from this [of r] show ?thesis by (simp add: only_marked_def enforce_capacity_def step_def)
qed


definition sample_busy :: router where
  "sample_busy = sample_router\<lparr>
     backends := [(''u'', (backend_init ''u'' 1 sample_client False)\<lparr>be_programs := [(''p'', 0), (''q'', 1)]\<rparr>)],
     programs := [(''p'', 0), (''q'', 1)], global_waiting_queue := [], next_obj := 2,
     objs := (\<lambda>_. program_defaults [] [])
       (0 := (program_defaults ''p'' ''t'')\<lparr>status := REASONING, step_count := 1, total_tokens := 1500, backend_url := Some ''u''\<rparr>,
        1 := (program_defaults ''q'' ''t'')\<lparr>status := REASONING, step_count := 1, total_tokens := 900, backend_url := Some ''u''\<rparr>)\<rparr>"

lemmas sample_evals = sample_busy_def sample_router_def backend_init_def sample_client_def mclient_init_def
  program_defaults_def cache_capacity_def vllm_total_tokens_capacity_def remaining_capacity_def
  active_program_tokens_def reasoning_program_tokens_def acting_program_tokens_def programs_with_def
  active_program_count_def BUFFER_PER_PROGRAM_def

lemma sample_busy_over: "over_capacity sample_busy ''u''"
  by (simp add: over_capacity_def sample_evals Let_def)

theorem enforce_capacity_spares_reasoning_witness:
  "objs (enforce_capacity 0 sample_busy) 0 = objs sample_busy 0 \<or>
    objs (enforce_capacity 0 sample_busy) 0 = (objs sample_busy 0)\<lparr>marked_for_pause := True\<rparr>"
  by (rule enforce_capacity_spares_reasoning) (simp add: sample_busy_def program_defaults_def)

section \<open>Marking does not count\<close>

text \<open>The comment in the loop says that a marked program has been accounted for; the loop's test
  does not read \<open>future_paused_tokens\<close>, so a mark leaves the test as it was.\<close>

lemma mark_keeps_over_capacity:
  assumes "backend_url (objs r i) = Some u" "over_capacity r u"
  shows "over_capacity (mark_program_for_pause pid i r) u"
proof -
  from assms(2) obtain b where b: "map_of (backends r) u = Some b" by (auto simp: over_capacity_def split: option.splits)
  let ?o = "(objs r)(i := (objs r i)\<lparr>marked_for_pause := True\<rparr>)"
  have sum: "sum_list (map total_tokens (filter (\<lambda>p. status p = s) (map ?o ps)))
      = sum_list (map total_tokens (filter (\<lambda>p. status p = s) (map (objs r) ps)))" for s ps
    by (induction ps) auto
  have "active_program_tokens ?o (b\<lparr>future_paused_tokens := n\<rparr>) = active_program_tokens (objs r) b" for n
    by (simp add: active_program_tokens_def reasoning_program_tokens_def acting_program_tokens_def
        programs_with_def sum del: map_map fun_upd_apply)
  then have "remaining_capacity ?o (b\<lparr>future_paused_tokens := n\<rparr>) = remaining_capacity (objs r) b" for n
    by (simp add: remaining_capacity_def cache_capacity_def active_program_count_def split: option.split)
  then show ?thesis using assms(2) b by (simp add: over_capacity_def mark_program_valid [OF assms(1) b])
qed

lemma overload_marks:
  assumes over: "over_capacity r u"
    and none: "\<forall>(pid, i) \<in> set (programs r). backend_url (objs r i) = Some u \<longrightarrow> status (objs r i) = REASONING"
    and i: "(pid, i) \<in> set (programs r)" "backend_url (objs r i) = Some u"
  shows "marked_for_pause (objs (pause_until_safe u now r) i) \<and> over_capacity (pause_until_safe u now r) u"
proof -
  let ?P = "\<lambda>s. over_capacity s u \<and> programs s = programs r \<and>
    (\<forall>j. only_marked (objs r j) (objs s j))"
  have "?P (pause_until_safe u now r)"
  proof (rule pause_until_safe_invariant [where P = ?P])
    fix s p j
    assume P: "?P s" and o: "over_capacity s u" and t: "(p, j) \<in> set (programs s)"
      and b: "backend_url (objs s j) = Some u"
    { assume "status (objs s j) = ACTING"
      moreover from P have m: "only_marked (objs r j) (objs s j)" by blast
      with b have "backend_url (objs r j) = Some u" by (auto simp: only_marked_def)
      with none P t have "status (objs r j) = REASONING" by auto
      with m have "status (objs s j) = REASONING" by (auto simp: only_marked_def)
      ultimately have False by simp
      then show "?P (pause_program p j now s)" .. }
    from o obtain c where c: "map_of (backends s) u = Some c" by (auto simp: over_capacity_def split: option.splits)
    show "?P (mark_program_for_pause p j s)"
      using P mark_keeps_over_capacity [OF b o]
      by (auto simp: mark_program_valid [OF b c] intro: only_marked_trans)
  qed (simp add: over)
  then have o: "over_capacity (pause_until_safe u now r) u"
    and m: "only_marked (objs r i) (objs (pause_until_safe u now r) i)" by blast+
  from m i(2) have "backend_url (objs (pause_until_safe u now r) i) = Some u" by (auto simp: only_marked_def)
  with pause_until_safe_post [OF o] i(1) have "marked_for_pause (objs (pause_until_safe u now r) i)"
    unfolding acting_sorted_Nil reasoning_sorted_Nil pause_until_safe_programs
    by (cases "status (objs (pause_until_safe u now r) i)") auto
  with o show ?thesis by blast
qed

text \<open>C27: Once a backend is over capacity and has no ACTING program, the capacity check marks every
  REASONING program on it for a pause, however small the overload: marking a program never brings
  the loop closer to its end.\<close>

theorem overload_marks_every_reasoning_program:
  assumes over: "over_capacity r u"
    and none: "\<forall>(pid, i) \<in> set (programs r). backend_url (objs r i) = Some u \<longrightarrow> status (objs r i) = REASONING"
    and i: "(pid, i) \<in> set (programs r)" "backend_url (objs r i) = Some u"
  shows "marked_for_pause (objs (pause_until_safe u now r) i) \<and> over_capacity (pause_until_safe u now r) u"
  using assms by (rule overload_marks)


theorem overload_marks_every_reasoning_program_witness:
  "marked_for_pause (objs (pause_until_safe ''u'' 0 sample_busy) 1) \<and>
   over_capacity (pause_until_safe ''u'' 0 sample_busy) ''u''"
  by (rule overload_marks_every_reasoning_program [of sample_busy "''u''" "''q''" 1 0])
    (auto simp: sample_busy_over, auto simp: sample_busy_def program_defaults_def)

theorem pause_until_safe_result_witness:
  "marked_for_pause (objs (pause_until_safe ''u'' 0 sample_busy) 0)"
proof -
  have "over_capacity (pause_until_safe ''u'' 0 sample_busy) ''u'' \<and>
      (''p'', 0) \<in> set (programs sample_busy) \<and> backend_url (objs (pause_until_safe ''u'' 0 sample_busy) 0) = Some ''u''"
  proof -
    have "only_marked (objs sample_busy 0) (objs (pause_until_safe ''u'' 0 sample_busy) 0)"
      by (rule pause_until_safe_reasoning_fixed) (simp add: sample_busy_def program_defaults_def)
    then have "backend_url (objs (pause_until_safe ''u'' 0 sample_busy) 0) = Some ''u''"
      by (auto simp: only_marked_def sample_busy_def program_defaults_def)
    moreover have "over_capacity (pause_until_safe ''u'' 0 sample_busy) ''u''"
      by (rule conjunct2 [OF overload_marks [of sample_busy "''u''" "''q''" 1 0]])
        (auto simp: sample_busy_over, auto simp: sample_busy_def program_defaults_def)
    ultimately show ?thesis by (simp add: sample_busy_def)
  qed
  then show ?thesis using pause_until_safe_result [of "''u''" 0 sample_busy] by auto
qed

section \<open>The order of resuming\<close>

definition original_class :: "program \<Rightarrow> nat" where
  "original_class p = (if step_count p = 1 then 1 else if status p = REASONING then 0 else 2)"

lemma sorted_append_classes:
  assumes "sorted_wrt R xs" "sorted_wrt R ys" "\<And>x y. x \<in> set xs \<Longrightarrow> y \<in> set ys \<Longrightarrow> R x y"
  shows "sorted_wrt R (xs @ ys)"
  using assms by (simp add: sorted_wrt_append)

lemma sorted_wrt_sort_key: "sorted_wrt (\<lambda>x y. f x \<le> f y) (sort_key f xs)"
  using sorted_sort_key [of f xs] by (simp add: sorted_wrt_map)

lemma original_sorted:
  "sorted_wrt (\<lambda>i j. (original_class (st i), total_tokens (st i)) \<le> (original_class (st j), total_tokens (st j)))
     (candidates_original st paused)"
proof -
  have grp: "sorted_wrt (\<lambda>i j. (original_class (st i), total_tokens (st i)) \<le> (original_class (st j), total_tokens (st j)))
      (sort_key (\<lambda>i. total_tokens (st i)) is)" if "\<forall>i \<in> set is. original_class (st i) = k" for "is" k
  proof (rule sorted_wrt_mono_rel [OF _ sorted_wrt_sort_key])
    fix x y assume "x \<in> set (sort_key (\<lambda>i. total_tokens (st i)) is)" "y \<in> set (sort_key (\<lambda>i. total_tokens (st i)) is)"
      "total_tokens (st x) \<le> total_tokens (st y)"
    with that show "(original_class (st x), total_tokens (st x)) \<le> (original_class (st y), total_tokens (st y))"
      by (simp add: less_eq_prod_def)
  qed
  show ?thesis
    unfolding candidates_original_def Let_def
    by (intro sorted_append_classes grp [of _ 0] grp [of _ 1] grp [of _ 2])
      (auto simp: original_class_def less_eq_prod_def)
qed

definition original_key :: "program \<Rightarrow> nat \<times> int" where
  "original_key p = (original_class p, total_tokens p)"

text \<open>\<open>ranks_before policy p q\<close>: the policy may rank \<open>p\<close> before \<open>q\<close>.\<close>

definition ranks_before :: "string \<Rightarrow> program \<Rightarrow> program \<Rightarrow> bool" where
  "ranks_before policy p q =
     (if policy = ''remaining_steps'' then remaining_steps_priority p \<le> remaining_steps_priority q
      else if policy = ''predicted_remaining_steps'' then
        (if usable_prediction p then
           usable_prediction q \<longrightarrow> predicted_remaining_steps_priority p \<le> predicted_remaining_steps_priority q
         else \<not> usable_prediction q \<and> original_key p \<le> original_key q)
      else original_key p \<le> original_key q)"

lemma set_candidates_original: "set (candidates_original st paused) = set (map entry_oid paused)"
  by (rule mset_eq_setD [OF mset_candidates_original])

lemma predicted_sorted:
  "sorted_wrt (\<lambda>i j. ranks_before ''predicted_remaining_steps'' (st i) (st j))
     (candidates_predicted_remaining_steps st paused)"
  unfolding candidates_predicted_remaining_steps_def Let_def
proof (rule sorted_append_classes)
  let ?R = "\<lambda>i j. ranks_before ''predicted_remaining_steps'' (st i) (st j)"
  let ?key = "\<lambda>i. predicted_remaining_steps_priority (st i)"
  show "sorted_wrt ?R (sort_key ?key (filter (\<lambda>i. usable_prediction (st i)) (map entry_oid paused)))"
    by (rule sorted_wrt_mono_rel [OF _ sorted_wrt_sort_key]) (simp add: ranks_before_def)
  show "sorted_wrt ?R (candidates_original st (filter (\<lambda>(pid, i, info). \<not> usable_prediction (st i)) paused))"
    by (rule sorted_wrt_mono_rel [OF _ original_sorted])
      (auto simp: ranks_before_def set_candidates_original original_key_def)
qed (auto simp: ranks_before_def set_candidates_original)

lemma candidates_sorted:
  "sorted_wrt (\<lambda>i j. ranks_before (scheduler_policy r) (objs r i) (objs r j)) (get_resume_candidates r paused)"
  using original_sorted [of "objs r" paused] predicted_sorted [of "objs r" paused]
  by (auto simp: get_resume_candidates_def ranks_before_def original_key_def candidates_remaining_steps_def
      sorted_wrt_sort_key)

text \<open>C19: Every resume policy ranks each paused program of the table exactly once, and in its
  documented order: \<open>remaining_steps\<close> by remaining steps, steps done and name;
  \<open>predicted_remaining_steps\<close> with all programs that have a usable prediction, in order of it, before
  the others; \<open>original\<close> with continuing REASONING programs first, then new ones, then ACTING ones,
  each group by tokens.\<close>

theorem resume_order:
  assumes "router_ok r"
  shows "distinct (get_resume_candidates r (get_paused_programs_sorted r True)) \<and>
    set (get_resume_candidates r (get_paused_programs_sorted r True))
      = {i. \<exists>pid. map_of (programs r) pid = Some i \<and> state (objs r i) = PAUSED} \<and>
    sorted_wrt (\<lambda>i j. ranks_before (scheduler_policy r) (objs r i) (objs r j))
      (get_resume_candidates r (get_paused_programs_sorted r True))"
  using candidates_claimable [OF assms, of True] candidates_sorted by (simp add: claimable_def)

theorem resume_order_witness:
  "distinct (get_resume_candidates sample_router (get_paused_programs_sorted sample_router True)) \<and>
    set (get_resume_candidates sample_router (get_paused_programs_sorted sample_router True))
      = {i. \<exists>pid. map_of (programs sample_router) pid = Some i \<and> state (objs sample_router i) = PAUSED} \<and>
    sorted_wrt (\<lambda>i j. ranks_before (scheduler_policy sample_router) (objs sample_router i) (objs sample_router j))
      (get_resume_candidates sample_router (get_paused_programs_sorted sample_router True))"
  by (rule resume_order [OF sample_router_ok])

section \<open>Reconciling speculative decoding\<close>

lemma sd_decisions_frame:
  "sd_enabled_by_backend (snd (sd_decisions res bs r)) = sd_enabled_by_backend r \<and>
   programs (snd (sd_decisions res bs r)) = programs r \<and> backends (snd (sd_decisions res bs r)) = backends r"
proof (induction bs arbitrary: r)
  case (Cons ub bs)
  obtain u b where "ub = (u, b)" by fastforce
  then show ?case by (simp add: Cons Let_def split: option.split prod.split)
qed simp

definition fresh_projection :: "(string, int) dict \<Rightarrow> string \<Rightarrow> backend \<Rightarrow> int option" where
  "fresh_projection res u b =
     (case metrics_num_requests b of
        None \<Rightarrow> None
      | Some (running, waiting) \<Rightarrow>
          if healthy b then Some (running + (case map_of res u of None \<Rightarrow> 0 | Some n \<Rightarrow> n)) else None)"

definition decision :: "router \<Rightarrow> (string, int) dict \<Rightarrow> string \<Rightarrow> backend \<Rightarrow> bool option" where
  "decision r res u b =
     (case fresh_projection res u b of
        None \<Rightarrow> None
      | Some n \<Rightarrow> dynamic_sd_target_state n (sd_enable_threshold r) (sd_switch_threshold r) (sd_state r u))"

lemma sd_decisions_eq:
  "fst (sd_decisions res bs r) = List.map_filter (\<lambda>(u, b). map_option (\<lambda>e. (u, e)) (decision r res u b)) bs"
proof (induction bs arbitrary: r)
  case Nil
  then show ?case by (simp add: List.map_filter_def)
next
  case (Cons ub bs)
  have same: "decision (r\<lparr>sd_projected_load_by_backend := x, sd_resumed_by_backend := y\<rparr>) = decision r" for x y
    by (simp add: decision_def sd_state_def fun_eq_iff split: option.split)
  obtain u b where "ub = (u, b)" by fastforce
  then show ?case
    by (simp add: Cons List.map_filter_def decision_def [of r res u b] fresh_projection_def Let_def same
        split: option.split prod.split)
qed


lemma set_backend_sd_state:
  "sd_state (set_backend_sd u e resp r) v = (if v = u \<and> sd_accepted resp then Some e else sd_state r v)"
  by (auto simp: set_backend_sd_def sd_state_def)

lemma apply_sd_state:
  "distinct (map fst ds) \<Longrightarrow> sd_state (apply_sd answers ds r) u =
     (case map_of ds u of Some e \<Rightarrow> if sd_accepted (answers u) then Some e else sd_state r u | None \<Rightarrow> sd_state r u)"
proof (induction ds arbitrary: r)
  case Nil
  then show ?case by (simp add: apply_sd_def)
next
  case (Cons d ds)
  obtain v e where d: "d = (v, e)" by fastforce
  have "apply_sd answers (d # ds) r = apply_sd answers ds (set_backend_sd v e (answers v) r)"
    by (simp add: apply_sd_def d)
  moreover have "map_of ds v = None" using Cons.prems d by (simp add: map_of_eq_None_iff)
  ultimately show ?case using Cons d by (auto simp: set_backend_sd_state split: option.split)
qed

lemma map_of_map_filter_keys:
  "distinct (map fst xs) \<Longrightarrow> map_of (List.map_filter (\<lambda>(u, b). map_option (\<lambda>e. (u, e)) (f u b)) xs) u
     = Option.bind (map_of xs u) (f u)"
proof (induction xs)
  case Nil
  then show ?case by (simp add: List.map_filter_def)
next
  case (Cons x xs)
  obtain v b where x: "x = (v, b)" by fastforce
  have "map_of xs v = None" using Cons.prems x by (simp add: map_of_eq_None_iff)
  with Cons x show ?case by (auto simp: List.map_filter_def split: option.split)
qed

text \<open>C20: Speculative decoding is switched with hysteresis, per backend: after the reconciliation the
  remembered state of a backend is off if its projected batch (running requests plus those just
  resumed onto it) has reached the switch threshold, on if it is at most the enable threshold, and
  unchanged in between; it is also unchanged if the backend is unhealthy, has no metrics, or does
  not confirm the change.\<close>

theorem dynamic_sd_reconciles:
  assumes "dict_wf (backends r)" "map_of (backends r) u = Some b"
  shows "sd_state (update_dynamic_sd answers res r) u =
    (case fresh_projection res u b of
       None \<Rightarrow> sd_state r u
     | Some n \<Rightarrow>
         if \<not> sd_accepted (answers u) then sd_state r u
         else if sd_switch_threshold r \<le> n then Some False
         else if n \<le> sd_enable_threshold r then Some True
         else sd_state r u)"
proof -
  let ?ds = "fst (sd_decisions res (backends r) r)" and ?r = "snd (sd_decisions res (backends r) r)"
  have "distinct (map fst ?ds)"
    unfolding sd_decisions_eq by (rule distinct_map_filter_keys [OF assms(1)]) auto
  then have "sd_state (update_dynamic_sd answers res r) u =
      (case map_of ?ds u of Some e \<Rightarrow> if sd_accepted (answers u) then Some e else sd_state ?r u | None \<Rightarrow> sd_state ?r u)"
    by (simp add: update_dynamic_sd_def case_prod_beta apply_sd_state)
  moreover have "map_of ?ds u = decision r res u b"
    by (simp add: sd_decisions_eq map_of_map_filter_keys [OF assms(1)] assms(2))
  moreover have "sd_state ?r u = sd_state r u"
    by (simp add: sd_state_def sd_decisions_frame)
  ultimately show ?thesis
    by (auto simp: decision_def dynamic_sd_target_state_def split: option.split)
qed

theorem dynamic_sd_reconciles_witness:
  "sd_state (update_dynamic_sd (\<lambda>_. Response 200 (Some (JObj [(''status'', JStr ''success'')]))) [] sample_router) ''u'' = None"
  using dynamic_sd_reconciles [OF router_okD(3) [OF sample_router_ok] sample_backend_lookup,
      of "\<lambda>_. Response 200 (Some (JObj [(''status'', JStr ''success'')]))" "[]"]
  by (simp add: fresh_projection_def metrics_num_requests_def backend_init_def sample_client_def
      mclient_init_def latest_metrics_def sd_state_def sample_router_def)

section \<open>Construction\<close>





end
