(* ===== verification/RouterSteps.thy ===== *)
theory RouterSteps
  imports HandlerInv
begin

text \<open>
  The router under concurrent request handlers: a step relation whose steps are the atomic segments
  of the handlers (\<open>chat_completions\<close> in \<open>scheduler/ThunderAgent/app.py\<close>), of the control loop and
  of the weight synchronisation, in any order; what holds in every reachable configuration.
\<close>

section \<open>Release\<close>

text \<open>What a release leaves of the other programs.\<close>

definition spares :: "string \<Rightarrow> router \<Rightarrow> router \<Rightarrow> bool" where
  "spares pid r r' \<longleftrightarrow> next_obj r' = next_obj r \<and> next_event r' = next_event r \<and>
     map fst (backends r') = map fst (backends r) \<and>
     (\<forall>e. events r e \<longrightarrow> events r' e) \<and> (\<forall>i. program_id (objs r' i) = program_id (objs r i)) \<and>
     (\<forall>p. p \<noteq> pid \<longrightarrow> map_of (programs r') p = map_of (programs r) p) \<and>
     (\<forall>p i e. awaits r p i e \<longrightarrow> awaits r' p i e \<or> events r' e)"

lemma router_ok_remove:
  assumes ok: "router_ok r" and t: "map_of (programs r) pid = Some i"
    and q: "program_id q = pid" "state q = TERMINATED" "\<not> marked_for_pause q"
    and v: "scheduling_enabled r' = scheduling_enabled r" "programs r' = AList.delete pid (programs r)"
      "objs r' = (objs r)(i := q)" "map fst (backends r') = map fst (backends r)"
      "next_obj r' = next_obj r" "next_event r' = next_event r" "dict_wf (global_waiting_queue r')"
      "map_of (global_waiting_queue r') = (map_of (global_waiting_queue r))(pid := None)"
      "\<And>e. waiting_event (objs r i) \<noteq> Some e \<Longrightarrow> events r' e = events r e"
    and bes: "\<And>w c'. map_of (backends r') w = Some c' \<Longrightarrow> \<exists>c. map_of (backends r) w = Some c \<and>
      url c' = url c \<and> dict_wf (be_programs c') \<and>
      (\<forall>p j. map_of (be_programs c') p = Some j \<longleftrightarrow> map_of (be_programs c) p = Some j \<and> p \<noteq> pid)"
  shows "router_ok r'"
proof -
  have dom: "map_of (backends r') w \<noteq> None \<longleftrightarrow> map_of (backends r) w \<noteq> None" for w
    by (metis map_of_eq_None_iff set_map v(4))
  have q_iff: "map_of (programs r) p = Some i \<longleftrightarrow> p = pid" for p using table_inj [OF ok t] t by blast
  have ne: "j \<noteq> i" if "map_of (programs r) p = Some j" "p \<noteq> pid" for p j
    using that q_iff by blast
  have regs: "registered r' w p j \<longleftrightarrow> registered r w p j \<and> p \<noteq> pid" for w p j
  proof (cases "p = pid")
    case True
    then show ?thesis by (simp add: registered_def v(2,3))
  next
    case False
    then show ?thesis using ne [of p j] by (auto simp: registered_def v(2,3))
  qed
  have progs: "program_ok r' p j" if tj: "map_of (programs r') p = Some j" for p j
  proof -
    from tj have p: "p \<noteq> pid" and t': "map_of (programs r) p = Some j" by (auto simp: v split: if_splits)
    have ev: "waiting_event (objs r i) \<noteq> Some e'" if "waiting_event (objs r j) = Some e'" for e'
      using router_okD(9) [OF ok] t t' that ne [OF t' p] unfolding events_distinct_def by metis
    from router_okD(5) [OF ok t'] show ?thesis
      by (rule program_ok_other) (use p ne [OF t' p] ev v dom in auto)
  qed
  have bes': "backend_ok r' w c" if "map_of (backends r') w = Some c" for w c
    using bes [OF that] router_okD(7) [OF ok, of w] by (auto simp: backend_ok_def regs)
  have marks: "marks_ok r'"
    unfolding marks_ok_def
  proof (intro allI impI)
    fix j assume m: "marked_for_pause (objs r' j)"
    with q have "j \<noteq> i" by (auto simp: v)
    with m v(3) router_okD(8) [OF ok] obtain p w where
      "status (objs r' j) = REASONING" and w: "registered r w p j"
      unfolding marks_ok_def by (metis fun_upd_other)
    moreover from w t \<open>j \<noteq> i\<close> have "p \<noteq> pid" by (auto simp: registered_def)
    ultimately show "status (objs r' j) = REASONING \<and> (\<exists>p w. registered r' w p j)" using regs by auto
  qed
  have dist: "events_distinct r'"
    unfolding events_distinct_def
  proof (intro allI impI)
    fix p j p' k e
    assume tt: "map_of (programs r') p = Some j" "map_of (programs r') p' = Some k"
      and w: "waiting_event (objs r' j) = Some e" "waiting_event (objs r' k) = Some e"
    from tt have "p \<noteq> pid" "p' \<noteq> pid" "map_of (programs r) p = Some j" "map_of (programs r) p' = Some k"
      by (auto simp: v split: if_splits)
    with w ne router_okD(9) [OF ok] show "j = k" unfolding events_distinct_def v(3) by (metis fun_upd_other)
  qed
  show ?thesis
  proof (rule router_okI)
    show "dict_wf (backends r')" using router_okD(3) [OF ok] by (simp only: v(4))
    show "map_of (programs r') p \<noteq> None" if "map_of (global_waiting_queue r') p \<noteq> None" for p
      using that router_okD(6) [OF ok, of p] by (auto simp: v split: if_splits)
  qed (use router_okD(1,2) [OF ok] progs bes' marks dist v in auto)
qed

lemma release_ok:
  assumes ok: "router_ok r"
  shows "router_ok (snd (release_program pid now r)) \<and> spares pid r (snd (release_program pid now r)) \<and>
    (\<forall>i e. awaits r pid i e \<longrightarrow> events (snd (release_program pid now r)) e)"
proof (cases "map_of (programs r) pid")
  case None
  then show ?thesis using ok by (simp add: release_program_def spares_def awaits_def)
next
  case (Some i)
  let ?r = "snd (release_program pid now r)" and ?p = "objs r i"
  let ?q = "?p\<lparr>marked_for_pause := False, state := TERMINATED\<rparr>"
  from program_okD [OF router_okD(5) [OF ok Some]] have pid: "program_id ?p = pid" by simp
  show ?thesis
  proof (cases "state ?p = PAUSED")
    case True
    obtain e where e: "waiting_event ?p = Some e" using paused_event [OF ok Some True] by blast
    have nb: "backend_url ?p = None" using router_okD(5) [OF ok Some] True by (simp add: program_ok_def paused_ok_def)
    have um: "\<not> marked_for_pause ?p" using paused_unmarked [OF ok Some] nb by simp
    have v: "scheduling_enabled ?r = scheduling_enabled r" "programs ?r = AList.delete pid (programs r)"
      "objs ?r = (objs r)(i := ?p\<lparr>state := TERMINATED\<rparr>)" "backends ?r = backends r" "next_obj ?r = next_obj r"
      "next_event ?r = next_event r" "global_waiting_queue ?r = AList.delete pid (global_waiting_queue r)"
      "events ?r = (events r)(e := True)"
      using Some True e nb
      by (simp_all add: release_program_def Let_def remove_from_global_waiting_queue_def set_event_def)
    have "router_ok ?r"
    proof (rule router_ok_remove [OF ok Some _ _ _ v(1,2,3)])
      fix w c' assume "map_of (backends ?r) w = Some c'"
      then have c: "map_of (backends r) w = Some c'" by (simp add: v)
      from router_okD(7) [OF ok c] nb Some show "\<exists>c. map_of (backends r) w = Some c \<and> url c' = url c \<and>
          dict_wf (be_programs c') \<and>
          (\<forall>p j. map_of (be_programs c') p = Some j \<longleftrightarrow> map_of (be_programs c) p = Some j \<and> p \<noteq> pid)"
        using c by (auto simp: backend_ok_def registered_def)
    qed (use pid um v e router_okD(4) [OF ok] in auto)
    moreover have "spares pid r ?r"
      using e Some by (auto simp: spares_def v awaits_def)
    moreover have "\<forall>j e'. awaits r pid j e' \<longrightarrow> events ?r e'"
      using e Some by (auto simp: v awaits_def)
    ultimately show ?thesis by blast
  next
    case False
    with router_okD(5) [OF ok Some] have act: "state ?p = ACTIVE" "active_ok r pid ?p"
      by (auto simp: program_ok_def split: program_state.splits)
    let ?u = "case backend_url ?p of Some u \<Rightarrow> if u \<noteq> [] \<and> map_of (backends r) u \<noteq> None then Some u else None | None \<Rightarrow> None"
    have u: "?u = backend_url ?p"
    proof (cases "backend_url ?p")
      case (Some u)
      with act(2) obtain b where "map_of (backends r) u = Some b" by (auto simp: active_ok_def)
      with router_okD(7) [OF ok this] Some show ?thesis by (simp add: backend_ok_def)
    qed simp
    have noev: "waiting_event ?p = None" "map_of (global_waiting_queue r) pid = None"
      using act(2) by (simp_all add: active_ok_def)
    have v: "scheduling_enabled ?r = scheduling_enabled r" "programs ?r = AList.delete pid (programs r)"
      "next_obj ?r = next_obj r" "next_event ?r = next_event r"
      "global_waiting_queue ?r = global_waiting_queue r" "events ?r = events r"
      "map fst (backends ?r) = map fst (backends r)"
      using Some act(1) by (simp_all add: release_program_def Let_def u split: option.split)
    have um: "\<not> marked_for_pause ?p" if "backend_url ?p = None"
      using paused_unmarked [OF ok Some] that by simp
    have o: "objs ?r = (objs r)(i := ?q)"
      using Some act(1) um by (cases "marked_for_pause ?p") (auto simp: release_program_def Let_def u split: option.split)
    have "router_ok ?r"
    proof (rule router_ok_remove [OF ok Some _ _ _ v(1,2) o v(7,3,4)])
      fix w c' assume c': "map_of (backends ?r) w = Some c'"
      show "\<exists>c. map_of (backends r) w = Some c \<and> url c' = url c \<and> dict_wf (be_programs c') \<and>
          (\<forall>p j. map_of (be_programs c') p = Some j \<longleftrightarrow> map_of (be_programs c) p = Some j \<and> p \<noteq> pid)"
      proof (cases "backend_url ?p = Some w")
        case True
        with act(2) obtain c where c: "map_of (backends r) w = Some c" by (auto simp: active_ok_def)
        have "be_programs c' = AList.delete pid (be_programs c) \<and> url c' = url c"
          using c' Some act(1) True c u
          by (auto simp: release_program_def Let_def release_marked_tokens_def split: if_splits)
        with c router_okD(7) [OF ok c] show ?thesis by (simp add: backend_ok_def)
      next
        case False
        then have c: "map_of (backends r) w = Some c'"
          using c' Some act(1) u
          by (auto simp: release_program_def Let_def split: if_splits option.splits)
        from router_okD(7) [OF ok c] False Some show ?thesis
          using c by (auto simp: backend_ok_def registered_def)
      qed
    qed (use pid v noev router_okD(4) [OF ok] in \<open>auto simp: fun_upd_idem\<close>)
    moreover have "spares pid r ?r"
      using Some act(1) by (auto simp: spares_def v o awaits_def)
    moreover have "\<forall>j e. awaits r pid j e \<longrightarrow> events ?r e"
      using Some act(1) by (simp add: awaits_def)
    ultimately show ?thesis by blast
  qed
qed


lemma release_sync [simp]:
  "weight_sync_active (snd (release_program pid now r)) = weight_sync_active r"
  "weight_sync_event (snd (release_program pid now r)) = weight_sync_event r"
  by (simp_all add: release_program_def Let_def split: option.split)

section \<open>The other segments\<close>

lemma map_of_map_values: "map_of (map (\<lambda>(u, b). (u, f u b)) xs) u = map_option (f u) (map_of xs u)"
  by (induction xs) auto

lemma fetch_all_ok:
  assumes ok: "router_ok r"
  shows "router_ok (fetch_all an r) \<and> evolves r (fetch_all an r)"
proof -
  have m: "map_of (backends (fetch_all an r)) u = map_option (be_fetch_metrics (an u)) (map_of (backends r) u)" for u
    by (simp add: fetch_all_def map_of_map_values)
  have k: "map fst (backends (fetch_all an r)) = map fst (backends r)" by (simp add: fetch_all_def case_prod_beta comp_def)
  have v: "programs (fetch_all an r) = programs r" "objs (fetch_all an r) = objs r"
    "global_waiting_queue (fetch_all an r) = global_waiting_queue r" "next_obj (fetch_all an r) = next_obj r"
    "next_event (fetch_all an r) = next_event r" "events (fetch_all an r) = events r"
    "scheduling_enabled (fetch_all an r) = scheduling_enabled r"
    by (simp_all add: fetch_all_def)
  have reg: "registered (fetch_all an r) = registered r" by (simp add: registered_def v fun_eq_iff)
  have "router_ok (fetch_all an r)"
  proof (rule router_okI)
    show "dict_wf (backends (fetch_all an r))" using router_okD(3) [OF ok] by (simp only: k)
    show "program_ok (fetch_all an r) pid i" if "map_of (programs (fetch_all an r)) pid = Some i" for pid i
    proof -
      from that have "program_ok r pid i" using router_okD(5) [OF ok] by (simp add: v)
      then show ?thesis by (rule program_ok_other) (simp_all add: v m)
    qed
    show "backend_ok (fetch_all an r) u b" if "map_of (backends (fetch_all an r)) u = Some b" for u b
      using that router_okD(7) [OF ok, of u] by (auto simp: m backend_ok_def reg be_fetch_metrics_def)
  qed (use router_okD [OF ok] in \<open>simp_all add: v marks_ok_def events_distinct_def reg\<close>)
  moreover have "evolves r (fetch_all an r)" by (simp add: evolves_def v k awaits_def) (simp add: fetch_all_def same_sync_def)
  ultimately show ?thesis ..
qed

lemma quiet_set_backend_sd: "quiet r (set_backend_sd u e resp r)"
  by (simp add: quiet_def set_backend_sd_def same_sync_def)

lemma quiet_apply_sd: "quiet r (apply_sd answers ds r)"
  unfolding apply_sd_def
proof (induction ds arbitrary: r)
  case (Cons d ds)
  obtain u e where "d = (u, e)" by fastforce
  then show ?case using quiet_trans [OF quiet_set_backend_sd Cons] by simp
qed simp

lemma quiet_sd_decisions: "quiet r (snd (sd_decisions res bs r))"
proof (induction bs arbitrary: r)
  case (Cons ub bs)
  obtain u b where ub: "ub = (u, b)" by fastforce
  have "quiet r (snd (sd_decisions res bs (r\<lparr>sd_projected_load_by_backend := x, sd_resumed_by_backend := y\<rparr>)))" for x y
    by (rule quiet_trans [OF _ Cons]) (simp add: quiet_def same_sync_def)
  with Cons ub show ?case by (simp add: Let_def split: option.split prod.split)
qed simp

lemma quiet_update_dynamic_sd: "quiet r (update_dynamic_sd answers res r)"
  unfolding update_dynamic_sd_def case_prod_beta Let_def
  by (rule quiet_trans [OF quiet_sd_decisions quiet_apply_sd])

lemma router_ok_weight_sync:
  assumes "router_ok r"
  shows "router_ok (begin_weight_sync r)" "router_ok (end_weight_sync r)" "router_ok (weight_sync_timeout r)"
  by (rule router_ok_frame [OF assms]; simp add: begin_weight_sync_def end_weight_sync_def weight_sync_timeout_def)+

section \<open>Handlers and steps\<close>

record request =
  rq_program_id :: string
  rq_type_id :: string
  rq_total_steps :: int
  rq_agent_type :: string
  rq_num_plan_steps :: "int option"
  rq_payload :: "(string, json) dict"

text \<open>A handler of \<open>chat_completions\<close> is blocked on the weight synchronisation (woken or not), waits for
  its program's event, or has forwarded its request to a backend.\<close>

datatype handler =
    BlockedOnSync bool string oid "(string, json) dict"
  | Waiting string oid nat resume_point
  | Forwarded string oid string

type_synonym config = "router \<times> handler list"

definition profile_upd :: "(profile_state \<Rightarrow> profile_state) \<Rightarrow> oid \<Rightarrow> router \<Rightarrow> router" where
  "profile_upd f i r = upd_obj i (\<lambda>p. p\<lparr>profile := map_option f (profile p)\<rparr>) r"

text \<open>After \<open>update_program_before_request\<close> has returned, whatever its value: the request is forwarded
  to the program's backend.\<close>

definition forward :: "string \<Rightarrow> oid \<Rightarrow> real \<Rightarrow> router \<Rightarrow> handler list \<times> router" where
  "forward pid i now r =
     (let r' = profile_upd (on_request_start now) i r
      in case get_backend_for_program r' pid of
           Inl e \<Rightarrow> ([], r')
         | Inr u \<Rightarrow> ([Forwarded pid i u], r'))"

definition settle :: "string \<Rightarrow> oid \<Rightarrow> real \<Rightarrow> before_outcome \<times> router \<Rightarrow> handler list \<times> router" where
  "settle pid i now res =
     (case fst res of
        Returned _ \<Rightarrow> forward pid i now (snd res)
      | Suspended e k \<Rightarrow> ([Waiting pid i e k], snd res))"

definition enter :: "pytext \<Rightarrow> string \<Rightarrow> oid \<Rightarrow> (string, json) dict \<Rightarrow> real \<Rightarrow> router \<Rightarrow> handler list \<times> router" where
  "enter tx pid i payload now r =
     (case before_request tx pid i payload now r of
        (Inl e, r') \<Rightarrow> ([], r')
      | (Inr out, r') \<Rightarrow> settle pid i now (out, r'))"

definition arrive :: "pytext \<Rightarrow> request \<Rightarrow> real \<Rightarrow> router \<Rightarrow> handler list \<times> router" where
  "arrive tx q now r =
     (let (i, r1) = get_or_create_program (rq_program_id q) (rq_type_id q) (rq_total_steps q)
             (rq_agent_type q) (rq_num_plan_steps q) r;
          r2 = profile_upd (on_request_arrive now) i r1
      in if \<not> weight_sync_event r2
         then ([BlockedOnSync False (rq_program_id q) i (rq_payload q)], r2)
         else enter tx (rq_program_id q) i (rq_payload q) now r2)"

definition finish :: "string \<Rightarrow> oid \<Rightarrow> int \<Rightarrow> int option \<Rightarrow> int option \<Rightarrow> int option \<Rightarrow> real \<Rightarrow> router \<Rightarrow> router" where
  "finish pid i tot prompt completion cached now r =
     profile_upd (on_request_end now prompt completion cached) i
       (after_request pid i tot (case prompt of None \<Rightarrow> 0 | Some n \<Rightarrow> n) now r)"

fun wake :: "handler \<Rightarrow> handler" where
  "wake (BlockedOnSync w pid i payload) = BlockedOnSync True pid i payload"
| "wake h = h"

fun blocked_for :: "string \<Rightarrow> handler \<Rightarrow> bool" where
  "blocked_for pid (BlockedOnSync w p i payload) = (p = pid)"
| "blocked_for pid h = False"


text \<open>
  The steps. A release is taken not to overtake a handler of the same program that is blocked on the
  weight synchronisation (\<open>stale_program_registered\<close> shows what happens otherwise). The segments of a control-loop
  tick are separate steps: between them other handlers run.
\<close>

inductive step :: "pytext \<Rightarrow> config \<Rightarrow> config \<Rightarrow> bool" for tx where
  arrive: "arrive tx q now r = (hs, r') \<Longrightarrow> step tx (r, H) (r', hs @ H)"
| unblocked: "H = H1 @ BlockedOnSync True pid i payload # H2 \<Longrightarrow> enter tx pid i payload now r = (hs, r') \<Longrightarrow>
    step tx (r, H) (r', hs @ H1 @ H2)"
| woken: "H = H1 @ Waiting pid i e k # H2 \<Longrightarrow> events r e \<Longrightarrow>
    settle pid i now (before_continue pid i k now r) = (hs, r') \<Longrightarrow> step tx (r, H) (r', hs @ H1 @ H2)"
| timed_out: "H = H1 @ Waiting pid i e k # H2 \<Longrightarrow> wait_timed_out pid r = (Inr (), r1) \<Longrightarrow>
    settle pid i now (before_continue pid i k now r1) = (hs, r') \<Longrightarrow> step tx (r, H) (r', hs @ H1 @ H2)"
| tokens: "Forwarded pid i u \<in> set H \<Longrightarrow> step tx (r, H) (tokens_streaming i d r, H)"
| first_token: "Forwarded pid i u \<in> set H \<Longrightarrow> step tx (r, H) (profile_upd (on_first_token now) i r, H)"
| token: "Forwarded pid i u \<in> set H \<Longrightarrow> step tx (r, H) (profile_upd (on_token now) i r, H)"
| finish: "H = H1 @ Forwarded pid i u # H2 \<Longrightarrow>
    step tx (r, H) (finish pid i tot prompt completion cached now r, H1 @ H2)"
| failed: "H = H1 @ Forwarded pid i u # H2 \<Longrightarrow> step tx (r, H) (r, H1 @ H2)"
| release: "\<not> list_ex (blocked_for pid) H \<Longrightarrow> step tx (r, H) (snd (release_program pid now r), H)"
| fetch: "step tx (r, H) (fetch_all an r, H)"
| resume: "step tx (r, H) (snd (greedy_resume now r), H)"
| switch_sd: "step tx (r, H) (update_dynamic_sd answers res r, H)"
| enforce: "step tx (r, H) (pause_until_safe u now r, H)"
| sync_begin: "step tx (r, H) (begin_weight_sync r, H)"
| sync_end: "weight_sync_active r \<Longrightarrow> step tx (r, H) (end_weight_sync r, map wake H)"
| sync_timeout: "weight_sync_active r \<Longrightarrow> step tx (r, H) (weight_sync_timeout r, map wake H)"

inductive_cases step_cases: "step tx (r, H) c"

inductive reachable :: "pytext \<Rightarrow> router \<Rightarrow> config \<Rightarrow> bool" for tx r0 where
  start: "reachable tx r0 (r0, [])"
| steps: "reachable tx r0 c \<Longrightarrow> step tx c c' \<Longrightarrow> reachable tx r0 c'"

section \<open>The invariant of configurations\<close>

fun handler_ok :: "router \<Rightarrow> handler \<Rightarrow> bool" where
  "handler_ok r (BlockedOnSync w pid i payload) \<longleftrightarrow> map_of (programs r) pid = Some i \<and> (w \<or> weight_sync_active r)"
| "handler_ok r (Waiting pid i e k) \<longleftrightarrow> e < next_event r \<and> i < next_obj r \<and> program_id (objs r i) = pid \<and>
     k \<noteq> FallThrough True \<and> (events r e \<or> awaits r pid i e)"
| "handler_ok r (Forwarded pid i u) \<longleftrightarrow> i < next_obj r \<and> program_id (objs r i) = pid"

definition config_ok :: "config \<Rightarrow> bool" where
  "config_ok c \<longleftrightarrow> router_ok (fst c) \<and> backends (fst c) \<noteq> [] \<and>
     weight_sync_event (fst c) = (\<not> weight_sync_active (fst c)) \<and> (\<forall>h \<in> set (snd c). handler_ok (fst c) h)"

lemma handler_ok_evolves:
  assumes ev: "evolves r r'" and h: "handler_ok r h"
  shows "handler_ok r' h"
proof (cases h)
  case (BlockedOnSync w pid i payload)
  with assms show ?thesis by (auto simp: evolves_def same_sync_def)
next
  case (Waiting pid i e k)
  with h have "e < next_event r" "i < next_obj r" "program_id (objs r i) = pid" "k \<noteq> FallThrough True"
    and e: "events r e \<or> awaits r pid i e" by auto
  with ev have "e < next_event r'" "i < next_obj r'" "program_id (objs r' i) = pid"
    unfolding evolves_def by auto
  moreover have "events r' e \<or> awaits r' pid i e"
    using e \<open>e < next_event r\<close> ev unfolding evolves_def by blast
  ultimately show ?thesis using Waiting \<open>k \<noteq> FallThrough True\<close> by simp
next
  case (Forwarded pid i u)
  with assms show ?thesis by (auto simp: evolves_def)
qed

lemma config_ok_step:
  assumes c: "config_ok (r, H)" and ev: "router_ok r' \<and> evolves r r'"
    and H: "set H' \<subseteq> set H \<union> set hs" and hs: "\<forall>h \<in> set hs. handler_ok r' h"
  shows "config_ok (r', H')"
proof -
  from ev have "map fst (backends r') = map fst (backends r)" and s: "same_sync r r'" by (simp_all add: evolves_def)
  then have "backends r' \<noteq> []" using c by (auto simp: config_ok_def)
  moreover have "handler_ok r' h" if "h \<in> set H" for h
    using handler_ok_evolves [of r r' h] ev c that by (simp add: config_ok_def)
  ultimately show ?thesis
    using c ev s H hs by (auto simp: config_ok_def same_sync_def)
qed


lemma quiet_profile: "quiet r (profile_upd f i r)"
  unfolding profile_upd_def by (rule quiet_upd_obj) (simp_all add: same_core_def)

lemma quiet_ok: "router_ok r \<Longrightarrow> quiet r r' \<Longrightarrow> router_ok r' \<and> evolves r r'"
  by (simp add: router_ok_quiet quiet_evolves)

text \<open>What a segment leaves behind: a consistent router and well-formed handlers.\<close>

definition outcome_ok :: "router \<Rightarrow> handler list \<times> router \<Rightarrow> bool" where
  "outcome_ok r res \<longleftrightarrow> (router_ok (snd res) \<and> evolves r (snd res)) \<and> (\<forall>h \<in> set (fst res). handler_ok (snd res) h)"

lemma forward_ok:
  assumes "router_ok r" "i < next_obj r" "program_id (objs r i) = pid"
  shows "outcome_ok r (forward pid i now r)"
proof -
  let ?r = "profile_upd (on_request_start now) i r"
  from quiet_ok [OF assms(1) quiet_profile] have r: "router_ok ?r" "evolves r ?r" by simp_all
  with assms(2,3) have "i < next_obj ?r" "program_id (objs ?r i) = pid" by (auto simp: evolves_def)
  with r show ?thesis by (auto simp: outcome_ok_def forward_def Let_def split: sum.split)
qed

lemma settle_ok:
  assumes ok: "router_ok r" and seg: "segment_ok pid i r res" and i: "i < next_obj r" "program_id (objs r i) = pid"
  shows "outcome_ok r (settle pid i now res)"
proof -
  from seg have s: "router_ok (snd res)" "evolves r (snd res)" by (simp_all add: segment_ok_def)
  with i have i': "i < next_obj (snd res)" "program_id (objs (snd res) i) = pid" by (auto simp: evolves_def)
  show ?thesis
  proof (cases "fst res")
    case (Returned b)
    from forward_ok [OF s(1) i', of now] evolves_trans [OF s(2) _ ok] Returned show ?thesis
      by (simp add: outcome_ok_def settle_def)
  next
    case (Suspended e k)
    with seg have "k \<noteq> FallThrough True" "awaits (snd res) pid i e" by (simp_all add: segment_ok_def)
    with awaits_event [OF s(1)] s i' Suspended show ?thesis
      by (auto simp: outcome_ok_def settle_def)
  qed
qed

lemma outcome_trans: "outcome_ok s res \<Longrightarrow> evolves r s \<Longrightarrow> router_ok r \<Longrightarrow> outcome_ok r res"
  using evolves_trans by (auto simp: outcome_ok_def)

lemma enter_ok:
  assumes ok: "router_ok r" and t: "map_of (programs r) pid = Some i"
  shows "outcome_ok r (enter tx pid i payload now r)"
proof -
  from program_okD(1,2) [OF router_okD(5) [OF ok t]] have i: "i < next_obj r" "program_id (objs r i) = pid" .
  obtain res r' where b: "before_request tx pid i payload now r = (res, r')" by fastforce
  show ?thesis
  proof (cases res)
    case (Inl e)
    with before_request_ok [OF ok t, of tx payload now] b show ?thesis by (simp add: enter_def outcome_ok_def)
  next
    case (Inr out)
    with before_request_ok [OF ok t, of tx payload now] b have "segment_ok pid i r (out, r')" by simp
    from settle_ok [OF ok this i] b Inr show ?thesis by (simp add: enter_def)
  qed
qed

lemma arrive_ok:
  assumes ok: "router_ok r" and ev: "weight_sync_event r = (\<not> weight_sync_active r)"
  shows "outcome_ok r (arrive tx q now r)"
proof -
  obtain i r1 where g: "get_or_create_program (rq_program_id q) (rq_type_id q) (rq_total_steps q)
      (rq_agent_type q) (rq_num_plan_steps q) r = (i, r1)" by fastforce
  let ?r2 = "profile_upd (on_request_arrive now) i r1"
  from get_or_create_ok [OF ok g] have r1: "router_ok r1" "evolves r r1" "map_of (programs r1) (rq_program_id q) = Some i"
    by simp_all
  from quiet_ok [OF r1(1) quiet_profile] have r2: "router_ok ?r2" "evolves r1 ?r2" by simp_all
  have e2: "evolves r ?r2" by (rule evolves_trans [OF r1(2) r2(2) ok])
  have t: "map_of (programs ?r2) (rq_program_id q) = Some i" using r1(3) r2(2) by (simp add: evolves_def)
  have s: "same_sync r ?r2" using e2 by (simp add: evolves_def)
  have eq: "arrive tx q now r = (if \<not> weight_sync_event ?r2
      then ([BlockedOnSync False (rq_program_id q) i (rq_payload q)], ?r2)
      else enter tx (rq_program_id q) i (rq_payload q) now ?r2)"
    by (simp add: arrive_def g)
  show ?thesis
    unfolding eq using outcome_trans [OF enter_ok [OF r2(1) t] e2 ok] r2(1) e2 t s ev
    by (simp add: outcome_ok_def same_sync_def)
qed

lemma finish_ok:
  assumes "router_ok r" "program_id (objs r i) = pid"
  shows "router_ok (finish pid i tot prompt completion cached now r) \<and>
    evolves r (finish pid i tot prompt completion cached now r)"
proof -
  let ?n = "case prompt of None \<Rightarrow> 0 | Some n \<Rightarrow> n"
  note a = after_request_ok [OF assms, of tot ?n now]
  from quiet_ok [OF conjunct1 [OF a] quiet_profile, of "on_request_end now prompt completion cached" i]
    evolves_trans [OF conjunct2 [OF a] _ assms(1)]
  show ?thesis by (simp add: finish_def)
qed

lemma waiting_continue_ok:
  assumes ok: "router_ok r" and h: "handler_ok r (Waiting pid i e k)"
  shows "outcome_ok r (settle pid i now (before_continue pid i k now r))"
  using h by (intro settle_ok [OF ok before_continue_ok [OF ok]]) simp_all

lemma config_ok_wake:
  assumes c: "config_ok (r, H)"
    and r': "r' = end_weight_sync r \<or> r' = weight_sync_timeout r" "weight_sync_active r"
  shows "config_ok (r', map wake H)"
proof -
  have f: "router_ok r'" "backends r' = backends r" "weight_sync_event r'" "\<not> weight_sync_active r'"
    "programs r' = programs r" "objs r' = objs r" "next_obj r' = next_obj r" "next_event r' = next_event r"
    "events r' = events r"
    using r' router_ok_weight_sync [of r] c
    by (auto simp: config_ok_def end_weight_sync_def weight_sync_timeout_def)
  have "handler_ok r' (wake h)" if "handler_ok r h" for h
    using that f by (cases h) (auto simp: awaits_def)
  with c f show ?thesis by (auto simp: config_ok_def)
qed

lemma config_ok_outcome:
  "config_ok (r, H) \<Longrightarrow> outcome_ok r (hs, r') \<Longrightarrow> set H' \<subseteq> set H \<Longrightarrow> config_ok (r', hs @ H')"
  by (rule config_ok_step [where hs = hs]) (auto simp: outcome_ok_def)

lemma config_ok_evolve:
  "config_ok (r, H) \<Longrightarrow> router_ok r' \<and> evolves r r' \<Longrightarrow> set H' \<subseteq> set H \<Longrightarrow> config_ok (r', H')"
  by (rule config_ok_step [where hs = "[]"]) auto

lemma config_router_ok: "config_ok (r, H) \<Longrightarrow> router_ok r"
  by (simp add: config_ok_def)

lemma step_preserves: "step tx c c' \<Longrightarrow> config_ok c \<Longrightarrow> config_ok c'"
proof (induction rule: step.induct)
  case (arrive q now r hs r' H)
  then have "outcome_ok r (hs, r')" using arrive_ok [of r tx q now] by (simp add: config_ok_def)
  then show ?case by (rule config_ok_outcome [OF arrive.prems]) simp
next
  case (unblocked H H1 pid i payload H2 now r hs r')
  then have "map_of (programs r) pid = Some i" "router_ok r" by (simp_all add: config_ok_def)
  from enter_ok [OF this(2,1), of tx payload now] unblocked have "outcome_ok r (hs, r')" by simp
  then show ?case by (rule config_ok_outcome [OF unblocked.prems]) (auto simp: unblocked.hyps(1))
next
  case (woken H H1 pid i e k H2 r now hs r')
  then have "handler_ok r (Waiting pid i e k)" "router_ok r" by (simp_all add: config_ok_def)
  from waiting_continue_ok [OF this(2,1), of now] woken have "outcome_ok r (hs, r')" by simp
  then show ?case by (rule config_ok_outcome [OF woken.prems]) (auto simp: woken.hyps(1))
next
  case (timed_out H H1 pid i e k H2 r r1 now hs r')
  then have h: "handler_ok r (Waiting pid i e k)" and ok: "router_ok r" and ne: "backends r \<noteq> []"
    by (simp_all add: config_ok_def)
  from timed_out_ok [OF ok ne, of pid] timed_out have r1: "router_ok r1" "evolves r r1" by simp_all
  from waiting_continue_ok [OF r1(1) handler_ok_evolves [OF r1(2) h], of now] timed_out
  have "outcome_ok r1 (hs, r')" by simp
  from outcome_trans [OF this r1(2) ok] show ?case
    by (rule config_ok_outcome [OF timed_out.prems]) (auto simp: timed_out.hyps(1))
next
  case (tokens pid i u H r d)
  show ?case
    by (rule config_ok_evolve [OF tokens.prems quiet_ok [OF config_router_ok [OF tokens.prems] quiet_streaming]]) simp
next
  case (first_token pid i u H r now)
  show ?case
    by (rule config_ok_evolve [OF first_token.prems quiet_ok [OF config_router_ok [OF first_token.prems] quiet_profile]]) simp
next
  case (token pid i u H r now)
  show ?case
    by (rule config_ok_evolve [OF token.prems quiet_ok [OF config_router_ok [OF token.prems] quiet_profile]]) simp
next
  case (finish H H1 pid i u H2 r tot prompt completion cached now)
  then have "program_id (objs r i) = pid" by (simp add: config_ok_def)
  from finish_ok [OF config_router_ok [OF finish.prems] this] show ?case
    by (rule config_ok_evolve [OF finish.prems]) (auto simp: finish.hyps)
next
  case (failed H H1 pid i u H2 r)
  then show ?case by (simp add: config_ok_def)
next
  case (release pid H r now)
  let ?r = "snd (release_program pid now r)"
  from release have ok: "router_ok r" by (simp add: config_ok_def)
  note rel = release_ok [OF ok, of pid now]
  have "handler_ok ?r h" if h: "handler_ok r h" "\<not> blocked_for pid h" for h
  proof (cases h)
    case (BlockedOnSync w p i payload)
    with h rel show ?thesis by (auto simp: spares_def)
  next
    case (Waiting p i e k)
    with h have w: "events r e \<or> awaits r p i e" by simp
    have "events ?r e \<or> awaits ?r p i e" using w rel unfolding spares_def by blast
    with h rel Waiting show ?thesis by (simp add: spares_def)
  next
    case (Forwarded p i u)
    with h rel show ?thesis by (auto simp: spares_def)
  qed
  moreover have "backends ?r \<noteq> []" using rel release by (auto simp: spares_def config_ok_def)
  moreover have "weight_sync_event ?r = (\<not> weight_sync_active ?r)" using release by (simp add: config_ok_def)
  ultimately show ?case using rel release by (auto simp: config_ok_def list_ex_iff)
next
  case (fetch r H an)
  show ?case by (rule config_ok_evolve [OF fetch.prems fetch_all_ok [OF config_router_ok [OF fetch.prems]]]) simp
next
  case (resume r H now)
  show ?case by (rule config_ok_evolve [OF resume.prems greedy_resume_evolves [OF config_router_ok [OF resume.prems]]]) simp
next
  case (switch_sd r H answers res)
  show ?case
    by (rule config_ok_evolve [OF switch_sd.prems quiet_ok [OF config_router_ok [OF switch_sd.prems] quiet_update_dynamic_sd]]) simp
next
  case (enforce r H u now)
  show ?case by (rule config_ok_evolve [OF enforce.prems pause_until_safe_evolves [OF config_router_ok [OF enforce.prems]]]) simp
next
  case (sync_begin r H)
  have "handler_ok (begin_weight_sync r) h" if "handler_ok r h" for h
    using that by (cases h) (auto simp: begin_weight_sync_def awaits_def)
  with sync_begin router_ok_weight_sync show ?case
    by (auto simp: config_ok_def begin_weight_sync_def)
next
  case (sync_end r H)
  then show ?case by (intro config_ok_wake) simp_all
next
  case (sync_timeout r H)
  then show ?case by (intro config_ok_wake) simp_all
qed

end
