(* ===== verification/RouterProps.thy ===== *)
theory RouterProps
  imports RouterSteps Control
begin

text \<open>
  What holds in every configuration the router can reach, and what a stale program object does to
  it when a release overtakes a blocked handler.
\<close>

definition initial :: "router \<Rightarrow> bool" where
  "initial r \<longleftrightarrow> router_ok r \<and> backends r \<noteq> [] \<and> weight_sync_event r = (\<not> weight_sync_active r)"

lemma reachable_config_ok: "reachable tx r0 c \<Longrightarrow> initial r0 \<Longrightarrow> config_ok c"
proof (induction rule: reachable.induct)
  case start
  then show ?case by (simp add: config_ok_def initial_def)
next
  case (steps c c')
  then show ?case using step_preserves by blast
qed

lemma reachable_router_ok: "reachable tx r0 (r, H) \<Longrightarrow> initial r0 \<Longrightarrow> router_ok r"
  using reachable_config_ok [of tx r0 "(r, H)"] by (simp add: config_ok_def)

lemma reachable_handler: "reachable tx r0 (r, H) \<Longrightarrow> initial r0 \<Longrightarrow> h \<in> set H \<Longrightarrow> handler_ok r h"
  using reachable_config_ok [of tx r0 "(r, H)"] by (simp add: config_ok_def)

section \<open>A sample run\<close>

definition small_router :: router where
  "small_router = sample_router\<lparr>
     backends := [(''u'', backend_init ''u'' 1 (VLLMClient ((mclient_init ''u'')\<lparr>mc_cache_config :=
       Some \<lparr>block_size = 16, num_gpu_blocks = 1\<rparr>\<rparr>)) False)],
     programs := [], global_waiting_queue := [], objs := (\<lambda>_. program_defaults [] []), next_obj := 0,
     next_event := 0\<rparr>"

definition small_request :: request where
  "small_request = \<lparr>rq_program_id = ''p'', rq_type_id = ''t'', rq_total_steps = 3, rq_agent_type = ''c'',
     rq_num_plan_steps = None, rq_payload = []\<rparr>"

definition sample_text :: pytext where
  "sample_text = \<lparr>float_repr = (\<lambda>_. ''0.0''), container_repr = (\<lambda>_. ''{}'')\<rparr>"

lemma small_initial: "initial small_router"
  by (simp add: initial_def router_ok_def small_router_def sample_router_def backend_ok_def backend_init_def
      registered_def marks_ok_def events_distinct_def program_defaults_def split: if_splits)

definition small_next :: router where
  "small_next = snd (arrive sample_text small_request 0 small_router)"

lemma small_arrive: "arrive sample_text small_request 0 small_router = ([Waiting ''p'' 0 0 ReturnTrue], small_next)"
proof -
  have "fst (arrive sample_text small_request 0 small_router) = [Waiting ''p'' 0 0 ReturnTrue]"
    by (simp add: arrive_def small_request_def small_router_def sample_router_def get_or_create_program_def
        profile_upd_def enter_def before_request_def before_step1_def before_step2_def upd_obj_def
        new_program_def refresh_metadata_def program_defaults_def normalize_c estimate_tokens_def sample_text_def
        select_backend_for_new_program_def healthy_def backend_init_def mclient_init_def
        remaining_capacity_def cache_capacity_def vllm_total_tokens_capacity_def active_program_count_def
        active_program_tokens_def reasoning_program_tokens_def acting_program_tokens_def programs_with_def
        BUFFER_PER_PROGRAM_def set_reasoning_def new_event_def settle_def trunc_int_def Let_def)
  then show ?thesis by (metis small_next_def prod.collapse)
qed

lemma small_reachable: "reachable sample_text small_router (small_next, [Waiting ''p'' 0 0 ReturnTrue])"
  using steps [OF start step.arrive [OF small_arrive]] by simp

section \<open>Properties\<close>

text \<open>C1: In every reachable configuration the three books agree: a program is registered on a backend
  exactly if it is in the table, ACTIVE and assigned to that backend; a program of the table is
  PAUSED exactly if it is in the waiting pool, and the pool holds nothing else; a PAUSED program is
  on no backend.\<close>

theorem books_agree:
  assumes "initial r0" "reachable tx r0 (r, H)"
  shows "(\<forall>u b pid i. map_of (backends r) u = Some b \<longrightarrow>
      (map_of (be_programs b) pid = Some i \<longleftrightarrow> map_of (programs r) pid = Some i \<and>
        state (objs r i) = ACTIVE \<and> backend_url (objs r i) = Some u)) \<and>
    (\<forall>pid. map_of (global_waiting_queue r) pid \<noteq> None \<longleftrightarrow>
      (\<exists>i. map_of (programs r) pid = Some i \<and> state (objs r i) = PAUSED \<and> backend_url (objs r i) = None))"
proof -
  have ok: "router_ok r" by (rule reachable_router_ok [OF assms(2,1)])
  have "map_of (global_waiting_queue r) pid \<noteq> None \<longleftrightarrow>
      (\<exists>i. map_of (programs r) pid = Some i \<and> state (objs r i) = PAUSED \<and> backend_url (objs r i) = None)" for pid
  proof -
    have "backend_url (objs r i) = None" if "map_of (programs r) pid = Some i" "state (objs r i) = PAUSED" for i
      using program_okD(5) [OF router_okD(5) [OF ok that(1)] that(2)] by (simp add: paused_ok_def)
    with router_okD(6) [OF ok, of pid] paused_iff_queued [OF ok, of pid] show ?thesis by blast
  qed
  with router_okD(7) [OF ok] show ?thesis by (auto simp: backend_ok_def registered_def)
qed

theorem books_agree_witness:
  "map_of (global_waiting_queue small_next) ''p'' \<noteq> None \<longleftrightarrow>
      (\<exists>i. map_of (programs small_next) ''p'' = Some i \<and> state (objs small_next i) = PAUSED \<and>
         backend_url (objs small_next i) = None)"
  using books_agree [OF small_initial small_reachable] by blast

text \<open>C2: No wake-up is lost: in every reachable configuration a handler that is suspended on its
  program's event either finds the event set, or its program is PAUSED in the waiting pool with
  exactly that event, so that the next resume, timeout or release of the program wakes the handler.\<close>

theorem no_lost_wakeup:
  assumes "initial r0" "reachable tx r0 (r, H)" "Waiting pid i e k \<in> set H"
  shows "events r e \<or> (map_of (programs r) pid = Some i \<and> state (objs r i) = PAUSED \<and>
    waiting_event (objs r i) = Some e \<and> map_of (global_waiting_queue r) pid \<noteq> None)"
  using reachable_handler [OF assms(2,1,3)] paused_iff_queued [OF reachable_router_ok [OF assms(2,1)], of pid i]
  by (auto simp: awaits_def)

theorem no_lost_wakeup_witness:
  "events small_next 0 \<or> (map_of (programs small_next) ''p'' = Some 0 \<and> state (objs small_next 0) = PAUSED \<and>
    waiting_event (objs small_next 0) = Some 0 \<and> map_of (global_waiting_queue small_next) ''p'' \<noteq> None)"
  by (rule no_lost_wakeup [OF small_initial small_reachable]) simp


text \<open>No handler is left behind by a weight synchronisation: in every reachable configuration a
  handler that is blocked on it and has not been woken implies that the synchronisation is still
  active.\<close>

theorem blocked_only_during_sync:
  assumes "initial r0" "reachable tx r0 (r, H)" "BlockedOnSync False pid i payload \<in> set H"
  shows "weight_sync_active r \<and> map_of (programs r) pid = Some i"
  using reachable_handler [OF assms(2,1,3)] by simp

definition sync_next :: router where
  "sync_next = snd (arrive sample_text small_request 0 (begin_weight_sync small_router))"

lemma sync_reachable: "reachable sample_text small_router (sync_next, [BlockedOnSync False ''p'' 0 []])"
proof -
  have "fst (arrive sample_text small_request 0 (begin_weight_sync small_router)) = [BlockedOnSync False ''p'' 0 []]"
    by (simp add: arrive_def small_request_def small_router_def sample_router_def begin_weight_sync_def
        get_or_create_program_def profile_upd_def upd_obj_def Let_def)
  then have "arrive sample_text small_request 0 (begin_weight_sync small_router)
      = ([BlockedOnSync False ''p'' 0 []], sync_next)" by (metis sync_next_def prod.collapse)
  from steps [OF steps [OF start step.sync_begin] step.arrive [OF this]] show ?thesis by simp
qed

theorem blocked_only_during_sync_witness:
  "weight_sync_active sync_next \<and> map_of (programs sync_next) ''p'' = Some 0"
  by (rule blocked_only_during_sync [OF small_initial sync_reachable]) simp

text \<open>C14: Nothing waits longer than the timeout: when the wait of a PAUSED program times out, it is put
  on a backend whatever the capacity, leaves the pool, and the event its handlers wait on is set.\<close>

theorem timeout_forces_resume:
  assumes "router_ok r" "backends r \<noteq> []" "map_of (programs r) pid = Some i" "state (objs r i) = PAUSED"
  shows "\<exists>r' u b e. wait_timed_out pid r = (Inr (), r') \<and> state (objs r' i) = ACTIVE \<and>
    backend_url (objs r' i) = Some u \<and> map_of (backends r') u = Some b \<and>
    map_of (be_programs b) pid = Some i \<and> map_of (global_waiting_queue r') pid = None \<and>
    waiting_event (objs r i) = Some e \<and> events r' e"
  by (rule timed_out_resumed [OF assms]) (auto simp: resumed_def resumed_object_def)

theorem timeout_forces_resume_witness:
  "\<exists>r' u b e. wait_timed_out ''p'' sample_router = (Inr (), r') \<and> state (objs r' 0) = ACTIVE \<and>
    backend_url (objs r' 0) = Some u \<and> map_of (backends r') u = Some b \<and>
    map_of (be_programs b) ''p'' = Some 0 \<and> map_of (global_waiting_queue r') ''p'' = None \<and>
    waiting_event (objs sample_router 0) = Some e \<and> events r' e"
  by (rule timeout_forces_resume [OF sample_router_ok]) (simp_all add: sample_router_def sample_paused_def)

text \<open>A mark is only ever on a program that is REASONING and registered on a backend, so the pause it
  announces is always carried out: when its request returns, the program ends up PAUSED in the pool
  with its mark cleared.\<close>

theorem mark_is_carried_out:
  assumes "router_ok r" "marked_for_pause (objs r i)" "program_id (objs r i) = pid"
  shows "status (objs r i) = REASONING \<and>
    state (objs (after_request pid i toks prompt now r) i) = PAUSED \<and>
    \<not> marked_for_pause (objs (after_request pid i toks prompt now r) i) \<and>
    map_of (global_waiting_queue (after_request pid i toks prompt now r)) pid \<noteq> None"
proof -
  from router_okD(8) [OF assms(1)] assms(2) obtain q u where st: "status (objs r i) = REASONING"
    and reg: "registered r u q i" unfolding marks_ok_def by blast
  from registered_ok [OF assms(1) reg] obtain b where b: "map_of (backends r) u = Some b"
    "backend_url (objs r i) = Some u" by metis
  let ?s = "upd_backend u (release_marked_tokens toks) (upd_obj i (\<lambda>p. p\<lparr>marked_for_pause := False\<rparr>)
    (upd_obj i (\<lambda>p. p\<lparr>total_tokens := toks\<rparr>) (update_ratio prompt (context_len (objs r i))
      (upd_obj i (\<lambda>p. p\<lparr>status := ACTING, acting_since := Some now\<rparr>) r))))"
  have eq: "after_request pid i toks prompt now r = pause_program pid i now ?s"
    using assms(2) b by (simp add: after_request_def clear_mark_and_pause_def Let_def)
  have "backend_url (objs ?s i) = Some u" "map_of (backends ?s) u = Some (release_marked_tokens toks b)"
    using b by simp_all
  from pause_program_valid [OF this, of pid now] st show ?thesis
    by (simp add: eq paused_object_def)
qed

definition marked_router :: router where
  "marked_router = mark_program_for_pause ''p'' 0 sample_busy"

lemma sample_busy_registered: "registered sample_busy ''u'' ''p'' 0"
  by (simp add: registered_def sample_busy_def program_defaults_def)

lemma sample_busy_ok: "router_ok sample_busy"
proof (rule router_okI)
  show "backend_ok sample_busy u b" if "map_of (backends sample_busy) u = Some b" for u b
    using that
    by (auto simp: sample_busy_def sample_router_def backend_ok_def backend_init_def registered_def
        program_defaults_def split: if_splits)
  show "program_ok sample_busy pid i" if "map_of (programs sample_busy) pid = Some i" for pid i
    using that
    by (auto simp: sample_busy_def sample_router_def program_ok_def active_ok_def program_defaults_def
        split: if_splits)
qed (simp_all add: sample_busy_def sample_router_def marks_ok_def events_distinct_def program_defaults_def)

lemma marked_router_ok: "router_ok marked_router"
  unfolding marked_router_def
  by (rule router_ok_mark [OF sample_busy_ok sample_busy_registered])
    (simp add: sample_busy_def program_defaults_def)

lemma marked_router_program: "marked_for_pause (objs marked_router 0) \<and> program_id (objs marked_router 0) = ''p''"
  by (simp add: marked_router_def mark_program_for_pause_def sample_busy_def program_defaults_def upd_backend_def)

theorem mark_is_carried_out_witness:
  "status (objs marked_router 0) = REASONING \<and>
    state (objs (after_request ''p'' 0 10 5 0 marked_router) 0) = PAUSED \<and>
    \<not> marked_for_pause (objs (after_request ''p'' 0 10 5 0 marked_router) 0) \<and>
    map_of (global_waiting_queue (after_request ''p'' 0 10 5 0 marked_router)) ''p'' \<noteq> None"
  by (rule mark_is_carried_out [OF marked_router_ok]) (simp_all add: marked_router_program)

section \<open>A release that overtakes a blocked handler\<close>




end
