(* ===== verification/Proxy.thy ===== *)
theory Proxy
  imports Router
begin

text \<open>
  Request forwarding (\<open>scheduler/ThunderAgent/scheduler/vllm_request_processor.py\<close>): what is taken
  out of a request before it is forwarded, the usage figures of a response, and the incremental
  parser of a streamed (Server-Sent Events) response with its callbacks. Bytes are characters;
  \<open>json.loads\<close> is the argument \<open>loads\<close> (None when it raises).
\<close>

section \<open>Requests and responses\<close>

record usage =
  us_total :: "int option"
  us_prompt :: "int option"
  us_completion :: "int option"
  us_cached :: "int option"

definition no_usage :: usage where
  "no_usage = \<lparr>us_total = None, us_prompt = None, us_completion = None, us_cached = None\<rparr>"

text \<open>The fields the response carries, before the missing ones are derived.\<close>

definition raw_usage :: "(string, json) dict \<Rightarrow> usage" where
  "raw_usage u =
     \<lparr>us_total = finite_int (jget u ''total_tokens''),
      us_prompt = finite_int (jget u ''prompt_tokens''),
      us_completion = finite_int (jget u ''completion_tokens''),
      us_cached = (case jget u ''prompt_tokens_details'' of
          JObj d \<Rightarrow> finite_int (jget d ''cached_tokens'') | _ \<Rightarrow> None)\<rparr>"

definition derive_completion :: "usage \<Rightarrow> usage" where
  "derive_completion u =
     (case (us_completion u, us_total u, us_prompt u) of
        (None, Some t, Some p) \<Rightarrow> u\<lparr>us_completion := Some (max 0 (t - p))\<rparr>
      | _ \<Rightarrow> u)"

definition derive_total :: "usage \<Rightarrow> usage" where
  "derive_total u =
     (case (us_total u, us_prompt u, us_completion u) of
        (None, Some p, Some c) \<Rightarrow> u\<lparr>us_total := Some (p + c)\<rparr>
      | _ \<Rightarrow> u)"

definition extract_usage_info :: "json \<Rightarrow> usage" where
  "extract_usage_info payload =
     (case payload of
        JObj d \<Rightarrow> (case jget d ''usage'' of
            JObj u \<Rightarrow> derive_total (derive_completion (raw_usage u))
          | _ \<Rightarrow> no_usage)
      | _ \<Rightarrow> no_usage)"

definition filtered_headers :: "(string, string) dict \<Rightarrow> (string, string) dict" where
  "filtered_headers hs =
     filter (\<lambda>(k, v). lower k \<notin> {''content-length'', ''transfer-encoding'', ''connection''}) hs"

text \<open>\<open>extra_body\<close> loses the fields too, and is dropped when nothing is left of it.\<close>

definition strip_fields :: "string list \<Rightarrow> (string, json) dict \<Rightarrow> (string, json) dict" where
  "strip_fields ks payload =
     (let p = fold AList.delete ks payload
      in case map_of p ''extra_body'' of
           Some (JObj extra) \<Rightarrow>
             (let e = fold AList.delete ks extra
              in if e = [] then AList.delete ''extra_body'' p else AList.update ''extra_body'' (JObj e) p)
         | _ \<Rightarrow> p)"

definition remove_program_id :: "(string, json) dict \<Rightarrow> (string, json) dict" where
  "remove_program_id payload = strip_fields [''program_id''] payload"

definition scheduling_fields :: "string list" where
  "scheduling_fields = [''workflow'', ''workload'', ''total_steps'', ''agent_type'', ''workflow_type'',
     ''type'', ''num_plan_steps'', ''prediction_context'']"

definition remove_type_info :: "(string, json) dict \<Rightarrow> (string, json) dict" where
  "remove_type_info payload = strip_fields scheduling_fields payload"

text \<open>The payload of a streaming request: usage is asked for unless the client has decided.\<close>

definition streaming_payload :: "bool \<Rightarrow> (string, json) dict \<Rightarrow> (string, json) dict" where
  "streaming_payload has_on_usage payload =
     (let p = remove_type_info (remove_program_id payload)
      in if \<not> has_on_usage then p
         else (case jget p ''stream_options'' of
             JNull \<Rightarrow> AList.update ''stream_options'' (JObj [(''include_usage'', JBool True)]) p
           | JObj opts \<Rightarrow>
               AList.update ''stream_options''
                 (JObj (if jhas opts ''include_usage'' then opts
                        else AList.update ''include_usage'' (JBool True) opts)) p
           | _ \<Rightarrow> p))"

section \<open>The event stream\<close>

datatype callback = FirstToken | TokenSeen | Progress int

record sse =
  buffer :: string
  usage_seen :: "usage option"
  first_token_seen :: bool
  token_count :: int
  last_reported_count :: int
  callbacks :: "callback list"

definition sse_init :: sse where
  "sse_init = \<lparr>buffer = [], usage_seen = None, first_token_seen = False, token_count = 0,
     last_reported_count = 0, callbacks = []\<rparr>"

definition is_bspace :: "char \<Rightarrow> bool" where
  "is_bspace c \<longleftrightarrow> of_char c \<in> {9, 10, 11, 12, 13, 32::nat}"

definition bstrip :: "string \<Rightarrow> string" where
  "bstrip s = rev (dropWhile is_bspace (rev (dropWhile is_bspace s)))"

text \<open>One \<open>data:\<close> line.\<close>

definition count_token :: "int \<Rightarrow> sse \<Rightarrow> sse" where
  "count_token interval s =
     (let s1 = (if first_token_seen s then s
                else s\<lparr>first_token_seen := True, callbacks := callbacks s @ [FirstToken]\<rparr>);
          s2 = s1\<lparr>callbacks := callbacks s1 @ [TokenSeen], token_count := token_count s1 + 1\<rparr>;
          delta = token_count s2 - last_reported_count s2
      in if interval \<le> delta
         then s2\<lparr>callbacks := callbacks s2 @ [Progress delta], last_reported_count := token_count s2\<rparr>
         else s2)"

definition note_usage :: "(string \<Rightarrow> json option) \<Rightarrow> string \<Rightarrow> sse \<Rightarrow> sse" where
  "note_usage loads data s =
     (if usage_seen s \<noteq> None then s
      else (case loads data of
          None \<Rightarrow> s
        | Some v \<Rightarrow>
            (let u = extract_usage_info v in if us_total u = None then s else s\<lparr>usage_seen := Some u\<rparr>)))"

definition process_line :: "(string \<Rightarrow> json option) \<Rightarrow> int \<Rightarrow> string \<Rightarrow> sse \<Rightarrow> sse" where
  "process_line loads interval line s =
     (if \<not> startswith line ''data:'' then s
      else (let data = bstrip (drop 5 line)
            in if data = [] \<or> data = ''[DONE]'' then s
               else note_usage loads data (count_token interval s)))"

definition process_event :: "(string \<Rightarrow> json option) \<Rightarrow> int \<Rightarrow> string \<Rightarrow> sse \<Rightarrow> sse" where
  "process_event loads interval event s =
     fold (process_line loads interval) (split_char (CHR 10) event) s"

text \<open>\<open>buffer.split(b"\n\n", 1)\<close>\<close>

fun break_event :: "string \<Rightarrow> (string \<times> string) option" where
  "break_event (c # d # cs) =
     (if c = CHR 10 \<and> d = CHR 10 then Some ([], cs)
      else map_option (\<lambda>(e, rest). (c # e, rest)) (break_event (d # cs)))"
| "break_event cs = None"

lemma break_event_shorter: "break_event cs = Some (e, rest) \<Longrightarrow> length rest < length cs"
  by (induction cs arbitrary: e rule: break_event.induct) (auto split: if_splits)

function drain :: "(string \<Rightarrow> json option) \<Rightarrow> int \<Rightarrow> sse \<Rightarrow> sse" where
  "drain loads interval s =
     (case break_event (buffer s) of
        None \<Rightarrow> s
      | Some (event, rest) \<Rightarrow> drain loads interval ((process_event loads interval event s)\<lparr>buffer := rest\<rparr>))"
  by pat_completeness auto

termination
  by (relation "measure (\<lambda>(loads, interval, s). length (buffer s))") (auto dest: break_event_shorter)

declare drain.simps [simp del]

definition feed :: "(string \<Rightarrow> json option) \<Rightarrow> int \<Rightarrow> string \<Rightarrow> sse \<Rightarrow> sse" where
  "feed loads interval chunk s = drain loads interval (s\<lparr>buffer := buffer s @ chunk\<rparr>)"

definition stream :: "(string \<Rightarrow> json option) \<Rightarrow> int \<Rightarrow> string list \<Rightarrow> sse" where
  "stream loads interval chunks = fold (feed loads interval) chunks sse_init"

text \<open>The usage reported when the stream ends, however it ends.\<close>

definition reported_usage :: "sse \<Rightarrow> usage option" where
  "reported_usage s = usage_seen s"

text \<open>A response that is not streamed.\<close>

definition reported_usage_once :: "(string \<Rightarrow> json option) \<Rightarrow> string \<Rightarrow> usage option" where
  "reported_usage_once loads body =
     (let u = extract_usage_info (case loads body of None \<Rightarrow> JNull | Some v \<Rightarrow> v)
      in if us_total u = None then None else Some u)"

section \<open>Chunks do not matter\<close>

lemma break_event_append: "break_event cs = Some (e, rest) \<Longrightarrow> break_event (cs @ bytes) = Some (e, rest @ bytes)"
  by (induction cs arbitrary: e rule: break_event.induct) (auto split: if_splits)

lemma process_line_buffer:
  "process_line loads n l (s\<lparr>buffer := b\<rparr>) = (process_line loads n l s)\<lparr>buffer := b\<rparr>"
  by (simp add: process_line_def note_usage_def count_token_def Let_def split: option.split)

lemma process_event_buffer:
  "process_event loads n ev (s\<lparr>buffer := b\<rparr>) = (process_event loads n ev s)\<lparr>buffer := b\<rparr>"
proof -
  have "fold (process_line loads n) ls (s\<lparr>buffer := b\<rparr>) = (fold (process_line loads n) ls s)\<lparr>buffer := b\<rparr>" for ls
    by (induction ls arbitrary: s) (simp_all add: process_line_buffer)
  then show ?thesis by (simp add: process_event_def)
qed

lemma drain_append:
  "drain loads n (s\<lparr>buffer := buffer s @ bytes\<rparr>)
     = drain loads n ((drain loads n s)\<lparr>buffer := buffer (drain loads n s) @ bytes\<rparr>)"
proof (induction loads n s rule: drain.induct)
  case (1 loads n s)
  show ?case
  proof (cases "break_event (buffer s)")
    case None
    then have "drain loads n s = s" by (simp add: drain.simps)
    then show ?thesis by simp
  next
    case (Some x)
    obtain e rest where x: "x = (e, rest)" by fastforce
    let ?s = "(process_event loads n e s)\<lparr>buffer := rest\<rparr>"
    have one: "drain loads n s = drain loads n ?s" using Some x by (subst drain.simps) simp
    have "break_event (buffer s @ bytes) = Some (e, rest @ bytes)"
      using break_event_append Some x by blast
    then have "drain loads n (s\<lparr>buffer := buffer s @ bytes\<rparr>) = drain loads n (?s\<lparr>buffer := buffer ?s @ bytes\<rparr>)"
      by (subst drain.simps) (simp add: process_event_buffer)
    also have "\<dots> = drain loads n ((drain loads n ?s)\<lparr>buffer := buffer (drain loads n ?s) @ bytes\<rparr>)"
      by (rule "1.IH" [OF Some x [symmetric]])
    finally show ?thesis unfolding one .
  qed
qed

lemma feed_feed: "feed loads n b (feed loads n a s) = feed loads n (a @ b) s"
  using drain_append [of loads n "s\<lparr>buffer := buffer s @ a\<rparr>" b] by (simp add: feed_def)

lemma feed_Nil_drained: "break_event (buffer s) = None \<Longrightarrow> feed loads n [] s = s"
  by (simp add: feed_def drain.simps)

lemma fold_feed: "fold (feed loads n) chunks (feed loads n c s) = feed loads n (c @ concat chunks) s"
  by (induction chunks arbitrary: c) (simp_all add: feed_feed)

text \<open>C25: The callbacks, the usage and the left-over bytes of a streamed response depend only on the
  bytes received, not on how the network cuts them into chunks.\<close>

theorem stream_chunking_irrelevant:
  "stream loads interval chunks = stream loads interval [concat chunks]"
proof (cases chunks)
  case Nil
  have "feed loads interval [] sse_init = sse_init" by (rule feed_Nil_drained) (simp add: sse_init_def)
  with Nil show ?thesis by (simp add: stream_def)
next
  case (Cons c cs)
  then show ?thesis by (simp add: stream_def fold_feed)
qed


section \<open>Progress, usage and clean requests\<close>

definition progress_total :: "callback list \<Rightarrow> int" where
  "progress_total cbs = sum_list (map (\<lambda>c. case c of Progress n \<Rightarrow> n | _ \<Rightarrow> 0) cbs)"

definition tokens_seen :: "callback list \<Rightarrow> int" where
  "tokens_seen cbs = int (length (filter (\<lambda>c. c = TokenSeen) cbs))"

text \<open>What the reader keeps: every token is counted, reports add up to the count at the last report,
  and each report is exactly one interval.\<close>

definition sse_ok :: "int \<Rightarrow> sse \<Rightarrow> bool" where
  "sse_ok interval s \<longleftrightarrow> token_count s = tokens_seen (callbacks s) \<and>
     last_reported_count s = progress_total (callbacks s) \<and>
     0 \<le> token_count s - last_reported_count s \<and> token_count s - last_reported_count s < interval \<and>
     (\<forall>n. Progress n \<in> set (callbacks s) \<longrightarrow> n = interval) \<and>
     first_token_seen s = (callbacks s \<noteq> []) \<and>
     (case callbacks s of [] \<Rightarrow> True | c # cs \<Rightarrow> c = FirstToken \<and> FirstToken \<notin> set cs)"

lemma progress_total_append [simp]: "progress_total (xs @ ys) = progress_total xs + progress_total ys"
  by (simp add: progress_total_def)

lemma tokens_seen_append [simp]: "tokens_seen (xs @ ys) = tokens_seen xs + tokens_seen ys"
  by (simp add: tokens_seen_def)

lemma count_token_ok: "sse_ok n s \<Longrightarrow> 0 < n \<Longrightarrow> sse_ok n (count_token n s)"
  by (cases "callbacks s")
    (auto simp: sse_ok_def count_token_def Let_def tokens_seen_def progress_total_def)

lemma process_line_ok: "sse_ok n s \<Longrightarrow> 0 < n \<Longrightarrow> sse_ok n (process_line loads n l s)"
proof -
  assume a: "sse_ok n s" "0 < n"
  have "sse_ok n (note_usage loads d t)" if "sse_ok n t" for d t
    using that by (simp add: note_usage_def sse_ok_def Let_def split: option.split)
  with a count_token_ok show ?thesis by (simp add: process_line_def Let_def)
qed

lemma process_event_ok: "sse_ok n s \<Longrightarrow> 0 < n \<Longrightarrow> sse_ok n (process_event loads n e s)"
proof -
  have "sse_ok n s \<Longrightarrow> 0 < n \<Longrightarrow> sse_ok n (fold (process_line loads n) ls s)" for ls
    by (induction ls arbitrary: s) (simp_all add: process_line_ok)
  then show "sse_ok n s \<Longrightarrow> 0 < n \<Longrightarrow> sse_ok n (process_event loads n e s)" by (simp add: process_event_def)
qed

lemma sse_ok_buffer [simp]: "sse_ok n (s\<lparr>buffer := b\<rparr>) = sse_ok n s"
  by (simp add: sse_ok_def)

lemma drain_ok: "sse_ok n s \<Longrightarrow> 0 < n \<Longrightarrow> sse_ok n (drain loads n s)"
proof (induction loads n s rule: drain.induct)
  case (1 loads n s)
  show ?case
  proof (cases "break_event (buffer s)")
    case None
    with 1 show ?thesis by (simp add: drain.simps)
  next
    case (Some x)
    obtain e rest where x: "x = (e, rest)" by fastforce
    from "1.IH" [OF Some x [symmetric]] process_event_ok [OF "1.prems"] "1.prems"(2) Some x show ?thesis
      by (subst drain.simps) simp
  qed
qed

lemma stream_ok: "0 < n \<Longrightarrow> sse_ok n (stream loads n chunks)"
proof -
  assume n: "0 < n"
  have "sse_ok n s \<Longrightarrow> sse_ok n (fold (feed loads n) chunks s)" for s
    using n by (induction chunks arbitrary: s) (simp_all add: feed_def drain_ok)
  moreover have "sse_ok n sse_init"
    using n by (simp add: sse_ok_def sse_init_def tokens_seen_def progress_total_def)
  ultimately show ?thesis by (simp add: stream_def)
qed

text \<open>The token accounting of a streamed response is exact up to one interval: every progress report
  is exactly the interval, the reports add up to the tokens seen but for fewer than one interval,
  and the first-token callback comes once, before everything else.\<close>

theorem stream_progress_exact:
  assumes "0 < interval"
  shows "0 \<le> tokens_seen (callbacks (stream loads interval chunks)) - progress_total (callbacks (stream loads interval chunks)) \<and>
    tokens_seen (callbacks (stream loads interval chunks)) - progress_total (callbacks (stream loads interval chunks)) < interval \<and>
    (\<forall>n. Progress n \<in> set (callbacks (stream loads interval chunks)) \<longrightarrow> n = interval) \<and>
    (case callbacks (stream loads interval chunks) of [] \<Rightarrow> True | c # cs \<Rightarrow> c = FirstToken \<and> FirstToken \<notin> set cs)"
  using stream_ok [OF assms, of loads chunks] by (simp add: sse_ok_def)

definition sample_loads :: "string \<Rightarrow> json option" where
  "sample_loads s = (if s = ''7'' then Some (JObj [(''usage'', JObj [(''total_tokens'', JInt 7)])]) else None)"

theorem stream_progress_exact_witness:
  "0 \<le> tokens_seen (callbacks (stream sample_loads 2 [''data: 7'' @ [CHR 10], [CHR 10]])) -
      progress_total (callbacks (stream sample_loads 2 [''data: 7'' @ [CHR 10], [CHR 10]]))"
  using stream_progress_exact [of 2 sample_loads "[''data: 7'' @ [CHR 10], [CHR 10]]"] by simp

lemma fold_delete_filter: "fold AList.delete ks d = filter (\<lambda>(k, v). k \<notin> set ks) d"
proof (induction ks arbitrary: d)
  case Nil
  then show ?case by simp
next
  case (Cons k ks)
  then show ?case by (auto simp: AList.delete_eq intro!: filter_cong)
qed

lemma fold_delete_lookup: "map_of (fold AList.delete ks d) k = (if k \<in> set ks then None else map_of d k)"
  by (induction ks arbitrary: d) auto

lemma strip_fields_lookup:
  "''extra_body'' \<notin> set ks \<Longrightarrow> map_of (strip_fields ks d) k =
     (if k \<in> set ks then None
      else if k \<noteq> ''extra_body'' then map_of d k
      else case map_of d ''extra_body'' of
        Some (JObj e) \<Rightarrow> (let e' = filter (\<lambda>(k, v). k \<notin> set ks) e in if e' = [] then None else Some (JObj e'))
      | x \<Rightarrow> x)"
proof (cases "\<exists>e. map_of d ''extra_body'' = Some (JObj e)")
  case True
  assume ks: "''extra_body'' \<notin> set ks"
  from True obtain e where e: "map_of d ''extra_body'' = Some (JObj e)" by blast
  with ks have "map_of (fold AList.delete ks d) ''extra_body'' = Some (JObj e)" by (simp add: fold_delete_lookup)
  with ks e show ?thesis
    by (simp add: strip_fields_def Let_def fold_delete_lookup fold_delete_filter [of ks e])
next
  case False
  assume ks: "''extra_body'' \<notin> set ks"
  then have p: "map_of (fold AList.delete ks d) ''extra_body'' = map_of d ''extra_body''"
    by (simp add: fold_delete_lookup)
  have "strip_fields ks d = fold AList.delete ks d"
    using False by (simp add: strip_fields_def Let_def p split: option.split json.split)
  moreover have "map_of d ''extra_body'' = (case map_of d ''extra_body'' of
        Some (JObj e) \<Rightarrow> (let e' = filter (\<lambda>(k, v). k \<notin> set ks) e in if e' = [] then None else Some (JObj e'))
      | x \<Rightarrow> x)"
    using False by (simp split: option.split json.split)
  ultimately show ?thesis using ks by (simp add: fold_delete_lookup)
qed

definition private_fields :: "string list" where
  "private_fields = ''program_id'' # scheduling_fields"

text \<open>What is forwarded is clean: the payload loses \<open>program_id\<close> and the scheduling fields, an
  \<open>extra_body\<close> object loses them too and is dropped when nothing is left of it, and every other
  field keeps its value.\<close>

theorem forwarded_payload_clean:
  "map_of (remove_type_info (remove_program_id d)) k =
     (if k \<in> set private_fields then None
      else if k \<noteq> ''extra_body'' then map_of d k
      else case map_of d ''extra_body'' of
        Some (JObj e) \<Rightarrow>
          (let e' = filter (\<lambda>(k, v). k \<notin> set private_fields) e in if e' = [] then None else Some (JObj e'))
      | x \<Rightarrow> x)"
proof -
  have n: "''extra_body'' \<notin> set scheduling_fields" "''extra_body'' \<notin> set [''program_id'']"
    by (simp_all add: scheduling_fields_def)
  have f: "filter (\<lambda>(k, v). k \<notin> set scheduling_fields) (filter (\<lambda>(k, v). k \<noteq> ''program_id'') e)
      = filter (\<lambda>(k, v). k \<notin> set private_fields) e" for e :: "(string, json) dict"
    by (auto simp: private_fields_def intro!: filter_cong)
  have g: "filter (\<lambda>(k, v). k \<notin> set private_fields) e = []" if "filter (\<lambda>(k, v). k \<noteq> ''program_id'') e = []"
    for e :: "(string, json) dict" using that f [of e] by simp
  have pid: "map_of (remove_program_id d) k = (if k = ''program_id'' then None
      else if k \<noteq> ''extra_body'' then map_of d k
      else case map_of d ''extra_body'' of
        Some (JObj e) \<Rightarrow> (let e' = filter (\<lambda>(k, v). k \<noteq> ''program_id'') e in if e' = [] then None else Some (JObj e'))
      | x \<Rightarrow> x)" for k
  proof -
    have "(\<lambda>(k, v). k \<notin> set [''program_id'']) = (\<lambda>(k, v :: json). k \<noteq> ''program_id'')" by auto
    then show ?thesis unfolding remove_program_id_def strip_fields_lookup [OF n(2)] by (simp only:) simp
  qed
  show ?thesis
  proof (cases "k = ''extra_body''")
    case False
    then show ?thesis
      unfolding remove_type_info_def strip_fields_lookup [OF n(1)] by (simp add: pid private_fields_def)
  next
    case True
    have k: "''extra_body'' \<notin> set private_fields" using n by (simp add: private_fields_def)
    show ?thesis
    proof (cases "\<exists>e. map_of d ''extra_body'' = Some (JObj e)")
      case True
      then obtain e where e: "map_of d ''extra_body'' = Some (JObj e)" by blast
      show ?thesis
        unfolding remove_type_info_def strip_fields_lookup [OF n(1)] \<open>k = ''extra_body''\<close> pid
        using n(1) k f [of e] g [of e] by (simp add: e Let_def)
    next
      case False
      then show ?thesis
        unfolding remove_type_info_def strip_fields_lookup [OF n(1)] \<open>k = ''extra_body''\<close> pid
        using n(1) k by (simp split: option.split json.split)
    qed
  qed
qed

end
