(* ===== verification/App.thy ===== *)
theory App
  imports Proxy RouterSteps
begin

text \<open>
  What the HTTP layer reads from a request (\<open>scheduler/ThunderAgent/app.py\<close>): the program, its type,
  its agent type and its step counts, each with its order of sources.
\<close>

section \<open>Fields of a request\<close>

definition extra_body :: "(string, json) dict \<Rightarrow> json" where
  "extra_body payload = (case map_of payload ''extra_body'' of None \<Rightarrow> JObj [] | Some v \<Rightarrow> v)"

text \<open>The header lookup of the framework is case-insensitive: \<open>session\<close> is the value under
  \<open>X-Session-ID\<close>, None when there is none (or when no headers were passed).\<close>

definition get_program_id :: "pytext \<Rightarrow> (string, json) dict \<Rightarrow> string option \<Rightarrow> string" where
  "get_program_id tx payload session =
     (case map_of payload ''program_id'' of
        Some v \<Rightarrow> py_str tx v
      | None \<Rightarrow>
          (case (case extra_body payload of JObj e \<Rightarrow> map_of e ''program_id'' | _ \<Rightarrow> None) of
             Some v \<Rightarrow> py_str tx v
           | None \<Rightarrow> (case session of Some (c # cs) \<Rightarrow> c # cs | _ \<Rightarrow> ''default'')))"

definition format_type_id :: "pytext \<Rightarrow> json \<Rightarrow> json \<Rightarrow> string" where
  "format_type_id tx workflow workload =
     (let wf = replace_char (CHR ''_'') (CHR ''-'') (lower (strip (py_str tx workflow)));
          wf' = (if wf \<in> {''react'', ''re-act''} then ''react''
                 else if wf \<in> {''plan-solve'', ''plansolve''} then ''plan-solve'' else wf);
          wl = lower (strip (py_str tx workload))
      in ''workflow['' @ wf' @ '']_workload['' @ wl @ '']'')"

text \<open>A later source overrides an earlier one.\<close>

definition type_id_of :: "pytext \<Rightarrow> (string, json) dict \<Rightarrow> string option" where
  "type_id_of tx d =
     (if jhas d ''workflow'' \<and> jhas d ''workload''
      then Some (format_type_id tx (jget d ''workflow'') (jget d ''workload'')) else None)"

definition get_type_id :: "pytext \<Rightarrow> (string, json) dict \<Rightarrow> string" where
  "get_type_id tx payload =
     (let first = (case type_id_of tx payload of Some t \<Rightarrow> t | None \<Rightarrow> ''default'')
      in case extra_body payload of
           JObj e \<Rightarrow> (case type_id_of tx e of Some t \<Rightarrow> t | None \<Rightarrow> first)
         | _ \<Rightarrow> first)"

definition sources :: "(string, json) dict \<Rightarrow> (string, json) dict list" where
  "sources payload = payload # (case extra_body payload of JObj e \<Rightarrow> [e] | _ \<Rightarrow> [])"

definition first_present :: "json list \<Rightarrow> json option" where
  "first_present vs = (case filter (\<lambda>v. v \<noteq> JNull) vs of [] \<Rightarrow> None | v # _ \<Rightarrow> Some v)"

definition get_agent_type :: "pytext \<Rightarrow> (string, json) dict \<Rightarrow> string" where
  "get_agent_type tx payload =
     (case first_present (concat (map (\<lambda>d. map (jget d) [''agent_type'', ''workflow_type'', ''type'']) (sources payload))) of
        Some v \<Rightarrow> py_str tx v
      | None \<Rightarrow> ''unknown'')"

definition plan_value :: "(string, json) dict \<Rightarrow> json" where
  "plan_value d =
     (if jget d ''num_plan_steps'' = JNull
      then (case jget d ''prediction_context'' of JObj c \<Rightarrow> jget c ''num_plan_steps'' | _ \<Rightarrow> JNull)
      else jget d ''num_plan_steps'')"

text \<open>Type and value errors are skipped; the overflow error of an infinite float is not caught.\<close>

fun first_plan :: "(string, json) dict list \<Rightarrow> py_error + int option" where
  "first_plan [] = Inr None"
| "first_plan (d # ds) =
     (case py_int (plan_value d) of
        Inr n \<Rightarrow> if 0 < n then Inr (Some n) else first_plan ds
      | Inl e \<Rightarrow> if e = TypeError \<or> e = ValueError then first_plan ds else Inl e)"

definition get_num_plan_steps :: "(string, json) dict \<Rightarrow> py_error + int option" where
  "get_num_plan_steps payload = first_plan (sources payload)"

definition get_total_steps :: "(string, json) dict \<Rightarrow> py_error + int" where
  "get_total_steps payload =
     (let v0 = (case map_of payload ''total_steps'' of Some v \<Rightarrow> v | None \<Rightarrow> JInt 10);
          v = (case extra_body payload of
                 JObj e \<Rightarrow> (case map_of e ''total_steps'' of Some v \<Rightarrow> v | None \<Rightarrow> v0)
               | _ \<Rightarrow> v0)
      in case py_int v of
           Inr n \<Rightarrow> Inr n
         | Inl e \<Rightarrow> if e = TypeError \<or> e = ValueError then Inr 0 else Inl e)"

text \<open>The request a handler works on: an error of the readers ends the handler before the router is
  touched.\<close>

definition read_request :: "pytext \<Rightarrow> (string, json) dict \<Rightarrow> string option \<Rightarrow> py_error + request" where
  "read_request tx payload session =
     ebind (get_num_plan_steps payload) (\<lambda>plan. ebind (get_total_steps payload) (\<lambda>total.
       Inr \<lparr>rq_program_id = get_program_id tx payload session, rq_type_id = get_type_id tx payload,
            rq_total_steps = total, rq_agent_type = get_agent_type tx payload,
            rq_num_plan_steps = plan, rq_payload = payload\<rparr>))"

text \<open>\<open>/programs/release\<close>: None stands for the 400 answer.\<close>

definition release_request :: "pytext \<Rightarrow> (string, json) dict \<Rightarrow> string option" where
  "release_request tx payload =
     (let v = jget payload ''program_id'' in if \<not> truthy v then None else Some (py_str tx v))"

section \<open>Properties\<close>

lemma nat_string_int_digits: "list_all is_digit s \<Longrightarrow> s \<noteq> [] \<Longrightarrow> grouped_digits s"
proof (induction s rule: grouped_digits.induct)
  case (3 c d cs)
  have "d \<noteq> CHR ''_''" using 3 by (auto simp: is_digit_def less_eq_char_def)
  with 3 show ?case by simp
qed (auto simp: is_digit_def)

lemma digit_not_space: "is_digit c \<Longrightarrow> \<not> is_space c"
  by (auto simp: is_digit_def is_space_def less_eq_char_def)

lemma strip_digits: "s \<noteq> [] \<Longrightarrow> \<not> is_space (hd s) \<Longrightarrow> \<not> is_space (last s) \<Longrightarrow> strip s = s"
proof -
  assume s: "s \<noteq> []" "\<not> is_space (hd s)" "\<not> is_space (last s)"
  have "dropWhile is_space s = s" using s(1,2) by (cases s) auto
  moreover have "dropWhile is_space (rev s) = rev s" using s(1,3) by (cases s rule: rev_cases) auto
  ultimately show ?thesis by (simp add: strip_def lstrip_def rstrip_def)
qed

lemma filter_digits: "list_all is_digit s \<Longrightarrow> filter (\<lambda>c. c \<noteq> CHR ''_'') s = s"
  by (induction s) (auto simp: is_digit_def less_eq_char_def)

text \<open>An integer sent as a decimal string is read back as the same integer, negative ones included.\<close>

theorem int_string_roundtrip: "py_int (JStr (int_string n)) = Inr n"
proof -
  have pos: "parse_int (nat_string k) = Some (int k)" for k
  proof -
    let ?s = "nat_string k"
    have d: "list_all is_digit ?s" by (rule nat_string_digits)
    then have "is_digit (hd ?s)" "is_digit (last ?s)" by (auto simp: list_all_iff)
    then have st: "strip ?s = ?s" by (intro strip_digits) (simp_all add: digit_not_space)
    obtain c cs where c: "?s = c # cs" by (cases ?s) auto
    with d have "is_digit c" by simp
    then have "c \<noteq> CHR ''-''" "c \<noteq> CHR ''+''" by (auto simp: is_digit_def less_eq_char_def)
    with c st d show ?thesis
      using nat_string_int_digits [OF d] filter_digits [OF d] digits_val_nat_string [of k]
      by (simp add: parse_int_def Let_def)
  qed
  have neg: "parse_int (CHR ''-'' # nat_string k) = Some (- int k)" for k
  proof -
    let ?s = "nat_string k"
    have d: "list_all is_digit ?s" by (rule nat_string_digits)
    then have "is_digit (last ?s)" by (auto simp: list_all_iff)
    then have "strip (CHR ''-'' # ?s) = CHR ''-'' # ?s"
      using digit_not_space [of "last ?s"] by (intro strip_digits) (simp_all add: is_space_def)
    with d show ?thesis
      using nat_string_int_digits [OF d] filter_digits [OF d] digits_val_nat_string [of k]
      by (simp add: parse_int_def Let_def)
  qed
  show ?thesis by (simp add: py_int_def int_string_def pos neg)
qed

lemma first_plan_positive: "first_plan ds = Inr (Some n) \<Longrightarrow> 0 < n"
  by (induction ds) (auto split: sum.splits if_splits)

end
