(* ===== verification/TraceLoad.thy ===== *)
theory TraceLoad
  imports Predictor
begin

text \<open>
  Loading the history of finished programs from trace files (\<open>StepMap.load_data_from_traces\<close> and
  \<open>StepMap.__init__\<close> of \<open>scheduler/ThunderAgent/scheduler/predictor.py\<close>). The incremental JSON reader
  and the file system are outside the program: of a file the model sees the three streams the code
  reads from it, each the items that come before the stream ends and whether it ends in an
  \<open>OSError\<close> or \<open>JSONError\<close>.
\<close>

type_synonym stream = "json list \<times> bool"

record trace_file =
  tf_name :: string
  tf_stem :: string
  tf_args :: stream
  tf_summaries :: stream
  tf_steps :: stream

section \<open>Reading one file\<close>

text \<open>\<open>next(items, {})\<close>, then anything but a non-empty dict counts as an empty one; None when the
  read fails.\<close>

definition trace_args :: "trace_file \<Rightarrow> (string, json) dict option" where
  "trace_args f =
     (case tf_args f of
        (v # _, _) \<Rightarrow> Some (as_dict v)
      | ([], failed) \<Rightarrow> if failed then None else Some [])"

text \<open>\<open>int(summary.get("turns_taken"))\<close>; only type and value errors are caught.\<close>

definition summary_steps :: "json \<Rightarrow> py_error + int option" where
  "summary_steps v =
     (case v of
        JObj d \<Rightarrow>
          (case py_int (jget d ''turns_taken'') of
             Inr n \<Rightarrow> Inr (if n \<le> 0 then None else Some n)
           | Inl e \<Rightarrow> if e = TypeError \<or> e = ValueError then Inr None else Inl e)
      | _ \<Rightarrow> Inr None)"

fun count_totals :: "int option list \<Rightarrow> counter \<Rightarrow> counter" where
  "count_totals [] c = c"
| "count_totals (t # ts) c =
     count_totals ts (case t of Some n \<Rightarrow> counter_inc n c | None \<Rightarrow> c)"

text \<open>The loop over the step lists, which stops at the first task without a summary; None when the
  stream fails.\<close>

fun read_steps ::
  "pytext \<Rightarrow> string \<Rightarrow> int option list \<Rightarrow> json list \<Rightarrow> bool \<Rightarrow> step_info \<Rightarrow> py_error + step_info option" where
  "read_steps tx workflow totals [] failed i = Inr (if failed then None else Some i)"
| "read_steps tx workflow [] (x # xs) failed i = Inr (Some i)"
| "read_steps tx workflow (t # totals) (x # xs) failed i =
     (case (t, x) of
        (Some n, JList steps) \<Rightarrow>
          ebind (states_from_trace_steps tx workflow steps (nat n)) (\<lambda>states.
            read_steps tx workflow totals xs failed (count_states n 0 ''bos'' states i))
      | _ \<Rightarrow> read_steps tx workflow totals xs failed i)"

text \<open>The tables of one file with its type, None when the file is skipped.\<close>

definition read_trace_file :: "pytext \<Rightarrow> trace_file \<Rightarrow> py_error + (string \<times> step_info) option" where
  "read_trace_file tx f =
     (case trace_args f of
        None \<Rightarrow> Inr None
      | Some args \<Rightarrow>
          (let workflow = normalize_workflow tx (jor (jget args ''agent'') (jget args ''workflow'')) (tf_stem f);
               workload = infer_workload tx (jget args ''workload'') (tf_stem f)
           in if workflow = ''unknown'' \<or> workload = ''unknown'' then Inr None
              else ebind (emap summary_steps (fst (tf_summaries f))) (\<lambda>totals.
                if snd (tf_summaries f) then Inr None
                else (let i = step_info_init\<lparr>step_cnt := count_totals totals []\<rparr>;
                          type_id = ''workflow['' @ workflow @ '']_workload['' @ workload @ '']''
                      in if workflow \<in> {''agentflow'', ''react''}
                         then ebind (read_steps tx workflow totals (fst (tf_steps f)) (snd (tf_steps f)) i)
                                (\<lambda>res. Inr (Some (type_id, case res of Some i' \<Rightarrow> i' | None \<Rightarrow> i)))
                         else Inr (Some (type_id, i))))))"

section \<open>Merging into the tables\<close>

text \<open>\<open>Counter.update\<close> with another counter adds the counts.\<close>

definition counter_update :: "counter \<Rightarrow> counter \<Rightarrow> counter" where
  "counter_update c d = fold (\<lambda>(k, n) c. AList.update k (cnt c k + n) c) d c"

definition cells_update :: "('k, counter) dict \<Rightarrow> ('k, counter) dict \<Rightarrow> ('k, counter) dict" where
  "cells_update d d' = fold (\<lambda>(key, c) d. AList.update key (counter_update (cell d key) c) d) d' d"

definition merge_info :: "step_info \<Rightarrow> step_info \<Rightarrow> step_info" where
  "merge_info i h =
     i\<lparr>step_cnt := counter_update (step_cnt i) (step_cnt h),
       state_step_cnt := cells_update (state_step_cnt i) (state_step_cnt h),
       transition_step_cnt := cells_update (transition_step_cnt i) (transition_step_cnt h)\<rparr>"

definition merge_type :: "string \<Rightarrow> step_info \<Rightarrow> step_map \<Rightarrow> step_map" where
  "merge_type tid h sm = sm\<lparr>stm_map := AList.update tid (merge_info (info_of sm tid) h) (stm_map sm)\<rparr>"

text \<open>The loop over the files: the tables, the files loaded and the tasks loaded.\<close>

fun load_files :: "pytext \<Rightarrow> trace_file list \<Rightarrow> step_map \<times> int \<times> int \<Rightarrow> py_error + (step_map \<times> int \<times> int)" where
  "load_files tx [] acc = Inr acc"
| "load_files tx (f # fs) (sm, files, tasks) =
     ebind (read_trace_file tx f) (\<lambda>res.
       load_files tx fs
         (case res of
            None \<Rightarrow> (sm, files, tasks)
          | Some (tid, h) \<Rightarrow>
              (let n = counter_total (step_cnt h)
               in if n \<noteq> 0 then (merge_type tid h sm, files + 1, tasks + n) else (sm, files, tasks))))"

section \<open>The cache and the constructor\<close>

text \<open>\<open>_trace_history_cache\<close>, a class attribute: per directory the number of files and a copy of the
  tables (without step times).\<close>

type_synonym history_cache = "(string, int \<times> (string, step_info) dict) dict"

definition snapshot :: "step_map \<Rightarrow> (string, step_info) dict" where
  "snapshot sm = map (\<lambda>(tid, i). (tid, i\<lparr>step_time := []\<rparr>)) (stm_map sm)"

definition history_tasks :: "(string, step_info) dict \<Rightarrow> int" where
  "history_tasks h = sum_list (map (\<lambda>(tid, i). counter_total (step_cnt i)) h)"

text \<open>\<open>files\<close> is None when there is no such directory, and the glob's result otherwise.\<close>

definition load_data_from_traces ::
  "pytext \<Rightarrow> string \<Rightarrow> trace_file list option \<Rightarrow> history_cache \<Rightarrow> step_map
     \<Rightarrow> py_error + ((int \<times> int) \<times> step_map \<times> history_cache)" where
  "load_data_from_traces tx key files cache sm =
     (case files of
        None \<Rightarrow> Inr ((0, 0), sm, cache)
      | Some fs \<Rightarrow>
          (case map_of cache key of
             Some (n, h) \<Rightarrow> Inr ((n, history_tasks h), fold (\<lambda>(tid, i). merge_type tid i) h sm, cache)
           | None \<Rightarrow>
               ebind (load_files tx (sort_key tf_name fs) (sm, 0, 0)) (\<lambda>(sm', n, tasks).
                 Inr ((n, tasks), sm',
                      if tasks \<noteq> 0 then AList.update key (n, snapshot sm') cache else cache))))"

definition step_map_new ::
  "pytext \<Rightarrow> string \<Rightarrow> string \<Rightarrow> bool \<Rightarrow> trace_file list option \<Rightarrow> history_cache
     \<Rightarrow> py_error + (step_map \<times> history_cache)" where
  "step_map_new tx trace_dir key load_history files cache =
     (if \<not> load_history then Inr (step_map_init, cache)
      else ebind (load_data_from_traces tx key files cache step_map_init) (\<lambda>((n, tasks), sm, cache').
        Inr (if tasks \<noteq> 0 then sm\<lparr>history_source := trace_dir\<rparr> else sm, cache')))"

section \<open>Adding counters\<close>

lemma update_fresh: "k \<notin> fst ` set d \<Longrightarrow> AList.update k v d = d @ [(k, v)]"
  by (induction d) auto

lemma counter_update_Nil [simp]: "counter_update c [] = c"
  by (simp add: counter_update_def)

lemma counter_update_Cons: "counter_update c ((k, n) # d) = counter_update (AList.update k (cnt c k + n) c) d"
  by (simp add: counter_update_def)

lemma cnt_update [simp]: "cnt (AList.update k n c) k' = (if k' = k then n else cnt c k')"
  by (simp add: cnt_def)

lemma cnt_Cons: "cnt ((k, n) # c) k' = (if k' = k then n else cnt c k')"
  by (simp add: cnt_def)

lemma cnt_absent: "k \<notin> fst ` set c \<Longrightarrow> cnt c k = 0"
  by (simp add: cnt_def map_of_eq_None_iff [THEN iffD2])

lemma cnt_counter_update: "dict_wf d \<Longrightarrow> cnt (counter_update c d) k = cnt c k + cnt d k"
proof (induction d arbitrary: c)
  case Nil
  then show ?case by (simp add: cnt_def)
next
  case (Cons a d)
  obtain k' n where a: "a = (k', n)" by fastforce
  with Cons.prems have "cnt d k' = 0" by (simp add: cnt_absent)
  with Cons a show ?case by (simp add: counter_update_Cons cnt_Cons)
qed

lemma counter_ok_update: "counter_ok c \<Longrightarrow> 0 < n \<Longrightarrow> counter_ok (AList.update k (cnt c k + n) c)"
proof -
  assume ok: "counter_ok c" and n: "0 < n"
  have "0 < cnt c k + n" using cnt_nonneg [OF ok, of k] n by simp
  then have "\<forall>m \<in> set (dict_values (AList.update k (cnt c k + n) c)). 0 < m"
    using ok values_update [of k "cnt c k + n" c] unfolding counter_ok_def by blast
  then show ?thesis using ok by (simp add: counter_ok_def)
qed

lemma counter_ok_counter_update: "counter_ok c \<Longrightarrow> counter_ok d \<Longrightarrow> counter_ok (counter_update c d)"
proof (induction d arbitrary: c)
  case (Cons a d)
  obtain k n where a: "a = (k, n)" by fastforce
  with Cons.prems have "0 < n" "counter_ok d" by (simp_all add: counter_ok_def)
  with Cons a show ?case by (simp add: counter_update_Cons counter_ok_update)
qed simp

lemma counter_update_fresh:
  "dict_wf d \<Longrightarrow> fst ` set c \<inter> fst ` set d = {} \<Longrightarrow> counter_update c d = c @ d"
proof (induction d arbitrary: c)
  case (Cons a d)
  obtain k n where a: "a = (k, n)" by fastforce
  with Cons.prems have k: "k \<notin> fst ` set c" by auto
  then have "AList.update k (cnt c k + n) c = c @ [(k, n)]" by (simp add: update_fresh cnt_absent)
  with Cons.prems a k Cons.IH [of "c @ [(k, n)]"] show ?case by (auto simp: counter_update_Cons)
qed simp

lemma counter_total_update: "dict_wf c \<Longrightarrow> counter_total (AList.update k (cnt c k + n) c) = counter_total c + n"
  by (induction c) (auto simp: counter_total_def cnt_def)

lemma counter_total_counter_update:
  "dict_wf c \<Longrightarrow> counter_total (counter_update c d) = counter_total c + counter_total d"
proof (induction d arbitrary: c)
  case Nil
  then show ?case by (simp add: counter_total_def)
next
  case (Cons a d)
  obtain k n where a: "a = (k, n)" by fastforce
  with Cons show ?case by (simp add: counter_update_Cons counter_total_update) (simp add: counter_total_def)
qed

lemma cells_update_Cons: "cells_update d ((key, c) # d') = cells_update (AList.update key (counter_update (cell d key) c) d) d'"
  by (simp add: cells_update_def)

lemma cell_update [simp]: "cell (AList.update key c d) key' = (if key' = key then c else cell d key')"
  by (simp add: cell_def)

lemma cell_absent: "key \<notin> fst ` set d \<Longrightarrow> cell d key = []"
  by (simp add: cell_def map_of_eq_None_iff [THEN iffD2])

lemma cell_cells_update:
  "dict_wf d' \<Longrightarrow> cell (cells_update d d') key = counter_update (cell d key) (cell d' key)"
proof (induction d' arbitrary: d)
  case Nil
  then show ?case by (simp add: cells_update_def cell_def)
next
  case (Cons a d')
  obtain key' c where a: "a = (key', c)" by fastforce
  with Cons.prems have "cell d' key' = []" by (simp add: cell_absent)
  moreover have "cell ((key', c) # d') key = (if key = key' then c else cell d' key)" by (simp add: cell_def)
  ultimately show ?case using Cons a by (simp add: cells_update_Cons)
qed

lemma dict_wf_cells_update: "dict_wf d \<Longrightarrow> dict_wf (cells_update d d')"
  by (induction d' arbitrary: d) (auto simp: cells_update_def)

lemma cells_update_fresh:
  "dict_wf d' \<Longrightarrow> fst ` set d \<inter> fst ` set d' = {} \<Longrightarrow> \<forall>(key, c) \<in> set d'. dict_wf c
     \<Longrightarrow> cells_update d d' = d @ d'"
proof (induction d' arbitrary: d)
  case Nil
  then show ?case by (simp add: cells_update_def)
next
  case (Cons a d')
  obtain key c where a: "a = (key, c)" by fastforce
  with Cons.prems have k: "key \<notin> fst ` set d" "dict_wf c" by auto
  then have "AList.update key (counter_update (cell d key) c) d = d @ [(key, c)]"
    using counter_update_fresh [of c "[]"] by (simp add: update_fresh cell_absent)
  with Cons.prems a k Cons.IH [of "d @ [(key, c)]"] show ?case by (auto simp: cells_update_Cons)
qed

section \<open>Loaded tables are consistent\<close>

definition info_wf :: "step_info \<Rightarrow> bool" where
  "info_wf i \<longleftrightarrow> info_ok i \<and> dict_wf (state_step_cnt i) \<and> dict_wf (transition_step_cnt i)"

definition cells_within :: "(int \<Rightarrow> int) \<Rightarrow> step_info \<Rightarrow> bool" where
  "cells_within bound i \<longleftrightarrow> (\<forall>key k. cnt (cell (state_step_cnt i) key) k \<le> bound k) \<and>
     (\<forall>key k. cnt (cell (transition_step_cnt i) key) k \<le> bound k)"

definition cells_ok :: "step_info \<Rightarrow> bool" where
  "cells_ok i \<longleftrightarrow> dict_wf (state_step_cnt i) \<and> dict_wf (transition_step_cnt i) \<and>
     (\<forall>key. counter_ok (cell (state_step_cnt i) key)) \<and> (\<forall>key. counter_ok (cell (transition_step_cnt i) key))"

lemma info_wf_iff: "info_wf i \<longleftrightarrow> counter_ok (step_cnt i) \<and> cells_ok i \<and> cells_within (cnt (step_cnt i)) i"
  by (auto simp: info_wf_def info_ok_def cells_ok_def cells_within_def)

lemma info_wf_init [simp]: "info_wf step_info_init"
  by (simp add: info_wf_def step_info_init_def info_ok_init [unfolded step_info_init_def])

abbreviation tasks_of :: "int \<Rightarrow> int option list \<Rightarrow> int" where
  "tasks_of k ts \<equiv> int (length (filter (\<lambda>t. t = Some k) ts))"

lemma count_totals_ok: "counter_ok c \<Longrightarrow> counter_ok (count_totals ts c)"
  by (induction ts arbitrary: c) (auto split: option.split)

lemma cnt_count_totals: "cnt (count_totals ts c) k = cnt c k + tasks_of k ts"
  by (induction ts arbitrary: c) (auto split: option.split)

lemma count_states_cells_ok: "cells_ok i \<Longrightarrow> cells_ok (count_states e pk pv bs i)"
proof (induction bs arbitrary: pk pv i)
  case (Cons b bs)
  from Cons.prems have "cells_ok (i\<lparr>state_step_cnt := cell_inc (pk, b) e (state_step_cnt i),
      transition_step_cnt := cell_inc (pk, pv, b) e (transition_step_cnt i)\<rparr>)"
    by (auto simp: cells_ok_def cell_inc_def)
  from Cons.IH [OF this] show ?case by simp
qed simp

lemma count_states_within:
  "cells_within bound i \<Longrightarrow> cells_within (\<lambda>k. bound k + of_bool (k = e)) (count_states e pk pv bs i)"
  unfolding cells_within_def
proof (intro conjI allI)
  fix key :: "int \<times> string" and k
  assume b: "(\<forall>key k. cnt (cell (state_step_cnt i) key) k \<le> bound k) \<and>
     (\<forall>key k. cnt (cell (transition_step_cnt i) key) k \<le> bound k)"
  have "cnt (cell (state_step_cnt (count_states e pk pv bs i)) (fst key, snd key)) k
      \<le> cnt (cell (state_step_cnt i) (fst key, snd key)) k + of_bool (k = e)"
    by (rule order_trans [OF count_states_state_cells]) simp
  with b show "cnt (cell (state_step_cnt (count_states e pk pv bs i)) key) k \<le> bound k + of_bool (k = e)"
    by (smt (verit) prod.collapse)
next
  fix key :: "int \<times> string \<times> string" and k
  assume b: "(\<forall>key k. cnt (cell (state_step_cnt i) key) k \<le> bound k) \<and>
     (\<forall>key k. cnt (cell (transition_step_cnt i) key) k \<le> bound k)"
  have "cnt (cell (transition_step_cnt (count_states e pk pv bs i)) (fst key, fst (snd key), snd (snd key))) k
      \<le> cnt (cell (transition_step_cnt i) (fst key, fst (snd key), snd (snd key))) k + of_bool (k = e)"
    by (rule order_trans [OF count_states_transition_cells]) simp
  with b show "cnt (cell (transition_step_cnt (count_states e pk pv bs i)) key) k \<le> bound k + of_bool (k = e)"
    by (smt (verit) prod.collapse)
qed

lemma cells_within_mono: "cells_within b i \<Longrightarrow> (\<And>k. b k \<le> b' k) \<Longrightarrow> cells_within b' i"
  unfolding cells_within_def by (meson order_trans)

lemma count_states_step_time: "step_time (count_states e pk pv bs i) = step_time i"
  by (induction bs arbitrary: pk pv i) simp_all

lemma read_steps_Cons:
  "read_steps tx wfl (t # totals) (x # xs) failed i = Inr (Some i') \<Longrightarrow>
   read_steps tx wfl totals xs failed i = Inr (Some i') \<or>
   (\<exists>n st. t = Some n \<and> read_steps tx wfl totals xs failed (count_states n 0 ''bos'' st i) = Inr (Some i'))"
  by (auto simp: ebind_Inr_iff split: option.splits json.splits)

lemma read_steps_ok:
  "read_steps tx wfl totals xs failed i = Inr (Some i') \<Longrightarrow> cells_ok i \<Longrightarrow> cells_within bound i \<Longrightarrow>
   step_cnt i' = step_cnt i \<and> step_time i' = step_time i \<and> cells_ok i' \<and>
   cells_within (\<lambda>k. bound k + tasks_of k totals) i'"
proof (induction xs arbitrary: totals i bound)
  case Nil
  then show ?case by (auto elim: cells_within_mono split: if_splits)
next
  case (Cons x xs)
  show ?case
  proof (cases totals)
    case Nil
    with Cons.prems show ?thesis by (auto elim: cells_within_mono)
  next
    case (Cons t ts)
    with Cons.prems(1) read_steps_Cons consider "read_steps tx wfl ts xs failed i = Inr (Some i')"
      | n st where "t = Some n" "read_steps tx wfl ts xs failed (count_states n 0 ''bos'' st i) = Inr (Some i')"
      by blast
    then show ?thesis
    proof cases
      case 1
      from Cons.IH [OF this Cons.prems(2,3)] Cons show ?thesis by (auto elim: cells_within_mono)
    next
      case 2
      from Cons.IH [OF 2(2) count_states_cells_ok [OF Cons.prems(2)] count_states_within [OF Cons.prems(3)]]
      show ?thesis using Cons 2(1)
        by (auto simp: count_states_step_time elim: cells_within_mono)
    qed
  qed
qed

text \<open>Clean tables: consistent, and without step times.\<close>

definition clean :: "step_info \<Rightarrow> bool" where
  "clean i \<longleftrightarrow> info_wf i \<and> step_time i = []"

lemma clean_init [simp]: "clean step_info_init"
  by (simp add: clean_def) (simp add: step_info_init_def)

lemma read_trace_file_clean:
  assumes "read_trace_file tx f = Inr (Some (tid, h))"
  shows "clean h"
proof -
  have init: "clean (step_info_init\<lparr>step_cnt := count_totals ts []\<rparr>)" for ts
    using count_totals_ok [of "[]" ts]
    by (simp add: clean_def info_wf_iff cells_ok_def cells_within_def cell_def step_info_init_def
        cnt_nonneg) (simp add: cnt_def cnt_nonneg [unfolded cnt_def])
  have steps: "clean i'" if r: "read_steps tx wfl ts xs fl (step_info_init\<lparr>step_cnt := count_totals ts []\<rparr>) = Inr (Some i')"
    for wfl ts xs fl i'
  proof -
    let ?i = "step_info_init\<lparr>step_cnt := count_totals ts []\<rparr>"
    from init [of ts] have c: "cells_ok ?i" and ok: "counter_ok (count_totals ts [])" and t: "step_time ?i = []"
      by (simp_all add: clean_def info_wf_iff)
    have "cells_within (\<lambda>k. 0) ?i" by (simp add: cells_within_def step_info_init_def cell_def cnt_def)
    from read_steps_ok [OF r c this]
    have i': "step_cnt i' = count_totals ts []" "step_time i' = []" "cells_ok i'" "cells_within (\<lambda>k. tasks_of k ts) i'"
      using t by simp_all
    moreover have "cells_within (cnt (count_totals ts [])) i'"
      by (rule cells_within_mono [OF i'(4)]) (simp add: cnt_count_totals, simp add: cnt_def)
    ultimately show ?thesis using ok by (simp add: clean_def info_wf_iff)
  qed
  from assms obtain args where args: "trace_args f = Some args"
    by (auto simp: read_trace_file_def split: option.splits)
  show ?thesis
  proof (cases "emap summary_steps (fst (tf_summaries f))")
    case (Inl e)
    with assms args show ?thesis by (simp add: read_trace_file_def Let_def ebind_def split: if_splits)
  next
    case (Inr totals)
    let ?i = "step_info_init\<lparr>step_cnt := count_totals totals []\<rparr>"
    from assms args Inr consider "h = ?i"
      | wfl res where "read_steps tx wfl totals (fst (tf_steps f)) (snd (tf_steps f)) ?i = Inr res"
          "h = (case res of Some i' \<Rightarrow> i' | None \<Rightarrow> ?i)"
      by (simp add: read_trace_file_def Let_def ebind_Inr_iff split: if_splits) blast+
    then show ?thesis
    proof cases
      case 1
      then show ?thesis by (simp add: init)
    next
      case 2
      then show ?thesis by (cases res) (simp_all add: init steps)
    qed
  qed
qed

lemma info_wf_merge: "info_wf i \<Longrightarrow> info_wf h \<Longrightarrow> info_wf (merge_info i h)"
proof -
  assume i: "info_wf i" and h: "info_wf h"
  have wf: "dict_wf c" if "counter_ok c" for c using that by (simp add: counter_ok_def)
  from h have hc: "counter_ok (step_cnt h)" "cells_ok h" "cells_within (cnt (step_cnt h)) h" by (simp_all add: info_wf_iff)
  from i have ic: "counter_ok (step_cnt i)" "cells_ok i" "cells_within (cnt (step_cnt i)) i" by (simp_all add: info_wf_iff)
  have "cells_ok (merge_info i h)"
    using ic(2) hc(2) by (simp add: cells_ok_def merge_info_def cell_cells_update counter_ok_counter_update
        dict_wf_cells_update)
  moreover have "cells_within (cnt (step_cnt (merge_info i h))) (merge_info i h)"
    using ic(3) hc(2,3) wf [OF hc(1)]
    by (simp add: cells_within_def cells_ok_def merge_info_def cell_cells_update cnt_counter_update wf add_mono)
  ultimately show ?thesis
    using ic(1) hc(1) by (simp add: info_wf_iff) (simp add: merge_info_def counter_ok_counter_update)
qed

lemma clean_merge: "clean i \<Longrightarrow> clean h \<Longrightarrow> clean (merge_info i h)"
  by (simp add: clean_def info_wf_merge) (simp add: merge_info_def)

definition map_clean :: "step_map \<Rightarrow> bool" where
  "map_clean sm \<longleftrightarrow> dict_wf (stm_map sm) \<and> (\<forall>i \<in> set (dict_values (stm_map sm)). clean i) \<and>
     history_source sm = ''none''"

lemma clean_info_of: "map_clean sm \<Longrightarrow> clean (info_of sm tid)"
  by (fastforce simp: map_clean_def info_of_def split: option.split dest: map_of_SomeD)

lemma map_clean_ok: "map_clean sm \<Longrightarrow> map_ok sm"
  using clean_info_of by (fastforce simp: map_ok_def clean_def info_wf_def)

lemma map_clean_init: "map_clean step_map_init"
  by (simp add: map_clean_def step_map_init_def)

lemma map_clean_merge: "map_clean sm \<Longrightarrow> clean h \<Longrightarrow> map_clean (merge_type tid h sm)"
proof -
  assume m: "map_clean sm" and h: "clean h"
  have "clean (merge_info (info_of sm tid) h)" by (rule clean_merge [OF clean_info_of [OF m] h])
  then have "\<forall>i \<in> set (dict_values (AList.update tid (merge_info (info_of sm tid) h) (stm_map sm))). clean i"
    using m values_update [of tid "merge_info (info_of sm tid) h" "stm_map sm"] unfolding map_clean_def by blast
  with m show ?thesis by (simp add: map_clean_def merge_type_def)
qed

lemma history_tasks_update:
  assumes "dict_wf (stm_map sm)" "dict_wf (step_cnt (info_of sm tid))"
  shows "history_tasks (snapshot (merge_type tid h sm)) = history_tasks (snapshot sm) + counter_total (step_cnt h)"
proof -
  have gen: "history_tasks (AList.update tid j d) = history_tasks d - counter_total (step_cnt (case map_of d tid of None \<Rightarrow> step_info_init | Some i \<Rightarrow> i))
      + counter_total (step_cnt j)" if "dict_wf d" for d j
    using that by (induction d) (auto simp: history_tasks_def step_info_init_def counter_total_def split: option.split)
  have snap: "history_tasks (snapshot s) = history_tasks (stm_map s)" for s
    by (simp add: history_tasks_def snapshot_def case_prod_unfold comp_def)
  have "counter_total (step_cnt (merge_info i h)) = counter_total (step_cnt i) + counter_total (step_cnt h)"
    if "dict_wf (step_cnt i)" for i
    using that by (simp add: merge_info_def counter_total_counter_update)
  from this [OF assms(2)] gen [OF assms(1)] show ?thesis
    by (simp add: snap merge_type_def info_of_def)
qed

lemma load_files_ok:
  "load_files tx fs (sm, n, t) = Inr (sm', n', t') \<Longrightarrow> map_clean sm \<Longrightarrow>
   map_clean sm' \<and> history_tasks (snapshot sm') - t' = history_tasks (snapshot sm) - t"
proof (induction fs arbitrary: sm n t)
  case (Cons f fs)
  from Cons.prems(1) obtain res where res: "read_trace_file tx f = Inr res"
    and l: "load_files tx fs (case res of None \<Rightarrow> (sm, n, t)
          | Some (tid, h) \<Rightarrow> (let m = counter_total (step_cnt h)
               in if m \<noteq> 0 then (merge_type tid h sm, n + 1, t + m) else (sm, n, t))) = Inr (sm', n', t')"
    by (auto simp: ebind_Inr_iff)
  show ?case
  proof (cases "\<exists>tid h. res = Some (tid, h) \<and> counter_total (step_cnt h) \<noteq> 0")
    case True
    then obtain tid h where r: "res = Some (tid, h)" "counter_total (step_cnt h) \<noteq> 0" by blast
    with res have h: "clean h" by (simp add: read_trace_file_clean)
    have wf: "dict_wf (stm_map sm)" "dict_wf (step_cnt (info_of sm tid))"
      using Cons.prems(2) clean_info_of [OF Cons.prems(2), of tid]
      by (simp_all add: map_clean_def clean_def info_wf_iff counter_ok_def)
    from l r have "load_files tx fs (merge_type tid h sm, n + 1, t + counter_total (step_cnt h)) = Inr (sm', n', t')"
      by (simp add: Let_def)
    from Cons.IH [OF this map_clean_merge [OF Cons.prems(2) h]] history_tasks_update [OF wf, of h]
    show ?thesis by simp
  next
    case False
    with l have "load_files tx fs (sm, n, t) = Inr (sm', n', t')" by (auto simp: Let_def split: option.splits)
    then show ?thesis by (rule Cons.IH [OF _ Cons.prems(2)])
  qed
qed simp

section \<open>Loading again from the cache\<close>

lemma merge_info_init: "clean i \<Longrightarrow> merge_info step_info_init i = i"
proof -
  assume c: "clean i"
  have wf: "\<forall>(key, x) \<in> set d. dict_wf x" if "dict_wf d" "\<forall>key. counter_ok (cell d key)" for d :: "('k, counter) dict"
  proof -
    have "dict_wf x" if m: "(key, x) \<in> set d" for key x
    proof -
      from \<open>dict_wf d\<close> m have "cell d key = x" by (simp add: cell_def)
      with \<open>\<forall>key. counter_ok (cell d key)\<close> show ?thesis by (metis counter_ok_def)
    qed
    then show ?thesis by auto
  qed
  from c have "counter_ok (step_cnt i)" "cells_ok i" "step_time i = []" by (simp_all add: clean_def info_wf_iff)
  then show ?thesis
    using wf [of "state_step_cnt i"] wf [of "transition_step_cnt i"]
    by (simp add: merge_info_def step_info_init_def counter_update_fresh cells_update_fresh cells_ok_def counter_ok_def)
qed

lemma fold_merge_fresh:
  "dict_wf h \<Longrightarrow> fst ` set (stm_map sm) \<inter> fst ` set h = {} \<Longrightarrow> \<forall>i \<in> set (dict_values h). clean i \<Longrightarrow>
   fold (\<lambda>(tid, i). merge_type tid i) h sm = sm\<lparr>stm_map := stm_map sm @ h\<rparr>"
proof (induction h arbitrary: sm)
  case (Cons a h)
  obtain tid i where a: "a = (tid, i)" by fastforce
  with Cons.prems have t: "tid \<notin> fst ` set (stm_map sm)" and i: "clean i" by auto
  then have "info_of sm tid = step_info_init" by (simp add: info_of_def map_of_eq_None_iff [THEN iffD2])
  with t i have m: "merge_type tid i sm = sm\<lparr>stm_map := stm_map sm @ [(tid, i)]\<rparr>"
    by (simp add: merge_type_def merge_info_init update_fresh)
  from Cons.prems a have "dict_wf h" "tid \<notin> fst ` set h" "\<forall>i \<in> set (dict_values h). clean i"
    "fst ` set (stm_map sm) \<inter> fst ` set h = {}" by auto
  with Cons.IH [of "sm\<lparr>stm_map := stm_map sm @ [(tid, i)]\<rparr>"] show ?case by (simp add: a m)
qed simp

lemma snapshot_clean: "map_clean sm \<Longrightarrow> snapshot sm = stm_map sm"
  unfolding snapshot_def by (rule map_idI) (auto simp: map_clean_def clean_def)

definition cache_ok :: "history_cache \<Rightarrow> bool" where
  "cache_ok cache \<longleftrightarrow> (\<forall>key n h. map_of cache key = Some (n, h) \<longrightarrow>
     dict_wf h \<and> (\<forall>i \<in> set (dict_values h). clean i))"

lemma load_cached:
  assumes "dict_wf h" "\<forall>i \<in> set (dict_values h). clean i"
  shows "fold (\<lambda>(tid, i). merge_type tid i) h step_map_init = step_map_init\<lparr>stm_map := h\<rparr>"
  using fold_merge_fresh [OF assms(1) _ assms(2), of step_map_init] by (simp add: step_map_init_def)

lemma load_data_ok:
  assumes "load_data_from_traces tx key files cache step_map_init = Inr ((n, t), sm, cache')" "cache_ok cache"
  shows "map_clean sm \<and> cache_ok cache'"
proof (cases files)
  case None
  with assms show ?thesis by (auto simp: load_data_from_traces_def map_clean_init)
next
  case (Some fs)
  show ?thesis
  proof (cases "map_of cache key")
    case (Some nh)
    obtain m h where nh: "nh = (m, h)" by fastforce
    with Some assms(2) have h: "dict_wf h" "\<forall>i \<in> set (dict_values h). clean i" by (auto simp: cache_ok_def)
    with assms Some nh \<open>files = Some fs\<close> have "sm = step_map_init\<lparr>stm_map := h\<rparr>" "cache' = cache"
      by (simp_all add: load_data_from_traces_def load_cached)
    with h assms(2) show ?thesis by (simp add: map_clean_def step_map_init_def)
  next
    case None
    with assms(1) Some have l: "load_files tx (sort_key tf_name fs) (step_map_init, 0, 0) = Inr (sm, n, t)"
      and c: "cache' = (if t \<noteq> 0 then AList.update key (n, snapshot sm) cache else cache)"
      by (auto simp: load_data_from_traces_def ebind_Inr_iff)
    from load_files_ok [OF l map_clean_init] have m: "map_clean sm" by simp
    have "cache_ok (AList.update key (n, snapshot sm) cache)"
      using m assms(2) by (auto simp: cache_ok_def snapshot_clean map_clean_def)
    with m c assms(2) show ?thesis by simp
  qed
qed

definition sample_trace :: trace_file where
  "sample_trace = \<lparr>tf_name = ''mbpp_react.json'', tf_stem = ''mbpp_react'',
     tf_args = ([JObj []], False),
     tf_summaries = ([JObj [(''turns_taken'', JInt 2)], JNull, JObj [(''turns_taken'', JStr ''3'')]], False),
     tf_steps = ([JList [], JNull], False)\<rparr>"


definition trace_text :: pytext where
  "trace_text = \<lparr>float_repr = (\<lambda>_. ''0.0''), container_repr = (\<lambda>_. ''{}'')\<rparr>"

definition sample_info :: step_info where
  "sample_info = \<lparr>step_cnt = [(2, 1), (3, 1)],
     state_step_cnt = [((0, ''start''), [(2, 1)]), ((1, ''normal''), [(2, 1)])],
     transition_step_cnt = [((0, ''bos'', ''start''), [(2, 1)]), ((1, ''start'', ''normal''), [(2, 1)])],
     step_time = []\<rparr>"

definition sample_loaded :: step_map where
  "sample_loaded = \<lparr>stm_map = [(''workflow[react]_workload[mbpp]'', sample_info)], history_source = ''d''\<rparr>"

definition sample_cache :: history_cache where
  "sample_cache = [(''d'', 1, [(''workflow[react]_workload[mbpp]'', sample_info)])]"

lemma sample_load:
  "step_map_new trace_text ''d'' ''d'' True (Some [sample_trace]) [] = Inr (sample_loaded, sample_cache)"
  by code_simp

text \<open>The predictor starts with consistent tables whatever the trace files hold, be they malformed,
  truncated or of an unknown type, and whether they are read or taken from the cache of an earlier
  load: no cell counts an endpoint more often than the endpoint table.\<close>

theorem loaded_tables_ok:
  assumes "step_map_new tx trace_dir key load_history files cache = Inr (sm, cache')" "cache_ok cache"
  shows "map_ok sm \<and> cache_ok cache'"
proof (cases load_history)
  case False
  with assms show ?thesis by (simp add: step_map_new_def map_ok_init)
next
  case True
  with assms(1) obtain n t sm' where
    l: "load_data_from_traces tx key files cache step_map_init = Inr ((n, t), sm', cache')"
    and sm: "sm = (if t \<noteq> 0 then sm'\<lparr>history_source := trace_dir\<rparr> else sm')"
    by (auto simp: step_map_new_def ebind_Inr_iff)
  from load_data_ok [OF l assms(2)] have m: "map_clean sm'" "cache_ok cache'" by simp_all
  have "info_of sm = info_of sm'" using sm by (auto simp: info_of_def)
  with m map_clean_ok [OF m(1)] show ?thesis by (simp add: map_ok_def)
qed

theorem loaded_tables_ok_witness: "map_ok sample_loaded \<and> cache_ok sample_cache"
  by (rule loaded_tables_ok [OF sample_load]) (simp add: cache_ok_def)

text \<open>Loading a directory again in the same process gives the same predictor: once a load has filled
  the cache entry of its directory, a later construction from that entry has exactly the tables, in
  the same order, and the same history source, whatever has become of the files.\<close>

theorem cached_load_equal:
  assumes "step_map_new tx trace_dir key True (Some fs) cache = Inr (sm, cache')"
    and "map_of cache key = None" "map_of cache' key \<noteq> None"
  shows "step_map_new tx' trace_dir key True (Some fs') cache' = Inr (sm, cache')"
proof -
  from assms(1,2) obtain n t sm' where
    l: "load_files tx (sort_key tf_name fs) (step_map_init, 0, 0) = Inr (sm', n, t)"
    and sm: "sm = (if t \<noteq> 0 then sm'\<lparr>history_source := trace_dir\<rparr> else sm')"
    and c: "cache' = (if t \<noteq> 0 then AList.update key (n, snapshot sm') cache else cache)"
    by (auto simp: step_map_new_def load_data_from_traces_def ebind_Inr_iff)
  from load_files_ok [OF l map_clean_init] have m: "map_clean sm'"
    and t: "history_tasks (snapshot sm') = t"
    by (simp_all add: history_tasks_def snapshot_def step_map_init_def)
  from m have "fold (\<lambda>(tid, i). merge_type tid i) (stm_map sm') step_map_init = step_map_init\<lparr>stm_map := stm_map sm'\<rparr>"
    by (intro load_cached) (simp_all add: map_clean_def)
  also have "\<dots> = sm'" using m by (simp add: map_clean_def step_map_init_def)
  finally have f: "fold (\<lambda>(tid, i). merge_type tid i) (snapshot sm') step_map_init = sm'"
    by (simp add: snapshot_clean [OF m])
  from assms(2,3) c have "t \<noteq> 0" by (auto split: if_splits)
  with c sm f t show ?thesis
    by (simp add: step_map_new_def load_data_from_traces_def ebind_def)
qed

theorem cached_load_equal_witness:
  "step_map_new trace_text ''d'' ''d'' True (Some []) sample_cache = Inr (sample_loaded, sample_cache)"
  by (rule cached_load_equal [OF sample_load]) (simp_all add: sample_cache_def)

end
