(* ===== verification/FreeQueue.thy ===== *)
theory FreeQueue
  imports Prelude
begin

text \<open>
  The doubly linked queue of free cache blocks of the inference engine (\<open>FreeKVCacheBlockQueue\<close> of
  \<open>src/vllm-v0.17.1/vllm/v1/core/kv_cache_utils.py\<close>). The nodes are the blocks and the two fake ends;
  \<open>prev_free_block\<close> and \<open>next_free_block\<close>, which only the queue writes, are two maps from nodes to
  nodes. The queue refines a list of block numbers.
\<close>

datatype node = Head | Tail | Blk nat

record fqueue =
  prev_free :: "node \<Rightarrow> node option"
  next_free :: "node \<Rightarrow> node option"
  num_free_blocks :: int

section \<open>Operations\<close>

definition link :: "node \<Rightarrow> node \<Rightarrow> fqueue \<Rightarrow> fqueue" where
  "link a b q = q\<lparr>next_free := (next_free q)(a := Some b), prev_free := (prev_free q)(b := Some a)\<rparr>"

definition unlink :: "node \<Rightarrow> fqueue \<Rightarrow> fqueue" where
  "unlink a q = q\<lparr>next_free := (next_free q)(a := None), prev_free := (prev_free q)(a := None)\<rparr>"

text \<open>\<open>__init__\<close> over blocks without links.\<close>

fun link_all :: "node list \<Rightarrow> fqueue \<Rightarrow> fqueue" where
  "link_all (a # b # ns) q = link_all (b # ns) (link a b q)"
| "link_all _ q = q"

definition fq_init :: "nat list \<Rightarrow> fqueue" where
  "fq_init bs =
     (let q = link_all (map Blk bs)
                \<lparr>prev_free = (\<lambda>_. None), next_free = (\<lambda>_. None), num_free_blocks = int (length bs)\<rparr>
      in if bs \<noteq> [] then link (Blk (last bs)) Tail (link Head (Blk (hd bs)) q) else link Head Tail q)"

definition popleft :: "fqueue \<Rightarrow> (py_error + nat) \<times> fqueue" where
  "popleft q =
     (case next_free q Head of
        Some (Blk b) \<Rightarrow>
          (case next_free q (Blk b) of
             None \<Rightarrow> (Inl RuntimeError, q)
           | Some n \<Rightarrow> (Inr b, (unlink (Blk b) (link Head n q))\<lparr>num_free_blocks := num_free_blocks q - 1\<rparr>))
      | _ \<Rightarrow> (Inl (if num_free_blocks q = 0 then ValueError else AssertionError), q))"

text \<open>The loop of \<open>popleft_n\<close>: the blocks taken, the node after them and the links.\<close>

fun take_nodes :: "nat \<Rightarrow> node option \<Rightarrow> fqueue \<Rightarrow> (py_error + node list \<times> node option) \<times> fqueue" where
  "take_nodes 0 cur q = (Inr ([], cur), q)"
| "take_nodes (Suc n) cur q =
     (case cur of
        None \<Rightarrow> (Inl AssertionError, q)
      | Some c \<Rightarrow>
          (case take_nodes n (next_free q c) (unlink c q) of
             (Inl e, q') \<Rightarrow> (Inl e, q')
           | (Inr (cs, cur'), q') \<Rightarrow> (Inr (c # cs, cur'), q')))"

definition popleft_n :: "int \<Rightarrow> fqueue \<Rightarrow> (py_error + node list) \<times> fqueue" where
  "popleft_n n q =
     (if n = 0 then (Inr [], q)
      else if num_free_blocks q < n then (Inl AssertionError, q)
      else (let q1 = q\<lparr>num_free_blocks := num_free_blocks q - n\<rparr>
            in case take_nodes (nat n) (next_free q1 Head) q1 of
                 (Inl e, q2) \<Rightarrow> (Inl e, q2)
               | (Inr (cs, cur), q2) \<Rightarrow>
                   (Inr cs, case cur of Some c \<Rightarrow> link Head c q2 | None \<Rightarrow> q2)))"

definition remove_block :: "nat \<Rightarrow> fqueue \<Rightarrow> (py_error + unit) \<times> fqueue" where
  "remove_block b q =
     (case (prev_free q (Blk b), next_free q (Blk b)) of
        (Some p, Some n) \<Rightarrow> (Inr (), (unlink (Blk b) (link p n q))\<lparr>num_free_blocks := num_free_blocks q - 1\<rparr>)
      | _ \<Rightarrow> (Inl RuntimeError, q))"

definition append_block :: "nat \<Rightarrow> fqueue \<Rightarrow> (py_error + unit) \<times> fqueue" where
  "append_block b q =
     (case prev_free q Tail of
        None \<Rightarrow> (Inl RuntimeError, q)
      | Some l \<Rightarrow> (Inr (), (link (Blk b) Tail (link l (Blk b) q))\<lparr>num_free_blocks := num_free_blocks q + 1\<rparr>))"

definition append_n :: "nat list \<Rightarrow> fqueue \<Rightarrow> (py_error + unit) \<times> fqueue" where
  "append_n bs q =
     (if bs = [] then (Inr (), q)
      else case prev_free q Tail of
        None \<Rightarrow> (Inl AssertionError, q)
      | Some l \<Rightarrow>
          (Inr (), (link (Blk (last bs)) Tail (link_all (l # map Blk bs) q))
             \<lparr>num_free_blocks := num_free_blocks q + int (length bs)\<rparr>))"

text \<open>The loop of \<open>get_all_free_blocks\<close> follows the links until a node without a successor; over a
  cycle it does not end.\<close>

partial_function (option) walk :: "fqueue \<Rightarrow> node \<Rightarrow> node list option" where
  "walk q c =
     (case next_free q c of
        None \<Rightarrow> Some []
      | Some n \<Rightarrow> Option.bind (walk q n) (\<lambda>cs. Some (c # cs)))"

definition get_all_free_blocks :: "fqueue \<Rightarrow> py_error + node list option" where
  "get_all_free_blocks q =
     (case next_free q Head of None \<Rightarrow> Inl RuntimeError | Some c \<Rightarrow> Inr (walk q c))"

section \<open>The links of a list\<close>

fun nexts :: "node \<Rightarrow> node list \<Rightarrow> node \<Rightarrow> node option" where
  "nexts a [] = [a \<mapsto> Tail]"
| "nexts a (x # xs) = (nexts x xs)(a \<mapsto> x)"

fun prevs :: "node \<Rightarrow> node list \<Rightarrow> node \<Rightarrow> node option" where
  "prevs a [] = [Tail \<mapsto> a]"
| "prevs a (x # xs) = (prevs x xs)(x \<mapsto> a)"

definition repr :: "nat list \<Rightarrow> fqueue" where
  "repr bs = \<lparr>prev_free = prevs Head (map Blk bs), next_free = nexts Head (map Blk bs),
     num_free_blocks = int (length bs)\<rparr>"

text \<open>\<open>fq_rel q bs\<close>: the linked structure holds exactly the blocks \<open>bs\<close>, in this order, and no other
  block has a link.\<close>

definition fq_rel :: "fqueue \<Rightarrow> nat list \<Rightarrow> bool" where
  "fq_rel q bs \<longleftrightarrow> q = repr bs \<and> distinct bs"

lemma nexts_None: "n \<notin> set (a # xs) \<Longrightarrow> nexts a xs n = None"
  by (induction xs arbitrary: a) auto

lemma prevs_None: "n \<noteq> Tail \<Longrightarrow> n \<notin> set xs \<Longrightarrow> prevs a xs n = None"
  by (induction xs arbitrary: a) auto

lemma prevs_Tail: "Tail \<notin> set xs \<Longrightarrow> prevs a xs Tail = Some (last (a # xs))"
  by (induction xs arbitrary: a) auto

lemma nexts_append: "distinct (a # xs @ ys) \<Longrightarrow>
    nexts a (xs @ ys) n = (if n \<in> set (butlast (a # xs)) then nexts a xs n else nexts (last (a # xs)) ys n)"
proof (induction xs arbitrary: a)
  case (Cons x xs)
  from Cons.prems have a: "a \<notin> set (x # xs)" "a \<notin> set ys" "distinct (x # xs @ ys)" by auto
  then have "a \<noteq> last (x # xs)" "a \<notin> set (butlast (x # xs))"
    using last_in_set [of "x # xs"] in_set_butlastD [of a "x # xs"] by auto
  with a Cons.IH [of x] show ?case by (auto simp: nexts_None)
qed simp

lemma prevs_append: "distinct (a # xs @ ys) \<Longrightarrow> Tail \<notin> set (xs @ ys) \<Longrightarrow>
    prevs a (xs @ ys) n = (if n \<in> set xs then prevs a xs n else prevs (last (a # xs)) ys n)"
proof (induction xs arbitrary: a)
  case (Cons x xs)
  then have "prevs x (xs @ ys) n = (if n \<in> set xs then prevs x xs n else prevs (last (x # xs)) ys n)" by simp
  with Cons.prems show ?case by (auto simp: prevs_None)
qed simp

lemma nexts_start: "a \<notin> set xs \<Longrightarrow> b \<notin> set xs \<Longrightarrow>
    nexts a xs = (nexts b xs)(b := None, a \<mapsto> hd (xs @ [Tail]))"
proof (cases xs)
  case (Cons x ys)
  assume "a \<notin> set xs" "b \<notin> set xs"
  with Cons have "nexts x ys a = None" "nexts x ys b = None" by (simp_all add: nexts_None)
  with Cons show ?thesis by (auto simp: fun_eq_iff)
qed (auto simp: fun_eq_iff)

lemma prevs_start: "prevs a xs = (prevs b xs)(hd (xs @ [Tail]) \<mapsto> a)"
  by (cases xs) (auto simp: fun_eq_iff)

lemma link_all_next: "distinct (a # xs) \<Longrightarrow>
    next_free (link_all (a # xs) q) n = (if n \<in> set (butlast (a # xs)) then nexts a xs n else next_free q n)"
proof (induction xs arbitrary: a q)
  case (Cons x xs)
  then have "a \<notin> set (butlast (x # xs))" by (auto dest: in_set_butlastD)
  with Cons.prems Cons.IH [of x "link a x q"] show ?case by (auto simp: link_def)
qed simp

lemma link_all_prev: "distinct (a # xs) \<Longrightarrow> Tail \<notin> set xs \<Longrightarrow>
    prev_free (link_all (a # xs) q) n = (if n \<in> set xs then prevs a xs n else prev_free q n)"
proof (induction xs arbitrary: a q)
  case (Cons x xs)
  with Cons.IH [of x "link a x q"] show ?case by (auto simp: link_def)
qed simp

lemma link_all_num [simp]: "num_free_blocks (link_all ns q) = num_free_blocks q"
  by (induction ns q rule: link_all.induct) (simp_all add: link_def)

lemma fqueue_eqI: "(\<And>n. prev_free q n = prev_free q' n) \<Longrightarrow> (\<And>n. next_free q n = next_free q' n) \<Longrightarrow>
    num_free_blocks q = num_free_blocks q' \<Longrightarrow> q = (q' :: fqueue)"
  by (cases q; cases q') (auto simp: fun_eq_iff)

lemma distinct_Blk [simp]: "distinct (map Blk bs) = distinct bs"
  by (simp add: distinct_map inj_on_def)

lemma Blk_mem [simp]: "Blk b \<in> Blk ` A \<longleftrightarrow> b \<in> A" "Head \<notin> Blk ` A" "Tail \<notin> Blk ` A"
  by auto

section \<open>Refinement\<close>

lemma last_Blk [simp]: "bs \<noteq> [] \<Longrightarrow> last (map Blk bs) = Blk (last bs)"
  by (simp add: last_map)

lemma mem_last_or_butlast: "x \<in> set (a # xs) \<longleftrightarrow> x = last (a # xs) \<or> x \<in> set (butlast (a # xs))"
  by (induction xs arbitrary: a) auto

lemma nexts_last: "distinct (a # xs) \<Longrightarrow> nexts a xs (last (a # xs)) = Some Tail"
proof (induction xs arbitrary: a)
  case (Cons x xs)
  have "last (x # xs) \<in> set (x # xs)" by (rule last_in_set) simp
  with Cons show ?case by auto
qed simp

lemma append_links:
  assumes "distinct (bs @ cs)" "cs \<noteq> []"
  shows "(link (Blk (last cs)) Tail (link_all (last (Head # map Blk bs) # map Blk cs) (repr bs)))
      \<lparr>num_free_blocks := int (length bs) + int (length cs)\<rparr> = repr (bs @ cs)" (is "?q = _")
proof (rule fqueue_eqI)
  let ?l = "last (Head # map Blk bs)" and ?B = "map Blk bs" and ?C = "map Blk cs"
  have l: "?l \<notin> set ?C" "?l \<noteq> Tail"
    using assms(1) by (cases bs rule: rev_cases; auto)+
  have d: "distinct (Head # ?B @ ?C)" "distinct (?l # ?C)"
    using assms(1) l(1) by (auto simp: distinct_map inj_on_def)
  have lc: "last (?l # ?C) = Blk (last cs)" using assms(2) by simp
  fix n
  show "num_free_blocks ?q = num_free_blocks (repr (bs @ cs))" by (simp add: repr_def)
  have "prev_free ?q n = (if n = Tail then Some (Blk (last cs)) else if n \<in> set ?C then prevs ?l ?C n else prevs Head ?B n)"
    using link_all_prev [OF d(2), of "repr bs" n] by (auto simp: link_def repr_def)
  also have "\<dots> = prevs Head (?B @ ?C) n"
    using prevs_append [OF d(1), of n] prevs_Tail [of ?C ?l] lc assms(1)
    by (cases "n \<in> set ?C") (auto simp: prevs_None)
  finally show "prev_free ?q n = prev_free (repr (bs @ cs)) n" by (simp add: repr_def)
  have "next_free ?q n = (if n = Blk (last cs) then Some Tail else if n \<in> set (butlast (?l # ?C)) then nexts ?l ?C n
      else nexts Head ?B n)"
    using link_all_next [OF d(2), of "repr bs" n] by (auto simp: link_def repr_def)
  also have "\<dots> = nexts Head (?B @ ?C) n"
  proof (cases "n \<in> set (?l # ?C)")
    case True
    then have "n \<notin> set (butlast (Head # ?B))"
      using d(1) l(1) by (cases bs rule: rev_cases) (auto simp: butlast_append)
    with True show ?thesis
      using nexts_append [OF d(1), of n] nexts_last [OF d(2)] lc mem_last_or_butlast [of n ?l ?C] by auto
  next
    case False
    with lc have n: "n \<noteq> Blk (last cs)" "n \<notin> set (butlast (?l # ?C))" "n \<noteq> ?l"
      using mem_last_or_butlast [of n ?l ?C] by auto
    show ?thesis
    proof (cases "n \<in> set (butlast (Head # ?B))")
      case True
      with n show ?thesis using nexts_append [OF d(1), of n] by simp
    next
      case f: False
      with n(3) have "n \<notin> set (Head # ?B)" using mem_last_or_butlast [of n Head ?B] by blast
      then have "nexts Head ?B n = None" by (rule nexts_None)
      moreover have "nexts ?l ?C n = None" using False by (rule nexts_None)
      ultimately show ?thesis using n f nexts_append [OF d(1), of n] by simp
    qed
  qed
  finally show "next_free ?q n = next_free (repr (bs @ cs)) n" by (simp add: repr_def)
qed

lemma remove_links:
  assumes "distinct (us @ w # vs)"
  defines "p \<equiv> last (Head # map Blk us)" and "s \<equiv> hd (map Blk vs @ [Tail])"
  shows "prev_free (repr (us @ w # vs)) (Blk w) = Some p \<and> next_free (repr (us @ w # vs)) (Blk w) = Some s \<and>
    (unlink (Blk w) (link p s (repr (us @ w # vs))))\<lparr>num_free_blocks := int (length (us @ w # vs)) - 1\<rparr> = repr (us @ vs)"
    (is "_ \<and> _ \<and> ?q = _")
proof -
  let ?U = "map Blk us" and ?V = "map Blk vs" and ?W = "Blk w"
  have d: "distinct (Head # ?U @ ?W # ?V)" "distinct (Head # ?U @ ?V)"
    using assms(1) by (auto simp: distinct_map inj_on_def)
  have p: "p \<notin> set ?V" "p \<noteq> ?W" "p \<noteq> Tail" "p \<notin> set (butlast (Head # ?U))" "?W \<notin> set ?V" "?W \<notin> set (Head # ?U)"
    using assms(1) unfolding p_def by (cases us rule: rev_cases; auto simp: butlast_append)+
  have sW: "s \<noteq> ?W" and sU: "s \<notin> set ?U" using assms(1) unfolding s_def by (cases vs; auto)+
  have next_eq: "nexts Head (?U @ ?W # ?V) n = (if n \<in> set (butlast (Head # ?U)) then nexts Head ?U n else nexts p (?W # ?V) n)" for n
    using nexts_append [OF d(1), of n] by (simp add: p_def)
  have prev_eq: "prevs Head (?U @ ?W # ?V) n = (if n \<in> set ?U then prevs Head ?U n else prevs p (?W # ?V) n)" for n
    using prevs_append [OF d(1), of n] by (simp add: p_def)
  have W: "?W \<notin> set (butlast (Head # ?U))" using p(6) by (auto dest: in_set_butlastD)
  have "prevs Head (?U @ ?W # ?V) ?W = Some p" using prev_eq [of ?W] p(6) by simp
  moreover have "nexts Head (?U @ ?W # ?V) ?W = Some s"
    using next_eq [of ?W] W p(2) by (cases vs) (auto simp: s_def)
  moreover have "?q = repr (us @ vs)"
  proof (rule fqueue_eqI)
    fix n
    have "nexts p ?V = (nexts ?W ?V)(?W := None, p \<mapsto> s)"
      using nexts_start [OF p(1) p(5)] by (simp add: s_def)
    moreover have "nexts Head (?U @ ?V) n = (if n \<in> set (butlast (Head # ?U)) then nexts Head ?U n else nexts p ?V n)"
      using nexts_append [OF d(2), of n] by (simp add: p_def)
    ultimately show "next_free ?q n = next_free (repr (us @ vs)) n"
      using next_eq [of n] W p by (auto simp: repr_def link_def unlink_def)
    have "prevs p ?V = (prevs ?W ?V)(s \<mapsto> p)" using prevs_start by (simp add: s_def)
    moreover have "prevs Head (?U @ ?V) n = (if n \<in> set ?U then prevs Head ?U n else prevs p ?V n)"
      using prevs_append [OF d(2), of n] by (simp add: p_def)
    moreover have "prevs ?W ?V ?W = None" using p(5) by (simp add: prevs_None)
    ultimately show "prev_free ?q n = prev_free (repr (us @ vs)) n"
      using prev_eq [of n] p(6) sW sU by (auto simp: repr_def link_def unlink_def)
  qed (simp add: repr_def)
  ultimately show ?thesis by (simp add: repr_def)
qed

fun chain :: "(node \<Rightarrow> node option) \<Rightarrow> node list \<Rightarrow> node \<Rightarrow> bool" where
  "chain f [] z = True"
| "chain f (c # cs) z = (f c = Some (hd (cs @ [z])) \<and> chain f cs z)"

lemma chain_upd [simp]: "a \<notin> set cs \<Longrightarrow> chain (f(a := v)) cs z = chain f cs z"
  by (induction cs) auto

lemma chain_nexts: "distinct (a # cs @ ds) \<Longrightarrow>
    chain (nexts a (cs @ ds)) (a # cs) (hd (ds @ [Tail]))"
proof (induction cs arbitrary: a)
  case Nil
  then show ?case by (cases ds) auto
next
  case (Cons c cs)
  then have ih: "chain (nexts c (cs @ ds)) (c # cs) (hd (ds @ [Tail]))" and a: "a \<notin> set (c # cs)" by auto
  have "nexts a ((c # cs) @ ds) = (nexts c (cs @ ds))(a \<mapsto> c)" by simp
  with chain_upd [OF a] ih have "chain (nexts a ((c # cs) @ ds)) (c # cs) (hd (ds @ [Tail]))" by metis
  moreover have "nexts a ((c # cs) @ ds) a = Some (hd ((c # cs) @ [hd (ds @ [Tail])]))" by simp
  ultimately show ?case by (subst chain.simps(2)) (rule conjI)
qed

lemma take_nodes_chain: "distinct cs \<Longrightarrow> chain (next_free q) cs z \<Longrightarrow>
    take_nodes (length cs) (Some (hd (cs @ [z]))) q = (Inr (cs, Some z), fold unlink cs q)"
proof (induction cs arbitrary: q)
  case (Cons c cs)
  then have "chain (next_free (unlink c q)) cs z" by (simp add: unlink_def)
  with Cons show ?case by simp
qed simp

lemma fold_unlink: "fold unlink cs q = q\<lparr>next_free := (\<lambda>n. if n \<in> set cs then None else next_free q n),
    prev_free := (\<lambda>n. if n \<in> set cs then None else prev_free q n)\<rparr>"
  by (induction cs arbitrary: q) (auto simp: unlink_def fun_eq_iff intro!: fqueue_eqI)

lemma popleft_n_links:
  assumes "distinct (cs @ ds)" "cs \<noteq> []"
  shows "popleft_n (int (length cs)) (repr (cs @ ds)) = (Inr (map Blk cs), repr ds)"
proof -
  let ?C = "map Blk cs" and ?D = "map Blk ds" and ?z = "hd (map Blk ds @ [Tail])"
  have d: "distinct (Head # ?C @ ?D)" using assms(1) by (auto simp: distinct_map inj_on_def)
  let ?q = "(repr (cs @ ds))\<lparr>num_free_blocks := int (length ds)\<rparr>"
  have h: "next_free ?q Head = Some (hd (?C @ [?z]))" and ch: "chain (next_free ?q) ?C ?z"
    using chain_nexts [OF d] assms(2) by (simp_all add: repr_def)
  have take: "take_nodes (length cs) (next_free ?q Head) ?q = (Inr (?C, Some ?z), fold unlink ?C ?q)"
    unfolding h using take_nodes_chain [OF _ ch] d by simp
  have last: "last (Head # ?C) \<notin> set ?D" "last (Head # ?C) \<in> set ?C" "Head \<notin> set ?D"
    using assms by (cases cs rule: rev_cases; auto)+
  have "link Head ?z (fold unlink ?C ?q) = repr ds"
  proof (rule fqueue_eqI)
    fix n
    consider "n = Head" | "n \<in> set ?C" "n \<noteq> Head" | "n \<notin> set (Head # ?C)" by auto
    then have "(if n = Head then Some ?z else if n \<in> set ?C then None else nexts Head (?C @ ?D) n) = nexts Head ?D n"
    proof cases
      case 1
      then show ?thesis by (subst nexts_start [OF last(3,1)]) simp
    next
      case 2
      with d have "n \<notin> set (Head # ?D)" by auto
      with 2 show ?thesis by (simp add: nexts_None)
    next
      case 3
      then have "n \<noteq> last (Head # ?C)" "n \<notin> set (butlast (Head # ?C))"
        using mem_last_or_butlast [of n Head ?C] by auto
      with 3 nexts_append [OF d, of n] have "nexts Head (?C @ ?D) n = nexts (last (Head # ?C)) ?D n" by simp
      also have "\<dots> = nexts Head ?D n"
        using \<open>n \<noteq> last (Head # ?C)\<close> 3 by (subst nexts_start [OF last(3,1)]) (simp del: last.simps)
      finally show ?thesis using 3 by simp
    qed
    then show "next_free (link Head ?z (fold unlink ?C ?q)) n = next_free (repr ds) n"
      by (auto simp: link_def fold_unlink repr_def split: if_splits)
    have z: "?z \<notin> set ?C" using d by (cases ds) auto
    consider "n = ?z" | "n \<in> set ?C" "n \<noteq> ?z" | "n \<notin> set ?C" "n \<noteq> ?z" by auto
    then have "(if n = ?z then Some Head else if n \<in> set ?C then None else prevs Head (?C @ ?D) n) = prevs Head ?D n"
    proof cases
      case 1
      then show ?thesis by (subst prevs_start [of Head ?D "last (Head # ?C)"]) simp
    next
      case 2
      with d have "n \<noteq> Tail" "n \<notin> set ?D" by auto
      with 2 show ?thesis by (simp add: prevs_None)
    next
      case 3
      then have "prevs Head (?C @ ?D) n = prevs (last (Head # ?C)) ?D n"
        using prevs_append [OF d, of n] by auto
      also have "\<dots> = prevs Head ?D n"
        using 3 by (subst prevs_start [of Head ?D "last (Head # ?C)"]) simp
      finally show ?thesis using 3 by simp
    qed
    then show "prev_free (link Head ?z (fold unlink ?C ?q)) n = prev_free (repr ds) n"
      by (auto simp: link_def fold_unlink repr_def split: if_splits)
  qed (simp add: link_def fold_unlink repr_def)
  then show ?thesis using take assms(2) by (simp add: popleft_n_def Let_def repr_def)
qed

lemma walk_chain: "chain f cs z \<Longrightarrow> cs \<noteq> [] \<Longrightarrow> next_free q = f \<Longrightarrow> f z = None \<Longrightarrow> walk q (hd cs) = Some cs"
proof (induction cs)
  case (Cons c cs)
  show ?case
  proof (cases cs)
    case Nil
    with Cons.prems show ?thesis by (simp add: walk.simps [of q c] walk.simps [of q z])
  next
    case (Cons d ds)
    with Cons.prems Cons.IH show ?thesis by (simp add: walk.simps [of q c])
  qed
qed simp

lemma repr_num: "num_free_blocks (repr bs) = int (length bs)"
  by (simp add: repr_def)

lemma fq_init_repr: "distinct bs \<Longrightarrow> fq_init bs = repr bs"
proof (cases bs)
  case Nil
  then show ?thesis by (auto simp: fq_init_def repr_def link_def intro!: fqueue_eqI)
next
  case (Cons b cs)
  assume dis: "distinct bs"
  let ?C = "map Blk cs" and ?z = "\<lparr>prev_free = (\<lambda>_. None), next_free = (\<lambda>_. None), num_free_blocks = int (length bs)\<rparr>"
  have d: "distinct (Blk b # ?C)" "Tail \<notin> set ?C" using dis Cons by auto
  have last: "last (Blk b # ?C) = Blk (last bs)" using Cons by (cases cs) auto
  have q: "fq_init bs = link (Blk (last bs)) Tail (link Head (Blk b) (link_all (Blk b # ?C) ?z))"
    using Cons by (simp add: fq_init_def)
  show ?thesis
  proof (rule fqueue_eqI)
    fix n
    have "nexts (Blk b) ?C n = None" if "n \<notin> set (Blk b # ?C)" by (rule nexts_None [OF that])
    then show "next_free (fq_init bs) n = next_free (repr bs) n"
      using link_all_next [OF d(1), of ?z n] nexts_last [OF d(1)] last mem_last_or_butlast [of n "Blk b" ?C] Cons
      unfolding q by (auto simp: link_def repr_def)
    have "prevs (Blk b) ?C n = None" if "n \<noteq> Tail" "n \<notin> set ?C" using that by (intro prevs_None)
    then show "prev_free (fq_init bs) n = prev_free (repr bs) n"
      using link_all_prev [OF d, of ?z n] prevs_Tail [OF d(2), of "Blk b"] last d Cons
      unfolding q by (auto simp: link_def repr_def)
  qed (simp add: q link_def repr_def)
qed

lemma popleft_refines: "distinct bs \<Longrightarrow> popleft (repr bs)
    = (case bs of [] \<Rightarrow> (Inl ValueError, repr []) | b # cs \<Rightarrow> (Inr b, repr cs))"
proof (cases bs)
  case (Cons b cs)
  assume "distinct bs"
  with Cons remove_links [of "[]" b cs] show ?thesis
    by (simp add: popleft_def) (simp add: repr_def)
qed (simp add: popleft_def repr_def)

lemma popleft_n_refines: "distinct bs \<Longrightarrow> 0 \<le> n \<Longrightarrow> popleft_n n (repr bs)
    = (if int (length bs) < n then (Inl AssertionError, repr bs)
       else (Inr (map Blk (take (nat n) bs)), repr (drop (nat n) bs)))"
proof (cases "n = 0 \<or> int (length bs) < n")
  case True
  then show ?thesis by (auto simp: popleft_n_def repr_def)
next
  case False
  assume d: "distinct bs" and n: "0 \<le> n"
  with False have len: "n = int (length (take (nat n) bs))" "take (nat n) bs \<noteq> []" by auto
  have "popleft_n (int (length (take (nat n) bs))) (repr (take (nat n) bs @ drop (nat n) bs))
      = (Inr (map Blk (take (nat n) bs)), repr (drop (nat n) bs))"
    by (rule popleft_n_links [OF _ len(2)]) (simp add: d)
  with False len(1) show ?thesis by simp
qed

lemma remove_refines: "distinct bs \<Longrightarrow> remove_block b (repr bs)
    = (if b \<in> set bs then (Inr (), repr (remove1 b bs)) else (Inl RuntimeError, repr bs))"
proof (cases "b \<in> set bs")
  case True
  assume d: "distinct bs"
  from True obtain us vs where bs: "bs = us @ b # vs" by (auto simp: in_set_conv_decomp)
  with d have "remove1 b bs = us @ vs" by (simp add: remove1_append)
  moreover from remove_links [of us b vs] d bs obtain p s where "prev_free (repr bs) (Blk b) = Some p"
      "next_free (repr bs) (Blk b) = Some s"
      "(unlink (Blk b) (link p s (repr bs)))\<lparr>num_free_blocks := int (length bs) - 1\<rparr> = repr (us @ vs)"
    by blast
  ultimately show ?thesis using True by (simp add: remove_block_def repr_num)
next
  case False
  then have "prev_free (repr bs) (Blk b) = None" by (simp add: repr_def prevs_None)
  with False show ?thesis by (simp add: remove_block_def)
qed

lemma append_n_refines: "distinct (bs @ cs) \<Longrightarrow> append_n cs (repr bs) = (Inr (), repr (bs @ cs))"
proof (cases "cs = []")
  case False
  assume d: "distinct (bs @ cs)"
  have "prev_free (repr bs) Tail = Some (last (Head # map Blk bs))" by (simp add: repr_def prevs_Tail)
  moreover have "num_free_blocks (repr bs) = int (length bs)" by (simp add: repr_def)
  ultimately show ?thesis using append_links [OF d False] False by (simp add: append_n_def del: last.simps)
qed (simp add: append_n_def)

lemma append_refines: "distinct (bs @ [b]) \<Longrightarrow> append_block b (repr bs) = (Inr (), repr (bs @ [b]))"
proof -
  assume d: "distinct (bs @ [b])"
  have "prev_free (repr bs) Tail = Some (last (Head # map Blk bs))" by (simp add: repr_def prevs_Tail)
  then have "append_block b (repr bs) = append_n [b] (repr bs)" by (simp add: append_block_def append_n_def)
  with append_n_refines [OF d] show ?thesis by simp
qed

lemma get_all_refines: "distinct bs \<Longrightarrow> get_all_free_blocks (repr bs) = Inr (Some (map Blk bs))"
proof (cases bs)
  case Nil
  then show ?thesis by (simp add: get_all_free_blocks_def repr_def walk.simps)
next
  case (Cons b cs)
  assume d: "distinct bs"
  let ?f = "next_free (repr bs)"
  from d have "distinct (Head # map Blk bs @ [])" by simp
  from chain_nexts [OF this] have ch: "chain ?f (Head # map Blk bs) Tail" by (simp add: repr_def)
  then have c: "chain ?f (map Blk bs) Tail" and h: "?f Head = Some (Blk b)"
    using Cons by (simp_all only: chain.simps) simp
  have "?f Tail = None" by (simp add: repr_def nexts_None)
  with Cons have "walk (repr bs) (hd (map Blk bs)) = Some (map Blk bs)" by (intro walk_chain [OF c _ refl]) simp_all
  with h Cons show ?thesis by (simp add: get_all_free_blocks_def)
qed

section \<open>Runs\<close>

datatype fq_op = PopLeft | PopLeftN int | Remove nat | Append nat | AppendN "nat list"

fun fq_step :: "fq_op \<Rightarrow> fqueue \<Rightarrow> (py_error + node list) \<times> fqueue" where
  "fq_step PopLeft q = map_prod (map_sum id (\<lambda>b. [Blk b])) id (popleft q)"
| "fq_step (PopLeftN n) q = popleft_n n q"
| "fq_step (Remove b) q = map_prod (map_sum id (\<lambda>_. [])) id (remove_block b q)"
| "fq_step (Append b) q = map_prod (map_sum id (\<lambda>_. [])) id (append_block b q)"
| "fq_step (AppendN bs) q = map_prod (map_sum id (\<lambda>_. [])) id (append_n bs q)"

text \<open>The same on a list: a first-in-first-out queue with removal from the middle.\<close>

fun list_step :: "fq_op \<Rightarrow> nat list \<Rightarrow> (py_error + node list) \<times> nat list" where
  "list_step PopLeft bs = (case bs of [] \<Rightarrow> (Inl ValueError, []) | b # cs \<Rightarrow> (Inr [Blk b], cs))"
| "list_step (PopLeftN n) bs =
     (if int (length bs) < n then (Inl AssertionError, bs) else (Inr (map Blk (take (nat n) bs)), drop (nat n) bs))"
| "list_step (Remove b) bs = (if b \<in> set bs then (Inr [], remove1 b bs) else (Inl RuntimeError, bs))"
| "list_step (Append b) bs = (Inr [], bs @ [b])"
| "list_step (AppendN cs) bs = (Inr [], bs @ cs)"

text \<open>A caller never asks for a negative number of blocks and appends only blocks that are not in the
  queue.\<close>

fun op_ok :: "fq_op \<Rightarrow> nat list \<Rightarrow> bool" where
  "op_ok (PopLeftN n) bs = (0 \<le> n)"
| "op_ok (Append b) bs = (b \<notin> set bs)"
| "op_ok (AppendN cs) bs = (distinct cs \<and> list_all (\<lambda>b. b \<notin> set bs) cs)"
| "op_ok _ bs = True"

fun fq_run :: "fq_op list \<Rightarrow> fqueue \<Rightarrow> (py_error + node list) list \<times> fqueue" where
  "fq_run [] q = ([], q)"
| "fq_run (x # xs) q = (case fq_step x q of (res, q') \<Rightarrow> map_prod ((#) res) id (fq_run xs q'))"

fun list_run :: "fq_op list \<Rightarrow> nat list \<Rightarrow> (py_error + node list) list \<times> nat list" where
  "list_run [] bs = ([], bs)"
| "list_run (x # xs) bs = (case list_step x bs of (res, bs') \<Rightarrow> map_prod ((#) res) id (list_run xs bs'))"

fun run_ok :: "fq_op list \<Rightarrow> nat list \<Rightarrow> bool" where
  "run_ok [] bs = True"
| "run_ok (x # xs) bs = (op_ok x bs \<and> run_ok xs (snd (list_step x bs)))"

lemma fq_step_refines: "distinct bs \<Longrightarrow> op_ok x bs \<Longrightarrow>
    fq_step x (repr bs) = map_prod id repr (list_step x bs) \<and> distinct (snd (list_step x bs))"
proof (cases x)
  case (AppendN cs)
  assume "distinct bs" "op_ok x bs"
  with AppendN have "distinct (bs @ cs)" by (auto simp: list_all_iff)
  with AppendN show ?thesis by (simp add: append_n_refines)
qed (auto simp: popleft_refines popleft_n_refines remove_refines append_refines split: list.split)

lemma fq_run_refines: "distinct bs \<Longrightarrow> run_ok xs bs \<Longrightarrow>
    fq_run xs (repr bs) = map_prod id repr (list_run xs bs) \<and> distinct (snd (list_run xs bs))"
proof (induction xs arbitrary: bs)
  case (Cons x xs)
  obtain res cs where st: "list_step x bs = (res, cs)" by fastforce
  with fq_step_refines [OF Cons.prems(1), of x] Cons.prems(2) have "fq_step x (repr bs) = (res, repr cs)" "distinct cs"
    by auto
  moreover from Cons.prems st have "run_ok xs cs" by simp
  ultimately show ?case using Cons.IH [of cs] st by (cases "list_run xs cs") auto
qed simp

text \<open>C33: The linked queue of free blocks is a list: whatever sequence of pops, batch pops, removals from
  the middle and appends a caller makes, every operation returns what it returns on a plain list, with
  the same errors, and walking the links afterwards ends with exactly the blocks of that list, in
  order.\<close>

theorem free_queue_refines_list:
  assumes "distinct bs" "run_ok xs bs"
  shows "fst (fq_run xs (fq_init bs)) = fst (list_run xs bs) \<and>
    get_all_free_blocks (snd (fq_run xs (fq_init bs))) = Inr (Some (map Blk (snd (list_run xs bs)))) \<and>
    num_free_blocks (snd (fq_run xs (fq_init bs))) = int (length (snd (list_run xs bs)))"
  using fq_run_refines [OF assms] by (simp add: fq_init_repr [OF assms(1)] get_all_refines repr_num)

theorem free_queue_refines_list_witness:
  "get_all_free_blocks (snd (fq_run [Remove 2, PopLeftN 2, Append 2, PopLeftN 9, AppendN [1, 0], PopLeft] (fq_init [0, 1, 2, 3])))
     = Inr (Some [Blk 2, Blk 1, Blk 0])"
  using free_queue_refines_list [of "[0, 1, 2, 3]" "[Remove 2, PopLeftN 2, Append 2, PopLeftN 9, AppendN [1, 0], PopLeft]"]
  by simp

end
