(* ===== verification/BlockHash.thy ===== *)
theory BlockHash
  imports Prelude "HOL-Library.Word" "HOL-Library.Countable"
begin

text \<open>
  Keys of the engine's prefix cache (\<open>src/vllm-v0.17.1/vllm/v1/core/kv_cache_utils.py\<close>): the byte
  encoding of a block hash with its cache group, the extra keys of a block, and the chain of block
  hashes of a request. The hash function (a digest) and the digest of a slice of prompt embeddings are
  arguments.
\<close>

type_synonym bytes = "8 word list"

section \<open>Block hash and group in one key\<close>

text \<open>\<open>n.to_bytes(k, "big")\<close> of a number that fits, and \<open>int.from_bytes\<close>.\<close>

fun to_big_endian :: "nat \<Rightarrow> nat \<Rightarrow> bytes" where
  "to_big_endian 0 n = []"
| "to_big_endian (Suc k) n = to_big_endian k (n div 256) @ [word_of_nat (n mod 256)]"

definition from_big_endian :: "bytes \<Rightarrow> nat" where
  "from_big_endian bs = foldl (\<lambda>n b. 256 * n + unat b) 0 bs"

definition make_block_hash_with_group_id :: "bytes \<Rightarrow> int \<Rightarrow> py_error + bytes" where
  "make_block_hash_with_group_id h g =
     (if g < 0 \<or> 2 ^ 32 \<le> g then Inl OverflowError else Inr (h @ to_big_endian 4 (nat g)))"

definition get_block_hash :: "bytes \<Rightarrow> bytes" where
  "get_block_hash key = take (length key - 4) key"

definition get_group_id :: "bytes \<Rightarrow> int" where
  "get_group_id key = int (from_big_endian (drop (length key - 4) key))"

section \<open>Extra keys\<close>

datatype ekey = KStr string | KBytes bytes

record mm_feature =
  mm_identifier :: string
  mm_offset :: int
  mm_length :: int

text \<open>The part of a request the hashing reads; \<open>lora_request\<close> is the adapter's name and number, \<open>embeds_digest s e\<close> is the digest of the prompt
  embeddings from \<open>s\<close> to \<open>e\<close>, when the request has any.\<close>

record kv_request =
  all_token_ids :: "int list"
  block_hashes :: "bytes list"
  mm_features :: "mm_feature list"
  lora_request :: "(string \<times> int) option"
  cache_salt :: "string option"
  embeds_digest :: "(int \<Rightarrow> int \<Rightarrow> bytes) option"

definition need_extra_keys :: "kv_request \<Rightarrow> bool" where
  "need_extra_keys r \<longleftrightarrow> mm_features r \<noteq> [] \<or> lora_request r \<noteq> None \<or> cache_salt r \<noteq> None"

text \<open>The loop over the multimodal inputs from index \<open>i\<close> on.\<close>

fun mm_scan :: "int \<Rightarrow> int \<Rightarrow> int \<Rightarrow> mm_feature list \<Rightarrow> ekey list \<times> int" where
  "mm_scan s e i [] = ([], i)"
| "mm_scan s e i (f # fs) =
     (if mm_offset f < e then
        (if mm_offset f + mm_length f < s then mm_scan s e (i + 1) fs
         else if mm_offset f + mm_length f \<le> e
         then map_prod ((#) (KStr (mm_identifier f))) id (mm_scan s e (i + 1) fs)
         else ([KStr (mm_identifier f)], i))
      else ([], i))"

definition gen_mm_extra_hash_keys :: "kv_request \<Rightarrow> int \<Rightarrow> int \<Rightarrow> int \<Rightarrow> py_error + (ekey list \<times> int)" where
  "gen_mm_extra_hash_keys r s e start_mm_idx =
     (let fs = mm_features r
      in if fs = [] then Inr ([], start_mm_idx)
         else if mm_offset (last fs) + mm_length (last fs) < s then Inr ([], start_mm_idx)
         else if start_mm_idx < 0 \<and> int (length fs) < - start_mm_idx then Inl AssertionError
         else (let i = (if start_mm_idx < 0 then int (length fs) + start_mm_idx else start_mm_idx)
               in Inr (mm_scan s e i (drop (nat i) fs))))"

definition gen_lora_extra_hash_keys :: "kv_request \<Rightarrow> ekey list" where
  "gen_lora_extra_hash_keys r = (case lora_request r of None \<Rightarrow> [] | Some (n, i) \<Rightarrow> [KStr n])"

definition gen_prompt_embeds_extra_hash_keys :: "kv_request \<Rightarrow> int \<Rightarrow> int \<Rightarrow> ekey list" where
  "gen_prompt_embeds_extra_hash_keys r s e =
     (case embeds_digest r of None \<Rightarrow> [] | Some d \<Rightarrow> [KBytes (d s e)])"

definition generate_block_hash_extra_keys ::
  "kv_request \<Rightarrow> int \<Rightarrow> int \<Rightarrow> int \<Rightarrow> py_error + (ekey list option \<times> int)" where
  "generate_block_hash_extra_keys r s e start_mm_idx =
     ebind (gen_mm_extra_hash_keys r s e start_mm_idx) (\<lambda>(mm_keys, new_mm_idx).
       let salt_keys = (case cache_salt r of
                          Some salt \<Rightarrow> if s = 0 \<and> salt \<noteq> [] then [KStr salt] else []
                        | None \<Rightarrow> []);
           keys = gen_lora_extra_hash_keys r @ mm_keys @ salt_keys @ gen_prompt_embeds_extra_hash_keys r s e
       in Inr (if keys = [] then None else Some keys, new_mm_idx))"

section \<open>The chain of block hashes\<close>

type_synonym hasher = "bytes \<times> int list \<times> ekey list option \<Rightarrow> bytes"

definition hash_block_tokens :: "hasher \<Rightarrow> bytes \<Rightarrow> bytes option \<Rightarrow> int list \<Rightarrow> ekey list option \<Rightarrow> bytes" where
  "hash_block_tokens hf NONE_HASH parent toks extra_keys =
     hf (case parent of Some h \<Rightarrow> if h = [] then NONE_HASH else h | None \<Rightarrow> NONE_HASH, toks, extra_keys)"

definition token_slice :: "int \<Rightarrow> int \<Rightarrow> 'a list \<Rightarrow> 'a list" where
  "token_slice s e xs = take (nat e - nat s) (drop (nat s) xs)"

text \<open>The loop of the hasher; with a block size of zero it does not end.\<close>

partial_function (option) hash_loop ::
  "hasher \<Rightarrow> bytes \<Rightarrow> kv_request \<Rightarrow> int \<Rightarrow> int \<Rightarrow> int \<Rightarrow> bytes option \<Rightarrow> (py_error + bytes list) option" where
  "hash_loop hf NONE_HASH r block_size s mm_idx prev =
     (if int (length (all_token_ids r)) < s + block_size then Some (Inr [])
      else (case generate_block_hash_extra_keys r s (s + block_size) mm_idx of
              Inl e \<Rightarrow> Some (Inl e)
            | Inr (extra_keys, mm_idx') \<Rightarrow>
                (let h = hash_block_tokens hf NONE_HASH prev (token_slice s (s + block_size) (all_token_ids r)) extra_keys
                 in Option.bind (hash_loop hf NONE_HASH r block_size (s + block_size) mm_idx' (Some h))
                      (\<lambda>res. Some (map_sum id ((#) h) res)))))"

definition request_block_hasher ::
  "hasher \<Rightarrow> bytes \<Rightarrow> int \<Rightarrow> kv_request \<Rightarrow> (py_error + bytes list) option" where
  "request_block_hasher hf NONE_HASH block_size r =
     (let s = int (length (block_hashes r)) * block_size
      in if int (length (all_token_ids r)) < s + block_size then Some (Inr [])
         else hash_loop hf NONE_HASH r block_size s (if 0 < s then -1 else 0)
                (if block_hashes r = [] then None else Some (last (block_hashes r))))"

section \<open>Coarser hashes\<close>

text \<open>\<open>BlockHashListWithBlockSize\<close>: the hash of a large block is the concatenation of the hashes of its
  parts.\<close>

definition coarse_hashes :: "bytes list \<Rightarrow> int \<Rightarrow> int \<Rightarrow> py_error + bytes list" where
  "coarse_hashes hs hash_block_size target_block_size =
     (if target_block_size mod hash_block_size \<noteq> 0 then Inl AssertionError
      else (let scale = nat (target_block_size div hash_block_size)
            in Inr (map (\<lambda>i. concat (take scale (drop (i * scale) hs))) [0..<length hs div scale])))"

section \<open>Encoding facts\<close>

lemma length_to_big_endian [simp]: "length (to_big_endian k n) = k"
  by (induction k arbitrary: n) auto

lemma from_big_endian_snoc: "from_big_endian (bs @ [b]) = 256 * from_big_endian bs + unat b"
  by (simp add: from_big_endian_def)

lemma unat_byte: "unat (word_of_nat (n mod 256) :: 8 word) = n mod 256"
  by (simp add: unat_of_nat take_bit_eq_mod)

lemma from_to_big_endian: "n < 256 ^ k \<Longrightarrow> from_big_endian (to_big_endian k n) = n"
proof (induction k arbitrary: n)
  case 0
  then show ?case by (simp add: from_big_endian_def)
next
  case (Suc k)
  then have "n div 256 < 256 ^ k" by (simp add: less_mult_imp_div_less mult.commute)
  with Suc.IH have "from_big_endian (to_big_endian k (n div 256)) = n div 256" by blast
  then show ?case by (simp add: from_big_endian_snoc unat_byte)
qed

text \<open>C36: A cache key can be taken apart again: for every group number that fits into four bytes, packing
  a block hash and its group and then reading them back gives the same two, and any other group number
  is an overflow error.\<close>

theorem block_hash_key_roundtrip:
  "(case make_block_hash_with_group_id h g of
      Inl e \<Rightarrow> e = OverflowError \<and> g \<notin> {0..<2 ^ 32}
    | Inr key \<Rightarrow> g \<in> {0..<2 ^ 32} \<and> get_block_hash key = h \<and> get_group_id key = g)"
proof (cases "g < 0 \<or> 2 ^ 32 \<le> g")
  case True
  then show ?thesis by (auto simp: make_block_hash_with_group_id_def)
next
  case False
  then have "nat g < 256 ^ 4" by (simp add: nat_less_iff)
  then have "from_big_endian (to_big_endian 4 (nat g)) = nat g" by (rule from_to_big_endian)
  with False show ?thesis
    by (simp add: make_block_hash_with_group_id_def get_block_hash_def get_group_id_def)
qed

section \<open>The hasher in closed form\<close>

text \<open>The hashes of the \<open>n\<close> blocks from block \<open>k\<close> on.\<close>

fun hashes_from ::
  "hasher \<Rightarrow> bytes \<Rightarrow> kv_request \<Rightarrow> int \<Rightarrow> nat \<Rightarrow> int \<Rightarrow> int \<Rightarrow> bytes option \<Rightarrow> py_error + bytes list" where
  "hashes_from hf nh r bs 0 k idx prev = Inr []"
| "hashes_from hf nh r bs (Suc n) k idx prev =
     ebind (generate_block_hash_extra_keys r (k * bs) ((k + 1) * bs) idx) (\<lambda>(keys, idx').
       let h = hash_block_tokens hf nh prev (token_slice (k * bs) ((k + 1) * bs) (all_token_ids r)) keys
       in map_sum id ((#) h) (hashes_from hf nh r bs n (k + 1) idx' (Some h)))"

definition full_blocks :: "int \<Rightarrow> 'a list \<Rightarrow> nat" where
  "full_blocks bs toks = nat (int (length toks) div bs)"

lemma int_div_less:
  assumes "0 < (b :: int)"
  shows "m div b < n \<longleftrightarrow> m < n * b"
proof -
  have "m div b < n \<longleftrightarrow> \<not> n \<le> m div b" by linarith
  also have "n \<le> m div b \<longleftrightarrow> n * b \<le> m"
  proof
    assume "n \<le> m div b"
    then have "n * b \<le> m div b * b" using assms by (simp add: mult_right_mono)
    also have "\<dots> \<le> m" using assms by (simp add: minus_mod_eq_div_mult [symmetric])
    finally show "n * b \<le> m" .
  next
    assume "n * b \<le> m"
    then have "n * b div b \<le> m div b" using assms by (intro zdiv_mono1)
    with assms show "n \<le> m div b" by simp
  qed
  finally show ?thesis by linarith
qed

lemma hash_loop_closed:
  assumes "0 < bs" "0 \<le> k"
  shows "hash_loop hf nh r bs (k * bs) idx prev
    = Some (hashes_from hf nh r bs (full_blocks bs (all_token_ids r) - nat k) k idx prev)"
proof -
  have "hash_loop hf nh r bs (k * bs) idx prev = Some (hashes_from hf nh r bs n k idx prev)"
    if "n = full_blocks bs (all_token_ids r) - nat k" for n
    using that assms(2)
  proof (induction n arbitrary: k idx prev)
    case 0
    then have "int (length (all_token_ids r)) div bs < k + 1" by (simp add: full_blocks_def)
    then have "int (length (all_token_ids r)) < k * bs + bs"
      using assms(1) by (simp add: int_div_less algebra_simps)
    then show ?case by (simp add: hash_loop.simps)
  next
    case (Suc n)
    then have "k + 1 \<le> int (length (all_token_ids r)) div bs" by (auto simp: full_blocks_def)
    then have le: "(k + 1) * bs \<le> int (length (all_token_ids r))"
      using int_div_less [OF assms(1), of "int (length (all_token_ids r))" "k + 1"] by linarith
    have eq: "k * bs + bs = (k + 1) * bs" by (simp add: algebra_simps)
    have n: "n = full_blocks bs (all_token_ids r) - nat (k + 1)" "0 \<le> k + 1" using Suc.prems by simp_all
    from le Suc.IH [OF n] show ?case
      by (subst hash_loop.simps) (auto simp: eq ebind_def Let_def split: sum.split prod.split)
  qed
  then show ?thesis by blast
qed

lemma request_block_hasher_closed:
  assumes "0 < bs"
  shows "request_block_hasher hf nh bs r
    = Some (hashes_from hf nh r bs (full_blocks bs (all_token_ids r) - length (block_hashes r))
        (int (length (block_hashes r))) (if block_hashes r = [] then 0 else -1)
        (if block_hashes r = [] then None else Some (last (block_hashes r))))"
proof -
  let ?k = "int (length (block_hashes r))" and ?len = "int (length (all_token_ids r))"
  have pos: "0 < ?k * bs \<longleftrightarrow> block_hashes r \<noteq> []" using assms by (simp add: zero_less_mult_iff)
  show ?thesis
  proof (cases "?len < ?k * bs + bs")
    case True
    then have "?len div bs < ?k + 1" using assms by (simp add: int_div_less algebra_simps)
    then have "full_blocks bs (all_token_ids r) - length (block_hashes r) = 0" by (simp add: full_blocks_def)
    with True show ?thesis by (simp add: request_block_hasher_def)
  next
    case False
    with hash_loop_closed [OF assms, of ?k] pos show ?thesis by (simp add: request_block_hasher_def)
  qed
qed

section \<open>Hashing as tokens arrive\<close>

definition plain_keys :: "kv_request \<Rightarrow> int \<Rightarrow> int \<Rightarrow> ekey list option" where
  "plain_keys r s e =
     (let keys = gen_lora_extra_hash_keys r @
            (case cache_salt r of Some salt \<Rightarrow> if s = 0 \<and> salt \<noteq> [] then [KStr salt] else [] | None \<Rightarrow> []) @
            gen_prompt_embeds_extra_hash_keys r s e
      in if keys = [] then None else Some keys)"

lemma plain_extra_keys: "mm_features r = [] \<Longrightarrow> generate_block_hash_extra_keys r s e idx = Inr (plain_keys r s e, idx)"
  by (simp add: generate_block_hash_extra_keys_def gen_mm_extra_hash_keys_def plain_keys_def ebind_def Let_def)

fun plain_chain :: "hasher \<Rightarrow> bytes \<Rightarrow> kv_request \<Rightarrow> int \<Rightarrow> nat \<Rightarrow> int \<Rightarrow> bytes option \<Rightarrow> bytes list" where
  "plain_chain hf nh r bs 0 k prev = []"
| "plain_chain hf nh r bs (Suc n) k prev =
     (let h = hash_block_tokens hf nh prev (token_slice (k * bs) ((k + 1) * bs) (all_token_ids r))
                (plain_keys r (k * bs) ((k + 1) * bs))
      in h # plain_chain hf nh r bs n (k + 1) (Some h))"

lemma hashes_from_plain:
  "mm_features r = [] \<Longrightarrow> hashes_from hf nh r bs n k idx prev = Inr (plain_chain hf nh r bs n k prev)"
  by (induction n arbitrary: k prev) (simp_all add: plain_extra_keys ebind_def Let_def)

lemma length_plain_chain [simp]: "length (plain_chain hf nh r bs n k prev) = n"
  by (induction n arbitrary: k prev) (simp_all add: Let_def)

lemma plain_chain_append:
  "plain_chain hf nh r bs (m + n) k prev = plain_chain hf nh r bs m k prev @
     plain_chain hf nh r bs n (k + int m) (if m = 0 then prev else Some (last (plain_chain hf nh r bs m k prev)))"
proof (induction m arbitrary: k prev)
  case (Suc m)
  let ?h = "hash_block_tokens hf nh prev (token_slice (k * bs) ((k + 1) * bs) (all_token_ids r)) (plain_keys r (k * bs) ((k + 1) * bs))"
  have "m \<noteq> 0 \<Longrightarrow> plain_chain hf nh r bs m (k + 1) (Some ?h) \<noteq> []"
    by (metis length_0_conv length_plain_chain)
  then show ?case using Suc.IH [of "k + 1" "Some ?h"] by (simp add: Let_def algebra_simps)
qed simp

lemma slice_append: "nat e \<le> length xs \<Longrightarrow> token_slice s e (xs @ ys) = token_slice s e xs"
proof (cases "nat s \<le> length xs")
  case True
  assume "nat e \<le> length xs"
  with True show ?thesis by (simp add: token_slice_def)
qed (simp add: token_slice_def)

lemma plain_chain_more:
  assumes "0 < bs" "0 \<le> k" "nat k + n \<le> full_blocks bs (all_token_ids r)"
  shows "plain_chain hf nh (r\<lparr>all_token_ids := all_token_ids r @ later\<rparr>) bs n k prev = plain_chain hf nh r bs n k prev"
  using assms(2,3)
proof (induction n arbitrary: k prev)
  case (Suc n)
  then have "k + 1 \<le> int (length (all_token_ids r)) div bs" by (auto simp: full_blocks_def)
  then have "(k + 1) * bs \<le> int (length (all_token_ids r))"
    using int_div_less [OF assms(1), of "int (length (all_token_ids r))" "k + 1"] by linarith
  then have sl: "token_slice (k * bs) ((k + 1) * bs) (all_token_ids r @ later) = token_slice (k * bs) ((k + 1) * bs) (all_token_ids r)"
    by (intro slice_append) (simp only: nat_le_iff)
  have keys: "plain_keys (r\<lparr>all_token_ids := all_token_ids r @ later\<rparr>) = plain_keys r"
    by (simp add: fun_eq_iff plain_keys_def gen_lora_extra_hash_keys_def gen_prompt_embeds_extra_hash_keys_def)
  from Suc show ?case by (simp add: sl keys Let_def)
qed simp

lemma plain_chain_frame [simp]: "plain_chain hf nh (r\<lparr>block_hashes := hs\<rparr>) bs n k prev = plain_chain hf nh r bs n k prev"
proof -
  have "plain_keys (r\<lparr>block_hashes := hs\<rparr>) = plain_keys r"
    by (simp add: fun_eq_iff plain_keys_def gen_lora_extra_hash_keys_def gen_prompt_embeds_extra_hash_keys_def)
  then show ?thesis by (induction n arbitrary: k prev) (simp_all add: Let_def)
qed

lemma full_blocks_append: "0 < bs \<Longrightarrow> full_blocks bs xs \<le> full_blocks bs (xs @ ys)"
  by (simp add: full_blocks_def nat_mono zdiv_mono1)

text \<open>C35: Hashing a request as its tokens arrive gives the same block hashes as hashing it at once: for a
  request without multimodal inputs, the hashes of the blocks that are full now, followed by those the
  hasher adds when more tokens have arrived, are the hashes of the longer request; and with a positive
  block size the hasher always returns.\<close>

theorem incremental_hashing:
  assumes "0 < bs" "mm_features r = []" "block_hashes r = []"
  shows "\<exists>hs hs'. request_block_hasher hf nh bs r = Some (Inr hs) \<and>
    request_block_hasher hf nh bs (r\<lparr>all_token_ids := all_token_ids r @ later, block_hashes := hs\<rparr>) = Some (Inr hs') \<and>
    request_block_hasher hf nh bs (r\<lparr>all_token_ids := all_token_ids r @ later\<rparr>) = Some (Inr (hs @ hs'))"
proof -
  let ?r = "r\<lparr>all_token_ids := all_token_ids r @ later\<rparr>"
  define m where "m = full_blocks bs (all_token_ids r)"
  define n where "n = full_blocks bs (all_token_ids r @ later) - m"
  have mn: "full_blocks bs (all_token_ids r @ later) = m + n"
    using full_blocks_append [OF assms(1), of "all_token_ids r" later] by (simp add: m_def n_def)
  define hs where "hs = plain_chain hf nh r bs m 0 None"
  have hs: "hs = plain_chain hf nh ?r bs m 0 None" using assms(1) by (simp add: hs_def plain_chain_more m_def)
  have len: "length hs = m" by (simp add: hs_def)
  have a: "request_block_hasher hf nh bs r = Some (Inr hs)"
    using assms by (simp add: request_block_hasher_closed hashes_from_plain hs_def m_def)
  have b: "request_block_hasher hf nh bs (?r\<lparr>block_hashes := hs\<rparr>)
      = Some (Inr (plain_chain hf nh ?r bs n (int m) (if m = 0 then None else Some (last hs))))"
    using assms len by (auto simp: request_block_hasher_closed hashes_from_plain n_def)
  have "request_block_hasher hf nh bs ?r = Some (Inr (plain_chain hf nh ?r bs (m + n) 0 None))"
    using assms by (simp add: request_block_hasher_closed hashes_from_plain mn)
  also have "plain_chain hf nh ?r bs (m + n) 0 None
      = hs @ plain_chain hf nh ?r bs n (int m) (if m = 0 then None else Some (last hs))"
    by (simp add: plain_chain_append hs)
  finally show ?thesis using a b by auto
qed

definition sample_kv_request :: kv_request where
  "sample_kv_request = \<lparr>all_token_ids = [7, 8, 9], block_hashes = [], mm_features = [], lora_request = None,
     cache_salt = Some ''s'', embeds_digest = None\<rparr>"

theorem incremental_hashing_witness:
  "\<exists>hs hs'. request_block_hasher (\<lambda>(p, ts, ks). 1 # p) [0] 2 sample_kv_request = Some (Inr hs) \<and>
    request_block_hasher (\<lambda>(p, ts, ks). 1 # p) [0] 2
      (sample_kv_request\<lparr>all_token_ids := all_token_ids sample_kv_request @ [1, 2], block_hashes := hs\<rparr>) = Some (Inr hs') \<and>
    request_block_hasher (\<lambda>(p, ts, ks). 1 # p) [0] 2
      (sample_kv_request\<lparr>all_token_ids := all_token_ids sample_kv_request @ [1, 2]\<rparr>) = Some (Inr (hs @ hs'))"
  by (rule incremental_hashing) (simp_all add: sample_kv_request_def)

section \<open>What equal hashes mean\<close>

lemma hashes_from_nth:
  "hashes_from hf nh r bs n k idx prev = Inr hs \<Longrightarrow> i < length hs \<Longrightarrow>
   \<exists>keys. hs ! i = hash_block_tokens hf nh (if i = 0 then prev else Some (hs ! (i - 1)))
     (token_slice ((k + int i) * bs) ((k + int i + 1) * bs) (all_token_ids r)) keys"
proof (induction n arbitrary: k idx prev hs i)
  case (Suc n)
  let ?sl = "token_slice (k * bs) ((k + 1) * bs) (all_token_ids r)"
  from Suc.prems(1) obtain keys idx' where g: "generate_block_hash_extra_keys r (k * bs) ((k + 1) * bs) idx = Inr (keys, idx')"
    by (cases "generate_block_hash_extra_keys r (k * bs) ((k + 1) * bs) idx") (auto simp: ebind_def)
  let ?h = "hash_block_tokens hf nh prev ?sl keys"
  from Suc.prems(1) g have "map_sum id ((#) ?h) (hashes_from hf nh r bs n (k + 1) idx' (Some ?h)) = Inr hs"
    by (simp add: ebind_def Let_def)
  then obtain hs' where step: "hashes_from hf nh r bs n (k + 1) idx' (Some ?h) = Inr hs'" and hs: "hs = ?h # hs'"
    by (cases "hashes_from hf nh r bs n (k + 1) idx' (Some ?h)") auto
  show ?case
  proof (cases i)
    case 0
    with hs show ?thesis by auto
  next
    case (Suc j)
    with hs Suc.prems(2) have "j < length hs'" by simp
    from Suc.IH [OF step this] Suc hs show ?thesis by (cases j) (auto simp: algebra_simps)
  qed
qed simp

lemma slice_take: "0 < bs \<Longrightarrow> token_slice (int i * bs) ((int i + 1) * bs) xs = take (nat bs) (drop (i * nat bs) xs)"
proof -
  assume "0 < bs"
  then obtain b where b: "bs = int b" by (metis nat_0_le order_less_imp_le)
  have "nat ((int i + 1) * bs) = i * b + b" unfolding b by (simp add: nat_eq_iff algebra_simps)
  moreover have "nat (int i * bs) = i * b" unfolding b by (simp add: nat_eq_iff)
  ultimately show ?thesis by (simp add: token_slice_def b)
qed

text \<open>C34: Sharing a cached block is sound: with a hash function that has no collisions, two requests, each
  hashed from its beginning, have a block hash in common only at the same position and only if all
  their tokens up to the end of that block are equal. (\<open>NONE_HASH\<close>, the parent of a first block, is
  taken not to be a hash value, and hash values not to be empty.)\<close>

theorem prefix_hash_sound:
  assumes hf: "inj hf" "nh \<notin> range hf" "[] \<notin> range hf" and bs: "0 < bs"
    and fresh: "block_hashes r1 = []" "block_hashes r2 = []"
    and h1: "request_block_hasher hf nh bs r1 = Some (Inr hs1)"
    and h2: "request_block_hasher hf nh bs r2 = Some (Inr hs2)"
    and eq: "i < length hs1" "j < length hs2" "hs1 ! i = hs2 ! j"
  shows "i = j \<and> take ((i + 1) * nat bs) (all_token_ids r1) = take ((i + 1) * nat bs) (all_token_ids r2)"
  using eq
proof (induction i arbitrary: j)
  let ?blk = "\<lambda>r i. take (nat bs) (drop (i * nat bs) (all_token_ids r))"
  have nth: "\<exists>keys. hs ! i = hf (if i = 0 then nh else hs ! (i - 1), ?blk r i, keys)"
    if h: "request_block_hasher hf nh bs r = Some (Inr hs)" "block_hashes r = []" "i < length hs" for r hs i
  proof -
    from h(1,2) bs have "hashes_from hf nh r bs (full_blocks bs (all_token_ids r)) 0 0 None = Inr hs"
      by (simp add: request_block_hasher_closed)
    note at = hashes_from_nth [OF this, unfolded add_0 slice_take [OF bs] hash_block_tokens_def]
    from at [OF h(3)] obtain keys where k: "hs ! i = hf (case if i = 0 then None else Some (hs ! (i - 1)) of
        None \<Rightarrow> nh | Some h \<Rightarrow> if h = [] then nh else h, ?blk r i, keys)" by blast
    have "(case if i = 0 then None else Some (hs ! (i - 1)) of None \<Rightarrow> nh | Some h \<Rightarrow> if h = [] then nh else h)
        = (if i = 0 then nh else hs ! (i - 1))"
    proof (cases i)
      case (Suc l)
      with h(3) have "l < length hs" by simp
      from at [OF this] obtain x where "hs ! l = hf x" by blast
      with hf(3) have "hs ! l \<noteq> []" by (metis rangeI)
      with Suc show ?thesis by simp
    qed simp
    with k have "hs ! i = hf (if i = 0 then nh else hs ! (i - 1), ?blk r i, keys)" by argo
    then show ?thesis by (rule exI)
  qed
  have later: "hs ! i \<noteq> nh" if "request_block_hasher hf nh bs r = Some (Inr hs)" "block_hashes r = []" "i < length hs" for r hs i
    using nth [OF that] hf(2) by (metis rangeI)
  {
    case 0
    obtain k1 where a: "hs1 ! 0 = hf (nh, ?blk r1 0, k1)" using nth [OF h1 fresh(1) 0(1)] by auto
    obtain k2 where b: "hs2 ! j = hf (if j = 0 then nh else hs2 ! (j - 1), ?blk r2 j, k2)"
      using nth [OF h2 fresh(2) 0(2)] by blast
    from a b 0(3) hf(1) have e: "(nh, ?blk r1 0, k1) = (if j = 0 then nh else hs2 ! (j - 1), ?blk r2 j, k2)"
      by (metis injD)
    have "j - 1 < length hs2" using 0(2) by simp
    with e later [OF h2 fresh(2), of "j - 1"] have "j = 0" by (auto split: if_splits)
    with e show ?case by simp
  next
    case (Suc i)
    obtain k1 where a: "hs1 ! Suc i = hf (hs1 ! i, ?blk r1 (Suc i), k1)" using nth [OF h1 fresh(1) Suc.prems(1)] by auto
    obtain k2 where b: "hs2 ! j = hf (if j = 0 then nh else hs2 ! (j - 1), ?blk r2 j, k2)"
      using nth [OF h2 fresh(2) Suc.prems(2)] by blast
    from a b Suc.prems(3) hf(1) have e: "(hs1 ! i, ?blk r1 (Suc i), k1) = (if j = 0 then nh else hs2 ! (j - 1), ?blk r2 j, k2)"
      by (metis injD)
    with later [OF h1 fresh(1), of i] Suc.prems(1) obtain l where j: "j = Suc l" by (cases j) auto
    with e have "hs1 ! i = hs2 ! l" "?blk r1 (Suc i) = ?blk r2 (Suc l)" by auto
    with Suc.IH [of l] Suc.prems j have il: "i = l"
      "take ((i + 1) * nat bs) (all_token_ids r1) = take ((i + 1) * nat bs) (all_token_ids r2)" by auto
    have "take ((Suc i + 1) * nat bs) xs = take ((i + 1) * nat bs) xs @ take (nat bs) (drop (Suc i * nat bs) xs)" for xs :: "int list"
      using take_add [of "(i + 1) * nat bs" "nat bs" xs] by (simp add: algebra_simps)
    with il \<open>?blk r1 (Suc i) = ?blk r2 (Suc l)\<close> j show ?case by simp
  }
qed

instance ekey :: countable
  by countable_datatype

definition sample_hash :: hasher where
  "sample_hash x = 1 # replicate (to_nat x) 0"

lemma sample_hash_inj: "inj sample_hash"
proof (rule injI)
  fix x y
  assume "sample_hash x = sample_hash y"
  then have "length (sample_hash x) = length (sample_hash y)" by simp
  then show "x = y" by (simp add: sample_hash_def)
qed

definition sample_kv_later :: kv_request where
  "sample_kv_later = sample_kv_request\<lparr>all_token_ids := [7, 8, 1]\<rparr>"

theorem prefix_hash_sound_witness:
  "take (Suc 1) (all_token_ids sample_kv_request) = take (Suc 1) (all_token_ids sample_kv_later)"
proof -
  let ?h = "sample_hash ([0], [7, 8], Some [KStr ''s''])"
  have a: "request_block_hasher sample_hash [0] 2 r = Some (Inr [?h])"
    if "r = sample_kv_request \<or> r = sample_kv_later" for r
    using that by (auto simp: request_block_hasher_closed full_blocks_def sample_kv_request_def sample_kv_later_def
        numeral_2_eq_2 ebind_def plain_extra_keys plain_keys_def gen_lora_extra_hash_keys_def
        gen_prompt_embeds_extra_hash_keys_def hash_block_tokens_def token_slice_def)
  have "(0::nat) = 0 \<and> take ((0 + 1) * nat 2) (all_token_ids sample_kv_request) = take ((0 + 1) * nat 2) (all_token_ids sample_kv_later)"
    by (rule prefix_hash_sound [OF sample_hash_inj _ _ _ _ _ a a])
      (auto simp: sample_hash_def sample_kv_request_def sample_kv_later_def)
  then show ?thesis by (simp add: numeral_2_eq_2)
qed

section \<open>Where block hashes do collide\<close>

text \<open>C37: A LoRA name and a cache salt are not told apart: a request for an adapter and a request for the
  base model whose salt is the adapter's name get the same hash for their first block, if its tokens
  are equal, so that one is served the other's cached block.\<close>

theorem lora_name_salt_collision:
  assumes "0 < bs" "mm_features r = []" "block_hashes r = []" "name \<noteq> []" "bs \<le> int (length (all_token_ids r))"
  shows "\<exists>h hs hs'. request_block_hasher hf nh bs (r\<lparr>lora_request := Some (name, lora_id), cache_salt := None\<rparr>) = Some (Inr (h # hs)) \<and>
    request_block_hasher hf nh bs (r\<lparr>lora_request := None, cache_salt := Some name\<rparr>) = Some (Inr (h # hs'))"
proof -
  have "1 \<le> int (length (all_token_ids r)) div bs"
    using int_div_less [OF assms(1), of "int (length (all_token_ids r))" 1] assms(5) by linarith
  then have "full_blocks bs (all_token_ids r) \<noteq> 0" by (simp add: full_blocks_def)
  then obtain n where n: "full_blocks bs (all_token_ids r) = Suc n" using not0_implies_Suc by blast
  have k: "plain_keys (r\<lparr>lora_request := Some (name, lora_id), cache_salt := None\<rparr>) 0 bs
      = plain_keys (r\<lparr>lora_request := None, cache_salt := Some name\<rparr>) 0 bs"
    using assms(4) by (simp add: plain_keys_def gen_lora_extra_hash_keys_def gen_prompt_embeds_extra_hash_keys_def)
  show ?thesis
    using assms k by (simp add: request_block_hasher_closed hashes_from_plain n Let_def plain_extra_keys ebind_def)
qed

theorem lora_name_salt_collision_witness:
  "\<exists>h hs hs'. request_block_hasher sample_hash [0] 2 (sample_kv_request\<lparr>lora_request := Some (''a'', 1), cache_salt := None\<rparr>) = Some (Inr (h # hs)) \<and>
    request_block_hasher sample_hash [0] 2 (sample_kv_request\<lparr>lora_request := None, cache_salt := Some ''a''\<rparr>) = Some (Inr (h # hs'))"
  by (rule lora_name_salt_collision) (simp_all add: sample_kv_request_def)

lemma mm_scan_index: "snd (mm_scan s e i [f]) = i \<or> snd (mm_scan s e i [f]) = i + 1"
  by simp

lemma generated_keys:
  assumes "length fs = length gs" "idx \<in> {-1, int (length fs), int (length fs) + 1}"
  shows "generate_block_hash_extra_keys (r\<lparr>mm_features := fs @ [f]\<rparr>) s e idx
      = generate_block_hash_extra_keys (r\<lparr>mm_features := gs @ [f]\<rparr>) s e idx \<and>
    (\<forall>keys idx'. generate_block_hash_extra_keys (r\<lparr>mm_features := gs @ [f]\<rparr>) s e idx = Inr (keys, idx') \<longrightarrow>
       idx' \<in> {-1, int (length fs), int (length fs) + 1})"
proof -
  have "drop (nat (int (length gs) + 1)) (xs @ [f]) = []" if "length xs = length gs" for xs
    using that by (simp add: nat_add_distrib)
  then show ?thesis
    using assms by (auto simp: generate_block_hash_extra_keys_def gen_mm_extra_hash_keys_def ebind_def Let_def
        gen_lora_extra_hash_keys_def gen_prompt_embeds_extra_hash_keys_def split: if_splits)
qed

lemma hashes_from_last_input:
  assumes "length fs = length gs"
  shows "idx \<in> {-1, int (length fs), int (length fs) + 1} \<Longrightarrow>
    hashes_from hf nh (r\<lparr>mm_features := fs @ [f]\<rparr>) bs n k idx prev
      = hashes_from hf nh (r\<lparr>mm_features := gs @ [f]\<rparr>) bs n k idx prev"
proof (induction n arbitrary: k idx prev)
  case (Suc n)
  note g = generated_keys [OF assms Suc.prems, where r = r and f = f and s = "k * bs" and e = "(k + 1) * bs"]
  show ?case
  proof (cases "generate_block_hash_extra_keys (r\<lparr>mm_features := gs @ [f]\<rparr>) (k * bs) ((k + 1) * bs) idx")
    case (Inl e)
    with g show ?thesis by (simp add: ebind_def)
  next
    case (Inr a)
    obtain keys idx' where a: "a = (keys, idx')" by fastforce
    with Inr g have "idx' \<in> {-1, int (length fs), int (length fs) + 1}" by blast
    with Suc.IH Inr a g show ?thesis by (simp add: ebind_def Let_def)
  qed
qed simp

text \<open>Once a request has a hashed block, only its last multimodal input enters the hashes of further
  blocks: two requests with equal tokens and equal last input, as many inputs and the same hashes so
  far get the same further hashes, whatever their other inputs are. When the prompt ends with an
  unfinished block that holds two inputs, the block is therefore shared between requests that differ in
  the first of the two.\<close>

theorem later_blocks_ignore_earlier_inputs:
  assumes "0 < bs" "block_hashes r \<noteq> []" "length fs = length gs"
  shows "request_block_hasher hf nh bs (r\<lparr>mm_features := fs @ [f]\<rparr>)
    = request_block_hasher hf nh bs (r\<lparr>mm_features := gs @ [f]\<rparr>)"
  using hashes_from_last_input [OF assms(3), of "-1"] assms(1,2) by (simp add: request_block_hasher_closed)

definition image :: "string \<Rightarrow> int \<Rightarrow> mm_feature" where
  "image n off = \<lparr>mm_identifier = n, mm_offset = off, mm_length = 1\<rparr>"

definition image_request :: kv_request where
  "image_request = sample_kv_request\<lparr>all_token_ids := [7, 8, 9, 9, 1, 1, 5, 6], block_hashes := [[1]]\<rparr>"

theorem later_blocks_ignore_earlier_inputs_witness:
  "request_block_hasher sample_hash [0] 4 (image_request\<lparr>mm_features := [image ''cat'' 4] @ [image ''x'' 5]\<rparr>)
   = request_block_hasher sample_hash [0] 4 (image_request\<lparr>mm_features := [image ''dog'' 4] @ [image ''x'' 5]\<rparr>)"
  by (rule later_blocks_ignore_earlier_inputs) (simp_all add: image_request_def)

end
