(* ===== verification/BlockPool.thy ===== *)
theory BlockPool
  imports BlockHash FreeQueue
begin

text \<open>
  The pool of cache blocks of the inference engine (\<open>src/vllm-v0.17.1/vllm/v1/core/block_pool.py\<close>):
  reference counts, the free queue in eviction order, and the map from block hashes to cached blocks.
  A block is its number. The metrics collector, a separate observer, is taken to be absent. Counts of
  cached and full blocks are not negative, as the managers that call the pool keep them.
\<close>

declare map_of_eq_Some_iff [simp del]

section \<open>Blocks by hash\<close>

text \<open>Mostly one block per key; the union type of the code.\<close>

datatype cached_blocks = Single nat | Many "(nat, nat) dict"

type_synonym hash_map = "(bytes, cached_blocks) dict"

definition get_one_block :: "hash_map \<Rightarrow> bytes \<Rightarrow> py_error + nat option" where
  "get_one_block m key =
     (case map_of m key of
        None \<Rightarrow> Inr None
      | Some (Single b) \<Rightarrow> Inr (Some b)
      | Some (Many d) \<Rightarrow> (case dict_values d of [] \<Rightarrow> Inl StopIteration | b # _ \<Rightarrow> Inr (Some b)))"

definition hm_insert :: "bytes \<Rightarrow> nat \<Rightarrow> hash_map \<Rightarrow> hash_map" where
  "hm_insert key b m =
     AList.update key
       (case map_of m key of
          None \<Rightarrow> Single b
        | Some (Single c) \<Rightarrow> Many (AList.update b b [(c, c)])
        | Some (Many d) \<Rightarrow> Many (AList.update b b d)) m"

definition hm_pop :: "bytes \<Rightarrow> nat \<Rightarrow> hash_map \<Rightarrow> nat option \<times> hash_map" where
  "hm_pop key b m =
     (let m' = AList.delete key m
      in case map_of m key of
           None \<Rightarrow> (None, m')
         | Some (Single c) \<Rightarrow> if c = b then (Some c, m') else (None, AList.update key (Single c) m')
         | Some (Many d) \<Rightarrow>
             (let d' = AList.delete b d
              in (map_of d b, if d' \<noteq> [] then AList.update key (Many d') m' else m')))"

section \<open>The pool\<close>

record kv_block =
  ref_cnt :: int
  block_hash :: "bytes option"
  is_null :: bool

datatype ext_hash = HBytes bytes | HInt int

datatype kv_event =
    BlockStored "ext_hash list" "ext_hash option" "int list" int "int option" "string option"
      "ekey list option list option"
  | BlockRemoved ext_hash
  | AllBlocksCleared

record block_pool =
  enable_caching :: bool
  hash_block_size :: int
  blocks :: "kv_block list"
  free_block_queue :: fqueue
  cached_map :: hash_map
  null_block :: nat
  enable_kv_cache_events :: bool
  use_int_hashes :: bool
  kv_event_queue :: "kv_event list"

definition maybe_convert_block_hash :: "bool \<Rightarrow> bytes \<Rightarrow> ext_hash" where
  "maybe_convert_block_hash use_int h =
     (if \<not> use_int then HBytes h else HInt (int (from_big_endian h) mod 2 ^ 64))"

definition fresh_block :: kv_block where
  "fresh_block = \<lparr>ref_cnt = 0, block_hash = None, is_null = False\<rparr>"

definition upd_block :: "nat \<Rightarrow> (kv_block \<Rightarrow> kv_block) \<Rightarrow> block_pool \<Rightarrow> block_pool" where
  "upd_block b f p = p\<lparr>blocks := (blocks p)[b := f (blocks p ! b)]\<rparr>"

definition add_event :: "kv_event \<Rightarrow> block_pool \<Rightarrow> block_pool" where
  "add_event ev p = (if enable_kv_cache_events p then p\<lparr>kv_event_queue := kv_event_queue p @ [ev]\<rparr> else p)"

definition pool_init :: "int \<Rightarrow> bool \<Rightarrow> int \<Rightarrow> bool \<Rightarrow> bool \<Rightarrow> py_error + block_pool" where
  "pool_init num_gpu_blocks caching hash_size events use_int =
     (if num_gpu_blocks \<le> 0 then Inl AssertionError
      else (let n = nat num_gpu_blocks
            in case popleft (fq_init [0..<n]) of
                 (Inl e, q) \<Rightarrow> Inl e
               | (Inr b, q) \<Rightarrow> Inr (upd_block b (\<lambda>x. x\<lparr>is_null := True\<rparr>)
                   \<lparr>enable_caching = caching, hash_block_size = hash_size, blocks = replicate n fresh_block,
                    free_block_queue = q, cached_map = [], null_block = b,
                    enable_kv_cache_events = events, use_int_hashes = use_int, kv_event_queue = []\<rparr>)))"

definition get_num_free_blocks :: "block_pool \<Rightarrow> int" where
  "get_num_free_blocks p = num_free_blocks (free_block_queue p)"

fun get_cached_block :: "block_pool \<Rightarrow> bytes \<Rightarrow> int list \<Rightarrow> py_error + nat list option" where
  "get_cached_block p h [] = Inr (Some [])"
| "get_cached_block p h (g # gs) =
     ebind (make_block_hash_with_group_id h g) (\<lambda>key.
       ebind (get_one_block (cached_map p) key) (\<lambda>found.
         case found of
           None \<Rightarrow> Inr None
         | Some b \<Rightarrow> map_sum id (map_option ((#) b)) (get_cached_block p h gs)))"

definition maybe_evict_cached_block :: "nat \<Rightarrow> block_pool \<Rightarrow> bool \<times> block_pool" where
  "maybe_evict_cached_block b p =
     (case block_hash (blocks p ! b) of
        None \<Rightarrow> (False, p)
      | Some key \<Rightarrow>
          (case hm_pop key b (cached_map p) of
             (None, m) \<Rightarrow> (False, p\<lparr>cached_map := m\<rparr>)
           | (Some _, m) \<Rightarrow>
               (True, add_event (BlockRemoved (maybe_convert_block_hash (use_int_hashes p) (get_block_hash key)))
                        (upd_block b (\<lambda>x. x\<lparr>block_hash := None\<rparr>) (p\<lparr>cached_map := m\<rparr>)))))"

fun node_block :: "node \<Rightarrow> nat option" where
  "node_block (Blk b) = Some b"
| "node_block _ = None"

text \<open>The loop over the blocks just taken from the queue.\<close>

fun allocate_all :: "nat list \<Rightarrow> block_pool \<Rightarrow> (py_error + unit) \<times> block_pool" where
  "allocate_all [] p = (Inr (), p)"
| "allocate_all (b # bs) p =
     (let p1 = (if enable_caching p then snd (maybe_evict_cached_block b p) else p)
      in if ref_cnt (blocks p1 ! b) \<noteq> 0 then (Inl AssertionError, p1)
         else allocate_all bs (upd_block b (\<lambda>x. x\<lparr>ref_cnt := ref_cnt x + 1\<rparr>) p1))"

definition get_new_blocks :: "int \<Rightarrow> block_pool \<Rightarrow> (py_error + nat list) \<times> block_pool" where
  "get_new_blocks n p =
     (if get_num_free_blocks p < n then (Inl ValueError, p)
      else (case popleft_n n (free_block_queue p) of
              (Inl e, q) \<Rightarrow> (Inl e, p\<lparr>free_block_queue := q\<rparr>)
            | (Inr ns, q) \<Rightarrow>
                (let bs = List.map_filter node_block ns
                 in case allocate_all bs (p\<lparr>free_block_queue := q\<rparr>) of
                      (Inl e, p') \<Rightarrow> (Inl e, p')
                    | (Inr _, p') \<Rightarrow> (Inr bs, p'))))"

fun touch :: "nat list \<Rightarrow> block_pool \<Rightarrow> (py_error + unit) \<times> block_pool" where
  "touch [] p = (Inr (), p)"
| "touch (b # bs) p =
     (case (if ref_cnt (blocks p ! b) = 0 \<and> \<not> is_null (blocks p ! b)
            then map_prod id (\<lambda>q. p\<lparr>free_block_queue := q\<rparr>) (remove_block b (free_block_queue p))
            else (Inr (), p)) of
        (Inl e, p') \<Rightarrow> (Inl e, p')
      | (Inr _, p') \<Rightarrow> touch bs (upd_block b (\<lambda>x. x\<lparr>ref_cnt := ref_cnt x + 1\<rparr>) p'))"

definition release_all :: "nat list \<Rightarrow> block_pool \<Rightarrow> block_pool" where
  "release_all bs p = fold (\<lambda>b. upd_block b (\<lambda>x. x\<lparr>ref_cnt := ref_cnt x - 1\<rparr>)) bs p"

definition free_blocks :: "nat list \<Rightarrow> block_pool \<Rightarrow> (py_error + unit) \<times> block_pool" where
  "free_blocks bs p =
     (let p1 = release_all bs p
      in map_prod id (\<lambda>q. p1\<lparr>free_block_queue := q\<rparr>)
           (append_n (filter (\<lambda>b. ref_cnt (blocks p1 ! b) = 0 \<and> \<not> is_null (blocks p1 ! b)) bs) (free_block_queue p1)))"

fun evict_blocks :: "nat list \<Rightarrow> block_pool \<Rightarrow> (py_error + unit) \<times> block_pool" where
  "evict_blocks [] p = (Inr (), p)"
| "evict_blocks (b # bs) p =
     (if length (blocks p) \<le> b then (Inl AssertionError, p)
      else evict_blocks bs (snd (maybe_evict_cached_block b p)))"

definition reset_prefix_cache :: "block_pool \<Rightarrow> bool \<times> block_pool" where
  "reset_prefix_cache p =
     (if int (length (blocks p)) - get_num_free_blocks p \<noteq> 1 then (False, p)
      else (True, add_event AllBlocksCleared
              (p\<lparr>cached_map := [], blocks := map (\<lambda>x. x\<lparr>block_hash := None\<rparr>) (blocks p)\<rparr>)))"

definition get_usage :: "block_pool \<Rightarrow> real" where
  "get_usage p =
     (let total_gpu_blocks = int (length (blocks p)) - 1
      in if total_gpu_blocks = 0 then 0
         else 1 - real_of_int (get_num_free_blocks p) / real_of_int total_gpu_blocks)"

definition take_events :: "block_pool \<Rightarrow> kv_event list \<times> block_pool" where
  "take_events p = (if \<not> enable_kv_cache_events p then ([], p) else (kv_event_queue p, p\<lparr>kv_event_queue := []\<rparr>))"

section \<open>Caching full blocks\<close>

text \<open>The loop over the new full blocks; the \<open>i\<close>-th gets the \<open>i\<close>-th new hash, null blocks are skipped.\<close>

fun cache_loop :: "int \<Rightarrow> nat list \<Rightarrow> bytes list \<Rightarrow> block_pool \<Rightarrow> (py_error + ext_hash list) \<times> block_pool" where
  "cache_loop g [] hs p = (Inr [], p)"
| "cache_loop g (b # bs) hs p =
     (if is_null (blocks p ! b) then cache_loop g bs (tl hs) p
      else if block_hash (blocks p ! b) \<noteq> None then (Inl AssertionError, p)
      else (case hs of
              [] \<Rightarrow> (Inl IndexError, p)
            | h # hs' \<Rightarrow>
                (case make_block_hash_with_group_id h g of
                   Inl e \<Rightarrow> (Inl e, p)
                 | Inr key \<Rightarrow>
                     (case cache_loop g bs hs'
                             (upd_block b (\<lambda>x. x\<lparr>block_hash := Some key\<rparr>) (p\<lparr>cached_map := hm_insert key b (cached_map p)\<rparr>)) of
                        (Inl e, p') \<Rightarrow> (Inl e, p')
                      | (Inr es, p') \<Rightarrow> (Inr (maybe_convert_block_hash (use_int_hashes p) h # es), p')))))"

fun event_extra_keys :: "kv_request \<Rightarrow> int \<Rightarrow> block_pool \<Rightarrow> int \<Rightarrow> int \<Rightarrow> nat list \<Rightarrow> py_error + ekey list option list" where
  "event_extra_keys r block_size p i mm_idx [] = Inr []"
| "event_extra_keys r block_size p i mm_idx (b # bs) =
     (if is_null (blocks p ! b) then event_extra_keys r block_size p (i + 1) mm_idx bs
      else ebind (generate_block_hash_extra_keys r (i * block_size) (i * block_size + block_size) mm_idx)
             (\<lambda>(keys, mm_idx'). map_sum id ((#) keys) (event_extra_keys r block_size p (i + 1) mm_idx' bs)))"

definition group_hashes :: "kv_request \<Rightarrow> int \<Rightarrow> block_pool \<Rightarrow> py_error + bytes list" where
  "group_hashes r block_size p =
     (if block_size = hash_block_size p then Inr (block_hashes r)
      else coarse_hashes (block_hashes r) (hash_block_size p) block_size)"

definition stored_event ::
  "kv_request \<Rightarrow> nat list \<Rightarrow> bytes list \<Rightarrow> ext_hash list \<Rightarrow> int \<Rightarrow> int \<Rightarrow> int \<Rightarrow> block_pool \<Rightarrow> py_error + kv_event" where
  "stored_event r new_full_blocks hs new_hashes num_cached num_full block_size p =
     (if 0 < num_cached \<and> int (length hs) < num_cached then Inl IndexError
      else (let parent = (if num_cached = 0 then None
                          else Some (maybe_convert_block_hash (use_int_hashes p) (hs ! nat (num_cached - 1))));
                toks = token_slice (num_cached * block_size) (num_full * block_size) (all_token_ids r)
            in ebind (event_extra_keys r block_size p num_cached 0 new_full_blocks) (\<lambda>keys.
                 if int (length new_full_blocks) < num_full - num_cached then Inl IndexError
                 else Inr (BlockStored new_hashes parent toks block_size (map_option snd (lora_request r))
                        (map_option fst (lora_request r)) (if keys = [] then None else Some keys)))))"

definition cache_full_blocks ::
  "kv_request \<Rightarrow> nat list \<Rightarrow> int \<Rightarrow> int \<Rightarrow> int \<Rightarrow> int \<Rightarrow> block_pool \<Rightarrow> (py_error + unit) \<times> block_pool" where
  "cache_full_blocks r bs num_cached num_full block_size g p =
     (if num_full \<le> num_cached then (Inr (), p)
      else if int (length (block_hashes r)) < num_full then (Inl AssertionError, p)
      else (case group_hashes r block_size p of
              Inl e \<Rightarrow> (Inl e, p)
            | Inr hs \<Rightarrow>
                (let new_full_blocks = token_slice num_cached num_full bs
                 in case cache_loop g new_full_blocks (drop (nat num_cached) hs) p of
                      (Inl e, p') \<Rightarrow> (Inl e, p')
                    | (Inr new_hashes, p') \<Rightarrow>
                        if enable_kv_cache_events p'
                        then (case stored_event r new_full_blocks hs new_hashes num_cached num_full block_size p' of
                                Inl e \<Rightarrow> (Inl e, p')
                              | Inr ev \<Rightarrow> (Inr (), add_event ev p'))
                        else (Inr (), p'))))"

section \<open>The map from hashes to blocks\<close>

definition ids :: "hash_map \<Rightarrow> bytes \<Rightarrow> nat list" where
  "ids m key = (case map_of m key of None \<Rightarrow> [] | Some (Single b) \<Rightarrow> [b] | Some (Many d) \<Rightarrow> dict_keys d)"

definition entry_wf :: "cached_blocks \<Rightarrow> bool" where
  "entry_wf e = (case e of Single b \<Rightarrow> True | Many d \<Rightarrow> d \<noteq> [] \<and> dict_wf d \<and> list_all (\<lambda>(k, v). k = v) d)"

definition map_wf :: "hash_map \<Rightarrow> bool" where
  "map_wf m \<longleftrightarrow> dict_wf m \<and> (\<forall>key e. map_of m key = Some e \<longrightarrow> entry_wf e)"

lemma update_keys: "fst ` set (AList.update k v d) = insert k (fst ` set d)"
  by (induction d) auto

lemma update_diag: "list_all (\<lambda>(k, v). k = v) d \<Longrightarrow> list_all (\<lambda>(k, v). k = v) (AList.update b b d)"
  by (induction d) auto

lemma update_not_Nil: "AList.update k v d \<noteq> []"
  by (cases d) auto

lemma map_wf_empty [simp]: "map_wf []" "ids [] key = []"
  by (simp_all add: map_wf_def ids_def)

fun entry_ids :: "cached_blocks \<Rightarrow> nat list" where
  "entry_ids (Single b) = [b]"
| "entry_ids (Many d) = dict_keys d"

lemma ids_eq: "ids m key = (case map_of m key of None \<Rightarrow> [] | Some e \<Rightarrow> entry_ids e)"
  by (auto simp: ids_def split: option.split cached_blocks.split)

lemma ids_update [simp]: "ids (AList.update key e m) k = (if k = key then entry_ids e else ids m k)"
  by (simp add: ids_eq)

lemma ids_delete [simp]: "ids (AList.delete key m) k = (if k = key then [] else ids m k)"
  by (simp add: ids_eq)

lemma map_wf_entry: "map_wf m \<Longrightarrow> map_of m key = Some e \<Longrightarrow> entry_wf e"
  by (simp add: map_wf_def)

lemma map_wf_update [simp]: "map_wf m \<Longrightarrow> entry_wf e \<Longrightarrow> map_wf (AList.update key e m)"
  by (simp add: map_wf_def)

lemma map_wf_delete [simp]: "map_wf m \<Longrightarrow> map_wf (AList.delete key m)"
  by (simp add: map_wf_def)

lemma hm_insert_wf: "map_wf m \<Longrightarrow> map_wf (hm_insert key b m)"
  by (auto simp: map_wf_def hm_insert_def entry_wf_def update_diag update_not_Nil split: option.split cached_blocks.splits)

lemma hm_insert_ids: "set (ids (hm_insert key b m) k) = (if k = key then insert b (set (ids m key)) else set (ids m k))"
  by (auto simp: ids_def hm_insert_def update_keys split: option.split cached_blocks.split)

lemma delete_diag: "list_all (\<lambda>(k, v). k = v) d \<Longrightarrow> list_all (\<lambda>(k, v). k = v) (AList.delete b d)"
  by (induction d) auto

lemma map_of_diag: "list_all (\<lambda>(k, v). k = v) d \<Longrightarrow> map_of d b = (if b \<in> set (dict_keys d) then Some b else None)"
  by (induction d) auto

lemma delete_keys_set: "set (dict_keys (AList.delete b d)) = set (dict_keys d) - {b}"
  by (induction d) auto

lemma hm_pop_spec:
  assumes "map_wf m"
  shows "fst (hm_pop key b m) = (if b \<in> set (ids m key) then Some b else None) \<and> map_wf (snd (hm_pop key b m)) \<and>
    (\<forall>k. set (ids (snd (hm_pop key b m)) k) = (if k = key then set (ids m key) - {b} else set (ids m k)))"
proof (cases "map_of m key")
  case None
  with assms show ?thesis by (simp add: hm_pop_def ids_eq)
next
  case (Some e)
  show ?thesis
  proof (cases e)
    case (Single c)
    then have "ids m key = [c]" using Some by (simp add: ids_eq)
    with Some Single assms show ?thesis by (auto simp: hm_pop_def entry_wf_def)
  next
    case (Many d)
    with map_wf_entry [OF assms Some] have d: "d \<noteq> []" "dict_wf d" "list_all (\<lambda>(k, v). k = v) d"
      by (simp_all add: entry_wf_def)
    let ?d = "AList.delete b d"
    have wf: "entry_wf (Many ?d)" if "?d \<noteq> []" using that d by (simp add: entry_wf_def delete_diag)
    have keys: "set (dict_keys ?d) = set (dict_keys d) - {b}" by (rule delete_keys_set)
    have m: "snd (hm_pop key b m) = (if ?d \<noteq> [] then AList.update key (Many ?d) (AList.delete key m) else AList.delete key m)"
      "fst (hm_pop key b m) = map_of d b"
      using Some Many by (simp_all add: hm_pop_def Let_def)
    have i: "ids m key = dict_keys d" using Some Many by (simp add: ids_eq)
    have "map_wf (snd (hm_pop key b m))"
      unfolding m(1) using assms wf by simp
    moreover have "set (ids (snd (hm_pop key b m)) k) = (if k = key then set (ids m key) - {b} else set (ids m k))" for k
    proof (cases "?d = []")
      case True
      with keys have "set (dict_keys d) - {b} = {}" by (metis list.set(1) list.simps(8))
      with True show ?thesis unfolding m(1) i by simp
    next
      case False
      with keys show ?thesis unfolding m(1) i by simp
    qed
    moreover have "fst (hm_pop key b m) = (if b \<in> set (ids m key) then Some b else None)"
      unfolding m(2) i by (rule map_of_diag [OF d(3)])
    ultimately show ?thesis by blast
  qed
qed

lemma get_one_block_spec: "map_wf m \<Longrightarrow>
    (\<exists>res. get_one_block m key = Inr res \<and> (case res of None \<Rightarrow> ids m key = [] | Some b \<Rightarrow> b \<in> set (ids m key)))"
proof (cases "map_of m key")
  case (Some e)
  assume wf: "map_wf m"
  show ?thesis
  proof (cases e)
    case (Many d)
    with map_wf_entry [OF wf Some] have d: "d \<noteq> []" "list_all (\<lambda>(k, v). k = v) d" by (simp_all add: entry_wf_def)
    then obtain b d' where "d = (b, b) # d'" by (cases d) auto
    with Some Many show ?thesis by (simp add: get_one_block_def ids_def)
  qed (use Some in \<open>simp add: get_one_block_def ids_def\<close>)
qed (simp add: get_one_block_def ids_def)

end
