(* ===== verification/PoolInv.thy ===== *)
theory PoolInv
  imports BlockPool
begin

text \<open>
  The invariant of the block pool: the free queue holds exactly the blocks that nobody references, and
  the map from hashes to blocks agrees with the hashes the blocks carry. Every operation keeps it.
\<close>

declare map_of_eq_Some_iff [simp del]

section \<open>The invariant\<close>

abbreviation num_blocks :: "block_pool \<Rightarrow> nat" where
  "num_blocks p \<equiv> length (blocks p)"

abbreviation same_setup :: "block_pool \<Rightarrow> block_pool \<Rightarrow> bool" where
  "same_setup p p' \<equiv> num_blocks p' = num_blocks p \<and> null_block p' = null_block p \<and>
     enable_caching p' = enable_caching p \<and> hash_block_size p' = hash_block_size p"

definition free_rel :: "block_pool \<Rightarrow> nat list \<Rightarrow> bool" where
  "free_rel p fl \<longleftrightarrow> free_block_queue p = repr fl \<and> distinct fl \<and> null_block p < num_blocks p \<and>
     (\<forall>b < num_blocks p. is_null (blocks p ! b) = (b = null_block p)) \<and>
     (\<forall>b. b \<in> set fl \<longleftrightarrow> b < num_blocks p \<and> b \<noteq> null_block p \<and> ref_cnt (blocks p ! b) = 0) \<and>
     (\<forall>b < num_blocks p. b \<noteq> null_block p \<longrightarrow> 0 \<le> ref_cnt (blocks p ! b))"

definition cache_rel :: "block_pool \<Rightarrow> bool" where
  "cache_rel p \<longleftrightarrow> map_wf (cached_map p) \<and>
     (\<forall>key b. b \<in> set (ids (cached_map p) key) \<longleftrightarrow> b < num_blocks p \<and> block_hash (blocks p ! b) = Some key)"

lemma count_list_filter_distinct:
  "distinct (filter P bs) \<Longrightarrow> P b \<Longrightarrow> count_list bs b = of_bool (b \<in> set bs)"
  by (induction bs) (auto simp: count_list_0_iff split: if_splits)

lemma distinct_filter_weaken: "distinct (filter P bs) \<Longrightarrow> (\<And>b. Q b \<Longrightarrow> P b) \<Longrightarrow> distinct (filter Q bs)"
  by (induction bs) (auto split: if_splits)

text \<open>What an operation that only touches the cache leaves alone.\<close>

definition same_counts :: "block_pool \<Rightarrow> block_pool \<Rightarrow> bool" where
  "same_counts p p' \<longleftrightarrow> same_setup p p' \<and> free_block_queue p' = free_block_queue p \<and>
     (\<forall>b < num_blocks p. ref_cnt (blocks p' ! b) = ref_cnt (blocks p ! b) \<and>
        is_null (blocks p' ! b) = is_null (blocks p ! b))"

lemma same_counts_refl [simp]: "same_counts p p"
  by (simp add: same_counts_def)

lemma same_counts_trans: "same_counts p q \<Longrightarrow> same_counts q r \<Longrightarrow> same_counts p r"
  by (simp add: same_counts_def)

lemma free_rel_frame: "free_rel p fl \<Longrightarrow> same_counts p p' \<Longrightarrow> free_rel p' fl"
  unfolding free_rel_def same_counts_def by (metis (no_types, lifting))

lemma blocks_upd_block [simp]: "num_blocks (upd_block b f p) = num_blocks p"
  "null_block (upd_block b f p) = null_block p" "free_block_queue (upd_block b f p) = free_block_queue p"
  "cached_map (upd_block b f p) = cached_map p" "enable_caching (upd_block b f p) = enable_caching p"
  "hash_block_size (upd_block b f p) = hash_block_size p"
  by (simp_all add: upd_block_def)

lemma nth_upd_block: "c < num_blocks p \<Longrightarrow>
    blocks (upd_block b f p) ! c = (if c = b then f (blocks p ! b) else blocks p ! c)"
  by (simp add: upd_block_def)

lemma add_event_simps [simp]: "blocks (add_event ev p) = blocks p" "null_block (add_event ev p) = null_block p"
  "free_block_queue (add_event ev p) = free_block_queue p" "cached_map (add_event ev p) = cached_map p"
  "enable_caching (add_event ev p) = enable_caching p" "hash_block_size (add_event ev p) = hash_block_size p"
  by (simp_all add: add_event_def)

section \<open>Evicting\<close>

lemma evict_spec:
  assumes "cache_rel p" "b < num_blocks p"
  shows "cache_rel (snd (maybe_evict_cached_block b p)) \<and> same_counts p (snd (maybe_evict_cached_block b p)) \<and>
    (\<forall>c < num_blocks p. block_hash (blocks (snd (maybe_evict_cached_block b p)) ! c)
       = (if c = b then None else block_hash (blocks p ! c)))"
proof (cases "block_hash (blocks p ! b)")
  case None
  with assms show ?thesis by (auto simp: maybe_evict_cached_block_def)
next
  case (Some key)
  from assms have wf: "map_wf (cached_map p)" and ids: "\<And>k c. c \<in> set (ids (cached_map p) k) \<longleftrightarrow>
      c < num_blocks p \<and> block_hash (blocks p ! c) = Some k" by (simp_all add: cache_rel_def)
  obtain m where pop: "hm_pop key b (cached_map p) = (Some b, m)" and m: "map_wf m"
    "\<And>k. set (ids m k) = (if k = key then set (ids (cached_map p) key) - {b} else set (ids (cached_map p) k))"
    using hm_pop_spec [OF wf, of key b] ids [of b key] Some assms(2) by (metis prod.collapse)
  have eq: "snd (maybe_evict_cached_block b p) = add_event (BlockRemoved (maybe_convert_block_hash (use_int_hashes p) (get_block_hash key)))
      (upd_block b (\<lambda>x. x\<lparr>block_hash := None\<rparr>) (p\<lparr>cached_map := m\<rparr>))"
    using Some pop by (simp add: maybe_evict_cached_block_def)
  have hash: "block_hash (blocks (snd (maybe_evict_cached_block b p)) ! c) = (if c = b then None else block_hash (blocks p ! c))"
    if "c < num_blocks p" for c using that unfolding eq by (simp add: nth_upd_block)
  have "c \<in> set (ids m k) \<longleftrightarrow> c < num_blocks p \<and> block_hash (blocks (snd (maybe_evict_cached_block b p)) ! c) = Some k" for c k
    using m(2) [of k] ids [of c k] ids [of c key] hash [of c] Some
    by (cases "c < num_blocks p"; cases "c = b"; cases "k = key") simp_all
  with m(1) have "cache_rel (snd (maybe_evict_cached_block b p))" by (simp add: cache_rel_def eq)
  moreover have "same_counts p (snd (maybe_evict_cached_block b p))"
    by (simp add: same_counts_def eq nth_upd_block)
  ultimately show ?thesis using hash by blast
qed

lemma evict_blocks_spec:
  "cache_rel p \<Longrightarrow> cache_rel (snd (evict_blocks bs p)) \<and> same_counts p (snd (evict_blocks bs p))"
proof (induction bs arbitrary: p)
  case (Cons b bs)
  show ?case
  proof (cases "num_blocks p \<le> b")
    case True
    with Cons.prems show ?thesis by simp
  next
    case False
    with evict_spec [OF Cons.prems, of b] Cons.IH [of "snd (maybe_evict_cached_block b p)"]
    show ?thesis by (auto intro: same_counts_trans)
  qed
qed simp

section \<open>Allocating\<close>

lemma cache_rel_counts:
  assumes "cache_rel p" "num_blocks p' = num_blocks p" "cached_map p' = cached_map p"
    "\<And>b. b < num_blocks p \<Longrightarrow> block_hash (blocks p' ! b) = block_hash (blocks p ! b)"
  shows "cache_rel p'"
  using assms by (auto simp: cache_rel_def)

lemma allocate_all_spec:
  "cache_rel p \<Longrightarrow> distinct bs \<Longrightarrow> \<forall>b \<in> set bs. b < num_blocks p \<and> ref_cnt (blocks p ! b) = 0 \<Longrightarrow>
   \<exists>p'. allocate_all bs p = (Inr (), p') \<and> cache_rel p' \<and> same_setup p p' \<and>
     free_block_queue p' = free_block_queue p \<and>
     (\<forall>c < num_blocks p. is_null (blocks p' ! c) = is_null (blocks p ! c) \<and>
        ref_cnt (blocks p' ! c) = (if c \<in> set bs then 1 else ref_cnt (blocks p ! c)) \<and>
        (c \<notin> set bs \<longrightarrow> block_hash (blocks p' ! c) = block_hash (blocks p ! c)) \<and>
        (c \<in> set bs \<longrightarrow> enable_caching p \<longrightarrow> block_hash (blocks p' ! c) = None))"
proof (induction bs arbitrary: p)
  case (Cons b bs)
  define p1 where "p1 = (if enable_caching p then snd (maybe_evict_cached_block b p) else p)"
  from Cons.prems have b: "b < num_blocks p" "ref_cnt (blocks p ! b) = 0" "b \<notin> set bs" by simp_all
  from evict_spec [OF Cons.prems(1) b(1)] Cons.prems(1)
  have p1: "cache_rel p1" "same_counts p p1" "\<And>c. c < num_blocks p \<Longrightarrow>
      block_hash (blocks p1 ! c) = (if c = b \<and> enable_caching p then None else block_hash (blocks p ! c))"
    by (auto simp: p1_def)
  define p2 where "p2 = upd_block b (\<lambda>x. x\<lparr>ref_cnt := ref_cnt x + 1\<rparr>) p1"
  have n: "num_blocks p1 = num_blocks p" using p1(2) by (simp add: same_counts_def)
  have "cache_rel p2" by (rule cache_rel_counts [OF p1(1)]) (simp_all add: p2_def n nth_upd_block)
  moreover have "\<forall>c \<in> set bs. c < num_blocks p2 \<and> ref_cnt (blocks p2 ! c) = 0"
    using Cons.prems(3) b(3) p1(2) by (auto simp: p2_def nth_upd_block same_counts_def)
  ultimately obtain p' where p': "allocate_all bs p2 = (Inr (), p')" "cache_rel p'" "same_setup p2 p'"
     "free_block_queue p' = free_block_queue p2"
     and at: "\<And>c. c < num_blocks p2 \<Longrightarrow> is_null (blocks p' ! c) = is_null (blocks p2 ! c) \<and>
        ref_cnt (blocks p' ! c) = (if c \<in> set bs then 1 else ref_cnt (blocks p2 ! c)) \<and>
        (c \<notin> set bs \<longrightarrow> block_hash (blocks p' ! c) = block_hash (blocks p2 ! c)) \<and>
        (c \<in> set bs \<longrightarrow> enable_caching p2 \<longrightarrow> block_hash (blocks p' ! c) = None)"
    using Cons.IH [of p2] Cons.prems(2) by auto
  have "allocate_all (b # bs) p = allocate_all bs p2"
    using p1(2) b by (simp add: p1_def [symmetric] p2_def same_counts_def Let_def)
  moreover have "is_null (blocks p' ! c) = is_null (blocks p ! c) \<and>
        ref_cnt (blocks p' ! c) = (if c \<in> set (b # bs) then 1 else ref_cnt (blocks p ! c)) \<and>
        (c \<notin> set (b # bs) \<longrightarrow> block_hash (blocks p' ! c) = block_hash (blocks p ! c)) \<and>
        (c \<in> set (b # bs) \<longrightarrow> enable_caching p \<longrightarrow> block_hash (blocks p' ! c) = None)" if "c < num_blocks p" for c
    using at [of c] that p1(2,3) b by (auto simp: p2_def nth_upd_block same_counts_def)
  ultimately show ?case using p' p1(2) by (auto simp: p2_def same_counts_def)
qed simp

lemma map_filter_nodes [simp]: "List.map_filter node_block (map Blk bs) = bs"
  by (induction bs) (simp_all add: List.map_filter_simps)

lemma get_new_blocks_spec:
  assumes "free_rel p fl" "cache_rel p" "0 \<le> n"
  shows "if int (length fl) < n then get_new_blocks n p = (Inl ValueError, p)
    else (\<exists>p'. get_new_blocks n p = (Inr (take (nat n) fl), p') \<and> free_rel p' (drop (nat n) fl) \<and> cache_rel p' \<and>
      same_setup p p' \<and>
      (\<forall>c < num_blocks p. ref_cnt (blocks p' ! c) = (if c \<in> set (take (nat n) fl) then 1 else ref_cnt (blocks p ! c)) \<and>
        (c \<notin> set (take (nat n) fl) \<longrightarrow> block_hash (blocks p' ! c) = block_hash (blocks p ! c)) \<and>
        (c \<in> set (take (nat n) fl) \<longrightarrow> enable_caching p \<longrightarrow> block_hash (blocks p' ! c) = None)))"
proof -
  from assms(1) have q: "free_block_queue p = repr fl" and d: "distinct fl"
    and fl: "\<And>b. b \<in> set fl \<longleftrightarrow> b < num_blocks p \<and> b \<noteq> null_block p \<and> ref_cnt (blocks p ! b) = 0"
    by (simp_all add: free_rel_def)
  have num: "get_num_free_blocks p = int (length fl)" by (simp add: get_num_free_blocks_def q repr_num)
  show ?thesis
  proof (cases "int (length fl) < n")
    case True
    with num show ?thesis by (simp add: get_new_blocks_def)
  next
    case False
    let ?bs = "take (nat n) fl" and ?p = "p\<lparr>free_block_queue := repr (drop (nat n) fl)\<rparr>"
    have bs: "set ?bs \<subseteq> set fl" "set fl = set ?bs \<union> set (drop (nat n) fl)" "set ?bs \<inter> set (drop (nat n) fl) = {}"
      using d by (auto dest: in_set_takeD) (metis UnE append_take_drop_id set_append, metis set_drop_subset subsetD,
        metis IntI append_take_drop_id distinct_append empty_iff)
    have "cache_rel ?p" by (rule cache_rel_counts [OF assms(2)]) simp_all
    moreover have "\<forall>b \<in> set ?bs. b < num_blocks ?p \<and> ref_cnt (blocks ?p ! b) = 0" using bs(1) fl by auto
    ultimately obtain p' where p': "allocate_all ?bs ?p = (Inr (), p')" "cache_rel p'" "same_setup ?p p'"
       "free_block_queue p' = free_block_queue ?p"
       and at: "\<And>c. c < num_blocks ?p \<Longrightarrow> is_null (blocks p' ! c) = is_null (blocks ?p ! c) \<and>
          ref_cnt (blocks p' ! c) = (if c \<in> set ?bs then 1 else ref_cnt (blocks ?p ! c)) \<and>
          (c \<notin> set ?bs \<longrightarrow> block_hash (blocks p' ! c) = block_hash (blocks ?p ! c)) \<and>
          (c \<in> set ?bs \<longrightarrow> enable_caching ?p \<longrightarrow> block_hash (blocks p' ! c) = None)"
      using allocate_all_spec [of ?p ?bs] d by (auto simp: distinct_take)
    have "get_new_blocks n p = (Inr ?bs, p')"
      using False num p'(1) popleft_n_refines [OF d assms(3)] by (simp add: get_new_blocks_def q Let_def)
    moreover have "free_rel p' (drop (nat n) fl)"
      unfolding free_rel_def
    proof (intro conjI allI impI)
      show "b \<in> set (drop (nat n) fl) \<longleftrightarrow> b < num_blocks p' \<and> b \<noteq> null_block p' \<and> ref_cnt (blocks p' ! b) = 0" for b
        using bs fl [of b] at [of b] p'(3,4) by auto
    qed (use assms(1) p' at d in \<open>auto simp: free_rel_def\<close>)
    ultimately show ?thesis using False p'(2,3) at by simp
  qed
qed

section \<open>Touching and freeing\<close>

lemma touch_one:
  assumes "free_rel p fl" "cache_rel p" "b < num_blocks p"
  shows "\<exists>p1. touch (b # bs) p = touch bs p1 \<and> free_rel p1 (filter (\<lambda>c. c \<noteq> b) fl) \<and> cache_rel p1 \<and>
    same_setup p p1 \<and>
    (\<forall>c < num_blocks p. ref_cnt (blocks p1 ! c) = ref_cnt (blocks p ! c) + of_bool (c = b) \<and>
       block_hash (blocks p1 ! c) = block_hash (blocks p ! c))"
proof -
  from assms(1) have q: "free_block_queue p = repr fl" and d: "distinct fl"
    and fl: "\<And>b. b \<in> set fl \<longleftrightarrow> b < num_blocks p \<and> b \<noteq> null_block p \<and> ref_cnt (blocks p ! b) = 0"
    and null: "\<And>b. b < num_blocks p \<Longrightarrow> is_null (blocks p ! b) = (b = null_block p)"
    by (simp_all add: free_rel_def)
  let ?fl = "filter (\<lambda>c. c \<noteq> b) fl"
  let ?p = "p\<lparr>free_block_queue := repr ?fl\<rparr>" and ?f = "\<lambda>x. x\<lparr>ref_cnt := ref_cnt x + 1\<rparr>"
  have cond: "ref_cnt (blocks p ! b) = 0 \<and> \<not> is_null (blocks p ! b) \<longleftrightarrow> b \<in> set fl"
    using fl [of b] null [OF assms(3)] assms(3) by auto
  have "touch (b # bs) p = touch bs (upd_block b ?f ?p)"
  proof (cases "b \<in> set fl")
    case True
    have "remove_block b (repr fl) = (Inr (), repr ?fl)"
      using True remove_refines [OF d, of b] by (simp add: distinct_remove1_removeAll [OF d] removeAll_filter_not_eq)
        (metis (mono_tags, lifting) filter_cong)
    with True show ?thesis by (simp add: cond q)
  next
    case False
    then have "?fl = fl" by (auto intro: filter_True)
    with False show ?thesis by (simp add: cond q [symmetric])
  qed
  moreover have "free_rel (upd_block b ?f ?p) ?fl"
    unfolding free_rel_def
  proof (intro conjI allI impI)
    show "c \<in> set ?fl \<longleftrightarrow> c < num_blocks (upd_block b ?f ?p) \<and> c \<noteq> null_block (upd_block b ?f ?p) \<and>
        ref_cnt (blocks (upd_block b ?f ?p) ! c) = 0" for c
    proof (cases "c = b \<and> c \<noteq> null_block p")
      case True
      moreover from assms(1,3) True have "0 \<le> ref_cnt (blocks p ! b)" by (auto simp: free_rel_def)
      ultimately show ?thesis using assms(3) by (simp add: nth_upd_block)
    next
      case False
      then show ?thesis using fl [of c] assms(3) by (cases "c < num_blocks p") (auto simp: nth_upd_block)
    qed
    show "c \<noteq> null_block (upd_block b ?f ?p) \<Longrightarrow> c < num_blocks (upd_block b ?f ?p) \<Longrightarrow>
        0 \<le> ref_cnt (blocks (upd_block b ?f ?p) ! c)" for c
      using assms(1) by (auto simp: free_rel_def nth_upd_block)
  qed (use assms(1) d in \<open>auto simp: free_rel_def nth_upd_block\<close>)
  moreover have "cache_rel (upd_block b ?f ?p)"
    by (rule cache_rel_counts [OF assms(2)]) (simp_all add: nth_upd_block)
  ultimately show ?thesis by (intro exI [of _ "upd_block b ?f ?p"]) (simp add: nth_upd_block)
qed

lemma touch_spec:
  "free_rel p fl \<Longrightarrow> cache_rel p \<Longrightarrow> list_all (\<lambda>b. b < num_blocks p) bs \<Longrightarrow>
   \<exists>p'. touch bs p = (Inr (), p') \<and> free_rel p' (filter (\<lambda>c. c \<notin> set bs) fl) \<and> cache_rel p' \<and>
     same_setup p p' \<and>
     (\<forall>c < num_blocks p. ref_cnt (blocks p' ! c) = ref_cnt (blocks p ! c) + int (count_list bs c) \<and>
        block_hash (blocks p' ! c) = block_hash (blocks p ! c))"
proof (induction bs arbitrary: p fl)
  case (Cons b bs)
  then have "b < num_blocks p" by simp
  from touch_one [OF Cons.prems(1,2) this, of bs] obtain p1 where
    p1: "touch (b # bs) p = touch bs p1" "free_rel p1 (filter (\<lambda>c. c \<noteq> b) fl)" "cache_rel p1"
    "same_setup p p1"
    and at: "\<And>c. c < num_blocks p \<Longrightarrow> ref_cnt (blocks p1 ! c) = ref_cnt (blocks p ! c) + of_bool (c = b) \<and>
       block_hash (blocks p1 ! c) = block_hash (blocks p ! c)" by blast
  from Cons.IH [OF p1(2,3)] Cons.prems(3) p1(4) obtain p' where
    p': "touch bs p1 = (Inr (), p')" "free_rel p' (filter (\<lambda>c. c \<notin> set bs) (filter (\<lambda>c. c \<noteq> b) fl))" "cache_rel p'"
    "same_setup p1 p'"
    and at': "\<And>c. c < num_blocks p1 \<Longrightarrow> ref_cnt (blocks p' ! c) = ref_cnt (blocks p1 ! c) + int (count_list bs c) \<and>
        block_hash (blocks p' ! c) = block_hash (blocks p1 ! c)" by auto
  have "filter (\<lambda>c. c \<notin> set bs) (filter (\<lambda>c. c \<noteq> b) fl) = filter (\<lambda>c. c \<notin> set (b # bs)) fl"
    by (simp add: conj_commute)
  with p1 p' at at' show ?case by (intro exI [of _ p']) auto
qed (auto intro: filter_True simp: count_list_0_iff)

lemma release_all_nth: "c < num_blocks p \<Longrightarrow> blocks (release_all bs p) ! c
    = (blocks p ! c)\<lparr>ref_cnt := ref_cnt (blocks p ! c) - int (count_list bs c)\<rparr>"
  unfolding release_all_def
  by (induction bs arbitrary: p) (auto simp: nth_upd_block)

lemma release_all_simps [simp]: "num_blocks (release_all bs p) = num_blocks p" "null_block (release_all bs p) = null_block p"
  "enable_caching (release_all bs p) = enable_caching p" "hash_block_size (release_all bs p) = hash_block_size p"
  "free_block_queue (release_all bs p) = free_block_queue p" "cached_map (release_all bs p) = cached_map p"
  unfolding release_all_def by (induction bs arbitrary: p) auto

text \<open>The null block may occur any number of times in the list that is freed, every other block once.\<close>

lemma free_blocks_spec:
  assumes "free_rel p fl" "cache_rel p" "distinct (filter (\<lambda>b. b \<noteq> null_block p) bs)"
    and bs: "\<forall>b \<in> set bs. b < num_blocks p \<and> (b = null_block p \<or> 0 < ref_cnt (blocks p ! b))"
  shows "\<exists>p'. free_blocks bs p = (Inr (), p') \<and> cache_rel p' \<and> same_setup p p' \<and>
    free_rel p' (fl @ filter (\<lambda>b. b \<noteq> null_block p \<and> ref_cnt (blocks p ! b) = 1) bs) \<and>
    (\<forall>c < num_blocks p. ref_cnt (blocks p' ! c) = ref_cnt (blocks p ! c) - int (count_list bs c) \<and>
       block_hash (blocks p' ! c) = block_hash (blocks p ! c))"
proof -
  from assms(1) have q: "free_block_queue p = repr fl" and d: "distinct fl"
    and fl: "\<And>b. b \<in> set fl \<longleftrightarrow> b < num_blocks p \<and> b \<noteq> null_block p \<and> ref_cnt (blocks p ! b) = 0"
    and null: "\<And>b. b < num_blocks p \<Longrightarrow> is_null (blocks p ! b) = (b = null_block p)"
    by (simp_all add: free_rel_def)
  let ?p1 = "release_all bs p" and ?new = "filter (\<lambda>b. b \<noteq> null_block p \<and> ref_cnt (blocks p ! b) = 1) bs"
  note nth = release_all_nth [of _ p bs]
  have once: "count_list bs b = of_bool (b \<in> set bs)" if "b \<noteq> null_block p" for b
    using count_list_filter_distinct [OF assms(3)] that by simp
  have new: "filter (\<lambda>b. ref_cnt (blocks ?p1 ! b) = 0 \<and> \<not> is_null (blocks ?p1 ! b)) bs = ?new"
  proof (rule filter_cong [OF refl])
    fix b
    assume "b \<in> set bs"
    moreover from this bs have "b < num_blocks p" by blast
    ultimately show "(ref_cnt (blocks ?p1 ! b) = 0 \<and> \<not> is_null (blocks ?p1 ! b)) = (b \<noteq> null_block p \<and> ref_cnt (blocks p ! b) = 1)"
      using nth [of b] null [of b] once [of b] by auto
  qed
  have "b \<notin> set ?new" if "b \<in> set fl" for b using fl [of b] that by simp
  then have "set fl \<inter> set ?new = {}" by blast
  moreover have "distinct ?new" using assms(3) by (rule distinct_filter_weaken) simp
  ultimately have dis: "distinct (fl @ ?new)" using d by simp
  define p' where "p' = ?p1\<lparr>free_block_queue := repr (fl @ ?new)\<rparr>"
  have "free_blocks bs p = (Inr (), p')"
    using append_n_refines [OF dis] by (simp add: free_blocks_def Let_def new q p'_def)
  moreover have "cache_rel p'" by (rule cache_rel_counts [OF assms(2)]) (simp_all add: p'_def nth)
  moreover have "free_rel p' (fl @ ?new)"
    unfolding free_rel_def
  proof (intro conjI allI impI)
    show "c \<in> set (fl @ ?new) \<longleftrightarrow> c < num_blocks p' \<and> c \<noteq> null_block p' \<and> ref_cnt (blocks p' ! c) = 0" for c
    proof (cases "c < num_blocks p \<and> c \<noteq> null_block p")
      case True
      with bs have "c \<in> set bs \<Longrightarrow> 0 < ref_cnt (blocks p ! c)" by blast
      with True show ?thesis using fl [of c] nth [of c] once [of c] by (cases "c \<in> set bs") (simp_all add: p'_def)
    next
      case False
      with bs show ?thesis using fl [of c] by (auto simp: p'_def)
    qed
    show "0 \<le> ref_cnt (blocks p' ! c)" if "c < num_blocks p'" "c \<noteq> null_block p'" for c
    proof -
      have "0 \<le> ref_cnt (blocks p ! c)" using assms(1) that by (simp add: p'_def free_rel_def)
      moreover have "c \<in> set bs \<Longrightarrow> 0 < ref_cnt (blocks p ! c)" using bs that by (auto simp: p'_def)
      ultimately show ?thesis using that nth [of c] once [of c] by (auto simp: p'_def)
    qed
    show "is_null (blocks p' ! c) = (c = null_block p')" if "c < num_blocks p'" for c
      using null [of c] nth [of c] that by (simp add: p'_def)
  qed (use assms(1) dis in \<open>simp_all add: p'_def free_rel_def\<close>)
  ultimately show ?thesis using nth by (intro exI [of _ p']) (simp add: p'_def)
qed

section \<open>Caching and resetting\<close>

lemma cache_loop_spec:
  "cache_rel p \<Longrightarrow> list_all (\<lambda>b. b < num_blocks p) bs \<Longrightarrow>
   cache_rel (snd (cache_loop g bs hs p)) \<and> same_counts p (snd (cache_loop g bs hs p))"
proof (induction bs arbitrary: hs p)
  case (Cons b bs)
  show ?case
  proof (cases "is_null (blocks p ! b)")
    case True
    with Cons show ?thesis by simp
  next
    case nn: False
    show ?thesis
    proof (cases "block_hash (blocks p ! b) \<noteq> None \<or> hs = []")
      case True
      with nn Cons.prems show ?thesis by (auto split: list.split)
    next
      case False
      then obtain h hs' where hs: "hs = h # hs'" by (cases hs) auto
      show ?thesis
      proof (cases "make_block_hash_with_group_id h g")
        case (Inl e)
        with nn False hs Cons.prems show ?thesis by simp
      next
        case (Inr key)
        define p1 where "p1 = upd_block b (\<lambda>x. x\<lparr>block_hash := Some key\<rparr>) (p\<lparr>cached_map := hm_insert key b (cached_map p)\<rparr>)"
        from Cons.prems(1) have "cache_rel p1"
          using Cons.prems(2) False
          by (auto simp: cache_rel_def p1_def hm_insert_wf hm_insert_ids nth_upd_block split: if_splits)
        moreover have c: "same_counts p p1" by (simp add: same_counts_def p1_def nth_upd_block)
        ultimately have "cache_rel (snd (cache_loop g bs hs' p1)) \<and> same_counts p1 (snd (cache_loop g bs hs' p1))"
          using Cons.IH [of p1 hs'] Cons.prems(2) by (simp add: same_counts_def)
        moreover have "snd (cache_loop g (b # bs) hs p) = snd (cache_loop g bs hs' p1)"
          using nn False hs Inr by (simp add: p1_def [symmetric] split: prod.split sum.split)
        ultimately show ?thesis using c by (auto intro: same_counts_trans)
      qed
    qed
  qed
qed simp

lemma add_event_counts: "cache_rel p \<Longrightarrow> cache_rel (add_event ev p)" "same_counts p (add_event ev p)"
  by (simp_all add: cache_rel_def same_counts_def)

lemma cache_full_blocks_cases:
  "snd (cache_full_blocks r bs nc nf bsz g p) = p \<or>
   (\<exists>hs. snd (cache_full_blocks r bs nc nf bsz g p) = snd (cache_loop g (token_slice nc nf bs) hs p) \<or>
     (\<exists>ev. snd (cache_full_blocks r bs nc nf bsz g p) = add_event ev (snd (cache_loop g (token_slice nc nf bs) hs p))))"
proof (cases "group_hashes r bsz p")
  case (Inr hs)
  obtain res p' where "cache_loop g (token_slice nc nf bs) (drop (nat nc) hs) p = (res, p')" by fastforce
  moreover from this have "snd (cache_loop g (token_slice nc nf bs) (drop (nat nc) hs) p) = p'" by simp
  ultimately show ?thesis using Inr
    by (cases res) (auto simp: cache_full_blocks_def Let_def split: sum.split intro!: exI [of _ "drop (nat nc) hs"])
qed (simp add: cache_full_blocks_def)

lemma cache_full_blocks_spec:
  assumes "cache_rel p" "list_all (\<lambda>b. b < num_blocks p) bs"
  shows "cache_rel (snd (cache_full_blocks r bs nc nf bsz g p)) \<and> same_counts p (snd (cache_full_blocks r bs nc nf bsz g p))"
proof -
  have "list_all (\<lambda>b. b < num_blocks p) (token_slice nc nf bs)"
    using assms(2) by (auto simp: list_all_iff token_slice_def dest!: in_set_takeD in_set_dropD)
  note loop = cache_loop_spec [OF assms(1) this, of g]
  have "cache_rel (add_event ev (snd (cache_loop g (token_slice nc nf bs) hs p))) \<and>
      same_counts p (add_event ev (snd (cache_loop g (token_slice nc nf bs) hs p)))" for ev hs
    using loop [of hs] add_event_counts [of "snd (cache_loop g (token_slice nc nf bs) hs p)" ev]
    by (meson same_counts_trans)
  with loop assms(1) cache_full_blocks_cases [of r bs nc nf bsz g p] show ?thesis
    by (metis same_counts_refl)
qed

lemma reset_spec:
  assumes "free_rel p fl" "cache_rel p"
  shows "free_rel (snd (reset_prefix_cache p)) fl \<and> cache_rel (snd (reset_prefix_cache p)) \<and>
    same_setup p (snd (reset_prefix_cache p))"
proof (cases "int (num_blocks p) - get_num_free_blocks p \<noteq> 1")
  case False
  let ?p = "p\<lparr>cached_map := [], blocks := map (\<lambda>x. x\<lparr>block_hash := None\<rparr>) (blocks p)\<rparr>"
  have "same_counts p (add_event AllBlocksCleared ?p)" by (simp add: same_counts_def)
  with assms(1) have "free_rel (add_event AllBlocksCleared ?p) fl" by (rule free_rel_frame)
  moreover have "cache_rel (add_event AllBlocksCleared ?p)" by (simp add: cache_rel_def)
  ultimately show ?thesis using False by (simp add: reset_prefix_cache_def)
qed (use assms in \<open>simp add: reset_prefix_cache_def\<close>)

section \<open>Reachable pools\<close>

lemma pool_init_spec:
  assumes "pool_init n c hs ev ui = Inr p"
  shows "free_rel p [1..<nat n] \<and> cache_rel p \<and> num_blocks p = nat n"
proof -
  from assms have n: "0 < n" by (auto simp: pool_init_def split: if_splits)
  then have up: "[0..<nat n] = 0 # [1..<nat n]" by (simp add: upt_conv_Cons)
  have pop: "popleft (fq_init [0..<nat n]) = (Inr 0, repr [1..<nat n])"
    by (simp only: up fq_init_repr popleft_refines distinct.simps distinct_upt list.case) (simp add: fq_init_repr popleft_refines)
  define p0 where "p0 = \<lparr>enable_caching = c, hash_block_size = hs, blocks = replicate (nat n) fresh_block,
      free_block_queue = repr [1..<nat n], cached_map = [], null_block = 0,
      enable_kv_cache_events = ev, use_int_hashes = ui, kv_event_queue = []\<rparr>"
  from assms n pop have p: "p = upd_block 0 (\<lambda>x. x\<lparr>is_null := True\<rparr>) p0"
    by (simp add: pool_init_def Let_def p0_def)
  have "num_blocks p = nat n" "0 < nat n" using n by (simp_all add: p p0_def)
  moreover have nth: "blocks p ! b = fresh_block\<lparr>is_null := (b = 0)\<rparr>" if "b < nat n" for b
    using that by (simp add: p p0_def nth_upd_block) (simp add: p0_def fresh_block_def)
  ultimately show ?thesis
    by (auto simp: free_rel_def cache_rel_def p p0_def fresh_block_def nth_upd_block)
qed

text \<open>The operations of the pool as the engine calls them: blocks are allocated in a number that is not
  negative, existing blocks are touched and cached, blocks with a reference are freed, each but the null
  block once per call.\<close>

inductive pool_step :: "block_pool \<Rightarrow> block_pool \<Rightarrow> bool" where
  allocate: "0 \<le> n \<Longrightarrow> pool_step p (snd (get_new_blocks n p))"
| touch: "list_all (\<lambda>b. b < num_blocks p) bs \<Longrightarrow> pool_step p (snd (touch bs p))"
| free: "distinct (filter (\<lambda>b. b \<noteq> null_block p) bs) \<Longrightarrow> list_all (\<lambda>b. b < num_blocks p \<and> (b = null_block p \<or> 0 < ref_cnt (blocks p ! b))) bs \<Longrightarrow>
    pool_step p (snd (free_blocks bs p))"
| cache: "list_all (\<lambda>b. b < num_blocks p) bs \<Longrightarrow> pool_step p (snd (cache_full_blocks r bs nc nf bsz g p))"
| evict: "pool_step p (snd (evict_blocks bs p))"
| reset: "pool_step p (snd (reset_prefix_cache p))"
| drain_events: "pool_step p (snd (take_events p))"

inductive pool_reachable :: "block_pool \<Rightarrow> bool" where
  init: "pool_init n c hs ev ui = Inr p \<Longrightarrow> pool_reachable p"
| step: "pool_reachable p \<Longrightarrow> pool_step p p' \<Longrightarrow> pool_reachable p'"

lemma pool_step_ok:
  assumes "pool_step p p'" "free_rel p fl" "cache_rel p"
  shows "\<exists>fl'. free_rel p' fl' \<and> cache_rel p'"
  using assms(1)
proof cases
  case (allocate n)
  from get_new_blocks_spec [OF assms(2,3) allocate(2)] assms(2,3) show ?thesis
    unfolding allocate(1) by (cases "int (length fl) < n") auto
next
  case (touch bs)
  from touch_spec [OF assms(2,3) touch(2)] show ?thesis unfolding touch(1) by auto
next
  case (free bs)
  from free(3) have "\<forall>b \<in> set bs. b < num_blocks p \<and> (b = null_block p \<or> 0 < ref_cnt (blocks p ! b))"
    by (simp add: list_all_iff)
  from free_blocks_spec [OF assms(2,3) free(2) this] show ?thesis unfolding free(1) by auto
next
  case (cache bs r nc nf bsz g)
  with cache_full_blocks_spec [OF assms(3)] free_rel_frame [OF assms(2)] show ?thesis by metis
next
  case (evict bs)
  with evict_blocks_spec [OF assms(3)] free_rel_frame [OF assms(2)] show ?thesis by metis
next
  case reset
  with reset_spec [OF assms(2,3)] show ?thesis by metis
next
  case drain_events
  have "cache_rel (snd (take_events p)) \<and> same_counts p (snd (take_events p))"
    using assms(3) by (simp add: take_events_def cache_rel_def same_counts_def)
  with drain_events free_rel_frame [OF assms(2)] show ?thesis by metis
qed

lemma pool_reachable_ok: "pool_reachable p \<Longrightarrow> \<exists>fl. free_rel p fl \<and> cache_rel p"
proof (induction rule: pool_reachable.induct)
  case (init n c hs ev ui p)
  then show ?case using pool_init_spec by blast
next
  case (step p p')
  then show ?case using pool_step_ok by blast
qed

lemma hm_found:
  assumes "cache_rel p"
  shows "\<exists>found. get_one_block (cached_map p) key = Inr found \<and>
    (case found of None \<Rightarrow> \<forall>b < num_blocks p. block_hash (blocks p ! b) \<noteq> Some key
     | Some b \<Rightarrow> b < num_blocks p \<and> block_hash (blocks p ! b) = Some key)"
proof -
  from assms have wf: "map_wf (cached_map p)"
    and ids: "b \<in> set (ids (cached_map p) key) \<longleftrightarrow> b < num_blocks p \<and> block_hash (blocks p ! b) = Some key" for b
    by (simp_all add: cache_rel_def)
  obtain found where found: "get_one_block (cached_map p) key = Inr found"
    "case found of None \<Rightarrow> ids (cached_map p) key = [] | Some b \<Rightarrow> b \<in> set (ids (cached_map p) key)"
    using get_one_block_spec [OF wf] by blast
  show ?thesis
  proof (cases found)
    case None
    with found ids show ?thesis by simp
  next
    case (Some b)
    with found ids [of b] show ?thesis by simp
  qed
qed

section \<open>The books of the pool\<close>

text \<open>C32: Whatever the engine has done with the pool since its start - allocated, touched, freed, cached,
  evicted, reset - its books agree. Walking the links of the free queue ends and lists, each once, exactly
  the blocks other than the null block that nobody references, and the counter of the queue is their
  number; no reference count is negative; and a lookup in the map of cached blocks raises no error, finds
  a block whenever one carries that hash, and returns only a block that carries it.\<close>

theorem pool_books:
  assumes "pool_reachable p"
  shows "(\<exists>fl. get_all_free_blocks (free_block_queue p) = Inr (Some (map Blk fl)) \<and> distinct fl \<and>
       get_num_free_blocks p = int (length fl) \<and>
       set fl = {b. b < num_blocks p \<and> b \<noteq> null_block p \<and> ref_cnt (blocks p ! b) = 0}) \<and>
     (\<forall>b < num_blocks p. b \<noteq> null_block p \<longrightarrow> 0 \<le> ref_cnt (blocks p ! b)) \<and>
     (\<forall>key. \<exists>found. get_one_block (cached_map p) key = Inr found \<and>
       (case found of None \<Rightarrow> \<forall>b < num_blocks p. block_hash (blocks p ! b) \<noteq> Some key
        | Some b \<Rightarrow> b < num_blocks p \<and> block_hash (blocks p ! b) = Some key))"
proof (intro conjI allI)
  obtain fl where fl: "free_rel p fl" "cache_rel p" using pool_reachable_ok [OF assms] by blast
  then show "\<exists>fl. get_all_free_blocks (free_block_queue p) = Inr (Some (map Blk fl)) \<and> distinct fl \<and>
     get_num_free_blocks p = int (length fl) \<and>
     set fl = {b. b < num_blocks p \<and> b \<noteq> null_block p \<and> ref_cnt (blocks p ! b) = 0}"
    by (intro exI [of _ fl]) (auto simp: free_rel_def get_all_refines get_num_free_blocks_def repr_num)
  show "b < num_blocks p \<longrightarrow> b \<noteq> null_block p \<longrightarrow> 0 \<le> ref_cnt (blocks p ! b)" for b
    using fl(1) by (simp add: free_rel_def)
  show "\<exists>found. get_one_block (cached_map p) key = Inr found \<and>
     (case found of None \<Rightarrow> \<forall>b < num_blocks p. block_hash (blocks p ! b) \<noteq> Some key
      | Some b \<Rightarrow> b < num_blocks p \<and> block_hash (blocks p ! b) = Some key)" for key
    using fl(2) by (rule hm_found)
qed

definition demo_pool :: block_pool where
  "demo_pool = (case pool_init 4 True 16 False False of Inr p \<Rightarrow> snd (get_new_blocks 2 p))"

lemma demo_reachable: "pool_reachable demo_pool"
proof -
  obtain p where p: "pool_init 4 True 16 False False = Inr p"
    by (simp add: pool_init_def fq_init_def link_def popleft_def upt_rec Let_def)
  show ?thesis
    unfolding demo_pool_def p
    using pool_reachable.step [OF pool_reachable.init [OF p] pool_step.allocate [of 2]] by simp
qed

lemma demo_pool_values: "num_blocks demo_pool = 4 \<and> null_block demo_pool = 0 \<and>
    map ref_cnt (blocks demo_pool) = [0, 1, 1, 0] \<and> get_num_free_blocks demo_pool = 1"
  by code_simp

lemma pool_books_witness:
  "\<exists>fl. get_all_free_blocks (free_block_queue demo_pool) = Inr (Some (map Blk fl)) \<and> distinct fl \<and> length fl = 1"
  using pool_books [OF demo_reachable] demo_pool_values by auto

text \<open>A block handed out is handed out to one caller only. In every reachable pool whose free queue
  lists \<open>fl\<close>, asking for more blocks than that raises \<open>ValueError\<close> and changes nothing; otherwise the
  request is served with as many distinct blocks, none of them the null block or referenced before, taken
  in eviction order from the front of \<open>fl\<close>: each then has reference count one and, when caching is on, no
  hash any more, the rest of the queue stays in its order, and no other block changes.\<close>

theorem allocation_exclusive:
  assumes "pool_reachable p" "0 \<le> n"
    and "get_all_free_blocks (free_block_queue p) = Inr (Some (map Blk fl))"
  shows "if int (length fl) < n then get_new_blocks n p = (Inl ValueError, p)
    else \<exists>got p'. get_new_blocks n p = (Inr got, p') \<and> got = take (nat n) fl \<and> distinct got \<and>
      (\<forall>b \<in> set got. b < num_blocks p \<and> b \<noteq> null_block p \<and> ref_cnt (blocks p ! b) = 0 \<and>
        ref_cnt (blocks p' ! b) = 1 \<and> (enable_caching p \<longrightarrow> block_hash (blocks p' ! b) = None)) \<and>
      (\<forall>b < num_blocks p. b \<notin> set got \<longrightarrow>
        ref_cnt (blocks p' ! b) = ref_cnt (blocks p ! b) \<and> block_hash (blocks p' ! b) = block_hash (blocks p ! b)) \<and>
      get_all_free_blocks (free_block_queue p') = Inr (Some (map Blk (drop (nat n) fl)))"
proof -
  obtain fl' where fl': "free_rel p fl'" "cache_rel p" using pool_reachable_ok [OF assms(1)] by blast
  then have "map Blk fl' = map Blk fl" using assms(3) by (simp add: free_rel_def get_all_refines)
  then have "fl' = fl" by (simp add: inj_map_eq_map inj_def)
  with fl' have fl: "free_rel p fl" by simp
  then have d: "distinct fl" and free: "b \<in> set (take (nat n) fl) \<Longrightarrow>
      b < num_blocks p \<and> b \<noteq> null_block p \<and> ref_cnt (blocks p ! b) = 0" for b
    by (auto simp: free_rel_def dest: in_set_takeD)
  show ?thesis
  proof (cases "int (length fl) < n")
    case True
    with get_new_blocks_spec [OF fl fl'(2) assms(2)] show ?thesis by simp
  next
    case False
    with get_new_blocks_spec [OF fl fl'(2) assms(2)] obtain p' where
      p': "get_new_blocks n p = (Inr (take (nat n) fl), p')" "free_rel p' (drop (nat n) fl)"
      and at: "\<And>c. c < num_blocks p \<Longrightarrow> ref_cnt (blocks p' ! c) = (if c \<in> set (take (nat n) fl) then 1 else ref_cnt (blocks p ! c)) \<and>
        (c \<notin> set (take (nat n) fl) \<longrightarrow> block_hash (blocks p' ! c) = block_hash (blocks p ! c)) \<and>
        (c \<in> set (take (nat n) fl) \<longrightarrow> enable_caching p \<longrightarrow> block_hash (blocks p' ! c) = None)" by auto
    from p'(2) have "get_all_free_blocks (free_block_queue p') = Inr (Some (map Blk (drop (nat n) fl)))"
      by (simp add: free_rel_def get_all_refines)
    with False p'(1) at free d show ?thesis
      by (simp only: if_False) (intro exI [of _ "take (nat n) fl"] exI [of _ p'], simp)
  qed
qed

lemma allocation_exclusive_witness:
  "\<exists>p'. get_new_blocks 1 demo_pool = (Inr [3], p') \<and> get_all_free_blocks (free_block_queue p') = Inr (Some [])"
proof -
  obtain fl where fl: "free_rel demo_pool fl" using pool_reachable_ok [OF demo_reachable] by blast
  then have "get_all_free_blocks (free_block_queue demo_pool) = Inr (Some (map Blk fl))" "length fl = 1"
    using demo_pool_values by (simp_all add: free_rel_def get_all_refines get_num_free_blocks_def repr_num)
  moreover have "3 \<in> set fl"
  proof -
    have "ref_cnt (blocks demo_pool ! 3) = 0" by code_simp
    with fl demo_pool_values show ?thesis by (simp add: free_rel_def)
  qed
  ultimately have "get_all_free_blocks (free_block_queue demo_pool) = Inr (Some (map Blk [3]))"
    by (cases fl) auto
  from allocation_exclusive [OF demo_reachable _ this, of 1] show ?thesis by auto
qed

end
