(* ===== verification/CacheManager.thy ===== *)
theory CacheManager
  imports BlockPool
begin

text \<open>
  The managers on top of the block pool (\<open>src/vllm-v0.17.1/vllm/v1/core/single_type_kv_cache_manager.py\<close>,
  \<open>kv_cache_coordinator.py\<close>, \<open>kv_cache_manager.py\<close>): per request and attention type a table of blocks,
  the coordinator that runs all managers over one pool, and the allocation of slots for a request. The
  managers of Mamba, cross attention and attention sinks are left out; the parallel world sizes enter
  through the block size of a manager. An operation takes and returns the manager and the pool.
\<close>

declare map_of_eq_Some_iff [simp del]

section \<open>One attention type\<close>

datatype attention = FullAttention | SlidingWindow int | ChunkedLocal int

text \<open>A cache specification: \<open>plain_full\<close> tells that its class is exactly \<open>FullAttentionSpec\<close>, whose new
  blocks are collected for zeroing; \<open>spec_details\<close> stands for the fields that only enter the comparison of
  two specifications (heads, head size, data type).\<close>

record kv_cache_spec =
  attention_type :: attention
  plain_full :: bool
  spec_block_size :: int
  spec_details :: string

record type_manager =
  kv_spec :: kv_cache_spec
  block_size :: int
  kv_cache_group_id :: int
  req_to_blocks :: "(string, nat list) dict"
  num_cached_block :: "(string, int) dict"
  new_block_ids :: "nat list"

record cache_request = kv_request +
  request_id :: string
  num_computed_tokens :: int
  skip_reading_prefix_cache :: bool

type_synonym 'a manager_op = "type_manager \<Rightarrow> block_pool \<Rightarrow> (py_error + 'a) \<times> type_manager \<times> block_pool"

definition num_tokens :: "('a kv_request_scheme) \<Rightarrow> int" where
  "num_tokens r = int (length (all_token_ids r))"

definition cdiv :: "int \<Rightarrow> int \<Rightarrow> int" where
  "cdiv a b = - (a div (- b))"

definition manager_init :: "kv_cache_spec \<Rightarrow> int \<Rightarrow> int \<Rightarrow> int \<Rightarrow> type_manager" where
  "manager_init spec dcp_world_size pcp_world_size g =
     \<lparr>kv_spec = spec,
      block_size = (if 1 < dcp_world_size * pcp_world_size
                    then spec_block_size spec * (dcp_world_size * pcp_world_size) else spec_block_size spec),
      kv_cache_group_id = g, req_to_blocks = [], num_cached_block = [], new_block_ids = []\<rparr>"

text \<open>\<open>req_to_blocks.get(request_id)\<close>, the entry a \<open>defaultdict\<close> makes on access, and an assignment.\<close>

definition req_blocks :: "type_manager \<Rightarrow> string \<Rightarrow> nat list" where
  "req_blocks m rid = (case map_of (req_to_blocks m) rid of None \<Rightarrow> [] | Some bs \<Rightarrow> bs)"

definition put_blocks :: "string \<Rightarrow> nat list \<Rightarrow> type_manager \<Rightarrow> type_manager" where
  "put_blocks rid bs m = m\<lparr>req_to_blocks := AList.update rid bs (req_to_blocks m)\<rparr>"

definition open_blocks :: "string \<Rightarrow> type_manager \<Rightarrow> type_manager" where
  "open_blocks rid m = put_blocks rid (req_blocks m rid) m"

definition get_num_evictable_blocks :: "block_pool \<Rightarrow> nat list \<Rightarrow> int" where
  "get_num_evictable_blocks p bs =
     int (length (filter (\<lambda>b. ref_cnt (blocks p ! b) = 0 \<and> \<not> is_null (blocks p ! b)) bs))"

definition get_num_skipped_tokens :: "type_manager \<Rightarrow> int \<Rightarrow> int" where
  "get_num_skipped_tokens m n =
     (case attention_type (kv_spec m) of
        FullAttention \<Rightarrow> 0
      | SlidingWindow w \<Rightarrow> max 0 (n - w + 1)
      | ChunkedLocal c \<Rightarrow> n div c * c)"

definition get_num_blocks_to_allocate ::
  "string \<Rightarrow> int \<Rightarrow> nat list \<Rightarrow> int \<Rightarrow> type_manager \<Rightarrow> block_pool \<Rightarrow> py_error + int" where
  "get_num_blocks_to_allocate rid n hits total_computed m p =
     (let required = cdiv n (block_size m);
          num_req = int (length (req_blocks m rid))
      in if map_of (num_cached_block m) rid \<noteq> None
         then if hits \<noteq> [] then Inl AssertionError else Inr (max (required - num_req) 0)
         else (let skipped = get_num_skipped_tokens m total_computed div block_size m;
                   new = max (required - max skipped (int (length hits) + num_req)) 0
               in Inr (new + get_num_evictable_blocks p (drop (nat (max 0 (skipped - num_req))) hits))))"

text \<open>\<open>get_new_blocks\<close> for a request, the table and the list of new blocks extended.\<close>

definition extend_blocks :: "string \<Rightarrow> int \<Rightarrow> nat list manager_op" where
  "extend_blocks rid n m p =
     (case get_new_blocks n p of
        (Inl e, p') \<Rightarrow> (Inl e, m, p')
      | (Inr new, p') \<Rightarrow>
          (Inr new,
           (put_blocks rid (req_blocks m rid @ new) m)
             \<lparr>new_block_ids := (if plain_full (kv_spec m) then new_block_ids m @ new else new_block_ids m)\<rparr>, p'))"

definition allocate_new_computed_blocks :: "string \<Rightarrow> int \<Rightarrow> int \<Rightarrow> nat list \<Rightarrow> unit manager_op" where
  "allocate_new_computed_blocks rid num_local num_external hits m p =
     (if map_of (num_cached_block m) rid \<noteq> None
      then (if hits \<noteq> [] then Inl AssertionError else Inr (), m, p)
      else
        let m1 = open_blocks rid m;
            computed = num_local + num_external;
            skipped_tokens = get_num_skipped_tokens m computed;
            skipped = skipped_tokens div block_size m;
            rest = (if 0 < skipped then drop (nat skipped) hits else hits);
            external = (if 0 < skipped then min (computed - skipped_tokens) num_external else num_external)
        in if req_blocks m rid \<noteq> [] then (Inl AssertionError, m1, p)
           else (case (if enable_caching p then touch rest p
                       else (if rest \<noteq> [] then Inl AssertionError else Inr (), p)) of
                   (Inl e, p1) \<Rightarrow> (Inl e, m1, p1)
                 | (Inr _, p1) \<Rightarrow>
                     (let bs = replicate (nat skipped) (null_block p1) @ rest;
                          m2 = (put_blocks rid bs m1)
                                 \<lparr>num_cached_block := AList.update rid (int (length bs)) (num_cached_block m1)\<rparr>
                      in if 0 < external
                         then map_prod (map_sum id (\<lambda>_. ())) id
                                (extend_blocks rid (cdiv computed (block_size m) - int (length bs)) m2 p1)
                         else (Inr (), m2, p1))))"

definition allocate_new_blocks :: "string \<Rightarrow> int \<Rightarrow> nat list manager_op" where
  "allocate_new_blocks rid n m p =
     (let num_new = cdiv n (block_size m) - int (length (req_blocks m rid))
      in if num_new \<le> 0 then (Inr [], open_blocks rid m, p) else extend_blocks rid num_new (open_blocks rid m) p)"

definition take_new_block_ids :: "type_manager \<Rightarrow> nat list \<times> type_manager" where
  "take_new_block_ids m = (new_block_ids m, m\<lparr>new_block_ids := []\<rparr>)"

definition cached_count :: "type_manager \<Rightarrow> string \<Rightarrow> int" where
  "cached_count m rid = (case map_of (num_cached_block m) rid of None \<Rightarrow> 0 | Some n \<Rightarrow> n)"

definition cache_blocks :: "cache_request \<Rightarrow> int \<Rightarrow> unit manager_op" where
  "cache_blocks r n m p =
     (let cached = cached_count m (request_id r); full = n div block_size m
      in if full \<le> cached then (Inr (), m, p)
         else (case cache_full_blocks (kv_request.truncate r) (req_blocks m (request_id r)) cached full
                      (block_size m) (kv_cache_group_id m) p of
                 (Inl e, p') \<Rightarrow> (Inl e, open_blocks (request_id r) m, p')
               | (Inr _, p') \<Rightarrow>
                   (Inr (), (open_blocks (request_id r) m)
                      \<lparr>num_cached_block := AList.update (request_id r) full (num_cached_block m)\<rparr>, p')))"

definition free_request :: "string \<Rightarrow> unit manager_op" where
  "free_request rid m p =
     (let m1 = m\<lparr>req_to_blocks := AList.delete rid (req_to_blocks m)\<rparr>
      in case free_blocks (rev (req_blocks m rid)) p of
           (Inl e, p') \<Rightarrow> (Inl e, m1, p')
         | (Inr _, p') \<Rightarrow> (Inr (), m1\<lparr>num_cached_block := AList.delete rid (num_cached_block m)\<rparr>, p'))"

text \<open>The loop of \<open>remove_skipped_blocks\<close>, downwards from index \<open>k - 1\<close>: the blocks removed and the table.\<close>

fun skip_blocks :: "nat \<Rightarrow> nat \<Rightarrow> nat list \<Rightarrow> nat list \<times> nat list" where
  "skip_blocks null 0 bs = ([], bs)"
| "skip_blocks null (Suc i) bs =
     (if bs ! i = null then ([], bs)
      else (let (removed, bs') = skip_blocks null i (bs[i := null]) in (bs ! i # removed, bs')))"

definition remove_skipped_blocks :: "string \<Rightarrow> int \<Rightarrow> unit manager_op" where
  "remove_skipped_blocks rid total_computed m p =
     (let skipped_tokens = get_num_skipped_tokens m total_computed
      in if skipped_tokens \<le> 0 then (Inr (), m, p)
         else (let bs = req_blocks m rid;
                   k = min (skipped_tokens div block_size m) (int (length bs));
                   (removed, bs') = skip_blocks (null_block p) (nat k) bs;
                   (res, p') = free_blocks removed p
               in (res, put_blocks rid bs' m, p')))"

text \<open>The empty entry that counting leaves behind for a request without one is counted, but not kept.\<close>

definition num_common_prefix_blocks :: "string \<Rightarrow> type_manager \<Rightarrow> block_pool \<Rightarrow> int" where
  "num_common_prefix_blocks rid m p =
     (case attention_type (kv_spec m) of
        FullAttention \<Rightarrow>
          int (length (takeWhile (\<lambda>b. ref_cnt (blocks p ! b) = int (length (req_to_blocks (open_blocks rid m))))
                         (req_blocks m rid)))
      | _ \<Rightarrow> 0)"

section \<open>The longest cached prefix\<close>

text \<open>All lookups are for the groups \<open>gs\<close>; a hit is one block per group. The result of a lookup is truthy
  when it is a non-empty list.\<close>

definition lookup :: "block_pool \<Rightarrow> int list \<Rightarrow> bytes \<Rightarrow> py_error + nat list option" where
  "lookup p gs h = ebind (get_cached_block p h gs) (\<lambda>found. Inr (if found = Some [] then None else found))"

text \<open>The lists of blocks, one per group, from the hits per position; no hit is the null block.\<close>

definition columns :: "block_pool \<Rightarrow> int list \<Rightarrow> nat list option list \<Rightarrow> nat list list" where
  "columns p gs hits =
     map (\<lambda>g. map (\<lambda>hit. case hit of None \<Rightarrow> null_block p | Some bs \<Rightarrow> bs ! g) hits) [0..<length gs]"

text \<open>Popping the last block while the length is not aligned.\<close>

fun trim_aligned :: "int \<Rightarrow> int \<Rightarrow> nat \<Rightarrow> nat" where
  "trim_aligned bsize alignment 0 = 0"
| "trim_aligned bsize alignment (Suc n) =
     (if bsize \<noteq> alignment \<and> int (Suc n) * bsize mod alignment \<noteq> 0 then trim_aligned bsize alignment n
      else Suc n)"

fun hits_from_left :: "block_pool \<Rightarrow> int list \<Rightarrow> bytes list \<Rightarrow> py_error + nat list list" where
  "hits_from_left p gs [] = Inr []"
| "hits_from_left p gs (h # hs) =
     ebind (lookup p gs h) (\<lambda>found. case found of
         None \<Rightarrow> Inr []
       | Some bs \<Rightarrow> map_sum id ((#) bs) (hits_from_left p gs hs))"

definition full_cache_hit ::
  "bytes list \<Rightarrow> int \<Rightarrow> int list \<Rightarrow> block_pool \<Rightarrow> int \<Rightarrow> bool \<Rightarrow> int \<Rightarrow> py_error + nat list option list" where
  "full_cache_hit hs max_length gs p bsize eagle alignment =
     (if max_length div bsize < 0 then Inl ValueError
      else map_sum id (\<lambda>hits.
               let n = length hits - of_bool (eagle \<and> hits \<noteq> [])
               in map Some (take (trim_aligned bsize alignment n) hits))
             (hits_from_left p gs (take (nat (max_length div bsize)) hs)))"

text \<open>The search of the sliding window, from the right: the hits so far, how many of them are contiguous, and
  whether enough were found.\<close>

fun window_scan ::
  "block_pool \<Rightarrow> int list \<Rightarrow> bytes list \<Rightarrow> int \<Rightarrow> int \<Rightarrow> int \<Rightarrow> nat \<Rightarrow> nat list option list \<Rightarrow> nat
     \<Rightarrow> py_error + nat list option list \<times> nat \<times> bool" where
  "window_scan p gs hs needed bsize alignment 0 cs n = Inr (cs, n, False)"
| "window_scan p gs hs needed bsize alignment (Suc i) cs n =
     (if length hs \<le> i then Inl IndexError
      else ebind (lookup p gs (hs ! i)) (\<lambda>found. case found of
          None \<Rightarrow> window_scan p gs hs needed bsize alignment i cs 0
        | Some bs \<Rightarrow>
            if n = 0 \<and> bsize \<noteq> alignment \<and> (int i + 1) * bsize mod alignment \<noteq> 0
            then window_scan p gs hs needed bsize alignment i cs n
            else (let cs' = cs[i := Some bs]
                  in if needed \<le> int (Suc n) then Inr (take (i + Suc n) cs', Suc n, True)
                     else window_scan p gs hs needed bsize alignment i cs' (Suc n))))"

definition window_cache_hit ::
  "int \<Rightarrow> bytes list \<Rightarrow> int \<Rightarrow> int list \<Rightarrow> block_pool \<Rightarrow> int \<Rightarrow> bool \<Rightarrow> int \<Rightarrow> py_error + nat list option list" where
  "window_cache_hit w hs max_length gs p bsize eagle alignment =
     (let needed = cdiv (w - 1) bsize + of_bool eagle;
          max_num = nat (max_length div bsize)
      in ebind (window_scan p gs hs needed bsize alignment max_num (replicate max_num None) 0)
           (\<lambda>(cs, n, found).
              let cs' = (if found then cs else take (trim_aligned bsize alignment n) cs)
              in if eagle \<and> cs' \<noteq> []
                 then (if bsize = alignment then Inr (butlast cs') else Inl AssertionError)
                 else Inr cs'))"

fun hits_at :: "block_pool \<Rightarrow> int list \<Rightarrow> bytes list \<Rightarrow> nat \<Rightarrow> nat \<Rightarrow> py_error + nat list list" where
  "hits_at p gs hs i 0 = Inr []"
| "hits_at p gs hs i (Suc k) =
     (if length hs \<le> i then Inl IndexError
      else ebind (lookup p gs (hs ! i)) (\<lambda>found. case found of
          None \<Rightarrow> Inr []
        | Some bs \<Rightarrow> map_sum id ((#) bs) (hits_at p gs hs (Suc i) k)))"

definition chunk_cache_hit ::
  "int \<Rightarrow> bytes list \<Rightarrow> int \<Rightarrow> int list \<Rightarrow> block_pool \<Rightarrow> int \<Rightarrow> bool \<Rightarrow> int \<Rightarrow> py_error + nat list option list" where
  "chunk_cache_hit chunk hs max_length gs p bsize eagle alignment =
     (if eagle \<or> bsize \<noteq> alignment then Inl AssertionError
      else (let start = (if 0 < max_length then max_length div chunk * chunk else 0) div bsize;
                max_num = max_length div bsize
            in map_sum id (\<lambda>hits. replicate (nat start) None @ map Some hits)
                 (hits_at p gs hs (nat start) (nat (max_num - start)))))"

definition find_longest_cache_hit ::
  "attention \<Rightarrow> bool \<Rightarrow> bytes list \<Rightarrow> int \<Rightarrow> int list \<Rightarrow> block_pool \<Rightarrow> int \<Rightarrow> bool \<Rightarrow> int \<Rightarrow> py_error + nat list list" where
  "find_longest_cache_hit a context_parallel hs max_length gs p bsize eagle alignment =
     map_sum id (columns p gs)
       (case a of
          FullAttention \<Rightarrow> full_cache_hit hs max_length gs p bsize eagle alignment
        | SlidingWindow w \<Rightarrow> if context_parallel then Inl AssertionError
                             else window_cache_hit w hs max_length gs p bsize eagle alignment
        | ChunkedLocal c \<Rightarrow> if eagle \<or> context_parallel then Inl AssertionError
                            else chunk_cache_hit c hs max_length gs p bsize eagle alignment)"

end
