(* ===== verification/CacheCoordinator.thy ===== *)
theory CacheCoordinator
  imports CacheManager
begin

text \<open>
  The coordinator of the managers of all attention types over one pool, and the manager the scheduler
  calls (\<open>kv_cache_coordinator.py\<close>, \<open>kv_cache_manager.py\<close>). The hit statistics are not kept.
\<close>

section \<open>State and construction\<close>

text \<open>The three coordinators; the hybrid one holds the groups of equal specifications with the numbers of
  their managers, and the least common multiple of the block sizes.\<close>

datatype coordinator =
    NoPrefixCache
  | Unitary
  | Hybrid (attention_groups: "(kv_cache_spec \<times> nat list) list") (lcm_block_size: int)

record kv_manager =
  pool :: block_pool
  managers :: "type_manager list"
  coordinator_kind :: coordinator
  max_model_len :: int
  use_eagle :: bool
  context_parallel :: bool

fun add_to_group :: "kv_cache_spec \<Rightarrow> nat \<Rightarrow> (kv_cache_spec \<times> nat list) list \<Rightarrow> (kv_cache_spec \<times> nat list) list" where
  "add_to_group spec i [] = [(spec, [i])]"
| "add_to_group spec i ((s, gids) # gs) =
     (if s = spec then (s, gids @ [i]) # gs else (s, gids) # add_to_group spec i gs)"

definition split_groups :: "kv_cache_spec list \<Rightarrow> (kv_cache_spec \<times> nat list) list" where
  "split_groups specs = fold (\<lambda>(i, spec). add_to_group spec i) (List.enumerate 0 specs) []"

definition verify_and_split_kv_cache_groups :: "kv_cache_spec list \<Rightarrow> py_error + coordinator" where
  "verify_and_split_kv_cache_groups specs =
     (let gs = split_groups specs
      in if length gs \<le> 1 then Inl AssertionError
         else Inr (Hybrid (sort_key (\<lambda>(spec, _). attention_type spec \<noteq> FullAttention) gs)
                     (fold lcm (map (spec_block_size \<circ> fst) gs) 1)))"

definition get_kv_cache_coordinator ::
  "bool \<Rightarrow> int \<Rightarrow> kv_cache_spec list \<Rightarrow> int \<Rightarrow> int \<Rightarrow> py_error + coordinator" where
  "get_kv_cache_coordinator caching hash_size specs dcp_world_size pcp_world_size =
     (if \<not> caching then Inr NoPrefixCache
      else if length specs = 1
      then (let bsize = spec_block_size (hd specs) * (if 1 < dcp_world_size then dcp_world_size else 1)
                          * (if 1 < pcp_world_size then pcp_world_size else 1)
            in if hash_size = bsize then Inr Unitary else Inl AssertionError)
      else if list_all (\<lambda>s. spec_block_size s mod hash_size = 0) specs \<and> dcp_world_size = 1 \<and> pcp_world_size = 1
      then verify_and_split_kv_cache_groups specs
      else Inl AssertionError)"

definition kv_manager_init ::
  "int \<Rightarrow> kv_cache_spec list \<Rightarrow> int \<Rightarrow> int \<Rightarrow> bool \<Rightarrow> bool \<Rightarrow> bool \<Rightarrow> bool \<Rightarrow> int \<Rightarrow> int \<Rightarrow> py_error + kv_manager" where
  "kv_manager_init num_blocks specs max_len hash_size caching eagle events use_int dcp_world_size pcp_world_size =
     ebind (pool_init num_blocks caching hash_size events use_int) (\<lambda>p.
       ebind (get_kv_cache_coordinator caching hash_size specs dcp_world_size pcp_world_size) (\<lambda>c.
         Inr \<lparr>pool = p,
              managers = map (\<lambda>(i, spec). manager_init spec dcp_world_size pcp_world_size (int i)) (List.enumerate 0 specs),
              coordinator_kind = c, max_model_len = max_len, use_eagle = eagle,
              context_parallel = (dcp_world_size \<noteq> 1 \<or> pcp_world_size \<noteq> 1)\<rparr>))"

section \<open>Running all managers\<close>

text \<open>The loop over the managers, with one argument for each (\<open>new_computed_blocks[i]\<close>).\<close>

fun managers_do :: "('x \<Rightarrow> 'a manager_op) \<Rightarrow> 'x list \<Rightarrow> type_manager list \<Rightarrow> block_pool
    \<Rightarrow> (py_error + 'a list) \<times> type_manager list \<times> block_pool" where
  "managers_do f xs [] p = (Inr [], [], p)"
| "managers_do f [] (m # ms) p = (Inl IndexError, m # ms, p)"
| "managers_do f (x # xs) (m # ms) p =
     (case f x m p of
        (Inl e, m', p') \<Rightarrow> (Inl e, m' # ms, p')
      | (Inr y, m', p') \<Rightarrow>
          (case managers_do f xs ms p' of
             (Inl e, ms', p'') \<Rightarrow> (Inl e, m' # ms', p'')
           | (Inr ys, ms', p'') \<Rightarrow> (Inr (y # ys), m' # ms', p'')))"

definition coordinate :: "('x \<Rightarrow> 'a manager_op) \<Rightarrow> 'x list \<Rightarrow> kv_manager \<Rightarrow> (py_error + 'a list) \<times> kv_manager" where
  "coordinate f xs k =
     (case managers_do f xs (managers k) (pool k) of (res, ms, p) \<Rightarrow> (res, k\<lparr>managers := ms, pool := p\<rparr>))"

definition each :: "kv_manager \<Rightarrow> unit list" where
  "each k = replicate (length (managers k)) ()"

fun sum_blocks_to_allocate :: "string \<Rightarrow> int \<Rightarrow> int \<Rightarrow> nat list list \<Rightarrow> type_manager list \<Rightarrow> block_pool \<Rightarrow> py_error + int" where
  "sum_blocks_to_allocate rid n total_computed hits [] p = Inr 0"
| "sum_blocks_to_allocate rid n total_computed [] (m # ms) p = Inl IndexError"
| "sum_blocks_to_allocate rid n total_computed (h # hits) (m # ms) p =
     ebind (get_num_blocks_to_allocate rid n h total_computed m p)
       (\<lambda>a. map_sum id ((+) a) (sum_blocks_to_allocate rid n total_computed hits ms p))"

text \<open>\<open>empty_kv_cache_blocks\<close> is one object; the allocation tests for it by identity. Here it is \<open>None\<close>.\<close>

definition create_kv_cache_blocks :: "nat list list \<Rightarrow> nat list list option" where
  "create_kv_cache_blocks bss = (if list_ex (\<lambda>bs. bs \<noteq> []) bss then Some bss else None)"

definition block_lists :: "kv_manager \<Rightarrow> nat list list option \<Rightarrow> nat list list" where
  "block_lists k hits = (case hits of None \<Rightarrow> replicate (length (managers k)) [] | Some bss \<Rightarrow> bss)"

definition allocate_slots ::
  "cache_request \<Rightarrow> int \<Rightarrow> int \<Rightarrow> nat list list option \<Rightarrow> int \<Rightarrow> int \<Rightarrow> bool \<Rightarrow> kv_manager
     \<Rightarrow> (py_error + nat list list option) \<times> kv_manager" where
  "allocate_slots r num_new num_new_computed new_computed_blocks lookahead external delay_cache_blocks k =
     (if num_new = 0 \<and> external = 0 then (Inl ValueError, k)
      else
        let rid = request_id r;
            hits = block_lists k new_computed_blocks;
            local_computed = num_computed_tokens r + num_new_computed;
            total_computed = min (local_computed + external) (max_model_len k);
            need_slot = min (total_computed + num_new + lookahead) (max_model_len k)
        in case coordinate (\<lambda>_. remove_skipped_blocks rid total_computed) (each k) k of
             (Inl e, k1) \<Rightarrow> (Inl e, k1)
           | (Inr _, k1) \<Rightarrow>
          (case sum_blocks_to_allocate rid need_slot (local_computed + external) hits (managers k1) (pool k1) of
             Inl e \<Rightarrow> (Inl e, k1)
           | Inr needed \<Rightarrow>
               if get_num_free_blocks (pool k1) < needed then (Inr None, k1)
               else
          (case (if new_computed_blocks \<noteq> None \<or> 0 < external
                 then coordinate (allocate_new_computed_blocks rid local_computed external) hits k1
                 else (Inr [], k1)) of
             (Inl e, k2) \<Rightarrow> (Inl e, k2)
           | (Inr _, k2) \<Rightarrow>
          (case coordinate (\<lambda>_. allocate_new_blocks rid need_slot) (each k2) k2 of
             (Inl e, k3) \<Rightarrow> (Inl e, k3)
           | (Inr new, k3) \<Rightarrow>
               if \<not> enable_caching (pool k3) \<or> delay_cache_blocks then (Inr (Some new), k3)
               else
          (case coordinate (\<lambda>_. cache_blocks r (min (total_computed + num_new) (num_tokens r))) (each k3) k3 of
             (Inl e, k4) \<Rightarrow> (Inl e, k4)
           | (Inr _, k4) \<Rightarrow> (Inr (Some new), k4))))))"


definition free_slots :: "cache_request \<Rightarrow> kv_manager \<Rightarrow> (py_error + unit list) \<times> kv_manager" where
  "free_slots r k = coordinate (\<lambda>_. free_request (request_id r)) (each k) k"

definition remove_skipped :: "string \<Rightarrow> int \<Rightarrow> kv_manager \<Rightarrow> (py_error + unit list) \<times> kv_manager" where
  "remove_skipped rid n k = coordinate (\<lambda>_. remove_skipped_blocks rid n) (each k) k"

definition commit_blocks :: "cache_request \<Rightarrow> int \<Rightarrow> kv_manager \<Rightarrow> (py_error + unit list) \<times> kv_manager" where
  "commit_blocks r n k = (if enable_caching (pool k) then coordinate (\<lambda>_. cache_blocks r n) (each k) k else (Inr [], k))"

definition evict_kv_blocks :: "nat list \<Rightarrow> kv_manager \<Rightarrow> (py_error + unit) \<times> kv_manager" where
  "evict_kv_blocks bs k = map_prod id (\<lambda>p. k\<lparr>pool := p\<rparr>) (evict_blocks bs (pool k))"

definition reset_cache :: "kv_manager \<Rightarrow> bool \<times> kv_manager" where
  "reset_cache k = map_prod id (\<lambda>p. k\<lparr>pool := p\<rparr>) (reset_prefix_cache (pool k))"

definition take_kv_events :: "kv_manager \<Rightarrow> kv_event list \<times> kv_manager" where
  "take_kv_events k = map_prod id (\<lambda>p. k\<lparr>pool := p\<rparr>) (take_events (pool k))"

definition take_all_new_block_ids :: "kv_manager \<Rightarrow> nat list \<times> kv_manager" where
  "take_all_new_block_ids k =
     (concat (map (fst \<circ> take_new_block_ids) (managers k)), k\<lparr>managers := map (snd \<circ> take_new_block_ids) (managers k)\<rparr>)"

definition get_blocks :: "string \<Rightarrow> kv_manager \<Rightarrow> nat list list option" where
  "get_blocks rid k = create_kv_cache_blocks (map (\<lambda>m. req_blocks m rid) (managers k))"

definition get_block_ids :: "string \<Rightarrow> kv_manager \<Rightarrow> nat list list" where
  "get_block_ids rid k = block_lists k (get_blocks rid k)"

definition common_prefix_blocks :: "string \<Rightarrow> kv_manager \<Rightarrow> int list" where
  "common_prefix_blocks rid k =
     (if coordinator_kind k = NoPrefixCache then replicate (length (managers k)) 0
      else map (\<lambda>m. num_common_prefix_blocks rid m (pool k)) (managers k))"

definition cache_usage :: "kv_manager \<Rightarrow> real" where
  "cache_usage k = get_usage (pool k)"

section \<open>The longest hit over all groups\<close>

text \<open>One pass over the groups of a hybrid coordinator: the length that all of them accept so far and the
  hits per manager.\<close>

fun set_hits :: "nat list \<Rightarrow> nat list list \<Rightarrow> nat list option list \<Rightarrow> nat list option list" where
  "set_hits (i # is) (bs # bss) hits = set_hits is bss (hits[i := Some bs])"
| "set_hits _ _ hits = hits"

fun hybrid_pass :: "kv_manager \<Rightarrow> bytes list \<Rightarrow> int \<Rightarrow> (kv_cache_spec \<times> nat list) list \<Rightarrow> int \<Rightarrow> nat list option list
    \<Rightarrow> py_error + int \<times> nat list option list" where
  "hybrid_pass k hs lcm_size [] len hits = Inr (len, hits)"
| "hybrid_pass k hs lcm_size ((spec, gids) # gs) len hits =
     (if attention_type spec = FullAttention \<and> hits ! hd gids \<noteq> None
      then hybrid_pass k hs lcm_size gs (len div spec_block_size spec * spec_block_size spec) hits
      else ebind (if spec_block_size spec = hash_block_size (pool k) then Inr hs
                  else coarse_hashes hs (hash_block_size (pool k)) (spec_block_size spec)) (\<lambda>hs'.
           ebind (find_longest_cache_hit (attention_type spec) False hs' len (map int gids) (pool k)
                    (spec_block_size spec) (use_eagle k) lcm_size) (\<lambda>found.
             hybrid_pass k hs lcm_size gs (int (length (hd found)) * spec_block_size spec) (set_hits gids found hits))))"

text \<open>The fixed point: every pass that does not end the loop has made the length smaller.\<close>

partial_function (option) hybrid_loop ::
  "kv_manager \<Rightarrow> bytes list \<Rightarrow> (kv_cache_spec \<times> nat list) list \<Rightarrow> int \<Rightarrow> int \<Rightarrow> nat list option list
     \<Rightarrow> (py_error + int \<times> nat list option list) option" where
  "hybrid_loop k hs gs lcm_size len hits =
     (case hybrid_pass k hs lcm_size gs len hits of
        Inl e \<Rightarrow> Some (Inl e)
      | Inr (len', hits') \<Rightarrow>
          if len \<le> len' then Some (Inr (len, hits'))
          else if length gs = 2 \<and> attention_type (fst (hd gs)) = FullAttention then Some (Inr (len', hits'))
          else hybrid_loop k hs gs lcm_size len' hits')"

declare hybrid_loop.simps [code]

definition truncate_full :: "(kv_cache_spec \<times> nat list) list \<Rightarrow> int \<Rightarrow> nat list option list \<Rightarrow> nat list option list" where
  "truncate_full gs len hits =
     (case gs of
        (spec, gids) # _ \<Rightarrow>
          if attention_type spec = FullAttention
          then fold (\<lambda>i hits. hits[i := map_option (take (nat (len div spec_block_size spec))) (hits ! i)]) gids hits
          else hits
      | [] \<Rightarrow> hits)"

definition longest_hit :: "kv_manager \<Rightarrow> bytes list \<Rightarrow> int \<Rightarrow> (py_error + nat list list \<times> int) option" where
  "longest_hit k hs max_length =
     (case coordinator_kind k of
        NoPrefixCache \<Rightarrow> Some (Inr (replicate (length (managers k)) [], 0))
      | Unitary \<Rightarrow>
          (let m = hd (managers k)
           in Some (map_sum id (\<lambda>bss. (bss, int (length (hd bss)) * block_size m))
                (find_longest_cache_hit (attention_type (kv_spec m)) (context_parallel k) hs max_length [0] (pool k)
                   (block_size m) (use_eagle k) (block_size m))))
      | Hybrid gs lcm_size \<Rightarrow>
          map_option (map_sum id (\<lambda>(len, hits). (map (\<lambda>h. case h of None \<Rightarrow> [] | Some bs \<Rightarrow> bs) (truncate_full gs len hits), len)))
            (hybrid_loop k hs gs lcm_size max_length (replicate (length (managers k)) None)))"

definition get_computed_blocks :: "cache_request \<Rightarrow> kv_manager \<Rightarrow> (py_error + nat list list option \<times> int) option" where
  "get_computed_blocks r k =
     (if \<not> enable_caching (pool k) \<or> skip_reading_prefix_cache r then Some (Inr (None, 0))
      else map_option (map_sum id (map_prod create_kv_cache_blocks id))
             (longest_hit k (block_hashes r) (num_tokens r - 1)))"

end
