(* ===== verification/CacheInv.thy ===== *)
theory CacheInv
  imports CacheCoordinator PoolInv
begin

text \<open>
  The invariant of the cache managers: the reference count of every block is the number of its
  occurrences in the tables of all requests and managers. Every operation of a manager keeps it and does
  not raise; the coordinator's loop over the managers inherits this from the locale \<open>manager_operation\<close>.
\<close>

declare map_of_eq_Some_iff [simp del]

section \<open>References held by the tables\<close>

definition refs :: "type_manager \<Rightarrow> nat \<Rightarrow> nat" where
  "refs m b = count_list (concat (map snd (req_to_blocks m))) b"

definition all_refs :: "type_manager list \<Rightarrow> nat \<Rightarrow> nat" where
  "all_refs ms b = sum_list (map (\<lambda>m. refs m b) ms)"

definition pool_ok :: "block_pool \<Rightarrow> bool" where
  "pool_ok p \<longleftrightarrow> (\<exists>fl. free_rel p fl) \<and> cache_rel p \<and> 0 < hash_block_size p"

definition manager_ok :: "block_pool \<Rightarrow> type_manager \<Rightarrow> bool" where
  "manager_ok p m \<longleftrightarrow> dict_wf (req_to_blocks m) \<and> 0 < block_size m \<and> kv_cache_group_id m \<in> {0..<2 ^ 32} \<and>
     (\<forall>rid. 0 \<le> cached_count m rid \<and> list_all (\<lambda>b. b < num_blocks p) (req_blocks m rid) \<and>
        distinct (filter (\<lambda>b. b \<noteq> null_block p) (req_blocks m rid)))"

text \<open>The blocks of a request that are not cached yet belong to it alone and carry no hash.\<close>

definition tail_ok :: "block_pool \<Rightarrow> type_manager \<Rightarrow> bool" where
  "tail_ok p m \<longleftrightarrow> (\<forall>rid i. cached_count m rid \<le> int i \<longrightarrow> i < length (req_blocks m rid) \<longrightarrow>
     req_blocks m rid ! i \<noteq> null_block p \<longrightarrow> enable_caching p \<longrightarrow>
       ref_cnt (blocks p ! (req_blocks m rid ! i)) = 1 \<and> block_hash (blocks p ! (req_blocks m rid ! i)) = None)"

text \<open>The invariant for some managers, when the others hold \<open>R b\<close> references to block \<open>b\<close>.\<close>

definition managers_inv :: "(nat \<Rightarrow> nat) \<Rightarrow> type_manager list \<Rightarrow> block_pool \<Rightarrow> bool" where
  "managers_inv R ms p \<longleftrightarrow> pool_ok p \<and>
     (\<forall>b < num_blocks p. b \<noteq> null_block p \<longrightarrow> ref_cnt (blocks p ! b) = int (R b + all_refs ms b)) \<and>
     (\<forall>m \<in> set ms. manager_ok p m \<and> tail_ok p m)"

text \<open>An operation leaves alone the uncached blocks of the other managers.\<close>

definition undisturbed ::
  "(nat \<Rightarrow> nat) \<Rightarrow> type_manager list \<Rightarrow> block_pool \<Rightarrow> type_manager list \<Rightarrow> block_pool \<Rightarrow> bool" where
  "undisturbed R ms p ms' p' \<longleftrightarrow> same_setup p p' \<and>
     (\<forall>b < num_blocks p. b \<noteq> null_block p \<longrightarrow> R b = 1 \<longrightarrow> all_refs ms b = 0 \<longrightarrow> block_hash (blocks p ! b) = None \<longrightarrow>
        all_refs ms' b = 0 \<and> block_hash (blocks p' ! b) = None)"

lemma all_refs_simps [simp]: "all_refs [] b = 0" "all_refs (m # ms) b = refs m b + all_refs ms b"
  by (simp_all add: all_refs_def)

lemma manager_ok_setup: "manager_ok p m \<Longrightarrow> same_setup p p' \<Longrightarrow> manager_ok p' m"
  by (simp add: manager_ok_def)

lemma refs_pos: "b \<in> set (req_blocks m rid) \<Longrightarrow> 0 < refs m b"
proof -
  assume b: "b \<in> set (req_blocks m rid)"
  then obtain bs where "map_of (req_to_blocks m) rid = Some bs" "b \<in> set bs"
    by (cases "map_of (req_to_blocks m) rid") (auto simp: req_blocks_def)
  then have "b \<in> set (concat (map snd (req_to_blocks m)))" by (force dest: map_of_SomeD)
  then show ?thesis unfolding refs_def by (metis count_list_0_iff gr0I)
qed

lemma tail_ok_frame:
  assumes "tail_ok p m" "manager_ok p m" "same_setup p p'"
    and "\<And>b. b < num_blocks p \<Longrightarrow> b \<noteq> null_block p \<Longrightarrow> 0 < refs m b \<Longrightarrow> ref_cnt (blocks p ! b) = 1 \<Longrightarrow>
      block_hash (blocks p ! b) = None \<Longrightarrow> ref_cnt (blocks p' ! b) = 1 \<and> block_hash (blocks p' ! b) = None"
  shows "tail_ok p' m"
  unfolding tail_ok_def
proof (intro allI impI)
  fix rid i
  let ?b = "req_blocks m rid ! i"
  assume i: "cached_count m rid \<le> int i" "i < length (req_blocks m rid)" "?b \<noteq> null_block p'" "enable_caching p'"
  then have "0 < refs m ?b" by (intro refs_pos [of _ _ rid]) simp
  moreover have "?b < num_blocks p" using assms(2) i(2) by (simp add: manager_ok_def list_all_length)
  moreover have "ref_cnt (blocks p ! ?b) = 1 \<and> block_hash (blocks p ! ?b) = None"
    using assms(1,3) i by (simp add: tail_ok_def)
  ultimately show "ref_cnt (blocks p' ! ?b) = 1 \<and> block_hash (blocks p' ! ?b) = None"
    using assms(3,4) i(3) by simp
qed

lemma refs_in_table: "dict_wf (req_to_blocks m) \<Longrightarrow> refs m b = 0 \<longleftrightarrow> (\<forall>rid. b \<notin> set (req_blocks m rid))"
proof
  assume "refs m b = 0"
  then show "\<forall>rid. b \<notin> set (req_blocks m rid)" using refs_pos [of b m] by fastforce
next
  assume wf: "dict_wf (req_to_blocks m)" and out: "\<forall>rid. b \<notin> set (req_blocks m rid)"
  have "b \<notin> set bs" if "(rid, bs) \<in> set (req_to_blocks m)" for rid bs
  proof -
    have "req_blocks m rid = bs" using map_of_is_SomeI [OF wf that] by (simp add: req_blocks_def)
    with out show ?thesis by blast
  qed
  then have "b \<notin> set (concat (map snd (req_to_blocks m)))" by auto
  then show "refs m b = 0" unfolding refs_def by (metis count_list_0_iff)
qed

lemma all_refs_pos: "m \<in> set ms \<Longrightarrow> refs m b \<le> all_refs ms b"
  by (induction ms) auto

section \<open>The loop over the managers\<close>

locale manager_operation =
  fixes f :: "'x \<Rightarrow> 'a manager_op"
    and pre :: "'x \<Rightarrow> type_manager \<Rightarrow> block_pool \<Rightarrow> bool"
    and cost :: "'x \<Rightarrow> type_manager \<Rightarrow> block_pool \<Rightarrow> int"
    and post :: "'x \<Rightarrow> type_manager \<Rightarrow> 'a \<Rightarrow> type_manager \<Rightarrow> bool"
    and keeps :: "block_pool \<Rightarrow> block_pool \<Rightarrow> bool"
  assumes operation: "managers_inv R [m] p \<Longrightarrow> pre x m p \<Longrightarrow> cost x m p \<le> get_num_free_blocks p \<Longrightarrow>
      \<exists>y m' p'. f x m p = (Inr y, m', p') \<and> managers_inv R [m'] p' \<and> undisturbed R [m] p [m'] p' \<and>
        post x m y m' \<and> keeps p p' \<and> get_num_free_blocks p - cost x m p \<le> get_num_free_blocks p'"
    and keeps_refl: "keeps p p"
    and keeps_trans: "keeps p q \<Longrightarrow> keeps q r \<Longrightarrow> same_setup p q \<Longrightarrow> keeps p r"
    and stable: "keeps p p' \<Longrightarrow> same_setup p p' \<Longrightarrow> pre x m p \<Longrightarrow> manager_ok p m \<Longrightarrow>
      pre x m p' \<and> cost x m p' \<le> cost x m p"
    and cost_nonneg: "0 \<le> cost x m p"
begin

definition costs :: "'x list \<Rightarrow> type_manager list \<Rightarrow> block_pool \<Rightarrow> int" where
  "costs xs ms p = sum_list (map2 (\<lambda>x m. cost x m p) xs ms)"

lemma costs_simps [simp]: "costs (x # xs) (m # ms) p = cost x m p + costs xs ms p"
  by (simp add: costs_def)

lemma costs_nonneg: "0 \<le> costs xs ms p"
  unfolding costs_def by (rule sum_list_nonneg) (auto simp: cost_nonneg)

lemma costs_stable:
  "\<forall>m \<in> set ms. manager_ok p m \<Longrightarrow> list_all2 (\<lambda>x m. pre x m p) xs ms \<Longrightarrow> keeps p p' \<Longrightarrow> same_setup p p' \<Longrightarrow>
   list_all2 (\<lambda>x m. pre x m p') xs ms \<and> costs xs ms p' \<le> costs xs ms p"
proof (induction ms arbitrary: xs)
  case (Cons m ms)
  then obtain x xs' where xs: "xs = x # xs'" by (cases xs) auto
  with Cons.prems have "list_all2 (\<lambda>x m. pre x m p') xs' ms \<and> costs xs' ms p' \<le> costs xs' ms p"
    by (intro Cons.IH) simp_all
  with stable [OF Cons.prems(3,4), of x m] Cons.prems(1,2) xs show ?case by simp
qed (simp add: costs_def)

lemma managers_do_ok:
  "managers_inv R ms p \<Longrightarrow> list_all2 (\<lambda>x m. pre x m p) xs ms \<Longrightarrow> costs xs ms p \<le> get_num_free_blocks p \<Longrightarrow>
   \<exists>ys ms' p'. managers_do f xs ms p = (Inr ys, ms', p') \<and> managers_inv R ms' p' \<and> undisturbed R ms p ms' p' \<and>
     length ys = length ms \<and> length ms' = length ms \<and> (\<forall>i < length ms. post (xs ! i) (ms ! i) (ys ! i) (ms' ! i)) \<and>
     keeps p p' \<and> get_num_free_blocks p - costs xs ms p \<le> get_num_free_blocks p'"
proof (induction ms arbitrary: R p xs)
  case Nil
  then show ?case by (simp add: undisturbed_def keeps_refl costs_def)
next
  case (Cons m ms)
  then obtain x xs' where xs: "xs = x # xs'" by (cases xs) auto
  let ?R = "\<lambda>b. R b + all_refs ms b"
  have inv: "pool_ok p" "\<And>b. b < num_blocks p \<Longrightarrow> b \<noteq> null_block p \<Longrightarrow> ref_cnt (blocks p ! b) = int (R b + (refs m b + all_refs ms b))"
    "manager_ok p m" "tail_ok p m" "\<And>m'. m' \<in> set ms \<Longrightarrow> manager_ok p m' \<and> tail_ok p m'"
    using Cons.prems(1) by (simp_all add: managers_inv_def)
  have "managers_inv ?R [m] p" using inv by (simp add: managers_inv_def)
  moreover have "pre x m p" "cost x m p \<le> get_num_free_blocks p"
    using Cons.prems(2,3) xs costs_nonneg [of xs' ms p] by simp_all
  ultimately obtain y m' p1 where f: "f x m p = (Inr y, m', p1)" "managers_inv ?R [m'] p1" "undisturbed ?R [m] p [m'] p1"
    "post x m y m'" "keeps p p1" "get_num_free_blocks p - cost x m p \<le> get_num_free_blocks p1"
    using operation [of ?R m p x] by blast
  have eq: "same_setup p p1" and frame: "\<And>b. b < num_blocks p \<Longrightarrow> b \<noteq> null_block p \<Longrightarrow> ?R b = 1 \<Longrightarrow> refs m b = 0 \<Longrightarrow>
      block_hash (blocks p ! b) = None \<Longrightarrow> refs m' b = 0 \<and> block_hash (blocks p1 ! b) = None"
    using f(3) by (simp_all add: undisturbed_def)
  have inv1: "pool_ok p1" "\<And>b. b < num_blocks p1 \<Longrightarrow> b \<noteq> null_block p1 \<Longrightarrow> ref_cnt (blocks p1 ! b) = int (?R b + refs m' b)"
    "manager_ok p1 m'" "tail_ok p1 m'"
    using f(2) by (simp_all add: managers_inv_def)
  have "tail_ok p1 m2" if m2: "m2 \<in> set ms" for m2
   proof (rule tail_ok_frame [of p _ p1])
    fix b
    assume b: "b < num_blocks p" "b \<noteq> null_block p" "0 < refs m2 b" "ref_cnt (blocks p ! b) = 1"
      "block_hash (blocks p ! b) = None"
    with all_refs_pos [OF m2, of b] inv(2) [of b] have "?R b = 1" "refs m b = 0" by simp_all
    with frame [of b] b inv1(2) [of b] eq show "ref_cnt (blocks p1 ! b) = 1 \<and> block_hash (blocks p1 ! b) = None" by simp
  qed (use inv(5) [OF m2] eq in simp_all)
  then have "managers_inv (\<lambda>b. R b + refs m' b) ms p1"
    using inv(5) manager_ok_setup [OF _ eq] inv1(1,2) by (simp add: managers_inv_def algebra_simps)
  moreover have "list_all2 (\<lambda>x m. pre x m p1) xs' ms \<and> costs xs' ms p1 \<le> costs xs' ms p"
    using Cons.prems(2) xs inv(5) by (intro costs_stable [OF _ _ f(5) eq]) simp_all
  ultimately obtain ys ms' p' where g: "managers_do f xs' ms p1 = (Inr ys, ms', p')"
    "managers_inv (\<lambda>b. R b + refs m' b) ms' p'" "undisturbed (\<lambda>b. R b + refs m' b) ms p1 ms' p'"
    "length ys = length ms" "length ms' = length ms" "\<forall>i < length ms. post (xs' ! i) (ms ! i) (ys ! i) (ms' ! i)"
    "keeps p1 p'" "get_num_free_blocks p1 - costs xs' ms p1 \<le> get_num_free_blocks p'" "costs xs' ms p1 \<le> costs xs' ms p"
    using Cons.IH [of "\<lambda>b. R b + refs m' b" p1 xs'] Cons.prems(3) xs f(6) by auto
  have eq': "same_setup p1 p'" and frame': "\<And>b. b < num_blocks p1 \<Longrightarrow> b \<noteq> null_block p1 \<Longrightarrow> R b + refs m' b = 1 \<Longrightarrow>
      all_refs ms b = 0 \<Longrightarrow> block_hash (blocks p1 ! b) = None \<Longrightarrow> all_refs ms' b = 0 \<and> block_hash (blocks p' ! b) = None"
    using g(3) by (simp_all add: undisturbed_def)
  have inv2: "pool_ok p'" "\<And>b. b < num_blocks p' \<Longrightarrow> b \<noteq> null_block p' \<Longrightarrow> ref_cnt (blocks p' ! b) = int (R b + refs m' b + all_refs ms' b)"
    "\<And>m2. m2 \<in> set ms' \<Longrightarrow> manager_ok p' m2 \<and> tail_ok p' m2"
    using g(2) by (simp_all add: managers_inv_def)
  have "tail_ok p' m'"
  proof (rule tail_ok_frame [of p1 _ p'])
    fix b
    assume b: "b < num_blocks p1" "b \<noteq> null_block p1" "0 < refs m' b" "ref_cnt (blocks p1 ! b) = 1"
      "block_hash (blocks p1 ! b) = None"
    with inv1(2) [of b] have "R b + refs m' b = 1" "all_refs ms b = 0" by simp_all
    with frame' [of b] b inv2(2) [of b] eq' show "ref_cnt (blocks p' ! b) = 1 \<and> block_hash (blocks p' ! b) = None" by simp
  qed (use inv1 eq' in simp_all)
  then have "managers_inv R (m' # ms') p'"
    using inv2 manager_ok_setup [OF inv1(3) eq'] by (simp add: managers_inv_def algebra_simps)
  moreover have "undisturbed R (m # ms) p (m' # ms') p'"
    unfolding undisturbed_def
  proof (intro conjI allI impI)
    fix b
    assume b: "b < num_blocks p" "b \<noteq> null_block p" "R b = 1" "all_refs (m # ms) b = 0" "block_hash (blocks p ! b) = None"
    with frame [of b] have "refs m' b = 0" "block_hash (blocks p1 ! b) = None" by simp_all
    with b frame' [of b] eq have "all_refs ms' b = 0 \<and> block_hash (blocks p' ! b) = None" by simp
    with \<open>refs m' b = 0\<close> show "all_refs (m' # ms') b = 0" "block_hash (blocks p' ! b) = None" by simp_all
  qed (use eq eq' in simp_all)
  moreover have "managers_do f xs (m # ms) p = (Inr (y # ys), m' # ms', p')" using f(1) g(1) xs by simp
  moreover have "\<forall>i < length (m # ms). post (xs ! i) ((m # ms) ! i) ((y # ys) ! i) ((m' # ms') ! i)"
    using f(4) g(6) xs by (auto simp: less_Suc_eq_0_disj)
  moreover have "keeps p p'" using f(5) g(7) eq by (rule keeps_trans)
  moreover have "get_num_free_blocks p - costs xs (m # ms) p \<le> get_num_free_blocks p'" using f(6) g(8,9) xs by simp
  ultimately show ?case using g(4,5) by (intro exI [of _ "y # ys"] exI [of _ "m' # ms'"] exI [of _ p']) simp
qed

end

section \<open>Changing one entry of a table\<close>

definition table_update :: "string \<Rightarrow> nat list \<Rightarrow> type_manager \<Rightarrow> type_manager \<Rightarrow> bool" where
  "table_update rid bs m m' \<longleftrightarrow> dict_wf (req_to_blocks m') \<and> block_size m' = block_size m \<and>
     kv_cache_group_id m' = kv_cache_group_id m \<and> kv_spec m' = kv_spec m \<and>
     (\<forall>r. req_blocks m' r = (if r = rid then bs else req_blocks m r)) \<and>
     (\<forall>r. r \<noteq> rid \<longrightarrow> cached_count m' r = cached_count m r) \<and>
     (\<forall>b. refs m' b + count_list (req_blocks m rid) b = refs m b + count_list bs b)"

lemma concat_update: "count_list (concat (map snd (AList.update k v d))) b + count_list (case map_of d k of None \<Rightarrow> [] | Some w \<Rightarrow> w) b
    = count_list (concat (map snd d)) b + count_list v b"
  by (induction d) auto

lemma concat_delete: "dict_wf d \<Longrightarrow> count_list (concat (map snd (AList.delete k d))) b
    + count_list (case map_of d k of None \<Rightarrow> [] | Some w \<Rightarrow> w) b = count_list (concat (map snd d)) b"
proof (induction d)
  case (Cons x d)
  obtain j w where x: "x = (j, w)" by fastforce
  show ?case
  proof (cases "j = k")
    case True
    with Cons.prems x have "AList.delete k d = d" by (intro AList.delete_id) (simp add: image_iff)
    with True x show ?thesis by simp
  qed (use Cons x in simp)
qed simp

lemma req_blocks_put [simp]: "req_blocks (put_blocks rid bs m) r = (if r = rid then bs else req_blocks m r)"
  by (simp add: req_blocks_def put_blocks_def)

lemma manager_simps [simp]: "req_blocks (m\<lparr>num_cached_block := x\<rparr>) r = req_blocks m r"
  "req_blocks (m\<lparr>new_block_ids := y\<rparr>) r = req_blocks m r" "cached_count (m\<lparr>new_block_ids := y\<rparr>) r = cached_count m r"
  "refs (m\<lparr>num_cached_block := x\<rparr>) b = refs m b" "refs (m\<lparr>new_block_ids := y\<rparr>) b = refs m b"
  "cached_count (put_blocks rid bs m) r = cached_count m r"
  "block_size (put_blocks rid bs m) = block_size m" "kv_spec (put_blocks rid bs m) = kv_spec m"
  "kv_cache_group_id (put_blocks rid bs m) = kv_cache_group_id m"
  "num_cached_block (put_blocks rid bs m) = num_cached_block m"
  by (simp_all add: req_blocks_def refs_def cached_count_def put_blocks_def)

lemma table_update_put: "dict_wf (req_to_blocks m) \<Longrightarrow> table_update rid bs m (put_blocks rid bs m)"
  using concat_update [of rid bs "req_to_blocks m"]
  by (auto simp: table_update_def put_blocks_def refs_def req_blocks_def cached_count_def)

lemma table_update_delete:
  "dict_wf (req_to_blocks m) \<Longrightarrow> table_update rid [] m (m\<lparr>req_to_blocks := AList.delete rid (req_to_blocks m)\<rparr>)"
  using concat_delete [of "req_to_blocks m" rid]
  by (auto simp: table_update_def refs_def req_blocks_def cached_count_def)

lemma cached_count_update [simp]:
  "cached_count (m\<lparr>num_cached_block := AList.update rid n d\<rparr>) r = (if r = rid then n else cached_count (m\<lparr>num_cached_block := d\<rparr>) r)"
  "cached_count (m\<lparr>num_cached_block := AList.delete rid d\<rparr>) r = (if r = rid then 0 else cached_count (m\<lparr>num_cached_block := d\<rparr>) r)"
  "cached_count (m\<lparr>num_cached_block := num_cached_block m1\<rparr>) r = cached_count m1 r"
  by (simp_all add: cached_count_def)

lemma table_update_counts:
  assumes "table_update rid bs m m1"
  shows "table_update rid bs m (m1\<lparr>num_cached_block := AList.update rid n (num_cached_block m1)\<rparr>)"
    and "table_update rid bs m (m1\<lparr>num_cached_block := AList.delete rid (num_cached_block m1)\<rparr>)"
    and "table_update rid bs m (m1\<lparr>new_block_ids := ns\<rparr>)"
  using assms by (simp_all add: table_update_def)

lemma two_lists: "dict_wf (req_to_blocks m) \<Longrightarrow> r \<noteq> rid \<Longrightarrow>
    count_list (req_blocks m rid) b + count_list (req_blocks m r) b \<le> refs m b"
proof -
  assume wf: "dict_wf (req_to_blocks m)" and r: "r \<noteq> rid"
  let ?m = "put_blocks rid [] m"
  have "refs ?m b + count_list (req_blocks m rid) b = refs m b"
    using table_update_put [OF wf, of rid "[]"] by (simp add: table_update_def)
  moreover have "refs (put_blocks r [] ?m) b + count_list (req_blocks ?m r) b = refs ?m b"
    using table_update_put [of ?m r "[]"] wf by (simp add: table_update_def put_blocks_def)
  ultimately show ?thesis using r by simp
qed

lemma count_in_table: "dict_wf (req_to_blocks m) \<Longrightarrow> count_list (req_blocks m rid) b \<le> refs m b"
  using table_update_put [of m rid "[]"] by (simp add: table_update_def) (metis le_add2)

text \<open>What has to be shown of an operation that changes the table of one request.\<close>

lemma entry_changed:
  assumes inv: "managers_inv R [m] p" and eq: "same_setup p p'" and "pool_ok p'" and up: "table_update rid bs m m'"
    and bs: "0 \<le> cached_count m' rid" "list_all (\<lambda>b. b < num_blocks p) bs" "distinct (filter (\<lambda>b. b \<noteq> null_block p) bs)"
    and counts: "\<And>b. b < num_blocks p \<Longrightarrow> b \<noteq> null_block p \<Longrightarrow>
      ref_cnt (blocks p' ! b) = ref_cnt (blocks p ! b) - int (count_list (req_blocks m rid) b) + int (count_list bs b)"
    and others: "\<And>b. b < num_blocks p \<Longrightarrow> b \<noteq> null_block p \<Longrightarrow> ref_cnt (blocks p ! b) = 1 \<Longrightarrow>
      block_hash (blocks p ! b) = None \<Longrightarrow> b \<notin> set (req_blocks m rid) \<Longrightarrow> b \<notin> set bs \<and> block_hash (blocks p' ! b) = None"
    and tail: "\<And>i. cached_count m' rid \<le> int i \<Longrightarrow> i < length bs \<Longrightarrow> bs ! i \<noteq> null_block p \<Longrightarrow> enable_caching p \<Longrightarrow>
      ref_cnt (blocks p' ! (bs ! i)) = 1 \<and> block_hash (blocks p' ! (bs ! i)) = None"
  shows "managers_inv R [m'] p' \<and> undisturbed R [m] p [m'] p'"
proof
  from inv have refs: "\<And>b. b < num_blocks p \<Longrightarrow> b \<noteq> null_block p \<Longrightarrow> ref_cnt (blocks p ! b) = int (R b + refs m b)"
    and ok: "manager_ok p m" and t: "tail_ok p m" by (simp_all add: managers_inv_def)
  have wf: "dict_wf (req_to_blocks m)" using ok by (simp add: manager_ok_def)
  have up': "dict_wf (req_to_blocks m')" "block_size m' = block_size m" "kv_cache_group_id m' = kv_cache_group_id m"
    "\<And>r. req_blocks m' r = (if r = rid then bs else req_blocks m r)" "\<And>r. r \<noteq> rid \<Longrightarrow> cached_count m' r = cached_count m r"
    "\<And>b. refs m' b + count_list (req_blocks m rid) b = refs m b + count_list bs b"
    using up by (simp_all add: table_update_def)
  have "0 \<le> cached_count m' r" for r using ok up'(5) bs(1) by (cases "r = rid") (simp_all add: manager_ok_def)
  then have mok: "manager_ok p' m'" using ok up' bs eq by (simp add: manager_ok_def)
  moreover have "ref_cnt (blocks p' ! b) = int (R b + refs m' b)" if "b < num_blocks p" "b \<noteq> null_block p" for b
    using counts [OF that] refs [OF that] up'(6) [of b] by linarith
  moreover have "tail_ok p' m'"
    unfolding tail_ok_def
  proof (intro allI impI)
    fix r i
    let ?b = "req_blocks m' r ! i"
    assume i: "cached_count m' r \<le> int i" "i < length (req_blocks m' r)" "?b \<noteq> null_block p'" "enable_caching p'"
    show "ref_cnt (blocks p' ! ?b) = 1 \<and> block_hash (blocks p' ! ?b) = None"
    proof (cases "r = rid")
      case True
      with i tail [of i] up'(4) eq show ?thesis by simp
    next
      case False
      with i up'(4,5) eq have b: "cached_count m r \<le> int i" "i < length (req_blocks m r)" "?b = req_blocks m r ! i"
        "?b \<noteq> null_block p" by simp_all
      with t i(4) eq have one: "ref_cnt (blocks p ! ?b) = 1" "block_hash (blocks p ! ?b) = None"
        by (simp_all add: tail_ok_def)
      from b ok have n: "?b < num_blocks p" by (simp add: manager_ok_def list_all_length)
      have "?b \<in> set (req_blocks m r)" using b(2,3) by simp
      then have "0 < count_list (req_blocks m r) ?b" by (metis count_list_0_iff gr0I)
      with two_lists [OF wf False, of ?b] refs [OF n b(4)] one(1) have "count_list (req_blocks m rid) ?b = 0" by simp
      then have out: "?b \<notin> set (req_blocks m rid)" by (simp add: count_list_0_iff)
      with others [OF n b(4) one] counts [OF n b(4)] one(1) show ?thesis by (simp add: count_list_0_iff)
    qed
  qed
  ultimately show "managers_inv R [m'] p'" using \<open>pool_ok p'\<close> eq by (simp add: managers_inv_def)
  show "undisturbed R [m] p [m'] p'"
    unfolding undisturbed_def
  proof (intro conjI allI impI)
    fix b
    assume b: "b < num_blocks p" "b \<noteq> null_block p" "R b = 1" "all_refs [m] b = 0" "block_hash (blocks p ! b) = None"
    then have "count_list (req_blocks m rid) b = 0" using count_in_table [OF wf, of rid b] by simp
    then have "b \<notin> set (req_blocks m rid)" by (simp add: count_list_0_iff)
    with others [OF b(1,2) _ b(5)] refs [OF b(1,2)] b(3,4) have "b \<notin> set bs \<and> block_hash (blocks p' ! b) = None" by simp
    with up'(6) [of b] b(4) show "all_refs [m'] b = 0" "block_hash (blocks p' ! b) = None"
      by (simp_all add: count_list_0_iff)
  qed (use eq in simp_all)
qed

lemma managers_inv_refl: "managers_inv R [m] p \<Longrightarrow> managers_inv R [m] p \<and> undisturbed R [m] p [m] p"
  by (simp add: undisturbed_def)

lemma free_count: "free_rel p fl \<Longrightarrow> get_num_free_blocks p = int (length fl)"
  by (simp add: free_rel_def get_num_free_blocks_def repr_num)

lemma managers_invE:
  assumes "managers_inv R [m] p"
  obtains fl where "free_rel p fl" "cache_rel p" "0 < hash_block_size p" "manager_ok p m" "tail_ok p m"
    "\<And>b. b < num_blocks p \<Longrightarrow> b \<noteq> null_block p \<Longrightarrow> ref_cnt (blocks p ! b) = int (R b + refs m b)"
  using assms that by (auto simp: managers_inv_def pool_ok_def)

end
