(* ===== verification/CacheOps.thy ===== *)
theory CacheOps
  imports CacheInv
begin

text \<open>
  Each operation of a cache manager keeps the invariant and does not raise, under the conditions in which
  \<open>allocate_slots\<close> calls it; each interprets the locale \<open>manager_operation\<close>, which gives the same for the
  coordinator's loop.
\<close>

declare map_of_eq_Some_iff [simp del]

section \<open>Giving up blocks\<close>

definition same_manager :: "type_manager \<Rightarrow> type_manager \<Rightarrow> bool" where
  "same_manager m m' \<longleftrightarrow> kv_spec m' = kv_spec m \<and> block_size m' = block_size m \<and>
     kv_cache_group_id m' = kv_cache_group_id m"

definition hashes_kept :: "block_pool \<Rightarrow> block_pool \<Rightarrow> bool" where
  "hashes_kept p p' \<longleftrightarrow> (\<forall>b < num_blocks p. block_hash (blocks p' ! b) = block_hash (blocks p ! b))"

lemma count_list_rev [simp]: "count_list (rev xs) b = count_list xs b"
  by (induction xs) auto

lemma distinct_filter_count: "distinct (filter P bs) \<longleftrightarrow> (\<forall>b. P b \<longrightarrow> count_list bs b \<le> 1)"
proof
  assume "distinct (filter P bs)"
  then show "\<forall>b. P b \<longrightarrow> count_list bs b \<le> 1" by (simp add: count_list_filter_distinct)
next
  show "\<forall>b. P b \<longrightarrow> count_list bs b \<le> 1 \<Longrightarrow> distinct (filter P bs)"
  proof (induction bs)
    case (Cons x bs)
    then have "\<forall>b. P b \<longrightarrow> count_list bs b \<le> 1" by (metis add_leD1 count_list.simps(2) le_SucI)
    moreover have "P x \<Longrightarrow> count_list bs x = 0" using Cons.prems by (auto dest: spec [of _ x])
    ultimately show ?case using Cons.IH by (auto simp: count_list_0_iff)
  qed simp
qed

lemma freeing:
  assumes inv: "managers_inv R [m] p" and bs: "set bs \<subseteq> set (req_blocks m rid)"
    and d: "distinct (filter (\<lambda>b. b \<noteq> null_block p) bs)"
  shows "\<exists>p'. free_blocks bs p = (Inr (), p') \<and> pool_ok p' \<and> same_setup p p' \<and> hashes_kept p p' \<and>
    get_num_free_blocks p \<le> get_num_free_blocks p' \<and>
    (\<forall>b < num_blocks p. ref_cnt (blocks p' ! b) = ref_cnt (blocks p ! b) - int (count_list bs b))"
proof -
  obtain fl where fl: "free_rel p fl" "cache_rel p" "0 < hash_block_size p" "manager_ok p m"
    and refs: "\<And>b. b < num_blocks p \<Longrightarrow> b \<noteq> null_block p \<Longrightarrow> ref_cnt (blocks p ! b) = int (R b + refs m b)"
    using managers_invE [OF inv] by metis
  have "b < num_blocks p \<and> (b = null_block p \<or> 0 < ref_cnt (blocks p ! b))" if "b \<in> set bs" for b
  proof -
    from that bs have b: "b \<in> set (req_blocks m rid)" by blast
    with fl(4) have "b < num_blocks p" by (simp add: manager_ok_def list_all_iff)
    with refs [of b] refs_pos [OF b] show ?thesis by (cases "b = null_block p") simp_all
  qed
  then have "\<forall>b \<in> set bs. b < num_blocks p \<and> (b = null_block p \<or> 0 < ref_cnt (blocks p ! b))" by blast
  from free_blocks_spec [OF fl(1,2) d this] obtain p' where
    p': "free_blocks bs p = (Inr (), p')" "cache_rel p'" "same_setup p p'"
    "free_rel p' (fl @ filter (\<lambda>b. b \<noteq> null_block p \<and> ref_cnt (blocks p ! b) = 1) bs)"
    and at: "\<forall>c < num_blocks p. ref_cnt (blocks p' ! c) = ref_cnt (blocks p ! c) - int (count_list bs c) \<and>
       block_hash (blocks p' ! c) = block_hash (blocks p ! c)" by blast
  have "pool_ok p'" using p' fl(3) by (auto simp: pool_ok_def)
  moreover have "get_num_free_blocks p \<le> get_num_free_blocks p'"
    by (simp add: free_count [OF fl(1)] free_count [OF p'(4)])
  ultimately show ?thesis using p' at by (intro exI [of _ p']) (simp add: hashes_kept_def)
qed

lemma free_request_ok:
  assumes inv: "managers_inv R [m] p"
  shows "\<exists>m' p'. free_request rid m p = (Inr (), m', p') \<and> managers_inv R [m'] p' \<and> undisturbed R [m] p [m'] p' \<and>
    (same_manager m m' \<and> req_blocks m' rid = [] \<and> (\<forall>r. r \<noteq> rid \<longrightarrow> req_blocks m' r = req_blocks m r)) \<and>
    hashes_kept p p' \<and> get_num_free_blocks p \<le> get_num_free_blocks p'"
proof -
  have ok: "manager_ok p m" using inv by (simp add: managers_inv_def)
  then have "distinct (rev (filter (\<lambda>b. b \<noteq> null_block p) (req_blocks m rid)))" by (simp add: manager_ok_def)
  then have "distinct (filter (\<lambda>b. b \<noteq> null_block p) (rev (req_blocks m rid)))" by (simp only: rev_filter)
  from freeing [OF inv _ this, of rid] obtain p' where p': "free_blocks (rev (req_blocks m rid)) p = (Inr (), p')"
    "pool_ok p'" "same_setup p p'" "hashes_kept p p'" "get_num_free_blocks p \<le> get_num_free_blocks p'"
    "\<forall>b < num_blocks p. ref_cnt (blocks p' ! b) = ref_cnt (blocks p ! b) - int (count_list (req_blocks m rid) b)"
    by auto
  let ?m1 = "m\<lparr>req_to_blocks := AList.delete rid (req_to_blocks m)\<rparr>"
  let ?m = "?m1\<lparr>num_cached_block := AList.delete rid (num_cached_block m)\<rparr>"
  have wf: "dict_wf (req_to_blocks m)" using ok by (simp add: manager_ok_def)
  have up: "table_update rid [] m ?m"
    using table_update_counts(2) [OF table_update_delete [OF wf], of rid] by simp
  have "managers_inv R [?m] p' \<and> undisturbed R [m] p [?m] p'"
  proof (rule entry_changed [OF inv p'(3,2) up])
    show "ref_cnt (blocks p' ! b) = ref_cnt (blocks p ! b) - int (count_list (req_blocks m rid) b) + int (count_list [] b)"
      if "b < num_blocks p" for b using p'(6) that by simp
    show "b \<notin> set [] \<and> block_hash (blocks p' ! b) = None" if "b < num_blocks p" "block_hash (blocks p ! b) = None" for b
      using p'(4) that by (simp add: hashes_kept_def)
  qed simp_all
  moreover have "free_request rid m p = (Inr (), ?m, p')" using p'(1) by (simp add: free_request_def Let_def)
  moreover have "same_manager m ?m \<and> req_blocks ?m rid = [] \<and> (\<forall>r. r \<noteq> rid \<longrightarrow> req_blocks ?m r = req_blocks m r)"
    using up by (simp add: table_update_def same_manager_def)
  ultimately show ?thesis using p'(4,5) by blast
qed

lemma count_list_update: "i < length xs \<Longrightarrow> count_list (xs[i := y]) b + of_bool (xs ! i = b) = count_list xs b + of_bool (y = b)"
proof (induction xs arbitrary: i)
  case (Cons x xs)
  show ?case
  proof (cases i)
    case (Suc j)
    with Cons.IH [of j] Cons.prems show ?thesis by auto
  qed auto
qed simp

lemma skip_blocks_spec:
  "k \<le> length bs \<Longrightarrow> skip_blocks null k bs = (removed, bs') \<Longrightarrow>
   length bs' = length bs \<and> (\<forall>i < length bs. bs' ! i = bs ! i \<or> bs' ! i = null) \<and> null \<notin> set removed \<and>
   (\<forall>b. b \<noteq> null \<longrightarrow> count_list bs' b + count_list removed b = count_list bs b)"
proof (induction k arbitrary: bs removed bs')
  case (Suc k)
  show ?case
  proof (cases "bs ! k = null")
    case True
    with Suc.prems show ?thesis by auto
  next
    case False
    obtain rem2 where rem: "skip_blocks null k (bs[k := null]) = (rem2, bs')" "removed = bs ! k # rem2"
      using Suc.prems(2) False by (auto split: prod.splits)
    have k: "k < length bs" using Suc.prems(1) by simp
    from Suc.IH [OF _ rem(1)] k have IH: "length bs' = length bs" "null \<notin> set rem2"
      "\<And>i. i < length bs \<Longrightarrow> bs' ! i = bs[k := null] ! i \<or> bs' ! i = null"
      "\<And>b. b \<noteq> null \<Longrightarrow> count_list bs' b + count_list rem2 b = count_list (bs[k := null]) b" by simp_all
    have "bs' ! i = bs ! i \<or> bs' ! i = null" if "i < length bs" for i
      using IH(3) [OF that] k by (cases "i = k") simp_all
    moreover have "count_list bs' b + count_list removed b = count_list bs b" if "b \<noteq> null" for b
      using IH(4) [OF that] count_list_update [OF k, of null b] that rem(2) by (cases "bs ! k = b") auto
    ultimately show ?thesis using IH(1,2) False rem(2) by simp
  qed
qed auto

lemma manager_ok_count: "manager_ok p m \<Longrightarrow> b \<noteq> null_block p \<Longrightarrow> count_list (req_blocks m rid) b \<le> 1"
  by (simp add: manager_ok_def distinct_filter_count)

lemma same_manager_refl [simp]: "same_manager m m" "hashes_kept p p"
  by (simp_all add: same_manager_def hashes_kept_def)

lemma remove_skipped_ok:
  assumes inv: "managers_inv R [m] p"
  shows "\<exists>m' p'. remove_skipped_blocks rid n m p = (Inr (), m', p') \<and> managers_inv R [m'] p' \<and> undisturbed R [m] p [m'] p' \<and>
    (same_manager m m' \<and> num_cached_block m' = num_cached_block m \<and>
       length (req_blocks m' rid) = length (req_blocks m rid) \<and> (\<forall>r. r \<noteq> rid \<longrightarrow> req_blocks m' r = req_blocks m r)) \<and>
    hashes_kept p p' \<and> get_num_free_blocks p \<le> get_num_free_blocks p'"
proof (cases "get_num_skipped_tokens m n \<le> 0")
  case True
  with managers_inv_refl [OF inv] show ?thesis by (simp add: remove_skipped_blocks_def)
next
  case False
  let ?bs = "req_blocks m rid"
  let ?k = "nat (min (get_num_skipped_tokens m n div block_size m) (int (length ?bs)))"
  obtain removed bs' where skip: "skip_blocks (null_block p) ?k ?bs = (removed, bs')" by fastforce
  from skip_blocks_spec [OF _ skip] have spec: "length bs' = length ?bs"
    "\<And>i. i < length ?bs \<Longrightarrow> bs' ! i = ?bs ! i \<or> bs' ! i = null_block p" "null_block p \<notin> set removed"
    "\<And>b. b \<noteq> null_block p \<Longrightarrow> count_list bs' b + count_list removed b = count_list ?bs b" by simp_all
  have ok: "manager_ok p m" and t: "tail_ok p m" using inv by (simp_all add: managers_inv_def)
  have one: "count_list ?bs b \<le> 1" if "b \<noteq> null_block p" for b by (rule manager_ok_count [OF ok that])
  have sub: "b \<in> set ?bs" if "b \<noteq> null_block p" "b \<in> set removed \<or> b \<in> set bs'" for b
    using spec(4) [OF that(1)] that(2) by (metis add_is_0 count_list_0_iff)
  have "b \<in> set ?bs" if "b \<in> set removed" for b using sub [of b] spec(3) that by metis
  then have "set removed \<subseteq> set ?bs" by blast
  moreover have "distinct (filter (\<lambda>b. b \<noteq> null_block p) removed)"
    unfolding distinct_filter_count using spec(4) one by (metis add_leD2)
  ultimately obtain p' where p': "free_blocks removed p = (Inr (), p')"
    "pool_ok p'" "same_setup p p'" "hashes_kept p p'" "get_num_free_blocks p \<le> get_num_free_blocks p'"
    "\<forall>b < num_blocks p. ref_cnt (blocks p' ! b) = ref_cnt (blocks p ! b) - int (count_list removed b)"
    using freeing [OF inv] by blast
  have wf: "dict_wf (req_to_blocks m)" using ok by (simp add: manager_ok_def)
  note up = table_update_put [OF wf, of rid bs']
  have le: "list_all (\<lambda>b. b < num_blocks p) ?bs" "null_block p < num_blocks p"
    using ok inv by (auto simp: manager_ok_def managers_inv_def pool_ok_def free_rel_def)
  have "managers_inv R [put_blocks rid bs' m] p' \<and> undisturbed R [m] p [put_blocks rid bs' m] p'"
  proof (rule entry_changed [OF inv p'(3,2) up])
    show "list_all (\<lambda>b. b < num_blocks p) bs'" using le sub by (metis list_all_iff)
    show "distinct (filter (\<lambda>b. b \<noteq> null_block p) bs')"
      unfolding distinct_filter_count using spec(4) one by (metis add_leD1)
    show "0 \<le> cached_count (put_blocks rid bs' m) rid" using ok by (simp add: manager_ok_def)
  next
    fix b
    assume b: "b < num_blocks p" "b \<noteq> null_block p"
    show "ref_cnt (blocks p' ! b) = ref_cnt (blocks p ! b) - int (count_list ?bs b) + int (count_list bs' b)"
      using p'(6) b(1) spec(4) [OF b(2)] by simp
    show "b \<notin> set bs' \<and> block_hash (blocks p' ! b) = None" if "block_hash (blocks p ! b) = None" "b \<notin> set ?bs"
      using p'(4) b that sub by (auto simp: hashes_kept_def)
  next
    fix i
    assume i: "cached_count (put_blocks rid bs' m) rid \<le> int i" "i < length bs'" "bs' ! i \<noteq> null_block p" "enable_caching p"
    then have b: "bs' ! i = ?bs ! i" "i < length ?bs" using spec(1,2) by auto
    with t i have "ref_cnt (blocks p ! (bs' ! i)) = 1 \<and> block_hash (blocks p ! (bs' ! i)) = None"
      by (simp add: tail_ok_def)
    moreover have "count_list removed (bs' ! i) = 0"
    proof -
      have "0 < count_list bs' (bs' ! i)" using i(2) by (metis count_list_0_iff gr0I nth_mem)
      with spec(4) [OF i(3)] one [OF i(3)] show ?thesis by linarith
    qed
    moreover have "bs' ! i < num_blocks p" using le b by (simp add: list_all_length)
    ultimately show "ref_cnt (blocks p' ! (bs' ! i)) = 1 \<and> block_hash (blocks p' ! (bs' ! i)) = None"
      using p'(4,6) by (simp add: hashes_kept_def)
  qed
  moreover have "remove_skipped_blocks rid n m p = (Inr (), put_blocks rid bs' m, p')"
    using False skip p'(1) by (simp add: remove_skipped_blocks_def Let_def)
  moreover have "same_manager m (put_blocks rid bs' m)" by (simp add: same_manager_def)
  ultimately show ?thesis using p'(4,5) spec(1) by simp
qed

section \<open>Taking new blocks\<close>

lemma opened [simp]: "req_blocks (open_blocks rid m) r = req_blocks m r" "kv_spec (open_blocks rid m) = kv_spec m"
  "block_size (open_blocks rid m) = block_size m" "kv_cache_group_id (open_blocks rid m) = kv_cache_group_id m"
  "num_cached_block (open_blocks rid m) = num_cached_block m" "cached_count (open_blocks rid m) r = cached_count m r"
  by (simp_all add: open_blocks_def)

lemma open_ok:
  assumes inv: "managers_inv R [m] p"
  shows "managers_inv R [open_blocks rid m] p \<and> undisturbed R [m] p [open_blocks rid m] p"
proof -
  from inv have ok: "manager_ok p m" "pool_ok p" "tail_ok p m" by (simp_all add: managers_inv_def)
  then have "table_update rid (req_blocks m rid) m (open_blocks rid m)"
    unfolding open_blocks_def by (intro table_update_put) (simp add: manager_ok_def)
  from entry_changed [OF inv _ ok(2) this] ok show ?thesis by (simp add: manager_ok_def tail_ok_def)
qed

lemma undisturbed_trans: "undisturbed R ms p ms1 p1 \<Longrightarrow> undisturbed R ms1 p1 ms2 p2 \<Longrightarrow> undisturbed R ms p ms2 p2"
  unfolding undisturbed_def by metis

lemma extend_ok:
  assumes inv: "managers_inv R [m] p" and n: "0 \<le> n" "n \<le> get_num_free_blocks p"
  shows "\<exists>new m' p'. extend_blocks rid n m p = (Inr new, m', p') \<and> managers_inv R [m'] p' \<and> undisturbed R [m] p [m'] p' \<and>
    same_manager m m' \<and> num_cached_block m' = num_cached_block m \<and> int (length new) = n \<and>
    (\<forall>r. req_blocks m' r = (if r = rid then req_blocks m rid @ new else req_blocks m r)) \<and>
    get_num_free_blocks p' = get_num_free_blocks p - n"
proof -
  obtain fl where fl: "free_rel p fl" "cache_rel p" "0 < hash_block_size p" and ok: "manager_ok p m" and t: "tail_ok p m"
    and refs: "\<And>b. b < num_blocks p \<Longrightarrow> b \<noteq> null_block p \<Longrightarrow> ref_cnt (blocks p ! b) = int (R b + refs m b)"
    using managers_invE [OF inv] by metis
  let ?new = "take (nat n) fl" and ?bs = "req_blocks m rid"
  have len: "n \<le> int (length fl)" using n(2) by (simp add: free_count [OF fl(1)])
  with get_new_blocks_spec [OF fl(1,2) n(1)] obtain p' where p': "get_new_blocks n p = (Inr ?new, p')"
    "free_rel p' (drop (nat n) fl)" "cache_rel p'" "same_setup p p'"
    and at: "\<And>c. c < num_blocks p \<Longrightarrow> ref_cnt (blocks p' ! c) = (if c \<in> set ?new then 1 else ref_cnt (blocks p ! c)) \<and>
      (c \<notin> set ?new \<longrightarrow> block_hash (blocks p' ! c) = block_hash (blocks p ! c)) \<and>
      (c \<in> set ?new \<longrightarrow> enable_caching p \<longrightarrow> block_hash (blocks p' ! c) = None)" by auto
  have new: "b < num_blocks p \<and> b \<noteq> null_block p \<and> ref_cnt (blocks p ! b) = 0" if "b \<in> set ?new" for b
    using fl(1) that by (auto simp: free_rel_def dest: in_set_takeD)
  have free: "b \<notin> set ?bs" if "b \<in> set ?new" for b
    using new [OF that] refs [of b] refs_pos [of b m rid] by auto
  have d: "distinct ?new" using fl(1) by (simp add: free_rel_def)
  let ?m = "(put_blocks rid (?bs @ ?new) m)\<lparr>new_block_ids := (if plain_full (kv_spec m) then new_block_ids m @ ?new else new_block_ids m)\<rparr>"
  have wf: "dict_wf (req_to_blocks m)" using ok by (simp add: manager_ok_def)
  have up: "table_update rid (?bs @ ?new) m ?m" by (intro table_update_counts(3) table_update_put wf)
  have "pool_ok p'" using p' fl(3) by (auto simp: pool_ok_def)
  have "managers_inv R [?m] p' \<and> undisturbed R [m] p [?m] p'"
  proof (rule entry_changed [OF inv p'(4) \<open>pool_ok p'\<close> up])
    show "0 \<le> cached_count ?m rid" using ok by (simp add: manager_ok_def)
    show "list_all (\<lambda>b. b < num_blocks p) (?bs @ ?new)" using ok new by (auto simp: manager_ok_def list_all_iff)
    show "distinct (filter (\<lambda>b. b \<noteq> null_block p) (?bs @ ?new))"
      using ok d free by (auto simp: manager_ok_def)
  next
    fix b
    assume b: "b < num_blocks p" "b \<noteq> null_block p"
    have "count_list ?new b = of_bool (b \<in> set ?new)" using d count_list_filter_distinct [of "\<lambda>_. True" ?new b] by simp
    with at [OF b(1)] new [of b] show "ref_cnt (blocks p' ! b)
        = ref_cnt (blocks p ! b) - int (count_list ?bs b) + int (count_list (?bs @ ?new) b)" by (cases "b \<in> set ?new") simp_all
    show "b \<notin> set (?bs @ ?new) \<and> block_hash (blocks p' ! b) = None"
      if "ref_cnt (blocks p ! b) = 1" "block_hash (blocks p ! b) = None" "b \<notin> set ?bs"
      using that at [OF b(1)] new [of b] by auto
  next
    fix i
    let ?b = "(?bs @ ?new) ! i"
    assume i: "cached_count ?m rid \<le> int i" "i < length (?bs @ ?new)" "?b \<noteq> null_block p" "enable_caching p"
    show "ref_cnt (blocks p' ! ?b) = 1 \<and> block_hash (blocks p' ! ?b) = None"
    proof (cases "i < length ?bs")
      case True
      with i t have "ref_cnt (blocks p ! ?b) = 1 \<and> block_hash (blocks p ! ?b) = None"
        by (simp add: tail_ok_def nth_append)
      moreover have "?b < num_blocks p" using True ok by (simp add: nth_append manager_ok_def list_all_length)
      moreover have "?b \<notin> set ?new" using new [of ?b] calculation(1) by auto
      ultimately show ?thesis using at [of ?b] by simp
    next
      case False
      then have "?b = ?new ! (i - length ?bs)" by (simp add: nth_append)
      moreover have "i - length ?bs < length ?new" using i(2) False unfolding length_append by arith
      ultimately have "?b \<in> set ?new" by (metis nth_mem)
      with at [of ?b] new [of ?b] i(4) show ?thesis by simp
    qed
  qed
  moreover have "extend_blocks rid n m p = (Inr ?new, ?m, p')" using p'(1) by (simp add: extend_blocks_def)
  moreover have "same_manager m ?m" by (simp add: same_manager_def)
  moreover have "get_num_free_blocks p' = get_num_free_blocks p - n"
    using len n(1) by (simp add: free_count [OF fl(1)] free_count [OF p'(2)])
  ultimately show ?thesis using len n(1) by (intro exI [of _ ?new] exI [of _ ?m] exI [of _ p']) simp
qed

definition missing_blocks :: "string \<Rightarrow> int \<Rightarrow> type_manager \<Rightarrow> int" where
  "missing_blocks rid n m = max 0 (cdiv n (block_size m) - int (length (req_blocks m rid)))"

lemma allocate_new_ok:
  assumes inv: "managers_inv R [m] p" and free: "missing_blocks rid n m \<le> get_num_free_blocks p"
  shows "\<exists>new m' p'. allocate_new_blocks rid n m p = (Inr new, m', p') \<and> managers_inv R [m'] p' \<and> undisturbed R [m] p [m'] p' \<and>
    (same_manager m m' \<and> num_cached_block m' = num_cached_block m \<and> int (length new) = missing_blocks rid n m \<and>
       (\<forall>r. req_blocks m' r = (if r = rid then req_blocks m rid @ new else req_blocks m r))) \<and> True \<and>
    get_num_free_blocks p - missing_blocks rid n m \<le> get_num_free_blocks p'"
proof (cases "cdiv n (block_size m) \<le> int (length (req_blocks m rid))")
  case True
  with open_ok [OF inv, of rid] show ?thesis
    by (intro exI [of _ "[]"] exI [of _ "open_blocks rid m"] exI [of _ p])
      (simp add: allocate_new_blocks_def missing_blocks_def same_manager_def)
next
  case False
  let ?n = "cdiv n (block_size m) - int (length (req_blocks m rid))"
  have n: "missing_blocks rid n m = ?n" "0 \<le> ?n" using False by (simp_all add: missing_blocks_def)
  from open_ok [OF inv, of rid] extend_ok [of R "open_blocks rid m" p ?n rid] n free
  obtain new m' p' where "extend_blocks rid ?n (open_blocks rid m) p = (Inr new, m', p')" "managers_inv R [m'] p'"
    "undisturbed R [open_blocks rid m] p [m'] p'" "same_manager (open_blocks rid m) m'" "num_cached_block m' = num_cached_block m"
    "int (length new) = ?n" "\<forall>r. req_blocks m' r = (if r = rid then req_blocks m rid @ new else req_blocks m r)"
    "get_num_free_blocks p' = get_num_free_blocks p - ?n" by auto
  with open_ok [OF inv, of rid] False n show ?thesis
    by (intro exI [of _ new] exI [of _ m'] exI [of _ p'])
      (auto simp: allocate_new_blocks_def same_manager_def intro: undisturbed_trans)
qed

section \<open>Taking over cached blocks\<close>

definition computed_pre :: "string \<Rightarrow> nat list \<Rightarrow> type_manager \<Rightarrow> block_pool \<Rightarrow> bool" where
  "computed_pre rid hits m p \<longleftrightarrow> map_of (num_cached_block m) rid = None \<and> req_blocks m rid = [] \<and> enable_caching p \<and>
     list_all (\<lambda>b. b < num_blocks p) hits \<and> distinct (filter (\<lambda>b. b \<noteq> null_block p) hits) \<and>
     (\<forall>b \<in> set hits. b \<noteq> null_block p \<longrightarrow> block_hash (blocks p ! b) \<noteq> None)"

definition skipped_blocks :: "int \<Rightarrow> type_manager \<Rightarrow> int" where
  "skipped_blocks n m = get_num_skipped_tokens m n div block_size m"

definition computed_cost :: "int \<Rightarrow> nat list \<Rightarrow> type_manager \<Rightarrow> block_pool \<Rightarrow> int" where
  "computed_cost n hits m p =
     int (length (filter (\<lambda>b. b \<noteq> null_block p \<and> ref_cnt (blocks p ! b) = 0) (drop (nat (skipped_blocks n m)) hits)))"

definition only_taken :: "block_pool \<Rightarrow> block_pool \<Rightarrow> bool" where
  "only_taken p p' \<longleftrightarrow> hashes_kept p p' \<and>
     (\<forall>b < num_blocks p. b \<noteq> null_block p \<longrightarrow> ref_cnt (blocks p' ! b) = 0 \<longrightarrow> ref_cnt (blocks p ! b) = 0)"

lemma only_taken_refl: "only_taken p p"
  by (simp add: only_taken_def)

lemma only_taken_trans: "only_taken p q \<Longrightarrow> only_taken q r \<Longrightarrow> same_setup p q \<Longrightarrow> only_taken p r"
  by (simp add: only_taken_def hashes_kept_def)

lemma computed_ok:
  assumes inv: "managers_inv R [m] p" and pre: "computed_pre rid hits m p"
  shows "\<exists>m' p'. allocate_new_computed_blocks rid n 0 hits m p = (Inr (), m', p') \<and> managers_inv R [m'] p' \<and>
    undisturbed R [m] p [m'] p' \<and>
    (same_manager m m' \<and> int (length (req_blocks m' rid)) = max 0 (max (skipped_blocks n m) (int (length hits))) \<and>
       (\<forall>r. r \<noteq> rid \<longrightarrow> req_blocks m' r = req_blocks m r)) \<and>
    only_taken p p' \<and> get_num_free_blocks p - computed_cost n hits m p \<le> get_num_free_blocks p'"
proof -
  obtain fl where fl: "free_rel p fl" "cache_rel p" "0 < hash_block_size p" and ok: "manager_ok p m" and t: "tail_ok p m"
    and refs: "\<And>b. b < num_blocks p \<Longrightarrow> b \<noteq> null_block p \<Longrightarrow> ref_cnt (blocks p ! b) = int (R b + refs m b)"
    using managers_invE [OF inv] by metis
  let ?k = "nat (skipped_blocks n m)"
  let ?rest = "drop ?k hits"
  let ?bs = "replicate ?k (null_block p) @ ?rest"
  from pre have fresh: "map_of (num_cached_block m) rid = None" "req_blocks m rid = []" "enable_caching p"
    and hits: "\<And>b. b \<in> set ?rest \<Longrightarrow> b < num_blocks p \<and> (b \<noteq> null_block p \<longrightarrow> block_hash (blocks p ! b) \<noteq> None)"
      "distinct (filter (\<lambda>b. b \<noteq> null_block p) hits)"
    by (auto simp: computed_pre_def list_all_iff dest: in_set_dropD)
  have one: "count_list ?rest b \<le> 1" if "b \<noteq> null_block p" for b
    using hits(2) that append_take_drop_id [of ?k hits] unfolding distinct_filter_count
    by (metis count_list_append add_leD2)
  have "list_all (\<lambda>b. b < num_blocks p) ?rest" using hits(1) by (simp add: list_all_iff)
  from touch_spec [OF fl(1,2) this] obtain p' where p': "touch ?rest p = (Inr (), p')"
    "free_rel p' (filter (\<lambda>c. c \<notin> set ?rest) fl)" "cache_rel p'" "same_setup p p'"
    and at: "\<And>c. c < num_blocks p \<Longrightarrow> ref_cnt (blocks p' ! c) = ref_cnt (blocks p ! c) + int (count_list ?rest c) \<and>
      block_hash (blocks p' ! c) = block_hash (blocks p ! c)" by blast
  let ?m = "(put_blocks rid ?bs (open_blocks rid m))\<lparr>num_cached_block := AList.update rid (int (length ?bs)) (num_cached_block m)\<rparr>"
  have wf: "dict_wf (req_to_blocks m)" using ok by (simp add: manager_ok_def)
  have "put_blocks rid ?bs (open_blocks rid m) = put_blocks rid ?bs m"
    by (simp add: open_blocks_def put_blocks_def)
  then have up: "table_update rid ?bs m ?m"
    using table_update_counts(1) [OF table_update_put [OF wf, of rid ?bs], of "int (length ?bs)"] by simp
  have "pool_ok p'" using p' fl(3) by (auto simp: pool_ok_def)
  have inv': "managers_inv R [?m] p' \<and> undisturbed R [m] p [?m] p'"
  proof (rule entry_changed [OF inv p'(4) \<open>pool_ok p'\<close> up])
    show "list_all (\<lambda>b. b < num_blocks p) ?bs" using hits(1) fl(1) by (auto simp: list_all_iff free_rel_def)
    show "distinct (filter (\<lambda>b. b \<noteq> null_block p) ?bs)" using one by (simp add: distinct_filter_count count_list_0_iff)
  next
    fix b
    assume b: "b < num_blocks p" "b \<noteq> null_block p"
    then have "count_list (replicate ?k (null_block p)) b = 0" by (simp add: count_list_0_iff)
    with at [OF b(1)] fresh(2) show "ref_cnt (blocks p' ! b)
        = ref_cnt (blocks p ! b) - int (count_list (req_blocks m rid) b) + int (count_list ?bs b)" by simp
    show "b \<notin> set ?bs \<and> block_hash (blocks p' ! b) = None" if "block_hash (blocks p ! b) = None"
      using at [OF b(1)] that hits(1) [of b] b(2) by auto
  next
    fix i
    assume "cached_count ?m rid \<le> int i" "i < length ?bs"
    then have False by (simp del: length_append length_replicate length_drop)
    then show "ref_cnt (blocks p' ! (?bs ! i)) = 1 \<and> block_hash (blocks p' ! (?bs ! i)) = None" ..
  qed simp
  have rest: "(if 0 < skipped_blocks n m then drop ?k hits else hits) = ?rest" by simp
  have op: "allocate_new_computed_blocks rid n 0 hits m p = (Inr (), ?m, p')"
    unfolding allocate_new_computed_blocks_def Let_def add_0_right skipped_blocks_def [symmetric] rest
    using fresh p'(1,4) by simp
  have "length fl - length (filter (\<lambda>b. b \<noteq> null_block p \<and> ref_cnt (blocks p ! b) = 0) ?rest)
      \<le> length (filter (\<lambda>c. c \<notin> set ?rest) fl)"
  proof -
    have "set (filter (\<lambda>c. c \<in> set ?rest) fl) \<subseteq> set (filter (\<lambda>b. b \<noteq> null_block p \<and> ref_cnt (blocks p ! b) = 0) ?rest)"
      using fl(1) by (auto simp: free_rel_def)
    then have "card (set (filter (\<lambda>c. c \<in> set ?rest) fl)) \<le> length (filter (\<lambda>b. b \<noteq> null_block p \<and> ref_cnt (blocks p ! b) = 0) ?rest)"
      by (meson card_length card_mono finite_set le_trans)
    moreover have "card (set (filter (\<lambda>c. c \<in> set ?rest) fl)) = length (filter (\<lambda>c. c \<in> set ?rest) fl)"
      using fl(1) by (intro distinct_card distinct_filter) (simp add: free_rel_def)
    moreover have "length (filter (\<lambda>c. c \<in> set ?rest) fl) + length (filter (\<lambda>c. c \<notin> set ?rest) fl) = length fl"
      by (rule sum_length_filter_compl)
    ultimately show ?thesis by linarith
  qed
  then have "get_num_free_blocks p - computed_cost n hits m p \<le> get_num_free_blocks p'"
    by (simp add: free_count [OF fl(1)] free_count [OF p'(2)] computed_cost_def)
  moreover have "only_taken p p'" unfolding only_taken_def hashes_kept_def using at refs by auto
  moreover have "int (length ?bs) = max 0 (max (skipped_blocks n m) (int (length hits)))"
    by simp arith
  moreover have "\<forall>r. r \<noteq> rid \<longrightarrow> req_blocks ?m r = req_blocks m r" "req_blocks ?m rid = ?bs" by simp_all
  moreover have "same_manager m ?m" by (simp add: same_manager_def)
  ultimately show ?thesis using op inv' by (intro exI [of _ ?m] exI [of _ p']) simp
qed

section \<open>Caching full blocks\<close>

lemma cache_loop_ok:
  "g \<in> {0..<2 ^ 32} \<Longrightarrow> list_all (\<lambda>b. b < num_blocks p) bs \<Longrightarrow> distinct (filter (\<lambda>b. \<not> is_null (blocks p ! b)) bs) \<Longrightarrow>
   list_all (\<lambda>b. is_null (blocks p ! b) \<or> block_hash (blocks p ! b) = None) bs \<Longrightarrow> length bs \<le> length hs \<Longrightarrow>
   \<exists>es p'. cache_loop g bs hs p = (Inr es, p') \<and>
     (\<forall>c < num_blocks p. c \<notin> set bs \<longrightarrow> block_hash (blocks p' ! c) = block_hash (blocks p ! c))"
proof (induction bs arbitrary: hs p)
  case (Cons b bs)
  then obtain h hs' where hs: "hs = h # hs'" by (cases hs) auto
  show ?case
  proof (cases "is_null (blocks p ! b)")
    case True
    with Cons.IH [of p hs'] Cons.prems hs show ?thesis by auto
  next
    case False
    obtain key where key: "make_block_hash_with_group_id h g = Inr key"
      using Cons.prems(1) by (auto simp: make_block_hash_with_group_id_def)
    define p1 where "p1 = upd_block b (\<lambda>x. x\<lparr>block_hash := Some key\<rparr>) (p\<lparr>cached_map := hm_insert key b (cached_map p)\<rparr>)"
    have b: "b < num_blocks p" "b \<notin> set bs" "block_hash (blocks p ! b) = None" using Cons.prems False by auto
    have nth: "blocks p1 ! c = (if c = b then (blocks p ! c)\<lparr>block_hash := Some key\<rparr> else blocks p ! c)"
      if "c < num_blocks p" for c using that by (simp add: p1_def nth_upd_block)
    have same: "num_blocks p1 = num_blocks p" "\<And>c. c \<in> set bs \<Longrightarrow> blocks p1 ! c = blocks p ! c"
      using nth Cons.prems(2) b(2) by (auto simp: p1_def list_all_iff)
    have "distinct (filter (\<lambda>b. \<not> is_null (blocks p1 ! b)) bs)"
      using Cons.prems(3) False same(2) by (metis (mono_tags, lifting) distinct.simps(2) filter.simps(2) filter_cong)
    moreover have "list_all (\<lambda>b. is_null (blocks p1 ! b) \<or> block_hash (blocks p1 ! b) = None) bs"
      using Cons.prems(4) same(2) by (simp add: list_all_iff)
    ultimately obtain es p' where p': "cache_loop g bs hs' p1 = (Inr es, p')"
      "\<forall>c < num_blocks p. c \<notin> set bs \<longrightarrow> block_hash (blocks p' ! c) = block_hash (blocks p1 ! c)"
      using Cons.IH [of p1 hs'] Cons.prems(1,2,5) same(1) hs by auto
    then have "cache_loop g (b # bs) hs p = (Inr (maybe_convert_block_hash (use_int_hashes p) h # es), p')"
      using False b(3) hs key by (simp add: p1_def [symmetric])
    with p'(2) nth show ?thesis by (metis list.set_intros(1,2))
  qed
qed simp

lemma mm_scan_ge: "i \<le> snd (mm_scan s e i fs)"
proof (induction fs arbitrary: i)
  case (Cons f fs)
  from Cons.IH [of "i + 1"] have "i \<le> snd (mm_scan s e (i + 1) fs)" by linarith
  then show ?case by simp
qed simp

lemma extra_keys_ok: "0 \<le> i \<Longrightarrow> \<exists>keys j. generate_block_hash_extra_keys r s e i = Inr (keys, j) \<and> 0 \<le> j"
  using order_trans [OF _ mm_scan_ge [of i s e "drop (nat i) (mm_features r)"]]
  by (auto simp: generate_block_hash_extra_keys_def gen_mm_extra_hash_keys_def ebind_def Let_def split: prod.splits)

lemma event_keys_ok: "0 \<le> mm \<Longrightarrow> \<exists>keys. event_extra_keys r bsz p i mm bs = Inr keys"
proof (induction bs arbitrary: i mm)
  case (Cons b bs)
  obtain keys j where k: "generate_block_hash_extra_keys r (i * bsz) (i * bsz + bsz) mm = Inr (keys, j)" "0 \<le> j"
    using extra_keys_ok [OF Cons.prems] by blast
  with Cons.IH [OF k(2), of "i + 1"] Cons.IH [OF Cons.prems, of "i + 1"] show ?case by (auto simp: ebind_def)
qed simp

lemma group_hashes_ok:
  assumes "0 < hash_block_size p" "bsz mod hash_block_size p = 0" "0 < bsz"
    and n: "0 \<le> n" "n div hash_block_size p \<le> int (length (block_hashes r))"
  shows "\<exists>hs. group_hashes r bsz p = Inr hs \<and> n div bsz \<le> int (length hs) \<and> n div bsz \<le> int (length (block_hashes r))"
proof -
  let ?h = "hash_block_size p" and ?l = "length (block_hashes r)"
  define scale where "scale = bsz div ?h"
  have bsz: "bsz = scale * ?h" using assms(2) by (auto simp: scale_def)
  then have scale: "0 < scale" using assms(1,3) by (simp add: zero_less_mult_iff)
  have "n div bsz = (n div ?h) div scale"
    unfolding bsz using zdiv_zmult2_eq [of scale n ?h] scale by (simp add: mult.commute)
  also have "\<dots> \<le> int ?l div scale" using n scale by (intro zdiv_mono1) simp_all
  finally have le: "n div bsz \<le> int ?l div scale" .
  also have "int ?l div scale \<le> int ?l" using zdiv_mono2 [of "int ?l" 1 scale] scale by simp
  finally have 2: "n div bsz \<le> int ?l" .
  show ?thesis
  proof (cases "bsz = ?h")
    case True
    with 2 show ?thesis by (simp add: group_hashes_def)
  next
    case False
    with assms(2) le 2 scale show ?thesis
      by (simp add: group_hashes_def coarse_hashes_def Let_def scale_def zdiv_int)
  qed
qed

lemma cache_full_blocks_ok:
  assumes "g \<in> {0..<2 ^ 32}" "0 < hash_block_size p" "bsz mod hash_block_size p = 0" "0 < bsz"
    and n: "0 \<le> n" "n div hash_block_size p \<le> int (length (block_hashes r))" "n div bsz \<le> int (length bs)" "0 \<le> c"
    and slice: "sl = token_slice c (n div bsz) bs"
    and sl: "list_all (\<lambda>b. b < num_blocks p) sl" "distinct (filter (\<lambda>b. \<not> is_null (blocks p ! b)) sl)"
      "list_all (\<lambda>b. is_null (blocks p ! b) \<or> block_hash (blocks p ! b) = None) sl"
  shows "\<exists>p'. cache_full_blocks r bs c (n div bsz) bsz g p = (Inr (), p') \<and>
    (\<forall>b < num_blocks p. b \<notin> set sl \<longrightarrow> block_hash (blocks p' ! b) = block_hash (blocks p ! b))"
proof (cases "n div bsz \<le> c")
  case True
  then show ?thesis by (simp add: cache_full_blocks_def)
next
  case False
  obtain hs where hs: "group_hashes r bsz p = Inr hs" "n div bsz \<le> int (length hs)" "n div bsz \<le> int (length (block_hashes r))"
    using group_hashes_ok [OF assms(2,3,4) n(1,2)] by blast
  have len: "length sl = nat (n div bsz) - nat c" using n(3,4) False by (simp add: slice token_slice_def)
  then have "length sl \<le> length (drop (nat c) hs)" using hs(2) by simp
  from cache_loop_ok [OF assms(1) sl this] obtain es p' where p': "cache_loop g sl (drop (nat c) hs) p = (Inr es, p')"
    "\<forall>b < num_blocks p. b \<notin> set sl \<longrightarrow> block_hash (blocks p' ! b) = block_hash (blocks p ! b)" by blast
  have "\<exists>ev. stored_event r sl hs es c (n div bsz) bsz p' = Inr ev"
    using event_keys_ok [of 0 r bsz p' c sl] len False hs(2) n(4) by (auto simp: stored_event_def ebind_def Let_def)
  then obtain ev where "stored_event r sl hs es c (n div bsz) bsz p' = Inr ev" ..
  with p' False hs show ?thesis by (auto simp: cache_full_blocks_def slice [symmetric] Let_def)
qed

definition cache_pre :: "cache_request \<Rightarrow> int \<Rightarrow> type_manager \<Rightarrow> block_pool \<Rightarrow> bool" where
  "cache_pre r n m p \<longleftrightarrow> enable_caching p \<and> block_size m mod hash_block_size p = 0 \<and> 0 \<le> n \<and>
     n div hash_block_size p \<le> int (length (block_hashes r)) \<and>
     n div block_size m \<le> int (length (req_blocks m (request_id r)))"

lemma distinct_nth_slice:
  assumes "distinct (filter P bs)" "P (bs ! i)" "i < length bs" "int j \<le> int i"
  shows "bs ! i \<notin> set (take (j - k) (drop k bs))"
proof
  assume "bs ! i \<in> set (take (j - k) (drop k bs))"
  then have "bs ! i \<in> set (take j bs)" by (metis drop_take in_set_dropD)
  moreover have "bs ! i = drop j bs ! (i - j)" "i - j < length (drop j bs)" using assms(3,4) by simp_all
  then have "bs ! i \<in> set (drop j bs)" by (metis nth_mem)
  ultimately have "0 < count_list (take j bs) (bs ! i)" "0 < count_list (drop j bs) (bs ! i)"
    by (metis count_list_0_iff gr0I)+
  then have "1 < count_list (take j bs @ drop j bs) (bs ! i)" unfolding count_list_append by linarith
  with assms(1,2) show False unfolding append_take_drop_id distinct_filter_count by fastforce
qed

lemma cache_ok:
  assumes inv: "managers_inv R [m] p" and pre: "cache_pre r n m p"
  shows "\<exists>m' p'. cache_blocks r n m p = (Inr (), m', p') \<and> managers_inv R [m'] p' \<and> undisturbed R [m] p [m'] p' \<and>
    (same_manager m m' \<and> (\<forall>rid. req_blocks m' rid = req_blocks m rid)) \<and> True \<and>
    get_num_free_blocks p \<le> get_num_free_blocks p'"
proof (cases "n div block_size m \<le> cached_count m (request_id r)")
  case True
  with managers_inv_refl [OF inv] show ?thesis by (simp add: cache_blocks_def same_manager_def)
next
  case False
  let ?rid = "request_id r"
  let ?bs = "req_blocks m ?rid" and ?c = "cached_count m ?rid" and ?full = "n div block_size m"
  let ?sl = "token_slice ?c ?full ?bs"
  obtain fl where fl: "free_rel p fl" "cache_rel p" "0 < hash_block_size p" and ok: "manager_ok p m" and t: "tail_ok p m"
    using managers_invE [OF inv] by metis
  have pre': "enable_caching p" "block_size m mod hash_block_size p = 0" "0 \<le> n"
    "n div hash_block_size p \<le> int (length (block_hashes r))" "?full \<le> int (length ?bs)"
    using pre by (simp_all add: cache_pre_def)
  have m: "kv_cache_group_id m \<in> {0..<2 ^ 32}" "0 < block_size m" "0 \<le> ?c" "list_all (\<lambda>b. b < num_blocks p) ?bs"
    "distinct (filter (\<lambda>b. b \<noteq> null_block p) ?bs)" using ok by (simp_all add: manager_ok_def)
  have null: "is_null (blocks p ! b) \<longleftrightarrow> b = null_block p" if "b \<in> set ?bs" for b
    using fl(1) m(4) that by (auto simp: free_rel_def list_all_iff)
  have sub: "set ?sl \<subseteq> set ?bs" by (auto simp: token_slice_def dest: in_set_takeD in_set_dropD)
  have "filter (\<lambda>b. \<not> is_null (blocks p ! b)) ?sl = filter (\<lambda>b. b \<noteq> null_block p) ?sl"
    using null sub by (intro filter_cong) auto
  moreover have "distinct (filter (\<lambda>b. b \<noteq> null_block p) ?sl)"
    using m(5) unfolding distinct_filter_count token_slice_def
    by (metis append_take_drop_id count_list_append add_leD1 add_leD2)
  ultimately have d: "distinct (filter (\<lambda>b. \<not> is_null (blocks p ! b)) ?sl)" by simp
  have unhashed: "is_null (blocks p ! b) \<or> block_hash (blocks p ! b) = None" if b: "b \<in> set ?sl" for b
  proof -
    from b obtain i where i: "i < nat ?full - nat ?c" "nat ?c + i < length ?bs" "b = ?bs ! (nat ?c + i)"
      by (auto simp: token_slice_def in_set_conv_nth)
    have "?c \<le> int (nat ?c + i)" using m(3) by simp
    with t i(2,3) pre'(1) null [of b] sub b show ?thesis by (auto simp: tail_ok_def)
  qed
  have "list_all (\<lambda>b. b < num_blocks p) ?sl" using m(4) sub by (auto simp: list_all_iff)
  moreover have "list_all (\<lambda>b. is_null (blocks p ! b) \<or> block_hash (blocks p ! b) = None) ?sl"
    using unhashed by (simp add: list_all_iff)
  moreover have tr: "block_hashes (kv_request.truncate r) = block_hashes r" by (simp add: kv_request.defs)
  ultimately obtain p' where p': "cache_full_blocks (kv_request.truncate r) ?bs ?c ?full (block_size m) (kv_cache_group_id m) p = (Inr (), p')"
    "\<forall>b < num_blocks p. b \<notin> set ?sl \<longrightarrow> block_hash (blocks p' ! b) = block_hash (blocks p ! b)"
    using cache_full_blocks_ok [OF m(1) fl(3) pre'(2) m(2) pre'(3) _ pre'(5) m(3) refl _ d, of "kv_request.truncate r"]
      pre'(4) tr by auto
  have cs: "cache_rel p'" "same_counts p p'"
    using cache_full_blocks_spec [OF fl(2) m(4), of "kv_request.truncate r" ?c ?full "block_size m" "kv_cache_group_id m"] p'(1)
    by simp_all
  let ?m = "(open_blocks ?rid m)\<lparr>num_cached_block := AList.update ?rid ?full (num_cached_block m)\<rparr>"
  have "table_update ?rid ?bs m (open_blocks ?rid m)"
    unfolding open_blocks_def using ok by (intro table_update_put) (simp add: manager_ok_def)
  from table_update_counts(1) [OF this, of ?full] have up: "table_update ?rid ?bs m ?m" by simp
  have eq: "same_setup p p'" using cs(2) by (simp add: same_counts_def)
  have "pool_ok p'" using cs free_rel_frame [OF fl(1) cs(2)] eq fl(3) by (auto simp: pool_ok_def)
  have "managers_inv R [?m] p' \<and> undisturbed R [m] p [?m] p'"
  proof (rule entry_changed [OF inv eq \<open>pool_ok p'\<close> up])
    show "0 \<le> cached_count ?m ?rid" using pre'(3) m(2) by (simp add: pos_imp_zdiv_nonneg_iff)
  next
    fix b
    assume b: "b < num_blocks p" "b \<noteq> null_block p"
    show "ref_cnt (blocks p' ! b) = ref_cnt (blocks p ! b) - int (count_list ?bs b) + int (count_list ?bs b)"
      using cs(2) b by (simp add: same_counts_def)
    show "b \<notin> set ?bs \<and> block_hash (blocks p' ! b) = None" if "block_hash (blocks p ! b) = None" "b \<notin> set ?bs"
      using that p'(2) b sub by auto
  next
    fix i
    assume i: "cached_count ?m ?rid \<le> int i" "i < length ?bs" "?bs ! i \<noteq> null_block p" "enable_caching p"
    then have "?c \<le> int i" using False by simp
    with t i have one: "ref_cnt (blocks p ! (?bs ! i)) = 1" "block_hash (blocks p ! (?bs ! i)) = None"
      by (simp_all add: tail_ok_def)
    have "?bs ! i \<notin> set ?sl"
      unfolding token_slice_def using i by (intro distinct_nth_slice [OF m(5)]) simp_all
    moreover have "?bs ! i < num_blocks p" using m(4) i(2) by (simp add: list_all_length)
    ultimately show "ref_cnt (blocks p' ! (?bs ! i)) = 1 \<and> block_hash (blocks p' ! (?bs ! i)) = None"
      using one p'(2) cs(2) by (simp add: same_counts_def)
  qed (use m in simp_all)
  moreover have "cache_blocks r n m p = (Inr (), ?m, p')" using False p'(1) by (simp add: cache_blocks_def Let_def)
  moreover have "get_num_free_blocks p' = get_num_free_blocks p"
    using cs(2) by (simp add: same_counts_def get_num_free_blocks_def)
  ultimately show ?thesis by (intro exI [of _ ?m] exI [of _ p']) (simp add: same_manager_def)
qed

section \<open>The loops of the coordinator\<close>

interpretation freeing_all: manager_operation "\<lambda>_. free_request rid" "\<lambda>_ _ _. True" "\<lambda>_ _ _. 0"
    "\<lambda>_ m _ m'. same_manager m m' \<and> req_blocks m' rid = [] \<and> (\<forall>r. r \<noteq> rid \<longrightarrow> req_blocks m' r = req_blocks m r)"
    hashes_kept for rid
  by unfold_locales (use free_request_ok in fastforce, auto simp: hashes_kept_def)

interpretation skipping_all: manager_operation "\<lambda>_. remove_skipped_blocks rid n" "\<lambda>_ _ _. True" "\<lambda>_ _ _. 0"
    "\<lambda>_ m _ m'. same_manager m m' \<and> num_cached_block m' = num_cached_block m \<and>
       length (req_blocks m' rid) = length (req_blocks m rid) \<and> (\<forall>r. r \<noteq> rid \<longrightarrow> req_blocks m' r = req_blocks m r)"
    hashes_kept for rid n
  by unfold_locales (use remove_skipped_ok in fastforce, auto simp: hashes_kept_def)

interpretation computing_all: manager_operation "allocate_new_computed_blocks rid n 0" "computed_pre rid"
    "computed_cost n"
    "\<lambda>hits m _ m'. same_manager m m' \<and>
       int (length (req_blocks m' rid)) = max 0 (max (skipped_blocks n m) (int (length hits))) \<and>
       (\<forall>r. r \<noteq> rid \<longrightarrow> req_blocks m' r = req_blocks m r)"
    only_taken for rid n
proof unfold_locales
  fix hits m and p p' :: block_pool
  assume k: "only_taken p p'" "same_setup p p'" "computed_pre rid hits m p" "manager_ok p m"
  then have same: "block_hash (blocks p' ! b) = block_hash (blocks p ! b)"
    "b \<noteq> null_block p \<Longrightarrow> ref_cnt (blocks p' ! b) = 0 \<Longrightarrow> ref_cnt (blocks p ! b) = 0"
    if "b \<in> set hits" for b
    using that by (auto simp: only_taken_def hashes_kept_def computed_pre_def list_all_iff dest!: bspec spec [of _ b])
  have "computed_pre rid hits m p'" using k(2,3) same by (auto simp: computed_pre_def)
  moreover have "length (filter (\<lambda>b. b \<noteq> null_block p \<and> ref_cnt (blocks p' ! b) = 0) bs)
      \<le> length (filter (\<lambda>b. b \<noteq> null_block p \<and> ref_cnt (blocks p ! b) = 0) bs)" if "set bs \<subseteq> set hits" for bs
    using that same(2) by (induction bs) auto
  then have "computed_cost n hits m p' \<le> computed_cost n hits m p"
    using k(2) by (simp add: computed_cost_def set_drop_subset)
  ultimately show "computed_pre rid hits m p' \<and> computed_cost n hits m p' \<le> computed_cost n hits m p" ..
next
  show "only_taken p r" if "only_taken p q" "only_taken q r" "same_setup p q" for p q r
    using that by (rule only_taken_trans)
qed (use computed_ok in blast, simp_all add: only_taken_refl computed_cost_def)

interpretation allocating_all: manager_operation "\<lambda>_. allocate_new_blocks rid n" "\<lambda>_ _ _. True"
    "\<lambda>_ m _. missing_blocks rid n m"
    "\<lambda>_ m new m'. same_manager m m' \<and> num_cached_block m' = num_cached_block m \<and> int (length new) = missing_blocks rid n m \<and>
       (\<forall>r. req_blocks m' r = (if r = rid then req_blocks m rid @ new else req_blocks m r))"
    "\<lambda>_ _. True" for rid n
  by unfold_locales (use allocate_new_ok in fastforce, auto simp: missing_blocks_def)

interpretation caching_all: manager_operation "\<lambda>_. cache_blocks r n" "\<lambda>_. cache_pre r n" "\<lambda>_ _ _. 0"
    "\<lambda>_ m _ m'. same_manager m m' \<and> (\<forall>rid. req_blocks m' rid = req_blocks m rid)"
    "\<lambda>_ _. True" for r n
  by unfold_locales (use cache_ok in fastforce, auto simp: cache_pre_def)

end
