(* ===== verification/CacheProps.thy ===== *)
theory CacheProps
  imports CacheOps
begin

text \<open>
  The manager of the cache as the scheduler uses it: its reachable states keep the invariant, and
  \<open>allocate_slots\<close> gives a request the slots it needs or nothing, without raising.
\<close>

declare map_of_eq_Some_iff [simp del]

section \<open>States and calls\<close>

fun attention_ok :: "attention \<Rightarrow> bool" where
  "attention_ok FullAttention = True"
| "attention_ok (SlidingWindow w) = (0 < w)"
| "attention_ok (ChunkedLocal c) = (0 < c)"

definition kv_ok :: "kv_manager \<Rightarrow> bool" where
  "kv_ok k \<longleftrightarrow> managers_inv (\<lambda>_. 0) (managers k) (pool k) \<and>
     (\<forall>m \<in> set (managers k). attention_ok (attention_type (kv_spec m)))"

text \<open>A call for a request that is running or new without a hit: its computed tokens have slots already.
  A call for a new request with hits: one list of cached blocks for each manager.\<close>

definition slots_request :: "cache_request \<Rightarrow> int \<Rightarrow> int \<Rightarrow> nat list list option \<Rightarrow> int \<Rightarrow> kv_manager \<Rightarrow> bool" where
  "slots_request r num_new num_new_computed hits lookahead k \<longleftrightarrow>
     0 < num_new \<and> 0 \<le> lookahead \<and> 0 \<le> num_computed_tokens r \<and> 0 \<le> num_new_computed \<and> num_tokens r \<le> max_model_len k \<and>
     (enable_caching (pool k) \<longrightarrow>
        int (length (block_hashes r)) = num_tokens r div hash_block_size (pool k) \<and>
        (\<forall>m \<in> set (managers k). block_size m mod hash_block_size (pool k) = 0)) \<and>
     (case hits of
        None \<Rightarrow> \<forall>m \<in> set (managers k). num_computed_tokens r + num_new_computed
                   \<le> block_size m * int (length (req_blocks m (request_id r)))
      | Some bss \<Rightarrow> list_all2 (\<lambda>bs m. computed_pre (request_id r) bs m (pool k)) bss (managers k))"

lemma coordinate_each:
  assumes "managers_do f (each k) (managers k) (pool k) = (Inr ys, ms, p)"
  shows "coordinate f (each k) k = (Inr ys, k\<lparr>managers := ms, pool := p\<rparr>)"
  using assms by (simp add: coordinate_def)

lemma cdiv_neg: "cdiv a b = - (- a div b)"
  by (simp add: cdiv_def div_minus_right)

lemma cdiv_le_iff:
  assumes "0 < b"
  shows "cdiv a b \<le> c \<longleftrightarrow> a \<le> b * c"
proof
  assume "cdiv a b \<le> c"
  then have "b * - c \<le> b * (- a div b)" using assms by (intro mult_left_mono) (simp_all add: cdiv_neg)
  also have "\<dots> \<le> - a" using assms using mod_int_pos_iff [of "- a" b] minus_mod_eq_mult_div [of "- a" b] by linarith
  finally show "a \<le> b * c" by simp
next
  assume "a \<le> b * c"
  then have "(b * - c) div b \<le> - a div b" using assms by (intro zdiv_mono1) simp_all
  moreover have "(b * - c) div b = - c" by (rule nonzero_mult_div_cancel_left) (use assms in simp)
  ultimately show "cdiv a b \<le> c" by (simp add: cdiv_neg)
qed

lemma div_le_cdiv: "0 < b \<Longrightarrow> a div b \<le> cdiv a b"
proof -
  assume b: "0 < b"
  have "a \<le> b * cdiv a b" using cdiv_le_iff [OF b, of a "cdiv a b"] by simp
  then have "a div b \<le> (b * cdiv a b) div b" using b by (intro zdiv_mono1) simp_all
  then show ?thesis using b by simp
qed

lemma skipped_covered:
  assumes "attention_ok (attention_type (kv_spec m))" "0 < block_size m" "0 \<le> n" "n \<le> block_size m * int l"
  shows "skipped_blocks n m \<le> int l"
proof -
  have "get_num_skipped_tokens m n \<le> n"
    using assms(1,3) by (cases "attention_type (kv_spec m)") (auto simp: get_num_skipped_tokens_def minus_mod_eq_div_mult [symmetric])
  then have "get_num_skipped_tokens m n \<le> int l * block_size m" using assms(4) by (simp add: mult.commute)
  then have "get_num_skipped_tokens m n div block_size m \<le> (int l * block_size m) div block_size m"
    using assms(2) by (intro zdiv_mono1) simp_all
  then show ?thesis using assms(2) by (simp add: skipped_blocks_def)
qed

text \<open>The blocks needed according to \<open>get_num_blocks_to_allocate\<close> cover what the two stages take.\<close>

lemma needed_none:
  assumes ok: "manager_ok p m" and att: "attention_ok (attention_type (kv_spec m))" and "0 \<le> local"
    and cover: "local \<le> block_size m * int (length (req_blocks m rid))"
  shows "get_num_blocks_to_allocate rid n [] local m p = Inr (missing_blocks rid n m)"
proof -
  have "skipped_blocks local m \<le> int (length (req_blocks m rid))"
    using skipped_covered [OF att _ assms(3) cover] ok by (simp add: manager_ok_def)
  then show ?thesis
    by (simp add: get_num_blocks_to_allocate_def Let_def missing_blocks_def skipped_blocks_def [symmetric]
        get_num_evictable_blocks_def max.commute max_absorb2)
qed

lemma nat_max: "nat (max x 0) = nat x" "nat (max 0 x) = nat x"
  by (simp_all add: max_def)

lemma needed_hits:
  assumes "free_rel p fl" and pre: "computed_pre rid bs m p"
  shows "get_num_blocks_to_allocate rid n bs local m p = Inr (computed_cost local bs m p +
    max 0 (cdiv n (block_size m) - max 0 (max (skipped_blocks local m) (int (length bs)))))"
proof -
  have "filter (\<lambda>b. ref_cnt (blocks p ! b) = 0 \<and> \<not> is_null (blocks p ! b)) (drop k bs)
      = filter (\<lambda>b. b \<noteq> null_block p \<and> ref_cnt (blocks p ! b) = 0) (drop k bs)" for k
    using assms by (intro filter_cong) (auto simp: computed_pre_def free_rel_def list_all_iff dest: in_set_dropD)
  then show ?thesis
    using pre by (simp add: get_num_blocks_to_allocate_def Let_def computed_pre_def skipped_blocks_def [symmetric]
        get_num_evictable_blocks_def computed_cost_def nat_max max.commute)
qed

lemma sum_needed:
  "\<forall>i < length ms. get_num_blocks_to_allocate rid n (hits ! i) local (ms ! i) p = Inr (f i) \<Longrightarrow> length hits = length ms \<Longrightarrow>
   sum_blocks_to_allocate rid n local hits ms p = Inr (sum_list (map f [0..<length ms]))"
proof (induction ms arbitrary: hits f)
  case (Cons m ms)
  then obtain h hs where hs: "hits = h # hs" by (cases hits) auto
  have "\<forall>i < length ms. get_num_blocks_to_allocate rid n (hs ! i) local (ms ! i) p = Inr (f (Suc i))"
    using Cons.prems(1) hs by auto
  from Cons.IH [OF this] Cons.prems hs have "sum_blocks_to_allocate rid n local hs ms p = Inr (sum_list (map (\<lambda>i. f (Suc i)) [0..<length ms]))"
    by simp
  moreover have "get_num_blocks_to_allocate rid n h local m p = Inr (f 0)" using Cons.prems(1) hs by auto
  moreover have "sum_list (map f [0..<length (m # ms)]) = f 0 + sum_list (map (\<lambda>i. f (Suc i)) [0..<length ms])"
    by (simp add: upt_conv_Cons map_Suc_upt [symmetric] o_def del: upt_Suc)
  ultimately show ?case using hs by (simp add: ebind_def)
qed simp

lemma costs_sum: "length xs = length ms \<Longrightarrow> sum_list (map2 f xs ms) = sum_list (map (\<lambda>i. f (xs ! i) (ms ! i)) [0..<length ms])"
  by (intro arg_cong [where f = sum_list] nth_equalityI) auto

lemma managers_okD:
  assumes "managers_inv R ms p" "i < length ms"
  shows "manager_ok p (ms ! i)" and "pool_ok p"
  using assms by (auto simp: managers_inv_def)

section \<open>The stages of an allocation\<close>

definition hits_ok :: "string \<Rightarrow> int \<Rightarrow> nat list list option \<Rightarrow> type_manager list \<Rightarrow> block_pool \<Rightarrow> bool" where
  "hits_ok rid local hits ms p \<longleftrightarrow> 0 \<le> local \<and> (\<forall>m \<in> set ms. attention_ok (attention_type (kv_spec m))) \<and>
     (case hits of
        None \<Rightarrow> \<forall>m \<in> set ms. local \<le> block_size m * int (length (req_blocks m rid))
      | Some bss \<Rightarrow> list_all2 (\<lambda>bs m. computed_pre rid bs m p) bss ms)"

definition hit_lists :: "nat list list option \<Rightarrow> type_manager list \<Rightarrow> nat list list" where
  "hit_lists hits ms = (case hits of None \<Rightarrow> replicate (length ms) [] | Some bss \<Rightarrow> bss)"

text \<open>What the check counts for manager \<open>i\<close>: the hits that leave the free queue, and the new blocks.\<close>

definition needed_at :: "string \<Rightarrow> int \<Rightarrow> int \<Rightarrow> nat list list option \<Rightarrow> type_manager list \<Rightarrow> block_pool \<Rightarrow> nat \<Rightarrow> int" where
  "needed_at rid n local hits ms p i =
     (case hits of
        None \<Rightarrow> missing_blocks rid n (ms ! i)
      | Some bss \<Rightarrow> computed_cost local (bss ! i) (ms ! i) p +
          max 0 (cdiv n (block_size (ms ! i)) - max 0 (max (skipped_blocks local (ms ! i)) (int (length (bss ! i))))))"

lemma needed_total:
  assumes inv: "managers_inv R ms p" and ok: "hits_ok rid local hits ms p"
  shows "sum_blocks_to_allocate rid n local (hit_lists hits ms) ms p
    = Inr (sum_list (map (needed_at rid n local hits ms p) [0..<length ms]))"
proof (rule sum_needed)
  obtain fl where fl: "free_rel p fl" using inv by (auto simp: managers_inv_def pool_ok_def)
  show "length (hit_lists hits ms) = length ms"
    using ok by (cases hits) (auto simp: hit_lists_def hits_ok_def dest: list_all2_lengthD)
  show "\<forall>i < length ms. get_num_blocks_to_allocate rid n (hit_lists hits ms ! i) local (ms ! i) p
      = Inr (needed_at rid n local hits ms p i)"
  proof (intro allI impI)
    fix i
    assume i: "i < length ms"
    then have m: "manager_ok p (ms ! i)" "attention_ok (attention_type (kv_spec (ms ! i)))"
      using managers_okD(1) [OF inv i] ok by (simp_all add: hits_ok_def)
    show "get_num_blocks_to_allocate rid n (hit_lists hits ms ! i) local (ms ! i) p = Inr (needed_at rid n local hits ms p i)"
    proof (cases hits)
      case None
      with needed_none [OF m, of "local" rid n] ok i show ?thesis by (simp add: hits_ok_def hit_lists_def needed_at_def)
    next
      case (Some bss)
      with ok i have "computed_pre rid (bss ! i) (ms ! i) p" by (auto simp: hits_ok_def list_all2_conv_all_nth)
      from needed_hits [OF fl this, of n "local"] Some show ?thesis by (simp add: hit_lists_def needed_at_def)
    qed
  qed
qed

lemma stage_computed:
  assumes inv: "managers_inv R ms p" and ok: "hits_ok rid local hits ms p"
    and free: "sum_list (map (needed_at rid n local hits ms p) [0..<length ms]) \<le> get_num_free_blocks p"
  shows "\<exists>ys ms' p'. (if hits \<noteq> None then managers_do (allocate_new_computed_blocks rid local 0) (hit_lists hits ms) ms p
      else (Inr [], ms, p)) = (Inr ys, ms', p') \<and> managers_inv R ms' p' \<and> same_setup p p' \<and> length ms' = length ms \<and>
    (\<forall>i < length ms. same_manager (ms ! i) (ms' ! i) \<and> (\<forall>r. r \<noteq> rid \<longrightarrow> req_blocks (ms' ! i) r = req_blocks (ms ! i) r)) \<and>
    sum_list (map (\<lambda>i. missing_blocks rid n (ms' ! i)) [0..<length ms]) \<le> get_num_free_blocks p'"
proof (cases hits)
  case None
  then have "needed_at rid n local hits ms p = (\<lambda>i. missing_blocks rid n (ms ! i))" by (auto simp: needed_at_def)
  with None inv free show ?thesis by simp
next
  case (Some bss)
  let ?c = "\<lambda>i. computed_cost local (bss ! i) (ms ! i) p"
  let ?m = "\<lambda>i. max 0 (cdiv n (block_size (ms ! i)) - max 0 (max (skipped_blocks local (ms ! i)) (int (length (bss ! i)))))"
  have pre: "list_all2 (\<lambda>bs m. computed_pre rid bs m p) bss ms" using ok Some by (simp add: hits_ok_def)
  then have len: "length bss = length ms" by (rule list_all2_lengthD)
  have "needed_at rid n local hits ms p = (\<lambda>i. ?c i + ?m i)" using Some by (auto simp: needed_at_def)
  then have computed: "sum_list (map ?c [0..<length ms]) + sum_list (map ?m [0..<length ms]) \<le> get_num_free_blocks p"
    using free by (simp add: sum_list_addf)
  have costs: "computing_all.costs local bss ms p = sum_list (map ?c [0..<length ms])"
    unfolding computing_all.costs_def by (rule costs_sum [OF len])
  moreover have "0 \<le> sum_list (map ?m [0..<length ms])" by (intro sum_list_nonneg) auto
  ultimately obtain ys ms' p' where res: "managers_do (allocate_new_computed_blocks rid local 0) bss ms p = (Inr ys, ms', p')"
    "managers_inv R ms' p'" "undisturbed R ms p ms' p'" "length ms' = length ms"
    "\<forall>i < length ms. same_manager (ms ! i) (ms' ! i) \<and>
       int (length (req_blocks (ms' ! i) rid)) = max 0 (max (skipped_blocks local (ms ! i)) (int (length (bss ! i)))) \<and>
       (\<forall>r. r \<noteq> rid \<longrightarrow> req_blocks (ms' ! i) r = req_blocks (ms ! i) r)"
    "get_num_free_blocks p - computing_all.costs local bss ms p \<le> get_num_free_blocks p'"
    using computing_all.managers_do_ok [OF inv pre, of "local"] computed by auto
  have "map (\<lambda>i. missing_blocks rid n (ms' ! i)) [0..<length ms] = map ?m [0..<length ms]"
    using res(5) by (auto simp: missing_blocks_def same_manager_def)
  from arg_cong [OF this, of sum_list] computed res(6) costs
  have "sum_list (map (\<lambda>i. missing_blocks rid n (ms' ! i)) [0..<length ms]) \<le> get_num_free_blocks p'" by linarith
  with res Some show ?thesis
    by (intro exI [of _ ys] exI [of _ ms'] exI [of _ p']) (simp add: hit_lists_def undisturbed_def)
qed

lemma no_costs [simp]: "skipping_all.costs xs ms p = 0" "freeing_all.costs xs ms p = 0" "caching_all.costs xs ms p = 0"
  unfolding skipping_all.costs_def freeing_all.costs_def caching_all.costs_def
  by (induction xs arbitrary: ms; case_tac ms; simp)+

lemma free_nonneg: "managers_inv R ms p \<Longrightarrow> 0 \<le> get_num_free_blocks p"
  by (auto simp: managers_inv_def pool_ok_def dest: free_count)

lemma units [simp]: "list_all2 (\<lambda>x m. True) (replicate (length ms) ()) ms"
  by (induction ms) auto

lemma stage_skip:
  assumes inv: "managers_inv R ms p"
  shows "\<exists>ys ms' p'. managers_do (\<lambda>_. remove_skipped_blocks rid n) (replicate (length ms) ()) ms p = (Inr ys, ms', p') \<and>
    managers_inv R ms' p' \<and> same_setup p p' \<and> hashes_kept p p' \<and> length ms' = length ms \<and>
    (\<forall>i < length ms. same_manager (ms ! i) (ms' ! i) \<and> num_cached_block (ms' ! i) = num_cached_block (ms ! i) \<and>
       length (req_blocks (ms' ! i) rid) = length (req_blocks (ms ! i) rid) \<and>
       (\<forall>r. r \<noteq> rid \<longrightarrow> req_blocks (ms' ! i) r = req_blocks (ms ! i) r))"
  using skipping_all.managers_do_ok [OF inv units, of rid n] free_nonneg [OF inv] by (auto simp: undisturbed_def)

lemma hits_ok_skip:
  assumes ok: "hits_ok rid local hits ms p" and len: "length ms' = length ms" and eq: "same_setup p p'" "hashes_kept p p'"
    and same: "\<forall>i < length ms. same_manager (ms ! i) (ms' ! i) \<and> num_cached_block (ms' ! i) = num_cached_block (ms ! i) \<and>
       length (req_blocks (ms' ! i) rid) = length (req_blocks (ms ! i) rid) \<and>
       (\<forall>r. r \<noteq> rid \<longrightarrow> req_blocks (ms' ! i) r = req_blocks (ms ! i) r)"
  shows "hits_ok rid local hits ms' p'"
proof -
  have same': "\<exists>m \<in> set ms. same_manager m m' \<and> length (req_blocks m' rid) = length (req_blocks m rid)" if "m' \<in> set ms'" for m'
    using that len same by (metis in_set_conv_nth)
  have "attention_ok (attention_type (kv_spec m))" if "m \<in> set ms'" for m
    using same' [OF that] ok by (auto simp: hits_ok_def same_manager_def)
  moreover have "local \<le> block_size m * int (length (req_blocks m rid))" if "hits = None" "m \<in> set ms'" for m
    using same' [OF that(2)] ok that(1) by (auto simp: hits_ok_def same_manager_def)
  moreover have "computed_pre rid (bss ! i) (ms' ! i) p'" if "hits = Some bss" "i < length ms" for bss i
  proof -
    have pre: "computed_pre rid (bss ! i) (ms ! i) p" using ok that by (simp add: hits_ok_def list_all2_conv_all_nth)
    then have "block_hash (blocks p' ! b) = block_hash (blocks p ! b)" if "b \<in> set (bss ! i)" for b
      using that eq(2) by (auto simp: computed_pre_def hashes_kept_def list_all_iff)
    with pre same eq(1) that(2) show ?thesis by (auto simp: computed_pre_def)
  qed
  ultimately show ?thesis using ok len by (cases hits) (simp_all add: hits_ok_def list_all2_conv_all_nth)
qed

lemma stage_allocate:
  assumes inv: "managers_inv R ms p"
    and free: "sum_list (map (\<lambda>i. missing_blocks rid n (ms ! i)) [0..<length ms]) \<le> get_num_free_blocks p"
  shows "\<exists>new ms' p'. managers_do (\<lambda>_. allocate_new_blocks rid n) (replicate (length ms) ()) ms p = (Inr new, ms', p') \<and>
    managers_inv R ms' p' \<and> same_setup p p' \<and> length new = length ms \<and> length ms' = length ms \<and>
    (\<forall>i < length ms. same_manager (ms ! i) (ms' ! i) \<and>
       n \<le> block_size (ms ! i) * int (length (req_blocks (ms' ! i) rid)) \<and>
       req_blocks (ms' ! i) rid = req_blocks (ms ! i) rid @ new ! i \<and>
       (\<forall>r. r \<noteq> rid \<longrightarrow> req_blocks (ms' ! i) r = req_blocks (ms ! i) r))"
proof -
  have "allocating_all.costs rid n (replicate (length ms) ()) ms p \<le> get_num_free_blocks p"
    unfolding allocating_all.costs_def using free by (simp add: costs_sum)
  from allocating_all.managers_do_ok [OF inv units this] obtain new ms' p' where
    res: "managers_do (\<lambda>_. allocate_new_blocks rid n) (replicate (length ms) ()) ms p = (Inr new, ms', p')"
      "managers_inv R ms' p'" "same_setup p p'" "length new = length ms" "length ms' = length ms"
      "\<forall>i < length ms. same_manager (ms ! i) (ms' ! i) \<and> int (length (new ! i)) = missing_blocks rid n (ms ! i) \<and>
         (\<forall>r. req_blocks (ms' ! i) r = (if r = rid then req_blocks (ms ! i) rid @ new ! i else req_blocks (ms ! i) r))"
    by (auto simp: undisturbed_def)
  have "n \<le> block_size (ms ! i) * int (length (req_blocks (ms' ! i) rid))" if i: "i < length ms" for i
  proof -
    have "cdiv n (block_size (ms ! i)) \<le> int (length (req_blocks (ms' ! i) rid))"
      using res(6) i by (simp add: missing_blocks_def)
    moreover have "0 < block_size (ms ! i)" using managers_okD(1) [OF inv i] by (simp add: manager_ok_def)
    ultimately show ?thesis by (simp add: cdiv_le_iff)
  qed
  with res show ?thesis by (intro exI [of _ new] exI [of _ ms'] exI [of _ p']) simp
qed

lemma stage_cache:
  assumes inv: "managers_inv R ms p" and pre: "\<forall>m \<in> set ms. cache_pre r n m p"
  shows "\<exists>ys ms' p'. managers_do (\<lambda>_. cache_blocks r n) (replicate (length ms) ()) ms p = (Inr ys, ms', p') \<and>
    managers_inv R ms' p' \<and> same_setup p p' \<and> length ms' = length ms \<and>
    (\<forall>i < length ms. same_manager (ms ! i) (ms' ! i) \<and> (\<forall>rid. req_blocks (ms' ! i) rid = req_blocks (ms ! i) rid))"
proof -
  have "list_all2 (\<lambda>x m. cache_pre r n m p) (replicate (length ms) ()) ms"
    using pre by (simp add: list_all2_conv_all_nth)
  from caching_all.managers_do_ok [OF inv this] free_nonneg [OF inv] show ?thesis by (auto simp: undisturbed_def)
qed

lemma attention_transfer:
  assumes "\<forall>m \<in> set ms. attention_ok (attention_type (kv_spec m))" "length ms' = length ms"
    and "\<And>i. i < length ms \<Longrightarrow> same_manager (ms ! i) (ms' ! i)"
  shows "\<forall>m \<in> set ms'. attention_ok (attention_type (kv_spec m))"
proof
  fix m
  assume "m \<in> set ms'"
  then obtain i where "i < length ms" "m = ms' ! i" using assms(2) by (auto simp: in_set_conv_nth)
  with assms(1) assms(3) [of i] show "attention_ok (attention_type (kv_spec m))"
    by (metis nth_mem same_manager_def)
qed

text \<open>What no operation changes.\<close>

definition same_shape :: "kv_manager \<Rightarrow> kv_manager \<Rightarrow> bool" where
  "same_shape k k' \<longleftrightarrow> length (managers k') = length (managers k) \<and>
     (\<forall>i < length (managers k). same_manager (managers k ! i) (managers k' ! i)) \<and> same_setup (pool k) (pool k') \<and>
     coordinator_kind k' = coordinator_kind k \<and> max_model_len k' = max_model_len k \<and> use_eagle k' = use_eagle k \<and>
     context_parallel k' = context_parallel k"

text \<open>What a call of \<open>allocate_slots\<close> leads to: the slots, or the shortage that was found.\<close>

definition allocation_result ::
  "cache_request \<Rightarrow> int \<Rightarrow> int \<Rightarrow> nat list list option \<Rightarrow> kv_manager \<Rightarrow> nat list list option \<Rightarrow> kv_manager \<Rightarrow> bool" where
  "allocation_result r need_slot local hits k res k' \<longleftrightarrow>
     length (managers k') = length (managers k) \<and>
     (\<forall>i < length (managers k). \<forall>rid. rid \<noteq> request_id r \<longrightarrow>
        req_blocks (managers k' ! i) rid = req_blocks (managers k ! i) rid) \<and>
     (case res of
        None \<Rightarrow> \<exists>needed. sum_blocks_to_allocate (request_id r) need_slot local (block_lists k hits) (managers k') (pool k') = Inr needed \<and>
                  get_num_free_blocks (pool k') < needed
      | Some new \<Rightarrow> length new = length (managers k) \<and> (\<forall>i < length (managers k).
          need_slot \<le> block_size (managers k ! i) * int (length (req_blocks (managers k' ! i) (request_id r))) \<and>
          (\<exists>old. req_blocks (managers k' ! i) (request_id r) = old @ new ! i)))"

lemma allocate_slots_ok:
  assumes ok: "kv_ok k" and call: "slots_request r num_new num_new_computed hits lookahead k"
    and computed: "computed = min (num_computed_tokens r + num_new_computed) (max_model_len k)"
    and need: "need = min (computed + num_new + lookahead) (max_model_len k)"
  shows "\<exists>res k'. allocate_slots r num_new num_new_computed hits lookahead 0 delay k = (Inr res, k') \<and> kv_ok k' \<and> same_shape k k' \<and>
    allocation_result r need (num_computed_tokens r + num_new_computed) hits k res k'"
proof -
  let ?rid = "request_id r" and ?local = "num_computed_tokens r + num_new_computed" and ?ms = "managers k" and ?p = "pool k"
  from ok have inv: "managers_inv (\<lambda>_. 0) ?ms ?p" and att: "\<forall>m \<in> set ?ms. attention_ok (attention_type (kv_spec m))"
    by (simp_all add: kv_ok_def)
  have hits: "hits_ok ?rid ?local hits ?ms ?p" using call att by (cases hits) (simp_all add: slots_request_def hits_ok_def)
  obtain ys1 ms1 p1 where s1: "managers_do (\<lambda>_. remove_skipped_blocks ?rid computed) (replicate (length ?ms) ()) ?ms ?p = (Inr ys1, ms1, p1)"
    "managers_inv (\<lambda>_. 0) ms1 p1" "same_setup ?p p1" "hashes_kept ?p p1" "length ms1 = length ?ms"
    "\<forall>i < length ?ms. same_manager (?ms ! i) (ms1 ! i) \<and> num_cached_block (ms1 ! i) = num_cached_block (?ms ! i) \<and>
       length (req_blocks (ms1 ! i) ?rid) = length (req_blocks (?ms ! i) ?rid) \<and>
       (\<forall>r. r \<noteq> ?rid \<longrightarrow> req_blocks (ms1 ! i) r = req_blocks (?ms ! i) r)"
    using stage_skip [OF inv, of ?rid computed] by blast
  have hits1: "hits_ok ?rid ?local hits ms1 p1" by (rule hits_ok_skip [OF hits s1(5,3,4,6)])
  let ?needed = "sum_list (map (needed_at ?rid need ?local hits ms1 p1) [0..<length ms1])"
  have lists: "block_lists k hits = hit_lists hits ms1" "hits \<noteq> None \<Longrightarrow> block_lists k hits = hit_lists hits ms1"
    using s1(5) by (cases hits; simp add: block_lists_def hit_lists_def)+
  have sum: "sum_blocks_to_allocate ?rid need ?local (block_lists k hits) ms1 p1 = Inr ?needed"
    unfolding lists(1) by (rule needed_total [OF s1(2) hits1])
  let ?k1 = "k\<lparr>managers := ms1, pool := p1\<rparr>"
  have new: "num_new \<noteq> 0" "0 \<le> lookahead" "0 < num_new" "0 \<le> ?local" "num_tokens r \<le> max_model_len k"
    using call by (auto simp: slots_request_def)
  have c1: "coordinate (\<lambda>_. remove_skipped_blocks ?rid computed) (each k) k = (Inr ys1, ?k1)"
    using s1(1) by (simp add: coordinate_def each_def)
  have att1: "\<forall>m \<in> set ms1. attention_ok (attention_type (kv_spec m))" using hits1 by (simp add: hits_ok_def)
  show ?thesis
  proof (cases "get_num_free_blocks p1 < ?needed")
    case True
    then have "allocate_slots r num_new num_new_computed hits lookahead 0 delay k = (Inr None, ?k1)"
      using new(1) c1 sum by (simp add: allocate_slots_def Let_def computed [symmetric] need [symmetric])
    moreover have "kv_ok ?k1" using s1(2) att1 by (simp add: kv_ok_def)
    moreover have "allocation_result r need ?local hits k None ?k1"
      using True sum s1(5,6) by (simp add: allocation_result_def)
    moreover have "same_shape k ?k1" using s1(3,5,6) by (simp add: same_shape_def)
    ultimately show ?thesis by blast
  next
    case False
    then have "?needed \<le> get_num_free_blocks p1" by simp
    from stage_computed [OF s1(2) hits1 this] obtain ys2 ms2 p2 where
      s2: "(if hits \<noteq> None then managers_do (allocate_new_computed_blocks ?rid ?local 0) (hit_lists hits ms1) ms1 p1
        else (Inr [], ms1, p1)) = (Inr ys2, ms2, p2)" "managers_inv (\<lambda>_. 0) ms2 p2" "same_setup p1 p2" "length ms2 = length ms1"
      "\<forall>i < length ms1. same_manager (ms1 ! i) (ms2 ! i) \<and> (\<forall>r. r \<noteq> ?rid \<longrightarrow> req_blocks (ms2 ! i) r = req_blocks (ms1 ! i) r)"
      "sum_list (map (\<lambda>i. missing_blocks ?rid need (ms2 ! i)) [0..<length ms1]) \<le> get_num_free_blocks p2" by blast
    let ?k2 = "k\<lparr>managers := ms2, pool := p2\<rparr>"
    have c2: "(if hits \<noteq> None \<or> 0 < (0::int) then coordinate (allocate_new_computed_blocks ?rid ?local 0) (block_lists k hits) ?k1
        else (Inr [], ?k1)) = (Inr ys2, ?k2)"
      using s2(1) lists by (cases hits) (simp_all add: coordinate_def)
    from stage_allocate [OF s2(2)] s2(4,6) obtain new_blocks ms3 p3 where
      s3: "managers_do (\<lambda>_. allocate_new_blocks ?rid need) (replicate (length ms2) ()) ms2 p2 = (Inr new_blocks, ms3, p3)"
      "managers_inv (\<lambda>_. 0) ms3 p3" "same_setup p2 p3" "length new_blocks = length ms2" "length ms3 = length ms2"
      "\<forall>i < length ms2. same_manager (ms2 ! i) (ms3 ! i) \<and>
         need \<le> block_size (ms2 ! i) * int (length (req_blocks (ms3 ! i) ?rid)) \<and>
         req_blocks (ms3 ! i) ?rid = req_blocks (ms2 ! i) ?rid @ new_blocks ! i \<and>
         (\<forall>r. r \<noteq> ?rid \<longrightarrow> req_blocks (ms3 ! i) r = req_blocks (ms2 ! i) r)" by metis
    let ?k3 = "k\<lparr>managers := ms3, pool := p3\<rparr>"
    have c3: "coordinate (\<lambda>_. allocate_new_blocks ?rid need) (each ?k2) ?k2 = (Inr new_blocks, ?k3)"
      using s3(1) by (simp add: coordinate_def each_def)
    have same3: "same_manager (?ms ! i) (ms3 ! i)" if "i < length ?ms" for i
      using s1(5,6) s2(4,5) s3(5,6) that by (simp add: same_manager_def)
    have att3: "\<forall>m \<in> set ms3. attention_ok (attention_type (kv_spec m))"
    proof (rule attention_transfer [OF att])
      show "length ms3 = length ?ms" using s1(5) s2(4) s3(5) by metis
    qed (rule same3)
    have ok3: "kv_ok ?k3" using s3(2) att3 by (simp add: kv_ok_def)
    have slots: "need \<le> block_size (?ms ! i) * int (length (req_blocks (ms3 ! i) ?rid)) \<and>
        (\<exists>old. req_blocks (ms3 ! i) ?rid = old @ new_blocks ! i)" if "i < length ?ms" for i
    proof -
      have i: "i < length ms1" "i < length ms2" using that s1(5) s2(4) by simp_all
      have "block_size (ms2 ! i) = block_size (?ms ! i)"
        using s1(6) [rule_format, OF that] s2(5) [rule_format, OF i(1)] by (simp add: same_manager_def)
      with s3(6) [rule_format, OF i(2)] show ?thesis by auto
    qed
    then have result3: "allocation_result r need ?local hits k (Some new_blocks) ?k3"
      using slots s1(5,6) s2(4,5) s3(4,5,6) by (simp add: allocation_result_def)
    have eq: "same_setup ?p p3" using s1(3) s2(3) s3(3) by simp
    have shape3: "same_shape k ?k3" using eq same3 s1(5) s2(4) s3(5) by (simp add: same_shape_def)
    show ?thesis
    proof (cases "\<not> enable_caching p3 \<or> delay")
      case True
      then have "allocate_slots r num_new num_new_computed hits lookahead 0 delay k = (Inr (Some new_blocks), ?k3)"
        using new(1) c1 sum False c2 c3 by (simp add: allocate_slots_def Let_def computed [symmetric] need [symmetric])
      with ok3 result3 shape3 show ?thesis by blast
    next
      case caching: False
      let ?n = "min (computed + num_new) (num_tokens r)"
      have "cache_pre r ?n m p3" if m: "m \<in> set ms3" for m
      proof -
        from m obtain i where i: "i < length ?ms" "m = ms3 ! i"
          using s1(5) s2(4) s3(5) by (metis in_set_conv_nth)
        have bsz: "block_size m = block_size (?ms ! i)" "need \<le> block_size m * int (length (req_blocks m ?rid))"
          using same3 [OF i(1)] slots [OF i(1)] i(2) by (simp_all add: same_manager_def)
        have h: "0 < hash_block_size p3" "0 < block_size m"
          using s3(2) m by (simp_all add: managers_inv_def pool_ok_def manager_ok_def)
        have "enable_caching ?p" using caching eq by simp
        then have cover: "int (length (block_hashes r)) = num_tokens r div hash_block_size p3"
          "block_size m mod hash_block_size p3 = 0"
          using call eq bsz(1) i(1) by (simp_all add: slots_request_def)
        have n: "0 \<le> ?n" "?n \<le> num_tokens r" "?n \<le> need"
          using new computed need by (auto simp: num_tokens_def)
        have "?n div hash_block_size p3 \<le> num_tokens r div hash_block_size p3" using n(2) h(1) by (intro zdiv_mono1) simp_all
        moreover have "?n div block_size m \<le> (block_size m * int (length (req_blocks m ?rid))) div block_size m"
          using n(3) bsz(2) h(2) by (intro zdiv_mono1) simp_all
        ultimately show ?thesis using caching n(1) cover h(2) by (simp add: cache_pre_def)
      qed
      then obtain ys4 ms4 p4 where s4: "managers_do (\<lambda>_. cache_blocks r ?n) (replicate (length ms3) ()) ms3 p3 = (Inr ys4, ms4, p4)"
        "managers_inv (\<lambda>_. 0) ms4 p4" "length ms4 = length ms3" "same_setup p3 p4"
        "\<forall>i < length ms3. same_manager (ms3 ! i) (ms4 ! i) \<and> (\<forall>rid. req_blocks (ms4 ! i) rid = req_blocks (ms3 ! i) rid)"
        using stage_cache [OF s3(2), of r ?n] by blast
      let ?k4 = "k\<lparr>managers := ms4, pool := p4\<rparr>"
      have c4: "coordinate (\<lambda>_. cache_blocks r ?n) (each ?k3) ?k3 = (Inr ys4, ?k4)"
        using s4(1) by (simp add: coordinate_def each_def)
      have "allocate_slots r num_new num_new_computed hits lookahead 0 delay k = (Inr (Some new_blocks), ?k4)"
        using new(1) c1 sum False c2 c3 c4 caching by (simp add: allocate_slots_def Let_def computed [symmetric] need [symmetric])
      moreover have "\<forall>m \<in> set ms4. attention_ok (attention_type (kv_spec m))"
        using s4(5) by (intro attention_transfer [OF att3 s4(3)]) blast
      then have "kv_ok ?k4" using s4(2) by (simp add: kv_ok_def)
      moreover have "allocation_result r need ?local hits k (Some new_blocks) ?k4"
        using result3 s4(3,5) s1(5) s2(4) s3(5) by (simp add: allocation_result_def)
      moreover have "same_shape k ?k4"
        using shape3 s4(3,4,5) s1(5) s2(4) s3(5) by (simp add: same_shape_def same_manager_def)
      ultimately show ?thesis by blast
    qed
  qed
qed

end
