(* ===== verification/CacheHits.thy ===== *)
theory CacheHits
  imports CacheOps
begin

text \<open>
  The search for the longest cached prefix: whatever the attention type, it raises no error under the
  conditions of a coordinator, and every block it returns carries the hash of its position.
\<close>

declare map_of_eq_Some_iff [simp del]

section \<open>One position\<close>

definition hit_at :: "block_pool \<Rightarrow> int list \<Rightarrow> bytes \<Rightarrow> nat list \<Rightarrow> bool" where
  "hit_at p gs h bs \<longleftrightarrow> length bs = length gs \<and>
     (\<forall>i < length gs. bs ! i < num_blocks p \<and>
        (\<exists>key. make_block_hash_with_group_id h (gs ! i) = Inr key \<and> block_hash (blocks p ! (bs ! i)) = Some key))"

definition groups_ok :: "int list \<Rightarrow> bool" where
  "groups_ok gs \<longleftrightarrow> gs \<noteq> [] \<and> set gs \<subseteq> {0..<2 ^ 32}"

lemma get_cached_block_ok:
  "cache_rel p \<Longrightarrow> set gs \<subseteq> {0..<2 ^ 32} \<Longrightarrow> \<exists>found. get_cached_block p h gs = Inr found \<and>
     (case found of None \<Rightarrow> True | Some bs \<Rightarrow> hit_at p gs h bs)"
proof (induction gs)
  case Nil
  then show ?case by (simp add: hit_at_def)
next
  case (Cons g gs)
  then obtain found where rest: "get_cached_block p h gs = Inr found" "case found of None \<Rightarrow> True | Some bs \<Rightarrow> hit_at p gs h bs"
    by auto
  obtain key where key: "make_block_hash_with_group_id h g = Inr key"
    using Cons.prems(2) by (auto simp: make_block_hash_with_group_id_def)
  obtain one where one: "get_one_block (cached_map p) key = Inr one"
    "case one of None \<Rightarrow> True | Some b \<Rightarrow> b < num_blocks p \<and> block_hash (blocks p ! b) = Some key"
    using hm_found [OF Cons.prems(1), of key] by (auto split: option.splits)
  show ?case
  proof (cases "one = None \<or> found = None")
    case True
    with key one rest show ?thesis by (auto simp: ebind_def split: option.split)
  next
    case False
    then obtain b bs where b: "one = Some b" "found = Some bs" by auto
    with one(2) rest(2) key have "hit_at p (g # gs) h (b # bs)"
      unfolding hit_at_def by (auto simp: less_Suc_eq_0_disj)
    with b key one(1) rest(1) show ?thesis by (simp add: ebind_def)
  qed
qed

lemma lookup_ok:
  assumes "cache_rel p" "groups_ok gs"
  shows "\<exists>found. lookup p gs h = Inr found \<and> (case found of None \<Rightarrow> True | Some bs \<Rightarrow> hit_at p gs h bs)"
proof -
  obtain found where found: "get_cached_block p h gs = Inr found" "case found of None \<Rightarrow> True | Some bs \<Rightarrow> hit_at p gs h bs"
    using get_cached_block_ok [of p gs h] assms by (auto simp: groups_ok_def)
  moreover have "found \<noteq> Some []" using found(2) assms(2) by (auto simp: hit_at_def groups_ok_def)
  ultimately show ?thesis by (simp add: lookup_def ebind_def)
qed

section \<open>The three searches\<close>

text \<open>The hits of a search: at every position nothing (the null block) or blocks with the hash of the position.\<close>

definition hits_valid :: "block_pool \<Rightarrow> int list \<Rightarrow> bytes list \<Rightarrow> nat list option list \<Rightarrow> bool" where
  "hits_valid p gs hs cs \<longleftrightarrow>
     (\<forall>i < length cs. case cs ! i of None \<Rightarrow> True | Some bs \<Rightarrow> i < length hs \<and> hit_at p gs (hs ! i) bs)"

lemma hits_valid_take: "hits_valid p gs hs cs \<Longrightarrow> hits_valid p gs hs (take n cs)"
  by (simp add: hits_valid_def)

lemma hits_from_left_ok:
  "cache_rel p \<Longrightarrow> groups_ok gs \<Longrightarrow> \<exists>hits. hits_from_left p gs hs = Inr hits \<and> length hits \<le> length hs \<and>
     (\<forall>i < length hits. hit_at p gs (hs ! i) (hits ! i)) \<and>
     (length hits < length hs \<longrightarrow> lookup p gs (hs ! length hits) = Inr None)"
proof (induction hs)
  case (Cons h hs)
  then obtain hits where hits: "hits_from_left p gs hs = Inr hits" "length hits \<le> length hs"
    "\<forall>i < length hits. hit_at p gs (hs ! i) (hits ! i)" "length hits < length hs \<longrightarrow> lookup p gs (hs ! length hits) = Inr None"
    by auto
  obtain found where found: "lookup p gs h = Inr found" "case found of None \<Rightarrow> True | Some bs \<Rightarrow> hit_at p gs h bs"
    using lookup_ok [OF Cons.prems] by blast
  show ?case
  proof (cases found)
    case None
    with found show ?thesis by (simp add: ebind_def)
  next
    case (Some bs)
    with found hits show ?thesis
      by (intro exI [of _ "bs # hits"]) (auto simp: ebind_def less_Suc_eq_0_disj)
  qed
qed simp

lemma window_scan_ok:
  "cache_rel p \<Longrightarrow> groups_ok gs \<Longrightarrow> i \<le> length hs \<Longrightarrow> hits_valid p gs hs cs \<Longrightarrow>
   \<exists>cs' n' found. window_scan p gs hs needed bsize al i cs n = Inr (cs', n', found) \<and> hits_valid p gs hs cs' \<and>
     length cs' \<le> length cs"
proof (induction i arbitrary: cs n)
  case (Suc i)
  obtain found where found: "lookup p gs (hs ! i) = Inr found" "case found of None \<Rightarrow> True | Some bs \<Rightarrow> hit_at p gs (hs ! i) bs"
    using lookup_ok [OF Suc.prems(1,2)] by blast
  show ?case
  proof (cases found)
    case None
    with found Suc.IH [OF Suc.prems(1,2) _ Suc.prems(4)] Suc.prems(3) show ?thesis by (simp add: ebind_def)
  next
    case (Some bs)
    have "hits_valid p gs hs (cs[i := Some bs])"
      unfolding hits_valid_def
    proof (intro allI impI)
      fix j
      assume "j < length (cs[i := Some bs])"
      then show "case cs[i := Some bs] ! j of None \<Rightarrow> True | Some bs \<Rightarrow> j < length hs \<and> hit_at p gs (hs ! j) bs"
        using Suc.prems(3,4) found(2) Some by (cases "j = i") (simp_all add: hits_valid_def)
    qed
    moreover from Suc.IH [OF Suc.prems(1,2) _ this, of "Suc n"] Suc.prems(3)
    have "\<exists>cs' n' found. window_scan p gs hs needed bsize al i (cs[i := Some bs]) (Suc n) = Inr (cs', n', found) \<and>
        hits_valid p gs hs cs' \<and> length cs' \<le> length cs" by simp
    moreover have "\<exists>cs' n' found. window_scan p gs hs needed bsize al i cs n = Inr (cs', n', found) \<and>
        hits_valid p gs hs cs' \<and> length cs' \<le> length cs"
      using Suc.IH [OF Suc.prems(1,2) _ Suc.prems(4)] Suc.prems(3) by simp
    ultimately show ?thesis using found Some Suc.prems(3)
      by (auto simp: ebind_def Let_def hits_valid_take)
  qed
qed (simp, rule exI [of _ False], simp)

lemma hits_at_ok:
  "cache_rel p \<Longrightarrow> groups_ok gs \<Longrightarrow> i + k \<le> length hs \<Longrightarrow>
   \<exists>hits. hits_at p gs hs i k = Inr hits \<and> length hits \<le> k \<and> (\<forall>j < length hits. hit_at p gs (hs ! (i + j)) (hits ! j))"
proof (induction k arbitrary: i)
  case (Suc k)
  from Suc.IH [OF Suc.prems(1,2), of "Suc i"] Suc.prems(3)
  obtain hits where hits: "hits_at p gs hs (Suc i) k = Inr hits" "length hits \<le> k"
    "\<forall>j < length hits. hit_at p gs (hs ! (Suc i + j)) (hits ! j)" by auto
  obtain found where found: "lookup p gs (hs ! i) = Inr found" "case found of None \<Rightarrow> True | Some bs \<Rightarrow> hit_at p gs (hs ! i) bs"
    using lookup_ok [OF Suc.prems(1,2)] by blast
  show ?case
  proof (cases found)
    case None
    with found Suc.prems(3) show ?thesis by (simp add: ebind_def)
  next
    case (Some bs)
    with found hits Suc.prems(3) show ?thesis
      by (intro exI [of _ "bs # hits"]) (auto simp: ebind_def less_Suc_eq_0_disj)
  qed
qed simp

text \<open>The conditions of a search over hashes of blocks of \<open>bsize\<close> tokens.\<close>

fun search_ok :: "attention \<Rightarrow> bool \<Rightarrow> bool \<Rightarrow> bool" where
  "search_ok FullAttention eagle par = True"
| "search_ok (SlidingWindow w) eagle par = (\<not> par)"
| "search_ok (ChunkedLocal c) eagle par = (\<not> eagle \<and> \<not> par \<and> 0 < c)"

lemma find_ok:
  assumes "cache_rel p" "groups_ok gs" "search_ok a eagle par" "0 < bsize" "0 \<le> max_length"
    and len: "max_length div bsize \<le> int (length hs)"
  shows "\<exists>cs. find_longest_cache_hit a par hs max_length gs p bsize eagle bsize = Inr (columns p gs cs) \<and> hits_valid p gs hs cs \<and>
    length cs \<le> nat (max_length div bsize)"
proof (cases a)
  case FullAttention
  let ?hs = "take (nat (max_length div bsize)) hs"
  obtain hits where hits: "hits_from_left p gs ?hs = Inr hits" "length hits \<le> length ?hs"
    "\<forall>i < length hits. hit_at p gs (?hs ! i) (hits ! i)" using hits_from_left_ok [OF assms(1,2), of ?hs] by blast
  then have valid: "hits_valid p gs hs (map Some (take n hits))" for n by (auto simp: hits_valid_def)
  let ?n = "trim_aligned bsize bsize (length hits - of_bool (eagle \<and> hits \<noteq> []))"
  have "find_longest_cache_hit a par hs max_length gs p bsize eagle bsize = Inr (columns p gs (map Some (take ?n hits)))"
    using hits(1) FullAttention assms(4,5)
    by (simp add: find_longest_cache_hit_def full_cache_hit_def Let_def pos_imp_zdiv_neg_iff)
  moreover have "length (map Some (take ?n hits)) \<le> nat (max_length div bsize)"
    using hits(2) unfolding length_map length_take by linarith
  ultimately show ?thesis using valid by blast
next
  case (SlidingWindow w)
  let ?n = "nat (max_length div bsize)"
  have "hits_valid p gs hs (replicate ?n None)" by (simp add: hits_valid_def)
  from window_scan_ok [OF assms(1,2) _ this] len obtain cs n found where
    "window_scan p gs hs (cdiv (w - 1) bsize + of_bool eagle) bsize bsize ?n (replicate ?n None) 0 = Inr (cs, n, found)"
    "hits_valid p gs hs cs" "length cs \<le> ?n" by (metis nat_le_iff length_replicate)
  then have "\<exists>k. window_cache_hit w hs max_length gs p bsize eagle bsize = Inr (take k cs)"
    by (cases found) (auto simp: window_cache_hit_def Let_def ebind_def butlast_conv_take intro: exI [of _ "length cs"])
  then obtain k where "window_cache_hit w hs max_length gs p bsize eagle bsize = Inr (take k cs)" ..
  with SlidingWindow assms(3) have "find_longest_cache_hit a par hs max_length gs p bsize eagle bsize = Inr (columns p gs (take k cs))"
    by (simp add: find_longest_cache_hit_def)
  moreover have "hits_valid p gs hs (take k cs)" by (rule hits_valid_take) fact
  ultimately show ?thesis using \<open>length cs \<le> ?n\<close> by (intro exI [of _ "take k cs"]) simp
next
  case (ChunkedLocal c)
  let ?start = "(if 0 < max_length then max_length div c * c else 0) div bsize" and ?max = "max_length div bsize"
  have "max_length div c * c \<le> max_length" "0 \<le> max_length div c * c"
    using assms(3,5) ChunkedLocal by (auto simp: minus_mod_eq_div_mult [symmetric] zmod_le_nonneg_dividend pos_imp_zdiv_nonneg_iff)
  then have "?start \<le> ?max" "0 \<le> ?start" using assms(4,5) by (auto intro!: zdiv_mono1 simp: pos_imp_zdiv_nonneg_iff)
  then have fits: "nat ?start + nat (?max - ?start) \<le> length hs" using len by linarith
  from hits_at_ok [OF assms(1,2) fits] obtain hits where hits: "hits_at p gs hs (nat ?start) (nat (?max - ?start)) = Inr hits"
    "length hits \<le> nat (?max - ?start)" "\<forall>j < length hits. hit_at p gs (hs ! (nat ?start + j)) (hits ! j)" by blast
  have "hits_valid p gs hs (replicate (nat ?start) None @ map Some hits)"
    unfolding hits_valid_def
  proof (intro allI impI)
    fix i
    assume i: "i < length (replicate (nat ?start) None @ map Some hits)"
    show "case (replicate (nat ?start) None @ map Some hits) ! i of None \<Rightarrow> True
        | Some bs \<Rightarrow> i < length hs \<and> hit_at p gs (hs ! i) bs"
    proof (cases "i < nat ?start")
      case False
      then have "i - nat ?start < length hits" "nat ?start + (i - nat ?start) = i" using i by simp_all
      moreover from this have "hit_at p gs (hs ! i) (hits ! (i - nat ?start))"
        using hits(3) [rule_format, of "i - nat ?start"] by (simp only:)
      moreover have "i < length hs" using calculation(1,2) hits(2) fits by linarith
      ultimately show ?thesis using False by (simp only: nth_append length_replicate if_False nth_map option.case)
    qed (simp add: nth_append)
  qed
  moreover have "find_longest_cache_hit a par hs max_length gs p bsize eagle bsize
      = Inr (columns p gs (replicate (nat ?start) None @ map Some hits))"
    using hits(1) ChunkedLocal assms(3) by (simp add: find_longest_cache_hit_def chunk_cache_hit_def Let_def)
  moreover have "length (replicate (nat ?start) None @ map Some hits) \<le> nat ?max"
    using hits(2) \<open>?start \<le> ?max\<close> \<open>0 \<le> ?start\<close> by simp
  ultimately show ?thesis by blast
qed

section \<open>The hits of a request\<close>

text \<open>Usable hits for one group: every block exists and is the null block or carries a hash, and no block
  but the null block occurs twice.\<close>

definition usable :: "block_pool \<Rightarrow> nat list \<Rightarrow> bool" where
  "usable p bs \<longleftrightarrow> list_all (\<lambda>b. b < num_blocks p) bs \<and> distinct (filter (\<lambda>b. b \<noteq> null_block p) bs) \<and>
     (\<forall>b \<in> set bs. b \<noteq> null_block p \<longrightarrow> block_hash (blocks p ! b) \<noteq> None)"

lemma distinct_filter_conv: "distinct (filter P bs) \<longleftrightarrow>
    (\<forall>i < length bs. \<forall>j < length bs. i \<noteq> j \<longrightarrow> P (bs ! i) \<longrightarrow> bs ! i \<noteq> bs ! j)"
proof (induction bs)
  case (Cons x bs)
  have "(\<forall>b \<in> set bs. Q b) \<longleftrightarrow> (\<forall>j < length bs. Q (bs ! j))" for Q by (metis in_set_conv_nth)
  from this [of "\<lambda>b. P b \<longrightarrow> b \<noteq> x"] show ?case unfolding length_Cons All_less_Suc2 by (auto simp: Cons.IH)
qed simp

lemma same_key: "make_block_hash_with_group_id h g = Inr key \<Longrightarrow> make_block_hash_with_group_id h' g = Inr key \<Longrightarrow> h = h'"
  by (auto simp: make_block_hash_with_group_id_def split: if_splits)

lemma column_usable:
  assumes valid: "hits_valid p gs hs cs" and d: "distinct hs" and g: "g < length gs" and null: "null_block p < num_blocks p"
  shows "usable p (columns p gs cs ! g)"
proof -
  let ?col = "columns p gs cs ! g"
  have len: "length ?col = length cs" using g by (simp add: columns_def)
  have at: "?col ! i = null_block p \<or> (\<exists>bs. cs ! i = Some bs \<and> ?col ! i = bs ! g \<and> i < length hs \<and> hit_at p gs (hs ! i) bs)"
    if "i < length cs" for i
    using valid g that by (cases "cs ! i") (auto simp: columns_def hits_valid_def)
  have "b < num_blocks p \<and> (b \<noteq> null_block p \<longrightarrow> block_hash (blocks p ! b) \<noteq> None)" if b: "b \<in> set ?col" for b
  proof -
    from b len obtain i where "i < length cs" "b = ?col ! i" by (auto simp: in_set_conv_nth)
    with at [of i] null g show ?thesis by (auto simp: hit_at_def)
  qed
  moreover have "?col ! i \<noteq> ?col ! j" if ij: "i < length cs" "j < length cs" "i \<noteq> j" "?col ! i \<noteq> null_block p" for i j
  proof
    assume eq: "?col ! i = ?col ! j"
    then have "?col ! j \<noteq> null_block p" using ij(4) by simp
    with at [OF ij(1)] at [OF ij(2)] ij(4) obtain bs bs' where
      "?col ! i = bs ! g" "i < length hs" "hit_at p gs (hs ! i) bs" "?col ! j = bs' ! g" "j < length hs" "hit_at p gs (hs ! j) bs'"
      by blast
    moreover from this obtain key key' where "make_block_hash_with_group_id (hs ! i) (gs ! g) = Inr key"
      "block_hash (blocks p ! (bs ! g)) = Some key" "make_block_hash_with_group_id (hs ! j) (gs ! g) = Inr key'"
      "block_hash (blocks p ! (bs' ! g)) = Some key'" using g unfolding hit_at_def by blast
    ultimately have "hs ! i = hs ! j" using eq same_key by (metis option.inject)
    with d \<open>i < length hs\<close> \<open>j < length hs\<close> ij(3) show False by (simp add: nth_eq_iff_index_eq)
  qed
  then have "distinct (filter (\<lambda>b. b \<noteq> null_block p) ?col)" unfolding distinct_filter_conv len by blast
  ultimately show ?thesis by (simp add: usable_def list_all_iff)
qed

end
