(* ===== verification/CacheRun.thy ===== *)
theory CacheRun
  imports CacheProps CacheHits
begin

text \<open>
  The reachable states of the cache manager, and its properties: reference counts are references,
  allocations do not raise, and the hits found for a new request can be handed to the allocation.
\<close>

declare map_of_eq_Some_iff [simp del]

section \<open>Reachable states\<close>

definition specs_ok :: "kv_cache_spec list \<Rightarrow> bool" where
  "specs_ok specs \<longleftrightarrow> int (length specs) \<le> 2 ^ 32 \<and> list_all (\<lambda>s. 0 < spec_block_size s \<and> attention_ok (attention_type s)) specs"

inductive kv_step :: "kv_manager \<Rightarrow> kv_manager \<Rightarrow> bool" where
  allocate: "slots_request r num_new num_new_computed hits lookahead k \<Longrightarrow>
    kv_step k (snd (allocate_slots r num_new num_new_computed hits lookahead 0 delay k))"
| free: "kv_step k (snd (free_slots r k))"
| skip: "kv_step k (snd (remove_skipped rid n k))"
| commit: "\<forall>m \<in> set (managers k). cache_pre r n m (pool k) \<Longrightarrow> kv_step k (snd (commit_blocks r n k))"
| evict: "kv_step k (snd (evict_kv_blocks bs k))"
| reset: "kv_step k (snd (reset_cache k))"
| events: "kv_step k (snd (take_kv_events k))"
| new_ids: "kv_step k (snd (take_all_new_block_ids k))"

inductive kv_reachable :: "kv_manager \<Rightarrow> bool" where
  init: "kv_manager_init nb specs max_len hash_size caching eagle events use_int dcp pcp = Inr k \<Longrightarrow>
    specs_ok specs \<Longrightarrow> 0 < hash_size \<Longrightarrow> 0 < dcp \<Longrightarrow> 0 < pcp \<Longrightarrow> kv_reachable k"
| step: "kv_reachable k \<Longrightarrow> kv_step k k' \<Longrightarrow> kv_reachable k'"

section \<open>Operations on the pool alone\<close>

definition pool_change :: "block_pool \<Rightarrow> block_pool \<Rightarrow> bool" where
  "pool_change p p' \<longleftrightarrow> same_counts p p' \<and> cache_rel p' \<and>
     (\<forall>b < num_blocks p. block_hash (blocks p ! b) = None \<longrightarrow> block_hash (blocks p' ! b) = None)"

lemma pool_change_ok:
  assumes inv: "managers_inv R ms p" and ch: "pool_change p p'"
  shows "managers_inv R ms p'"
proof -
  from ch have c: "same_counts p p'" "cache_rel p'"
    "\<And>b. b < num_blocks p \<Longrightarrow> block_hash (blocks p ! b) = None \<Longrightarrow> block_hash (blocks p' ! b) = None"
    by (simp_all add: pool_change_def)
  then have eq: "same_setup p p'" and counts: "\<And>b. b < num_blocks p \<Longrightarrow> ref_cnt (blocks p' ! b) = ref_cnt (blocks p ! b)"
    by (simp_all add: same_counts_def)
  have "tail_ok p' m" if "m \<in> set ms" for m
  proof (rule tail_ok_frame [OF _ _ eq])
    show "tail_ok p m" "manager_ok p m" using inv that by (simp_all add: managers_inv_def)
  qed (use counts c(3) in metis)
  moreover have "manager_ok p' m" if "m \<in> set ms" for m
    using inv that manager_ok_setup [OF _ eq] by (simp add: managers_inv_def)
  moreover obtain fl where "free_rel p fl" "0 < hash_block_size p" using inv by (auto simp: managers_inv_def pool_ok_def)
  then have "pool_ok p'" using c(2) eq free_rel_frame [OF _ c(1)] by (auto simp: pool_ok_def)
  ultimately show ?thesis using inv eq counts by (simp add: managers_inv_def)
qed

lemma evict_pool_change: "cache_rel p \<Longrightarrow> pool_change p (snd (evict_blocks bs p))"
proof (induction bs arbitrary: p)
  case (Cons b bs)
  show ?case
  proof (cases "num_blocks p \<le> b")
    case False
    let ?p1 = "snd (maybe_evict_cached_block b p)"
    from evict_spec [OF Cons.prems, of b] False have one: "cache_rel ?p1" "same_counts p ?p1"
      "\<forall>c < num_blocks p. block_hash (blocks ?p1 ! c) = (if c = b then None else block_hash (blocks p ! c))" by simp_all
    from Cons.IH [OF one(1)] one(2,3) False show ?thesis
      by (auto simp: pool_change_def same_counts_def)
  qed (use Cons.prems in \<open>simp add: pool_change_def\<close>)
qed (simp add: pool_change_def)

lemma reset_pool_change: "cache_rel p \<Longrightarrow> pool_change p (snd (reset_prefix_cache p))"
  by (auto simp: reset_prefix_cache_def pool_change_def same_counts_def cache_rel_def)

lemma events_pool_change: "cache_rel p \<Longrightarrow> pool_change p (snd (take_events p))"
  by (auto simp: take_events_def pool_change_def same_counts_def cache_rel_def)

lemma pool_step_kv_ok:
  assumes "kv_ok k" "pool_change (pool k) p'"
  shows "kv_ok (k\<lparr>pool := p'\<rparr>) \<and> same_shape k (k\<lparr>pool := p'\<rparr>)"
  using assms pool_change_ok [of "\<lambda>_. 0" "managers k" "pool k" p']
  by (simp add: kv_ok_def same_shape_def pool_change_def same_counts_def)

section \<open>All steps\<close>

lemma coordinate_ok:
  assumes ok: "kv_ok k" and res: "managers_do f xs (managers k) (pool k) = (res, ms, p)"
    and inv: "managers_inv (\<lambda>_. 0) ms p" and eq: "same_setup (pool k) p" and len: "length ms = length (managers k)"
    and same: "\<And>i. i < length (managers k) \<Longrightarrow> same_manager (managers k ! i) (ms ! i)"
  shows "kv_ok (snd (coordinate f xs k)) \<and> same_shape k (snd (coordinate f xs k))"
proof -
  have "\<forall>m \<in> set ms. attention_ok (attention_type (kv_spec m))"
    using ok same by (intro attention_transfer [OF _ len]) (simp_all add: kv_ok_def)
  then show ?thesis using res inv eq len same by (simp add: coordinate_def kv_ok_def same_shape_def)
qed

lemma free_slots_ok:
  assumes "kv_ok k"
  shows "kv_ok (snd (free_slots r k)) \<and> same_shape k (snd (free_slots r k)) \<and>
    (\<forall>i < length (managers k). req_blocks (managers (snd (free_slots r k)) ! i) (request_id r) = [])"
proof -
  have inv: "managers_inv (\<lambda>_. 0) (managers k) (pool k)" using assms by (simp add: kv_ok_def)
  obtain ys ms p where res: "managers_do (\<lambda>_. free_request (request_id r)) (each k) (managers k) (pool k) = (Inr ys, ms, p)"
    "managers_inv (\<lambda>_. 0) ms p" "same_setup (pool k) p" "length ms = length (managers k)"
    "\<forall>i < length (managers k). same_manager (managers k ! i) (ms ! i) \<and> req_blocks (ms ! i) (request_id r) = [] \<and>
       (\<forall>r'. r' \<noteq> request_id r \<longrightarrow> req_blocks (ms ! i) r' = req_blocks (managers k ! i) r')"
    using freeing_all.managers_do_ok [OF inv units, of "request_id r"] free_nonneg [OF inv]
    by (auto simp: undisturbed_def each_def)
  with coordinate_ok [OF assms res(1-4)] show ?thesis by (simp add: free_slots_def coordinate_def)
qed

lemma remove_skipped_kv_ok:
  assumes "kv_ok k"
  shows "kv_ok (snd (remove_skipped rid n k)) \<and> same_shape k (snd (remove_skipped rid n k))"
proof -
  have inv: "managers_inv (\<lambda>_. 0) (managers k) (pool k)" using assms by (simp add: kv_ok_def)
  from stage_skip [OF inv, of rid n] obtain ys ms p where
    "managers_do (\<lambda>_. remove_skipped_blocks rid n) (each k) (managers k) (pool k) = (Inr ys, ms, p)"
    "managers_inv (\<lambda>_. 0) ms p" "same_setup (pool k) p" "length ms = length (managers k)"
    "\<And>i. i < length (managers k) \<Longrightarrow> same_manager (managers k ! i) (ms ! i)" unfolding each_def by blast
  from coordinate_ok [OF assms this] show ?thesis by (simp add: remove_skipped_def)
qed

lemma commit_ok:
  assumes "kv_ok k" "\<forall>m \<in> set (managers k). cache_pre r n m (pool k)"
  shows "kv_ok (snd (commit_blocks r n k)) \<and> same_shape k (snd (commit_blocks r n k))"
proof -
  have inv: "managers_inv (\<lambda>_. 0) (managers k) (pool k)" using assms(1) by (simp add: kv_ok_def)
  from stage_cache [OF inv assms(2)] obtain ys ms p where
    "managers_do (\<lambda>_. cache_blocks r n) (each k) (managers k) (pool k) = (Inr ys, ms, p)"
    "managers_inv (\<lambda>_. 0) ms p" "same_setup (pool k) p" "length ms = length (managers k)"
    "\<And>i. i < length (managers k) \<Longrightarrow> same_manager (managers k ! i) (ms ! i)" unfolding each_def by blast
  from coordinate_ok [OF assms(1) this] assms(1) show ?thesis
    by (simp add: commit_blocks_def same_shape_def)
qed

lemma new_ids_ok:
  assumes "kv_ok k"
  shows "kv_ok (snd (take_all_new_block_ids k)) \<and> same_shape k (snd (take_all_new_block_ids k))"
proof -
  let ?f = "\<lambda>m. m\<lparr>new_block_ids := []\<rparr>"
  have "all_refs (map ?f ms) b = all_refs ms b" for ms b by (induction ms) simp_all
  moreover have "manager_ok p (?f m) = manager_ok p m" "tail_ok p (?f m) = tail_ok p m" for p m
    by (simp_all add: manager_ok_def tail_ok_def)
  moreover have "snd \<circ> take_new_block_ids = ?f" by (auto simp: take_new_block_ids_def)
  ultimately show ?thesis
    using assms by (simp add: take_all_new_block_ids_def kv_ok_def managers_inv_def same_shape_def same_manager_def)
qed

lemma kv_step_ok:
  assumes "kv_step k k'" "kv_ok k"
  shows "kv_ok k' \<and> same_shape k k'"
  using assms(1)
proof cases
  case (allocate r num_new num_new_computed hits lookahead delay)
  then show ?thesis using allocate_slots_ok [OF assms(2) allocate(2) refl refl, of delay] by auto
next
  case (evict bs)
  have "cache_rel (pool k)" using assms(2) by (simp add: kv_ok_def managers_inv_def pool_ok_def)
  from pool_step_kv_ok [OF assms(2) evict_pool_change [OF this, of bs]] evict show ?thesis
    by (simp add: evict_kv_blocks_def map_prod_def split_beta)
next
  case reset
  have "cache_rel (pool k)" using assms(2) by (simp add: kv_ok_def managers_inv_def pool_ok_def)
  from pool_step_kv_ok [OF assms(2) reset_pool_change [OF this]] reset show ?thesis
    by (simp add: reset_cache_def map_prod_def split_beta)
next
  case events
  have "cache_rel (pool k)" using assms(2) by (simp add: kv_ok_def managers_inv_def pool_ok_def)
  from pool_step_kv_ok [OF assms(2) events_pool_change [OF this]] events show ?thesis
    by (simp add: take_kv_events_def map_prod_def split_beta)
qed (use assms(2) free_slots_ok remove_skipped_kv_ok commit_ok new_ids_ok in blast)+

lemma table_empty: "refs (manager_init spec d c g) b = 0" "req_blocks (manager_init spec d c g) rid = []"
  "cached_count (manager_init spec d c g) rid = 0"
  by (simp_all add: manager_init_def refs_def req_blocks_def cached_count_def)

lemma kv_init_ok:
  assumes init: "kv_manager_init nb specs max_len hash_size caching eagle events use_int dcp pcp = Inr k"
    and "specs_ok specs" "0 < hash_size" "0 < dcp" "0 < pcp"
  shows "kv_ok k"
proof -
  obtain p c where p: "pool_init nb caching hash_size events use_int = Inr p"
    and k: "k = \<lparr>pool = p, managers = map (\<lambda>(i, spec). manager_init spec dcp pcp (int i)) (List.enumerate 0 specs),
              coordinator_kind = c, max_model_len = max_len, use_eagle = eagle,
              context_parallel = (dcp \<noteq> 1 \<or> pcp \<noteq> 1)\<rparr>"
    using init by (auto simp: kv_manager_init_def ebind_def split: sum.splits)
  from pool_init_spec [OF p] have pool: "free_rel p [1..<nat nb]" "cache_rel p" "num_blocks p = nat nb" by simp_all
  then have "ref_cnt (blocks p ! b) = 0" if "b < num_blocks p" "b \<noteq> null_block p" for b
    using that by (cases b) (auto simp: free_rel_def)
  moreover have "hash_block_size p = hash_size"
    using p by (auto simp: pool_init_def Let_def upd_block_def split: if_splits sum.splits prod.splits)
  then have "pool_ok p" using pool assms(3) by (auto simp: pool_ok_def)
  moreover have m: "\<exists>i < length specs. m = manager_init (specs ! i) dcp pcp (int i)" if "m \<in> set (managers k)" for m
    using that by (auto simp: k in_set_enumerate_eq)
  have "manager_ok p m \<and> tail_ok p m \<and> attention_ok (attention_type (kv_spec m))" if mem: "m \<in> set (managers k)" for m
  proof -
    obtain i where i: "i < length specs" "m = manager_init (specs ! i) dcp pcp (int i)" using m [OF mem] by blast
    with assms(2) have "0 < spec_block_size (specs ! i)" "attention_ok (attention_type (specs ! i))" "int i < 2 ^ 32"
      by (auto simp: specs_ok_def list_all_length)
    moreover have "0 < dcp * pcp" using assms(4,5) by simp
    ultimately show ?thesis
      using i(2) table_empty by (simp add: manager_ok_def tail_ok_def) (simp add: manager_init_def)
  qed
  moreover have "all_refs (managers k) b = 0" for b
  proof -
    have "refs m b = 0" if "m \<in> set (managers k)" for m using m [OF that] by (auto simp: table_empty(1))
    then show ?thesis by (simp add: all_refs_def)
  qed
  ultimately show ?thesis by (simp add: kv_ok_def managers_inv_def k)
qed

lemma kv_reachable_ok: "kv_reachable k \<Longrightarrow> kv_ok k"
proof (induction rule: kv_reachable.induct)
  case (step k k')
  then show ?case using kv_step_ok by blast
qed (use kv_init_ok in blast)

section \<open>A coordinator of one group\<close>

definition unitary_ok :: "kv_manager \<Rightarrow> bool" where
  "unitary_ok k \<longleftrightarrow> (coordinator_kind k = Unitary \<longrightarrow> enable_caching (pool k) \<and>
     (\<exists>m. managers k = [m] \<and> block_size m = hash_block_size (pool k) \<and> kv_cache_group_id m = 0))"

lemma unitary_shape: "unitary_ok k \<Longrightarrow> same_shape k k' \<Longrightarrow> unitary_ok k'"
  by (auto simp: unitary_ok_def same_shape_def same_manager_def length_Suc_conv)

lemma unitary_init:
  assumes init: "kv_manager_init nb specs max_len hash_size caching eagle events use_int dcp pcp = Inr k"
    and "0 < dcp" "0 < pcp"
  shows "unitary_ok k"
proof -
  obtain p c where p: "pool_init nb caching hash_size events use_int = Inr p"
    and c: "get_kv_cache_coordinator caching hash_size specs dcp pcp = Inr c"
    and k: "k = \<lparr>pool = p, managers = map (\<lambda>(i, spec). manager_init spec dcp pcp (int i)) (List.enumerate 0 specs),
              coordinator_kind = c, max_model_len = max_len, use_eagle = eagle,
              context_parallel = (dcp \<noteq> 1 \<or> pcp \<noteq> 1)\<rparr>"
    using init by (auto simp: kv_manager_init_def ebind_def split: sum.splits)
  have "hash_block_size p = hash_size" "enable_caching p = caching"
    using p by (auto simp: pool_init_def Let_def upd_block_def split: if_splits sum.splits prod.splits)
  moreover have "caching \<and> length specs = 1 \<and> hash_size = block_size (manager_init (hd specs) dcp pcp 0)" if "c = Unitary"
  proof -
    have "1 < dcp * pcp \<longleftrightarrow> 1 < dcp \<or> 1 < pcp" using assms(2,3)
      by (metis less_1_mult linorder_neqE_linordered_idom mult.left_neutral mult.right_neutral not_less order_less_le zero_less_mult_iff int_one_le_iff_zero_less)
    with c that assms(2,3) show ?thesis
      by (auto simp: get_kv_cache_coordinator_def verify_and_split_kv_cache_groups_def manager_init_def Let_def split: if_splits)
  qed
  ultimately show ?thesis by (auto simp: unitary_ok_def k length_Suc_conv) (simp add: manager_init_def)
qed

lemma kv_reachable_unitary: "kv_reachable k \<Longrightarrow> unitary_ok k"
proof (induction rule: kv_reachable.induct)
  case (step k k')
  then show ?case using kv_step_ok kv_reachable_ok unitary_shape by blast
qed (use unitary_init in blast)

text \<open>The hits found for a new request are what \<open>allocate_slots\<close> accepts.\<close>

lemma new_request_hits:
  assumes reach: "kv_reachable k" and unit: "coordinator_kind k = Unitary"
    and search: "search_ok (attention_type (kv_spec (hd (managers k)))) (use_eagle k) (context_parallel k)"
    and new: "\<forall>m \<in> set (managers k). map_of (num_cached_block m) (request_id r) = None \<and> req_blocks m (request_id r) = []"
      "num_computed_tokens r = 0"
    and r: "0 < num_tokens r" "num_tokens r \<le> max_model_len k" "distinct (block_hashes r)"
      "int (length (block_hashes r)) = num_tokens r div hash_block_size (pool k)"
    and call: "0 < num_new" "0 \<le> lookahead"
  shows "\<exists>hits n. get_computed_blocks r k = Some (Inr (hits, n)) \<and> 0 \<le> n \<and> n < num_tokens r \<and>
    slots_request r num_new n hits lookahead k \<and>
    (\<forall>bs. hits = Some [bs] \<longrightarrow> (\<forall>i < length bs. bs ! i = null_block (pool k) \<or>
      (\<exists>key. make_block_hash_with_group_id (block_hashes r ! i) 0 = Inr key \<and> block_hash (blocks (pool k) ! (bs ! i)) = Some key)))"
proof -
  obtain m where m: "managers k = [m]" "block_size m = hash_block_size (pool k)" "kv_cache_group_id m = 0"
    "enable_caching (pool k)" using kv_reachable_unitary [OF reach] unit by (auto simp: unitary_ok_def)
  have pool: "cache_rel (pool k)" "0 < hash_block_size (pool k)" "null_block (pool k) < num_blocks (pool k)"
    using kv_reachable_ok [OF reach] by (auto simp: kv_ok_def managers_inv_def pool_ok_def free_rel_def)
  let ?h = "hash_block_size (pool k)"
  have none: "slots_request r num_new 0 None lookahead k"
    using new r call m pool by (simp add: slots_request_def)
  show ?thesis
  proof (cases "skip_reading_prefix_cache r")
    case True
    with none r(1) show ?thesis by (intro exI [of _ None] exI [of _ 0]) (simp add: get_computed_blocks_def)
  next
    case False
    let ?max = "num_tokens r - 1"
    have "?max div ?h \<le> num_tokens r div ?h" using pool(2) by (intro zdiv_mono1) simp_all
    then have "?max div ?h \<le> int (length (block_hashes r))" using r(4) by simp
    moreover have "groups_ok [0]" by (simp add: groups_ok_def)
    ultimately obtain cs where cs: "find_longest_cache_hit (attention_type (kv_spec m)) (context_parallel k) (block_hashes r) ?max [0] (pool k)
        ?h (use_eagle k) ?h = Inr (columns (pool k) [0] cs)" "hits_valid (pool k) [0] (block_hashes r) cs" "length cs \<le> nat (?max div ?h)"
      using find_ok [OF pool(1), of "[0]" "attention_type (kv_spec m)" "use_eagle k" "context_parallel k" ?h ?max "block_hashes r"]
        search m(1) pool(2) r(1) by auto
    define bs where "bs = columns (pool k) [0] cs ! 0"
    have col: "columns (pool k) [0] cs = [bs]" "length bs = length cs" by (simp_all add: bs_def columns_def)
    have hit: "longest_hit k (block_hashes r) ?max = Some (Inr ([bs], int (length cs) * ?h))"
      using unit m(1,2) cs(1) by (simp add: longest_hit_def col)
    then have get: "get_computed_blocks r k = Some (Inr (create_kv_cache_blocks [bs], int (length cs) * ?h))"
      using False m(4) by (simp add: get_computed_blocks_def)
    have "0 \<le> ?max div ?h" using pool(2) r(1) by (simp add: pos_imp_zdiv_nonneg_iff)
    then have "int (length cs) * ?h \<le> (?max div ?h) * ?h" using cs(3) pool(2) by (intro mult_right_mono) linarith+
    also have "\<dots> \<le> ?max" using pos_mod_sign [OF pool(2), of ?max] minus_mod_eq_div_mult [of ?max ?h] by linarith
    finally have "int (length cs) * ?h \<le> ?max" .
    then have n: "int (length cs) * ?h < num_tokens r" by linarith
    have use: "usable (pool k) bs" unfolding bs_def by (rule column_usable [OF cs(2) r(3) _ pool(3)]) simp
    have "slots_request r num_new (int (length cs) * ?h) (create_kv_cache_blocks [bs]) lookahead k"
    proof (cases "bs = []")
      case True
      then have "length cs = 0" using col(2) by simp
      with True none show ?thesis by (simp add: create_kv_cache_blocks_def)
    next
      case False
      then have "create_kv_cache_blocks [bs] = Some [bs]" by (simp add: create_kv_cache_blocks_def)
      moreover have "computed_pre (request_id r) bs m (pool k)"
        using new(1) m(1,4) use by (simp add: computed_pre_def usable_def)
      ultimately show ?thesis using none m(1) pool(2) by (simp add: slots_request_def)
    qed
    moreover have "bs ! i = null_block (pool k) \<or> (\<exists>key. make_block_hash_with_group_id (block_hashes r ! i) 0 = Inr key \<and>
        block_hash (blocks (pool k) ! (bs ! i)) = Some key)" if "i < length bs" for i
    proof (cases "cs ! i")
      case (Some a)
      have "case cs ! i of None \<Rightarrow> True | Some a \<Rightarrow> i < length (block_hashes r) \<and> hit_at (pool k) [0] (block_hashes r ! i) a"
        using cs(2) that col(2) by (simp add: hits_valid_def)
      with Some have "hit_at (pool k) [0] (block_hashes r ! i) a" by simp
      moreover have "bs ! i = a ! 0" using Some that col(2) by (simp add: bs_def columns_def)
      ultimately show ?thesis by (simp add: hit_at_def)
    qed (use that col(2) in \<open>simp add: bs_def columns_def\<close>)
    moreover have "create_kv_cache_blocks [bs] = Some [bs'] \<Longrightarrow> bs' = bs" for bs'
      by (simp add: create_kv_cache_blocks_def split: if_splits)
    ultimately show ?thesis using get n pool(2) by (intro exI [of _ "create_kv_cache_blocks [bs]"] exI [of _ "int (length cs) * ?h"]) auto
  qed
qed

section \<open>A small manager\<close>

definition demo_spec :: "string \<Rightarrow> kv_cache_spec" where
  "demo_spec details = \<lparr>attention_type = FullAttention, plain_full = True, spec_block_size = 2, spec_details = details\<rparr>"

definition demo_request :: "string \<Rightarrow> int list \<Rightarrow> bytes list \<Rightarrow> cache_request" where
  "demo_request rid toks hs = \<lparr>all_token_ids = toks, block_hashes = hs, mm_features = [], lora_request = None,
     cache_salt = None, embeds_digest = None, request_id = rid, num_computed_tokens = 0, skip_reading_prefix_cache = False\<rparr>"

definition demo_start :: kv_manager where
  "demo_start = (case kv_manager_init 6 [demo_spec []] 100 2 True False False False 1 1 of Inr k \<Rightarrow> k)"

abbreviation first_request :: cache_request where
  "first_request \<equiv> demo_request ''a'' [7, 8, 9, 1] [[1], [2]]"

definition demo_kv :: kv_manager where
  "demo_kv = snd (allocate_slots first_request 4 0 None 0 0 False demo_start)"

lemma demo_start_reachable: "kv_reachable demo_start"
proof -
  obtain p where "pool_init 6 True 2 False False = Inr p"
    by (simp add: pool_init_def fq_init_def link_def popleft_def upt_rec Let_def)
  then have "\<exists>k. kv_manager_init 6 [demo_spec []] 100 2 True False False False 1 1 = Inr k"
    by (simp add: kv_manager_init_def get_kv_cache_coordinator_def demo_spec_def ebind_def)
  then obtain k where k: "kv_manager_init 6 [demo_spec []] 100 2 True False False False 1 1 = Inr k" by blast
  have "specs_ok [demo_spec []]" by (simp add: specs_ok_def demo_spec_def)
  with kv_reachable.init [OF k] have "kv_reachable k" by simp
  with k show ?thesis by (simp add: demo_start_def)
qed

lemma demo_call: "slots_request first_request 4 0 None 0 demo_start"
  by code_simp

lemma demo_kv_reachable: "kv_reachable demo_kv"
  unfolding demo_kv_def
  by (rule kv_reachable.step [OF demo_start_reachable kv_step.allocate [OF demo_call]])

lemma demo_kv_values: "num_blocks (pool demo_kv) = 6 \<and> null_block (pool demo_kv) = 0 \<and>
    coordinator_kind demo_kv = Unitary \<and> max_model_len demo_kv = 100 \<and> hash_block_size (pool demo_kv) = 2 \<and>
    map (\<lambda>m. req_to_blocks m) (managers demo_kv) = [[(''a'', [1, 2])]]"
  by code_simp

section \<open>Properties\<close>

text \<open>C11: In every state the cache manager can reach - after any allocations, frees, evictions, resets and
  commits, for any mix of attention types - the reference count of every block is the number of its
  occurrences in the block tables of all requests. The free queue lists exactly the blocks that occur in
  no table, so no block in use is handed out and none is lost; no table refers to a block outside the
  pool, and none lists a block but the null block twice.\<close>

theorem reference_counts_are_references:
  assumes "kv_reachable k"
  shows "(\<forall>b < num_blocks (pool k). b \<noteq> null_block (pool k) \<longrightarrow>
       ref_cnt (blocks (pool k) ! b) = int (\<Sum>m \<leftarrow> managers k. count_list (concat (map snd (req_to_blocks m))) b)) \<and>
     (\<exists>fl. get_all_free_blocks (free_block_queue (pool k)) = Inr (Some (map Blk fl)) \<and> distinct fl \<and>
       set fl = {b. b < num_blocks (pool k) \<and> b \<noteq> null_block (pool k) \<and>
         (\<forall>m \<in> set (managers k). \<forall>rid. b \<notin> set (req_blocks m rid))}) \<and>
     (\<forall>m \<in> set (managers k). \<forall>rid. (\<forall>b \<in> set (req_blocks m rid). b < num_blocks (pool k)) \<and>
       distinct (filter (\<lambda>b. b \<noteq> null_block (pool k)) (req_blocks m rid)))"
proof (intro conjI)
  from kv_reachable_ok [OF assms] have inv: "managers_inv (\<lambda>_. 0) (managers k) (pool k)" by (simp add: kv_ok_def)
  then have counts: "\<And>b. b < num_blocks (pool k) \<Longrightarrow> b \<noteq> null_block (pool k) \<Longrightarrow>
      ref_cnt (blocks (pool k) ! b) = int (all_refs (managers k) b)"
    and ok: "\<And>m. m \<in> set (managers k) \<Longrightarrow> manager_ok (pool k) m" by (simp_all add: managers_inv_def)
  then show "\<forall>b < num_blocks (pool k). b \<noteq> null_block (pool k) \<longrightarrow>
      ref_cnt (blocks (pool k) ! b) = int (\<Sum>m \<leftarrow> managers k. count_list (concat (map snd (req_to_blocks m))) b)"
    by (simp add: all_refs_def refs_def)
  obtain fl where fl: "free_rel (pool k) fl" using inv by (auto simp: managers_inv_def pool_ok_def)
  have "all_refs (managers k) b = 0 \<longleftrightarrow> (\<forall>m \<in> set (managers k). \<forall>rid. b \<notin> set (req_blocks m rid))" for b
  proof -
    have "refs m b = 0 \<longleftrightarrow> (\<forall>rid. b \<notin> set (req_blocks m rid))" if "m \<in> set (managers k)" for m
      using refs_in_table [of m b] ok [OF that] by (simp add: manager_ok_def)
    then show ?thesis by (simp add: all_refs_def)
  qed
  with fl counts show "\<exists>fl. get_all_free_blocks (free_block_queue (pool k)) = Inr (Some (map Blk fl)) \<and> distinct fl \<and>
       set fl = {b. b < num_blocks (pool k) \<and> b \<noteq> null_block (pool k) \<and>
         (\<forall>m \<in> set (managers k). \<forall>rid. b \<notin> set (req_blocks m rid))}"
    by (intro exI [of _ fl]) (auto simp: free_rel_def get_all_refines)
  show "\<forall>m \<in> set (managers k). \<forall>rid. (\<forall>b \<in> set (req_blocks m rid). b < num_blocks (pool k)) \<and>
       distinct (filter (\<lambda>b. b \<noteq> null_block (pool k)) (req_blocks m rid))"
    using ok by (auto simp: manager_ok_def list_all_iff)
qed

theorem reference_counts_are_references_witness:
  "ref_cnt (blocks (pool demo_kv) ! 2) = int (\<Sum>m \<leftarrow> managers demo_kv. count_list (concat (map snd (req_to_blocks m))) 2)"
  using reference_counts_are_references [OF demo_kv_reachable] demo_kv_values by simp

text \<open>C12: An allocation does not fail half-way. In every reachable state, a call of \<open>allocate_slots\<close> as the
  scheduler makes it, without tokens from an external cache, raises no error: either it reports that not
  enough blocks are free, by the count of \<open>get_num_blocks_to_allocate\<close>, or in every manager the request's
  table then covers all tokens that need a slot and ends with the new blocks. The tables of all other
  requests stay as they are.\<close>

theorem allocate_slots_total:
  assumes "kv_reachable k" "slots_request r num_new num_new_computed hits lookahead k"
    and "computed = min (num_computed_tokens r + num_new_computed) (max_model_len k)"
    and "need_slot = min (computed + num_new + lookahead) (max_model_len k)"
  shows "\<exists>res k'. allocate_slots r num_new num_new_computed hits lookahead 0 delay k = (Inr res, k') \<and>
     (\<forall>i < length (managers k). \<forall>rid. rid \<noteq> request_id r \<longrightarrow>
        req_blocks (managers k' ! i) rid = req_blocks (managers k ! i) rid) \<and>
     (case res of
        None \<Rightarrow> \<exists>needed. sum_blocks_to_allocate (request_id r) need_slot (num_computed_tokens r + num_new_computed)
                  (block_lists k hits) (managers k') (pool k') = Inr needed \<and> get_num_free_blocks (pool k') < needed
      | Some new \<Rightarrow> \<forall>i < length (managers k).
          need_slot \<le> block_size (managers k ! i) * int (length (req_blocks (managers k' ! i) (request_id r))) \<and>
          (\<exists>old. req_blocks (managers k' ! i) (request_id r) = old @ new ! i))"
proof -
  obtain res k' where "allocate_slots r num_new num_new_computed hits lookahead 0 delay k = (Inr res, k')"
    and "allocation_result r need_slot (num_computed_tokens r + num_new_computed) hits k res k'"
    using allocate_slots_ok [OF kv_reachable_ok [OF assms(1)] assms(2-4), of delay] by blast
  then show ?thesis by (intro exI [of _ res] exI [of _ k']) (auto simp: allocation_result_def split: option.splits)
qed

theorem allocate_slots_total_witness:
  "\<exists>k'. allocate_slots first_request 4 0 None 0 0 False demo_start = (Inr (Some [[1, 2]]), k') \<and>
     4 \<le> block_size (managers demo_start ! 0) * int (length (req_blocks (managers k' ! 0) ''a''))"
proof -
  have vals: "fst (allocate_slots first_request 4 0 None 0 0 False demo_start) = Inr (Some [[1, 2]])"
    "length (managers demo_start) = 1" "request_id first_request = ''a''"
    "min (min (num_computed_tokens first_request + 0) (max_model_len demo_start) + 4 + 0) (max_model_len demo_start) = 4"
    by code_simp+
  from allocate_slots_total [OF demo_start_reachable demo_call refl refl, of False] obtain res k' where
    "allocate_slots first_request 4 0 None 0 0 False demo_start = (Inr res, k')"
    "case res of None \<Rightarrow> True | Some new \<Rightarrow> \<forall>i < length (managers demo_start).
       4 \<le> block_size (managers demo_start ! i) * int (length (req_blocks (managers k' ! i) ''a''))"
    unfolding vals by (fastforce split: option.splits)
  with vals show ?thesis by simp
qed

text \<open>C30: A new request can always be served from the cache. In every reachable state of a manager with one
  group, for a request without blocks whose block hashes are distinct and complete, looking up the cached
  prefix raises no error, leaves at least one token to compute, and finds blocks that carry the hashes of
  their positions; and allocating slots on top of these blocks raises no error either.\<close>

theorem new_request_served:
  assumes "kv_reachable k" "coordinator_kind k = Unitary"
    and "search_ok (attention_type (kv_spec (hd (managers k)))) (use_eagle k) (context_parallel k)"
    and "\<forall>m \<in> set (managers k). map_of (num_cached_block m) (request_id r) = None \<and> req_blocks m (request_id r) = []"
    and "num_computed_tokens r = 0" "0 < num_tokens r" "num_tokens r \<le> max_model_len k"
    and "distinct (block_hashes r)" "int (length (block_hashes r)) = num_tokens r div hash_block_size (pool k)"
    and "0 < num_new" "0 \<le> lookahead"
  shows "\<exists>hits n res k'. get_computed_blocks r k = Some (Inr (hits, n)) \<and> 0 \<le> n \<and> n < num_tokens r \<and>
     (\<forall>bs. hits = Some [bs] \<longrightarrow> (\<forall>i < length bs. bs ! i = null_block (pool k) \<or>
        (\<exists>key. make_block_hash_with_group_id (block_hashes r ! i) 0 = Inr key \<and> block_hash (blocks (pool k) ! (bs ! i)) = Some key))) \<and>
     allocate_slots r num_new n hits lookahead 0 delay k = (Inr res, k')"
proof -
  from new_request_hits [OF assms] obtain hits n where hits: "get_computed_blocks r k = Some (Inr (hits, n))" "0 \<le> n" "n < num_tokens r"
    "slots_request r num_new n hits lookahead k"
    "\<forall>bs. hits = Some [bs] \<longrightarrow> (\<forall>i < length bs. bs ! i = null_block (pool k) \<or>
      (\<exists>key. make_block_hash_with_group_id (block_hashes r ! i) 0 = Inr key \<and> block_hash (blocks (pool k) ! (bs ! i)) = Some key))"
    by blast
  from allocate_slots_ok [OF kv_reachable_ok [OF assms(1)] hits(4) refl refl, of delay] obtain res k' where
    "allocate_slots r num_new n hits lookahead 0 delay k = (Inr res, k')" by blast
  with hits show ?thesis by blast
qed

abbreviation second_request :: cache_request where
  "second_request \<equiv> demo_request ''b'' [7, 8, 9, 1, 5] [[1], [2]]"

theorem new_request_served_witness:
  "\<exists>n res k'. get_computed_blocks second_request demo_kv = Some (Inr (Some [[1, 2]], n)) \<and> n < 5 \<and>
     allocate_slots second_request 1 n (Some [[1, 2]]) 0 0 False demo_kv = (Inr res, k')"
proof -
  have hits: "map_option (map_sum id fst) (get_computed_blocks second_request demo_kv) = Some (Inr (Some [[1, 2]]))"
    by code_simp
  have "search_ok (attention_type (kv_spec (hd (managers demo_kv)))) (use_eagle demo_kv) (context_parallel demo_kv)"
    "\<forall>m \<in> set (managers demo_kv). map_of (num_cached_block m) (request_id second_request) = None \<and> req_blocks m (request_id second_request) = []"
    "num_computed_tokens second_request = 0" "0 < num_tokens second_request" "num_tokens second_request \<le> max_model_len demo_kv"
    "distinct (block_hashes second_request)"
    "int (length (block_hashes second_request)) = num_tokens second_request div hash_block_size (pool demo_kv)"
    "num_tokens second_request = 5"
    by code_simp+
  with new_request_served [OF demo_kv_reachable, of second_request 1 0 False] demo_kv_values obtain hits n res k' where
    "get_computed_blocks second_request demo_kv = Some (Inr (hits, n))" "n < 5"
    "allocate_slots second_request 1 n hits 0 0 False demo_kv = (Inr res, k')" by auto
  with hits show ?thesis by auto
qed

end
