(* ===== verification/CacheHybrid.thy ===== *)
theory CacheHybrid
  imports CacheRun
begin

text \<open>
  Managers with several groups: the lookup over all groups ends, and tokens from an external cache make
  two groups share a block.
\<close>

declare map_of_eq_Some_iff [simp del]

section \<open>The lookup ends\<close>

definition groups_positive :: "(kv_cache_spec \<times> nat list) list \<Rightarrow> bool" where
  "groups_positive gs \<longleftrightarrow> (\<forall>(spec, gids) \<in> set gs. 0 < spec_block_size spec)"

lemma hybrid_pass_nonneg:
  "groups_positive gs \<Longrightarrow> 0 \<le> len \<Longrightarrow> hybrid_pass k hs lcm_size gs len hits = Inr (len', hits') \<Longrightarrow> 0 \<le> len'"
proof (induction gs arbitrary: len hits)
  case (Cons g gs)
  obtain spec gids where g: "g = (spec, gids)" by fastforce
  from Cons.prems(1) g have pos: "0 < spec_block_size spec" "groups_positive gs" by (auto simp: groups_positive_def)
  then have "0 \<le> len div spec_block_size spec * spec_block_size spec"
    using Cons.prems(2) by (simp add: pos_imp_zdiv_nonneg_iff)
  moreover have "0 \<le> int n * spec_block_size spec" for n using pos(1) by simp
  ultimately show ?case
    using Cons.prems(3) Cons.IH [OF pos(2)] g
    by (auto simp: ebind_def split: if_splits sum.splits)
qed simp

lemma hybrid_loop_ends:
  "groups_positive gs \<Longrightarrow> 0 \<le> len \<Longrightarrow> \<exists>res. hybrid_loop k hs gs lcm_size len hits = Some res"
proof (induction "nat len" arbitrary: len hits rule: less_induct)
  case less
  show ?case
  proof (cases "hybrid_pass k hs lcm_size gs len hits")
    case (Inl e)
    then show ?thesis by (simp add: hybrid_loop.simps [of k hs gs lcm_size len hits])
  next
    case (Inr res)
    obtain len' hits' where res: "res = (len', hits')" by fastforce
    show ?thesis
    proof (cases "len' < len")
      case True
      have "0 \<le> len'" using hybrid_pass_nonneg [OF less.prems] Inr res by simp
      with True less.prems less.hyps [of len' hits'] Inr res show ?thesis
        by (simp add: hybrid_loop.simps [of k hs gs lcm_size len hits])
    next
      case False
      with Inr res show ?thesis by (simp add: hybrid_loop.simps [of k hs gs lcm_size len hits])
    qed
  qed
qed

lemma add_to_group_specs: "g \<in> set (add_to_group spec i gs) \<Longrightarrow> fst g = spec \<or> fst g \<in> fst ` set gs"
  by (induction gs) (auto split: if_splits)

lemma split_groups_specs: "fst ` set (fold (\<lambda>(i, spec). add_to_group spec i) xs gs) \<subseteq> snd ` set xs \<union> fst ` set gs"
proof (induction xs arbitrary: gs)
  case (Cons x xs)
  obtain i spec where "x = (i, spec)" by fastforce
  moreover have "fst ` set (add_to_group spec i gs) \<subseteq> insert spec (fst ` set gs)"
    using add_to_group_specs [of _ spec i gs] by (intro image_subsetI) simp
  ultimately show ?case using Cons [of "add_to_group spec i gs"]
    by (simp only: fold_simps prod.case list.set image_insert snd_conv) blast
qed simp

lemma coordinator_groups:
  assumes "get_kv_cache_coordinator caching hash_size specs dcp pcp = Inr (Hybrid gs l)" "specs_ok specs"
  shows "groups_positive gs"
proof -
  have "gs = sort_key (\<lambda>(spec, _). attention_type spec \<noteq> FullAttention) (split_groups specs)"
    using assms(1) by (auto simp: get_kv_cache_coordinator_def verify_and_split_kv_cache_groups_def Let_def split: if_splits)
  then have "fst ` set gs \<subseteq> snd ` set (List.enumerate 0 specs)"
    using split_groups_specs [of "List.enumerate 0 specs" "[]"] by (simp add: split_groups_def)
  then have "fst ` set gs \<subseteq> set specs" by (auto simp: in_set_enumerate_eq)
  with assms(2) show ?thesis by (force simp: groups_positive_def specs_ok_def list_all_iff)
qed

definition hybrid_ok :: "kv_manager \<Rightarrow> bool" where
  "hybrid_ok k \<longleftrightarrow> (\<forall>gs l. coordinator_kind k = Hybrid gs l \<longrightarrow> groups_positive gs)"

lemma kv_reachable_hybrid: "kv_reachable k \<Longrightarrow> hybrid_ok k"
proof (induction rule: kv_reachable.induct)
  case (init nb specs max_len hash_size caching eagle events use_int dcp pcp k)
  then show ?case
    using coordinator_groups [OF _ init(2)]
    by (auto simp: hybrid_ok_def kv_manager_init_def ebind_def split: sum.splits)
next
  case (step k k')
  then have "same_shape k k'" using kv_step_ok kv_reachable_ok by blast
  with step.IH show ?case by (simp add: hybrid_ok_def same_shape_def)
qed

text \<open>C31: The search for the longest cached prefix always ends. In every reachable state of the cache manager -
  one group, several, or no prefix caching - \<open>get_computed_blocks\<close> of a request with at least one token
  returns: the loop over the groups makes the candidate length smaller in every pass but the last.\<close>

theorem prefix_lookup_ends:
  assumes "kv_reachable k" "0 < num_tokens r"
  shows "\<exists>res. get_computed_blocks r k = Some res"
proof (cases "coordinator_kind k")
  case (Hybrid gs l)
  then have "groups_positive gs" using kv_reachable_hybrid [OF assms(1)] by (simp add: hybrid_ok_def)
  from hybrid_loop_ends [OF this, of "num_tokens r - 1" k "block_hashes r" l] Hybrid assms(2) show ?thesis
    by (auto simp: get_computed_blocks_def longest_hit_def)
qed (auto simp: get_computed_blocks_def longest_hit_def Let_def)

section \<open>Two groups and an external cache\<close>

definition two_groups :: kv_manager where
  "two_groups = (case kv_manager_init 7 [demo_spec ''x'', demo_spec ''y''] 100 2 True False False False 1 1 of Inr k \<Rightarrow> k)"

abbreviation req_a :: cache_request where
  "req_a \<equiv> demo_request ''a'' [7, 8] [[1]]"

abbreviation req_c :: cache_request where
  "req_c \<equiv> demo_request ''c'' [1, 2, 3, 4] [[5], [6]]"

abbreviation req_b :: cache_request where
  "req_b \<equiv> demo_request ''b'' [7, 8, 1, 2, 3] [[1], [3]]"

text \<open>A request of two tokens and one of four run; then the first and the second finish.\<close>

definition after_two :: kv_manager where
  "after_two =
     (let k1 = snd (allocate_slots req_a 2 0 None 0 0 False two_groups);
          k2 = snd (allocate_slots req_c 4 0 None 0 0 False k1)
      in snd (free_slots req_c (snd (free_slots req_a k2))))"

lemma two_groups_reachable: "kv_reachable two_groups"
proof -
  obtain p where "pool_init 7 True 2 False False = Inr p"
    by (simp add: pool_init_def fq_init_def link_def popleft_def upt_rec Let_def)
  then have "\<exists>k. kv_manager_init 7 [demo_spec ''x'', demo_spec ''y''] 100 2 True False False False 1 1 = Inr k"
    by (simp add: kv_manager_init_def get_kv_cache_coordinator_def verify_and_split_kv_cache_groups_def
        split_groups_def demo_spec_def ebind_def Let_def)
  then obtain k where k: "kv_manager_init 7 [demo_spec ''x'', demo_spec ''y''] 100 2 True False False False 1 1 = Inr k" by blast
  have "specs_ok [demo_spec ''x'', demo_spec ''y'']" by (simp add: specs_ok_def demo_spec_def)
  with kv_reachable.init [OF k] have "kv_reachable k" by simp
  with k show ?thesis by (simp add: two_groups_def)
qed

lemma after_two_reachable: "kv_reachable after_two"
proof -
  have 1: "slots_request req_a 2 0 None 0 two_groups" by code_simp
  have 2: "slots_request req_c 4 0 None 0 (snd (allocate_slots req_a 2 0 None 0 0 False two_groups))" by code_simp
  show ?thesis
    unfolding after_two_def Let_def
    by (intro kv_reachable.step [OF _ kv_step.free] kv_reachable.step [OF _ kv_step.allocate] two_groups_reachable 1 2)
qed

theorem prefix_lookup_ends_witness: "\<exists>res. get_computed_blocks req_b after_two = Some res"
  using prefix_lookup_ends [OF after_two_reachable, of req_b] by (simp add: num_tokens_def demo_request_def)

text \<open>C39: With several groups, tokens from an external cache can take a block away from a hit. In a reachable
  state of a manager with two groups, a request finds block 1 of the first group and block 2 of the second
  in the cache; when two more of its tokens come from an external cache, the first group allocates blocks
  for them before the second group has touched its hit, and receives the free block 2. The call raises no
  error, and block 2 then stands in the tables of both groups.\<close>

theorem external_tokens_take_a_hit:
  "kv_reachable after_two \<and> get_computed_blocks req_b after_two = Some (Inr (Some [[1], [2]], 2)) \<and>
   (case allocate_slots req_b 1 2 (Some [[1], [2]]) 0 2 False after_two of (res, k') \<Rightarrow>
      res = Inr (Some [[3], [6]]) \<and> map (\<lambda>m. req_blocks m ''b'') (managers k') = [[1, 2, 3], [2, 4, 6]])"
proof (intro conjI)
  show "get_computed_blocks req_b after_two = Some (Inr (Some [[1], [2]], 2))" by code_simp
  show "case allocate_slots req_b 1 2 (Some [[1], [2]]) 0 2 False after_two of (res, k') \<Rightarrow>
      res = Inr (Some [[3], [6]]) \<and> map (\<lambda>m. req_blocks m ''b'') (managers k') = [[1, 2, 3], [2, 4, 6]]" by code_simp
qed (rule after_two_reachable)

end
