(* ===== verification/RequestQueue.thy ===== *)
theory RequestQueue
  imports Prelude "HOL-Library.Multiset"
begin

text \<open>
  The queues of waiting requests (\<open>src/vllm-v0.17.1/vllm/v1/core/sched/request_queue.py\<close>): a deque, and
  a binary heap kept by the functions of Python's \<open>heapq\<close>. A queue holds request ids; what
  \<open>Request.__lt__\<close> compares, priority and arrival time, is read through the argument \<open>rank\<close>, because the
  heap holds references to requests whose fields can change.
\<close>

declare map_of_eq_Some_iff [simp del]

section \<open>Python's heapq\<close>

text \<open>\<open>_siftdown(heap, start, pos)\<close> with the new item \<open>x\<close>: parents that are larger move down. \<open>_siftup\<close>:
  the smaller child moves up until a leaf is free, and the item then sifts down from there.\<close>

definition parent :: "nat \<Rightarrow> nat" where
  "parent i = (i - 1) div 2"

lemma parent_less [simp]: "0 < p \<Longrightarrow> parent p < p"
  by (auto simp: parent_def)

lemma parent_le [simp]: "parent p \<le> p"
  by (auto simp: parent_def)

lemma parent_eq [simp]: "0 < p \<Longrightarrow> parent p \<noteq> p"
  by (auto simp: parent_def)

lemma parent_bound: "p < n \<Longrightarrow> parent p < n"
  by (rule le_less_trans [OF parent_le])

lemma parent_child [simp]: "parent (2 * p + 1) = p" "parent (2 * p + 2) = p" "parent 0 = 0"
  by (simp_all add: parent_def)

lemma child_iff: "0 < i \<Longrightarrow> parent i = p \<longleftrightarrow> i = 2 * p + 1 \<or> i = 2 * p + 2"
  by (auto simp: parent_def)

function siftdown :: "('a \<Rightarrow> 'k::linorder) \<Rightarrow> 'a \<Rightarrow> nat \<Rightarrow> nat \<Rightarrow> 'a list \<Rightarrow> 'a list" where
  "siftdown key x start pos h =
     (if start < pos \<and> key x < key (h ! parent pos)
      then siftdown key x start (parent pos) (h[pos := h ! parent pos])
      else h[pos := x])"
  by pat_completeness auto

termination
  by (relation "measure (\<lambda>(key, x, start, pos, h). pos)") auto

definition smaller_child :: "('a \<Rightarrow> 'k::linorder) \<Rightarrow> nat \<Rightarrow> 'a list \<Rightarrow> nat" where
  "smaller_child key pos h =
     (let c = 2 * pos + 1
      in if c + 1 < length h \<and> \<not> key (h ! c) < key (h ! (c + 1)) then c + 1 else c)"

function siftup :: "('a \<Rightarrow> 'k::linorder) \<Rightarrow> 'a \<Rightarrow> nat \<Rightarrow> nat \<Rightarrow> 'a list \<Rightarrow> 'a list" where
  "siftup key x start pos h =
     (if 2 * pos + 1 < length h
      then siftup key x start (smaller_child key pos h) (h[pos := h ! smaller_child key pos h])
      else siftdown key x start pos h)"
  by pat_completeness auto

termination
  by (relation "measure (\<lambda>(key, x, start, pos, h). length h - pos)") (auto simp: smaller_child_def Let_def)

declare siftdown.simps [simp del] siftup.simps [simp del]

lemma siftdown_step: "s < p \<and> key x < key (h ! parent p) \<Longrightarrow> siftdown key x s p h = siftdown key x s (parent p) (h[p := h ! parent p])"
  by (subst siftdown.simps) simp

lemma siftdown_stop: "\<not> (s < p \<and> key x < key (h ! parent p)) \<Longrightarrow> siftdown key x s p h = h[p := x]"
  by (subst siftdown.simps) (simp only: if_False)

definition heappush :: "('a \<Rightarrow> 'k::linorder) \<Rightarrow> 'a \<Rightarrow> 'a list \<Rightarrow> 'a list" where
  "heappush key x h = siftdown key x 0 (length h) (h @ [x])"

definition heappop :: "('a \<Rightarrow> 'k::linorder) \<Rightarrow> 'a list \<Rightarrow> py_error + 'a \<times> 'a list" where
  "heappop key h =
     (if h = [] then Inl IndexError
      else let x = last h; h' = butlast h
           in if h' = [] then Inr (x, []) else Inr (h' ! 0, siftup key x 0 0 h'))"

definition heapify :: "('a \<Rightarrow> 'k::linorder) \<Rightarrow> 'a list \<Rightarrow> 'a list" where
  "heapify key h = fold (\<lambda>i h. siftup key (h ! i) i i h) (rev [0..<length h div 2]) h"

text \<open>\<open>__iter__\<close> pops a copy until it is empty.\<close>

function heap_iter :: "('a \<Rightarrow> 'k::linorder) \<Rightarrow> 'a list \<Rightarrow> 'a list" where
  "heap_iter key h = (case heappop key h of Inl _ \<Rightarrow> [] | Inr (x, h') \<Rightarrow> x # heap_iter key h')"
  by pat_completeness auto

lemma length_siftdown [simp]: "length (siftdown key x s p h) = length h"
  by (induction key x s p h rule: siftdown.induct) (subst siftdown.simps, simp)

lemma length_siftup [simp]: "length (siftup key x s p h) = length h"
  by (induction key x s p h rule: siftup.induct) (subst siftup.simps, simp)

lemma heappop_shorter: "heappop key h = Inr (x, h') \<Longrightarrow> length h' < length h"
  by (auto simp: heappop_def Let_def split: if_splits)

termination heap_iter
  by (relation "measure (\<lambda>(key, h). length h)") (auto dest: heappop_shorter)

declare heap_iter.simps [simp del]

section \<open>The two queues\<close>

datatype policy = FCFS | PRIORITY

datatype request_queue = Deque "string list" | PriorityHeap "string list"

type_synonym rank = "string \<Rightarrow> int \<times> real"

definition order_key :: "rank \<Rightarrow> string \<Rightarrow> (int \<times> real) \<times> string" where
  "order_key rank r = (rank r, r)"

definition create_request_queue :: "policy \<Rightarrow> request_queue" where
  "create_request_queue p = (case p of PRIORITY \<Rightarrow> PriorityHeap [] | FCFS \<Rightarrow> Deque [])"

fun queue_len :: "request_queue \<Rightarrow> nat" where
  "queue_len (Deque q) = length q"
| "queue_len (PriorityHeap h) = length h"

fun queue_iter :: "rank \<Rightarrow> request_queue \<Rightarrow> string list" where
  "queue_iter rank (Deque q) = q"
| "queue_iter rank (PriorityHeap h) = heap_iter (order_key rank) h"

fun queue_add :: "rank \<Rightarrow> string \<Rightarrow> request_queue \<Rightarrow> request_queue" where
  "queue_add rank r (Deque q) = Deque (q @ [r])"
| "queue_add rank r (PriorityHeap h) = PriorityHeap (heappush (order_key rank) r h)"

fun pop_request :: "rank \<Rightarrow> request_queue \<Rightarrow> py_error + string \<times> request_queue" where
  "pop_request rank (Deque q) = (case q of [] \<Rightarrow> Inl IndexError | r # q' \<Rightarrow> Inr (r, Deque q'))"
| "pop_request rank (PriorityHeap h) = map_sum id (map_prod id PriorityHeap) (heappop (order_key rank) h)"

fun peek_request :: "request_queue \<Rightarrow> py_error + string" where
  "peek_request (Deque q) = (if q = [] then Inl IndexError else Inr (q ! 0))"
| "peek_request (PriorityHeap h) = (if h = [] then Inl IndexError else Inr (h ! 0))"

fun prepend_request :: "rank \<Rightarrow> string \<Rightarrow> request_queue \<Rightarrow> request_queue" where
  "prepend_request rank r (Deque q) = Deque (r # q)"
| "prepend_request rank r (PriorityHeap h) = queue_add rank r (PriorityHeap h)"

fun prepend_requests :: "rank \<Rightarrow> request_queue \<Rightarrow> request_queue \<Rightarrow> request_queue" where
  "prepend_requests rank other (Deque q) = Deque (rev (queue_iter rank other) @ q)"
| "prepend_requests rank other (PriorityHeap h) = fold (queue_add rank) (queue_iter rank other) (PriorityHeap h)"

fun remove_request :: "rank \<Rightarrow> string \<Rightarrow> request_queue \<Rightarrow> py_error + request_queue" where
  "remove_request rank r (Deque q) = (if r \<in> set q then Inr (Deque (remove1 r q)) else Inl ValueError)"
| "remove_request rank r (PriorityHeap h) =
     (if r \<in> set h then Inr (PriorityHeap (heapify (order_key rank) (remove1 r h))) else Inl ValueError)"

fun remove_requests :: "rank \<Rightarrow> string set \<Rightarrow> request_queue \<Rightarrow> request_queue" where
  "remove_requests rank rs (Deque q) = Deque (filter (\<lambda>r. r \<notin> rs) q)"
| "remove_requests rank rs (PriorityHeap h) = PriorityHeap (heapify (order_key rank) (filter (\<lambda>r. r \<notin> rs) h))"

section \<open>Heap order\<close>

text \<open>From index \<open>s\<close> on, no item is smaller than its parent. With a hole at \<open>p\<close>, that holds for the other
  pairs and across the hole.\<close>

definition heap_from :: "('a \<Rightarrow> 'k::linorder) \<Rightarrow> nat \<Rightarrow> 'a list \<Rightarrow> bool" where
  "heap_from key s h \<longleftrightarrow> (\<forall>i. 0 < i \<and> i < length h \<and> s \<le> parent i \<longrightarrow> key (h ! parent i) \<le> key (h ! i))"

definition hole :: "('a \<Rightarrow> 'k::linorder) \<Rightarrow> nat \<Rightarrow> nat \<Rightarrow> 'a list \<Rightarrow> bool" where
  "hole key s p h \<longleftrightarrow>
     (\<forall>i. 0 < i \<and> i < length h \<and> s \<le> parent i \<and> i \<noteq> p \<and> parent i \<noteq> p \<longrightarrow> key (h ! parent i) \<le> key (h ! i)) \<and>
     (\<forall>i. 0 < i \<and> i < length h \<and> parent i = p \<and> 0 < p \<and> s \<le> parent p \<longrightarrow> key (h ! parent p) \<le> key (h ! i))"

text \<open>\<open>p\<close> lies in the subtree of \<open>s\<close>.\<close>

inductive below :: "nat \<Rightarrow> nat \<Rightarrow> bool" for s where
  here: "below s s"
| down: "below s (parent p) \<Longrightarrow> 0 < p \<Longrightarrow> below s p"

lemma below_ge: "below s p \<Longrightarrow> s \<le> p"
proof (induction rule: below.induct)
  case (down p)
  then show ?case using parent_le [of p] by linarith
qed simp

lemma below_parent: "below s p \<Longrightarrow> p \<noteq> s \<Longrightarrow> below s (parent p)"
  by (erule below.cases) auto

lemma below_zero: "below 0 p"
proof (induction p rule: less_induct)
  case (less p)
  show ?case
  proof (cases "p = 0")
    case False
    then have p: "0 < p" by simp
    show ?thesis by (rule below.down [OF less [OF parent_less [OF p]] p])
  qed (simp add: below.here)
qed

lemma mset_move:
  assumes "p < length h" "q < length h" "p \<noteq> q"
  shows "mset (h[p := h ! q, q := x]) = mset (h[p := x])"
proof -
  have "h[p := h ! q, q := x] = (h[p := x])[p := h[p := x] ! q, q := h[p := x] ! p]" using assms by simp
  then show ?thesis using assms mset_swap [of q "h[p := x]" p] by simp
qed

lemma mset_siftdown: "p < length h \<Longrightarrow> mset (siftdown key x s p h) = mset (h[p := x])"
proof (induction key x s p h rule: siftdown.induct)
  case (1 key x s p h)
  show ?case
  proof (cases "s < p \<and> key x < key (h ! parent p)")
    case True
    have pp: "parent p < length h" "parent p \<noteq> p" using True parent_bound [OF "1.prems"] parent_eq [of p] by auto
    have "mset (siftdown key x s p h) = mset (siftdown key x s (parent p) (h[p := h ! parent p]))"
      by (simp only: siftdown_step [OF True])
    also have "\<dots> = mset (h[p := h ! parent p, parent p := x])" using "1.IH" [OF True] pp(1) by simp
    also have "\<dots> = mset (h[p := x])" by (rule mset_move) (use pp "1.prems" in simp_all)
    finally show ?thesis .
  next
    case False
    then show ?thesis by (simp only: siftdown_stop [OF False])
  qed
qed

lemma siftdown_heap:
  "p < length h \<Longrightarrow> below s p \<Longrightarrow> hole key s p h \<Longrightarrow>
   (\<forall>i. 0 < i \<and> i < length h \<and> parent i = p \<longrightarrow> key x \<le> key (h ! i)) \<Longrightarrow> heap_from key s (siftdown key x s p h)"
proof (induction key x s p h rule: siftdown.induct)
  case (1 key x s p h)
  have edge: "0 < i \<Longrightarrow> i < length h \<Longrightarrow> s \<le> parent i \<Longrightarrow> i \<noteq> p \<Longrightarrow> parent i \<noteq> p \<Longrightarrow> key (h ! parent i) \<le> key (h ! i)"
    and across: "0 < i \<Longrightarrow> i < length h \<Longrightarrow> parent i = p \<Longrightarrow> 0 < p \<Longrightarrow> s \<le> parent p \<Longrightarrow> key (h ! parent p) \<le> key (h ! i)" for i
    using "1.prems"(3) by (auto simp: hole_def)
  have x: "0 < i \<Longrightarrow> i < length h \<Longrightarrow> parent i = p \<Longrightarrow> key x \<le> key (h ! i)" for i using "1.prems"(4) by blast
  show ?case
  proof (cases "s < p \<and> key x < key (h ! parent p)")
    case True
    let ?q = "parent p" and ?h = "h[p := h ! parent p]"
    have q: "?q < p" "0 < p" "below s ?q" "s \<le> ?q" "?q < length h"
      using True below_parent [OF "1.prems"(2)] below_ge "1.prems"(1) by (auto simp: parent_bound)
    have qq: "0 < ?q \<Longrightarrow> parent ?q < ?q" "parent ?q \<noteq> p"
      using parent_le [of ?q] q(1) by (simp, linarith)
    have hole: "hole key s ?q ?h"
      unfolding hole_def
    proof (intro conjI allI impI, goal_cases)
      case (1 i)
      then have "i \<noteq> p" by auto
      show ?case
      proof (cases "parent i = p")
        case True
        with 1 \<open>i \<noteq> p\<close> q across [of i] "1.prems"(1) show ?thesis by simp
      next
        case False
        with 1 \<open>i \<noteq> p\<close> edge [of i] show ?thesis by simp
      qed
    next
      case (2 i)
      have up: "key (h ! parent ?q) \<le> key (h ! ?q)"
        using 2 q qq by (intro edge) auto
      show ?case
      proof (cases "i = p")
        case False
        then have "key (h ! ?q) \<le> key (h ! i)" using 2 q by (metis edge length_list_update less_irrefl)
        with up False 2 q qq show ?thesis by (auto simp: nth_list_update)
      qed (use up 2 q qq "1.prems"(1) in \<open>auto simp: nth_list_update\<close>)
    qed
    have small: "\<forall>i. 0 < i \<and> i < length ?h \<and> parent i = ?q \<longrightarrow> key x \<le> key (?h ! i)"
    proof (intro allI impI)
      fix i
      assume i: "0 < i \<and> i < length ?h \<and> parent i = ?q"
      show "key x \<le> key (?h ! i)"
      proof (cases "i = p")
        case False
        have "key (h ! parent i) \<le> key (h ! i)" using i q False by (intro edge) auto
        then have "key (h ! ?q) \<le> key (h ! i)" using i by simp
        with True False show ?thesis by (auto simp: nth_list_update)
      qed (use True "1.prems"(1) in auto)
    qed
    have "heap_from key s (siftdown key x s ?q ?h)"
      using q "1.prems"(1) by (intro "1.IH" [OF True _ q(3) hole small]) simp
    then show ?thesis by (simp only: siftdown_step [OF True])
  next
    case False
    then have eq: "siftdown key x s p h = h[p := x]" by (rule siftdown_stop)
    show ?thesis
      unfolding eq heap_from_def
    proof (intro allI impI)
      fix i
      assume i: "0 < i \<and> i < length (h[p := x]) \<and> s \<le> parent i"
      have "parent i < i" using i by (intro parent_less) simp
      consider "i = p" | "i \<noteq> p" "parent i = p" | "i \<noteq> p" "parent i \<noteq> p" by blast
      then show "key (h[p := x] ! parent i) \<le> key (h[p := x] ! i)"
      proof cases
        case 1
        then have "s < p" using i \<open>parent i < i\<close> by auto
        with False have "key (h ! parent p) \<le> key x" by auto
        with 1 \<open>parent i < i\<close> "1.prems"(1) show ?thesis by simp
      next
        case 2
        with i x [of i] "1.prems"(1) show ?thesis by simp
      qed (use i edge in auto)
    qed
  qed
qed

lemma smaller_child_props:
  assumes "2 * p + 1 < length h"
  shows "p < smaller_child key p h" "smaller_child key p h < length h" "parent (smaller_child key p h) = p"
  using assms by (auto simp: smaller_child_def Let_def parent_def)

lemma smaller_child_least:
  assumes "0 < i" "i < length h" "parent i = p"
  shows "key (h ! smaller_child key p h) \<le> key (h ! i)"
proof -
  have "i = 2 * p + 1 \<or> i = 2 * p + 2" using assms(1,3) by (simp add: child_iff)
  then show ?thesis using assms(2) by (auto simp: smaller_child_def Let_def)
qed

lemma siftup_step:
  "2 * p + 1 < length h \<Longrightarrow> siftup key x s p h = siftup key x s (smaller_child key p h) (h[p := h ! smaller_child key p h])"
  by (subst siftup.simps) simp

lemma siftup_leaf: "\<not> 2 * p + 1 < length h \<Longrightarrow> siftup key x s p h = siftdown key x s p h"
  by (subst siftup.simps) (simp only: if_False)

lemma mset_siftup: "p < length h \<Longrightarrow> mset (siftup key x s p h) = mset (h[p := x])"
proof (induction key x s p h rule: siftup.induct)
  case (1 key x s p h)
  show ?case
  proof (cases "2 * p + 1 < length h")
    case True
    let ?c = "smaller_child key p h"
    note c = smaller_child_props [OF True, of key]
    have "mset (siftup key x s p h) = mset (siftup key x s ?c (h[p := h ! ?c]))" by (simp only: siftup_step [OF True])
    also have "\<dots> = mset (h[p := h ! ?c, ?c := x])" using "1.IH" [OF True] c(2) by simp
    also have "\<dots> = mset (h[p := x])" by (rule mset_move) (use c(1,2) "1.prems" in simp_all)
    finally show ?thesis .
  next
    case False
    then show ?thesis using mset_siftdown [OF "1.prems"] by (simp only: siftup_leaf [OF False])
  qed
qed

lemma siftup_heap: "p < length h \<Longrightarrow> below s p \<Longrightarrow> hole key s p h \<Longrightarrow> heap_from key s (siftup key x s p h)"
proof (induction key x s p h rule: siftup.induct)
  case (1 key x s p h)
  have edge: "0 < i \<Longrightarrow> i < length h \<Longrightarrow> s \<le> parent i \<Longrightarrow> i \<noteq> p \<Longrightarrow> parent i \<noteq> p \<Longrightarrow> key (h ! parent i) \<le> key (h ! i)"
    and across: "0 < i \<Longrightarrow> i < length h \<Longrightarrow> parent i = p \<Longrightarrow> 0 < p \<Longrightarrow> s \<le> parent p \<Longrightarrow> key (h ! parent p) \<le> key (h ! i)" for i
    using "1.prems"(3) by (auto simp: hole_def)
  show ?case
  proof (cases "2 * p + 1 < length h")
    case True
    let ?c = "smaller_child key p h"
    let ?h = "h[p := h ! ?c]"
    note c = smaller_child_props [OF True, of key]
    have "0 < ?c" using c(1) by linarith
    have below: "below s ?c" by (rule below.down) (use c "1.prems"(2) in simp_all)
    have hole: "hole key s ?c ?h"
      unfolding hole_def
    proof (intro conjI allI impI, goal_cases)
      case (1 i)
      then have "parent i < length h" using parent_bound by auto
      show ?case
      proof (cases "i = p")
        case True
        then have "key (h ! parent p) \<le> key (h ! ?c)" using 1 \<open>0 < ?c\<close> c by (intro across) auto
        then show ?thesis using 1 True \<open>parent i < length h\<close> by (simp add: nth_list_update)
      next
        case False
        show ?thesis
        proof (cases "parent i = p")
          case True
          then show ?thesis using 1 False smaller_child_least [of i h p key] \<open>parent i < length h\<close> by simp
        qed (use 1 False edge [of i] in simp)
      qed
    next
      case (2 i)
      have "?c \<noteq> p" using c(1) by simp
      have ip: "i \<noteq> p"
      proof
        assume "i = p"
        with 2 have "parent p = ?c" by simp
        with parent_le [of p] c(1) show False by linarith
      qed
      have "key (h ! parent i) \<le> key (h ! i)"
        using 2 ip \<open>?c \<noteq> p\<close> below_ge [OF below] by (intro edge) auto
      with 2 ip \<open>?c \<noteq> p\<close> c(3) "1.prems"(1) show ?case by simp
    qed
    have "heap_from key s (siftup key x s ?c ?h)"
      using c(2) by (intro "1.IH" [OF True _ below hole]) simp
    then show ?thesis by (simp only: siftup_step [OF True])
  next
    case False
    have "\<not> (0 < i \<and> i < length h \<and> parent i = p)" for i
      using False child_iff [of i p] by auto
    then have "\<forall>i. 0 < i \<and> i < length h \<and> parent i = p \<longrightarrow> key x \<le> key (h ! i)" by blast
    from siftdown_heap [OF "1.prems" this] show ?thesis by (simp only: siftup_leaf [OF False])
  qed
qed

abbreviation heap :: "('a \<Rightarrow> 'k::linorder) \<Rightarrow> 'a list \<Rightarrow> bool" where
  "heap key h \<equiv> heap_from key 0 h"

lemma heap_root: "heap key h \<Longrightarrow> i < length h \<Longrightarrow> key (h ! 0) \<le> key (h ! i)"
proof (induction i rule: less_induct)
  case (less i)
  show ?case
  proof (cases "i = 0")
    case False
    then have i: "0 < i" by simp
    have "key (h ! 0) \<le> key (h ! parent i)" using less parent_less [OF i] parent_bound by auto
    also have "\<dots> \<le> key (h ! i)" using less.prems i by (simp add: heap_from_def)
    finally show ?thesis .
  qed simp
qed

lemma heap_Nil [simp]: "heap_from key s []"
  by (simp add: heap_from_def)

lemma heappush_heap:
  assumes "heap key h"
  shows "heap key (heappush key x h)" "mset (heappush key x h) = add_mset x (mset h)"
proof -
  have "hole key 0 (length h) (h @ [x])"
    using assms unfolding hole_def heap_from_def
    by (auto simp: nth_append less_Suc_eq parent_bound child_iff)
  then show "heap key (heappush key x h)"
    unfolding heappush_def by (intro siftdown_heap) (auto simp: below_zero child_iff)
  show "mset (heappush key x h) = add_mset x (mset h)"
    by (simp add: heappush_def mset_siftdown)
qed

lemma hole_at_start:
  assumes "heap_from key (Suc s) h" shows "hole key s s h"
  unfolding hole_def
proof (intro conjI allI impI, goal_cases)
  case (1 i)
  then show ?case using assms by (simp add: heap_from_def)
next
  case (2 i)
  then have "parent s < s" by simp
  with 2 show ?case by linarith
qed

lemma heap_from_mono: "heap_from key s h \<Longrightarrow> s \<le> t \<Longrightarrow> heap_from key t h"
  by (auto simp: heap_from_def)

lemma heappop_heap:
  assumes "heap key h" "h \<noteq> []"
  obtains h' where "heappop key h = Inr (h ! 0, h')" "heap key h'" "mset h = add_mset (h ! 0) (mset h')"
proof (cases "butlast h = []")
  case True
  then obtain x where "h = [x]" using assms(2) by (cases h) (auto split: if_splits)
  then show thesis using that [of "[]"] by (simp add: heappop_def)
next
  case False
  let ?b = "butlast h"
  have split: "h = ?b @ [last h]" using assms(2) by simp
  have len: "0 < length ?b" using False length_greater_0_conv by blast
  then have root: "?b ! 0 = h ! 0" by (rule nth_butlast)
  have "heap_from key 0 ?b"
    using assms(1) by (auto simp: heap_from_def nth_butlast parent_bound)
  then have "hole key 0 0 ?b" by (rule hole_at_start [OF heap_from_mono]) simp
  then have heap: "heap key (siftup key (last h) 0 0 ?b)" by (intro siftup_heap len below_zero)
  have "mset (siftup key (last h) 0 0 ?b) = mset (?b[0 := last h])" by (rule mset_siftup [OF len])
  then have "add_mset (h ! 0) (mset (siftup key (last h) 0 0 ?b)) = add_mset (last h) (mset ?b)"
    using len nth_mem_mset [OF len] by (simp add: mset_update root)
  also have "\<dots> = mset h" by (subst (3) split) simp
  finally show thesis using that heap False assms(2) root by (simp add: heappop_def Let_def)
qed

lemma heapify_fold:
  "heap_from key n h \<Longrightarrow> n \<le> length h \<Longrightarrow>
   heap key (fold (\<lambda>i h. siftup key (h ! i) i i h) (rev [0..<n]) h) \<and>
   mset (fold (\<lambda>i h. siftup key (h ! i) i i h) (rev [0..<n]) h) = mset h"
proof (induction n arbitrary: h)
  case (Suc n)
  let ?h = "siftup key (h ! n) n n h"
  have n: "n < length h" using Suc.prems(2) by simp
  have "heap_from key n ?h" by (rule siftup_heap [OF n below.here hole_at_start [OF Suc.prems(1)]])
  moreover have "mset ?h = mset h" using mset_siftup [OF n, of key "h ! n" n] by simp
  moreover have "n \<le> length ?h" using n by simp
  ultimately show ?case using Suc.IH [of ?h] by simp
qed simp

lemma heapify_heap: "heap key (heapify key h)" "mset (heapify key h) = mset h"
proof -
  have "heap_from key (length h div 2) h" by (auto simp: heap_from_def parent_def)
  from heapify_fold [OF this] show "heap key (heapify key h)" "mset (heapify key h) = mset h"
    by (simp_all add: heapify_def)
qed

lemma heap_iter_sorted: "heap key h \<Longrightarrow> mset (heap_iter key h) = mset h \<and> sorted (map key (heap_iter key h))"
proof (induction key h rule: heap_iter.induct)
  case (1 key h)
  show ?case
  proof (cases "h = []")
    case True
    then show ?thesis by (simp add: heappop_def heap_iter.simps [of key "[]"])
  next
    case False
    from heappop_heap [OF "1.prems" False] obtain h' where
      h': "heappop key h = Inr (h ! 0, h')" "heap key h'" "mset h = add_mset (h ! 0) (mset h')" .
    have iter: "heap_iter key h = h ! 0 # heap_iter key h'" by (subst heap_iter.simps) (simp add: h'(1))
    have ih: "mset (heap_iter key h') = mset h'" "sorted (map key (heap_iter key h'))"
      using "1.IH" [OF h'(1) refl h'(2)] by simp_all
    have "key (h ! 0) \<le> key y" if "y \<in> set (heap_iter key h')" for y
    proof -
      have "y \<in># mset h" using that ih(1) h'(3) by (metis insert_iff set_mset_add_mset_insert set_mset_mset)
      then obtain i where "i < length h" "y = h ! i" by (auto simp: in_set_conv_nth)
      with heap_root [OF "1.prems"] show ?thesis by simp
    qed
    with ih h'(3) show ?thesis by (simp add: iter)
  qed
qed

section \<open>The contract of a queue\<close>

text \<open>What the scheduler relies on: the queue stands for the list its iteration gives; a request enters it
  at a place the policy determines (\<open>enter\<close>, \<open>enter_front\<close>), and leaves it at the front.\<close>

locale waiting_queue =
  fixes good :: "'q \<Rightarrow> bool" and items :: "'q \<Rightarrow> string list" and len :: "'q \<Rightarrow> nat"
    and enter enter_front :: "string \<Rightarrow> string list \<Rightarrow> string list"
    and add prepend :: "string \<Rightarrow> 'q \<Rightarrow> 'q"
    and pop :: "'q \<Rightarrow> py_error + string \<times> 'q" and peek :: "'q \<Rightarrow> py_error + string"
    and remove_all :: "string set \<Rightarrow> 'q \<Rightarrow> 'q"
  assumes enter: "mset (enter r rs) = add_mset r (mset rs)" "mset (enter_front r rs) = add_mset r (mset rs)"
    and add: "good q \<Longrightarrow> good (add r q) \<and> items (add r q) = enter r (items q)"
    and prepend: "good q \<Longrightarrow> good (prepend r q) \<and> items (prepend r q) = enter_front r (items q)"
    and pop_some: "good q \<Longrightarrow> items q = r # rs \<Longrightarrow> \<exists>q'. pop q = Inr (r, q') \<and> good q' \<and> items q' = rs"
    and pop_none: "good q \<Longrightarrow> items q = [] \<Longrightarrow> pop q = Inl IndexError"
    and peek: "good q \<Longrightarrow> peek q = (case items q of [] \<Rightarrow> Inl IndexError | r # _ \<Rightarrow> Inr r)"
    and remove_all: "good q \<Longrightarrow> good (remove_all S q) \<and> items (remove_all S q) = filter (\<lambda>r. r \<notin> S) (items q)"
    and len: "good q \<Longrightarrow> len q = length (items q)"
begin

lemma pop_peek:
  assumes "good q" "peek q = Inr r"
  obtains q' where "pop q = Inr (r, q')" "good q'" "items q = r # items q'"
proof -
  from assms obtain rs where "items q = r # rs" by (auto simp: peek split: list.splits)
  with pop_some [OF assms(1) this] that show thesis by auto
qed

lemma set_ops:
  assumes "good q"
  shows "set (items (add r q)) = insert r (set (items q))" "set (items (prepend r q)) = insert r (set (items q))"
    "set (items (remove_all S q)) = set (items q) - S"
    "distinct (items (add r q)) \<longleftrightarrow> r \<notin> set (items q) \<and> distinct (items q)"
    "distinct (items (prepend r q)) \<longleftrightarrow> r \<notin> set (items q) \<and> distinct (items q)"
proof -
  have m: "mset (items (add r q)) = mset (r # items q)" "mset (items (prepend r q)) = mset (r # items q)"
    using add [OF assms] prepend [OF assms] enter by simp_all
  show "set (items (add r q)) = insert r (set (items q))" "set (items (prepend r q)) = insert r (set (items q))"
    using mset_eq_setD [OF m(1)] mset_eq_setD [OF m(2)] by simp_all
  show "distinct (items (add r q)) \<longleftrightarrow> r \<notin> set (items q) \<and> distinct (items q)"
    "distinct (items (prepend r q)) \<longleftrightarrow> r \<notin> set (items q) \<and> distinct (items q)"
    using mset_eq_imp_distinct_iff [OF m(1)] mset_eq_imp_distinct_iff [OF m(2)] by auto
  show "set (items (remove_all S q)) = set (items q) - S" using remove_all [OF assms] by auto
qed

text \<open>Adding a list of requests one by one.\<close>

lemma add_list:
  "good q \<Longrightarrow> good (fold add rs q) \<and> items (fold add rs q) = fold enter rs (items q) \<and>
    mset (items (fold add rs q)) = mset rs + mset (items q)"
proof (induction rs arbitrary: q)
  case (Cons r rs)
  let ?q = "add r q"
  have q: "good ?q" "items ?q = enter r (items q)" using add [OF Cons.prems] by simp_all
  have "mset (items (fold add rs ?q)) = mset rs + mset (enter r (items q))" using Cons.IH [OF q(1)] q(2) by metis
  with Cons.IH [OF q(1)] q(2) show ?case by (simp add: enter)
qed simp

end

lemma order_key_inj: "inj_on (order_key rank) S"
  by (auto simp: inj_on_def order_key_def)

fun queue_ok :: "rank \<Rightarrow> request_queue \<Rightarrow> bool" where
  "queue_ok rank (Deque q) = True"
| "queue_ok rank (PriorityHeap h) = heap (order_key rank) h"

lemma heap_iter_eq_sort: "heap (order_key rank) h \<Longrightarrow> heap_iter (order_key rank) h = sort_key (order_key rank) h"
proof -
  assume "heap (order_key rank) h"
  from heap_iter_sorted [OF this] have "mset (heap_iter (order_key rank) h) = mset h" "sorted (map (order_key rank) (heap_iter (order_key rank) h))"
    by simp_all
  then show ?thesis using sort_key_inj_key_eq [of h "heap_iter (order_key rank) h" "order_key rank"] order_key_inj by metis
qed

lemma sort_key_add:
  assumes "mset xs = add_mset x (mset ys)"
  shows "sort_key (order_key rank) xs = insort_key (order_key rank) x (sort_key (order_key rank) ys)"
proof (rule sort_key_inj_key_eq)
  show "mset xs = mset (insort_key (order_key rank) x (sort_key (order_key rank) ys))" using assms by simp
  show "sorted (map (order_key rank) (insort_key (order_key rank) x (sort_key (order_key rank) ys)))"
    by (simp add: sorted_insort_key)
qed (rule order_key_inj)

fun good_heap :: "rank \<Rightarrow> request_queue \<Rightarrow> bool" where
  "good_heap rank (Deque q) = False"
| "good_heap rank (PriorityHeap h) = heap (order_key rank) h"

fun is_deque :: "request_queue \<Rightarrow> bool" where
  "is_deque (Deque q) = True"
| "is_deque (PriorityHeap h) = False"

interpretation fcfs: waiting_queue is_deque "queue_iter rank" queue_len "\<lambda>r rs. rs @ [r]" "\<lambda>r rs. r # rs"
  "queue_add rank" "prepend_request rank" "pop_request rank" peek_request "remove_requests rank" for rank
  by unfold_locales (auto split: list.splits elim!: is_deque.elims)

lemma heap_items: "good_heap rank q \<Longrightarrow> \<exists>h. q = PriorityHeap h \<and> heap (order_key rank) h \<and> queue_iter rank q = sort_key (order_key rank) h"
  by (cases q) (simp_all add: heap_iter_eq_sort)

lemma heap_pop_items:
  assumes "good_heap rank q" "queue_iter rank q = r # rs"
  shows "peek_request q = Inr r" "\<exists>q'. pop_request rank q = Inr (r, q') \<and> good_heap rank q' \<and> queue_iter rank q' = rs"
proof -
  let ?key = "order_key rank"
  from heap_items [OF assms(1)] assms(2) obtain h where
    h: "q = PriorityHeap h" "heap ?key h" "sort_key ?key h = r # rs" by auto
  then have "h \<noteq> []" by auto
  from heappop_heap [OF h(2) this] obtain h' where
    h': "heappop ?key h = Inr (h ! 0, h')" "heap ?key h'" "mset h = add_mset (h ! 0) (mset h')" .
  have "heap_iter ?key h = h ! 0 # heap_iter ?key h'" by (subst heap_iter.simps) (simp add: h'(1))
  with h(2,3) h'(2) have eq: "h ! 0 = r" "sort_key ?key h' = rs" by (simp_all add: heap_iter_eq_sort)
  then show "peek_request q = Inr r" "\<exists>q'. pop_request rank q = Inr (r, q') \<and> good_heap rank q' \<and> queue_iter rank q' = rs"
    using h(1) h'(1,2) \<open>h \<noteq> []\<close> by (simp_all add: heap_iter_eq_sort)
qed

lemma heap_items_Nil: "good_heap rank q \<Longrightarrow> queue_iter rank q = [] \<Longrightarrow> q = PriorityHeap []"
proof -
  assume q: "good_heap rank q" "queue_iter rank q = []"
  from heap_items [OF q(1)] obtain h where h: "q = PriorityHeap h" "queue_iter rank q = sort_key (order_key rank) h" by blast
  with q(2) have "mset h = {#}" by (metis mset.simps(1) mset_sort)
  with h(1) show ?thesis by simp
qed

interpretation prio: waiting_queue "good_heap rank" "queue_iter rank" queue_len "insort_key (order_key rank)"
  "insort_key (order_key rank)" "queue_add rank" "prepend_request rank" "pop_request rank" peek_request
  "remove_requests rank" for rank
proof (unfold_locales, goal_cases)
  case (2 q r)
  from heap_items [OF 2] obtain h where "q = PriorityHeap h" "heap (order_key rank) h" by blast
  then show ?case using heappush_heap [of "order_key rank" h r] by (simp add: heap_iter_eq_sort sort_key_add)
next
  case (3 q r)
  from heap_items [OF 3] obtain h where "q = PriorityHeap h" "heap (order_key rank) h" by blast
  then show ?case using heappush_heap [of "order_key rank" h r] by (simp add: heap_iter_eq_sort sort_key_add)
next
  case (4 q r rs)
  then show ?case by (rule heap_pop_items(2))
next
  case (5 q)
  then show ?case using heap_items_Nil [OF 5] by (simp add: heappop_def)
next
  case (6 q)
  show ?case
  proof (cases "queue_iter rank q")
    case Nil
    with heap_items_Nil [OF 6 Nil] show ?thesis by simp
  qed (use heap_pop_items(1) [OF 6] in simp)
next
  case (7 q S)
  from heap_items [OF 7] obtain h where h: "q = PriorityHeap h" "heap (order_key rank) h" by blast
  let ?f = "filter (\<lambda>r. r \<notin> S)"
  have "sort_key (order_key rank) (heapify (order_key rank) (?f h)) = ?f (sort_key (order_key rank) h)"
    by (rule sort_key_inj_key_eq)
      (simp_all add: heapify_heap sorted_filter order_key_inj)
  with h show ?case by (simp add: heapify_heap heap_iter_eq_sort)
next
  case (8 q)
  from heap_items [OF 8] show ?case by auto
qed simp_all

text \<open>Both queues at once; \<open>queue_kind\<close> stays what it was.\<close>

fun queue_kind :: "request_queue \<Rightarrow> policy" where
  "queue_kind (Deque q) = FCFS"
| "queue_kind (PriorityHeap h) = PRIORITY"

fun enter_list :: "rank \<Rightarrow> policy \<Rightarrow> string \<Rightarrow> string list \<Rightarrow> string list" where
  "enter_list rank FCFS r rs = rs @ [r]"
| "enter_list rank PRIORITY r rs = insort_key (order_key rank) r rs"

fun enter_front :: "rank \<Rightarrow> policy \<Rightarrow> string \<Rightarrow> string list \<Rightarrow> string list" where
  "enter_front rank FCFS r rs = r # rs"
| "enter_front rank PRIORITY r rs = insort_key (order_key rank) r rs"

definition queue_good :: "rank \<Rightarrow> policy \<Rightarrow> request_queue \<Rightarrow> bool" where
  "queue_good rank p q \<longleftrightarrow> queue_kind q = p \<and> queue_ok rank q"

lemma queue_good_cases:
  "queue_good rank FCFS q \<longleftrightarrow> is_deque q" "queue_good rank PRIORITY q \<longleftrightarrow> good_heap rank q"
  by (cases q; simp add: queue_good_def)+

interpretation wq: waiting_queue "queue_good rank p" "queue_iter rank" queue_len "enter_list rank p" "enter_front rank p"
  "queue_add rank" "prepend_request rank" "pop_request rank" peek_request "remove_requests rank" for rank p
proof -
  show "waiting_queue (queue_good rank p) (queue_iter rank) queue_len (enter_list rank p) (enter_front rank p)
    (queue_add rank) (prepend_request rank) (pop_request rank) peek_request (remove_requests rank)"
  proof (cases p)
    case FCFS
    have eq: "queue_good rank FCFS = is_deque" "enter_list rank FCFS = (\<lambda>r rs. rs @ [r])" "enter_front rank FCFS = (\<lambda>r rs. r # rs)"
      by (intro ext; simp add: queue_good_cases)+
    show ?thesis unfolding FCFS eq by (rule fcfs.waiting_queue_axioms)
  next
    case PRIORITY
    have eq: "queue_good rank PRIORITY = good_heap rank" "enter_list rank PRIORITY = insort_key (order_key rank)"
      "enter_front rank PRIORITY = insort_key (order_key rank)"
      by (intro ext; simp add: queue_good_cases)+
    show ?thesis unfolding PRIORITY eq by (rule prio.waiting_queue_axioms)
  qed
qed

section \<open>The queues refine lists\<close>

datatype queue_op = Add string | Prepend string | Pop | RemoveAll "string set"

fun queue_step :: "rank \<Rightarrow> queue_op \<Rightarrow> request_queue \<Rightarrow> request_queue" where
  "queue_step rank (Add r) q = queue_add rank r q"
| "queue_step rank (Prepend r) q = prepend_request rank r q"
| "queue_step rank Pop q = (case pop_request rank q of Inl _ \<Rightarrow> q | Inr (_, q') \<Rightarrow> q')"
| "queue_step rank (RemoveAll S) q = remove_requests rank S q"

fun list_step :: "rank \<Rightarrow> policy \<Rightarrow> queue_op \<Rightarrow> string list \<Rightarrow> string list" where
  "list_step rank p (Add r) rs = enter_list rank p r rs"
| "list_step rank p (Prepend r) rs = enter_front rank p r rs"
| "list_step rank p Pop rs = tl rs"
| "list_step rank p (RemoveAll S) rs = filter (\<lambda>r. r \<notin> S) rs"

lemma queue_step_refines:
  assumes "queue_good rank p q"
  shows "queue_good rank p (queue_step rank op q) \<and> queue_iter rank (queue_step rank op q) = list_step rank p op (queue_iter rank q)"
proof (cases op)
  case Pop
  show ?thesis
  proof (cases "queue_iter rank q")
    case Nil
    with Pop assms wq.pop_none [OF assms Nil] show ?thesis by simp
  next
    case (Cons r rs)
    from wq.pop_some [OF assms Cons] Pop Cons show ?thesis by auto
  qed
qed (use wq.add [OF assms] wq.prepend [OF assms] wq.remove_all [OF assms] in simp_all)

lemma create_good: "queue_good rank p (create_request_queue p)" "queue_iter rank (create_request_queue p) = []"
  by (cases p; simp add: create_request_queue_def queue_good_def heap_iter.simps heappop_def)+

text \<open>C24: The waiting queue behaves like a list. After any sequence of insertions, prependings, removals and
  pops, the first-come-first-served queue holds its requests in order of arrival with prepended ones in
  front, and the heap of the priority queue iterates, and serves, in the order of priority, arrival time
  and id; the request peeked at is the first of that order, and an empty queue raises IndexError.\<close>

theorem waiting_queue_refines_list:
  "let q = fold (queue_step rank) ops (create_request_queue p); rs = fold (list_step rank p) ops []
   in queue_iter rank q = rs \<and> queue_len q = length rs \<and>
    peek_request q = (case rs of [] \<Rightarrow> Inl IndexError | r # _ \<Rightarrow> Inr r) \<and> map_sum id fst (pop_request rank q) = peek_request q"
proof -
  define q where "q = fold (queue_step rank) ops (create_request_queue p)"
  define rs where "rs = fold (list_step rank p) ops []"
  have fold: "queue_good rank p q \<Longrightarrow> queue_good rank p (fold (queue_step rank) ops q) \<and>
      queue_iter rank (fold (queue_step rank) ops q) = fold (list_step rank p) ops (queue_iter rank q)" for q
    by (induction ops arbitrary: q) (simp_all add: queue_step_refines)
  from fold [OF create_good(1)] have good: "queue_good rank p q" and iter: "queue_iter rank q = rs"
    by (simp_all add: q_def rs_def create_good(2))
  have "map_sum id fst (pop_request rank q) = peek_request q"
  proof (cases rs)
    case Nil
    with iter wq.pop_none [OF good] wq.peek [OF good] show ?thesis by simp
  next
    case (Cons r rs')
    with iter wq.pop_some [OF good, of r rs'] wq.peek [OF good] show ?thesis by auto
  qed
  with good iter show ?thesis by (simp add: wq.peek wq.len q_def [symmetric] rs_def [symmetric])
qed

text \<open>Only the ranks of the requests in a queue matter.\<close>

lemma insort_key_agree: "\<forall>y \<in> insert x (set ys). f y = g y \<Longrightarrow> insort_key f x ys = insort_key g x ys"
  by (induction ys) auto

lemma sort_key_agree: "\<forall>x \<in> set xs. f x = g x \<Longrightarrow> sort_key f xs = sort_key g xs"
proof (induction xs)
  case (Cons x xs)
  then have "sort_key f xs = sort_key g xs" by simp
  with Cons.prems insort_key_agree [of x "sort_key g xs" f g] show ?case by simp
qed simp

lemma queue_rank_agree:
  assumes "queue_good rank p q" "\<forall>r \<in> set (queue_iter rank q). rank' r = rank r"
  shows "queue_good rank' p q \<and> queue_iter rank' q = queue_iter rank q"
proof (cases q)
  case (Deque ds)
  with assms(1) show ?thesis by (simp add: queue_good_def)
next
  case (PriorityHeap h)
  with assms(1) have h: "heap (order_key rank) h" by (simp add: queue_good_def)
  then have "\<forall>r \<in> set h. order_key rank' r = order_key rank r"
    using assms(2) PriorityHeap by (simp add: heap_iter_eq_sort order_key_def)
  moreover from this h have "heap (order_key rank') h" by (simp add: heap_from_def parent_bound)
  ultimately show ?thesis
    using assms(1) PriorityHeap h sort_key_agree [of h "order_key rank'" "order_key rank"]
    by (simp add: queue_good_def heap_iter_eq_sort)
qed

text \<open>The skipped requests come back.\<close>

lemma fold_prepend: "fold (prepend_request rank) rs (Deque q) = Deque (rev rs @ q)"
  by (induction rs arbitrary: q) simp_all

lemma prepend_requests_good:
  assumes "queue_good rank p q" "queue_good rank p other"
  shows "queue_good rank p (prepend_requests rank other q) \<and>
    mset (queue_iter rank (prepend_requests rank other q)) = mset (queue_iter rank other) + mset (queue_iter rank q)"
proof (cases q)
  case (Deque ds)
  with assms(1) show ?thesis by (auto simp: queue_good_def)
next
  case (PriorityHeap h)
  with wq.add_list [OF assms(1), of "queue_iter rank other"] show ?thesis by (metis prepend_requests.simps(2))
qed

text \<open>Requests skipped one after the other come back in front in their order.\<close>

lemma skipped_return_in_order:
  "prepend_requests rank (fold (prepend_request rank) rs (Deque [])) (Deque q) = Deque (rs @ q)"
  by (simp add: fold_prepend)

end
