(* ===== verification/EngineRequest.thy ===== *)
theory EngineRequest
  imports CacheCoordinator RequestQueue
begin

text \<open>
  Requests of the engine and when they stop (\<open>src/vllm-v0.17.1/vllm/v1/request.py\<close>,
  \<open>vllm/v1/core/sched/utils.py\<close>). The block hasher a request holds is an argument; \<open>request_hasher\<close> is
  the one of \<open>BlockHash\<close>. Trace headers, log probabilities and events are not kept.
\<close>

declare map_of_eq_Some_iff [simp del]

section \<open>Status\<close>

datatype request_status =
    WAITING | WAITING_FOR_FSM | WAITING_FOR_REMOTE_KVS | WAITING_FOR_STREAMING_REQ | RUNNING | PREEMPTED
  | FINISHED_STOPPED | FINISHED_LENGTH_CAPPED | FINISHED_ABORTED | FINISHED_IGNORED | FINISHED_ERROR
  | FINISHED_REPETITION

text \<open>The values \<open>enum.auto()\<close> gives; statuses are compared by them.\<close>

fun status_value :: "request_status \<Rightarrow> int" where
  "status_value WAITING = 1"
| "status_value WAITING_FOR_FSM = 2"
| "status_value WAITING_FOR_REMOTE_KVS = 3"
| "status_value WAITING_FOR_STREAMING_REQ = 4"
| "status_value RUNNING = 5"
| "status_value PREEMPTED = 6"
| "status_value FINISHED_STOPPED = 7"
| "status_value FINISHED_LENGTH_CAPPED = 8"
| "status_value FINISHED_ABORTED = 9"
| "status_value FINISHED_IGNORED = 10"
| "status_value FINISHED_ERROR = 11"
| "status_value FINISHED_REPETITION = 12"

instantiation request_status :: linorder
begin

definition less_eq_request_status :: "request_status \<Rightarrow> request_status \<Rightarrow> bool" where
  "less_eq_request_status x y \<longleftrightarrow> status_value x \<le> status_value y"

definition less_request_status :: "request_status \<Rightarrow> request_status \<Rightarrow> bool" where
  "less_request_status x y \<longleftrightarrow> status_value x < status_value y"

instance
proof
  fix x y :: request_status
  show "x \<le> y \<Longrightarrow> y \<le> x \<Longrightarrow> x = y"
    by (cases x; cases y) (simp_all add: less_eq_request_status_def)
qed (auto simp: less_eq_request_status_def less_request_status_def)

end

definition is_finished :: "request_status \<Rightarrow> bool" where
  "is_finished st \<longleftrightarrow> PREEMPTED < st"

datatype finish_reason = FR_STOP | FR_LENGTH | FR_ABORT | FR_ERROR | FR_REPETITION

fun get_finished_reason :: "request_status \<Rightarrow> finish_reason option" where
  "get_finished_reason FINISHED_STOPPED = Some FR_STOP"
| "get_finished_reason FINISHED_LENGTH_CAPPED = Some FR_LENGTH"
| "get_finished_reason FINISHED_ABORTED = Some FR_ABORT"
| "get_finished_reason FINISHED_IGNORED = Some FR_LENGTH"
| "get_finished_reason FINISHED_ERROR = Some FR_ERROR"
| "get_finished_reason WAITING_FOR_STREAMING_REQ = Some FR_STOP"
| "get_finished_reason FINISHED_REPETITION = Some FR_REPETITION"
| "get_finished_reason _ = None"

section \<open>Requests\<close>

record repetition_params =
  max_pattern_size :: int
  min_pattern_size :: int
  min_count :: int

record sampling_params =
  min_tokens :: int
  max_new_tokens :: "int option"
  eos_token_id :: "int option"
  stop_token_ids :: "int list"
  repetition_detection :: "repetition_params option"
  skip_cache :: "bool option"

datatype stop_reason = StopToken int | RepetitionDetected

text \<open>The next chunk of input of a streaming session; \<open>None\<close> in the queue of a session ends it.\<close>

record streaming_update =
  update_tokens :: "int list option"
  update_mm :: "mm_feature list"
  update_max_tokens :: int
  update_arrival :: real
  update_params :: "sampling_params option"

record request = cache_request +
  client_index :: int
  priority :: int
  arrival_time :: real
  status :: request_status
  stop_reason :: "stop_reason option"
  sampling :: "sampling_params option"
  pooling :: bool
  max_tokens :: int
  use_structured_output :: bool
  prompt_token_ids :: "int list option"
  num_prompt_tokens :: int
  output_token_ids :: "int list"
  num_output_placeholders :: int
  discard_latest_async_tokens :: bool
  spec_token_ids :: "int list"
  num_cached_tokens :: int
  is_prefill_chunk :: bool
  num_preemptions :: int
  resumable :: bool
  streaming_queue :: "streaming_update option list option"

type_synonym block_hasher = "kv_request \<Rightarrow> bytes list"

definition request_hasher :: "hasher \<Rightarrow> bytes \<Rightarrow> int \<Rightarrow> block_hasher" where
  "request_hasher hf none bsize r = (case request_block_hasher hf none bsize r of Some (Inr hs) \<Rightarrow> hs | _ \<Rightarrow> [])"

definition update_block_hashes :: "block_hasher \<Rightarrow> request \<Rightarrow> request" where
  "update_block_hashes hash_new r = r\<lparr>block_hashes := block_hashes r @ hash_new (kv_request.truncate r)\<rparr>"

definition append_output_token_id :: "block_hasher \<Rightarrow> int \<Rightarrow> request \<Rightarrow> request" where
  "append_output_token_id hash_new t r =
     update_block_hashes hash_new (r\<lparr>output_token_ids := output_token_ids r @ [t], all_token_ids := all_token_ids r @ [t]\<rparr>)"

definition num_tokens_with_spec :: "request \<Rightarrow> int" where
  "num_tokens_with_spec r = int (length (all_token_ids r)) + int (length (spec_token_ids r))"

definition num_output_tokens :: "request \<Rightarrow> int" where
  "num_output_tokens r = int (length (output_token_ids r))"

definition prompt_length :: "int list option \<Rightarrow> nat option \<Rightarrow> py_error + nat" where
  "prompt_length prompt embeds =
     (case prompt of
        None \<Rightarrow> (case embeds of None \<Rightarrow> Inl ValueError | Some n \<Rightarrow> Inr n)
      | Some ts \<Rightarrow> if embeds \<noteq> None \<and> embeds \<noteq> Some (length ts) then Inl ValueError else Inr (length ts))"

text \<open>\<open>Request.__init__\<close>: \<open>pooling_skip\<close> is what the pooling parameters, when there are any, say about
  reading the prefix cache; \<open>embeds\<close> is the length of the prompt embeddings and \<open>digest\<close> their digest.\<close>

definition request_init ::
  "block_hasher \<Rightarrow> string \<Rightarrow> int list option \<Rightarrow> nat option \<Rightarrow> (int \<Rightarrow> int \<Rightarrow> bytes) option \<Rightarrow> sampling_params option
     \<Rightarrow> bool option option \<Rightarrow> bool \<Rightarrow> int \<Rightarrow> real \<Rightarrow> mm_feature list \<Rightarrow> (string \<times> int) option \<Rightarrow> string option \<Rightarrow> int \<Rightarrow> bool
     \<Rightarrow> py_error + request" where
  "request_init hash_new rid prompt embeds digest params pooling_skip structured client arrival mm lora salt prio resum =
     ebind (case pooling_skip of
              Some _ \<Rightarrow> Inr (1, WAITING)
            | None \<Rightarrow> (case params of
                None \<Rightarrow> Inl ValueError
              | Some sp \<Rightarrow> (case max_new_tokens sp of
                  None \<Rightarrow> Inl AssertionError
                | Some n \<Rightarrow> Inr (n, if structured then WAITING_FOR_FSM else WAITING))))
       (\<lambda>(max, st). ebind (prompt_length prompt embeds) (\<lambda>n.
          Inr (update_block_hashes hash_new
            \<lparr>all_token_ids = (case prompt of Some ts \<Rightarrow> ts | None \<Rightarrow> replicate n 0), block_hashes = [],
             mm_features = mm, lora_request = lora, cache_salt = salt, embeds_digest = digest, request_id = rid,
             num_computed_tokens = 0,
             skip_reading_prefix_cache =
               (case Option.bind params skip_cache of
                  Some b \<Rightarrow> b
                | None \<Rightarrow> (case pooling_skip of Some (Some b) \<Rightarrow> b | _ \<Rightarrow> False)),
             client_index = client, priority = prio, arrival_time = arrival, status = st, stop_reason = None,
             sampling = params, pooling = (pooling_skip \<noteq> None), max_tokens = max,
             use_structured_output = structured, prompt_token_ids = prompt, num_prompt_tokens = int n,
             output_token_ids = [], num_output_placeholders = 0, discard_latest_async_tokens = False,
             spec_token_ids = [], num_cached_tokens = -1, is_prefill_chunk = False, num_preemptions = 0,
             resumable = resum, streaming_queue = None\<rparr>)))"

definition update_from_request :: "request \<Rightarrow> streaming_update option" where
  "update_from_request r =
     (if \<not> resumable r then None
      else Some \<lparr>update_tokens = prompt_token_ids r, update_mm = mm_features r, update_max_tokens = max_tokens r,
                 update_arrival = arrival_time r, update_params = sampling r\<rparr>)"

section \<open>Repetition\<close>

text \<open>\<open>token_ids[-k]\<close>, and the lazy evaluation of a sequence of tests.\<close>

definition token_at_end :: "int list \<Rightarrow> int \<Rightarrow> py_error + int" where
  "token_at_end toks k =
     (if 0 < k \<and> k \<le> int (length toks) then Inr (toks ! nat (int (length toks) - k)) else Inl IndexError)"

fun check_all :: "(py_error + bool) list \<Rightarrow> py_error + bool" where
  "check_all [] = Inr True"
| "check_all (c # cs) = ebind c (\<lambda>b. if b then check_all cs else Inr False)"

definition has_repeating_pattern :: "int list \<Rightarrow> int \<Rightarrow> int \<Rightarrow> py_error + bool" where
  "has_repeating_pattern toks pattern_len reps =
     check_all (concat (map (\<lambda>n.
       map_sum id (\<lambda>_. True) (token_at_end toks n) #
       map (\<lambda>m. ebind (token_at_end toks n) (\<lambda>target.
              map_sum id (\<lambda>t. t = target) (token_at_end toks (pattern_len * m + n)))) [1..reps - 1])
       [1..pattern_len]))"

fun repetition_scan :: "int list \<Rightarrow> int \<Rightarrow> int list \<Rightarrow> py_error + bool" where
  "repetition_scan toks reps [] = Inr False"
| "repetition_scan toks reps (p # ps) =
     (if int (length toks) < p * reps then Inr False
      else ebind (has_repeating_pattern toks p reps) (\<lambda>b. if b then Inr True else repetition_scan toks reps ps))"

definition check_sequence_repetition :: "int list \<Rightarrow> repetition_params \<Rightarrow> py_error + bool" where
  "check_sequence_repetition toks ps =
     (let smallest = (if min_pattern_size ps \<le> 0 then 1 else min_pattern_size ps)
      in if max_pattern_size ps \<le> 0 \<or> min_count ps < 2 \<or> max_pattern_size ps < smallest then Inr False
         else repetition_scan toks (min_count ps) [smallest..max_pattern_size ps])"

section \<open>Stopping\<close>

text \<open>\<open>remove_all\<close> of a list and a set, given as the list of its elements.\<close>

definition remove_all :: "'a list \<Rightarrow> 'a list \<Rightarrow> 'a list" where
  "remove_all xs items =
     (case items of [] \<Rightarrow> xs | [x] \<Rightarrow> remove1 x xs | _ \<Rightarrow> filter (\<lambda>x. x \<notin> set items) xs)"

definition check_stop :: "int \<Rightarrow> request \<Rightarrow> py_error + bool \<times> request" where
  "check_stop max_len r =
     (if pooling r then Inl AssertionError
      else case sampling r of
        None \<Rightarrow> Inl AssertionError
      | Some sp \<Rightarrow>
          if num_output_tokens r < min_tokens sp then Inr (False, r)
          else if output_token_ids r = [] then Inl IndexError
          else
            let t = last (output_token_ids r)
            in if eos_token_id sp = Some t then Inr (True, r\<lparr>status := FINISHED_STOPPED\<rparr>)
               else if t \<in> set (stop_token_ids sp)
               then Inr (True, r\<lparr>status := FINISHED_STOPPED, stop_reason := Some (StopToken t)\<rparr>)
               else if max_len \<le> num_tokens r \<or> max_tokens r \<le> num_output_tokens r
               then Inr (True, r\<lparr>status := FINISHED_LENGTH_CAPPED\<rparr>)
               else (case repetition_detection sp of
                       None \<Rightarrow> Inr (False, r)
                     | Some ps \<Rightarrow>
                         map_sum id (\<lambda>b. if b then (True, r\<lparr>status := FINISHED_REPETITION, stop_reason := Some RepetitionDetected\<rparr>)
                                          else (False, r))
                           (check_sequence_repetition (output_token_ids r) ps)))"

end
