(* ===== verification/EngineScheduler.thy ===== *)
theory EngineScheduler
  imports EngineRequest
begin

text \<open>
  The scheduler of the engine (\<open>src/vllm-v0.17.1/vllm/v1/core/sched/scheduler.py\<close>, \<open>async_scheduler.py\<close>):
  its state, one scheduling pass and the bookkeeping after it. The configuration has no KV or encoder
  connector, no multimodal inputs and no Mamba layers, and statistics are off; whether a grammar has been
  compiled is an argument. \<open>Request\<close> objects live in a store addressed by request id; \<open>request_ids\<close> are
  the keys of \<open>Scheduler.requests\<close>. The results are options, because the search for a cached prefix is a
  partial function: \<open>None\<close> is a call that does not return. An error ends the engine, so the state at an
  error is not kept.
\<close>

declare map_of_eq_Some_iff [simp del]

section \<open>Results\<close>

type_synonym 'a res = "(py_error + 'a) option"

definition ok :: "'a \<Rightarrow> 'a res" where
  "ok x = Some (Inr x)"

definition fail :: "py_error \<Rightarrow> 'a res" where
  "fail e = Some (Inl e)"

definition obind :: "'a res \<Rightarrow> ('a \<Rightarrow> 'b res) \<Rightarrow> 'b res" where
  "obind r f = (case r of None \<Rightarrow> None | Some (Inl e) \<Rightarrow> Some (Inl e) | Some (Inr x) \<Rightarrow> f x)"

lemma obind_simps [simp]: "obind None f = None" "obind (Some (Inl e)) f = Some (Inl e)" "obind (Some (Inr x)) f = f x"
    "obind (ok x) f = f x" "obind (fail e) f = fail e"
  by (simp_all add: obind_def ok_def fail_def)

lemma ok_iff [simp]: "ok x = ok y \<longleftrightarrow> x = y" "ok x \<noteq> fail e" "fail e \<noteq> ok x" "ok x \<noteq> None" "fail e \<noteq> None"
  by (simp_all add: ok_def fail_def)

lemma ok_eqs [simp]: "ok x = Some y \<longleftrightarrow> y = Inr x" "Some y = ok x \<longleftrightarrow> y = Inr x" "fail e = Some y \<longleftrightarrow> y = Inl e"
  by (auto simp: ok_def fail_def)

lemma obind_ok_iff: "obind r f = ok y \<longleftrightarrow> (\<exists>x. r = ok x \<and> f x = ok y)"
  by (cases r) (auto simp: obind_def ok_def split: sum.splits)

section \<open>State\<close>

datatype pause_state = UNPAUSED | PAUSED_NEW | PAUSED_ALL

record sched_config =
  sched_policy :: policy
  max_num_running_reqs :: nat
  max_num_scheduled_tokens :: int
  model_len :: int
  num_spec_tokens :: nat
  num_lookahead_tokens :: int
  long_prefill_token_threshold :: int
  enable_chunked_prefill :: bool
  max_loras :: "nat option"
  needs_kv_cache_zeroing :: bool
  async_scheduling :: bool
  use_pp :: bool
  v2_runner :: bool
  has_spec_config :: bool
  hash_new :: block_hasher

record scheduler =
  config :: sched_config
  objs :: "string \<Rightarrow> request"
  request_ids :: "string list"
  waiting :: request_queue
  running :: "string list"
  finished_req_ids :: "string list"
  finished_by_client :: "(int, string list) dict option"
  prev_step_scheduled :: "string list"
  num_waiting_for_streaming :: int
  kv :: kv_manager
  pause :: pause_state
  enable_sd :: bool

record cached_data =
  req_ids :: "string list"
  resumed_req_ids :: "string list"
  new_token_ids :: "int list list"
  sent_token_ids :: "(string, int list) dict"
  new_blocks_sent :: "nat list list option list"
  sent_computed_tokens :: "int list"
  sent_output_tokens :: "int list"

record new_data =
  new_req_id :: string
  new_block_table :: "nat list list"
  new_computed :: int
  prefill_token_ids :: "int list option"

record sched_output =
  scheduled_new_reqs :: "new_data list"
  scheduled_cached_reqs :: cached_data
  num_scheduled_tokens :: "(string, int) dict"
  total_num_scheduled_tokens :: int
  scheduled_spec_decode_tokens :: "(string, int list) dict"
  common_prefix :: "int list"
  preempted_req_ids :: "string list"
  sent_finished_req_ids :: "string list"
  spec_decode_enabled :: bool
  new_block_ids_to_zero :: "nat list option"
  has_structured_output :: bool
  pending_structured_output :: bool
  num_invalid_spec_tokens :: "(string, int) dict option"

text \<open>\<open>Scheduler.__init__\<close>: the policy is given by name, the token budget by two settings of which the
  first one counts unless it is zero.\<close>

definition scheduling_policy :: "string \<Rightarrow> py_error + policy" where
  "scheduling_policy name = (if name = ''fcfs'' then Inr FCFS else if name = ''priority'' then Inr PRIORITY else Inl ValueError)"

definition token_budget_of :: "int option \<Rightarrow> int \<Rightarrow> int" where
  "token_budget_of scheduled batched = (case scheduled of Some n \<Rightarrow> if n = 0 then batched else n | None \<Rightarrow> batched)"

definition lookahead_of :: "int \<Rightarrow> bool \<Rightarrow> bool \<Rightarrow> int" where
  "lookahead_of num_spec eagle draft_model = (if eagle \<or> draft_model then num_spec else 0)"

definition scheduler_init :: "sched_config \<Rightarrow> bool \<Rightarrow> kv_manager \<Rightarrow> (string \<Rightarrow> request) \<Rightarrow> scheduler" where
  "scheduler_init c include_finished_set k store =
     \<lparr>config = c, objs = store, request_ids = [], waiting = create_request_queue (sched_policy c), running = [],
      finished_req_ids = [], finished_by_client = (if include_finished_set then Some [] else None),
      prev_step_scheduled = [], num_waiting_for_streaming = 0, kv = k, pause = UNPAUSED, enable_sd = has_spec_config c\<rparr>"

definition upd_req :: "string \<Rightarrow> (request \<Rightarrow> request) \<Rightarrow> scheduler \<Rightarrow> scheduler" where
  "upd_req rid f s = s\<lparr>objs := (objs s)(rid := f (objs s rid))\<rparr>"

definition rank_of :: "scheduler \<Rightarrow> rank" where
  "rank_of s = (\<lambda>rid. (priority (objs s rid), arrival_time (objs s rid)))"

definition creq :: "scheduler \<Rightarrow> string \<Rightarrow> cache_request" where
  "creq s rid = cache_request.truncate (objs s rid)"

definition get_request :: "scheduler \<Rightarrow> string \<Rightarrow> request option" where
  "get_request s rid = (if rid \<in> set (request_ids s) then Some (objs s rid) else None)"

section \<open>Preemption\<close>

definition free_kv :: "string \<Rightarrow> scheduler \<Rightarrow> scheduler res" where
  "free_kv rid s = (case free_slots (creq s rid) (kv s) of (Inl e, _) \<Rightarrow> fail e | (Inr _, k) \<Rightarrow> ok (s\<lparr>kv := k\<rparr>))"

definition preempt_request :: "string \<Rightarrow> scheduler \<Rightarrow> scheduler res" where
  "preempt_request rid s =
     (if status (objs s rid) \<noteq> RUNNING then fail AssertionError
      else obind (free_kv rid s) (\<lambda>s1.
        let s2 = upd_req rid (\<lambda>r. r\<lparr>status := PREEMPTED, num_computed_tokens := 0, spec_token_ids := [],
                                    num_preemptions := num_preemptions r + 1\<rparr>) s1
        in ok (s2\<lparr>waiting := prepend_request (rank_of s2) rid (waiting s2)\<rparr>)))"

section \<open>Scheduling the running requests\<close>

text \<open>The local variables of \<open>schedule\<close>, with the scheduler.\<close>

record pass =
  sch :: scheduler
  token_budget :: int
  new_reqs :: "string list"
  resumed_reqs :: "string list"
  running_reqs :: "string list"
  preempted_reqs :: "string list"
  req_to_new_blocks :: "(string, nat list list option) dict"
  scheduled_tokens :: "(string, int) dict"
  spec_decode_tokens :: "(string, int list) dict"
  loras :: "int list"

text \<open>\<open>max(..., key=...)\<close> is the first of the largest.\<close>

fun first_max :: "('a \<Rightarrow> 'k::linorder) \<Rightarrow> 'a \<Rightarrow> 'a list \<Rightarrow> 'a" where
  "first_max key x [] = x"
| "first_max key x (y # ys) = first_max key (if key x < key y then y else x) ys"

text \<open>The request to preempt, the index and the pass without it.\<close>

definition pick_victim :: "nat \<Rightarrow> pass \<Rightarrow> (string \<times> nat \<times> pass) res" where
  "pick_victim idx st =
     (let s = sch st in
      case running s of
        [] \<Rightarrow> fail (if sched_policy (config s) = PRIORITY then ValueError else IndexError)
      | x # xs \<Rightarrow>
          if sched_policy (config s) = PRIORITY
          then
            let v = first_max (rank_of s) x xs;
                st1 = st\<lparr>sch := s\<lparr>running := remove1 v (running s)\<rparr>\<rparr>
            in if v \<in> set (running_reqs st)
               then (case map_of (scheduled_tokens st) v of
                       None \<Rightarrow> fail KeyError
                     | Some n \<Rightarrow>
                         if v \<notin> set (dict_keys (req_to_new_blocks st)) then fail KeyError
                         else ok (v, idx - 1,
                           st1\<lparr>running_reqs := remove1 v (running_reqs st), token_budget := token_budget st + n,
                               scheduled_tokens := AList.delete v (scheduled_tokens st),
                               req_to_new_blocks := AList.delete v (req_to_new_blocks st),
                               spec_decode_tokens := AList.delete v (spec_decode_tokens st)\<rparr>))
               else ok (v, idx, st1)
          else ok (last (running s), idx, st\<lparr>sch := s\<lparr>running := butlast (running s)\<rparr>\<rparr>))"

definition preempt_victim :: "nat \<Rightarrow> pass \<Rightarrow> (string \<times> nat \<times> pass) res" where
  "preempt_victim idx st =
     obind (pick_victim idx st) (\<lambda>(v, idx', st1).
       obind (preempt_request v (sch st1)) (\<lambda>s.
         ok (v, idx', st1\<lparr>sch := s, preempted_reqs := preempted_reqs st1 @ [v]\<rparr>)))"

lemma free_kv_running: "free_kv rid s = ok s' \<Longrightarrow> running s' = running s \<and> config s' = config s"
  by (auto simp: free_kv_def split: prod.splits sum.splits)

lemma preempt_request_running: "preempt_request rid s = ok s' \<Longrightarrow> running s' = running s \<and> config s' = config s"
  by (auto simp: preempt_request_def obind_ok_iff Let_def upd_req_def dest!: free_kv_running split: if_splits)

lemma first_max_mem: "first_max key x ys \<in> set (x # ys)"
proof (induction ys arbitrary: x)
  case (Cons y ys)
  show ?case using Cons.IH [of "if key x < key y then y else x"] by auto
qed simp

lemma preempt_victim_shorter:
  assumes "preempt_victim idx st = ok (v, idx', st')"
  shows "Suc (length (running (sch st'))) = length (running (sch st)) \<and> idx \<le> Suc idx' \<and> idx' \<le> idx"
proof -
  obtain st1 s where pick: "pick_victim idx st = ok (v, idx', st1)" and pre: "preempt_request v (sch st1) = ok s"
    and st': "st' = st1\<lparr>sch := s, preempted_reqs := preempted_reqs st1 @ [v]\<rparr>"
    using assms by (auto simp: preempt_victim_def obind_ok_iff)
  have "Suc (length (running (sch st1))) = length (running (sch st)) \<and> idx \<le> Suc idx' \<and> idx' \<le> idx"
  proof (cases "running (sch st)")
    case Nil
    with pick show ?thesis by (simp add: pick_victim_def)
  next
    case (Cons x xs)
    have mem: "first_max (rank_of (sch st)) x xs \<in> set (x # xs)" by (rule first_max_mem)
    then have "length (remove1 (first_max (rank_of (sch st)) x xs) (x # xs)) = length xs"
      using length_remove1 [of "first_max (rank_of (sch st)) x xs" "x # xs"] by simp
    with pick Cons show ?thesis
      by (auto simp: pick_victim_def Let_def split: if_splits option.splits simp del: remove1.simps)
  qed
  with preempt_request_running [OF pre] st' show ?thesis by simp
qed

text \<open>The inner loop: allocate slots, or preempt and try again. No blocks: the request itself has been
  preempted.\<close>

function allocate_or_preempt :: "string \<Rightarrow> int \<Rightarrow> nat \<Rightarrow> pass \<Rightarrow> (nat list list option \<times> nat \<times> pass) res" where
  "allocate_or_preempt rid n idx st =
     (let s = sch st;
          active_lookahead = (if enable_sd s then num_lookahead_tokens (config s) else 0)
      in case allocate_slots (creq s rid) n 0 None active_lookahead 0 False (kv s) of
           (Inl e, _) \<Rightarrow> fail e
         | (Inr (Some new), k) \<Rightarrow> ok (Some new, idx, st\<lparr>sch := s\<lparr>kv := k\<rparr>\<rparr>)
         | (Inr None, k) \<Rightarrow>
             (case preempt_victim idx (st\<lparr>sch := s\<lparr>kv := k\<rparr>\<rparr>) of
                None \<Rightarrow> None
              | Some (Inl e) \<Rightarrow> fail e
              | Some (Inr (v, idx', st')) \<Rightarrow>
                  if v = rid then ok (None, idx', st') else allocate_or_preempt rid n idx' st'))"
  by pat_completeness auto

termination
proof (relation "measure (\<lambda>(rid, n, idx, st). length (running (sch st)))", goal_cases)
  case 2
  then show ?case using preempt_victim_shorter by (fastforce simp: ok_def)
qed simp

declare allocate_or_preempt.simps [simp del]

lemma preempt_victim_config:
  assumes "preempt_victim idx st = ok (v, idx', st')"
  shows "config (sch st') = config (sch st)"
proof -
  obtain st1 s where pick: "pick_victim idx st = ok (v, idx', st1)" and pre: "preempt_request v (sch st1) = ok s"
    and st': "st' = st1\<lparr>sch := s, preempted_reqs := preempted_reqs st1 @ [v]\<rparr>"
    using assms by (auto simp: preempt_victim_def obind_ok_iff)
  have "config (sch st1) = config (sch st)"
    using pick by (auto simp: pick_victim_def Let_def split: if_splits option.splits list.splits)
  with preempt_request_running [OF pre] st' show ?thesis by simp
qed

definition try_allocate :: "string \<Rightarrow> int \<Rightarrow> scheduler \<Rightarrow> (py_error + nat list list option) \<times> kv_manager" where
  "try_allocate rid n s =
     allocate_slots (creq s rid) n 0 None (if enable_sd s then num_lookahead_tokens (config s) else 0) 0 False (kv s)"

lemma allocate_or_preempt_eq:
  "allocate_or_preempt rid n idx st =
     (case try_allocate rid n (sch st) of
        (Inl e, _) \<Rightarrow> fail e
      | (Inr (Some new), k) \<Rightarrow> ok (Some new, idx, st\<lparr>sch := (sch st)\<lparr>kv := k\<rparr>\<rparr>)
      | (Inr None, k) \<Rightarrow> obind (preempt_victim idx (st\<lparr>sch := (sch st)\<lparr>kv := k\<rparr>\<rparr>)) (\<lambda>(v, idx', st').
           if v = rid then ok (None, idx', st') else allocate_or_preempt rid n idx' st'))"
  by (subst allocate_or_preempt.simps)
    (auto simp: Let_def try_allocate_def obind_def fail_def split: prod.split sum.split option.split)

text \<open>Computation induction for a call that returns: the slots were there, the request itself was preempted,
  or another one was and the call goes on.\<close>

lemma allocate_or_preempt_induct [consumes 1, case_names slots gave_up other]:
  assumes "allocate_or_preempt rid n idx st = ok (res, idx', st')"
    and "\<And>idx st new k. try_allocate rid n (sch st) = (Inr (Some new), k) \<Longrightarrow> P idx st (Some new) idx (st\<lparr>sch := (sch st)\<lparr>kv := k\<rparr>\<rparr>)"
    and "\<And>idx st k i2 st2. try_allocate rid n (sch st) = (Inr None, k) \<Longrightarrow>
      preempt_victim idx (st\<lparr>sch := (sch st)\<lparr>kv := k\<rparr>\<rparr>) = ok (rid, i2, st2) \<Longrightarrow> P idx st None i2 st2"
    and "\<And>idx st k v i2 st2. try_allocate rid n (sch st) = (Inr None, k) \<Longrightarrow>
      preempt_victim idx (st\<lparr>sch := (sch st)\<lparr>kv := k\<rparr>\<rparr>) = ok (v, i2, st2) \<Longrightarrow> v \<noteq> rid \<Longrightarrow>
      P i2 st2 res idx' st' \<Longrightarrow> P idx st res idx' st'"
  shows "P idx st res idx' st'"
  using assms(1)
proof (induction "length (running (sch st))" arbitrary: idx st rule: less_induct)
  case less
  obtain al k where al: "try_allocate rid n (sch st) = (al, k)" by fastforce
  let ?st = "st\<lparr>sch := (sch st)\<lparr>kv := k\<rparr>\<rparr>"
  note run = less.prems [unfolded allocate_or_preempt_eq [of rid n idx st] al]
  consider (new) new where "al = Inr (Some new)" | (none) "al = Inr None" | (err) e where "al = Inl e"
    by (cases al) auto
  then show ?case
  proof cases
    case new
    with run have "res = Some new" "idx' = idx" "st' = ?st" by auto
    with assms(2) [of st new k idx] al new show ?thesis by simp
  next
    case none
    with run obtain v i2 st2 where v: "preempt_victim idx ?st = ok (v, i2, st2)"
      "(if v = rid then ok (None, i2, st2) else allocate_or_preempt rid n i2 st2) = ok (res, idx', st')"
      by (auto simp: obind_ok_iff)
    show ?thesis
    proof (cases "v = rid")
      case True
      with v(2) have "res = None" "idx' = i2" "st' = st2" by auto
      with assms(3) [of st k idx i2 st2] al none v(1) True show ?thesis by simp
    next
      case False
      have "length (running (sch st2)) < length (running (sch st))" using preempt_victim_shorter [OF v(1)] by simp
      from less.hyps [OF this] v(2) False have "P i2 st2 res idx' st'" by simp
      with assms(4) [of st k idx v i2 st2] al none v(1) False show ?thesis by simp
    qed
  qed (use run in simp)
qed

lemma allocate_or_preempt_shorter:
  "allocate_or_preempt rid n idx st = ok (res, idx', st') \<Longrightarrow>
   length (running (sch st')) + idx \<le> length (running (sch st)) + idx' \<and> idx' \<le> idx \<and>
   length (running (sch st')) \<le> length (running (sch st))"
proof (induction rule: allocate_or_preempt_induct)
  case (gave_up idx st k i2 st2)
  from preempt_victim_shorter [OF gave_up(2)] show ?case by simp
next
  case (other idx st k v i2 st2)
  from preempt_victim_shorter [OF other(2)] other(4) show ?case by auto
qed simp

text \<open>The number of new tokens of a running request.\<close>

definition running_tokens :: "scheduler \<Rightarrow> int \<Rightarrow> request \<Rightarrow> int" where
  "running_tokens s budget r =
     (let n = (if enable_sd s then num_tokens_with_spec r else num_tokens r) + num_output_placeholders r - num_computed_tokens r;
          threshold = long_prefill_token_threshold (config s);
          n1 = (if 0 < threshold \<and> threshold < n then threshold else n)
      in min (min n1 budget) (model_len (config s) - 1 - num_computed_tokens r))"

definition clear_spec :: "string \<Rightarrow> scheduler \<Rightarrow> scheduler" where
  "clear_spec rid s =
     (if \<not> enable_sd s \<and> spec_token_ids (objs s rid) \<noteq> [] then upd_req rid (\<lambda>r. r\<lparr>spec_token_ids := []\<rparr>) s else s)"

text \<open>A request that got its slots.\<close>

definition record_running :: "string \<Rightarrow> int \<Rightarrow> nat list list \<Rightarrow> pass \<Rightarrow> pass" where
  "record_running rid n new st =
     (let s = sch st; r = objs s rid;
          st1 = st\<lparr>running_reqs := running_reqs st @ [rid],
                   req_to_new_blocks := AList.update rid (create_kv_cache_blocks new) (req_to_new_blocks st),
                   scheduled_tokens := AList.update rid n (scheduled_tokens st), token_budget := token_budget st - n\<rparr>;
          num_spec = n + num_computed_tokens r - num_tokens r - num_output_placeholders r
      in if spec_token_ids r = [] then st1
         else st1\<lparr>spec_decode_tokens :=
                    (if enable_sd s \<and> 0 < num_spec
                     then AList.update rid (take (nat num_spec) (spec_token_ids r)) (spec_decode_tokens st)
                     else spec_decode_tokens st),
                  sch := upd_req rid (\<lambda>r. r\<lparr>spec_token_ids := []\<rparr>) s\<rparr>)"

text \<open>One round of the loop over the running requests; the loop goes on with the new index, or stops.\<close>

definition running_round :: "nat \<Rightarrow> pass \<Rightarrow> (nat option \<times> pass) res" where
  "running_round idx st =
     (let rid = running (sch st) ! idx;
          st1 = st\<lparr>sch := clear_spec rid (sch st)\<rparr>; s = sch st1; r = objs s rid
      in if 0 < num_output_placeholders r \<and>
            num_prompt_tokens r + max_tokens r \<le> num_computed_tokens r + 2 - num_output_placeholders r
         then ok (Some (Suc idx), st1)
         else let n = running_tokens s (token_budget st) r
              in if n = 0 then ok (Some (Suc idx), st1)
                 else obind (allocate_or_preempt rid n idx st1) (\<lambda>(new, idx', st2).
                   case new of
                     None \<Rightarrow> ok (None, st2)
                   | Some bs \<Rightarrow> ok (Some (Suc idx'), record_running rid n bs st2)))"

lemma clear_spec_frame [simp]: "running (clear_spec rid s) = running s" "config (clear_spec rid s) = config s"
    "waiting (clear_spec rid s) = waiting s"
  by (simp_all add: clear_spec_def upd_req_def)

lemma record_running_frame [simp]: "running (sch (record_running rid n new st)) = running (sch st)"
  by (simp add: record_running_def Let_def upd_req_def)

lemma running_round_shorter:
  assumes "running_round idx st = ok (Some idx', st')" "idx < length (running (sch st))"
  shows "length (running (sch st')) - idx' < length (running (sch st)) - idx"
proof -
  let ?rid = "running (sch st) ! idx"
  let ?st = "st\<lparr>sch := clear_spec ?rid (sch st)\<rparr>"
  consider "idx' = Suc idx" "st' = ?st"
    | n bs i2 st2 where "allocate_or_preempt ?rid n idx ?st = ok (Some bs, i2, st2)" "idx' = Suc i2"
        "st' = record_running ?rid n bs st2"
    using assms(1) by (auto simp: running_round_def Let_def obind_ok_iff split: if_splits option.splits)
  then show ?thesis
  proof cases
    case 1
    with assms(2) show ?thesis by simp
  next
    case 2
    from allocate_or_preempt_shorter [OF 2(1)] have "length (running (sch st2)) + idx \<le> length (running (sch st)) + i2" by simp
    then have "length (running (sch st2)) - Suc i2 < length (running (sch st)) - idx" using assms(2) by linarith
    with 2(2,3) show ?thesis by simp
  qed
qed

function schedule_running :: "nat \<Rightarrow> pass \<Rightarrow> pass res" where
  "schedule_running idx st =
     (if idx < length (running (sch st)) \<and> 0 < token_budget st
      then (case running_round idx st of
              None \<Rightarrow> None
            | Some (Inl e) \<Rightarrow> fail e
            | Some (Inr (None, st')) \<Rightarrow> ok st'
            | Some (Inr (Some idx', st')) \<Rightarrow> schedule_running idx' st')
      else ok st)"
  by pat_completeness auto

termination
proof (relation "measure (\<lambda>(idx, st). length (running (sch st)) - idx)", goal_cases)
  case 2
  then show ?case using running_round_shorter by (fastforce simp: ok_def)
qed simp

declare schedule_running.simps [simp del]

section \<open>Scheduling the waiting requests\<close>

text \<open>A round either stops the loop (\<open>False\<close>) or goes on, with the pass and the queue of skipped requests.\<close>

type_synonym round = "bool \<times> pass \<times> request_queue"

definition skip_request :: "string \<Rightarrow> pass \<Rightarrow> request_queue \<Rightarrow> round res" where
  "skip_request rid st skipped =
     (let s = sch st in
      case pop_request (rank_of s) (waiting s) of
        Inl e \<Rightarrow> fail e
      | Inr (_, q) \<Rightarrow> ok (True, st\<lparr>sch := s\<lparr>waiting := q\<rparr>\<rparr>, prepend_request (rank_of s) rid skipped))"

text \<open>The popped request \<open>rid'\<close> is the one peeked at, \<open>rid\<close>; the code reads both.\<close>

definition admit :: "string \<Rightarrow> string \<Rightarrow> int \<Rightarrow> int \<Rightarrow> pass \<Rightarrow> pass res" where
  "admit rid rid' n computed st =
     (let s = (sch st)\<lparr>running := running (sch st) @ [rid']\<rparr>; r = objs s rid'
      in if status r \<noteq> WAITING \<and> status r \<noteq> PREEMPTED then fail RuntimeError
         else ok (st\<lparr>
           new_reqs := (if status r = WAITING then new_reqs st @ [rid'] else new_reqs st),
           resumed_reqs := (if status r = PREEMPTED then resumed_reqs st @ [rid'] else resumed_reqs st),
           loras := (case (max_loras (config s), lora_request r) of
                       (Some _, Some (_, i)) \<Rightarrow> List.insert i (loras st) | _ \<Rightarrow> loras st),
           req_to_new_blocks := AList.update rid (get_blocks rid (kv s)) (req_to_new_blocks st),
           scheduled_tokens := AList.update rid n (scheduled_tokens st),
           token_budget := token_budget st - n,
           sch := upd_req rid' (\<lambda>r. r\<lparr>status := RUNNING, num_computed_tokens := computed,
             num_cached_tokens := (if num_cached_tokens r < 0 then computed else num_cached_tokens r)\<rparr>) s\<rparr>))"

definition waiting_tokens :: "scheduler \<Rightarrow> int \<Rightarrow> request \<Rightarrow> int" where
  "waiting_tokens s computed r =
     (let n = num_tokens r - computed; threshold = long_prefill_token_threshold (config s)
      in if 0 < threshold \<and> threshold < n then threshold else n)"

definition place_waiting :: "string \<Rightarrow> pass \<Rightarrow> request_queue \<Rightarrow> round res" where
  "place_waiting rid st skipped =
     (let s = sch st; r = objs s rid in
      obind (if num_computed_tokens r = 0 then get_computed_blocks (creq s rid) (kv s) else ok (None, 0)) (\<lambda>(hits, n_local).
        let computed = (if num_computed_tokens r = 0 then n_local else num_computed_tokens r);
            n = waiting_tokens s computed r
        in if \<not> enable_chunked_prefill (config s) \<and> token_budget st < n then ok (False, st, skipped)
           else if min n (token_budget st) \<le> 0 then fail AssertionError
           else
             let lookahead = (if num_computed_tokens r = 0 \<or> \<not> enable_sd s then 0 else num_lookahead_tokens (config s))
             in case allocate_slots (creq s rid) (min n (token_budget st)) n_local hits lookahead 0 False (kv s) of
                  (Inl e, _) \<Rightarrow> fail e
                | (Inr None, k) \<Rightarrow> ok (False, st\<lparr>sch := s\<lparr>kv := k\<rparr>\<rparr>, skipped)
                | (Inr (Some _), k) \<Rightarrow>
                    (case pop_request (rank_of s) (waiting s) of
                       Inl e \<Rightarrow> fail e
                     | Inr (rid', q) \<Rightarrow>
                         obind (admit rid rid' (min n (token_budget st)) computed (st\<lparr>sch := s\<lparr>kv := k, waiting := q\<rparr>\<rparr>))
                           (\<lambda>st'. ok (True, st', skipped)))))"

definition lora_blocked :: "pass \<Rightarrow> request \<Rightarrow> bool" where
  "lora_blocked st r \<longleftrightarrow>
     (case (max_loras (config (sch st)), lora_request r) of
        (Some m, Some (_, i)) \<Rightarrow> length (loras st) = m \<and> i \<notin> set (loras st) | _ \<Rightarrow> False)"

definition waiting_round :: "(string \<Rightarrow> bool) \<Rightarrow> pass \<Rightarrow> request_queue \<Rightarrow> round res" where
  "waiting_round grammar_ready st skipped =
     (if length (running (sch st)) = max_num_running_reqs (config (sch st)) then ok (False, st, skipped)
      else case peek_request (waiting (sch st)) of
        Inl e \<Rightarrow> fail e
      | Inr rid \<Rightarrow>
          let s1 = clear_spec rid (sch st);
              s2 = (if status (objs s1 rid) = WAITING_FOR_FSM \<and> grammar_ready rid
                    then upd_req rid (\<lambda>r. r\<lparr>status := WAITING\<rparr>) s1 else s1);
              st2 = st\<lparr>sch := s2\<rparr>; r = objs s2 rid
          in if status r = WAITING_FOR_REMOTE_KVS then fail AssertionError
             else if status r = WAITING_FOR_FSM then skip_request rid st2 skipped
             else if status r = WAITING_FOR_STREAMING_REQ
             then (if streaming_queue r \<noteq> None \<and> streaming_queue r \<noteq> Some [] then fail AssertionError
                   else skip_request rid st2 skipped)
             else if lora_blocked st2 r then skip_request rid st2 skipped
             else place_waiting rid st2 skipped)"

lemma pop_shorter: "pop_request rank q = Inr (r, q') \<Longrightarrow> queue_len q' < queue_len q"
proof (cases q)
  case (PriorityHeap h)
  assume "pop_request rank q = Inr (r, q')"
  with PriorityHeap obtain h' where "heappop (order_key rank) h = Inr (r, h')" "q' = PriorityHeap h'"
    by (cases "heappop (order_key rank) h") auto
  with heappop_shorter [OF this(1)] PriorityHeap show ?thesis by simp
qed (auto split: list.splits)

lemma waiting_round_shorter:
  assumes "waiting_round ready st skipped = ok (True, st', skipped')"
  shows "queue_len (waiting (sch st')) < queue_len (waiting (sch st))"
proof -
  have skip: "queue_len (waiting (sch st')) < queue_len (waiting (sch st))"
    if "skip_request rid st2 skipped = ok (True, st', skipped')" "waiting (sch st2) = waiting (sch st)" for rid st2
    using that by (auto simp: skip_request_def Let_def dest!: pop_shorter split: sum.splits)
  have place: "queue_len (waiting (sch st')) < queue_len (waiting (sch st))"
    if "place_waiting rid st2 skipped = ok (True, st', skipped')" "waiting (sch st2) = waiting (sch st)" for rid st2
    using that
    by (auto simp: place_waiting_def Let_def obind_ok_iff admit_def upd_req_def dest!: pop_shorter
        split: sum.splits if_splits prod.splits option.splits)
  from assms show ?thesis
    unfolding waiting_round_def Let_def
    by (auto split: sum.splits if_splits intro: skip place simp: upd_req_def)
qed

function schedule_waiting :: "(string \<Rightarrow> bool) \<Rightarrow> pass \<Rightarrow> request_queue \<Rightarrow> (pass \<times> request_queue) res" where
  "schedule_waiting grammar_ready st skipped =
     (if queue_len (waiting (sch st)) = 0 \<or> token_budget st \<le> 0 then ok (st, skipped)
      else (case waiting_round grammar_ready st skipped of
              None \<Rightarrow> None
            | Some (Inl e) \<Rightarrow> fail e
            | Some (Inr (goes_on, st', skipped')) \<Rightarrow>
                if goes_on then schedule_waiting grammar_ready st' skipped' else ok (st', skipped')))"
  by pat_completeness auto

termination
proof (relation "measure (\<lambda>(ready, st, skipped). queue_len (waiting (sch st)))", goal_cases)
  case 2
  then show ?case using waiting_round_shorter by (fastforce simp: ok_def)
qed simp

declare schedule_waiting.simps [simp del]

section \<open>A scheduling pass\<close>

fun omap :: "('a \<Rightarrow> 'b res) \<Rightarrow> 'a list \<Rightarrow> 'b list res" where
  "omap f [] = ok []"
| "omap f (x # xs) = obind (f x) (\<lambda>y. obind (omap f xs) (\<lambda>ys. ok (y # ys)))"

fun ofold :: "('a \<Rightarrow> 's \<Rightarrow> 's res) \<Rightarrow> 'a list \<Rightarrow> 's \<Rightarrow> 's res" where
  "ofold f [] s = ok s"
| "ofold f (x # xs) s = obind (f x s) (ofold f xs)"

definition lookup_key :: "('k, 'v) dict \<Rightarrow> 'k \<Rightarrow> 'v res" where
  "lookup_key d k = (case map_of d k of None \<Rightarrow> fail KeyError | Some v \<Rightarrow> ok v)"

definition new_request_data :: "pass \<Rightarrow> string \<Rightarrow> new_data res" where
  "new_request_data st rid =
     obind (lookup_key (req_to_new_blocks st) rid) (\<lambda>bs.
       let s = sch st; r = objs s rid
       in ok \<lparr>new_req_id = rid, new_block_table = block_lists (kv s) bs, new_computed = num_computed_tokens r,
              prefill_token_ids = (if v2_runner (config s) then Some (all_token_ids r) else None)\<rparr>)"

definition make_cached_request_data :: "string list \<Rightarrow> string list \<Rightarrow> pass \<Rightarrow> cached_data res" where
  "make_cached_request_data run resumed st =
     (let s = sch st; rids = run @ resumed; scheduled_before = (\<lambda>rid. rid \<in> set (prev_step_scheduled s)) in
      if list_ex scheduled_before resumed then fail AssertionError
      else obind (if use_pp (config s) \<and> \<not> async_scheduling (config s)
                  then omap (\<lambda>rid. obind (lookup_key (scheduled_tokens st) rid) (\<lambda>n.
                         let r = objs s rid;
                             spec = (case map_of (spec_decode_tokens st) rid of None \<Rightarrow> 0 | Some ts \<Rightarrow> int (length ts))
                         in ok (token_slice (num_computed_tokens r) (num_computed_tokens r + (n - spec)) (all_token_ids r)))) rids
                  else ok [])
        (\<lambda>toks. obind (omap (lookup_key (req_to_new_blocks st)) rids) (\<lambda>bss.
          ok \<lparr>req_ids = rids, resumed_req_ids = resumed, new_token_ids = toks,
              sent_token_ids = map (\<lambda>rid. (rid, all_token_ids (objs s rid))) (filter (\<lambda>rid. \<not> scheduled_before rid) rids),
              new_blocks_sent = bss,
              sent_computed_tokens = map (\<lambda>rid. num_computed_tokens (objs s rid)) rids,
              sent_output_tokens = map (\<lambda>rid. num_output_tokens (objs s rid) + num_output_placeholders (objs s rid)) rids\<rparr>)))"

text \<open>\<open>_update_after_schedule\<close>, and what \<open>AsyncScheduler\<close> adds to it.\<close>

definition advance_request :: "string \<times> int \<Rightarrow> scheduler \<times> sched_output \<Rightarrow> (scheduler \<times> sched_output) res" where
  "advance_request x so =
     (case (x, so) of ((rid, n), (s, out)) \<Rightarrow>
        if rid \<notin> set (request_ids s) then fail KeyError
        else let computed = num_computed_tokens (objs s rid) + n;
                 prefill = (computed < num_tokens (objs s rid) + num_output_placeholders (objs s rid));
                 s1 = upd_req rid (\<lambda>r. r\<lparr>num_computed_tokens := computed, is_prefill_chunk := prefill\<rparr>) s
             in ok (s1, out\<lparr>has_structured_output :=
                              (has_structured_output out \<or> use_structured_output (objs s rid) \<and> \<not> prefill)\<rparr>))"

definition add_placeholders :: "string \<times> int \<Rightarrow> scheduler \<times> sched_output \<Rightarrow> (scheduler \<times> sched_output) res" where
  "add_placeholders x so =
     (case (x, so) of ((rid, _), (s, out)) \<Rightarrow>
        if rid \<notin> set (request_ids s) then fail KeyError
        else let r = objs s rid;
                 spec = (case map_of (scheduled_spec_decode_tokens out) rid of None \<Rightarrow> 0 | Some ts \<Rightarrow> int (length ts))
             in if is_prefill_chunk r then ok (s, out)
                else ok (upd_req rid (\<lambda>r. r\<lparr>num_output_placeholders := num_output_placeholders r + 1 + spec,
                           spec_token_ids := (if spec_decode_enabled out then replicate (num_spec_tokens (config s)) (-1) else [])\<rparr>) s,
                         out\<lparr>pending_structured_output :=
                           (pending_structured_output out \<or> use_structured_output r \<and> 0 < num_output_placeholders r)\<rparr>))"

definition update_after_schedule :: "sched_output \<Rightarrow> scheduler \<Rightarrow> (scheduler \<times> sched_output) res" where
  "update_after_schedule out s =
     obind (ofold advance_request (num_scheduled_tokens out) (s, out)) (\<lambda>(s1, out1).
       let s2 = s1\<lparr>finished_req_ids := []\<rparr>
       in if async_scheduling (config s) then ofold add_placeholders (num_scheduled_tokens out) (s2, out1)
          else ok (s2, out1))"

definition finish_schedule :: "pass \<Rightarrow> (sched_output \<times> scheduler) res" where
  "finish_schedule st =
     (let s = sch st; total_tokens = sum_list (dict_values (scheduled_tokens st)) in
      if max_num_scheduled_tokens (config s) < total_tokens \<or> token_budget st < 0 \<or>
         max_num_running_reqs (config s) < length (running s) \<or>
         length (running s) < length (new_reqs st) + length (resumed_reqs st) + length (running_reqs st)
      then fail AssertionError
      else
        let common = (case running s of [] \<Rightarrow> replicate (length (managers (kv s))) 0 | rid # _ \<Rightarrow> common_prefix_blocks rid (kv s));
            news = (if v2_runner (config s) then new_reqs st @ resumed_reqs st else new_reqs st);
            resumed = (if v2_runner (config s) then [] else resumed_reqs st)
        in obind (omap (new_request_data st) news) (\<lambda>new_data.
           obind (make_cached_request_data (running_reqs st) resumed st) (\<lambda>cached.
             let s1 = s\<lparr>prev_step_scheduled := dict_keys (scheduled_tokens st)\<rparr>;
                 zero = (if needs_kv_cache_zeroing (config s1) then fst (take_all_new_block_ids (kv s1)) else []);
                 s2 = (if needs_kv_cache_zeroing (config s1) then s1\<lparr>kv := snd (take_all_new_block_ids (kv s1))\<rparr> else s1);
                 out = \<lparr>scheduled_new_reqs = new_data, scheduled_cached_reqs = cached,
                        num_scheduled_tokens = scheduled_tokens st, total_num_scheduled_tokens = total_tokens,
                        scheduled_spec_decode_tokens = spec_decode_tokens st, common_prefix = common,
                        preempted_req_ids = preempted_reqs st, sent_finished_req_ids = finished_req_ids s2,
                        spec_decode_enabled = enable_sd s2,
                        new_block_ids_to_zero = (if zero = [] then None else Some zero),
                        has_structured_output = False, pending_structured_output = False,
                        num_invalid_spec_tokens = None\<rparr>
             in obind (update_after_schedule out s2) (\<lambda>(s3, out'). ok (out', s3)))))"

definition start_pass :: "scheduler \<Rightarrow> pass" where
  "start_pass s =
     \<lparr>sch = s, token_budget = (if pause s = PAUSED_ALL then 0 else max_num_scheduled_tokens (config s)),
      new_reqs = [], resumed_reqs = [], running_reqs = [], preempted_reqs = [], req_to_new_blocks = [],
      scheduled_tokens = [], spec_decode_tokens = [], loras = []\<rparr>"

definition running_loras :: "pass \<Rightarrow> int list" where
  "running_loras st =
     (if max_loras (config (sch st)) = None then []
      else remdups (concat (map (\<lambda>rid. case lora_request (objs (sch st) rid) of
             Some (_, i) \<Rightarrow> if 0 < i then [i] else [] | None \<Rightarrow> []) (running_reqs st))))"

definition put_back :: "pass \<times> request_queue \<Rightarrow> pass" where
  "put_back x =
     (case x of (st, skipped) \<Rightarrow>
        if queue_len skipped = 0 then st
        else st\<lparr>sch := (sch st)\<lparr>waiting := prepend_requests (rank_of (sch st)) skipped (waiting (sch st))\<rparr>\<rparr>)"

definition schedule :: "(string \<Rightarrow> bool) \<Rightarrow> scheduler \<Rightarrow> (sched_output \<times> scheduler) res" where
  "schedule grammar_ready s =
     obind (schedule_running 0 (start_pass s)) (\<lambda>st1.
       let st = st1\<lparr>loras := running_loras st1\<rparr>
       in if (case max_loras (config s) of None \<Rightarrow> False | Some m \<Rightarrow> m < length (loras st)) then fail AssertionError
          else if preempted_reqs st = [] \<and> pause s = UNPAUSED
          then obind (schedule_waiting grammar_ready st (create_request_queue (sched_policy (config s))))
                 (\<lambda>x. finish_schedule (put_back x))
          else finish_schedule st)"

end
