(* ===== verification/EngineUpdate.thy ===== *)
theory EngineUpdate
  imports EngineScheduler
begin

text \<open>
  What happens to the scheduler between two passes (\<open>scheduler.py\<close>, \<open>async_scheduler.py\<close>): the output of
  the model, requests added, stopped, finished and continued by a streaming session, draft tokens, and the
  reset of the prefix cache. Log probabilities, routed experts and statistics are passed through by the
  code and left out. The acceptance of tokens by a grammar only changes the grammar.
\<close>

declare map_of_eq_Some_iff [simp del]

section \<open>Freeing and stopping\<close>

definition free_blocks_of :: "string \<Rightarrow> scheduler \<Rightarrow> scheduler res" where
  "free_blocks_of rid s =
     (if \<not> is_finished (status (objs s rid)) then fail AssertionError
      else obind (free_kv rid s) (\<lambda>s1.
        if rid \<notin> set (request_ids s1) then fail KeyError else ok (s1\<lparr>request_ids := remove1 rid (request_ids s1)\<rparr>)))"

definition note_finished :: "string \<Rightarrow> scheduler \<Rightarrow> scheduler" where
  "note_finished rid s =
     s\<lparr>finished_req_ids := List.insert rid (finished_req_ids s),
       finished_by_client :=
         (case finished_by_client s of
            None \<Rightarrow> None
          | Some d \<Rightarrow>
              let c = client_index (objs s rid); old = (case map_of d c of None \<Rightarrow> [] | Some rs \<Rightarrow> rs)
              in Some (AList.update c (List.insert rid old) d))\<rparr>"

definition free_finished_request :: "string \<Rightarrow> scheduler \<Rightarrow> scheduler res" where
  "free_finished_request rid s =
     (if \<not> is_finished (status (objs s rid)) then fail AssertionError else free_blocks_of rid (note_finished rid s))"

text \<open>\<open>_update_request_as_session\<close>: the tokens after the computed ones are dropped, the next chunk of the
  session is appended.\<close>

definition session_request :: "block_hasher \<Rightarrow> streaming_update \<Rightarrow> request \<Rightarrow> py_error + request" where
  "session_request hasher u r =
     (case prompt_token_ids r of
        None \<Rightarrow> Inl AssertionError
      | Some prompt \<Rightarrow>
          let n = num_computed_tokens r;
              kept = token_slice (num_prompt_tokens r) n (all_token_ids r);
              extra = (case update_tokens u of None \<Rightarrow> [] | Some ts \<Rightarrow> ts);
              base = int (length (take (nat n) (all_token_ids r)));
              mm = map (\<lambda>f. f\<lparr>mm_offset := mm_offset f + base\<rparr>) (update_mm u);
              r1 = r\<lparr>all_token_ids := take (nat n) (all_token_ids r) @ extra, output_token_ids := [],
                     prompt_token_ids := Some (prompt @ kept @ extra), mm_features := mm_features r @ mm\<rparr>
          in Inr ((update_block_hashes hasher r1)
               \<lparr>num_prompt_tokens := int (length (prompt @ kept @ extra)), arrival_time := update_arrival u,
                sampling := update_params u, status := WAITING\<rparr>))"

definition update_request_as_session :: "string \<Rightarrow> streaming_update \<Rightarrow> scheduler \<Rightarrow> scheduler res" where
  "update_request_as_session rid u s =
     (case session_request (hash_new (config s)) u (objs s rid) of
        Inl e \<Rightarrow> fail e
      | Inr r \<Rightarrow>
          ok ((upd_req rid (\<lambda>_. r) s)
                \<lparr>num_waiting_for_streaming :=
                   num_waiting_for_streaming s - of_bool (status (objs s rid) = WAITING_FOR_STREAMING_REQ)\<rparr>))"

definition handle_stopped_request :: "string \<Rightarrow> scheduler \<Rightarrow> (bool \<times> scheduler) res" where
  "handle_stopped_request rid s =
     (let r = objs s rid; enqueue = (\<lambda>s. ok (False, s\<lparr>waiting := queue_add (rank_of s) rid (waiting s)\<rparr>)) in
      if \<not> resumable r then ok (True, s)
      else case streaming_queue r of
        Some (u # us) \<Rightarrow>
          let s1 = upd_req rid (\<lambda>r. r\<lparr>streaming_queue := Some us\<rparr>) s
          in (case u of None \<Rightarrow> ok (True, s1) | Some u \<Rightarrow> obind (update_request_as_session rid u s1) enqueue)
      | _ \<Rightarrow>
          enqueue ((upd_req rid (\<lambda>r. r\<lparr>status := WAITING_FOR_STREAMING_REQ\<rparr>) s)
                     \<lparr>num_waiting_for_streaming := num_waiting_for_streaming s + 1\<rparr>))"

section \<open>The output of the model\<close>

text \<open>Appending the generated tokens until one stops the request: the tokens kept and whether it stopped.\<close>

fun append_tokens :: "block_hasher \<Rightarrow> int \<Rightarrow> int list \<Rightarrow> request \<Rightarrow> py_error + int list \<times> bool \<times> request" where
  "append_tokens hasher max_len [] r = Inr ([], False, r)"
| "append_tokens hasher max_len (t # ts) r =
     ebind (check_stop max_len (append_output_token_id hasher t r)) (\<lambda>(stopped, r1).
       if stopped then Inr ([t], True, r1)
       else map_sum id (\<lambda>(kept, st, r2). (t # kept, st, r2)) (append_tokens hasher max_len ts r1))"

definition update_request_with_output :: "string \<Rightarrow> int list \<Rightarrow> scheduler \<Rightarrow> (int list \<times> bool \<times> scheduler) res" where
  "update_request_with_output rid toks s =
     (case append_tokens (hash_new (config s)) (model_len (config s)) toks (objs s rid) of
        Inl e \<Rightarrow> fail e
      | Inr (kept, stopped, r) \<Rightarrow> ok (kept, stopped, upd_req rid (\<lambda>_. r) s))"

definition async_update_request_with_output :: "string \<Rightarrow> int list \<Rightarrow> scheduler \<Rightarrow> (int list \<times> bool \<times> scheduler) res" where
  "async_update_request_with_output rid toks s =
     (if discard_latest_async_tokens (objs s rid)
      then ok ([], False, upd_req rid (\<lambda>r. r\<lparr>discard_latest_async_tokens := False\<rparr>) s)
      else obind (update_request_with_output rid toks s) (\<lambda>(kept, stopped, s1).
        let s2 = upd_req rid (\<lambda>r. r\<lparr>num_output_placeholders := num_output_placeholders r - int (length kept)\<rparr>) s1;
            r = objs s2 rid
        in if num_output_placeholders r < 0 then fail AssertionError
           else if status (objs s rid) \<noteq> RUNNING then ok (kept, stopped, s2)
           else case commit_blocks (creq s2 rid) (num_computed_tokens r - num_output_placeholders r) (kv s2) of
             (Inl e, _) \<Rightarrow> fail e
           | (Inr _, k) \<Rightarrow> ok (kept, stopped, s2\<lparr>kv := k\<rparr>)))"

record model_output =
  req_id_to_index :: "(string, nat) dict"
  sampled_token_ids :: "int list list"
  pooler_outputs :: "bool list option"

record core_output =
  out_req_id :: string
  out_token_ids :: "int list"
  out_finish_reason :: "finish_reason option"
  out_stop_reason :: "stop_reason option"
  out_num_cached :: int

record output_pass =
  osch :: scheduler
  outputs :: "(int, core_output list) dict"
  stopped_running :: "string list"
  stopped_preempted :: "string list"

definition list_get :: "'a list \<Rightarrow> nat \<Rightarrow> 'a res" where
  "list_get xs i = (if i < length xs then ok (xs ! i) else fail IndexError)"

text \<open>Rejected draft tokens are taken back from the computed ones.\<close>

definition take_back_rejected :: "int list option \<Rightarrow> int list \<Rightarrow> request \<Rightarrow> request" where
  "take_back_rejected spec generated r =
     (case spec of
        Some (t # ts) \<Rightarrow>
          if generated = [] then r
          else let rejected = int (length (t # ts)) - (int (length generated) - 1)
               in r\<lparr>num_computed_tokens := (if 0 < num_computed_tokens r then num_computed_tokens r - rejected else num_computed_tokens r),
                    num_output_placeholders := (if 0 < num_output_placeholders r then num_output_placeholders r - rejected
                                                else num_output_placeholders r)\<rparr>
      | _ \<Rightarrow> r)"

definition stop_request :: "string \<Rightarrow> request_status \<Rightarrow> output_pass \<Rightarrow> output_pass res" where
  "stop_request rid status_before op =
     obind (handle_stopped_request rid (osch op)) (\<lambda>(fin, s1).
       obind (if fin then free_finished_request rid s1 else ok s1) (\<lambda>s2.
         ok (if status_before = RUNNING then op\<lparr>osch := s2, stopped_running := List.insert rid (stopped_running op)\<rparr>
             else op\<lparr>osch := s2, stopped_preempted := List.insert rid (stopped_preempted op)\<rparr>)))"

definition add_output :: "string \<Rightarrow> core_output \<Rightarrow> output_pass \<Rightarrow> output_pass" where
  "add_output rid eco op =
     (let c = client_index (objs (osch op) rid); old = (case map_of (outputs op) c of None \<Rightarrow> [] | Some es \<Rightarrow> es)
      in op\<lparr>outputs := AList.update c (old @ [eco]) (outputs op)\<rparr>)"

definition process_output :: "sched_output \<Rightarrow> model_output \<Rightarrow> string \<times> int \<Rightarrow> output_pass \<Rightarrow> output_pass res" where
  "process_output out mo x op =
     (case x of (rid, n) \<Rightarrow>
        let s = osch op in
        if n \<le> 0 then fail AssertionError
        else if rid \<notin> set (request_ids s) \<or> is_finished (status (objs s rid)) then ok op
        else obind (lookup_key (req_id_to_index mo) rid) (\<lambda>i.
          obind (if sampled_token_ids mo = [] then ok [] else list_get (sampled_token_ids mo) i) (\<lambda>generated.
          obind (case pooler_outputs mo of None \<Rightarrow> ok False | Some [] \<Rightarrow> ok False | Some ps \<Rightarrow> list_get ps i) (\<lambda>pooled.
            let spec = (if spec_decode_enabled out then map_of (scheduled_spec_decode_tokens out) rid else None);
                s1 = upd_req rid (take_back_rejected spec generated) s;
                status_before = status (objs s1 rid)
            in obind (if generated \<noteq> []
                      then (if async_scheduling (config s) then async_update_request_with_output rid generated s1
                            else update_request_with_output rid generated s1)
                      else if pooling (objs s1 rid) \<and> pooled
                      then ok ([], True, upd_req rid (\<lambda>r. r\<lparr>status := FINISHED_STOPPED\<rparr>) s1)
                      else ok ([], False, s1)) (\<lambda>(kept, stopped, s2).
                 let reason = (if stopped then get_finished_reason (status (objs s2 rid)) else None)
                 in obind (if stopped then stop_request rid status_before (op\<lparr>osch := s2\<rparr>) else ok (op\<lparr>osch := s2\<rparr>)) (\<lambda>op1.
                      let r = objs (osch op1) rid
                      in ok (if kept \<noteq> [] \<or> pooled \<or> stopped
                             then add_output rid \<lparr>out_req_id = rid, out_token_ids = kept, out_finish_reason = reason,
                                    out_stop_reason = stop_reason r, out_num_cached = num_cached_tokens r\<rparr> op1
                             else op1)))))))"

text \<open>The outputs per client, with the ids of its requests that finished since the last time.\<close>

type_synonym client_outputs = "(int, core_output list \<times> string list option) dict"

definition attach_finished :: "(int, string list) dict \<Rightarrow> client_outputs \<Rightarrow> client_outputs" where
  "attach_finished fin outs =
     fold (\<lambda>(c, rs) outs. AList.update c ((case map_of outs c of None \<Rightarrow> [] | Some (es, _) \<Rightarrow> es), Some rs) outs) fin outs"

definition update_from_output :: "sched_output \<Rightarrow> model_output \<Rightarrow> scheduler \<Rightarrow> (client_outputs \<times> kv_event list \<times> scheduler) res" where
  "update_from_output out mo s =
     obind (ofold (process_output out mo) (num_scheduled_tokens out)
              \<lparr>osch = s, outputs = [], stopped_running = [], stopped_preempted = []\<rparr>) (\<lambda>op.
       let s1 = osch op;
           s2 = s1\<lparr>running := remove_all (running s1) (stopped_running op)\<rparr>;
           s3 = (if stopped_preempted op = [] then s2
                 else s2\<lparr>waiting := remove_requests (rank_of s2) (set (stopped_preempted op)) (waiting s2)\<rparr>);
           (events, k) = take_kv_events (kv s3);
           outs = map (\<lambda>(c, es). (c, es, None)) (outputs op);
           fin = finished_by_client s3
       in ok (if fin = None then outs else attach_finished (the fin) outs, events,
              s3\<lparr>kv := k, finished_by_client := map_option (\<lambda>_. []) fin\<rparr>))"

section \<open>Requests from outside\<close>

text \<open>The requests to finish: those known and not finished, in the order given.\<close>

definition finish_marks :: "request_status \<Rightarrow> string \<Rightarrow> scheduler \<Rightarrow> scheduler res" where
  "finish_marks st rid s = free_finished_request rid (upd_req rid (\<lambda>r. r\<lparr>status := st\<rparr>) s)"

definition finish_requests :: "string list option \<Rightarrow> request_status \<Rightarrow> scheduler \<Rightarrow> ((string \<times> int) list \<times> scheduler) res" where
  "finish_requests rids st s =
     (if \<not> is_finished st then fail AssertionError
      else
        let ids = (case rids of None \<Rightarrow> request_ids s | Some rs \<Rightarrow> remdups rs);
            valid = filter (\<lambda>rid. rid \<in> set (request_ids s) \<and> \<not> is_finished (status (objs s rid))) ids;
            run = filter (\<lambda>rid. status (objs s rid) = RUNNING) valid;
            wait = filter (\<lambda>rid. status (objs s rid) \<noteq> RUNNING) valid;
            streaming = filter (\<lambda>rid. status (objs s rid) = WAITING_FOR_STREAMING_REQ) wait;
            s1 = s\<lparr>running := remove_all (running s) run,
                   waiting := (if wait = [] then waiting s else remove_requests (rank_of s) (set wait) (waiting s)),
                   num_waiting_for_streaming := num_waiting_for_streaming s - int (length streaming)\<rparr>
        in obind (ofold (finish_marks st) valid s1) (\<lambda>s2. ok (map (\<lambda>rid. (rid, client_index (objs s2 rid))) valid, s2)))"

definition add_request :: "request \<Rightarrow> scheduler \<Rightarrow> scheduler res" where
  "add_request r s =
     (let rid = request_id r in
      if rid \<in> set (request_ids s)
      then
        let existing = objs s rid; u = update_from_request r
        in if status existing \<noteq> WAITING_FOR_STREAMING_REQ
           then (case streaming_queue existing of
                   None \<Rightarrow> fail AssertionError
                 | Some q \<Rightarrow> ok (upd_req rid (\<lambda>r. r\<lparr>streaming_queue := Some (q @ [u])\<rparr>) s))
           else (case u of
                   Some u \<Rightarrow> update_request_as_session rid u s
                 | None \<Rightarrow> obind (finish_requests (Some [rid]) FINISHED_ABORTED s) (\<lambda>(_, s'). ok s'))
      else
        let s1 = upd_req rid (\<lambda>_. if resumable r then r\<lparr>streaming_queue := Some []\<rparr> else r) s
        in ok (s1\<lparr>waiting := queue_add (rank_of s1) rid (waiting s1), request_ids := request_ids s1 @ [rid]\<rparr>))"

section \<open>Draft tokens\<close>

text \<open>\<open>advance rid\<close> is the grammar's \<open>validate_tokens\<close> of a request whose grammar is to advance.\<close>

definition set_draft :: "(string \<Rightarrow> (int list \<Rightarrow> int list) option) \<Rightarrow> string \<times> int list \<Rightarrow> scheduler \<Rightarrow> scheduler" where
  "set_draft advance x s =
     (case x of (rid, toks) \<Rightarrow>
        if rid \<notin> set (request_ids s) \<or> is_finished (status (objs s rid)) then s
        else upd_req rid (\<lambda>r. r\<lparr>spec_token_ids :=
               (if is_prefill_chunk r then [] else case advance rid of None \<Rightarrow> toks | Some validate \<Rightarrow> validate toks)\<rparr>) s)"

definition update_draft_token_ids ::
  "(string \<Rightarrow> (int list \<Rightarrow> int list) option) \<Rightarrow> (string \<times> int list) list \<Rightarrow> scheduler \<Rightarrow> scheduler" where
  "update_draft_token_ids advance drafts s = (if \<not> enable_sd s then s else fold (set_draft advance) drafts s)"

definition trim_draft ::
  "(string \<Rightarrow> (int list \<Rightarrow> int list) option) \<Rightarrow> scheduler \<Rightarrow> string \<times> int list
     \<Rightarrow> (string, int list) dict \<times> (string, int) dict \<Rightarrow> (string, int list) dict \<times> (string, int) dict" where
  "trim_draft advance s x d =
     (case (x, d) of ((rid, toks), (sched_spec, invalid)) \<Rightarrow>
        if rid \<notin> set (request_ids s) \<or> is_finished (status (objs s rid)) then d
        else case map_of sched_spec rid of
          Some (p # ps) \<Rightarrow>
            let n = length (p # ps);
                toks1 = take n toks;
                toks2 = (case advance rid of None \<Rightarrow> toks1 | Some validate \<Rightarrow> validate toks1);
                missing = int n - int (length toks2)
            in (AList.update rid (toks2 @ replicate (nat missing) (-1)) sched_spec,
                if missing = 0 then invalid else AList.update rid missing invalid)
        | _ \<Rightarrow> d)"

definition update_draft_token_ids_in_output ::
  "(string \<Rightarrow> (int list \<Rightarrow> int list) option) \<Rightarrow> (string \<times> int list) list \<Rightarrow> sched_output \<Rightarrow> scheduler \<Rightarrow> sched_output" where
  "update_draft_token_ids_in_output advance drafts out s =
     (if \<not> spec_decode_enabled out then out
      else let (sched_spec, invalid) = fold (trim_draft advance s) drafts (scheduled_spec_decode_tokens out, [])
           in out\<lparr>scheduled_spec_decode_tokens := sched_spec, num_invalid_spec_tokens := Some invalid\<rparr>)"

section \<open>Counters, pausing, resetting\<close>

definition get_request_counts :: "scheduler \<Rightarrow> nat \<times> nat" where
  "get_request_counts s = (length (running s), queue_len (waiting s))"

definition get_num_unfinished_requests :: "scheduler \<Rightarrow> int" where
  "get_num_unfinished_requests s =
     (case pause s of
        PAUSED_ALL \<Rightarrow> 0
      | PAUSED_NEW \<Rightarrow> int (length (running s))
      | UNPAUSED \<Rightarrow> int (queue_len (waiting s)) - num_waiting_for_streaming s + int (length (running s)))"

definition has_finished_requests :: "scheduler \<Rightarrow> bool" where
  "has_finished_requests s \<longleftrightarrow> finished_req_ids s \<noteq> []"

definition has_requests :: "scheduler \<Rightarrow> bool" where
  "has_requests s \<longleftrightarrow> 0 < get_num_unfinished_requests s \<or> has_finished_requests s"

definition set_pause_state :: "pause_state \<Rightarrow> scheduler \<Rightarrow> scheduler" where
  "set_pause_state p s = s\<lparr>pause := p\<rparr>"

text \<open>All running requests are preempted, the last one first.\<close>

fun preempt_all :: "string list \<Rightarrow> scheduler \<Rightarrow> scheduler res" where
  "preempt_all [] s = ok s"
| "preempt_all (rid # rids) s =
     obind (preempt_request rid (s\<lparr>running := butlast (running s)\<rparr>)) (\<lambda>s1.
       preempt_all rids (upd_req rid (\<lambda>r. r\<lparr>num_output_placeholders := 0, discard_latest_async_tokens := True\<rparr>) s1))"

definition reset_scheduler_cache :: "bool \<Rightarrow> bool \<Rightarrow> scheduler \<Rightarrow> (bool \<times> scheduler) res" where
  "reset_scheduler_cache reset_running reset_connector s =
     obind (if reset_running
            then obind (preempt_all (rev (running s)) s) (\<lambda>s1. ok (s1\<lparr>prev_step_scheduled := []\<rparr>))
            else ok s) (\<lambda>s1.
       case reset_cache (kv s1) of (success, k) \<Rightarrow>
         if reset_running \<and> \<not> success then fail RuntimeError
         else ok (success \<and> \<not> reset_connector, s1\<lparr>kv := k\<rparr>))"

end
