(* ===== verification/EngineCore.thy ===== *)
theory EngineCore
  imports EngineUpdate
begin

text \<open>
  The engine around the scheduler (\<open>src/vllm-v0.17.1/vllm/v1/engine/core.py\<close>): one step, requests from
  clients, aborts, pausing, and the switch for speculative decoding that the proxy uses. The executor of
  the model is an argument, a function from the scheduler's output to the model's.
\<close>

declare map_of_eq_Some_iff [simp del]

definition abort_requests :: "string list \<Rightarrow> scheduler \<Rightarrow> scheduler res" where
  "abort_requests rids s = obind (finish_requests (Some rids) FINISHED_ABORTED s) (\<lambda>(_, s'). ok s')"

text \<open>\<open>_process_aborts_queue\<close>: all queued lists of ids are aborted as one batch.\<close>

definition process_aborts_queue :: "string list list \<Rightarrow> scheduler \<Rightarrow> scheduler res" where
  "process_aborts_queue aborts s = (if aborts = [] then ok s else abort_requests (concat aborts) s)"

text \<open>\<open>step\<close>: the outputs, whether the model ran, the scheduler's output when there was a pass, and the
  scheduler. \<open>aborts\<close> arrived while the model was running.\<close>

definition engine_step ::
  "(string \<Rightarrow> bool) \<Rightarrow> (sched_output \<Rightarrow> model_output) \<Rightarrow> string list list \<Rightarrow> scheduler
     \<Rightarrow> (client_outputs \<times> bool \<times> sched_output option \<times> scheduler) res" where
  "engine_step grammar_ready execute_model aborts s =
     (if \<not> has_requests s then ok ([], False, None, s)
      else obind (schedule grammar_ready s) (\<lambda>(out, s1).
        obind (process_aborts_queue aborts s1) (\<lambda>s2.
          obind (update_from_output out (execute_model out) s2) (\<lambda>(outs, _, s3).
            ok (outs, 0 < total_num_scheduled_tokens out, Some out, s3)))))"

definition post_step ::
  "(string \<Rightarrow> (int list \<Rightarrow> int list) option) \<Rightarrow> (string \<times> int list) list option \<Rightarrow> bool \<Rightarrow> sched_output option \<Rightarrow> scheduler \<Rightarrow> scheduler" where
  "post_step advance drafts model_executed last_output s =
     (case (last_output, drafts) of
        (Some out, Some ds) \<Rightarrow>
          if \<not> async_scheduling (config s) \<and> model_executed \<and> spec_decode_enabled out then update_draft_token_ids advance ds s else s
      | _ \<Rightarrow> s)"

definition toggle_speculative_decoding :: "bool \<Rightarrow> scheduler \<Rightarrow> bool \<times> scheduler" where
  "toggle_speculative_decoding enable s =
     (if \<not> has_spec_config (config s) then (False, s)
      else if enable_sd s = enable then (True, s) else (True, s\<lparr>enable_sd := enable\<rparr>))"

text \<open>\<open>EngineCore.add_request\<close>: the task of a pooling request must be supported; other requests have none.\<close>

definition engine_add_request :: "string list \<Rightarrow> string option \<Rightarrow> request \<Rightarrow> scheduler \<Rightarrow> scheduler res" where
  "engine_add_request supported task r s =
     (case task of Some t \<Rightarrow> if t \<in> set supported then add_request r s else fail ValueError | None \<Rightarrow> add_request r s)"

definition pause_scheduler :: "string \<Rightarrow> bool \<Rightarrow> scheduler \<Rightarrow> scheduler res" where
  "pause_scheduler mode clear_cache s =
     (if mode \<notin> {''keep'', ''abort'', ''wait''} then fail ValueError
      else if mode = ''wait'' then fail ValueError
      else obind (if mode = ''abort'' then obind (finish_requests None FINISHED_ABORTED s) (\<lambda>(_, s'). ok s') else ok s) (\<lambda>s1.
        let s2 = set_pause_state (if mode = ''keep'' then PAUSED_ALL else PAUSED_NEW) s1
        in if clear_cache then obind (reset_scheduler_cache True False s2) (\<lambda>(_, s3). ok s3) else ok s2))"

definition resume_scheduler :: "scheduler \<Rightarrow> scheduler" where
  "resume_scheduler s = set_pause_state UNPAUSED s"

definition is_scheduler_paused :: "scheduler \<Rightarrow> bool" where
  "is_scheduler_paused s \<longleftrightarrow> pause s \<noteq> UNPAUSED"

end
