(* ===== verification/SchedKv.thy ===== *)
theory SchedKv
  imports EngineUpdate CacheRun
begin

text \<open>
  The cache manager as the scheduler sees it: how many blocks each request has, that an operation for one
  request leaves the tables of the others alone, and the effect of each call the scheduler makes.
\<close>

declare map_of_eq_Some_iff [simp del]

section \<open>The extent of a request\<close>

definition extent :: "string \<Rightarrow> type_manager \<Rightarrow> nat \<times> int option" where
  "extent rid m = (length (req_blocks m rid), map_of (num_cached_block m) rid)"

definition extents :: "kv_manager \<Rightarrow> string \<Rightarrow> (nat \<times> int option) list" where
  "extents k rid = map (extent rid) (managers k)"

definition no_entry :: "kv_manager \<Rightarrow> string \<Rightarrow> bool" where
  "no_entry k rid \<longleftrightarrow> (\<forall>m \<in> set (managers k). extent rid m = (0, None))"

definition covers :: "kv_manager \<Rightarrow> string \<Rightarrow> int \<Rightarrow> bool" where
  "covers k rid n \<longleftrightarrow> (\<forall>m \<in> set (managers k). n \<le> block_size m * int (length (req_blocks m rid)))"

lemma no_entry_extents: "no_entry k rid \<longleftrightarrow> set (extents k rid) \<subseteq> {(0, None)}"
  by (auto simp: no_entry_def extents_def)

lemma no_entry_frame: "extents k' rid = extents k rid \<Longrightarrow> no_entry k' rid \<longleftrightarrow> no_entry k rid"
  by (simp add: no_entry_extents)

lemma covers_nth: "covers k rid n \<longleftrightarrow> (\<forall>i < length (managers k). n \<le> block_size (managers k ! i) * int (fst (extents k rid ! i)))"
  by (auto simp: covers_def extents_def extent_def all_set_conv_all_nth)

lemma covers_frame:
  assumes "extents k' rid = extents k rid" "same_shape k k'"
  shows "covers k' rid n \<longleftrightarrow> covers k rid n"
  using assms by (simp add: covers_nth same_shape_def same_manager_def)

lemma covers_mono: "covers k rid n \<Longrightarrow> n' \<le> n \<Longrightarrow> covers k rid n'"
  unfolding covers_def by (meson order_trans)

lemma same_shape_refl [simp]: "same_shape k k"
  by (simp add: same_shape_def)

lemma same_shape_trans: "same_shape k k1 \<Longrightarrow> same_shape k1 k2 \<Longrightarrow> same_shape k k2"
  by (auto simp: same_shape_def same_manager_def)

section \<open>Operations on one request\<close>

lemma managers_do_frame:
  fixes f :: "'x \<Rightarrow> 'a manager_op"
  assumes "\<And>x m p. extent r (fst (snd (f x m p))) = extent r m"
  shows "map (extent r) (fst (snd (managers_do f xs ms p))) = map (extent r) ms"
  using assms
proof (induction f xs ms p rule: managers_do.induct)
  case (3 f x xs m ms p)
  obtain res m' p' where f: "f x m p = (res, m', p')" by (cases "f x m p") auto
  have m': "extent r m' = extent r m" using 3(2) [of x m p] f by simp
  show ?case
  proof (cases res)
    case (Inr y)
    have "map (extent r) (fst (snd (managers_do f xs ms p'))) = map (extent r) ms"
      using 3(1) [OF f [symmetric] Inr refl] 3(2) by blast
    then show ?thesis using f Inr m' by (auto split: prod.split sum.split)
  qed (simp add: f m')
qed simp_all

lemma coordinate_frame:
  assumes "coordinate f xs k = (res, k')" "\<And>x m p. extent r (fst (snd (f x m p))) = extent r m"
  shows "extents k' r = extents k r"
  using managers_do_frame [where f = f and xs = xs and ms = "managers k" and p = "pool k", OF assms(2)] assms(1)
  by (auto simp: coordinate_def extents_def split: prod.splits)

lemma extent_put [simp]:
  "extent r (put_blocks rid bs m) = (if r = rid then (length bs, map_of (num_cached_block m) r) else extent r m)"
  "extent r (open_blocks rid m) = extent r m" "extent r (m\<lparr>new_block_ids := ns\<rparr>) = extent r m"
  by (simp_all add: extent_def)

lemma req_blocks_counts [simp]: "req_blocks (m\<lparr>num_cached_block := d\<rparr>) r = req_blocks m r"
  by (simp add: req_blocks_def)

lemma extend_frame: "r \<noteq> rid \<Longrightarrow> extent r (fst (snd (extend_blocks rid n m p))) = extent r m"
  by (auto simp: extend_blocks_def split: prod.split sum.split)

lemma skip_frame: "extent r (fst (snd (remove_skipped_blocks rid n m p))) = extent r m"
proof -
  obtain removed bs' where s: "skip_blocks (null_block p)
      (nat (min (get_num_skipped_tokens m n div block_size m) (int (length (req_blocks m rid))))) (req_blocks m rid) = (removed, bs')"
    by fastforce
  from skip_blocks_spec [OF _ s] have "length bs' = length (req_blocks m rid)" by simp
  with s show ?thesis by (auto simp: remove_skipped_blocks_def Let_def extent_def split: prod.split)
qed

lemma op_frames:
  assumes "r \<noteq> rid"
  shows "extent r (fst (snd (allocate_new_blocks rid n m p))) = extent r m"
    and "extent r (fst (snd (allocate_new_computed_blocks rid a b bs m p))) = extent r m"
    and "extent r (fst (snd (free_request rid m p))) = extent r m"
    and "request_id q = rid \<Longrightarrow> extent r (fst (snd (cache_blocks q n m p))) = extent r m"
proof -
  show "extent r (fst (snd (allocate_new_blocks rid n m p))) = extent r m"
    using assms by (auto simp: allocate_new_blocks_def Let_def extend_frame)
  show "extent r (fst (snd (free_request rid m p))) = extent r m"
    using assms by (auto simp: free_request_def Let_def extent_def req_blocks_def split: prod.split sum.split)
  show "request_id q = rid \<Longrightarrow> extent r (fst (snd (cache_blocks q n m p))) = extent r m"
    using assms by (auto simp: cache_blocks_def Let_def extent_def split: prod.split sum.split)
  show "extent r (fst (snd (allocate_new_computed_blocks rid a b bs m p))) = extent r m"
    using assms extend_frame [OF assms]
    by (auto simp: allocate_new_computed_blocks_def Let_def map_prod_def split_beta extent_def split: prod.split sum.split)
qed


text \<open>An allocation runs up to four stages; one that finds too few free blocks stops after the first.\<close>

lemma allocate_slots_stages:
  assumes call: "allocate_slots q n nc hits la ext delay k = (res, k')" and P: "P k"
    and skip: "\<And>x k y k'. P k \<Longrightarrow> coordinate (\<lambda>_. remove_skipped_blocks (request_id q) x) (each k) k = (y, k') \<Longrightarrow> P k'"
    and hit: "\<And>a b xs k y k'. P k \<Longrightarrow> coordinate (allocate_new_computed_blocks (request_id q) a b) xs k = (y, k') \<Longrightarrow> P k'"
    and new: "\<And>x k y k'. P k \<Longrightarrow> coordinate (\<lambda>_. allocate_new_blocks (request_id q) x) (each k) k = (y, k') \<Longrightarrow> P k'"
    and cache: "\<And>x k y k'. P k \<Longrightarrow> coordinate (\<lambda>_. cache_blocks q x) (each k) k = (y, k') \<Longrightarrow> P k'"
  shows "P k'"
proof (cases "n = 0 \<and> ext = 0")
  case True
  with call P show ?thesis by (simp add: allocate_slots_def)
next
  case False
  define total where "total = min (num_computed_tokens q + nc + ext) (max_model_len k)"
  define need where "need = min (total + n + la) (max_model_len k)"
  define lists where "lists = block_lists k hits"
  obtain r1 k1 where c1: "coordinate (\<lambda>_. remove_skipped_blocks (request_id q) total) (each k) k = (r1, k1)" by fastforce
  obtain r2 k2 where c2: "(if hits \<noteq> None \<or> 0 < ext
      then coordinate (allocate_new_computed_blocks (request_id q) (num_computed_tokens q + nc) ext) lists k1
      else (Inr [], k1)) = (r2, k2)" by fastforce
  obtain r3 k3 where c3: "coordinate (\<lambda>_. allocate_new_blocks (request_id q) need) (each k2) k2 = (r3, k3)" by fastforce
  obtain r4 k4 where c4: "coordinate (\<lambda>_. cache_blocks q (min (total + n) (num_tokens q))) (each k3) k3 = (r4, k4)" by fastforce
  note p1 = skip [OF P c1]
  have p2: "P k2" using c2 hit [OF p1] p1 by (auto split: if_splits)
  note p3 = new [OF p2 c3]
  note p4 = cache [OF p3 c4]
  have "k' \<in> {k1, k2, k3, k4}"
    using call False c2
    unfolding allocate_slots_def Let_def total_def [symmetric] need_def [symmetric] lists_def [symmetric] c1 c2 c3 c4 prod.case
    by (simp add: c3 c4 split: sum.splits if_splits)
  with p1 p2 p3 p4 show ?thesis by blast
qed

lemma allocate_slots_frame:
  assumes "allocate_slots q n nc hits la ext delay k = (res, k')" "r \<noteq> request_id q"
  shows "extents k' r = extents k r"
  by (rule allocate_slots_stages [OF assms(1), where P = "\<lambda>k'. extents k' r = extents k r"])
    (use coordinate_frame skip_frame op_frames [OF assms(2)] in \<open>metis (no_types, lifting)\<close>)+

lemma allocate_none_frame:
  assumes "allocate_slots q n nc hits la ext delay k = (Inr None, k')"
  shows "extents k' r = extents k r"
proof -
  define total where "total = min (num_computed_tokens q + nc + ext) (max_model_len k)"
  obtain r1 k1 where c1: "coordinate (\<lambda>_. remove_skipped_blocks (request_id q) total) (each k) k = (r1, k1)" by fastforce
  have "k' = k1"
    using assms unfolding allocate_slots_def Let_def total_def [symmetric] c1 prod.case
    by (auto split: sum.splits if_splits prod.splits)
  with coordinate_frame [OF c1] skip_frame show ?thesis by metis
qed

lemma free_slots_frame:
  assumes "r \<noteq> request_id q"
  shows "extents (snd (free_slots q k)) r = extents k r"
proof -
  obtain res k' where c: "free_slots q k = (res, k')" by fastforce
  with coordinate_frame op_frames(3) [OF assms] show ?thesis unfolding free_slots_def by (metis snd_conv)
qed


section \<open>The calls of the scheduler\<close>

text \<open>Prefix caching is off, or there is one group and its search is supported. A request's hashes are
  complete and distinct, when they are used.\<close>

definition kv_plain :: "kv_manager \<Rightarrow> bool" where
  "kv_plain k \<longleftrightarrow> \<not> enable_caching (pool k) \<or>
     coordinator_kind k = Unitary \<and> search_ok (attention_type (kv_spec (hd (managers k)))) (use_eagle k) (context_parallel k)"

definition hashes_complete :: "kv_manager \<Rightarrow> cache_request \<Rightarrow> bool" where
  "hashes_complete k q \<longleftrightarrow> enable_caching (pool k) \<longrightarrow>
     distinct (block_hashes q) \<and> int (length (block_hashes q)) = num_tokens q div hash_block_size (pool k)"

text \<open>A step of the manager for one request.\<close>

definition kv_moves :: "string \<Rightarrow> kv_manager \<Rightarrow> kv_manager \<Rightarrow> bool" where
  "kv_moves rid k k' \<longleftrightarrow> kv_reachable k' \<and> same_shape k k' \<and> (\<forall>r. r \<noteq> rid \<longrightarrow> extents k' r = extents k r)"

definition kv_rests :: "kv_manager \<Rightarrow> kv_manager \<Rightarrow> bool" where
  "kv_rests k k' \<longleftrightarrow> kv_reachable k' \<and> same_shape k k' \<and> (\<forall>r. extents k' r = extents k r)"

lemma kv_plain_shape:
  assumes "kv_plain k" "same_shape k k'" "kv_reachable k"
  shows "kv_plain k'"
proof -
  have "coordinator_kind k = Unitary \<Longrightarrow> managers k \<noteq> []"
    using kv_reachable_unitary [OF assms(3)] by (auto simp: unitary_ok_def)
  moreover have "managers k \<noteq> [] \<Longrightarrow> kv_spec (hd (managers k')) = kv_spec (hd (managers k))"
    using assms(2) by (cases "managers k"; cases "managers k'") (auto simp: same_shape_def same_manager_def dest: spec [of _ 0])
  ultimately show ?thesis using assms(1,2) by (auto simp: kv_plain_def same_shape_def)
qed

lemma hashes_complete_shape: "same_shape k k' \<Longrightarrow> hashes_complete k' q \<longleftrightarrow> hashes_complete k q"
  by (auto simp: hashes_complete_def same_shape_def)

lemma plain_block_sizes:
  assumes "kv_reachable k" "kv_plain k" "enable_caching (pool k)" "m \<in> set (managers k)"
  shows "block_size m mod hash_block_size (pool k) = 0"
  using kv_reachable_unitary [OF assms(1)] assms(2-4) by (auto simp: kv_plain_def unitary_ok_def)

lemma allocated:
  assumes reach: "kv_reachable k" and call: "slots_request q n nc hits la k" and fit: "num_computed_tokens q + nc + n \<le> max_model_len k"
  shows "\<exists>res k'. allocate_slots q n nc hits la 0 False k = (Inr res, k') \<and> kv_moves (request_id q) k k' \<and>
    (case res of
       None \<Rightarrow> extents k' (request_id q) = extents k (request_id q)
     | Some new \<Rightarrow> length new = length (managers k) \<and> covers k' (request_id q) (num_computed_tokens q + nc + n))"
proof -
  let ?rid = "request_id q" and ?c = "min (num_computed_tokens q + nc) (max_model_len k)"
  let ?need = "min (?c + n + la) (max_model_len k)"
  have pos: "0 < n" "0 \<le> la" using call by (auto simp: slots_request_def)
  from allocate_slots_ok [OF kv_reachable_ok [OF reach] call refl refl, of False] obtain res k' where
    res: "allocate_slots q n nc hits la 0 False k = (Inr res, k')" "same_shape k k'"
      "allocation_result q ?need (num_computed_tokens q + nc) hits k res k'" by blast
  have "kv_step k k'" using kv_step.allocate [OF call, of False] res(1) by simp
  then have "kv_moves ?rid k k'"
    using kv_reachable.step [OF reach] res(2) allocate_slots_frame [OF res(1)] by (simp add: kv_moves_def)
  moreover have "extents k' ?rid = extents k ?rid" if "res = None" using allocate_none_frame res(1) that by metis
  moreover have "length new = length (managers k) \<and> covers k' ?rid (num_computed_tokens q + nc + n)" if new: "res = Some new" for new
  proof -
    have le: "num_computed_tokens q + nc + n \<le> ?need" using pos fit by simp
    have at: "length new = length (managers k)"
      "\<And>i. i < length (managers k) \<Longrightarrow> ?need \<le> block_size (managers k ! i) * int (length (req_blocks (managers k' ! i) ?rid))"
      using res(3) new by (auto simp: allocation_result_def)
    have "length (managers k') = length (managers k)"
      "\<And>i. i < length (managers k) \<Longrightarrow> block_size (managers k' ! i) = block_size (managers k ! i)"
      using res(2) by (auto simp: same_shape_def same_manager_def)
    with at(1) order_trans [OF le at(2)] show ?thesis by (simp add: covers_def all_set_conv_all_nth)
  qed
  ultimately show ?thesis using res(1) by (intro exI [of _ res] exI [of _ k']) (auto split: option.splits)
qed

text \<open>A running request asks for slots for \<open>n\<close> more tokens.\<close>

lemma running_slots:
  assumes "kv_reachable k" "kv_plain k" "hashes_complete k q" "covers k (request_id q) (num_computed_tokens q)"
    and "0 < n" "0 \<le> la" "0 \<le> num_computed_tokens q" "num_tokens q \<le> max_model_len k" "num_computed_tokens q + n \<le> max_model_len k"
  shows "\<exists>res k'. allocate_slots q n 0 None la 0 False k = (Inr res, k') \<and> kv_moves (request_id q) k k' \<and>
    (case res of
       None \<Rightarrow> extents k' (request_id q) = extents k (request_id q)
     | Some new \<Rightarrow> length new = length (managers k) \<and> covers k' (request_id q) (num_computed_tokens q + n))"
proof -
  have "slots_request q n 0 None la k"
    using assms plain_block_sizes [OF assms(1,2)] by (auto simp: slots_request_def hashes_complete_def covers_def)
  from allocated [OF assms(1) this] assms(9) show ?thesis by (simp cong: option.case_cong)
qed

text \<open>A waiting request looks up its prefix, and asks for slots behind it.\<close>

lemma waiting_slots:
  assumes "kv_reachable k" "kv_plain k" "hashes_complete k q" "no_entry k (request_id q)"
    and "num_computed_tokens q = 0" "0 < num_tokens q" "num_tokens q \<le> max_model_len k"
  shows "\<exists>hits c. get_computed_blocks q k = Some (Inr (hits, c)) \<and> 0 \<le> c \<and> c < num_tokens q \<and>
    (\<forall>n la. 0 < n \<longrightarrow> 0 \<le> la \<longrightarrow> c + n \<le> max_model_len k \<longrightarrow>
      (\<exists>res k'. allocate_slots q n c hits la 0 False k = (Inr res, k') \<and> kv_moves (request_id q) k k' \<and>
        (case res of None \<Rightarrow> no_entry k' (request_id q) | Some new \<Rightarrow> covers k' (request_id q) (c + n))))"
proof -
  have entry: "\<forall>m \<in> set (managers k). map_of (num_cached_block m) (request_id q) = None \<and> req_blocks m (request_id q) = []"
    using assms(4) by (auto simp: no_entry_def extent_def)
  have "\<exists>hits c. get_computed_blocks q k = Some (Inr (hits, c)) \<and> 0 \<le> c \<and> c < num_tokens q \<and>
    (\<forall>n la. 0 < n \<longrightarrow> 0 \<le> la \<longrightarrow> slots_request q n c hits la k)"
  proof (cases "enable_caching (pool k)")
    case True
    with assms(2) have unit: "coordinator_kind k = Unitary"
      "search_ok (attention_type (kv_spec (hd (managers k)))) (use_eagle k) (context_parallel k)" by (auto simp: kv_plain_def)
    from True assms(3) have hs: "distinct (block_hashes q)" "int (length (block_hashes q)) = num_tokens q div hash_block_size (pool k)"
      by (auto simp: hashes_complete_def)
    note hits = new_request_hits [OF assms(1) unit entry assms(5-7) hs]
    from hits [of 1 0] obtain h c where h: "get_computed_blocks q k = Some (Inr (h, c))" "0 \<le> c" "c < num_tokens q" by auto
    moreover have "slots_request q n c h la k" if "0 < n" "0 \<le> la" for n la using hits [OF that] h(1) by auto
    ultimately show ?thesis by blast
  next
    case False
    then have "slots_request q n 0 None la k" if "0 < n" "0 \<le> la" for n la
      using that entry assms(5-7) by (simp add: slots_request_def)
    with False assms(6) show ?thesis by (auto simp: get_computed_blocks_def)
  qed
  then obtain hits c where h: "get_computed_blocks q k = Some (Inr (hits, c))" "0 \<le> c" "c < num_tokens q"
    "\<And>n la. 0 < n \<Longrightarrow> 0 \<le> la \<Longrightarrow> slots_request q n c hits la k" by blast
  have "\<exists>res k'. allocate_slots q n c hits la 0 False k = (Inr res, k') \<and> kv_moves (request_id q) k k' \<and>
      (case res of None \<Rightarrow> no_entry k' (request_id q) | Some new \<Rightarrow> covers k' (request_id q) (c + n))"
    if n: "0 < n" "0 \<le> la" "c + n \<le> max_model_len k" for n la
  proof -
    from allocated [OF assms(1) h(4) [OF n(1,2)]] n(3) assms(5) obtain res k' where
      "allocate_slots q n c hits la 0 False k = (Inr res, k')" "kv_moves (request_id q) k k'"
      "case res of None \<Rightarrow> extents k' (request_id q) = extents k (request_id q)
       | Some new \<Rightarrow> length new = length (managers k) \<and> covers k' (request_id q) (num_computed_tokens q + c + n)" by auto
    with no_entry_frame [of k' "request_id q" k] assms(4,5) show ?thesis
      by (intro exI [of _ res] exI [of _ k']) (auto split: option.splits)
  qed
  with h(1-3) show ?thesis by blast
qed

lemma managers_do_post:
  fixes f :: "'x \<Rightarrow> 'a manager_op"
  assumes "managers_do f xs ms p = (Inr ys, ms', p')" "\<And>x m p y m' p'. f x m p = (Inr y, m', p') \<Longrightarrow> Q m'" "m \<in> set ms'"
  shows "Q m"
  using assms
proof (induction f xs ms p arbitrary: ys ms' p' rule: managers_do.induct)
  case (3 f x xs m1 ms p)
  from 3(2) obtain y m2 p2 zs ms2 where *: "f x m1 p = (Inr y, m2, p2)" "managers_do f xs ms p2 = (Inr zs, ms2, p')" "ms' = m2 # ms2"
    by (auto split: prod.splits sum.splits)
  from 3(1) [OF *(1) [symmetric] refl refl *(2) 3(3)] 3(3) [OF *(1)] 3(4) *(3) show ?case by auto
qed auto

lemma freed:
  assumes "kv_reachable k"
  shows "\<exists>us k'. free_slots q k = (Inr us, k') \<and> kv_moves (request_id q) k k' \<and> no_entry k' (request_id q)"
proof -
  have inv: "managers_inv (\<lambda>_. 0) (managers k) (pool k)" using kv_reachable_ok [OF assms] by (simp add: kv_ok_def)
  obtain ys ms p where res: "managers_do (\<lambda>_. free_request (request_id q)) (each k) (managers k) (pool k) = (Inr ys, ms, p)"
    using freeing_all.managers_do_ok [OF inv units, of "request_id q"] free_nonneg [OF inv] by (auto simp: each_def)
  have "extent (request_id q) m' = (0, None)" if "free_request (request_id q) m p = (Inr y, m', p')" for m p y m' p'
    using that by (auto simp: free_request_def extent_def req_blocks_def Let_def split: prod.splits sum.splits)
  then have "extent (request_id q) m = (0, None)" if "m \<in> set ms" for m
    using managers_do_post [OF res _ that, of "\<lambda>m. extent (request_id q) m = (0, None)"] by blast
  moreover have "free_slots q k = (Inr ys, k\<lparr>managers := ms, pool := p\<rparr>)" using res by (simp add: free_slots_def coordinate_def)
  moreover have "kv_moves (request_id q) k (snd (free_slots q k))"
    using kv_reachable.step [OF assms kv_step.free] free_slots_ok [OF kv_reachable_ok [OF assms], of q] free_slots_frame
    by (simp add: kv_moves_def)
  ultimately show ?thesis by (simp add: no_entry_def)
qed

text \<open>The other calls leave all tables alone.\<close>

lemma rests:
  assumes "kv_reachable k"
  shows "kv_rests k (snd (reset_cache k))" "kv_rests k (snd (take_kv_events k))" "kv_rests k (snd (take_all_new_block_ids k))"
proof -
  have "extent r (snd (take_new_block_ids m)) = extent r m" for r m by (simp add: take_new_block_ids_def)
  then have "extents (snd (take_all_new_block_ids k)) r = extents k r" for r
    by (simp add: take_all_new_block_ids_def extents_def)
  moreover have "extents (snd (reset_cache k)) r = extents k r" "extents (snd (take_kv_events k)) r = extents k r" for r
    by (simp_all add: reset_cache_def take_kv_events_def extents_def map_prod_def split_beta)
  moreover have "same_shape k k'" "kv_reachable k'" if "kv_step k k'" for k'
    using kv_step_ok [OF that kv_reachable_ok [OF assms]] kv_reachable.step [OF assms that] by simp_all
  ultimately show "kv_rests k (snd (reset_cache k))" "kv_rests k (snd (take_kv_events k))" "kv_rests k (snd (take_all_new_block_ids k))"
    using kv_step.reset kv_step.events kv_step.new_ids by (simp_all add: kv_rests_def)
qed

text \<open>When no request has blocks, the cache can be reset.\<close>

lemma idle_reset:
  assumes "kv_reachable k" "\<And>r. no_entry k r"
  shows "fst (reset_cache k)"
proof -
  have inv: "managers_inv (\<lambda>_. 0) (managers k) (pool k)" using kv_reachable_ok [OF assms(1)] by (simp add: kv_ok_def)
  then obtain fl where fl: "free_rel (pool k) fl" by (auto simp: managers_inv_def pool_ok_def)
  have "req_blocks m r = []" if "m \<in> set (managers k)" for m r
    using assms(2) [of r] that by (simp add: no_entry_def extent_def)
  then have none: "all_refs (managers k) b = 0" for b
    using inv refs_in_table by (fastforce simp: all_refs_def managers_inv_def manager_ok_def)
  have "ref_cnt (blocks (pool k) ! b) = 0" if "b < num_blocks (pool k)" "b \<noteq> null_block (pool k)" for b
    using inv that none [of b] by (simp add: managers_inv_def)
  then have "set fl = {0..<num_blocks (pool k)} - {null_block (pool k)}"
    using fl by (auto simp: free_rel_def)
  then have "card (set fl) = num_blocks (pool k) - 1" using fl by (simp add: free_rel_def)
  then have "length fl = num_blocks (pool k) - 1" using fl by (simp add: free_rel_def distinct_card)
  moreover obtain n where "num_blocks (pool k) = Suc n" using fl by (cases "num_blocks (pool k)") (auto simp: free_rel_def)
  ultimately show ?thesis
    using free_count [OF fl] by (simp add: reset_cache_def reset_prefix_cache_def)
qed

end
