(* ===== verification/SchedInv.thy ===== *)
theory SchedInv
  imports SchedKv
begin

text \<open>
  The invariant of the scheduler between two passes, without asynchronous scheduling, LoRA limits,
  streaming sessions, pooling or multimodal inputs: the queues partition the known requests, a running
  request has slots for its computed tokens and tokens left to compute, and no other request has blocks.
  Each operation on one request keeps it.
\<close>

declare map_of_eq_Some_iff [simp del]

section \<open>Hashing\<close>

text \<open>What the cache needs of a request hasher: hashing token by token gives the hashes of hashing at once,
  and the hashes of one request are distinct and complete.\<close>

definition genuine :: "block_hasher \<Rightarrow> kv_request \<Rightarrow> bool" where
  "genuine hasher r \<longleftrightarrow> block_hashes r = hasher (r\<lparr>block_hashes := []\<rparr>)"

definition with_token :: "block_hasher \<Rightarrow> int \<Rightarrow> kv_request \<Rightarrow> kv_request" where
  "with_token hasher t r = (let r1 = r\<lparr>all_token_ids := all_token_ids r @ [t]\<rparr> in r1\<lparr>block_hashes := block_hashes r1 @ hasher r1\<rparr>)"

definition hasher_ok :: "block_hasher \<Rightarrow> int \<Rightarrow> bool" where
  "hasher_ok hasher bsize \<longleftrightarrow>
     (\<forall>r t. mm_features r = [] \<longrightarrow> genuine hasher r \<longrightarrow> genuine hasher (with_token hasher t r)) \<and>
     (\<forall>r. mm_features r = [] \<longrightarrow> distinct (hasher (r\<lparr>block_hashes := []\<rparr>)) \<and>
        int (length (hasher (r\<lparr>block_hashes := []\<rparr>))) = num_tokens r div bsize)"

lemma request_hasher_plain:
  assumes "0 < bs" "mm_features r = []"
  shows "request_hasher hf nh bs r = plain_chain hf nh r bs (full_blocks bs (all_token_ids r) - length (block_hashes r))
    (int (length (block_hashes r))) (if block_hashes r = [] then None else Some (last (block_hashes r)))"
  using assms by (simp add: request_hasher_def request_block_hasher_closed hashes_from_plain)

lemma request_hasher_ok:
  assumes hf: "inj hf" "nh \<notin> range hf" "[] \<notin> range hf" and bs: "0 < bs"
  shows "hasher_ok (request_hasher hf nh bs) bs"
  unfolding hasher_ok_def
proof (intro conjI allI impI)
  fix r :: kv_request and t
  assume mm: "mm_features r = []" and gen: "genuine (request_hasher hf nh bs) r"
  let ?r1 = "r\<lparr>all_token_ids := all_token_ids r @ [t]\<rparr>" and ?n = "full_blocks bs (all_token_ids r)"
  have hs: "block_hashes r = plain_chain hf nh r bs ?n 0 None"
    using gen mm bs by (simp add: genuine_def request_hasher_plain)
  have le: "?n \<le> full_blocks bs (all_token_ids ?r1)" using full_blocks_append [OF bs] by simp
  have old: "plain_chain hf nh ?r1 bs ?n 0 None = block_hashes r"
    using plain_chain_more [OF bs, of 0 ?n r hf nh "[t]" None] hs by simp
  have len: "length (block_hashes r) = ?n" by (simp add: hs)
  then have nil: "block_hashes r = [] \<longleftrightarrow> ?n = 0" by auto
  define N where "N = full_blocks bs (all_token_ids ?r1)"
  have "request_hasher hf nh bs ?r1
      = plain_chain hf nh ?r1 bs (N - ?n) (int ?n) (if ?n = 0 then None else Some (last (block_hashes r)))"
    using mm bs by (simp add: request_hasher_plain N_def len nil)
  then have "plain_chain hf nh ?r1 bs (?n + (N - ?n)) 0 None = block_hashes r @ request_hasher hf nh bs ?r1"
    using plain_chain_append [of hf nh ?r1 bs ?n "N - ?n" 0 None] unfolding old by simp
  then have "plain_chain hf nh ?r1 bs N 0 None = block_hashes r @ request_hasher hf nh bs ?r1" using le by (simp add: N_def)
  then show "genuine (request_hasher hf nh bs) (with_token (request_hasher hf nh bs) t r)"
    using mm bs by (simp add: genuine_def with_token_def Let_def request_hasher_plain N_def)
next
  fix r :: kv_request
  assume mm: "mm_features r = []"
  let ?r = "r\<lparr>block_hashes := []\<rparr>"
  have len: "length (request_hasher hf nh bs ?r) = full_blocks bs (all_token_ids r)" using mm bs by (simp add: request_hasher_plain)
  then show "int (length (request_hasher hf nh bs ?r)) = num_tokens r div bs"
    using bs by (simp add: full_blocks_def num_tokens_def pos_imp_zdiv_nonneg_iff)
  have call: "request_block_hasher hf nh bs ?r = Some (Inr (request_hasher hf nh bs ?r))"
    using mm bs by (simp add: request_hasher_def request_block_hasher_closed hashes_from_plain)
  show "distinct (request_hasher hf nh bs ?r)"
    unfolding distinct_conv_nth
    using prefix_hash_sound [OF hf bs _ _ call call] by auto
qed

section \<open>The invariant\<close>

definition sync_config :: "sched_config \<Rightarrow> kv_manager \<Rightarrow> bool" where
  "sync_config c k \<longleftrightarrow> \<not> async_scheduling c \<and> max_loras c = None \<and> 0 \<le> max_num_scheduled_tokens c \<and> 0 \<le> num_lookahead_tokens c \<and>
     model_len c = max_model_len k \<and> (enable_caching (pool k) \<longrightarrow> hasher_ok (hash_new c) (hash_block_size (pool k)))"

definition req_ok :: "sched_config \<Rightarrow> bool \<Rightarrow> request \<Rightarrow> bool" where
  "req_ok c caching r \<longleftrightarrow> \<not> pooling r \<and> \<not> resumable r \<and> mm_features r = [] \<and> num_output_placeholders r = 0 \<and>
     (\<exists>sp. sampling r = Some sp \<and> num_prompt_tokens r + min_tokens sp \<le> model_len c) \<and>
     0 < num_tokens r \<and> num_tokens r < model_len c \<and> num_tokens r = num_prompt_tokens r + num_output_tokens r \<and>
     (caching \<longrightarrow> genuine (hash_new c) (kv_request.truncate r))"

text \<open>A running request, when \<open>fly\<close> draft tokens of it are being computed or none are.\<close>

definition running_ok :: "nat option \<Rightarrow> kv_manager \<Rightarrow> string \<Rightarrow> request \<Rightarrow> bool" where
  "running_ok fly k rid r \<longleftrightarrow> status r = RUNNING \<and> 0 \<le> num_computed_tokens r \<and> covers k rid (num_computed_tokens r) \<and>
     (case fly of
        None \<Rightarrow> num_computed_tokens r < num_tokens r
      | Some d \<Rightarrow> num_computed_tokens r \<le> num_tokens r + int d \<and> (0 < d \<longrightarrow> num_computed_tokens r = num_tokens r + int d))"

definition waiting_ok :: "request \<Rightarrow> bool" where
  "waiting_ok r \<longleftrightarrow> status r \<in> {WAITING, WAITING_FOR_FSM, PREEMPTED} \<and> num_computed_tokens r = 0"

text \<open>The invariant for one request, when \<open>R\<close> are the running requests and \<open>W\<close> the waiting ones.\<close>

definition request_at :: "(string \<Rightarrow> nat option) \<Rightarrow> string list \<Rightarrow> string list \<Rightarrow> scheduler \<Rightarrow> string \<Rightarrow> bool" where
  "request_at fly R W s rid \<longleftrightarrow>
     (rid \<in> set R \<longrightarrow> running_ok (fly rid) (kv s) rid (objs s rid)) \<and>
     (rid \<in> set W \<longrightarrow> waiting_ok (objs s rid)) \<and>
     (rid \<notin> set R \<longrightarrow> no_entry (kv s) rid) \<and>
     (rid \<in> set (request_ids s) \<longrightarrow> request_id (objs s rid) = rid \<and> req_ok (config s) (enable_caching (pool (kv s))) (objs s rid))"

definition parts :: "string list \<Rightarrow> string list \<Rightarrow> scheduler \<Rightarrow> bool" where
  "parts R W s \<longleftrightarrow> distinct R \<and> distinct W \<and> set R \<inter> set W = {} \<and> set R \<union> set W = set (request_ids s) \<and>
     distinct (request_ids s) \<and> length R \<le> max_num_running_reqs (config s)"

definition cache_fits :: "scheduler \<Rightarrow> bool" where
  "cache_fits s \<longleftrightarrow> kv_reachable (kv s) \<and> kv_plain (kv s) \<and> sync_config (config s) (kv s)"

definition state_ok :: "(string \<Rightarrow> nat option) \<Rightarrow> string list \<Rightarrow> string list \<Rightarrow> scheduler \<Rightarrow> bool" where
  "state_ok fly R W s \<longleftrightarrow> cache_fits s \<and> parts R W s \<and> (\<forall>rid. request_at fly R W s rid)"

definition wlist :: "scheduler \<Rightarrow> string list" where
  "wlist s = queue_iter (rank_of s) (waiting s)"

definition wgood :: "scheduler \<Rightarrow> bool" where
  "wgood s \<longleftrightarrow> queue_good (rank_of s) (sched_policy (config s)) (waiting s)"

text \<open>A preempted request was not scheduled by the last pass.\<close>

definition fresh_resumes :: "scheduler \<Rightarrow> bool" where
  "fresh_resumes s \<longleftrightarrow> (\<forall>rid \<in> set (wlist s). status (objs s rid) = PREEMPTED \<longrightarrow> rid \<notin> set (prev_step_scheduled s))"

definition sched_ok :: "scheduler \<Rightarrow> bool" where
  "sched_ok s \<longleftrightarrow> state_ok (\<lambda>_. None) (running s) (wlist s) s \<and> wgood s \<and> fresh_resumes s"


section \<open>Steps that concern one request\<close>

lemma creq_simps [simp]: "request_id (creq s rid) = request_id (objs s rid)" "num_computed_tokens (creq s rid) = num_computed_tokens (objs s rid)"
  "num_tokens (creq s rid) = num_tokens (objs s rid)" "block_hashes (creq s rid) = block_hashes (objs s rid)"
  "kv_request.truncate (creq s rid) = kv_request.truncate (objs s rid)"
  by (simp_all add: creq_def cache_request.defs kv_request.defs num_tokens_def)

lemma hashes_known:
  assumes "cache_fits s" "req_ok (config s) (enable_caching (pool (kv s))) (objs s rid)"
  shows "hashes_complete (kv s) (creq s rid)"
  unfolding hashes_complete_def
proof
  assume caching: "enable_caching (pool (kv s))"
  with assms have h: "hasher_ok (hash_new (config s)) (hash_block_size (pool (kv s)))" "mm_features (objs s rid) = []"
    "genuine (hash_new (config s)) (kv_request.truncate (objs s rid))" by (simp_all add: cache_fits_def sync_config_def req_ok_def)
  let ?q = "kv_request.truncate (objs s rid)"
  have "mm_features ?q = []" "block_hashes ?q = block_hashes (objs s rid)" "num_tokens ?q = num_tokens (objs s rid)"
    using h(2) by (simp_all add: kv_request.defs num_tokens_def)
  with h show "distinct (block_hashes (creq s rid)) \<and>
      int (length (block_hashes (creq s rid))) = num_tokens (creq s rid) div hash_block_size (pool (kv s))"
    unfolding hasher_ok_def genuine_def by (metis creq_simps(3,4))
qed

lemma req_ok_upd [simp]: "req_ok c b (r\<lparr>status := x1\<rparr>) = req_ok c b r" "req_ok c b (r\<lparr>num_computed_tokens := x2\<rparr>) = req_ok c b r"
  "req_ok c b (r\<lparr>spec_token_ids := x3\<rparr>) = req_ok c b r" "req_ok c b (r\<lparr>num_preemptions := x4\<rparr>) = req_ok c b r"
  "req_ok c b (r\<lparr>num_cached_tokens := x5\<rparr>) = req_ok c b r" "req_ok c b (r\<lparr>stop_reason := x6\<rparr>) = req_ok c b r"
  "req_ok c b (r\<lparr>is_prefill_chunk := x7\<rparr>) = req_ok c b r" "req_ok c b (r\<lparr>discard_latest_async_tokens := x8\<rparr>) = req_ok c b r"
  by (simp_all add: req_ok_def num_tokens_def num_output_tokens_def kv_request.defs)

lemma num_tokens_upd [simp]: "num_tokens (r\<lparr>status := x1\<rparr>) = num_tokens r" "num_tokens (r\<lparr>num_computed_tokens := x2\<rparr>) = num_tokens r"
  "num_tokens (r\<lparr>spec_token_ids := x3\<rparr>) = num_tokens r" "num_tokens (r\<lparr>num_preemptions := x4\<rparr>) = num_tokens r"
  "num_tokens (r\<lparr>num_cached_tokens := x5\<rparr>) = num_tokens r" "num_tokens (r\<lparr>is_prefill_chunk := x7\<rparr>) = num_tokens r"
  for r :: "'a request_scheme"
  by (simp_all add: num_tokens_def)

lemma upd_req_simps [simp]: "objs (upd_req rid f s) = (objs s)(rid := f (objs s rid))" "config (upd_req rid f s) = config s"
  "kv (upd_req rid f s) = kv s" "request_ids (upd_req rid f s) = request_ids s" "running (upd_req rid f s) = running s"
  "waiting (upd_req rid f s) = waiting s" "prev_step_scheduled (upd_req rid f s) = prev_step_scheduled s"
  "pause (upd_req rid f s) = pause s" "enable_sd (upd_req rid f s) = enable_sd s"
  "finished_req_ids (upd_req rid f s) = finished_req_ids s"
  by (simp_all add: upd_req_def)

lemma running_ok_frame:
  "extents k' rid = extents k rid \<Longrightarrow> same_shape k k' \<Longrightarrow> running_ok fly k' rid r \<longleftrightarrow> running_ok fly k rid r"
  using covers_frame [of k' rid k] by (simp add: running_ok_def)

lemma request_at_frame:
  assumes "request_at fly R W s rid" "objs s' rid = objs s rid" "extents (kv s') rid = extents (kv s) rid"
    and "same_shape (kv s) (kv s')" "config s' = config s"
    and "rid \<in> set R' \<longleftrightarrow> rid \<in> set R" "rid \<in> set W' \<longleftrightarrow> rid \<in> set W" "rid \<in> set (request_ids s') \<longleftrightarrow> rid \<in> set (request_ids s)"
    and "rid \<in> set R \<Longrightarrow> fly' rid = fly rid"
  shows "request_at fly' R' W' s' rid"
proof -
  have "running_ok f (kv s') rid r = running_ok f (kv s) rid r" for f r by (rule running_ok_frame [OF assms(3,4)])
  moreover have "no_entry (kv s') rid = no_entry (kv s) rid" by (rule no_entry_frame [OF assms(3)])
  moreover have "enable_caching (pool (kv s')) = enable_caching (pool (kv s))" using assms(4) by (simp add: same_shape_def)
  moreover have "rid \<in> set R \<longrightarrow> fly' rid = fly rid" using assms(9) by blast
  ultimately show ?thesis using assms(1) by (simp add: request_at_def assms(2,5-8))
qed

lemma cache_fits_frame:
  assumes "cache_fits s" "kv_reachable (kv s')" "same_shape (kv s) (kv s')" "config s' = config s"
  shows "cache_fits s'"
  using assms kv_plain_shape [of "kv s" "kv s'"] by (auto simp: cache_fits_def sync_config_def same_shape_def)

lemma kv_moves_refl: "kv_reachable k \<Longrightarrow> kv_moves rid k k"
  by (simp add: kv_moves_def)

lemma state_step:
  assumes "state_ok fly R W s" "kv_moves rid (kv s) (kv s')" "config s' = config s" "\<And>r. r \<noteq> rid \<Longrightarrow> objs s' r = objs s r"
    and "parts R' W' s'" "set R' - {rid} = set R - {rid}" "set W' - {rid} = set W - {rid}"
    and "set (request_ids s') - {rid} = set (request_ids s) - {rid}" "\<And>r. r \<noteq> rid \<Longrightarrow> r \<in> set R \<Longrightarrow> fly' r = fly r"
    and "request_at fly' R' W' s' rid"
  shows "state_ok fly' R' W' s'"
proof -
  from assms(1) have s: "cache_fits s" "\<And>r. request_at fly R W s r" by (simp_all add: state_ok_def)
  from assms(2) have k: "kv_reachable (kv s')" "same_shape (kv s) (kv s')" "\<And>r. r \<noteq> rid \<Longrightarrow> extents (kv s') r = extents (kv s) r"
    by (simp_all add: kv_moves_def)
  have "request_at fly' R' W' s' r" if r: "r \<noteq> rid" for r
    by (rule request_at_frame [OF s(2) assms(4) [OF r] k(3) [OF r] k(2) assms(3)]) (use assms(6-9) r in blast)+
  with assms(5,10) cache_fits_frame [OF s(1) k(1,2) assms(3)] show ?thesis unfolding state_ok_def by metis
qed

text \<open>Steps of the cache that concern no request.\<close>

lemma state_rests:
  assumes "state_ok fly R W s" "kv_rests (kv s) (kv s')" "config s' = config s" "objs s' = objs s" "request_ids s' = request_ids s"
  shows "state_ok fly R W s'"
proof -
  from assms(2) have k: "kv_reachable (kv s')" "same_shape (kv s) (kv s')" "\<And>r. extents (kv s') r = extents (kv s) r"
    by (simp_all add: kv_rests_def)
  from assms(1) have s: "cache_fits s" "parts R W s" "\<And>r. request_at fly R W s r" by (simp_all add: state_ok_def)
  have "request_at fly R W s' r" for r
    by (rule request_at_frame [OF s(3) _ k(3) k(2) assms(3)]) (simp_all add: assms(4,5))
  with s(2) cache_fits_frame [OF s(1) k(1,2) assms(3)] assms(3,5) show ?thesis by (simp add: state_ok_def parts_def)
qed

text \<open>An update of a request that keeps what the invariant says of it.\<close>

lemma state_update:
  assumes "state_ok fly R W s" "request_at fly' R W (upd_req rid f s) rid" "\<And>r. r \<noteq> rid \<Longrightarrow> r \<in> set R \<Longrightarrow> fly' r = fly r"
  shows "state_ok fly' R W (upd_req rid f s)"
proof (rule state_step [OF assms(1) _ _ _ _ refl refl _ assms(3,2)])
  from assms(1) show "kv_moves rid (kv s) (kv (upd_req rid f s))" "parts R W (upd_req rid f s)"
    by (simp_all add: state_ok_def cache_fits_def kv_moves_refl parts_def)
qed simp_all

lemma request_at_of: "state_ok fly R W s \<Longrightarrow> request_at fly R W s rid"
  by (simp add: state_ok_def)

lemma known: "state_ok fly R W s \<Longrightarrow> set R \<union> set W = set (request_ids s)"
  by (simp add: state_ok_def parts_def)

section \<open>Freeing, preempting, finishing\<close>

lemma free_kv_ok:
  assumes "state_ok fly R W s" "rid \<in> set (request_ids s)"
  obtains k where "free_kv rid s = ok (s\<lparr>kv := k\<rparr>)" "kv_moves rid (kv s) k" "no_entry k rid"
proof -
  have "kv_reachable (kv s)" "request_id (objs s rid) = rid"
    using assms request_at_of [OF assms(1)] by (auto simp: state_ok_def cache_fits_def request_at_def)
  with freed [of "kv s" "creq s rid"] that show thesis by (auto simp: free_kv_def)
qed

lemma rank_of_upd [simp]: "priority (f (objs s rid)) = priority (objs s rid) \<Longrightarrow> arrival_time (f (objs s rid)) = arrival_time (objs s rid) \<Longrightarrow>
    rank_of (upd_req rid f s) = rank_of s"
  by (auto simp: rank_of_def)

lemma rank_of_frame: "objs s' = objs s \<Longrightarrow> rank_of s' = rank_of s"
  by (simp add: rank_of_def)

text \<open>What the passes never change.\<close>

definition same_base :: "scheduler \<Rightarrow> scheduler \<Rightarrow> bool" where
  "same_base s s' \<longleftrightarrow> config s' = config s \<and> request_ids s' = request_ids s \<and> prev_step_scheduled s' = prev_step_scheduled s \<and>
     pause s' = pause s \<and> enable_sd s' = enable_sd s \<and> rank_of s' = rank_of s"

lemma same_base_refl [simp]: "same_base s s"
  by (simp add: same_base_def)

lemma same_base_trans [trans]: "same_base s s1 \<Longrightarrow> same_base s1 s2 \<Longrightarrow> same_base s s2"
  by (simp add: same_base_def)

text \<open>The request has left the list of the running ones already.\<close>

lemma preempt_ok:
  assumes ok: "state_ok fly R (wlist s) s" and good: "wgood s" and rid: "rid \<in> set R"
  obtains s' where "preempt_request rid s = ok s'" "state_ok fly (remove1 rid R) (wlist s') s'" "wgood s'" "same_base s s'"
    "running s' = running s" "set (wlist s') = insert rid (set (wlist s))" "status (objs s' rid) = PREEMPTED"
    "\<And>r. r \<noteq> rid \<Longrightarrow> objs s' r = objs s r" "kv_moves rid (kv s) (kv s')"
proof -
  have d: "distinct R" "set R \<inter> set (wlist s) = {}" "set R \<union> set (wlist s) = set (request_ids s)" "distinct (request_ids s)"
    "length R \<le> max_num_running_reqs (config s)" "distinct (wlist s)" using ok by (auto simp: state_ok_def parts_def)
  have known: "rid \<in> set (request_ids s)" "rid \<notin> set (wlist s)" using rid d by blast+
  note at = request_at_of [OF ok, of rid]
  have st: "status (objs s rid) = RUNNING" using at rid by (simp add: request_at_def running_ok_def)
  obtain k where k: "free_kv rid s = ok (s\<lparr>kv := k\<rparr>)" "kv_moves rid (kv s) k" "no_entry k rid"
    by (rule free_kv_ok [OF ok known(1)])
  define s2 where "s2 = upd_req rid (\<lambda>r. r\<lparr>status := PREEMPTED, num_computed_tokens := 0, spec_token_ids := [],
      num_preemptions := num_preemptions r + 1\<rparr>) (s\<lparr>kv := k\<rparr>)"
  define s' where "s' = s2\<lparr>waiting := prepend_request (rank_of s2) rid (waiting s2)\<rparr>"
  have rank: "rank_of s2 = rank_of s" "rank_of s' = rank_of s" by (simp_all add: s2_def s'_def rank_of_frame [of s'_def s2] rank_of_def fun_eq_iff)
  have call: "preempt_request rid s = ok s'" using st k(1) by (simp add: preempt_request_def Let_def s2_def s'_def)
  have good2: "queue_good (rank_of s) (sched_policy (config s)) (waiting s)" using good by (simp add: wgood_def)
  note pre = wq.prepend [OF good2, of rid] wq.set_ops(2,5) [OF good2, of rid]
  have w: "wlist s' = queue_iter (rank_of s) (prepend_request (rank_of s) rid (waiting s))" "wgood s'"
    using pre rank by (simp_all add: wlist_def wgood_def s'_def s2_def)
  have sets: "set (wlist s') = insert rid (set (wlist s))" "distinct (wlist s')"
    using pre w(1) d(6) known(2) by (simp_all add: wlist_def)
  have base: "same_base s s'" using rank by (simp add: same_base_def s'_def s2_def)
  have "parts (remove1 rid R) (wlist s') s'"
    using d sets rid base by (auto simp: parts_def same_base_def set_remove1_eq length_remove1)
  moreover have "request_at fly (remove1 rid R) (wlist s') s' rid"
    using at known(1) k(2,3) d(1) rid base
    by (simp add: request_at_def s'_def s2_def waiting_ok_def set_remove1_eq kv_moves_def same_shape_def)
  ultimately have "state_ok fly (remove1 rid R) (wlist s') s'"
    using d(1) sets(1) k(2) by (intro state_step [OF ok]) (auto simp: s'_def s2_def set_remove1_eq)
  with call w(2) base sets(1) k(2) show thesis by (intro that [of s']) (simp_all add: s'_def s2_def)
qed


text \<open>A request with a final status is freed and forgotten; it may still stand in the lists, which the callers
  clean up. \<open>f\<close> is the update that gave it that status.\<close>

lemma free_finished_ok:
  assumes ok: "state_ok fly R W s" and rid: "rid \<in> set (request_ids s)" and f: "request_id (f (objs s rid)) = rid"
    and fin: "is_finished (status (f (objs s rid)))"
  obtains s' where "free_finished_request rid (upd_req rid f s) = ok s'" "state_ok fly (removeAll rid R) (removeAll rid W) s'"
    "request_ids s' = remove1 rid (request_ids s)" "objs s' = (objs s)(rid := f (objs s rid))" "config s' = config s"
    "running s' = running s" "waiting s' = waiting s" "prev_step_scheduled s' = prev_step_scheduled s" "pause s' = pause s"
    "enable_sd s' = enable_sd s" "finished_req_ids s' = List.insert rid (finished_req_ids s)" "kv_moves rid (kv s) (kv s')"
proof -
  let ?s1 = "note_finished rid (upd_req rid f s)"
  have s1: "objs ?s1 = (objs s)(rid := f (objs s rid))" "kv ?s1 = kv s" "config ?s1 = config s" "request_ids ?s1 = request_ids s"
    "running ?s1 = running s" "waiting ?s1 = waiting s" "prev_step_scheduled ?s1 = prev_step_scheduled s" "pause ?s1 = pause s"
    "enable_sd ?s1 = enable_sd s" "finished_req_ids ?s1 = List.insert rid (finished_req_ids s)"
    by (simp_all add: note_finished_def)
  have "kv_reachable (kv s)" using ok by (simp add: state_ok_def cache_fits_def)
  with freed [of "kv s" "creq ?s1 rid"] f s1(1,2) obtain k where
    k: "free_kv rid ?s1 = ok (?s1\<lparr>kv := k\<rparr>)" "kv_moves rid (kv s) k" "no_entry k rid"
    by (auto simp: free_kv_def)
  define s' where "s' = ?s1\<lparr>kv := k, request_ids := remove1 rid (request_ids s)\<rparr>"
  have call: "free_finished_request rid (upd_req rid f s) = ok s'"
    using fin k(1) rid s1 by (simp add: free_finished_request_def free_blocks_of_def s'_def)
  have d: "distinct (request_ids s)" "set R \<union> set W = set (request_ids s)" "parts R W s"
    using ok by (auto simp: state_ok_def parts_def)
  have "parts (removeAll rid R) (removeAll rid W) s'"
    using d(3) le_trans [OF length_removeAll_less_eq, of R _ rid]
    by (auto simp: parts_def s'_def s1 distinct_removeAll set_remove1_eq)
  moreover have "request_at fly (removeAll rid R) (removeAll rid W) s' rid"
    using k(3) d(1) by (simp add: request_at_def s'_def set_remove1_eq)
  ultimately have "state_ok fly (removeAll rid R) (removeAll rid W) s'"
    using k(2) d(1) by (intro state_step [OF ok]) (auto simp: s'_def s1 set_remove1_eq)
  with call k(2) show thesis by (intro that [of s']) (simp_all add: s'_def s1)
qed

end
