(* ===== verification/SchedPass.thy ===== *)
theory SchedPass
  imports SchedInv
begin

text \<open>
  The first half of a scheduling pass: the running requests get slots, or requests are preempted. The
  requests scheduled so far are a prefix of the running ones, the dicts of the pass have exactly their
  keys, and the budget is what they leave.
\<close>

declare map_of_eq_Some_iff [simp del]

section \<open>Lists and dicts\<close>

lemma take_remove1:
  assumes "distinct xs" "v \<in> set xs" "i < length xs"
  shows "v \<in> set (take i xs) \<Longrightarrow> take (i - 1) (remove1 v xs) = remove1 v (take i xs) \<and> i - 1 < length (remove1 v xs) \<and>
      remove1 v xs ! (i - 1) = xs ! i"
    and "v \<notin> set (take i xs) \<Longrightarrow> take i (remove1 v xs) = take i xs \<and> i \<le> length (remove1 v xs) \<and>
      (v \<noteq> xs ! i \<longrightarrow> i < length (remove1 v xs) \<and> remove1 v xs ! i = xs ! i)"
proof -
  obtain ys zs where xs: "xs = ys @ v # zs" "v \<notin> set ys" using split_list_first [OF assms(2)] by blast
  have rem: "remove1 v xs = ys @ zs" using xs by (simp add: remove1_append)
  show "take (i - 1) (remove1 v xs) = remove1 v (take i xs) \<and> i - 1 < length (remove1 v xs) \<and> remove1 v xs ! (i - 1) = xs ! i"
    if "v \<in> set (take i xs)"
  proof -
    have "length ys < i"
    proof (rule ccontr)
      assume "\<not> length ys < i"
      then have "take i xs = take i ys" using xs(1) by simp
      with that xs(2) in_set_takeD show False by metis
    qed
    then obtain j where "i = length ys + Suc j" using less_iff_Suc_add by auto
    with xs assms(3) show ?thesis unfolding rem by (simp add: remove1_append nth_append)
  qed
  show "take i (remove1 v xs) = take i xs \<and> i \<le> length (remove1 v xs) \<and>
      (v \<noteq> xs ! i \<longrightarrow> i < length (remove1 v xs) \<and> remove1 v xs ! i = xs ! i)" if "v \<notin> set (take i xs)"
  proof -
    have "i \<le> length ys"
    proof (rule ccontr)
      assume "\<not> i \<le> length ys"
      then have "length ys < i" by simp
      then obtain j where "i = length ys + Suc j" using less_iff_Suc_add by auto
      with xs(1) that show False by simp
    qed
    with xs show ?thesis unfolding rem by (auto simp: nth_append)
  qed
qed

lemma last_remove1: "distinct xs \<Longrightarrow> xs \<noteq> [] \<Longrightarrow> remove1 (last xs) xs = butlast xs"
proof (induction xs rule: rev_induct)
  case (snoc x xs)
  then show ?case by (simp add: remove1_append)
qed simp

lemma keys_delete: "distinct (dict_keys d) \<Longrightarrow> dict_keys (AList.delete k d) = remove1 k (dict_keys d)"
  by (induction d) (auto simp: AList.delete_eq remove1_idem filter_id_conv)

lemma keys_delete_set: "set (dict_keys (AList.delete k d)) = set (dict_keys d) - {k}"
  by (induction d) auto

lemma keys_update_new: "k \<notin> set (dict_keys d) \<Longrightarrow> AList.update k v d = d @ [(k, v)]"
  by (induction d) auto

lemma delete_absent: "k \<notin> set (dict_keys d) \<Longrightarrow> AList.delete k d = d"
  by (induction d) auto

lemma sum_delete: "distinct (dict_keys d) \<Longrightarrow>
    (case map_of d k of None \<Rightarrow> 0 | Some n \<Rightarrow> n) + sum_list (dict_values (AList.delete k d)) = (sum_list (dict_values d) :: int)"
proof (induction d)
  case (Cons x d)
  obtain a b where x: "x = (a, b)" by (cases x)
  show ?case
  proof (cases "a = k")
    case True
    with Cons.prems x have "k \<notin> set (dict_keys d)" by simp
    with True x show ?thesis by (simp add: delete_absent)
  qed (use Cons x in simp)
qed simp

section \<open>The invariant of the first half\<close>

definition spec_of :: "pass \<Rightarrow> string \<Rightarrow> int list" where
  "spec_of st rid = (case map_of (spec_decode_tokens st) rid of None \<Rightarrow> [] | Some ts \<Rightarrow> ts)"

text \<open>A scheduled request has slots for its new tokens, which are its next ones; beyond its own tokens they are
  draft tokens.\<close>

definition entry_ok :: "pass \<Rightarrow> string \<Rightarrow> int \<Rightarrow> bool" where
  "entry_ok st rid n \<longleftrightarrow> (let r = objs (sch st) rid; c = num_computed_tokens r; d = int (length (spec_of st rid)) in
     0 < n \<and> covers (kv (sch st)) rid (c + n) \<and> c + n \<le> num_tokens r + d \<and> (0 < d \<longrightarrow> c + n = num_tokens r + d))"

definition pass_ok :: "scheduler \<Rightarrow> pass \<Rightarrow> bool" where
  "pass_ok s0 st \<longleftrightarrow> wgood (sch st) \<and> same_base s0 (sch st) \<and> 0 \<le> token_budget st \<and>
     token_budget st + sum_list (dict_values (scheduled_tokens st)) = token_budget (start_pass s0) \<and>
     (\<forall>(rid, n) \<in> set (scheduled_tokens st). entry_ok st rid n) \<and> loras st = [] \<and>
     dict_keys (req_to_new_blocks st) = dict_keys (scheduled_tokens st) \<and> distinct (dict_keys (scheduled_tokens st)) \<and>
     set (dict_keys (spec_decode_tokens st)) \<subseteq> set (dict_keys (scheduled_tokens st)) \<and>
     (enable_sd s0 \<or> spec_decode_tokens st = [])"

definition running_phase :: "scheduler \<Rightarrow> nat \<Rightarrow> pass \<Rightarrow> bool" where
  "running_phase s0 i st \<longleftrightarrow> (let s = sch st in
     pass_ok s0 st \<and> state_ok (\<lambda>_. None) (running s) (wlist s) s \<and>
     i \<le> length (running s) \<and> running_reqs st = take i (running s) \<and> dict_keys (scheduled_tokens st) = running_reqs st \<and>
     new_reqs st = [] \<and> resumed_reqs st = [] \<and>
     (preempted_reqs st = [] \<longrightarrow> fresh_resumes s) \<and> set (preempted_reqs st) \<subseteq> set (wlist s))"

lemma fields [simp]: "state_ok fly R W (s\<lparr>running := x\<rparr>) = state_ok fly R W s" "wlist (s\<lparr>running := x\<rparr>) = wlist s"
  "wgood (s\<lparr>running := x\<rparr>) = wgood s" "same_base s (s'\<lparr>running := x\<rparr>) = same_base s s'" "rank_of (s\<lparr>running := x\<rparr>) = rank_of s"
  "same_base (s\<lparr>running := x\<rparr>) s' = same_base s s'"
  by (simp_all add: state_ok_def cache_fits_def parts_def request_at_def wlist_def wgood_def same_base_def rank_of_def)

lemma kv_fields [simp]: "wlist (s\<lparr>kv := k\<rparr>) = wlist s" "wgood (s\<lparr>kv := k\<rparr>) = wgood s" "same_base s (s'\<lparr>kv := k\<rparr>) = same_base s s'"
  "rank_of (s\<lparr>kv := k\<rparr>) = rank_of s" "fresh_resumes (s\<lparr>kv := k\<rparr>) = fresh_resumes s"
  by (simp_all add: wlist_def wgood_def same_base_def rank_of_def fresh_resumes_def)

lemma dict_key_iff: "k \<in> set (dict_keys d) \<longleftrightarrow> (\<exists>v. map_of d k = Some v)"
  by (induction d) auto

section \<open>Preempting a request\<close>

lemma pick_victim_ok:
  assumes phase: "running_phase s0 i st" and i: "i < length (running (sch st))"
  obtains v i' where "pick_victim i st = ok (v, i', st\<lparr>sch := (sch st)\<lparr>running := remove1 v (running (sch st))\<rparr>,
      running_reqs := remove1 v (running_reqs st),
      token_budget := token_budget st + (case map_of (scheduled_tokens st) v of None \<Rightarrow> 0 | Some n \<Rightarrow> n),
      scheduled_tokens := AList.delete v (scheduled_tokens st), req_to_new_blocks := AList.delete v (req_to_new_blocks st),
      spec_decode_tokens := AList.delete v (spec_decode_tokens st)\<rparr>)"
    "v \<in> set (running (sch st))" "i' \<le> length (remove1 v (running (sch st)))"
    "take i' (remove1 v (running (sch st))) = remove1 v (running_reqs st)"
    "v \<noteq> running (sch st) ! i \<Longrightarrow> i' < length (remove1 v (running (sch st))) \<and> remove1 v (running (sch st)) ! i' = running (sch st) ! i"
proof -
  let ?s = "sch st" and ?run = "running (sch st)"
  have d: "distinct ?run" "running_reqs st = take i ?run" "dict_keys (scheduled_tokens st) = running_reqs st"
    "dict_keys (req_to_new_blocks st) = running_reqs st"
    using phase by (simp_all add: running_phase_def pass_ok_def state_ok_def parts_def Let_def)
  have "set (dict_keys (spec_decode_tokens st)) \<subseteq> set (dict_keys (scheduled_tokens st))"
    using phase unfolding running_phase_def pass_ok_def Let_def by blast
  then have sub: "set (dict_keys (spec_decode_tokens st)) \<subseteq> set (running_reqs st)" unfolding d(3) .
  obtain x xs where run: "?run = x # xs" using i by (cases ?run) auto
  have absent: "v \<notin> set (running_reqs st) \<Longrightarrow> remove1 v (running_reqs st) = running_reqs st \<and> map_of (scheduled_tokens st) v = None \<and>
      AList.delete v (scheduled_tokens st) = scheduled_tokens st \<and> AList.delete v (req_to_new_blocks st) = req_to_new_blocks st \<and>
      AList.delete v (spec_decode_tokens st) = spec_decode_tokens st" for v
  proof -
    assume v: "v \<notin> set (running_reqs st)"
    then have "v \<notin> set (dict_keys (scheduled_tokens st))" "v \<notin> set (dict_keys (req_to_new_blocks st))"
      "v \<notin> set (dict_keys (spec_decode_tokens st))" using d(3,4) sub by auto
    with v show ?thesis by (simp add: remove1_idem delete_absent map_of_eq_None_iff)
  qed
  show thesis
  proof (cases "sched_policy (config ?s) = PRIORITY")
    case True
    let ?v = "first_max (rank_of ?s) x xs"
    have v: "?v \<in> set ?run" using first_max_mem run by metis
    show thesis
    proof (cases "?v \<in> set (running_reqs st)")
      case mem: True
      then obtain n where n: "map_of (scheduled_tokens st) ?v = Some n" using d(3) by (metis dict_key_iff)
      have "?v \<in> set (dict_keys (req_to_new_blocks st))" using mem d(4) by metis
      with True mem n run have "pick_victim i st = ok (?v, i - 1, st\<lparr>sch := (sch st)\<lparr>running := remove1 ?v (running (sch st))\<rparr>,
          running_reqs := remove1 ?v (running_reqs st), token_budget := token_budget st + n,
          scheduled_tokens := AList.delete ?v (scheduled_tokens st), req_to_new_blocks := AList.delete ?v (req_to_new_blocks st),
          spec_decode_tokens := AList.delete ?v (spec_decode_tokens st)\<rparr>)"
        by (simp add: pick_victim_def Let_def del: remove1.simps)
      with take_remove1(1) [OF d(1) v i] mem d(2) n v show thesis by (intro that [of ?v "i - 1"]) simp_all
    next
      case mem: False
      with True run have "pick_victim i st = ok (?v, i, st\<lparr>sch := (sch st)\<lparr>running := remove1 ?v (running (sch st))\<rparr>\<rparr>)"
        by (simp add: pick_victim_def Let_def del: remove1.simps)
      with take_remove1(2) [OF d(1) v i] absent [OF mem] mem d(2) v show thesis by (intro that [of ?v i]) simp_all
    qed
  next
    case False
    let ?v = "last ?run"
    have v: "?v \<in> set ?run" using run by (metis last_in_set list.distinct(1))
    have "?v \<notin> set (take i ?run)"
    proof
      assume "?v \<in> set (take i ?run)"
      then obtain j where "j < i" "?run ! j = ?v" by (auto simp: in_set_conv_nth)
      then have "?run ! j = ?run ! (length ?run - 1)" "j < length ?run - 1" using i run by (simp_all add: last_conv_nth)
      with d(1) run show False by (simp add: nth_eq_iff_index_eq)
    qed
    then have mem: "?v \<notin> set (running_reqs st)" using d(2) by simp
    have "pick_victim i st = ok (?v, i, st\<lparr>sch := (sch st)\<lparr>running := remove1 ?v (running (sch st))\<rparr>\<rparr>)"
      using False run last_remove1 [OF d(1)] by (simp add: pick_victim_def Let_def del: remove1.simps)
    with take_remove1(2) [OF d(1) v i] absent [OF mem] mem d(2) v show thesis by (intro that [of ?v i]) simp_all
  qed
qed


lemma preempt_victim_ok:
  assumes phase: "running_phase s0 i st" and i: "i < length (running (sch st))"
  obtains v i' st' where "preempt_victim i st = ok (v, i', st')" "running_phase s0 i' st'"
    "Suc (length (running (sch st'))) = length (running (sch st))" "preempted_reqs st' \<noteq> [] \<and> token_budget st \<le> token_budget st'"
    "v \<noteq> running (sch st) ! i \<Longrightarrow> i' < length (running (sch st')) \<and> running (sch st') ! i' = running (sch st) ! i \<and>
       objs (sch st') (running (sch st) ! i) = objs (sch st) (running (sch st) ! i)"
proof -
  let ?s = "sch st" and ?run = "running (sch st)"
  have p: "pass_ok s0 st" "state_ok (\<lambda>_. None) ?run (wlist ?s) ?s" "running_reqs st = take i ?run"
    "dict_keys (scheduled_tokens st) = running_reqs st" "new_reqs st = []" "resumed_reqs st = []" "set (preempted_reqs st) \<subseteq> set (wlist ?s)"
    using phase by (simp_all add: running_phase_def Let_def)
  have d: "distinct ?run" "distinct (dict_keys (scheduled_tokens st))" using p(1,2) by (simp_all add: pass_ok_def state_ok_def parts_def)
  obtain v i' where v: "pick_victim i st = ok (v, i', st\<lparr>sch := ?s\<lparr>running := remove1 v ?run\<rparr>,
      running_reqs := remove1 v (running_reqs st),
      token_budget := token_budget st + (case map_of (scheduled_tokens st) v of None \<Rightarrow> 0 | Some n \<Rightarrow> n),
      scheduled_tokens := AList.delete v (scheduled_tokens st), req_to_new_blocks := AList.delete v (req_to_new_blocks st),
      spec_decode_tokens := AList.delete v (spec_decode_tokens st)\<rparr>)" (is "_ = ok (v, i', ?st1)")
    "v \<in> set ?run" "i' \<le> length (remove1 v ?run)" "take i' (remove1 v ?run) = remove1 v (running_reqs st)"
    "v \<noteq> ?run ! i \<Longrightarrow> i' < length (remove1 v ?run) \<and> remove1 v ?run ! i' = ?run ! i"
    by (rule pick_victim_ok [OF phase i]) blast
  have "state_ok (\<lambda>_. None) ?run (wlist (sch ?st1)) (sch ?st1)" "wgood (sch ?st1)" using p(1,2) by (simp_all add: pass_ok_def)
  then obtain s' where "preempt_request v (sch ?st1) = ok s'"
    "state_ok (\<lambda>_. None) (remove1 v ?run) (wlist s') s'" "wgood s'" "same_base (sch ?st1) s'" "running s' = running (sch ?st1)"
    "set (wlist s') = insert v (set (wlist (sch ?st1)))" "\<And>r. r \<noteq> v \<Longrightarrow> objs s' r = objs (sch ?st1) r" "kv_moves v (kv (sch ?st1)) (kv s')"
    by (rule preempt_ok [OF _ _ v(2)]) blast
  then have s': "preempt_request v (sch ?st1) = ok s'"
    "state_ok (\<lambda>_. None) (remove1 v ?run) (wlist s') s'" "wgood s'" "same_base ?s s'" "running s' = remove1 v ?run"
    "set (wlist s') = insert v (set (wlist ?s))" "\<And>r. r \<noteq> v \<Longrightarrow> objs s' r = objs ?s r" "kv_moves v (kv ?s) (kv s')"
    by simp_all
  define st' where "st' = ?st1\<lparr>sch := s', preempted_reqs := preempted_reqs st @ [v]\<rparr>"
  have call: "preempt_victim i st = ok (v, i', st')" using v(1) s'(1) by (simp add: preempt_victim_def st'_def)
  have base: "same_base s0 s'" using p(1) s'(4) same_base_trans by (auto simp: pass_ok_def)
  have keys: "dict_keys (AList.delete v (scheduled_tokens st)) = remove1 v (running_reqs st)"
    "dict_keys (AList.delete v (req_to_new_blocks st)) = remove1 v (running_reqs st)"
    using keys_delete p(1,4) d(2) by (metis pass_ok_def)+
  have "entry_ok st' rid n" if "(rid, n) \<in> set (AList.delete v (scheduled_tokens st))" for rid n
  proof -
    from that have r: "rid \<noteq> v" "(rid, n) \<in> set (scheduled_tokens st)" by (auto simp: AList.delete_eq)
    then have "entry_ok st rid n" using p(1) by (auto simp: pass_ok_def)
    moreover have "spec_of st' rid = spec_of st rid" using r(1) by (simp add: spec_of_def st'_def)
    moreover have "covers (kv s') rid m \<longleftrightarrow> covers (kv ?s) rid m" for m
      using s'(8) r(1) covers_frame [of "kv s'" rid "kv ?s"] by (simp add: kv_moves_def)
    ultimately show ?thesis using s'(7) [OF r(1)] by (simp add: entry_ok_def st'_def Let_def)
  qed
  moreover have "set (dict_keys (AList.delete v (spec_decode_tokens st))) \<subseteq> set (dict_keys (AList.delete v (scheduled_tokens st)))"
    using p(1) unfolding pass_ok_def keys_delete_set by blast
  moreover have budget: "token_budget st' + sum_list (dict_values (AList.delete v (scheduled_tokens st))) = token_budget (start_pass s0)"
    using sum_delete [OF d(2), of v] p(1) by (simp add: pass_ok_def st'_def)
  moreover have more: "token_budget st \<le> token_budget st'"
  proof (cases "map_of (scheduled_tokens st) v")
    case (Some n)
    then have "(v, n) \<in> set (scheduled_tokens st)" by (rule map_of_SomeD)
    then have "0 < n" using p(1) by (auto simp: pass_ok_def entry_ok_def Let_def)
    with Some show ?thesis by (simp add: st'_def)
  qed (simp add: st'_def)
  moreover from this p(1) have "0 \<le> token_budget st'" by (simp add: pass_ok_def)
  ultimately have "pass_ok s0 st'"
    using p(1) s'(3) base keys d(1,2) distinct_remove1 p(4) by (auto simp: pass_ok_def st'_def)
  then have "running_phase s0 i' st'"
    using s'(2,5,6) v(3,4) keys(1) p(5-7) by (auto simp: running_phase_def st'_def Let_def)
  moreover have "Suc (length (remove1 v ?run)) = length ?run" using v(2) i length_remove1 [of v ?run] by (simp split: if_splits)
  ultimately show thesis
    using call s'(5,7) v(2,5) more by (intro that [of v i' st']) (auto simp: st'_def)
qed


section \<open>Slots for a running request\<close>

lemma phase_kv:
  assumes phase: "running_phase s0 i st" and moves: "kv_moves rid (kv (sch st)) k"
    and same: "extents k rid = extents (kv (sch st)) rid \<or> rid = running (sch st) ! i \<and> i < length (running (sch st)) \<and>
      covers k rid (num_computed_tokens (objs (sch st) rid))"
  shows "running_phase s0 i (st\<lparr>sch := (sch st)\<lparr>kv := k\<rparr>\<rparr>)"
proof -
  let ?s = "sch st" and ?s' = "(sch st)\<lparr>kv := k\<rparr>"
  have ok: "state_ok (\<lambda>_. None) (running ?s) (wlist ?s) ?s" and p: "pass_ok s0 st"
    and r: "running_reqs st = take i (running ?s)" "dict_keys (scheduled_tokens st) = running_reqs st"
    using phase by (simp_all add: running_phase_def Let_def)
  from r have keys: "x \<in> set (take i (running ?s))" if "(x, n) \<in> set (scheduled_tokens st)" for x n
    using that by (metis fst_conv image_eqI set_map)
  have shape: "same_shape (kv ?s) k" using moves by (simp add: kv_moves_def)
  note at = request_at_of [OF ok, of rid]
  have d: "distinct (running ?s)" using ok by (simp add: state_ok_def parts_def)
  have "request_at (\<lambda>_. None) (running ?s) (wlist ?s) ?s' rid"
  proof (cases "extents k rid = extents (kv ?s) rid")
    case True
    then show ?thesis by (intro request_at_frame [OF at]) (simp_all add: shape)
  next
    case False
    with same have c: "rid \<in> set (running ?s)" "covers k rid (num_computed_tokens (objs ?s rid))" by auto
    with at shape show ?thesis by (simp add: request_at_def running_ok_def same_shape_def)
  qed
  moreover have "parts (running ?s) (wlist ?s) ?s'" using ok by (simp add: state_ok_def parts_def)
  ultimately have ok': "state_ok (\<lambda>_. None) (running ?s) (wlist ?s) ?s'"
    using moves by (intro state_step [OF ok]) simp_all
  have "entry_ok (st\<lparr>sch := ?s'\<rparr>) r n" if m: "(r, n) \<in> set (scheduled_tokens st)" for r n
  proof -
    have "extents k r = extents (kv ?s) r"
    proof (cases "r = rid")
      case True
      have "r \<in> set (take i (running ?s))" using keys [OF m] .
      then have "\<not> (rid = running ?s ! i \<and> i < length (running ?s))"
        using True d by (auto simp: in_set_conv_nth nth_eq_iff_index_eq)
      with same True show ?thesis by blast
    qed (use moves in \<open>simp add: kv_moves_def\<close>)
    from covers_frame [OF this shape] have "covers k r x = covers (kv ?s) r x" for x by simp
    moreover have "entry_ok st r n" using p m by (auto simp: pass_ok_def)
    ultimately show ?thesis by (simp add: entry_ok_def spec_of_def)
  qed
  then have "pass_ok s0 (st\<lparr>sch := ?s'\<rparr>)" using p by (auto simp: pass_ok_def)
  with ok' phase show ?thesis by (simp add: running_phase_def Let_def)
qed

lemma allocate_or_preempt_ok:
  assumes "running_phase s0 i st" "i < length (running (sch st))" "rid = running (sch st) ! i" "0 < n"
    and "num_computed_tokens (objs (sch st) rid) + n \<le> model_len (config s0)"
  shows "\<exists>res i' st'. allocate_or_preempt rid n i st = ok (res, i', st') \<and> running_phase s0 i' st' \<and>
    token_budget st \<le> token_budget st' \<and> (preempted_reqs st \<noteq> [] \<longrightarrow> preempted_reqs st' \<noteq> []) \<and>
    (res = None \<longrightarrow> preempted_reqs st' \<noteq> []) \<and>
    (res \<noteq> None \<longrightarrow> i' < length (running (sch st')) \<and> running (sch st') ! i' = rid \<and>
      objs (sch st') rid = objs (sch st) rid \<and> covers (kv (sch st')) rid (num_computed_tokens (objs (sch st) rid) + n))"
  using assms
proof (induction "length (running (sch st))" arbitrary: i st rule: less_induct)
  case less
  let ?s = "sch st"
  have ok: "state_ok (\<lambda>_. None) (running ?s) (wlist ?s) ?s" and base: "same_base s0 ?s"
    using less.prems(1) by (simp_all add: running_phase_def pass_ok_def Let_def)
  have rid: "rid \<in> set (running ?s)" using less.prems(2,3) by simp
  have c: "kv_reachable (kv ?s)" "kv_plain (kv ?s)" "sync_config (config ?s) (kv ?s)" using ok by (simp_all add: state_ok_def cache_fits_def)
  have "rid \<in> set (request_ids ?s)" using known [OF ok] rid by blast
  with request_at_of [OF ok, of rid] rid have r: "running_ok None (kv ?s) rid (objs ?s rid)" "request_id (objs ?s rid) = rid"
    "req_ok (config ?s) (enable_caching (pool (kv ?s))) (objs ?s rid)" by (simp_all add: request_at_def)
  have len: "model_len (config s0) = max_model_len (kv ?s)" using c(3) base by (simp add: sync_config_def same_base_def)
  have hs: "hashes_complete (kv ?s) (creq ?s rid)" using hashes_known ok r(3) by (simp add: state_ok_def)
  have "\<exists>res k. try_allocate rid n ?s = (Inr res, k) \<and> kv_moves rid (kv ?s) k \<and>
    (case res of None \<Rightarrow> extents k rid = extents (kv ?s) rid
     | Some new \<Rightarrow> covers k rid (num_computed_tokens (objs ?s rid) + n))"
    using running_slots [OF c(1,2) hs, of n "if enable_sd ?s then num_lookahead_tokens (config ?s) else 0"] r c(3) less.prems(4,5) len
    by (fastforce simp: try_allocate_def running_ok_def req_ok_def sync_config_def split: option.splits)
  then obtain res k where al: "try_allocate rid n ?s = (Inr res, k)" "kv_moves rid (kv ?s) k"
    "case res of None \<Rightarrow> extents k rid = extents (kv ?s) rid | Some new \<Rightarrow> covers k rid (num_computed_tokens (objs ?s rid) + n)" by blast
  let ?st = "st\<lparr>sch := ?s\<lparr>kv := k\<rparr>\<rparr>"
  have "extents k rid = extents (kv ?s) rid \<or> rid = running ?s ! i \<and> i < length (running ?s) \<and> covers k rid (num_computed_tokens (objs ?s rid))"
    using al(3) less.prems(2-4) by (auto intro: covers_mono split: option.splits)
  note phase = phase_kv [OF less.prems(1) al(2) this]
  note run = allocate_or_preempt_eq [of rid n i st]
  show ?case
  proof (cases res)
    case (Some new)
    with run al phase less.prems(2,3) show ?thesis by simp
  next
    case None
    have "i < length (running (sch ?st))" using less.prems(2) by simp
    with phase obtain v i' st' where v: "preempt_victim i ?st = ok (v, i', st')" "running_phase s0 i' st'"
      "Suc (length (running (sch st'))) = length (running (sch ?st))" "preempted_reqs st' \<noteq> [] \<and> token_budget ?st \<le> token_budget st'"
      "v \<noteq> running (sch ?st) ! i \<Longrightarrow> i' < length (running (sch st')) \<and> running (sch st') ! i' = running (sch ?st) ! i \<and>
       objs (sch st') (running (sch ?st) ! i) = objs (sch ?st) (running (sch ?st) ! i)"
      by (rule preempt_victim_ok) blast
    show ?thesis
    proof (cases "v = rid")
      case True
      with run al None v show ?thesis by simp
    next
      case False
      then have nxt: "i' < length (running (sch st'))" "rid = running (sch st') ! i'" "objs (sch st') rid = objs ?s rid"
        using v(5) less.prems(3) by auto
      have "length (running (sch st')) < length (running ?s)" using v(3) by simp
      from less.hyps [OF this v(2) nxt(1,2) less.prems(4)] less.prems(5) nxt(3) v(4) show ?thesis
        using run al None v(1) False by auto
    qed
  qed
qed


section \<open>The loop over the running requests\<close>

lemma phase_spec:
  assumes "running_phase s0 i st"
  shows "running_phase s0 i (st\<lparr>sch := upd_req rid (\<lambda>r. r\<lparr>spec_token_ids := x\<rparr>) (sch st)\<rparr>)"
proof -
  let ?s = "sch st" and ?s' = "upd_req rid (\<lambda>r. r\<lparr>spec_token_ids := x\<rparr>) (sch st)"
  have ok: "state_ok (\<lambda>_. None) (running ?s) (wlist ?s) ?s" and p: "pass_ok s0 st" and w: "preempted_reqs st = [] \<longrightarrow> fresh_resumes ?s"
    using assms by (simp_all add: running_phase_def Let_def)
  have same: "wlist ?s' = wlist ?s" "wgood ?s' = wgood ?s" "same_base s0 ?s' = same_base s0 ?s"
    by (simp_all add: wlist_def wgood_def same_base_def)
  have "request_at (\<lambda>_. None) (running ?s) (wlist ?s) ?s' rid"
    using request_at_of [OF ok, of rid] by (simp add: request_at_def running_ok_def waiting_ok_def)
  from state_update [OF ok this] have "state_ok (\<lambda>_. None) (running ?s') (wlist ?s') ?s'" using same by simp
  moreover have "entry_ok (st\<lparr>sch := ?s'\<rparr>) r n = entry_ok st r n" for r n
    by (cases "r = rid") (simp_all add: entry_ok_def spec_of_def Let_def)
  then have "pass_ok s0 (st\<lparr>sch := ?s'\<rparr>)" using p same by (simp add: pass_ok_def)
  moreover have "fresh_resumes ?s' = fresh_resumes ?s" using same by (auto simp: fresh_resumes_def)
  ultimately show ?thesis using assms same by (simp add: running_phase_def Let_def)
qed

lemma phase_clear: "running_phase s0 i st \<Longrightarrow> running_phase s0 i (st\<lparr>sch := clear_spec rid (sch st)\<rparr>)"
  using phase_spec [of s0 i st rid "[]"] by (simp add: clear_spec_def)

lemma record_running_ok:
  assumes phase: "running_phase s0 i st" and i: "i < length (running (sch st))" and rid: "rid = running (sch st) ! i"
    and n: "0 < n" "n \<le> token_budget st" "covers (kv (sch st)) rid (num_computed_tokens (objs (sch st) rid) + n)"
      "num_computed_tokens (objs (sch st) rid) + n
        \<le> num_tokens (objs (sch st) rid) + (if enable_sd s0 then int (length (spec_token_ids (objs (sch st) rid))) else 0)"
  shows "running_phase s0 (Suc i) (record_running rid n new st)"
proof -
  let ?s = "sch st" and ?r = "objs (sch st) rid"
  have ok: "state_ok (\<lambda>_. None) (running ?s) (wlist ?s) ?s" and p: "pass_ok s0 st"
    and run: "running_reqs st = take i (running ?s)" "dict_keys (scheduled_tokens st) = running_reqs st"
    using phase by (simp_all add: running_phase_def Let_def)
  have d: "distinct (running ?s)" using ok by (simp add: state_ok_def parts_def)
  have mem: "rid \<in> set (running ?s)" using i rid by simp
  with known [OF ok] have ids: "rid \<in> set (request_ids ?s)" by blast
  from request_at_of [OF ok, of rid] ids have holders: "num_output_placeholders ?r = 0" by (simp add: request_at_def req_ok_def)
  have fresh: "rid \<notin> set (running_reqs st)"
    using d i rid run(1) by (auto simp: in_set_conv_nth nth_eq_iff_index_eq)
  have keys: "rid \<notin> set (dict_keys (scheduled_tokens st))" "rid \<notin> set (dict_keys (req_to_new_blocks st))"
    "rid \<notin> set (dict_keys (spec_decode_tokens st))"
  proof -
    show one: "rid \<notin> set (dict_keys (scheduled_tokens st))" using fresh unfolding run(2) .
    then show "rid \<notin> set (dict_keys (req_to_new_blocks st))" "rid \<notin> set (dict_keys (spec_decode_tokens st))"
      using p unfolding pass_ok_def by (metis, blast)
  qed
  define spec where "spec = (if spec_token_ids ?r \<noteq> [] \<and> enable_sd ?s \<and> 0 < n + num_computed_tokens ?r - num_tokens ?r
    then spec_decode_tokens st @ [(rid, take (nat (n + num_computed_tokens ?r - num_tokens ?r)) (spec_token_ids ?r))]
    else spec_decode_tokens st)"
  define st1 where "st1 = st\<lparr>running_reqs := running_reqs st @ [rid],
     req_to_new_blocks := req_to_new_blocks st @ [(rid, create_kv_cache_blocks new)],
     scheduled_tokens := scheduled_tokens st @ [(rid, n)], token_budget := token_budget st - n, spec_decode_tokens := spec\<rparr>"
  have sd: "enable_sd ?s = enable_sd s0" using p by (simp add: pass_ok_def same_base_def)
  have old: "entry_ok st1 r m" if "(r, m) \<in> set (scheduled_tokens st)" for r m
  proof -
    have "r \<noteq> rid" using that keys(1) by force
    then have "spec_of st1 r = spec_of st r" by (simp add: spec_of_def st1_def spec_def map_add_def split: option.split)
    moreover have "entry_ok st r m" using p that by (auto simp: pass_ok_def)
    ultimately show ?thesis by (simp add: entry_ok_def st1_def)
  qed
  have "map_of (spec_decode_tokens st) rid = None" using keys(3) by (simp add: map_of_eq_None_iff)
  then have "int (length (spec_of st1 rid)) = max 0 (num_computed_tokens ?r + n - num_tokens ?r)"
    using n(4) sd by (auto simp: spec_of_def st1_def spec_def map_add_def split: if_splits)
  then have "entry_ok st1 rid n" using n by (auto simp: entry_ok_def st1_def Let_def split: if_splits)
  moreover have "set (dict_keys spec) \<subseteq> insert rid (set (dict_keys (scheduled_tokens st)))"
    using p unfolding pass_ok_def spec_def by auto
  moreover have "enable_sd s0 \<or> spec = []" using p sd by (simp add: pass_ok_def spec_def)
  ultimately have "pass_ok s0 st1"
    using p old keys(1) n(2) unfolding pass_ok_def by (auto simp: st1_def)
  moreover have "take (Suc i) (running ?s) = take i (running ?s) @ [rid]" using i rid by (simp add: take_Suc_conv_app_nth)
  ultimately have "running_phase s0 (Suc i) st1"
    using phase i run by (simp add: running_phase_def Let_def st1_def)
  moreover have "sch st1 = ?s" by (simp add: st1_def)
  moreover have "record_running rid n new st
      = (if spec_token_ids ?r = [] then st1 else st1\<lparr>sch := upd_req rid (\<lambda>r. r\<lparr>spec_token_ids := []\<rparr>) ?s\<rparr>)"
    using keys holders by (auto simp: record_running_def Let_def st1_def spec_def keys_update_new algebra_simps)
  ultimately show ?thesis using phase_spec [of s0 "Suc i" st1 rid "[]"] by auto
qed

lemma running_round_ok:
  assumes phase: "running_phase s0 i st" and i: "i < length (running (sch st))" and budget: "0 < token_budget st"
  shows "\<exists>next st'. running_round i st = ok (next, st') \<and> (preempted_reqs st \<noteq> [] \<longrightarrow> preempted_reqs st' \<noteq> []) \<and>
    (case next of None \<Rightarrow> preempted_reqs st' \<noteq> [] \<and> (\<exists>i'. running_phase s0 i' st') | Some i' \<Rightarrow> running_phase s0 i' st')"
proof -
  let ?rid = "running (sch st) ! i"
  let ?st = "st\<lparr>sch := clear_spec ?rid (sch st)\<rparr>"
  let ?s = "sch ?st"
  let ?r = "objs ?s ?rid"
  let ?n = "running_tokens ?s (token_budget st) ?r"
  note phase1 = phase_clear [OF phase, of ?rid]
  have ok: "state_ok (\<lambda>_. None) (running ?s) (wlist ?s) ?s" and base: "same_base s0 ?s"
    using phase1 by (simp_all add: running_phase_def pass_ok_def Let_def)
  have mem: "?rid \<in> set (running ?s)" using i by simp
  with known [OF ok] have "?rid \<in> set (request_ids ?s)" by blast
  with request_at_of [OF ok, of ?rid] mem have r: "num_output_placeholders ?r = 0" "0 \<le> num_computed_tokens ?r"
    "num_computed_tokens ?r < num_tokens ?r" "num_tokens ?r < model_len (config ?s)"
    by (simp_all add: request_at_def running_ok_def req_ok_def)
  have spec: "enable_sd ?s \<or> spec_token_ids ?r = []" by (cases "enable_sd (sch st)") (simp_all add: clear_spec_def)
  have n: "0 < ?n" "?n \<le> token_budget st" "num_computed_tokens ?r + ?n \<le> model_len (config ?s)"
    "num_computed_tokens ?r + ?n \<le> num_tokens ?r + (if enable_sd s0 then int (length (spec_token_ids ?r)) else 0)"
    using r budget base by (auto simp: running_tokens_def Let_def num_tokens_with_spec_def num_tokens_def same_base_def)
  have cfg: "config ?s = config s0" using base by (simp add: same_base_def)
  have "i < length (running (sch ?st))" using i by simp
  from allocate_or_preempt_ok [OF phase1 this, of ?rid ?n] n(1,3) cfg obtain res i' st' where
    al: "allocate_or_preempt ?rid ?n i ?st = ok (res, i', st')" "running_phase s0 i' st'" "token_budget st \<le> token_budget st'"
    "preempted_reqs ?st \<noteq> [] \<longrightarrow> preempted_reqs st' \<noteq> []" "res = None \<longrightarrow> preempted_reqs st' \<noteq> []"
    "res \<noteq> None \<longrightarrow> i' < length (running (sch st')) \<and> running (sch st') ! i' = ?rid \<and>
      objs (sch st') ?rid = ?r \<and> covers (kv (sch st')) ?rid (num_computed_tokens ?r + ?n)" by auto
  note run = running_round_def [of i st, unfolded Let_def]
  show ?thesis
  proof (cases res)
    case None
    with al n(1) r(1) show ?thesis unfolding run by auto
  next
    case (Some bs)
    have "?n \<le> token_budget st'" using n(2) al(3) by linarith
    with Some al n have "running_phase s0 (Suc i') (record_running ?rid ?n bs st')"
      by (intro record_running_ok) auto
    moreover have "preempted_reqs (record_running ?rid ?n bs st') = preempted_reqs st'" by (simp add: record_running_def Let_def)
    ultimately show ?thesis using Some al n(1) r(1) unfolding run by auto
  qed
qed


lemma schedule_running_ok:
  "running_phase s0 i st \<Longrightarrow> \<exists>i' st'. schedule_running i st = ok st' \<and> running_phase s0 i' st'"
proof (induction i st rule: schedule_running.induct)
  case (1 i st)
  show ?case
  proof (cases "i < length (running (sch st)) \<and> 0 < token_budget st")
    case True
    with running_round_ok [OF 1(2)] obtain nxt st' where round: "running_round i st = ok (nxt, st')"
      "case nxt of None \<Rightarrow> preempted_reqs st' \<noteq> [] \<and> (\<exists>i'. running_phase s0 i' st') | Some i' \<Rightarrow> running_phase s0 i' st'"
      by blast
    show ?thesis
    proof (cases nxt)
      case None
      with True round show ?thesis by (subst schedule_running.simps) (simp add: ok_def)
    next
      case (Some i')
      with round have "running_phase s0 i' st'" by simp
      moreover have "running_round i st = Some (Inr (nxt, st'))" using round(1) by (simp add: ok_def)
      ultimately have "\<exists>i2 st2. schedule_running i' st' = ok st2 \<and> running_phase s0 i2 st2" using 1(1) True Some by blast
      with round(1) True Some show ?thesis by (subst schedule_running.simps) (simp add: ok_def)
    qed
  next
    case False
    with 1(2) show ?thesis by (subst schedule_running.simps) auto
  qed
qed

lemma start_phase:
  assumes "sched_ok s"
  shows "running_phase s 0 (start_pass s)"
proof -
  have "0 \<le> max_num_scheduled_tokens (config s)"
    using assms by (simp add: sched_ok_def state_ok_def cache_fits_def sync_config_def)
  then show ?thesis using assms by (simp add: sched_ok_def running_phase_def pass_ok_def start_pass_def Let_def)
qed

end
