(* ===== verification/SchedAdmit.thy ===== *)
theory SchedAdmit
  imports SchedPass
begin

text \<open>
  The second half of a pass: waiting requests are looked up in the cache, get slots and run, or are
  skipped and put back; then the output is built and the computed tokens advance.
\<close>

declare map_of_eq_Some_iff [simp del]

section \<open>The invariant of the second half\<close>

definition all_waiting :: "scheduler \<Rightarrow> request_queue \<Rightarrow> string list" where
  "all_waiting s skipped = wlist s @ queue_iter (rank_of s) skipped"

definition waiting_phase :: "scheduler \<Rightarrow> pass \<Rightarrow> request_queue \<Rightarrow> bool" where
  "waiting_phase s0 st skipped \<longleftrightarrow> (let s = sch st; W = all_waiting s skipped in
     pass_ok s0 st \<and> state_ok (\<lambda>_. None) (running s) W s \<and> queue_good (rank_of s) (sched_policy (config s)) skipped \<and>
     set (new_reqs st) \<union> set (resumed_reqs st) \<union> set (running_reqs st) \<subseteq> set (dict_keys (scheduled_tokens st)) \<and>
     set (dict_keys (scheduled_tokens st)) \<subseteq> set (running s) \<and>
     length (new_reqs st) + length (resumed_reqs st) + length (running_reqs st) \<le> length (running s) \<and>
     (\<forall>rid \<in> set W. status (objs s rid) = PREEMPTED \<longrightarrow> rid \<notin> set (prev_step_scheduled s)) \<and>
     (\<forall>rid \<in> set (resumed_reqs st). rid \<notin> set (prev_step_scheduled s)) \<and> preempted_reqs st = [])"

lemma state_ok_perm: "mset W' = mset W \<Longrightarrow> state_ok fly R W' s \<longleftrightarrow> state_ok fly R W s"
  using mset_eq_setD [of W' W] mset_eq_imp_distinct_iff [of W' W]
  by (simp add: state_ok_def parts_def request_at_def)

lemma waiting_fields [simp]: "state_ok fly R W (s\<lparr>waiting := q\<rparr>) = state_ok fly R W s" "same_base s (s'\<lparr>waiting := q\<rparr>) = same_base s s'"
  "rank_of (s\<lparr>waiting := q\<rparr>) = rank_of s" "entry_ok (st\<lparr>sch := s\<lparr>waiting := q\<rparr>\<rparr>) rid n = entry_ok (st\<lparr>sch := s\<rparr>) rid n"
  by (simp_all add: state_ok_def cache_fits_def parts_def request_at_def same_base_def rank_of_def entry_ok_def spec_of_def)

text \<open>Changing a waiting request.\<close>

lemma waiting_update:
  assumes phase: "waiting_phase s0 st skipped" and mem: "rid \<in> set (all_waiting (sch st) skipped)"
    and f: "request_id (f (objs (sch st) rid)) = request_id (objs (sch st) rid)" "priority (f (objs (sch st) rid)) = priority (objs (sch st) rid)"
      "arrival_time (f (objs (sch st) rid)) = arrival_time (objs (sch st) rid)" "waiting_ok (f (objs (sch st) rid))"
      "\<And>c b. req_ok c b (objs (sch st) rid) \<Longrightarrow> req_ok c b (f (objs (sch st) rid))"
      "status (f (objs (sch st) rid)) = PREEMPTED \<Longrightarrow> status (objs (sch st) rid) = PREEMPTED"
  shows "waiting_phase s0 (st\<lparr>sch := upd_req rid f (sch st)\<rparr>) skipped"
proof -
  let ?s = "sch st" and ?s' = "upd_req rid f (sch st)" and ?W = "all_waiting (sch st) skipped"
  have ok: "state_ok (\<lambda>_. None) (running ?s) ?W ?s" and p: "pass_ok s0 st"
    and keys: "set (dict_keys (scheduled_tokens st)) \<subseteq> set (running ?s)"
    using phase by (auto simp: waiting_phase_def Let_def)
  have rank: "rank_of ?s' = rank_of ?s" using f(2,3) by simp
  then have same: "all_waiting ?s' skipped = ?W" "wgood ?s' = wgood ?s" "same_base s0 ?s' = same_base s0 ?s" "wlist ?s' = wlist ?s"
    by (simp_all add: all_waiting_def wlist_def wgood_def same_base_def)
  have out: "rid \<notin> set (running ?s)" using ok mem by (auto simp: state_ok_def parts_def)
  have "request_at (\<lambda>_. None) (running ?s) ?W ?s' rid"
    using request_at_of [OF ok, of rid] out f(1,4,5) by (simp add: request_at_def)
  from state_update [OF ok this] have "state_ok (\<lambda>_. None) (running ?s') (all_waiting ?s' skipped) ?s'" using same by simp
  moreover have "entry_ok (st\<lparr>sch := ?s'\<rparr>) r n = entry_ok st r n" if "(r, n) \<in> set (scheduled_tokens st)" for r n
  proof -
    have "r \<in> set (running ?s)" using keys that by force
    with out have "r \<noteq> rid" by blast
    then show ?thesis by (simp add: entry_ok_def spec_of_def)
  qed
  then have "pass_ok s0 (st\<lparr>sch := ?s'\<rparr>)" using p same by (auto simp: pass_ok_def)
  ultimately show ?thesis using phase same rank f(6) by (auto simp: waiting_phase_def Let_def)
qed

lemma waiting_clear:
  assumes "waiting_phase s0 st skipped" "rid \<in> set (all_waiting (sch st) skipped)"
  shows "waiting_phase s0 (st\<lparr>sch := clear_spec rid (sch st)\<rparr>) skipped"
proof -
  have "waiting_ok (objs (sch st) rid)"
    using assms by (auto simp: waiting_phase_def Let_def state_ok_def request_at_def)
  then have "waiting_phase s0 (st\<lparr>sch := upd_req rid (\<lambda>r. r\<lparr>spec_token_ids := []\<rparr>) (sch st)\<rparr>) skipped"
    by (intro waiting_update [OF assms]) (simp_all add: waiting_ok_def)
  with assms(1) show ?thesis by (simp add: clear_spec_def)
qed

text \<open>Taking the first request out of the queue.\<close>

lemma waiting_pop:
  assumes phase: "waiting_phase s0 st skipped" and peek: "peek_request (waiting (sch st)) = Inr rid"
  obtains q where "pop_request (rank_of (sch st)) (waiting (sch st)) = Inr (rid, q)" "wlist (sch st) = rid # wlist ((sch st)\<lparr>waiting := q\<rparr>)"
    "wgood ((sch st)\<lparr>waiting := q\<rparr>)"
proof -
  have "queue_good (rank_of (sch st)) (sched_policy (config (sch st))) (waiting (sch st))"
    using phase by (simp add: waiting_phase_def pass_ok_def wgood_def Let_def)
  then obtain q where "pop_request (rank_of (sch st)) (waiting (sch st)) = Inr (rid, q)"
    "queue_good (rank_of (sch st)) (sched_policy (config (sch st))) q"
    "queue_iter (rank_of (sch st)) (waiting (sch st)) = rid # queue_iter (rank_of (sch st)) q"
    using wq.pop_peek [OF _ peek] by blast
  then show thesis by (intro that [of q]) (simp_all add: wlist_def wgood_def)
qed

lemma skip_ok:
  assumes phase: "waiting_phase s0 st skipped" and peek: "peek_request (waiting (sch st)) = Inr rid"
  shows "\<exists>st' skipped'. skip_request rid st skipped = ok (True, st', skipped') \<and> waiting_phase s0 st' skipped'"
proof -
  let ?s = "sch st"
  obtain q where q: "pop_request (rank_of ?s) (waiting ?s) = Inr (rid, q)" "wlist ?s = rid # wlist (?s\<lparr>waiting := q\<rparr>)"
    "wgood (?s\<lparr>waiting := q\<rparr>)" by (rule waiting_pop [OF phase peek])
  let ?s' = "?s\<lparr>waiting := q\<rparr>" and ?sk = "prepend_request (rank_of ?s) rid skipped"
  have good: "queue_good (rank_of ?s) (sched_policy (config ?s)) skipped" and ok: "state_ok (\<lambda>_. None) (running ?s) (all_waiting ?s skipped) ?s"
    using phase by (simp_all add: waiting_phase_def Let_def)
  from wq.prepend [OF good, of rid] wq.enter(2) have sk: "queue_good (rank_of ?s) (sched_policy (config ?s)) ?sk"
    "mset (queue_iter (rank_of ?s) ?sk) = add_mset rid (mset (queue_iter (rank_of ?s) skipped))" by metis+
  have perm: "mset (all_waiting ?s' ?sk) = mset (all_waiting ?s skipped)"
    using q(2) sk(2) by (simp add: all_waiting_def)
  then have "state_ok (\<lambda>_. None) (running ?s') (all_waiting ?s' ?sk) ?s'" using ok state_ok_perm [OF perm] by simp
  moreover have "set (all_waiting ?s' ?sk) = set (all_waiting ?s skipped)" using perm by (rule mset_eq_setD)
  moreover have "pass_ok s0 (st\<lparr>sch := ?s'\<rparr>)" using phase q(3) by (simp add: waiting_phase_def pass_ok_def Let_def)
  ultimately have "waiting_phase s0 (st\<lparr>sch := ?s'\<rparr>) ?sk"
    using phase sk(1) by (simp add: waiting_phase_def Let_def)
  moreover have "skip_request rid st skipped = ok (True, st\<lparr>sch := ?s'\<rparr>, ?sk)" using q(1) by (simp add: skip_request_def Let_def)
  ultimately show ?thesis by blast
qed


section \<open>Admitting a request\<close>

text \<open>The step of the cache for a waiting request leaves the scheduled ones their slots.\<close>

lemma entries_moved:
  assumes p: "pass_ok s0 st" and keys: "rid \<notin> set (dict_keys (scheduled_tokens st))" and k: "kv_moves rid (kv (sch st)) (kv s')"
    and objs: "\<And>r. r \<noteq> rid \<Longrightarrow> objs s' r = objs (sch st) r" and mem: "(r, n) \<in> set (scheduled_tokens st)"
    and spec: "spec_decode_tokens st' = spec_decode_tokens st" "sch st' = s'"
  shows "entry_ok st' r n"
proof -
  have r: "r \<noteq> rid" using keys mem by force
  then have "covers (kv s') r x = covers (kv (sch st)) r x" for x
    using k covers_frame [of "kv s'" r "kv (sch st)"] by (simp add: kv_moves_def)
  moreover have "entry_ok st r n" using p mem by (auto simp: pass_ok_def)
  ultimately show ?thesis using objs [OF r] spec by (simp add: entry_ok_def spec_of_def)
qed

lemma waiting_no_slots:
  assumes phase: "waiting_phase s0 st skipped" and mem: "rid \<in> set (all_waiting (sch st) skipped)"
    and k: "kv_moves rid (kv (sch st)) k" "no_entry k rid"
  shows "waiting_phase s0 (st\<lparr>sch := (sch st)\<lparr>kv := k\<rparr>\<rparr>) skipped"
proof -
  let ?s = "sch st" and ?s' = "(sch st)\<lparr>kv := k\<rparr>"
  have ok: "state_ok (\<lambda>_. None) (running ?s) (all_waiting ?s skipped) ?s" and p: "pass_ok s0 st"
    and sub: "set (dict_keys (scheduled_tokens st)) \<subseteq> set (running ?s)"
    using phase by (auto simp: waiting_phase_def Let_def)
  have same: "all_waiting ?s' skipped = all_waiting ?s skipped" by (simp add: all_waiting_def)
  have out: "rid \<notin> set (running ?s)" using ok mem by (auto simp: state_ok_def parts_def)
  have "request_at (\<lambda>_. None) (running ?s) (all_waiting ?s skipped) ?s' rid"
    using request_at_of [OF ok, of rid] out k by (simp add: request_at_def kv_moves_def same_shape_def)
  moreover have "parts (running ?s) (all_waiting ?s skipped) ?s'" using ok by (simp add: state_ok_def parts_def)
  ultimately have "state_ok (\<lambda>_. None) (running ?s) (all_waiting ?s skipped) ?s'" using k(1) by (intro state_step [OF ok]) simp_all
  moreover have "rid \<notin> set (dict_keys (scheduled_tokens st))" using out sub by blast
  then have "entry_ok (st\<lparr>sch := ?s'\<rparr>) r n" if "(r, n) \<in> set (scheduled_tokens st)" for r n
    by (rule entries_moved [OF p _ _ _ that, where s' = ?s']) (simp_all add: k(1))
  then have "pass_ok s0 (st\<lparr>sch := ?s'\<rparr>)" using p by (auto simp: pass_ok_def)
  ultimately show ?thesis using phase same by (simp add: waiting_phase_def Let_def)
qed

lemma admit_ok:
  assumes phase: "waiting_phase s0 st skipped" and peek: "peek_request (waiting (sch st)) = Inr rid"
    and pop: "pop_request (rank_of (sch st)) (waiting (sch st)) = Inr (rid, q)"
    and room: "length (running (sch st)) < max_num_running_reqs (config (sch st))"
    and status: "status (objs (sch st) rid) \<noteq> WAITING_FOR_FSM"
    and k: "kv_moves rid (kv (sch st)) k" "covers k rid (c + n)"
    and n: "0 \<le> c" "c < num_tokens (objs (sch st) rid)" "0 < n" "n \<le> token_budget st" "c + n \<le> num_tokens (objs (sch st) rid)"
  shows "\<exists>st'. admit rid rid n c (st\<lparr>sch := (sch st)\<lparr>kv := k, waiting := q\<rparr>\<rparr>) = ok st' \<and> waiting_phase s0 st' skipped"
proof -
  let ?s = "sch st" and ?r = "objs (sch st) rid"
  let ?W = "all_waiting ?s skipped"
  have ok: "state_ok (\<lambda>_. None) (running ?s) ?W ?s" and p: "pass_ok s0 st"
    and sub: "set (dict_keys (scheduled_tokens st)) \<subseteq> set (running ?s)"
    and good: "queue_good (rank_of ?s) (sched_policy (config ?s)) skipped"
    and lists: "set (new_reqs st) \<union> set (resumed_reqs st) \<union> set (running_reqs st) \<subseteq> set (dict_keys (scheduled_tokens st))"
      "length (new_reqs st) + length (resumed_reqs st) + length (running_reqs st) \<le> length (running ?s)" "preempted_reqs st = []"
    and resumed: "\<forall>rid \<in> set ?W. status (objs ?s rid) = PREEMPTED \<longrightarrow> rid \<notin> set (prev_step_scheduled ?s)"
      "\<forall>rid \<in> set (resumed_reqs st). rid \<notin> set (prev_step_scheduled ?s)"
    using phase by (auto simp: waiting_phase_def Let_def)
  obtain q' where "pop_request (rank_of ?s) (waiting ?s) = Inr (rid, q')" "wlist ?s = rid # wlist (?s\<lparr>waiting := q'\<rparr>)"
    "wgood (?s\<lparr>waiting := q'\<rparr>)" by (rule waiting_pop [OF phase peek])
  with pop have q: "wlist ?s = rid # wlist (?s\<lparr>waiting := q\<rparr>)" "wgood (?s\<lparr>waiting := q\<rparr>)" by auto
  have parts: "distinct (running ?s)" "distinct ?W" "set (running ?s) \<inter> set ?W = {}" using ok by (auto simp: state_ok_def parts_def)
  have mem: "rid \<in> set ?W" using q(1) by (simp add: all_waiting_def)
  then have out: "rid \<notin> set (running ?s)" "rid \<notin> set (dict_keys (scheduled_tokens st))" using parts(3) sub by blast+
  have req: "rid \<notin> set (dict_keys (req_to_new_blocks st))" using out(2) p unfolding pass_ok_def by metis
  have known: "rid \<in> set (request_ids ?s)" using known [OF ok] mem by blast
  from request_at_of [OF ok, of rid] mem known have r: "waiting_ok ?r" "request_id ?r = rid"
    "req_ok (config ?s) (enable_caching (pool (kv ?s))) ?r" by (auto simp: request_at_def)
  have loras: "max_loras (config ?s) = None" "loras st = []"
    using ok p by (simp_all add: state_ok_def cache_fits_def sync_config_def pass_ok_def)
  let ?f = "\<lambda>r. r\<lparr>status := RUNNING, num_computed_tokens := c,
             num_cached_tokens := (if num_cached_tokens r < 0 then c else num_cached_tokens r)\<rparr>"
  define s1 where "s1 = upd_req rid ?f (?s\<lparr>kv := k, waiting := q, running := running ?s @ [rid]\<rparr>)"
  define st1 where "st1 = st\<lparr>new_reqs := (if status ?r = WAITING then new_reqs st @ [rid] else new_reqs st),
      resumed_reqs := (if status ?r = PREEMPTED then resumed_reqs st @ [rid] else resumed_reqs st),
      req_to_new_blocks := req_to_new_blocks st @ [(rid, get_blocks rid k)],
      scheduled_tokens := scheduled_tokens st @ [(rid, n)], token_budget := token_budget st - n, sch := s1\<rparr>"
  have st: "status ?r = WAITING \<or> status ?r = PREEMPTED" using r(1) status by (auto simp: waiting_ok_def)
  then have call: "admit rid rid n c (st\<lparr>sch := ?s\<lparr>kv := k, waiting := q\<rparr>\<rparr>) = ok st1"
    using loras keys_update_new [OF req] keys_update_new [OF out(2)]
    by (auto simp: admit_def Let_def st1_def s1_def upd_req_def)
  have rank1: "rank_of s1 = rank_of ?s" by (auto simp: s1_def rank_of_def)
  moreover have "config s1 = config ?s" "waiting s1 = q" by (simp_all add: s1_def)
  ultimately have queue1: "wgood s1" "wlist s1 = wlist (?s\<lparr>waiting := q\<rparr>)" using q(2) by (simp_all add: wgood_def wlist_def)
  have s1: "config s1 = config ?s" "request_ids s1 = request_ids ?s" "kv s1 = k" "running s1 = running ?s @ [rid]"
    "prev_step_scheduled s1 = prev_step_scheduled ?s" "\<And>r. r \<noteq> rid \<Longrightarrow> objs s1 r = objs ?s r" "rank_of s1 = rank_of ?s"
    "objs s1 rid = ?f ?r" "same_base s0 s1 = same_base s0 ?s" "wgood s1" "wlist s1 = wlist (?s\<lparr>waiting := q\<rparr>)"
    using rank1 queue1 by (auto simp: s1_def same_base_def)
  let ?W1 = "all_waiting s1 skipped"
  have W1: "?W = rid # ?W1" using q(1) s1(7,11) by (simp add: all_waiting_def)
  then have rest: "rid \<notin> set ?W1" "set ?W1 \<subseteq> set ?W" using parts(2) by auto
  have shape: "same_shape (kv ?s) k" using k(1) by (simp add: kv_moves_def)
  have "parts (running s1) ?W1 s1"
    using ok room W1 s1(1,2,4) out(1) by (auto simp: state_ok_def parts_def)
  moreover have "request_at (\<lambda>_. None) (running s1) ?W1 s1 rid"
    using r n(1,2) rest(1) s1(1,3,4,8) shape covers_mono [OF k(2), of c] n(3)
    by (simp add: request_at_def running_ok_def same_shape_def)
  ultimately have ok1: "state_ok (\<lambda>_. None) (running s1) ?W1 s1"
    using k(1) s1 W1 rest(1) out(1) by (intro state_step [OF ok]) auto
  have "spec_of st1 rid = []"
  proof -
    have "rid \<notin> set (dict_keys (spec_decode_tokens st))" using out(2) p unfolding pass_ok_def by blast
    then have "map_of (spec_decode_tokens st) rid = None" by (simp add: map_of_eq_None_iff)
    then show ?thesis by (simp add: spec_of_def st1_def)
  qed
  then have "entry_ok st1 rid n" using k(2) n(3,5) s1(3,8) by (simp add: entry_ok_def st1_def)
  moreover have "entry_ok st1 r m" if "(r, m) \<in> set (scheduled_tokens st)" for r m
    by (rule entries_moved [OF p out(2) _ _ that, where s' = s1]) (simp_all add: k(1) s1 st1_def)
  moreover have "set (dict_keys (spec_decode_tokens st)) \<subseteq> insert rid (set (dict_keys (scheduled_tokens st)))"
    using p unfolding pass_ok_def by blast
  ultimately have "pass_ok s0 st1"
    using p out(2) n(4) s1(9,10) unfolding pass_ok_def by (auto simp: st1_def)
  moreover have "status (objs s1 r) = PREEMPTED \<longrightarrow> r \<notin> set (prev_step_scheduled s1)" if "r \<in> set ?W1" for r
    using resumed(1) that rest s1(5,6) by (metis subsetD)
  moreover have "rid \<notin> set (prev_step_scheduled s1)" if "status ?r = PREEMPTED" using resumed(1) mem that s1(5) by metis
  ultimately have "waiting_phase s0 st1 skipped"
    using ok1 good lists resumed(2) sub s1(1,4,5,7) st by (auto simp: waiting_phase_def st1_def Let_def)
  with call show ?thesis by blast
qed


section \<open>The loop over the waiting requests\<close>

lemma place_ok:
  assumes phase: "waiting_phase s0 st skipped" and peek: "peek_request (waiting (sch st)) = Inr rid"
    and room: "length (running (sch st)) < max_num_running_reqs (config (sch st))"
    and status: "status (objs (sch st) rid) \<noteq> WAITING_FOR_FSM" and budget: "0 < token_budget st"
  shows "\<exists>goes_on st'. place_waiting rid st skipped = ok (goes_on, st', skipped) \<and> waiting_phase s0 st' skipped"
proof -
  let ?s = "sch st" and ?r = "objs (sch st) rid"
  have ok: "state_ok (\<lambda>_. None) (running ?s) (all_waiting ?s skipped) ?s" using phase by (simp add: waiting_phase_def Let_def)
  obtain q where q: "pop_request (rank_of ?s) (waiting ?s) = Inr (rid, q)" "wlist ?s = rid # wlist (?s\<lparr>waiting := q\<rparr>)"
    by (rule waiting_pop [OF phase peek])
  then have mem: "rid \<in> set (all_waiting ?s skipped)" by (simp add: all_waiting_def)
  have "rid \<in> set (request_ids ?s)" using known [OF ok] mem by blast
  moreover have "rid \<notin> set (running ?s)" using ok mem by (auto simp: state_ok_def parts_def)
  ultimately have r: "num_computed_tokens ?r = 0" "request_id ?r = rid" "req_ok (config ?s) (enable_caching (pool (kv ?s))) ?r"
    "no_entry (kv ?s) rid"
    using request_at_of [OF ok, of rid] mem by (auto simp: request_at_def waiting_ok_def)
  have fits: "cache_fits ?s" "kv_reachable (kv ?s)" "kv_plain (kv ?s)" "model_len (config ?s) = max_model_len (kv ?s)"
    using ok by (simp_all add: state_ok_def cache_fits_def sync_config_def)
  have len: "0 < num_tokens ?r" "num_tokens ?r < max_model_len (kv ?s)" using r(3) fits(4) by (simp_all add: req_ok_def)
  obtain hits c where h: "get_computed_blocks (creq ?s rid) (kv ?s) = Some (Inr (hits, c))" "0 \<le> c" "c < num_tokens ?r"
    "\<And>n la. 0 < n \<Longrightarrow> 0 \<le> la \<Longrightarrow> c + n \<le> max_model_len (kv ?s) \<Longrightarrow>
      \<exists>res k'. allocate_slots (creq ?s rid) n c hits la 0 False (kv ?s) = (Inr res, k') \<and> kv_moves rid (kv ?s) k' \<and>
        (case res of None \<Rightarrow> no_entry k' rid | Some new \<Rightarrow> covers k' rid (c + n))"
    using waiting_slots [OF fits(2,3) hashes_known [OF fits(1) r(3)], unfolded creq_simps r(2), OF r(4,1) len(1)] len(2) by auto
  let ?n = "waiting_tokens ?s c ?r"
  have n: "0 < ?n" "c + ?n \<le> num_tokens ?r" using h(3) by (auto simp: waiting_tokens_def Let_def)
  note run = place_waiting_def [of rid st skipped, unfolded Let_def, simplified r(1)]
  show ?thesis
  proof (cases "\<not> enable_chunked_prefill (config ?s) \<and> token_budget st < ?n")
    case True
    with h(1) phase show ?thesis unfolding run by (auto simp: ok_def)
  next
    case False
    let ?m = "min ?n (token_budget st)"
    have m: "0 < ?m" "?m \<le> token_budget st" "c + ?m \<le> num_tokens ?r" "c + ?m \<le> max_model_len (kv ?s)" using n budget len by auto
    from h(4) [OF m(1) order_refl m(4)] obtain res k where al: "allocate_slots (creq ?s rid) ?m c hits 0 0 False (kv ?s) = (Inr res, k)"
      "kv_moves rid (kv ?s) k" "case res of None \<Rightarrow> no_entry k rid | Some new \<Rightarrow> covers k rid (c + ?m)" by blast
    show ?thesis
    proof (cases res)
      case None
      with al waiting_no_slots [OF phase mem al(2)] h(1) False m(1) show ?thesis
        unfolding run by (auto simp: ok_def)
    next
      case (Some new)
      with al(3) have "covers k rid (c + ?m)" by simp
      from admit_ok [OF phase peek q(1) room status al(2) this h(2,3) m(1,2,3)] al(1) Some h(1) False m(1) q(1) show ?thesis
        unfolding run by (auto simp: ok_def)
    qed
  qed
qed

lemma waiting_round_ok:
  assumes phase: "waiting_phase s0 st skipped" and more: "queue_len (waiting (sch st)) \<noteq> 0" and budget: "0 < token_budget st"
  shows "\<exists>goes_on st' skipped'. waiting_round ready st skipped = ok (goes_on, st', skipped') \<and> waiting_phase s0 st' skipped'"
proof -
  let ?s = "sch st"
  have ok: "state_ok (\<lambda>_. None) (running ?s) (all_waiting ?s skipped) ?s"
    and good: "queue_good (rank_of ?s) (sched_policy (config ?s)) (waiting ?s)"
    using phase by (simp_all add: waiting_phase_def pass_ok_def wgood_def Let_def)
  show ?thesis
  proof (cases "length (running ?s) = max_num_running_reqs (config ?s)")
    case True
    with phase show ?thesis by (auto simp: waiting_round_def)
  next
    case False
    then have room: "length (running ?s) < max_num_running_reqs (config ?s)" using ok by (simp add: state_ok_def parts_def)
    have "queue_iter (rank_of ?s) (waiting ?s) \<noteq> []" using more wq.len [OF good] by auto
    then obtain rid rest where items: "wlist ?s = rid # rest" by (cases "wlist ?s") (auto simp: wlist_def)
    then have peek: "peek_request (waiting ?s) = Inr rid" using wq.peek [OF good] by (simp add: wlist_def)
    have mem: "rid \<in> set (all_waiting ?s skipped)" using items by (simp add: all_waiting_def)
    define s1 where "s1 = clear_spec rid ?s"
    define s2 where "s2 = (if status (objs s1 rid) = WAITING_FOR_FSM \<and> ready rid then upd_req rid (\<lambda>r. r\<lparr>status := WAITING\<rparr>) s1 else s1)"
    define st2 where "st2 = st\<lparr>sch := s2\<rparr>"
    have p1: "waiting_phase s0 (st\<lparr>sch := s1\<rparr>) skipped" unfolding s1_def by (rule waiting_clear [OF phase mem])
    have same1: "rank_of s1 = rank_of ?s" "waiting s1 = waiting ?s" "running s1 = running ?s" "config s1 = config ?s"
      by (simp_all add: s1_def clear_spec_def)
    then have mem1: "rid \<in> set (all_waiting (sch (st\<lparr>sch := s1\<rparr>)) skipped)" using mem by (simp add: all_waiting_def wlist_def)
    have "waiting_ok (objs s1 rid)" using p1 mem1 by (auto simp: waiting_phase_def state_ok_def request_at_def Let_def)
    then have p2: "waiting_phase s0 st2 skipped"
      using waiting_update [OF p1 mem1, of "\<lambda>r. r\<lparr>status := WAITING\<rparr>"] p1 by (simp add: st2_def s2_def waiting_ok_def)
    have same2: "rank_of s2 = rank_of s1" "waiting s2 = waiting s1" "running s2 = running s1" "config s2 = config s1"
      by (simp_all add: s2_def)
    have at: "sch st2 = s2" "token_budget st2 = token_budget st" by (simp_all add: st2_def)
    have peek2: "peek_request (waiting (sch st2)) = Inr rid" using peek same1 same2 at by simp
    have "rid \<in> set (all_waiting s2 skipped)" using mem same1 same2 by (simp add: all_waiting_def wlist_def)
    then have wait: "waiting_ok (objs s2 rid)" using p2 at by (auto simp: waiting_phase_def state_ok_def request_at_def Let_def)
    have "max_loras (config s2) = None" using p2 at by (simp add: waiting_phase_def state_ok_def cache_fits_def sync_config_def Let_def)
    then have lora: "\<not> lora_blocked st2 (objs s2 rid)" by (simp add: lora_blocked_def at)
    have room2: "length (running (sch st2)) < max_num_running_reqs (config (sch st2))" using room same1 same2 at by simp
    have run: "waiting_round ready st skipped
        = (if status (objs s2 rid) = WAITING_FOR_FSM then skip_request rid st2 skipped else place_waiting rid st2 skipped)"
      using False peek wait lora
      by (auto simp: waiting_round_def Let_def s1_def [symmetric] s2_def [symmetric] st2_def [symmetric] waiting_ok_def)
    show ?thesis
    proof (cases "status (objs s2 rid) = WAITING_FOR_FSM")
      case True
      with skip_ok [OF p2 peek2] show ?thesis unfolding run by auto
    next
      case fsm: False
      then have "status (objs (sch st2) rid) \<noteq> WAITING_FOR_FSM" using at by simp
      from place_ok [OF p2 peek2 room2 this] budget at fsm show ?thesis unfolding run by auto
    qed
  qed
qed


lemma schedule_waiting_ok:
  "waiting_phase s0 st skipped \<Longrightarrow> \<exists>st' skipped'. schedule_waiting ready st skipped = ok (st', skipped') \<and> waiting_phase s0 st' skipped'"
proof (induction ready st skipped rule: schedule_waiting.induct)
  case (1 ready st skipped)
  show ?case
  proof (cases "queue_len (waiting (sch st)) = 0 \<or> token_budget st \<le> 0")
    case True
    with 1(2) show ?thesis by (subst schedule_waiting.simps) auto
  next
    case False
    then have "0 < token_budget st" "queue_len (waiting (sch st)) \<noteq> 0" by simp_all
    with waiting_round_ok [OF 1(2)] obtain goes_on st' skipped' where
      round: "waiting_round ready st skipped = Some (Inr (goes_on, st', skipped'))" "waiting_phase s0 st' skipped'"
      by (fastforce simp: ok_def)
    show ?thesis
    proof (cases goes_on)
      case True
      with False round 1(1) have "\<exists>st2 sk2. schedule_waiting ready st' skipped' = ok (st2, sk2) \<and> waiting_phase s0 st2 sk2" by blast
      with round(1) True False show ?thesis by (subst schedule_waiting.simps) simp
    next
      case stop: False
      with round False show ?thesis by (subst schedule_waiting.simps) auto
    qed
  qed
qed

text \<open>From the first half to the second, and the skipped requests back into the queue.\<close>

lemma enter_waiting:
  assumes phase: "running_phase s0 i st" and none: "preempted_reqs st = []"
  shows "waiting_phase s0 st (create_request_queue (sched_policy (config s0)))"
proof -
  let ?s = "sch st"
  have base: "same_base s0 ?s" and keys: "dict_keys (scheduled_tokens st) = running_reqs st" "running_reqs st = take i (running ?s)"
    "i \<le> length (running ?s)"
    using phase by (simp_all add: running_phase_def pass_ok_def Let_def)
  then have pol: "sched_policy (config s0) = sched_policy (config ?s)" by (simp add: same_base_def)
  have "set (running_reqs st) \<subseteq> set (running ?s)" unfolding keys(2) by (rule set_take_subset)
  then have "set (dict_keys (scheduled_tokens st)) \<subseteq> set (running ?s)" unfolding keys(1) .
  moreover have "set (running_reqs st) \<subseteq> set (dict_keys (scheduled_tokens st))" unfolding keys(1) ..
  ultimately show ?thesis
    using phase none keys(2,3)
    by (simp add: waiting_phase_def running_phase_def all_waiting_def pol create_good fresh_resumes_def Let_def)
qed

text \<open>What holds when all requests of a pass have been chosen.\<close>

definition chosen :: "scheduler \<Rightarrow> pass \<Rightarrow> bool" where
  "chosen s0 st \<longleftrightarrow> (let s = sch st in
     pass_ok s0 st \<and> state_ok (\<lambda>_. None) (running s) (wlist s) s \<and>
     set (new_reqs st) \<union> set (resumed_reqs st) \<union> set (running_reqs st) \<subseteq> set (dict_keys (scheduled_tokens st)) \<and>
     set (dict_keys (scheduled_tokens st)) \<subseteq> set (running s) \<and>
     length (new_reqs st) + length (resumed_reqs st) + length (running_reqs st) \<le> length (running s) \<and>
     (\<forall>rid \<in> set (resumed_reqs st). rid \<notin> set (prev_step_scheduled s)) \<and> set (preempted_reqs st) \<subseteq> set (wlist s))"

lemma chosen_put_back:
  assumes phase: "waiting_phase s0 st skipped"
  shows "chosen s0 (put_back (st, skipped))"
proof -
  let ?s = "sch st"
  have good: "queue_good (rank_of ?s) (sched_policy (config ?s)) skipped"
    "queue_good (rank_of ?s) (sched_policy (config ?s)) (waiting ?s)"
    and ok: "state_ok (\<lambda>_. None) (running ?s) (all_waiting ?s skipped) ?s" and none: "preempted_reqs st = []"
    using phase by (simp_all add: waiting_phase_def pass_ok_def wgood_def Let_def)
  show ?thesis
  proof (cases "queue_len skipped = 0")
    case True
    with wq.len [OF good(1)] have "all_waiting ?s skipped = wlist ?s" by (simp add: all_waiting_def)
    with True phase show ?thesis by (simp add: put_back_def chosen_def waiting_phase_def Let_def)
  next
    case False
    let ?q = "prepend_requests (rank_of ?s) skipped (waiting ?s)"
    from prepend_requests_good [OF good(2,1)] have q: "queue_good (rank_of ?s) (sched_policy (config ?s)) ?q"
      "mset (queue_iter (rank_of ?s) ?q) = mset (queue_iter (rank_of ?s) skipped) + mset (queue_iter (rank_of ?s) (waiting ?s))" by simp_all
    then have "mset (wlist (?s\<lparr>waiting := ?q\<rparr>)) = mset (all_waiting ?s skipped)" by (simp add: wlist_def all_waiting_def)
    from state_ok_perm [OF this] ok have "state_ok (\<lambda>_. None) (running ?s) (wlist (?s\<lparr>waiting := ?q\<rparr>)) (?s\<lparr>waiting := ?q\<rparr>)" by simp
    moreover have "wgood (?s\<lparr>waiting := ?q\<rparr>)" using q(1) by (simp add: wgood_def)
    ultimately show ?thesis using False phase none
      by (simp add: put_back_def chosen_def waiting_phase_def pass_ok_def Let_def)
  qed
qed

lemma chosen_running:
  assumes phase: "running_phase s0 i st"
  shows "chosen s0 st"
proof -
  let ?s = "sch st"
  have keys: "dict_keys (scheduled_tokens st) = running_reqs st" "running_reqs st = take i (running ?s)"
    using phase by (simp_all add: running_phase_def Let_def)
  have "set (running_reqs st) \<subseteq> set (running ?s)" unfolding keys(2) by (rule set_take_subset)
  then have "set (dict_keys (scheduled_tokens st)) \<subseteq> set (running ?s)" unfolding keys(1) .
  moreover have "set (running_reqs st) \<subseteq> set (dict_keys (scheduled_tokens st))" unfolding keys(1) ..
  ultimately show ?thesis using phase keys(2) by (simp add: chosen_def running_phase_def Let_def)
qed

end
