(* ===== verification/SchedFinish.thy ===== *)
theory SchedFinish
  imports SchedAdmit
begin

text \<open>
  The end of a pass: the output is built without a failing check or lookup, and the computed tokens
  advance. A whole pass therefore returns, and leaves the scheduler with the scheduled requests in flight.
\<close>

declare map_of_eq_Some_iff [simp del]

section \<open>Lookups\<close>

lemma omap_ok: "\<forall>x \<in> set xs. \<exists>y. f x = ok y \<Longrightarrow> \<exists>ys. omap f xs = ok ys"
  by (induction xs) fastforce+

lemma lookup_key_ok: "k \<in> set (dict_keys d) \<Longrightarrow> \<exists>v. lookup_key d k = ok v"
proof -
  assume "k \<in> set (dict_keys d)"
  then obtain v where "map_of d k = Some v" using dict_key_iff by metis
  then show ?thesis by (simp add: lookup_key_def)
qed

lemma new_data_ok: "rid \<in> set (dict_keys (req_to_new_blocks st)) \<Longrightarrow> \<exists>d. new_request_data st rid = ok d"
  using lookup_key_ok [of rid "req_to_new_blocks st"] by (auto simp: new_request_data_def Let_def)

lemma cached_data_ok:
  assumes "set run \<union> set resumed \<subseteq> set (dict_keys (req_to_new_blocks st))" "set run \<union> set resumed \<subseteq> set (dict_keys (scheduled_tokens st))"
    and "\<forall>rid \<in> set resumed. rid \<notin> set (prev_step_scheduled (sch st))"
  shows "\<exists>d. make_cached_request_data run resumed st = ok d"
proof -
  let ?s = "sch st"
  have "\<exists>ys. omap (lookup_key (req_to_new_blocks st)) (run @ resumed) = ok ys"
    using assms(1) by (intro omap_ok ballI lookup_key_ok) auto
  moreover have "\<exists>ys. omap (\<lambda>rid. obind (lookup_key (scheduled_tokens st) rid) (\<lambda>n. ok (g rid n))) (run @ resumed) = ok ys"
    for g :: "string \<Rightarrow> int \<Rightarrow> int list"
  proof (intro omap_ok ballI)
    fix rid
    assume "rid \<in> set (run @ resumed)"
    then have "rid \<in> set (dict_keys (scheduled_tokens st))" using assms(2) by auto
    from lookup_key_ok [OF this] show "\<exists>y. obind (lookup_key (scheduled_tokens st) rid) (\<lambda>n. ok (g rid n)) = ok y" by auto
  qed
  then obtain toks where "(if use_pp (config ?s) \<and> \<not> async_scheduling (config ?s)
      then omap (\<lambda>rid. obind (lookup_key (scheduled_tokens st) rid) (\<lambda>n.
        let r = objs ?s rid; spec = (case map_of (spec_decode_tokens st) rid of None \<Rightarrow> 0 | Some ts \<Rightarrow> int (length ts))
        in ok (token_slice (num_computed_tokens r) (num_computed_tokens r + (n - spec)) (all_token_ids r)))) (run @ resumed)
      else ok []) = ok toks"
    unfolding Let_def by fastforce
  moreover have "\<not> list_ex (\<lambda>rid. rid \<in> set (prev_step_scheduled ?s)) resumed" using assms(3) by (simp add: list_ex_iff)
  ultimately show ?thesis unfolding make_cached_request_data_def by (simp add: Let_def) (metis obind_simps(4))
qed

lemma same_at_finish:
  "state_ok fly R W s \<Longrightarrow> kv s' = kv s \<Longrightarrow> config s' = config s \<Longrightarrow> objs s' = objs s \<Longrightarrow> request_ids s' = request_ids s \<Longrightarrow> state_ok fly R W s'"
  using state_rests [of fly R W s s'] by (simp add: state_ok_def cache_fits_def kv_rests_def)

section \<open>Advancing\<close>

lemma advance_one:
  assumes ok: "state_ok fly R W s" and rid: "rid \<in> set R" "fly rid = None"
    and n: "0 < n" "covers (kv s) rid (num_computed_tokens (objs s rid) + n)"
      "num_computed_tokens (objs s rid) + n \<le> num_tokens (objs s rid) + int d"
      "0 < d \<Longrightarrow> num_computed_tokens (objs s rid) + n = num_tokens (objs s rid) + int d"
  obtains f b where "advance_request (rid, n) (s, out) = ok (upd_req rid f s, out\<lparr>has_structured_output := b\<rparr>)"
    "state_ok (fly(rid := Some d)) R W (upd_req rid f s)"
    "\<And>r. priority (f r) = priority r \<and> arrival_time (f r) = arrival_time r \<and> status (f r) = status r \<and> num_tokens (f r) = num_tokens r \<and>
       num_computed_tokens (f r) = num_computed_tokens (objs s rid) + n"
proof -
  let ?c = "num_computed_tokens (objs s rid) + n"
  let ?p = "?c < num_tokens (objs s rid) + num_output_placeholders (objs s rid)"
  let ?f = "\<lambda>r. r\<lparr>num_computed_tokens := ?c, is_prefill_chunk := ?p\<rparr>"
  have mem: "rid \<in> set (request_ids s)" using known [OF ok] rid(1) by blast
  have disj: "rid \<notin> set W" using ok rid(1) by (auto simp: state_ok_def parts_def)
  have "request_at (fly(rid := Some d)) R W (upd_req rid ?f s) rid"
    using request_at_of [OF ok, of rid] rid n disj by (simp add: request_at_def running_ok_def)
  from state_update [OF ok this] have "state_ok (fly(rid := Some d)) R W (upd_req rid ?f s)" by simp
  moreover have "\<exists>b. advance_request (rid, n) (s, out) = ok (upd_req rid ?f s, out\<lparr>has_structured_output := b\<rparr>)"
    using mem by (auto simp: advance_request_def Let_def)
  ultimately show thesis using that by auto
qed

text \<open>The flight after a list of entries: what the update of the computed tokens leaves alone.\<close>

definition advanced :: "scheduler \<Rightarrow> scheduler \<Rightarrow> bool" where
  "advanced s s' \<longleftrightarrow> same_base s s' \<and> kv s' = kv s \<and> running s' = running s \<and> waiting s' = waiting s \<and>
     finished_req_ids s' = finished_req_ids s \<and> (\<forall>r. status (objs s' r) = status (objs s r) \<and> num_tokens (objs s' r) = num_tokens (objs s r))"

lemma advance_all:
  assumes "state_ok fly R W s" "distinct (map fst xs)"
    and "\<forall>(rid, n) \<in> set xs. rid \<in> set R \<and> fly rid = None \<and> 0 < n \<and> covers (kv s) rid (num_computed_tokens (objs s rid) + n) \<and>
      num_computed_tokens (objs s rid) + n \<le> num_tokens (objs s rid) + int (d rid) \<and>
      (0 < d rid \<longrightarrow> num_computed_tokens (objs s rid) + n = num_tokens (objs s rid) + int (d rid))"
  shows "\<exists>s' b. ofold advance_request xs (s, out) = ok (s', out\<lparr>has_structured_output := b\<rparr>) \<and>
    state_ok (\<lambda>r. if r \<in> fst ` set xs then Some (d r) else fly r) R W s' \<and> advanced s s' \<and>
    (\<forall>(rid, n) \<in> set xs. num_computed_tokens (objs s' rid) = num_computed_tokens (objs s rid) + n) \<and>
    (\<forall>r. r \<notin> fst ` set xs \<longrightarrow> objs s' r = objs s r)"
  using assms
proof (induction xs arbitrary: s fly out)
  case Nil
  have "out = out\<lparr>has_structured_output := has_structured_output out\<rparr>" by simp
  with Nil show ?case by (intro exI [of _ s] exI [of _ "has_structured_output out"]) (simp add: advanced_def)
next
  case (Cons x xs)
  obtain rid n where x: "x = (rid, n)" by (cases x)
  from Cons.prems(3) x have p: "rid \<in> set R" "fly rid = None" "0 < n" "covers (kv s) rid (num_computed_tokens (objs s rid) + n)"
    "num_computed_tokens (objs s rid) + n \<le> num_tokens (objs s rid) + int (d rid)"
    "0 < d rid \<Longrightarrow> num_computed_tokens (objs s rid) + n = num_tokens (objs s rid) + int (d rid)" by auto
  obtain f b where f: "advance_request (rid, n) (s, out) = ok (upd_req rid f s, out\<lparr>has_structured_output := b\<rparr>)"
    "state_ok (fly(rid := Some (d rid))) R W (upd_req rid f s)"
    "\<And>r. priority (f r) = priority r \<and> arrival_time (f r) = arrival_time r \<and> status (f r) = status r \<and> num_tokens (f r) = num_tokens r \<and>
       num_computed_tokens (f r) = num_computed_tokens (objs s rid) + n"
    by (rule advance_one [OF Cons.prems(1) p]) blast+
  let ?s = "upd_req rid f s"
  have new: "rid \<notin> fst ` set xs" using Cons.prems(2) x by simp
  have other: "r \<noteq> rid" if "(r, m) \<in> set xs" for r m using new that by force
  have adv: "advanced s ?s"
    using f(3) by (auto simp: advanced_def same_base_def)
  have "\<forall>(r, m) \<in> set xs. r \<in> set R \<and> (fly(rid := Some (d rid))) r = None \<and> 0 < m \<and> covers (kv ?s) r (num_computed_tokens (objs ?s r) + m) \<and>
      num_computed_tokens (objs ?s r) + m \<le> num_tokens (objs ?s r) + int (d r) \<and>
      (0 < d r \<longrightarrow> num_computed_tokens (objs ?s r) + m = num_tokens (objs ?s r) + int (d r))"
    using Cons.prems(3) other by (auto dest!: bspec)
  moreover have "distinct (map fst xs)" using Cons.prems(2) by simp
  ultimately obtain s' b' where s': "ofold advance_request xs (?s, out\<lparr>has_structured_output := b\<rparr>) = ok (s', out\<lparr>has_structured_output := b'\<rparr>)"
    "state_ok (\<lambda>r. if r \<in> fst ` set xs then Some (d r) else (fly(rid := Some (d rid))) r) R W s'" "advanced ?s s'"
    "\<forall>(r, m) \<in> set xs. num_computed_tokens (objs s' r) = num_computed_tokens (objs ?s r) + m"
    "\<forall>r. r \<notin> fst ` set xs \<longrightarrow> objs s' r = objs ?s r"
    using Cons.IH [OF f(2), of "out\<lparr>has_structured_output := b\<rparr>"] by fastforce
  have "(\<lambda>r. if r \<in> fst ` set xs then Some (d r) else (fly(rid := Some (d rid))) r)
      = (\<lambda>r. if r \<in> fst ` set (x # xs) then Some (d r) else fly r)" using x by auto
  moreover have "advanced s s'" using adv s'(3) by (auto simp: advanced_def same_base_def)
  moreover have "num_computed_tokens (objs s' r) = num_computed_tokens (objs s r) + m" if "(r, m) \<in> set (x # xs)" for r m
  proof (cases "(r, m) \<in> set xs")
    case True
    with s'(4) other [OF True] show ?thesis by auto
  next
    case False
    with that x have "r = rid" "m = n" by auto
    with s'(5) new f(3) show ?thesis by simp
  qed
  moreover have "\<forall>r. r \<notin> fst ` set (x # xs) \<longrightarrow> objs s' r = objs s r" using s'(5) x by auto
  ultimately show ?case using s'(1,2) f(1) x by (intro exI [of _ s'] exI [of _ b']) auto
qed


section \<open>A whole pass\<close>

text \<open>The draft tokens of each request that an output has in flight.\<close>

definition drafts_of :: "sched_output \<Rightarrow> string \<Rightarrow> nat" where
  "drafts_of out rid = (case map_of (scheduled_spec_decode_tokens out) rid of None \<Rightarrow> 0 | Some ts \<Rightarrow> length ts)"

definition fly_of :: "sched_output \<Rightarrow> string \<Rightarrow> nat option" where
  "fly_of out rid = (if rid \<in> set (dict_keys (num_scheduled_tokens out)) then Some (drafts_of out rid) else None)"

definition flying :: "sched_output \<Rightarrow> scheduler \<Rightarrow> bool" where
  "flying out s \<longleftrightarrow> state_ok (fly_of out) (running s) (wlist s) s \<and> wgood s \<and> fresh_resumes s \<and>
     distinct (dict_keys (num_scheduled_tokens out)) \<and>
     (spec_decode_enabled out \<or> scheduled_spec_decode_tokens out = []) \<and>
     (\<forall>(rid, n) \<in> set (num_scheduled_tokens out). 0 < n \<and> (rid \<in> set (request_ids s) \<longrightarrow> rid \<in> set (running s)))"

text \<open>The output of a pass over the state \<open>s\<close> that ends in \<open>s'\<close>.\<close>

definition pass_output :: "scheduler \<Rightarrow> sched_output \<Rightarrow> scheduler \<Rightarrow> bool" where
  "pass_output s out s' \<longleftrightarrow> config s' = config s \<and> request_ids s' = request_ids s \<and> pause s' = pause s \<and> enable_sd s' = enable_sd s \<and>
     rank_of s' = rank_of s \<and> finished_req_ids s' = [] \<and>
     set (dict_keys (num_scheduled_tokens out)) \<subseteq> set (running s') \<and>
     total_num_scheduled_tokens out = sum_list (dict_values (num_scheduled_tokens out)) \<and>
     total_num_scheduled_tokens out \<le> token_budget (start_pass s) \<and> spec_decode_enabled out = enable_sd s \<and>
     (enable_sd s \<or> scheduled_spec_decode_tokens out = []) \<and> set (preempted_req_ids out) \<subseteq> set (wlist s') \<and>
     prev_step_scheduled s' = dict_keys (num_scheduled_tokens out)"

text \<open>The data for the workers can be built.\<close>

lemma data_built:
  assumes ch: "chosen s0 st"
  obtains new_data cached where
    "omap (new_request_data st) (if v2_runner (config (sch st)) then new_reqs st @ resumed_reqs st else new_reqs st) = ok new_data"
    "make_cached_request_data (running_reqs st) (if v2_runner (config (sch st)) then [] else resumed_reqs st) st = ok cached"
proof -
  let ?s = "sch st"
  have p: "pass_ok s0 st" and lists: "set (new_reqs st) \<union> set (resumed_reqs st) \<union> set (running_reqs st) \<subseteq> set (dict_keys (scheduled_tokens st))"
      "\<forall>rid \<in> set (resumed_reqs st). rid \<notin> set (prev_step_scheduled ?s)"
    using ch unfolding chosen_def Let_def by blast+
  have keys: "dict_keys (req_to_new_blocks st) = dict_keys (scheduled_tokens st)" using p by (simp add: pass_ok_def)
  define news where "news = (if v2_runner (config ?s) then new_reqs st @ resumed_reqs st else new_reqs st)"
  define resumed where "resumed = (if v2_runner (config ?s) then [] else resumed_reqs st)"
  have sub: "set news \<subseteq> set (dict_keys (scheduled_tokens st))" "set (running_reqs st) \<union> set resumed \<subseteq> set (dict_keys (scheduled_tokens st))"
    "\<forall>rid \<in> set resumed. rid \<notin> set (prev_step_scheduled ?s)"
    using lists by (auto simp: news_def resumed_def)
  have "\<forall>rid \<in> set news. \<exists>d. new_request_data st rid = ok d" using sub(1) keys new_data_ok by (metis subsetD)
  then obtain new_data where "omap (new_request_data st) news = ok new_data" using omap_ok by blast
  moreover obtain cached where "make_cached_request_data (running_reqs st) resumed st = ok cached"
    using cached_data_ok [of "running_reqs st" resumed st] sub(2,3) keys by metis
  ultimately show thesis using that unfolding news_def resumed_def by blast
qed

text \<open>What the scheduled requests need for the update of their computed tokens.\<close>

lemma pass_entries:
  assumes ch: "chosen s0 st" and moved: "kv_rests (kv (sch st)) (kv s2)" and objs: "objs s2 = objs (sch st)"
  shows "\<forall>(rid, n) \<in> set (scheduled_tokens st). rid \<in> set (running (sch st)) \<and> (\<lambda>_. None :: nat option) rid = None \<and> 0 < n \<and>
      covers (kv s2) rid (num_computed_tokens (objs s2 rid) + n) \<and>
      num_computed_tokens (objs s2 rid) + n \<le> num_tokens (objs s2 rid) + int (length (spec_of st rid)) \<and>
      (0 < length (spec_of st rid) \<longrightarrow> num_computed_tokens (objs s2 rid) + n = num_tokens (objs s2 rid) + int (length (spec_of st rid)))"
proof (rule ballI, clarify)
  fix rid n
  assume m: "(rid, n) \<in> set (scheduled_tokens st)"
  have p: "pass_ok s0 st" and sub: "set (dict_keys (scheduled_tokens st)) \<subseteq> set (running (sch st))"
    using ch unfolding chosen_def Let_def by blast+
  have "rid \<in> set (running (sch st))" using sub m by force
  moreover have "entry_ok st rid n" using p m by (auto simp: pass_ok_def)
  moreover have "covers (kv s2) rid x = covers (kv (sch st)) rid x" for x
    using moved covers_frame [of "kv s2" rid "kv (sch st)"] by (simp add: kv_rests_def)
  ultimately show "rid \<in> set (running (sch st)) \<and> (None :: nat option) = None \<and> 0 < n \<and>
      covers (kv s2) rid (num_computed_tokens (objs s2 rid) + n) \<and>
      num_computed_tokens (objs s2 rid) + n \<le> num_tokens (objs s2 rid) + int (length (spec_of st rid)) \<and>
      (0 < length (spec_of st rid) \<longrightarrow>
         num_computed_tokens (objs s2 rid) + n = num_tokens (objs s2 rid) + int (length (spec_of st rid)))"
    unfolding entry_ok_def Let_def objs by auto
qed

lemma finish_schedule_ok:
  assumes ch: "chosen s0 st"
  shows "\<exists>out s'. finish_schedule st = ok (out, s') \<and> flying out s' \<and> pass_output s0 out s'"
proof -
  let ?s = "sch st"
  have p: "pass_ok s0 st" and ok: "state_ok (\<lambda>_. None) (running ?s) (wlist ?s) ?s"
    and lists: "set (new_reqs st) \<union> set (resumed_reqs st) \<union> set (running_reqs st) \<subseteq> set (dict_keys (scheduled_tokens st))"
      "set (dict_keys (scheduled_tokens st)) \<subseteq> set (running ?s)"
      "length (new_reqs st) + length (resumed_reqs st) + length (running_reqs st) \<le> length (running ?s)"
      "\<forall>rid \<in> set (resumed_reqs st). rid \<notin> set (prev_step_scheduled ?s)" "set (preempted_reqs st) \<subseteq> set (wlist ?s)"
    using ch unfolding chosen_def Let_def by blast+
  have base: "same_base s0 ?s" and keys: "dict_keys (req_to_new_blocks st) = dict_keys (scheduled_tokens st)"
    "distinct (dict_keys (scheduled_tokens st))" using p by (auto simp: pass_ok_def)
  have cfg: "config ?s = config s0" "\<not> async_scheduling (config ?s)" "0 \<le> max_num_scheduled_tokens (config ?s)" "max_loras (config ?s) = None"
    using ok base by (simp_all add: state_ok_def cache_fits_def sync_config_def same_base_def)
  have sum: "sum_list (dict_values (scheduled_tokens st)) \<le> token_budget (start_pass s0)" "0 \<le> token_budget st"
    using p by (simp_all add: pass_ok_def)
  have total: "sum_list (dict_values (scheduled_tokens st)) \<le> max_num_scheduled_tokens (config ?s)"
    using sum(1) cfg(1,3) by (simp add: start_pass_def split: if_splits)
  have limit: "length (running ?s) \<le> max_num_running_reqs (config ?s)" using ok by (simp add: state_ok_def parts_def)
  obtain new_data cached where
    nd: "omap (new_request_data st) (if v2_runner (config ?s) then new_reqs st @ resumed_reqs st else new_reqs st) = ok new_data" and
    cd: "make_cached_request_data (running_reqs st) (if v2_runner (config ?s) then [] else resumed_reqs st) st = ok cached"
    by (rule data_built [OF ch])
  define s1 where "s1 = ?s\<lparr>prev_step_scheduled := dict_keys (scheduled_tokens st)\<rparr>"
  define s2 where "s2 = (if needs_kv_cache_zeroing (config s1) then s1\<lparr>kv := snd (take_all_new_block_ids (kv s1))\<rparr> else s1)"
  define zero where "zero = (if needs_kv_cache_zeroing (config s1) then fst (take_all_new_block_ids (kv s1)) else [])"
  define common where "common = (case running ?s of [] \<Rightarrow> replicate (length (managers (kv ?s))) 0 | rid # _ \<Rightarrow> common_prefix_blocks rid (kv ?s))"
  define zero_opt where "zero_opt = (if zero = [] then None else Some zero)"
  define out where "out = \<lparr>scheduled_new_reqs = new_data, scheduled_cached_reqs = cached,
       num_scheduled_tokens = scheduled_tokens st, total_num_scheduled_tokens = sum_list (dict_values (scheduled_tokens st)),
       scheduled_spec_decode_tokens = spec_decode_tokens st, common_prefix = common,
       preempted_req_ids = preempted_reqs st, sent_finished_req_ids = finished_req_ids s2,
       spec_decode_enabled = enable_sd s2, new_block_ids_to_zero = zero_opt,
       has_structured_output = False, pending_structured_output = False, num_invalid_spec_tokens = None\<rparr>"
  have "finish_schedule st = obind (update_after_schedule out s2) (\<lambda>(s3, out'). ok (out', s3))"
    using total sum(2) limit lists(3) nd cd
    unfolding finish_schedule_def Let_def
      s1_def [symmetric] s2_def [symmetric] zero_def [symmetric] zero_opt_def [symmetric] common_def [symmetric]
    by (simp add: out_def)
  moreover have reach: "kv_reachable (kv ?s)" using ok by (simp add: state_ok_def cache_fits_def)
  have rests: "kv_rests (kv ?s) (kv s2)" using rests(3) [OF reach] reach by (simp add: s2_def s1_def kv_rests_def)
  have s2: "config s2 = config ?s" "objs s2 = objs ?s" "request_ids s2 = request_ids ?s" "running s2 = running ?s" "waiting s2 = waiting ?s"
    "pause s2 = pause ?s" "enable_sd s2 = enable_sd ?s" "prev_step_scheduled s2 = dict_keys (scheduled_tokens st)" "rank_of s2 = rank_of ?s"
    by (simp_all add: s2_def s1_def rank_of_def)
  have ok2: "state_ok (\<lambda>_. None) (running ?s) (wlist ?s) s2" by (rule state_rests [OF ok rests s2(1,2,3)])
  note entries = pass_entries [OF ch rests s2(2)]
  obtain s3 b where s3: "ofold advance_request (scheduled_tokens st) (s2, out) = ok (s3, out\<lparr>has_structured_output := b\<rparr>)"
    "state_ok (\<lambda>r. if r \<in> fst ` set (scheduled_tokens st) then Some (length (spec_of st r)) else None) (running ?s) (wlist ?s) s3"
    "advanced s2 s3" using advance_all [OF ok2 keys(2) entries, of out] by blast
  define s4 where "s4 = s3\<lparr>finished_req_ids := []\<rparr>"
  let ?out = "out\<lparr>has_structured_output := b\<rparr>"
  have "update_after_schedule out s2 = ok (s4, ?out)"
    using s3(1) cfg(2) s2(1) by (simp add: update_after_schedule_def s4_def out_def [symmetric]) (simp add: out_def)
  ultimately have call: "finish_schedule st = ok (?out, s4)" by simp
  have base4: "config s4 = config ?s" "request_ids s4 = request_ids ?s" "pause s4 = pause ?s" "enable_sd s4 = enable_sd ?s"
    "rank_of s4 = rank_of ?s" "running s4 = running ?s" "waiting s4 = waiting ?s" "prev_step_scheduled s4 = dict_keys (scheduled_tokens st)"
    "finished_req_ids s4 = []"
    using s3(3) s2 by (simp_all add: advanced_def same_base_def s4_def rank_of_def)
  then have w4: "wlist s4 = wlist ?s" "wgood s4 = wgood ?s" by (simp_all add: wlist_def wgood_def)
  have "fly_of ?out = (\<lambda>r. if r \<in> fst ` set (scheduled_tokens st) then Some (length (spec_of st r)) else None)"
    by (auto simp: fly_of_def drafts_of_def out_def spec_of_def fun_eq_iff split: option.split)
  then have "state_ok (fly_of ?out) (running s4) (wlist s4) s4"
    using same_at_finish [OF s3(2), of s4] base4(6) w4 by (simp add: s4_def)
  moreover have disj: "set (running ?s) \<inter> set (wlist ?s) = {}" using ok by (simp add: state_ok_def parts_def)
  then have "fresh_resumes s4" using lists(2) unfolding fresh_resumes_def base4(8) w4(1) by (meson disjoint_iff subsetD)
  moreover have "wgood s4" using p w4 by (simp add: pass_ok_def)
  moreover have "\<forall>x \<in> set (scheduled_tokens st). 0 < snd x \<and> fst x \<in> set (running ?s)" using entries by (simp add: case_prod_beta)
  moreover have drafts: "enable_sd s2 \<or> spec_decode_tokens st = []" using p s2(7) base by (simp add: pass_ok_def same_base_def)
  ultimately have fly: "flying ?out s4"
    using keys(2) base4(6) drafts by (simp add: flying_def out_def case_prod_beta)
  have "pass_output s0 ?out s4"
    using base base4 w4 lists(2,5) sum(1) p s2(7) unfolding pass_output_def
    by (simp add: out_def same_base_def pass_ok_def)
  with call fly show ?thesis by blast
qed

lemma schedule_ok:
  assumes "sched_ok s"
  shows "\<exists>out s'. schedule ready s = ok (out, s') \<and> flying out s' \<and> pass_output s out s'"
proof -
  obtain i st where run: "schedule_running 0 (start_pass s) = ok st" "running_phase s i st"
    using schedule_running_ok [OF start_phase [OF assms]] by blast
  have none: "max_loras (config s) = None" using assms by (simp add: sched_ok_def state_ok_def cache_fits_def sync_config_def)
  have st: "st\<lparr>loras := running_loras st\<rparr> = st"
  proof -
    have "loras st = []" "config (sch st) = config s" using run(2) by (simp_all add: running_phase_def pass_ok_def same_base_def Let_def)
    then show ?thesis using none by (simp add: running_loras_def)
  qed
  show ?thesis
  proof (cases "preempted_reqs st = [] \<and> pause s = UNPAUSED")
    case True
    let ?q = "create_request_queue (sched_policy (config s))"
    obtain st' skipped where w: "schedule_waiting ready st ?q = ok (st', skipped)" "waiting_phase s st' skipped"
      using schedule_waiting_ok enter_waiting [OF run(2)] True by blast
    from finish_schedule_ok [OF chosen_put_back [OF w(2)]] w(1) True run(1) none st show ?thesis
      by (simp add: schedule_def Let_def)
  next
    case False
    with finish_schedule_ok [OF chosen_running [OF run(2)]] run(1) none st show ?thesis
      by (auto simp: schedule_def Let_def)
  qed
qed

end
