(* ===== verification/SchedStop.thy ===== *)
theory SchedStop
  imports SchedInv
begin

text \<open>
  When a request stops: the detection of repeated patterns is what it says, and appending the generated
  tokens never fails and keeps the request well formed unless it stops.
\<close>

declare map_of_eq_Some_iff [simp del]

section \<open>Repetition\<close>

text \<open>The tokens end with \<open>n\<close> copies of a pattern of length \<open>p\<close>.\<close>

definition repeats :: "int list \<Rightarrow> nat \<Rightarrow> nat \<Rightarrow> bool" where
  "repeats toks p n \<longleftrightarrow> (\<exists>front pat. length pat = p \<and> toks = front @ concat (replicate n pat))"

lemma nth_concat_replicate: "length pat = p \<Longrightarrow> j < n * p \<Longrightarrow> concat (replicate n pat) ! j = pat ! (j mod p)"
proof (induction n arbitrary: j)
  case (Suc n)
  show ?case
  proof (cases "j < p")
    case False
    then have "j - p < n * p" "(j - p) mod p = j mod p" using Suc.prems(2) by (auto simp: le_mod_geq)
    with Suc.IH [OF Suc.prems(1), of "j - p"] False Suc.prems(1) show ?thesis by (simp add: nth_append)
  qed (use Suc.prems in \<open>simp add: nth_append\<close>)
qed simp

lemma length_concat_replicate: "length (concat (replicate n pat)) = n * length pat"
  by (induction n) simp_all

definition ends_alike :: "int list \<Rightarrow> nat \<Rightarrow> nat \<Rightarrow> bool" where
  "ends_alike toks p reps \<longleftrightarrow> (\<forall>n \<in> {1..p}. \<forall>m \<in> {1..<reps}. toks ! (length toks - (p * m + n)) = toks ! (length toks - n))"

lemma repeats_iff:
  assumes "0 < p" "0 < reps" "p * reps \<le> length toks"
  shows "repeats toks p reps \<longleftrightarrow> ends_alike toks p reps"
proof
  assume "repeats toks p reps"
  then obtain front pat where t: "length pat = p" "toks = front @ concat (replicate reps pat)" by (auto simp: repeats_def)
  have len: "length toks = length front + reps * p" using t by (simp add: length_concat_replicate)
  have at: "toks ! (length toks - (p * m + n)) = pat ! ((p - n) mod p)" if n: "n \<in> {1..p}" and "m < reps" for m n
  proof -
    obtain q where q: "reps = Suc (m + q)" using less_imp_Suc_add [OF \<open>m < reps\<close>] by auto
    define x where "x = p * q + (p - n)"
    have "length toks - (p * m + n) = length front + x" using n q len by (simp add: x_def algebra_simps)
    moreover have "x < reps * p" using n q trans_less_add1 [of "p + p * q - n" "p + p * q" "m * p"] by (simp add: x_def algebra_simps)
    moreover have "x mod p = (p - n) mod p" by (simp add: x_def)
    moreover have "toks ! (length front + x) = concat (replicate reps pat) ! x" unfolding t(2) by simp
    ultimately show ?thesis using nth_concat_replicate [OF t(1), of x reps] by simp
  qed
  have "toks ! (length toks - (p * m + n)) = toks ! (length toks - n)" if "n \<in> {1..p}" "m \<in> {1..<reps}" for n m
    using at [OF that(1), of m] at [OF that(1), of 0] that by simp
  then show "ends_alike toks p reps" by (simp add: ends_alike_def)
next
  assume alike: "ends_alike toks p reps"
  define len where "len = length toks"
  define front where "front = take (len - reps * p) toks"
  define pat where "pat = drop (len - p) toks"
  have le: "reps * p \<le> len" "p \<le> len" using assms by (simp_all add: len_def mult.commute) (metis assms(2,3) le_trans mult_le_mono2 nat_mult_1_right Suc_leI One_nat_def)
  have pat: "length pat = p" using le by (simp add: pat_def len_def)
  have "toks = front @ concat (replicate reps pat)"
  proof (rule nth_equalityI)
    show "length toks = length (front @ concat (replicate reps pat))"
      using le by (simp add: front_def length_concat_replicate pat len_def)
    fix i
    assume i: "i < length toks"
    show "toks ! i = (front @ concat (replicate reps pat)) ! i"
    proof (cases "i < len - reps * p")
      case False
      define j where "j = i - (len - reps * p)"
      have j: "j < reps * p" "i = len - reps * p + j" using False i le by (auto simp: j_def len_def)
      define q where "q = j div p"
      define r where "r = j mod p"
      have qr: "j = p * q + r" "r < p" using assms(1) by (simp_all add: q_def r_def)
      then have "q < reps" using j(1) by (metis div_less_iff_less_mult assms(1) q_def)
      then obtain m where m: "reps = Suc (q + m)" using less_imp_Suc_add by blast
      have "i = len - (p * m + (p - r))" using j(2) le(1) qr m by (simp add: algebra_simps)
      moreover have "toks ! (len - (p * m + (p - r))) = toks ! (len - (p - r))"
      proof (cases "m = 0")
        case False
        then have "p - r \<in> {1..p}" "m \<in> {1..<reps}" using qr(2) m by auto
        with alike show ?thesis unfolding ends_alike_def len_def by blast
      qed simp
      moreover have "toks ! (len - (p - r)) = pat ! r" using le qr(2) by (simp add: pat_def len_def)
      ultimately have "toks ! i = pat ! r" by metis
      moreover have "(front @ concat (replicate reps pat)) ! i = concat (replicate reps pat) ! j"
        using nth_append_length_plus [of front "concat (replicate reps pat)" j] j(2) le by (simp add: front_def len_def)
      ultimately show ?thesis using nth_concat_replicate [OF pat j(1)] by (simp add: r_def)
    qed (simp add: nth_append front_def len_def)
  qed
  with pat show "repeats toks p reps" by (auto simp: repeats_def)
qed

lemma check_all_Inr: "check_all (map (\<lambda>x. Inr (f x)) xs) = Inr (\<forall>x \<in> set xs. f x)"
  by (induction xs) auto

lemma check_all_append: "check_all (xs @ ys) = ebind (check_all xs) (\<lambda>b. if b then check_all ys else Inr False)"
  by (induction xs rule: check_all.induct) (auto simp: ebind_def split: sum.split)

lemma check_all_concat:
  "\<forall>x \<in> set xs. check_all (f x) = Inr (g x) \<Longrightarrow> check_all (concat (map f xs)) = Inr (\<forall>x \<in> set xs. g x)"
  by (induction xs) (auto simp: check_all_append)

lemma has_repeating_pattern_eq:
  assumes "0 < p" "1 < reps" "p * reps \<le> int (length toks)"
  shows "has_repeating_pattern toks p reps = Inr (repeats toks (nat p) (nat reps))"
proof -
  have at: "token_at_end toks (p * m + n) = Inr (toks ! (length toks - nat (p * m + n)))"
    if "n \<in> {1..p}" "m \<in> {0..reps - 1}" for n m
  proof -
    have "p * m \<le> p * (reps - 1)" using that assms(1) by (intro mult_left_mono) auto
    then have le: "p * m + n \<le> int (length toks)" using that assms(3) by (simp add: algebra_simps)
    have "0 \<le> p * m" using that assms(1) by simp
    then have pos: "0 < p * m + n" using that by (simp add: add_nonneg_pos)
    then have "nat (int (length toks) - (p * m + n)) = length toks - nat (p * m + n)" using le by linarith
    with le pos show ?thesis by (simp add: token_at_end_def)
  qed
  have "check_all (map_sum id (\<lambda>_. True) (token_at_end toks n) #
       map (\<lambda>m. ebind (token_at_end toks n) (\<lambda>target.
              map_sum id (\<lambda>t. t = target) (token_at_end toks (p * m + n)))) [1..reps - 1])
      = Inr (\<forall>m \<in> {1..reps - 1}. toks ! (length toks - nat (p * m + n)) = toks ! (length toks - nat n))" if n: "n \<in> {1..p}" for n
  proof -
    have first: "token_at_end toks n = Inr (toks ! (length toks - nat n))" using at [OF n, of 0] assms(2) by simp
    have rest: "map (\<lambda>m. ebind (token_at_end toks n) (\<lambda>target. map_sum id (\<lambda>t. t = target) (token_at_end toks (p * m + n)))) [1..reps - 1]
        = map (\<lambda>m. Inr (toks ! (length toks - nat (p * m + n)) = toks ! (length toks - nat n))) [1..reps - 1]"
      using at [OF n] first by (intro map_cong refl) simp
    show ?thesis unfolding rest check_all.simps by (simp add: first check_all_Inr)
  qed
  then have "has_repeating_pattern toks p reps
      = Inr (\<forall>n \<in> {1..p}. \<forall>m \<in> {1..reps - 1}. toks ! (length toks - nat (p * m + n)) = toks ! (length toks - nat n))"
    unfolding has_repeating_pattern_def by (subst check_all_concat) auto
  moreover have "(\<forall>n \<in> {1..p}. \<forall>m \<in> {1..reps - 1}. toks ! (length toks - nat (p * m + n)) = toks ! (length toks - nat n))
      \<longleftrightarrow> ends_alike toks (nat p) (nat reps)"
  proof
    assume all: "\<forall>n \<in> {1..p}. \<forall>m \<in> {1..reps - 1}. toks ! (length toks - nat (p * m + n)) = toks ! (length toks - nat n)"
    have "toks ! (length toks - (nat p * m + n)) = toks ! (length toks - n)" if "n \<in> {1..nat p}" "m \<in> {1..<nat reps}" for n m
    proof -
      have "nat (p * int m + int n) = nat p * m + n" using assms(1) by (simp add: nat_add_distrib nat_mult_distrib)
      with all [rule_format, of "int n" "int m"] that show ?thesis by auto
    qed
    then show "ends_alike toks (nat p) (nat reps)" by (simp add: ends_alike_def)
  next
    assume alike: "ends_alike toks (nat p) (nat reps)"
    have "toks ! (length toks - nat (p * m + n)) = toks ! (length toks - nat n)" if "n \<in> {1..p}" "m \<in> {1..reps - 1}" for n m
    proof -
      have "nat (p * m + n) = nat p * nat m + nat n" using assms(1) that by (simp add: nat_add_distrib nat_mult_distrib)
      moreover have "nat n \<in> {1..nat p}" "nat m \<in> {1..<nat reps}" using that by auto
      ultimately show ?thesis using alike unfolding ends_alike_def by metis
    qed
    then show "\<forall>n \<in> {1..p}. \<forall>m \<in> {1..reps - 1}. toks ! (length toks - nat (p * m + n)) = toks ! (length toks - nat n)" by blast
  qed
  moreover have "nat p * nat reps \<le> length toks" using assms by (simp add: nat_mult_distrib [symmetric])
  ultimately show ?thesis using repeats_iff [of "nat p" "nat reps" toks] assms(1,2) by simp
qed

lemma repeats_long: "repeats toks p n \<Longrightarrow> p * n \<le> length toks"
  by (auto simp: repeats_def length_concat_replicate)

lemma repetition_scan_eq:
  assumes "0 < lo" "1 < reps"
  shows "repetition_scan toks reps [lo..hi] = Inr (\<exists>p \<in> {lo..hi}. repeats toks (nat p) (nat reps))"
  using assms(1)
proof (induction "nat (hi + 1 - lo)" arbitrary: lo)
  case 0
  then show ?case by simp
next
  case (Suc k)
  then have le: "lo \<le> hi" by simp
  have step: "[lo..hi] = lo # [lo + 1..hi]" "{lo..hi} = insert lo {lo + 1..hi}" using le by (auto simp: upto_rec1)
  show ?case
  proof (cases "int (length toks) < lo * reps")
    case True
    have "\<not> repeats toks (nat p) (nat reps)" if "p \<in> {lo..hi}" for p
    proof
      assume "repeats toks (nat p) (nat reps)"
      then have "nat p * nat reps \<le> length toks" by (rule repeats_long)
      then have "p * reps \<le> int (length toks)" using that Suc.prems assms(2) by (simp add: nat_mult_distrib [symmetric])
      moreover have "lo * reps \<le> p * reps" using that assms(2) by (intro mult_right_mono) auto
      ultimately show False using True by simp
    qed
    with True step(1) show ?thesis by auto
  next
    case False
    from Suc.hyps(1) [of "lo + 1"] Suc.hyps(2) Suc.prems
    have "repetition_scan toks reps [lo + 1..hi] = Inr (\<exists>p \<in> {lo + 1..hi}. repeats toks (nat p) (nat reps))" by simp
    with False step has_repeating_pattern_eq [of lo reps toks] Suc.prems assms(2) show ?thesis by simp
  qed
qed

lemma repetition_result: "\<exists>b. check_sequence_repetition toks ps = Inr b"
  using repetition_scan_eq [of "min_pattern_size ps" "min_count ps" toks "max_pattern_size ps"]
    repetition_scan_eq [of 1 "min_count ps" toks "max_pattern_size ps"]
  by (auto simp: check_sequence_repetition_def Let_def)

text \<open>C23: The repetition detector never fails, and stops a request exactly when its output ends with
  \<open>min_count\<close> (at least two) copies of a pattern whose length lies between the two bounds; bounds that make
  no sense switch it off.\<close>

theorem check_sequence_repetition_iff:
  "check_sequence_repetition toks ps
     = Inr (2 \<le> min_count ps \<and> (\<exists>p \<in> {max 1 (min_pattern_size ps)..max_pattern_size ps}. repeats toks (nat p) (nat (min_count ps))))"
proof -
  define lo where "lo = max 1 (min_pattern_size ps)"
  have lo: "(if min_pattern_size ps \<le> 0 then 1 else min_pattern_size ps) = lo" "0 < lo" by (auto simp: lo_def)
  show ?thesis unfolding check_sequence_repetition_def Let_def lo(1) lo_def [symmetric]
    using repetition_scan_eq [OF lo(2), of "min_count ps" toks "max_pattern_size ps"] lo(2) by (auto simp del: repetition_scan.simps)
qed

section \<open>Stopping\<close>

text \<open>What appending tokens never changes.\<close>

definition same_request :: "request \<Rightarrow> request \<Rightarrow> bool" where
  "same_request r r' \<longleftrightarrow> request_id r' = request_id r \<and> priority r' = priority r \<and> arrival_time r' = arrival_time r \<and>
     client_index r' = client_index r \<and> resumable r' = resumable r \<and> pooling r' = pooling r \<and>
     num_computed_tokens r' = num_computed_tokens r \<and> num_output_placeholders r' = num_output_placeholders r \<and>
     num_prompt_tokens r' = num_prompt_tokens r \<and> sampling r' = sampling r \<and> mm_features r' = mm_features r \<and>
     spec_token_ids r' = spec_token_ids r"

lemma same_request_trans [trans]: "same_request r r1 \<Longrightarrow> same_request r1 r2 \<Longrightarrow> same_request r r2"
  by (simp add: same_request_def)

lemma check_stop_ok:
  assumes "\<not> pooling r" "sampling r = Some sp" "output_token_ids r \<noteq> []"
  shows "\<exists>b r'. check_stop max_len r = Inr (b, r') \<and> same_request r r' \<and> all_token_ids r' = all_token_ids r \<and>
    output_token_ids r' = output_token_ids r \<and>
    (if b then is_finished (status r') else r' = r \<and> (num_output_tokens r < min_tokens sp \<or> num_tokens r < max_len))"
proof (cases "repetition_detection sp")
  case None
  with assms show ?thesis
    by (auto simp: check_stop_def Let_def same_request_def is_finished_def less_request_status_def not_le)
next
  case (Some ps)
  obtain b where "check_sequence_repetition (output_token_ids r) ps = Inr b"
    using repetition_result by blast
  with Some assms show ?thesis
    by (cases b) (auto simp: check_stop_def Let_def same_request_def is_finished_def less_request_status_def not_le)
qed

lemma append_fields [simp]: "all_token_ids (append_output_token_id h t r) = all_token_ids r @ [t]"
  "output_token_ids (append_output_token_id h t r) = output_token_ids r @ [t]"
  "status (append_output_token_id h t r) = status r" "same_request r (append_output_token_id h t r)"
  "num_tokens (append_output_token_id h t r) = num_tokens r + 1" "num_output_tokens (append_output_token_id h t r) = num_output_tokens r + 1"
  by (simp_all add: append_output_token_id_def update_block_hashes_def same_request_def num_tokens_def num_output_tokens_def)

lemma append_genuine:
  "kv_request.truncate (append_output_token_id h t r) = with_token h t (kv_request.truncate r)"
  by (simp add: append_output_token_id_def update_block_hashes_def with_token_def Let_def kv_request.defs)

lemma req_ok_append:
  assumes "req_ok c caching r" "caching \<longrightarrow> hasher_ok (hash_new c) bs" "num_tokens r + 1 < model_len c"
  shows "req_ok c caching (append_output_token_id (hash_new c) t r)"
proof -
  let ?r = "append_output_token_id (hash_new c) t r"
  have same: "same_request r ?r" by simp
  have "genuine (hash_new c) (kv_request.truncate ?r)" if caching
  proof -
    have "mm_features (kv_request.truncate r) = []" "genuine (hash_new c) (kv_request.truncate r)"
      using that assms(1) by (simp_all add: req_ok_def) (simp add: kv_request.defs)
    with that assms(2) show ?thesis unfolding append_genuine hasher_ok_def by blast
  qed
  with same assms(1,3) show ?thesis
    by (simp add: req_ok_def same_request_def)
qed

lemma append_one:
  assumes "req_ok c caching r" "caching \<longrightarrow> hasher_ok (hash_new c) bs"
  obtains b r2 where "check_stop (model_len c) (append_output_token_id (hash_new c) t r) = Inr (b, r2)" "same_request r r2"
    "all_token_ids r2 = all_token_ids r @ [t]" "output_token_ids r2 = output_token_ids r @ [t]" "b \<Longrightarrow> is_finished (status r2)"
    "\<not> b \<Longrightarrow> r2 = append_output_token_id (hash_new c) t r \<and> req_ok c caching r2"
proof -
  let ?r = "append_output_token_id (hash_new c) t r"
  from assms(1) obtain sp where sp: "\<not> pooling r" "sampling r = Some sp" "num_prompt_tokens r + min_tokens sp \<le> model_len c"
    "num_tokens r = num_prompt_tokens r + num_output_tokens r" by (auto simp: req_ok_def)
  have same: "same_request r ?r" by simp
  then have "\<not> pooling ?r" "sampling ?r = Some sp" "output_token_ids ?r \<noteq> []" using sp(1,2) by (simp_all add: same_request_def)
  from check_stop_ok [OF this, of "model_len c"] obtain b r2 where
    r2: "check_stop (model_len c) ?r = Inr (b, r2)" "same_request ?r r2" "all_token_ids r2 = all_token_ids ?r"
      "output_token_ids r2 = output_token_ids ?r"
      "if b then is_finished (status r2) else r2 = ?r \<and> (num_output_tokens ?r < min_tokens sp \<or> num_tokens ?r < model_len c)" by blast
  have "req_ok c caching r2" if "\<not> b"
  proof -
    from that r2(5) have "r2 = ?r" "num_tokens r + 1 < model_len c" using sp(3,4) by auto
    with req_ok_append [OF assms] show ?thesis by simp
  qed
  with r2 same_request_trans [OF same r2(2)] that show thesis by (metis append_fields(1,2))
qed

text \<open>The kept tokens are the generated ones up to the one that stopped the request.\<close>

lemma append_tokens_ok:
  assumes "req_ok c caching r" "caching \<longrightarrow> hasher_ok (hash_new c) bs" "\<not> is_finished (status r)"
  shows "\<exists>kept stopped r'. append_tokens (hash_new c) (model_len c) toks r = Inr (kept, stopped, r') \<and>
    (\<exists>rest. toks = kept @ rest) \<and> same_request r r' \<and> all_token_ids r' = all_token_ids r @ kept \<and>
    output_token_ids r' = output_token_ids r @ kept \<and>
    (if stopped then is_finished (status r') \<and> kept \<noteq> [] else kept = toks \<and> status r' = status r \<and> req_ok c caching r')"
  using assms(1,3)
proof (induction toks arbitrary: r)
  case Nil
  then show ?case by (auto simp: same_request_def)
next
  case (Cons t ts)
  let ?r = "append_output_token_id (hash_new c) t r"
  obtain b r2 where r2: "check_stop (model_len c) ?r = Inr (b, r2)" "same_request r r2"
    "all_token_ids r2 = all_token_ids r @ [t]" "output_token_ids r2 = output_token_ids r @ [t]" "b \<Longrightarrow> is_finished (status r2)"
    "\<not> b \<Longrightarrow> r2 = ?r \<and> req_ok c caching r2"
    by (rule append_one [OF Cons.prems(1) assms(2), of t]) blast
  show ?case
  proof (cases b)
    case True
    with r2 show ?thesis by (auto simp: ebind_def)
  next
    case False
    then have eq: "r2 = ?r" "req_ok c caching r2" using r2(6) by blast+
    with Cons.prems(2) have "\<not> is_finished (status r2)" by simp
    from Cons.IH [OF eq(2) this] obtain kept stopped r' where
      run: "append_tokens (hash_new c) (model_len c) ts r2 = Inr (kept, stopped, r')" "\<exists>rest. ts = kept @ rest" "same_request r2 r'"
        "all_token_ids r' = all_token_ids r2 @ kept" "output_token_ids r' = output_token_ids r2 @ kept"
        "if stopped then is_finished (status r') \<and> kept \<noteq> [] else kept = ts \<and> status r' = status r2 \<and> req_ok c caching r'" by blast
    have "status r2 = status r" using eq(1) by simp
    with run(2-6) r2(3,4) same_request_trans [OF r2(2) run(3)] have
      "(\<exists>rest. t # ts = (t # kept) @ rest) \<and> same_request r r' \<and> all_token_ids r' = all_token_ids r @ (t # kept) \<and>
       output_token_ids r' = output_token_ids r @ (t # kept) \<and>
       (if stopped then is_finished (status r') \<and> t # kept \<noteq> [] else t # kept = t # ts \<and> status r' = status r \<and> req_ok c caching r')" by simp
    moreover have "append_tokens (hash_new c) (model_len c) (t # ts) r = Inr (t # kept, stopped, r')"
      using r2(1) False run(1) by (simp add: ebind_def)
    ultimately show ?thesis by blast
  qed
qed

end
