(* ===== verification/SchedStep.thy ===== *)
theory SchedStep
  imports SchedFinish SchedStop
begin

text \<open>
  What happens between two passes: aborted requests leave both queues and the cache, and the output of the
  model is taken in. Under the contract of the model runner no call fails, and the invariant is back
  after the update.
\<close>

declare map_of_eq_Some_iff [simp del]

section \<open>Finishing requests\<close>

definition same_lists :: "scheduler \<Rightarrow> scheduler \<Rightarrow> bool" where
  "same_lists s s' \<longleftrightarrow> config s' = config s \<and> running s' = running s \<and> waiting s' = waiting s \<and>
     prev_step_scheduled s' = prev_step_scheduled s \<and> pause s' = pause s \<and> enable_sd s' = enable_sd s \<and> rank_of s' = rank_of s"

lemma same_lists_refl [simp]: "same_lists s s"
  by (simp add: same_lists_def)

lemma same_lists_trans [trans]: "same_lists s s1 \<Longrightarrow> same_lists s1 s2 \<Longrightarrow> same_lists s s2"
  by (simp add: same_lists_def)

lemma same_lists_waiting: "same_lists s s' \<Longrightarrow> wlist s' = wlist s \<and> wgood s' = wgood s"
  by (simp add: same_lists_def wlist_def wgood_def)

lemma remove_all_filter: "distinct xs \<Longrightarrow> remove_all xs items = filter (\<lambda>x. x \<notin> set items) xs"
  by (auto simp: remove_all_def distinct_remove1_removeAll removeAll_filter_not_eq intro!: filter_cong split: list.split)

abbreviation without :: "string list \<Rightarrow> string list \<Rightarrow> string list" where
  "without xs ys \<equiv> filter (\<lambda>r. r \<notin> set xs) ys"

lemma without_Cons: "without (x # xs) ys = without xs (removeAll x ys)"
  by (induction ys) auto

lemma finish_marks_all:
  assumes "state_ok fly R W s" "is_finished st" "distinct xs" "set xs \<subseteq> set (request_ids s)"
  shows "\<exists>s'. ofold (finish_marks st) xs s = ok s' \<and> state_ok fly (without xs R) (without xs W) s' \<and> same_lists s s' \<and>
    request_ids s' = without xs (request_ids s) \<and> (\<forall>r. r \<notin> set xs \<longrightarrow> objs s' r = objs s r) \<and>
    set (finished_req_ids s') = set xs \<union> set (finished_req_ids s)"
  using assms(1,3,4)
proof (induction xs arbitrary: R W s)
  case Nil
  then show ?case by simp
next
  case (Cons x xs)
  let ?f = "\<lambda>r. r\<lparr>status := st\<rparr>"
  have known: "x \<in> set (request_ids s)" using Cons.prems(3) by simp
  have "request_id (?f (objs s x)) = x" using request_at_of [OF Cons.prems(1), of x] known by (simp add: request_at_def)
  moreover have "is_finished (status (?f (objs s x)))" using assms(2) by simp
  ultimately obtain s1 where s1: "free_finished_request x (upd_req x ?f s) = ok s1" "state_ok fly (removeAll x R) (removeAll x W) s1"
    "request_ids s1 = remove1 x (request_ids s)" "objs s1 = (objs s)(x := ?f (objs s x))" "config s1 = config s"
    "running s1 = running s" "waiting s1 = waiting s" "prev_step_scheduled s1 = prev_step_scheduled s" "pause s1 = pause s"
    "enable_sd s1 = enable_sd s" "finished_req_ids s1 = List.insert x (finished_req_ids s)"
    using free_finished_ok [OF Cons.prems(1) known, of ?f] by metis
  have dist: "distinct (request_ids s)" using Cons.prems(1) by (simp add: state_ok_def parts_def)
  then have ids: "request_ids s1 = removeAll x (request_ids s)" using s1(3) by (simp add: distinct_remove1_removeAll)
  have "distinct xs" "set xs \<subseteq> set (request_ids s1)" using Cons.prems(2,3) ids by auto
  from Cons.IH [OF s1(2) this] obtain s' where s': "ofold (finish_marks st) xs s1 = ok s'"
    "state_ok fly (without xs (removeAll x R)) (without xs (removeAll x W)) s'" "same_lists s1 s'"
    "request_ids s' = without xs (request_ids s1)" "\<forall>r. r \<notin> set xs \<longrightarrow> objs s' r = objs s1 r"
    "set (finished_req_ids s') = set xs \<union> set (finished_req_ids s1)" by blast
  have "rank_of s1 = rank_of s" using s1(4) by (auto simp: rank_of_def)
  then have "same_lists s s1" using s1 by (simp add: same_lists_def)
  with s'(3) have "same_lists s s'" by (metis same_lists_trans)
  moreover have "ofold (finish_marks st) (x # xs) s = ok s'" using s1(1) s'(1) by (simp add: finish_marks_def)
  moreover have "request_ids s' = without (x # xs) (request_ids s)" unfolding without_Cons s'(4) ids by (rule refl)
  moreover have "\<forall>r. r \<notin> set (x # xs) \<longrightarrow> objs s' r = objs s r" using s'(5) s1(4) by simp
  moreover have "set (finished_req_ids s') = set (x # xs) \<union> set (finished_req_ids s)" using s'(6) s1(11) by auto
  ultimately show ?case using s'(2) unfolding without_Cons by blast
qed

text \<open>The requests a call finishes: the known ones among those named.\<close>

definition named :: "string list option \<Rightarrow> scheduler \<Rightarrow> string list" where
  "named rids s = (case rids of None \<Rightarrow> request_ids s | Some rs \<Rightarrow> filter (\<lambda>r. r \<in> set (request_ids s)) (remdups rs))"

lemma not_finished:
  assumes "state_ok fly R W s" "rid \<in> set (request_ids s)"
  shows "\<not> is_finished (status (objs s rid))" "rid \<in> set R \<longleftrightarrow> status (objs s rid) = RUNNING"
proof -
  from request_at_of [OF assms(1), of rid] known [OF assms(1)] assms(2)
  have "running_ok (fly rid) (kv s) rid (objs s rid) \<and> rid \<in> set R \<or> waiting_ok (objs s rid) \<and> rid \<in> set W" by (auto simp: request_at_def)
  moreover have "set R \<inter> set W = {}" using assms(1) by (simp add: state_ok_def parts_def)
  ultimately show "\<not> is_finished (status (objs s rid))" "rid \<in> set R \<longleftrightarrow> status (objs s rid) = RUNNING"
    by (auto simp: running_ok_def waiting_ok_def is_finished_def less_request_status_def)
qed

lemma finish_requests_ok:
  assumes ok: "state_ok fly (running s) (wlist s) s" and good: "wgood s" and st: "is_finished st"
  obtains s' where "finish_requests rids st s = ok (map (\<lambda>r. (r, client_index (objs s' r))) (named rids s), s')"
    "state_ok fly (running s') (wlist s') s'" "wgood s'" "running s' = without (named rids s) (running s)"
    "wlist s' = without (named rids s) (wlist s)" "request_ids s' = without (named rids s) (request_ids s)"
    "config s' = config s" "prev_step_scheduled s' = prev_step_scheduled s" "pause s' = pause s" "enable_sd s' = enable_sd s"
    "\<And>r. r \<notin> set (named rids s) \<Longrightarrow> objs s' r = objs s r"
    "set (finished_req_ids s') = set (named rids s) \<union> set (finished_req_ids s)"
proof -
  let ?gone = "named rids s"
  have d: "distinct (running s)" "distinct (request_ids s)" "set (running s) \<union> set (wlist s) = set (request_ids s)"
    using ok by (simp_all add: state_ok_def parts_def)
  have gone: "distinct ?gone" "set ?gone \<subseteq> set (request_ids s)" using d(2) by (auto simp: named_def split: option.split)
  define ids where "ids = (case rids of None \<Rightarrow> request_ids s | Some rs \<Rightarrow> remdups rs)"
  have valid: "filter (\<lambda>rid. rid \<in> set (request_ids s) \<and> \<not> is_finished (status (objs s rid))) ids = ?gone"
    using not_finished(1) [OF ok] by (auto simp: ids_def named_def filter_id_conv intro!: filter_cong split: option.split)
  define run where "run = filter (\<lambda>rid. status (objs s rid) = RUNNING) ?gone"
  define wait where "wait = filter (\<lambda>rid. status (objs s rid) \<noteq> RUNNING) ?gone"
  define streaming where "streaming = filter (\<lambda>rid. status (objs s rid) = WAITING_FOR_STREAMING_REQ) wait"
  define s1 where "s1 = s\<lparr>running := remove_all (running s) run,
       waiting := (if wait = [] then waiting s else remove_requests (rank_of s) (set wait) (waiting s)),
       num_waiting_for_streaming := num_waiting_for_streaming s - int (length streaming)\<rparr>"
  have status: "r \<in> set (running s) \<longleftrightarrow> status (objs s r) = RUNNING" if "r \<in> set ?gone" for r
    using not_finished(2) [OF ok] gone(2) that by blast
  have disj: "set (running s) \<inter> set (wlist s) = {}" using ok by (simp add: state_ok_def parts_def)
  have run: "running s1 = without ?gone (running s)"
    using status by (auto simp: s1_def remove_all_filter [OF d(1)] run_def intro!: filter_cong)
  have good': "queue_good (rank_of s) (sched_policy (config s)) (waiting s)" using good by (simp add: wgood_def)
  have rank: "rank_of s1 = rank_of s" by (simp add: s1_def rank_of_def)
  have "queue_iter (rank_of s) (waiting s1) = without wait (wlist s)" "queue_good (rank_of s) (sched_policy (config s)) (waiting s1)"
    using wq.remove_all [OF good', of "set wait"] good' by (auto simp: s1_def wlist_def)
  moreover have "without wait (wlist s) = without ?gone (wlist s)"
    using status disj by (intro filter_cong) (auto simp: wait_def)
  ultimately have w: "wlist s1 = without ?gone (wlist s)" "wgood s1"
    using rank by (simp_all add: wlist_def wgood_def) (simp add: s1_def)
  have "state_ok fly (running s) (wlist s) s1" by (rule same_at_finish [OF ok]) (simp_all add: s1_def)
  moreover have "set ?gone \<subseteq> set (request_ids s1)" using gone(2) by (simp add: s1_def)
  ultimately obtain s2 where s2: "ofold (finish_marks st) ?gone s1 = ok s2"
    "state_ok fly (without ?gone (running s)) (without ?gone (wlist s)) s2" "same_lists s1 s2"
    "request_ids s2 = without ?gone (request_ids s1)" "\<forall>r. r \<notin> set ?gone \<longrightarrow> objs s2 r = objs s1 r"
    "set (finished_req_ids s2) = set ?gone \<union> set (finished_req_ids s1)"
    using finish_marks_all [OF _ st gone(1)] by blast
  have "finish_requests rids st s = ok (map (\<lambda>r. (r, client_index (objs s2 r))) ?gone, s2)"
    using st s2(1) unfolding finish_requests_def Let_def ids_def [symmetric] valid run_def [symmetric] wait_def [symmetric]
      streaming_def [symmetric] s1_def [symmetric] by simp
  moreover have s1: "config s1 = config s" "request_ids s1 = request_ids s" "objs s1 = objs s" "finished_req_ids s1 = finished_req_ids s"
    "prev_step_scheduled s1 = prev_step_scheduled s" "pause s1 = pause s" "enable_sd s1 = enable_sd s" by (simp_all add: s1_def)
  moreover have "wlist s2 = wlist s1" "wgood s2 = wgood s1" using same_lists_waiting [OF s2(3)] by simp_all
  ultimately show thesis using s2 run w that [of s2] by (simp add: same_lists_def)
qed

lemma fresh_resumes_fewer:
  assumes "fresh_resumes s" "set (wlist s') \<subseteq> set (wlist s)" "\<And>r. r \<in> set (wlist s') \<Longrightarrow> objs s' r = objs s r"
    "prev_step_scheduled s' = prev_step_scheduled s"
  shows "fresh_resumes s'"
  using assms unfolding fresh_resumes_def by (metis subsetD)

text \<open>While an output is in flight, and between two passes, requests may be finished.\<close>

lemma finish_flying:
  assumes fly: "flying out s" and st: "is_finished st"
  obtains res s' where "finish_requests rids st s = ok (res, s')" "map fst res = named rids s" "flying out s'"
    "request_ids s' = without (named rids s) (request_ids s)" "config s' = config s" "pause s' = pause s" "enable_sd s' = enable_sd s"
    "\<And>r. r \<notin> set (named rids s) \<Longrightarrow> objs s' r = objs s r"
proof -
  from fly have f: "state_ok (fly_of out) (running s) (wlist s) s" "wgood s" "fresh_resumes s" by (simp_all add: flying_def)
  obtain s' where s': "finish_requests rids st s = ok (map (\<lambda>r. (r, client_index (objs s' r))) (named rids s), s')"
    "state_ok (fly_of out) (running s') (wlist s') s'" "wgood s'" "running s' = without (named rids s) (running s)"
    "wlist s' = without (named rids s) (wlist s)" "request_ids s' = without (named rids s) (request_ids s)"
    "config s' = config s" "prev_step_scheduled s' = prev_step_scheduled s" "pause s' = pause s" "enable_sd s' = enable_sd s"
    "\<And>r. r \<notin> set (named rids s) \<Longrightarrow> objs s' r = objs s r"
    by (rule finish_requests_ok [OF f(1,2) st]) blast
  have "fresh_resumes s'" by (rule fresh_resumes_fewer [OF f(3)]) (auto simp: s'(5,8,11))
  moreover have "\<forall>(rid, n) \<in> set (num_scheduled_tokens out). 0 < n \<and> (rid \<in> set (request_ids s') \<longrightarrow> rid \<in> set (running s'))"
    using fly unfolding flying_def s'(4,6) by fastforce
  ultimately have "flying out s'" using fly s'(2,3) by (simp add: flying_def)
  with s' show thesis by (intro that [OF s'(1)]) (simp_all add: comp_def)
qed

lemma finish_idle:
  assumes idle: "sched_ok s" and st: "is_finished st"
  obtains res s' where "finish_requests rids st s = ok (res, s')" "map fst res = named rids s" "sched_ok s'"
    "request_ids s' = without (named rids s) (request_ids s)" "config s' = config s" "pause s' = pause s" "enable_sd s' = enable_sd s"
proof -
  from idle have f: "state_ok (\<lambda>_. None) (running s) (wlist s) s" "wgood s" "fresh_resumes s" by (simp_all add: sched_ok_def)
  obtain s' where s': "finish_requests rids st s = ok (map (\<lambda>r. (r, client_index (objs s' r))) (named rids s), s')"
    "state_ok (\<lambda>_. None) (running s') (wlist s') s'" "wgood s'" "wlist s' = without (named rids s) (wlist s)"
    "request_ids s' = without (named rids s) (request_ids s)"
    "config s' = config s" "prev_step_scheduled s' = prev_step_scheduled s" "pause s' = pause s" "enable_sd s' = enable_sd s"
    "\<And>r. r \<notin> set (named rids s) \<Longrightarrow> objs s' r = objs s r"
    by (rule finish_requests_ok [OF f(1,2) st]) blast
  have "fresh_resumes s'" by (rule fresh_resumes_fewer [OF f(3)]) (auto simp: s'(4,7,10))
  with s' show thesis by (intro that [OF s'(1)]) (simp_all add: comp_def sched_ok_def)
qed

end
