(* ===== verification/SchedOutput.thy ===== *)
theory SchedOutput
  imports SchedStep
begin

text \<open>
  Taking in the output of the model: under the contract of the model runner no call fails, each request in
  flight lands, stopped requests are freed, and the invariant is back after the update.
\<close>

declare map_of_eq_Some_iff [simp del]

text \<open>The contract of the model runner: a request has at most one token more than its drafts, and none only
  while its prompt is not completely computed.\<close>

definition runner_ok :: "sched_output \<Rightarrow> scheduler \<Rightarrow> model_output \<Rightarrow> bool" where
  "runner_ok out s mo \<longleftrightarrow> pooler_outputs mo = None \<and>
     (\<forall>rid \<in> set (dict_keys (num_scheduled_tokens out)). rid \<in> set (request_ids s) \<longrightarrow>
        (case map_of (req_id_to_index mo) rid of
           None \<Rightarrow> False
         | Some i \<Rightarrow> i < length (sampled_token_ids mo) \<and>
             (let g = sampled_token_ids mo ! i in
              length g \<le> Suc (drafts_of out rid) \<and> (g = [] \<longrightarrow> num_computed_tokens (objs s rid) < num_tokens (objs s rid)))))"

lemma request_self [simp]: "r\<lparr>num_output_placeholders := num_output_placeholders r\<rparr> = r" "r\<lparr>num_computed_tokens := num_computed_tokens r\<rparr> = r"
  for r :: request
  by simp_all

lemma take_back:
  assumes "num_output_placeholders r = 0" "0 \<le> num_computed_tokens r" "0 < num_tokens r" "g \<noteq> []"
    and "num_computed_tokens r \<le> num_tokens r + int d" "0 < d \<longrightarrow> num_computed_tokens r = num_tokens r + int d"
    and "length g \<le> Suc d" "d = (case spec of None \<Rightarrow> 0 | Some ts \<Rightarrow> length ts)"
  obtains c where "take_back_rejected spec g r = r\<lparr>num_computed_tokens := c\<rparr>" "0 \<le> c" "c \<le> num_computed_tokens r"
    "c < num_tokens r + int (length g)"
proof (cases "d = 0")
  case True
  then have "take_back_rejected spec g r = r\<lparr>num_computed_tokens := num_computed_tokens r\<rparr>"
    using assms(8) by (auto simp: take_back_rejected_def split: option.splits list.splits)
  moreover have "num_computed_tokens r < num_tokens r + int (length g)" using True assms(4,5) by (cases g) auto
  ultimately show thesis using that assms(2) by blast
next
  case False
  define c where "c = num_computed_tokens r - (int d - (int (length g) - 1))"
  obtain t ts where spec: "spec = Some (t # ts)" "int (length (t # ts)) = int d"
    using False assms(8) by (auto split: option.splits simp: neq_Nil_conv)
  have full: "num_computed_tokens r = num_tokens r + int d" using False assms(6) by simp
  have "take_back_rejected spec g r = r\<lparr>num_computed_tokens := c\<rparr>"
    using spec(2) full assms(1,3,4) unfolding take_back_rejected_def spec(1) by (simp add: Let_def c_def)
  moreover have "c < num_tokens r + int (length g)" "0 \<le> c" "c \<le> num_computed_tokens r"
    using full assms(3,4,7) by (cases g; simp add: c_def)+
  ultimately show thesis using that by blast
qed

section \<open>One request\<close>

text \<open>The fold over the scheduled requests: \<open>xs\<close> are still to be processed.\<close>

definition output_phase :: "sched_output \<Rightarrow> scheduler \<Rightarrow> (string \<times> int) list \<Rightarrow> output_pass \<Rightarrow> bool" where
  "output_phase out s0 xs op \<longleftrightarrow> (let s = osch op; R = without (stopped_running op) (running s) in
     state_ok (\<lambda>r. if r \<in> fst ` set xs then fly_of out r else None) R (wlist s) s \<and> fresh_resumes s \<and>
     stopped_preempted op = [] \<and> same_lists s0 s \<and>
     (\<forall>(rid, n) \<in> set xs. 0 < n \<and> objs s rid = objs s0 rid \<and> (rid \<in> set (request_ids s) \<longleftrightarrow> rid \<in> set (request_ids s0)) \<and>
        (rid \<in> set (request_ids s) \<longrightarrow> rid \<in> set R)))"

lemma state_ok_fly:
  "(\<And>r. r \<in> set R \<Longrightarrow> fly' r = fly r) \<Longrightarrow> state_ok fly R W s \<Longrightarrow> state_ok fly' R W s"
  by (simp add: state_ok_def request_at_def)

lemma rank_of_same: "same_request (objs s rid) r \<Longrightarrow> rank_of (upd_req rid (\<lambda>_. r) s) = rank_of s"
  by (simp add: same_request_def)

text \<open>A request that lands and goes on.\<close>

lemma landed_ok:
  assumes ok: "state_ok fly R W s" and rid: "rid \<in> set R" "fly rid = Some d"
    and r: "request_id r = rid" "status r = RUNNING" "req_ok (config s) (enable_caching (pool (kv s))) r"
    and c: "0 \<le> num_computed_tokens r" "num_computed_tokens r \<le> num_computed_tokens (objs s rid)" "num_computed_tokens r < num_tokens r"
  shows "state_ok (fly(rid := None)) R W (upd_req rid (\<lambda>_. r) s)"
proof (rule state_update [OF ok])
  have "rid \<notin> set W" using ok rid(1) by (auto simp: state_ok_def parts_def)
  moreover have "covers (kv s) rid (num_computed_tokens r)"
    using request_at_of [OF ok, of rid] rid(1) c(2) covers_mono by (fastforce simp: request_at_def running_ok_def)
  ultimately show "request_at (fly(rid := None)) R W (upd_req rid (\<lambda>_. r) s) rid"
    using rid(1) r c by (simp add: request_at_def running_ok_def)
qed simp

lemma upd_req_twice [simp]: "upd_req rid (\<lambda>_. r) (upd_req rid f s) = upd_req rid (\<lambda>_. r) s"
  by (simp add: upd_req_def)

text \<open>A request that lands with tokens: it goes on, or it has stopped.\<close>

lemma tokens_ok:
  assumes ok: "state_ok fly R W s" and rid: "rid \<in> set R" "fly rid = Some d"
    and g: "g \<noteq> []" "length g \<le> Suc d" and spec: "d = (case spec of None \<Rightarrow> 0 | Some ts \<Rightarrow> length ts)"
  obtains kept stopped r where "update_request_with_output rid g (upd_req rid (take_back_rejected spec g) s) = ok (kept, stopped, upd_req rid (\<lambda>_. r) s)"
    "request_id r = rid" "priority r = priority (objs s rid)" "arrival_time r = arrival_time (objs s rid)" "\<not> resumable r"
    "if stopped then is_finished (status r) else state_ok (fly(rid := None)) R W (upd_req rid (\<lambda>_. r) s)"
proof -
  let ?r0 = "objs s rid" and ?caching = "enable_caching (pool (kv s))"
  have known: "rid \<in> set (request_ids s)" using known [OF ok] rid(1) by blast
  from request_at_of [OF ok, of rid] known rid have at: "request_id ?r0 = rid" "req_ok (config s) ?caching ?r0" "running_ok (Some d) (kv s) rid ?r0"
    by (simp_all add: request_at_def)
  then have st: "status ?r0 = RUNNING" "num_output_placeholders ?r0 = 0" "0 < num_tokens ?r0" "0 \<le> num_computed_tokens ?r0"
    "num_computed_tokens ?r0 \<le> num_tokens ?r0 + int d" "0 < d \<longrightarrow> num_computed_tokens ?r0 = num_tokens ?r0 + int d"
    by (simp_all add: running_ok_def req_ok_def)
  obtain c where c: "take_back_rejected spec g ?r0 = ?r0\<lparr>num_computed_tokens := c\<rparr>" "0 \<le> c" "c \<le> num_computed_tokens ?r0"
    "c < num_tokens ?r0 + int (length g)" by (rule take_back [OF st(2,4,3) g(1) st(5,6) g(2) spec]) blast
  let ?r1 = "?r0\<lparr>num_computed_tokens := c\<rparr>"
  have hash: "?caching \<longrightarrow> hasher_ok (hash_new (config s)) (hash_block_size (pool (kv s)))"
    using ok by (simp add: state_ok_def cache_fits_def sync_config_def)
  have "req_ok (config s) ?caching ?r1" "\<not> is_finished (status ?r1)"
    using at(2) st(1) by (simp_all add: is_finished_def less_request_status_def)
  from append_tokens_ok [OF this(1) hash this(2), of g] obtain kept stopped r where
    r: "append_tokens (hash_new (config s)) (model_len (config s)) g ?r1 = Inr (kept, stopped, r)" "same_request ?r1 r"
      "all_token_ids r = all_token_ids ?r1 @ kept"
      "if stopped then is_finished (status r) \<and> kept \<noteq> [] else kept = g \<and> status r = status ?r1 \<and> req_ok (config s) ?caching r" by blast
  have "state_ok (fly(rid := None)) R W (upd_req rid (\<lambda>_. r) s)" if "\<not> stopped"
  proof (rule landed_ok [OF ok rid])
    have "num_tokens r = num_tokens ?r0 + int (length g)" using r(3,4) that by (simp add: num_tokens_def)
    then show "num_computed_tokens r < num_tokens r" using r(2) c(4) by (simp add: same_request_def)
  qed (use r(2,4) that c at(1) st(1) in \<open>simp_all add: same_request_def\<close>)
  moreover have "\<not> resumable ?r0" using at(2) by (simp add: req_ok_def)
  moreover have "update_request_with_output rid g (upd_req rid (take_back_rejected spec g) s) = ok (kept, stopped, upd_req rid (\<lambda>_. r) s)"
    using r(1) c(1) by (simp add: update_request_with_output_def)
  ultimately show thesis using r(2,4) at(1) that [of kept stopped r] by (simp add: same_request_def split: if_splits)
qed

lemma add_output_frame [simp]: "osch (add_output rid eco op) = osch op" "stopped_running (add_output rid eco op) = stopped_running op"
  "stopped_preempted (add_output rid eco op) = stopped_preempted op"
  by (simp_all add: add_output_def Let_def)

lemma output_phase_outputs [simp]: "output_phase out s0 xs (add_output rid eco op) = output_phase out s0 xs op"
  by (simp add: output_phase_def)

text \<open>One request lands: only its record, its flight and its place in the list of running requests change.\<close>

lemma output_phase_step:
  assumes ph: "output_phase out s0 ((rid, n) # xs) op" and new: "rid \<notin> fst ` set xs" and noW: "rid \<notin> set (wlist (osch op))"
    and lists: "same_lists (osch op) (osch op')" "stopped_preempted op' = []"
    and objs: "\<And>q. q \<noteq> rid \<Longrightarrow> objs (osch op') q = objs (osch op) q"
    and R: "without (stopped_running op') (running (osch op)) = R'" "set R' - {rid} = set (without (stopped_running op) (running (osch op))) - {rid}"
    and ids: "set (request_ids (osch op')) - {rid} = set (request_ids (osch op)) - {rid}"
    and ok: "state_ok (\<lambda>r. if r \<in> fst ` set xs then fly_of out r else None) R' (wlist (osch op)) (osch op')"
  shows "output_phase out s0 xs op'"
proof -
  let ?s = "osch op" and ?R = "without (stopped_running op) (running (osch op))"
  have fresh: "fresh_resumes ?s" and before: "same_lists s0 ?s"
    and rest: "\<forall>(q, m) \<in> set xs. 0 < m \<and> objs ?s q = objs s0 q \<and> (q \<in> set (request_ids ?s) \<longleftrightarrow> q \<in> set (request_ids s0)) \<and>
        (q \<in> set (request_ids ?s) \<longrightarrow> q \<in> set ?R)"
    using ph unfolding output_phase_def Let_def by simp_all
  have w: "wlist (osch op') = wlist ?s" "running (osch op') = running ?s" "prev_step_scheduled (osch op') = prev_step_scheduled ?s"
    using lists(1) same_lists_waiting [OF lists(1)] by (simp_all add: same_lists_def)
  have "q \<noteq> rid" if "q \<in> set (wlist ?s)" for q using that noW by blast
  then have "fresh_resumes (osch op')" using fresh objs unfolding fresh_resumes_def w by simp
  moreover have "same_lists s0 (osch op')" by (rule same_lists_trans [OF before lists(1)])
  moreover have "0 < m \<and> objs (osch op') q = objs s0 q \<and> (q \<in> set (request_ids (osch op')) \<longleftrightarrow> q \<in> set (request_ids s0)) \<and>
      (q \<in> set (request_ids (osch op')) \<longrightarrow> q \<in> set R')" if "(q, m) \<in> set xs" for q m
  proof -
    have "q \<noteq> rid" using that new by force
    moreover have "0 < m \<and> objs ?s q = objs s0 q \<and> (q \<in> set (request_ids ?s) \<longleftrightarrow> q \<in> set (request_ids s0)) \<and>
        (q \<in> set (request_ids ?s) \<longrightarrow> q \<in> set ?R)" using rest that by blast
    ultimately show ?thesis using objs R(2) ids by auto
  qed
  ultimately show ?thesis using lists(2) ok unfolding output_phase_def Let_def w R(1) by blast
qed

text \<open>The call on a known request, with the tokens \<open>g\<close> the model gave it.\<close>

lemma output_given:
  assumes mo: "runner_ok out s0 mo" and out: "rid \<in> set (dict_keys (num_scheduled_tokens out))" and pos: "0 < n"
    and s: "rid \<in> set (request_ids (osch op))" "rid \<in> set (request_ids s0)" "objs (osch op) rid = objs s0 rid"
    and r: "status (objs (osch op) rid) = RUNNING" "\<not> pooling (objs (osch op) rid)" "\<not> async_scheduling (config (osch op))"
    and spec: "spec_decode_enabled out \<or> scheduled_spec_decode_tokens out = []"
  obtains g spc where "length g \<le> Suc (drafts_of out rid)"
    "g = [] \<Longrightarrow> num_computed_tokens (objs (osch op) rid) < num_tokens (objs (osch op) rid)"
    "drafts_of out rid = (case spc of None \<Rightarrow> 0 | Some ts \<Rightarrow> length ts)"
    "process_output out mo (rid, n) op =
      obind (if g = [] then ok ([], False, osch op)
             else update_request_with_output rid g (upd_req rid (take_back_rejected spc g) (osch op))) (\<lambda>(kept, stopped, s2).
        obind (if stopped then stop_request rid RUNNING (op\<lparr>osch := s2\<rparr>) else ok (op\<lparr>osch := s2\<rparr>)) (\<lambda>op1.
          ok (if kept \<noteq> [] \<or> stopped
              then add_output rid \<lparr>out_req_id = rid, out_token_ids = kept,
                     out_finish_reason = (if stopped then get_finished_reason (status (objs s2 rid)) else None),
                     out_stop_reason = stop_reason (objs (osch op1) rid), out_num_cached = num_cached_tokens (objs (osch op1) rid)\<rparr> op1
              else op1)))"
proof -
  from mo out s obtain i where i: "map_of (req_id_to_index mo) rid = Some i" "i < length (sampled_token_ids mo)"
    "length (sampled_token_ids mo ! i) \<le> Suc (drafts_of out rid)"
    "sampled_token_ids mo ! i = [] \<Longrightarrow> num_computed_tokens (objs (osch op) rid) < num_tokens (objs (osch op) rid)" and pool: "pooler_outputs mo = None"
    unfolding runner_ok_def Let_def by (auto split: option.splits)
  define g where "g = sampled_token_ids mo ! i"
  have get: "(if sampled_token_ids mo = [] then ok [] else list_get (sampled_token_ids mo) i) = ok g"
    using i(2) by (auto simp: list_get_def g_def)
  define spc where "spc = (if spec_decode_enabled out then map_of (scheduled_spec_decode_tokens out) rid else None)"
  have d: "drafts_of out rid = (case spc of None \<Rightarrow> 0 | Some ts \<Rightarrow> length ts)" using spec by (auto simp: drafts_of_def spc_def)
  have fin: "\<not> is_finished (status (objs (osch op) rid))" using r(1) by (simp add: is_finished_def less_request_status_def)
  let ?s1 = "upd_req rid (take_back_rejected spc g) (osch op)"
  have noop: "?s1 = osch op" if "g = []"
  proof -
    have "take_back_rejected spc g (objs (osch op) rid) = objs (osch op) rid"
      using that by (auto simp: take_back_rejected_def split: option.split list.split)
    then show ?thesis by (simp add: upd_req_def)
  qed
  have "status (take_back_rejected spc g (objs (osch op) rid)) = RUNNING" "pooling (take_back_rejected spc g (objs (osch op) rid)) = False"
    using r(1,2) by (simp_all add: take_back_rejected_def Let_def split: option.split list.split)
  then have s1: "status (objs ?s1 rid) = RUNNING" "\<not> pooling (objs ?s1 rid)" by simp_all
  note call = process_output_def prod.case Let_def i(1) lookup_key_def option.case obind_simps get pool spc_def [symmetric] s1
  have "process_output out mo (rid, n) op =
      obind (if g = [] then ok ([], False, osch op)
             else update_request_with_output rid g (upd_req rid (take_back_rejected spc g) (osch op))) (\<lambda>(kept, stopped, s2).
        obind (if stopped then stop_request rid RUNNING (op\<lparr>osch := s2\<rparr>) else ok (op\<lparr>osch := s2\<rparr>)) (\<lambda>op1.
          ok (if kept \<noteq> [] \<or> stopped
              then add_output rid \<lparr>out_req_id = rid, out_token_ids = kept,
                     out_finish_reason = (if stopped then get_finished_reason (status (objs s2 rid)) else None),
                     out_stop_reason = stop_reason (objs (osch op1) rid), out_num_cached = num_cached_tokens (objs (osch op1) rid)\<rparr> op1
              else op1)))"
    unfolding call using pos s(1) fin r(3) noop by simp
  from that [OF i(3) [folded g_def] i(4) [folded g_def] d this] show thesis by simp
qed

text \<open>A stopped request leaves.\<close>

lemma stop_lands:
  assumes ph: "output_phase out s0 ((rid, n) # xs) op" and new: "rid \<notin> fst ` set xs" and known: "rid \<in> set (request_ids (osch op))"
    and r: "request_id r = rid" "priority r = priority (objs (osch op) rid)" "arrival_time r = arrival_time (objs (osch op) rid)"
      "\<not> resumable r" "is_finished (status r)"
  shows "\<exists>op'. stop_request rid RUNNING (op\<lparr>osch := upd_req rid (\<lambda>_. r) (osch op)\<rparr>) = ok op' \<and> output_phase out s0 xs op'"
proof -
  let ?s = "osch op" and ?R = "without (stopped_running op) (running (osch op))"
  let ?fly = "\<lambda>q. if q \<in> fst ` set ((rid, n) # xs) then fly_of out q else None"
  let ?fly' = "\<lambda>q. if q \<in> fst ` set xs then fly_of out q else None"
  have ok: "state_ok ?fly ?R (wlist ?s) ?s" and pre: "stopped_preempted op = []" and R: "rid \<in> set ?R"
    using ph known unfolding output_phase_def Let_def by simp_all
  have noW: "rid \<notin> set (wlist ?s)" using ok R by (auto simp: state_ok_def parts_def)
  have r': "request_id ((\<lambda>_. r) (objs ?s rid)) = rid" "is_finished (status ((\<lambda>_. r) (objs ?s rid)))" using r by simp_all
  obtain s' where s': "free_finished_request rid (upd_req rid (\<lambda>_. r) ?s) = ok s'" "state_ok ?fly (removeAll rid ?R) (removeAll rid (wlist ?s)) s'"
    "request_ids s' = remove1 rid (request_ids ?s)" "objs s' = (objs ?s)(rid := r)" "config s' = config ?s"
    "running s' = running ?s" "waiting s' = waiting ?s" "prev_step_scheduled s' = prev_step_scheduled ?s" "pause s' = pause ?s"
    "enable_sd s' = enable_sd ?s" by (rule free_finished_ok [OF ok known r']) blast
  have "rank_of s' = rank_of ?s" using r(2,3) unfolding rank_of_def s'(4) by auto
  then have same: "same_lists ?s s'" using s'(5-10) by (simp add: same_lists_def)
  let ?op = "op\<lparr>osch := s', stopped_running := List.insert rid (stopped_running op)\<rparr>"
  have "stop_request rid RUNNING (op\<lparr>osch := upd_req rid (\<lambda>_. r) ?s\<rparr>) = ok ?op"
    using s'(1) r(4) by (simp add: stop_request_def handle_stopped_request_def Let_def)
  moreover have "output_phase out s0 xs ?op"
  proof (rule output_phase_step [OF ph new noW, where R' = "removeAll rid ?R"])
    have "state_ok ?fly (removeAll rid ?R) (wlist ?s) s'" using s'(2) noW by (simp add: removeAll_id)
    moreover have "?fly' q = ?fly q" if "q \<in> set (removeAll rid ?R)" for q using that by simp
    ultimately have "state_ok ?fly' (removeAll rid ?R) (wlist ?s) s'" by (rule state_ok_fly [rotated])
    then show "state_ok ?fly' (removeAll rid ?R) (wlist ?s) (osch ?op)" by simp
    show "set (request_ids (osch ?op)) - {rid} = set (request_ids ?s) - {rid}"
      using s'(3) ok by (auto simp: set_remove1_eq state_ok_def parts_def)
    show "without (stopped_running ?op) (running ?s) = removeAll rid ?R"
      by (simp add: removeAll_filter_not_eq) (auto intro: filter_cong)
  qed (use same s'(4) pre in simp_all)
  ultimately show ?thesis by blast
qed

lemma process_output_ok:
  assumes ph: "output_phase out s0 ((rid, n) # xs) op" and mo: "runner_ok out s0 mo" and out: "rid \<in> set (dict_keys (num_scheduled_tokens out))"
    and spec: "spec_decode_enabled out \<or> scheduled_spec_decode_tokens out = []" and new: "rid \<notin> fst ` set xs"
  shows "\<exists>op'. process_output out mo (rid, n) op = ok op' \<and> output_phase out s0 xs op'"
proof -
  let ?s = "osch op" and ?R = "without (stopped_running op) (running (osch op))"
  let ?fly = "\<lambda>r. if r \<in> fst ` set ((rid, n) # xs) then fly_of out r else None"
  let ?fly' = "\<lambda>r. if r \<in> fst ` set xs then fly_of out r else None"
  have ok: "state_ok ?fly ?R (wlist ?s) ?s" and pre: "stopped_preempted op = []" and pos: "0 < n"
    and same: "objs ?s rid = objs s0 rid" "rid \<in> set (request_ids ?s) \<longleftrightarrow> rid \<in> set (request_ids s0)"
    and mem: "rid \<in> set (request_ids ?s) \<Longrightarrow> rid \<in> set ?R"
    using ph unfolding output_phase_def Let_def by simp_all
  have flys: "?fly' = ?fly(rid := None)" using new by auto
  have noW: "rid \<notin> set (wlist ?s)" if "rid \<in> set ?R" using ok that by (auto simp: state_ok_def parts_def)
  have stays: "output_phase out s0 xs op" if "state_ok ?fly' ?R (wlist ?s) ?s"
    using ph that unfolding output_phase_def Let_def by simp
  show ?thesis
  proof (cases "rid \<in> set (request_ids ?s)")
    case False
    then have "rid \<notin> set ?R" using known [OF ok] by blast
    then have "state_ok ?fly' ?R (wlist ?s) ?s" by (intro state_ok_fly [OF _ ok]) (auto simp: flys)
    from stays [OF this] show ?thesis using False pos by (simp add: process_output_def Let_def)
  next
    case True
    have R: "rid \<in> set ?R" by (rule mem [OF True])
    have at: "request_id (objs ?s rid) = rid" "status (objs ?s rid) = RUNNING" "0 \<le> num_computed_tokens (objs ?s rid)"
      "req_ok (config ?s) (enable_caching (pool (kv ?s))) (objs ?s rid)"
      using request_at_of [OF ok, of rid] R True by (simp_all add: request_at_def running_ok_def)
    have sync: "\<not> async_scheduling (config ?s)" and unpooled: "\<not> pooling (objs ?s rid)"
      using ok at(4) by (simp_all add: state_ok_def cache_fits_def sync_config_def req_ok_def)
    have fly: "?fly rid = Some (drafts_of out rid)" using out by (simp add: fly_of_def)
    obtain g spc where g: "length g \<le> Suc (drafts_of out rid)" "g = [] \<Longrightarrow> num_computed_tokens (objs ?s rid) < num_tokens (objs ?s rid)"
      "drafts_of out rid = (case spc of None \<Rightarrow> 0 | Some ts \<Rightarrow> length ts)"
      and call: "process_output out mo (rid, n) op =
      obind (if g = [] then ok ([], False, osch op)
             else update_request_with_output rid g (upd_req rid (take_back_rejected spc g) (osch op))) (\<lambda>(kept, stopped, s2).
        obind (if stopped then stop_request rid RUNNING (op\<lparr>osch := s2\<rparr>) else ok (op\<lparr>osch := s2\<rparr>)) (\<lambda>op1.
          ok (if kept \<noteq> [] \<or> stopped
              then add_output rid \<lparr>out_req_id = rid, out_token_ids = kept,
                     out_finish_reason = (if stopped then get_finished_reason (status (objs s2 rid)) else None),
                     out_stop_reason = stop_reason (objs (osch op1) rid), out_num_cached = num_cached_tokens (objs (osch op1) rid)\<rparr> op1
              else op1)))"
      using output_given [OF mo out pos True _ same(1) at(2) unpooled sync spec] same(2) True by blast
    show ?thesis
    proof (cases "g = []")
      case True
      have "state_ok ?fly' ?R (wlist ?s) (upd_req rid (\<lambda>_. objs ?s rid) ?s)"
        unfolding flys using landed_ok [OF ok R fly at(1,2,4)] at(3) g(2) True by simp
      then have "state_ok ?fly' ?R (wlist ?s) ?s" by (simp add: upd_req_def)
      from stays [OF this] show ?thesis using True by (simp add: call)
    next
      case False
      obtain kept stopped r where
        r: "update_request_with_output rid g (upd_req rid (take_back_rejected spc g) ?s) = ok (kept, stopped, upd_req rid (\<lambda>_. r) ?s)"
          "request_id r = rid" "priority r = priority (objs ?s rid)" "arrival_time r = arrival_time (objs ?s rid)" "\<not> resumable r"
          "if stopped then is_finished (status r) else state_ok (?fly(rid := None)) ?R (wlist ?s) (upd_req rid (\<lambda>_. r) ?s)"
        by (rule tokens_ok [OF ok R fly False g(1,3)]) blast
      let ?s2 = "upd_req rid (\<lambda>_. r) ?s"
      have "\<exists>op1. (if stopped then stop_request rid RUNNING (op\<lparr>osch := ?s2\<rparr>) else ok (op\<lparr>osch := ?s2\<rparr>)) = ok op1 \<and> output_phase out s0 xs op1"
      proof (cases stopped)
        case True
        then show ?thesis using stop_lands [OF ph new \<open>rid \<in> set (request_ids ?s)\<close> r(2-5)] r(6) by simp
      next
        case False
        have "rank_of ?s2 = rank_of ?s" using r(3,4) by simp
        then have "output_phase out s0 xs (op\<lparr>osch := ?s2\<rparr>)"
          using r(6) False pre by (intro output_phase_step [OF ph new noW [OF R], where R' = ?R]) (simp_all add: same_lists_def flys)
        with False show ?thesis by simp
      qed
      then obtain op1 where "(if stopped then stop_request rid RUNNING (op\<lparr>osch := ?s2\<rparr>) else ok (op\<lparr>osch := ?s2\<rparr>)) = ok op1"
        "output_phase out s0 xs op1" by blast
      with False r(1) show ?thesis by (simp add: call)
    qed
  qed
qed

section \<open>All requests\<close>

lemma process_all:
  assumes "output_phase out s0 xs op" "runner_ok out s0 mo" "fst ` set xs \<subseteq> set (dict_keys (num_scheduled_tokens out))"
    "spec_decode_enabled out \<or> scheduled_spec_decode_tokens out = []" "distinct (map fst xs)"
  shows "\<exists>op'. ofold (process_output out mo) xs op = ok op' \<and> output_phase out s0 [] op'"
  using assms(1,3,5)
proof (induction xs arbitrary: op)
  case (Cons x xs)
  obtain rid n where x: "x = (rid, n)" by (cases x)
  from process_output_ok [OF Cons.prems(1) [unfolded x] assms(2) _ assms(4)] Cons.prems(2,3) x
  obtain op1 where op1: "process_output out mo x op = ok op1" "output_phase out s0 xs op1" by auto
  from Cons.IH [OF op1(2)] Cons.prems(2,3) op1(1) show ?case by simp
qed simp

lemma update_from_output_ok:
  assumes fly: "flying out s" and mo: "runner_ok out s mo"
  obtains outs events s' where "update_from_output out mo s = ok (outs, events, s')" "sched_ok s'"
    "config s' = config s" "pause s' = pause s" "enable_sd s' = enable_sd s"
proof -
  let ?op = "\<lparr>osch = s, outputs = [], stopped_running = [], stopped_preempted = []\<rparr>"
  have f: "state_ok (fly_of out) (running s) (wlist s) s" "wgood s" "fresh_resumes s" "distinct (dict_keys (num_scheduled_tokens out))"
    "spec_decode_enabled out \<or> scheduled_spec_decode_tokens out = []"
    "\<forall>(rid, n) \<in> set (num_scheduled_tokens out). 0 < n \<and> (rid \<in> set (request_ids s) \<longrightarrow> rid \<in> set (running s))"
    using fly by (simp_all add: flying_def)
  have "(\<lambda>r. if r \<in> fst ` set (num_scheduled_tokens out) then fly_of out r else None) = fly_of out" by (auto simp: fly_of_def)
  then have "output_phase out s (num_scheduled_tokens out) ?op" using f by (simp add: output_phase_def Let_def case_prod_beta)
  from process_all [OF this mo _ f(5,4)] obtain op where
    op: "ofold (process_output out mo) (num_scheduled_tokens out) ?op = ok op" "output_phase out s [] op" by auto
  define s1 where "s1 = osch op"
  have ph: "state_ok (\<lambda>_. None) (without (stopped_running op) (running s1)) (wlist s1) s1" "fresh_resumes s1" "stopped_preempted op = []"
    "same_lists s s1" using op(2) by (simp_all add: output_phase_def Let_def s1_def)
  define s2 where "s2 = s1\<lparr>running := remove_all (running s1) (stopped_running op)\<rparr>"
  define k where "k = snd (take_kv_events (kv s2))"
  define s3 where "s3 = s2\<lparr>kv := k, finished_by_client := map_option (\<lambda>_. []) (finished_by_client s2)\<rparr>"
  have "distinct (running s)" using f(1) by (simp add: state_ok_def parts_def)
  then have run: "running s3 = without (stopped_running op) (running s1)"
    using ph(4) remove_all_filter by (simp add: s3_def s2_def same_lists_def)
  have s3: "config s3 = config s1" "objs s3 = objs s1" "request_ids s3 = request_ids s1" "kv s3 = k" "waiting s3 = waiting s1"
    "pause s3 = pause s1" "enable_sd s3 = enable_sd s1" "prev_step_scheduled s3 = prev_step_scheduled s1" by (simp_all add: s3_def s2_def)
  have "kv_reachable (kv s1)" using ph(1) by (simp add: state_ok_def cache_fits_def)
  then have "kv_rests (kv s1) (kv s3)" using rests(2) by (simp add: s3(4) k_def s2_def)
  from state_rests [OF ph(1) this s3(1-3)] have ok: "state_ok (\<lambda>_. None) (running s3) (wlist s1) s3" by (simp add: run)
  have "rank_of s3 = rank_of s1" by (rule rank_of_frame [OF s3(2)])
  then have w: "wlist s3 = wlist s1" "wgood s3 = wgood s1" by (simp_all add: wlist_def wgood_def s3)
  have "fresh_resumes s3" using ph(2) by (simp add: fresh_resumes_def w s3)
  moreover have "wgood s3" using f(2) w(2) same_lists_waiting [OF ph(4)] by simp
  ultimately have "sched_ok s3" using ok w(1) by (simp add: sched_ok_def)
  moreover have "\<exists>outs. update_from_output out mo s = ok (outs, fst (take_kv_events (kv s2)), s3)"
    using op(1) ph(3) by (auto simp: update_from_output_def Let_def s1_def [symmetric] s2_def [symmetric] k_def s3_def split: prod.split)
  ultimately show thesis using s3 ph(4) that by (auto simp: same_lists_def)
qed

end
