(* ===== verification/SchedEngine.thy ===== *)
theory SchedEngine
  imports SchedOutput EngineCore
begin

text \<open>
  The engine's life as a transition system: steps, requests that arrive, aborts, draft tokens, pausing,
  resets of the prefix cache and the switch for speculative decoding. The invariant of the scheduler
  holds in every reachable state, and none of the operations fails.
\<close>

declare map_of_eq_Some_iff [simp del]

section \<open>Operations between two passes\<close>

lemma sched_ok_update:
  assumes ok: "sched_ok s" and f: "\<And>r. request_id (f r) = request_id r" "\<And>r. priority (f r) = priority r"
    "\<And>r. arrival_time (f r) = arrival_time r" "\<And>r. status (f r) = status r" "\<And>r. num_computed_tokens (f r) = num_computed_tokens r"
    "\<And>r. num_tokens (f r) = num_tokens r" "\<And>c b r. req_ok c b (f r) = req_ok c b r"
  shows "sched_ok (upd_req rid f s)"
proof -
  from ok have s: "state_ok (\<lambda>_. None) (running s) (wlist s) s" "wgood s" "fresh_resumes s" by (simp_all add: sched_ok_def)
  have "request_at (\<lambda>_. None) (running s) (wlist s) (upd_req rid f s) rid"
    using request_at_of [OF s(1), of rid] by (simp add: request_at_def running_ok_def waiting_ok_def f)
  from state_update [OF s(1) this] have "state_ok (\<lambda>_. None) (running s) (wlist s) (upd_req rid f s)" by simp
  moreover have "rank_of (upd_req rid f s) = rank_of s" by (simp add: f)
  then have "wlist (upd_req rid f s) = wlist s" "wgood (upd_req rid f s) = wgood s" by (simp_all add: wlist_def wgood_def)
  ultimately show ?thesis using s(2,3) by (simp add: sched_ok_def fresh_resumes_def f)
qed

lemma set_draft_ok: "sched_ok s \<Longrightarrow> sched_ok (set_draft advance x s)"
  using sched_ok_update by (auto simp: set_draft_def split: prod.split)

lemma update_draft_ok: "sched_ok s \<Longrightarrow> sched_ok (update_draft_token_ids advance drafts s)"
proof -
  have "sched_ok s \<Longrightarrow> sched_ok (fold (set_draft advance) ds s)" for ds s
    by (induction ds arbitrary: s) (simp_all add: set_draft_ok)
  then show "sched_ok s \<Longrightarrow> ?thesis" by (simp add: update_draft_token_ids_def)
qed

lemma sched_ok_switches [simp]: "sched_ok (s\<lparr>pause := p\<rparr>) = sched_ok s" "sched_ok (s\<lparr>enable_sd := b\<rparr>) = sched_ok s"
  by (simp_all add: sched_ok_def state_ok_def cache_fits_def parts_def request_at_def wlist_def wgood_def fresh_resumes_def rank_of_def)

text \<open>A new request: its id is not in use, it has not started, and it fits the model.\<close>

definition fresh_request :: "request \<Rightarrow> scheduler \<Rightarrow> bool" where
  "fresh_request r s \<longleftrightarrow> request_id r \<notin> set (request_ids s) \<and> req_ok (config s) (enable_caching (pool (kv s))) r \<and>
     status r \<in> {WAITING, WAITING_FOR_FSM} \<and> num_computed_tokens r = 0"

lemma add_request_ok:
  assumes ok: "sched_ok s" and r: "fresh_request r s"
  obtains s' where "add_request r s = ok s'" "sched_ok s'" "request_ids s' = request_ids s @ [request_id r]" "running s' = running s"
    "set (wlist s') = insert (request_id r) (set (wlist s))" "objs s' = (objs s)(request_id r := r)" "config s' = config s"
    "pause s' = pause s" "enable_sd s' = enable_sd s"
proof -
  let ?rid = "request_id r"
  from ok have s: "state_ok (\<lambda>_. None) (running s) (wlist s) s" "wgood s" "fresh_resumes s" by (simp_all add: sched_ok_def)
  have d: "distinct (running s)" "distinct (wlist s)" "set (running s) \<inter> set (wlist s) = {}" "set (running s) \<union> set (wlist s) = set (request_ids s)"
    "distinct (request_ids s)" "length (running s) \<le> max_num_running_reqs (config s)" using s(1) by (simp_all add: state_ok_def parts_def)
  have new: "?rid \<notin> set (request_ids s)" "\<not> resumable r" using r by (simp_all add: fresh_request_def req_ok_def)
  then have out: "?rid \<notin> set (wlist s)" "?rid \<notin> set (running s)" using d(4) by blast+
  define s1 where "s1 = upd_req ?rid (\<lambda>_. r) s"
  define s' where "s' = s1\<lparr>waiting := queue_add (rank_of s1) ?rid (waiting s1), request_ids := request_ids s1 @ [?rid]\<rparr>"
  have call: "add_request r s = ok s'" using new by (simp add: add_request_def Let_def s1_def s'_def)
  have good: "queue_good (rank_of s) (sched_policy (config s)) (waiting s)" using s(2) by (simp add: wgood_def)
  have "\<forall>q \<in> set (queue_iter (rank_of s) (waiting s)). rank_of s1 q = rank_of s q"
    using out(1) by (auto simp: wlist_def s1_def rank_of_def)
  from queue_rank_agree [OF good this] have
    good1: "queue_good (rank_of s1) (sched_policy (config s)) (waiting s)" and iter1: "queue_iter (rank_of s1) (waiting s) = wlist s"
    by (simp_all add: wlist_def)
  have rank: "rank_of s' = rank_of s1" by (rule rank_of_frame) (simp add: s'_def)
  note add = wq.add [OF good1, of ?rid] wq.enter(1) [of "rank_of s1" "sched_policy (config s)" ?rid "wlist s"]
  have w: "mset (wlist s') = add_mset ?rid (mset (wlist s))" "wgood s'"
    using add rank iter1 by (simp_all add: wlist_def wgood_def s'_def s1_def)
  have sets: "set (wlist s') = insert ?rid (set (wlist s))" by (metis w(1) set_mset_mset set_mset_add_mset_insert)
  have "distinct (wlist s')" using w(1) out(1) d(2) by (metis distinct.simps(2) mset.simps(2) mset_eq_imp_distinct_iff)
  then have parts: "parts (running s) (wlist s') s'" using d out sets new by (auto simp: parts_def s'_def s1_def)
  have "request_at (\<lambda>_. None) (running s) (wlist s') s' ?rid"
    using request_at_of [OF s(1), of ?rid] out sets r by (auto simp: request_at_def s'_def s1_def waiting_ok_def fresh_request_def)
  then have ok': "state_ok (\<lambda>_. None) (running s) (wlist s') s'"
    using s(1) sets parts by (intro state_step [OF s(1)]) (auto simp: s'_def s1_def state_ok_def cache_fits_def kv_moves_refl)
  have "fresh_resumes s'" using s(3) sets out(1) r by (auto simp: fresh_resumes_def s'_def s1_def fresh_request_def)
  with ok' w(2) have "sched_ok s'" by (simp add: sched_ok_def) (simp add: s'_def s1_def)
  with call sets show thesis by (intro that [OF call]) (simp_all add: s'_def s1_def)
qed

section \<open>Resetting the prefix cache\<close>

lemma preempt_tokens: "preempt_request rid s = ok s' \<Longrightarrow> all_token_ids (objs s' r) = all_token_ids (objs s r)"
  by (auto simp: preempt_request_def free_kv_def obind_ok_iff Let_def upd_req_def split: if_splits prod.splits sum.splits)

lemma preempt_all_ok:
  assumes "state_ok fly (running s) (wlist s) s" "wgood s" "running s = rev rids"
  shows "\<exists>s'. preempt_all rids s = ok s' \<and> state_ok fly [] (wlist s') s' \<and> wgood s' \<and> running s' = [] \<and> config s' = config s \<and>
    request_ids s' = request_ids s \<and> pause s' = pause s \<and> enable_sd s' = enable_sd s \<and>
    set (wlist s') = set (running s) \<union> set (wlist s) \<and> (\<forall>r. all_token_ids (objs s' r) = all_token_ids (objs s r))"
  using assms
proof (induction rids arbitrary: s)
  case Nil
  then show ?case by simp
next
  case (Cons rid rids)
  let ?s0 = "s\<lparr>running := butlast (running s)\<rparr>"
  have d: "distinct (running s)" using Cons.prems(1) by (simp add: state_ok_def parts_def)
  have run: "running s = rev rids @ [rid]" using Cons.prems(3) by simp
  have w0: "wlist ?s0 = wlist s" "wgood ?s0 = wgood s" by (simp_all add: wlist_def wgood_def rank_of_def)
  have ok0: "state_ok fly (running s) (wlist ?s0) ?s0" unfolding w0 by (rule same_at_finish [OF Cons.prems(1)]) simp_all
  have good0: "wgood ?s0" using Cons.prems(2) w0 by simp
  have mem: "rid \<in> set (running s)" using run by simp
  obtain s1 where s1: "preempt_request rid ?s0 = ok s1" "state_ok fly (remove1 rid (running s)) (wlist s1) s1" "wgood s1" "same_base ?s0 s1"
    "running s1 = running ?s0" "set (wlist s1) = insert rid (set (wlist ?s0))" "status (objs s1 rid) = PREEMPTED"
    "\<And>r. r \<noteq> rid \<Longrightarrow> objs s1 r = objs ?s0 r"
    by (rule preempt_ok [OF ok0 good0 mem]) blast
  let ?f = "\<lambda>r. r\<lparr>num_output_placeholders := 0, discard_latest_async_tokens := True\<rparr>"
  let ?s2 = "upd_req rid ?f s1"
  have r1: "remove1 rid (running s) = rev rids" using d unfolding run by (simp add: remove1_append)
  have nt: "num_tokens (?f r) = num_tokens r" for r :: request by (simp add: num_tokens_def)
  have "kv_request.truncate (?f r) = kv_request.truncate r" for r :: request by (simp add: kv_request.defs)
  then have rq: "req_ok c b r \<Longrightarrow> req_ok c b (?f r)" for c b r by (simp add: req_ok_def nt num_output_tokens_def)
  have "request_at fly (rev rids) (wlist s1) ?s2 rid"
    using request_at_of [OF s1(2), of rid] rq nt by (simp add: request_at_def r1 running_ok_def waiting_ok_def cong: option.case_cong)
  then have ok2: "state_ok fly (rev rids) (wlist s1) ?s2" using s1(2) by (intro state_update) (simp_all add: r1)
  have "rank_of ?s2 = rank_of s1" by simp
  then have w2: "wlist ?s2 = wlist s1" "wgood ?s2 = wgood s1" by (simp_all add: wlist_def wgood_def)
  have run2: "running ?s2 = rev rids" using s1(5) run by simp
  from Cons.IH [of ?s2] ok2 s1(3) w2 run2 obtain s' where
    s': "preempt_all rids ?s2 = ok s'" "state_ok fly [] (wlist s') s'" "wgood s'" "running s' = []" "config s' = config ?s2"
      "request_ids s' = request_ids ?s2" "pause s' = pause ?s2" "enable_sd s' = enable_sd ?s2"
      "set (wlist s') = set (running ?s2) \<union> set (wlist ?s2)" "\<forall>r. all_token_ids (objs s' r) = all_token_ids (objs ?s2 r)" by auto
  have "preempt_all (rid # rids) s = ok s'" using s1(1) s'(1) by simp
  moreover have "set (wlist s') = set (running s) \<union> set (wlist s)" using s'(9) run2 w2(1) s1(6) w0(1) run by auto
  moreover have "all_token_ids (objs s' r) = all_token_ids (objs s r)" for r using s'(10) preempt_tokens [OF s1(1)] by simp
  ultimately show ?case using s'(2-8) s1(4) by (auto simp: same_base_def)
qed

lemma reset_ok:
  assumes ok: "sched_ok s"
  obtains b s' where "reset_scheduler_cache reset_running conn s = ok (b, s')" "sched_ok s'" "config s' = config s"
    "request_ids s' = request_ids s" "pause s' = pause s" "enable_sd s' = enable_sd s"
    "reset_running \<Longrightarrow> b = (\<not> conn) \<and> running s' = [] \<and> set (wlist s') = set (request_ids s) \<and> (\<forall>r. no_entry (kv s') r)"
    "\<And>r. all_token_ids (objs s' r) = all_token_ids (objs s r)"
proof -
  from ok have s: "state_ok (\<lambda>_. None) (running s) (wlist s) s" "wgood s" "fresh_resumes s" by (simp_all add: sched_ok_def)
  define preempted where "preempted = (if reset_running then obind (preempt_all (rev (running s)) s) (\<lambda>s1. ok (s1\<lparr>prev_step_scheduled := []\<rparr>)) else ok s)"
  obtain s1 where s1: "preempted = ok s1" "sched_ok s1" "config s1 = config s" "request_ids s1 = request_ids s" "pause s1 = pause s"
    "enable_sd s1 = enable_sd s" "reset_running \<Longrightarrow> running s1 = []" "\<And>r. all_token_ids (objs s1 r) = all_token_ids (objs s r)"
  proof (cases reset_running)
    case True
    from preempt_all_ok [OF s(1,2), of "rev (running s)"] obtain q where
      q: "preempt_all (rev (running s)) s = ok q" "state_ok (\<lambda>_. None) [] (wlist q) q" "wgood q" "running q = []" "config q = config s"
        "request_ids q = request_ids s" "pause q = pause s" "enable_sd q = enable_sd s" "\<forall>r. all_token_ids (objs q r) = all_token_ids (objs s r)" by auto
    let ?q = "q\<lparr>prev_step_scheduled := []\<rparr>"
    have w: "wlist ?q = wlist q" "wgood ?q = wgood q" by (simp_all add: wlist_def wgood_def rank_of_def)
    have "state_ok (\<lambda>_. None) [] (wlist q) ?q" by (rule same_at_finish [OF q(2)]) simp_all
    then have "sched_ok ?q" using q(3,4) by (simp add: sched_ok_def w) (simp add: fresh_resumes_def)
    then show thesis using q True by (intro that [of ?q]) (simp_all add: preempted_def)
  next
    case False
    then show thesis using ok by (intro that [of s]) (simp_all add: preempted_def)
  qed
  from s1(2) have ok1: "state_ok (\<lambda>_. None) (running s1) (wlist s1) s1" by (simp add: sched_ok_def)
  then have reach: "kv_reachable (kv s1)" by (simp add: state_ok_def cache_fits_def)
  define s' where "s' = s1\<lparr>kv := snd (reset_cache (kv s1))\<rparr>"
  have s': "config s' = config s1" "objs s' = objs s1" "request_ids s' = request_ids s1" "running s' = running s1" "waiting s' = waiting s1"
    "prev_step_scheduled s' = prev_step_scheduled s1" "pause s' = pause s1" "enable_sd s' = enable_sd s1" by (simp_all add: s'_def)
  have rank: "rank_of s' = rank_of s1" by (rule rank_of_frame [OF s'(2)])
  have w: "wlist s' = wlist s1" "wgood s' = wgood s1" by (simp_all add: wlist_def wgood_def s' rank)
  have moved: "kv_rests (kv s1) (kv s')" using rests(1) [OF reach] by (simp add: s'_def)
  have "state_ok (\<lambda>_. None) (running s') (wlist s') s'" unfolding s'(4) w by (rule state_rests [OF ok1 moved s'(1-3)])
  then have ok': "sched_ok s'" using s1(2) w by (simp add: sched_ok_def fresh_resumes_def s')
  have idle: "fst (reset_cache (kv s1)) \<and> set (wlist s') = set (request_ids s) \<and> (\<forall>r. no_entry (kv s') r)" if "reset_running"
  proof -
    have none: "no_entry (kv s1) r" for r using request_at_of [OF ok1, of r] s1(7) [OF that] by (simp add: request_at_def)
    have "no_entry (kv s') r" for r
      using none [of r] no_entry_frame [of "kv s'" r "kv s1"] moved by (simp add: kv_rests_def)
    moreover have "set (wlist s') = set (request_ids s)" using known [OF ok1] s1(4,7) that w(1) by simp
    ultimately show ?thesis using idle_reset [OF reach none] by blast
  qed
  then have call: "reset_scheduler_cache reset_running conn s = ok (fst (reset_cache (kv s1)) \<and> \<not> conn, s')"
    using s1(1) by (auto simp: reset_scheduler_cache_def preempted_def [symmetric] s'_def split: prod.split)
  from s1 s' show thesis by (intro that [OF call ok']) (use idle in simp_all)
qed

section \<open>Pausing\<close>

lemma pause_ok:
  assumes ok: "sched_ok s" and mode: "mode \<in> {''keep'', ''abort''}"
  obtains s' where "pause_scheduler mode clear s = ok s'" "sched_ok s'" "config s' = config s"
    "pause s' = (if mode = ''keep'' then PAUSED_ALL else PAUSED_NEW)" "mode = ''abort'' \<Longrightarrow> request_ids s' = []"
proof -
  define finished where "finished = (if mode = ''abort'' then obind (finish_requests None FINISHED_ABORTED s) (\<lambda>(_, s'). ok s') else ok s)"
  obtain s1 where s1: "finished = ok s1" "sched_ok s1" "config s1 = config s" "mode = ''abort'' \<Longrightarrow> request_ids s1 = []"
  proof (cases "mode = ''abort''")
    case True
    have fin: "is_finished FINISHED_ABORTED" by (simp add: is_finished_def less_request_status_def)
    from finish_idle [OF ok fin, of None] obtain res q where
      "finish_requests None FINISHED_ABORTED s = ok (res, q)" "sched_ok q" "request_ids q = without (named None s) (request_ids s)" "config q = config s"
      by metis
    then show thesis using True by (intro that [of q]) (simp_all add: finished_def named_def)
  next
    case False
    then show thesis using ok by (intro that [of s]) (simp_all add: finished_def)
  qed
  define s2 where "s2 = set_pause_state (if mode = ''keep'' then PAUSED_ALL else PAUSED_NEW) s1"
  have s2: "sched_ok s2" "config s2 = config s1" "request_ids s2 = request_ids s1" "pause s2 = (if mode = ''keep'' then PAUSED_ALL else PAUSED_NEW)"
    using s1(2) by (simp_all add: s2_def set_pause_state_def)
  obtain b s3 where "reset_scheduler_cache True False s2 = ok (b, s3)" "sched_ok s3" "config s3 = config s2" "request_ids s3 = request_ids s2" "pause s3 = pause s2"
    by (rule reset_ok [OF s2(1)]) blast
  moreover have "pause_scheduler mode clear s = (if clear then obind (reset_scheduler_cache True False s2) (\<lambda>(_, s3). ok s3) else ok s2)"
  proof -
    have "mode \<in> {''keep'', ''abort'', ''wait''}" "mode \<noteq> ''wait''" using mode by auto
    then show ?thesis using s1(1) unfolding pause_scheduler_def finished_def [symmetric] Let_def s2_def by simp
  qed
  ultimately show thesis using s1 s2 that by (cases clear) auto
qed

section \<open>One step\<close>

lemma finished_aborted: "is_finished FINISHED_ABORTED"
  by (simp add: is_finished_def less_request_status_def)

text \<open>The executor keeps the contract on the output of the pass it is given.\<close>

definition executor_ok :: "(string \<Rightarrow> bool) \<Rightarrow> (sched_output \<Rightarrow> model_output) \<Rightarrow> scheduler \<Rightarrow> bool" where
  "executor_ok ready execute s \<longleftrightarrow> (\<forall>out s1. schedule ready s = ok (out, s1) \<longrightarrow> runner_ok out s1 (execute out))"

lemma runner_fewer:
  assumes "runner_ok out s mo" "set (request_ids s') \<subseteq> set (request_ids s)" "\<And>r. r \<in> set (request_ids s') \<Longrightarrow> objs s' r = objs s r"
  shows "runner_ok out s' mo"
proof -
  have same: "objs s' rid = objs s rid \<and> rid \<in> set (request_ids s)" if "rid \<in> set (request_ids s')" for rid
    using assms(2,3) that by blast
  then show ?thesis using assms(1) unfolding runner_ok_def by (auto dest!: bspec simp: same cong: option.case_cong)
qed

lemma process_aborts_ok:
  assumes fly: "flying out s" and mo: "runner_ok out s mo"
  obtains s' where "process_aborts_queue aborts s = ok s'" "flying out s'" "runner_ok out s' mo" "config s' = config s"
    "pause s' = pause s" "enable_sd s' = enable_sd s"
proof (cases "aborts = []")
  case True
  then show thesis using that [of s] assms by (simp add: process_aborts_queue_def)
next
  case False
  obtain res s' where s': "finish_requests (Some (concat aborts)) FINISHED_ABORTED s = ok (res, s')" "flying out s'"
    "request_ids s' = without (named (Some (concat aborts)) s) (request_ids s)" "config s' = config s" "pause s' = pause s"
    "enable_sd s' = enable_sd s" "\<And>r. r \<notin> set (named (Some (concat aborts)) s) \<Longrightarrow> objs s' r = objs s r"
    by (rule finish_flying [OF fly finished_aborted]) blast
  have "runner_ok out s' mo" by (rule runner_fewer [OF mo]) (auto simp: s'(3,7))
  moreover have "process_aborts_queue aborts s = ok s'" using s'(1) False by (simp add: process_aborts_queue_def abort_requests_def)
  ultimately show thesis using that s'(2,4-6) by blast
qed

lemma engine_step_ok:
  assumes ok: "sched_ok s" and ex: "executor_ok ready execute s"
  obtains outs executed sent s' where "engine_step ready execute aborts s = ok (outs, executed, sent, s')" "sched_ok s'" "config s' = config s"
    "pause s' = pause s" "enable_sd s' = enable_sd s"
proof (cases "has_requests s")
  case False
  then show thesis using that [of _ _ _ s] ok by (simp add: engine_step_def)
next
  case True
  obtain out s1 where s1: "schedule ready s = ok (out, s1)" "flying out s1" "pass_output s out s1" using schedule_ok [OF ok] by blast
  with ex have mo: "runner_ok out s1 (execute out)" by (simp add: executor_ok_def)
  obtain s2 where s2: "process_aborts_queue aborts s1 = ok s2" "flying out s2" "runner_ok out s2 (execute out)"
    "config s2 = config s1" "pause s2 = pause s1" "enable_sd s2 = enable_sd s1" by (rule process_aborts_ok [OF s1(2) mo]) blast
  obtain outs events s3 where s3: "update_from_output out (execute out) s2 = ok (outs, events, s3)" "sched_ok s3"
    "config s3 = config s2" "pause s3 = pause s2" "enable_sd s3 = enable_sd s2" by (rule update_from_output_ok [OF s2(2,3)]) blast
  have call: "engine_step ready execute aborts s = ok (outs, 0 < total_num_scheduled_tokens out, Some out, s3)"
    using True s1(1) s2(1) s3(1) by (simp add: engine_step_def)
  show thesis by (rule that [OF call s3(2)]) (use s1(3) s2(4-6) s3(3-5) in \<open>simp_all add: pass_output_def\<close>)
qed

section \<open>The engine as a transition system\<close>

inductive engine_move :: "scheduler \<Rightarrow> scheduler \<Rightarrow> bool" where
  step: "executor_ok ready execute s \<Longrightarrow> engine_step ready execute aborts s = ok (outs, executed, sent, s') \<Longrightarrow> engine_move s s'"
| drafts: "engine_move s (post_step advance ds executed sent s)"
| arrive: "fresh_request r s \<Longrightarrow> engine_add_request supported None r s = ok s' \<Longrightarrow> engine_move s s'"
| abort: "abort_requests rids s = ok s' \<Longrightarrow> engine_move s s'"
| toggle: "engine_move s (snd (toggle_speculative_decoding b s))"
| pause: "pause_scheduler mode clear s = ok s' \<Longrightarrow> engine_move s s'"
| resume: "engine_move s (resume_scheduler s)"
| reset: "reset_scheduler_cache reset_running conn s = ok (cleared, s') \<Longrightarrow> engine_move s s'"

inductive engine_reachable :: "scheduler \<Rightarrow> bool" where
  start: "kv_reachable k \<Longrightarrow> kv_plain k \<Longrightarrow> sync_config c k \<Longrightarrow> (\<And>rid. no_entry k rid) \<Longrightarrow>
    engine_reachable (scheduler_init c include_finished k store)"
| move: "engine_reachable s \<Longrightarrow> engine_move s s' \<Longrightarrow> engine_reachable s'"

lemma start_ok:
  assumes "kv_reachable k" "kv_plain k" "sync_config c k" "\<And>rid. no_entry k rid"
  shows "sched_ok (scheduler_init c include_finished k store)"
proof -
  let ?s = "scheduler_init c include_finished k store"
  have "wlist ?s = []" "wgood ?s"
    using create_good [where rank = "rank_of ?s" and p = "sched_policy c"] by (simp_all add: wlist_def wgood_def) (simp_all add: scheduler_init_def)
  then show ?thesis using assms
    by (simp add: sched_ok_def state_ok_def cache_fits_def parts_def request_at_def fresh_resumes_def) (simp add: scheduler_init_def)
qed

lemma move_ok: "engine_move s s' \<Longrightarrow> sched_ok s \<Longrightarrow> sched_ok s'"
proof (induction rule: engine_move.induct)
  case (step ready execute s aborts outs executed sent s')
  obtain outs2 executed2 sent2 s2 where "engine_step ready execute aborts s = ok (outs2, executed2, sent2, s2)" "sched_ok s2"
    by (rule engine_step_ok [OF step.prems step.hyps(1)]) blast
  with step.hyps(2) show ?case by simp
next
  case (drafts s advance ds executed sent)
  then show ?case by (simp add: post_step_def update_draft_ok split: option.split)
next
  case (arrive r s supported s')
  obtain s2 where "add_request r s = ok s2" "sched_ok s2" by (rule add_request_ok [OF arrive.prems arrive.hyps(1)]) blast
  with arrive.hyps(2) show ?case by (simp add: engine_add_request_def)
next
  case (abort rids s s')
  obtain res s2 where "finish_requests (Some rids) FINISHED_ABORTED s = ok (res, s2)" "sched_ok s2"
    by (rule finish_idle [OF abort.prems finished_aborted]) blast
  with abort.hyps show ?case by (simp add: abort_requests_def)
next
  case (toggle s b)
  then show ?case by (simp add: toggle_speculative_decoding_def)
next
  case (pause mode clear s s')
  then have mode: "mode \<in> {''keep'', ''abort''}" by (auto simp: pause_scheduler_def split: if_splits)
  obtain s2 where "pause_scheduler mode clear s = ok s2" "sched_ok s2" by (rule pause_ok [OF pause.prems mode]) blast
  with pause.hyps show ?case by simp
next
  case (resume s)
  then show ?case by (simp add: resume_scheduler_def set_pause_state_def)
next
  case (reset reset_running conn s cleared s')
  obtain b s2 where "reset_scheduler_cache reset_running conn s = ok (b, s2)" "sched_ok s2" by (rule reset_ok [OF reset.prems]) blast
  with reset.hyps show ?case by simp
qed

lemma engine_reachable_ok: "engine_reachable s \<Longrightarrow> sched_ok s"
  by (induction rule: engine_reachable.induct) (auto intro: start_ok move_ok)

end
