(* ===== verification/SchedProps.thy ===== *)
theory SchedProps
  imports SchedEngine
begin

text \<open>
  The properties of the engine's scheduler in every reachable state, and a small engine that shows them at
  work.
\<close>

declare map_of_eq_Some_iff [simp del]

section \<open>Requests that the constructor builds\<close>

text \<open>The constructor's text requests are what the scheduler expects.\<close>

lemma request_init_ok:
  assumes "prompt \<noteq> []" "int (length prompt) < model_len c" "int (length prompt) + min_tokens sp \<le> model_len c"
    and "max_new_tokens sp = Some n"
  shows "\<exists>r. request_init (hash_new c) rid (Some prompt) None None (Some sp) None structured client arrival [] lora salt prio False = Inr r \<and>
    request_id r = rid \<and> (\<forall>caching. req_ok c caching r) \<and> num_computed_tokens r = 0 \<and> arrival_time r = arrival \<and> priority r = prio \<and>
    status r = (if structured then WAITING_FOR_FSM else WAITING)"
  using assms
  by (auto simp: request_init_def ebind_def prompt_length_def update_block_hashes_def req_ok_def num_tokens_def num_output_tokens_def
      genuine_def kv_request.defs)

section \<open>A small engine\<close>

definition demo_config :: sched_config where
  "demo_config = \<lparr>sched_policy = FCFS, max_num_running_reqs = 2, max_num_scheduled_tokens = 4, model_len = 100,
     num_spec_tokens = 2, num_lookahead_tokens = 2, long_prefill_token_threshold = 0, enable_chunked_prefill = True,
     max_loras = None, needs_kv_cache_zeroing = True, async_scheduling = False, use_pp = False, v2_runner = False,
     has_spec_config = True, hash_new = request_hasher sample_hash [0] 2\<rparr>"

definition demo_sampling :: sampling_params where
  "demo_sampling = \<lparr>min_tokens = 0, max_new_tokens = Some 3, eos_token_id = Some 99, stop_token_ids = [],
     repetition_detection = None, skip_cache = None\<rparr>"

definition demo_arrival :: request where
  "demo_arrival =
     (case request_init (hash_new demo_config) ''a'' (Some [1, 2, 3]) None None (Some demo_sampling) None False 0 0 [] None None 0 False of
        Inr r \<Rightarrow> r)"

definition demo_idle :: scheduler where
  "demo_idle = scheduler_init demo_config False demo_start (\<lambda>_. demo_arrival)"

definition demo_engine :: scheduler where
  "demo_engine = demo_idle\<lparr>request_ids := [''a''], waiting := Deque [''a'']\<rparr>"

text \<open>An executor that gives each scheduled request one token.\<close>

definition one_token :: "sched_output \<Rightarrow> model_output" where
  "one_token out =
     (let rids = dict_keys (num_scheduled_tokens out) in
      \<lparr>req_id_to_index = zip rids [0..<length rids], sampled_token_ids = map (\<lambda>_. [7]) rids, pooler_outputs = None\<rparr>)"

lemma zip_index: "x \<in> set xs \<Longrightarrow> \<exists>i. map_of (zip xs [m..<m + length xs]) x = Some i \<and> i < m + length xs \<and> m \<le> i"
proof (induction xs arbitrary: m)
  case (Cons y ys)
  have "[m..<m + length (y # ys)] = m # [Suc m..<Suc m + length ys]" by (simp add: upt_rec)
  with Cons.IH [of "Suc m"] Cons.prems show ?case by (cases "x = y") (auto simp del: upt_Suc)
qed simp

lemma one_token_ok: "runner_ok out s (one_token out)"
  unfolding runner_ok_def
proof (intro conjI ballI impI)
  fix rid
  assume "rid \<in> set (dict_keys (num_scheduled_tokens out))"
  from zip_index [OF this, of 0] obtain i where
    "map_of (req_id_to_index (one_token out)) rid = Some i" "i < length (num_scheduled_tokens out)" by (auto simp: one_token_def Let_def)
  then show "case map_of (req_id_to_index (one_token out)) rid of None \<Rightarrow> False
       | Some i \<Rightarrow> i < length (sampled_token_ids (one_token out)) \<and> (let g = sampled_token_ids (one_token out) ! i in
           length g \<le> Suc (drafts_of out rid) \<and> (g = [] \<longrightarrow> num_computed_tokens (objs s rid) < num_tokens (objs s rid)))"
    by (simp add: one_token_def Let_def)
qed (simp add: one_token_def Let_def)

lemma one_token_executor: "executor_ok ready one_token s"
  by (simp add: executor_ok_def one_token_ok)

lemma demo_sync: "sync_config demo_config demo_start"
proof -
  have "hasher_ok (request_hasher sample_hash [0] 2) 2"
    by (rule request_hasher_ok [OF sample_hash_inj]) (auto simp: sample_hash_def)
  moreover have "max_model_len demo_start = 100 \<and> hash_block_size (pool demo_start) = 2" by code_simp
  ultimately show ?thesis by (simp add: sync_config_def demo_config_def)
qed

lemma demo_plain: "kv_plain demo_start"
proof -
  have "coordinator_kind demo_start = Unitary \<and> search_ok (attention_type (kv_spec (hd (managers demo_start)))) (use_eagle demo_start) (context_parallel demo_start)"
    by code_simp
  then show ?thesis by (simp add: kv_plain_def)
qed

lemma demo_empty: "no_entry demo_start rid"
proof -
  have "\<forall>m \<in> set (managers demo_start). req_to_blocks m = [] \<and> num_cached_block m = []" by code_simp
  then show ?thesis by (simp add: no_entry_def extent_def req_blocks_def)
qed

lemma demo_idle_reachable: "engine_reachable demo_idle"
  unfolding demo_idle_def by (rule engine_reachable.start [OF demo_start_reachable demo_plain demo_sync demo_empty])

lemma demo_arrives: "fresh_request demo_arrival demo_idle" "request_id demo_arrival = ''a''" "\<not> resumable demo_arrival"
  and demo_accepted: "req_ok demo_config caching demo_arrival"
proof -
  have small: "int (length [1 :: int, 2, 3]) < model_len demo_config" "int (length [1 :: int, 2, 3]) + min_tokens demo_sampling \<le> model_len demo_config"
    "max_new_tokens demo_sampling = Some 3" by (simp_all add: demo_config_def demo_sampling_def)
  from request_init_ok [OF _ small, of "''a''" False 0 0 None None 0] obtain r where
    r: "request_init (hash_new demo_config) ''a'' (Some [1, 2, 3]) None None (Some demo_sampling) None False 0 0 [] None None 0 False = Inr r"
      "request_id r = ''a''" "\<forall>caching. req_ok demo_config caching r" "num_computed_tokens r = 0" "status r = WAITING" by auto
  have "demo_arrival = r" by (simp only: demo_arrival_def r(1) sum.case)
  with r(2-5) show "fresh_request demo_arrival demo_idle" "request_id demo_arrival = ''a''" "\<not> resumable demo_arrival"
    "req_ok demo_config caching demo_arrival"
    by (auto simp: fresh_request_def demo_idle_def scheduler_init_def req_ok_def)
qed

lemma demo_engine_reachable: "engine_reachable demo_engine"
proof -
  have "add_request demo_arrival demo_idle = ok demo_engine"
    using demo_arrives(2,3) by (simp add: add_request_def Let_def demo_engine_def demo_idle_def scheduler_init_def upd_req_def
        create_request_queue_def demo_config_def fun_eq_iff)
  then have "engine_move demo_idle demo_engine"
    using engine_move.arrive [OF demo_arrives(1)] by (simp add: engine_add_request_def)
  then show ?thesis by (rule engine_reachable.move [OF demo_idle_reachable])
qed

section \<open>The engine never fails\<close>

text \<open>C3: A step of the engine never fails. In every state the engine can reach by steps, new requests,
  aborts, draft tokens, pauses, resets and switches of speculative decoding, a step returns, whatever
  requests are aborted while the model runs: no assertion, lookup or cache operation of the scheduler
  raises, preemption ends, and the state after it is reachable again. The model runner only has to give
  every scheduled request at most one token more than its drafts, and at least one once its prompt is computed.\<close>

theorem engine_step_never_fails:
  assumes "engine_reachable s" "executor_ok ready execute s"
  shows "\<exists>outs executed sent s'. engine_step ready execute aborts s = ok (outs, executed, sent, s') \<and> engine_reachable s'"
proof -
  obtain outs executed sent s' where step: "engine_step ready execute aborts s = ok (outs, executed, sent, s')"
    by (rule engine_step_ok [OF engine_reachable_ok [OF assms(1)] assms(2)]) blast
  with engine_reachable.move [OF assms(1) engine_move.step [OF assms(2) step]] show ?thesis by blast
qed

theorem engine_step_never_fails_witness:
  "\<exists>outs executed sent s'. engine_step (\<lambda>_. True) one_token [[''b'']] demo_engine = ok (outs, executed, sent, s') \<and> engine_reachable s'"
  by (rule engine_step_never_fails [OF demo_engine_reachable one_token_executor])

section \<open>The requests\<close>

text \<open>C4: Every known request is either running or waiting. In every reachable state the list of running
  requests and the waiting queue partition the known requests without duplicates, at most
  \<open>max_num_running_reqs\<close> run, a running request has status RUNNING, a slot in the key-value cache for every
  computed token and a token left to compute below the length limit of the model, and a waiting one has
  nothing computed; only running requests own blocks.\<close>

theorem requests_partitioned:
  assumes "engine_reachable s"
  shows "distinct (running s @ queue_iter (rank_of s) (waiting s)) \<and> set (running s @ queue_iter (rank_of s) (waiting s)) = set (request_ids s) \<and>
    length (running s) \<le> max_num_running_reqs (config s) \<and>
    (\<forall>rid \<in> set (running s). status (objs s rid) = RUNNING \<and> 0 \<le> num_computed_tokens (objs s rid) \<and>
       num_computed_tokens (objs s rid) < num_tokens (objs s rid) \<and> num_tokens (objs s rid) < model_len (config s) \<and>
       covers (kv s) rid (num_computed_tokens (objs s rid))) \<and>
    (\<forall>rid \<in> set (queue_iter (rank_of s) (waiting s)). status (objs s rid) \<in> {WAITING, WAITING_FOR_FSM, PREEMPTED} \<and>
       num_computed_tokens (objs s rid) = 0) \<and>
    (\<forall>rid. rid \<notin> set (running s) \<longrightarrow> no_entry (kv s) rid)"
proof -
  from engine_reachable_ok [OF assms] have ok: "state_ok (\<lambda>_. None) (running s) (wlist s) s" by (simp add: sched_ok_def)
  then have p: "parts (running s) (wlist s) s" "\<And>rid. request_at (\<lambda>_. None) (running s) (wlist s) s rid" by (simp_all add: state_ok_def)
  have "status (objs s rid) = RUNNING \<and> 0 \<le> num_computed_tokens (objs s rid) \<and>
       num_computed_tokens (objs s rid) < num_tokens (objs s rid) \<and> num_tokens (objs s rid) < model_len (config s) \<and>
       covers (kv s) rid (num_computed_tokens (objs s rid))" if "rid \<in> set (running s)" for rid
    using p(2) [of rid] known [OF ok] that by (auto simp: request_at_def running_ok_def req_ok_def)
  moreover have "status (objs s rid) \<in> {WAITING, WAITING_FOR_FSM, PREEMPTED} \<and> num_computed_tokens (objs s rid) = 0"
    if "rid \<in> set (wlist s)" for rid
    using p(2) [of rid] that by (simp add: request_at_def waiting_ok_def)
  moreover have "no_entry (kv s) rid" if "rid \<notin> set (running s)" for rid using p(2) [of rid] that by (simp add: request_at_def)
  ultimately show ?thesis using p(1) by (simp add: parts_def wlist_def)
qed

theorem requests_partitioned_witness:
  "status (objs demo_engine ''a'') \<in> {WAITING, WAITING_FOR_FSM, PREEMPTED} \<and> no_entry (kv demo_engine) ''a''"
  using requests_partitioned [OF demo_engine_reachable] by (simp add: demo_engine_def demo_idle_def scheduler_init_def)

text \<open>C5: A scheduling pass stays within its limits. In every reachable state a pass returns; the tokens it
  schedules are the sum over its requests and at most the token budget, none when the engine is paused
  completely; every scheduled request is running, has at least one new token, a cache slot for each of
  them, and computes no further than its tokens and drafts; and no drafts are scheduled while speculative
  decoding is switched off.\<close>

theorem schedule_within_limits:
  assumes "engine_reachable s"
  shows "\<exists>out s'. schedule ready s = ok (out, s') \<and>
    total_num_scheduled_tokens out = sum_list (dict_values (num_scheduled_tokens out)) \<and>
    total_num_scheduled_tokens out \<le> max_num_scheduled_tokens (config s) \<and>
    (pause s = PAUSED_ALL \<longrightarrow> num_scheduled_tokens out = []) \<and>
    length (running s') \<le> max_num_running_reqs (config s) \<and> distinct (dict_keys (num_scheduled_tokens out)) \<and>
    (\<forall>(rid, n) \<in> set (num_scheduled_tokens out). 0 < n \<and> rid \<in> set (running s') \<and>
       covers (kv s') rid (num_computed_tokens (objs s' rid)) \<and>
       num_computed_tokens (objs s' rid) \<le> num_tokens (objs s' rid) + int (drafts_of out rid)) \<and>
    (enable_sd s \<or> scheduled_spec_decode_tokens out = [])"
proof -
  have ok: "sched_ok s" by (rule engine_reachable_ok [OF assms])
  then have "0 \<le> max_num_scheduled_tokens (config s)" by (simp add: sched_ok_def state_ok_def cache_fits_def sync_config_def)
  then have budget: "token_budget (start_pass s) \<le> max_num_scheduled_tokens (config s)" by (simp add: start_pass_def)
  obtain out s' where run: "schedule ready s = ok (out, s')" "flying out s'" "pass_output s out s'" using schedule_ok [OF ok] by blast
  have st: "state_ok (fly_of out) (running s') (wlist s') s'" and pos: "\<forall>(rid, n) \<in> set (num_scheduled_tokens out). 0 < n"
    using run(2) by (auto simp: flying_def)
  have each: "0 < n \<and> rid \<in> set (running s') \<and> covers (kv s') rid (num_computed_tokens (objs s' rid)) \<and>
       num_computed_tokens (objs s' rid) \<le> num_tokens (objs s' rid) + int (drafts_of out rid)"
    if m: "(rid, n) \<in> set (num_scheduled_tokens out)" for rid n
  proof -
    have key: "rid \<in> set (dict_keys (num_scheduled_tokens out))" using m by force
    then have "rid \<in> set (running s')" using run(3) by (auto simp: pass_output_def)
    moreover have "fly_of out rid = Some (drafts_of out rid)" using key by (simp add: fly_of_def)
    ultimately show ?thesis using request_at_of [OF st, of rid] pos m by (auto simp: request_at_def running_ok_def)
  qed
  have idle: "num_scheduled_tokens out = []" if "pause s = PAUSED_ALL"
  proof (cases "num_scheduled_tokens out")
    case (Cons x xs)
    have "0 \<le> sum_list (dict_values xs)" using pos Cons by (intro sum_list_nonneg) auto
    then have "0 < total_num_scheduled_tokens out" using run(3) pos Cons by (auto simp: pass_output_def)
    then show ?thesis using run(3) that by (simp add: pass_output_def start_pass_def)
  qed simp
  have "config s' = config s" using run(3) by (simp add: pass_output_def)
  then have limit: "length (running s') \<le> max_num_running_reqs (config s)" using st by (simp add: state_ok_def parts_def)
  have dist: "distinct (dict_keys (num_scheduled_tokens out))" using run(2) by (simp add: flying_def)
  have sums: "total_num_scheduled_tokens out = sum_list (dict_values (num_scheduled_tokens out))"
    "total_num_scheduled_tokens out \<le> max_num_scheduled_tokens (config s)" "enable_sd s \<or> scheduled_spec_decode_tokens out = []"
    using run(3) budget unfolding pass_output_def by linarith+
  have all: "\<forall>(rid, n) \<in> set (num_scheduled_tokens out). 0 < n \<and> rid \<in> set (running s') \<and>
       covers (kv s') rid (num_computed_tokens (objs s' rid)) \<and>
       num_computed_tokens (objs s' rid) \<le> num_tokens (objs s' rid) + int (drafts_of out rid)" using each by blast
  have none: "pause s = PAUSED_ALL \<longrightarrow> num_scheduled_tokens out = []" using idle by blast
  show ?thesis by (intro exI [of _ out] exI [of _ s'] conjI) (fact run(1) sums none limit dist all)+
qed

theorem schedule_within_limits_witness:
  "\<exists>out s'. schedule (\<lambda>_. True) demo_engine = ok (out, s') \<and> total_num_scheduled_tokens out \<le> 4 \<and> length (running s') \<le> 2"
proof -
  have "config demo_engine = demo_config" by (simp add: demo_engine_def demo_idle_def scheduler_init_def)
  then show ?thesis using schedule_within_limits [OF demo_engine_reachable, of "\<lambda>_. True"] by (auto simp: demo_config_def)
qed

section \<open>Calls from outside\<close>



text \<open>Aborting removes exactly the named requests. In every reachable state an abort returns, the named
  requests leave the known ones, the running list and the waiting queue, in which the others keep their
  order and their records, and they own no blocks any more; ids that are unknown or given twice do no harm.\<close>

theorem abort_removes_exactly:
  assumes "engine_reachable s"
  shows "\<exists>s'. abort_requests rids s = ok s' \<and> request_ids s' = filter (\<lambda>r. r \<notin> set rids) (request_ids s) \<and>
    running s' = filter (\<lambda>r. r \<notin> set rids) (running s) \<and>
    queue_iter (rank_of s') (waiting s') = filter (\<lambda>r. r \<notin> set rids) (queue_iter (rank_of s) (waiting s)) \<and>
    (\<forall>r \<in> set rids. no_entry (kv s') r) \<and> (\<forall>r. r \<notin> set rids \<longrightarrow> objs s' r = objs s r) \<and>
    set (finished_req_ids s') = set (finished_req_ids s) \<union> (set rids \<inter> set (request_ids s))"
proof -
  have ok: "sched_ok s" by (rule engine_reachable_ok [OF assms])
  then have s: "state_ok (\<lambda>_. None) (running s) (wlist s) s" "wgood s" by (simp_all add: sched_ok_def)
  let ?gone = "named (Some rids) s"
  obtain s' where r: "finish_requests (Some rids) FINISHED_ABORTED s = ok (map (\<lambda>r. (r, client_index (objs s' r))) ?gone, s')"
    "state_ok (\<lambda>_. None) (running s') (wlist s') s'" "running s' = without ?gone (running s)" "wlist s' = without ?gone (wlist s)"
    "request_ids s' = without ?gone (request_ids s)" "\<And>r. r \<notin> set ?gone \<Longrightarrow> objs s' r = objs s r"
    "set (finished_req_ids s') = set ?gone \<union> set (finished_req_ids s)"
    by (rule finish_requests_ok [OF s finished_aborted]) blast
  have gone: "set ?gone = set rids \<inter> set (request_ids s)" by (auto simp: named_def)
  have eq: "without ?gone xs = without rids xs" if "set xs \<subseteq> set (request_ids s)" for xs
    using that gone by (intro filter_cong) auto
  have sub: "set (running s) \<subseteq> set (request_ids s)" "set (wlist s) \<subseteq> set (request_ids s)" using known [OF s(1)] by auto
  have "no_entry (kv s') q" if "q \<in> set rids" for q
    using request_at_of [OF r(2), of q] that by (simp add: request_at_def r(3) eq [OF sub(1)])
  then have none: "\<forall>q \<in> set rids. no_entry (kv s') q" by blast
  have call: "abort_requests rids s = ok s'" using r(1) by (simp add: abort_requests_def)
  have lists: "request_ids s' = without rids (request_ids s)" "running s' = without rids (running s)" "queue_iter (rank_of s') (waiting s') = without rids (queue_iter (rank_of s) (waiting s))"
    using r(4) by (simp_all only: r(3,5) eq [OF sub(1)] eq [OF sub(2)] eq [OF subset_refl] wlist_def [symmetric])
  have fin: "set (finished_req_ids s') = set (finished_req_ids s) \<union> (set rids \<inter> set (request_ids s))" unfolding r(7) gone by blast
  have same: "\<forall>q. q \<notin> set rids \<longrightarrow> objs s' q = objs s q" using r(6) gone by simp
  show ?thesis by (intro exI [of _ s'] conjI) (fact call lists none same fin)+
qed

theorem abort_removes_exactly_witness:
  "\<exists>s'. abort_requests [''a'', ''b'', ''a''] demo_engine = ok s' \<and> request_ids s' = [] \<and> no_entry (kv s') ''a''"
  using abort_removes_exactly [OF demo_engine_reachable, of "[''a'', ''b'', ''a'']"] by (auto simp: demo_engine_def)



section \<open>Two defects\<close>

text \<open>A streaming session whose last sampled token completed a block of two tokens.\<close>

definition session_demo :: "block_hasher \<Rightarrow> request \<Rightarrow> request" where
  "session_demo h r =
     (let q = r\<lparr>all_token_ids := [1, 2, 3, 4], output_token_ids := [4], prompt_token_ids := Some [1, 2, 3], num_prompt_tokens := 3,
                num_computed_tokens := 3, mm_features := [], block_hashes := []\<rparr>
      in q\<lparr>block_hashes := h (kv_request.truncate q)\<rparr>)"

definition next_chunk :: streaming_update where
  "next_chunk = \<lparr>update_tokens = Some [9], update_mm = [], update_max_tokens = 3, update_arrival = 1, update_params = None\<rparr>"

text \<open>C38: A streaming session can carry the hash of tokens it no longer has. When the last sampled token
  completed a block, continuing the session drops that token but keeps the hash of the block; the next
  chunk takes its place, no hash is computed for it, and the request ends with the hashes of other tokens
  than its own, under which its block would be cached.\<close>

theorem session_keeps_stale_hash:
  assumes "inj hf"
  shows "let h = request_hasher hf nh 2; r = session_demo h r0 in genuine h (kv_request.truncate r) \<and>
    (\<exists>r'. session_request h next_chunk r = Inr r' \<and> all_token_ids r' = [1, 2, 3, 9] \<and> block_hashes r' = block_hashes r \<and>
       \<not> genuine h (kv_request.truncate r'))"
proof -
  have "hf x = hf y \<longleftrightarrow> x = y" for x y using assms by (simp add: inj_eq)
  then show ?thesis
    by (simp add: Let_def session_demo_def session_request_def next_chunk_def genuine_def kv_request.defs request_hasher_plain
        update_block_hashes_def token_slice_def full_blocks_def)
      (simp add: numeral_2_eq_2 Let_def hash_block_tokens_def token_slice_def)
qed

theorem session_keeps_stale_hash_witness:
  "\<exists>r'. session_request (request_hasher sample_hash [0] 2) next_chunk (session_demo (request_hasher sample_hash [0] 2) demo_arrival) = Inr r' \<and>
     \<not> genuine (request_hasher sample_hash [0] 2) (kv_request.truncate r')"
  using session_keeps_stale_hash [OF sample_hash_inj, of "[0]" demo_arrival] by (auto simp: Let_def)

text \<open>A request that must generate more tokens than the model has room for is not stopped at the length limit,
  and no pass has a token for it any more.\<close>

lemma overlong_min_tokens_starve:
  assumes "\<not> pooling r" "sampling r = Some sp" "num_output_tokens r < min_tokens sp" "num_tokens r = model_len (config s)"
    and "num_computed_tokens r = model_len (config s) - 1" "num_output_placeholders r = 0" "0 \<le> budget"
  shows "check_stop (model_len (config s)) r = Inr (False, r)" "running_tokens s budget r = 0"
proof -
  show "check_stop (model_len (config s)) r = Inr (False, r)" using assms(1-3) by (simp add: check_stop_def)
  have "num_tokens_with_spec r = num_tokens r + int (length (spec_token_ids r))" by (simp add: num_tokens_with_spec_def num_tokens_def)
  then show "running_tokens s budget r = 0" using assms(4-7) by (auto simp: running_tokens_def Let_def)
qed

end
