(* ===== verification/RadixKey.thy ===== *)
theory RadixKey
  imports Prelude
begin

text \<open>
  The keys of SGLang's radix cache (\<open>src/sglang-v0.5.14/python/sglang/srt/mem_cache/radix_cache.py\<close>, class
  \<open>RadixKey\<close>): a sequence of tokens, or the sequence of its bigrams, in a name space given by an extra key.
  The search for the first difference of two keys gallops and then bisects; it finds the longest common
  prefix. The page size is positive. Hashes of pages are not modelled.
\<close>

declare map_of_eq_Some_iff [simp del]

section \<open>Keys\<close>

record radix_key =
  token_ids :: "int list"
  extra_key :: "string option"
  is_bigram :: bool
  key_limit :: "nat option"

definition raw_key :: "int list \<Rightarrow> string option \<Rightarrow> bool \<Rightarrow> radix_key" where
  "raw_key toks extra bigram = \<lparr>token_ids = toks, extra_key = extra, is_bigram = bigram, key_limit = None\<rparr>"

definition raw_len :: "radix_key \<Rightarrow> nat" where
  "raw_len k = (case key_limit k of Some l \<Rightarrow> if l < length (token_ids k) then l else length (token_ids k) | None \<Rightarrow> length (token_ids k))"

definition raw_token_ids :: "radix_key \<Rightarrow> int list" where
  "raw_token_ids k = take (raw_len k) (token_ids k)"

definition key_len :: "radix_key \<Rightarrow> nat" where
  "key_len k = (if is_bigram k then raw_len k - 1 else raw_len k)"

text \<open>The logical units a key stands for, as \<open>__iter__\<close> yields them.\<close>

datatype radix_unit = Tok int | Bigram int int

definition key_units :: "radix_key \<Rightarrow> radix_unit list" where
  "key_units k =
     (let t = raw_token_ids k in if is_bigram k then map2 Bigram t (tl t) else map Tok t)"

text \<open>\<open>key[start:stop]\<close> for \<open>0 \<le> start\<close>; a stop beyond the end is the end.\<close>

definition key_slice :: "nat \<Rightarrow> nat \<Rightarrow> radix_key \<Rightarrow> radix_key" where
  "key_slice start stop k =
     (let start = min start (key_len k); stop = min stop (key_len k) in
      if is_bigram k
      then raw_key (if start < stop then take (Suc stop - start) (drop start (token_ids k)) else []) (extra_key k) True
      else raw_key (take (stop - start) (drop start (token_ids k))) (extra_key k) False)"

definition key_from :: "nat \<Rightarrow> radix_key \<Rightarrow> radix_key" where
  "key_from start k = key_slice start (key_len k) k"

definition page_aligned :: "nat \<Rightarrow> radix_key \<Rightarrow> radix_key" where
  "page_aligned page k = (if page = 1 then k else key_slice 0 (key_len k div page * page) k)"

definition maybe_to_bigram_view :: "bool \<Rightarrow> 'v list option \<Rightarrow> radix_key \<Rightarrow> radix_key \<times> 'v list option" where
  "maybe_to_bigram_view is_eagle v k =
     (if is_eagle \<and> \<not> is_bigram k
      then let k' = k\<lparr>is_bigram := True\<rparr> in (k', map_option (take (key_len k')) v) else (k, v))"

text \<open>\<open>child_key\<close>: one unit, or the tuple of the first page, with the extra key. The indices that Python reads
  must exist; a tuple of a slice does not fail.\<close>

definition child_key :: "nat \<Rightarrow> radix_key \<Rightarrow> py_error + string option \<times> radix_unit list" where
  "child_key page k =
     (let t = token_ids k in
      if is_bigram k
      then (if length t < Suc page then Inl IndexError else Inr (extra_key k, map2 Bigram (take page t) (take page (tl t))))
      else if page = 1
      then (case t of [] \<Rightarrow> Inl IndexError | x # _ \<Rightarrow> Inr (extra_key k, [Tok x]))
      else Inr (extra_key k, map Tok (take page t)))"

section \<open>The first difference\<close>

definition segment_eq :: "int list \<Rightarrow> int list \<Rightarrow> nat \<Rightarrow> nat \<Rightarrow> bool" where
  "segment_eq t0 t1 lo hi \<longleftrightarrow> take (hi - lo) (drop lo t0) = take (hi - lo) (drop lo t1)"

function bisect :: "int list \<Rightarrow> int list \<Rightarrow> nat \<Rightarrow> nat \<Rightarrow> nat" where
  "bisect t0 t1 lo hi =
     (if 1 < hi - lo
      then let mid = (lo + hi) div 2 in if segment_eq t0 t1 lo mid then bisect t0 t1 mid hi else bisect t0 t1 lo mid
      else lo)"
  by pat_completeness auto

termination by (relation "measure (\<lambda>(t0, t1, lo, hi). hi - lo)") auto

declare bisect.simps [simp del]

text \<open>The windows double: \<open>rnd\<close> counts the doublings of the step.\<close>

function gallop :: "int list \<Rightarrow> int list \<Rightarrow> nat \<Rightarrow> nat \<Rightarrow> nat \<Rightarrow> nat" where
  "gallop t0 t1 n lo rnd =
     (if lo < n
      then let hi = min (lo + 2 ^ rnd) n in if segment_eq t0 t1 lo hi then gallop t0 t1 n hi (Suc rnd) else bisect t0 t1 lo hi
      else n)"
  by pat_completeness auto

termination
proof (relation "measure (\<lambda>(t0, t1, n, lo, rnd). n - lo)", goal_cases)
  case (2 t0 t1 n lo rnd hi)
  have "lo < lo + 2 ^ rnd" by simp
  with 2(1,2) have "lo < hi" "lo < n" by (cases "lo + 2 ^ rnd \<le> n", simp_all add: min_def)
  then show ?case by simp
qed simp

declare gallop.simps [simp del]

definition key_match :: "nat \<Rightarrow> radix_key \<Rightarrow> radix_key \<Rightarrow> py_error + nat" where
  "key_match page k other =
     (if extra_key k \<noteq> extra_key other then Inl ValueError
      else
        let t0 = token_ids k; t1 = token_ids other;
            tokens = gallop t0 t1 (min (length t0) (length t1)) 0 0;
            matched = (if is_bigram k then tokens - 1 else tokens)
        in Inr (min (min matched (key_len k)) (key_len other) div page * page))"

section \<open>The search finds the longest common prefix\<close>

definition common_len :: "'a list \<Rightarrow> 'a list \<Rightarrow> nat" where
  "common_len xs ys = length (longest_common_prefix xs ys)"

lemma common_len_iff: "k \<le> common_len xs ys \<longleftrightarrow> k \<le> length xs \<and> k \<le> length ys \<and> take k xs = take k ys"
proof (induction xs ys arbitrary: k rule: longest_common_prefix.induct)
  case (1 x xs y ys)
  then show ?case by (cases k) (auto simp: common_len_def)
qed (auto simp: common_len_def)

lemma common_len_le: "common_len xs ys \<le> length xs" "common_len xs ys \<le> length ys"
  using common_len_iff [of "common_len xs ys" xs ys] by simp_all

lemma common_len_eqI:
  assumes "m \<le> length xs" "m \<le> length ys" "take m xs = take m ys"
    and "m < length xs \<Longrightarrow> m < length ys \<Longrightarrow> take (Suc m) xs \<noteq> take (Suc m) ys"
  shows "common_len xs ys = m"
  using assms common_len_iff [of m xs ys] common_len_iff [of "Suc m" xs ys] by (meson Suc_le_eq le_antisym not_less_eq_eq)

lemma segment_extends:
  assumes "lo \<le> hi" "take lo t0 = take lo t1"
  shows "segment_eq t0 t1 lo hi \<longleftrightarrow> take hi t0 = take hi t1"
proof -
  have "take hi xs = take lo xs @ take (hi - lo) (drop lo xs)" for xs :: "int list"
    using assms(1) by (metis le_add_diff_inverse take_add)
  then show ?thesis using assms(2) by (simp add: segment_eq_def)
qed

lemma take_mono_eq: "take n xs = take n ys \<Longrightarrow> m \<le> n \<Longrightarrow> take m xs = take m ys"
  by (metis min.absorb1 take_take)

lemma bisect_common:
  "lo < hi \<Longrightarrow> hi \<le> length t0 \<Longrightarrow> hi \<le> length t1 \<Longrightarrow> take lo t0 = take lo t1 \<Longrightarrow> take hi t0 \<noteq> take hi t1 \<Longrightarrow>
   bisect t0 t1 lo hi = common_len t0 t1"
proof (induction t0 t1 lo hi rule: bisect.induct)
  case (1 t0 t1 lo hi)
  show ?case
  proof (cases "1 < hi - lo")
    case True
    let ?mid = "(lo + hi) div 2"
    have mid: "lo < ?mid" "?mid < hi" using True by auto
    show ?thesis
    proof (cases "segment_eq t0 t1 lo ?mid")
      case True
      then have "take ?mid t0 = take ?mid t1" using segment_extends [of lo ?mid] mid(1) "1.prems"(4) by simp
      with "1.IH"(1) [OF \<open>1 < hi - lo\<close> refl True] mid "1.prems" \<open>1 < hi - lo\<close> True show ?thesis
        by (subst bisect.simps) (simp add: Let_def)
    next
      case False
      then have "take ?mid t0 \<noteq> take ?mid t1" using segment_extends [of lo ?mid] mid(1) "1.prems"(4) by simp
      with "1.IH"(2) [OF \<open>1 < hi - lo\<close> refl False] mid "1.prems" \<open>1 < hi - lo\<close> False show ?thesis
        by (subst bisect.simps) (simp add: Let_def)
    qed
  next
    case False
    then have "hi = Suc lo" using "1.prems"(1) by simp
    then have "common_len t0 t1 = lo" using "1.prems" by (intro common_len_eqI) auto
    with False show ?thesis by (subst bisect.simps) simp
  qed
qed

lemma gallop_common:
  "n = min (length t0) (length t1) \<Longrightarrow> lo \<le> n \<Longrightarrow> take lo t0 = take lo t1 \<Longrightarrow> gallop t0 t1 n lo rnd = common_len t0 t1"
proof (induction t0 t1 n lo rnd rule: gallop.induct)
  case (1 t0 t1 n lo rnd)
  show ?case
  proof (cases "lo < n")
    case True
    let ?hi = "min (lo + 2 ^ rnd) n"
    have hi: "lo < ?hi" "?hi \<le> length t0" "?hi \<le> length t1" "?hi \<le> n" using True "1.prems"(1) by auto
    show ?thesis
    proof (cases "segment_eq t0 t1 lo ?hi")
      case same: True
      then have "take ?hi t0 = take ?hi t1" using segment_extends [of lo ?hi] hi(1) "1.prems"(3) by simp
      with "1.IH" [OF True refl same "1.prems"(1) hi(4)] True same show ?thesis by (subst gallop.simps) (simp add: Let_def)
    next
      case False
      then have "take ?hi t0 \<noteq> take ?hi t1" using segment_extends [of lo ?hi] hi(1) "1.prems"(3) by simp
      with bisect_common [OF hi(1-3) "1.prems"(3)] True False show ?thesis by (subst gallop.simps) (simp add: Let_def)
    qed
  next
    case False
    with "1.prems"(2) have eq: "lo = n" by linarith
    have "common_len t0 t1 = n"
      using "1.prems"(1,3) unfolding eq by (intro common_len_eqI) (simp_all add: min_def split: if_splits)
    with False show ?thesis by (subst gallop.simps) simp
  qed
qed

section \<open>Keys and their units\<close>

lemma raw_len_le: "raw_len k \<le> length (token_ids k)"
  by (simp add: raw_len_def split: option.split)

lemma length_key_units [simp]: "length (key_units k) = key_len k"
  using raw_len_le [of k] by (simp add: key_units_def raw_token_ids_def key_len_def Let_def)

lemma units_bigram_take: "map2 Bigram (take (Suc n) t) (tl (take (Suc n) t)) = take n (map2 Bigram t (tl t))"
proof -
  have tl: "tl (take (Suc n) t) = take n (tl t)" by (cases t) simp_all
  show ?thesis
    unfolding tl by (rule nth_equalityI) (auto simp: nth_tl)
qed

lemma units_bigram:
  assumes "is_bigram k"
  shows "key_units k = take (key_len k) (map2 Bigram (token_ids k) (tl (token_ids k)))"
proof (cases "raw_len k")
  case 0
  with assms show ?thesis by (simp add: key_units_def raw_token_ids_def key_len_def)
next
  case (Suc n)
  with assms show ?thesis by (simp add: key_units_def raw_token_ids_def key_len_def units_bigram_take)
qed

lemma units_tok: "\<not> is_bigram k \<Longrightarrow> key_units k = take (key_len k) (map Tok (token_ids k))"
  by (simp add: key_units_def raw_token_ids_def key_len_def take_map)

lemma raw_len_raw_key [simp]: "raw_len (raw_key t e b) = length t"
  by (simp add: raw_len_def raw_key_def)

lemma raw_key_sel [simp]:
  "token_ids (raw_key t e b) = t" "extra_key (raw_key t e b) = e" "is_bigram (raw_key t e b) = b"
  by (simp_all add: raw_key_def)

lemma key_slice_sel [simp]:
  "extra_key (key_slice a b k) = extra_key k" "is_bigram (key_slice a b k) = is_bigram k"
  by (simp_all add: key_slice_def Let_def)

lemma key_units_raw:
  "key_units (raw_key t e b) = (if b then map2 Bigram t (tl t) else map Tok t)"
  by (simp add: key_units_def raw_token_ids_def)

lemma key_len_slice [simp]: "key_len (key_slice a b k) = min b (key_len k) - a"
proof -
  have le: "raw_len k \<le> length (token_ids k)" by (rule raw_len_le)
  show ?thesis
  proof (cases "is_bigram k")
    case True
    then have "key_len k \<le> length (token_ids k) - 1" using le by (simp add: key_len_def)
    moreover have "min a (key_len k) = a" if "a < min b (key_len k)" using that by simp
    moreover have "\<not> min a (key_len k) < min b (key_len k)" if "\<not> a < min b (key_len k)" using that by linarith
    ultimately show ?thesis using True
      by (cases "a < min b (key_len k)") (simp_all add: key_slice_def Let_def key_len_def [of "raw_key t e c" for t e c] del: min_less_iff_conj)
  next
    case False
    then have "key_len k \<le> length (token_ids k)" using le by (simp add: key_len_def)
    with False show ?thesis by (simp add: key_slice_def Let_def key_len_def [of "raw_key t e c" for t e c])
  qed
qed

lemma key_units_slice: "key_units (key_slice a b k) = take (b - a) (drop a (key_units k))"
proof (rule nth_equalityI)
  show "length (key_units (key_slice a b k)) = length (take (b - a) (drop a (key_units k)))" by auto
next
  fix i assume "i < length (key_units (key_slice a b k))"
  then have i: "a + i < b" "a + i < key_len k" by auto
  have len: "key_len k \<le> raw_len k" "raw_len k \<le> length (token_ids k)"
    by (auto simp: key_len_def raw_len_le)
  show "key_units (key_slice a b k) ! i = take (b - a) (drop a (key_units k)) ! i"
  proof (cases "is_bigram k")
    case True
    then have "Suc (a + i) < length (token_ids k)" using i raw_len_le [of k] by (auto simp: key_len_def)
    moreover have "min a (key_len k) = a" "a < min b (key_len k)" "i < min b (key_len k) - a" using i by auto
    ultimately show ?thesis using True i
      by (simp add: units_bigram key_slice_def Let_def key_units_raw nth_tl del: min_less_iff_conj)
  next
    case False
    then show ?thesis using i len by (simp add: units_tok key_slice_def Let_def key_units_raw)
  qed
qed

lemma key_from_units [simp]: "key_units (key_from a k) = drop a (key_units k)"
  by (simp add: key_from_def key_units_slice)

lemma key_from_sel [simp]:
  "extra_key (key_from a k) = extra_key k" "is_bigram (key_from a k) = is_bigram k" "key_len (key_from a k) = key_len k - a"
  by (simp_all add: key_from_def)

lemma page_aligned_units: "0 < page \<Longrightarrow> key_units (page_aligned page k) = take (key_len k div page * page) (key_units k)"
  by (simp add: page_aligned_def key_units_slice)

lemma page_aligned_sel [simp]:
  "extra_key (page_aligned page k) = extra_key k" "is_bigram (page_aligned page k) = is_bigram k"
  by (simp_all add: page_aligned_def)

lemma page_aligned_len: "0 < page \<Longrightarrow> key_len (page_aligned page k) = key_len k div page * page"
  by (simp add: page_aligned_def)

section \<open>What a match and a child key are\<close>

lemma common_len_take: "common_len (take a xs) (take b ys) = min (min (common_len xs ys) a) b"
proof (rule common_len_eqI)
  let ?m = "min (min (common_len xs ys) a) b"
  have m: "?m \<le> common_len xs ys" by simp
  then show "?m \<le> length (take a xs)" "?m \<le> length (take b ys)"
    using common_len_le [of xs ys] by auto
  show "take ?m (take a xs) = take ?m (take b ys)" using m by (simp add: common_len_iff min.absorb1)
  assume lt: "?m < length (take a xs)" "?m < length (take b ys)"
  show "take (Suc ?m) (take a xs) \<noteq> take (Suc ?m) (take b ys)"
  proof
    assume "take (Suc ?m) (take a xs) = take (Suc ?m) (take b ys)"
    moreover have "Suc ?m \<le> a" "Suc ?m \<le> b" "Suc ?m \<le> length xs" "Suc ?m \<le> length ys" using lt by auto
    ultimately have "Suc ?m \<le> common_len xs ys" by (simp add: common_len_iff min.absorb1)
    with \<open>Suc ?m \<le> a\<close> \<open>Suc ?m \<le> b\<close> show False by linarith
  qed
qed

lemma common_len_map: "inj f \<Longrightarrow> common_len (map f xs) (map f ys) = common_len xs ys"
  by (induction xs ys rule: longest_common_prefix.induct) (auto simp: common_len_def inj_eq)

lemma common_len_bigrams: "common_len (map2 Bigram xs (tl xs)) (map2 Bigram ys (tl ys)) = common_len xs ys - 1"
proof (induction xs ys rule: longest_common_prefix.induct)
  case (1 x xs y ys)
  then show ?case by (cases xs; cases ys) (auto simp: common_len_def)
qed (auto simp: common_len_def)

lemma key_match_common:
  assumes "extra_key k = extra_key other" "is_bigram k = is_bigram other"
  shows "key_match page k other = Inr (common_len (key_units k) (key_units other) div page * page)"
proof -
  let ?c = "common_len (token_ids k) (token_ids other)"
  have g: "gallop (token_ids k) (token_ids other) (min (length (token_ids k)) (length (token_ids other))) 0 0 = ?c"
    by (rule gallop_common) auto
  have "common_len (key_units k) (key_units other) = min (min (if is_bigram k then ?c - 1 else ?c) (key_len k)) (key_len other)"
  proof (cases "is_bigram k")
    case True
    with assms(2) show ?thesis by (simp add: units_bigram common_len_take common_len_bigrams)
  next
    case False
    moreover have "inj Tok" by (auto intro: injI)
    ultimately show ?thesis using assms(2) by (simp add: units_tok common_len_take common_len_map)
  qed
  then show ?thesis using assms(1) g by (simp add: key_match_def Let_def)
qed

lemma child_key_units:
  assumes "0 < page" "page \<le> key_len k"
  shows "child_key page k = Inr (extra_key k, take page (key_units k))"
proof (cases "is_bigram k")
  case True
  then have "page < length (token_ids k)" using assms raw_len_le [of k] by (auto simp: key_len_def)
  with True assms show ?thesis
    by (simp add: child_key_def Let_def units_bigram take_map take_zip min.absorb1)
next
  case False
  then have "page \<le> length (token_ids k)" using assms raw_len_le [of k] by (auto simp: key_len_def)
  with assms have "token_ids k \<noteq> []" by auto
  with False assms show ?thesis
    by (cases "page = 1") (auto simp: child_key_def Let_def units_tok take_map min.absorb1 split: list.split)
qed

end
