(* ===== verification/RadixTree.thy ===== *)
theory RadixTree
  imports RadixKey RequestQueue
begin

text \<open>
  SGLang's radix cache (\<open>mem_cache/radix_cache.py\<close>, classes \<open>TreeNode\<close> and \<open>RadixCache\<close>) and its eviction
  strategies (\<open>mem_cache/evict_policy.py\<close>). Node objects live in a store addressed by number; a node that is
  no longer in the tree stays in the store. A node's dict of children maps a child key to a node.

  \<^item> The clock is an argument: one reading serves a whole call. The set of evictable leaves is listed for the
    heap in an order that is an argument as well.
  \<^item> \<open>frees\<close> is the list of the calls of the allocator's \<open>free\<close>, in their order.
  \<^item> An exception is an \<open>Inl\<close>; the state it leaves behind is not part of the result. A loop that may not end is a
    partial function into \<open>option\<close>.
  \<^item> The page size is positive. KV-cache events (and the page hashes made for them), metrics and the host side of
    a node, which this class leaves empty, are left out.
\<close>

declare map_of_eq_Some_iff [simp del]

section \<open>State\<close>

type_synonym child_id = "string option \<times> radix_unit list"

record tree_node =
  node_children :: "(child_id, nat) dict"
  node_parent :: "nat option"
  node_key :: radix_key
  node_value :: "int list option"
  lock_ref :: int
  last_access_time :: real
  creation_time :: real
  hit_count :: int
  node_priority :: int

text \<open>\<open>TreeNode(priority=...)\<close>; its key is assigned by every caller.\<close>

definition new_tree_node :: "real \<Rightarrow> int \<Rightarrow> tree_node" where
  "new_tree_node now prio =
     \<lparr>node_children = [], node_parent = None, node_key = raw_key [] None False, node_value = None, lock_ref = 0,
      last_access_time = now, creation_time = now, hit_count = 0, node_priority = prio\<rparr>"

datatype eviction_strategy = LRU | LFU | FIFO | MRU | FILO | PriorityStrategy | SLRU int

record radix_cache =
  disable :: bool
  page_size :: nat
  is_eagle :: bool
  disable_finished_insert :: bool
  strategy :: eviction_strategy
  tree_nodes :: "nat \<Rightarrow> tree_node"
  node_counter :: nat
  root_node :: nat
  evictable_size :: int
  protected_size :: int
  evictable_leaves :: "nat set"
  frees :: "int list list"

abbreviation node :: "radix_cache \<Rightarrow> nat \<Rightarrow> tree_node" where
  "node c n \<equiv> tree_nodes c n"

definition update_node :: "nat \<Rightarrow> (tree_node \<Rightarrow> tree_node) \<Rightarrow> radix_cache \<Rightarrow> radix_cache" where
  "update_node n f c = c\<lparr>tree_nodes := (tree_nodes c)(n := f (tree_nodes c n))\<rparr>"

definition alloc_node :: "tree_node \<Rightarrow> radix_cache \<Rightarrow> nat \<times> radix_cache" where
  "alloc_node nd c = (node_counter c, c\<lparr>tree_nodes := (tree_nodes c)(node_counter c := nd), node_counter := Suc (node_counter c)\<rparr>)"

section \<open>Eviction strategies\<close>

text \<open>A scalar priority is the second component of a pair whose first component is 0.\<close>

fun get_priority :: "eviction_strategy \<Rightarrow> tree_node \<Rightarrow> int \<times> real" where
  "get_priority LRU nd = (0, last_access_time nd)"
| "get_priority LFU nd = (hit_count nd, last_access_time nd)"
| "get_priority FIFO nd = (0, creation_time nd)"
| "get_priority MRU nd = (0, - last_access_time nd)"
| "get_priority FILO nd = (0, - creation_time nd)"
| "get_priority PriorityStrategy nd = (node_priority nd, last_access_time nd)"
| "get_priority (SLRU threshold) nd = (if threshold \<le> hit_count nd then 1 else 0, last_access_time nd)"

definition get_eviction_strategy :: "string \<Rightarrow> py_error + eviction_strategy" where
  "get_eviction_strategy policy =
     (case map_of [(''lru'', LRU), (''lfu'', LFU), (''fifo'', FIFO), (''mru'', MRU), (''filo'', FILO),
                   (''priority'', PriorityStrategy), (''slru'', SLRU 2)] policy of
        Some s \<Rightarrow> Inr s | None \<Rightarrow> Inl ValueError)"

section \<open>Creation and reset\<close>

definition reset_cache :: "real \<Rightarrow> radix_cache \<Rightarrow> radix_cache" where
  "reset_cache now c =
     (let root = (new_tree_node now (- (2 ^ 63 - 1)))\<lparr>node_key := raw_key [] None False, node_value := Some [], lock_ref := 1\<rparr>;
          (r, c) = alloc_node root c
      in c\<lparr>root_node := r, evictable_size := 0, protected_size := 0, evictable_leaves := {}\<rparr>)"

text \<open>The constructor; the name of the policy is given in lower case. Node numbers go on from \<open>counter\<close>.\<close>

definition init_cache :: "real \<Rightarrow> bool \<Rightarrow> nat \<Rightarrow> bool \<Rightarrow> bool \<Rightarrow> string \<Rightarrow> py_error + radix_cache" where
  "init_cache now dis page eagle no_finished policy =
     (case get_eviction_strategy policy of
        Inl e \<Rightarrow> Inl e
      | Inr s \<Rightarrow> Inr (reset_cache now
          \<lparr>disable = dis, page_size = page, is_eagle = eagle, disable_finished_insert = no_finished, strategy = s,
           tree_nodes = (\<lambda>_. new_tree_node now 0), node_counter = 0, root_node = 0, evictable_size = 0,
           protected_size = 0, evictable_leaves = {}, frees = []\<rparr>))"

section \<open>Leaves\<close>

definition evicted :: "tree_node \<Rightarrow> bool" where
  "evicted nd \<longleftrightarrow> node_value nd = None"

definition update_leaf_status :: "nat \<Rightarrow> radix_cache \<Rightarrow> radix_cache" where
  "update_leaf_status n c =
     (if evicted (node c n) \<or> 0 < lock_ref (node c n) then c\<lparr>evictable_leaves := evictable_leaves c - {n}\<rparr>
      else if list_ex (\<lambda>ch. \<not> evicted (node c ch)) (dict_values (node_children (node c n)))
      then c\<lparr>evictable_leaves := evictable_leaves c - {n}\<rparr>
      else c\<lparr>evictable_leaves := insert n (evictable_leaves c)\<rparr>)"

definition delete_leaf :: "nat \<Rightarrow> radix_cache \<Rightarrow> py_error + radix_cache" where
  "delete_leaf n c =
     (case child_key (page_size c) (node_key (node c n)) of
        Inl e \<Rightarrow> Inl e
      | Inr ck \<Rightarrow>
          (case node_parent (node c n) of
             None \<Rightarrow> Inl AttributeError
           | Some p \<Rightarrow>
               (let v = map_of (node_children (node c p)) ck;
                    c = update_node p (\<lambda>nd. nd\<lparr>node_children := AList.delete ck (node_children nd)\<rparr>) c
                in if v \<noteq> Some n then Inl AssertionError
                   else
                     let c = c\<lparr>evictable_size := evictable_size c - int (key_len (node_key (node c n))),
                               evictable_leaves := evictable_leaves c - {n}\<rparr>
                     in Inr (update_leaf_status p c))))"

section \<open>Splitting a node\<close>

definition split_node :: "real \<Rightarrow> radix_key \<Rightarrow> nat \<Rightarrow> nat \<Rightarrow> radix_cache \<Rightarrow> py_error + nat \<times> radix_cache" where
  "split_node now k child split_len c =
     (let ch = node c child;
          (new_node, c) = alloc_node ((new_tree_node now (node_priority ch))\<lparr>hit_count := hit_count ch\<rparr>) c
      in
      case child_key (page_size c) (key_from split_len k) of
        Inl e \<Rightarrow> Inl e
      | Inr ck \<Rightarrow>
          (case node_value ch of
             None \<Rightarrow> Inl TypeError
           | Some v \<Rightarrow>
               let c = update_node new_node (\<lambda>nd. nd\<lparr>
                         node_children := [(ck, child)],
                         node_parent := node_parent ch,
                         lock_ref := lock_ref ch,
                         node_key := key_slice 0 split_len (node_key ch),
                         node_value := Some (take split_len v)\<rparr>) c;
                   c = update_node child (\<lambda>nd. nd\<lparr>
                         node_parent := Some new_node,
                         node_key := key_from split_len (node_key ch),
                         node_value := Some (drop split_len v)\<rparr>) c
               in
               case node_parent ch of
                 None \<Rightarrow> Inl AttributeError
               | Some p \<Rightarrow>
                   (case child_key (page_size c) k of
                      Inl e \<Rightarrow> Inl e
                    | Inr ck' \<Rightarrow>
                        Inr (new_node, update_node p (\<lambda>nd. nd\<lparr>node_children := AList.update ck' new_node (node_children nd)\<rparr>) c))))"

section \<open>Matching a prefix\<close>

text \<open>The loop of \<open>_match_prefix_helper\<close>, with its variables \<open>node\<close>, \<open>key\<close>, \<open>child_key\<close> and \<open>value\<close>.\<close>

partial_function (option) match_walk ::
    "real \<Rightarrow> nat \<Rightarrow> radix_key \<Rightarrow> child_id \<Rightarrow> int list option list \<Rightarrow> radix_cache \<Rightarrow>
     (py_error + int list option list \<times> nat \<times> radix_cache) option" where
  "match_walk now n k ck vs c =
     (if 0 < key_len k
      then
        case map_of (node_children (node c n)) ck of
          None \<Rightarrow> Some (Inr (vs, n, c))
        | Some child \<Rightarrow>
            (let c = update_node child (\<lambda>nd. nd\<lparr>last_access_time := now\<rparr>) c in
             case key_match (page_size c) (node_key (node c child)) k of
               Inl e \<Rightarrow> Some (Inl e)
             | Inr prefix_len \<Rightarrow>
                 if prefix_len < key_len (node_key (node c child))
                 then
                   case split_node now (node_key (node c child)) child prefix_len c of
                     Inl e \<Rightarrow> Some (Inl e)
                   | Inr (new_node, c) \<Rightarrow> Some (Inr (vs @ [node_value (node c new_node)], new_node, c))
                 else
                   let vs = vs @ [node_value (node c child)]; k = key_from prefix_len k in
                   case (if 0 < key_len k then child_key (page_size c) k else Inr ck) of
                     Inl e \<Rightarrow> Some (Inl e)
                   | Inr ck \<Rightarrow> match_walk now child k ck vs c)
      else Some (Inr (vs, n, c)))"

definition match_prefix_helper ::
    "real \<Rightarrow> nat \<Rightarrow> radix_key \<Rightarrow> radix_cache \<Rightarrow> (py_error + int list option list \<times> nat \<times> radix_cache) option" where
  "match_prefix_helper now n k c =
     (let c = update_node n (\<lambda>nd. nd\<lparr>last_access_time := now\<rparr>) c in
      case child_key (page_size c) k of
        Inl e \<Rightarrow> Some (Inl e)
      | Inr ck \<Rightarrow> match_walk now n k ck [] c)"

text \<open>The result is the device indices and the last node. \<open>torch.cat\<close> fails on a node without a value.\<close>

definition match_prefix ::
    "real \<Rightarrow> radix_key \<Rightarrow> radix_cache \<Rightarrow> (py_error + (int list \<times> nat) \<times> radix_cache) option" where
  "match_prefix now k c =
     (let (k, _) = maybe_to_bigram_view (is_eagle c) (None :: int list option) k in
      if disable c \<or> key_len k = 0 then Some (Inr (([], root_node c), c))
      else
        let k = page_aligned (page_size c) k in
        if key_len k = 0 then Some (Inr (([], root_node c), c))
        else
          case match_prefix_helper now (root_node c) k c of
            None \<Rightarrow> None
          | Some (Inl e) \<Rightarrow> Some (Inl e)
          | Some (Inr (vs, n, c)) \<Rightarrow>
              (case those vs of
                 None \<Rightarrow> Some (Inl TypeError)
               | Some vs \<Rightarrow> Some (Inr ((concat vs, n), c))))"

section \<open>Inserting\<close>

definition inc_hit_count :: "nat \<Rightarrow> bool \<Rightarrow> radix_cache \<Rightarrow> radix_cache" where
  "inc_hit_count n chunked c = (if chunked then c else update_node n (\<lambda>nd. nd\<lparr>hit_count := hit_count nd + 1\<rparr>) c)"

definition raise_priority :: "nat \<Rightarrow> int \<Rightarrow> radix_cache \<Rightarrow> radix_cache" where
  "raise_priority n prio c = update_node n (\<lambda>nd. nd\<lparr>node_priority := max (node_priority nd) prio\<rparr>) c"

text \<open>The loop of \<open>_insert_helper\<close>, with \<open>node\<close>, \<open>key\<close>, \<open>child_key\<close>, \<open>value\<close> and \<open>total_prefix_length\<close>.\<close>

partial_function (option) insert_walk ::
    "real \<Rightarrow> int \<Rightarrow> bool \<Rightarrow> nat \<Rightarrow> radix_key \<Rightarrow> child_id \<Rightarrow> int list \<Rightarrow> nat \<Rightarrow> radix_cache \<Rightarrow>
     (py_error + (nat \<times> radix_key \<times> child_id \<times> int list \<times> nat) \<times> radix_cache) option" where
  "insert_walk now prio chunked n k ck v tot c =
     (if 0 < key_len k
      then
        case map_of (node_children (node c n)) ck of
          None \<Rightarrow> Some (Inr ((n, k, ck, v, tot), c))
        | Some n \<Rightarrow>
            (let c = update_node n (\<lambda>nd. nd\<lparr>last_access_time := now\<rparr>) c in
             case key_match (page_size c) (node_key (node c n)) k of
               Inl e \<Rightarrow> Some (Inl e)
             | Inr prefix_len \<Rightarrow>
                 (let tot = tot + prefix_len; k = key_from prefix_len k; v = drop prefix_len v in
                  case (if prefix_len < key_len (node_key (node c n))
                        then (case split_node now (node_key (node c n)) n prefix_len c of
                                Inl e \<Rightarrow> Inl e
                              | Inr (new_node, c) \<Rightarrow> Inr (new_node, inc_hit_count new_node chunked (raise_priority new_node prio c)))
                        else Inr (n, inc_hit_count n chunked (raise_priority n prio c))) of
                    Inl e \<Rightarrow> Some (Inl e)
                  | Inr (n, c) \<Rightarrow>
                      (case (if 0 < key_len k then child_key (page_size c) k else Inr ck) of
                         Inl e \<Rightarrow> Some (Inl e)
                       | Inr ck \<Rightarrow> insert_walk now prio chunked n k ck v tot c)))
      else Some (Inr ((n, k, ck, v, tot), c)))"

definition add_leaf :: "real \<Rightarrow> int \<Rightarrow> bool \<Rightarrow> nat \<Rightarrow> radix_key \<Rightarrow> child_id \<Rightarrow> int list \<Rightarrow> radix_cache \<Rightarrow> radix_cache" where
  "add_leaf now prio chunked n k ck v c =
     (let (new_node, c) = alloc_node (new_tree_node now prio) c;
          c = update_node new_node (\<lambda>nd. nd\<lparr>node_parent := Some n, node_key := k, node_value := Some v\<rparr>) c;
          c = inc_hit_count new_node chunked c;
          c = update_node n (\<lambda>nd. nd\<lparr>node_children := AList.update ck new_node (node_children nd)\<rparr>) c;
          c = c\<lparr>evictable_size := evictable_size c + int (key_len k)\<rparr>
      in update_leaf_status new_node (update_leaf_status n c))"

definition insert_helper ::
    "real \<Rightarrow> nat \<Rightarrow> radix_key \<Rightarrow> int list \<Rightarrow> int option \<Rightarrow> bool \<Rightarrow> radix_cache \<Rightarrow> (py_error + nat \<times> radix_cache) option" where
  "insert_helper now n k v prio chunked c =
     (let prio = (case prio of None \<Rightarrow> 0 | Some p \<Rightarrow> p);
          c = raise_priority n prio (update_node n (\<lambda>nd. nd\<lparr>last_access_time := now\<rparr>) c)
      in
      if key_len k = 0 then Some (Inr (0, c))
      else
        case child_key (page_size c) k of
          Inl e \<Rightarrow> Some (Inl e)
        | Inr ck \<Rightarrow>
            (case insert_walk now prio chunked n k ck v 0 c of
               None \<Rightarrow> None
             | Some (Inl e) \<Rightarrow> Some (Inl e)
             | Some (Inr ((n, k, ck, v, tot), c)) \<Rightarrow>
                 Some (Inr (tot, if 0 < key_len k then add_leaf now prio chunked n k ck v c else c))))"

text \<open>\<open>insert\<close> returns the length of the prefix that was cached before.\<close>

definition insert_key ::
    "real \<Rightarrow> radix_key \<Rightarrow> int list option \<Rightarrow> int option \<Rightarrow> bool \<Rightarrow> radix_cache \<Rightarrow> (py_error + nat \<times> radix_cache) option" where
  "insert_key now k v prio chunked c =
     (if disable c then Some (Inr (0, c))
      else
        let (k, v) = maybe_to_bigram_view (is_eagle c) v k;
            k = page_aligned (page_size c) k;
            v = (case v of Some v \<Rightarrow> take (key_len k) v | None \<Rightarrow> take (key_len k) (token_ids k))
        in insert_helper now (root_node c) k v prio chunked c)"

section \<open>Locks\<close>

partial_function (option) inc_lock_walk :: "nat \<Rightarrow> int \<Rightarrow> radix_cache \<Rightarrow> (py_error + int \<times> radix_cache) option" where
  "inc_lock_walk n delta c =
     (if n = root_node c then Some (Inr (delta, c))
      else
        let len = int (key_len (node_key (node c n)));
            free = (lock_ref (node c n) = 0);
            c = (if free then c\<lparr>evictable_size := evictable_size c - len, protected_size := protected_size c + len\<rparr> else c);
            delta = (if free then delta - len else delta);
            c = update_leaf_status n (update_node n (\<lambda>nd. nd\<lparr>lock_ref := lock_ref nd + 1\<rparr>) c)
        in
        case node_parent (node c n) of
          None \<Rightarrow> Some (Inl AttributeError)
        | Some p \<Rightarrow> inc_lock_walk p delta c)"

definition inc_lock_ref :: "nat \<Rightarrow> radix_cache \<Rightarrow> (py_error + int \<times> radix_cache) option" where
  "inc_lock_ref n c = (if disable c then Some (Inr (0, c)) else inc_lock_walk n 0 c)"

partial_function (option) dec_lock_walk :: "nat \<Rightarrow> int \<Rightarrow> radix_cache \<Rightarrow> (py_error + int \<times> radix_cache) option" where
  "dec_lock_walk n delta c =
     (if n = root_node c then Some (Inr (delta, c))
      else
        let len = int (key_len (node_key (node c n)));
            final = (lock_ref (node c n) = 1);
            c = (if final then c\<lparr>evictable_size := evictable_size c + len, protected_size := protected_size c - len\<rparr> else c);
            delta = (if final then delta + len else delta);
            c = update_leaf_status n (update_node n (\<lambda>nd. nd\<lparr>lock_ref := lock_ref nd - 1\<rparr>) c)
        in
        case node_parent (node c n) of
          None \<Rightarrow> Some (Inl AssertionError)
        | Some p \<Rightarrow> dec_lock_walk p delta c)"

definition dec_lock_ref :: "nat \<Rightarrow> radix_cache \<Rightarrow> (py_error + int \<times> radix_cache) option" where
  "dec_lock_ref n c = (if disable c then Some (Inr (0, c)) else dec_lock_walk n 0 c)"

section \<open>Eviction\<close>

text \<open>An entry of the heap is a pair of a priority and a node; equal priorities compare the nodes by access time.\<close>

definition heap_key :: "radix_cache \<Rightarrow> (int \<times> real) \<times> nat \<Rightarrow> (int \<times> real) \<times> real" where
  "heap_key c e = (fst e, last_access_time (node c (snd e)))"

definition heap_entry :: "radix_cache \<Rightarrow> nat \<Rightarrow> (int \<times> real) \<times> nat" where
  "heap_entry c n = (get_priority (strategy c) (node c n), n)"

partial_function (option) evict_walk ::
    "nat \<Rightarrow> nat \<Rightarrow> ((int \<times> real) \<times> nat) list \<Rightarrow> radix_cache \<Rightarrow> (py_error + nat \<times> radix_cache) option" where
  "evict_walk num_tokens num_evicted hp c =
     (if num_evicted < num_tokens \<and> hp \<noteq> []
      then
        case heappop (heap_key c) hp of
          Inl e \<Rightarrow> Some (Inl e)
        | Inr (e, hp) \<Rightarrow>
            (let x = snd e in
             case node_value (node c x) of
               None \<Rightarrow> Some (Inl AttributeError)
             | Some v \<Rightarrow>
                 (let c = c\<lparr>frees := frees c @ [v]\<rparr> in
                  case delete_leaf x c of
                    Inl e \<Rightarrow> Some (Inl e)
                  | Inr c \<Rightarrow>
                      (case node_parent (node c x) of
                         None \<Rightarrow> Some (Inl AttributeError)
                       | Some p \<Rightarrow>
                           evict_walk num_tokens (num_evicted + length v)
                             (if node_children (node c p) = [] \<and> lock_ref (node c p) = 0
                              then heappush (heap_key c) (heap_entry c p) hp else hp) c)))
      else Some (Inr (num_evicted, c)))"

definition evict_leaves :: "nat \<Rightarrow> nat list \<Rightarrow> radix_cache \<Rightarrow> (py_error + nat \<times> radix_cache) option" where
  "evict_leaves num_tokens leaves c =
     (if disable c then Some (Inr (0, c))
      else evict_walk num_tokens 0 (heapify (heap_key c) (map (heap_entry c) leaves)) c)"

section \<open>Sizes\<close>

partial_function (option) size_walk :: "radix_cache \<Rightarrow> nat \<Rightarrow> nat list \<Rightarrow> (py_error + nat) option" where
  "size_walk c tot stack =
     (if stack = [] then Some (Inr tot)
      else
        let n = List.last stack; stack = butlast stack in
        case node_value (node c n) of
          None \<Rightarrow> Some (Inl TypeError)
        | Some v \<Rightarrow>
            size_walk c (tot + length v)
              (stack @ filter (\<lambda>ch. \<not> evicted (node c ch)) (dict_values (node_children (node c n)))))"

definition total_size :: "radix_cache \<Rightarrow> (py_error + nat) option" where
  "total_size c = size_walk c 0 [root_node c]"

declare match_walk.simps [code] insert_walk.simps [code] inc_lock_walk.simps [code] dec_lock_walk.simps [code]
  evict_walk.simps [code] size_walk.simps [code]

end
