(* ===== verification/RadixInv.thy ===== *)
theory RadixInv
  imports RadixTree "HOL-Library.Multiset"
begin

text \<open>
  The invariant of SGLang's radix cache. A set of live nodes, the key of the path from the root to each of them
  and the slots on that path are ghosts. The tree part relates parents, children and keys; the other parts say
  that the lock count of a node is the number of held handles below it, that the two sizes are sums over the
  nodes and that the evictable leaves are the unlocked nodes without a child. This theory states the invariant,
  gives the facts of the tree and shows the effect of the single changes: a split, a new leaf, a deleted leaf.
\<close>

declare map_of_eq_Some_iff [simp del]

section \<open>Labelled units\<close>

type_synonym lunit = "string option \<times> radix_unit"

definition lunits :: "radix_key \<Rightarrow> lunit list" where
  "lunits k = map (Pair (extra_key k)) (key_units k)"

definition page_key :: "nat \<Rightarrow> radix_key \<Rightarrow> child_id" where
  "page_key page k = (extra_key k, take page (key_units k))"

definition first_page :: "nat \<Rightarrow> lunit list \<Rightarrow> child_id" where
  "first_page page us = (fst (hd us), map snd (take page us))"

lemma length_lunits [simp]: "length (lunits k) = key_len k"
  by (simp add: lunits_def)

lemma lunits_from: "lunits (key_from m k) = drop m (lunits k)"
  by (simp add: lunits_def drop_map)

lemma lunits_slice: "lunits (key_slice 0 m k) = take m (lunits k)"
  by (simp add: lunits_def take_map key_units_slice)

lemma lunits_aligned: "0 < page \<Longrightarrow> lunits (page_aligned page k) = take (key_len k div page * page) (lunits k)"
  by (simp add: lunits_def take_map page_aligned_units)

lemma first_page_lunits: "0 < key_len k \<Longrightarrow> first_page page (lunits k) = page_key page k"
  using length_key_units [of k]
  by (cases "key_units k = []") (simp_all add: first_page_def page_key_def lunits_def take_map o_def hd_map del: length_key_units)

lemma first_page_prefix: "0 < page \<Longrightarrow> page \<le> length us \<Longrightarrow> prefix us ws \<Longrightarrow> first_page page ws = first_page page us"
  by (cases "us = []") (auto simp: first_page_def prefix_def)

lemma page_le: "0 < page \<Longrightarrow> page dvd n \<Longrightarrow> 0 < n \<Longrightarrow> page \<le> (n::nat)"
  by (simp add: dvd_imp_le)

lemma key_match_lunits:
  assumes "page_key page k = page_key page k'" "0 < page" "0 < key_len k" "0 < key_len k'"
  shows "key_match page k k' = Inr (common_len (lunits k) (lunits k') div page * page)"
proof -
  have e: "extra_key k = extra_key k'" using assms(1) by (simp add: page_key_def)
  obtain u us where u: "key_units k = u # us" using assms(3) by (cases "key_units k") (auto simp flip: length_key_units)
  obtain u' us' where u': "key_units k' = u' # us'" using assms(4) by (cases "key_units k'") (auto simp flip: length_key_units)
  have "u = u'" using assms(1,2) u u' by (cases page) (auto simp: page_key_def)
  moreover have "\<exists>a b. v = Bigram a b" if "is_bigram j" "v \<in> set (key_units j)" for j v
    using that by (auto simp: key_units_def Let_def)
  moreover have "\<exists>a. v = Tok a" if "\<not> is_bigram j" "v \<in> set (key_units j)" for j v
    using that by (auto simp: key_units_def Let_def)
  ultimately have "is_bigram k = is_bigram k'" using u u' by (metis list.set_intros(1) radix_unit.distinct(1))
  then have "key_match page k k' = Inr (common_len (key_units k) (key_units k') div page * page)"
    using e by (rule key_match_common [rotated])
  moreover have "common_len (lunits k) (lunits k') = common_len (key_units k) (key_units k')"
    unfolding lunits_def e by (rule common_len_map) (auto intro: injI)
  ultimately show ?thesis by simp
qed

lemma child_key_page: "0 < page \<Longrightarrow> page dvd key_len k \<Longrightarrow> 0 < key_len k \<Longrightarrow> child_key page k = Inr (page_key page k)"
  by (simp add: child_key_units page_le page_key_def)

section \<open>The tree\<close>

definition edge_ok :: "radix_cache \<Rightarrow> (nat \<Rightarrow> lunit list) \<Rightarrow> (nat \<Rightarrow> int list) \<Rightarrow> nat \<Rightarrow> nat \<Rightarrow> bool" where
  "edge_ok c F V p n \<longleftrightarrow>
     node_parent (node c n) = Some p \<and>
     F n = F p @ lunits (node_key (node c n)) \<and>
     (\<exists>v. node_value (node c n) = Some v \<and> length v = key_len (node_key (node c n)) \<and> V n = V p @ v) \<and>
     0 < key_len (node_key (node c n)) \<and> page_size c dvd key_len (node_key (node c n)) \<and>
     map_of (node_children (node c p)) (page_key (page_size c) (node_key (node c n))) = Some n"

definition children_ok :: "radix_cache \<Rightarrow> nat set \<Rightarrow> nat \<Rightarrow> bool" where
  "children_ok c L n \<longleftrightarrow>
     dict_wf (node_children (node c n)) \<and>
     (\<forall>ck m. map_of (node_children (node c n)) ck = Some m \<longrightarrow>
        m \<in> L \<and> m \<noteq> root_node c \<and> node_parent (node c m) = Some n \<and> ck = page_key (page_size c) (node_key (node c m)))"

definition tree_ok :: "radix_cache \<Rightarrow> nat set \<Rightarrow> (nat \<Rightarrow> lunit list) \<Rightarrow> (nat \<Rightarrow> int list) \<Rightarrow> bool" where
  "tree_ok c L F V \<longleftrightarrow>
     0 < page_size c \<and> finite L \<and> root_node c \<in> L \<and> (\<forall>n\<in>L. n < node_counter c) \<and>
     F (root_node c) = [] \<and> V (root_node c) = [] \<and> node_parent (node c (root_node c)) = None \<and>
     node_value (node c (root_node c)) = Some [] \<and>
     (\<forall>n\<in>L. n \<noteq> root_node c \<longrightarrow> (\<exists>p\<in>L. edge_ok c F V p n)) \<and>
     (\<forall>n\<in>L. children_ok c L n)"

lemma tree_okD:
  assumes "tree_ok c L F V"
  shows "0 < page_size c" "finite L" "root_node c \<in> L" "F (root_node c) = []" "V (root_node c) = []"
    "node_parent (node c (root_node c)) = None" "node_value (node c (root_node c)) = Some []"
    "n \<in> L \<Longrightarrow> n < node_counter c"
    "n \<in> L \<Longrightarrow> n \<noteq> root_node c \<Longrightarrow> \<exists>p\<in>L. edge_ok c F V p n"
    "n \<in> L \<Longrightarrow> children_ok c L n"
  using assms by (auto simp: tree_ok_def)

lemma tree_parent:
  assumes "tree_ok c L F V" "n \<in> L" "n \<noteq> root_node c"
  obtains p v where "p \<in> L" "node_parent (node c n) = Some p" "F n = F p @ lunits (node_key (node c n))"
    "node_value (node c n) = Some v" "length v = key_len (node_key (node c n))" "V n = V p @ v"
    "0 < key_len (node_key (node c n))" "page_size c dvd key_len (node_key (node c n))"
    "map_of (node_children (node c p)) (page_key (page_size c) (node_key (node c n))) = Some n"
  using tree_okD(9) [OF assms] by (auto simp: edge_ok_def)

lemma tree_child:
  assumes "tree_ok c L F V" "n \<in> L" "map_of (node_children (node c n)) ck = Some m"
  shows "m \<in> L" "m \<noteq> root_node c" "node_parent (node c m) = Some n" "ck = page_key (page_size c) (node_key (node c m))"
    "edge_ok c F V n m" "n \<noteq> m"
proof -
  show m: "m \<in> L" "m \<noteq> root_node c" and par: "node_parent (node c m) = Some n"
    and "ck = page_key (page_size c) (node_key (node c m))"
    using tree_okD(10) [OF assms(1,2)] assms(3) unfolding children_ok_def by blast+
  obtain p where p: "p \<in> L" "edge_ok c F V p m" using tree_okD(9) [OF assms(1) m] by blast
  with par show e: "edge_ok c F V n m" by (auto simp: edge_ok_def)
  have "lunits (node_key (node c m)) \<noteq> []" using e by (auto simp: edge_ok_def simp flip: length_0_conv)
  then show "n \<noteq> m" using e by (auto simp: edge_ok_def)
qed

lemma edge_longer:
  assumes "edge_ok c F V p n"
  shows "length (F p) < length (F n)" "length (F n) = length (F p) + key_len (node_key (node c n))" "prefix (F p) (F n)"
  using assms by (auto simp: edge_ok_def prefix_def)

lemma tree_lengths:
  assumes "tree_ok c L F V" "n \<in> L"
  shows "length (V n) = length (F n) \<and> page_size c dvd length (F n)"
  using assms(2)
proof (induction "length (F n)" arbitrary: n rule: less_induct)
  case less
  show ?case
  proof (cases "n = root_node c")
    case True
    then show ?thesis using tree_okD(4,5) [OF assms(1)] by simp
  next
    case False
    then obtain p v where p: "p \<in> L" "F n = F p @ lunits (node_key (node c n))" "length v = key_len (node_key (node c n))"
      "V n = V p @ v" "0 < key_len (node_key (node c n))" "page_size c dvd key_len (node_key (node c n))"
      by (rule tree_parent [OF assms(1) less.prems])
    then show ?thesis using less.hyps [of p] by simp
  qed
qed

text \<open>The ancestors of a node are the live nodes whose path is a prefix of its path.\<close>

inductive anc :: "radix_cache \<Rightarrow> nat \<Rightarrow> nat \<Rightarrow> bool" for c where
  anc_refl: "anc c n n"
| anc_step: "anc c m p \<Longrightarrow> node_parent (node c n) = Some p \<Longrightarrow> anc c m n"

lemma anc_prefix: "anc c m n \<Longrightarrow> tree_ok c L F V \<Longrightarrow> n \<in> L \<Longrightarrow> m \<in> L \<and> prefix (F m) (F n)"
proof (induction rule: anc.induct)
  case (anc_step m p n)
  have "n \<noteq> root_node c" using anc_step.hyps(2) tree_okD(6) [OF anc_step.prems(1)] by auto
  then obtain p' where "p' \<in> L" "edge_ok c F V p' n" using tree_okD(9) [OF anc_step.prems] by blast
  then show ?case using anc_step edge_longer(3) [of c F V p' n] by (auto simp: edge_ok_def intro: prefix_order.trans)
qed simp

lemma anc_below: "anc c m n \<Longrightarrow> m \<noteq> n \<Longrightarrow> \<exists>x. node_parent (node c x) = Some m \<and> anc c x n"
proof (induction rule: anc.induct)
  case (anc_step m p n)
  then show ?case by (cases "m = p") (auto intro: anc.intros)
qed simp

lemma root_anc:
  assumes ok: "tree_ok c L F V" and "n \<in> L"
  shows "anc c (root_node c) n"
  using assms(2)
proof (induction "length (F n)" arbitrary: n rule: less_induct)
  case less
  show ?case
  proof (cases "n = root_node c")
    case False
    then obtain p where "p \<in> L" "edge_ok c F V p n" using tree_okD(9) [OF ok less.prems] by blast
    then show ?thesis using less.hyps [of p] edge_longer(1) [of c F V p n] by (auto simp: edge_ok_def intro: anc_step)
  qed (simp add: anc_refl)
qed

lemma child_first_page:
  assumes "0 < page_size c" "edge_ok c F V m x" "prefix (F x) us"
  shows "first_page (page_size c) (drop (length (F m)) us) = page_key (page_size c) (node_key (node c x))"
proof -
  let ?k = "node_key (node c x)"
  obtain zs where us: "us = (F m @ lunits ?k) @ zs" using assms(2,3) by (auto simp: edge_ok_def prefix_def)
  then have "drop (length (F m)) us = lunits ?k @ zs" by simp
  then have "first_page (page_size c) (drop (length (F m)) us) = first_page (page_size c) (lunits ?k)"
    using assms(1,2) by (simp add: edge_ok_def page_le first_page_prefix)
  then show ?thesis using assms(2) by (simp add: edge_ok_def first_page_lunits)
qed

lemma prefix_anc:
  assumes ok: "tree_ok c L F V" and "m \<in> L" "n \<in> L" "prefix (F m) (F n)"
  shows "anc c m n"
  using assms(2,4)
proof (induction "length (F m)" arbitrary: m rule: less_induct)
  case less
  show ?case
  proof (cases "m = root_node c")
    case True
    then show ?thesis using root_anc [OF ok assms(3)] by simp
  next
    case False
    then obtain q where q: "q \<in> L" "edge_ok c F V q m" using tree_okD(9) [OF ok less.prems(1)] by blast
    have "anc c q n" "q \<noteq> n"
      using less.hyps [of q] q edge_longer [OF q(2)] less.prems(2) by (auto intro: prefix_order.trans dest: prefix_length_le)
    then obtain x where x: "node_parent (node c x) = Some q" "anc c x n" using anc_below by blast
    then have x': "x \<in> L" "prefix (F x) (F n)" using anc_prefix [OF x(2) ok assms(3)] by simp_all
    have "x \<noteq> root_node c" using x(1) tree_okD(6) [OF ok] by auto
    then have e: "edge_ok c F V q x" using tree_okD(9) [OF ok x'(1)] x(1) by (auto simp: edge_ok_def)
    note page = tree_okD(1) [OF ok]
    from child_first_page [OF page e x'(2)] child_first_page [OF page q(2) less.prems(2)]
    have "m = x" using e q(2) by (auto simp: edge_ok_def)
    then show ?thesis using x(2) by simp
  qed
qed

lemma anc_iff: "tree_ok c L F V \<Longrightarrow> n \<in> L \<Longrightarrow> anc c m n \<longleftrightarrow> m \<in> L \<and> prefix (F m) (F n)"
  using anc_prefix prefix_anc by blast

text \<open>Below a node whose path goes on, the tree has the child on that path.\<close>

lemma tree_descend:
  assumes ok: "tree_ok c L F V" and "m \<in> L" "n \<in> L" "prefix (F m) (F n)" "m \<noteq> n"
  obtains x where "map_of (node_children (node c m)) (first_page (page_size c) (drop (length (F m)) (F n))) = Some x"
    "x \<in> L" "edge_ok c F V m x" "prefix (F x) (F n)"
proof -
  obtain x where x: "node_parent (node c x) = Some m" "anc c x n"
    using anc_below [OF prefix_anc [OF ok assms(2-4)] assms(5)] by blast
  then have x': "x \<in> L" "prefix (F x) (F n)" using anc_prefix [OF x(2) ok assms(3)] by simp_all
  have "x \<noteq> root_node c" using x(1) tree_okD(6) [OF ok] by auto
  then have e: "edge_ok c F V m x" using tree_okD(9) [OF ok x'(1)] x(1) by (auto simp: edge_ok_def)
  with child_first_page [OF tree_okD(1) [OF ok] e x'(2)] have
    "map_of (node_children (node c m)) (first_page (page_size c) (drop (length (F m)) (F n))) = Some x"
    by (simp add: edge_ok_def)
  then show thesis using that x' e by blast
qed

lemma path_inj:
  assumes "tree_ok c L F V" "m \<in> L" "n \<in> L" "F m = F n"
  shows "m = n"
proof (rule ccontr)
  assume "m \<noteq> n"
  with assms obtain x where "edge_ok c F V m x" "prefix (F x) (F n)" by (metis tree_descend prefix_order.refl)
  then show False using edge_longer(1) [of c F V m x] assms(4) by (auto dest: prefix_length_le)
qed

lemma values_agree:
  assumes ok: "tree_ok c L F V" and "m \<in> L" "n \<in> L" "prefix (F m) (F n)"
  shows "V m = take (length (F m)) (V n)"
proof -
  have "anc c m n" by (rule prefix_anc [OF assms])
  then show ?thesis using ok assms(3)
  proof (induction rule: anc.induct)
    case (anc_refl n)
    then show ?case using tree_lengths [of c L F V n] by simp
  next
    case (anc_step m p n)
    have "n \<noteq> root_node c" using anc_step.hyps(2) tree_okD(6) [OF anc_step.prems(1)] by auto
    then obtain p' where p': "p' \<in> L" "edge_ok c F V p' n" using tree_okD(9) [OF anc_step.prems] by blast
    then have "p' = p" using anc_step.hyps(2) by (simp add: edge_ok_def)
    have "length (F m) \<le> length (V p)"
      using anc_prefix [OF anc_step.hyps(1) ok] p' \<open>p' = p\<close> tree_lengths [OF ok, of p] by (simp add: prefix_length_le)
    then show ?case using anc_step.IH [OF ok] p' \<open>p' = p\<close> by (auto simp: edge_ok_def)
  qed
qed

section \<open>Contents\<close>

text \<open>What the cache stores, read off the state: the slots for a key are found along a path from the root.\<close>

inductive reaches :: "radix_cache \<Rightarrow> nat \<Rightarrow> lunit list \<Rightarrow> int list \<Rightarrow> bool" for c where
  reaches_root: "reaches c (root_node c) [] []"
| reaches_child: "reaches c p us vs \<Longrightarrow> map_of (node_children (node c p)) ck = Some n \<Longrightarrow> node_value (node c n) = Some v \<Longrightarrow>
    reaches c n (us @ lunits (node_key (node c n))) (vs @ v)"

definition cached :: "radix_cache \<Rightarrow> lunit list \<Rightarrow> int list \<Rightarrow> bool" where
  "cached c us vs \<longleftrightarrow> page_size c dvd length us \<and> (\<exists>n ps ss. reaches c n ps ss \<and> prefix us ps \<and> vs = take (length us) ss)"

definition held :: "nat set \<Rightarrow> (nat \<Rightarrow> lunit list) \<Rightarrow> (nat \<Rightarrow> int list) \<Rightarrow> lunit list \<Rightarrow> int list \<Rightarrow> bool" where
  "held L F V us vs \<longleftrightarrow> (\<exists>n\<in>L. prefix us (F n) \<and> vs = take (length us) (V n))"

lemma reaches_iff:
  assumes ok: "tree_ok c L F V"
  shows "reaches c n us vs \<longleftrightarrow> n \<in> L \<and> us = F n \<and> vs = V n"
proof
  show "n \<in> L \<and> us = F n \<and> vs = V n" if "reaches c n us vs"
    using that
  proof (induction rule: reaches.induct)
    case reaches_root
    then show ?case using tree_okD(3-5) [OF ok] by simp
  next
    case (reaches_child p us vs ck n v)
    then have "edge_ok c F V p n" "n \<in> L" using tree_child [OF ok, of p ck n] by simp_all
    then show ?case using reaches_child by (auto simp: edge_ok_def)
  qed
  have "reaches c n (F n) (V n)" if "n \<in> L" using that
  proof (induction "length (F n)" arbitrary: n rule: less_induct)
    case less
    show ?case
    proof (cases "n = root_node c")
      case True
      then show ?thesis using reaches_root [of c] tree_okD(4,5) [OF ok] by simp
    next
      case False
      then obtain p where p: "p \<in> L" "edge_ok c F V p n" using tree_okD(9) [OF ok less.prems] by blast
      then have "reaches c p (F p) (V p)" using less.hyps edge_longer(1) by blast
      moreover obtain v where "node_value (node c n) = Some v" "V n = V p @ v" "F n = F p @ lunits (node_key (node c n))"
        "map_of (node_children (node c p)) (page_key (page_size c) (node_key (node c n))) = Some n"
        using p(2) unfolding edge_ok_def by blast
      ultimately show ?thesis by (metis reaches_child)
    qed
  qed
  then show "n \<in> L \<and> us = F n \<and> vs = V n \<Longrightarrow> reaches c n us vs" by simp
qed

lemma cached_iff: "tree_ok c L F V \<Longrightarrow> cached c us vs \<longleftrightarrow> page_size c dvd length us \<and> held L F V us vs"
  by (auto simp: cached_def held_def reaches_iff)

section \<open>Locks, sizes and leaves\<close>

definition locks_ok :: "radix_cache \<Rightarrow> nat set \<Rightarrow> (nat \<Rightarrow> lunit list) \<Rightarrow> nat multiset \<Rightarrow> bool" where
  "locks_ok c L F hs \<longleftrightarrow> set_mset hs \<subseteq> L \<and> lock_ref (node c (root_node c)) = 1 \<and>
     (\<forall>n\<in>L. n \<noteq> root_node c \<longrightarrow> lock_ref (node c n) = int (size (filter_mset (\<lambda>h. prefix (F n) (F h)) hs)))"

definition node_size :: "radix_cache \<Rightarrow> nat \<Rightarrow> int" where
  "node_size c n = int (key_len (node_key (node c n)))"

definition sizes_ok :: "radix_cache \<Rightarrow> nat set \<Rightarrow> bool" where
  "sizes_ok c L \<longleftrightarrow>
     evictable_size c = (\<Sum>n \<in> L - {root_node c}. if lock_ref (node c n) = 0 then node_size c n else 0) \<and>
     protected_size c = (\<Sum>n \<in> L - {root_node c}. if lock_ref (node c n) = 0 then 0 else node_size c n)"

definition leaves_ok :: "radix_cache \<Rightarrow> nat set \<Rightarrow> bool" where
  "leaves_ok c L \<longleftrightarrow> evictable_leaves c = {n \<in> L. lock_ref (node c n) = 0 \<and> node_children (node c n) = []}"

definition radix_inv :: "radix_cache \<Rightarrow> nat set \<Rightarrow> (nat \<Rightarrow> lunit list) \<Rightarrow> (nat \<Rightarrow> int list) \<Rightarrow> nat multiset \<Rightarrow> bool" where
  "radix_inv c L F V hs \<longleftrightarrow> tree_ok c L F V \<and> locks_ok c L F hs \<and> sizes_ok c L \<and> leaves_ok c L"

text \<open>The nodes of the tree and the slots they hold.\<close>

definition live :: "radix_cache \<Rightarrow> nat set" where
  "live c = {n. \<exists>us vs. reaches c n us vs}"

definition node_slots :: "radix_cache \<Rightarrow> nat \<Rightarrow> int multiset" where
  "node_slots c n = (case node_value (node c n) of Some v \<Rightarrow> mset v | None \<Rightarrow> {#})"

definition tree_slots :: "radix_cache \<Rightarrow> int multiset" where
  "tree_slots c = (\<Sum>n \<in> live c. node_slots c n)"

lemma live_eq: "tree_ok c L F V \<Longrightarrow> live c = L"
  by (auto simp: live_def reaches_iff)

lemma tree_slots_eq: "tree_ok c L F V \<Longrightarrow> tree_slots c = (\<Sum>n \<in> L. node_slots c n)"
  by (simp add: tree_slots_def live_eq)

text \<open>The settings of a cache, which no operation changes.\<close>

definition settings :: "radix_cache \<Rightarrow> bool \<times> nat \<times> bool \<times> bool \<times> eviction_strategy" where
  "settings c = (disable c, page_size c, is_eagle c, disable_finished_insert c, strategy c)"

lemma settings_sel:
  "settings c = settings c' \<Longrightarrow> disable c = disable c'" "settings c = settings c' \<Longrightarrow> page_size c = page_size c'"
  "settings c = settings c' \<Longrightarrow> is_eagle c = is_eagle c'" "settings c = settings c' \<Longrightarrow> strategy c = strategy c'"
  by (simp_all add: settings_def)

section \<open>Changes that keep the tree\<close>

text \<open>Access times, hit counts and priorities are not part of the invariant.\<close>

definition shape :: "tree_node \<Rightarrow> (child_id, nat) dict \<times> nat option \<times> radix_key \<times> int list option \<times> int" where
  "shape nd = (node_children nd, node_parent nd, node_key nd, node_value nd, lock_ref nd)"

definition same_nodes :: "radix_cache \<Rightarrow> radix_cache \<Rightarrow> bool" where
  "same_nodes c c' \<longleftrightarrow> (\<forall>n. shape (node c' n) = shape (node c n)) \<and> settings c' = settings c \<and> root_node c' = root_node c \<and>
     node_counter c' = node_counter c \<and> evictable_size c' = evictable_size c \<and> protected_size c' = protected_size c \<and>
     evictable_leaves c' = evictable_leaves c \<and> frees c' = frees c"

lemma same_nodes_inv:
  assumes "same_nodes c c'" "radix_inv c L F V hs"
  shows "radix_inv c' L F V hs"
proof -
  have sh: "node_children (node c' n) = node_children (node c n)" "node_parent (node c' n) = node_parent (node c n)"
    "node_key (node c' n) = node_key (node c n)" "node_value (node c' n) = node_value (node c n)"
    "lock_ref (node c' n) = lock_ref (node c n)" for n
    using assms(1) by (simp_all add: same_nodes_def shape_def)
  have eqs: "page_size c' = page_size c" "root_node c' = root_node c" "node_counter c' = node_counter c"
    "evictable_size c' = evictable_size c" "protected_size c' = protected_size c" "evictable_leaves c' = evictable_leaves c"
    using assms(1) by (simp_all add: same_nodes_def settings_def)
  have "radix_inv c' L F V hs \<longleftrightarrow> radix_inv c L F V hs"
    unfolding radix_inv_def tree_ok_def locks_ok_def sizes_ok_def leaves_ok_def edge_ok_def children_ok_def node_size_def
    by (simp only: sh eqs)
  with assms(2) show ?thesis by simp
qed

lemma same_nodes_trans: "same_nodes c c' \<Longrightarrow> same_nodes c' c'' \<Longrightarrow> same_nodes c c''"
  by (simp add: same_nodes_def)

lemma same_nodes_refl [simp]: "same_nodes c c"
  by (simp add: same_nodes_def)

lemma node_update_node [simp]: "node (update_node n f c) m = (if m = n then f (node c n) else node c m)"
  by (simp add: update_node_def)

lemma update_node_sel [simp]:
  "settings (update_node n f c) = settings c" "root_node (update_node n f c) = root_node c"
  "node_counter (update_node n f c) = node_counter c" "evictable_size (update_node n f c) = evictable_size c"
  "protected_size (update_node n f c) = protected_size c" "evictable_leaves (update_node n f c) = evictable_leaves c"
  "frees (update_node n f c) = frees c" "page_size (update_node n f c) = page_size c" "disable (update_node n f c) = disable c"
  "is_eagle (update_node n f c) = is_eagle c" "strategy (update_node n f c) = strategy c"
  by (simp_all add: update_node_def settings_def)

lemma same_nodes_update: "(\<And>nd. shape (f nd) = shape nd) \<Longrightarrow> same_nodes c (update_node n f c)"
  by (simp add: same_nodes_def)

lemma same_nodes_touch [simp]: "same_nodes c (update_node n (\<lambda>nd. nd\<lparr>last_access_time := now\<rparr>) c)"
  by (rule same_nodes_update) (simp add: shape_def)

lemma same_nodes_raise [simp]: "same_nodes c (raise_priority n prio c)"
  unfolding raise_priority_def by (rule same_nodes_update) (simp add: shape_def)

lemma same_nodes_hit [simp]: "same_nodes c (inc_hit_count n chunked c)"
  unfolding inc_hit_count_def by (cases chunked) (auto intro!: same_nodes_update simp: shape_def)

lemma same_nodes_slots: "same_nodes c c' \<Longrightarrow> node_slots c' = node_slots c"
  by (auto simp: node_slots_def same_nodes_def shape_def fun_eq_iff)

end
