(* ===== verification/RadixSteps.thy ===== *)
theory RadixSteps
  imports RadixInv
begin

text \<open>
  The single changes of SGLang's radix cache keep its invariant: splitting a node, adding a leaf, deleting a leaf
  and changing the locks on the path from a node to the root. A split changes no content; the two ends of a
  node's life change exactly the paths that end in it.
\<close>

declare map_of_eq_Some_iff [simp del]

section \<open>Splitting\<close>

definition upper_node :: "real \<Rightarrow> nat \<Rightarrow> nat \<Rightarrow> nat \<Rightarrow> radix_cache \<Rightarrow> int list \<Rightarrow> tree_node" where
  "upper_node now p n m c v = (let nd = node c n in
     (new_tree_node now (node_priority nd))\<lparr>hit_count := hit_count nd,
        node_children := [(page_key (page_size c) (key_from m (node_key nd)), n)], node_parent := Some p,
        lock_ref := lock_ref nd, node_key := key_slice 0 m (node_key nd), node_value := Some (take m v)\<rparr>)"

definition split_state :: "real \<Rightarrow> nat \<Rightarrow> nat \<Rightarrow> nat \<Rightarrow> int list \<Rightarrow> radix_cache \<Rightarrow> radix_cache" where
  "split_state now p n m v c = (let new = node_counter c; nd = node c n in
     c\<lparr>tree_nodes := (tree_nodes c)(
         new := upper_node now p n m c v,
         n := nd\<lparr>node_parent := Some new, node_key := key_from m (node_key nd), node_value := Some (drop m v)\<rparr>,
         p := (node c p)\<lparr>node_children := AList.update (page_key (page_size c) (node_key nd)) new (node_children (node c p))\<rparr>),
       node_counter := Suc new\<rparr>)"

lemma split_node_eq:
  assumes "0 < page_size c" "page_size c dvd m" "page_size c dvd key_len (node_key (node c n))" "m < key_len (node_key (node c n))"
    and "node_parent (node c n) = Some p" "node_value (node c n) = Some v" "n \<noteq> node_counter c" "p \<noteq> node_counter c" "p \<noteq> n"
  shows "split_node now (node_key (node c n)) n m c = Inr (node_counter c, split_state now p n m v c)"
proof -
  have "child_key (page_size c) (key_from m (node_key (node c n))) = Inr (page_key (page_size c) (key_from m (node_key (node c n))))"
    using assms(1-4) by (intro child_key_page) (auto simp: dvd_diff_nat)
  moreover have "child_key (page_size c) (node_key (node c n)) = Inr (page_key (page_size c) (node_key (node c n)))"
    using assms(1-4) by (intro child_key_page) auto
  ultimately show ?thesis
    using assms(5-9) by (simp add: split_node_def alloc_node_def update_node_def Let_def split_state_def upper_node_def fun_upd_twist)
qed

lemma split_state_sel [simp]:
  "settings (split_state now p n m v c) = settings c" "root_node (split_state now p n m v c) = root_node c"
  "page_size (split_state now p n m v c) = page_size c" "node_counter (split_state now p n m v c) = Suc (node_counter c)"
  "evictable_size (split_state now p n m v c) = evictable_size c" "protected_size (split_state now p n m v c) = protected_size c"
  "evictable_leaves (split_state now p n m v c) = evictable_leaves c" "frees (split_state now p n m v c) = frees c"
  by (simp_all add: split_state_def settings_def Let_def)

lemma upper_node_sel [simp]:
  "node_children (upper_node now p n m c v) = [(page_key (page_size c) (key_from m (node_key (node c n))), n)]"
  "node_parent (upper_node now p n m c v) = Some p" "lock_ref (upper_node now p n m c v) = lock_ref (node c n)"
  "node_key (upper_node now p n m c v) = key_slice 0 m (node_key (node c n))" "node_value (upper_node now p n m c v) = Some (take m v)"
  by (simp_all add: upper_node_def Let_def)

text \<open>The ghosts after a split: the new node stands for the first part of the path.\<close>

definition split_point :: "radix_cache \<Rightarrow> nat set \<Rightarrow> (nat \<Rightarrow> lunit list) \<Rightarrow> (nat \<Rightarrow> int list) \<Rightarrow> nat \<Rightarrow> nat \<Rightarrow> nat \<Rightarrow> int list \<Rightarrow> bool" where
  "split_point c L F V p n m v \<longleftrightarrow> tree_ok c L F V \<and> n \<in> L \<and> p \<in> L \<and> edge_ok c F V p n \<and> node_value (node c n) = Some v \<and>
     0 < m \<and> m < key_len (node_key (node c n)) \<and> page_size c dvd m"

definition split_path :: "radix_cache \<Rightarrow> (nat \<Rightarrow> lunit list) \<Rightarrow> nat \<Rightarrow> nat \<Rightarrow> nat \<Rightarrow> (nat \<Rightarrow> lunit list)" where
  "split_path c F p n m = F(node_counter c := F p @ take m (lunits (node_key (node c n))))"

definition split_slots :: "radix_cache \<Rightarrow> (nat \<Rightarrow> int list) \<Rightarrow> nat \<Rightarrow> nat \<Rightarrow> int list \<Rightarrow> (nat \<Rightarrow> int list)" where
  "split_slots c V p m v = V(node_counter c := V p @ take m v)"

lemma split_pointD:
  assumes "split_point c L F V p n m v"
  shows "tree_ok c L F V" "n \<in> L" "p \<in> L" "edge_ok c F V p n" "node_value (node c n) = Some v"
    "0 < m" "m < key_len (node_key (node c n))" "page_size c dvd m" "0 < page_size c"
    "node_parent (node c n) = Some p" "F n = F p @ lunits (node_key (node c n))" "length v = key_len (node_key (node c n))"
    "V n = V p @ v" "page_size c dvd key_len (node_key (node c n))"
    "map_of (node_children (node c p)) (page_key (page_size c) (node_key (node c n))) = Some n"
  using assms tree_okD(1) by (auto simp: split_point_def edge_ok_def)

lemma split_distinct:
  assumes s: "split_point c L F V p n m v"
  shows "node_counter c \<notin> L" "n \<noteq> node_counter c" "p \<noteq> node_counter c" "p \<noteq> n" "root_node c \<noteq> node_counter c" "root_node c \<noteq> n"
proof -
  note d = split_pointD [OF s]
  show new: "node_counter c \<notin> L" using tree_okD(8) [OF d(1)] by blast
  then show "n \<noteq> node_counter c" "p \<noteq> node_counter c" "root_node c \<noteq> node_counter c" using d(2,3) tree_okD(3) [OF d(1)] by auto
  show "p \<noteq> n" using edge_longer(1) [OF d(4)] by auto
  show "root_node c \<noteq> n" using d(10) tree_okD(6) [OF d(1)] by auto
qed

lemma split_result:
  assumes s: "split_point c L F V p n m v"
  shows "split_node now (node_key (node c n)) n m c = Inr (node_counter c, split_state now p n m v c)"
  using split_pointD(9,8,14,7,10,5) [OF s] split_distinct(2,3,4) [OF s] by (rule split_node_eq)

lemma split_nodes:
  assumes s: "split_point c L F V p n m v"
  shows "node (split_state now p n m v c) (node_counter c) = upper_node now p n m c v"
    "node (split_state now p n m v c) n =
       (node c n)\<lparr>node_parent := Some (node_counter c), node_key := key_from m (node_key (node c n)), node_value := Some (drop m v)\<rparr>"
    "node (split_state now p n m v c) p =
       (node c p)\<lparr>node_children := AList.update (page_key (page_size c) (node_key (node c n))) (node_counter c) (node_children (node c p))\<rparr>"
    "x \<noteq> node_counter c \<Longrightarrow> x \<noteq> n \<Longrightarrow> x \<noteq> p \<Longrightarrow> node (split_state now p n m v c) x = node c x"
  using split_distinct [OF s] by (simp_all add: split_state_def Let_def)

lemma split_same_fields:
  assumes s: "split_point c L F V p n m v" and x: "x \<in> L" "x \<noteq> n"
  shows "node_parent (node (split_state now p n m v c) x) = node_parent (node c x)"
    "node_key (node (split_state now p n m v c) x) = node_key (node c x)"
    "node_value (node (split_state now p n m v c) x) = node_value (node c x)"
    "lock_ref (node (split_state now p n m v c) x) = lock_ref (node c x)"
proof -
  have "x \<noteq> node_counter c" using x split_distinct(1) [OF s] by blast
  then have "node (split_state now p n m v c) x = node c x \<or> (\<exists>f. node (split_state now p n m v c) x = (node c x)\<lparr>node_children := f\<rparr>)"
    using x(2) split_nodes(3,4) [OF s] by metis
  then show "node_parent (node (split_state now p n m v c) x) = node_parent (node c x)"
    "node_key (node (split_state now p n m v c) x) = node_key (node c x)"
    "node_value (node (split_state now p n m v c) x) = node_value (node c x)"
    "lock_ref (node (split_state now p n m v c) x) = lock_ref (node c x)" by auto
qed

lemma split_page_key:
  assumes s: "split_point c L F V p n m v"
  shows "page_key (page_size c) (key_slice 0 m (node_key (node c n))) = page_key (page_size c) (node_key (node c n))"
  using page_le [OF split_pointD(9,8,6) [OF s]] by (simp add: page_key_def key_units_slice min_def)

lemma split_edges:
  assumes s: "split_point c L F V p n m v"
  shows "edge_ok (split_state now p n m v c) (split_path c F p n m) (split_slots c V p m v) p (node_counter c)"
    "edge_ok (split_state now p n m v c) (split_path c F p n m) (split_slots c V p m v) (node_counter c) n"
proof -
  note d = split_pointD [OF s] and ne = split_distinct [OF s]
  show "edge_ok (split_state now p n m v c) (split_path c F p n m) (split_slots c V p m v) p (node_counter c)"
    using ne d(6-8,12) by (simp add: edge_ok_def split_nodes [OF s] lunits_slice split_page_key [OF s] split_path_def split_slots_def)
  have "page_size c dvd key_len (node_key (node c n)) - m" using d(8,14) by (simp add: dvd_diff_nat)
  then show "edge_ok (split_state now p n m v c) (split_path c F p n m) (split_slots c V p m v) (node_counter c) n"
    using ne d(7,11-13) by (simp add: edge_ok_def split_nodes [OF s] lunits_from split_path_def split_slots_def)
qed

lemma split_edge_kept:
  assumes s: "split_point c L F V p n m v" and x: "x \<in> L" "x \<noteq> n" and q: "q \<in> L" "edge_ok c F V q x"
  shows "edge_ok (split_state now p n m v c) (split_path c F p n m) (split_slots c V p m v) q x"
proof -
  note d = split_pointD [OF s] and ne = split_distinct [OF s]
  have "map_of (node_children (node (split_state now p n m v c) q)) (page_key (page_size c) (node_key (node c x))) = Some x"
  proof (cases "q = p")
    case True
    then have "page_key (page_size c) (node_key (node c x)) \<noteq> page_key (page_size c) (node_key (node c n))"
      using q(2) d(15) x(2) by (auto simp: edge_ok_def)
    then show ?thesis using True q(2) by (simp add: split_nodes [OF s] edge_ok_def)
  next
    case False
    moreover have "q \<noteq> node_counter c" using q(1) ne(1) by blast
    ultimately show ?thesis using q(2) by (cases "q = n") (simp_all add: split_nodes [OF s] edge_ok_def)
  qed
  moreover have "x \<noteq> node_counter c" "q \<noteq> node_counter c" using x q ne(1) by auto
  ultimately show ?thesis
    using q(2) split_same_fields [OF s x] by (simp add: edge_ok_def split_path_def split_slots_def)
qed

lemma split_children:
  assumes s: "split_point c L F V p n m v" and x: "x \<in> insert (node_counter c) L"
  shows "children_ok (split_state now p n m v c) (insert (node_counter c) L) x"
proof -
  note d = split_pointD [OF s] and ne = split_distinct [OF s] and same = split_same_fields [OF s]
  let ?c = "split_state now p n m v c" and ?new = "node_counter c" and ?pk = "page_key (page_size c)"
  have child: "y \<in> L \<and> y \<noteq> root_node c \<and> node_parent (node c y) = Some q \<and> ck = ?pk (node_key (node c y))"
    if "map_of (node_children (node c q)) ck = Some y" "q \<in> L" for q ck y
    using tree_child [OF d(1) that(2,1)] by simp
  have dicts: "dict_wf (node_children (node c q))" if "q \<in> L" for q
    using tree_okD(10) [OF d(1) that] by (simp add: children_ok_def)
  consider "x = ?new" | "x = p" | "x \<in> L" "x \<noteq> ?new" "x \<noteq> p" using x by blast
  then show ?thesis
  proof cases
    case 1
    then show ?thesis using d(2) ne by (simp add: children_ok_def split_nodes [OF s])
  next
    case 2
    have "y \<in> insert ?new L \<and> y \<noteq> root_node c \<and> node_parent (node ?c y) = Some p \<and> ck = ?pk (node_key (node ?c y))"
      if upd: "map_of (AList.update (?pk (node_key (node c n))) ?new (node_children (node c p))) ck = Some y" for ck y
    proof (cases "ck = ?pk (node_key (node c n))")
      case True
      with upd have "y = ?new" by simp
      with True show ?thesis using ne(5) by (auto simp: split_nodes [OF s] split_page_key [OF s])
    next
      case False
      with upd have y: "map_of (node_children (node c p)) ck = Some y" by simp
      with child [OF this d(3)] False have "y \<noteq> n" by auto
      with child [OF y d(3)] same [of y] show ?thesis by simp
    qed
    then show ?thesis using 2 dicts [OF d(3)] by (simp add: children_ok_def split_nodes [OF s])
  next
    case 3
    then have eq: "node_children (node ?c x) = node_children (node c x)" by (cases "x = n") (simp_all add: split_nodes [OF s])
    have "y \<in> insert ?new L \<and> y \<noteq> root_node c \<and> node_parent (node ?c y) = Some x \<and> ck = ?pk (node_key (node ?c y))"
      if "map_of (node_children (node c x)) ck = Some y" for ck y
    proof -
      note ch = child [OF that 3(1)]
      then have "y \<noteq> n" using d(10) 3(3) by auto
      with ch same [of y] show ?thesis by simp
    qed
    then show ?thesis using dicts [OF 3(1)] by (simp add: children_ok_def eq)
  qed
qed

lemma split_tree:
  assumes s: "split_point c L F V p n m v"
  shows "tree_ok (split_state now p n m v c) (insert (node_counter c) L) (split_path c F p n m) (split_slots c V p m v)"
proof -
  note d = split_pointD [OF s] and ne = split_distinct [OF s]
  note t = tree_okD [OF d(1)]
  let ?c = "split_state now p n m v c" and ?L = "insert (node_counter c) L"
  let ?F = "split_path c F p n m" and ?V = "split_slots c V p m v"
  have root: "node_parent (node ?c (root_node c)) = None" "node_value (node ?c (root_node c)) = Some []"
    using split_same_fields [OF s t(3) ne(6)] t(6,7) by simp_all
  have "\<exists>q\<in>?L. edge_ok ?c ?F ?V q x" if x: "x \<in> ?L" "x \<noteq> root_node c" for x
  proof -
    consider "x = node_counter c" | "x = n" | "x \<in> L" "x \<noteq> n" using x by blast
    then show ?thesis
    proof cases
      case 3
      then obtain q where "q \<in> L" "edge_ok c F V q x" using t(9) x(2) by blast
      then show ?thesis using split_edge_kept [OF s 3] by blast
    qed (use split_edges [OF s] d(3) in auto)
  qed
  moreover have "\<forall>x\<in>?L. x < Suc (node_counter c)" using t(8) by (auto simp: less_Suc_eq)
  moreover have "?F (root_node c) = []" "?V (root_node c) = []" using t(4,5) ne(5) by (simp_all add: split_path_def split_slots_def)
  ultimately show ?thesis
    using t(1-3) root split_children [OF s] unfolding tree_ok_def by simp
qed

lemma split_path_old [simp]: "x \<noteq> node_counter c \<Longrightarrow> split_path c F p n m x = F x" "x \<noteq> node_counter c \<Longrightarrow> split_slots c V p m v x = V x"
  by (simp_all add: split_path_def split_slots_def)

lemma split_fresh: "split_point c L F V p n m v \<Longrightarrow> x \<in> L \<Longrightarrow> x \<noteq> node_counter c"
  using split_distinct(1) by metis

lemma split_below:
  assumes s: "split_point c L F V p n m v" and h: "h \<in> L"
  shows "prefix (split_path c F p n m (node_counter c)) (F h) \<longleftrightarrow> prefix (F n) (F h)"
proof
  let ?c = "split_state 0 p n m v c" and ?F = "split_path c F p n m" and ?new = "node_counter c"
  note ne = split_distinct [OF s]
  have neq: "?new \<noteq> h" using h ne(1) by blast
  have Fh: "?F h = F h" using neq by simp
  show "prefix (F n) (F h)" if "prefix (?F ?new) (F h)"
  proof -
    have "prefix (?F ?new) (?F h)" using that Fh by simp
    then obtain x where x: "map_of (node_children (node ?c ?new)) (first_page (page_size ?c) (drop (length (?F ?new)) (?F h))) = Some x"
        "prefix (?F x) (?F h)"
      using h neq tree_descend [OF split_tree [OF s], of ?new h] by blast
    then have "x = n" by (auto simp: split_nodes [OF s] split: if_splits)
    then show ?thesis using x(2) Fh ne(2) by simp
  qed
  have "prefix (?F ?new) (F n)" using edge_longer(3) [OF split_edges(2) [OF s, of 0]] ne(2) by simp
  then show "prefix (F n) (F h) \<Longrightarrow> prefix (?F ?new) (F h)" by (rule prefix_order.trans)
qed

lemma split_locks:
  assumes s: "split_point c L F V p n m v" and ok: "locks_ok c L F hs"
  shows "locks_ok (split_state now p n m v c) (insert (node_counter c) L) (split_path c F p n m) hs"
proof -
  let ?c = "split_state now p n m v c" and ?F = "split_path c F p n m" and ?new = "node_counter c"
  note d = split_pointD [OF s] and ne = split_distinct [OF s]
  have hs: "set_mset hs \<subseteq> L" and root: "lock_ref (node c (root_node c)) = 1" using ok by (auto simp: locks_ok_def)
  have same: "lock_ref (node ?c x) = lock_ref (node c x)" if "x \<in> L" for x
    using split_same_fields(4) [OF s that] by (cases "x = n") (auto simp: split_nodes(2) [OF s])
  have Fh: "?F h = F h" if "h \<in># hs" for h using that hs split_fresh [OF s] by auto
  have "lock_ref (node ?c x) = int (size (filter_mset (\<lambda>h. prefix (?F x) (?F h)) hs))" if x: "x \<in> insert ?new L" "x \<noteq> root_node c" for x
  proof (cases "x = ?new")
    case True
    have "filter_mset (\<lambda>h. prefix (?F ?new) (?F h)) hs = filter_mset (\<lambda>h. prefix (F n) (F h)) hs"
      using hs Fh split_below [OF s] by (intro filter_mset_cong) auto
    moreover have "lock_ref (node c n) = int (size (filter_mset (\<lambda>h. prefix (F n) (F h)) hs))"
      using ok d(2) ne(6) by (auto simp: locks_ok_def)
    ultimately show ?thesis using True by (simp add: split_nodes(1) [OF s])
  next
    case False
    with x have "x \<in> L" by simp
    moreover have "filter_mset (\<lambda>h. prefix (?F x) (?F h)) hs = filter_mset (\<lambda>h. prefix (F x) (F h)) hs"
      using Fh False by (intro filter_mset_cong) auto
    ultimately show ?thesis using ok x(2) same by (simp add: locks_ok_def)
  qed
  then show ?thesis using hs root same [OF tree_okD(3) [OF d(1)]] by (auto simp: locks_ok_def)
qed

lemma split_sizes:
  assumes s: "split_point c L F V p n m v" and ok: "sizes_ok c L"
  shows "sizes_ok (split_state now p n m v c) (insert (node_counter c) L)"
proof -
  let ?c = "split_state now p n m v c" and ?new = "node_counter c"
  note d = split_pointD [OF s] and ne = split_distinct [OF s]
  have sum: "(\<Sum>x \<in> insert ?new L - {root_node c}. g' x) = (\<Sum>x \<in> L - {root_node c}. g x)"
    if "g' ?new + g' n = g n" "\<And>x. x \<in> L \<Longrightarrow> x \<noteq> n \<Longrightarrow> g' x = g x" for g g' :: "nat \<Rightarrow> int"
  proof -
    define A where "A = L - {root_node c} - {n}"
    have A: "finite A" "n \<notin> A" "?new \<notin> A" "n \<noteq> ?new" using tree_okD(2) [OF d(1)] ne(1,2) by (auto simp: A_def)
    have "insert ?new L - {root_node c} = insert ?new (insert n A)" "L - {root_node c} = insert n A"
      using ne d(2) by (auto simp: A_def)
    moreover have "(\<Sum>x \<in> A. g' x) = (\<Sum>x \<in> A. g x)" using that(2) by (intro sum.cong) (auto simp: A_def)
    ultimately show ?thesis using A that(1) by simp
  qed
  have lock: "lock_ref (node ?c ?new) = lock_ref (node c n)" "lock_ref (node ?c n) = lock_ref (node c n)"
    by (simp_all add: split_nodes [OF s])
  have len: "node_size ?c ?new + node_size ?c n = node_size c n"
    using d(7) by (simp add: node_size_def split_nodes [OF s])
  have other: "lock_ref (node ?c x) = lock_ref (node c x)" "node_size ?c x = node_size c x" if "x \<in> L" "x \<noteq> n" for x
    using split_same_fields [OF s that] by (simp_all add: node_size_def)
  have "(\<Sum>x \<in> insert ?new L - {root_node c}. if lock_ref (node ?c x) = 0 then node_size ?c x else 0) =
      (\<Sum>x \<in> L - {root_node c}. if lock_ref (node c x) = 0 then node_size c x else 0)"
    using lock len other by (intro sum) auto
  moreover have "(\<Sum>x \<in> insert ?new L - {root_node c}. if lock_ref (node ?c x) = 0 then 0 else node_size ?c x) =
      (\<Sum>x \<in> L - {root_node c}. if lock_ref (node c x) = 0 then 0 else node_size c x)"
    using lock len other by (intro sum) auto
  ultimately show ?thesis using ok by (simp add: sizes_ok_def)
qed

lemma split_leaves:
  assumes s: "split_point c L F V p n m v" and ok: "leaves_ok c L"
  shows "leaves_ok (split_state now p n m v c) (insert (node_counter c) L)"
proof -
  let ?c = "split_state now p n m v c" and ?new = "node_counter c"
  note d = split_pointD [OF s] and ne = split_distinct [OF s]
  have "lock_ref (node ?c x) = lock_ref (node c x)" if "x \<in> L" for x
    using split_same_fields(4) [OF s that] by (cases "x = n") (auto simp: split_nodes(2) [OF s])
  moreover have "node_children (node ?c x) = [] \<longleftrightarrow> node_children (node c x) = []" if "x \<in> L" for x
  proof -
    have "x \<noteq> ?new" by (rule split_fresh [OF s that])
    then consider "x = p" | "x = n" | "x \<noteq> p" "x \<noteq> n" "x \<noteq> ?new" by blast
    then show ?thesis
    proof cases
      case 1
      have "AList.update k y d \<noteq> []" for k :: child_id and y :: nat and d by (cases d) auto
      then show ?thesis using 1 d(15) by (auto simp: split_nodes [OF s])
    qed (simp_all add: split_nodes [OF s])
  qed
  moreover have "node_children (node ?c ?new) \<noteq> []" by (simp add: split_nodes [OF s])
  ultimately show ?thesis using ok by (auto simp: leaves_ok_def)
qed

lemma split_held:
  assumes s: "split_point c L F V p n m v"
  shows "held (insert (node_counter c) L) (split_path c F p n m) (split_slots c V p m v) us vs \<longleftrightarrow> held L F V us vs"
proof
  let ?c = "split_state 0 p n m v c" and ?new = "node_counter c"
  note d = split_pointD [OF s] and ne = split_distinct [OF s]
  have old: "split_path c F p n m x = F x" "split_slots c V p m v x = V x" if "x \<in> L" for x using split_fresh [OF s that] by auto
  show "held L F V us vs \<Longrightarrow> held (insert ?new L) (split_path c F p n m) (split_slots c V p m v) us vs"
    using old by (auto simp: held_def)
  have e: "prefix (split_path c F p n m ?new) (F n)" "prefix (split_slots c V p m v ?new) (V n)"
    using edge_longer(3) [OF split_edges(2) [OF s, of 0]] ne(2) d(13) by (auto simp: split_slots_def prefix_def)
      (metis append_take_drop_id)
  have len: "length (split_slots c V p m v ?new) = length (split_path c F p n m ?new)"
    using d(7,12) tree_lengths [OF d(1,3)] by (simp add: split_path_def split_slots_def)
  assume "held (insert ?new L) (split_path c F p n m) (split_slots c V p m v) us vs"
  then obtain x where x: "x \<in> insert ?new L" "prefix us (split_path c F p n m x)" "vs = take (length us) (split_slots c V p m v x)"
    by (auto simp: held_def)
  show "held L F V us vs"
  proof (cases "x = ?new")
    case True
    have "length us \<le> length (split_slots c V p m v ?new)" using x(2) True len by (simp add: prefix_length_le)
    then have "vs = take (length us) (V n)" using x(3) True e(2) by (auto simp: prefix_def)
    moreover have "prefix us (F n)" using x(2) True e(1) by (auto intro: prefix_order.trans)
    ultimately show ?thesis using d(2) by (auto simp: held_def)
  next
    case False
    with x old show ?thesis by (auto simp: held_def)
  qed
qed

lemma split_inv:
  assumes inv: "radix_inv c L F V hs" and s: "split_point c L F V p n m v"
  shows "radix_inv (split_state now p n m v c) (insert (node_counter c) L) (split_path c F p n m) (split_slots c V p m v) hs"
  using inv split_tree [OF s] split_locks [OF s] split_sizes [OF s] split_leaves [OF s] by (simp add: radix_inv_def)

lemma split_slots_sum:
  assumes s: "split_point c L F V p n m v"
  shows "tree_slots (split_state now p n m v c) = tree_slots c"
proof -
  note d = split_pointD [OF s] and ne = split_distinct [OF s]
  let ?c = "split_state now p n m v c" and ?new = "node_counter c"
  define A where "A = L - {n}"
  have A: "finite A" "n \<notin> A" "?new \<notin> A" "L = insert n A" "?new \<noteq> n"
    using tree_okD(2) [OF d(1)] ne(1,2) d(2) by (auto simp: A_def)
  have same: "node_slots ?c x = node_slots c x" if "x \<in> A" for x
    using split_same_fields(3) [OF s, of x] that by (simp add: A_def node_slots_def)
  have "node_slots ?c ?new + node_slots ?c n = node_slots c n"
    using d(5) by (simp add: node_slots_def split_nodes [OF s] flip: mset_append)
  then have "(\<Sum>x \<in> insert ?new L. node_slots ?c x) = (\<Sum>x \<in> L. node_slots c x)"
    using A same by (simp add: add.assoc [symmetric])
  then show ?thesis using tree_slots_eq [OF split_tree [OF s]] tree_slots_eq [OF d(1)] by simp
qed

end
