(* ===== verification/RadixLeaf.thy ===== *)
theory RadixLeaf
  imports RadixInv
begin

text \<open>
  The life of a leaf of SGLang's radix cache: adding a leaf for a key that leaves the tree at a node, and deleting
  an unlocked leaf, keep the invariant. A new leaf adds exactly the slots of its path, a deleted leaf takes
  away exactly those.
\<close>

declare map_of_eq_Some_iff [simp del]

lemma update_leaf_status_sel [simp]:
  "tree_nodes (update_leaf_status n c) = tree_nodes c" "settings (update_leaf_status n c) = settings c"
  "page_size (update_leaf_status n c) = page_size c" "root_node (update_leaf_status n c) = root_node c"
  "node_counter (update_leaf_status n c) = node_counter c" "evictable_size (update_leaf_status n c) = evictable_size c"
  "protected_size (update_leaf_status n c) = protected_size c" "frees (update_leaf_status n c) = frees c"
  by (simp_all add: update_leaf_status_def settings_def)

lemma node_has_value: "tree_ok c L F V \<Longrightarrow> n \<in> L \<Longrightarrow> \<not> evicted (node c n)"
  using tree_okD(7,9) [of c L F V] by (cases "n = root_node c") (auto simp: evicted_def edge_ok_def)

lemma child_in_values: "map_of d k = Some x \<Longrightarrow> x \<in> set (dict_values d)"
  by (metis in_set_zip map_of_SomeD set_map image_eqI snd_conv)

text \<open>In a well-formed tree the status of a leaf is what the invariant says.\<close>

lemma update_leaf_status_eq:
  assumes ok: "tree_ok c L F V" and n: "n \<in> L"
  shows "evictable_leaves (update_leaf_status n c) =
    (if lock_ref (node c n) \<le> 0 \<and> node_children (node c n) = [] then insert n (evictable_leaves c) else evictable_leaves c - {n})"
proof -
  have "\<not> evicted (node c ch)" if "ch \<in> set (dict_values (node_children (node c n)))" for ch
  proof -
    have "dict_wf (node_children (node c n))" using tree_okD(10) [OF ok n] by (simp add: children_ok_def)
    with that obtain ck where "map_of (node_children (node c n)) ck = Some ch" by (auto dest: map_of_is_SomeI)
    then show ?thesis using tree_child(1) [OF ok n] node_has_value [OF ok] by blast
  qed
  then have "list_ex (\<lambda>ch. \<not> evicted (node c ch)) (dict_values (node_children (node c n))) \<longleftrightarrow> node_children (node c n) \<noteq> []"
    by (cases "node_children (node c n)") (auto simp: list_ex_iff)
  then show ?thesis using node_has_value [OF ok n] by (auto simp: update_leaf_status_def)
qed

section \<open>A new leaf\<close>

definition leaf_node :: "real \<Rightarrow> int \<Rightarrow> bool \<Rightarrow> nat \<Rightarrow> radix_key \<Rightarrow> int list \<Rightarrow> tree_node" where
  "leaf_node now prio chunked n k v =
     (new_tree_node now prio)\<lparr>node_parent := Some n, node_key := k, node_value := Some v, hit_count := (if chunked then 0 else 1)\<rparr>"

definition leaf_state :: "real \<Rightarrow> int \<Rightarrow> bool \<Rightarrow> nat \<Rightarrow> radix_key \<Rightarrow> child_id \<Rightarrow> int list \<Rightarrow> radix_cache \<Rightarrow> radix_cache" where
  "leaf_state now prio chunked n k ck v c =
     c\<lparr>tree_nodes := (tree_nodes c)(
         node_counter c := leaf_node now prio chunked n k v,
         n := (node c n)\<lparr>node_children := AList.update ck (node_counter c) (node_children (node c n))\<rparr>),
       node_counter := Suc (node_counter c), evictable_size := evictable_size c + int (key_len k),
       evictable_leaves := insert (node_counter c) (evictable_leaves c - {n})\<rparr>"

lemma add_leaf_eq:
  assumes "n \<noteq> node_counter c"
  shows "add_leaf now prio chunked n k ck v c = leaf_state now prio chunked n k ck v c"
proof -
  let ?new = "node_counter c"
  let ?c = "c\<lparr>tree_nodes := (tree_nodes c)(?new := leaf_node now prio chunked n k v,
         n := (node c n)\<lparr>node_children := AList.update ck ?new (node_children (node c n))\<rparr>),
       node_counter := Suc ?new, evictable_size := evictable_size c + int (key_len k)\<rparr>"
  have "add_leaf now prio chunked n k ck v c = update_leaf_status ?new (update_leaf_status n ?c)"
    using assms by (cases c) (simp add: add_leaf_def alloc_node_def update_node_def inc_hit_count_def leaf_node_def new_tree_node_def Let_def
        fun_upd_twist)
  moreover have "update_leaf_status n ?c = ?c\<lparr>evictable_leaves := evictable_leaves c - {n}\<rparr>"
  proof -
    have "?new \<in> set (dict_values (node_children (node ?c n)))" by (rule child_in_values [of _ ck]) simp
    moreover have "\<not> evicted (node ?c ?new)" using assms by (simp add: evicted_def leaf_node_def)
    ultimately have "list_ex (\<lambda>ch. \<not> evicted (node ?c ch)) (dict_values (node_children (node ?c n)))"
      unfolding list_ex_iff by blast
    then show ?thesis unfolding update_leaf_status_def by simp
  qed
  moreover have "update_leaf_status ?new (?c\<lparr>evictable_leaves := evictable_leaves c - {n}\<rparr>) = leaf_state now prio chunked n k ck v c"
    using assms by (simp add: update_leaf_status_def leaf_state_def evicted_def leaf_node_def new_tree_node_def)
  ultimately show ?thesis by simp
qed

lemma leaf_state_sel [simp]:
  "settings (leaf_state now prio chunked n k ck v c) = settings c" "root_node (leaf_state now prio chunked n k ck v c) = root_node c"
  "page_size (leaf_state now prio chunked n k ck v c) = page_size c" "node_counter (leaf_state now prio chunked n k ck v c) = Suc (node_counter c)"
  "protected_size (leaf_state now prio chunked n k ck v c) = protected_size c" "frees (leaf_state now prio chunked n k ck v c) = frees c"
  "evictable_size (leaf_state now prio chunked n k ck v c) = evictable_size c + int (key_len k)"
  "evictable_leaves (leaf_state now prio chunked n k ck v c) = insert (node_counter c) (evictable_leaves c - {n})"
  by (simp_all add: leaf_state_def settings_def)

text \<open>The key goes on where the tree ends: \<open>n\<close> has no child for its first page.\<close>

definition leaf_point :: "radix_cache \<Rightarrow> nat set \<Rightarrow> (nat \<Rightarrow> lunit list) \<Rightarrow> (nat \<Rightarrow> int list) \<Rightarrow> nat \<Rightarrow> radix_key \<Rightarrow> int list \<Rightarrow> bool" where
  "leaf_point c L F V n k v \<longleftrightarrow> tree_ok c L F V \<and> n \<in> L \<and> 0 < key_len k \<and> page_size c dvd key_len k \<and> length v = key_len k \<and>
     map_of (node_children (node c n)) (page_key (page_size c) k) = None"

lemma leaf_pointD:
  assumes "leaf_point c L F V n k v"
  shows "tree_ok c L F V" "n \<in> L" "0 < key_len k" "page_size c dvd key_len k" "length v = key_len k"
    "map_of (node_children (node c n)) (page_key (page_size c) k) = None" "x \<in> L \<Longrightarrow> x \<noteq> node_counter c" "node_counter c \<notin> L"
proof -
  show ok: "tree_ok c L F V" "n \<in> L" "0 < key_len k" "page_size c dvd key_len k" "length v = key_len k"
    "map_of (node_children (node c n)) (page_key (page_size c) k) = None"
    using assms by (simp_all add: leaf_point_def)
  show "node_counter c \<notin> L" using tree_okD(8) [OF ok(1)] by blast
  then show "x \<in> L \<Longrightarrow> x \<noteq> node_counter c" by metis
qed

definition leaf_path :: "radix_cache \<Rightarrow> (nat \<Rightarrow> lunit list) \<Rightarrow> nat \<Rightarrow> radix_key \<Rightarrow> (nat \<Rightarrow> lunit list)" where
  "leaf_path c F n k = F(node_counter c := F n @ lunits k)"

definition leaf_slots :: "radix_cache \<Rightarrow> (nat \<Rightarrow> int list) \<Rightarrow> nat \<Rightarrow> int list \<Rightarrow> (nat \<Rightarrow> int list)" where
  "leaf_slots c V n v = V(node_counter c := V n @ v)"

lemma leaf_path_old [simp]:
  "x \<noteq> node_counter c \<Longrightarrow> leaf_path c F n k x = F x" "x \<noteq> node_counter c \<Longrightarrow> leaf_slots c V n v x = V x"
  "leaf_path c F n k (node_counter c) = F n @ lunits k" "leaf_slots c V n v (node_counter c) = V n @ v"
  by (simp_all add: leaf_path_def leaf_slots_def)

lemma leaf_nodes:
  assumes s: "leaf_point c L F V n k v"
  shows "node (leaf_state now prio chunked n k ck v c) (node_counter c) = leaf_node now prio chunked n k v"
    "node (leaf_state now prio chunked n k ck v c) n = (node c n)\<lparr>node_children := AList.update ck (node_counter c) (node_children (node c n))\<rparr>"
    "x \<noteq> node_counter c \<Longrightarrow> x \<noteq> n \<Longrightarrow> node (leaf_state now prio chunked n k ck v c) x = node c x"
  using leaf_pointD(2,7) [OF s] by (auto simp: leaf_state_def)

lemma leaf_node_sel [simp]:
  "node_children (leaf_node now prio chunked n k v) = []" "node_parent (leaf_node now prio chunked n k v) = Some n"
  "node_key (leaf_node now prio chunked n k v) = k" "node_value (leaf_node now prio chunked n k v) = Some v"
  "lock_ref (leaf_node now prio chunked n k v) = 0"
  by (simp_all add: leaf_node_def new_tree_node_def)

lemma leaf_same_fields:
  assumes s: "leaf_point c L F V n k v" and x: "x \<in> L"
  shows "node_parent (node (leaf_state now prio chunked n k ck v c) x) = node_parent (node c x)"
    "node_key (node (leaf_state now prio chunked n k ck v c) x) = node_key (node c x)"
    "node_value (node (leaf_state now prio chunked n k ck v c) x) = node_value (node c x)"
    "lock_ref (node (leaf_state now prio chunked n k ck v c) x) = lock_ref (node c x)"
proof -
  have "node (leaf_state now prio chunked n k ck v c) x = node c x \<or>
      (\<exists>f. node (leaf_state now prio chunked n k ck v c) x = (node c x)\<lparr>node_children := f\<rparr>)"
    using leaf_pointD(7) [OF s x] leaf_nodes(2,3) [OF s] by metis
  then show "node_parent (node (leaf_state now prio chunked n k ck v c) x) = node_parent (node c x)"
    "node_key (node (leaf_state now prio chunked n k ck v c) x) = node_key (node c x)"
    "node_value (node (leaf_state now prio chunked n k ck v c) x) = node_value (node c x)"
    "lock_ref (node (leaf_state now prio chunked n k ck v c) x) = lock_ref (node c x)" by auto
qed

lemma leaf_tree:
  assumes s: "leaf_point c L F V n k v"
  shows "tree_ok (leaf_state now prio chunked n k (page_key (page_size c) k) v c) (insert (node_counter c) L) (leaf_path c F n k) (leaf_slots c V n v)"
proof -
  note d = leaf_pointD [OF s] and t = tree_okD [OF leaf_pointD(1) [OF s]]
  let ?new = "node_counter c"
  let ?c = "leaf_state now prio chunked n k (page_key (page_size c) k) v c" and ?L = "insert ?new L"
  let ?F = "leaf_path c F n k" and ?V = "leaf_slots c V n v"
  note same = leaf_same_fields [OF s] and nodes = leaf_nodes [OF s]
  have newn: "n \<noteq> ?new" by (rule d(7) [OF d(2)])
  have "edge_ok ?c ?F ?V n ?new"
    using d(3-5) newn by (simp add: edge_ok_def nodes)
  moreover have "edge_ok ?c ?F ?V q x" if x: "x \<in> L" and q: "q \<in> L" "edge_ok c F V q x" for q x
  proof -
    have "page_key (page_size c) (node_key (node c x)) \<noteq> page_key (page_size c) k" if "q = n"
      using q(2) d(6) that by (auto simp: edge_ok_def)
    then have "map_of (node_children (node ?c q)) (page_key (page_size c) (node_key (node c x))) = Some x"
      using q d(7) [OF q(1)] by (cases "q = n") (simp_all add: nodes edge_ok_def)
    then show ?thesis using q(2) same [OF x] d(7) [OF x] d(7) [OF q(1)] by (simp add: edge_ok_def)
  qed
  ultimately have edges: "\<exists>q\<in>?L. edge_ok ?c ?F ?V q x" if "x \<in> ?L" "x \<noteq> root_node c" for x
    using that t(9) d(2) by (metis insert_iff)
  have children: "children_ok ?c ?L x" if x: "x \<in> ?L" for x
  proof (cases "x = ?new")
    case True
    then show ?thesis by (simp add: children_ok_def nodes)
  next
    case False
    with x have xL: "x \<in> L" by simp
    have wf: "dict_wf (node_children (node c x))" using t(10) [OF xL] by (simp add: children_ok_def)
    have old: "y \<in> ?L \<and> y \<noteq> root_node c \<and> node_parent (node ?c y) = Some x \<and> ck = page_key (page_size c) (node_key (node ?c y))"
      if "map_of (node_children (node c x)) ck = Some y" for ck y
      using tree_child [OF d(1) xL that] same [of y] by simp
    show ?thesis
    proof (cases "x = n")
      case True
      have "y \<in> ?L \<and> y \<noteq> root_node c \<and> node_parent (node ?c y) = Some n \<and> ck = page_key (page_size c) (node_key (node ?c y))"
        if "map_of (AList.update (page_key (page_size c) k) ?new (node_children (node c n))) ck = Some y" for ck y
        using that old [of ck y] True d(7) [OF t(3)] by (auto simp: nodes(1) split: if_splits)
      then show ?thesis using True wf by (simp add: children_ok_def nodes)
    next
      case neq: False
      then show ?thesis using wf old False by (simp add: children_ok_def nodes)
    qed
  qed
  have "\<forall>x\<in>?L. x < Suc ?new" using t(8) by (auto simp: less_Suc_eq)
  moreover have "root_node c \<noteq> ?new" by (rule d(7) [OF t(3)])
  ultimately show ?thesis
    using t(1-7) same [OF t(3)] edges children unfolding tree_ok_def by simp
qed

lemma leaf_unreached:
  assumes s: "leaf_point c L F V n k v" and h: "h \<in> L" and us: "prefix us (F h)" "prefix us (F n @ lunits k)" "page_size c dvd length us"
  shows "length us \<le> length (F n)"
proof (rule ccontr)
  note d = leaf_pointD [OF s]
  assume "\<not> length us \<le> length (F n)"
  then have lt: "length (F n) < length us" by simp
  then have pre: "prefix (F n) us" using us(2) by (meson less_imp_le prefixI prefix_length_prefix)
  then have "prefix (F n) (F h)" "n \<noteq> h" using us(1) lt by (auto intro: prefix_order.trans dest: prefix_length_le)
  then obtain x where "map_of (node_children (node c n)) (first_page (page_size c) (drop (length (F n)) (F h))) = Some x"
    using tree_descend [OF d(1,2) h] by blast
  moreover have "first_page (page_size c) (drop (length (F n)) (F h)) = page_key (page_size c) k"
  proof -
    obtain zs where us': "us = F n @ zs" using pre by (auto simp: prefix_def)
    have "page_size c dvd length zs" using us(3) us' tree_lengths [OF d(1,2)] by (simp add: dvd_add_right_iff)
    then have le: "page_size c \<le> length zs" using lt us' tree_okD(1) [OF d(1)] by (intro page_le) auto
    have "prefix zs (lunits k)" "prefix zs (drop (length (F n)) (F h))" using us us' by (auto simp: prefix_def)
    then show ?thesis
      using first_page_prefix [OF tree_okD(1) [OF d(1)] le] first_page_lunits [OF d(3)] by metis
  qed
  ultimately show False using d(6) by simp
qed

lemma leaf_locks:
  assumes s: "leaf_point c L F V n k v" and ok: "locks_ok c L F hs"
  shows "locks_ok (leaf_state now prio chunked n k ck v c) (insert (node_counter c) L) (leaf_path c F n k) hs"
proof -
  note d = leaf_pointD [OF s]
  let ?c = "leaf_state now prio chunked n k ck v c" and ?F = "leaf_path c F n k" and ?new = "node_counter c"
  have hs: "set_mset hs \<subseteq> L" using ok by (simp add: locks_ok_def)
  then have Fh: "?F h = F h" if "h \<in># hs" for h using that d(7) by auto
  have "lock_ref (node ?c x) = int (size (filter_mset (\<lambda>h. prefix (?F x) (?F h)) hs))" if x: "x \<in> insert ?new L" "x \<noteq> root_node c" for x
  proof (cases "x = ?new")
    case True
    have "\<not> prefix (F n @ lunits k) (F h)" if "h \<in># hs" for h
    proof
      assume "prefix (F n @ lunits k) (F h)"
      moreover have "h \<in> L" using hs that by blast
      ultimately have "length (F n @ lunits k) \<le> length (F n)"
        using leaf_unreached [OF s, of h "F n @ lunits k"] tree_lengths [OF d(1,2)] d(4) by simp
      then show False using d(3) by simp
    qed
    then have "filter_mset (\<lambda>h. prefix (?F ?new) (?F h)) hs = {#}" using Fh by simp
    then show ?thesis using True by (simp add: leaf_nodes(1) [OF s])
  next
    case False
    with x have "x \<in> L" by simp
    moreover have "filter_mset (\<lambda>h. prefix (?F x) (?F h)) hs = filter_mset (\<lambda>h. prefix (F x) (F h)) hs"
      using Fh False by (intro filter_mset_cong) auto
    ultimately show ?thesis using ok x(2) leaf_same_fields(4) [OF s] by (simp add: locks_ok_def)
  qed
  then show ?thesis
    using hs ok leaf_same_fields(4) [OF s tree_okD(3) [OF d(1)]] by (auto simp: locks_ok_def)
qed

lemma leaf_sizes:
  assumes s: "leaf_point c L F V n k v" and ok: "sizes_ok c L"
  shows "sizes_ok (leaf_state now prio chunked n k ck v c) (insert (node_counter c) L)"
proof -
  note d = leaf_pointD [OF s]
  let ?c = "leaf_state now prio chunked n k ck v c" and ?new = "node_counter c"
  have sum: "(\<Sum>x \<in> insert ?new L - {root_node c}. g' x) = g' ?new + (\<Sum>x \<in> L - {root_node c}. g x)"
    if "\<And>x. x \<in> L \<Longrightarrow> g' x = g x" for g g' :: "nat \<Rightarrow> int"
  proof -
    have "insert ?new L - {root_node c} = insert ?new (L - {root_node c})" using d(7) [OF tree_okD(3) [OF d(1)]] by auto
    moreover have "(\<Sum>x \<in> L - {root_node c}. g' x) = (\<Sum>x \<in> L - {root_node c}. g x)" using that by (intro sum.cong) auto
    ultimately show ?thesis using d(8) tree_okD(2) [OF d(1)] by simp
  qed
  have new: "lock_ref (node ?c ?new) = 0" "node_size ?c ?new = int (key_len k)" by (simp_all add: node_size_def leaf_nodes(1) [OF s])
  have other: "lock_ref (node ?c x) = lock_ref (node c x)" "node_size ?c x = node_size c x" if "x \<in> L" for x
    using leaf_same_fields [OF s that] by (simp_all add: node_size_def)
  have "(\<Sum>x \<in> insert ?new L - {root_node c}. if lock_ref (node ?c x) = 0 then node_size ?c x else 0) =
      int (key_len k) + (\<Sum>x \<in> L - {root_node c}. if lock_ref (node c x) = 0 then node_size c x else 0)"
    using sum [of "\<lambda>x. if lock_ref (node ?c x) = 0 then node_size ?c x else 0" "\<lambda>x. if lock_ref (node c x) = 0 then node_size c x else 0"]
      new other by simp
  moreover have "(\<Sum>x \<in> insert ?new L - {root_node c}. if lock_ref (node ?c x) = 0 then 0 else node_size ?c x) =
      (\<Sum>x \<in> L - {root_node c}. if lock_ref (node c x) = 0 then 0 else node_size c x)"
    using sum [of "\<lambda>x. if lock_ref (node ?c x) = 0 then 0 else node_size ?c x" "\<lambda>x. if lock_ref (node c x) = 0 then 0 else node_size c x"]
      new other by simp
  ultimately show ?thesis using ok by (simp add: sizes_ok_def)
qed

lemma leaf_leaves:
  assumes s: "leaf_point c L F V n k v" and ok: "leaves_ok c L"
  shows "leaves_ok (leaf_state now prio chunked n k ck v c) (insert (node_counter c) L)"
proof -
  note d = leaf_pointD [OF s]
  let ?c = "leaf_state now prio chunked n k ck v c" and ?new = "node_counter c"
  have "AList.update ck y e \<noteq> []" for y :: nat and e by (cases e) auto
  then have n: "node_children (node ?c n) \<noteq> []" by (simp add: leaf_nodes [OF s])
  have same: "node_children (node ?c x) = node_children (node c x)" "lock_ref (node ?c x) = lock_ref (node c x)" if "x \<in> L" "x \<noteq> n" for x
    using leaf_nodes(3) [OF s d(7) [OF that(1)] that(2)] by simp_all
  have "{x \<in> L. lock_ref (node ?c x) = 0 \<and> node_children (node ?c x) = []} = {x \<in> L. lock_ref (node c x) = 0 \<and> node_children (node c x) = []} - {n}"
  proof (rule set_eqI)
    fix x
    show "x \<in> {x \<in> L. lock_ref (node ?c x) = 0 \<and> node_children (node ?c x) = []} \<longleftrightarrow>
        x \<in> {x \<in> L. lock_ref (node c x) = 0 \<and> node_children (node c x) = []} - {n}"
      using n same [of x] by (cases "x = n") auto
  qed
  moreover have "lock_ref (node ?c ?new) = 0 \<and> node_children (node ?c ?new) = []" by (simp add: leaf_nodes(1) [OF s])
  ultimately show ?thesis using ok by (auto simp: leaves_ok_def)
qed

lemma leaf_inv:
  assumes inv: "radix_inv c L F V hs" and s: "leaf_point c L F V n k v"
  shows "radix_inv (leaf_state now prio chunked n k (page_key (page_size c) k) v c) (insert (node_counter c) L)
    (leaf_path c F n k) (leaf_slots c V n v) hs"
  using inv leaf_tree [OF s] leaf_locks [OF s] leaf_sizes [OF s] leaf_leaves [OF s] by (simp add: radix_inv_def)

lemma leaf_held:
  assumes s: "leaf_point c L F V n k v"
  shows "held (insert (node_counter c) L) (leaf_path c F n k) (leaf_slots c V n v) us vs \<longleftrightarrow>
    held L F V us vs \<or> (prefix us (F n @ lunits k) \<and> vs = take (length us) (V n @ v))"
  using leaf_pointD(7) [OF s] by (auto simp: held_def)

lemma leaf_slots_sum:
  assumes s: "leaf_point c L F V n k v"
  shows "tree_slots (leaf_state now prio chunked n k (page_key (page_size c) k) v c) = tree_slots c + mset v"
proof -
  note d = leaf_pointD [OF s]
  let ?c = "leaf_state now prio chunked n k (page_key (page_size c) k) v c"
  have same: "node_slots ?c x = node_slots c x" if "x \<in> L" for x
    using leaf_same_fields(3) [OF s that] by (simp add: node_slots_def)
  have "node_slots ?c (node_counter c) = mset v" by (simp add: node_slots_def leaf_nodes(1) [OF s])
  then have "(\<Sum>x \<in> insert (node_counter c) L. node_slots ?c x) = mset v + (\<Sum>x \<in> L. node_slots c x)"
    using same d(8) tree_okD(2) [OF d(1)] by simp
  then show ?thesis using tree_slots_eq [OF leaf_tree [OF s]] tree_slots_eq [OF d(1)] by simp
qed

section \<open>Deleting a leaf\<close>

definition cut_state :: "nat \<Rightarrow> nat \<Rightarrow> radix_cache \<Rightarrow> radix_cache" where
  "cut_state p n c =
     c\<lparr>tree_nodes := (tree_nodes c)(p := (node c p)\<lparr>node_children :=
         AList.delete (page_key (page_size c) (node_key (node c n))) (node_children (node c p))\<rparr>),
       evictable_size := evictable_size c - node_size c n, evictable_leaves := evictable_leaves c - {n}\<rparr>"

lemma cut_state_sel [simp]:
  "settings (cut_state p n c) = settings c" "root_node (cut_state p n c) = root_node c" "page_size (cut_state p n c) = page_size c"
  "node_counter (cut_state p n c) = node_counter c" "protected_size (cut_state p n c) = protected_size c" "frees (cut_state p n c) = frees c"
  "evictable_size (cut_state p n c) = evictable_size c - node_size c n" "evictable_leaves (cut_state p n c) = evictable_leaves c - {n}"
  by (simp_all add: cut_state_def settings_def)

lemma cut_nodes:
  "node (cut_state p n c) p =
     (node c p)\<lparr>node_children := AList.delete (page_key (page_size c) (node_key (node c n))) (node_children (node c p))\<rparr>"
  "x \<noteq> p \<Longrightarrow> node (cut_state p n c) x = node c x"
  by (simp_all add: cut_state_def)

lemma cut_same_fields [simp]:
  "node_parent (node (cut_state p n c) x) = node_parent (node c x)" "node_key (node (cut_state p n c) x) = node_key (node c x)"
  "node_value (node (cut_state p n c) x) = node_value (node c x)" "lock_ref (node (cut_state p n c) x) = lock_ref (node c x)"
  "node_size (cut_state p n c) x = node_size c x" "last_access_time (node (cut_state p n c) x) = last_access_time (node c x)"
  "get_priority s (node (cut_state p n c) x) = get_priority s (node c x)"
  by (cases "x = p"; cases s; simp add: cut_nodes node_size_def)+

definition cut_point :: "radix_cache \<Rightarrow> nat set \<Rightarrow> (nat \<Rightarrow> lunit list) \<Rightarrow> (nat \<Rightarrow> int list) \<Rightarrow> nat \<Rightarrow> nat \<Rightarrow> bool" where
  "cut_point c L F V p n \<longleftrightarrow> tree_ok c L F V \<and> n \<in> L \<and> p \<in> L \<and> edge_ok c F V p n \<and> node_children (node c n) = [] \<and> lock_ref (node c n) = 0"

lemma cut_pointD:
  assumes "cut_point c L F V p n"
  shows "tree_ok c L F V" "n \<in> L" "p \<in> L" "edge_ok c F V p n" "node_children (node c n) = []" "lock_ref (node c n) = 0"
    "node_parent (node c n) = Some p" "p \<noteq> n" "n \<noteq> root_node c"
    "map_of (node_children (node c p)) (page_key (page_size c) (node_key (node c n))) = Some n"
proof -
  show ok: "tree_ok c L F V" "n \<in> L" "p \<in> L" "node_children (node c n) = []" "lock_ref (node c n) = 0"
    and e: "edge_ok c F V p n" using assms by (simp_all add: cut_point_def)
  show par: "node_parent (node c n) = Some p"
    and "map_of (node_children (node c p)) (page_key (page_size c) (node_key (node c n))) = Some n" using e by (simp_all add: edge_ok_def)
  show "p \<noteq> n" using edge_longer(1) [OF e] by auto
  show "n \<noteq> root_node c" using par tree_okD(6) [OF ok(1)] by auto
qed

lemma cut_result:
  assumes s: "cut_point c L F V p n"
  shows "delete_leaf n c = Inr (update_leaf_status p (cut_state p n c))"
proof -
  note d = cut_pointD [OF s]
  have "child_key (page_size c) (node_key (node c n)) = Inr (page_key (page_size c) (node_key (node c n)))"
    using d(4) tree_okD(1) [OF d(1)] by (intro child_key_page) (auto simp: edge_ok_def)
  then show ?thesis using d(7,8,10) by (simp add: delete_leaf_def cut_state_def update_node_def node_size_def Let_def)
qed

lemma cut_tree:
  assumes s: "cut_point c L F V p n"
  shows "tree_ok (cut_state p n c) (L - {n}) F V"
proof -
  note d = cut_pointD [OF s] and t = tree_okD [OF cut_pointD(1) [OF s]]
  let ?c = "cut_state p n c" and ?pk = "\<lambda>x. page_key (page_size c) (node_key (node c x))"
  have edges: "\<exists>q\<in>L - {n}. edge_ok ?c F V q x" if x: "x \<in> L - {n}" "x \<noteq> root_node c" for x
  proof -
    obtain q where q: "q \<in> L" "edge_ok c F V q x" using t(9) x by blast
    then have "q \<noteq> n" using d(5) by (auto simp: edge_ok_def)
    moreover have "map_of (node_children (node ?c q)) (?pk x) = Some x"
    proof (cases "q = p")
      case True
      then have "?pk x \<noteq> ?pk n" using q(2) d(10) x(1) by (auto simp: edge_ok_def)
      then show ?thesis using q(2) True by (simp add: cut_nodes edge_ok_def)
    next
      case False
      then show ?thesis using q(2) by (simp add: cut_nodes edge_ok_def)
    qed
    ultimately show ?thesis using q by (auto simp: edge_ok_def)
  qed
  have children: "children_ok ?c (L - {n}) x" if x: "x \<in> L - {n}" for x
  proof -
    have xL: "x \<in> L" using x by simp
    have wf: "dict_wf (node_children (node c x))" using t(10) [OF xL] by (simp add: children_ok_def)
    have old: "y \<in> L \<and> y \<noteq> root_node c \<and> node_parent (node c y) = Some x \<and> ck = ?pk y"
      if "map_of (node_children (node c x)) ck = Some y" for ck y
      using tree_child [OF d(1) xL that] by simp
    show ?thesis
    proof (cases "x = p")
      case True
      then show ?thesis using wf old by (auto simp: children_ok_def cut_nodes split: if_splits)
    next
      case False
      have "y \<noteq> n" if "map_of (node_children (node c x)) ck = Some y" for ck y using old [OF that] d(7) False by auto
      then show ?thesis using wf old False unfolding children_ok_def by (simp add: cut_nodes(2) [OF False])
    qed
  qed
  show ?thesis using t(1-8) d(9) edges children unfolding tree_ok_def by simp
qed

lemma status_tree: "tree_ok (update_leaf_status p c) L F V \<longleftrightarrow> tree_ok c L F V"
  by (simp add: tree_ok_def edge_ok_def children_ok_def)

lemma cut_inv:
  assumes inv: "radix_inv c L F V hs" and s: "cut_point c L F V p n"
  shows "radix_inv (update_leaf_status p (cut_state p n c)) (L - {n}) F V hs"
proof -
  note d = cut_pointD [OF s] and t = tree_okD [OF cut_pointD(1) [OF s]]
  let ?c = "cut_state p n c"
  have lk: "locks_ok c L F hs" and sz: "sizes_ok c L" and lf: "leaves_ok c L" using inv by (simp_all add: radix_inv_def)
  have "filter_mset (\<lambda>h. prefix (F n) (F h)) hs = {#}" using lk d(2,6,9) by (simp add: locks_ok_def)
  then have "n \<notin># hs" by auto
  then have "locks_ok (update_leaf_status p ?c) (L - {n}) F hs" using lk by (auto simp: locks_ok_def)
  moreover have "sizes_ok (update_leaf_status p ?c) (L - {n})"
  proof -
    have eq: "L - {root_node c} = insert n (L - {n} - {root_node c})" using d(2,9) by auto
    have fin: "finite (L - {n} - {root_node c})" "n \<notin> L - {n} - {root_node c}" using t(2) by auto
    have "sizes_ok c L \<longleftrightarrow>
      evictable_size c = node_size c n + (\<Sum>x \<in> L - {n} - {root_node c}. if lock_ref (node c x) = 0 then node_size c x else 0) \<and>
      protected_size c = (\<Sum>x \<in> L - {n} - {root_node c}. if lock_ref (node c x) = 0 then 0 else node_size c x)"
      unfolding sizes_ok_def eq using fin d(6) by simp
    with sz have "sizes_ok ?c (L - {n})" by (simp add: sizes_ok_def cong: if_cong)
    then show ?thesis by (simp add: sizes_ok_def node_size_def cong: if_cong)
  qed
  moreover have "leaves_ok (update_leaf_status p ?c) (L - {n})"
  proof -
    have nonneg: "0 \<le> lock_ref (node c p)" using lk d(3) by (cases "p = root_node c") (auto simp: locks_ok_def)
    have p: "p \<notin> evictable_leaves c" using lf d(10) by (auto simp: leaves_ok_def)
    have same: "node_children (node ?c x) = node_children (node c x)" if "x \<noteq> p" for x using cut_nodes(2) [OF that] by simp
    have E: "evictable_leaves (update_leaf_status p ?c) =
        (if lock_ref (node c p) \<le> 0 \<and> node_children (node ?c p) = [] then insert p (evictable_leaves c - {n}) else evictable_leaves c - {n} - {p})"
      using update_leaf_status_eq [OF cut_tree [OF s]] d(3,8) by simp
    have "x \<in> evictable_leaves (update_leaf_status p ?c) \<longleftrightarrow> x \<in> L - {n} \<and> lock_ref (node c x) = 0 \<and> node_children (node ?c x) = []" for x
    proof (cases "x = p")
      case True
      then show ?thesis using E nonneg d(3,8) by auto
    next
      case False
      then show ?thesis using E lf same [OF False] by (auto simp: leaves_ok_def)
    qed
    then show ?thesis by (auto simp: leaves_ok_def)
  qed
  ultimately show ?thesis using cut_tree [OF s] by (simp add: radix_inv_def status_tree)
qed

lemma cut_slots_sum:
  assumes s: "cut_point c L F V p n" and v: "node_value (node c n) = Some v"
  shows "tree_slots c = tree_slots (update_leaf_status p (cut_state p n c)) + mset v"
proof -
  note d = cut_pointD [OF s]
  let ?c = "update_leaf_status p (cut_state p n c)"
  have same: "node_slots ?c x = node_slots c x" for x by (simp add: node_slots_def)
  have "(\<Sum>x \<in> L. node_slots c x) = node_slots c n + (\<Sum>x \<in> L - {n}. node_slots c x)"
    using tree_okD(2) [OF d(1)] d(2) by (rule sum.remove)
  then show ?thesis
    using tree_slots_eq [OF d(1)] tree_slots_eq [of ?c "L - {n}" F V] cut_tree [OF s] v
    by (simp add: status_tree same) (simp add: node_slots_def)
qed

end
