(* ===== verification/RadixWalk.thy ===== *)
theory RadixWalk
  imports RadixSteps RadixLeaf
begin

text \<open>
  The two descents of SGLang's radix cache. Both follow the key from the root and split the node in which
  the key leaves the tree; they return, keep the invariant and the contents, and end at the longest cached
  prefix of the key that is a whole number of pages.
\<close>

declare map_of_eq_Some_iff [simp del]

section \<open>What a descent changes\<close>

definition grown :: "radix_cache \<Rightarrow> nat set \<Rightarrow> (nat \<Rightarrow> lunit list) \<Rightarrow> (nat \<Rightarrow> int list) \<Rightarrow>
    radix_cache \<Rightarrow> nat set \<Rightarrow> (nat \<Rightarrow> lunit list) \<Rightarrow> (nat \<Rightarrow> int list) \<Rightarrow> bool" where
  "grown c L F V c' L' F' V' \<longleftrightarrow> settings c' = settings c \<and> root_node c' = root_node c \<and> frees c' = frees c \<and>
     evictable_size c' = evictable_size c \<and> protected_size c' = protected_size c \<and> tree_slots c' = tree_slots c \<and>
     L \<subseteq> L' \<and> (\<forall>x\<in>L. F' x = F x \<and> V' x = V x) \<and> (\<forall>us xs. held L' F' V' us xs \<longleftrightarrow> held L F V us xs)"

lemma grown_refl [simp]: "grown c L F V c L F V"
  by (simp add: grown_def)

lemma grown_trans: "grown c L F V c' L' F' V' \<Longrightarrow> grown c' L' F' V' c'' L'' F'' V'' \<Longrightarrow> grown c L F V c'' L'' F'' V''"
  unfolding grown_def by (simp add: subset_iff)

lemma grown_shape:
  assumes "same_nodes c c'" "radix_inv c L F V hs"
  shows "grown c L F V c' L F V"
proof -
  have "tree_ok c L F V" "tree_ok c' L F V" using assms same_nodes_inv by (auto simp: radix_inv_def)
  then have "tree_slots c' = tree_slots c" by (simp add: tree_slots_eq same_nodes_slots [OF assms(1)])
  then show ?thesis using assms(1) by (simp add: grown_def same_nodes_def)
qed

lemma grown_split:
  assumes s: "split_point c L F V p n m v"
  shows "grown c L F V (split_state now p n m v c) (insert (node_counter c) L) (split_path c F p n m) (split_slots c V p m v)"
  using split_fresh [OF s] split_held [OF s] split_slots_sum [OF s] by (auto simp: grown_def)

lemma grown_page: "grown c L F V c' L' F' V' \<Longrightarrow> page_size c' = page_size c"
  by (simp add: grown_def settings_def)

text \<open>No cached path follows \<open>U\<close> for more whole pages than \<open>us\<close>.\<close>

definition longest :: "nat \<Rightarrow> nat set \<Rightarrow> (nat \<Rightarrow> lunit list) \<Rightarrow> lunit list \<Rightarrow> lunit list \<Rightarrow> bool" where
  "longest page L F U us \<longleftrightarrow>
     (\<forall>ws h. prefix ws U \<and> page dvd length ws \<and> h \<in> L \<and> prefix ws (F h) \<longrightarrow> length ws \<le> length us)"

lemma longest_all: "longest page L F U U"
  by (auto simp: longest_def dest: prefix_length_le)

text \<open>The key ends at \<open>n\<close>, or \<open>n\<close> has no child for the page it goes on with.\<close>

definition key_leaves :: "radix_cache \<Rightarrow> nat \<Rightarrow> radix_key \<Rightarrow> bool" where
  "key_leaves c n k \<longleftrightarrow> key_len k = 0 \<or> map_of (node_children (node c n)) (page_key (page_size c) k) = None"

lemma longest_leaves:
  assumes "tree_ok c L F V" "n \<in> L" "page_size c dvd key_len k" "key_leaves c n k"
  shows "longest (page_size c) L F (F n @ lunits k) (F n)"
proof (cases "key_len k = 0")
  case True
  then have "lunits k = []" by (simp flip: length_0_conv)
  then show ?thesis using longest_all [of "page_size c" L F "F n"] by simp
next
  case False
  with assms have "leaf_point c L F V n k (replicate (key_len k) 0)" by (simp add: leaf_point_def key_leaves_def)
  then show ?thesis using leaf_unreached unfolding longest_def by blast
qed

section \<open>One step down\<close>

lemma page_key_lunits: "page_key p a = page_key p b \<Longrightarrow> take p (lunits a) = take p (lunits b)"
  by (simp add: page_key_def lunits_def take_map)

text \<open>The child for the first page of the key: its key matches for at least that page.\<close>

lemma step_down:
  assumes ok: "tree_ok c L F V" and n: "n \<in> L" and k: "0 < key_len k" "page_size c dvd key_len k"
    and child: "map_of (node_children (node c n)) (page_key (page_size c) k) = Some x"
  obtains m where "key_match (page_size c) (node_key (node c x)) k = Inr m" "x \<in> L" "edge_ok c F V n x"
    "0 < m" "page_size c dvd m" "m \<le> key_len (node_key (node c x))" "m \<le> key_len k"
    "take m (lunits (node_key (node c x))) = take m (lunits k)"
    "m < key_len (node_key (node c x)) \<Longrightarrow> m < key_len k \<Longrightarrow>
       page_key (page_size c) (key_from m (node_key (node c x))) \<noteq> page_key (page_size c) (key_from m k)"
proof -
  let ?K = "node_key (node c x)" and ?p = "page_size c"
  note ch = tree_child [OF ok n child] and p0 = tree_okD(1) [OF ok]
  have K: "0 < key_len ?K" "?p dvd key_len ?K" using ch(5) by (simp_all add: edge_ok_def)
  let ?cl = "common_len (lunits ?K) (lunits k)"
  let ?m = "?cl div ?p * ?p"
  have pk: "page_key ?p ?K = page_key ?p k" using ch(4) by simp
  then have match: "key_match ?p ?K k = Inr ?m" using p0 K k by (intro key_match_lunits) auto
  have "take ?p (lunits ?K) = take ?p (lunits k)" by (rule page_key_lunits [OF pk])
  then have "?p \<le> ?cl" using page_le [OF p0 K(2,1)] page_le [OF p0 k(2,1)] by (simp add: common_len_iff)
  then have pos: "0 < ?m" using p0 by (simp add: div_greater_zero_iff)
  have le: "?m \<le> ?cl" by simp
  then have len: "?m \<le> key_len ?K" "?m \<le> key_len k" and eq: "take ?m (lunits ?K) = take ?m (lunits k)"
    by (simp_all add: common_len_iff)
  have "page_key ?p (key_from ?m ?K) \<noteq> page_key ?p (key_from ?m k)" if lt: "?m < key_len ?K" "?m < key_len k"
  proof
    assume "page_key ?p (key_from ?m ?K) = page_key ?p (key_from ?m k)"
    then have "take ?p (drop ?m (lunits ?K)) = take ?p (drop ?m (lunits k))"
      unfolding lunits_from [symmetric] by (rule page_key_lunits)
    then have "take (?m + ?p) (lunits ?K) = take (?m + ?p) (lunits k)" using eq by (simp only: take_add)
    moreover have "?m + ?p \<le> j" if "?p dvd j" "?m < j" for j
      using page_le [OF p0, of "j - ?m"] that by (simp add: dvd_diff_nat)
    ultimately have "?m + ?p \<le> ?cl" using lt K(2) k(2) by (simp add: common_len_iff)
    then show False using p0 div_mult_mod_eq [of ?cl ?p] mod_less_divisor [of ?p ?cl] by linarith
  qed
  with match ch pos len eq show thesis by (intro that) auto
qed

lemma descend_path:
  assumes "edge_ok c F V n x" "take m (lunits (node_key (node c x))) = take m (lunits k)" "m = key_len (node_key (node c x))"
  shows "F x @ lunits (key_from m k) = F n @ lunits k"
proof -
  have "F x = F n @ take m (lunits k)" using assms by (simp add: edge_ok_def)
  then show ?thesis by (simp add: lunits_from)
qed

section \<open>The descent of a match\<close>

lemma those_snoc: "those vs = Some ls \<Longrightarrow> those (vs @ [Some v]) = Some (ls @ [v])"
  by (induction vs arbitrary: ls) (auto split: option.splits)

text \<open>The outcome: the node, the slots of its path and the ghosts of the grown tree.\<close>

definition match_end :: "real \<Rightarrow> nat \<Rightarrow> radix_key \<Rightarrow> child_id \<Rightarrow> int list option list \<Rightarrow> radix_cache \<Rightarrow> nat set \<Rightarrow>
    (nat \<Rightarrow> lunit list) \<Rightarrow> (nat \<Rightarrow> int list) \<Rightarrow> nat multiset \<Rightarrow> bool" where
  "match_end now n k ck vs c L F V hs \<longleftrightarrow>
     (\<exists>vs' n' c' ls L' F' V'. match_walk now n k ck vs c = Some (Inr (vs', n', c')) \<and> radix_inv c' L' F' V' hs \<and>
        grown c L F V c' L' F' V' \<and> n' \<in> L' \<and> prefix (F' n') (F n @ lunits k) \<and>
        longest (page_size c) L' F' (F n @ lunits k) (F' n') \<and> those vs' = Some ls \<and> concat ls = V' n')"

lemma split_leaves_key:
  assumes inv: "radix_inv c L F V hs" and s: "split_point c L F V n x m v"
    and m: "key_match (page_size c) (node_key (node c x)) k = Inr m" "take m (lunits (node_key (node c x))) = take m (lunits k)"
    and k: "page_size c dvd key_len k"
      "m < key_len k \<Longrightarrow> page_key (page_size c) (key_from m (node_key (node c x))) \<noteq> page_key (page_size c) (key_from m k)"
  shows "key_leaves (split_state now n x m v c) (node_counter c) (key_from m k)"
    "split_path c F n x m (node_counter c) @ lunits (key_from m k) = F n @ lunits k"
    "page_size c dvd key_len (key_from m k)"
    "longest (page_size c) (insert (node_counter c) L) (split_path c F n x m) (F n @ lunits k) (split_path c F n x m (node_counter c))"
proof -
  note d = split_pointD [OF s]
  show leaves: "key_leaves (split_state now n x m v c) (node_counter c) (key_from m k)" for now
    using k(2) by (cases "m < key_len k") (auto simp: key_leaves_def split_nodes(1) [OF s])
  show path: "split_path c F n x m (node_counter c) @ lunits (key_from m k) = F n @ lunits k"
    using m(2) by (simp add: split_path_def lunits_from)
  show page: "page_size c dvd key_len (key_from m k)" using d(8) k(1) by (simp add: dvd_diff_nat)
  show "longest (page_size c) (insert (node_counter c) L) (split_path c F n x m) (F n @ lunits k) (split_path c F n x m (node_counter c))"
    using longest_leaves [OF split_tree [OF s, of now] _ _ leaves [of now]] page path by simp
qed

lemma match_walk_ok:
  assumes "radix_inv c L F V hs" "n \<in> L" "page_size c dvd key_len k" "0 < key_len k \<Longrightarrow> ck = page_key (page_size c) k"
    and "those vs = Some ls" "concat ls = V n"
  shows "match_end now n k ck vs c L F V hs"
  using assms
proof (induction "key_len k" arbitrary: n k ck vs ls c rule: less_induct)
  case less
  note inv = less.prems(1) and n = less.prems(2) and page = less.prems(3) and ck = less.prems(4) and vs = less.prems(5,6)
  have tree: "tree_ok c L F V" using inv by (simp add: radix_inv_def)
  have stop: "match_end now n k ck vs c L F V hs"
    if "match_walk now n k ck vs c = Some (Inr (vs, n, c))" "key_leaves c n k"
    using that inv n vs longest_leaves [OF tree n page that(2)] unfolding match_end_def
    by (intro exI [of _ vs] exI [of _ n] exI [of _ c] exI [of _ ls] exI [of _ L] exI [of _ F] exI [of _ V]) simp
  show ?case
  proof (cases "0 < key_len k")
    case False
    then show ?thesis by (intro stop) (simp_all add: match_walk.simps key_leaves_def)
  next
    case pos: True
    show ?thesis
    proof (cases "map_of (node_children (node c n)) ck")
      case None
      then show ?thesis using pos ck by (intro stop) (simp_all add: match_walk.simps key_leaves_def)
    next
      case (Some x)
      let ?c = "update_node x (\<lambda>nd. nd\<lparr>last_access_time := now\<rparr>) c"
      have sh: "same_nodes c ?c" by simp
      have inv': "radix_inv ?c L F V hs" by (rule same_nodes_inv [OF sh inv])
      then have tree': "tree_ok ?c L F V" by (simp add: radix_inv_def)
      have "map_of (node_children (node ?c n)) (page_key (page_size ?c) k) = Some x" using Some ck pos by (cases "n = x") auto
      then obtain m where m: "key_match (page_size ?c) (node_key (node ?c x)) k = Inr m" "x \<in> L" "edge_ok ?c F V n x"
          "0 < m" "page_size ?c dvd m" "m \<le> key_len (node_key (node ?c x))" "m \<le> key_len k"
          "take m (lunits (node_key (node ?c x))) = take m (lunits k)"
          "m < key_len (node_key (node ?c x)) \<Longrightarrow> m < key_len k \<Longrightarrow>
             page_key (page_size ?c) (key_from m (node_key (node ?c x))) \<noteq> page_key (page_size ?c) (key_from m k)"
        using step_down [OF tree' n pos] page by (metis update_node_sel(8))
      obtain v where v: "node_value (node ?c x) = Some v" "V x = V n @ v" using m(3) by (auto simp: edge_ok_def)
      show ?thesis
      proof (cases "m < key_len (node_key (node ?c x))")
        case True
        have s: "split_point ?c L F V n x m v" using tree' n m True v(1) by (simp add: split_point_def)
        let ?s = "split_state now n x m v ?c" and ?new = "node_counter ?c"
        let ?L = "insert ?new L" and ?F = "split_path ?c F n x m" and ?V = "split_slots ?c V n m v"
        have "match_walk now n k ck vs c = Some (Inr (vs @ [node_value (node ?s ?new)], ?new, ?s))"
          using pos Some m(1) True split_result [OF s, of now] by (simp add: match_walk.simps [of now n] Let_def)
        moreover have "node_value (node ?s ?new) = Some (take m v)" unfolding split_nodes(1) [OF s] by simp
        moreover have "concat (ls @ [take m v]) = ?V ?new" using vs(2) by (simp add: split_slots_def)
        moreover note split_inv [OF inv' s, of now] those_snoc [OF vs(1), of "take m v"]
        moreover have "grown c L F V ?s ?L ?F ?V" by (rule grown_trans [OF grown_shape [OF sh inv] grown_split [OF s]])
        moreover have "longest (page_size c) ?L ?F (F n @ lunits k) (?F ?new)"
          using split_leaves_key(4) [OF inv' s m(1,8) _ m(9) [OF True]] page by simp
        moreover have "prefix (?F ?new) (F n @ lunits k)"
          using split_leaves_key(2) [OF inv' s m(1,8) _ m(9) [OF True]] page by (metis prefixI update_node_sel(8))
        ultimately show ?thesis
          unfolding match_end_def
          by (intro exI [of _ "vs @ [node_value (node ?s ?new)]"] exI [of _ ?new] exI [of _ ?s] exI [of _ "ls @ [take m v]"]
              exI [of _ ?L] exI [of _ ?F] exI [of _ ?V]) simp
      next
        case False
        then have m_eq: "m = key_len (node_key (node ?c x))" using m(6) by simp
        let ?k = "key_from m k" and ?vs = "vs @ [node_value (node ?c x)]"
        let ?ck = "if 0 < key_len ?k then page_key (page_size ?c) ?k else ck"
        have page': "page_size ?c dvd key_len ?k" using m(5) page by (simp add: dvd_diff_nat)
        have "(if 0 < key_len ?k then child_key (page_size ?c) ?k else Inr ck) = Inr ?ck"
          using child_key_page [OF tree_okD(1) [OF tree'] page'] by simp
        then have eq: "match_walk now n k ck vs c = match_walk now x ?k ?ck ?vs ?c"
          using pos Some m(1) False by (simp add: match_walk.simps [of now n] Let_def)
        have "match_end now x ?k ?ck ?vs ?c L F V hs"
        proof (rule less.hyps)
          show "key_len ?k < key_len k" using m(4) pos by simp
          show "those ?vs = Some (ls @ [v])" using those_snoc [OF vs(1), of v] v(1) by simp
          show "concat (ls @ [v]) = V x" using vs(2) v(2) by simp
        qed (use inv' m(2) page' in simp_all)
        moreover have "F x @ lunits ?k = F n @ lunits k" by (rule descend_path [OF m(3,8) m_eq])
        ultimately show ?thesis unfolding match_end_def eq using grown_trans [OF grown_shape [OF sh inv]] by fastforce
      qed
    qed
  qed
qed

section \<open>The descent of an insertion\<close>

text \<open>Where it ends the key is used up or leaves the tree; the values passed so far are dropped.\<close>

definition insert_end :: "real \<Rightarrow> int \<Rightarrow> bool \<Rightarrow> nat \<Rightarrow> radix_key \<Rightarrow> child_id \<Rightarrow> int list \<Rightarrow> nat \<Rightarrow> radix_cache \<Rightarrow> nat set \<Rightarrow>
    (nat \<Rightarrow> lunit list) \<Rightarrow> (nat \<Rightarrow> int list) \<Rightarrow> nat multiset \<Rightarrow> bool" where
  "insert_end now prio chunked n k ck v tot c L F V hs \<longleftrightarrow>
     (\<exists>n' k' ck' m c' L' F' V'. insert_walk now prio chunked n k ck v tot c = Some (Inr ((n', k', ck', drop m v, tot + m), c')) \<and>
        radix_inv c' L' F' V' hs \<and> grown c L F V c' L' F' V' \<and> n' \<in> L' \<and> F' n' @ lunits k' = F n @ lunits k \<and>
        page_size c dvd key_len k' \<and> key_len k' + m = key_len k \<and> key_leaves c' n' k' \<and>
        (0 < key_len k' \<longrightarrow> ck' = page_key (page_size c) k'))"

lemma insert_walk_stop:
  assumes "radix_inv c L F V hs" "n \<in> L" "page_size c dvd key_len k" "0 < key_len k \<Longrightarrow> ck = page_key (page_size c) k" "key_leaves c n k"
  shows "insert_walk now prio chunked n k ck v tot c = Some (Inr ((n, k, ck, v, tot), c))"
    "insert_end now prio chunked n k ck v tot c L F V hs"
proof -
  show eq: "insert_walk now prio chunked n k ck v tot c = Some (Inr ((n, k, ck, v, tot), c))"
    using assms(4,5) by (auto simp: insert_walk.simps [of now] key_leaves_def)
  show "insert_end now prio chunked n k ck v tot c L F V hs"
    unfolding insert_end_def eq using assms
    by (intro exI [of _ n] exI [of _ k] exI [of _ ck] exI [of _ "0::nat"] exI [of _ c] exI [of _ L] exI [of _ F] exI [of _ V]) auto
qed

lemma insert_end_step:
  assumes eq: "insert_walk now prio chunked n k ck v tot c = insert_walk now prio chunked n1 k1 ck1 (drop m v) (tot + m) c1"
    and fin: "insert_end now prio chunked n1 k1 ck1 (drop m v) (tot + m) c1 L1 F1 V1 hs"
    and g: "grown c L F V c1 L1 F1 V1" and path: "F1 n1 @ lunits k1 = F n @ lunits k" and len: "key_len k1 + m = key_len k"
  shows "insert_end now prio chunked n k ck v tot c L F V hs"
proof -
  from fin obtain n' k' ck' m' c' L' F' V' where r:
    "insert_walk now prio chunked n1 k1 ck1 (drop m v) (tot + m) c1 = Some (Inr ((n', k', ck', drop m' (drop m v), tot + m + m'), c'))"
    "radix_inv c' L' F' V' hs" "grown c1 L1 F1 V1 c' L' F' V'" "n' \<in> L'" "F' n' @ lunits k' = F1 n1 @ lunits k1"
    "page_size c1 dvd key_len k'" "key_len k' + m' = key_len k1" "key_leaves c' n' k'"
    "0 < key_len k' \<longrightarrow> ck' = page_key (page_size c1) k'"
    unfolding insert_end_def by (elim exE conjE) (rule that; assumption)
  show ?thesis
    unfolding insert_end_def eq
    using r path len grown_trans [OF g r(3)] grown_page [OF g]
    by (intro exI [of _ n'] exI [of _ k'] exI [of _ ck'] exI [of _ "m + m'"] exI [of _ c'] exI [of _ L'] exI [of _ F'] exI [of _ V'])
      (simp add: add.commute add.left_commute)
qed

lemma insert_walk_ok:
  assumes "radix_inv c L F V hs" "n \<in> L" "page_size c dvd key_len k" "0 < key_len k \<Longrightarrow> ck = page_key (page_size c) k"
  shows "insert_end now prio chunked n k ck v tot c L F V hs"
  using assms
proof (induction "key_len k" arbitrary: n k ck v tot c rule: less_induct)
  case less
  note inv = less.prems(1) and n = less.prems(2) and page = less.prems(3) and ck = less.prems(4)
  show ?case
  proof (cases "key_leaves c n k")
    case True
    with less.prems show ?thesis by (rule insert_walk_stop(2))
  next
    case down: False
    then obtain x where pos: "0 < key_len k" and x: "map_of (node_children (node c n)) ck = Some x"
      using ck by (auto simp: key_leaves_def)
    let ?c = "update_node x (\<lambda>nd. nd\<lparr>last_access_time := now\<rparr>) c"
    have sh: "same_nodes c ?c" by simp
    have inv': "radix_inv ?c L F V hs" by (rule same_nodes_inv [OF sh inv])
    then have tree': "tree_ok ?c L F V" by (simp add: radix_inv_def)
    have "map_of (node_children (node ?c n)) (page_key (page_size ?c) k) = Some x" using x ck pos by (cases "n = x") auto
    then obtain m where m: "key_match (page_size ?c) (node_key (node ?c x)) k = Inr m" "x \<in> L" "edge_ok ?c F V n x"
        "0 < m" "page_size ?c dvd m" "m \<le> key_len (node_key (node ?c x))" "m \<le> key_len k"
        "take m (lunits (node_key (node ?c x))) = take m (lunits k)"
        "m < key_len (node_key (node ?c x)) \<Longrightarrow> m < key_len k \<Longrightarrow>
           page_key (page_size ?c) (key_from m (node_key (node ?c x))) \<noteq> page_key (page_size ?c) (key_from m k)"
      using step_down [OF tree' n pos] page by (metis update_node_sel(8))
    let ?k = "key_from m k" and ?ck = "if 0 < key_len (key_from m k) then page_key (page_size c) (key_from m k) else ck"
    have page': "page_size c dvd key_len ?k" using m(5) page by (simp add: dvd_diff_nat)
    have len: "key_len ?k + m = key_len k" using m(7) by simp
    have ck': "(if 0 < key_len ?k then child_key (page_size c) ?k else Inr ck) = Inr ?ck"
      using child_key_page [of "page_size c" ?k] tree_okD(1) [OF tree'] page' by simp
    show ?thesis
    proof (cases "m < key_len (node_key (node ?c x))")
      case True
      obtain w where w: "node_value (node ?c x) = Some w" using m(3) by (auto simp: edge_ok_def)
      then have s: "split_point ?c L F V n x m w" using tree' n m True by (simp add: split_point_def)
      let ?s = "split_state now n x m w ?c" and ?new = "node_counter ?c"
      let ?L = "insert ?new L" and ?F = "split_path ?c F n x m" and ?V = "split_slots ?c V n m w"
      let ?t = "inc_hit_count ?new chunked (raise_priority ?new prio ?s)"
      have sh': "same_nodes ?s ?t" by (rule same_nodes_trans [OF same_nodes_raise same_nodes_hit])
      have inv_t: "radix_inv ?t ?L ?F ?V hs" by (rule same_nodes_inv [OF sh' split_inv [OF inv' s]])
      have gr: "grown c L F V ?t ?L ?F ?V"
        by (rule grown_trans [OF grown_shape [OF sh inv] grown_trans [OF grown_split [OF s] grown_shape [OF sh' split_inv [OF inv' s]]]])
      note lk = split_leaves_key [OF inv' s m(1,8) _ m(9) [OF True]]
      have pt: "page_size ?t = page_size c" by (rule grown_page [OF gr])
      have "key_leaves ?t ?new ?k"
      proof -
        have "node_children (node ?t y) = node_children (node ?s y)" for y using sh' by (simp add: same_nodes_def shape_def)
        moreover have "key_leaves ?s ?new ?k" using lk(1) page by simp
        ultimately show ?thesis using pt by (simp add: key_leaves_def)
      qed
      then have fin: "insert_end now prio chunked ?new ?k ?ck (drop m v) (tot + m) ?t ?L ?F ?V hs"
        using inv_t page' pt by (intro insert_walk_stop) simp_all
      have eq: "insert_walk now prio chunked n k ck v tot c = insert_walk now prio chunked ?new ?k ?ck (drop m v) (tot + m) ?t"
        using pos x m(1) True split_result [OF s, of now] ck' pt
        by (simp add: insert_walk.simps [of now prio chunked n k] Let_def cong del: if_weak_cong)
      have path: "?F ?new @ lunits ?k = F n @ lunits k" using lk(2) page by simp
      show ?thesis by (rule insert_end_step [OF eq fin gr path len])
    next
      case False
      then have m_eq: "m = key_len (node_key (node ?c x))" using m(6) by simp
      let ?t = "inc_hit_count x chunked (raise_priority x prio ?c)"
      have sh': "same_nodes ?c ?t" by (rule same_nodes_trans [OF same_nodes_raise same_nodes_hit])
      have gr: "grown c L F V ?t L F V" by (rule grown_shape [OF same_nodes_trans [OF sh sh'] inv])
      have pt: "page_size ?t = page_size c" by (rule grown_page [OF gr])
      have fin: "insert_end now prio chunked x ?k ?ck (drop m v) (tot + m) ?t L F V hs"
        using m(4) pos page' pt by (intro less.hyps same_nodes_inv [OF sh' inv'] m(2)) simp_all
      have eq: "insert_walk now prio chunked n k ck v tot c = insert_walk now prio chunked x ?k ?ck (drop m v) (tot + m) ?t"
        using pos x m(1) False ck' pt
        by (simp add: insert_walk.simps [of now prio chunked n k] Let_def cong del: if_weak_cong)
      have path: "F x @ lunits ?k = F n @ lunits k" by (rule descend_path [OF m(3,8) m_eq])
      show ?thesis by (rule insert_end_step [OF eq fin gr path len])
    qed
  qed
qed

end
