(* ===== verification/RadixLock.thy ===== *)
theory RadixLock
  imports RadixLeaf
begin

text \<open>
  The lock counts of SGLang's radix cache. \<open>inc_lock_ref\<close> and \<open>dec_lock_ref\<close> walk from a node to the root; a
  walk ends, adds or removes one handle, and moves the nodes whose count leaves or reaches zero between the
  evictable and the protected size.
\<close>

declare map_of_eq_Some_iff [simp del]

section \<open>The lock of one node\<close>

definition relock :: "int \<Rightarrow> nat \<Rightarrow> radix_cache \<Rightarrow> radix_cache" where
  "relock l n c = update_leaf_status n (update_node n (\<lambda>nd. nd\<lparr>lock_ref := l\<rparr>)
     (c\<lparr>evictable_size := evictable_size c + (if l = 0 then node_size c n else 0) - (if lock_ref (node c n) = 0 then node_size c n else 0),
        protected_size := protected_size c + (if l = 0 then 0 else node_size c n) - (if lock_ref (node c n) = 0 then 0 else node_size c n)\<rparr>))"

lemma settings_totals [simp]:
  "settings (c\<lparr>evictable_size := a\<rparr>) = settings c" "settings (c\<lparr>protected_size := a\<rparr>) = settings c"
  "settings (c\<lparr>frees := a'\<rparr>) = settings c"
  by (simp_all add: settings_def)

lemma relock_sel [simp]:
  "settings (relock l n c) = settings c" "root_node (relock l n c) = root_node c" "page_size (relock l n c) = page_size c"
  "node_counter (relock l n c) = node_counter c" "frees (relock l n c) = frees c"
  "protected_size (relock l n c) =
     protected_size c + (if l = 0 then 0 else node_size c n) - (if lock_ref (node c n) = 0 then 0 else node_size c n)"
  "evictable_size (relock l n c) =
     evictable_size c + (if l = 0 then node_size c n else 0) - (if lock_ref (node c n) = 0 then node_size c n else 0)"
  by (simp_all add: relock_def)

lemma relock_node: "node (relock l n c) x = (if x = n then (node c n)\<lparr>lock_ref := l\<rparr> else node c x)"
  by (simp add: relock_def)

lemma relock_fields [simp]:
  "node_children (node (relock l n c) x) = node_children (node c x)" "node_parent (node (relock l n c) x) = node_parent (node c x)"
  "node_key (node (relock l n c) x) = node_key (node c x)" "node_value (node (relock l n c) x) = node_value (node c x)"
  "lock_ref (node (relock l n c) x) = (if x = n then l else lock_ref (node c x))" "node_size (relock l n c) x = node_size c x"
  by (simp_all add: relock_node node_size_def)

lemma relock_tree: "tree_ok (relock l n c) L F V \<longleftrightarrow> tree_ok c L F V"
  by (simp add: tree_ok_def edge_ok_def children_ok_def)

lemma relock_sizes:
  assumes ok: "sizes_ok c L" and fin: "finite L" and n: "n \<in> L" "n \<noteq> root_node c"
  shows "sizes_ok (relock l n c) L"
proof -
  have sum: "(\<Sum>x \<in> L - {root_node c}. f' x) = (\<Sum>x \<in> L - {root_node c}. f x) + f' n - f n"
    if "\<And>x. x \<noteq> n \<Longrightarrow> f' x = f x" for f f' :: "nat \<Rightarrow> int"
  proof -
    define A where "A = L - {root_node c} - {n}"
    have A: "finite A" "n \<notin> A" "L - {root_node c} = insert n A" using fin n by (auto simp: A_def)
    have "(\<Sum>x \<in> A. f' x) = (\<Sum>x \<in> A. f x)" using that by (intro sum.cong) (auto simp: A_def)
    then show ?thesis using A by simp
  qed
  let ?c = "relock l n c"
  have "(\<Sum>x \<in> L - {root_node c}. if lock_ref (node ?c x) = 0 then node_size ?c x else 0) =
      (\<Sum>x \<in> L - {root_node c}. if lock_ref (node c x) = 0 then node_size c x else 0)
        + (if l = 0 then node_size c n else 0) - (if lock_ref (node c n) = 0 then node_size c n else 0)"
    by (subst sum [of "\<lambda>x. if lock_ref (node ?c x) = 0 then node_size ?c x else 0" "\<lambda>x. if lock_ref (node c x) = 0 then node_size c x else 0"])
      simp_all
  moreover have "(\<Sum>x \<in> L - {root_node c}. if lock_ref (node ?c x) = 0 then 0 else node_size ?c x) =
      (\<Sum>x \<in> L - {root_node c}. if lock_ref (node c x) = 0 then 0 else node_size c x)
        + (if l = 0 then 0 else node_size c n) - (if lock_ref (node c n) = 0 then 0 else node_size c n)"
    by (subst sum [of "\<lambda>x. if lock_ref (node ?c x) = 0 then 0 else node_size ?c x" "\<lambda>x. if lock_ref (node c x) = 0 then 0 else node_size c x"])
      simp_all
  moreover have "protected_size ?c = protected_size c + (if l = 0 then 0 else node_size c n) - (if lock_ref (node c n) = 0 then 0 else node_size c n)"
    by (simp add: relock_def)
  ultimately show ?thesis using ok unfolding sizes_ok_def by simp
qed

lemma relock_leaves:
  assumes tree: "tree_ok c L F V" and ok: "leaves_ok c L" and n: "n \<in> L" and l: "0 \<le> l"
  shows "leaves_ok (relock l n c) L"
proof -
  let ?b = "update_node n (\<lambda>nd. nd\<lparr>lock_ref := l\<rparr>)
     (c\<lparr>evictable_size := evictable_size c + (if l = 0 then node_size c n else 0) - (if lock_ref (node c n) = 0 then node_size c n else 0),
        protected_size := protected_size c + (if l = 0 then 0 else node_size c n) - (if lock_ref (node c n) = 0 then 0 else node_size c n)\<rparr>)"
  have "tree_ok ?b L F V" using tree relock_tree [of l n c] by (simp add: relock_def status_tree)
  then have "evictable_leaves (relock l n c) =
      (if l \<le> 0 \<and> node_children (node c n) = [] then insert n (evictable_leaves c) else evictable_leaves c - {n})"
    unfolding relock_def using n by (subst update_leaf_status_eq) simp_all
  then have "x \<in> evictable_leaves (relock l n c) \<longleftrightarrow> x \<in> L \<and> lock_ref (node (relock l n c) x) = 0 \<and> node_children (node (relock l n c) x) = []" for x
    using ok n l by (cases "x = n") (auto simp: leaves_ok_def)
  then show ?thesis unfolding leaves_ok_def by blast
qed

section \<open>The walk to the root\<close>

text \<open>What a walk from \<open>n\<close> does: the locks of the nodes on the path of \<open>n\<close> change by \<open>d\<close>, nothing else of the tree does.\<close>

definition lock_moved :: "int \<Rightarrow> nat \<Rightarrow> radix_cache \<Rightarrow> nat set \<Rightarrow> (nat \<Rightarrow> lunit list) \<Rightarrow> (nat \<Rightarrow> int list) \<Rightarrow> radix_cache \<Rightarrow> bool" where
  "lock_moved d n c L F V c' \<longleftrightarrow> tree_ok c' L F V \<and> sizes_ok c' L \<and> leaves_ok c' L \<and>
     settings c' = settings c \<and> root_node c' = root_node c \<and> frees c' = frees c \<and>
     evictable_size c' + protected_size c' = evictable_size c + protected_size c \<and>
     (\<forall>x. node_value (node c' x) = node_value (node c x) \<and>
       lock_ref (node c' x) = lock_ref (node c x) + (if x \<in> L \<and> x \<noteq> root_node c \<and> prefix (F x) (F n) then d else 0))"

lemma path_of_parent:
  assumes ok: "tree_ok c L F V" and e: "edge_ok c F V p n" and n: "n \<in> L" and x: "x \<in> L"
  shows "prefix (F x) (F n) \<longleftrightarrow> x = n \<or> prefix (F x) (F p)"
proof
  assume "prefix (F x) (F n)"
  then have "anc c x n" using anc_iff [OF ok n] x by blast
  then show "x = n \<or> prefix (F x) (F p)"
  proof (cases rule: anc.cases)
    case (anc_step q)
    then have "q = p" using e by (simp add: edge_ok_def)
    have "n \<noteq> root_node c" using e tree_okD(6) [OF ok] by (auto simp: edge_ok_def)
    then have "p \<in> L" using tree_okD(9) [OF ok n] e by (auto simp: edge_ok_def)
    then show ?thesis using anc_prefix [OF anc_step(1) ok] \<open>q = p\<close> by blast
  qed simp
qed (use edge_longer(3) [OF e] in \<open>auto intro: prefix_order.trans\<close>)

lemma lock_moved_step:
  assumes ok: "tree_ok c L F V" "sizes_ok c L" "leaves_ok c L" and n: "n \<in> L" "n \<noteq> root_node c"
    and e: "edge_ok c F V p n" and l: "0 \<le> lock_ref (node c n) + d"
    and rec: "lock_moved d p (relock (lock_ref (node c n) + d) n c) L F V c'"
  shows "lock_moved d n c L F V c'"
proof -
  let ?b = "relock (lock_ref (node c n) + d) n c"
  have "\<not> prefix (F n) (F p)" using edge_longer(1) [OF e] by (auto dest: prefix_length_le)
  then have "lock_ref (node c' x) = lock_ref (node c x) + (if x \<in> L \<and> x \<noteq> root_node c \<and> prefix (F x) (F n) then d else 0)" for x
    using rec n path_of_parent [OF ok(1) e n(1), of x] by (auto simp: lock_moved_def)
  then show ?thesis using rec by (simp add: lock_moved_def)
qed

lemma inc_lock_eq:
  assumes "n \<noteq> root_node c" "node_parent (node c n) = Some p" "0 \<le> lock_ref (node c n)"
  shows "inc_lock_walk n delta c =
    inc_lock_walk p (delta - (if lock_ref (node c n) = 0 then node_size c n else 0)) (relock (lock_ref (node c n) + 1) n c)"
proof (cases "lock_ref (node c n) = 0")
  case True
  then show ?thesis
    using assms by (subst inc_lock_walk.simps) (cases c, simp add: relock_def update_node_def node_size_def Let_def)
next
  case False
  then show ?thesis
    using assms by (subst inc_lock_walk.simps) (cases c, simp add: relock_def update_node_def node_size_def Let_def)
qed

lemma dec_lock_eq:
  assumes "n \<noteq> root_node c" "node_parent (node c n) = Some p" "1 \<le> lock_ref (node c n)"
  shows "dec_lock_walk n delta c =
    dec_lock_walk p (delta + (if lock_ref (node c n) = 1 then node_size c n else 0)) (relock (lock_ref (node c n) - 1) n c)"
proof (cases "lock_ref (node c n) = 1")
  case True
  then show ?thesis
    using assms by (subst dec_lock_walk.simps) (cases c, simp add: relock_def update_node_def node_size_def Let_def)
next
  case False
  then show ?thesis
    using assms by (subst dec_lock_walk.simps) (cases c, simp add: relock_def update_node_def node_size_def Let_def)
qed

lemma inc_lock_walk_ok:
  assumes "tree_ok c L F V" "sizes_ok c L" "leaves_ok c L" "n \<in> L" "\<And>x. x \<in> L \<Longrightarrow> 0 \<le> lock_ref (node c x)"
  shows "\<exists>c'. inc_lock_walk n delta c = Some (Inr (delta + evictable_size c' - evictable_size c, c')) \<and> lock_moved 1 n c L F V c'"
  using assms
proof (induction "length (F n)" arbitrary: n delta c rule: less_induct)
  case less
  note ok = less.prems(1-3) and n = less.prems(4)
  show ?case
  proof (cases "n = root_node c")
    case True
    have "\<not> (x \<in> L \<and> x \<noteq> root_node c \<and> prefix (F x) (F n))" for x
      using True path_inj [OF ok(1) _ n] tree_okD(4) [OF ok(1)] by auto
    then show ?thesis using True ok by (intro exI [of _ c]) (simp add: inc_lock_walk.simps lock_moved_def)
  next
    case False
    then obtain p where p: "p \<in> L" "edge_ok c F V p n" using tree_okD(9) [OF ok(1) n] by blast
    let ?b = "relock (lock_ref (node c n) + 1) n c"
    let ?d = "delta - (if lock_ref (node c n) = 0 then node_size c n else 0)"
    have l: "0 \<le> lock_ref (node c n)" by (rule less.prems(5) [OF n])
    have "\<exists>c'. inc_lock_walk p ?d ?b = Some (Inr (?d + evictable_size c' - evictable_size ?b, c')) \<and> lock_moved 1 p ?b L F V c'"
    proof (rule less.hyps)
      show "length (F p) < length (F n)" by (rule edge_longer(1) [OF p(2)])
      show "tree_ok ?b L F V" using ok(1) by (simp add: relock_tree)
      show "sizes_ok ?b L" by (rule relock_sizes [OF ok(2) tree_okD(2) [OF ok(1)] n False])
      show "leaves_ok ?b L" using l by (intro relock_leaves [OF ok(1,3) n]) simp
      show "0 \<le> lock_ref (node ?b x)" if "x \<in> L" for x using less.prems(5) [OF that] l by simp
    qed (rule p(1))
    then obtain c' where c': "inc_lock_walk p ?d ?b = Some (Inr (?d + evictable_size c' - evictable_size ?b, c'))" "lock_moved 1 p ?b L F V c'"
      by blast
    have "inc_lock_walk n delta c = inc_lock_walk p ?d ?b"
      using p(2) False l by (intro inc_lock_eq) (simp_all add: edge_ok_def)
    then have "inc_lock_walk n delta c = Some (Inr (delta + evictable_size c' - evictable_size c, c'))"
      using c'(1) l by auto
    moreover have "lock_moved 1 n c L F V c'" using l by (intro lock_moved_step [OF ok n False p(2) _ c'(2)]) simp
    ultimately show ?thesis by blast
  qed
qed

lemma dec_lock_walk_ok:
  assumes "tree_ok c L F V" "sizes_ok c L" "leaves_ok c L" "n \<in> L"
    and "\<And>x. x \<in> L \<Longrightarrow> x \<noteq> root_node c \<Longrightarrow> prefix (F x) (F n) \<Longrightarrow> 1 \<le> lock_ref (node c x)"
  shows "\<exists>c'. dec_lock_walk n delta c = Some (Inr (delta + evictable_size c' - evictable_size c, c')) \<and> lock_moved (- 1) n c L F V c'"
  using assms
proof (induction "length (F n)" arbitrary: n delta c rule: less_induct)
  case less
  note ok = less.prems(1-3) and n = less.prems(4)
  show ?case
  proof (cases "n = root_node c")
    case True
    have "\<not> (x \<in> L \<and> x \<noteq> root_node c \<and> prefix (F x) (F n))" for x
      using True path_inj [OF ok(1) _ n] tree_okD(4) [OF ok(1)] by auto
    then show ?thesis using True ok by (intro exI [of _ c]) (simp add: dec_lock_walk.simps lock_moved_def)
  next
    case False
    then obtain p where p: "p \<in> L" "edge_ok c F V p n" using tree_okD(9) [OF ok(1) n] by blast
    let ?b = "relock (lock_ref (node c n) - 1) n c"
    let ?d = "delta + (if lock_ref (node c n) = 1 then node_size c n else 0)"
    have l: "1 \<le> lock_ref (node c n)" using less.prems(5) [OF n False] by simp
    have np: "\<not> prefix (F n) (F p)" using edge_longer(1) [OF p(2)] by (auto dest: prefix_length_le)
    have "\<exists>c'. dec_lock_walk p ?d ?b = Some (Inr (?d + evictable_size c' - evictable_size ?b, c')) \<and> lock_moved (- 1) p ?b L F V c'"
    proof (rule less.hyps)
      show "length (F p) < length (F n)" by (rule edge_longer(1) [OF p(2)])
      show "tree_ok ?b L F V" using ok(1) by (simp add: relock_tree)
      show "sizes_ok ?b L" by (rule relock_sizes [OF ok(2) tree_okD(2) [OF ok(1)] n False])
      show "leaves_ok ?b L" using l by (intro relock_leaves [OF ok(1,3) n]) simp
      show "1 \<le> lock_ref (node ?b x)" if "x \<in> L" "x \<noteq> root_node ?b" "prefix (F x) (F p)" for x
        using less.prems(5) [of x] that np path_of_parent [OF ok(1) p(2) n that(1)] by auto
    qed (rule p(1))
    then obtain c' where c': "dec_lock_walk p ?d ?b = Some (Inr (?d + evictable_size c' - evictable_size ?b, c'))" "lock_moved (- 1) p ?b L F V c'"
      by blast
    have "dec_lock_walk n delta c = dec_lock_walk p ?d ?b"
      using p(2) False l by (intro dec_lock_eq) (simp_all add: edge_ok_def)
    then have "dec_lock_walk n delta c = Some (Inr (delta + evictable_size c' - evictable_size c, c'))"
      using c'(1) l by auto
    moreover have "lock_moved (- 1) n c L F V c'" using l c'(2) by (intro lock_moved_step [OF ok n False p(2)]) simp_all
    ultimately show ?thesis by blast
  qed
qed

section \<open>Handles\<close>

lemma lock_moved_slots:
  assumes "tree_ok c L F V" "lock_moved d n c L F V c'"
  shows "tree_slots c' = tree_slots c"
  using tree_slots_eq [OF assms(1)] tree_slots_eq [of c' L F V] assms(2) by (simp add: lock_moved_def node_slots_def)

lemma locks_nonneg: "locks_ok c L F hs \<Longrightarrow> x \<in> L \<Longrightarrow> 0 \<le> lock_ref (node c x)"
  by (cases "x = root_node c") (auto simp: locks_ok_def)

lemma inc_lock_ok:
  assumes inv: "radix_inv c L F V hs" and n: "n \<in> L" and on: "\<not> disable c"
  shows "\<exists>c'. inc_lock_ref n c = Some (Inr (evictable_size c' - evictable_size c, c')) \<and> radix_inv c' L F V (add_mset n hs) \<and>
    settings c' = settings c \<and> root_node c' = root_node c \<and> frees c' = frees c \<and>
    evictable_size c' + protected_size c' = evictable_size c + protected_size c \<and> tree_slots c' = tree_slots c \<and>
    (\<forall>x. node_value (node c' x) = node_value (node c x))"
proof -
  have ok: "tree_ok c L F V" "locks_ok c L F hs" "sizes_ok c L" "leaves_ok c L" using inv by (simp_all add: radix_inv_def)
  obtain c' where c': "inc_lock_walk n 0 c = Some (Inr (evictable_size c' - evictable_size c, c'))" "lock_moved 1 n c L F V c'"
    using inc_lock_walk_ok [OF ok(1,3,4) n locks_nonneg [OF ok(2)], of 0] by auto
  have "locks_ok c' L F (add_mset n hs)"
    using ok(2) c'(2) n tree_okD(3) [OF ok(1)] by (auto simp: locks_ok_def lock_moved_def)
  then show ?thesis using c' on lock_moved_slots [OF ok(1) c'(2)] by (auto simp: inc_lock_ref_def radix_inv_def lock_moved_def)
qed

lemma dec_lock_ok:
  assumes inv: "radix_inv c L F V (add_mset n hs)" and on: "\<not> disable c"
  shows "\<exists>c'. dec_lock_ref n c = Some (Inr (evictable_size c' - evictable_size c, c')) \<and> radix_inv c' L F V hs \<and>
    settings c' = settings c \<and> root_node c' = root_node c \<and> frees c' = frees c \<and>
    evictable_size c' + protected_size c' = evictable_size c + protected_size c \<and> tree_slots c' = tree_slots c \<and>
    (\<forall>x. node_value (node c' x) = node_value (node c x))"
proof -
  have ok: "tree_ok c L F V" "locks_ok c L F (add_mset n hs)" "sizes_ok c L" "leaves_ok c L" using inv by (simp_all add: radix_inv_def)
  then have n: "n \<in> L" by (simp add: locks_ok_def)
  have "1 \<le> lock_ref (node c x)" if "x \<in> L" "x \<noteq> root_node c" "prefix (F x) (F n)" for x
    using ok(2) that by (simp add: locks_ok_def)
  then obtain c' where c': "dec_lock_walk n 0 c = Some (Inr (evictable_size c' - evictable_size c, c'))" "lock_moved (- 1) n c L F V c'"
    using dec_lock_walk_ok [OF ok(1,3,4) n, of 0] by auto
  have "locks_ok c' L F hs"
    using ok(2) c'(2) n tree_okD(3) [OF ok(1)] by (auto simp: locks_ok_def lock_moved_def)
  then show ?thesis using c' on lock_moved_slots [OF ok(1) c'(2)] by (auto simp: dec_lock_ref_def radix_inv_def lock_moved_def)
qed

text \<open>The evictable size depends on which nodes have a handle below them, not on how many.\<close>

lemma same_evictable:
  assumes c: "radix_inv c L F V hs" and c': "radix_inv c' L F V hs'" and same: "set_mset hs = set_mset hs'" "root_node c' = root_node c"
    "\<And>x. node_value (node c' x) = node_value (node c x)"
  shows "evictable_size c' = evictable_size c"
proof -
  have t: "tree_ok c L F V" "tree_ok c' L F V" using c c' by (simp_all add: radix_inv_def)
  have size: "node_size c' x = node_size c x" if "x \<in> L - {root_node c}" for x
    using that same(2,3) tree_okD(9) [OF t(1), of x] tree_okD(9) [OF t(2), of x] by (auto simp: edge_ok_def node_size_def)
  have none: "filter_mset P M = {#} \<longleftrightarrow> (\<forall>h\<in>#M. \<not> P h)" for P and M :: "nat multiset" by (induction M) auto
  have lock: "lock_ref (node c' x) = 0 \<longleftrightarrow> lock_ref (node c x) = 0" if "x \<in> L - {root_node c}" for x
    using that c c' same(1,2) by (auto simp: radix_inv_def locks_ok_def none)
  have "(\<Sum>n \<in> L - {root_node c'}. if lock_ref (node c' n) = 0 then node_size c' n else 0) =
      (\<Sum>n \<in> L - {root_node c}. if lock_ref (node c n) = 0 then node_size c n else 0)"
    unfolding same(2) using size lock by (intro sum.cong) auto
  then show ?thesis using c c' by (simp add: radix_inv_def sizes_ok_def)
qed

end
