(* ===== verification/RadixHeld.thy ===== *)
theory RadixHeld
  imports RadixLock
begin

text \<open>
  The protected size of the radix cache, as a function of the paths that are held: with pages of one unit it is the number
  of their non-empty prefixes. What an operation does to the protected size then follows from what it does to the
  handles alone, however it changes the tree.
\<close>

declare map_of_eq_Some_iff [simp del]

definition held_units :: "(nat \<Rightarrow> lunit list) \<Rightarrow> nat multiset \<Rightarrow> lunit list set" where
  "held_units F hs = {p. p \<noteq> [] \<and> (\<exists>h\<in>#hs. prefix p (F h))}"

definition own_units :: "radix_cache \<Rightarrow> (nat \<Rightarrow> lunit list) \<Rightarrow> nat \<Rightarrow> lunit list set" where
  "own_units c F x = {p. prefix p (F x) \<and> length (F (the (node_parent (node c x)))) < length p}"

lemma card_long_prefixes: "k \<le> length xs \<Longrightarrow> card {p. prefix p xs \<and> k < length p} = length xs - k \<and> finite {p. prefix p xs \<and> k < length p}"
proof -
  have e: "{p. prefix p xs \<and> k < length p} = (\<lambda>m. take m xs) ` {k<..length xs}"
  proof (intro equalityI subsetI)
    fix p assume p: "p \<in> {p. prefix p xs \<and> k < length p}"
    then have "p = take (length p) xs" "length p \<le> length xs" by (auto simp: prefix_def)
    then show "p \<in> (\<lambda>m. take m xs) ` {k<..length xs}" using p by (intro image_eqI [of _ _ "length p"]) auto
  qed (auto simp: take_is_prefix)
  have "inj_on (\<lambda>m. take m xs) {k<..length xs}" by (rule inj_on_inverseI [of _ length]) (simp add: min_def)
  then show ?thesis unfolding e by (simp add: card_image)
qed

lemma own_units_card:
  assumes "tree_ok c L F V" "x \<in> L" "x \<noteq> root_node c"
  shows "int (card (own_units c F x)) = node_size c x" "finite (own_units c F x)"
proof -
  obtain q where q: "edge_ok c F V q x" using tree_okD(9) [OF assms] by blast
  then have "the (node_parent (node c x)) = q" by (simp add: edge_ok_def)
  then show "int (card (own_units c F x)) = node_size c x" "finite (own_units c F x)"
    using card_long_prefixes [of "length (F q)" "F x"] edge_longer(1,2) [OF q] by (simp_all add: own_units_def node_size_def)
qed

text \<open>Every unit of a path belongs to one node.\<close>

lemma own_units_cover:
  assumes ok: "tree_ok c L F V" and "h \<in> L" "prefix p (F h)" "p \<noteq> []"
  shows "\<exists>x\<in>L - {root_node c}. prefix (F x) (F h) \<and> p \<in> own_units c F x"
  using assms(2,3)
proof (induction "length (F h)" arbitrary: h rule: less_induct)
  case less
  have root: "h \<noteq> root_node c" using less.prems(2) assms(4) tree_okD(4) [OF ok] by auto
  then obtain q where q: "q \<in> L" "edge_ok c F V q h" using tree_okD(9) [OF ok less.prems(1)] by blast
  show ?case
  proof (cases "length (F q) < length p")
    case True
    then have "p \<in> own_units c F h" using q(2) less.prems(2) by (simp add: own_units_def edge_ok_def)
    then show ?thesis using root less.prems(1) by auto
  next
    case False
    then have "prefix p (F q)" using less.prems(2) edge_longer(3) [OF q(2)] by (metis prefix_length_prefix not_less)
    then show ?thesis using less.hyps [OF edge_longer(1) [OF q(2)] q(1)] edge_longer(3) [OF q(2)] by (meson prefix_order.trans)
  qed
qed

lemma own_units_below:
  assumes ok: "tree_ok c L F V" and page: "page_size c = 1" and x: "edge_ok c F V q x" "q \<in> L" and y: "edge_ok c F V q' y" "q' \<in> L"
    and p: "prefix p (F x)" "prefix p (F y)" "length (F q) < length p" "length (F q') < length p" and le: "length (F q) \<le> length (F q')"
  shows "x = y"
proof -
  have pre: "prefix (F q) p" "prefix (F q') p" using p edge_longer(3) [OF x(1)] edge_longer(3) [OF y(1)] by (meson prefix_length_prefix less_imp_le)+
  then have qq: "prefix (F q) (F q')" using le by (rule prefix_length_prefix)
  have first: "first_page 1 (drop (length (F q)) (F x)) = first_page 1 (drop (length (F q)) p)"
    if "prefix p (F x)" for x using that p(3) by (auto simp: prefix_def first_page_prefix intro!: first_page_prefix)
  have cx: "page_key 1 (node_key (node c x)) = first_page 1 (drop (length (F q)) p)"
    using child_first_page [OF _ x(1) prefix_order.refl] page first [OF p(1)] by simp
  have "q = q'"
  proof (rule ccontr)
    assume "q \<noteq> q'"
    with tree_descend [OF ok x(2) y(2) qq] obtain z where z: "edge_ok c F V q z" "prefix (F z) (F q')" by blast
    have "page_key 1 (node_key (node c z)) = first_page 1 (drop (length (F q)) (F y))"
      using child_first_page [OF _ z(1), of "F y"] page z(2) edge_longer(3) [OF y(1)] by (auto intro: prefix_order.trans)
    then have "z = x" using z(1) x(1) cx first [OF p(2)] page by (simp add: edge_ok_def)
    then show False using z(2) p(1,4) by (auto dest!: prefix_length_le)
  qed
  have "page_key 1 (node_key (node c y)) = first_page 1 (drop (length (F q)) p)"
    using child_first_page [OF _ y(1) prefix_order.refl] \<open>q = q'\<close> page first [OF p(2)] by simp
  then have "map_of (node_children (node c q)) (page_key 1 (node_key (node c x))) = Some x"
    "map_of (node_children (node c q)) (page_key 1 (node_key (node c x))) = Some y"
    using x(1) y(1) \<open>q = q'\<close> page cx by (simp_all add: edge_ok_def)
  then show ?thesis by simp
qed

lemma own_units_disjoint:
  assumes ok: "tree_ok c L F V" and page: "page_size c = 1" and L: "x \<in> L - {root_node c}" "y \<in> L - {root_node c}" "x \<noteq> y"
  shows "own_units c F x \<inter> own_units c F y = {}"
proof (rule ccontr)
  assume "own_units c F x \<inter> own_units c F y \<noteq> {}"
  then obtain p where p: "p \<in> own_units c F x" "p \<in> own_units c F y" by blast
  obtain q where q: "q \<in> L" "edge_ok c F V q x" using tree_okD(9) [OF ok, of x] L(1) by blast
  obtain q' where q': "q' \<in> L" "edge_ok c F V q' y" using tree_okD(9) [OF ok, of y] L(2) by blast
  have "prefix p (F x)" "prefix p (F y)" "length (F q) < length p" "length (F q') < length p"
    using p q(2) q'(2) by (simp_all add: own_units_def edge_ok_def)
  then show False
    using own_units_below [OF ok page q(2,1) q'(2,1)] own_units_below [OF ok page q'(2,1) q(2,1)] L(3) by (cases "length (F q) \<le> length (F q')") auto
qed

theorem protected_card:
  assumes inv: "radix_inv c L F V hs" and page: "page_size c = 1"
  shows "protected_size c = int (card (held_units F hs))"
proof -
  have ok: "tree_ok c L F V" and lo: "locks_ok c L F hs" and sz: "sizes_ok c L" using inv by (simp_all add: radix_inv_def)
  let ?K = "{x \<in> L - {root_node c}. lock_ref (node c x) \<noteq> 0}"
  have none: "size (filter_mset P M) = 0 \<longleftrightarrow> (\<forall>h\<in>#M. \<not> P h)" for P and M :: "nat multiset" by (induction M) auto
  have locked: "lock_ref (node c x) \<noteq> 0 \<longleftrightarrow> (\<exists>h\<in>#hs. prefix (F x) (F h))" if "x \<in> L - {root_node c}" for x
    using that lo none [of "\<lambda>h. prefix (F x) (F h)" hs] by (auto simp: locks_ok_def simp del: size_eq_0_iff_empty)
  have fin: "finite L" using tree_okD(2) [OF ok] .
  have "held_units F hs = (\<Union>x\<in>?K. own_units c F x)"
  proof (intro equalityI subsetI)
    fix p assume "p \<in> held_units F hs"
    then obtain h where h: "h \<in># hs" "prefix p (F h)" "p \<noteq> []" by (auto simp: held_units_def)
    then have "h \<in> L" using lo by (auto simp: locks_ok_def)
    then show "p \<in> (\<Union>x\<in>?K. own_units c F x)" using own_units_cover [OF ok _ h(2,3)] locked h(1) by blast
  next
    fix p assume "p \<in> (\<Union>x\<in>?K. own_units c F x)"
    then obtain x h where "prefix p (F x)" "p \<noteq> []" "h \<in># hs" "prefix (F x) (F h)"
      using locked by (force simp: own_units_def)
    then show "p \<in> held_units F hs" by (auto simp: held_units_def intro: prefix_order.trans)
  qed
  moreover have "card (\<Union>x\<in>?K. own_units c F x) = (\<Sum>x\<in>?K. card (own_units c F x))"
    using fin own_units_card(2) [OF ok] own_units_disjoint [OF ok page] by (intro card_UN_disjoint) auto
  moreover have "int (\<Sum>x\<in>?K. card (own_units c F x)) = (\<Sum>x\<in>?K. node_size c x)"
    using own_units_card(1) [OF ok] by (simp add: int_sum)
  moreover have "protected_size c = (\<Sum>x\<in>?K. node_size c x)"
    using sz fin by (simp add: sizes_ok_def sum.If_cases Int_def if_not_P sum.inter_filter flip: sum.inter_filter)
  ultimately show ?thesis by simp
qed

section \<open>How the held units change\<close>

lemma held_units_mono: "hs \<subseteq># hs' \<Longrightarrow> held_units F hs \<subseteq> held_units F hs'"
  by (auto simp: held_units_def dest: mset_subset_eqD)

lemma held_units_cong: "(\<And>h. h \<in># hs \<Longrightarrow> F' h = F h) \<Longrightarrow> held_units F' hs = held_units F hs"
  by (auto simp: held_units_def)

lemma finite_held_units: "finite (held_units F hs)"
proof -
  have "held_units F hs = (\<Union>h\<in>set_mset hs. {p. prefix p (F h) \<and> 0 < length p})" by (auto simp: held_units_def)
  moreover have "finite {p. prefix p (F h) \<and> 0 < length p}" for h using card_long_prefixes [of 0 "F h"] by blast
  ultimately show ?thesis by simp
qed

text \<open>A handle that moves down its path by \<open>k\<close> units holds at most \<open>k\<close> units more.\<close>

lemma held_units_extend:
  assumes "prefix (F n) (F n')"
  shows "card (held_units F (add_mset n' hs)) \<le> card (held_units F (add_mset n hs)) + (length (F n') - length (F n))"
proof -
  let ?new = "{p. prefix p (F n') \<and> length (F n) < length p}"
  have "held_units F (add_mset n' hs) \<subseteq> held_units F (add_mset n hs) \<union> ?new"
    using assms by (auto simp: held_units_def dest: prefix_length_prefix)
  then have "card (held_units F (add_mset n' hs)) \<le> card (held_units F (add_mset n hs) \<union> ?new)"
    using card_long_prefixes [OF prefix_length_le [OF assms]] by (intro card_mono) (simp_all add: finite_held_units)
  also have "\<dots> \<le> card (held_units F (add_mset n hs)) + card ?new" by (rule card_Un_le)
  finally show ?thesis using card_long_prefixes [OF prefix_length_le [OF assms]] by simp
qed

end
