(* ===== verification/RadixEvict.thy ===== *)
theory RadixEvict
  imports RadixLock
begin

text \<open>
  Eviction from SGLang's radix cache. The loop over the heap ends and implements a specification without a heap:
  while tokens are wanted, an unlocked leaf of least rank is deleted and its slots are freed. It stops with
  enough tokens freed or with no unlocked node left, and it never touches the path of a held handle.
\<close>

declare map_of_eq_Some_iff [simp del]

section \<open>Specification\<close>

definition evict_rank :: "radix_cache \<Rightarrow> nat \<Rightarrow> (int \<times> real) \<times> real" where
  "evict_rank c n = heap_key c (heap_entry c n)"

inductive evicts :: "nat \<Rightarrow> nat \<Rightarrow> radix_cache \<Rightarrow> nat list \<Rightarrow> nat \<Rightarrow> radix_cache \<Rightarrow> bool" where
  evicts_stop: "num_tokens \<le> k \<or> evictable_leaves c = {} \<Longrightarrow> evicts num_tokens k c [] k c"
| evicts_more: "k < num_tokens \<Longrightarrow> x \<in> evictable_leaves c \<Longrightarrow> (\<And>y. y \<in> evictable_leaves c \<Longrightarrow> evict_rank c x \<le> evict_rank c y) \<Longrightarrow>
    node_value (node c x) = Some v \<Longrightarrow> delete_leaf x (c\<lparr>frees := frees c @ [v]\<rparr>) = Inr c1 \<Longrightarrow>
    evicts num_tokens (k + length v) c1 xs k' c' \<Longrightarrow> evicts num_tokens k c (x # xs) k' c'"

section \<open>One eviction\<close>

lemma radix_inv_frees [simp]: "radix_inv (c\<lparr>frees := fs\<rparr>) L F V hs \<longleftrightarrow> radix_inv c L F V hs"
proof -
  have eqs: "tree_nodes (c\<lparr>frees := fs\<rparr>) = tree_nodes c" "page_size (c\<lparr>frees := fs\<rparr>) = page_size c" "root_node (c\<lparr>frees := fs\<rparr>) = root_node c"
    "node_counter (c\<lparr>frees := fs\<rparr>) = node_counter c" "evictable_size (c\<lparr>frees := fs\<rparr>) = evictable_size c"
    "protected_size (c\<lparr>frees := fs\<rparr>) = protected_size c" "evictable_leaves (c\<lparr>frees := fs\<rparr>) = evictable_leaves c"
    by simp_all
  show ?thesis
    unfolding radix_inv_def tree_ok_def locks_ok_def sizes_ok_def leaves_ok_def edge_ok_def children_ok_def node_size_def
    by (simp only: eqs)
qed

text \<open>The state after the eviction of \<open>x\<close>.\<close>

definition evicted_state :: "nat \<Rightarrow> nat \<Rightarrow> int list \<Rightarrow> radix_cache \<Rightarrow> radix_cache" where
  "evicted_state p x v c = update_leaf_status p (cut_state p x (c\<lparr>frees := frees c @ [v]\<rparr>))"

lemma evict_one:
  assumes inv: "radix_inv c L F V hs" and x: "x \<in> evictable_leaves c"
  obtains p v where "node_value (node c x) = Some v" "length v = key_len (node_key (node c x))" "x \<in> L" "p \<in> L" "p \<noteq> x" "x \<noteq> root_node c"
    "delete_leaf x (c\<lparr>frees := frees c @ [v]\<rparr>) = Inr (evicted_state p x v c)"
    "node_parent (node (evicted_state p x v c) x) = Some p"
    "radix_inv (evicted_state p x v c) (L - {x}) F V hs"
    "evictable_leaves (evicted_state p x v c) = evictable_leaves c - {x} \<union>
       (if node_children (node (evicted_state p x v c) p) = [] \<and> lock_ref (node (evicted_state p x v c) p) = 0 then {p} else {})"
    "p \<notin> evictable_leaves c"
    "evictable_size (evicted_state p x v c) = evictable_size c - int (length v)"
    "tree_slots c = tree_slots (evicted_state p x v c) + mset v"
proof -
  have tree: "tree_ok c L F V" and locks: "locks_ok c L F hs" and leaves: "leaves_ok c L" using inv by (simp_all add: radix_inv_def)
  have xL: "x \<in> L" and x0: "lock_ref (node c x) = 0" "node_children (node c x) = []" using leaves x by (auto simp: leaves_ok_def)
  have nr: "x \<noteq> root_node c" using x0(1) locks by (auto simp: locks_ok_def)
  obtain p where p: "p \<in> L" "edge_ok c F V p x" using tree_okD(9) [OF tree xL nr] by blast
  obtain v where v: "node_value (node c x) = Some v" "length v = key_len (node_key (node c x))" using p(2) by (auto simp: edge_ok_def)
  let ?f = "c\<lparr>frees := frees c @ [v]\<rparr>"
  let ?e = "evicted_state p x v c"
  have inv_f: "radix_inv ?f L F V hs" using inv by simp
  then have s: "cut_point ?f L F V p x" using xL p x0 by (simp add: cut_point_def radix_inv_def edge_ok_def)
  note d = cut_pointD [OF s]
  have inv_e: "radix_inv ?e (L - {x}) F V hs" unfolding evicted_state_def by (rule cut_inv [OF inv_f s])
  then have leaves_e: "leaves_ok ?e (L - {x})" by (simp add: radix_inv_def)
  have pE: "p \<notin> evictable_leaves c" using leaves d(10) by (auto simp: leaves_ok_def)
  have same: "node ?e y = node c y" if "y \<noteq> p" for y using that by (simp add: evicted_state_def cut_nodes)
  have "evictable_leaves ?e = evictable_leaves c - {x} \<union> (if node_children (node ?e p) = [] \<and> lock_ref (node ?e p) = 0 then {p} else {})"
  proof (rule set_eqI)
    fix y
    show "y \<in> evictable_leaves ?e \<longleftrightarrow>
        y \<in> evictable_leaves c - {x} \<union> (if node_children (node ?e p) = [] \<and> lock_ref (node ?e p) = 0 then {p} else {})"
    proof (cases "y = p")
      case True
      then show ?thesis using leaves_e pE p(1) d(8) by (auto simp: leaves_ok_def)
    next
      case False
      then show ?thesis using leaves_e leaves same [OF False] by (auto simp: leaves_ok_def)
    qed
  qed
  moreover have "evictable_size ?e = evictable_size c - int (length v)" using v(2) by (simp add: evicted_state_def node_size_def)
  moreover have "tree_slots c = tree_slots ?e + mset v"
  proof -
    have "tree_slots ?f = tree_slots c"
      using tree_slots_eq [OF d(1)] tree_slots_eq [OF tree] by (simp add: node_slots_def)
    then show ?thesis using cut_slots_sum [OF s] v(1) by (simp add: evicted_state_def)
  qed
  moreover have "delete_leaf x ?f = Inr ?e" unfolding evicted_state_def by (rule cut_result [OF s])
  moreover have "node_parent (node ?e x) = Some p" using d(7) by (simp add: evicted_state_def)
  ultimately show thesis using inv_e pE by (intro that [OF v xL p(1) d(8) nr])
qed

lemma evicted_keys [simp]:
  "last_access_time (node (evicted_state p x v c) y) = last_access_time (node c y)"
  "get_priority s (node (evicted_state p x v c) y) = get_priority s (node c y)"
  "settings (evicted_state p x v c) = settings c" "root_node (evicted_state p x v c) = root_node c"
  "protected_size (evicted_state p x v c) = protected_size c" "frees (evicted_state p x v c) = frees c @ [v]"
proof -
  show "last_access_time (node (evicted_state p x v c) y) = last_access_time (node c y)"
    "get_priority s (node (evicted_state p x v c) y) = get_priority s (node c y)"
    by (simp_all add: evicted_state_def)
qed (simp_all add: evicted_state_def)

lemma evicted_rank [simp]:
  "heap_key (evicted_state p x v c) = heap_key c" "heap_entry (evicted_state p x v c) = heap_entry c"
proof -
  have "strategy (evicted_state p x v c) = strategy c" by (rule settings_sel(4)) simp
  then show "heap_key (evicted_state p x v c) = heap_key c" "heap_entry (evicted_state p x v c) = heap_entry c"
    by (simp_all add: heap_key_def heap_entry_def fun_eq_iff)
qed

section \<open>The loop\<close>

text \<open>The heap lists the evictable leaves, each with its current priority.\<close>

definition heap_ok :: "radix_cache \<Rightarrow> ((int \<times> real) \<times> nat) list \<Rightarrow> bool" where
  "heap_ok c h \<longleftrightarrow> heap (heap_key c) h \<and> distinct (map snd h) \<and> set (map snd h) = evictable_leaves c \<and> (\<forall>e\<in>set h. e = heap_entry c (snd e))"

definition evict_end :: "nat \<Rightarrow> nat \<Rightarrow> ((int \<times> real) \<times> nat) list \<Rightarrow> radix_cache \<Rightarrow> nat set \<Rightarrow>
    (nat \<Rightarrow> lunit list) \<Rightarrow> (nat \<Rightarrow> int list) \<Rightarrow> nat multiset \<Rightarrow> bool" where
  "evict_end num_tokens k h c L F V hs \<longleftrightarrow>
     (\<exists>xs k' c' L' fs. evict_walk num_tokens k h c = Some (Inr (k', c')) \<and> evicts num_tokens k c xs k' c' \<and>
        radix_inv c' L' F V hs \<and> L' \<subseteq> L \<and> settings c' = settings c \<and> root_node c' = root_node c \<and>
        protected_size c' = protected_size c \<and> evictable_size c' = evictable_size c - (int k' - int k) \<and> k \<le> k' \<and>
        frees c' = frees c @ fs \<and> length (concat fs) = k' - k \<and> tree_slots c = tree_slots c' + mset (concat fs) \<and>
        (num_tokens \<le> k' \<or> evictable_leaves c' = {}))"

lemma mset_members: "mset xs = mset ys \<Longrightarrow> set xs = set ys \<and> distinct xs = distinct ys"
  by (metis mset_eq_setD mset_eq_imp_distinct_iff)

lemma heap_ok_pop:
  assumes ok: "heap_ok c h" and ne: "h \<noteq> []"
  obtains x h' where "heappop (heap_key c) h = Inr (heap_entry c x, h')" "x \<in> evictable_leaves c"
    "\<And>y. y \<in> evictable_leaves c \<Longrightarrow> evict_rank c x \<le> evict_rank c y"
    "heap (heap_key c) h'" "distinct (map snd h')" "set (map snd h') = evictable_leaves c - {x}" "\<forall>e\<in>set h'. e = heap_entry c (snd e)"
proof -
  obtain h' where h': "heappop (heap_key c) h = Inr (h ! 0, h')" "heap (heap_key c) h'" "mset h = add_mset (h ! 0) (mset h')"
    using heappop_heap [of "heap_key c" h] ok ne unfolding heap_ok_def by metis
  let ?x = "snd (h ! 0)"
  have mem: "h ! 0 \<in> set h" using ne by simp
  then have e: "h ! 0 = heap_entry c ?x" using ok by (auto simp: heap_ok_def)
  have "image_mset snd (mset h) = add_mset ?x (image_mset snd (mset h'))" using h'(3) by simp
  then have "mset (map snd h) = mset (?x # map snd h')" by simp
  note mem' = mset_members [OF this]
  then have set: "set (map snd h) = insert ?x (set (map snd h'))" and "distinct (?x # map snd h')"
    using ok unfolding heap_ok_def by (simp_all only: list.simps)
  then have dist: "distinct (map snd h')" "?x \<notin> set (map snd h')" by simp_all
  have sub: "set h' \<subseteq> set h" using h'(3) by (metis set_mset_mset subset_insertI set_mset_add_mset_insert)
  have least: "evict_rank c ?x \<le> evict_rank c y" if "y \<in> evictable_leaves c" for y
  proof -
    have "y \<in> snd ` set h" using that ok by (simp add: heap_ok_def)
    then obtain i where i: "i < length h" "snd (h ! i) = y" by (auto simp: in_set_conv_nth)
    moreover have "\<forall>e\<in>set h. e = heap_entry c (snd e)" using ok by (simp add: heap_ok_def)
    ultimately have "h ! i = heap_entry c y" by (metis nth_mem)
    moreover have "heap_key c (h ! 0) \<le> heap_key c (h ! i)" using ok i(1) by (intro heap_root) (simp_all add: heap_ok_def)
    ultimately show ?thesis using e by (simp add: evict_rank_def)
  qed
  show thesis
  proof (rule that [OF _ _ least h'(2) dist(1)])
    show "heappop (heap_key c) h = Inr (heap_entry c ?x, h')" using h'(1) e by simp
    show "?x \<in> evictable_leaves c" "set (map snd h') = evictable_leaves c - {?x}" using ok set dist(2) by (auto simp: heap_ok_def)
    show "\<forall>e\<in>set h'. e = heap_entry c (snd e)" using ok sub by (auto simp: heap_ok_def)
  qed
qed

lemma evict_walk_ok:
  assumes "radix_inv c L F V hs" "heap_ok c h"
  shows "evict_end num_tokens k h c L F V hs"
  using assms
proof (induction "card L" arbitrary: c L h k rule: less_induct)
  case less
  note inv = less.prems(1) and ok = less.prems(2)
  have tree: "tree_ok c L F V" using inv by (simp add: radix_inv_def)
  show ?case
  proof (cases "k < num_tokens \<and> h \<noteq> []")
    case False
    then have "num_tokens \<le> k \<or> evictable_leaves c = {}" using ok by (auto simp: heap_ok_def)
    moreover have "evict_walk num_tokens k h c = Some (Inr (k, c))" using False by (subst evict_walk.simps) (simp only: if_False)
    ultimately show ?thesis
      unfolding evict_end_def using inv evicts_stop [of num_tokens k c]
      by (intro exI [of _ "[]"] exI [of _ k] exI [of _ c] exI [of _ L] exI [of _ "[]"]) simp
  next
    case True
    then obtain x h' where x: "heappop (heap_key c) h = Inr (heap_entry c x, h')" "x \<in> evictable_leaves c"
      "\<And>y. y \<in> evictable_leaves c \<Longrightarrow> evict_rank c x \<le> evict_rank c y"
      "heap (heap_key c) h'" "distinct (map snd h')" "set (map snd h') = evictable_leaves c - {x}" "\<forall>e\<in>set h'. e = heap_entry c (snd e)"
      using heap_ok_pop [OF ok] by metis
    obtain p v where v: "node_value (node c x) = Some v" "length v = key_len (node_key (node c x))" "x \<in> L" "p \<in> L" "p \<noteq> x" "x \<noteq> root_node c"
      and del: "delete_leaf x (c\<lparr>frees := frees c @ [v]\<rparr>) = Inr (evicted_state p x v c)"
      and par: "node_parent (node (evicted_state p x v c) x) = Some p"
      and inv': "radix_inv (evicted_state p x v c) (L - {x}) F V hs"
      and E: "evictable_leaves (evicted_state p x v c) = evictable_leaves c - {x} \<union>
         (if node_children (node (evicted_state p x v c) p) = [] \<and> lock_ref (node (evicted_state p x v c) p) = 0 then {p} else {})"
      and pE: "p \<notin> evictable_leaves c"
      and size: "evictable_size (evicted_state p x v c) = evictable_size c - int (length v)"
      and slots: "tree_slots c = tree_slots (evicted_state p x v c) + mset v"
      by (rule evict_one [OF inv x(2)])
    let ?e = "evicted_state p x v c"
    let ?push = "node_children (node ?e p) = [] \<and> lock_ref (node ?e p) = 0"
    let ?h = "if ?push then heappush (heap_key ?e) (heap_entry ?e p) h' else h'"
    have "heap_ok ?e ?h"
    proof (cases ?push)
      case True
      note push = heappush_heap [OF x(4), of "heap_entry c p"]
      have "mset (map snd (heappush (heap_key c) (heap_entry c p) h')) = mset (p # map snd h')"
        using push(2) by (simp add: heap_entry_def)
      from mset_members [OF this]
      have "set (map snd (heappush (heap_key c) (heap_entry c p) h')) = insert p (set (map snd h'))"
        and "distinct (map snd (heappush (heap_key c) (heap_entry c p) h')) \<longleftrightarrow> distinct (p # map snd h')"
        by (simp_all only: list.simps)
      moreover have "p \<notin> set (map snd h')" using pE x(6) by simp
      moreover have "set (heappush (heap_key c) (heap_entry c p) h') = insert (heap_entry c p) (set h')"
        using push(2) by (metis set_mset_add_mset_insert set_mset_mset)
      moreover have "heap_entry c p = heap_entry c (snd (heap_entry c p))" by (simp add: heap_entry_def)
      ultimately have "heap_ok ?e (heappush (heap_key c) (heap_entry c p) h')"
        using True E x(5-7) push(1) by (simp add: heap_ok_def)
      then show ?thesis using True by simp
    next
      case False
      have "evictable_leaves ?e = evictable_leaves c - {x}" using E unfolding if_not_P [OF False] by simp
      then have "heap_ok ?e h'" using x(4-7) by (simp add: heap_ok_def)
      then show ?thesis unfolding if_not_P [OF False] .
    qed
    moreover have "card (L - {x}) < card L" using v(3) tree_okD(2) [OF tree] by (intro card_Diff1_less)
    ultimately have "evict_end num_tokens (k + length v) ?h ?e (L - {x}) F V hs" by (intro less.hyps inv')
    then obtain xs k' c' L' fs where r: "evict_walk num_tokens (k + length v) ?h ?e = Some (Inr (k', c'))"
      "evicts num_tokens (k + length v) ?e xs k' c'" "radix_inv c' L' F V hs" "L' \<subseteq> L - {x}" "settings c' = settings c"
      "root_node c' = root_node c" "protected_size c' = protected_size c"
      "evictable_size c' = evictable_size ?e - (int k' - int (k + length v))" "k + length v \<le> k'"
      "frees c' = frees c @ [v] @ fs" "length (concat fs) = k' - (k + length v)" "tree_slots ?e = tree_slots c' + mset (concat fs)"
      "num_tokens \<le> k' \<or> evictable_leaves c' = {}"
      unfolding evict_end_def by auto
    have "evict_walk num_tokens k h c = evict_walk num_tokens (k + length v) ?h ?e"
      using True x(1) v(1) del par by (subst evict_walk.simps) (simp add: Let_def heap_entry_def [of c x])
    moreover have "evicts num_tokens k c (x # xs) k' c'"
      using True x(2,3) v(1) del r(2) by (intro evicts_more) simp_all
    ultimately show ?thesis
      unfolding evict_end_def using r size slots
      by (intro exI [of _ "x # xs"] exI [of _ k'] exI [of _ c'] exI [of _ L'] exI [of _ "v # fs"]) auto
  qed
qed

lemma heapify_ok:
  assumes "distinct leaves" "set leaves = evictable_leaves c"
  shows "heap_ok c (heapify (heap_key c) (map (heap_entry c) leaves))"
proof -
  let ?h = "heapify (heap_key c) (map (heap_entry c) leaves)"
  have h: "heap (heap_key c) ?h" "mset ?h = mset (map (heap_entry c) leaves)" by (rule heapify_heap)+
  have "image_mset snd (mset ?h) = image_mset snd (mset (map (heap_entry c) leaves))" using h(2) by simp
  then have m: "mset (map snd ?h) = mset leaves" by (simp add: heap_entry_def multiset.map_comp o_def)
  from mset_members [OF this] have "distinct (map snd ?h)" "set (map snd ?h) = evictable_leaves c"
    using assms by simp_all
  moreover have "set ?h = heap_entry c ` set leaves" using h(2) by (metis list.set_map set_mset_mset)
  ultimately show ?thesis using h(1) by (auto simp: heap_ok_def heap_entry_def)
qed

lemma finite_set_longest:
  assumes "finite U" "U \<noteq> {}"
  shows "\<exists>x\<in>U. \<forall>y\<in>U. g y \<le> (g x :: nat)"
proof -
  have "Max (g ` U) \<in> g ` U" using assms by simp
  then obtain x where "x \<in> U" "Max (g ` U) = g x" by blast
  moreover have "\<forall>y\<in>U. g y \<le> Max (g ` U)" using assms(1) by simp
  ultimately show ?thesis by auto
qed

text \<open>Without an evictable leaf every node is locked: below an unlocked node there is an unlocked leaf.\<close>

lemma no_leaf_all_locked:
  assumes inv: "radix_inv c L F V hs" and none: "evictable_leaves c = {}"
  shows "evictable_size c = 0"
proof -
  have tree: "tree_ok c L F V" and locks: "locks_ok c L F hs" and sizes: "sizes_ok c L" and leaves: "leaves_ok c L"
    using inv by (simp_all add: radix_inv_def)
  define U where "U = {x \<in> L. x \<noteq> root_node c \<and> lock_ref (node c x) = 0}"
  have "U = {}"
  proof (rule ccontr)
    assume "U \<noteq> {}"
    moreover have "finite U" using tree_okD(2) [OF tree] by (simp add: U_def)
    ultimately obtain x where x: "x \<in> U" "\<And>y. y \<in> U \<Longrightarrow> length (F y) \<le> length (F x)"
      using finite_set_longest [of U "\<lambda>x. length (F x)"] by blast
    then have xL: "x \<in> L" "lock_ref (node c x) = 0" "x \<noteq> root_node c" by (simp_all add: U_def)
    then have "node_children (node c x) \<noteq> []" using none leaves by (auto simp: leaves_ok_def)
    then obtain ck y rest where "node_children (node c x) = (ck, y) # rest" by (metis list.exhaust surj_pair)
    then have "map_of (node_children (node c x)) ck = Some y" by simp
    note ch = tree_child [OF tree xL(1) this]
    have none: "\<not> prefix (F x) (F h)" if "h \<in># hs" for h
    proof
      assume "prefix (F x) (F h)"
      with that have "h \<in># filter_mset (\<lambda>h. prefix (F x) (F h)) hs" by simp
      moreover have "filter_mset (\<lambda>h. prefix (F x) (F h)) hs = {#}" using locks xL by (simp add: locks_ok_def)
      ultimately show False by (metis empty_iff set_mset_empty)
    qed
    have "filter_mset (\<lambda>h. prefix (F y) (F h)) hs = filter_mset (\<lambda>h. False) hs"
      using none edge_longer(3) [OF ch(5)] by (intro filter_mset_cong) (auto intro: prefix_order.trans)
    then have "y \<in> U" using locks ch(1,2) by (simp add: locks_ok_def U_def)
    then show False using x(2) [of y] edge_longer(1) [OF ch(5)] by simp
  qed
  then have "(\<Sum>x \<in> L - {root_node c}. if lock_ref (node c x) = 0 then node_size c x else 0) = 0"
    by (intro sum.neutral) (auto simp: U_def)
  then show ?thesis using sizes by (simp add: sizes_ok_def)
qed

end
