(* ===== verification/RadixOps.thy ===== *)
theory RadixOps
  imports RadixWalk RadixEvict
begin

text \<open>
  The operations of SGLang's radix cache on its invariant, without the ghosts: matching returns the longest
  cached prefix, inserting adds the rest of the key, the locks add and remove handles, eviction frees what it
  reports. Every operation returns and raises nothing.
\<close>

declare map_of_eq_Some_iff [simp del]

section \<open>The invariant of a cache with held handles\<close>

definition radix_ok :: "radix_cache \<Rightarrow> nat multiset \<Rightarrow> bool" where
  "radix_ok c hs \<longleftrightarrow> (\<exists>L F V. radix_inv c L F V hs)"

text \<open>The key the cache works with: the bigram view where the cache is for EAGLE, cut to whole pages.\<close>

definition cache_key :: "radix_cache \<Rightarrow> radix_key \<Rightarrow> radix_key" where
  "cache_key c k = page_aligned (page_size c) (fst (maybe_to_bigram_view (is_eagle c) (None :: int list option) k))"

abbreviation key_path :: "radix_cache \<Rightarrow> radix_key \<Rightarrow> lunit list" where
  "key_path c k \<equiv> lunits (cache_key c k)"

lemma radix_okD:
  assumes "radix_ok c hs"
  obtains L F V where "radix_inv c L F V hs" "tree_ok c L F V"
  using assms by (auto simp: radix_ok_def radix_inv_def)

lemma cache_key_aligned: "0 < page_size c \<Longrightarrow> page_size c dvd key_len (cache_key c k)"
  by (simp add: cache_key_def page_aligned_len)

text \<open>One path has one sequence of slots, wherever in a node it ends.\<close>

lemma held_unique_below:
  assumes ok: "tree_ok c L F V" and us: "page_size c dvd length us" and h: "h \<in> L" "prefix us (F h)" and n: "n \<in> L" "prefix us (F n)"
    and m: "m \<in> L" "prefix (F m) us"
  shows "take (length us) (V h) = take (length us) (V n)"
  using m
proof (induction "length us - length (F m)" arbitrary: m rule: less_induct)
  case less
  note m = less.prems
  have pre: "prefix (F m) (F h)" "prefix (F m) (F n)" using m h n by (auto intro: prefix_order.trans)
  show ?case
  proof (cases "length us \<le> length (F m)")
    case True
    then have eq: "us = F m" using m(2) by (metis prefix_length_prefix prefix_order.antisym prefix_order.refl)
    show ?thesis using values_agree [OF ok m(1) h(1)] values_agree [OF ok m(1) n(1)] pre eq by simp
  next
    case False
    then have ne: "m \<noteq> h" "m \<noteq> n" using h n by (auto dest: prefix_length_le)
    obtain zs where zs: "us = F m @ zs" using m(2) by (auto simp: prefix_def)
    have "page_size c \<le> length zs"
      using False us zs tree_lengths [OF ok m(1)] tree_okD(1) [OF ok] by (intro page_le) (simp_all add: dvd_add_right_iff)
    then have fp: "first_page (page_size c) (drop (length (F m)) (F z)) = first_page (page_size c) zs" if "prefix us (F z)" for z
      using that zs tree_okD(1) [OF ok] by (intro first_page_prefix) (auto simp: prefix_def)
    obtain x where x: "map_of (node_children (node c m)) (first_page (page_size c) zs) = Some x" "x \<in> L" "edge_ok c F V m x" "prefix (F x) (F h)"
      using tree_descend [OF ok m(1) h(1) pre(1) ne(1)] fp [OF h(2)] by metis
    obtain y where "map_of (node_children (node c m)) (first_page (page_size c) zs) = Some y" "prefix (F y) (F n)"
      using tree_descend [OF ok m(1) n(1) pre(2) ne(2)] fp [OF n(2)] by metis
    with x(1) have xn: "prefix (F x) (F n)" by simp
    show ?thesis
    proof (cases "length (F x) \<le> length us")
      case True
      then have "prefix (F x) us" using x(4) h(2) prefix_length_prefix by blast
      moreover have "length us - length (F x) < length us - length (F m)" using edge_longer(1) [OF x(3)] False by linarith
      ultimately show ?thesis using less.hyps x(2) by blast
    next
      case False
      then have "take (length us) (V z) = take (length us) (V x)" if "z \<in> L" "prefix (F x) (F z)" for z
        using values_agree [OF ok x(2) that] by (simp add: min_def)
      then show ?thesis using h(1) n(1) x(4) xn by simp
    qed
  qed
qed

lemma held_unique:
  assumes ok: "tree_ok c L F V" and us: "page_size c dvd length us" and "held L F V us xs" and n: "n \<in> L" "prefix us (F n)"
  shows "xs = take (length us) (V n)"
proof -
  obtain h where h: "h \<in> L" "prefix us (F h)" "xs = take (length us) (V h)" using assms(3) by (auto simp: held_def)
  have "prefix (F (root_node c)) us" using tree_okD(4) [OF ok] by simp
  then show ?thesis using held_unique_below [OF ok us h(1,2) n tree_okD(3) [OF ok]] h(3) by simp
qed

section \<open>What changes in the cache\<close>

text \<open>An operation that only refines the tree: the contents, the slots, the sizes and the paths of the nodes stay.\<close>

definition same_contents :: "radix_cache \<Rightarrow> radix_cache \<Rightarrow> bool" where
  "same_contents c c' \<longleftrightarrow> settings c' = settings c \<and> root_node c' = root_node c \<and> frees c' = frees c \<and>
     evictable_size c' = evictable_size c \<and> protected_size c' = protected_size c \<and> tree_slots c' = tree_slots c \<and>
     (\<forall>us xs. cached c' us xs \<longleftrightarrow> cached c us xs) \<and> (\<forall>n us xs. reaches c n us xs \<longrightarrow> reaches c' n us xs)"

lemma grown_contents:
  assumes ok: "tree_ok c L F V" "tree_ok c' L' F' V'" and g: "grown c L F V c' L' F' V'"
  shows "same_contents c c'"
  using g grown_page [OF g] unfolding same_contents_def grown_def
  by (simp add: cached_iff [OF ok(1)] cached_iff [OF ok(2)] reaches_iff [OF ok(1)] reaches_iff [OF ok(2)]) blast

section \<open>Matching\<close>

lemma match_prefix_inv:
  assumes inv: "radix_inv c L F V hs" and on: "\<not> disable c"
  shows "\<exists>n c' L' F' V'. match_prefix now k c = Some (Inr ((V' n, n), c')) \<and> radix_inv c' L' F' V' hs \<and> grown c L F V c' L' F' V' \<and>
    n \<in> L' \<and> prefix (F' n) (key_path c k) \<and> longest (page_size c) L' F' (key_path c k) (F' n)"
proof -
  have tree: "tree_ok c L F V" using inv by (simp add: radix_inv_def)
  note t = tree_okD [OF tree]
  let ?b = "fst (maybe_to_bigram_view (is_eagle c) (None :: int list option) k)" and ?k = "cache_key c k"
  have k: "?k = page_aligned (page_size c) ?b" by (simp add: cache_key_def)
  show ?thesis
  proof (cases "key_len ?k = 0")
    case True
    then have "match_prefix now k c = Some (Inr (([], root_node c), c))"
      using on by (simp add: match_prefix_def cache_key_def split_beta Let_def)
    moreover have "longest (page_size c) L F (lunits ?k) []" using True by (auto simp: longest_def dest: prefix_length_le)
    ultimately show ?thesis using inv t(3-5) by (intro exI [of _ "root_node c"] exI [of _ c] exI [of _ L] exI [of _ F] exI [of _ V]) simp
  next
    case False
    have len: "key_len ?b \<noteq> 0"
    proof
      assume "key_len ?b = 0"
      then have "key_len ?k = 0" using t(1) by (simp add: k page_aligned_len)
      with False show False by simp
    qed
    let ?c = "update_node (root_node c) (\<lambda>nd. nd\<lparr>last_access_time := now\<rparr>) c"
    have sh: "same_nodes c ?c" by simp
    have inv': "radix_inv ?c L F V hs" by (rule same_nodes_inv [OF sh inv])
    have al: "page_size c dvd key_len ?k" by (rule cache_key_aligned [OF t(1)])
    have "match_end now (root_node c) ?k (page_key (page_size c) ?k) [] ?c L F V hs"
      using inv' t(3,5) al by (intro match_walk_ok [of _ _ _ _ _ _ _ _ _ "[]"]) simp_all
    then obtain vs n c' ls L' F' V' where r: "match_walk now (root_node c) ?k (page_key (page_size c) ?k) [] ?c = Some (Inr (vs, n, c'))"
      "radix_inv c' L' F' V' hs" "grown ?c L F V c' L' F' V'" "n \<in> L'" "prefix (F' n) (F (root_node c) @ lunits ?k)"
      "longest (page_size ?c) L' F' (F (root_node c) @ lunits ?k) (F' n)" "those vs = Some ls" "concat ls = V' n"
      unfolding match_end_def by (elim exE conjE) (rule that; assumption)
    have path: "prefix (F' n) (lunits ?k)" "longest (page_size c) L' F' (lunits ?k) (F' n)" using r(5,6) t(4) by simp_all
    have ck: "child_key (page_size c) ?k = Inr (page_key (page_size c) ?k)" using False by (intro child_key_page [OF t(1) al]) simp
    have "match_prefix now k c = Some (Inr ((V' n, n), c'))"
      using on len False r(1,7,8) ck unfolding match_prefix_def Let_def split_beta k [symmetric]
      by (simp add: match_prefix_helper_def)
    then show ?thesis using r(2,4) path grown_trans [OF grown_shape [OF sh inv] r(3)] by blast
  qed
qed

section \<open>Inserting\<close>

text \<open>The slots an insertion works with.\<close>

definition cache_values :: "radix_cache \<Rightarrow> radix_key \<Rightarrow> int list option \<Rightarrow> int list" where
  "cache_values c k v = (case snd (maybe_to_bigram_view (is_eagle c) v k) of
     Some v \<Rightarrow> take (key_len (cache_key c k)) v | None \<Rightarrow> take (key_len (cache_key c k)) (token_ids (cache_key c k)))"

text \<open>The outcome: the slots of the whole key are those cached for its first \<open>m\<close> units and the given ones after that.\<close>

definition inserted :: "radix_cache \<Rightarrow> nat set \<Rightarrow> (nat \<Rightarrow> lunit list) \<Rightarrow> (nat \<Rightarrow> int list) \<Rightarrow> nat multiset \<Rightarrow>
    lunit list \<Rightarrow> int list \<Rightarrow> nat \<Rightarrow> radix_cache \<Rightarrow> nat set \<Rightarrow> (nat \<Rightarrow> lunit list) \<Rightarrow> (nat \<Rightarrow> int list) \<Rightarrow> bool" where
  "inserted c L F V hs U v m c' L' F' V' \<longleftrightarrow> radix_inv c' L' F' V' hs \<and>
     settings c' = settings c \<and> root_node c' = root_node c \<and> frees c' = frees c \<and> L \<subseteq> L' \<and> (\<forall>x\<in>L. F' x = F x \<and> V' x = V x) \<and>
     m \<le> length U \<and> page_size c dvd m \<and> longest (page_size c) L F U (take m U) \<and>
     (\<exists>ws. held L F V (take m U) ws \<and> (\<exists>n\<in>L'. F' n = U \<and> V' n = ws @ drop m v) \<and>
       (\<forall>us xs. held L' F' V' us xs \<longleftrightarrow> held L F V us xs \<or>
          prefix us U \<and> m < length us \<and> xs = ws @ take (length us - m) (drop m v))) \<and>
     evictable_size c' = evictable_size c + int (length U - m) \<and> protected_size c' = protected_size c \<and>
     tree_slots c' = tree_slots c + mset (drop m v)"

lemma longest_held:
  assumes "longest page L' F' U us" "\<And>ws xs. held L F V ws xs \<Longrightarrow> held L' F' V' ws xs"
  shows "longest page L F U us"
proof -
  have "\<exists>h'\<in>L'. prefix ws (F' h')" if "h \<in> L" "prefix ws (F h)" for ws h
    using assms(2) [of ws "take (length ws) (V h)"] that unfolding held_def by blast
  then show ?thesis using assms(1) unfolding longest_def by blast
qed

lemma inserted_full:
  assumes tree: "tree_ok c L F V" and inv': "radix_inv c' L' F' V' hs" and g: "grown c L F V c' L' F' V'" and n: "n \<in> L'" "F' n = U"
    and v: "length v = length U"
  shows "inserted c L F V hs U v (length U) c' L' F' V'"
proof -
  have tree': "tree_ok c' L' F' V'" using inv' by (simp add: radix_inv_def)
  have "length (V' n) = length U" "page_size c dvd length U" using tree_lengths [OF tree' n(1)] n(2) grown_page [OF g] by simp_all
  moreover from this have "held L' F' V' U (V' n)" using n by (auto simp: held_def)
  then have "held L F V U (V' n)" using g by (simp add: grown_def)
  moreover have "\<not> (prefix us U \<and> length U < length us)" for us by (auto dest: prefix_length_le)
  ultimately show ?thesis
    using inv' g n v longest_all [of "page_size c" L F U] unfolding inserted_def grown_def
    by (intro conjI exI [of _ "V' n"]) auto
qed

lemma inserted_leaf:
  assumes tree: "tree_ok c L F V" and inv': "radix_inv c' L' F' V' hs" and g: "grown c L F V c' L' F' V'" and n: "n \<in> L'"
    and k: "F' n @ lunits k = U" "page_size c dvd key_len k" "0 < key_len k" "key_leaves c' n k"
    and v: "length v = length U" "length U = m + key_len k"
    and c'': "c'' = leaf_state now prio chunked n k (page_key (page_size c) k) (drop m v) c'"
  shows "inserted c L F V hs U v m c'' (insert (node_counter c') L') (leaf_path c' F' n k) (leaf_slots c' V' n (drop m v))"
proof -
  have tree': "tree_ok c' L' F' V'" using inv' by (simp add: radix_inv_def)
  have page: "page_size c' = page_size c" by (rule grown_page [OF g])
  have s: "leaf_point c' L' F' V' n k (drop m v)"
    using tree' n k v by (simp add: leaf_point_def key_leaves_def page)
  note d = leaf_pointD [OF s]
  let ?F = "leaf_path c' F' n k" and ?V = "leaf_slots c' V' n (drop m v)" and ?new = "node_counter c'"
  have Fn: "F' n = take m U" "length (F' n) = m" using k(1) v(2) by auto
  have Vn: "length (V' n) = m" "page_size c dvd m" using tree_lengths [OF tree' n] Fn(2) page by simp_all
  have old: "held L' F' V' us xs \<longleftrightarrow> held L F V us xs" for us xs using g by (simp add: grown_def)
  have "held L' F' V' (take m U) (V' n)" unfolding held_def using n Fn Vn v(2) by (intro bexI [of _ n]) auto
  then have hn: "held L F V (take m U) (V' n)" using old by simp
  have "held (insert ?new L') ?F ?V us xs \<longleftrightarrow> held L F V us xs \<or>
      prefix us U \<and> m < length us \<and> xs = V' n @ take (length us - m) (drop m v)" for us xs
  proof (cases "length us \<le> m")
    case True
    have "held L' F' V' us xs" if "prefix us U" "xs = take (length us) (V' n @ drop m v)"
    proof -
      have "prefix us (F' n)" using that(1) True Fn by (metis prefix_length_prefix take_is_prefix)
      then show ?thesis using that(2) True Vn n by (auto simp: held_def)
    qed
    then show ?thesis using leaf_held [OF s, of us xs] k(1) old True by auto
  next
    case False
    then show ?thesis using leaf_held [OF s, of us xs] k(1) old Vn by auto
  qed
  moreover have "longest (page_size c) L F U (take m U)"
    using longest_held [OF longest_leaves [OF tree' n _ k(4)], of L F V] k(1,2) Fn(1) page old by metis
  moreover have "?F ?new = U" "?V ?new = V' n @ drop m v" using k(1) by simp_all
  moreover have "?F x = F' x" "?V x = V' x" if "x \<in> L'" for x using d(7) [OF that] by simp_all
  moreover have "radix_inv c'' (insert ?new L') ?F ?V hs" using leaf_inv [OF inv' s] unfolding c'' page by simp
  moreover have "tree_slots c'' = tree_slots c + mset (drop m v)"
    using leaf_slots_sum [OF s] g unfolding c'' grown_def page by simp
  ultimately show ?thesis
    using g v(2) Vn(2) hn unfolding inserted_def grown_def c''
    by (intro conjI exI [of _ "V' n"]) (auto simp: subset_iff)
qed

lemma insert_key_inv:
  assumes inv: "radix_inv c L F V hs" and on: "\<not> disable c" and len: "length (cache_values c k v) = key_len (cache_key c k)"
  shows "\<exists>m c' L' F' V'. insert_key now k v prio chunked c = Some (Inr (m, c')) \<and>
    inserted c L F V hs (key_path c k) (cache_values c k v) m c' L' F' V'"
proof -
  let ?k = "cache_key c k" and ?v = "cache_values c k v"
  have tree: "tree_ok c L F V" using inv by (simp add: radix_inv_def)
  note t = tree_okD [OF tree]
  have al: "page_size c dvd key_len ?k" by (rule cache_key_aligned [OF t(1)])
  let ?p = "case prio of None \<Rightarrow> 0 | Some p \<Rightarrow> p"
  let ?c = "raise_priority (root_node c) ?p (update_node (root_node c) (\<lambda>nd. nd\<lparr>last_access_time := now\<rparr>) c)"
  have sh: "same_nodes c ?c" by (rule same_nodes_trans [OF same_nodes_touch same_nodes_raise])
  have inv': "radix_inv ?c L F V hs" by (rule same_nodes_inv [OF sh inv])
  have g: "grown c L F V ?c L F V" by (rule grown_shape [OF sh inv])
  have page: "page_size ?c = page_size c" by (rule grown_page [OF g])
  have call: "insert_key now k v prio chunked c = insert_helper now (root_node c) ?k ?v prio chunked c"
    using on by (cases v; cases "is_eagle c \<and> \<not> is_bigram k") (auto simp: insert_key_def cache_key_def cache_values_def maybe_to_bigram_view_def Let_def)
  show ?thesis
  proof (cases "key_len ?k = 0")
    case True
    then have eq: "insert_key now k v prio chunked c = Some (Inr (0, ?c))" unfolding call insert_helper_def Let_def by simp
    have U: "lunits ?k = []" using True by (simp flip: length_0_conv)
    then have "inserted c L F V hs (lunits ?k) ?v (length (lunits ?k)) ?c L F V"
      using t(3,4) len True U by (intro inserted_full [OF tree inv' g, of "root_node c"]) simp_all
    with eq True show ?thesis by (intro exI [of _ "0::nat"] exI [of _ ?c] exI [of _ L] exI [of _ F] exI [of _ V]) simp
  next
    case False
    have ck: "child_key (page_size ?c) ?k = Inr (page_key (page_size ?c) ?k)"
      unfolding page using False by (intro child_key_page [OF t(1) al]) simp
    have "insert_end now ?p chunked (root_node c) ?k (page_key (page_size ?c) ?k) ?v 0 ?c L F V hs"
      using inv' t(3) al page by (intro insert_walk_ok) simp_all
    then obtain n' k' ck' m c' L' F' V' where
      r: "insert_walk now ?p chunked (root_node c) ?k (page_key (page_size ?c) ?k) ?v 0 ?c = Some (Inr ((n', k', ck', drop m ?v, 0 + m), c'))"
        "radix_inv c' L' F' V' hs" "grown ?c L F V c' L' F' V'" "n' \<in> L'" "F' n' @ lunits k' = F (root_node c) @ lunits ?k"
        "page_size ?c dvd key_len k'" "key_len k' + m = key_len ?k" "key_leaves c' n' k'" "0 < key_len k' \<longrightarrow> ck' = page_key (page_size ?c) k'"
      unfolding insert_end_def by (elim exE conjE) (rule that; assumption)
    have g': "grown c L F V c' L' F' V'" by (rule grown_trans [OF g r(3)])
    have path: "F' n' @ lunits k' = lunits ?k" using r(5) t(4) by simp
    let ?c' = "if 0 < key_len k' then add_leaf now ?p chunked n' k' ck' (drop m ?v) c' else c'"
    have eq: "insert_key now k v prio chunked c = Some (Inr (m, ?c'))"
      using False r(1) ck unfolding call insert_helper_def Let_def by simp
    show ?thesis
    proof (cases "key_len k' = 0")
      case True
      then have "lunits k' = []" by (simp flip: length_0_conv)
      then have "inserted c L F V hs (lunits ?k) ?v (length (lunits ?k)) c' L' F' V'"
        using path len by (intro inserted_full [OF tree r(2) g' r(4)]) simp_all
      then have "inserted c L F V hs (lunits ?k) ?v m ?c' L' F' V'" using r(7) True by simp
      with eq show ?thesis by blast
    next
      case leaf: False
      have tree': "tree_ok c' L' F' V'" using r(2) by (simp add: radix_inv_def)
      then have "n' \<noteq> node_counter c'" using tree_okD(8) [OF tree' r(4)] by simp
      then have "?c' = leaf_state now ?p chunked n' k' (page_key (page_size c) k') (drop m ?v) c'"
        using leaf r(9) page by (simp add: add_leaf_eq)
      then have "inserted c L F V hs (lunits ?k) ?v m ?c' (insert (node_counter c') L') (leaf_path c' F' n' k') (leaf_slots c' V' n' (drop m ?v))"
        using leaf r(6,7) len page by (intro inserted_leaf [OF tree r(2) g' r(4) path _ _ r(8)]) simp_all
      with eq show ?thesis by blast
    qed
  qed
qed

end
