(* ===== verification/RadixRun.thy ===== *)
theory RadixRun
  imports RadixOps
begin

text \<open>
  A SGLang radix cache in use: creation, eviction through the public call, the size of the tree, and runs of
  operations by callers that hold handles. No run raises or loops, whatever the order of its operations.
\<close>

declare map_of_eq_Some_iff [simp del]

section \<open>Creation\<close>

lemma reset_inv:
  assumes "0 < page_size c"
  shows "radix_inv (reset_cache now c) {node_counter c} (\<lambda>_. []) (\<lambda>_. []) {#}"
  using assms
  by (simp add: reset_cache_def alloc_node_def radix_inv_def tree_ok_def locks_ok_def sizes_ok_def leaves_ok_def children_ok_def
      new_tree_node_def Let_def)

lemma reset_settings: "settings (reset_cache now c) = settings c" "frees (reset_cache now c) = frees c"
  by (simp_all add: reset_cache_def alloc_node_def settings_def Let_def)

lemma radix_reset_ok: "0 < page_size c \<Longrightarrow> radix_ok (reset_cache now c) {#}"
  unfolding radix_ok_def using reset_inv by blast

lemma init_cache_inv:
  assumes "init_cache now dis page eagle no_finished policy = Inr c" "0 < page"
  shows "radix_ok c {#} \<and> disable c = dis \<and> page_size c = page \<and> is_eagle c = eagle"
proof -
  obtain s where c: "c = reset_cache now
          \<lparr>disable = dis, page_size = page, is_eagle = eagle, disable_finished_insert = no_finished, strategy = s,
           tree_nodes = (\<lambda>_. new_tree_node now 0), node_counter = 0, root_node = 0, evictable_size = 0,
           protected_size = 0, evictable_leaves = {}, frees = []\<rparr>" (is "c = reset_cache now ?c")
    using assms(1) by (auto simp: init_cache_def split: sum.splits)
  have "settings c = settings ?c" unfolding c by (rule reset_settings)
  moreover have "radix_ok c {#}" unfolding c using assms(2) by (intro radix_reset_ok) simp
  ultimately show ?thesis by (simp add: settings_def)
qed

section \<open>Eviction\<close>

lemma sizes_nonneg: "sizes_ok c L \<Longrightarrow> 0 \<le> evictable_size c \<and> 0 \<le> protected_size c"
  by (simp add: sizes_ok_def node_size_def sum_nonneg)

lemma evict_leaves_inv:
  assumes inv: "radix_inv c L F V hs" and on: "\<not> disable c" and leaves: "distinct leaves" "set leaves = evictable_leaves c"
  shows "\<exists>xs k c' L' fs. evict_leaves num_tokens leaves c = Some (Inr (k, c')) \<and> evicts num_tokens 0 c xs k c' \<and>
    radix_inv c' L' F V hs \<and> L' \<subseteq> L \<and> settings c' = settings c \<and> root_node c' = root_node c \<and>
    protected_size c' = protected_size c \<and> evictable_size c' = evictable_size c - int k \<and>
    frees c' = frees c @ fs \<and> length (concat fs) = k \<and> tree_slots c = tree_slots c' + mset (concat fs) \<and>
    (num_tokens \<le> k \<or> evictable_size c' = 0)"
proof -
  have "evict_end num_tokens 0 (heapify (heap_key c) (map (heap_entry c) leaves)) c L F V hs"
    by (rule evict_walk_ok [OF inv heapify_ok [OF leaves]])
  then obtain xs k c' L' fs where r: "evict_walk num_tokens 0 (heapify (heap_key c) (map (heap_entry c) leaves)) c = Some (Inr (k, c'))"
    "evicts num_tokens 0 c xs k c'" "radix_inv c' L' F V hs" "L' \<subseteq> L" "settings c' = settings c" "root_node c' = root_node c"
    "protected_size c' = protected_size c" "evictable_size c' = evictable_size c - (int k - int 0)" "0 \<le> k"
    "frees c' = frees c @ fs" "length (concat fs) = k - 0" "tree_slots c = tree_slots c' + mset (concat fs)"
    "num_tokens \<le> k \<or> evictable_leaves c' = {}"
    unfolding evict_end_def by (elim exE conjE) (rule that; assumption)
  have "evict_leaves num_tokens leaves c = Some (Inr (k, c'))" using r(1) on by (simp add: evict_leaves_def)
  moreover have "num_tokens \<le> k \<or> evictable_size c' = 0" using r(13) no_leaf_all_locked [OF r(3)] by blast
  moreover note r(2-8,10-12)
  ultimately show ?thesis
    by (intro exI [of _ xs] exI [of _ k] exI [of _ c'] exI [of _ L'] exI [of _ fs]) simp
qed

section \<open>The size of the tree\<close>

definition subtree :: "nat set \<Rightarrow> (nat \<Rightarrow> lunit list) \<Rightarrow> nat \<Rightarrow> nat set" where
  "subtree L F n = {x \<in> L. prefix (F n) (F x)}"

definition slot_count :: "radix_cache \<Rightarrow> nat \<Rightarrow> nat" where
  "slot_count c n = (case node_value (node c n) of Some v \<Rightarrow> length v | None \<Rightarrow> 0)"

lemma children_values:
  assumes ok: "tree_ok c L F V" and n: "n \<in> L"
  shows "distinct (dict_values (node_children (node c n)))"
    "y \<in> set (dict_values (node_children (node c n))) \<Longrightarrow>
       map_of (node_children (node c n)) (page_key (page_size c) (node_key (node c y))) = Some y \<and> y \<in> L \<and> edge_ok c F V n y"
proof -
  let ?d = "node_children (node c n)" and ?pk = "\<lambda>y. page_key (page_size c) (node_key (node c y))"
  have wf: "dict_wf ?d" using tree_okD(10) [OF ok n] by (simp add: children_ok_def)
  have key: "fst e = ?pk (snd e) \<and> map_of ?d (?pk (snd e)) = Some (snd e) \<and> snd e \<in> L \<and> edge_ok c F V n (snd e)" if "e \<in> set ?d" for e
  proof -
    have m: "map_of ?d (fst e) = Some (snd e)" using wf that by (simp add: map_of_is_SomeI)
    then show ?thesis using tree_child [OF ok n m] by simp
  qed
  then have "map fst ?d = map ?pk (map snd ?d)" by simp
  then show "distinct (dict_values ?d)" using wf by (metis distinct_map)
  show "y \<in> set (dict_values ?d) \<Longrightarrow> map_of ?d (?pk y) = Some y \<and> y \<in> L \<and> edge_ok c F V n y" using key by auto
qed

lemma subtree_children:
  assumes ok: "tree_ok c L F V" and n: "n \<in> L"
  shows "subtree L F n = insert n (\<Union>y \<in> set (dict_values (node_children (node c n))). subtree L F y)"
    "n \<notin> (\<Union>y \<in> set (dict_values (node_children (node c n))). subtree L F y)"
    "\<And>y z. y \<in> set (dict_values (node_children (node c n))) \<Longrightarrow> z \<in> set (dict_values (node_children (node c n))) \<Longrightarrow> y \<noteq> z \<Longrightarrow>
       subtree L F y \<inter> subtree L F z = {}"
proof -
  let ?ys = "set (dict_values (node_children (node c n)))"
  note ch = children_values(2) [OF ok n]
  show "subtree L F n = insert n (\<Union>y \<in> ?ys. subtree L F y)"
  proof (rule set_eqI)
    fix x
    have "\<exists>y\<in>?ys. prefix (F y) (F x)" if "x \<in> L" "prefix (F n) (F x)" "n \<noteq> x"
      using tree_descend [OF ok n that] child_in_values by metis
    moreover have "prefix (F n) (F y)" if "y \<in> ?ys" for y using ch [OF that] edge_longer(3) by blast
    ultimately show "x \<in> subtree L F n \<longleftrightarrow> x \<in> insert n (\<Union>y \<in> ?ys. subtree L F y)"
      using n by (auto simp: subtree_def intro: prefix_order.trans)
  qed
  have "\<not> prefix (F y) (F n)" if "y \<in> ?ys" for y
    using ch [OF that] edge_longer(1) [of c F V n y] by (auto dest: prefix_length_le)
  then show "n \<notin> (\<Union>y \<in> ?ys. subtree L F y)" by (auto simp: subtree_def)
  show "subtree L F y \<inter> subtree L F z = {}" if mem: "y \<in> ?ys" "z \<in> ?ys" "y \<noteq> z" for y z
  proof -
    have "y = z" if x: "prefix (F y) (F x)" "prefix (F z) (F x)" for x
    proof -
      have e: "edge_ok c F V n y" "edge_ok c F V n z" using ch [OF mem(1)] ch [OF mem(2)] by simp_all
      note fp = child_first_page [OF tree_okD(1) [OF ok] e(1) x(1)] child_first_page [OF tree_okD(1) [OF ok] e(2) x(2)]
      show ?thesis using ch [OF mem(1)] ch [OF mem(2)] fp by simp
    qed
    with mem(3) show ?thesis by (auto simp: subtree_def)
  qed
qed

lemma size_walk_ok:
  assumes ok: "tree_ok c L F V" and "set stack \<subseteq> L"
  shows "size_walk c tot stack = Some (Inr (tot + sum_list (map (\<lambda>n. \<Sum>x \<in> subtree L F n. slot_count c x) stack)))"
  using assms(2)
proof (induction "sum_list (map (\<lambda>n. card (subtree L F n)) stack)" arbitrary: stack tot rule: less_induct)
  case less
  show ?case
  proof (cases stack rule: rev_cases)
    case Nil
    then show ?thesis by (simp add: size_walk.simps)
  next
    case (snoc rest n)
    let ?ys = "dict_values (node_children (node c n))"
    have n: "n \<in> L" using less.prems snoc by simp
    have fin: "finite (subtree L F x)" for x using tree_okD(2) [OF ok] by (simp add: subtree_def)
    obtain v where v: "node_value (node c n) = Some v" using node_has_value [OF ok n] by (auto simp: evicted_def)
    note ch = children_values [OF ok n] and split = subtree_children [OF ok n]
    have sum: "(\<Sum>x \<in> subtree L F n. g x) = g n + sum_list (map (\<lambda>y. \<Sum>x \<in> subtree L F y. g x) ?ys)" for g :: "nat \<Rightarrow> nat"
    proof -
      have "(\<Sum>x \<in> subtree L F n. g x) = g n + (\<Sum>x \<in> (\<Union>y \<in> set ?ys. subtree L F y). g x)"
        unfolding split(1) using split(2) fin by simp
      also have "(\<Sum>x \<in> (\<Union>y \<in> set ?ys. subtree L F y). g x) = (\<Sum>y \<in> set ?ys. \<Sum>x \<in> subtree L F y. g x)"
        using fin split(3) by (intro sum.UNION_disjoint) auto
      also have "\<dots> = sum_list (map (\<lambda>y. \<Sum>x \<in> subtree L F y. g x) ?ys)" by (rule sum_list_distinct_conv_sum_set [OF ch(1), symmetric])
      finally show ?thesis .
    qed
    have "card (subtree L F n) = 1 + sum_list (map (\<lambda>y. card (subtree L F y)) ?ys)" by (simp only: card_eq_sum sum)
    then have lt: "sum_list (map (\<lambda>n. card (subtree L F n)) (rest @ ?ys)) < sum_list (map (\<lambda>n. card (subtree L F n)) stack)"
      using snoc by simp
    have "filter (\<lambda>ch. \<not> evicted (node c ch)) ?ys = ?ys"
    proof (intro filter_True ballI)
      fix y assume "y \<in> set ?ys"
      then have "y \<in> L" using ch(2) by blast
      then show "\<not> evicted (node c y)" by (rule node_has_value [OF ok])
    qed
    then have "size_walk c tot stack = size_walk c (tot + length v) (rest @ ?ys)"
      using snoc v by (subst size_walk.simps) (simp add: Let_def)
    also have "\<dots> = Some (Inr (tot + length v + sum_list (map (\<lambda>n. \<Sum>x \<in> subtree L F n. slot_count c x) (rest @ ?ys))))"
      using lt less.prems snoc ch(2) by (intro less.hyps) auto
    also have "\<dots> = Some (Inr (tot + sum_list (map (\<lambda>n. \<Sum>x \<in> subtree L F n. slot_count c x) stack)))"
      using sum [of "slot_count c"] snoc v by (simp add: slot_count_def)
    finally show ?thesis .
  qed
qed

lemma total_size_inv:
  assumes inv: "radix_inv c L F V hs"
  shows "\<exists>t. total_size c = Some (Inr t) \<and> int t = evictable_size c + protected_size c \<and> t = size (tree_slots c)"
proof -
  have ok: "tree_ok c L F V" and sizes: "sizes_ok c L" using inv by (simp_all add: radix_inv_def)
  note t = tree_okD [OF ok]
  let ?t = "\<Sum>x \<in> L. slot_count c x"
  have all: "subtree L F (root_node c) = L" using t(4) by (auto simp: subtree_def)
  have "total_size c = Some (Inr ?t)"
    using size_walk_ok [OF ok, of "[root_node c]" 0] t(3) all by (simp add: total_size_def)
  moreover have "int ?t = evictable_size c + protected_size c"
  proof -
    have "slot_count c (root_node c) = 0" using t(7) by (simp add: slot_count_def)
    then have "?t = (\<Sum>x \<in> L - {root_node c}. slot_count c x)" using t(2,3) by (simp add: sum.remove)
    moreover have "int (slot_count c x) = node_size c x" if "x \<in> L - {root_node c}" for x
      using that t(9) [of x] by (auto simp: edge_ok_def slot_count_def node_size_def)
    ultimately have "int ?t = (\<Sum>x \<in> L - {root_node c}. node_size c x)" by simp
    also have "\<dots> = evictable_size c + protected_size c"
      using sizes unfolding sizes_ok_def by (simp flip: sum.distrib) (intro sum.cong; simp)
    finally show ?thesis .
  qed
  moreover have "?t = size (tree_slots c)"
  proof -
    have "size (\<Sum>x \<in> L. node_slots c x) = (\<Sum>x \<in> L. size (node_slots c x))"
      using t(2) by (induction rule: finite_induct) simp_all
    moreover have "size (node_slots c x) = slot_count c x" for x by (simp add: node_slots_def slot_count_def split: option.split)
    ultimately show ?thesis by (simp add: tree_slots_eq [OF ok])
  qed
  ultimately show ?thesis by blast
qed

section \<open>Runs\<close>

datatype radix_op =
    Match real radix_key
  | Insert real radix_key "int list option" "int option" bool
  | Lock nat
  | Unlock nat
  | Evict nat "nat list"
  | Reset real

text \<open>A run carries the multiset of the handles its callers hold.\<close>

fun apply_op :: "radix_op \<Rightarrow> radix_cache \<times> nat multiset \<Rightarrow> (py_error + radix_cache \<times> nat multiset) option" where
  "apply_op (Match now k) (c, hs) = map_option (map_sum id (\<lambda>(_, c). (c, hs))) (match_prefix now k c)"
| "apply_op (Insert now k v prio chunked) (c, hs) = map_option (map_sum id (\<lambda>(_, c). (c, hs))) (insert_key now k v prio chunked c)"
| "apply_op (Lock n) (c, hs) = map_option (map_sum id (\<lambda>(_, c). (c, add_mset n hs))) (inc_lock_ref n c)"
| "apply_op (Unlock n) (c, hs) = map_option (map_sum id (\<lambda>(_, c). (c, hs - {#n#}))) (dec_lock_ref n c)"
| "apply_op (Evict num leaves) (c, hs) = map_option (map_sum id (\<lambda>(_, c). (c, hs))) (evict_leaves num leaves c)"
| "apply_op (Reset now) (c, hs) = Some (Inr (reset_cache now c, hs))"

text \<open>What a caller owes: one value per unit of the key, handles to nodes of the tree, releases of held handles, a
  listing of the evictable leaves, and a reset only when nothing is held.\<close>

fun allowed :: "radix_op \<Rightarrow> radix_cache \<times> nat multiset \<Rightarrow> bool" where
  "allowed (Match now k) (c, hs) \<longleftrightarrow> True"
| "allowed (Insert now k v prio chunked) (c, hs) \<longleftrightarrow> length (cache_values c k v) = key_len (cache_key c k)"
| "allowed (Lock n) (c, hs) \<longleftrightarrow> n \<in> live c"
| "allowed (Unlock n) (c, hs) \<longleftrightarrow> n \<in># hs"
| "allowed (Evict num leaves) (c, hs) \<longleftrightarrow> distinct leaves \<and> set leaves = evictable_leaves c"
| "allowed (Reset now) (c, hs) \<longleftrightarrow> hs = {#}"

lemma apply_op_ok:
  assumes ok: "radix_ok c hs" "\<not> disable c" and allowed: "allowed op (c, hs)"
  shows "\<exists>c' hs'. apply_op op (c, hs) = Some (Inr (c', hs')) \<and> radix_ok c' hs' \<and> settings c' = settings c"
proof -
  obtain L F V where inv: "radix_inv c L F V hs" and tree: "tree_ok c L F V" by (rule radix_okD [OF ok(1)])
  show ?thesis
  proof (cases op)
    case (Match now k)
    obtain n c' L' F' V' where "match_prefix now k c = Some (Inr ((V' n, n), c'))" "radix_inv c' L' F' V' hs" "grown c L F V c' L' F' V'"
      using match_prefix_inv [OF inv ok(2)] by blast
    then show ?thesis using Match by (auto simp: radix_ok_def grown_def)
  next
    case (Insert now k v prio chunked)
    obtain m c' L' F' V' where "insert_key now k v prio chunked c = Some (Inr (m, c'))"
      "inserted c L F V hs (key_path c k) (cache_values c k v) m c' L' F' V'"
      using insert_key_inv [OF inv ok(2)] allowed Insert by fastforce
    then show ?thesis using Insert by (auto simp: radix_ok_def inserted_def)
  next
    case (Lock n)
    then have "n \<in> L" using allowed live_eq [OF tree] by simp
    then show ?thesis using inc_lock_ok [OF inv _ ok(2), of n] Lock unfolding radix_ok_def by fastforce
  next
    case (Unlock n)
    then have "radix_inv c L F V (add_mset n (hs - {#n#}))" using inv allowed by simp
    then show ?thesis using dec_lock_ok [OF _ ok(2)] Unlock by (fastforce simp: radix_ok_def)
  next
    case (Evict num leaves)
    then obtain xs k c' L' where "evict_leaves num leaves c = Some (Inr (k, c'))" "radix_inv c' L' F V hs" "settings c' = settings c"
      using evict_leaves_inv [OF inv ok(2), of leaves num] allowed by auto
    then show ?thesis using Evict by (auto simp: radix_ok_def)
  next
    case (Reset now)
    have "radix_ok (reset_cache now c) hs" using radix_reset_ok [OF tree_okD(1) [OF tree]] allowed Reset by simp
    then show ?thesis using Reset by (simp add: reset_settings)
  qed
qed

fun run_ops :: "radix_op list \<Rightarrow> radix_cache \<times> nat multiset \<Rightarrow> (py_error + radix_cache \<times> nat multiset) option" where
  "run_ops [] s = Some (Inr s)"
| "run_ops (op # ops) s = (case apply_op op s of None \<Rightarrow> None | Some (Inl e) \<Rightarrow> Some (Inl e) | Some (Inr s') \<Rightarrow> run_ops ops s')"

fun permitted :: "radix_op list \<Rightarrow> radix_cache \<times> nat multiset \<Rightarrow> bool" where
  "permitted [] s \<longleftrightarrow> True"
| "permitted (op # ops) s \<longleftrightarrow> allowed op s \<and> (case apply_op op s of Some (Inr s') \<Rightarrow> permitted ops s' | _ \<Rightarrow> True)"

lemma run_ops_ok:
  "radix_ok c hs \<Longrightarrow> \<not> disable c \<Longrightarrow> permitted ops (c, hs) \<Longrightarrow>
   \<exists>c' hs'. run_ops ops (c, hs) = Some (Inr (c', hs')) \<and> radix_ok c' hs' \<and> settings c' = settings c"
proof (induction ops arbitrary: c hs)
  case (Cons op ops)
  then obtain c1 hs1 where s: "apply_op op (c, hs) = Some (Inr (c1, hs1))" "radix_ok c1 hs1" "settings c1 = settings c"
    using apply_op_ok by (metis permitted.simps(2))
  then show ?case using Cons.IH [OF s(2)] Cons.prems settings_sel(1) [OF s(3)] by simp
qed simp

end
