(* ===== verification/RadixReq.thy ===== *)
theory RadixReq
  imports RadixRun
begin

text \<open>
  How SGLang's requests use the radix cache: \<open>cache_unfinished_req\<close>, \<open>cache_finished_req\<close> and \<open>release_kv_cache\<close>
  move the KV slots of a request into the tree and free the duplicates, \<open>TokenToKVPoolAllocator\<close> hands slots
  out (\<open>mem_cache/allocator/token.py\<close>, \<open>base.py\<close>) and \<open>alloc_token_slots\<close> evicts when too few are left
  (\<open>mem_cache/common.py\<close>). A row of \<open>req_to_token\<close> is a list; the calls of \<open>free\<close> that an operation of the
  cache makes reach the allocator when the operation ends.
\<close>

declare map_of_eq_Some_iff [simp del]

section \<open>The allocator of slots\<close>

record token_allocator =
  alloc_size :: nat
  need_sort :: bool
  free_pages :: "int list"
  release_pages :: "int list"
  is_not_in_free_group :: bool
  free_group :: "int list list"

definition allocator_clear :: "token_allocator \<Rightarrow> token_allocator" where
  "allocator_clear a = a\<lparr>free_pages := map int [1..<Suc (alloc_size a)], is_not_in_free_group := True, free_group := [], release_pages := []\<rparr>"

definition allocator_init :: "nat \<Rightarrow> bool \<Rightarrow> token_allocator" where
  "allocator_init n sorted_pages = allocator_clear
     \<lparr>alloc_size = n, need_sort = sorted_pages, free_pages = [], release_pages = [], is_not_in_free_group = True, free_group = []\<rparr>"

definition available_size :: "token_allocator \<Rightarrow> nat" where
  "available_size a = length (free_pages a) + length (release_pages a)"

definition merge_and_sort_free :: "token_allocator \<Rightarrow> token_allocator" where
  "merge_and_sort_free a =
     (if 0 < length (release_pages a) then a\<lparr>free_pages := sort (free_pages a @ release_pages a), release_pages := []\<rparr> else a)"

definition allocator_alloc :: "nat \<Rightarrow> token_allocator \<Rightarrow> int list option \<times> token_allocator" where
  "allocator_alloc need a =
     (let a = (if need_sort a \<and> length (free_pages a) < need then merge_and_sort_free a else a) in
      if length (free_pages a) < need then (None, a)
      else (Some (take need (free_pages a)), a\<lparr>free_pages := drop need (free_pages a)\<rparr>))"

definition allocator_free :: "int list \<Rightarrow> token_allocator \<Rightarrow> token_allocator" where
  "allocator_free idx a =
     (if idx = [] then a
      else if is_not_in_free_group a
      then (if need_sort a then a\<lparr>release_pages := release_pages a @ idx\<rparr> else a\<lparr>free_pages := free_pages a @ idx\<rparr>)
      else a\<lparr>free_group := free_group a @ [idx]\<rparr>)"

definition free_group_begin :: "token_allocator \<Rightarrow> token_allocator" where
  "free_group_begin a = a\<lparr>is_not_in_free_group := False, free_group := []\<rparr>"

definition free_group_end :: "token_allocator \<Rightarrow> token_allocator" where
  "free_group_end a =
     (let a = a\<lparr>is_not_in_free_group := True\<rparr> in if free_group a \<noteq> [] then allocator_free (concat (free_group a)) a else a)"

definition backup_state :: "token_allocator \<Rightarrow> int list \<times> int list" where
  "backup_state a = (free_pages a, release_pages a)"

definition restore_state :: "int list \<times> int list \<Rightarrow> token_allocator \<Rightarrow> token_allocator" where
  "restore_state s a = a\<lparr>free_pages := fst s, release_pages := snd s\<rparr>"

section \<open>Requests\<close>

record radix_req =
  origin_input_ids :: "int list"
  output_ids :: "int list"
  full_untruncated_fill_ids :: "int list"
  fill_len :: nat
  req_extra_key :: "string option"
  req_priority :: "int option"
  req_pool_idx :: "nat option"
  prefix_indices :: "int list"
  last_node :: "nat option"
  cache_protected_len :: nat
  kv_committed_len :: nat
  kv_allocated_len :: nat
  kv_committed_freed :: bool
  kv_overallocated_freed :: bool
  reasoning_tokens :: nat
  extend_input_len :: nat
  inflight_middle_chunks :: nat
  is_retracted :: bool
  return_logprob :: bool
  logprob_start_len :: int
  max_new_tokens :: nat
  to_finish :: bool
  req_finished :: bool

definition get_fill_ids :: "radix_req \<Rightarrow> int list" where
  "get_fill_ids r = take (fill_len r) (full_untruncated_fill_ids r)"

text \<open>\<open>stripped\<close> is the server argument \<open>strip_thinking_cache\<close>.\<close>

definition cache_commit_len :: "bool \<Rightarrow> radix_req \<Rightarrow> nat" where
  "cache_commit_len stripped r =
     (if stripped \<and> 0 < reasoning_tokens r then min (kv_committed_len r) (length (origin_input_ids r)) else kv_committed_len r)"

definition pop_committed_kv_cache :: "bool \<Rightarrow> radix_req \<Rightarrow> py_error + nat \<times> radix_req" where
  "pop_committed_kv_cache stripped r =
     (if kv_committed_freed r then Inl AssertionError
      else Inr (cache_commit_len stripped r, r\<lparr>kv_committed_freed := True\<rparr>))"

definition pop_overallocated_kv_cache :: "bool \<Rightarrow> radix_req \<Rightarrow> py_error + (nat \<times> nat) \<times> radix_req" where
  "pop_overallocated_kv_cache stripped r =
     (if kv_overallocated_freed r then Inl AssertionError
      else Inr ((cache_commit_len stripped r, kv_allocated_len r), r\<lparr>kv_overallocated_freed := True\<rparr>))"

definition cache_free :: "int list \<Rightarrow> radix_cache \<Rightarrow> radix_cache" where
  "cache_free idx c = c\<lparr>frees := frees c @ [idx]\<rparr>"

text \<open>\<open>xs[i:j]\<close>\<close>

definition span :: "nat \<Rightarrow> nat \<Rightarrow> 'a list \<Rightarrow> 'a list" where
  "span i j xs = take (j - i) (drop i xs)"

text \<open>\<open>getattr(req, "priority", 0) or 0\<close>\<close>

definition priority_or_zero :: "radix_req \<Rightarrow> int" where
  "priority_or_zero r = (case req_priority r of Some p \<Rightarrow> p | None \<Rightarrow> 0)"

type_synonym kv_rows = "nat \<Rightarrow> int list"

text \<open>The row of a request; the tensor is indexed with \<open>None\<close> only when the request has no slot.\<close>

definition req_row :: "kv_rows \<Rightarrow> radix_req \<Rightarrow> int list" where
  "req_row rows r = (case req_pool_idx r of Some i \<Rightarrow> rows i | None \<Rightarrow> [])"

definition release_lock :: "nat option \<Rightarrow> radix_cache \<Rightarrow> (py_error + int \<times> radix_cache) option" where
  "release_lock n c = (case n of Some n \<Rightarrow> dec_lock_ref n c | None \<Rightarrow> if disable c then Some (Inr (0, c)) else Some (Inl AttributeError))"

section \<open>A finished request\<close>

definition cache_finished_req ::
    "real \<Rightarrow> bool \<Rightarrow> kv_rows \<Rightarrow> bool \<Rightarrow> radix_req \<Rightarrow> radix_cache \<Rightarrow> (py_error + radix_req \<times> radix_cache) option" where
  "cache_finished_req now stripped rows is_insert r c =
     (let is_insert = (if disable_finished_insert c then False else is_insert) in
      case pop_committed_kv_cache stripped r of
        Inl e \<Rightarrow> Some (Inl e)
      | Inr (committed, r) \<Rightarrow>
          if disable c then Some (Inr (r, cache_free (take committed (req_row rows r)) c))
          else
            let token_ids = take committed (origin_input_ids r @ output_ids r);
                kv_indices = take (length token_ids) (req_row rows r);
                k = page_aligned (page_size c) (raw_key token_ids (req_extra_key r) (is_eagle c));
                values' = take (key_len k) kv_indices
            in
            case (if is_insert
                  then (case insert_key now k (Some values') (Some (priority_or_zero r)) False c of
                          None \<Rightarrow> None
                        | Some (Inl e) \<Rightarrow> Some (Inl e)
                        | Some (Inr (prefix_len, c)) \<Rightarrow> Some (Inr (cache_free (span (cache_protected_len r) prefix_len kv_indices) c)))
                  else Some (Inr (cache_free (span (cache_protected_len r) (key_len k) kv_indices) c))) of
              None \<Rightarrow> None
            | Some (Inl e) \<Rightarrow> Some (Inl e)
            | Some (Inr c) \<Rightarrow>
                let c = cache_free (drop (key_len k) kv_indices) c in
                case last_node r of
                  None \<Rightarrow> Some (Inr (r, c))
                | Some n \<Rightarrow>
                    (case dec_lock_ref n c of
                       None \<Rightarrow> None
                     | Some (Inl e) \<Rightarrow> Some (Inl e)
                     | Some (Inr (_, c)) \<Rightarrow> Some (Inr (r, c))))"

section \<open>An unfinished request\<close>

text \<open>\<open>req_to_token_pool.write((idx, slice(i, j)), vs)\<close>: the row is as long as the context.\<close>

definition write_row :: "nat \<Rightarrow> nat \<Rightarrow> nat \<Rightarrow> int list \<Rightarrow> kv_rows \<Rightarrow> kv_rows" where
  "write_row idx i j vs rows = (if i < j then rows(idx := take i (rows idx) @ vs @ drop j (rows idx)) else rows)"

definition cache_unfinished_req ::
    "real \<Rightarrow> bool \<Rightarrow> radix_req \<Rightarrow> radix_cache \<times> kv_rows \<Rightarrow> (py_error + radix_req \<times> radix_cache \<times> kv_rows) option" where
  "cache_unfinished_req now chunked r s =
     (let (c, rows) = s in
      if disable c then Some (Inr (r, c, rows))
      else
        let token_ids = get_fill_ids r;
            kv_indices = take (length token_ids) (req_row rows r);
            k = page_aligned (page_size c) (raw_key token_ids (req_extra_key r) (is_eagle c))
        in
        case insert_key now k (Some (take (key_len k) kv_indices)) (Some (priority_or_zero r)) chunked c of
          None \<Rightarrow> None
        | Some (Inl e) \<Rightarrow> Some (Inl e)
        | Some (Inr (new_prefix_len, c)) \<Rightarrow>
            let c = cache_free (span (cache_protected_len r) new_prefix_len kv_indices) c in
            case match_prefix now k c of
              None \<Rightarrow> None
            | Some (Inl e) \<Rightarrow> Some (Inl e)
            | Some (Inr ((new_indices, new_last_node), c)) \<Rightarrow>
                if length new_indices \<noteq> key_len k then Some (Inl AssertionError)
                else
                  let rows = (case req_pool_idx r of
                        Some i \<Rightarrow> write_row i (cache_protected_len r) (length new_indices) (drop (cache_protected_len r) new_indices) rows
                      | None \<Rightarrow> rows);
                      p = length new_indices
                  in
                  case release_lock (last_node r) c of
                    None \<Rightarrow> None
                  | Some (Inl e) \<Rightarrow> Some (Inl e)
                  | Some (Inr (_, c)) \<Rightarrow>
                      (case inc_lock_ref new_last_node c of
                         None \<Rightarrow> None
                       | Some (Inl e) \<Rightarrow> Some (Inl e)
                       | Some (Inr (_, c)) \<Rightarrow>
                           Some (Inr (r\<lparr>cache_protected_len := p,
                               prefix_indices := (if p < length kv_indices then new_indices @ drop p kv_indices else new_indices),
                               last_node := Some new_last_node\<rparr>, c, rows))))"

section \<open>Allocation with eviction\<close>

text \<open>The cache and its allocator; \<open>deliver\<close> hands the freed slots over.\<close>

definition deliver :: "radix_cache \<times> token_allocator \<Rightarrow> radix_cache \<times> token_allocator" where
  "deliver s = (let (c, a) = s in (c\<lparr>frees := []\<rparr>, fold allocator_free (frees c) a))"

definition evict_from_tree_cache ::
    "nat \<Rightarrow> nat list \<Rightarrow> radix_cache \<times> token_allocator \<Rightarrow> (py_error + radix_cache \<times> token_allocator) option" where
  "evict_from_tree_cache num_tokens leaves s =
     (let (c, a) = s in
      if available_size a < num_tokens
      then map_option (map_sum id (\<lambda>(_, c). deliver (c, a))) (evict_leaves num_tokens leaves c)
      else Some (Inr (c, a)))"

definition alloc_token_slots ::
    "nat \<Rightarrow> nat list \<Rightarrow> radix_cache \<times> token_allocator \<Rightarrow> (py_error + int list \<times> radix_cache \<times> token_allocator) option" where
  "alloc_token_slots num_tokens leaves s =
     (case evict_from_tree_cache num_tokens leaves s of
        None \<Rightarrow> None
      | Some (Inl e) \<Rightarrow> Some (Inl e)
      | Some (Inr (c, a)) \<Rightarrow>
          (case allocator_alloc num_tokens a of
             (None, a) \<Rightarrow> Some (Inl RuntimeError)
           | (Some locs, a) \<Rightarrow> Some (Inr (locs, c, a))))"

end
