(* ===== verification/RadixUse.thy ===== *)
theory RadixUse
  imports RadixReq
begin

text \<open>
  The slots of SGLang's KV cache are conserved: those a request gives to the radix cache are afterwards in the
  tree or freed, each once, and those the allocator hands out were free or evicted. A request keeps the
  handle that protects the slots it shares with the tree.
\<close>

declare map_of_eq_Some_iff [simp del]

section \<open>What the cache expects of an allocator\<close>

text \<open>The cache and its users give slots back through \<open>free\<close> only. They rely on its keeping the slots, on its being
  ready again, and on the number of slots that can then be handed out.\<close>

locale slot_pool =
  fixes give_back :: "'s list \<Rightarrow> 'a \<Rightarrow> 'a" and slots :: "'a \<Rightarrow> 's multiset" and ready :: "'a \<Rightarrow> bool" and avail :: "'a \<Rightarrow> nat"
  assumes give_back_slots: "slots (give_back idx a) = slots a + mset idx"
    and give_back_ready: "ready a \<Longrightarrow> ready (give_back idx a)"
    and give_back_avail: "ready a \<Longrightarrow> avail (give_back idx a) = avail a + length idx"
begin

lemma all_slots: "slots (fold give_back fs a) = slots a + mset (concat fs)"
  by (induction fs arbitrary: a) (simp_all add: give_back_slots)

lemma all_avail: "ready a \<Longrightarrow> ready (fold give_back fs a) \<and> avail (fold give_back fs a) = avail a + length (concat fs)"
  by (induction fs arbitrary: a) (simp_all add: give_back_ready give_back_avail)

end

section \<open>The allocator\<close>

definition allocator_slots :: "token_allocator \<Rightarrow> int multiset" where
  "allocator_slots a = mset (free_pages a) + mset (release_pages a) +
     (if is_not_in_free_group a then {#} else mset (concat (free_group a)))"

text \<open>Only an allocator that sorts keeps released pages apart; between two calls no group is open.\<close>

definition allocator_ready :: "token_allocator \<Rightarrow> bool" where
  "allocator_ready a \<longleftrightarrow> is_not_in_free_group a \<and> (need_sort a \<or> release_pages a = [])"

lemma allocator_init_ready: "allocator_ready (allocator_init n s)" "available_size (allocator_init n s) = n"
  by (simp_all add: allocator_ready_def allocator_init_def allocator_clear_def available_size_def)

lemma allocator_free_slots: "allocator_slots (allocator_free idx a) = allocator_slots a + mset idx"
  by (simp add: allocator_slots_def allocator_free_def)

lemma allocator_free_ready:
  assumes "allocator_ready a"
  shows "allocator_ready (allocator_free idx a)" "available_size (allocator_free idx a) = available_size a + length idx"
  using assms by (auto simp: allocator_ready_def allocator_free_def available_size_def)

interpretation tokens: slot_pool allocator_free allocator_slots allocator_ready available_size
  by unfold_locales (simp_all add: allocator_free_slots allocator_free_ready)

lemma merge_free:
  "allocator_slots (merge_and_sort_free a) = allocator_slots a" "available_size (merge_and_sort_free a) = available_size a"
  "release_pages (merge_and_sort_free a) = []" "is_not_in_free_group (merge_and_sort_free a) = is_not_in_free_group a"
  "need_sort (merge_and_sort_free a) = need_sort a"
  by (auto simp: merge_and_sort_free_def allocator_slots_def available_size_def)

lemma allocator_alloc_ok:
  assumes "allocator_ready a" "need \<le> available_size a"
  shows "\<exists>locs a'. allocator_alloc need a = (Some locs, a') \<and> length locs = need \<and> allocator_ready a' \<and>
    allocator_slots a = allocator_slots a' + mset locs \<and> available_size a' = available_size a - need"
proof -
  let ?b = "if need_sort a \<and> length (free_pages a) < need then merge_and_sort_free a else a"
  have b: "allocator_slots ?b = allocator_slots a" "available_size ?b = available_size a" "allocator_ready ?b"
    using assms(1) by (auto simp: merge_free allocator_ready_def)
  have enough: "need \<le> length (free_pages ?b)"
    using assms merge_free(2,3) [of a] by (auto simp: allocator_ready_def available_size_def)
  let ?a = "?b\<lparr>free_pages := drop need (free_pages ?b)\<rparr>"
  have "allocator_alloc need a = (Some (take need (free_pages ?b)), ?a)"
    using enough by (simp add: allocator_alloc_def Let_def del: if_split)
  moreover have "allocator_slots ?b = allocator_slots ?a + mset (take need (free_pages ?b))"
  proof -
    have "mset (free_pages ?b) = mset (take need (free_pages ?b)) + mset (drop need (free_pages ?b))"
      by (metis append_take_drop_id mset_append)
    then show ?thesis by (simp add: allocator_slots_def)
  qed
  moreover have "allocator_ready ?a" "available_size ?a = available_size ?b - need"
    using b(3) enough by (simp_all add: allocator_ready_def available_size_def)
  ultimately show ?thesis using enough b(1,2) by (intro exI [of _ "take need (free_pages ?b)"] exI [of _ ?a]) simp
qed

lemma allocator_alloc_none:
  assumes "available_size a < need"
  shows "\<exists>a'. allocator_alloc need a = (None, a')"
proof -
  let ?b = "if need_sort a \<and> length (free_pages a) < need then merge_and_sort_free a else a"
  have "length (free_pages ?b) < need" using assms merge_free(2) [of a] by (auto simp: available_size_def)
  then show ?thesis by (simp add: allocator_alloc_def Let_def del: if_split)
qed

section \<open>Allocation with eviction\<close>

lemma reaches_frees: "tree_ok c L F V \<Longrightarrow> tree_ok (c\<lparr>frees := fs\<rparr>) L F V"
  by (simp add: tree_ok_def edge_ok_def children_ok_def)

lemma evict_from_tree_ok:
  assumes inv: "radix_inv c L F V hs" and on: "\<not> disable c" and leaves: "distinct leaves" "set leaves = evictable_leaves c"
    and a: "allocator_ready a" and fresh: "frees c = []"
  shows "\<exists>c' a' L'. evict_from_tree_cache num leaves (c, a) = Some (Inr (c', a')) \<and> radix_inv c' L' F V hs \<and> L' \<subseteq> L \<and>
    frees c' = [] \<and> settings c' = settings c \<and> allocator_ready a' \<and>
    tree_slots c' + allocator_slots a' = tree_slots c + allocator_slots a \<and>
    int (available_size a') + evictable_size c' = int (available_size a) + evictable_size c \<and>
    (num \<le> available_size a' \<or> evictable_size c' = 0)"
proof (cases "available_size a < num")
  case False
  then show ?thesis using inv a fresh
    by (intro exI [of _ c] exI [of _ a] exI [of _ L]) (simp add: evict_from_tree_cache_def)
next
  case True
  obtain xs k c' L' fs where r: "evict_leaves num leaves c = Some (Inr (k, c'))" "radix_inv c' L' F V hs" "L' \<subseteq> L" "settings c' = settings c"
    "evictable_size c' = evictable_size c - int k" "frees c' = frees c @ fs" "length (concat fs) = k"
    "tree_slots c = tree_slots c' + mset (concat fs)" "num \<le> k \<or> evictable_size c' = 0"
    using evict_leaves_inv [OF inv on leaves, of num] by blast
  let ?c = "c'\<lparr>frees := []\<rparr>" and ?a = "fold allocator_free fs a"
  have "tree_ok c' L' F V" using r(2) by (simp add: radix_inv_def)
  then have "tree_slots ?c = tree_slots c'" using tree_slots_eq reaches_frees by (simp add: tree_slots_eq [OF reaches_frees] tree_slots_eq node_slots_def)
  moreover have "evict_from_tree_cache num leaves (c, a) = Some (Inr (?c, ?a))"
    using True r(1,6) fresh by (simp add: evict_from_tree_cache_def deliver_def)
  ultimately show ?thesis
    using r tokens.all_slots [of fs a] tokens.all_avail [OF a, of fs]
    by (intro exI [of _ ?c] exI [of _ ?a] exI [of _ L']) (auto simp: ac_simps)
qed

section \<open>Keys of requests\<close>

definition req_key :: "radix_cache \<Rightarrow> radix_req \<Rightarrow> int list \<Rightarrow> radix_key" where
  "req_key c r toks = page_aligned (page_size c) (raw_key toks (req_extra_key r) (is_eagle c))"

lemma req_key_path:
  assumes "0 < page_size c"
  shows "page_size c dvd key_len (req_key c r toks)" "key_len (req_key c r toks) \<le> length toks"
    "key_path c (req_key c r toks) = lunits (req_key c r toks)" "key_len (cache_key c (req_key c r toks)) = key_len (req_key c r toks)"
    "cache_values c (req_key c r toks) (Some v) = take (key_len (req_key c r toks)) v"
proof -
  let ?k = "req_key c r toks"
  show al: "page_size c dvd key_len ?k" using assms by (simp add: req_key_def page_aligned_len)
  have "key_len (raw_key toks (req_extra_key r) (is_eagle c)) \<le> length toks" by (simp add: key_len_def)
  then show "key_len ?k \<le> length toks" using assms by (simp add: req_key_def page_aligned_len) (meson div_times_less_eq_dividend le_trans)
  have view: "maybe_to_bigram_view (is_eagle c) w ?k = (?k, w)" for w :: "int list option"
    by (simp add: maybe_to_bigram_view_def req_key_def)
  have full: "key_len ?k div page_size c * page_size c = key_len ?k" using al by simp
  then show path: "key_path c ?k = lunits ?k" using assms by (simp add: cache_key_def view lunits_aligned)
  then show len: "key_len (cache_key c ?k) = key_len ?k" by (metis length_lunits)
  show "cache_values c ?k (Some v) = take (key_len ?k) v" using len by (simp add: cache_values_def view)
qed

section \<open>A request that shares its prefix with the tree\<close>

text \<open>The first \<open>cache_protected_len\<close> slots of the row are those of the path to the node the request holds.\<close>

definition shares :: "radix_cache \<Rightarrow> radix_req \<Rightarrow> int list \<Rightarrow> lunit list \<Rightarrow> nat \<Rightarrow> bool" where
  "shares c r row U n \<longleftrightarrow> last_node r = Some n \<and>
     (\<exists>us. reaches c n us (take (cache_protected_len r) row) \<and> length us = cache_protected_len r \<and> prefix us U)"

lemma span_split: "i \<le> m \<Longrightarrow> m \<le> length xs \<Longrightarrow> mset (span i m xs) + mset (drop m xs) = mset (drop i xs)"
proof -
  assume "i \<le> m" "m \<le> length xs"
  then have "span i m xs @ drop m xs = drop i xs"
    unfolding span_def by (metis append_take_drop_id drop_drop le_add_diff_inverse2)
  then show ?thesis by (metis mset_append)
qed

lemma drop_take_split: "m \<le> k \<Longrightarrow> k \<le> length xs \<Longrightarrow> mset (drop m (take k xs)) + mset (drop k xs) = mset (drop m xs)"
  using span_split [of m k xs] by (simp add: span_def drop_take)

text \<open>What the insertion of a request's slots gives: the cached part covers the shared one.\<close>

lemma insert_request:
  assumes inv: "radix_inv c L F V hs" and on: "\<not> disable c" and sh: "shares c r row U n"
    and U: "U = lunits (req_key c r toks)" and len: "length toks \<le> length row"
  obtains m c1 L1 F1 V1 where
    "insert_key now (req_key c r toks) (Some (take (key_len (req_key c r toks)) (take (length toks) row))) prio chunked c = Some (Inr (m, c1))"
    "inserted c L F V hs U (take (length U) row) m c1 L1 F1 V1" "cache_protected_len r \<le> m" "m \<le> length U" "length U \<le> length toks"
    "take (length U) (take (length toks) row) = take (length U) row"
proof -
  let ?k = "req_key c r toks"
  have tree: "tree_ok c L F V" using inv by (simp add: radix_inv_def)
  note kp = req_key_path [OF tree_okD(1) [OF tree], of r toks]
  have le: "length U \<le> length toks" using kp(2) U by simp
  then have tk: "take (length U) (take (length toks) row) = take (length U) row" by (simp add: min_def)
  have vals: "cache_values c ?k (Some (take (key_len ?k) (take (length toks) row))) = take (length U) row"
    using kp(5) [of "take (key_len ?k) (take (length toks) row)"] U tk by simp
  then obtain m c1 L1 F1 V1 where r: "insert_key now ?k (Some (take (key_len ?k) (take (length toks) row))) prio chunked c = Some (Inr (m, c1))"
    "inserted c L F V hs (key_path c ?k) (take (length U) row) m c1 L1 F1 V1"
    using insert_key_inv [OF inv on, of ?k "Some (take (key_len ?k) (take (length toks) row))" now prio chunked] kp(2,4) len U by auto
  have ins: "inserted c L F V hs U (take (length U) row) m c1 L1 F1 V1" using r(2) kp(3) U by simp
  then have m: "m \<le> length U" "longest (page_size c) L F U (take m U)" by (simp_all add: inserted_def)
  obtain us where us: "reaches c n us (take (cache_protected_len r) row)" "length us = cache_protected_len r" "prefix us U"
    using sh by (auto simp: shares_def)
  then have "n \<in> L" "us = F n" using reaches_iff [OF tree] by simp_all
  then have "length us \<le> length (take m U)"
    using m(2) us(3) tree_lengths [OF tree, of n] unfolding longest_def by blast
  then have pm: "cache_protected_len r \<le> m" using us(2) by simp
  show thesis by (rule that [OF r(1) ins pm m(1) le tk])
qed

lemma cache_free_sel [simp]:
  "radix_inv (cache_free idx c) L F V hs \<longleftrightarrow> radix_inv c L F V hs" "settings (cache_free idx c) = settings c"
  "frees (cache_free idx c) = frees c @ [idx]" "disable (cache_free idx c) = disable c" "page_size (cache_free idx c) = page_size c"
  "root_node (cache_free idx c) = root_node c"
  by (simp_all add: cache_free_def)

lemma cache_free_slots:
  assumes "radix_inv c L F V hs"
  shows "tree_slots (cache_free idx c) = tree_slots c"
proof -
  have "tree_ok c L F V" using assms by (simp add: radix_inv_def)
  then show ?thesis using tree_slots_eq [OF reaches_frees] tree_slots_eq [of c L F V] by (simp add: cache_free_def node_slots_def)
qed

section \<open>A finished request\<close>

text \<open>The handle is returned; every slot of the request past the shared ones is afterwards in the tree or freed.\<close>

lemma finished_inv:
  assumes inv: "radix_inv c L F V (add_mset n hs)" and on: "\<not> disable c" and unfreed: "\<not> kv_committed_freed r"
    and toks: "toks = take (cache_commit_len stripped r) (origin_input_ids r @ output_ids r)"
    and sh: "shares c r (req_row rows r) (lunits (req_key c r toks)) n" and len: "length toks \<le> length (req_row rows r)"
  shows "\<exists>c' L' F' V' fs. cache_finished_req now stripped rows is_insert r c = Some (Inr (r\<lparr>kv_committed_freed := True\<rparr>, c')) \<and>
    radix_inv c' L' F' V' hs \<and> L \<subseteq> L' \<and> (\<forall>x\<in>L. F' x = F x \<and> V' x = V x) \<and>
    frees c' = frees c @ fs \<and> settings c' = settings c \<and>
    tree_slots c' + mset (concat fs) = tree_slots c + mset (drop (cache_protected_len r) (take (length toks) (req_row rows r)))"
proof -
  let ?k = "req_key c r toks" and ?row = "req_row rows r" and ?r = "r\<lparr>kv_committed_freed := True\<rparr>"
  let ?U = "lunits ?k" and ?kv = "take (length toks) (req_row rows r)" and ?p = "cache_protected_len r"
  define b where "b = (if disable_finished_insert c then False else is_insert)"
  have tree: "tree_ok c L F V" using inv by (simp add: radix_inv_def)
  have same: "req_row rows ?r = ?row" "cache_protected_len ?r = ?p" "priority_or_zero ?r = priority_or_zero r" "last_node ?r = Some n"
    using sh by (simp_all add: req_row_def priority_or_zero_def shares_def)
  obtain m c1 L1 F1 V1 where ins:
    "insert_key now ?k (Some (take (key_len ?k) ?kv)) (Some (priority_or_zero r)) False c = Some (Inr (m, c1))"
    "inserted c L F V (add_mset n hs) ?U (take (length ?U) ?row) m c1 L1 F1 V1" "?p \<le> m" "m \<le> length ?U" "length ?U \<le> length toks"
    "take (length ?U) ?kv = take (length ?U) ?row"
    by (rule insert_request [OF inv on sh refl len])
  let ?free = "span ?p (if b then m else key_len ?k) ?kv"
  let ?c1 = "if b then c1 else c"
  let ?c2 = "cache_free (drop (key_len ?k) ?kv) (cache_free ?free ?c1)"
  have "radix_inv c1 L1 F1 V1 (add_mset n hs)" "L \<subseteq> L1 \<and> (\<forall>x\<in>L. F1 x = F x \<and> V1 x = V x)"
    using ins(2) by (simp_all add: inserted_def)
  then have "\<exists>L2 F2 V2. radix_inv ?c1 L2 F2 V2 (add_mset n hs) \<and> L \<subseteq> L2 \<and> (\<forall>x\<in>L. F2 x = F x \<and> V2 x = V x)"
    using inv by (cases b) auto
  then obtain L2 F2 V2 where inv1: "radix_inv ?c1 L2 F2 V2 (add_mset n hs)" and old: "L \<subseteq> L2" "\<forall>x\<in>L. F2 x = F x \<and> V2 x = V x"
    by blast
  then have inv2: "radix_inv ?c2 L2 F2 V2 (add_mset n hs)" by simp
  have on2: "settings ?c2 = settings c" "frees ?c2 = frees c @ [?free, drop (key_len ?k) ?kv]"
    using ins(2) by (simp_all add: inserted_def)
  then have "\<not> disable ?c2" using on by (simp add: settings_def)
  then obtain c3 where c3: "dec_lock_ref n ?c2 = Some (Inr (evictable_size c3 - evictable_size ?c2, c3))" "radix_inv c3 L2 F2 V2 hs"
    "settings c3 = settings ?c2" "frees c3 = frees ?c2" "tree_slots c3 = tree_slots ?c2"
    using dec_lock_ok [OF inv2] by blast
  have "cache_finished_req now stripped rows is_insert r c = Some (Inr (?r, c3))"
    using unfreed on ins(1) c3(1) same
    by (cases b) (simp_all add: cache_finished_req_def pop_committed_kv_cache_def Let_def req_key_def del: take_append flip: b_def toks)
  moreover have "tree_slots c3 + mset (?free @ drop (key_len ?k) ?kv) = tree_slots c + mset (drop ?p ?kv)"
  proof -
    have "tree_slots c3 = tree_slots ?c1" using c3(5) cache_free_slots inv1 by simp
    moreover have "tree_slots ?c1 = tree_slots c + mset (if b then drop m (take (length ?U) ?row) else [])"
      using ins(2) by (simp add: inserted_def)
    moreover have "mset (if b then drop m (take (length ?U) ?row) else []) + mset (?free @ drop (key_len ?k) ?kv) = mset (drop ?p ?kv)"
    proof (cases b)
      case True
      have a: "mset (drop m (take (length ?U) ?kv)) + mset (drop (length ?U) ?kv) = mset (drop m ?kv)"
        using ins(4,5) len by (intro drop_take_split) auto
      have "mset (span ?p m ?kv) + mset (drop m ?kv) = mset (drop ?p ?kv)" using ins(3-5) len by (intro span_split) auto
      then have "mset (drop ?p ?kv) = mset (drop m (take (length ?U) ?row)) + (mset (span ?p m ?kv) + mset (drop (length ?U) ?kv))"
        unfolding a [symmetric] ins(6) by (simp only: ac_simps)
      then show ?thesis using True by simp
    next
      case False
      have "mset (span ?p (key_len ?k) ?kv) + mset (drop (key_len ?k) ?kv) = mset (drop ?p ?kv)"
        using ins(3-5) len by (intro span_split) auto
      then show ?thesis using False by simp
    qed
    ultimately show ?thesis by (metis add.assoc)
  qed
  moreover have "frees c3 = frees c @ [?free, drop (key_len ?k) ?kv]" using c3(4) on2(2) by simp
  ultimately show ?thesis
    using c3(2,3) on2(1) old by (intro exI [of _ c3] exI [of _ L2] exI [of _ F2] exI [of _ V2] exI [of _ "[?free, drop (key_len ?k) ?kv]"]) simp
qed

section \<open>An unfinished request\<close>

text \<open>The request now shares its whole page-aligned prefix and holds the node that protects it.\<close>

lemma unfinished_inv:
  assumes inv: "radix_inv c L F V (add_mset n hs)" and on: "\<not> disable c" and idx: "req_pool_idx r = Some i"
    and toks: "toks = get_fill_ids r"
    and sh: "shares c r (rows i) (lunits (req_key c r toks)) n" and len: "length toks \<le> length (rows i)"
  shows "\<exists>r' n' c' rows' L' F' V' fs. cache_unfinished_req now chunked r (c, rows) = Some (Inr (r', c', rows')) \<and>
    radix_inv c' L' F' V' (add_mset n' hs) \<and> L \<subseteq> L' \<and> (\<forall>x\<in>L. F' x = F x \<and> V' x = V x) \<and>
    settings c' = settings c \<and> frees c' = frees c @ fs \<and>
    r' = r\<lparr>cache_protected_len := cache_protected_len r', prefix_indices := prefix_indices r', last_node := Some n'\<rparr> \<and>
    cache_protected_len r' = key_len (req_key c r toks) \<and> shares c' r' (rows' i) (lunits (req_key c r toks)) n' \<and>
    length (rows' i) = length (rows i) \<and> drop (cache_protected_len r') (rows' i) = drop (cache_protected_len r') (rows i) \<and>
    (\<forall>j. j \<noteq> i \<longrightarrow> rows' j = rows j) \<and> prefix_indices r' = take (length toks) (rows' i) \<and>
    tree_slots c' + mset (concat fs) + mset (drop (cache_protected_len r') (take (length toks) (rows' i))) =
      tree_slots c + mset (drop (cache_protected_len r) (take (length toks) (rows i)))"
proof -
  let ?k = "req_key c r toks" and ?row = "rows i" and ?U = "lunits (req_key c r toks)"
  let ?kv = "take (length toks) (rows i)" and ?p = "cache_protected_len r"
  have tree: "tree_ok c L F V" using inv by (simp add: radix_inv_def)
  have row: "req_row rows r = ?row" using idx by (simp add: req_row_def)
  obtain m c1 L1 F1 V1 where ins:
    "insert_key now ?k (Some (take (key_len ?k) ?kv)) (Some (priority_or_zero r)) chunked c = Some (Inr (m, c1))"
    "inserted c L F V (add_mset n hs) ?U (take (length ?U) ?row) m c1 L1 F1 V1" "?p \<le> m" "m \<le> length ?U" "length ?U \<le> length toks"
    "take (length ?U) ?kv = take (length ?U) ?row"
    by (rule insert_request [OF inv on sh refl len])
  have inv1: "radix_inv c1 L1 F1 V1 (add_mset n hs)" and set1: "settings c1 = settings c" and fr1: "frees c1 = frees c"
    and old1: "L \<subseteq> L1" "\<forall>x\<in>L. F1 x = F x \<and> V1 x = V x" and ts1: "tree_slots c1 = tree_slots c + mset (drop m (take (length ?U) ?row))"
    using ins(2) by (simp_all add: inserted_def)
  obtain x where x: "x \<in> L1" "F1 x = ?U" using ins(2) by (auto simp: inserted_def)
  let ?free = "span ?p m ?kv"
  let ?c1 = "cache_free ?free c1"
  have inv1': "radix_inv ?c1 L1 F1 V1 (add_mset n hs)" and set1': "settings ?c1 = settings c" using inv1 set1 by simp_all
  have on1: "\<not> disable ?c1" and page1: "page_size ?c1 = page_size c" and eagle1: "is_eagle ?c1 = is_eagle c"
    using on settings_sel(1-3) [OF set1'] by simp_all
  have path1: "key_path ?c1 ?k = ?U"
    using req_key_path(3) [OF tree_okD(1) [OF tree], of r toks] page1 eagle1 by (simp add: cache_key_def)
  obtain n' c2 L2 F2 V2 where mt: "match_prefix now ?k ?c1 = Some (Inr ((V2 n', n'), c2))" "radix_inv c2 L2 F2 V2 (add_mset n hs)"
    "grown ?c1 L1 F1 V1 c2 L2 F2 V2" "n' \<in> L2" "prefix (F2 n') ?U" "longest (page_size ?c1) L2 F2 ?U (F2 n')"
    using match_prefix_inv [OF inv1' on1, of now ?k] unfolding path1 by blast
  have tree2: "tree_ok c2 L2 F2 V2" using mt(2) by (simp add: radix_inv_def)
  have old2: "L1 \<subseteq> L2" "\<And>y. y \<in> L1 \<Longrightarrow> F2 y = F1 y \<and> V2 y = V1 y" "settings c2 = settings c" "frees c2 = frees c @ [?free]"
    "tree_slots c2 = tree_slots c1"
    using mt(3) set1' fr1 cache_free_slots [OF inv1] by (auto simp: grown_def)
  have "page_size ?c1 dvd length ?U"
    using req_key_path(1) [OF tree_okD(1) [OF tree], of r toks] page1 by simp
  then have "length ?U \<le> length (F2 n')" using mt(6) x old2(1,2) unfolding longest_def by (metis prefix_order.refl subsetD)
  then have full: "F2 n' = ?U" using mt(5) by (metis prefix_length_prefix prefix_order.antisym prefix_order.refl)
  then have lenV: "length (V2 n') = length ?U" using tree_lengths [OF tree2 mt(4)] by simp
  have n: "n \<in> L" and vs: "V n = take ?p ?row" "F n = take ?p ?U"
    using sh reaches_iff [OF tree] by (auto simp: shares_def prefix_def)
  have pU: "?p \<le> length ?U" using ins(3,4) by linarith
  have Fn: "F2 n = F n" "V2 n = V n" "n \<in> L2" using n old1 old2(1,2) by auto
  then have "prefix (F2 n) (F2 n')" using vs(2) full by (simp add: take_is_prefix)
  then have head: "take ?p ?row = take ?p (V2 n')"
    using values_agree [OF tree2 Fn(3) mt(4)] Fn vs pU by (simp add: min.absorb2)
  let ?rows = "write_row i ?p (length (V2 n')) (drop ?p (V2 n')) rows"
  have rows: "?rows i = V2 n' @ drop (length ?U) ?row"
  proof (cases "?p < length ?U")
    case True
    then show ?thesis using head lenV by (simp add: write_row_def append_take_drop_id flip: append_assoc)
  next
    case False
    then have "?p = length ?U" using pU by simp
    then show ?thesis using head lenV by (simp add: write_row_def) (metis append_take_drop_id)
  qed
  obtain c3 where c3: "dec_lock_ref n c2 = Some (Inr (evictable_size c3 - evictable_size c2, c3))" "radix_inv c3 L2 F2 V2 hs"
    "settings c3 = settings c2" "frees c3 = frees c2" "tree_slots c3 = tree_slots c2"
    using dec_lock_ok [OF mt(2)] settings_sel(1) [OF old2(3)] on by auto
  have on3: "\<not> disable c3" using settings_sel(1) [of c3 c] c3(3) old2(3) on by simp
  obtain c4 where c4: "inc_lock_ref n' c3 = Some (Inr (evictable_size c4 - evictable_size c3, c4))" "radix_inv c4 L2 F2 V2 (add_mset n' hs)"
    "settings c4 = settings c3" "frees c4 = frees c3" "tree_slots c4 = tree_slots c3"
    using inc_lock_ok [OF c3(2) mt(4) on3] by blast
  let ?q = "length (V2 n')"
  let ?r = "r\<lparr>cache_protected_len := ?q, prefix_indices := (if ?q < length ?kv then V2 n' @ drop ?q ?kv else V2 n'), last_node := Some n'\<rparr>"
  have klen: "key_len ?k = length ?U" by simp
  have "cache_unfinished_req now chunked r (c, rows) = Some (Inr (?r, c4, ?rows))"
    using on idx row toks ins(1) mt(1) c3(1) c4(1) lenV sh
    by (simp add: cache_unfinished_req_def Let_def req_key_def release_lock_def shares_def)
  moreover have "shares c4 ?r (?rows i) ?U n'"
    using reaches_iff [of c4 L2 F2 V2 n'] c4(2) mt(4) full rows lenV by (simp add: shares_def radix_inv_def)
  moreover have "tree_slots c4 + mset ?free + mset (drop ?q (take (length toks) (?rows i))) = tree_slots c + mset (drop ?p ?kv)"
  proof -
    have tail: "drop ?q (take (length toks) (?rows i)) = drop (length ?U) ?kv" using rows lenV ins(5) by (simp add: drop_take)
    have a: "mset (drop m (take (length ?U) ?kv)) + mset (drop (length ?U) ?kv) = mset (drop m ?kv)"
      using ins(4,5) len by (intro drop_take_split) auto
    have b: "mset ?free + mset (drop m ?kv) = mset (drop ?p ?kv)" using ins(3-5) len by (intro span_split) auto
    have "tree_slots c4 = tree_slots c + mset (drop m (take (length ?U) ?kv))"
      using c4(5) c3(5) old2(5) ts1 ins(6) by metis
    then have "tree_slots c4 + mset ?free + mset (drop (length ?U) ?kv) =
        tree_slots c + (mset ?free + (mset (drop m (take (length ?U) ?kv)) + mset (drop (length ?U) ?kv)))" by (simp only: ac_simps)
    then show ?thesis unfolding tail a b .
  qed
  moreover have "prefix_indices ?r = take (length toks) (?rows i)"
    using rows lenV ins(5) len by (auto simp: drop_take)
  moreover have "length (?rows i) = length ?row" "drop ?q (?rows i) = drop ?q ?row" "\<forall>j. j \<noteq> i \<longrightarrow> ?rows j = rows j"
    using rows lenV ins(5) len by (auto simp: write_row_def)
  moreover have "L \<subseteq> L2" "\<forall>x\<in>L. F2 x = F x \<and> V2 x = V x" using old1 old2(1,2) by auto
  ultimately show ?thesis
    using c4 c3(3,4) old2(3,4) lenV
    by (intro exI [of _ ?r] exI [of _ n'] exI [of _ c4] exI [of _ ?rows] exI [of _ L2] exI [of _ F2] exI [of _ V2] exI [of _ "[?free]"]) simp
qed

end
