(* ===== verification/RadixProps.thy ===== *)
theory RadixProps
  imports RadixUse
begin

text \<open>
  The properties of SGLang's radix cache, of its use by requests and of the allocation of slots, stated on the
  states of the code: what is cached for a key, which slots the tree holds, what an operation returns.
\<close>

declare map_of_eq_Some_iff [simp del]

section \<open>A small cache\<close>

text \<open>A cache with pages of one token, as created and after the insertion of one key.\<close>

definition demo_empty :: radix_cache where
  "demo_empty = (case init_cache 0 False 1 False False ''lru'' of Inr c \<Rightarrow> c)"

definition demo_cache :: radix_cache where
  "demo_cache = (case insert_key 1 (raw_key [1, 2, 3] None False) None None False demo_empty of Some (Inr (_, c)) \<Rightarrow> c)"

definition demo_matched :: radix_cache where
  "demo_matched = (case match_prefix 2 (raw_key [1, 2, 7] None False) demo_cache of Some (Inr (_, c)) \<Rightarrow> c)"

definition demo_locked :: radix_cache where
  "demo_locked = (case inc_lock_ref 2 demo_matched of Some (Inr (_, c)) \<Rightarrow> c)"

lemma demo_empty_ok: "radix_ok demo_empty {#}" "\<not> disable demo_empty" "page_size demo_empty = 1" "\<not> is_eagle demo_empty"
  "init_cache 0 False 1 False False ''lru'' = Inr demo_empty" "frees demo_empty = []"
proof -
  show init: "init_cache 0 False 1 False False ''lru'' = Inr demo_empty"
    by (simp add: demo_empty_def init_cache_def get_eviction_strategy_def)
  then show "radix_ok demo_empty {#}" "\<not> disable demo_empty" "page_size demo_empty = 1" "\<not> is_eagle demo_empty"
    using init_cache_inv by fastforce+
  show "frees demo_empty = []" by code_simp
qed

lemma demo_insert: "insert_key 1 (raw_key [1, 2, 3] None False) None None False demo_empty = Some (Inr (0, demo_cache))"
proof -
  have "map_option (map_sum id fst) (insert_key 1 (raw_key [1, 2, 3] None False) None None False demo_empty) = Some (Inr 0)"
    by code_simp
  then show ?thesis by (auto simp: demo_cache_def map_option_case split: option.splits sum.splits prod.splits)
qed

lemma demo_match: "match_prefix 2 (raw_key [1, 2, 7] None False) demo_cache = Some (Inr (([1, 2], 2), demo_matched))"
proof -
  have "map_option (map_sum id fst) (match_prefix 2 (raw_key [1, 2, 7] None False) demo_cache) = Some (Inr ([1, 2], 2))"
    by code_simp
  then show ?thesis by (auto simp: demo_matched_def map_option_case split: option.splits sum.splits prod.splits)
qed

lemma demo_lock: "inc_lock_ref 2 demo_matched = Some (Inr (- 2, demo_locked))"
proof -
  have "map_option (map_sum id fst) (inc_lock_ref 2 demo_matched) = Some (Inr (- 2))" by code_simp
  then show ?thesis by (auto simp: demo_locked_def map_option_case split: option.splits sum.splits prod.splits)
qed

lemma demo_leaves: "evictable_leaves demo_cache = {1}" "evictable_leaves demo_locked = {1}"
  by code_simp+

lemma demo_live: "2 \<in> live demo_matched"
proof -
  have r: "root_node demo_matched = 0" "map_of (node_children (node demo_matched 0)) (None, [Tok 1]) = Some 2"
    "node_value (node demo_matched 2) = Some [1, 2]" by code_simp+
  have "reaches demo_matched 0 [] []" using reaches_root [of demo_matched] r(1) by simp
  then show ?thesis unfolding live_def using reaches_child r(2,3) by blast
qed

lemma demo_cache_ok: "radix_ok demo_cache {#}" "\<not> disable demo_cache" "page_size demo_cache = 1"
proof -
  have "length (cache_values demo_empty (raw_key [1, 2, 3] None False) None) = key_len (cache_key demo_empty (raw_key [1, 2, 3] None False))"
    by code_simp
  then have "allowed (Insert 1 (raw_key [1, 2, 3] None False) None None False) (demo_empty, {#})" by simp
  then obtain c' hs' where r: "apply_op (Insert 1 (raw_key [1, 2, 3] None False) None None False) (demo_empty, {#}) = Some (Inr (c', hs'))"
    "radix_ok c' hs'" "settings c' = settings demo_empty" using apply_op_ok demo_empty_ok(1,2) by blast
  then have "c' = demo_cache" "hs' = {#}" using demo_insert by simp_all
  with r show "radix_ok demo_cache {#}" "\<not> disable demo_cache" "page_size demo_cache = 1"
    using demo_empty_ok(2,3) by (simp_all add: settings_def)
qed

lemma demo_values: "length (cache_values demo_empty (raw_key [1, 2, 3] None False) None) = key_len (cache_key demo_empty (raw_key [1, 2, 3] None False))"
  by code_simp

section \<open>Runs of the cache\<close>

text \<open>C6: However matches, insertions, locks, releases, evictions and resets follow each other, no operation of a
  radix cache raises an exception or fails to return, as long as its callers give one slot per unit, release only
  handles they hold and list the evictable leaves. In every state reached, the walk over the tree returns, and the
  number of slots in it is the sum of the evictable and the protected size.\<close>

theorem radix_runs_never_fail:
  assumes "init_cache now False page eagle no_finished policy = Inr c0" "0 < page" "permitted ops (c0, {#})"
  shows "\<exists>c hs t. run_ops ops (c0, {#}) = Some (Inr (c, hs)) \<and> total_size c = Some (Inr t) \<and>
    int t = evictable_size c + protected_size c \<and> t = size (tree_slots c) \<and> 0 \<le> evictable_size c \<and> 0 \<le> protected_size c"
proof -
  have "radix_ok c0 {#}" "\<not> disable c0" using init_cache_inv [OF assms(1,2)] by auto
  then obtain c hs where run: "run_ops ops (c0, {#}) = Some (Inr (c, hs))" "radix_ok c hs" using run_ops_ok [OF _ _ assms(3)] by blast
  then obtain L F V where inv: "radix_inv c L F V hs" by (auto simp: radix_ok_def)
  then have "0 \<le> evictable_size c \<and> 0 \<le> protected_size c" using sizes_nonneg unfolding radix_inv_def by blast
  then show ?thesis using run(1) total_size_inv [OF inv] by blast
qed

theorem radix_runs_never_fail_witness:
  "\<exists>c hs t. run_ops [Insert 1 (raw_key [1, 2, 3] None False) None None False, Match 2 (raw_key [1, 2, 7] None False), Lock 2, Evict 1 [1], Unlock 2]
     (demo_empty, {#}) = Some (Inr (c, hs)) \<and> total_size c = Some (Inr t) \<and> int t = evictable_size c + protected_size c"
proof -
  have "permitted [Unlock 2] (c, {#2#})" for c by (simp split: option.split sum.split)
  then have "permitted [Evict 1 [1], Unlock 2] (demo_locked, {#2#})"
    using demo_leaves(2) by (cases "evict_leaves 1 [1] demo_locked") (auto simp: map_sum_def simp del: permitted.simps(2) split: sum.split intro!: permitted.simps(2) [THEN iffD2])
  then have "permitted [Lock 2, Evict 1 [1], Unlock 2] (demo_matched, {#})" by (subst permitted.simps) (simp add: demo_lock demo_live del: permitted.simps)
  then have "permitted [Match 2 (raw_key [1, 2, 7] None False), Lock 2, Evict 1 [1], Unlock 2] (demo_cache, {#})"
    by (subst permitted.simps) (simp add: demo_match del: permitted.simps)
  then have "permitted [Insert 1 (raw_key [1, 2, 3] None False) None None False, Match 2 (raw_key [1, 2, 7] None False), Lock 2, Evict 1 [1], Unlock 2]
      (demo_empty, {#})"
    by (subst permitted.simps) (simp add: demo_insert demo_values del: permitted.simps)
  from radix_runs_never_fail [OF demo_empty_ok(5) _ this] show ?thesis by auto
qed

section \<open>Matching and inserting\<close>

text \<open>C18: The search for the first difference of two keys, which gallops in doubling windows and then bisects, finds
  the longest common prefix of the units of the two keys, rounded down to whole pages.\<close>

theorem key_match_is_common_prefix:
  assumes "extra_key k = extra_key other" "is_bigram k = is_bigram other" "0 < page"
  shows "\<exists>m. key_match page k other = Inr m \<and> page dvd m \<and> take m (key_units k) = take m (key_units other) \<and>
    m \<le> key_len k \<and> m \<le> key_len other \<and>
    (\<forall>j. page dvd j \<and> j \<le> key_len k \<and> j \<le> key_len other \<and> take j (key_units k) = take j (key_units other) \<longrightarrow> j \<le> m)"
proof -
  let ?c = "common_len (key_units k) (key_units other)"
  have le: "?c div page * page \<le> ?c" by simp
  have "j \<le> ?c div page * page" if "page dvd j" "j \<le> ?c" for j
    using that assms(3) by (metis div_le_mono dvd_div_mult_self mult_le_mono1)
  with le show ?thesis
    using key_match_common [OF assms(1,2), of page] by (intro exI [of _ "?c div page * page"]) (simp add: common_len_iff)
qed

theorem key_match_is_common_prefix_witness:
  "\<exists>m. key_match 2 (raw_key [1, 2, 3, 4, 5] None False) (raw_key [1, 2, 3, 9] None False) = Inr m \<and> 2 dvd m"
  using key_match_is_common_prefix [of "raw_key [1, 2, 3, 4, 5] None False" "raw_key [1, 2, 3, 9] None False" 2] by auto

text \<open>C8: Matching a key returns the slots cached for its longest prefix of whole pages that is in the cache, and the
  node whose path is that prefix. No cached prefix of the key is longer, and the slots of a shorter one are a prefix
  of those returned. Matching can split a node, but it changes neither the contents nor the sizes of the cache.\<close>

theorem radix_match_longest:
  assumes "radix_ok c hs" "\<not> disable c"
  shows "\<exists>vs n c'. match_prefix now k c = Some (Inr ((vs, n), c')) \<and> radix_ok c' hs \<and> same_contents c c' \<and>
    reaches c' n (take (length vs) (key_path c k)) vs \<and> cached c (take (length vs) (key_path c k)) vs \<and>
    (\<forall>us xs. prefix us (key_path c k) \<and> cached c us xs \<longrightarrow> length us \<le> length vs \<and> xs = take (length us) vs)"
proof -
  obtain L F V where inv: "radix_inv c L F V hs" and tree: "tree_ok c L F V" by (rule radix_okD [OF assms(1)])
  obtain n c' L' F' V' where r: "match_prefix now k c = Some (Inr ((V' n, n), c'))" "radix_inv c' L' F' V' hs" "grown c L F V c' L' F' V'"
    "n \<in> L'" "prefix (F' n) (key_path c k)" "longest (page_size c) L' F' (key_path c k) (F' n)"
    using match_prefix_inv [OF inv assms(2)] by blast
  have tree': "tree_ok c' L' F' V'" using r(2) by (simp add: radix_inv_def)
  have same: "same_contents c c'" by (rule grown_contents [OF tree tree' r(3)])
  have page: "page_size c' = page_size c" by (rule grown_page [OF r(3)])
  have len: "length (V' n) = length (F' n)" "page_size c dvd length (F' n)" using tree_lengths [OF tree' r(4)] page by simp_all
  have F: "take (length (V' n)) (key_path c k) = F' n" using r(5) len(1) by (auto simp: prefix_def)
  have "held L' F' V' (F' n) (V' n)" using r(4) len by (auto simp: held_def)
  then have "cached c (F' n) (V' n)" using cached_iff [OF tree] len(2) r(3) by (simp add: grown_def)
  moreover have "length us \<le> length (V' n) \<and> xs = take (length us) (V' n)" if us: "prefix us (key_path c k)" "cached c us xs" for us xs
  proof -
    have h: "page_size c dvd length us" "held L' F' V' us xs" using us(2) cached_iff [OF tree] r(3) by (simp_all add: grown_def)
    then have le: "length us \<le> length (F' n)" using r(6) us(1) unfolding longest_def held_def by blast
    then have "prefix us (F' n)" using us(1) r(5) prefix_length_prefix by blast
    then show ?thesis using held_unique [OF tree' _ h(2) r(4)] h(1) page le len(1) by simp
  qed
  moreover have "reaches c' n (F' n) (V' n)" using reaches_iff [OF tree'] r(4) by simp
  ultimately show ?thesis using r(1,2) same F unfolding radix_ok_def by metis
qed

theorem radix_match_longest_witness:
  "\<exists>n c'. match_prefix 2 (raw_key [1, 2, 7] None False) demo_cache = Some (Inr (([1, 2], n), c')) \<and> same_contents demo_cache c'"
  using radix_match_longest [OF demo_cache_ok(1,2), of 2 "raw_key [1, 2, 7] None False"] demo_match by auto

text \<open>C15: Inserting a key returns the length \<open>m\<close> of its longest cached prefix. The slots cached for that prefix stay;
  for the longer prefixes of the key the cache then holds these slots followed by the given ones past \<open>m\<close>, and for
  every other key what it held before. The tree takes exactly the slots past \<open>m\<close>, all of them evictable.\<close>

theorem radix_insert_exact:
  assumes "radix_ok c hs" "\<not> disable c" "length (cache_values c k v) = key_len (cache_key c k)"
  shows "\<exists>m c' ws. insert_key now k v prio chunked c = Some (Inr (m, c')) \<and> radix_ok c' hs \<and>
    cached c (take m (key_path c k)) ws \<and> m \<le> key_len (cache_key c k) \<and>
    (\<forall>us xs. prefix us (key_path c k) \<and> cached c us xs \<longrightarrow> length us \<le> m) \<and>
    (\<forall>us xs. cached c' us xs \<longleftrightarrow> cached c us xs \<or>
       page_size c dvd length us \<and> prefix us (key_path c k) \<and> m < length us \<and>
       xs = ws @ take (length us - m) (drop m (cache_values c k v))) \<and>
    tree_slots c' = tree_slots c + mset (drop m (cache_values c k v)) \<and>
    evictable_size c' = evictable_size c + int (key_len (cache_key c k) - m) \<and> protected_size c' = protected_size c"
proof -
  let ?U = "key_path c k" and ?v = "cache_values c k v"
  obtain L F V where inv: "radix_inv c L F V hs" and tree: "tree_ok c L F V" by (rule radix_okD [OF assms(1)])
  obtain m c' L' F' V' where r: "insert_key now k v prio chunked c = Some (Inr (m, c'))" "inserted c L F V hs ?U ?v m c' L' F' V'"
    using insert_key_inv [OF inv assms(2,3)] by blast
  then obtain ws where ws: "held L F V (take m ?U) ws"
    "\<And>us xs. held L' F' V' us xs \<longleftrightarrow> held L F V us xs \<or> prefix us ?U \<and> m < length us \<and> xs = ws @ take (length us - m) (drop m ?v)"
    unfolding inserted_def by blast
  have i: "radix_inv c' L' F' V' hs" "settings c' = settings c" "m \<le> length ?U" "page_size c dvd m" "longest (page_size c) L F ?U (take m ?U)"
    "evictable_size c' = evictable_size c + int (length ?U - m)" "protected_size c' = protected_size c"
    "tree_slots c' = tree_slots c + mset (drop m ?v)" using r(2) by (simp_all add: inserted_def)
  have tree': "tree_ok c' L' F' V'" using i(1) by (simp add: radix_inv_def)
  have page: "page_size c' = page_size c" using i(2) by (rule settings_sel(2))
  have "cached c (take m ?U) ws" using ws(1) i(3,4) cached_iff [OF tree] by simp
  moreover have "length us \<le> m" if "prefix us ?U" "cached c us xs" for us xs
    using that i(3,5) cached_iff [OF tree] unfolding longest_def held_def by fastforce
  moreover have "cached c' us xs \<longleftrightarrow> cached c us xs \<or>
      page_size c dvd length us \<and> prefix us ?U \<and> m < length us \<and> xs = ws @ take (length us - m) (drop m ?v)" for us xs
    using cached_iff [OF tree] cached_iff [OF tree'] ws(2) page by auto
  ultimately show ?thesis
    using r(1) i by (intro exI [of _ m] exI [of _ c'] exI [of _ ws]) (auto simp: radix_ok_def)
qed

theorem radix_insert_exact_witness:
  "\<exists>m c'. insert_key 1 (raw_key [1, 2, 3] None False) None None False demo_empty = Some (Inr (m, c')) \<and>
    tree_slots c' = tree_slots demo_empty + mset (drop m [1, 2, 3]) \<and> protected_size c' = protected_size demo_empty"
proof -
  have "cache_values demo_empty (raw_key [1, 2, 3] None False) None = [1, 2, 3]" by code_simp
  then show ?thesis using radix_insert_exact [OF demo_empty_ok(1,2) demo_values, of 1 None False] by auto
qed

section \<open>Eviction and held handles\<close>

text \<open>C16: Eviction implements the policy without a heap: while fewer tokens are freed than wanted, an evictable leaf of
  least rank under the strategy is deleted, in whatever order the set of leaves is listed. It frees exactly the
  slots that leave the tree, reports their number, and stops with enough of them or with nothing evictable left.\<close>

theorem radix_evict_refines:
  assumes "radix_ok c hs" "\<not> disable c" "distinct leaves" "set leaves = evictable_leaves c"
  shows "\<exists>xs k c' fs. evict_leaves num_tokens leaves c = Some (Inr (k, c')) \<and> evicts num_tokens 0 c xs k c' \<and> radix_ok c' hs \<and>
    frees c' = frees c @ fs \<and> length (concat fs) = k \<and> tree_slots c = tree_slots c' + mset (concat fs) \<and>
    evictable_size c' = evictable_size c - int k \<and> protected_size c' = protected_size c \<and> (num_tokens \<le> k \<or> evictable_size c' = 0)"
proof -
  obtain L F V where inv: "radix_inv c L F V hs" by (rule radix_okD [OF assms(1)])
  obtain xs k c' L' fs where "evict_leaves num_tokens leaves c = Some (Inr (k, c'))" "evicts num_tokens 0 c xs k c'" "radix_inv c' L' F V hs"
    "frees c' = frees c @ fs" "length (concat fs) = k" "tree_slots c = tree_slots c' + mset (concat fs)"
    "evictable_size c' = evictable_size c - int k" "protected_size c' = protected_size c" "num_tokens \<le> k \<or> evictable_size c' = 0"
    using evict_leaves_inv [OF inv assms(2-4), of num_tokens] by blast
  then show ?thesis unfolding radix_ok_def by blast
qed

theorem radix_evict_refines_witness:
  "\<exists>xs k c'. evict_leaves 2 [1] demo_cache = Some (Inr (k, c')) \<and> evicts 2 0 demo_cache xs k c' \<and> (2 \<le> k \<or> evictable_size c' = 0)"
  using radix_evict_refines [OF demo_cache_ok(1,2), of "[1]" 2] demo_leaves(1) by auto

text \<open>C7: Whatever operation a caller makes, the path to a node for which someone holds a handle stays in the tree with
  all its slots: an eviction never takes them, and a split or an insertion does not change them.\<close>

theorem held_slots_stay:
  assumes "radix_ok c hs" "\<not> disable c" "allowed op (c, hs)" "h \<in># hs" "reaches c h us vs"
  shows "\<exists>c' hs'. apply_op op (c, hs) = Some (Inr (c', hs')) \<and> radix_ok c' hs' \<and> reaches c' h us vs"
proof -
  obtain L F V where inv: "radix_inv c L F V hs" and tree: "tree_ok c L F V" by (rule radix_okD [OF assms(1)])
  have h: "h \<in> L" "us = F h" "vs = V h" using reaches_iff [OF tree] assms(5) by simp_all
  have stay: "reaches c' h us vs" if "radix_inv c' L' F' V' hs'" "h \<in> L'" "F' h = F h" "V' h = V h" for c' L' F' V' hs'
    using reaches_iff [of c' L' F' V'] that h by (simp add: radix_inv_def)
  show ?thesis
  proof (cases op)
    case (Match now k)
    obtain n c' L' F' V' where r: "match_prefix now k c = Some (Inr ((V' n, n), c'))" "radix_inv c' L' F' V' hs" "grown c L F V c' L' F' V'"
      using match_prefix_inv [OF inv assms(2)] by blast
    then have "reaches c' h us vs" using stay [OF r(2)] h(1) by (auto simp: grown_def)
    then show ?thesis using Match r by (auto simp: radix_ok_def)
  next
    case (Insert now k v prio chunked)
    obtain m c' L' F' V' where r: "insert_key now k v prio chunked c = Some (Inr (m, c'))"
      "inserted c L F V hs (key_path c k) (cache_values c k v) m c' L' F' V'"
      using insert_key_inv [OF inv assms(2)] assms(3) Insert by fastforce
    then have "reaches c' h us vs" using stay [of c' L' F' V' hs] h(1) by (auto simp: inserted_def)
    then show ?thesis using Insert r by (auto simp: radix_ok_def inserted_def)
  next
    case (Lock n)
    then have "n \<in> L" using assms(3) live_eq [OF tree] by simp
    then obtain d c' where r: "inc_lock_ref n c = Some (Inr (d, c'))" "radix_inv c' L F V (add_mset n hs)"
      using inc_lock_ok [OF inv _ assms(2)] by blast
    then show ?thesis using Lock stay [OF r(2) h(1) refl refl] unfolding radix_ok_def by auto
  next
    case (Unlock n)
    then have "radix_inv c L F V (add_mset n (hs - {#n#}))" using inv assms(3) by simp
    then obtain d c' where r: "dec_lock_ref n c = Some (Inr (d, c'))" "radix_inv c' L F V (hs - {#n#})"
      using dec_lock_ok [OF _ assms(2)] by blast
    then show ?thesis using Unlock stay [OF r(2) h(1) refl refl] unfolding radix_ok_def by auto
  next
    case (Evict num leaves)
    then obtain xs k c' L' where r: "evict_leaves num leaves c = Some (Inr (k, c'))" "radix_inv c' L' F V hs"
      using evict_leaves_inv [OF inv assms(2), of leaves num] assms(3) by auto
    then have "h \<in> L'" using assms(4) by (auto simp: radix_inv_def locks_ok_def)
    then show ?thesis using Evict r stay [OF r(2) _ refl refl] unfolding radix_ok_def by auto
  next
    case (Reset now)
    then show ?thesis using assms(3,4) by simp
  qed
qed

lemma demo_locked_ok: "radix_ok demo_locked {#2#}" "\<not> disable demo_locked" "reaches demo_locked 2 [(None, Tok 1), (None, Tok 2)] [1, 2]"
proof -
  obtain c1 hs1 where m: "apply_op (Match 2 (raw_key [1, 2, 7] None False)) (demo_cache, {#}) = Some (Inr (c1, hs1))"
    "radix_ok c1 hs1" "settings c1 = settings demo_cache"
    using apply_op_ok [OF demo_cache_ok(1,2), of "Match 2 (raw_key [1, 2, 7] None False)"] by auto
  then have eq1: "c1 = demo_matched" "hs1 = {#}" using demo_match by simp_all
  have on: "\<not> disable demo_matched" using m(3) eq1 demo_cache_ok(2) by (simp add: settings_def)
  obtain c2 hs2 where l: "apply_op (Lock 2) (demo_matched, {#}) = Some (Inr (c2, hs2))" "radix_ok c2 hs2" "settings c2 = settings demo_matched"
    using apply_op_ok [of demo_matched "{#}" "Lock 2"] m(2) eq1 on demo_live by auto
  then have "c2 = demo_locked" "hs2 = {#2#}" using demo_lock by simp_all
  with l on show "radix_ok demo_locked {#2#}" "\<not> disable demo_locked" by (simp_all add: settings_def)
  have r: "root_node demo_locked = 0" "map_of (node_children (node demo_locked 0)) (None, [Tok 1]) = Some 2"
    "node_value (node demo_locked 2) = Some [1, 2]" by code_simp+
  have k: "lunits (node_key (node demo_locked 2)) = [(None, Tok 1), (None, Tok 2)]" by code_simp
  have "reaches demo_locked 0 [] []" using reaches_root [of demo_locked] r(1) by simp
  from reaches_child [OF this r(2,3)] show "reaches demo_locked 2 [(None, Tok 1), (None, Tok 2)] [1, 2]" unfolding k by simp
qed

theorem held_slots_stay_witness:
  "\<exists>c' hs'. apply_op (Evict 3 [1]) (demo_locked, {#2#}) = Some (Inr (c', hs')) \<and> reaches c' 2 [(None, Tok 1), (None, Tok 2)] [1, 2]"
  using held_slots_stay [OF demo_locked_ok(1,2) _ _ demo_locked_ok(3), of "Evict 3 [1]"] demo_leaves(2) by auto

section \<open>Requests\<close>

lemma root_handle: "radix_ok c hs \<Longrightarrow> radix_ok c (add_mset (root_node c) hs)"
proof -
  assume "radix_ok c hs"
  then obtain L F V where inv: "radix_inv c L F V hs" and tree: "tree_ok c L F V" by (rule radix_okD)
  note t = tree_okD [OF tree]
  have "n = root_node c" if "n \<in> L" "prefix (F n) (F (root_node c))" for n
    using path_inj [OF tree that(1) t(3)] that(2) t(4) by simp
  then have "radix_inv c L F V (add_mset (root_node c) hs)" using inv t(3) by (auto simp: radix_inv_def locks_ok_def)
  then show ?thesis unfolding radix_ok_def by blast
qed

text \<open>C9: After \<open>cache_unfinished_req\<close> a request that shared a prefix with the tree shares its whole page-aligned prefix: the
  first slots of its row are those of the path to the node it now holds, and its prefix indices are its row. Each slot
  it brought is in the tree, freed, or still the request's own, and in one of these only.\<close>

theorem unfinished_request_shares:
  assumes "radix_ok c (add_mset n hs)" "\<not> disable c" "req_pool_idx r = Some i"
    and "shares c r (rows i) (lunits (req_key c r (get_fill_ids r))) n" "length (get_fill_ids r) \<le> length (rows i)"
  shows "\<exists>r' n' c' rows' fs. cache_unfinished_req now chunked r (c, rows) = Some (Inr (r', c', rows')) \<and>
    radix_ok c' (add_mset n' hs) \<and> shares c' r' (rows' i) (lunits (req_key c r (get_fill_ids r))) n' \<and>
    cache_protected_len r' = key_len (req_key c r (get_fill_ids r)) \<and>
    length (rows' i) = length (rows i) \<and> drop (cache_protected_len r') (rows' i) = drop (cache_protected_len r') (rows i) \<and>
    (\<forall>j. j \<noteq> i \<longrightarrow> rows' j = rows j) \<and> prefix_indices r' = take (length (get_fill_ids r)) (rows' i) \<and>
    frees c' = frees c @ fs \<and>
    tree_slots c' + mset (concat fs) + mset (drop (cache_protected_len r') (take (length (get_fill_ids r)) (rows' i))) =
      tree_slots c + mset (drop (cache_protected_len r) (take (length (get_fill_ids r)) (rows i)))"
proof -
  obtain L F V where inv: "radix_inv c L F V (add_mset n hs)" by (rule radix_okD [OF assms(1)])
  obtain r' n' c' rows' L' F' V' fs where "cache_unfinished_req now chunked r (c, rows) = Some (Inr (r', c', rows'))"
    "radix_inv c' L' F' V' (add_mset n' hs)" "frees c' = frees c @ fs"
    "cache_protected_len r' = key_len (req_key c r (get_fill_ids r))" "shares c' r' (rows' i) (lunits (req_key c r (get_fill_ids r))) n'"
    "length (rows' i) = length (rows i)" "drop (cache_protected_len r') (rows' i) = drop (cache_protected_len r') (rows i)"
    "\<forall>j. j \<noteq> i \<longrightarrow> rows' j = rows j" "prefix_indices r' = take (length (get_fill_ids r)) (rows' i)"
    "tree_slots c' + mset (concat fs) + mset (drop (cache_protected_len r') (take (length (get_fill_ids r)) (rows' i))) =
      tree_slots c + mset (drop (cache_protected_len r) (take (length (get_fill_ids r)) (rows i)))"
    using unfinished_inv [where rows = rows and toks = "get_fill_ids r", OF inv assms(2,3) refl assms(4,5), of now chunked] by (elim exE conjE) (rule that; assumption)
  moreover from this have "radix_ok c' (add_mset n' hs)" unfolding radix_ok_def by blast
  ultimately show ?thesis
    by (intro exI [of _ r'] exI [of _ n'] exI [of _ c'] exI [of _ rows'] exI [of _ fs]) simp
qed

text \<open>A request with three tokens in a row of four slots that shares nothing yet.\<close>

definition demo_req :: radix_req where
  "demo_req = \<lparr>origin_input_ids = [1, 2], output_ids = [3], full_untruncated_fill_ids = [1, 2, 3], fill_len = 3, req_extra_key = None,
     req_priority = None, req_pool_idx = Some 1, prefix_indices = [], last_node = Some 0, cache_protected_len = 0, kv_committed_len = 3,
     kv_allocated_len = 3, kv_committed_freed = False, kv_overallocated_freed = False, reasoning_tokens = 0,
     extend_input_len = 3, inflight_middle_chunks = 0, is_retracted = False, return_logprob = False, logprob_start_len = - 1,
     max_new_tokens = 8, to_finish = False, req_finished = False\<rparr>"

definition demo_rows :: kv_rows where
  "demo_rows = (\<lambda>_. [11, 12, 13, 0])"

lemma demo_shares: "shares demo_empty demo_req (demo_rows 1) U 0" "radix_ok demo_empty {#0#}" "root_node demo_empty = 0"
proof -
  show root: "root_node demo_empty = 0" by code_simp
  show "radix_ok demo_empty {#0#}" using root_handle [OF demo_empty_ok(1)] root by simp
  have "reaches demo_empty 0 [] []" using reaches_root [of demo_empty] root by simp
  then show "shares demo_empty demo_req (demo_rows 1) U 0" by (simp add: shares_def demo_req_def)
qed

theorem unfinished_request_shares_witness:
  "\<exists>r' n' c' rows'. cache_unfinished_req 1 False demo_req (demo_empty, demo_rows) = Some (Inr (r', c', rows')) \<and>
    shares c' r' (rows' 1) (lunits (req_key demo_empty demo_req [1, 2, 3])) n'"
proof -
  have "get_fill_ids demo_req = [1, 2, 3]" "req_pool_idx demo_req = Some 1" "length [1, 2, 3] \<le> length (demo_rows 1)" by code_simp+
  then show ?thesis
    using unfinished_request_shares [OF _ demo_empty_ok(2), of 0 "{#}" demo_req 1 demo_rows 1 False] demo_shares(1,2) by force
qed

text \<open>C17: When a request finishes, \<open>cache_finished_req\<close> returns its handle, and every slot it held past those it shared is
  afterwards in the tree or freed: none is lost and none is freed twice, with or without an insertion.\<close>

theorem finished_request_conserves:
  assumes "radix_ok c (add_mset n hs)" "\<not> disable c" "\<not> kv_committed_freed r"
    and "toks = take (cache_commit_len stripped r) (origin_input_ids r @ output_ids r)" "length toks \<le> length (req_row rows r)"
    and "shares c r (req_row rows r) (lunits (req_key c r toks)) n"
  shows "\<exists>c' fs. cache_finished_req now stripped rows is_insert r c = Some (Inr (r\<lparr>kv_committed_freed := True\<rparr>, c')) \<and>
    radix_ok c' hs \<and> frees c' = frees c @ fs \<and>
    tree_slots c' + mset (concat fs) = tree_slots c + mset (drop (cache_protected_len r) (take (length toks) (req_row rows r)))"
proof -
  obtain L F V where inv: "radix_inv c L F V (add_mset n hs)" by (rule radix_okD [OF assms(1)])
  then show ?thesis
    using finished_inv [OF inv assms(2,3,4,6,5), of now is_insert] unfolding radix_ok_def by blast
qed

theorem finished_request_conserves_witness:
  "\<exists>c' fs. cache_finished_req 1 False demo_rows True demo_req demo_empty = Some (Inr (demo_req\<lparr>kv_committed_freed := True\<rparr>, c')) \<and>
    frees c' = fs \<and> tree_slots c' + mset (concat fs) = tree_slots demo_empty + mset [11, 12, 13]"
proof -
  have "[1, 2, 3] = take (cache_commit_len False demo_req) (origin_input_ids demo_req @ output_ids demo_req)"
    "\<not> kv_committed_freed demo_req" "length [1::int, 2, 3] \<le> length (req_row demo_rows demo_req)" "req_row demo_rows demo_req = demo_rows 1"
    "cache_protected_len demo_req = 0" "take (length [1::int, 2, 3]) (demo_rows 1) = [11, 12, 13]" by code_simp+
  then show ?thesis
    using finished_request_conserves [OF _ demo_empty_ok(2), of 0 "{#}" demo_req "[1, 2, 3]" False demo_rows 1 True] demo_shares(1,2)
      demo_empty_ok(6) by auto
qed

section \<open>Allocation\<close>

text \<open>C10: A request for slots succeeds exactly when the free slots and the evictable ones together suffice: then it gets as
  many as it asked for, each of them free before or evicted for it, and otherwise it ends in the out-of-memory error.\<close>

theorem alloc_token_slots_iff:
  assumes "radix_ok c hs" "\<not> disable c" "distinct leaves" "set leaves = evictable_leaves c" "allocator_ready a" "frees c = []"
  shows "if int num_tokens \<le> int (available_size a) + evictable_size c
    then \<exists>locs c' a'. alloc_token_slots num_tokens leaves (c, a) = Some (Inr (locs, c', a')) \<and> length locs = num_tokens \<and>
      radix_ok c' hs \<and> allocator_ready a' \<and> frees c' = [] \<and>
      tree_slots c' + allocator_slots a' + mset locs = tree_slots c + allocator_slots a
    else alloc_token_slots num_tokens leaves (c, a) = Some (Inl RuntimeError)"
proof -
  obtain L F V where inv: "radix_inv c L F V hs" by (rule radix_okD [OF assms(1)])
  obtain c' a' L' where e: "evict_from_tree_cache num_tokens leaves (c, a) = Some (Inr (c', a'))" "radix_inv c' L' F V hs"
    "frees c' = []" "allocator_ready a'" "tree_slots c' + allocator_slots a' = tree_slots c + allocator_slots a"
    "int (available_size a') + evictable_size c' = int (available_size a) + evictable_size c"
    "num_tokens \<le> available_size a' \<or> evictable_size c' = 0"
    using evict_from_tree_ok [OF inv assms(2-6), of num_tokens] by blast
  have nonneg: "0 \<le> evictable_size c'" using sizes_nonneg e(2) unfolding radix_inv_def by blast
  show ?thesis
  proof (cases "int num_tokens \<le> int (available_size a) + evictable_size c")
    case True
    then have "num_tokens \<le> available_size a'" using e(6,7) by linarith
    then obtain locs a'' where al: "allocator_alloc num_tokens a' = (Some locs, a'')" "length locs = num_tokens" "allocator_ready a''"
      "allocator_slots a' = allocator_slots a'' + mset locs" using allocator_alloc_ok [OF e(4)] by blast
    have "alloc_token_slots num_tokens leaves (c, a) = Some (Inr (locs, c', a''))" using e(1) al(1) by (simp add: alloc_token_slots_def)
    moreover have "tree_slots c' + allocator_slots a'' + mset locs = tree_slots c + allocator_slots a"
      using e(5) al(4) by (simp add: add.assoc)
    ultimately show ?thesis using True al e(2,3) unfolding radix_ok_def by auto
  next
    case False
    then have "available_size a' < num_tokens" using e(6) nonneg by linarith
    then obtain a'' where "allocator_alloc num_tokens a' = (None, a'')" using allocator_alloc_none by blast
    then show ?thesis using False e(1) by (simp add: alloc_token_slots_def)
  qed
qed

theorem alloc_token_slots_iff_witness:
  "\<exists>locs c' a'. alloc_token_slots 5 [1] (demo_cache, allocator_init 2 False) = Some (Inr (locs, c', a')) \<and> length locs = 5"
proof -
  have "evictable_size demo_cache = 3" "frees demo_cache = []" by code_simp+
  then show ?thesis
    using alloc_token_slots_iff [OF demo_cache_ok(1,2), of "[1]" "allocator_init 2 False" 5] demo_leaves(1) allocator_init_ready [of 2 False]
    by auto
qed

end
