(* ===== verification/SglPool.thy ===== *)
theory SglPool
  imports RadixReq
begin

text \<open>
  The memory of SGLang's scheduler: the radix cache, the allocator of KV slots, the pool of request rows
  (\<open>ReqToTokenPool\<close> of \<open>mem_cache/memory_pool.py\<close>) and the requests, in one state. The operations that move slots:
  the match before a prefill, \<open>prepare_for_extend\<close> and \<open>prepare_for_decode\<close> with \<open>alloc_for_extend\<close> and
  \<open>alloc_for_decode\<close>, \<open>release_kv_cache\<close>, \<open>release_req\<close> with \<open>reset_for_retract\<close>, and the two checks of
  \<open>SchedulerInvariantChecker\<close>. Pages have one token; a request is an object of the store, named by a number.
\<close>

declare map_of_eq_Some_iff [simp del]

section \<open>Results\<close>

text \<open>A call returns a value, raises an exception, or, where a loop does not end, nothing.\<close>

type_synonym 'a result = "(py_error + 'a) option"

abbreviation ok :: "'a \<Rightarrow> 'a result" where
  "ok x \<equiv> Some (Inr x)"

abbreviation raise :: "py_error \<Rightarrow> 'a result" where
  "raise e \<equiv> Some (Inl e)"

definition res_bind :: "'a result \<Rightarrow> ('a \<Rightarrow> 'b result) \<Rightarrow> 'b result" where
  "res_bind m f = (case m of None \<Rightarrow> None | Some (Inl e) \<Rightarrow> raise e | Some (Inr x) \<Rightarrow> f x)"

lemma res_bind_simps [simp]: "res_bind (ok x) f = f x" "res_bind (raise e) f = raise e" "res_bind None f = None"
  by (simp_all add: res_bind_def)

lemma res_bind_cong [fundef_cong]: "m = m' \<Longrightarrow> (\<And>x. m' = ok x \<Longrightarrow> f x = f' x) \<Longrightarrow> res_bind m f = res_bind m' f'"
  by (simp add: res_bind_def split: option.split sum.split)

primrec res_fold :: "('x \<Rightarrow> 's \<Rightarrow> 's result) \<Rightarrow> 'x list \<Rightarrow> 's \<Rightarrow> 's result" where
  "res_fold f [] s = ok s"
| "res_fold f (x # xs) s = res_bind (f x s) (res_fold f xs)"

section \<open>The state\<close>

record kv_state =
  kv_cache :: radix_cache
  kv_allocator :: token_allocator
  req_to_token :: kv_rows
  pool_size :: nat
  max_context_len :: nat
  free_slots :: "nat list"
  kv_reqs :: "nat \<Rightarrow> radix_req"

definition set_req :: "nat \<Rightarrow> radix_req \<Rightarrow> kv_state \<Rightarrow> kv_state" where
  "set_req a r s = s\<lparr>kv_reqs := (kv_reqs s)(a := r)\<rparr>"

definition change_req :: "nat \<Rightarrow> (radix_req \<Rightarrow> radix_req) \<Rightarrow> kv_state \<Rightarrow> kv_state" where
  "change_req a f s = set_req a (f (kv_reqs s a)) s"

definition row_of :: "kv_state \<Rightarrow> nat \<Rightarrow> int list" where
  "row_of s a = req_row (req_to_token s) (kv_reqs s a)"

text \<open>The rows are numbered from one; row 0 is padding.\<close>

definition req_pool_init :: "nat \<Rightarrow> nat \<Rightarrow> kv_state \<Rightarrow> kv_state" where
  "req_pool_init n ctx s = s\<lparr>pool_size := n, max_context_len := ctx, req_to_token := (\<lambda>_. replicate ctx 0), free_slots := [1..<Suc n]\<rparr>"

section \<open>The pool of rows\<close>

text \<open>\<open>req_to_token[(i, slice(p, q))] = vs\<close>: the slice ends with the row, one value is broadcast, other lengths raise.\<close>

definition pool_write :: "nat \<Rightarrow> nat \<Rightarrow> nat \<Rightarrow> int list \<Rightarrow> kv_state \<Rightarrow> kv_state result" where
  "pool_write i p q vs s =
     (let n = min q (max_context_len s) - p in
      if length vs = n then ok (s\<lparr>req_to_token := write_row i p (p + n) vs (req_to_token s)\<rparr>)
      else if length vs = 1 then ok (s\<lparr>req_to_token := write_row i p (p + n) (replicate n (hd vs)) (req_to_token s)\<rparr>)
      else raise RuntimeError)"

fun assign_slots :: "nat list \<Rightarrow> nat list \<Rightarrow> (nat \<Rightarrow> radix_req) \<Rightarrow> nat \<Rightarrow> radix_req" where
  "assign_slots [] sel f = f"
| "assign_slots (a # as) sel f =
     (case (req_pool_idx (f a), sel) of
        (None, i # sel) \<Rightarrow> assign_slots as sel (f(a := (f a)\<lparr>req_pool_idx := Some i\<rparr>))
      | _ \<Rightarrow> assign_slots as sel f)"

definition req_pool_alloc :: "nat list \<Rightarrow> kv_state \<Rightarrow> (nat list option \<times> kv_state) result" where
  "req_pool_alloc as s =
     (let reusing = filter (\<lambda>a. req_pool_idx (kv_reqs s a) \<noteq> None) as;
          need = length as - length reusing
      in
      if \<not> list_all (\<lambda>a. 0 < inflight_middle_chunks (kv_reqs s a) \<or> 0 < kv_committed_len (kv_reqs s a)) reusing then raise AssertionError
      else if length (free_slots s) < need then ok (None, s)
      else
        let f = assign_slots as (take need (free_slots s)) (kv_reqs s) in
        ok (Some (map (\<lambda>a. the (req_pool_idx (f a))) as), s\<lparr>free_slots := drop need (free_slots s), kv_reqs := f\<rparr>))"

definition req_pool_free :: "nat \<Rightarrow> kv_state \<Rightarrow> kv_state result" where
  "req_pool_free a s =
     (case req_pool_idx (kv_reqs s a) of
        None \<Rightarrow> raise AssertionError
      | Some i \<Rightarrow> ok (change_req a (\<lambda>r. r\<lparr>req_pool_idx := None\<rparr>) (s\<lparr>free_slots := free_slots s @ [i]\<rparr>)))"

definition alloc_req_slots :: "nat list \<Rightarrow> kv_state \<Rightarrow> (nat list \<times> kv_state) result" where
  "alloc_req_slots as s = res_bind (req_pool_alloc as s) (\<lambda>(idxs, s). case idxs of None \<Rightarrow> raise RuntimeError | Some idxs \<Rightarrow> ok (idxs, s))"

section \<open>Slots\<close>

text \<open>\<open>ord\<close> is the order in which Python lists the set of evictable leaves.\<close>

definition kv_evict :: "(nat set \<Rightarrow> nat list) \<Rightarrow> nat \<Rightarrow> kv_state \<Rightarrow> kv_state result" where
  "kv_evict ord n s =
     res_bind (evict_from_tree_cache n (ord (evictable_leaves (kv_cache s))) (kv_cache s, kv_allocator s))
       (\<lambda>(c, a). ok (s\<lparr>kv_cache := c, kv_allocator := a\<rparr>))"

definition kv_alloc :: "(nat set \<Rightarrow> nat list) \<Rightarrow> nat \<Rightarrow> kv_state \<Rightarrow> (int list \<times> kv_state) result" where
  "kv_alloc ord n s =
     res_bind (alloc_token_slots n (ord (evictable_leaves (kv_cache s))) (kv_cache s, kv_allocator s))
       (\<lambda>(locs, c, a). ok (locs, s\<lparr>kv_cache := c, kv_allocator := a\<rparr>))"

section \<open>The match before a prefill\<close>

definition refresh_fill_ids :: "radix_req \<Rightarrow> radix_req" where
  "refresh_fill_ids r =
     (let full = full_untruncated_fill_ids r; n = length (origin_input_ids r) in
      if n \<le> length full \<and> length full - n \<le> length (output_ids r)
      then r\<lparr>full_untruncated_fill_ids := full @ drop (length full - n) (output_ids r)\<rparr>
      else r\<lparr>full_untruncated_fill_ids := origin_input_ids r @ output_ids r\<rparr>)"

definition compute_max_prefix_len :: "radix_req \<Rightarrow> nat \<Rightarrow> nat" where
  "compute_max_prefix_len r input_len =
     (let m = int input_len - 1;
          m = (if return_logprob r \<and> 0 \<le> logprob_start_len r then min m (logprob_start_len r) else m)
      in nat (max m 0))"

definition match_key :: "radix_req \<Rightarrow> radix_key" where
  "match_key r = \<lparr>token_ids = full_untruncated_fill_ids r, extra_key = req_extra_key r, is_bigram = False,
     key_limit = Some (compute_max_prefix_len r (length (full_untruncated_fill_ids r)))\<rparr>"

text \<open>Without a cache, as a chunked request calls it, only the fill ids and the length to extend change.\<close>

definition init_next_round_input :: "real \<Rightarrow> bool \<Rightarrow> nat \<Rightarrow> kv_state \<Rightarrow> kv_state result" where
  "init_next_round_input now with_cache a s =
     (let r = refresh_fill_ids (kv_reqs s a) in
      res_bind
        (if with_cache
         then res_bind (match_prefix now (match_key r) (kv_cache s))
           (\<lambda>((vs, n), c). ok (r\<lparr>prefix_indices := vs, last_node := Some n, cache_protected_len := length vs\<rparr>, c))
         else ok (r, kv_cache s))
        (\<lambda>(r, c). ok (set_req a (r\<lparr>extend_input_len := length (full_untruncated_fill_ids r) - length (prefix_indices r)\<rparr>) (s\<lparr>kv_cache := c\<rparr>))))"

definition req_inc_lock_ref :: "nat \<Rightarrow> kv_state \<Rightarrow> kv_state result" where
  "req_inc_lock_ref a s =
     (case last_node (kv_reqs s a) of
        None \<Rightarrow> raise AttributeError
      | Some n \<Rightarrow> res_bind (inc_lock_ref n (kv_cache s)) (\<lambda>(_, c). ok (s\<lparr>kv_cache := c\<rparr>)))"

definition req_dec_lock_ref :: "nat \<Rightarrow> kv_state \<Rightarrow> kv_state result" where
  "req_dec_lock_ref a s =
     (case last_node (kv_reqs s a) of
        None \<Rightarrow> raise AttributeError
      | Some n \<Rightarrow> res_bind (dec_lock_ref n (kv_cache s)) (\<lambda>(_, c). ok (s\<lparr>kv_cache := c\<rparr>)))"

section \<open>Preparing a batch\<close>

text \<open>The items: row, prefix length, sequence length, extend length, prefix.\<close>

fun write_cache_indices :: "int list \<Rightarrow> (nat \<times> nat \<times> nat \<times> nat \<times> int list) list \<Rightarrow> kv_state \<Rightarrow> kv_state result" where
  "write_cache_indices out [] s = ok s"
| "write_cache_indices out ((i, p, q, e, pre) # items) s =
     res_bind (pool_write i 0 p pre s) (\<lambda>s. res_bind (pool_write i p q (take e out) s) (write_cache_indices (drop e out) items))"

definition alloc_for_extend :: "(nat set \<Rightarrow> nat list) \<Rightarrow> nat \<Rightarrow> nat list \<Rightarrow> kv_state \<Rightarrow> kv_state result" where
  "alloc_for_extend ord extend_num_tokens as s =
     (let pre = map (\<lambda>a. prefix_indices (kv_reqs s a)) as;
          seq = map (\<lambda>a. fill_len (kv_reqs s a)) as;
          ext = map (\<lambda>a. extend_input_len (kv_reqs s a)) as
      in
      res_bind (alloc_req_slots as s) (\<lambda>(idxs, s).
      res_bind (kv_alloc ord extend_num_tokens s) (\<lambda>(out, s).
      write_cache_indices out (zip idxs (zip (map length pre) (zip seq (zip ext pre)))) s)))"

definition commit_extend :: "nat \<Rightarrow> kv_state \<Rightarrow> kv_state result" where
  "commit_extend a s =
     (let r = kv_reqs s a in
      if fill_len r \<noteq> length (prefix_indices r) + extend_input_len r then raise AssertionError
      else ok (set_req a (r\<lparr>kv_committed_len := fill_len r, kv_allocated_len := fill_len r, is_retracted := False\<rparr>) s))"

text \<open>The batch's sequence lengths are the fill lengths.\<close>

definition prepare_for_extend :: "(nat set \<Rightarrow> nat list) \<Rightarrow> nat list \<Rightarrow> kv_state \<Rightarrow> (nat list \<times> kv_state) result" where
  "prepare_for_extend ord as s =
     (let input_ids = map (\<lambda>a. drop (length (prefix_indices (kv_reqs s a))) (get_fill_ids (kv_reqs s a))) as;
          seq_lens = map (\<lambda>a. fill_len (kv_reqs s a)) as
      in
      res_bind (alloc_for_extend ord (sum_list (map length input_ids)) as s) (\<lambda>s.
      res_bind (res_fold commit_extend as s) (\<lambda>s. ok (seq_lens, s))))"

definition write_decode :: "nat \<times> nat \<times> int \<Rightarrow> kv_state \<Rightarrow> kv_state result" where
  "write_decode x s =
     (case x of (a, l, v) \<Rightarrow>
        case req_pool_idx (kv_reqs s a) of
          None \<Rightarrow> raise IndexError
        | Some i \<Rightarrow> if l < max_context_len s then ok (s\<lparr>req_to_token := (req_to_token s)(i := (req_to_token s i)[l := v])\<rparr>) else raise IndexError)"

definition alloc_for_decode :: "(nat set \<Rightarrow> nat list) \<Rightarrow> nat list \<Rightarrow> nat list \<Rightarrow> kv_state \<Rightarrow> kv_state result" where
  "alloc_for_decode ord as seq_lens s =
     res_bind (kv_alloc ord (length seq_lens) s) (\<lambda>(out, s). res_fold write_decode (zip as (zip seq_lens out)) s)"

definition commit_decode :: "nat \<Rightarrow> kv_state \<Rightarrow> kv_state" where
  "commit_decode a s = change_req a (\<lambda>r. r\<lparr>kv_committed_len := kv_committed_len r + 1, kv_allocated_len := kv_allocated_len r + 1\<rparr>) s"

definition prepare_for_decode :: "(nat set \<Rightarrow> nat list) \<Rightarrow> nat list \<Rightarrow> nat list \<Rightarrow> kv_state \<Rightarrow> (nat list \<times> kv_state) result" where
  "prepare_for_decode ord as seq_lens s =
     res_bind (alloc_for_decode ord as seq_lens s) (\<lambda>s. ok (map Suc seq_lens, fold commit_decode as s))"

section \<open>Giving slots back\<close>

definition kv_cache_unfinished :: "real \<Rightarrow> bool \<Rightarrow> nat \<Rightarrow> kv_state \<Rightarrow> kv_state result" where
  "kv_cache_unfinished now chunked a s =
     res_bind (cache_unfinished_req now chunked (kv_reqs s a) (kv_cache s, req_to_token s))
       (\<lambda>(r, c, rows). let (c, al) = deliver (c, kv_allocator s) in
          ok (set_req a r (s\<lparr>kv_cache := c, kv_allocator := al, req_to_token := rows\<rparr>)))"

definition kv_cache_finished :: "real \<Rightarrow> bool \<Rightarrow> bool \<Rightarrow> nat \<Rightarrow> kv_state \<Rightarrow> kv_state result" where
  "kv_cache_finished now stripped is_insert a s =
     res_bind (cache_finished_req now stripped (req_to_token s) is_insert (kv_reqs s a) (kv_cache s))
       (\<lambda>(r, c). let (c, al) = deliver (c, kv_allocator s) in ok (set_req a r (s\<lparr>kv_cache := c, kv_allocator := al\<rparr>)))"

text \<open>No speculative decoding, so that nothing is over-allocated unless thinking is stripped.\<close>

definition release_kv_cache :: "real \<Rightarrow> bool \<Rightarrow> bool \<Rightarrow> nat \<Rightarrow> kv_state \<Rightarrow> kv_state result" where
  "release_kv_cache now stripped is_insert a s =
     (if req_pool_idx (kv_reqs s a) = None then raise AssertionError
      else res_bind (kv_cache_finished now stripped is_insert a s) (\<lambda>s.
        case pop_overallocated_kv_cache stripped (kv_reqs s a) of
          Inl e \<Rightarrow> raise e
        | Inr ((start_p, end_p), r) \<Rightarrow>
            let s = set_req a r s in
            if \<not> stripped \<and> start_p \<noteq> end_p then raise AssertionError
            else
              let s = (if start_p < end_p
                       then s\<lparr>kv_allocator := allocator_free (span start_p end_p (row_of s a)) (kv_allocator s)\<rparr> else s)
              in req_pool_free a s))"

definition reset_for_retract :: "radix_req \<Rightarrow> radix_req" where
  "reset_for_retract r = r\<lparr>prefix_indices := [], last_node := None, cache_protected_len := 0, extend_input_len := 0, is_retracted := True,
     inflight_middle_chunks := 0, kv_allocated_len := 0, kv_committed_len := 0, kv_committed_freed := False, kv_overallocated_freed := False,
     fill_len := 0\<rparr>"

definition release_req :: "real \<Rightarrow> bool \<Rightarrow> (nat set \<Rightarrow> nat list) \<Rightarrow> nat \<Rightarrow> nat \<Rightarrow> nat \<Rightarrow> kv_state \<Rightarrow> kv_state result" where
  "release_req now stripped ord steps remaining a s =
     res_bind (release_kv_cache now stripped False a s) (\<lambda>s.
     res_bind (kv_evict ord (remaining * steps) s) (\<lambda>s. ok (change_req a reset_for_retract s)))"

section \<open>The checks\<close>

definition holds_kv :: "radix_req \<Rightarrow> bool" where
  "holds_kv r \<longleftrightarrow> \<not> kv_committed_freed r \<and> req_pool_idx r \<noteq> None"

definition total_uncached :: "nat list \<Rightarrow> kv_state \<Rightarrow> int result" where
  "total_uncached as s =
     (if \<not> list_all (\<lambda>a. kv_committed_freed (kv_reqs s a) = kv_overallocated_freed (kv_reqs s a)) as then raise AssertionError
      else ok (\<Sum>a \<leftarrow> as. if holds_kv (kv_reqs s a) then int (kv_allocated_len (kv_reqs s a)) - int (cache_protected_len (kv_reqs s a)) else 0))"

definition pool_leak :: "int \<Rightarrow> kv_state \<Rightarrow> bool" where
  "pool_leak uncached s \<longleftrightarrow>
     int (available_size (kv_allocator s)) + evictable_size (kv_cache s) + protected_size (kv_cache s) + uncached \<noteq> int (alloc_size (kv_allocator s))"

text \<open>\<open>as\<close> are the requests of the last batch and of the running batch, each object once.\<close>

definition self_check_during_busy :: "nat list \<Rightarrow> kv_state \<Rightarrow> unit result" where
  "self_check_during_busy as s =
     res_bind (total_uncached as s) (\<lambda>u. if pool_leak u s then raise AssertionError else ok ())"

text \<open>When idle a leak raises \<open>ValueError\<close>, the strict mode being the default.\<close>

definition self_check_during_idle :: "kv_state \<Rightarrow> unit result" where
  "self_check_during_idle s =
     (if pool_leak 0 s then raise ValueError else if length (free_slots s) \<noteq> pool_size s then raise ValueError else ok ())"

end
