(* ===== verification/SglInv.thy ===== *)
theory SglInv
  imports SglPool RadixUse
begin

text \<open>
  The invariant of SGLang's memory: which slots the tree, the allocator and the requests own, which nodes of the tree
  the requests hold and which rows they have. A request is active from its admission until its release; \<open>A\<close> is the
  set of the active requests and \<open>X\<close> are slots on their way between two owners. The lemmas say that each
  operation of the memory keeps the invariant.
\<close>

declare map_of_eq_Some_iff [simp del]

section \<open>Sums over the active requests\<close>

lemma sum_others:
  assumes "finite A" "a \<in> A" "\<And>b. b \<in> A - {a} \<Longrightarrow> g b = f b"
  shows "sum g A = g a + sum f (A - {a})"
proof -
  have "sum g A = g a + sum g (A - {a})" using assms(1,2) by (rule sum.remove)
  also have "sum g (A - {a}) = sum f (A - {a})" using assms(3) by (rule sum.cong [OF refl])
  finally show ?thesis .
qed

section \<open>The invariant\<close>

definition req_path :: "radix_cache \<Rightarrow> radix_req \<Rightarrow> lunit list" where
  "req_path c r = lunits (raw_key (origin_input_ids r @ output_ids r) (req_extra_key r) (is_eagle c))"

text \<open>A key of bigrams is one shorter than its tokens.\<close>

definition short_by :: "radix_cache \<Rightarrow> nat" where
  "short_by c = (if is_eagle c then 1 else 0)"

definition node_of :: "radix_req \<Rightarrow> nat" where
  "node_of r = the (last_node r)"

text \<open>A request shares a prefix with the tree: its first \<open>cache_protected_len\<close> indices are those of the path to its node.\<close>

definition shares_prefix :: "radix_cache \<Rightarrow> (nat \<Rightarrow> lunit list) \<Rightarrow> (nat \<Rightarrow> int list) \<Rightarrow> radix_req \<Rightarrow> bool" where
  "shares_prefix c F V r \<longleftrightarrow> last_node r \<noteq> None \<and> prefix (F (node_of r)) (req_path c r) \<and>
     length (F (node_of r)) = cache_protected_len r \<and> V (node_of r) = take (cache_protected_len r) (prefix_indices r) \<and>
     cache_protected_len r \<le> length (prefix_indices r)"

definition unreleased :: "radix_req \<Rightarrow> bool" where
  "unreleased r \<longleftrightarrow> \<not> kv_committed_freed r \<and> \<not> kv_overallocated_freed r \<and> kv_committed_len r = kv_allocated_len r \<and>
     prefix (full_untruncated_fill_ids r) (origin_input_ids r @ output_ids r)"

definition row_ok :: "nat \<Rightarrow> radix_cache \<Rightarrow> kv_rows \<Rightarrow> radix_req \<Rightarrow> bool" where
  "row_ok ctx c rows r \<longleftrightarrow>
     (case req_pool_idx r of
        None \<Rightarrow> kv_allocated_len r = 0 \<and> cache_protected_len r = length (prefix_indices r)
      | Some i \<Rightarrow> prefix_indices r = take (length (prefix_indices r)) (rows i) \<and> length (prefix_indices r) \<le> kv_allocated_len r \<and>
          kv_allocated_len r \<le> ctx \<and> cache_protected_len r \<le> kv_allocated_len r - short_by c)"

lemma row_okD:
  assumes "row_ok ctx c rows r" "req_pool_idx r = Some i"
  shows "prefix_indices r = take (length (prefix_indices r)) (rows i)" "length (prefix_indices r) \<le> kv_allocated_len r"
    "kv_allocated_len r \<le> ctx" "cache_protected_len r \<le> kv_allocated_len r - short_by c"
  using assms by (simp_all add: row_ok_def)

definition own_slots :: "kv_rows \<Rightarrow> radix_req \<Rightarrow> int multiset" where
  "own_slots rows r = (case req_pool_idx r of None \<Rightarrow> {#} | Some i \<Rightarrow> mset (drop (cache_protected_len r) (take (kv_allocated_len r) (rows i))))"

definition own_row :: "radix_req \<Rightarrow> nat multiset" where
  "own_row r = (case req_pool_idx r of None \<Rightarrow> {#} | Some i \<Rightarrow> {#i#})"

definition cache_fits :: "radix_cache \<Rightarrow> bool" where
  "cache_fits c \<longleftrightarrow> \<not> disable c \<and> page_size c = 1 \<and> frees c = []"

definition allocator_sorted :: "token_allocator \<Rightarrow> bool" where
  "allocator_sorted a \<longleftrightarrow> need_sort a \<or> release_pages a = []"

text \<open>The requests, against the ghosts of the tree.\<close>

definition reqs_ok :: "kv_state \<Rightarrow> nat set \<Rightarrow> (nat \<Rightarrow> lunit list) \<Rightarrow> (nat \<Rightarrow> int list) \<Rightarrow> bool" where
  "reqs_ok s A F V \<longleftrightarrow> (\<forall>a\<in>A. shares_prefix (kv_cache s) F V (kv_reqs s a) \<and> unreleased (kv_reqs s a) \<and>
     row_ok (max_context_len s) (kv_cache s) (req_to_token s) (kv_reqs s a))"

definition rows_ok :: "kv_state \<Rightarrow> nat set \<Rightarrow> bool" where
  "rows_ok s A \<longleftrightarrow> finite A \<and> (\<forall>i. length (req_to_token s i) = max_context_len s) \<and>
     mset (free_slots s) + (\<Sum>a\<in>A. own_row (kv_reqs s a)) = mset [1..<Suc (pool_size s)]"

definition slots_of :: "kv_state \<Rightarrow> nat set \<Rightarrow> int multiset" where
  "slots_of s A = (\<Sum>a\<in>A. own_slots (req_to_token s) (kv_reqs s a))"

definition slots_ok :: "kv_state \<Rightarrow> nat set \<Rightarrow> int multiset \<Rightarrow> bool" where
  "slots_ok s A X \<longleftrightarrow> tree_slots (kv_cache s) + allocator_slots (kv_allocator s) + slots_of s A + X = mset (map int [1..<Suc (alloc_size (kv_allocator s))])"

definition handles :: "kv_state \<Rightarrow> nat set \<Rightarrow> nat multiset" where
  "handles s A = (\<Sum>a\<in>A. {#node_of (kv_reqs s a)#})"

definition kv_inv :: "kv_state \<Rightarrow> nat set \<Rightarrow> int multiset \<Rightarrow> nat set \<Rightarrow> (nat \<Rightarrow> lunit list) \<Rightarrow> (nat \<Rightarrow> int list) \<Rightarrow> bool" where
  "kv_inv s A X L F V \<longleftrightarrow> radix_inv (kv_cache s) L F V (handles s A) \<and> cache_fits (kv_cache s) \<and> allocator_sorted (kv_allocator s) \<and>
     reqs_ok s A F V \<and> rows_ok s A \<and> slots_ok s A X"

lemma kv_invD:
  assumes "kv_inv s A X L F V"
  shows "radix_inv (kv_cache s) L F V (handles s A)" "\<not> disable (kv_cache s)" "page_size (kv_cache s) = 1" "frees (kv_cache s) = []"
    "allocator_sorted (kv_allocator s)" "finite A" "length (req_to_token s i) = max_context_len s" "reqs_ok s A F V" "rows_ok s A" "slots_ok s A X"
    "tree_ok (kv_cache s) L F V" "set_mset (handles s A) \<subseteq> L"
  using assms by (auto simp: kv_inv_def cache_fits_def rows_ok_def radix_inv_def locks_ok_def)

lemma handles_in: "finite A \<Longrightarrow> a \<in> A \<Longrightarrow> node_of (kv_reqs s a) \<in># handles s A"
  by (simp add: handles_def sum.remove)

lemma kv_inv_req:
  assumes "kv_inv s A X L F V" "a \<in> A"
  shows "shares_prefix (kv_cache s) F V (kv_reqs s a)" "unreleased (kv_reqs s a)"
    "row_ok (max_context_len s) (kv_cache s) (req_to_token s) (kv_reqs s a)" "node_of (kv_reqs s a) \<in> L"
    "last_node (kv_reqs s a) = Some (node_of (kv_reqs s a))"
  using kv_invD(6,8,12) [OF assms(1)] assms(2) handles_in [of A a s] by (auto simp: reqs_ok_def shares_prefix_def node_of_def)

text \<open>Each row has one owner.\<close>

lemma rows_distinct:
  assumes "rows_ok s A" "a \<in> A" "req_pool_idx (kv_reqs s a) = Some i"
  shows "i \<notin> set (free_slots s)" "b \<in> A \<Longrightarrow> req_pool_idx (kv_reqs s b) = Some i \<Longrightarrow> b = a" "1 \<le> i" "i \<le> pool_size s"
proof -
  let ?M = "mset (free_slots s) + (\<Sum>a\<in>A. own_row (kv_reqs s a))"
  have fin: "finite A" and M: "?M = mset [1..<Suc (pool_size s)]" using assms(1) by (simp_all add: rows_ok_def)
  have one: "count ?M j \<le> 1" for j unfolding M by (simp add: count_mset_set' del: upt_Suc)
  have row: "own_row (kv_reqs s a) = {#i#}" using assms(3) by (simp add: own_row_def)
  have split: "?M = {#i#} + (mset (free_slots s) + (\<Sum>a\<in>A - {a}. own_row (kv_reqs s a)))"
    using sum.remove [OF fin assms(2), of "\<lambda>a. own_row (kv_reqs s a)"] row by simp
  then have out: "i \<notin># mset (free_slots s) + (\<Sum>a\<in>A - {a}. own_row (kv_reqs s a))"
    using one [of i] by (simp add: not_in_iff)
  then show "i \<notin> set (free_slots s)" by simp
  show "b = a" if "b \<in> A" "req_pool_idx (kv_reqs s b) = Some i"
  proof (rule ccontr)
    assume "b \<noteq> a"
    then have "i \<in># (\<Sum>a\<in>A - {a}. own_row (kv_reqs s a))"
      using that fin by (simp add: own_row_def sum.remove [of _ b])
    with out show False by simp
  qed
  have "i \<in># ?M" by (subst split) simp
  then show "1 \<le> i" "i \<le> pool_size s" unfolding M by (simp_all del: upt_Suc)
qed

section \<open>Requests when the tree grows\<close>

definition kept :: "nat set \<Rightarrow> (nat \<Rightarrow> lunit list) \<Rightarrow> (nat \<Rightarrow> int list) \<Rightarrow> (nat \<Rightarrow> lunit list) \<Rightarrow> (nat \<Rightarrow> int list) \<Rightarrow> bool" where
  "kept L F V F' V' \<longleftrightarrow> (\<forall>x\<in>L. F' x = F x \<and> V' x = V x)"

lemma kept_refl [simp]: "kept L F V F V"
  by (simp add: kept_def)

lemma shares_prefix_kept:
  "shares_prefix c F V r \<Longrightarrow> node_of r \<in> L \<Longrightarrow> kept L F V F' V' \<Longrightarrow> is_eagle c' = is_eagle c \<Longrightarrow> shares_prefix c' F' V' r"
  by (simp add: shares_prefix_def kept_def req_path_def)

lemma row_ok_cong:
  assumes "row_ok ctx c rows r" "is_eagle c' = is_eagle c" "\<And>i. req_pool_idx r = Some i \<Longrightarrow> rows' i = rows i"
  shows "row_ok ctx c' rows' r" "own_slots rows' r = own_slots rows r"
  using assms by (auto simp: row_ok_def own_slots_def short_by_def split: option.split)

text \<open>What an operation on one request has to establish; the other requests and their rows stay.\<close>

lemma kv_inv_one:
  assumes inv: "kv_inv s (insert a B) X L F V" and a: "a \<notin> B"
    and cache: "radix_inv (kv_cache s') L' F' V' (handles s B + H)" "cache_fits (kv_cache s')" "is_eagle (kv_cache s') = is_eagle (kv_cache s)"
    and kept: "kept L F V F' V'"
    and others: "\<And>b. b \<noteq> a \<Longrightarrow> kv_reqs s' b = kv_reqs s b"
      "\<And>i. req_pool_idx (kv_reqs s a) \<noteq> Some i \<Longrightarrow> i \<notin> set (free_slots s) \<Longrightarrow> req_to_token s' i = req_to_token s i"
    and sizes: "max_context_len s' = max_context_len s" "pool_size s' = pool_size s" "\<And>i. length (req_to_token s' i) = max_context_len s"
      "alloc_size (kv_allocator s') = alloc_size (kv_allocator s)" "allocator_sorted (kv_allocator s')"
    and A: "A \<in> {B, insert a B}" "H = (if A = B then {#} else {#node_of (kv_reqs s' a)#})"
    and act: "a \<in> A \<Longrightarrow> shares_prefix (kv_cache s') F' V' (kv_reqs s' a) \<and> unreleased (kv_reqs s' a) \<and>
      row_ok (max_context_len s') (kv_cache s') (req_to_token s') (kv_reqs s' a)"
    and rows: "mset (free_slots s') + (if A = B then {#} else own_row (kv_reqs s' a)) = mset (free_slots s) + own_row (kv_reqs s a)"
    and slots: "tree_slots (kv_cache s') + allocator_slots (kv_allocator s') + (if A = B then {#} else own_slots (req_to_token s') (kv_reqs s' a)) + X' =
      tree_slots (kv_cache s) + allocator_slots (kv_allocator s) + own_slots (req_to_token s) (kv_reqs s a) + X"
  shows "kv_inv s' A X' L' F' V'"
proof -
  note D = kv_invD [OF inv]
  have fin: "finite B" using D(6) by simp
  have new: "A = B \<or> A = insert a B" "A = insert a B \<Longrightarrow> A \<noteq> B" using A(1) a by auto
  have b: "b \<noteq> a" if "b \<in> B" for b using that a by auto
  have row: "req_to_token s' i = req_to_token s i" if "b \<in> B" "req_pool_idx (kv_reqs s b) = Some i" for b i
  proof -
    note d = rows_distinct [OF D(9) insertI2 [OF that(1)] that(2)]
    have "req_pool_idx (kv_reqs s a) \<noteq> Some i" using d(2) [of a] b [OF that(1)] by auto
    then show ?thesis using others(2) d(1) by blast
  qed
  have ok: "row_ok (max_context_len s') (kv_cache s') (req_to_token s') (kv_reqs s' b)"
      "own_slots (req_to_token s') (kv_reqs s' b) = own_slots (req_to_token s) (kv_reqs s b)" if "b \<in> B" for b
    using row_ok_cong [OF kv_inv_req(3) [OF inv] cache(3) row] that sizes(1) others(1) [OF b [OF that]] by auto
  have "shares_prefix (kv_cache s') F' V' (kv_reqs s' b) \<and> unreleased (kv_reqs s' b)" if "b \<in> B" for b
    using kv_inv_req(1,2,4) [OF inv, of b] that others(1) [OF b [OF that]] shares_prefix_kept [OF _ _ kept cache(3)] by simp
  then have reqs: "reqs_ok s' A F' V'" using ok(1) act new by (auto simp: reqs_ok_def)
  have sums: "(\<Sum>x\<in>A. g (kv_reqs s' x)) = (if A = B then {#} else g (kv_reqs s' a)) + (\<Sum>x\<in>B. g (kv_reqs s x))"
    for g :: "radix_req \<Rightarrow> 'm multiset"
  proof -
    have "(\<Sum>x\<in>B. g (kv_reqs s' x)) = (\<Sum>x\<in>B. g (kv_reqs s x))" using others(1) b by (intro sum.cong) auto
    then show ?thesis using new a fin by auto
  qed
  have own: "slots_of s' A = (if A = B then {#} else own_slots (req_to_token s') (kv_reqs s' a)) + (\<Sum>x\<in>B. own_slots (req_to_token s) (kv_reqs s x))"
  proof -
    have "(\<Sum>x\<in>B. own_slots (req_to_token s') (kv_reqs s' x)) = (\<Sum>x\<in>B. own_slots (req_to_token s) (kv_reqs s x))"
      using ok(2) by (intro sum.cong) auto
    then show ?thesis using new a fin by (auto simp: slots_of_def)
  qed
  have "handles s' A = handles s B + H" using sums [of "\<lambda>r. {#node_of r#}"] A(2) by (simp add: handles_def)
  moreover have "rows_ok s' A"
    using D(9) sizes(1-3) rows sums [of own_row] fin a new(1) unfolding rows_ok_def
    by (auto simp: add.assoc [symmetric])
  moreover have "slots_ok s' A X'"
  proof -
    let ?o = "\<Sum>x\<in>B. own_slots (req_to_token s) (kv_reqs s x)"
    let ?n = "if A = B then {#} else own_slots (req_to_token s') (kv_reqs s' a)"
    have "tree_slots (kv_cache s') + allocator_slots (kv_allocator s') + (?n + ?o) + X' =
        (tree_slots (kv_cache s') + allocator_slots (kv_allocator s') + ?n + X') + ?o" by (simp only: ac_simps)
    also have "\<dots> = tree_slots (kv_cache s) + allocator_slots (kv_allocator s) + (own_slots (req_to_token s) (kv_reqs s a) + ?o) + X"
      unfolding slots by (simp only: ac_simps)
    also have "\<dots> = mset (map int [1..<Suc (alloc_size (kv_allocator s))])"
      using D(10) a fin by (simp add: slots_ok_def slots_of_def del: upt_Suc)
    finally show ?thesis using sizes(4) own by (simp add: slots_ok_def del: upt_Suc)
  qed
  ultimately show ?thesis using cache(1,2) reqs sizes(5) by (simp add: kv_inv_def)
qed

end
