(* ===== verification/SglOps.thy ===== *)
theory SglOps
  imports SglInv
begin

text \<open>
  Every operation of SGLang's memory keeps its invariant: eviction and allocation, the match and the lock of a
  request, the preparation of a batch, the hand-over of a row to the tree and the release.
\<close>

declare map_of_eq_Some_iff [simp del]

section \<open>The allocator\<close>

definition lists_sets :: "(nat set \<Rightarrow> nat list) \<Rightarrow> bool" where
  "lists_sets ord \<longleftrightarrow> (\<forall>S. finite S \<longrightarrow> distinct (ord S) \<and> set (ord S) = S)"

lemma allocator_ready_sorted: "allocator_ready a \<longleftrightarrow> is_not_in_free_group a \<and> allocator_sorted a"
  by (simp add: allocator_ready_def allocator_sorted_def)

lemma allocator_free_sel [simp]:
  "alloc_size (allocator_free idx a) = alloc_size a" "is_not_in_free_group (allocator_free idx a) = is_not_in_free_group a"
  "allocator_sorted (allocator_free idx a) = allocator_sorted a"
  by (simp_all add: allocator_free_def allocator_sorted_def)

lemma free_all_sel [simp]:
  "alloc_size (fold allocator_free fs a) = alloc_size a" "is_not_in_free_group (fold allocator_free fs a) = is_not_in_free_group a"
  "allocator_sorted (fold allocator_free fs a) = allocator_sorted a"
  by (induction fs arbitrary: a) simp_all

lemma evict_from_tree_sel:
  assumes "evict_from_tree_cache n leaves (c, a) = ok (c', a')"
  shows "alloc_size a' = alloc_size a \<and> is_not_in_free_group a' = is_not_in_free_group a"
  using assms
  by (cases "the (evict_leaves n leaves c)"; cases "evict_leaves n leaves c")
    (auto simp: evict_from_tree_cache_def deliver_def split: if_splits)

lemma allocator_alloc_sel:
  assumes "allocator_alloc n a = (r, a')"
  shows "alloc_size a' = alloc_size a" "is_not_in_free_group a' = is_not_in_free_group a"
  using assms by (auto simp: allocator_alloc_def merge_and_sort_free_def Let_def split: if_splits)

text \<open>Eviction during a group of frees does not occur; a group keeps the slots.\<close>

lemma free_group_slots:
  assumes "is_not_in_free_group a" "allocator_sorted a"
  shows "allocator_slots (free_group_begin a) = allocator_slots a" "alloc_size (free_group_begin a) = alloc_size a"
    "allocator_sorted (free_group_begin a)"
  using assms by (simp_all add: free_group_begin_def allocator_slots_def allocator_sorted_def)

lemma free_group_end_slots:
  assumes "\<not> is_not_in_free_group a" "allocator_sorted a"
  shows "allocator_slots (free_group_end a) = allocator_slots a" "alloc_size (free_group_end a) = alloc_size a"
    "allocator_sorted (free_group_end a)" "is_not_in_free_group (free_group_end a)"
proof -
  let ?a = "a\<lparr>is_not_in_free_group := True\<rparr>"
  have e: "free_group_end a = (if free_group a \<noteq> [] then allocator_free (concat (free_group a)) ?a else ?a)"
    by (simp add: free_group_end_def)
  have "allocator_slots ?a + mset (concat (free_group a)) = allocator_slots a" using assms(1) by (simp add: allocator_slots_def)
  then show "allocator_slots (free_group_end a) = allocator_slots a" unfolding e by (auto simp: allocator_free_slots)
  have "allocator_sorted ?a" using assms(2) by (simp add: allocator_sorted_def)
  then show "alloc_size (free_group_end a) = alloc_size a" "allocator_sorted (free_group_end a)" "is_not_in_free_group (free_group_end a)"
    unfolding e by simp_all
qed

section \<open>Eviction and allocation\<close>

lemma kv_inv_memory:
  assumes inv: "kv_inv s A X L F V" and cache: "radix_inv c L' F' V' (handles s A)" "cache_fits c" "is_eagle c = is_eagle (kv_cache s)"
    and kept: "kept L F V F' V'" and al: "allocator_sorted a" "alloc_size a = alloc_size (kv_allocator s)"
    and slots: "tree_slots c + allocator_slots a + X' = tree_slots (kv_cache s) + allocator_slots (kv_allocator s) + X"
  shows "kv_inv (s\<lparr>kv_cache := c, kv_allocator := a\<rparr>) A X' L' F' V'"
proof -
  let ?s = "s\<lparr>kv_cache := c, kv_allocator := a\<rparr>"
  have own: "slots_of ?s A = slots_of s A" by (simp add: slots_of_def)
  note D = kv_invD [OF inv]
  have "shares_prefix c F' V' (kv_reqs s b) \<and> unreleased (kv_reqs s b) \<and> row_ok (max_context_len s) c (req_to_token s) (kv_reqs s b)" if "b \<in> A" for b
    using kv_inv_req [OF inv that] shares_prefix_kept [OF _ _ kept cache(3)] row_ok_cong(1) [OF _ cache(3)] by blast
  then have "reqs_ok ?s A F' V'" by (simp add: reqs_ok_def)
  moreover have "handles ?s A = handles s A" "rows_ok ?s A" using D(9) by (simp_all add: handles_def rows_ok_def)
  moreover have "slots_ok ?s A X'"
  proof -
    have "tree_slots c + allocator_slots a + slots_of s A + X' = (tree_slots c + allocator_slots a + X') + slots_of s A"
      by (simp only: ac_simps)
    also have "\<dots> = tree_slots (kv_cache s) + allocator_slots (kv_allocator s) + slots_of s A + X" unfolding slots by (simp only: ac_simps)
    also have "\<dots> = mset (map int [1..<Suc (alloc_size a)])" using D(10) unfolding slots_ok_def al(2) .
    finally show ?thesis using own by (simp add: slots_ok_def del: upt_Suc mset_upt mset_map)
  qed
  ultimately show ?thesis using cache(1,2) al(1) by (simp add: kv_inv_def)
qed

lemma leaves_listed: "radix_inv c L F V hs \<Longrightarrow> lists_sets ord \<Longrightarrow> distinct (ord (evictable_leaves c)) \<and> set (ord (evictable_leaves c)) = evictable_leaves c"
  by (auto simp: radix_inv_def leaves_ok_def tree_ok_def lists_sets_def)

text \<open>Room: the slots that are free or can be made free.\<close>

definition room :: "kv_state \<Rightarrow> int" where
  "room s = int (available_size (kv_allocator s)) + evictable_size (kv_cache s)"

lemma kv_evict_ok:
  assumes inv: "kv_inv s A X L F V" and ready: "is_not_in_free_group (kv_allocator s)" and ord: "lists_sets ord"
  shows "\<exists>c a L'. kv_evict ord n s = ok (s\<lparr>kv_cache := c, kv_allocator := a\<rparr>) \<and> kv_inv (s\<lparr>kv_cache := c, kv_allocator := a\<rparr>) A X L' F V \<and>
    is_not_in_free_group a \<and> settings c = settings (kv_cache s) \<and> room (s\<lparr>kv_cache := c, kv_allocator := a\<rparr>) = room s \<and>
    evict_from_tree_cache n (ord (evictable_leaves (kv_cache s))) (kv_cache s, kv_allocator s) = ok (c, a) \<and>
    alloc_size a = alloc_size (kv_allocator s) \<and> (n \<le> available_size a \<or> evictable_size c = 0)"
proof -
  note D = kv_invD [OF inv]
  have "allocator_ready (kv_allocator s)" using ready D(5) by (simp add: allocator_ready_sorted)
  then obtain c a L' where r: "evict_from_tree_cache n (ord (evictable_leaves (kv_cache s))) (kv_cache s, kv_allocator s) = ok (c, a)"
    "radix_inv c L' F V (handles s A)" "frees c = []" "settings c = settings (kv_cache s)" "allocator_ready a"
    "tree_slots c + allocator_slots a = tree_slots (kv_cache s) + allocator_slots (kv_allocator s)"
    "int (available_size a) + evictable_size c = int (available_size (kv_allocator s)) + evictable_size (kv_cache s)"
    "n \<le> available_size a \<or> evictable_size c = 0"
    using evict_from_tree_ok [OF D(1,2) _ _ _ D(4), of "ord (evictable_leaves (kv_cache s))" "kv_allocator s" n] leaves_listed [OF D(1) ord] by blast
  have "kv_inv (s\<lparr>kv_cache := c, kv_allocator := a\<rparr>) A X L' F V"
    using r(3,5,6) D(2,3) settings_sel(1-3) [OF r(4)] evict_from_tree_sel [OF r(1)]
    by (intro kv_inv_memory [OF inv r(2)]) (simp_all add: cache_fits_def allocator_ready_sorted)
  then show ?thesis using r evict_from_tree_sel [OF r(1)] by (auto simp: kv_evict_def room_def allocator_ready_sorted)
qed

lemma kv_alloc_ok:
  assumes inv: "kv_inv s A X L F V" and ready: "is_not_in_free_group (kv_allocator s)" and ord: "lists_sets ord" and enough: "int n \<le> room s"
  shows "\<exists>locs c a L'. (\<forall>s'. kv_cache s' = kv_cache s \<and> kv_allocator s' = kv_allocator s \<longrightarrow>
      kv_alloc ord n s' = ok (locs, s'\<lparr>kv_cache := c, kv_allocator := a\<rparr>)) \<and> length locs = n \<and>
    kv_inv (s\<lparr>kv_cache := c, kv_allocator := a\<rparr>) A (X + mset locs) L' F V \<and> is_not_in_free_group a \<and>
    settings c = settings (kv_cache s) \<and> room (s\<lparr>kv_cache := c, kv_allocator := a\<rparr>) = room s - int n \<and>
    alloc_size a = alloc_size (kv_allocator s)"
proof -
  obtain c a L' where e: "kv_evict ord n s = ok (s\<lparr>kv_cache := c, kv_allocator := a\<rparr>)" "kv_inv (s\<lparr>kv_cache := c, kv_allocator := a\<rparr>) A X L' F V"
    "is_not_in_free_group a" "settings c = settings (kv_cache s)" "room (s\<lparr>kv_cache := c, kv_allocator := a\<rparr>) = room s"
    "n \<le> available_size a \<or> evictable_size c = 0"
    "evict_from_tree_cache n (ord (evictable_leaves (kv_cache s))) (kv_cache s, kv_allocator s) = ok (c, a)"
    "alloc_size a = alloc_size (kv_allocator s)" using kv_evict_ok [OF inv ready ord, of n] by blast
  let ?s = "s\<lparr>kv_cache := c, kv_allocator := a\<rparr>"
  note D = kv_invD [OF e(2)]
  have n: "n \<le> available_size a" using e(5,6) enough by (auto simp: room_def)
  have a: "allocator_ready a" using e(3) D(5) by (simp add: allocator_ready_sorted)
  obtain locs a' where al: "allocator_alloc n a = (Some locs, a')" "length locs = n" "allocator_ready a'"
    "allocator_slots a = allocator_slots a' + mset locs" "available_size a' = available_size a - n"
    using allocator_alloc_ok [OF a n] by blast
  have "\<forall>s'. kv_cache s' = kv_cache s \<and> kv_allocator s' = kv_allocator s \<longrightarrow>
      kv_alloc ord n s' = ok (locs, s'\<lparr>kv_cache := c, kv_allocator := a'\<rparr>)" using e(7) al(1) by (simp add: kv_alloc_def alloc_token_slots_def)
  moreover have "kv_inv (?s\<lparr>kv_cache := c, kv_allocator := a'\<rparr>) A (X + mset locs) L' F V"
    using D(1-4) al(3,4) allocator_alloc_sel(1) [OF al(1)]
    by (intro kv_inv_memory [OF e(2)]) (simp_all add: cache_fits_def allocator_ready_sorted ac_simps)
  moreover have "room (s\<lparr>kv_cache := c, kv_allocator := a'\<rparr>) = room s - int n" using e(5) al(5) n by (simp add: room_def)
  moreover have "is_not_in_free_group a'" using al(3) by (simp add: allocator_ready_sorted)
  ultimately show ?thesis
    using al(2) e(4,8) allocator_alloc_sel(1) [OF al(1)] by (intro exI [of _ locs] exI [of _ c] exI [of _ a'] exI [of _ L']) simp
qed

section \<open>Paths of keys\<close>

lemma raw_key_units_prefix: "prefix ts us \<Longrightarrow> prefix (lunits (raw_key ts e b)) (lunits (raw_key us e b))"
proof -
  assume "prefix ts us"
  then obtain zs where us: "us = ts @ zs" by (auto simp: prefix_def)
  have "prefix (map2 Bigram ts (tl ts)) (map2 Bigram us (tl us))"
  proof (cases ts)
    case (Cons t ts')
    then have ts: "ts = take (Suc (length ts')) us" using us by simp
    show ?thesis by (subst ts, subst ts) (simp only: units_bigram_take take_is_prefix)
  qed simp
  moreover have "prefix (map Tok ts) (map Tok us)" using us by simp
  ultimately have "prefix (key_units (raw_key ts e b)) (key_units (raw_key us e b))" by (simp add: key_units_raw)
  then show ?thesis unfolding lunits_def raw_key_sel by (rule map_mono_prefix)
qed

lemma lunits_raw: "lunits k = lunits (raw_key (raw_token_ids k) (extra_key k) (is_bigram k))"
  by (simp add: lunits_def key_units_raw) (simp add: key_units_def Let_def)

lemma raw_key_len: "key_len (raw_key ts e (is_eagle c)) = length ts - short_by c"
  by (simp add: key_len_def short_by_def)

lemma req_key_raw: "page_size c = 1 \<Longrightarrow> req_key c r toks = raw_key toks (req_extra_key r) (is_eagle c)"
  by (simp add: req_key_def page_aligned_def)

lemma match_key_path:
  assumes "page_size c = 1"
  obtains m where "key_path c (match_key r) = lunits (raw_key (take m (full_untruncated_fill_ids r)) (req_extra_key r) (is_eagle c))"
    "m \<le> length (full_untruncated_fill_ids r) - 1"
proof (rule that)
  let ?k = "match_key r"
  have "cache_key c ?k = ?k\<lparr>is_bigram := is_eagle c\<rparr>"
    using assms by (simp add: cache_key_def page_aligned_def maybe_to_bigram_view_def Let_def) (simp add: match_key_def)
  moreover have "lunits (?k\<lparr>is_bigram := b\<rparr>) = lunits (raw_key (take (raw_len ?k) (full_untruncated_fill_ids r)) (req_extra_key r) b)" for b
    by (subst lunits_raw) (simp add: raw_token_ids_def raw_len_def match_key_def)
  ultimately show "key_path c ?k = lunits (raw_key (take (raw_len ?k) (full_untruncated_fill_ids r)) (req_extra_key r) (is_eagle c))"
    by simp
  show "raw_len ?k \<le> length (full_untruncated_fill_ids r) - 1"
  proof -
    let ?n = "length (full_untruncated_fill_ids r)"
    have "compute_max_prefix_len r ?n \<le> ?n - 1" by (simp add: compute_max_prefix_len_def Let_def) linarith
    moreover have "raw_len (match_key r) = min (compute_max_prefix_len r ?n) ?n" by (auto simp: raw_len_def match_key_def)
    ultimately show ?thesis by simp
  qed
qed

section \<open>Matching and locking\<close>

text \<open>A request that waits holds no row and no slots.\<close>

definition waiting_req :: "radix_req \<Rightarrow> bool" where
  "waiting_req r \<longleftrightarrow> unreleased r \<and> req_pool_idx r = None \<and> kv_allocated_len r = 0"

lemma refresh_full:
  assumes "prefix (full_untruncated_fill_ids r) (origin_input_ids r @ output_ids r)"
  shows "refresh_fill_ids r = r\<lparr>full_untruncated_fill_ids := origin_input_ids r @ output_ids r\<rparr>"
proof (cases "length (origin_input_ids r) \<le> length (full_untruncated_fill_ids r)")
  case True
  let ?k = "length (full_untruncated_fill_ids r) - length (origin_input_ids r)"
  have "full_untruncated_fill_ids r = origin_input_ids r @ take ?k (output_ids r)"
    using assms True by (metis prefix_def append_eq_conv_conj take_all take_append)
  moreover have "?k \<le> length (output_ids r)" using assms by (auto dest: prefix_length_le)
  ultimately show ?thesis using True unfolding refresh_fill_ids_def Let_def by (metis append.assoc append_take_drop_id)
qed (simp add: refresh_fill_ids_def Let_def)

lemma kv_inv_inactive: "a \<notin> A \<Longrightarrow> kv_inv (set_req a r s) A X L F V \<longleftrightarrow> kv_inv s A X L F V"
proof -
  assume "a \<notin> A"
  then have *: "kv_reqs (set_req a r s) b = kv_reqs s b" if "b \<in> A" for b using that by (auto simp: set_req_def)
  then have "(\<Sum>b\<in>A. g (kv_reqs (set_req a r s) b)) = (\<Sum>b\<in>A. g (kv_reqs s b))" for g :: "radix_req \<Rightarrow> 'm multiset"
    by (intro sum.cong) auto
  moreover have "kv_cache (set_req a r s) = kv_cache s" "kv_allocator (set_req a r s) = kv_allocator s" "req_to_token (set_req a r s) = req_to_token s"
    "max_context_len (set_req a r s) = max_context_len s" "pool_size (set_req a r s) = pool_size s" "free_slots (set_req a r s) = free_slots s"
    by (simp_all add: set_req_def)
  ultimately show ?thesis using *
    by (simp add: kv_inv_def handles_def reqs_ok_def rows_ok_def slots_ok_def slots_of_def)
qed

text \<open>A request whose match is done and whose node is in the tree.\<close>

definition matched :: "kv_state \<Rightarrow> nat set \<Rightarrow> (nat \<Rightarrow> lunit list) \<Rightarrow> (nat \<Rightarrow> int list) \<Rightarrow> nat \<Rightarrow> bool" where
  "matched s L F V a \<longleftrightarrow> (let r = kv_reqs s a in
     waiting_req r \<and> shares_prefix (kv_cache s) F V r \<and> node_of r \<in> L \<and> cache_protected_len r = length (prefix_indices r) \<and>
     full_untruncated_fill_ids r = origin_input_ids r @ output_ids r \<and>
     extend_input_len r = length (full_untruncated_fill_ids r) - length (prefix_indices r) \<and>
     length (prefix_indices r) \<le> length (full_untruncated_fill_ids r) - 1 - short_by (kv_cache s))"

lemma init_next_ok:
  assumes inv: "kv_inv s A X L F V" and a: "a \<notin> A" and w: "waiting_req (kv_reqs s a)"
  shows "\<exists>r c L' F' V'. init_next_round_input now True a s = ok (set_req a r (s\<lparr>kv_cache := c\<rparr>)) \<and>
    kv_inv (set_req a r (s\<lparr>kv_cache := c\<rparr>)) A X L' F' V' \<and> matched (set_req a r (s\<lparr>kv_cache := c\<rparr>)) L' F' V' a \<and>
    settings c = settings (kv_cache s) \<and> evictable_size c = evictable_size (kv_cache s) \<and>
    r = (kv_reqs s a)\<lparr>full_untruncated_fill_ids := full_untruncated_fill_ids r, prefix_indices := prefix_indices r, last_node := last_node r,
      cache_protected_len := cache_protected_len r, extend_input_len := extend_input_len r\<rparr>"
proof -
  note D = kv_invD [OF inv]
  let ?full = "origin_input_ids (kv_reqs s a) @ output_ids (kv_reqs s a)"
  let ?r = "(kv_reqs s a)\<lparr>full_untruncated_fill_ids := ?full\<rparr>"
  have ref: "refresh_fill_ids (kv_reqs s a) = ?r" using w by (intro refresh_full) (simp add: waiting_req_def unreleased_def)
  obtain n c L' F' V' where m: "match_prefix now (match_key ?r) (kv_cache s) = ok ((V' n, n), c)" "radix_inv c L' F' V' (handles s A)"
    "grown (kv_cache s) L F V c L' F' V'" "n \<in> L'" "prefix (F' n) (key_path (kv_cache s) (match_key ?r))"
    using match_prefix_inv [OF D(1,2), of now "match_key ?r"] by blast
  have g: "settings c = settings (kv_cache s)" "frees c = frees (kv_cache s)" "evictable_size c = evictable_size (kv_cache s)"
    "tree_slots c = tree_slots (kv_cache s)" "kept L F V F' V'" using m(3) by (auto simp: grown_def kept_def)
  note set = settings_sel(1-3) [OF g(1)]
  have tree: "tree_ok c L' F' V'" using m(2) by (simp add: radix_inv_def)
  obtain k where k: "key_path (kv_cache s) (match_key ?r) = lunits (raw_key (take k ?full) (req_extra_key ?r) (is_eagle (kv_cache s)))" "k \<le> length ?full - 1"
    using match_key_path [OF D(3), of ?r] by auto
  have "prefix (F' n) (lunits (raw_key (take k ?full) (req_extra_key ?r) (is_eagle c)))" using m(5) unfolding k(1) set(3) .
  moreover have "req_path c ?r = lunits (raw_key ?full (req_extra_key ?r) (is_eagle c))" by (simp add: req_path_def)
  ultimately have path: "prefix (F' n) (req_path c ?r)"
    using prefix_order.trans [OF _ raw_key_units_prefix [OF take_is_prefix]] by metis
  have len: "length (V' n) = length (F' n)" using tree_lengths [OF tree m(4)] by simp
  have "length (F' n) \<le> length (take k ?full) - short_by (kv_cache s)" using prefix_length_le [OF m(5)] k(1) by (simp add: raw_key_len del: length_take)
  then have short: "length (V' n) \<le> length ?full - 1 - short_by (kv_cache s)" using len k(2) by simp
  let ?r1 = "?r\<lparr>prefix_indices := V' n, last_node := Some n, cache_protected_len := length (V' n), extend_input_len := length ?full - length (V' n)\<rparr>"
  let ?s = "s\<lparr>kv_cache := c\<rparr>" and ?s1 = "set_req a ?r1 (s\<lparr>kv_cache := c\<rparr>)"
  have "kv_inv (s\<lparr>kv_cache := c, kv_allocator := kv_allocator s\<rparr>) A X L' F' V'"
    using D(2-5) set g by (intro kv_inv_memory [OF inv m(2)]) (simp_all add: cache_fits_def)
  then have "kv_inv ?s1 A X L' F' V'" using a by (simp add: kv_inv_inactive)
  moreover have "init_next_round_input now True a s = ok ?s1" using m(1) ref by (simp add: init_next_round_input_def Let_def)
  moreover have "matched ?s1 L' F' V' a"
    using w path len m(4) short set(3)
    by (simp add: matched_def set_req_def waiting_req_def unreleased_def shares_prefix_def node_of_def req_path_def short_by_def)
  ultimately show ?thesis using g(1,3) by (intro exI [of _ ?r1] exI [of _ c] exI [of _ L'] exI [of _ F'] exI [of _ V']) simp
qed

text \<open>Admission takes a temporary lock while it checks the budget, and a second one when the request is admitted.\<close>

definition same_memory :: "radix_cache \<Rightarrow> radix_cache \<Rightarrow> bool" where
  "same_memory c c' \<longleftrightarrow> settings c' = settings c \<and> frees c' = frees c \<and> tree_slots c' = tree_slots c"

lemma lock_cycle:
  assumes inv: "radix_inv c L F V hs" and n: "n \<in> L" and on: "\<not> disable c"
  obtains k1 c1 k0 c0 k2 c2 k3 c3 where
    "inc_lock_ref n c = ok (k1, c1)" "dec_lock_ref n c1 = ok (k0, c0)" "inc_lock_ref n c1 = ok (k2, c2)" "dec_lock_ref n c2 = ok (k3, c3)"
    "radix_inv c0 L F V hs" "radix_inv c3 L F V (add_mset n hs)" "evictable_size c0 = evictable_size c" "evictable_size c3 = evictable_size c1"
    "same_memory c c0" "same_memory c c3" "settings c1 = settings c" "settings c2 = settings c"
proof -
  obtain k1 c1 where c1: "inc_lock_ref n c = ok (k1, c1)" "radix_inv c1 L F V (add_mset n hs)" "same_memory c c1"
    "root_node c1 = root_node c" "\<forall>x. node_value (node c1 x) = node_value (node c x)"
    using inc_lock_ok [OF inv n on] unfolding same_memory_def by blast
  have on1: "\<not> disable c1" using c1(3) on settings_sel(1) [of c1 c] by (simp add: same_memory_def)
  obtain k0 c0 where c0: "dec_lock_ref n c1 = ok (k0, c0)" "radix_inv c0 L F V hs" "same_memory c1 c0"
    "root_node c0 = root_node c1" "\<forall>x. node_value (node c0 x) = node_value (node c1 x)"
    using dec_lock_ok [OF c1(2) on1] unfolding same_memory_def by blast
  obtain k2 c2 where c2: "inc_lock_ref n c1 = ok (k2, c2)" "radix_inv c2 L F V (add_mset n (add_mset n hs))" "same_memory c1 c2"
    "root_node c2 = root_node c1" "\<forall>x. node_value (node c2 x) = node_value (node c1 x)"
    using inc_lock_ok [OF c1(2) n on1] unfolding same_memory_def by blast
  have on2: "\<not> disable c2" using c2(3) on1 settings_sel(1) [of c2 c1] by (simp add: same_memory_def)
  obtain k3 c3 where c3: "dec_lock_ref n c2 = ok (k3, c3)" "radix_inv c3 L F V (add_mset n hs)" "same_memory c2 c3"
    "root_node c3 = root_node c2" "\<forall>x. node_value (node c3 x) = node_value (node c2 x)"
    using dec_lock_ok [OF c2(2) on2] unfolding same_memory_def by blast
  have "evictable_size c0 = evictable_size c" using c0(4,5) c1(4,5) by (intro same_evictable [OF inv c0(2)]) simp_all
  moreover have "evictable_size c3 = evictable_size c1" using c3(4,5) c2(4,5) by (intro same_evictable [OF c1(2) c3(2)]) simp_all
  moreover have "same_memory c c0" "same_memory c c3" "settings c1 = settings c" "settings c2 = settings c"
    using c0(3) c1(3) c2(3) c3(3) by (simp_all add: same_memory_def)
  ultimately show thesis using that c0(1,2) c1(1) c2(1) c3(1,2) by blast
qed

lemma handles_cong: "(\<And>b. b \<in> A \<Longrightarrow> last_node (kv_reqs s' b) = last_node (kv_reqs s b)) \<Longrightarrow> handles s' A = handles s A"
  unfolding handles_def by (intro sum.cong) (simp_all add: node_of_def)

lemma admitted_inv:
  assumes inv: "kv_inv s A X L F V" and a: "a \<notin> A" and r: "waiting_req r" "shares_prefix (kv_cache s) F V r" "cache_protected_len r = length (prefix_indices r)"
    and c: "radix_inv c L F V (add_mset (node_of r) (handles s A))" "same_memory (kv_cache s) c"
  shows "kv_inv (set_req a r (s\<lparr>kv_cache := c\<rparr>)) (insert a A) X L F V"
proof -
  let ?s = "set_req a r (s\<lparr>kv_cache := c\<rparr>)"
  note D = kv_invD [OF inv]
  have sel: "kv_cache ?s = c" "kv_allocator ?s = kv_allocator s" "kv_reqs ?s a = r" "req_to_token ?s = req_to_token s" "max_context_len ?s = max_context_len s"
    "pool_size ?s = pool_size s" "free_slots ?s = free_slots s" and other: "b \<in> A \<Longrightarrow> kv_reqs ?s b = kv_reqs s b" for b
    using a by (auto simp: set_req_def)
  have m: "settings c = settings (kv_cache s)" "frees c = []" "tree_slots c = tree_slots (kv_cache s)" using c(2) D(4) by (simp_all add: same_memory_def)
  note set = settings_sel(1-3) [OF m(1)]
  have sums: "(\<Sum>b\<in>insert a A. g (kv_reqs ?s b)) = g r + (\<Sum>b\<in>A. g (kv_reqs s b))" for g :: "radix_req \<Rightarrow> 'm multiset"
  proof -
    have "(\<Sum>b\<in>A. g (kv_reqs ?s b)) = (\<Sum>b\<in>A. g (kv_reqs s b))" using other by (intro sum.cong) auto
    then show ?thesis using a D(6) sel(3) by simp
  qed
  have none: "req_pool_idx r = None" "kv_allocated_len r = 0" "unreleased r" using r(1) by (simp_all add: waiting_req_def)
  have hs: "handles ?s (insert a A) = add_mset (node_of r) (handles s A)" using sums [of "\<lambda>r. {#node_of r#}"] by (simp add: handles_def)
  have rows: "rows_ok ?s (insert a A)" using D(9) sums [of own_row] none sel by (simp add: rows_ok_def own_row_def)
  have "slots_of ?s (insert a A) = slots_of s A" using sums [of "own_slots (req_to_token s)"] none sel by (simp add: slots_of_def own_slots_def)
  then have slots: "slots_ok ?s (insert a A) X" using D(10) sel m(3) by (simp add: slots_ok_def del: upt_Suc)
  have "shares_prefix c F V r" using r(2) set(3) by (simp add: shares_prefix_def req_path_def)
  moreover have "shares_prefix c F V (kv_reqs s b) \<and> unreleased (kv_reqs s b) \<and> row_ok (max_context_len s) c (req_to_token s) (kv_reqs s b)" if "b \<in> A" for b
    using kv_inv_req [OF inv that] shares_prefix_kept [OF _ _ kept_refl set(3)] row_ok_cong(1) [OF _ set(3)] by blast
  moreover have "row_ok (max_context_len s) c (req_to_token s) r" using none r(3) by (simp add: row_ok_def)
  ultimately have "reqs_ok ?s (insert a A) F V" using none(3) sel(1,3-5) other by (simp add: reqs_ok_def)
  then show ?thesis using hs rows slots c(1) D(2,3,5) m(2) sel set by (simp add: kv_inv_def cache_fits_def)
qed

end
