(* ===== verification/SglBatch.thy ===== *)
theory SglBatch
  imports SglOps
begin

text \<open>
  Preparing a batch keeps the invariant of SGLang's memory: \<open>prepare_for_extend\<close> gives rows and slots to the requests
  of a prefill batch and \<open>prepare_for_decode\<close> one slot more to each running request, whenever there is room.
\<close>

declare map_of_eq_Some_iff [simp del]

section \<open>A batch of changes\<close>

lemma sum_changes:
  fixes g g' d :: "nat \<Rightarrow> 'm multiset"
  assumes "finite A" "S \<subseteq> A" "\<And>a. a \<in> S \<Longrightarrow> g' a = g a + d a" "\<And>a. a \<in> A - S \<Longrightarrow> g' a = g a"
  shows "(\<Sum>a\<in>A. g' a) = (\<Sum>a\<in>A. g a) + (\<Sum>a\<in>S. d a)"
proof -
  have "(\<Sum>a\<in>A. g' a) = (\<Sum>a\<in>A. g a + (if a \<in> S then d a else {#}))" using assms(2-4) by (intro sum.cong) auto
  also have "\<dots> = (\<Sum>a\<in>A. g a) + (\<Sum>a\<in>S. d a)" using assms(1,2) by (simp add: sum.distrib sum.If_cases Int_absorb1 Int_commute)
  finally show ?thesis .
qed

lemma kv_inv_batch:
  assumes inv: "kv_inv s A X L F V" and S: "S \<subseteq> A"
    and same: "kv_cache s' = kv_cache s" "kv_allocator s' = kv_allocator s" "max_context_len s' = max_context_len s" "pool_size s' = pool_size s"
      "\<And>i. length (req_to_token s' i) = max_context_len s"
    and others: "\<And>b. b \<notin> S \<Longrightarrow> kv_reqs s' b = kv_reqs s b"
      "\<And>b i. b \<in> A - S \<Longrightarrow> req_pool_idx (kv_reqs s b) = Some i \<Longrightarrow> req_to_token s' i = req_to_token s i"
    and these: "\<And>a. a \<in> S \<Longrightarrow> shares_prefix (kv_cache s) F V (kv_reqs s' a) \<and> unreleased (kv_reqs s' a) \<and>
        row_ok (max_context_len s) (kv_cache s) (req_to_token s') (kv_reqs s' a) \<and> node_of (kv_reqs s' a) = node_of (kv_reqs s a)"
    and own: "\<And>a. a \<in> S \<Longrightarrow> own_slots (req_to_token s') (kv_reqs s' a) = own_slots (req_to_token s) (kv_reqs s a) + Y a" "X = X' + (\<Sum>a\<in>S. Y a)"
    and rows: "\<And>a. a \<in> S \<Longrightarrow> own_row (kv_reqs s' a) = own_row (kv_reqs s a) + R a" "mset (free_slots s) = mset (free_slots s') + (\<Sum>a\<in>S. R a)"
  shows "kv_inv s' A X' L F V"
proof -
  note D = kv_invD [OF inv]
  have fin: "finite S" using D(6) S by (rule finite_subset [rotated])
  have b: "shares_prefix (kv_cache s) F V (kv_reqs s b) \<and> unreleased (kv_reqs s b) \<and> row_ok (max_context_len s) (kv_cache s) (req_to_token s') (kv_reqs s b)"
      "own_slots (req_to_token s') (kv_reqs s b) = own_slots (req_to_token s) (kv_reqs s b)" if "b \<in> A - S" for b
  proof -
    have bA: "b \<in> A" using that by simp
    have *: "req_to_token s' i = req_to_token s i" if "req_pool_idx (kv_reqs s b) = Some i" for i by (rule others(2) [OF \<open>b \<in> A - S\<close> that])
    show "shares_prefix (kv_cache s) F V (kv_reqs s b) \<and> unreleased (kv_reqs s b) \<and> row_ok (max_context_len s) (kv_cache s) (req_to_token s') (kv_reqs s b)"
      using kv_inv_req(1,2) [OF inv bA] row_ok_cong(1) [OF kv_inv_req(3) [OF inv bA] refl *] by blast
    show "own_slots (req_to_token s') (kv_reqs s b) = own_slots (req_to_token s) (kv_reqs s b)"
      by (rule row_ok_cong(2) [OF kv_inv_req(3) [OF inv bA] refl *])
  qed
  have reqs: "reqs_ok s' A F V"
    unfolding reqs_ok_def same
  proof
    fix a assume "a \<in> A"
    then show "shares_prefix (kv_cache s) F V (kv_reqs s' a) \<and> unreleased (kv_reqs s' a) \<and>
        row_ok (max_context_len s) (kv_cache s) (req_to_token s') (kv_reqs s' a)"
      using these [of a] b(1) [of a] others(1) [of a] by (cases "a \<in> S") auto
  qed
  have "handles s' A = handles s A"
    unfolding handles_def
  proof (intro sum.cong refl)
    fix a assume "a \<in> A"
    then show "{#node_of (kv_reqs s' a)#} = {#node_of (kv_reqs s a)#}" using these [of a] others(1) [of a] by (cases "a \<in> S") simp_all
  qed
  moreover have "rows_ok s' A"
  proof -
    have "(\<Sum>a\<in>A. own_row (kv_reqs s' a)) = (\<Sum>a\<in>A. own_row (kv_reqs s a)) + (\<Sum>a\<in>S. R a)"
      using rows(1) others(1) by (intro sum_changes [OF D(6) S]) auto
    then have "mset (free_slots s') + (\<Sum>a\<in>A. own_row (kv_reqs s' a)) = mset (free_slots s) + (\<Sum>a\<in>A. own_row (kv_reqs s a))"
      unfolding rows(2) by (simp only: ac_simps)
    then show ?thesis using D(9) same(3-5) unfolding rows_ok_def by presburger
  qed
  moreover have "slots_ok s' A X'"
  proof -
    have "slots_of s' A = slots_of s A + (\<Sum>a\<in>S. Y a)"
      unfolding slots_of_def using own(1) others(1) b(2) by (intro sum_changes [OF D(6) S]) auto
    then have "tree_slots (kv_cache s) + allocator_slots (kv_allocator s) + slots_of s' A + X' =
        tree_slots (kv_cache s) + allocator_slots (kv_allocator s) + slots_of s A + X" unfolding own(2) by (simp only: ac_simps)
    then show ?thesis using D(10) unfolding slots_ok_def same by simp
  qed
  ultimately show ?thesis using inv reqs unfolding kv_inv_def same by simp
qed

section \<open>Rows and slots for a prefill batch\<close>

lemma assign_slots_ok:
  assumes "distinct as" "length sel = length (filter (\<lambda>a. req_pool_idx (f a) = None) as)"
  shows "\<exists>row. (\<forall>a. assign_slots as sel f a = (if a \<in> set as then (f a)\<lparr>req_pool_idx := Some (row a)\<rparr> else f a)) \<and>
    (\<forall>a\<in>set as. \<forall>i. req_pool_idx (f a) = Some i \<longrightarrow> row a = i) \<and>
    mset sel = (\<Sum>a\<in>set as. if req_pool_idx (f a) = None then {#row a#} else {#})"
  using assms
proof (induction as arbitrary: sel f)
  case (Cons a as)
  show ?case
  proof (cases "req_pool_idx (f a)")
    case (Some i)
    then obtain row where row: "\<forall>b. assign_slots as sel f b = (if b \<in> set as then (f b)\<lparr>req_pool_idx := Some (row b)\<rparr> else f b)"
      "\<forall>b\<in>set as. \<forall>i. req_pool_idx (f b) = Some i \<longrightarrow> row b = i" "mset sel = (\<Sum>b\<in>set as. if req_pool_idx (f b) = None then {#row b#} else {#})"
      using Cons.IH [of sel f] Cons.prems by auto
    have same: "(f a)\<lparr>req_pool_idx := Some i\<rparr> = f a" using Some by simp
    have sum: "(\<Sum>b\<in>set as. if req_pool_idx (f b) = None then {#(row(a := i)) b#} else {#}) = (\<Sum>b\<in>set as. if req_pool_idx (f b) = None then {#row b#} else {#})"
      using Cons.prems(1) by (intro sum.cong) auto
    show ?thesis
      using Some row Cons.prems(1) same sum by (intro exI [of _ "row(a := i)"]) auto
  next
    case None
    then obtain i sel' where sel: "sel = i # sel'" using Cons.prems(2) by (cases sel) auto
    let ?f = "f(a := (f a)\<lparr>req_pool_idx := Some i\<rparr>)"
    have same: "filter (\<lambda>b. req_pool_idx (?f b) = None) as = filter (\<lambda>b. req_pool_idx (f b) = None) as"
      using Cons.prems(1) by (intro filter_cong) auto
    have d: "distinct as" "length sel' = length (filter (\<lambda>b. req_pool_idx (?f b) = None) as)"
      unfolding same using Cons.prems None sel by simp_all
    obtain row where row: "\<forall>b. assign_slots as sel' ?f b = (if b \<in> set as then (?f b)\<lparr>req_pool_idx := Some (row b)\<rparr> else ?f b)"
      "\<forall>b\<in>set as. \<forall>i. req_pool_idx (?f b) = Some i \<longrightarrow> row b = i" "mset sel' = (\<Sum>b\<in>set as. if req_pool_idx (?f b) = None then {#row b#} else {#})"
      using Cons.IH [OF d] by (elim exE conjE) (rule that; assumption)
    have sum: "(\<Sum>b\<in>set as. if req_pool_idx (f b) = None then {#(row(a := i)) b#} else {#}) = mset sel'"
      unfolding row(3) using Cons.prems(1) by (intro sum.cong) auto
    show ?thesis
      using None sel row(1,2) Cons.prems(1) sum by (intro exI [of _ "row(a := i)"]) auto
  qed
qed auto

lemma pool_write_ok:
  assumes "length vs = q - p" "p \<le> q" "q \<le> max_context_len s"
  shows "pool_write i p q vs s = ok (s\<lparr>req_to_token := (req_to_token s)(i := take p (req_to_token s i) @ vs @ drop q (req_to_token s i))\<rparr>)"
proof (cases "p < q")
  case True
  then show ?thesis using assms by (simp add: pool_write_def write_row_def Let_def)
next
  case False
  then show ?thesis using assms by (simp add: pool_write_def write_row_def Let_def)
qed

lemma write_cache_ok:
  assumes "distinct (map fst items)" "\<forall>(i, p, q, e, pre)\<in>set items. p = length pre \<and> q = p + e \<and> q \<le> max_context_len s"
    and "length out = sum_list (map (\<lambda>(i, p, q, e, pre). e) items)" "\<And>i. length (req_to_token s i) = max_context_len s"
  shows "\<exists>rows new. write_cache_indices out items s = ok (s\<lparr>req_to_token := rows\<rparr>) \<and> (\<forall>i. length (rows i) = max_context_len s) \<and>
    (\<forall>(i, p, q, e, pre)\<in>set items. length (new i) = e \<and> rows i = pre @ new i @ drop q (req_to_token s i)) \<and>
    (\<forall>i. i \<notin> fst ` set items \<longrightarrow> rows i = req_to_token s i) \<and> mset out = (\<Sum>i\<in>fst ` set items. mset (new i))"
  using assms
proof (induction items arbitrary: out s)
  case Nil
  then show ?case by (intro exI [of _ "req_to_token s"]) simp
next
  case (Cons x items)
  obtain i p q e pre where x: "x = (i, p, q, e, pre)" by (cases x)
  have x': "p = length pre" "q = p + e" "q \<le> max_context_len s" using Cons.prems(2) x by simp_all
  let ?row = "req_to_token s i"
  let ?s1 = "s\<lparr>req_to_token := (req_to_token s)(i := pre @ drop p ?row)\<rparr>"
  let ?s2 = "s\<lparr>req_to_token := (req_to_token s)(i := pre @ take e out @ drop q ?row)\<rparr>"
  have len: "length ?row = max_context_len s" "e \<le> length out" using Cons.prems(3,4) x by auto
  have w1: "pool_write i 0 p pre s = ok ?s1" using pool_write_ok [of pre p 0 s i] x' by simp
  have w2: "pool_write i p q (take e out) ?s1 = ok ?s2" using pool_write_ok [of "take e out" q p ?s1 i] x' len by (simp add: ac_simps)
  have d: "distinct (map fst items)" "i \<notin> fst ` set items" using Cons.prems(1) x by auto
  have out: "length (drop e out) = sum_list (map (\<lambda>(i, p, q, e, pre). e) items)" using Cons.prems(3) x by simp
  have rows2: "length (req_to_token ?s2 j) = max_context_len ?s2" for j using Cons.prems(4) x' len by simp
  have "\<exists>rows new. write_cache_indices (drop e out) items ?s2 = ok (?s2\<lparr>req_to_token := rows\<rparr>) \<and> (\<forall>i. length (rows i) = max_context_len ?s2) \<and>
    (\<forall>(i, p, q, e, pre)\<in>set items. length (new i) = e \<and> rows i = pre @ new i @ drop q (req_to_token ?s2 i)) \<and>
    (\<forall>i. i \<notin> fst ` set items \<longrightarrow> rows i = req_to_token ?s2 i) \<and> mset (drop e out) = (\<Sum>i\<in>fst ` set items. mset (new i))"
    using Cons.prems(2) rows2 by (intro Cons.IH [OF d(1) _ out]) simp_all
  then obtain rows new where r: "write_cache_indices (drop e out) items ?s2 = ok (?s2\<lparr>req_to_token := rows\<rparr>)" "\<forall>i. length (rows i) = max_context_len ?s2"
    "\<forall>(i, p, q, e, pre)\<in>set items. length (new i) = e \<and> rows i = pre @ new i @ drop q (req_to_token ?s2 i)"
    "\<forall>i. i \<notin> fst ` set items \<longrightarrow> rows i = req_to_token ?s2 i" "mset (drop e out) = (\<Sum>i\<in>fst ` set items. mset (new i))"
    by (elim exE conjE) (rule that; assumption)
  let ?new = "new(i := take e out)"
  have "write_cache_indices out (x # items) s = ok (s\<lparr>req_to_token := rows\<rparr>)" unfolding x using w1 w2 r(1) by simp
  moreover have "\<forall>(j, p, q, e, pre)\<in>set (x # items). length (?new j) = e \<and> rows j = pre @ ?new j @ drop q (req_to_token s j)"
  proof
    fix y assume y: "y \<in> set (x # items)"
    obtain j p' q' e' pre' where y': "y = (j, p', q', e', pre')" by (cases y)
    show "case y of (j, p, q, e, pre) \<Rightarrow> length (?new j) = e \<and> rows j = pre @ ?new j @ drop q (req_to_token s j)"
    proof (cases "y \<in> set items")
      case True
      then have "j \<noteq> i" using d(2) y' by force
      then show ?thesis using r(3) True y' by auto
    next
      case False
      then have "y = x" using y by simp
      then show ?thesis using r(4) d(2) x len by simp
    qed
  qed
  moreover have "mset out = (\<Sum>j\<in>fst ` set (x # items). mset (?new j))"
  proof -
    have "(\<Sum>j\<in>fst ` set items. mset (?new j)) = mset (drop e out)" unfolding r(5) using d(2) by (intro sum.cong) auto
    moreover have "mset out = mset (take e out) + mset (drop e out)" by (metis append_take_drop_id mset_append)
    ultimately show ?thesis using d(2) x by simp
  qed
  moreover have "\<forall>j. j \<notin> fst ` set (x # items) \<longrightarrow> rows j = req_to_token s j" using r(4) x by auto
  ultimately show ?case using r(2) by (intro exI [of _ rows] exI [of _ ?new]) simp
qed

lemma commit_extend_ok:
  assumes "distinct as" "\<And>a. a \<in> set as \<Longrightarrow> fill_len (kv_reqs s a) = length (prefix_indices (kv_reqs s a)) + extend_input_len (kv_reqs s a)"
  shows "res_fold commit_extend as s = ok (s\<lparr>kv_reqs := (\<lambda>a. if a \<in> set as
    then (kv_reqs s a)\<lparr>kv_committed_len := fill_len (kv_reqs s a), kv_allocated_len := fill_len (kv_reqs s a), is_retracted := False\<rparr> else kv_reqs s a)\<rparr>)"
  using assms
proof (induction as arbitrary: s)
  case (Cons a as)
  let ?r = "(kv_reqs s a)\<lparr>kv_committed_len := fill_len (kv_reqs s a), kv_allocated_len := fill_len (kv_reqs s a), is_retracted := False\<rparr>"
  have "commit_extend a s = ok (set_req a ?r s)" using Cons.prems(2) by (simp add: commit_extend_def Let_def)
  moreover have "res_fold commit_extend as (set_req a ?r s) = ok ((set_req a ?r s)\<lparr>kv_reqs := (\<lambda>b. if b \<in> set as
      then (kv_reqs (set_req a ?r s) b)\<lparr>kv_committed_len := fill_len (kv_reqs (set_req a ?r s) b), kv_allocated_len := fill_len (kv_reqs (set_req a ?r s) b),
        is_retracted := False\<rparr> else kv_reqs (set_req a ?r s) b)\<rparr>)"
    using Cons.prems by (intro Cons.IH) (auto simp: set_req_def)
  moreover have "a \<notin> set as" using Cons.prems(1) by simp
  ultimately show ?case by (auto simp: set_req_def intro!: arg_cong [where f = "\<lambda>f. s\<lparr>kv_reqs := f\<rparr>"])
qed simp

text \<open>What a request of a prefill batch brings: the length to compute follows the prefix it has.\<close>

definition can_extend :: "kv_state \<Rightarrow> radix_req \<Rightarrow> bool" where
  "can_extend s r \<longleftrightarrow> fill_len r = length (prefix_indices r) + extend_input_len r \<and> fill_len r \<le> length (full_untruncated_fill_ids r) \<and>
     fill_len r \<le> max_context_len s \<and> cache_protected_len r \<le> fill_len r - short_by (kv_cache s) \<and>
     (req_pool_idx r = None \<or> kv_allocated_len r = length (prefix_indices r) \<and> (0 < inflight_middle_chunks r \<or> 0 < kv_committed_len r))"

definition committed :: "nat option \<Rightarrow> radix_req \<Rightarrow> radix_req" where
  "committed i r = r\<lparr>req_pool_idx := i, kv_committed_len := fill_len r, kv_allocated_len := fill_len r, is_retracted := False\<rparr>"

lemma committed_own:
  assumes "can_extend s r" "row_ok ctx c rows r" "shares_prefix c F V r" "\<And>j. req_pool_idx r = Some j \<Longrightarrow> i = j"
    and "rows' i = prefix_indices r @ new @ rest" "length new = extend_input_len r"
  shows "own_slots rows' (committed (Some i) r) = own_slots rows r + mset new"
proof -
  have "cache_protected_len r \<le> length (prefix_indices r)" using assms(3) by (simp add: shares_prefix_def)
  then have "own_slots rows' (committed (Some i) r) = mset (drop (cache_protected_len r) (prefix_indices r)) + mset new"
    using assms(1,5,6) by (simp add: own_slots_def committed_def can_extend_def)
  moreover have "own_slots rows r = mset (drop (cache_protected_len r) (prefix_indices r))"
  proof (cases "req_pool_idx r")
    case (Some j)
    then have "prefix_indices r = take (kv_allocated_len r) (rows j)" using assms(1,2) by (simp add: row_ok_def can_extend_def)
    then show ?thesis using Some by (simp add: own_slots_def)
  qed (use assms(2) in \<open>simp add: own_slots_def row_ok_def\<close>)
  ultimately show ?thesis by simp
qed

lemma zip_maps: "zip (map f xs) (map g xs) = map (\<lambda>x. (f x, g x)) xs"
  by (induction xs) simp_all

lemma prepare_extend_ok:
  assumes inv: "kv_inv s A X L F V" and as: "distinct as" "set as \<subseteq> A" and ext: "\<And>a. a \<in> set as \<Longrightarrow> can_extend s (kv_reqs s a)"
    and rows: "length (filter (\<lambda>a. req_pool_idx (kv_reqs s a) = None) as) \<le> length (free_slots s)"
    and room: "int (\<Sum>a\<leftarrow>as. extend_input_len (kv_reqs s a)) \<le> room s"
    and ready: "is_not_in_free_group (kv_allocator s)" and ord: "lists_sets ord"
  shows "\<exists>s' L' row. prepare_for_extend ord as s = ok (map (\<lambda>a. fill_len (kv_reqs s a)) as, s') \<and> kv_inv s' A X L' F V \<and>
    kv_reqs s' = (\<lambda>a. if a \<in> set as then committed (Some (row a)) (kv_reqs s a) else kv_reqs s a) \<and>
    is_not_in_free_group (kv_allocator s') \<and> settings (kv_cache s') = settings (kv_cache s) \<and>
    max_context_len s' = max_context_len s \<and> pool_size s' = pool_size s \<and> alloc_size (kv_allocator s') = alloc_size (kv_allocator s) \<and>
    length (free_slots s') = length (free_slots s) - length (filter (\<lambda>a. req_pool_idx (kv_reqs s a) = None) as)"
proof -
  note D = kv_invD [OF inv]
  let ?none = "filter (\<lambda>a. req_pool_idx (kv_reqs s a) = None) as" and ?r = "kv_reqs s"
  let ?n = "\<Sum>a\<leftarrow>as. extend_input_len (?r a)"
  text \<open>rows\<close>
  have need: "length as - length (filter (\<lambda>a. req_pool_idx (?r a) \<noteq> None) as) = length ?none"
    using sum_length_filter_compl [of "\<lambda>a. req_pool_idx (?r a) = None" as] by simp
  let ?f = "assign_slots as (take (length ?none) (free_slots s)) ?r"
  let ?free = "drop (length ?none) (free_slots s)"
  obtain row where row: "\<forall>a. ?f a = (if a \<in> set as then (?r a)\<lparr>req_pool_idx := Some (row a)\<rparr> else ?r a)"
    "\<forall>a\<in>set as. \<forall>i. req_pool_idx (?r a) = Some i \<longrightarrow> row a = i"
    "mset (take (length ?none) (free_slots s)) = (\<Sum>a\<in>set as. if req_pool_idx (?r a) = None then {#row a#} else {#})"
    using assign_slots_ok [OF as(1), of "take (length ?none) (free_slots s)" ?r] rows by auto
  let ?sf = "s\<lparr>free_slots := ?free, kv_reqs := ?f\<rparr>"
  let ?R = "\<lambda>a. if req_pool_idx (?r a) = None then {#row a#} else {#}"
  have R: "own_row ((?r a)\<lparr>req_pool_idx := Some (row a)\<rparr>) = own_row (?r a) + ?R a" if "a \<in> set as" for a
    using row(2) that by (cases "req_pool_idx (?r a)") (auto simp: own_row_def)
  have free: "mset (free_slots s) = mset ?free + (\<Sum>a\<in>set as. ?R a)"
    unfolding row(3) [symmetric] by (metis append_take_drop_id mset_append union_commute)
  have "(\<Sum>a\<in>A. own_row (?f a)) = (\<Sum>a\<in>A. own_row (?r a)) + (\<Sum>a\<in>set as. ?R a)"
    using R row(1) by (intro sum_changes [OF D(6) as(2)]) auto
  then have "mset ?free + (\<Sum>a\<in>A. own_row (?f a)) = mset (free_slots s) + (\<Sum>a\<in>A. own_row (?r a))"
    unfolding free by (simp only: ac_simps)
  then have sf: "rows_ok ?sf A" using D(9) by (simp add: rows_ok_def)
  have idx: "req_pool_idx (kv_reqs ?sf a) = Some (row a)" if "a \<in> set as" for a using row(1) that by simp
  have inj: "inj_on row (set as)" 
  proof (rule inj_onI)
    fix a b assume ab: "a \<in> set as" "b \<in> set as" "row a = row b"
    then show "a = b" using rows_distinct(2) [OF sf _ idx [OF ab(2)], of a] idx [OF ab(1)] as(2) by auto
  qed
  have other: "i \<notin> row ` set as" if "b \<in> A - set as" "req_pool_idx (?r b) = Some i" for b i
  proof
    assume "i \<in> row ` set as"
    then obtain a where a: "a \<in> set as" "i = row a" by blast
    then have "b = a" using rows_distinct(2) [OF sf _ idx [OF a(1)], of b] that row(1) as(2) by auto
    then show False using that(1) a(1) by simp
  qed
  text \<open>slots\<close>
  obtain locs c al L' where al: "\<And>s'. kv_cache s' = kv_cache s \<and> kv_allocator s' = kv_allocator s \<Longrightarrow>
      kv_alloc ord ?n s' = ok (locs, s'\<lparr>kv_cache := c, kv_allocator := al\<rparr>)" "length locs = ?n"
    "kv_inv (s\<lparr>kv_cache := c, kv_allocator := al\<rparr>) A (X + mset locs) L' F V" "is_not_in_free_group al" "settings c = settings (kv_cache s)"
    "alloc_size al = alloc_size (kv_allocator s)"
    using kv_alloc_ok [OF inv ready ord room] by blast
  let ?t = "s\<lparr>kv_cache := c, kv_allocator := al\<rparr>" and ?tf = "?sf\<lparr>kv_cache := c, kv_allocator := al\<rparr>"
  text \<open>indices\<close>
  let ?items = "map (\<lambda>a. (row a, length (prefix_indices (?r a)), fill_len (?r a), extend_input_len (?r a), prefix_indices (?r a))) as"
  have "map (\<lambda>a. the (req_pool_idx (?f a))) as = map row as" using row(1) by simp
  then have zips: "zip (map (\<lambda>a. the (req_pool_idx (?f a))) as) (zip (map length (map (\<lambda>a. prefix_indices (?r a)) as)) (zip (map (\<lambda>a. fill_len (?r a)) as)
      (zip (map (\<lambda>a. extend_input_len (?r a)) as) (map (\<lambda>a. prefix_indices (?r a)) as)))) = ?items"
    by (simp only: zip_maps map_map o_def)
  have ext': "\<forall>a\<in>set as. fill_len (?r a) = length (prefix_indices (?r a)) + extend_input_len (?r a) \<and>
      length (prefix_indices (?r a)) + extend_input_len (?r a) \<le> max_context_len s \<and>
      length (prefix_indices (?r a)) + extend_input_len (?r a) \<le> length (full_untruncated_fill_ids (?r a))"
    using ext by (metis can_extend_def)
  have fst: "fst ` set ?items = row ` set as" by force
  have "distinct (map fst ?items)" using as(1) inj by (simp add: o_def distinct_map)
  moreover have "\<forall>(i, p, q, e, pre)\<in>set ?items. p = length pre \<and> q = p + e \<and> q \<le> max_context_len ?tf"
    using ext' by auto
  moreover have "length locs = sum_list (map (\<lambda>(i, p, q, e, pre). e) ?items)" using al(2) by (simp add: o_def)
  moreover have "length (req_to_token ?tf i) = max_context_len ?tf" for i using D(7) by simp
  ultimately obtain rows new where w: "write_cache_indices locs ?items ?tf = ok (?tf\<lparr>req_to_token := rows\<rparr>)" "\<forall>i. length (rows i) = max_context_len ?tf"
    "\<forall>(i, p, q, e, pre)\<in>set ?items. length (new i) = e \<and> rows i = pre @ new i @ drop q (req_to_token ?tf i)"
    "\<forall>i. i \<notin> row ` set as \<longrightarrow> rows i = req_to_token ?tf i" "mset locs = (\<Sum>i\<in>row ` set as. mset (new i))"
    using write_cache_ok [of ?items ?tf locs] unfolding fst by blast
  have new: "length (new (row a)) = extend_input_len (?r a)"
    "rows (row a) = prefix_indices (?r a) @ new (row a) @ drop (fill_len (?r a)) (req_to_token s (row a))" if "a \<in> set as" for a
    using w(3) that by auto
  text \<open>lengths\<close>
  let ?s' = "?tf\<lparr>req_to_token := rows, kv_reqs := (\<lambda>a. if a \<in> set as then committed (Some (row a)) (?r a) else ?r a)\<rparr>"
  have len: "map (\<lambda>a. length (drop (length (prefix_indices (?r a))) (get_fill_ids (?r a)))) as = map (\<lambda>a. extend_input_len (?r a)) as"
    using ext' by (auto simp: get_fill_ids_def min_absorb2)
  let ?u = "?tf\<lparr>req_to_token := rows\<rparr>"
  have "res_fold commit_extend as ?u = ok (?u\<lparr>kv_reqs := (\<lambda>a. if a \<in> set as
    then (kv_reqs ?u a)\<lparr>kv_committed_len := fill_len (kv_reqs ?u a), kv_allocated_len := fill_len (kv_reqs ?u a), is_retracted := False\<rparr> else kv_reqs ?u a)\<rparr>)"
    using row(1) ext' by (intro commit_extend_ok [OF as(1)]) simp
  also have "(\<lambda>a. if a \<in> set as
    then (kv_reqs ?u a)\<lparr>kv_committed_len := fill_len (kv_reqs ?u a), kv_allocated_len := fill_len (kv_reqs ?u a), is_retracted := False\<rparr> else kv_reqs ?u a) =
    (\<lambda>a. if a \<in> set as then committed (Some (row a)) (?r a) else ?r a)" using row(1) by (intro HOL.ext) (simp add: committed_def)
  finally have commit: "res_fold commit_extend as ?u = ok ?s'" by simp
  have "list_all (\<lambda>a. 0 < inflight_middle_chunks (?r a) \<or> 0 < kv_committed_len (?r a)) (filter (\<lambda>a. req_pool_idx (?r a) \<noteq> None) as)"
  proof -
    have "\<forall>a\<in>set as. req_pool_idx (?r a) = None \<or> 0 < inflight_middle_chunks (?r a) \<or> 0 < kv_committed_len (?r a)"
      using ext by (metis can_extend_def)
    then show ?thesis by (auto simp: list_all_iff)
  qed
  then have "alloc_for_extend ord ?n as s = ok ?u"
    using rows al(1) [of ?sf] w(1) zips need by (simp add: alloc_for_extend_def alloc_req_slots_def req_pool_alloc_def Let_def)
  moreover have "sum_list (map length (map (\<lambda>a. drop (length (prefix_indices (?r a))) (get_fill_ids (?r a))) as)) = ?n"
    unfolding map_map o_def len ..
  ultimately have run: "prepare_for_extend ord as s = ok (map (\<lambda>a. fill_len (?r a)) as, ?s')"
    using commit unfolding prepare_for_extend_def Let_def by simp
  text \<open>the invariant\<close>
  let ?Y = "\<lambda>a. mset (new (row a))"
  note T = kv_inv_req [OF al(3)]
  have locs: "X + mset locs = X + (\<Sum>a\<in>set as. ?Y a)" using w(5) inj by (simp add: sum.reindex)
  have "kv_inv ?s' A X L' F V"
  proof (rule kv_inv_batch [OF al(3) as(2), where Y = ?Y and R = ?R])
    fix a assume a: "a \<in> set as"
    then have aA: "a \<in> A" using as(2) by blast
    let ?c = "committed (Some (row a)) (?r a)"
    have t: "shares_prefix c F V (?r a)" "unreleased (?r a)" "row_ok (max_context_len s) c (req_to_token s) (?r a)" "can_extend s (?r a)"
      using T(1-3) [OF aA] ext [OF a] by simp_all
    have short: "short_by c = short_by (kv_cache s)" using settings_sel(3) [OF al(5)] by (simp add: short_by_def)
    have "row_ok (max_context_len s) c rows ?c" using t(4) new(2) [OF a] short by (auto simp: row_ok_def can_extend_def committed_def)
    then show "shares_prefix (kv_cache ?t) F V (kv_reqs ?s' a) \<and> unreleased (kv_reqs ?s' a) \<and>
        row_ok (max_context_len ?t) (kv_cache ?t) (req_to_token ?s') (kv_reqs ?s' a) \<and> node_of (kv_reqs ?s' a) = node_of (kv_reqs ?t a)"
      using a t(1,2) by (simp add: shares_prefix_def unreleased_def committed_def req_path_def node_of_def)
    have "own_slots rows ?c = own_slots (req_to_token s) (?r a) + ?Y a"
      using row(2) a new [OF a] by (intro committed_own [OF t(4,3,1)]) auto
    then show "own_slots (req_to_token ?s') (kv_reqs ?s' a) = own_slots (req_to_token ?t) (kv_reqs ?t a) + ?Y a" using a by simp
    show "own_row (kv_reqs ?s' a) = own_row (kv_reqs ?t a) + ?R a" using R [OF a] a by (simp add: own_row_def committed_def)
  next
    show "length (req_to_token ?s' i) = max_context_len ?t" for i using w(2) by simp
    show "req_to_token ?s' i = req_to_token ?t i" if "b \<in> A - set as" "req_pool_idx (kv_reqs ?t b) = Some i" for b i
      using w(4) other that by simp
  qed (use locs free in simp_all)
  moreover have "alloc_size al = alloc_size (kv_allocator s)" by (rule al(6))
  ultimately show ?thesis using run al(4,5) by (intro exI [of _ ?s'] exI [of _ L'] exI [of _ row]) simp
qed

section \<open>One slot more for each running request\<close>

lemma write_decode_ok:
  assumes "distinct as" "inj_on row (set as)" "\<forall>a\<in>set as. req_pool_idx (kv_reqs s a) = Some (row a) \<and> l a < max_context_len s" "length out = length as"
  shows "\<exists>rows new. res_fold write_decode (zip as (zip (map l as) out)) s = ok (s\<lparr>req_to_token := rows\<rparr>) \<and>
    (\<forall>a\<in>set as. rows (row a) = (req_to_token s (row a))[l a := new a]) \<and> (\<forall>i. i \<notin> row ` set as \<longrightarrow> rows i = req_to_token s i) \<and>
    mset out = (\<Sum>a\<in>set as. {#new a#})"
  using assms
proof (induction as arbitrary: s out)
  case Nil
  then show ?case by (intro exI [of _ "req_to_token s"]) simp
next
  case (Cons a as)
  obtain v out' where out: "out = v # out'" "length out' = length as" using Cons.prems(4) by (cases out) auto
  have a: "a \<notin> set as" "row a \<notin> row ` set as" "distinct as" "inj_on row (set as)" using Cons.prems(1,2) by auto
  let ?s = "s\<lparr>req_to_token := (req_to_token s)(row a := (req_to_token s (row a))[l a := v])\<rparr>"
  have w: "write_decode (a, l a, v) s = ok ?s" using Cons.prems(3) by (simp add: write_decode_def)
  have "\<forall>b\<in>set as. req_pool_idx (kv_reqs ?s b) = Some (row b) \<and> l b < max_context_len ?s" using Cons.prems(3) by simp
  from Cons.IH [OF a(3,4) this out(2)]
  obtain rows new where r: "res_fold write_decode (zip as (zip (map l as) out')) ?s = ok (?s\<lparr>req_to_token := rows\<rparr>)"
    "\<forall>b\<in>set as. rows (row b) = (req_to_token ?s (row b))[l b := new b]" "\<forall>i. i \<notin> row ` set as \<longrightarrow> rows i = req_to_token ?s i"
    "mset out' = (\<Sum>b\<in>set as. {#new b#})" by (elim exE conjE) (rule that; assumption)
  have sum: "(\<Sum>b\<in>set as. {#(new(a := v)) b#}) = mset out'" unfolding r(4) using a(1) by (intro sum.cong) auto
  have row: "row b \<noteq> row a" if "b \<in> set as" for b using a(2) that by (metis image_eqI)
  have "\<forall>b\<in>set (a # as). rows (row b) = (req_to_token s (row b))[l b := (new(a := v)) b]"
    using r(2,3) a(1,2) row by auto
  moreover have "\<forall>i. i \<notin> row ` set (a # as) \<longrightarrow> rows i = req_to_token s i" using r(3) by simp
  ultimately show ?case using w r(1) out a(1) sum by (intro exI [of _ rows] exI [of _ "new(a := v)"]) simp
qed

definition grown_by_one :: "radix_req \<Rightarrow> radix_req" where
  "grown_by_one r = r\<lparr>kv_committed_len := kv_committed_len r + 1, kv_allocated_len := kv_allocated_len r + 1\<rparr>"

lemma commit_decode_ok:
  "distinct as \<Longrightarrow> fold commit_decode as s = s\<lparr>kv_reqs := (\<lambda>a. if a \<in> set as then grown_by_one (kv_reqs s a) else kv_reqs s a)\<rparr>"
proof (induction as arbitrary: s)
  case (Cons a as)
  then show ?case
    by (auto simp: commit_decode_def change_req_def set_req_def grown_by_one_def intro!: arg_cong [where f = "\<lambda>f. s\<lparr>kv_reqs := f\<rparr>"])
qed simp

lemma prepare_decode_ok:
  assumes inv: "kv_inv s A X L F V" and as: "distinct as" "set as \<subseteq> A"
    and rows: "\<And>a. a \<in> set as \<Longrightarrow> req_pool_idx (kv_reqs s a) \<noteq> None \<and> kv_allocated_len (kv_reqs s a) < max_context_len s"
    and room: "int (length as) \<le> room s" and ready: "is_not_in_free_group (kv_allocator s)" and ord: "lists_sets ord"
  shows "\<exists>s' L'. prepare_for_decode ord as (map (\<lambda>a. kv_allocated_len (kv_reqs s a)) as) s =
      ok (map (\<lambda>a. Suc (kv_allocated_len (kv_reqs s a))) as, s') \<and> kv_inv s' A X L' F V \<and>
    kv_reqs s' = (\<lambda>a. if a \<in> set as then grown_by_one (kv_reqs s a) else kv_reqs s a) \<and>
    is_not_in_free_group (kv_allocator s') \<and> settings (kv_cache s') = settings (kv_cache s) \<and>
    max_context_len s' = max_context_len s \<and> pool_size s' = pool_size s \<and> alloc_size (kv_allocator s') = alloc_size (kv_allocator s) \<and>
    free_slots s' = free_slots s"
proof -
  note D = kv_invD [OF inv]
  let ?r = "kv_reqs s" and ?l = "\<lambda>a. kv_allocated_len (kv_reqs s a)" and ?row = "\<lambda>a. the (req_pool_idx (kv_reqs s a))"
  have idx: "req_pool_idx (?r a) = Some (?row a)" if "a \<in> set as" for a using rows [OF that] by auto
  have inj: "inj_on ?row (set as)"
  proof (rule inj_onI)
    fix a b assume ab: "a \<in> set as" "b \<in> set as" "?row a = ?row b"
    then show "a = b" using rows_distinct(2) [OF D(9) _ idx [OF ab(2)], of a] idx [OF ab(1)] as(2) by auto
  qed
  have other: "i \<notin> ?row ` set as" if "b \<in> A - set as" "req_pool_idx (?r b) = Some i" for b i
  proof
    assume "i \<in> ?row ` set as"
    then obtain a where a: "a \<in> set as" "i = ?row a" by blast
    then have "b = a" using rows_distinct(2) [OF D(9) _ idx [OF a(1)], of b] that as(2) by auto
    then show False using that(1) a(1) by simp
  qed
  obtain locs c al L' where al: "\<And>s'. kv_cache s' = kv_cache s \<and> kv_allocator s' = kv_allocator s \<Longrightarrow>
      kv_alloc ord (length as) s' = ok (locs, s'\<lparr>kv_cache := c, kv_allocator := al\<rparr>)" "length locs = length as"
    "kv_inv (s\<lparr>kv_cache := c, kv_allocator := al\<rparr>) A (X + mset locs) L' F V" "is_not_in_free_group al" "settings c = settings (kv_cache s)"
    "alloc_size al = alloc_size (kv_allocator s)"
    using kv_alloc_ok [OF inv ready ord room] by blast
  let ?t = "s\<lparr>kv_cache := c, kv_allocator := al\<rparr>"
  have "\<forall>a\<in>set as. req_pool_idx (kv_reqs ?t a) = Some (?row a) \<and> ?l a < max_context_len ?t" using idx rows by auto
  from write_decode_ok [OF as(1) inj this al(2)]
  obtain new_rows new where w: "res_fold write_decode (zip as (zip (map ?l as) locs)) ?t = ok (?t\<lparr>req_to_token := new_rows\<rparr>)"
    "\<forall>a\<in>set as. new_rows (?row a) = (req_to_token ?t (?row a))[?l a := new a]" "\<forall>i. i \<notin> ?row ` set as \<longrightarrow> new_rows i = req_to_token ?t i"
    "mset locs = (\<Sum>a\<in>set as. {#new a#})" by (elim exE conjE) (rule that; assumption)
  let ?s' = "?t\<lparr>req_to_token := new_rows, kv_reqs := (\<lambda>a. if a \<in> set as then grown_by_one (?r a) else ?r a)\<rparr>"
  have run: "prepare_for_decode ord as (map ?l as) s = ok (map (\<lambda>a. Suc (?l a)) as, ?s')"
    using al(1) [of s] w(1) commit_decode_ok [OF as(1), of "?t\<lparr>req_to_token := new_rows\<rparr>"]
    by (simp add: prepare_for_decode_def alloc_for_decode_def cong: if_cong)
  let ?Y = "\<lambda>a. {#new a#}"
  note T = kv_inv_req [OF al(3)]
  have "kv_inv ?s' A X L' F V"
  proof (rule kv_inv_batch [OF al(3) as(2), where Y = ?Y and R = "\<lambda>_. {#}"])
    fix a assume a: "a \<in> set as"
    then have aA: "a \<in> A" using as(2) by blast
    define i where "i = ?row a"
    have i: "req_pool_idx (?r a) = Some i" using idx [OF a] by (simp add: i_def)
    let ?g = "grown_by_one (?r a)" and ?old = "req_to_token s i"
    have t: "shares_prefix c F V (?r a)" "unreleased (?r a)" "row_ok (max_context_len s) c (req_to_token s) (?r a)"
      using T(1-3) [OF aA] by simp_all
    have r: "prefix_indices (?r a) = take (length (prefix_indices (?r a))) ?old" "length (prefix_indices (?r a)) \<le> ?l a" "?l a < max_context_len s"
      "cache_protected_len (?r a) \<le> ?l a - short_by c" "length ?old = max_context_len s"
      using row_okD [OF t(3) i] rows [OF a] D(7) by auto
    have new_row: "new_rows i = ?old[?l a := new a]" using w(2) a by (simp add: i_def)
    have "take (length (prefix_indices (?r a))) (new_rows i) = take (length (prefix_indices (?r a))) ?old" using r(2) new_row by simp
    then have "row_ok (max_context_len s) c new_rows ?g" using r i by (simp add: row_ok_def grown_by_one_def)
    then show "shares_prefix (kv_cache ?t) F V (kv_reqs ?s' a) \<and> unreleased (kv_reqs ?s' a) \<and>
        row_ok (max_context_len ?t) (kv_cache ?t) (req_to_token ?s') (kv_reqs ?s' a) \<and> node_of (kv_reqs ?s' a) = node_of (kv_reqs ?t a)"
      using a t(1,2) by (simp add: shares_prefix_def unreleased_def grown_by_one_def req_path_def node_of_def)
    have "take (Suc (?l a)) (?old[?l a := new a]) = take (?l a) ?old @ [new a]" using r(3,5) by (simp add: take_Suc_conv_app_nth)
    then have "own_slots new_rows ?g = own_slots (req_to_token s) (?r a) + ?Y a"
      using i new_row r(3-5) by (simp add: own_slots_def grown_by_one_def)
    then show "own_slots (req_to_token ?s') (kv_reqs ?s' a) = own_slots (req_to_token ?t) (kv_reqs ?t a) + ?Y a" using a by simp
    show "own_row (kv_reqs ?s' a) = own_row (kv_reqs ?t a) + {#}" using a by (simp add: own_row_def grown_by_one_def)
  next
    show "length (req_to_token ?s' i) = max_context_len ?t" for i using w(2,3) D(7) by (cases "i \<in> ?row ` set as") auto
    show "req_to_token ?s' i = req_to_token ?t i" if "b \<in> A - set as" "req_pool_idx (kv_reqs ?t b) = Some i" for b i
      using w(3) other that by simp
  qed (use w(4) in simp_all)
  then show ?thesis using run al(4-6) by (intro exI [of _ ?s'] exI [of _ L']) simp
qed

end
