(* ===== verification/SglRelease.thy ===== *)
theory SglRelease
  imports SglBatch
begin

text \<open>
  Giving slots back keeps the invariant of SGLang's memory: \<open>cache_unfinished_req\<close> hands the row of a request to the
  tree and leaves the request active, \<open>release_kv_cache\<close> ends it, and \<open>release_req\<close> sends it back to the queue.
\<close>

declare map_of_eq_Some_iff [simp del]

section \<open>Delivered frees\<close>

lemma tree_slots_frees:
  assumes "tree_ok c L F V"
  shows "tree_slots (c\<lparr>frees := fs\<rparr>) = tree_slots c"
  using tree_slots_eq [OF reaches_frees [OF assms]] tree_slots_eq [OF assms] by (simp add: node_slots_def)

lemma row_at: "req_pool_idx (kv_reqs s a) = Some i \<Longrightarrow> req_row (req_to_token s) (kv_reqs s a) = req_to_token s i"
  by (simp add: req_row_def)

text \<open>The ghost view and the view of the cache agree on what a request shares with the tree.\<close>

lemma shares_of:
  assumes tree: "tree_ok c L F V" and page: "page_size c = 1" and sh: "shares_prefix c F V r" and n: "node_of r \<in> L"
    and row: "prefix_indices r = take (length (prefix_indices r)) row"
    and toks: "prefix toks (origin_input_ids r @ output_ids r)" and len: "cache_protected_len r \<le> length toks - short_by c"
  shows "shares c r row (lunits (req_key c r toks)) (node_of r)"
proof -
  let ?p = "cache_protected_len r"
  have s: "last_node r = Some (node_of r)" "prefix (F (node_of r)) (req_path c r)" "length (F (node_of r)) = ?p"
    "V (node_of r) = take ?p (prefix_indices r)" "?p \<le> length (prefix_indices r)"
    using sh by (auto simp: shares_prefix_def node_of_def)
  have key: "lunits (req_key c r toks) = lunits (raw_key toks (req_extra_key r) (is_eagle c))" by (simp add: req_key_raw [OF page])
  then have "prefix (lunits (req_key c r toks)) (req_path c r)" using raw_key_units_prefix [OF toks] by (simp add: req_path_def)
  moreover have "length (F (node_of r)) \<le> length (lunits (req_key c r toks))"
    using len s(3) by (simp add: req_key_raw [OF page] raw_key_len)
  ultimately have "prefix (F (node_of r)) (lunits (req_key c r toks))" using s(2) by (metis prefix_length_prefix)
  moreover have "V (node_of r) = take ?p row"
  proof -
    have "V (node_of r) = take ?p (take (length (prefix_indices r)) row)" using s(4) row by simp
    also have "\<dots> = take ?p row" using s(5) by (simp add: min_def)
    finally show ?thesis .
  qed
  ultimately show ?thesis
    using s(1,3) n reaches_iff [OF tree, of "node_of r"] by (auto simp: shares_def intro!: exI [of _ "F (node_of r)"])
qed

lemma shares_back:
  assumes tree: "tree_ok c L F V" and page: "page_size c = 1" and sh: "shares c r row (lunits (req_key c r toks)) n"
    and pre: "prefix_indices r = take (length toks) row" "cache_protected_len r \<le> length (prefix_indices r)"
    and toks: "prefix toks (origin_input_ids r @ output_ids r)"
  shows "shares_prefix c F V r" "node_of r = n" "n \<in> L"
proof -
  let ?p = "cache_protected_len r"
  obtain us where us: "last_node r = Some n" "reaches c n us (take ?p row)" "length us = ?p" "prefix us (lunits (req_key c r toks))"
    using sh by (auto simp: shares_def)
  have F: "n \<in> L" "F n = us" "V n = take ?p row" using us(2) reaches_iff [OF tree] by simp_all
  show "node_of r = n" "n \<in> L" using us(1) F(1) by (simp_all add: node_of_def)
  have "prefix us (req_path c r)"
    using us(4) raw_key_units_prefix [OF toks] by (auto simp: req_key_raw [OF page] req_path_def intro: prefix_order.trans)
  moreover have "take ?p row = take ?p (prefix_indices r)"
    using pre prefix_length_le [OF us(4)] us(3) by (auto simp: req_key_raw [OF page] raw_key_len min_def)
  ultimately show "shares_prefix c F V r" using us(1,3) F pre(2) by (simp add: shares_prefix_def node_of_def)
qed

section \<open>An unfinished request\<close>

lemma unfinished_ok:
  assumes inv: "kv_inv s A X L F V" and a: "a \<in> A" and i: "req_pool_idx (kv_reqs s a) = Some i"
    and fill: "kv_allocated_len (kv_reqs s a) = fill_len (kv_reqs s a)" "fill_len (kv_reqs s a) \<le> length (full_untruncated_fill_ids (kv_reqs s a))"
  shows "\<exists>s' L' F' V'. kv_cache_unfinished now chunked a s = ok s' \<and> kv_inv s' A X L' F' V' \<and>
    (\<exists>p pre n. kv_reqs s' = (kv_reqs s)(a := (kv_reqs s a)\<lparr>cache_protected_len := p, prefix_indices := pre, last_node := Some n\<rparr>) \<and>
      length pre = fill_len (kv_reqs s a) \<and> p = fill_len (kv_reqs s a) - short_by (kv_cache s)) \<and> kept L F V F' V' \<and>
    settings (kv_cache s') = settings (kv_cache s) \<and> max_context_len s' = max_context_len s \<and> pool_size s' = pool_size s \<and>
    free_slots s' = free_slots s \<and> is_not_in_free_group (kv_allocator s') = is_not_in_free_group (kv_allocator s) \<and>
    alloc_size (kv_allocator s') = alloc_size (kv_allocator s)"
proof -
  note D = kv_invD [OF inv] and R = kv_inv_req [OF inv a]
  define B where "B = A - {a}"
  have A: "A = insert a B" "a \<notin> B" "finite B" using a D(6) by (auto simp: B_def)
  let ?r = "kv_reqs s a" and ?c = "kv_cache s" and ?rows = "req_to_token s"
  let ?toks = "get_fill_ids ?r"
  note row = row_okD [OF R(3) i]
  have ctx: "length (?rows i) = max_context_len s" by (rule D(7))
  have len: "length ?toks = fill_len ?r" using fill(2) by (simp add: get_fill_ids_def)
  have toks: "prefix ?toks (origin_input_ids ?r @ output_ids ?r)"
    using R(2) by (auto simp: unreleased_def get_fill_ids_def intro: prefix_order.trans take_is_prefix)
  have inv': "radix_inv ?c L F V (add_mset (node_of ?r) (handles s B))" using D(1) A by (simp add: handles_def)
  have sh: "shares ?c ?r (?rows i) (lunits (req_key ?c ?r ?toks)) (node_of ?r)"
    using row(4) fill(1) len by (intro shares_of [OF D(11,3) R(1,4) row(1) toks]) simp
  have fits: "length ?toks \<le> length (?rows i)" using row(3) fill(1) len ctx by simp
  obtain r' n' c' rows' L' F' V' fs where u: "cache_unfinished_req now chunked ?r (?c, ?rows) = ok (r', c', rows')"
    "radix_inv c' L' F' V' (add_mset n' (handles s B))" "L \<subseteq> L'" "\<forall>x\<in>L. F' x = F x \<and> V' x = V x" "settings c' = settings ?c" "frees c' = frees ?c @ fs"
    "r' = ?r\<lparr>cache_protected_len := cache_protected_len r', prefix_indices := prefix_indices r', last_node := Some n'\<rparr>"
    "cache_protected_len r' = key_len (req_key ?c ?r ?toks)" "shares c' r' (rows' i) (lunits (req_key ?c ?r ?toks)) n'"
    "length (rows' i) = length (?rows i)" "\<forall>j. j \<noteq> i \<longrightarrow> rows' j = ?rows j" "prefix_indices r' = take (length ?toks) (rows' i)"
    "tree_slots c' + mset (concat fs) + mset (drop (cache_protected_len r') (take (length ?toks) (rows' i))) =
      tree_slots ?c + mset (drop (cache_protected_len ?r) (take (length ?toks) (?rows i)))"
    using unfinished_inv [where rows = ?rows and toks = ?toks, OF inv' D(2) i refl sh fits, of now chunked]
    by (elim exE conjE) (rule that; assumption)
  note set = settings_sel(1-3) [OF u(5)]
  have tree': "tree_ok c' L' F' V'" using u(2) by (simp add: radix_inv_def)
  let ?c' = "c'\<lparr>frees := []\<rparr>" and ?al = "fold allocator_free fs (kv_allocator s)"
  let ?s' = "set_req a r' (s\<lparr>kv_cache := ?c', kv_allocator := ?al, req_to_token := rows'\<rparr>)"
  have run: "kv_cache_unfinished now chunked a s = ok ?s'" using u(1,6) D(4) by (simp add: kv_cache_unfinished_def deliver_def)
  have r': "req_pool_idx r' = Some i" "kv_allocated_len r' = fill_len ?r" "origin_input_ids r' = origin_input_ids ?r" "output_ids r' = output_ids ?r"
    "req_extra_key r' = req_extra_key ?r" "unreleased r'"
    by (subst u(7), use i fill(1) R(2) in \<open>simp add: unreleased_def\<close>)+
  have pre: "length (prefix_indices r') = fill_len ?r" using u(10,12) fits len by simp
  have cpl: "cache_protected_len r' = fill_len ?r - short_by c'"
    using u(8) len set(3) by (simp add: req_key_raw [OF D(3)] raw_key_len short_by_def)
  have key: "lunits (req_key c' r' ?toks) = lunits (req_key ?c ?r ?toks)" using set r' by (simp add: req_key_def)
  have sh': "shares_prefix c' F' V' r'" "node_of r' = n'" "n' \<in> L'"
  proof -
    have "shares c' r' (rows' i) (lunits (req_key c' r' ?toks)) n'" using u(9) key by simp
    moreover have "page_size c' = 1" "prefix ?toks (origin_input_ids r' @ output_ids r')" using set(2) D(3) toks r' by simp_all
    ultimately show "shares_prefix c' F' V' r'" "node_of r' = n'" "n' \<in> L'"
      using shares_back [OF tree' _ _ u(12)] cpl pre by auto
  qed
  have row': "row_ok (max_context_len s) c' rows' r'" using r' pre u(12) row(3) fill(1) cpl len by (simp add: row_ok_def)
  have own: "own_slots rows' r' = mset (drop (cache_protected_len r') (take (length ?toks) (rows' i)))" using r' len by (simp add: own_slots_def)
  have "kv_inv ?s' A X L' F' V'"
  proof (rule kv_inv_one [OF inv [unfolded A(1)] A(2), where H = "{#n'#}"])
    show "radix_inv (kv_cache ?s') L' F' V' (handles s B + {#n'#})" using u(2) by (simp add: set_req_def)
    show "kept L F V F' V'" using u(4) by (simp add: kept_def)
    show "req_to_token ?s' j = req_to_token s j" if "req_pool_idx (kv_reqs s a) \<noteq> Some j" "j \<notin> set (free_slots s)" for j
      using u(11) i that by (auto simp: set_req_def)
    show "length (req_to_token ?s' j) = max_context_len s" for j using u(10,11) D(7) by (cases "j = i") (simp_all add: set_req_def)
    show "tree_slots (kv_cache ?s') + allocator_slots (kv_allocator ?s') + (if A = B then {#} else own_slots (req_to_token ?s') (kv_reqs ?s' a)) + X =
        tree_slots (kv_cache s) + allocator_slots (kv_allocator s) + own_slots (req_to_token s) (kv_reqs s a) + X"
    proof -
      have "own_slots ?rows ?r = mset (drop (cache_protected_len ?r) (take (length ?toks) (?rows i)))" using i fill(1) len by (simp add: own_slots_def)
      then have eq: "tree_slots c' + mset (concat fs) + own_slots rows' r' = tree_slots ?c + own_slots ?rows ?r" using u(13) own by simp
      have "tree_slots c' + (allocator_slots (kv_allocator s) + mset (concat fs)) + own_slots rows' r' =
          (tree_slots c' + mset (concat fs) + own_slots rows' r') + allocator_slots (kv_allocator s)" by (simp only: ac_simps)
      also have "\<dots> = tree_slots ?c + allocator_slots (kv_allocator s) + own_slots ?rows ?r" unfolding eq by (simp only: ac_simps)
      finally have "tree_slots c' + (allocator_slots (kv_allocator s) + mset (concat fs)) + own_slots rows' r' =
          tree_slots ?c + allocator_slots (kv_allocator s) + own_slots ?rows ?r" .
      moreover have "A \<noteq> B" using A by auto
      ultimately show ?thesis using tree_slots_frees [OF tree'] by (simp add: set_req_def tokens.all_slots)
    qed
  qed (use A D(2-5) set r' sh' row' i in \<open>auto simp: set_req_def cache_fits_def own_row_def shares_prefix_def req_path_def row_ok_def short_by_def\<close>)
  moreover have "kv_reqs ?s' = (kv_reqs s)(a := ?r\<lparr>cache_protected_len := cache_protected_len r', prefix_indices := prefix_indices r', last_node := Some n'\<rparr>)"
    using u(7) by (simp add: set_req_def)
  moreover have "kept L F V F' V'" "cache_protected_len r' = fill_len ?r - short_by ?c" using u(4) cpl set(3) by (simp_all add: kept_def short_by_def)
  ultimately show ?thesis
    using run pre u(5) by (intro exI [of _ ?s'] exI [of _ L'] exI [of _ F'] exI [of _ V']) (auto simp: set_req_def settings_def)
qed

section \<open>A released request\<close>

text \<open>When thinking is stripped, the part of the row that is kept must cover what is shared with the tree.\<close>

definition can_release :: "bool \<Rightarrow> radix_cache \<Rightarrow> radix_req \<Rightarrow> bool" where
  "can_release stripped c r \<longleftrightarrow> kv_allocated_len r \<le> length (origin_input_ids r @ output_ids r) \<and>
     cache_protected_len r \<le> cache_commit_len stripped r - short_by c"

definition released :: "radix_req \<Rightarrow> radix_req" where
  "released r = r\<lparr>kv_committed_freed := True, kv_overallocated_freed := True, req_pool_idx := None\<rparr>"

lemma kv_release_ok:
  assumes inv: "kv_inv s A X L F V" and a: "a \<in> A" and i: "req_pool_idx (kv_reqs s a) = Some i"
    and can: "can_release stripped (kv_cache s) (kv_reqs s a)"
  shows "\<exists>s' L' F' V'. release_kv_cache now stripped ins a s = ok s' \<and> kv_inv s' (A - {a}) X L' F' V' \<and>
    kv_reqs s' = (kv_reqs s)(a := released (kv_reqs s a)) \<and> kept L F V F' V' \<and>
    settings (kv_cache s') = settings (kv_cache s) \<and> max_context_len s' = max_context_len s \<and> pool_size s' = pool_size s \<and>
    free_slots s' = free_slots s @ [i] \<and> is_not_in_free_group (kv_allocator s') = is_not_in_free_group (kv_allocator s) \<and>
    alloc_size (kv_allocator s') = alloc_size (kv_allocator s)"
proof -
  note D = kv_invD [OF inv] and R = kv_inv_req [OF inv a]
  define B where "B = A - {a}"
  have A: "A = insert a B" "a \<notin> B" "finite B" using a D(6) by (auto simp: B_def)
  let ?r = "kv_reqs s a" and ?c = "kv_cache s" and ?rows = "req_to_token s"
  define q where "q = cache_commit_len stripped ?r"
  let ?toks = "take q (origin_input_ids ?r @ output_ids ?r)"
  note row = row_okD [OF R(3) i]
  have com: "kv_committed_len ?r = kv_allocated_len ?r" "\<not> kv_committed_freed ?r" "\<not> kv_overallocated_freed ?r" using R(2) by (simp_all add: unreleased_def)
  have q: "q \<le> kv_allocated_len ?r" "\<not> stripped \<Longrightarrow> q = kv_allocated_len ?r" using com by (auto simp: q_def cache_commit_len_def)
  have len: "length ?toks = q" using q(1) can unfolding can_release_def length_take by linarith
  have at: "req_row ?rows ?r = ?rows i" by (rule row_at [OF i])
  have inv': "radix_inv ?c L F V (add_mset (node_of ?r) (handles s B))" using D(1) A by (simp add: handles_def)
  have "shares ?c ?r (?rows i) (lunits (req_key ?c ?r ?toks)) (node_of ?r)"
    by (rule shares_of [OF D(11,3) R(1,4) row(1) take_is_prefix], unfold len) (use can in \<open>simp add: can_release_def q_def\<close>)
  then have sh: "shares ?c ?r (req_row ?rows ?r) (lunits (req_key ?c ?r ?toks)) (node_of ?r)" unfolding at .
  have fits: "length ?toks \<le> length (req_row ?rows ?r)" using len q(1) row(3) D(7) at by simp
  have tq: "?toks = take (cache_commit_len stripped ?r) (origin_input_ids ?r @ output_ids ?r)" by (simp only: q_def)
  obtain c' L' F' V' fs where f: "cache_finished_req now stripped ?rows ins ?r ?c = ok (?r\<lparr>kv_committed_freed := True\<rparr>, c')"
    "radix_inv c' L' F' V' (handles s B)" "L \<subseteq> L'" "\<forall>x\<in>L. F' x = F x \<and> V' x = V x" "frees c' = frees ?c @ fs" "settings c' = settings ?c"
    "tree_slots c' + mset (concat fs) = tree_slots ?c + mset (drop (cache_protected_len ?r) (take (length ?toks) (req_row ?rows ?r)))"
    using finished_inv [where now = now and is_insert = ins, OF inv' D(2) com(2) tq sh fits] by (elim exE conjE) (rule that; assumption)
  note set = settings_sel(1-3) [OF f(6)]
  have tree': "tree_ok c' L' F' V'" using f(2) by (simp add: radix_inv_def)
  let ?al = "fold allocator_free fs (kv_allocator s)" and ?over = "span q (kv_allocated_len ?r) (?rows i)"
  define al where "al = (if q < kv_allocated_len ?r then allocator_free ?over ?al else ?al)"
  let ?s' = "set_req a (released ?r) (s\<lparr>kv_cache := c'\<lparr>frees := []\<rparr>, kv_allocator := al, free_slots := free_slots s @ [i]\<rparr>)"
  have "kv_cache_finished now stripped ins a s = ok (set_req a (?r\<lparr>kv_committed_freed := True\<rparr>) (s\<lparr>kv_cache := c'\<lparr>frees := []\<rparr>, kv_allocator := ?al\<rparr>))"
    using f(1,5) D(4) by (simp add: kv_cache_finished_def deliver_def)
  moreover have "pop_overallocated_kv_cache stripped (?r\<lparr>kv_committed_freed := True\<rparr>) =
      Inr ((q, kv_allocated_len ?r), ?r\<lparr>kv_committed_freed := True, kv_overallocated_freed := True\<rparr>)"
    using com(3) by (simp add: pop_overallocated_kv_cache_def q_def cache_commit_len_def)
  ultimately have run: "release_kv_cache now stripped ins a s = ok ?s'"
    using i q(2) by (auto simp: release_kv_cache_def set_req_def change_req_def req_pool_free_def released_def row_of_def req_row_def Let_def al_def)
  have alloc: "alloc_size al = alloc_size (kv_allocator s)" "is_not_in_free_group al = is_not_in_free_group (kv_allocator s)" "allocator_sorted al"
    using D(5) by (simp_all add: al_def)
  have "kv_inv ?s' B X L' F' V'"
  proof (rule kv_inv_one [OF inv [unfolded A(1)] A(2), where H = "{#}"])
    show "radix_inv (kv_cache ?s') L' F' V' (handles s B + {#})" using f(2) by (simp add: set_req_def)
    show "kept L F V F' V'" using f(4) by (simp add: kept_def)
    show "tree_slots (kv_cache ?s') + allocator_slots (kv_allocator ?s') + (if B = B then {#} else own_slots (req_to_token ?s') (kv_reqs ?s' a)) + X =
        tree_slots (kv_cache s) + allocator_slots (kv_allocator s) + own_slots (req_to_token s) (kv_reqs s a) + X"
    proof -
      let ?own = "mset (drop (cache_protected_len ?r) (take q (?rows i)))"
      have eq: "tree_slots c' + mset (concat fs) = tree_slots ?c + ?own" using f(7) unfolding len at .
      have "own_slots ?rows ?r = ?own + mset ?over"
      proof -
        have "cache_protected_len ?r \<le> q" using can unfolding can_release_def q_def by linarith
        then have "mset (span (cache_protected_len ?r) q (take (kv_allocated_len ?r) (?rows i))) + mset (drop q (take (kv_allocated_len ?r) (?rows i))) =
            mset (drop (cache_protected_len ?r) (take (kv_allocated_len ?r) (?rows i)))"
          using q(1) row(3) D(7) by (intro span_split) auto
        moreover have "span (cache_protected_len ?r) q (take (kv_allocated_len ?r) (?rows i)) = drop (cache_protected_len ?r) (take q (?rows i))"
          using q(1) by (simp add: span_def drop_take min_def)
        moreover have "drop q (take (kv_allocated_len ?r) (?rows i)) = ?over" by (simp add: span_def drop_take)
        ultimately show ?thesis using i by (simp add: own_slots_def)
      qed
      moreover have "allocator_slots al = allocator_slots (kv_allocator s) + mset (concat fs) + mset ?over"
        using q(1) by (auto simp: al_def tokens.all_slots allocator_free_slots span_def)
      moreover have "tree_slots c' + (x + mset (concat fs) + y) + X = (tree_slots c' + mset (concat fs)) + x + y + X" for x y :: "int multiset"
        by (simp only: ac_simps)
      ultimately show ?thesis using tree_slots_frees [OF tree'] eq by (simp add: set_req_def ac_simps)
    qed
  qed (use A D(2-7) set alloc i in \<open>auto simp: set_req_def cache_fits_def own_row_def released_def\<close>)
  moreover have "kept L F V F' V'" using f(4) by (simp add: kept_def)
  ultimately show ?thesis
    using run f(6) alloc unfolding B_def
    by (intro exI [of _ ?s'] exI [of _ L'] exI [of _ F'] exI [of _ V']) (auto simp: set_req_def settings_def)
qed

text \<open>A request sent back waits again.\<close>

lemma release_req_ok:
  assumes inv: "kv_inv s A X L F V" and a: "a \<in> A" and i: "req_pool_idx (kv_reqs s a) = Some i"
    and can: "can_release stripped (kv_cache s) (kv_reqs s a)" and ready: "is_not_in_free_group (kv_allocator s)" and ord: "lists_sets ord"
  shows "\<exists>s' L' F' V'. release_req now stripped ord steps remaining a s = ok s' \<and> kv_inv s' (A - {a}) X L' F' V' \<and>
    kv_reqs s' = (kv_reqs s)(a := reset_for_retract (released (kv_reqs s a))) \<and> waiting_req (kv_reqs s' a) \<and>
    settings (kv_cache s') = settings (kv_cache s) \<and> max_context_len s' = max_context_len s \<and> pool_size s' = pool_size s \<and>
    free_slots s' = free_slots s @ [i] \<and> is_not_in_free_group (kv_allocator s') \<and> alloc_size (kv_allocator s') = alloc_size (kv_allocator s)"
proof -
  obtain s1 L1 F1 V1 where r: "release_kv_cache now stripped False a s = ok s1" "kv_inv s1 (A - {a}) X L1 F1 V1"
    "kv_reqs s1 = (kv_reqs s)(a := released (kv_reqs s a))"
    "settings (kv_cache s1) = settings (kv_cache s)" "max_context_len s1 = max_context_len s" "pool_size s1 = pool_size s"
    "free_slots s1 = free_slots s @ [i]" "is_not_in_free_group (kv_allocator s1)" "alloc_size (kv_allocator s1) = alloc_size (kv_allocator s)"
    using kv_release_ok [OF inv a i can, of now False] ready by blast
  obtain c al L' where e: "kv_evict ord (remaining * steps) s1 = ok (s1\<lparr>kv_cache := c, kv_allocator := al\<rparr>)"
    "kv_inv (s1\<lparr>kv_cache := c, kv_allocator := al\<rparr>) (A - {a}) X L' F1 V1" "is_not_in_free_group al" "settings c = settings (kv_cache s1)"
    "alloc_size al = alloc_size (kv_allocator s1)" using kv_evict_ok [OF r(2,8) ord, of "remaining * steps"] by blast
  let ?s1 = "s1\<lparr>kv_cache := c, kv_allocator := al\<rparr>" and ?r = "reset_for_retract (released (kv_reqs s a))"
  have run: "release_req now stripped ord steps remaining a s = ok (set_req a ?r ?s1)"
    using r(1,3) e(1) by (simp add: release_req_def change_req_def)
  have "waiting_req ?r" using kv_inv_req(2) [OF inv a]
    by (simp add: waiting_req_def unreleased_def reset_for_retract_def released_def)
  moreover have "kv_inv (set_req a ?r ?s1) (A - {a}) X L' F1 V1" using e(2) by (simp add: kv_inv_inactive)
  ultimately show ?thesis
    using run r(3-7,9) e(3-5) by (intro exI [of _ "set_req a ?r ?s1"] exI [of _ L'] exI [of _ F1] exI [of _ V1]) (simp add: set_req_def)
qed

end
