(* ===== verification/SglAdmit.thy ===== *)
theory SglAdmit
  imports SglPool
begin

text \<open>
  Admission to a prefill batch: \<open>PrefillAdder\<close> of \<open>managers/schedule_policy.py\<close>, for a cache that is enabled, on the
  device only and without sliding window. The adder reserves tokens for the running requests and for those it
  has admitted, locks the prefix of a request while it decides, and cuts a prompt into chunks.
\<close>

declare map_of_eq_Some_iff [simp del]

text \<open>The server's settings. \<open>leaf_order\<close> is the order in which Python lists the set of evictable leaves; the last three
  say which token replaces one outside the vocabulary and what grammars, stop strings and stop tokens answer.\<close>

record sgl_config =
  leaf_order :: "nat set \<Rightarrow> nat list"
  retract_decode_steps :: nat
  clip_max_new_tokens :: nat
  max_prefill_tokens :: int
  chunked_prefill_size :: "int option"
  prefill_max_requests :: "nat option"
  truncation_align_size :: "int option"
  pp_max_micro_batch_size :: nat
  init_ratio :: real
  min_ratio :: real
  ratio_decay :: real
  max_queued_requests :: "nat option"
  max_req_len :: int
  max_req_input_len :: nat
  max_total_num_tokens :: int
  allow_auto_truncate :: bool
  check_during_busy :: bool
  vocab_size :: int
  stop_token :: "radix_req \<Rightarrow> int option"
  grammar_terminated :: "radix_req \<Rightarrow> bool"
  matches_stop :: "radix_req \<Rightarrow> bool"

datatype add_result = ADD_CONTINUE | ADD_NO_TOKEN | ADD_OTHER

record prefill_adder =
  rem_input_tokens :: int
  rem_chunk_tokens :: "int option"
  rem_total_token_offset :: real
  cur_rem_token_offset :: int
  can_run_list :: "nat list"
  new_chunked_req :: "nat option"

definition running_token_offset :: "sgl_config \<Rightarrow> real \<Rightarrow> radix_req \<Rightarrow> real" where
  "running_token_offset cfg ratio r =
     real_of_int (min (int (max_new_tokens r) - int (length (output_ids r))) (int (clip_max_new_tokens cfg))) * ratio"

definition adder_init :: "sgl_config \<Rightarrow> real \<Rightarrow> nat list \<Rightarrow> kv_state \<Rightarrow> prefill_adder" where
  "adder_init cfg ratio run s =
     \<lparr>rem_input_tokens = max_prefill_tokens cfg, rem_chunk_tokens = chunked_prefill_size cfg,
      rem_total_token_offset = (\<Sum>a\<leftarrow>run. running_token_offset cfg ratio (kv_reqs s a)), cur_rem_token_offset = 0,
      can_run_list = [], new_chunked_req = None\<rparr>"

definition available_and_evictable :: "kv_state \<Rightarrow> int" where
  "available_and_evictable s = int (available_size (kv_allocator s)) + evictable_size (kv_cache s)"

definition rem_total_tokens :: "prefill_adder \<Rightarrow> kv_state \<Rightarrow> real" where
  "rem_total_tokens ad s = real_of_int (available_and_evictable s) - rem_total_token_offset ad"

definition cur_rem_tokens :: "prefill_adder \<Rightarrow> kv_state \<Rightarrow> int" where
  "cur_rem_tokens ad s = available_and_evictable s - cur_rem_token_offset ad"

definition ceil_paged_tokens :: "kv_state \<Rightarrow> nat \<Rightarrow> int" where
  "ceil_paged_tokens s n = (let p = int (page_size (kv_cache s)) in - (- int n div p) * p)"

definition budget_state :: "prefill_adder \<Rightarrow> kv_state \<Rightarrow> add_result" where
  "budget_state ad s =
     (if rem_total_tokens ad s \<le> 0 \<or> cur_rem_tokens ad s \<le> 0 then ADD_NO_TOKEN
      else if rem_input_tokens ad \<le> 0 then ADD_OTHER
      else if (case rem_chunk_tokens ad of Some n \<Rightarrow> n \<le> 0 | None \<Rightarrow> False) then ADD_OTHER
      else ADD_CONTINUE)"

definition update_prefill_budget :: "kv_state \<Rightarrow> nat \<Rightarrow> nat \<Rightarrow> prefill_adder \<Rightarrow> prefill_adder" where
  "update_prefill_budget s ext max_new ad =
     (let ext = ceil_paged_tokens s ext; page = int (page_size (kv_cache s)) in
      ad\<lparr>rem_total_token_offset := rem_total_token_offset ad + real_of_int (ext + int max_new + page),
         cur_rem_token_offset := cur_rem_token_offset ad + ext + page, rem_input_tokens := rem_input_tokens ad - ext,
         rem_chunk_tokens := map_option (\<lambda>n. n - ext) (rem_chunk_tokens ad)\<rparr>)"

definition append_run :: "nat \<Rightarrow> prefill_adder \<Rightarrow> prefill_adder" where
  "append_run a ad = ad\<lparr>can_run_list := can_run_list ad @ [a]\<rparr>"

text \<open>\<open>int(x)\<close> truncates. A chunked request must be added, with its chunk size where nothing is left.\<close>

definition add_chunked_req :: "sgl_config \<Rightarrow> nat \<Rightarrow> prefill_adder \<Rightarrow> kv_state \<Rightarrow> (nat option \<times> prefill_adder \<times> kv_state) result" where
  "add_chunked_req cfg a ad s =
     (case rem_chunk_tokens ad of
        None \<Rightarrow> raise TypeError
      | Some chunk \<Rightarrow>
          let r = kv_reqs s a;
              rem = min chunk (trunc_int (rem_total_tokens ad s));
              rem = (if rem \<le> 0 then chunk else rem);
              truncated = rem < int (extend_input_len r);
              ext = nat (min (int (extend_input_len r)) rem);
              s = set_req a (r\<lparr>extend_input_len := ext, fill_len := length (prefix_indices r) + ext\<rparr>) s;
              max_new = (if truncated then 0 else min (max_new_tokens r) (clip_max_new_tokens cfg))
          in ok (if truncated then Some a else None, update_prefill_budget s ext max_new (append_run a ad), s))"

definition chunk_len :: "sgl_config \<Rightarrow> int \<Rightarrow> radix_req \<Rightarrow> kv_state \<Rightarrow> int option" where
  "chunk_len cfg chunk r s =
     (let p = int (page_size (kv_cache s));
          aligned = (\<lambda>n. let n = (n + int (length (prefix_indices r))) div p * p - int (length (prefix_indices r)) in if n \<le> 0 then None else Some n);
          n = chunk div p * p
      in
      if n \<le> 0 then None
      else case truncation_align_size cfg of
             None \<Rightarrow> aligned n
           | Some k \<Rightarrow> if n < k then None else aligned (k * (n div k)))"

text \<open>Under the lock of the request's node; without a result the request was added.\<close>

definition admit_locked :: "sgl_config \<Rightarrow> nat \<Rightarrow> nat \<Rightarrow> prefill_adder \<Rightarrow> kv_state \<Rightarrow> (add_result option \<times> prefill_adder \<times> kv_state) result" where
  "admit_locked cfg total_tokens a ad s =
     (let r = kv_reqs s a; input_tokens = ceil_paged_tokens s (extend_input_len r) in
      if rem_total_tokens ad s \<le> real total_tokens then ok (Some ADD_NO_TOKEN, ad, s)
      else if rem_chunk_tokens ad = None \<and> can_run_list ad \<noteq> [] \<and> rem_input_tokens ad \<le> input_tokens then ok (Some ADD_OTHER, ad, s)
      else if (case rem_chunk_tokens ad of None \<Rightarrow> True | Some n \<Rightarrow> input_tokens \<le> n)
      then
        let s = set_req a (r\<lparr>fill_len := length (full_untruncated_fill_ids r)\<rparr>) s in
        if length (full_untruncated_fill_ids r) \<noteq> length (prefix_indices r) + extend_input_len r then raise AssertionError
        else
          res_bind (req_inc_lock_ref a s) (\<lambda>s.
            let ad = update_prefill_budget s (nat input_tokens) (min (max_new_tokens r) (clip_max_new_tokens cfg)) (append_run a ad)
            in ok (None, ad, s))
      else
        case chunk_len cfg (the (rem_chunk_tokens ad)) r s of
          None \<Rightarrow> ok (Some ADD_OTHER, ad, s)
        | Some n \<Rightarrow>
            let s = set_req a (r\<lparr>extend_input_len := nat n, fill_len := length (prefix_indices r) + nat n\<rparr>) s in
            res_bind (req_inc_lock_ref a s) (\<lambda>s.
              let ad = update_prefill_budget s (nat n) 0 ((append_run a ad)\<lparr>new_chunked_req := Some a\<rparr>)
              in ok (None, ad, s)))"

definition add_one_req :: "sgl_config \<Rightarrow> nat \<Rightarrow> prefill_adder \<Rightarrow> kv_state \<Rightarrow> (add_result \<times> prefill_adder \<times> kv_state) result" where
  "add_one_req cfg a ad s =
     (let r = kv_reqs s a;
          max_new = min (max_new_tokens r - length (output_ids r)) (clip_max_new_tokens cfg);
          total_tokens = extend_input_len r + max_new + page_size (kv_cache s)
      in
      if (case prefill_max_requests cfg of Some n \<Rightarrow> n \<le> length (can_run_list ad) | None \<Rightarrow> False) then ok (ADD_OTHER, ad, s)
      else if rem_total_tokens ad s \<le> real total_tokens then ok (ADD_NO_TOKEN, ad, s)
      else if rem_chunk_tokens ad = None \<and> can_run_list ad \<noteq> [] \<and> rem_input_tokens ad \<le> ceil_paged_tokens s (extend_input_len r)
      then ok (ADD_OTHER, ad, s)
      else
        res_bind (req_inc_lock_ref a s) (\<lambda>s.
        res_bind (admit_locked cfg total_tokens a ad s) (\<lambda>(res, ad, s).
        res_bind (req_dec_lock_ref a s) (\<lambda>s. ok (case res of Some x \<Rightarrow> x | None \<Rightarrow> budget_state ad s, ad, s)))))"

end
