(* ===== verification/SglLoop.thy ===== *)
theory SglLoop
  imports SglAdmit
begin

text \<open>
  SGLang's scheduler loop without overlap (\<open>event_loop_normal\<close> of \<open>managers/scheduler.py\<close>): arrival, abort and pausing,
  the choice of the next batch with chunked prefill, retraction when memory runs out, and what happens to the requests of a batch
  when its result is there (\<open>batch_result_processor.py\<close>). One device, generation only, first come first served,
  no speculation, no mixed batches. The model and the clock are arguments.
\<close>

declare map_of_eq_Some_iff [simp del]

section \<open>Batches\<close>

record sgl_batch =
  batch_reqs :: "nat list"
  batch_seq_lens :: "nat list"
  batch_is_full :: bool
  batch_chunked_req :: "nat option"
  batch_prefill_only :: bool

definition empty_batch :: sgl_batch where
  "empty_batch = \<lparr>batch_reqs = [], batch_seq_lens = [], batch_is_full = False, batch_chunked_req = None, batch_prefill_only = False\<rparr>"

text \<open>A batch that is filtered to nothing keeps its tensors.\<close>

definition keep_indices :: "nat list \<Rightarrow> sgl_batch \<Rightarrow> sgl_batch" where
  "keep_indices is b =
     (if is = [] then b\<lparr>batch_reqs := []\<rparr>
      else if length is = length (batch_reqs b) then b
      else b\<lparr>batch_reqs := map (nth (batch_reqs b)) is, batch_seq_lens := map (nth (batch_seq_lens b)) is\<rparr>)"

definition filter_batch :: "nat set \<Rightarrow> kv_state \<Rightarrow> sgl_batch \<Rightarrow> sgl_batch" where
  "filter_batch excluded m b =
     keep_indices (filter (\<lambda>i. \<not> req_finished (kv_reqs m (batch_reqs b ! i)) \<and> batch_reqs b ! i \<notin> excluded) [0..<length (batch_reqs b)]) b"

definition merge_batch :: "sgl_batch \<Rightarrow> sgl_batch \<Rightarrow> sgl_batch" where
  "merge_batch b b' = b\<lparr>batch_reqs := batch_reqs b @ batch_reqs b', batch_seq_lens := batch_seq_lens b @ batch_seq_lens b',
     batch_prefill_only := batch_prefill_only b \<and> batch_prefill_only b'\<rparr>"

text \<open>A batch variable refers to nothing, to a prefill batch or to the object of the running batch.\<close>

datatype batch_ref = No_Batch | Extend_Batch sgl_batch | The_Running_Batch

record sgl_state =
  memory :: kv_state
  waiting_queue :: "nat list"
  running_batch :: sgl_batch
  last_batch :: batch_ref
  chunked_req :: "nat option"
  pending_chunked_abort_req :: "nat option"
  new_token_ratio :: real
  engine_paused :: bool

text \<open>What an iteration reads: the clock in each phase, and the tokens the model samples for a batch.\<close>

record sgl_inputs =
  stash_time :: real
  match_time :: "nat \<Rightarrow> real"
  release_time :: "nat \<Rightarrow> real"
  result_time :: "nat \<Rightarrow> real"
  sampled :: "nat list \<Rightarrow> int list"

section \<open>Requests from outside\<close>

definition new_req :: "int list \<Rightarrow> string option \<Rightarrow> int option \<Rightarrow> nat option \<Rightarrow> bool \<Rightarrow> int \<Rightarrow> radix_req" where
  "new_req ids ekey prio max_new logprob start =
     \<lparr>origin_input_ids = ids, output_ids = [], full_untruncated_fill_ids = [], fill_len = 0, req_extra_key = ekey, req_priority = prio,
      req_pool_idx = None, prefix_indices = [], last_node = None, cache_protected_len = 0, kv_committed_len = 0, kv_allocated_len = 0,
      kv_committed_freed = False, kv_overallocated_freed = False, reasoning_tokens = 0, extend_input_len = 0, inflight_middle_chunks = 0,
      is_retracted = False, return_logprob = logprob, logprob_start_len = start,
      max_new_tokens = (case max_new of Some n \<Rightarrow> n | None \<Rightarrow> 2 ^ 30), to_finish = False, req_finished = False\<rparr>"

definition init_req_max_new_tokens :: "sgl_config \<Rightarrow> nat \<Rightarrow> radix_req \<Rightarrow> radix_req" where
  "init_req_max_new_tokens cfg page r =
     (let n = int (length (origin_input_ids r)); paged = - (- n div int page) * int page in
      r\<lparr>max_new_tokens := nat (max 0 (min (int (max_new_tokens r))
          (min (max_req_len cfg - n - 1) (max_total_num_tokens cfg - paged - int page - 1))))\<rparr>)"

definition set_finish_with_abort :: "radix_req \<Rightarrow> radix_req" where
  "set_finish_with_abort r = r\<lparr>origin_input_ids := [0], return_logprob := False, logprob_start_len := - 1, to_finish := True\<rparr>"

text \<open>Whether the request is too long, and the request, truncated where that is allowed.\<close>

definition validate_input_length :: "sgl_config \<Rightarrow> radix_req \<Rightarrow> bool \<times> radix_req" where
  "validate_input_length cfg r =
     (if max_req_input_len cfg \<le> length (origin_input_ids r)
      then if allow_auto_truncate cfg then (False, r\<lparr>origin_input_ids := take (max_req_input_len cfg) (origin_input_ids r)\<rparr>) else (True, r)
      else (False, r))"

definition add_request_to_queue :: "sgl_config \<Rightarrow> nat \<Rightarrow> nat list \<Rightarrow> nat list" where
  "add_request_to_queue cfg a q =
     (if (case max_queued_requests cfg of None \<Rightarrow> True | Some n \<Rightarrow> length q + 1 \<le> n) then q @ [a] else q)"

definition checked_req :: "sgl_config \<Rightarrow> nat \<Rightarrow> radix_req \<Rightarrow> radix_req" where
  "checked_req cfg page r =
     (let r = init_req_max_new_tokens cfg page r; (too_long, r) = validate_input_length cfg r; n = int (length (origin_input_ids r)) in
      if too_long then set_finish_with_abort r
      else
        let start = (if \<not> return_logprob r then - 1 else logprob_start_len r);
            start = (if start = - 1 then if return_logprob r \<or> max_new_tokens r = 0 then n else - 1 else start)
        in if n < start then set_finish_with_abort (r\<lparr>logprob_start_len := - 1\<rparr>) else r\<lparr>logprob_start_len := start\<rparr>)"

definition handle_generate_request :: "sgl_config \<Rightarrow> nat \<Rightarrow> radix_req \<Rightarrow> sgl_state \<Rightarrow> sgl_state" where
  "handle_generate_request cfg a r s =
     s\<lparr>memory := set_req a (checked_req cfg (page_size (kv_cache (memory s))) r) (memory s),
       waiting_queue := add_request_to_queue cfg a (waiting_queue s)\<rparr>"

text \<open>\<open>hit\<close> selects the requests to abort, by identifier or all. The current batch is the last one.\<close>

definition abort_running :: "nat list \<Rightarrow> (nat \<Rightarrow> bool) \<Rightarrow> kv_state \<Rightarrow> kv_state" where
  "abort_running as hit m = fold (\<lambda>a. change_req a (\<lambda>r. if \<not> req_finished r \<and> hit a then r\<lparr>to_finish := True\<rparr> else r)) as m"

definition abort_request :: "(nat \<Rightarrow> bool) \<Rightarrow> sgl_state \<Rightarrow> sgl_state" where
  "abort_request hit s =
     (let as = batch_reqs (running_batch s) @ (case last_batch s of Extend_Batch b \<Rightarrow> batch_reqs b | _ \<Rightarrow> []) in
      s\<lparr>pending_chunked_abort_req := (case chunked_req s of
           Some a \<Rightarrow> if hit a then Some a else pending_chunked_abort_req s | None \<Rightarrow> pending_chunked_abort_req s),
        waiting_queue := filter (\<lambda>a. \<not> hit a) (waiting_queue s), memory := abort_running as hit (memory s)\<rparr>)"

section \<open>The chunked request and the merge of the last batch\<close>

definition process_pending_chunked_abort :: "sgl_inputs \<Rightarrow> sgl_state \<Rightarrow> sgl_state result" where
  "process_pending_chunked_abort inp s =
     (case pending_chunked_abort_req s of
        None \<Rightarrow> ok s
      | Some a \<Rightarrow>
          if chunked_req s \<noteq> Some a
          then ok (if req_finished (kv_reqs (memory s) a) \<or> req_pool_idx (kv_reqs (memory s) a) = None
                   then s\<lparr>pending_chunked_abort_req := None\<rparr> else s)
          else
            let m = change_req a (\<lambda>r. r\<lparr>req_finished := True, to_finish := False\<rparr>) (memory s) in
            res_bind
              (if req_pool_idx (kv_reqs m a) \<noteq> None \<and> \<not> kv_committed_freed (kv_reqs m a)
               then release_kv_cache (release_time inp a) False False a m else ok m)
              (\<lambda>m. ok (s\<lparr>memory := m, chunked_req := None, pending_chunked_abort_req := None\<rparr>)))"

definition stash_chunked_request :: "sgl_inputs \<Rightarrow> sgl_state \<Rightarrow> sgl_state result" where
  "stash_chunked_request inp s =
     (case chunked_req s of
        None \<Rightarrow> ok s
      | Some a \<Rightarrow>
          if length (prefix_indices (kv_reqs (memory s) a)) < fill_len (kv_reqs (memory s) a)
          then res_bind (kv_cache_unfinished (stash_time inp) True a (memory s)) (\<lambda>m. ok (s\<lparr>memory := m\<rparr>))
          else ok s)"

definition merge_last_batch :: "nat set \<Rightarrow> sgl_state \<Rightarrow> sgl_state" where
  "merge_last_batch excluded s =
     (case last_batch s of
        Extend_Batch b \<Rightarrow>
          let b' = filter_batch (excluded \<union> set_option (batch_chunked_req b)) (memory s) b;
              run = (if length (batch_reqs b') < length (batch_reqs b) then (running_batch s)\<lparr>batch_is_full := False\<rparr> else running_batch s)
          in if batch_reqs b' = [] then s\<lparr>running_batch := run, last_batch := Extend_Batch b'\<rparr>
             else if batch_reqs run = [] then s\<lparr>running_batch := b', last_batch := The_Running_Batch\<rparr>
             else s\<lparr>running_batch := merge_batch run b', last_batch := Extend_Batch b'\<rparr>
      | _ \<Rightarrow> s)"

definition drop_finished_prefill_only :: "sgl_state \<Rightarrow> sgl_state" where
  "drop_finished_prefill_only s =
     (if batch_prefill_only (running_batch s)
      then let b = filter_batch {} (memory s) (running_batch s)
           in s\<lparr>running_batch := (if batch_reqs b = [] then b\<lparr>batch_is_full := False\<rparr> else b)\<rparr>
      else s)"

section \<open>A prefill batch\<close>

definition get_num_allocatable_reqs :: "sgl_config \<Rightarrow> kv_state \<Rightarrow> nat \<Rightarrow> int" where
  "get_num_allocatable_reqs cfg m running_bs = min (int (pp_max_micro_batch_size cfg) - int running_bs) (int (length (free_slots m)))"

text \<open>The waiting requests, until one is not added; the last component is \<open>batch_is_full\<close>.\<close>

fun admit_waiting :: "sgl_config \<Rightarrow> sgl_inputs \<Rightarrow> nat \<Rightarrow> nat list \<Rightarrow> prefill_adder \<times> kv_state \<times> bool \<Rightarrow> (prefill_adder \<times> kv_state \<times> bool) result" where
  "admit_waiting cfg inp running_bs [] st = ok st"
| "admit_waiting cfg inp running_bs (a # q) (ad, m, full) =
     (if full \<or> get_num_allocatable_reqs cfg m running_bs \<le> int (length (can_run_list ad)) then ok (ad, m, True)
      else
        res_bind (init_next_round_input (match_time inp a) True a m) (\<lambda>m.
        res_bind (add_one_req cfg a ad m) (\<lambda>(res, ad, m).
          case res of
            ADD_CONTINUE \<Rightarrow> admit_waiting cfg inp running_bs q (ad, m, full)
          | ADD_NO_TOKEN \<Rightarrow> ok (ad, m, True)
          | ADD_OTHER \<Rightarrow> ok (ad, m, full))))"

definition add_chunk :: "sgl_config \<Rightarrow> sgl_inputs \<Rightarrow> nat option \<Rightarrow> prefill_adder \<Rightarrow> kv_state \<Rightarrow> (nat option \<times> prefill_adder \<times> kv_state) result" where
  "add_chunk cfg inp c ad m =
     (case c of
        None \<Rightarrow> ok (None, ad, m)
      | Some a \<Rightarrow> res_bind (init_next_round_input (stash_time inp) False a m) (add_chunked_req cfg a ad))"

definition launch_prefill :: "sgl_config \<Rightarrow> prefill_adder \<Rightarrow> sgl_state \<Rightarrow> (sgl_batch option \<times> sgl_state) result" where
  "launch_prefill cfg ad s =
     (if can_run_list ad = [] then ok (None, s)
      else if new_chunked_req ad \<noteq> None \<and> chunked_req s \<noteq> None then raise AssertionError
      else
        let c = (if new_chunked_req ad \<noteq> None then new_chunked_req ad else chunked_req s);
            m = (case c of Some a \<Rightarrow> change_req a (\<lambda>r. r\<lparr>inflight_middle_chunks := inflight_middle_chunks r + 1\<rparr>) (memory s) | None \<Rightarrow> memory s)
        in res_bind (prepare_for_extend (leaf_order cfg) (can_run_list ad) m) (\<lambda>(seq_lens, m).
             ok (Some \<lparr>batch_reqs = can_run_list ad, batch_seq_lens = seq_lens, batch_is_full = False, batch_chunked_req = c,
                       batch_prefill_only = list_all (\<lambda>a. max_new_tokens (kv_reqs m a) = 0) (can_run_list ad)\<rparr>,
                 s\<lparr>memory := m, chunked_req := c, waiting_queue := filter (\<lambda>a. a \<notin> set (can_run_list ad)) (waiting_queue s)\<rparr>)))"

definition get_new_batch_prefill :: "sgl_config \<Rightarrow> sgl_inputs \<Rightarrow> sgl_state \<Rightarrow> (sgl_batch option \<times> sgl_state) result" where
  "get_new_batch_prefill cfg inp s =
     (let run = running_batch s; running_bs = length (batch_reqs run) in
      if (batch_is_full run \<or> waiting_queue s = []) \<and> chunked_req s = None then ok (None, s)
      else if get_num_allocatable_reqs cfg (memory s) running_bs \<le> 0 \<and> chunked_req s = None
      then ok (None, s\<lparr>running_batch := run\<lparr>batch_is_full := True\<rparr>\<rparr>)
      else
        let ad = adder_init cfg (new_token_ratio s) (batch_reqs run) (memory s) in
        res_bind (add_chunk cfg inp (chunked_req s) ad (memory s)) (\<lambda>(c, ad, m).
        res_bind (admit_waiting cfg inp running_bs (waiting_queue s) (ad, m, batch_is_full run)) (\<lambda>(ad, m, full).
          launch_prefill cfg ad (s\<lparr>memory := m, running_batch := run\<lparr>batch_is_full := full\<rparr>, chunked_req := c\<rparr>))))"

section \<open>A decode batch\<close>

definition new_tokens_required_next_decode :: "nat list \<Rightarrow> kv_state \<Rightarrow> nat" where
  "new_tokens_required_next_decode as m =
     (let p = page_size (kv_cache m) in length (filter (\<lambda>a. kv_committed_len (kv_reqs m a) mod p = 0) as) * p)"

definition check_decode_mem :: "sgl_config \<Rightarrow> nat list \<Rightarrow> kv_state \<Rightarrow> (bool \<times> kv_state) result" where
  "check_decode_mem cfg as m =
     (let n = new_tokens_required_next_decode as m in
      res_bind (kv_evict (leaf_order cfg) n m) (\<lambda>m. ok (n \<le> available_size (kv_allocator m), m)))"

text \<open>The indices are kept in reverse, the next one to pop first.\<close>

fun retract_loop :: "sgl_config \<Rightarrow> sgl_inputs \<Rightarrow> nat list \<Rightarrow> bool \<Rightarrow> nat list \<Rightarrow> nat list \<Rightarrow> kv_state \<Rightarrow> (nat list \<times> nat list \<times> kv_state) result" where
  "retract_loop cfg inp reqs first is retracted m =
     res_bind (if first then ok (False, m) else check_decode_mem cfg (map (nth reqs) (rev is)) m) (\<lambda>(fits, m).
       if fits \<or> length is = 1 then ok (is, retracted, m)
       else case is of
              [] \<Rightarrow> raise IndexError
            | i # is' \<Rightarrow>
                res_bind (release_req (release_time inp (reqs ! i)) False (leaf_order cfg) (retract_decode_steps cfg) (length is') (reqs ! i) m)
                  (retract_loop cfg inp reqs False is' (retracted @ [reqs ! i])))"

text \<open>Descending by the number of output tokens, then ascending by the length of the input.\<close>

definition retract_order :: "nat list \<Rightarrow> kv_state \<Rightarrow> nat list" where
  "retract_order reqs m = sort_key (\<lambda>i. - int (length (output_ids (kv_reqs m (reqs ! i)))))
     (sort_key (\<lambda>i. length (origin_input_ids (kv_reqs m (reqs ! i)))) [0..<length reqs])"

definition estimate_new_token_ratio :: "sgl_config \<Rightarrow> nat list \<Rightarrow> kv_state \<Rightarrow> real" where
  "estimate_new_token_ratio cfg as m =
     min 1 (real ((\<Sum>a\<leftarrow>as. length (output_ids (kv_reqs m a))) + retract_decode_steps cfg * length as) /
            real ((\<Sum>a\<leftarrow>as. max_new_tokens (kv_reqs m a)) + 1))"

definition retract_decode :: "sgl_config \<Rightarrow> sgl_inputs \<Rightarrow> sgl_batch \<Rightarrow> kv_state \<Rightarrow> (nat list \<times> real \<times> sgl_batch \<times> kv_state) result" where
  "retract_decode cfg inp b m =
     (let reqs = batch_reqs b in
      res_bind (retract_loop cfg inp reqs True (rev (retract_order reqs m)) [] m) (\<lambda>(is, retracted, m).
      res_bind
        (if length is \<le> 1
         then res_bind (check_decode_mem cfg (map (nth reqs) (rev is)) m) (\<lambda>(fits, m).
           if fits then ok (is, m)
           else case is of
                  [] \<Rightarrow> raise IndexError
                | i # is' \<Rightarrow>
                    res_bind (release_req (release_time inp (reqs ! i)) False (leaf_order cfg) (retract_decode_steps cfg) 0 (reqs ! i)
                      (change_req (reqs ! i) (\<lambda>r. r\<lparr>to_finish := True\<rparr>) m)) (\<lambda>m. ok (is', m)))
         else ok (is, m))
        (\<lambda>(is, m).
          let b = keep_indices (rev is) b in ok (retracted, estimate_new_token_ratio cfg (batch_reqs b) m, b, m))))"

definition update_running_batch :: "sgl_config \<Rightarrow> sgl_inputs \<Rightarrow> sgl_state \<Rightarrow> sgl_state result" where
  "update_running_batch cfg inp s =
     (let initial_bs = length (batch_reqs (running_batch s)); b = filter_batch {} (memory s) (running_batch s) in
      if batch_reqs b = [] then ok (s\<lparr>running_batch := b\<lparr>batch_is_full := False\<rparr>\<rparr>)
      else
        res_bind (check_decode_mem cfg (batch_reqs b) (memory s)) (\<lambda>(fits, m).
        res_bind
          (if fits then ok ([], max (new_token_ratio s - ratio_decay cfg) (min_ratio cfg), b, m) else retract_decode cfg inp b m)
          (\<lambda>(retracted, ratio, b, m).
            let s = s\<lparr>new_token_ratio := ratio, waiting_queue := fold (add_request_to_queue cfg) retracted (waiting_queue s)\<rparr>;
                b = (if length (batch_reqs b) < initial_bs then b\<lparr>batch_is_full := False\<rparr> else b)
            in if batch_reqs b = [] then ok (s\<lparr>memory := m, running_batch := b\<rparr>)
               else res_bind (prepare_for_decode (leaf_order cfg) (batch_reqs b) (batch_seq_lens b) m) (\<lambda>(seq_lens, m).
                      ok (s\<lparr>memory := m, running_batch := b\<lparr>batch_seq_lens := seq_lens\<rparr>\<rparr>)))))"

definition get_next_batch_to_run :: "sgl_config \<Rightarrow> sgl_inputs \<Rightarrow> sgl_state \<Rightarrow> (batch_ref \<times> sgl_state) result" where
  "get_next_batch_to_run cfg inp s =
     res_bind (process_pending_chunked_abort inp s) (\<lambda>s.
     res_bind (stash_chunked_request inp s) (\<lambda>s.
     let s = drop_finished_prefill_only (merge_last_batch (set_option (chunked_req s)) s) in
     res_bind (get_new_batch_prefill cfg inp s) (\<lambda>(b, s).
       case b of
         Some b \<Rightarrow> ok (Extend_Batch b, s)
       | None \<Rightarrow>
           if batch_reqs (running_batch s) \<noteq> [] \<and> \<not> batch_prefill_only (running_batch s)
           then res_bind (update_running_batch cfg inp s) (\<lambda>s.
                  ok (if batch_reqs (running_batch s) \<noteq> [] then The_Running_Batch else No_Batch, s))
           else ok (No_Batch, s))))"

section \<open>The result of a batch\<close>

definition update_finish_state :: "sgl_config \<Rightarrow> radix_req \<Rightarrow> radix_req" where
  "update_finish_state cfg r =
     (if req_finished r then r
      else if to_finish r then r\<lparr>req_finished := True, to_finish := False\<rparr>
      else if max_new_tokens r \<le> length (output_ids r) then r\<lparr>req_finished := True\<rparr>
      else if grammar_terminated cfg r then r\<lparr>req_finished := True\<rparr>
      else if last (output_ids r) < 0 \<or> vocab_size cfg \<le> last (output_ids r)
      then r\<lparr>req_finished := True,
             output_ids := butlast (output_ids r) @ [case stop_token cfg r of Some t \<Rightarrow> t | None \<Rightarrow> last (output_ids r)]\<rparr>
      else if matches_stop cfg r then r\<lparr>req_finished := True\<rparr>
      else r)"

definition append_output :: "sgl_config \<Rightarrow> int \<Rightarrow> radix_req \<Rightarrow> radix_req" where
  "append_output cfg t r = update_finish_state cfg (r\<lparr>output_ids := output_ids r @ [t]\<rparr>)"

definition prefill_result :: "sgl_config \<Rightarrow> sgl_inputs \<Rightarrow> nat \<times> int \<Rightarrow> kv_state \<Rightarrow> kv_state result" where
  "prefill_result cfg inp x m =
     (case x of (a, t) \<Rightarrow>
        let r = kv_reqs m a in
        if req_finished r \<and> inflight_middle_chunks r = 0 \<or> is_retracted r then ok m
        else if inflight_middle_chunks r = 0
        then let m = change_req a (append_output cfg t) m in
             if req_finished (kv_reqs m a) then release_kv_cache (result_time inp a) False True a m
             else kv_cache_unfinished (result_time inp a) False a m
        else ok (change_req a (\<lambda>r. r\<lparr>inflight_middle_chunks := inflight_middle_chunks r - 1\<rparr>) m))"

definition process_batch_result_prefill :: "sgl_config \<Rightarrow> sgl_inputs \<Rightarrow> sgl_batch \<Rightarrow> kv_state \<Rightarrow> kv_state result" where
  "process_batch_result_prefill cfg inp b m = res_fold (prefill_result cfg inp) (zip (batch_reqs b) (sampled inp (batch_reqs b))) m"

fun decode_results :: "sgl_config \<Rightarrow> sgl_inputs \<Rightarrow> nat list \<Rightarrow> int list \<Rightarrow> kv_state \<Rightarrow> kv_state result" where
  "decode_results cfg inp [] ts m = ok m"
| "decode_results cfg inp (a # as) [] m = raise IndexError"
| "decode_results cfg inp (a # as) (t # ts) m =
     (let m = change_req a (append_output cfg t) m in
      res_bind (if req_finished (kv_reqs m a) then release_kv_cache (result_time inp a) False True a m else ok m)
        (decode_results cfg inp as ts))"

definition process_batch_result_decode :: "sgl_config \<Rightarrow> sgl_inputs \<Rightarrow> sgl_batch \<Rightarrow> kv_state \<Rightarrow> kv_state result" where
  "process_batch_result_decode cfg inp b m =
     res_bind (decode_results cfg inp (batch_reqs b) (sampled inp (batch_reqs b)) (m\<lparr>kv_allocator := free_group_begin (kv_allocator m)\<rparr>))
       (\<lambda>m. ok (m\<lparr>kv_allocator := free_group_end (kv_allocator m)\<rparr>))"

section \<open>The loop\<close>

definition ref_reqs :: "batch_ref \<Rightarrow> sgl_batch \<Rightarrow> nat list" where
  "ref_reqs b run = (case b of No_Batch \<Rightarrow> [] | Extend_Batch b \<Rightarrow> batch_reqs b | The_Running_Batch \<Rightarrow> batch_reqs run)"

definition is_fully_idle :: "sgl_state \<Rightarrow> bool" where
  "is_fully_idle s \<longleftrightarrow> batch_reqs (running_batch s) = [] \<and> chunked_req s = None \<and> ref_reqs (last_batch s) (running_batch s) = [] \<and> waiting_queue s = []"

definition on_idle :: "sgl_config \<Rightarrow> sgl_state \<Rightarrow> sgl_state result" where
  "on_idle cfg s =
     (if is_fully_idle s then res_bind (self_check_during_idle (memory s)) (\<lambda>_. ok (s\<lparr>new_token_ratio := init_ratio cfg\<rparr>)) else ok s)"

definition run_batch :: "sgl_config \<Rightarrow> sgl_inputs \<Rightarrow> batch_ref \<Rightarrow> sgl_state \<Rightarrow> sgl_state result" where
  "run_batch cfg inp b s =
     (case b of
        No_Batch \<Rightarrow> on_idle cfg s
      | Extend_Batch b \<Rightarrow> res_bind (process_batch_result_prefill cfg inp b (memory s)) (\<lambda>m. ok (s\<lparr>memory := m\<rparr>))
      | The_Running_Batch \<Rightarrow> res_bind (process_batch_result_decode cfg inp (running_batch s) (memory s)) (\<lambda>m. ok (s\<lparr>memory := m\<rparr>)))"

text \<open>The requests the check counts: those of the last batch and of the running batch, unless they are one object.\<close>

definition busy_check :: "sgl_config \<Rightarrow> sgl_state \<Rightarrow> unit result" where
  "busy_check cfg s =
     (if \<not> check_during_busy cfg then ok ()
      else case last_batch s of
             No_Batch \<Rightarrow> ok ()
           | The_Running_Batch \<Rightarrow> self_check_during_busy (batch_reqs (running_batch s)) (memory s)
           | Extend_Batch b \<Rightarrow> self_check_during_busy (batch_reqs b @ batch_reqs (running_batch s)) (memory s))"

definition event_loop_iteration :: "sgl_config \<Rightarrow> sgl_inputs \<Rightarrow> sgl_state \<Rightarrow> sgl_state result" where
  "event_loop_iteration cfg inp s =
     (if engine_paused s then ok s
      else
        res_bind (get_next_batch_to_run cfg inp s) (\<lambda>(b, s).
        res_bind (run_batch cfg inp b s) (\<lambda>s.
        let s = s\<lparr>last_batch := b\<rparr> in
        res_bind (busy_check cfg s) (\<lambda>_. ok s))))"

section \<open>Pausing\<close>

datatype pause_mode = In_Place | Retract

text \<open>The requests still to retract include the one at hand.\<close>

fun retract_all :: "sgl_config \<Rightarrow> sgl_inputs \<Rightarrow> nat list \<Rightarrow> kv_state \<Rightarrow> kv_state result" where
  "retract_all cfg inp [] m = ok m"
| "retract_all cfg inp (a # as) m =
     res_bind (release_req (release_time inp a) False (leaf_order cfg) (retract_decode_steps cfg) (length (a # as)) a m) (retract_all cfg inp as)"

definition merge_for_pause :: "sgl_state \<Rightarrow> sgl_state" where
  "merge_for_pause s =
     (case last_batch s of
        Extend_Batch b \<Rightarrow>
          let b' = filter_batch {} (memory s) b in
          if batch_reqs b' = [] then s
          else if batch_reqs (running_batch s) = [] then s\<lparr>running_batch := b'\<rparr>
          else s\<lparr>running_batch := merge_batch (running_batch s) b'\<rparr>
      | _ \<Rightarrow> s)\<lparr>last_batch := No_Batch\<rparr>"

definition pause_generation :: "sgl_config \<Rightarrow> sgl_inputs \<Rightarrow> pause_mode \<Rightarrow> sgl_state \<Rightarrow> sgl_state result" where
  "pause_generation cfg inp mode s =
     (let s = s\<lparr>engine_paused := True\<rparr> in
      case mode of
        In_Place \<Rightarrow> ok s
      | Retract \<Rightarrow>
          let s = merge_for_pause s in
          if batch_reqs (running_batch s) = [] then ok s
          else
            let b = filter_batch {} (memory s) (running_batch s) in
            res_bind (retract_all cfg inp (batch_reqs b) (memory s)) (\<lambda>m.
              ok (s\<lparr>memory := m, waiting_queue := fold (add_request_to_queue cfg) (batch_reqs b) (waiting_queue s),
                    running_batch := b\<lparr>batch_reqs := [], batch_is_full := False\<rparr>, chunked_req := None\<rparr>)))"

definition continue_generation :: "sgl_state \<Rightarrow> sgl_state" where
  "continue_generation s = s\<lparr>engine_paused := False\<rparr>"

section \<open>The server\<close>

datatype sgl_event =
    Arrive nat radix_req
  | Abort "nat \<Rightarrow> bool"
  | Iterate sgl_inputs
  | Pause sgl_inputs pause_mode
  | Continue

definition sgl_event :: "sgl_config \<Rightarrow> sgl_event \<Rightarrow> sgl_state \<Rightarrow> sgl_state result" where
  "sgl_event cfg e s =
     (case e of
        Arrive a r \<Rightarrow> ok (handle_generate_request cfg a r s)
      | Abort hit \<Rightarrow> ok (abort_request hit s)
      | Iterate inp \<Rightarrow> event_loop_iteration cfg inp s
      | Pause inp mode \<Rightarrow> pause_generation cfg inp mode s
      | Continue \<Rightarrow> ok (continue_generation s))"

definition sgl_init :: "sgl_config \<Rightarrow> radix_cache \<Rightarrow> nat \<Rightarrow> bool \<Rightarrow> nat \<Rightarrow> nat \<Rightarrow> sgl_state" where
  "sgl_init cfg c slots sorted_pages rows ctx =
     \<lparr>memory = req_pool_init rows ctx \<lparr>kv_cache = c, kv_allocator = allocator_init slots sorted_pages, req_to_token = (\<lambda>_. []), pool_size = 0,
        max_context_len = 0, free_slots = [], kv_reqs = (\<lambda>_. new_req [] None None None False (- 1))\<rparr>,
      waiting_queue = [], running_batch = empty_batch, last_batch = No_Batch, chunked_req = None, pending_chunked_abort_req = None,
      new_token_ratio = init_ratio cfg, engine_paused = False\<rparr>"

end
