(* ===== verification/SglRoom.thy ===== *)
theory SglRoom
  imports SglRelease RadixHeld
begin

text \<open>
  The room of a state of SGLang's memory, the slots that are free or can be made free: all slots but those of
  the prefixes that requests hold in the tree and those of their rows. Releasing a request never makes the room smaller, and
  caching an unfinished one neither, although its handle moves down the tree. The checks for leaks follow.
\<close>

declare map_of_eq_Some_iff [simp del]

section \<open>Where the slots are\<close>

definition held_len :: "kv_state \<Rightarrow> nat set \<Rightarrow> (nat \<Rightarrow> lunit list) \<Rightarrow> nat" where
  "held_len s A F = card (held_units F (handles s A))"

lemma tree_slots_size:
  assumes "radix_inv c L F V hs"
  shows "int (size (tree_slots c)) = evictable_size c + protected_size c"
  using total_size_inv [OF assms] by auto

lemma allocator_slots_size: "is_not_in_free_group a \<Longrightarrow> size (allocator_slots a) = available_size a"
  by (simp add: allocator_slots_def available_size_def)

lemma room_eq:
  assumes inv: "kv_inv s A X L F V" and ready: "is_not_in_free_group (kv_allocator s)"
  shows "room s + int (held_len s A F) + int (size (slots_of s A)) + int (size X) = int (alloc_size (kv_allocator s))"
proof -
  note D = kv_invD [OF inv]
  have "size (tree_slots (kv_cache s)) + size (allocator_slots (kv_allocator s)) + size (slots_of s A) + size X = alloc_size (kv_allocator s)"
    using arg_cong [OF D(10) [unfolded slots_ok_def], of size] by simp
  then show ?thesis
    using tree_slots_size [OF D(1)] allocator_slots_size [OF ready] protected_card [OF D(1,3)] by (simp add: room_def held_len_def)
qed

lemma own_slots_size:
  assumes "kv_inv s A X L F V" "a \<in> A"
  shows "size (own_slots (req_to_token s) (kv_reqs s a)) =
    (if req_pool_idx (kv_reqs s a) = None then 0 else kv_allocated_len (kv_reqs s a) - cache_protected_len (kv_reqs s a))"
  using kv_inv_req(3) [OF assms] kv_invD(7) [OF assms(1)] by (auto simp: own_slots_def row_ok_def split: option.splits)

text \<open>The room can only have grown where the requests hold less.\<close>

lemma room_mono:
  assumes "kv_inv s A X L F V" "kv_inv s' A' X L' F' V'" "is_not_in_free_group (kv_allocator s)" "is_not_in_free_group (kv_allocator s')"
    and "alloc_size (kv_allocator s') = alloc_size (kv_allocator s)"
    and "held_len s' A' F' + size (slots_of s' A') \<le> held_len s A F + size (slots_of s A)"
  shows "room s \<le> room s'"
  using room_eq [OF assms(1,3)] room_eq [OF assms(2,4)] assms(5,6) by linarith

lemma size_slots_of: "finite A \<Longrightarrow> size (slots_of s A) = (\<Sum>a\<in>A. size (own_slots (req_to_token s) (kv_reqs s a)))"
  unfolding slots_of_def by (induction A rule: finite_induct) simp_all

lemma slots_sizes:
  assumes "kv_inv s A X L F V"
  shows "size (slots_of s A) = (\<Sum>a\<in>A. if req_pool_idx (kv_reqs s a) = None then 0 else kv_allocated_len (kv_reqs s a) - cache_protected_len (kv_reqs s a))"
  unfolding size_slots_of [OF kv_invD(6) [OF assms]] by (intro sum.cong refl own_slots_size [OF assms])

lemma handles_remove: "finite A \<Longrightarrow> a \<in> A \<Longrightarrow> handles s A = add_mset (node_of (kv_reqs s a)) (handles s (A - {a}))"
  by (simp add: handles_def sum.remove [of A a "\<lambda>b. {#node_of (kv_reqs s b)#}"])

section \<open>Caching and releasing\<close>

lemma unfinished_room:
  assumes inv: "kv_inv s A X L F V" and a: "a \<in> A" and i: "req_pool_idx (kv_reqs s a) = Some i"
    and fill: "kv_allocated_len (kv_reqs s a) = fill_len (kv_reqs s a)" and ready: "is_not_in_free_group (kv_allocator s)"
    and inv': "kv_inv s' A X L' F' V'" and kept: "kept L F V F' V'"
    and r: "kv_reqs s' = (kv_reqs s)(a := (kv_reqs s a)\<lparr>cache_protected_len := fill_len (kv_reqs s a) - short_by (kv_cache s), prefix_indices := pre, last_node := Some n\<rparr>)"
    and same: "settings (kv_cache s') = settings (kv_cache s)" "is_not_in_free_group (kv_allocator s')" "alloc_size (kv_allocator s') = alloc_size (kv_allocator s)"
  shows "room s \<le> room s'"
proof (rule room_mono [OF inv inv' ready same(2,3)])
  note D = kv_invD [OF inv] and R = kv_inv_req [OF inv a] and R' = kv_inv_req [OF inv' a] and E = settings_sel(1-3) [OF same(1)]
  let ?r = "kv_reqs s a" and ?r' = "kv_reqs s' a" and ?B = "A - {a}"
  have len: "length (F (node_of ?r)) = cache_protected_len ?r" "length (F' (node_of ?r')) = fill_len ?r - short_by (kv_cache s)"
    "prefix (F (node_of ?r)) (req_path (kv_cache s) ?r)" "prefix (F' (node_of ?r')) (req_path (kv_cache s) ?r)"
    using R(1) R'(1) r E by (auto simp: shares_prefix_def req_path_def)
  have le: "cache_protected_len ?r \<le> fill_len ?r - short_by (kv_cache s)" using row_okD(4) [OF R(3) i] fill by simp
  have pre: "prefix (F' (node_of ?r)) (F' (node_of ?r'))" "F' (node_of ?r) = F (node_of ?r)"
    using prefix_length_prefix [OF len(3,4)] len(1,2) le kept R(4) by (auto simp: kept_def)
  have hs: "handles s A = add_mset (node_of ?r) (handles s ?B)" "handles s' A = add_mset (node_of ?r') (handles s ?B)"
  proof -
    have "handles s' ?B = handles s ?B" using r by (intro handles_cong) simp
    then show "handles s A = add_mset (node_of ?r) (handles s ?B)" "handles s' A = add_mset (node_of ?r') (handles s ?B)"
      using handles_remove [OF D(6) a] by metis+
  qed
  have "held_units F' (handles s A) = held_units F (handles s A)" using kept D(12) by (intro held_units_cong) (auto simp: kept_def)
  then have held: "held_len s' A F' \<le> held_len s A F + (fill_len ?r - short_by (kv_cache s) - cache_protected_len ?r)"
    using held_units_extend [OF pre(1), of "handles s ?B"] len(1,2) pre(2) unfolding held_len_def hs by simp
  let ?u = "\<lambda>s b. if req_pool_idx (kv_reqs s b) = None then 0 else kv_allocated_len (kv_reqs s b) - cache_protected_len (kv_reqs s b)"
  have "sum (?u s') ?B = sum (?u s) ?B" using r by (intro sum.cong) auto
  then have "size (slots_of s A) = (fill_len ?r - cache_protected_len ?r) + sum (?u s) ?B"
    "size (slots_of s' A) = (fill_len ?r - (fill_len ?r - short_by (kv_cache s))) + sum (?u s) ?B"
    unfolding slots_sizes [OF inv] slots_sizes [OF inv'] using sum.remove [OF D(6) a, of "?u s"] sum.remove [OF D(6) a, of "?u s'"] r i fill by auto
  then show "held_len s' A F' + size (slots_of s' A) \<le> held_len s A F + size (slots_of s A)" using held le by simp
qed

lemma released_room:
  assumes inv: "kv_inv s A X L F V" and a: "a \<in> A" and ready: "is_not_in_free_group (kv_allocator s)"
    and inv': "kv_inv s' (A - {a}) X L' F' V'" and kept: "kept L F V F' V'" and r: "kv_reqs s' = (kv_reqs s)(a := r)"
    and same: "is_not_in_free_group (kv_allocator s')" "alloc_size (kv_allocator s') = alloc_size (kv_allocator s)"
  shows "room s \<le> room s'"
proof (rule room_mono [OF inv inv' ready same])
  note D = kv_invD [OF inv]
  have hs: "handles s' (A - {a}) = handles s (A - {a})" using r by (intro handles_cong) simp
  have sub: "handles s (A - {a}) \<subseteq># handles s A" using handles_remove [OF D(6) a] by simp
  have "held_units F' (handles s (A - {a})) = held_units F (handles s (A - {a}))"
    using kept D(12) set_mset_mono [OF sub] by (intro held_units_cong) (auto simp: kept_def)
  then have "held_len s' (A - {a}) F' \<le> held_len s A F"
    unfolding held_len_def hs using held_units_mono [OF sub] by (simp add: card_mono finite_held_units)
  moreover have "size (slots_of s' (A - {a})) \<le> size (slots_of s A)"
  proof -
    let ?u = "\<lambda>s b. if req_pool_idx (kv_reqs s b) = None then 0 else kv_allocated_len (kv_reqs s b) - cache_protected_len (kv_reqs s b)"
    have "sum (?u s') (A - {a}) = sum (?u s) (A - {a})" using r by (intro sum.cong) auto
    then show ?thesis unfolding slots_sizes [OF inv] slots_sizes [OF inv'] using sum.remove [OF D(6) a, of "?u s"] by simp
  qed
  ultimately show "held_len s' (A - {a}) F' + size (slots_of s' (A - {a})) \<le> held_len s A F + size (slots_of s A)" by simp
qed

text \<open>Writing slots into rows takes them from the room.\<close>

lemma extended_room:
  assumes inv: "kv_inv s A X L F V" and inv': "kv_inv s' A X L' F V" and as: "distinct as" "set as \<subseteq> A"
    and ext: "\<And>a. a \<in> set as \<Longrightarrow> can_extend s (kv_reqs s a)"
    and r: "kv_reqs s' = (\<lambda>a. if a \<in> set as then committed (Some (row a)) (kv_reqs s a) else kv_reqs s a)"
    and ready: "is_not_in_free_group (kv_allocator s)"
    and same: "is_not_in_free_group (kv_allocator s')" "alloc_size (kv_allocator s') = alloc_size (kv_allocator s)"
  shows "room s' = room s - int (\<Sum>a\<leftarrow>as. extend_input_len (kv_reqs s a))"
proof -
  note D = kv_invD [OF inv]
  let ?u = "\<lambda>s b. if req_pool_idx (kv_reqs s b) = None then 0 else kv_allocated_len (kv_reqs s b) - cache_protected_len (kv_reqs s b)"
  let ?e = "\<lambda>a. extend_input_len (kv_reqs s a)"
  have step: "?u s' a = ?u s a + ?e a" if a: "a \<in> set as" for a
  proof -
    have aA: "a \<in> A" using a as(2) by blast
    have c: "cache_protected_len (kv_reqs s a) \<le> length (prefix_indices (kv_reqs s a))" "row_ok (max_context_len s) (kv_cache s) (req_to_token s) (kv_reqs s a)"
      using kv_inv_req(1,3) [OF inv aA] by (simp_all add: shares_prefix_def)
    show ?thesis using ext [OF a] c a r by (cases "req_pool_idx (kv_reqs s a)") (auto simp: can_extend_def committed_def row_ok_def)
  qed
  have "sum (?u s') A = sum (?u s) A + sum ?e (set as)"
  proof -
    have split: "sum f A = sum f (set as) + sum f (A - set as)" for f :: "nat \<Rightarrow> nat" using sum.subset_diff [OF as(2) D(6), of f] by simp
    have "sum (?u s') (A - set as) = sum (?u s) (A - set as)" using r by (intro sum.cong) auto
    moreover have "sum (?u s') (set as) = sum (?u s) (set as) + sum ?e (set as)" using step by (simp add: sum.distrib [symmetric] cong: sum.cong)
    ultimately show ?thesis using split [of "?u s"] split [of "?u s'"] by linarith
  qed
  then have "size (slots_of s' A) = size (slots_of s A) + (\<Sum>a\<leftarrow>as. ?e a)"
    unfolding slots_sizes [OF inv] slots_sizes [OF inv'] by (simp add: sum_list_distinct_conv_sum_set [OF as(1)])
  moreover have "held_len s' A F = held_len s A F"
    unfolding held_len_def using r by (subst handles_cong [where s' = s' and s = s]) (auto simp: committed_def)
  ultimately show ?thesis using room_eq [OF inv ready] room_eq [OF inv' same(1)] same(2) by linarith
qed

section \<open>The checks for leaks\<close>

text \<open>\<open>as\<close> lists the active requests, and among them requests whose slots were given back.\<close>

lemma busy_check_ok:
  assumes inv: "kv_inv s A {#} L F V" and ready: "is_not_in_free_group (kv_allocator s)" and as: "distinct as" "A \<subseteq> set as"
    and gone: "\<And>a. a \<in> set as - A \<Longrightarrow> kv_committed_freed (kv_reqs s a) \<and> kv_overallocated_freed (kv_reqs s a)"
  shows "self_check_during_busy as s = ok ()"
proof -
  note D = kv_invD [OF inv]
  let ?u = "\<lambda>b. if req_pool_idx (kv_reqs s b) = None then 0 else kv_allocated_len (kv_reqs s b) - cache_protected_len (kv_reqs s b)"
  let ?i = "\<lambda>a. if holds_kv (kv_reqs s a) then int (kv_allocated_len (kv_reqs s a)) - int (cache_protected_len (kv_reqs s a)) else 0"
  have flags: "kv_committed_freed (kv_reqs s a) = kv_overallocated_freed (kv_reqs s a)" if "a \<in> set as" for a
    using gone [of a] kv_inv_req(2) [OF inv, of a] that by (auto simp: unreleased_def)
  have "?i a = int (?u a)" if "a \<in> A" for a
    using kv_inv_req(2,3) [OF inv that] by (cases "req_pool_idx (kv_reqs s a)") (auto simp: holds_kv_def unreleased_def row_ok_def)
  then have act: "sum ?i A = int (sum ?u A)" by (simp add: int_sum cong: sum.cong)
  have "sum ?i (set as) = sum ?i A" using gone as(2) by (intro sum.mono_neutral_right) (auto simp: holds_kv_def)
  then have "total_uncached as s = ok (int (size (slots_of s A)))"
    using flags act by (simp add: total_uncached_def list_all_iff sum_list_distinct_conv_sum_set [OF as(1)] slots_sizes [OF inv])
  moreover have "\<not> pool_leak (int (size (slots_of s A))) s"
    using room_eq [OF inv ready] protected_card [OF D(1,3)] by (simp add: pool_leak_def room_def held_len_def)
  ultimately show ?thesis by (simp add: self_check_during_busy_def)
qed

lemma idle_check_ok:
  assumes inv: "kv_inv s {} {#} L F V" and ready: "is_not_in_free_group (kv_allocator s)"
  shows "self_check_during_idle s = ok ()"
proof -
  note D = kv_invD [OF inv]
  have "mset (free_slots s) = mset [1..<Suc (pool_size s)]" using D(9) by (simp add: rows_ok_def del: upt_Suc)
  then have "length (free_slots s) = pool_size s" by (metis diff_Suc_1 length_upt size_mset)
  moreover have "\<not> pool_leak 0 s"
    using room_eq [OF inv ready] protected_card [OF D(1,3)] by (simp add: pool_leak_def room_def held_len_def slots_of_def)
  ultimately show ?thesis by (simp add: self_check_during_idle_def)
qed

end
