(* ===== verification/SglFit.thy ===== *)
theory SglFit
  imports SglRoom SglLoop
begin

text \<open>
  Admission never promises more slots than there are: what \<open>PrefillAdder\<close> has put into a batch always fits into the room that is
  left, together with the rest of a prompt that was cut. The lemmas follow \<open>add_one_req\<close>, \<open>add_chunked_req\<close> and the
  loop over the waiting queue.
\<close>

declare map_of_eq_Some_iff [simp del]

section \<open>Requests\<close>

definition fits :: "nat \<Rightarrow> radix_req \<Rightarrow> bool" where
  "fits ctx r \<longleftrightarrow> origin_input_ids r \<noteq> [] \<and> length (origin_input_ids r) + max 1 (max_new_tokens r) \<le> ctx \<and>
     (output_ids r = [] \<or> length (output_ids r) < max_new_tokens r)"

definition queued :: "nat \<Rightarrow> radix_req \<Rightarrow> bool" where
  "queued ctx r \<longleftrightarrow> waiting_req r \<and> fits ctx r \<and> \<not> req_finished r \<and> inflight_middle_chunks r = 0"

lemma fits_len: "fits ctx r \<Longrightarrow> length (origin_input_ids r @ output_ids r) \<le> ctx \<and> 0 < length (origin_input_ids r @ output_ids r)"
  by (auto simp: fits_def)

text \<open>A request that is in a batch to launch; \<open>part\<close> says that its prompt is cut.\<close>

definition launching :: "kv_state \<Rightarrow> bool \<Rightarrow> radix_req \<Rightarrow> bool" where
  "launching m part r \<longleftrightarrow> can_extend m r \<and> \<not> req_finished r \<and> fits (max_context_len m) r \<and> inflight_middle_chunks r = 0 \<and>
     full_untruncated_fill_ids r = origin_input_ids r @ output_ids r \<and> 0 < extend_input_len r \<and>
     (if part then fill_len r < length (full_untruncated_fill_ids r) else fill_len r = length (full_untruncated_fill_ids r))"

definition same_pool :: "kv_state \<Rightarrow> kv_state \<Rightarrow> bool" where
  "same_pool m m' \<longleftrightarrow> settings (kv_cache m') = settings (kv_cache m) \<and> max_context_len m' = max_context_len m \<and> pool_size m' = pool_size m \<and>
     alloc_size (kv_allocator m') = alloc_size (kv_allocator m) \<and> is_not_in_free_group (kv_allocator m') = is_not_in_free_group (kv_allocator m)"

lemma same_pool_refl [simp]: "same_pool m m"
  by (simp add: same_pool_def)

lemma same_pool_trans: "same_pool m m' \<Longrightarrow> same_pool m' m'' \<Longrightarrow> same_pool m m''"
  by (simp add: same_pool_def)

lemma launching_cong: "same_pool m m' \<Longrightarrow> launching m' p r \<longleftrightarrow> launching m p r"
  using settings_sel(3) [of "kv_cache m'" "kv_cache m"] by (simp add: same_pool_def launching_def can_extend_def short_by_def)

section \<open>The adder\<close>

definition run_tokens :: "prefill_adder \<Rightarrow> kv_state \<Rightarrow> nat" where
  "run_tokens ad m = (\<Sum>a\<leftarrow>can_run_list ad. extend_input_len (kv_reqs m a))"

definition rest_len :: "radix_req \<Rightarrow> nat" where
  "rest_len r = length (origin_input_ids r @ output_ids r) - fill_len r"

text \<open>What is in the batch fits, with the rest of the cut prompt \<open>p\<close>.\<close>

definition adder_ok :: "kv_state \<Rightarrow> nat set \<Rightarrow> nat option \<Rightarrow> prefill_adder \<Rightarrow> bool" where
  "adder_ok m A p ad \<longleftrightarrow> distinct (can_run_list ad) \<and> set (can_run_list ad) \<subseteq> A \<and>
     (\<forall>a\<in>set (can_run_list ad). launching m (p = Some a) (kv_reqs m a)) \<and>
     length (filter (\<lambda>a. req_pool_idx (kv_reqs m a) = None) (can_run_list ad)) \<le> length (free_slots m) \<and>
     real (run_tokens ad m) \<le> rem_total_token_offset ad \<and>
     (case p of None \<Rightarrow> int (run_tokens ad m) \<le> room m
      | Some a \<Rightarrow> a \<in> set (can_run_list ad) \<and> int (run_tokens ad m) + int (rest_len (kv_reqs m a)) \<le> room m)"

text \<open>Nothing more is admitted after a cut prompt.\<close>

definition adder_blocked :: "prefill_adder \<Rightarrow> kv_state \<Rightarrow> bool" where
  "adder_blocked ad m \<longleftrightarrow> (case rem_chunk_tokens ad of Some n \<Rightarrow> n \<le> 0 | None \<Rightarrow> False) \<or> rem_total_tokens ad m \<le> 1"

lemma ceil_one: "page_size (kv_cache m) = 1 \<Longrightarrow> ceil_paged_tokens m n = int n"
  by (simp add: ceil_paged_tokens_def)

lemma room_available: "available_and_evictable m = room m"
  by (simp add: available_and_evictable_def room_def)

lemma run_tokens_cong: "(\<And>a. a \<in> set (can_run_list ad) \<Longrightarrow> extend_input_len (kv_reqs m' a) = extend_input_len (kv_reqs m a)) \<Longrightarrow> run_tokens ad m' = run_tokens ad m"
  by (simp add: run_tokens_def cong: map_cong)

lemma adder_ok_cong:
  assumes "can_run_list ad' = can_run_list ad" "rem_total_token_offset ad' = rem_total_token_offset ad"
  shows "adder_ok m A p ad' \<longleftrightarrow> adder_ok m A p ad"
  unfolding adder_ok_def run_tokens_def assms by simp

lemma chunk_len_one:
  assumes "page_size (kv_cache m) = 1" "truncation_align_size cfg = None"
  shows "chunk_len cfg n r m = (if n \<le> 0 then None else Some n)"
  using assms by (simp add: chunk_len_def)

lemma budget_blocked: "rem_chunk_tokens ad = Some n \<Longrightarrow> n \<le> 0 \<Longrightarrow> budget_state ad m \<noteq> ADD_CONTINUE"
  by (simp add: budget_state_def)

section \<open>One request\<close>

lemma set_req_cache: "set_req a r m\<lparr>kv_cache := c\<rparr> = set_req a r (m\<lparr>kv_cache := c\<rparr>)"
  by (simp add: set_req_def)

text \<open>The adder after it has put in a request with \<open>ext\<close> tokens.\<close>

lemma adder_ok_add:
  assumes ok: "adder_ok m A None ad" and a: "a \<notin> A" and len: "length (can_run_list ad) < length (free_slots m)"
    and same: "same_pool m m'" "free_slots m' = free_slots m" "page_size (kv_cache m') = 1"
    and reqs: "kv_reqs m' = (kv_reqs m)(a := r)" and r: "launching m (p = Some a) r" and ext: "extend_input_len r \<le> e"
    and part: "p = None \<or> p = Some a \<and> rest_len r \<le> e - extend_input_len r"
    and room: "real e < real_of_int (room m') - rem_total_token_offset ad"
  shows "adder_ok m' (insert a A) p (update_prefill_budget m' (extend_input_len r) k (append_run a ad))"
    "adder_ok m' (insert a A) p (update_prefill_budget m' (extend_input_len r) k (append_run a ad\<lparr>new_chunked_req := q\<rparr>))"
proof -
  let ?ad = "update_prefill_budget m' (extend_input_len r) k (append_run a ad)"
  note O = ok [unfolded adder_ok_def]
  have out: "a \<notin> set (can_run_list ad)" using O a by blast
  have sel: "can_run_list ?ad = can_run_list ad @ [a]" "rem_total_token_offset ?ad = rem_total_token_offset ad + extend_input_len r + k + 1"
    using ceil_one [OF same(3)] same(3) by (simp_all add: update_prefill_budget_def append_run_def Let_def)
  have tokens: "run_tokens ?ad m' = run_tokens ad m + extend_input_len r"
  proof -
    have "(\<Sum>b\<leftarrow>can_run_list ad. extend_input_len (kv_reqs m' b)) = run_tokens ad m"
      unfolding run_tokens_def using out reqs by (intro arg_cong [where f = sum_list] map_cong) auto
    then show ?thesis by (simp add: run_tokens_def sel reqs)
  qed
  have all: "launching m' (p = Some b) (kv_reqs m' b)" if "b \<in> set (can_run_list ?ad)" for b
  proof (cases "b = a")
    case True
    then show ?thesis using r launching_cong [OF same(1)] reqs by simp
  next
    case False
    then have "b \<in> set (can_run_list ad)" "p \<noteq> Some b" using that sel part by auto
    then show ?thesis using O launching_cong [OF same(1)] reqs False by simp
  qed
  have rows: "length (filter (\<lambda>b. req_pool_idx (kv_reqs m' b) = None) (can_run_list ?ad)) \<le> length (free_slots m')"
  proof -
    have "length (filter (\<lambda>b. req_pool_idx (kv_reqs m' b) = None) (can_run_list ?ad)) \<le> length (can_run_list ?ad)" by (rule length_filter_le)
    also have "\<dots> \<le> length (free_slots m')" using len sel(1) same(2) by simp
    finally show ?thesis .
  qed
  have off: "real (run_tokens ad m) \<le> rem_total_token_offset ad" using O by simp
  then have "real (run_tokens ?ad m') \<le> rem_total_token_offset ?ad" unfolding tokens sel by simp
  moreover have "real (run_tokens ad m) + real e < real_of_int (room m')" using off room by simp
  then have "int (run_tokens ad m) + int e \<le> room m'" by linarith
  moreover have "distinct (can_run_list ?ad)" "set (can_run_list ?ad) \<subseteq> insert a A" using O out sel(1) by auto
  ultimately show "adder_ok m' (insert a A) p ?ad"
    using all rows ext part tokens sel(1) reqs unfolding adder_ok_def by (auto split: option.split)
  then show "adder_ok m' (insert a A) p (update_prefill_budget m' (extend_input_len r) k (append_run a ad\<lparr>new_chunked_req := q\<rparr>))"
    by (subst adder_ok_cong [of _ ?ad]) (simp_all add: update_prefill_budget_def append_run_def Let_def)
qed

lemma same_cache_inv:
  assumes "kv_inv m A X L F V" "radix_inv c L F V (handles m A)" "same_memory (kv_cache m) c"
  shows "kv_inv (m\<lparr>kv_cache := c\<rparr>) A X L F V" "same_pool m (m\<lparr>kv_cache := c\<rparr>)"
proof -
  note D = kv_invD [OF assms(1)]
  have m: "settings c = settings (kv_cache m)" "frees c = []" "tree_slots c = tree_slots (kv_cache m)" using assms(3) D(4) by (simp_all add: same_memory_def)
  note set = settings_sel(1-3) [OF m(1)]
  have "kv_inv (m\<lparr>kv_cache := c, kv_allocator := kv_allocator m\<rparr>) A X L F V"
    using m set D(2-5) by (intro kv_inv_memory [OF assms(1,2)]) (simp_all add: cache_fits_def)
  then show "kv_inv (m\<lparr>kv_cache := c\<rparr>) A X L F V" by simp
  show "same_pool m (m\<lparr>kv_cache := c\<rparr>)" using m(1) by (simp add: same_pool_def)
qed

lemma matched_full:
  assumes "matched m L F V a" "fits ctx (kv_reqs m a)"
  shows "length (full_untruncated_fill_ids (kv_reqs m a)) = length (prefix_indices (kv_reqs m a)) + extend_input_len (kv_reqs m a)"
    "0 < extend_input_len (kv_reqs m a)" "length (full_untruncated_fill_ids (kv_reqs m a)) \<le> ctx"
    "length (prefix_indices (kv_reqs m a)) \<le> length (full_untruncated_fill_ids (kv_reqs m a)) - 1 - short_by (kv_cache m)"
proof -
  let ?r = "kv_reqs m a"
  have e: "extend_input_len ?r = length (full_untruncated_fill_ids ?r) - length (prefix_indices ?r)"
    and p: "length (prefix_indices ?r) \<le> length (full_untruncated_fill_ids ?r) - 1 - short_by (kv_cache m)"
    and f: "full_untruncated_fill_ids ?r = origin_input_ids ?r @ output_ids ?r" using assms(1) unfolding matched_def Let_def by blast+
  have len: "length (full_untruncated_fill_ids ?r) \<le> ctx" "0 < length (full_untruncated_fill_ids ?r)" unfolding f using fits_len [OF assms(2)] by auto
  show "length (full_untruncated_fill_ids ?r) \<le> ctx"
    "length (prefix_indices ?r) \<le> length (full_untruncated_fill_ids ?r) - 1 - short_by (kv_cache m)" by (fact len(1), fact p)
  show "length (full_untruncated_fill_ids ?r) = length (prefix_indices ?r) + extend_input_len ?r" "0 < extend_input_len ?r" using e p len by linarith+
qed

text \<open>The two forms in which a matched request is launched.\<close>

lemma matched_launching:
  assumes mt: "matched m L F V a" and q: "queued (max_context_len m) (kv_reqs m a)" and m': "max_context_len m' = max_context_len m"
      "is_eagle (kv_cache m') = is_eagle (kv_cache m)"
    and n: "0 < n" "n \<le> extend_input_len (kv_reqs m a)"
  shows "launching m' (n < extend_input_len (kv_reqs m a)) ((kv_reqs m a)\<lparr>extend_input_len := n, fill_len := length (prefix_indices (kv_reqs m a)) + n\<rparr>)"
proof -
  have f: "fits (max_context_len m) (kv_reqs m a)" "\<not> req_finished (kv_reqs m a)" "inflight_middle_chunks (kv_reqs m a) = 0"
    "waiting_req (kv_reqs m a)" using q by (simp_all add: queued_def)
  note M = matched_full [OF mt f(1)]
  have "cache_protected_len (kv_reqs m a) = length (prefix_indices (kv_reqs m a))" "full_untruncated_fill_ids (kv_reqs m a) = origin_input_ids (kv_reqs m a) @ output_ids (kv_reqs m a)"
    using mt by (simp_all add: matched_def Let_def)
  moreover have "short_by (kv_cache m') \<le> 1" by (simp add: short_by_def)
  ultimately show ?thesis
    using f M n m' by (auto simp: launching_def can_extend_def fits_def waiting_req_def short_by_def)
qed

definition kept_out :: "kv_state \<Rightarrow> nat set \<Rightarrow> (nat \<Rightarrow> lunit list) \<Rightarrow> (nat \<Rightarrow> int list) \<Rightarrow> nat set \<Rightarrow> prefill_adder \<Rightarrow>
    (add_result \<times> prefill_adder \<times> kv_state) result \<Rightarrow> bool" where
  "kept_out m L F V A ad x \<longleftrightarrow> (\<exists>res c. x = ok (res, ad, m\<lparr>kv_cache := c\<rparr>) \<and> res \<noteq> ADD_CONTINUE \<and> kv_inv (m\<lparr>kv_cache := c\<rparr>) A {#} L F V \<and>
     same_pool m (m\<lparr>kv_cache := c\<rparr>) \<and> room (m\<lparr>kv_cache := c\<rparr>) = room m)"

definition put_in :: "kv_state \<Rightarrow> nat set \<Rightarrow> (nat \<Rightarrow> lunit list) \<Rightarrow> (nat \<Rightarrow> int list) \<Rightarrow> nat set \<Rightarrow> nat \<Rightarrow> prefill_adder \<Rightarrow>
    (add_result \<times> prefill_adder \<times> kv_state) result \<Rightarrow> bool" where
  "put_in m L F V A a ad x \<longleftrightarrow> (\<exists>res ad' r c p. x = ok (res, ad', set_req a r (m\<lparr>kv_cache := c\<rparr>)) \<and>
     kv_inv (set_req a r (m\<lparr>kv_cache := c\<rparr>)) (insert a A) {#} L F V \<and> same_pool m (set_req a r (m\<lparr>kv_cache := c\<rparr>)) \<and>
     adder_ok (set_req a r (m\<lparr>kv_cache := c\<rparr>)) (insert a A) p ad' \<and> can_run_list ad' = can_run_list ad @ [a] \<and>
     p \<in> {None, Some a} \<and> new_chunked_req ad' = (if p = None then new_chunked_req ad else p) \<and> (p \<noteq> None \<longrightarrow> res \<noteq> ADD_CONTINUE) \<and>
     (p \<noteq> None \<longrightarrow> rem_chunk_tokens ad \<noteq> None) \<and> (rem_chunk_tokens ad' = None \<longleftrightarrow> rem_chunk_tokens ad = None))"

lemma add_one_ok:
  assumes inv: "kv_inv m A {#} L F V" and a: "a \<notin> A" and mt: "matched m L F V a" and q: "queued (max_context_len m) (kv_reqs m a)"
    and ok: "\<not> adder_blocked ad m \<Longrightarrow> adder_ok m A None ad" and len: "length (can_run_list ad) < length (free_slots m)" and cfg: "truncation_align_size cfg = None"
  shows "kept_out m L F V A ad (add_one_req cfg a ad m) \<or> \<not> adder_blocked ad m \<and> put_in m L F V A a ad (add_one_req cfg a ad m)"
proof -
  note D = kv_invD [OF inv]
  let ?r = "kv_reqs m a" and ?n = "node_of (kv_reqs m a)"
  have r: "waiting_req ?r" "shares_prefix (kv_cache m) F V ?r" "?n \<in> L" "cache_protected_len ?r = length (prefix_indices ?r)" "last_node ?r = Some ?n"
    using mt by (auto simp: matched_def Let_def shares_prefix_def node_of_def)
  have f: "fits (max_context_len m) ?r" using q by (simp add: queued_def)
  note M = matched_full [OF mt f]
  obtain k1 c1 k0 c0 k2 c2 k3 c3 where l: "inc_lock_ref ?n (kv_cache m) = ok (k1, c1)" "dec_lock_ref ?n c1 = ok (k0, c0)"
    "inc_lock_ref ?n c1 = ok (k2, c2)" "dec_lock_ref ?n c2 = ok (k3, c3)"
    "radix_inv c0 L F V (handles m A)" "radix_inv c3 L F V (add_mset ?n (handles m A))" "evictable_size c0 = evictable_size (kv_cache m)"
    "evictable_size c3 = evictable_size c1" "same_memory (kv_cache m) c0" "same_memory (kv_cache m) c3" "settings c1 = settings (kv_cache m)"
    "settings c2 = settings (kv_cache m)" using lock_cycle [OF D(1) r(3) D(2)] by metis
  let ?m1 = "m\<lparr>kv_cache := c1\<rparr>"
  have page: "page_size c1 = 1" "page_size (kv_cache ?m1) = 1" using settings_sel(2) [OF l(11)] D(3) by simp_all
  have out0: "kept_out m L F V A ad (ok (res, ad, m))" if "res \<noteq> ADD_CONTINUE" for res
    unfolding kept_out_def using that inv by (intro exI [of _ res] exI [of _ "kv_cache m"]) simp
  have out1: "kept_out m L F V A ad (ok (res, ad, m\<lparr>kv_cache := c0\<rparr>))" if "res \<noteq> ADD_CONTINUE" for res
    unfolding kept_out_def using that same_cache_inv [OF inv l(5,9)] l(7) by (intro exI [of _ res] exI [of _ c0]) (simp add: room_def)
  have inc: "req_inc_lock_ref a m = ok ?m1" "req_dec_lock_ref a ?m1 = ok (m\<lparr>kv_cache := c0\<rparr>)"
    using l(1,2) r(5) by (simp_all add: req_inc_lock_ref_def req_dec_lock_ref_def)
  have inc': "req_inc_lock_ref a (set_req a r' ?m1) = ok (set_req a r' (m\<lparr>kv_cache := c2\<rparr>))"
    "req_dec_lock_ref a (set_req a r' (m\<lparr>kv_cache := c2\<rparr>)) = ok (set_req a r' (m\<lparr>kv_cache := c3\<rparr>))" if "last_node r' = last_node ?r" for r'
    using l(3,4) r(5) that by (simp_all add: req_inc_lock_ref_def req_dec_lock_ref_def set_req_def)
  let ?total = "extend_input_len ?r + min (max_new_tokens ?r - length (output_ids ?r)) (clip_max_new_tokens cfg) + page_size (kv_cache m)"
  have put: "put_in m L F V A a ad (ok (res, update_prefill_budget m2 n k (append_run a ad\<lparr>new_chunked_req := q'\<rparr>), set_req a r' (m\<lparr>kv_cache := c3\<rparr>)))"
    if nb: "\<not> adder_blocked ad m" and total: "\<not> rem_total_tokens ad ?m1 \<le> real ?total" and n: "0 < n" "n \<le> extend_input_len ?r"
      and r': "r' = ?r\<lparr>extend_input_len := n, fill_len := length (prefix_indices ?r) + n\<rparr>"
      and p: "q' = (if n < extend_input_len ?r then Some a else new_chunked_req ad)" "n < extend_input_len ?r \<Longrightarrow> res \<noteq> ADD_CONTINUE \<and> rem_chunk_tokens ad \<noteq> None"
      and m2: "page_size (kv_cache m2) = 1" for res n k q' r' m2
  proof -
    let ?m' = "set_req a r' (m\<lparr>kv_cache := c3\<rparr>)" and ?p = "if n < extend_input_len ?r then Some a else None"
    have set: "settings c3 = settings (kv_cache m)" using l(10) by (simp add: same_memory_def)
    have same: "same_pool m ?m'" "free_slots ?m' = free_slots m" "page_size (kv_cache ?m') = 1"
      using set settings_sel(2) [OF set] D(3) by (simp_all add: same_pool_def set_req_def)
    have lr: "launching m (?p = Some a) r'" unfolding r' using matched_launching [OF mt q refl refl n] n(2) by (auto split: if_splits)
    have "room ?m' = room ?m1" using l(8) by (simp add: room_def set_req_def)
    then have room: "real ?total < real_of_int (room ?m') - rem_total_token_offset ad" using total by (simp add: rem_total_tokens_def room_available)
    have rest: "rest_len r' \<le> ?total - n"
    proof -
      have "length (origin_input_ids ?r @ output_ids ?r) = length (prefix_indices ?r) + extend_input_len ?r"
        using M(1) mt by (simp add: matched_def Let_def)
      then show ?thesis using r' D(3) by (simp add: rest_len_def)
    qed
    have upd: "update_prefill_budget m2 n k x = update_prefill_budget ?m' (extend_input_len r') k x" for x
      using m2 same(3) r' by (simp add: update_prefill_budget_def ceil_one)
    have "adder_ok ?m' (insert a A) ?p (update_prefill_budget m2 n k (append_run a ad\<lparr>new_chunked_req := q'\<rparr>))"
      unfolding upd using rest n(2) r' room
      by (intro adder_ok_add(2) [OF ok [OF nb] a len same _ lr, where e = ?total]) (auto simp: set_req_def)
    moreover have "kv_inv ?m' (insert a A) {#} L F V"
    proof (rule admitted_inv [OF inv a])
      show "waiting_req r'" "shares_prefix (kv_cache m) F V r'" "cache_protected_len r' = length (prefix_indices r')"
        using r(1,2,4) r' by (simp_all add: waiting_req_def unreleased_def shares_prefix_def req_path_def node_of_def)
      show "radix_inv c3 L F V (add_mset (node_of r') (handles m A))" using l(6) r' by (simp add: node_of_def)
    qed (rule l(10))
    moreover have "can_run_list (update_prefill_budget m2 n k (append_run a ad\<lparr>new_chunked_req := q'\<rparr>)) = can_run_list ad @ [a]"
      "new_chunked_req (update_prefill_budget m2 n k (append_run a ad\<lparr>new_chunked_req := q'\<rparr>)) = q'"
      "rem_chunk_tokens (update_prefill_budget m2 n k (append_run a ad\<lparr>new_chunked_req := q'\<rparr>)) = None \<longleftrightarrow> rem_chunk_tokens ad = None"
      by (simp_all add: update_prefill_budget_def append_run_def Let_def)
    ultimately show ?thesis unfolding put_in_def using same(1) p
      by (intro exI [of _ res] exI [of _ "update_prefill_budget m2 n k (append_run a ad\<lparr>new_chunked_req := q'\<rparr>)"] exI [of _ r'] exI [of _ c3] exI [of _ ?p]) auto
  qed
  have full: "?r\<lparr>fill_len := length (full_untruncated_fill_ids ?r)\<rparr> =
      ?r\<lparr>extend_input_len := extend_input_len ?r, fill_len := length (prefix_indices ?r) + extend_input_len ?r\<rparr>" using M(1) by simp
  have add: "append_run a ad = append_run a ad\<lparr>new_chunked_req := new_chunked_req ad\<rparr>" by (simp add: append_run_def)
  note defs = add_one_req_def admit_locked_def Let_def inc ceil_one [OF D(3)] ceil_one [OF page(2)] chunk_len_one [OF page(2) cfg]
  let ?full = "case prefill_max_requests cfg of Some n \<Rightarrow> n \<le> length (can_run_list ad) | None \<Rightarrow> False"
  let ?early = "?full \<or> rem_total_tokens ad m \<le> real ?total \<or> rem_chunk_tokens ad = None \<and> can_run_list ad \<noteq> [] \<and> rem_input_tokens ad \<le> int (extend_input_len ?r)"
  let ?late = "rem_total_tokens ad ?m1 \<le> real ?total \<or> (\<exists>n\<le>0. rem_chunk_tokens ad = Some n)"
  let ?whole = "case rem_chunk_tokens ad of None \<Rightarrow> True | Some n \<Rightarrow> int (extend_input_len ?r) \<le> n"
  consider (early) ?early | (late) "\<not> ?early" ?late | (whole) "\<not> ?early" "\<not> ?late" ?whole | (cut) "\<not> ?early" "\<not> ?late" "\<not> ?whole" by argo
  moreover have nb: "\<not> adder_blocked ad m" if "\<not> ?early" "\<not> ?late"
  proof -
    have "1 \<le> real ?total" using D(3) by simp
    then show ?thesis using that by (auto simp: adder_blocked_def split: option.splits)
  qed
  ultimately show ?thesis
  proof cases
    case early
    then have "add_one_req cfg a ad m = ok (ADD_OTHER, ad, m) \<or> add_one_req cfg a ad m = ok (ADD_NO_TOKEN, ad, m)" by (auto simp: defs)
    then show ?thesis using out0 by auto
  next
    case late
    have chunk: "\<not> int (extend_input_len ?r) \<le> n" if "n \<le> 0" for n using M(2) that by simp
    have "add_one_req cfg a ad m = ok (ADD_OTHER, ad, m\<lparr>kv_cache := c0\<rparr>) \<or> add_one_req cfg a ad m = ok (ADD_NO_TOKEN, ad, m\<lparr>kv_cache := c0\<rparr>)"
      using late chunk by (auto simp: defs)
    then show ?thesis using out1 by auto
  next
    case whole
    let ?r' = "?r\<lparr>fill_len := length (full_untruncated_fill_ids ?r)\<rparr>"
    let ?m2 = "set_req a ?r' (m\<lparr>kv_cache := c2\<rparr>)" and ?k = "min (max_new_tokens ?r) (clip_max_new_tokens cfg)"
    have "\<exists>res. add_one_req cfg a ad m = ok (res, update_prefill_budget ?m2 (extend_input_len ?r) ?k (append_run a ad), set_req a ?r' (m\<lparr>kv_cache := c3\<rparr>))"
      using whole M(1) inc' by (cases "rem_chunk_tokens ad") (auto simp: defs)
    then obtain res where run: "add_one_req cfg a ad m = ok (res, update_prefill_budget ?m2 (extend_input_len ?r) ?k (append_run a ad), set_req a ?r' (m\<lparr>kv_cache := c3\<rparr>))"
      by blast
    have "page_size (kv_cache ?m2) = 1" using settings_sel(2) [OF l(12)] D(3) by (simp add: set_req_def)
    then show ?thesis unfolding run using whole(2) M(2) using nb [OF whole(1,2)] by (subst add) (intro disjI2 conjI put full; simp)
  next
    case cut
    then obtain n where n: "rem_chunk_tokens ad = Some n" "0 < n" "n < int (extend_input_len ?r)"
      by (cases "rem_chunk_tokens ad") (auto simp: not_le)
    let ?r' = "?r\<lparr>extend_input_len := nat n, fill_len := length (prefix_indices ?r) + nat n\<rparr>"
    let ?m2 = "set_req a ?r' (m\<lparr>kv_cache := c2\<rparr>)" and ?ad' = "append_run a ad\<lparr>new_chunked_req := Some a\<rparr>"
    have m2: "page_size (kv_cache ?m2) = 1" using settings_sel(2) [OF l(12)] D(3) by (simp add: set_req_def)
    have "rem_chunk_tokens (update_prefill_budget ?m2 (nat n) 0 ?ad') = Some 0"
      using n m2 by (simp add: update_prefill_budget_def append_run_def ceil_one Let_def)
    then have res: "budget_state (update_prefill_budget ?m2 (nat n) 0 ?ad') x \<noteq> ADD_CONTINUE" for x by (rule budget_blocked) simp
    have run: "add_one_req cfg a ad m = ok (budget_state (update_prefill_budget ?m2 (nat n) 0 ?ad') (set_req a ?r' (m\<lparr>kv_cache := c3\<rparr>)),
        update_prefill_budget ?m2 (nat n) 0 ?ad', set_req a ?r' (m\<lparr>kv_cache := c3\<rparr>))"
      using cut(1,2) n inc' by (simp add: defs)
    show ?thesis unfolding run using nb [OF cut(1,2)] cut(2) n m2 res by (intro disjI2 conjI put) auto
  qed
qed

section \<open>The cut request\<close>

text \<open>Changes of a request that do not concern the memory.\<close>

definition same_kv :: "radix_req \<Rightarrow> radix_req \<Rightarrow> bool" where
  "same_kv r r' \<longleftrightarrow> origin_input_ids r' = origin_input_ids r \<and> prefix (output_ids r) (output_ids r') \<and> req_extra_key r' = req_extra_key r \<and>
     req_pool_idx r' = req_pool_idx r \<and> prefix_indices r' = prefix_indices r \<and> last_node r' = last_node r \<and>
     cache_protected_len r' = cache_protected_len r \<and> kv_committed_len r' = kv_committed_len r \<and> kv_allocated_len r' = kv_allocated_len r \<and>
     kv_committed_freed r' = kv_committed_freed r \<and> kv_overallocated_freed r' = kv_overallocated_freed r \<and>
     prefix (full_untruncated_fill_ids r') (origin_input_ids r' @ output_ids r')"

lemma kv_inv_touch:
  assumes inv: "kv_inv m A X L F V" and r': "a \<in> A \<Longrightarrow> same_kv (kv_reqs m a) r'"
  shows "kv_inv (set_req a r' m) A X L F V"
proof (cases "a \<in> A")
  case False
  then show ?thesis using inv kv_inv_inactive by blast
next
  case True
  let ?r = "kv_reqs m a" and ?m = "set_req a r' m"
  note r = r' [OF True, unfolded same_kv_def]
  note R = kv_inv_req [OF inv True]
  have sel: "kv_reqs ?m b = (if b = a then r' else kv_reqs m b)" for b by (simp add: set_req_def)
  have sums: "(\<Sum>b\<in>A. g (kv_reqs ?m b)) = (\<Sum>b\<in>A. g (kv_reqs m b))" if "g r' = g ?r" for g :: "radix_req \<Rightarrow> 'm multiset"
    using that by (intro sum.cong) (simp_all add: sel)
  have node: "node_of r' = node_of ?r" and own: "own_row r' = own_row ?r" "own_slots (req_to_token m) r' = own_slots (req_to_token m) ?r"
    using r by (simp_all add: node_of_def own_row_def own_slots_def cong: option.case_cong)
  have "prefix (req_path (kv_cache m) ?r) (req_path (kv_cache m) r')"
    unfolding req_path_def using r by (auto intro: raw_key_units_prefix)
  then have "shares_prefix (kv_cache m) F V r'" using R(1) r node by (auto simp: shares_prefix_def intro: prefix_order.trans)
  moreover have "unreleased r'" using R(2) r by (auto simp: unreleased_def)
  moreover have "row_ok (max_context_len m) (kv_cache m) (req_to_token m) r'" using R(3) r by (simp add: row_ok_def cong: option.case_cong)
  ultimately have "reqs_ok ?m A F V" using kv_invD(8) [OF inv] by (auto simp: reqs_ok_def set_req_def)
  moreover have "handles ?m A = handles m A" using sums [of "\<lambda>r. {#node_of r#}"] node by (simp add: handles_def)
  moreover have "rows_ok ?m A" using kv_invD(9) [OF inv] sums [of own_row] own by (simp add: rows_ok_def set_req_def)
  moreover have "slots_ok ?m A X" using kv_invD(10) [OF inv] sums [of "own_slots (req_to_token m)"] own
    by (simp add: slots_ok_def slots_of_def set_req_def del: upt_Suc)
  ultimately show ?thesis using inv by (simp add: kv_inv_def set_req_def)
qed

definition cut :: "nat \<Rightarrow> radix_req \<Rightarrow> bool" where
  "cut ctx r \<longleftrightarrow> req_pool_idx r \<noteq> None \<and> \<not> req_finished r \<and> \<not> is_retracted r \<and> inflight_middle_chunks r = 0 \<and> fits ctx r \<and>
     kv_allocated_len r = fill_len r \<and> fill_len r \<le> length (full_untruncated_fill_ids r) \<and> 0 < rest_len r \<and> 0 < fill_len r"

lemma add_chunk_ok:
  assumes inv: "kv_inv m A {#} L F V" and a: "a \<in> A" and cut: "cut (max_context_len m) (kv_reqs m a)"
    and pre: "length (prefix_indices (kv_reqs m a)) = fill_len (kv_reqs m a)" and rest: "int (rest_len (kv_reqs m a)) \<le> room m"
    and chunk: "chunked_prefill_size cfg = Some n" "0 < n" and ad: "can_run_list ad = []" "rem_chunk_tokens ad = Some n" "0 \<le> rem_total_token_offset ad"
      "new_chunked_req ad = None"
  shows "\<exists>c ad' r. add_chunk cfg inp (Some a) ad m = ok (c, ad', set_req a r m) \<and> kv_inv (set_req a r m) A {#} L F V \<and>
    adder_ok (set_req a r m) A c ad' \<and> can_run_list ad' = [a] \<and> new_chunked_req ad' = None \<and> c \<in> {None, Some a} \<and>
    (c \<noteq> None \<longrightarrow> adder_blocked ad' (set_req a r m))"
proof -
  note D = kv_invD [OF inv] and R = kv_inv_req [OF inv a]
  let ?r = "kv_reqs m a" and ?full = "origin_input_ids (kv_reqs m a) @ output_ids (kv_reqs m a)"
  note C = cut [unfolded cut_def]
  define r1 where "r1 = ?r\<lparr>full_untruncated_fill_ids := ?full, extend_input_len := rest_len ?r\<rparr>"
  have "refresh_fill_ids ?r = ?r\<lparr>full_untruncated_fill_ids := ?full\<rparr>" using R(2) by (intro refresh_full) (simp add: unreleased_def)
  then have init: "init_next_round_input (stash_time inp) False a m = ok (set_req a r1 m)"
    using pre by (simp add: init_next_round_input_def r1_def rest_len_def Let_def)
  let ?m1 = "set_req a r1 m"
  define k where "k = min n (trunc_int (rem_total_tokens ad ?m1))"
  define rem where "rem = (if k \<le> 0 then n else k)"
  have rem: "0 < rem" using chunk(2) by (simp add: rem_def)
  define e where "e = nat (min (int (rest_len ?r)) rem)"
  have e: "0 < e" "e \<le> rest_len ?r" "rem < int (rest_len ?r) \<longleftrightarrow> e < rest_len ?r" "rem < int (rest_len ?r) \<Longrightarrow> int e = rem"
    using rem C by (auto simp: e_def)
  define r2 where "r2 = r1\<lparr>extend_input_len := e, fill_len := length (prefix_indices r1) + e\<rparr>"
  let ?m2 = "set_req a r2 m" and ?new = "if e < rest_len ?r then 0 else min (max_new_tokens r1) (clip_max_new_tokens cfg)"
  define ad' where "ad' = update_prefill_budget ?m2 e ?new (append_run a ad)"
  let ?c = "if e < rest_len ?r then Some a else None"
  have m12: "kv_reqs ?m1 a = r1" "set_req a r2 ?m1 = ?m2" by (simp_all add: set_req_def)
  have ext: "extend_input_len r1 = rest_len ?r" by (simp add: r1_def)
  have run: "add_chunk cfg inp (Some a) ad m = ok (?c, ad', ?m2)"
    using init ad(2) e(3) by (simp add: add_chunk_def add_chunked_req_def Let_def m12 ext flip: k_def rem_def e_def r2_def ad'_def)
  have page: "page_size (kv_cache ?m2) = 1" using D(3) by (simp add: set_req_def)
  have r2: "same_kv ?r r2" by (simp add: same_kv_def r2_def r1_def)
  have inv2: "kv_inv ?m2 A {#} L F V" using r2 by (intro kv_inv_touch [OF inv]) simp
  have sel: "can_run_list ad' = [a]" "new_chunked_req ad' = None" "rem_chunk_tokens ad' = Some (n - int e)"
    "rem_total_token_offset ad' = rem_total_token_offset ad + e + ?new + 1"
    using ad page by (simp_all add: ad'_def update_prefill_budget_def append_run_def ceil_one Let_def)
  have len: "length ?full = fill_len ?r + rest_len ?r" using C by (simp add: rest_len_def)
  have "launching ?m2 (?c = Some a) r2"
    using C pre len e(1,2) row_okD(4) [OF R(3)] fits_len [of "max_context_len m" ?r] R(2)
    by (auto simp: launching_def can_extend_def r2_def r1_def set_req_def short_by_def fits_def unreleased_def)
  moreover have "room ?m2 = room m" by (simp add: room_def set_req_def)
  moreover have "rest_len r2 = rest_len ?r - e" using pre len by (simp add: rest_len_def r2_def r1_def)
  ultimately have "adder_ok ?m2 A ?c ad'"
    using sel a rest e C ad(3) by (auto simp: adder_ok_def run_tokens_def set_req_def r2_def r1_def)
  moreover have "adder_blocked ad' ?m2" if "e < rest_len ?r"
  proof (cases "rem = n")
    case True
    then show ?thesis using that e(3,4) sel(3) by (simp add: adder_blocked_def)
  next
    case False
    then have k: "0 < k" "k < n" "rem = k" by (auto simp: rem_def k_def min_def split: if_splits)
    then have "k = trunc_int (rem_total_tokens ad ?m1)" by (auto simp: k_def min_def split: if_splits)
    then have "rem_total_tokens ad ?m1 < k + 1" using k(1) by (auto simp: trunc_int_def split: if_splits)
    moreover have "rem_total_tokens ad' ?m2 = rem_total_tokens ad ?m1 - e - 1"
      using that sel(4) by (simp add: rem_total_tokens_def available_and_evictable_def set_req_def)
    ultimately show ?thesis using that e(3,4) k by (simp add: adder_blocked_def)
  qed
  ultimately show ?thesis using run inv2 sel by (intro exI [of _ ?c] exI [of _ ad'] exI [of _ r2]) auto
qed

section \<open>The waiting queue\<close>

lemma adder_ok_keep:
  assumes "adder_ok m A p ad" "same_pool m m'" "free_slots m' = free_slots m" "\<And>b. b \<in> A \<Longrightarrow> kv_reqs m' b = kv_reqs m b" "room m \<le> room m'"
  shows "adder_ok m' A p ad"
proof -
  note O = assms(1) [unfolded adder_ok_def]
  have reqs: "kv_reqs m' b = kv_reqs m b" if "b \<in> set (can_run_list ad)" for b using O assms(4) that by blast
  have "filter (\<lambda>a. req_pool_idx (kv_reqs m' a) = None) (can_run_list ad) = filter (\<lambda>a. req_pool_idx (kv_reqs m a) = None) (can_run_list ad)"
    using reqs by (intro filter_cong) auto
  moreover have "run_tokens ad m' = run_tokens ad m" using reqs by (intro run_tokens_cong) simp
  ultimately show ?thesis using O assms(3,5) reqs launching_cong [OF assms(2)] unfolding adder_ok_def
    by (auto split: option.splits)
qed

lemma matched_queued:
  assumes "queued ctx (kv_reqs m a)" "matched m' L F V a"
    and "kv_reqs m' a = (kv_reqs m a)\<lparr>full_untruncated_fill_ids := f, prefix_indices := p, last_node := n, cache_protected_len := c, extend_input_len := e\<rparr>"
  shows "queued ctx (kv_reqs m' a)"
proof -
  have "waiting_req (kv_reqs m' a)" using assms(2) unfolding matched_def Let_def by blast
  then show ?thesis using assms(1) unfolding queued_def fits_def by (simp add: assms(3))
qed

text \<open>What a pass over a part of the waiting queue leaves.\<close>

definition admission :: "kv_state \<Rightarrow> nat set \<Rightarrow> nat option \<Rightarrow> prefill_adder \<Rightarrow> nat list \<Rightarrow> prefill_adder \<Rightarrow> kv_state \<Rightarrow> bool" where
  "admission m A p ad q ad' m' \<longleftrightarrow>
     (\<exists>p' L' F' V' new. kv_inv m' (A \<union> set new) {#} L' F' V' \<and> adder_ok m' (A \<union> set new) p' ad' \<and> same_pool m m' \<and> free_slots m' = free_slots m \<and>
     can_run_list ad' = can_run_list ad @ new \<and> prefix new q \<and> (\<forall>b. b \<notin> set q \<longrightarrow> kv_reqs m' b = kv_reqs m b) \<and>
     (\<forall>b\<in>set q - set new. queued (max_context_len m) (kv_reqs m' b)) \<and>
     (if p = None then p' = new_chunked_req ad' \<and> (p' \<noteq> None \<longrightarrow> rem_chunk_tokens ad \<noteq> None) else p' = p \<and> new_chunked_req ad' = None))"

lemma admit_waiting_ok:
  assumes "kv_inv m A {#} L F V" "adder_ok m A p ad" "p \<noteq> None \<Longrightarrow> adder_blocked ad m" "new_chunked_req ad = None"
    and "distinct q" "\<And>b. b \<in> set q \<Longrightarrow> b \<notin> A \<and> queued (max_context_len m) (kv_reqs m b)" and cfg: "truncation_align_size cfg = None"
  shows "\<exists>ad' m' full'. admit_waiting cfg inp n q (ad, m, full) = ok (ad', m', full') \<and> admission m A p ad q ad' m'"
  using assms(1-6)
proof (induction q arbitrary: m A L F V ad p full)
  case Nil
  have "admission m A p ad [] ad m"
    unfolding admission_def using Nil by (intro exI [of _ p] exI [of _ L] exI [of _ F] exI [of _ V] exI [of _ "[]"]) auto
  then show ?case by simp
next
  case (Cons a q)
  let ?stop = "full \<or> get_num_allocatable_reqs cfg m n \<le> int (length (can_run_list ad))"
  have stay: "admission m A p ad (a # q) ad m'"
    if "kv_inv m' A {#} L' F' V'" "same_pool m m'" "free_slots m' = free_slots m" "room m \<le> room m'" "\<And>b. b \<noteq> a \<Longrightarrow> kv_reqs m' b = kv_reqs m b"
      "queued (max_context_len m) (kv_reqs m' a)" for m' L' F' V'
  proof -
    have q: "queued (max_context_len m) (kv_reqs m' b)" if "b \<in> set (a # q)" for b
      using Cons.prems(6) [OF that] \<open>queued (max_context_len m) (kv_reqs m' a)\<close> \<open>b \<noteq> a \<Longrightarrow> kv_reqs m' b = kv_reqs m b\<close> by (cases "b = a") auto
    have "kv_reqs m' b = kv_reqs m b" if "b \<in> A" for b using that Cons.prems(6) [of a] \<open>b \<noteq> a \<Longrightarrow> kv_reqs m' b = kv_reqs m b\<close> by auto
    then have "adder_ok m' A p ad" using that(4) by (intro adder_ok_keep [OF Cons.prems(2) that(2,3)])
    then show ?thesis unfolding admission_def using that(1-3,5) q Cons.prems(4)
      by (intro exI [of _ p] exI [of _ L'] exI [of _ F'] exI [of _ V'] exI [of _ "[]"]) auto
  qed
  show ?case
  proof (cases ?stop)
    case True
    then have "admit_waiting cfg inp n (a # q) (ad, m, full) = ok (ad, m, True)" by auto
    moreover have "admission m A p ad (a # q) ad m" using Cons.prems(6) [of a] by (intro stay [OF Cons.prems(1)]) auto
    ultimately show ?thesis by blast
  next
    case False
    then have len: "length (can_run_list ad) < length (free_slots m)" by (auto simp: get_num_allocatable_reqs_def)
    have a: "a \<notin> A" "queued (max_context_len m) (kv_reqs m a)" using Cons.prems(6) by auto
    obtain r c L1 F1 V1 where i: "init_next_round_input (match_time inp a) True a m = ok (set_req a r (m\<lparr>kv_cache := c\<rparr>))"
      "kv_inv (set_req a r (m\<lparr>kv_cache := c\<rparr>)) A {#} L1 F1 V1" "matched (set_req a r (m\<lparr>kv_cache := c\<rparr>)) L1 F1 V1 a"
      "settings c = settings (kv_cache m)" "evictable_size c = evictable_size (kv_cache m)"
      "r = (kv_reqs m a)\<lparr>full_untruncated_fill_ids := full_untruncated_fill_ids r, prefix_indices := prefix_indices r, last_node := last_node r,
        cache_protected_len := cache_protected_len r, extend_input_len := extend_input_len r\<rparr>"
      using init_next_ok [OF Cons.prems(1) a(1), of "match_time inp a"] a(2) unfolding queued_def by blast
    let ?m1 = "set_req a r (m\<lparr>kv_cache := c\<rparr>)"
    have m1: "same_pool m ?m1" "free_slots ?m1 = free_slots m" "room ?m1 = room m" "\<And>b. b \<noteq> a \<Longrightarrow> kv_reqs ?m1 b = kv_reqs m b"
      using i(4,5) by (simp_all add: same_pool_def set_req_def room_def)
    have "kv_reqs ?m1 a = (kv_reqs m a)\<lparr>full_untruncated_fill_ids := full_untruncated_fill_ids r, prefix_indices := prefix_indices r, last_node := last_node r,
        cache_protected_len := cache_protected_len r, extend_input_len := extend_input_len r\<rparr>" using i(6) by (simp add: set_req_def)
    then have q1: "queued (max_context_len m) (kv_reqs ?m1 a)" by (rule matched_queued [OF a(2) i(3)])
    have ok1: "adder_ok ?m1 A p ad" 
    proof (rule adder_ok_keep [OF Cons.prems(2) m1(1,2)])
      show "kv_reqs ?m1 b = kv_reqs m b" if "b \<in> A" for b using m1(4) [of b] that a(1) by auto
    qed (simp add: m1(3))
    have ctx: "max_context_len ?m1 = max_context_len m" using m1(1) by (simp add: same_pool_def)
    have blocked: "adder_blocked ad ?m1 = adder_blocked ad m" using m1(3) by (simp add: adder_blocked_def rem_total_tokens_def room_available)
    have "kept_out ?m1 L1 F1 V1 A ad (add_one_req cfg a ad ?m1) \<or> \<not> adder_blocked ad ?m1 \<and> put_in ?m1 L1 F1 V1 A a ad (add_one_req cfg a ad ?m1)"
    proof (rule add_one_ok [OF i(2) a(1) i(3) _ _ _ cfg])
      show "adder_ok ?m1 A None ad" if "\<not> adder_blocked ad ?m1" using ok1 Cons.prems(3) that blocked by (cases p) auto
    qed (use len m1(2) q1 ctx in auto)
    then show ?thesis
    proof
      assume "kept_out ?m1 L1 F1 V1 A ad (add_one_req cfg a ad ?m1)"
      then obtain res c' where k: "add_one_req cfg a ad ?m1 = ok (res, ad, ?m1\<lparr>kv_cache := c'\<rparr>)" "res \<noteq> ADD_CONTINUE"
        "kv_inv (?m1\<lparr>kv_cache := c'\<rparr>) A {#} L1 F1 V1" "same_pool ?m1 (?m1\<lparr>kv_cache := c'\<rparr>)" "room (?m1\<lparr>kv_cache := c'\<rparr>) = room ?m1"
        unfolding kept_out_def by blast
      obtain full' where run: "admit_waiting cfg inp n (a # q) (ad, m, full) = ok (ad, ?m1\<lparr>kv_cache := c'\<rparr>, full')"
        using False i(1) k(1,2) by (cases res) auto
      have "admission m A p ad (a # q) ad (?m1\<lparr>kv_cache := c'\<rparr>)"
        using m1 k(5) q1 by (intro stay [OF k(3) same_pool_trans [OF m1(1) k(4)]]) auto
      then show ?thesis using run by blast
    next
      assume "\<not> adder_blocked ad ?m1 \<and> put_in ?m1 L1 F1 V1 A a ad (add_one_req cfg a ad ?m1)"
      then have nb: "\<not> adder_blocked ad ?m1" and put: "put_in ?m1 L1 F1 V1 A a ad (add_one_req cfg a ad ?m1)" by blast+
      obtain res ad' r' c' p' where k: "add_one_req cfg a ad ?m1 = ok (res, ad', set_req a r' (?m1\<lparr>kv_cache := c'\<rparr>))"
        "kv_inv (set_req a r' (?m1\<lparr>kv_cache := c'\<rparr>)) (insert a A) {#} L1 F1 V1" "same_pool ?m1 (set_req a r' (?m1\<lparr>kv_cache := c'\<rparr>))"
        "adder_ok (set_req a r' (?m1\<lparr>kv_cache := c'\<rparr>)) (insert a A) p' ad'" "can_run_list ad' = can_run_list ad @ [a]"
        "p' \<in> {None, Some a}" "new_chunked_req ad' = (if p' = None then new_chunked_req ad else p')" "p' \<noteq> None \<longrightarrow> res \<noteq> ADD_CONTINUE"
        "p' \<noteq> None \<longrightarrow> rem_chunk_tokens ad \<noteq> None" "rem_chunk_tokens ad' = None \<longleftrightarrow> rem_chunk_tokens ad = None"
        using put unfolding put_in_def by (elim exE conjE) (rule that; assumption)
      let ?m2 = "set_req a r' (?m1\<lparr>kv_cache := c'\<rparr>)"
      have p: "p = None" using nb blocked Cons.prems(3) by (cases p) auto
      have m2: "same_pool m ?m2" "free_slots ?m2 = free_slots m" "\<And>b. b \<noteq> a \<Longrightarrow> kv_reqs ?m2 b = kv_reqs m b"
        using same_pool_trans [OF m1(1) k(3)] by (simp_all add: set_req_def)
      have ctx2: "max_context_len ?m2 = max_context_len m" using m2(1) by (simp add: same_pool_def)
      have q2: "b \<notin> insert a A \<and> queued (max_context_len ?m2) (kv_reqs ?m2 b)" if "b \<in> set q" for b
      proof -
        have "b \<noteq> a" using Cons.prems(5) that by auto
        then show ?thesis using Cons.prems(6) [of b] that m2(3) [of b] ctx2 by simp
      qed
      have out: "\<forall>b. b \<notin> set (a # q) \<longrightarrow> kv_reqs ?m2 b = kv_reqs m b" using m2(3) by simp
      have rest: "\<forall>b\<in>set q. queued (max_context_len m) (kv_reqs ?m2 b)" using q2 ctx2 by simp
      show ?thesis
      proof (cases "res = ADD_CONTINUE")
        case True
        then have p': "p' = None" "new_chunked_req ad' = None" using k(7,8) Cons.prems(4) by auto
        have chunks: "rem_chunk_tokens ad' \<noteq> None \<longleftrightarrow> rem_chunk_tokens ad \<noteq> None" using k(10) by simp
        have "distinct q" using Cons.prems(5) by simp
        from Cons.IH [OF k(2) k(4) _ p'(2) this q2, of full] p'
        obtain ad3 m3 full3 where IH: "admit_waiting cfg inp n q (ad', ?m2, full) = ok (ad3, m3, full3)" "admission ?m2 (insert a A) None ad' q ad3 m3"
          by blast
        obtain p3 L3 F3 V3 new where I: "kv_inv m3 (insert a A \<union> set new) {#} L3 F3 V3" "adder_ok m3 (insert a A \<union> set new) p3 ad3" "same_pool ?m2 m3"
          "free_slots m3 = free_slots ?m2" "can_run_list ad3 = can_run_list ad' @ new" "prefix new q" "\<forall>b. b \<notin> set q \<longrightarrow> kv_reqs m3 b = kv_reqs ?m2 b"
          "\<forall>b\<in>set q - set new. queued (max_context_len ?m2) (kv_reqs m3 b)" "p3 = new_chunked_req ad3" "p3 \<noteq> None \<longrightarrow> rem_chunk_tokens ad' \<noteq> None"
          using IH(2) unfolding admission_def by auto
        have run: "admit_waiting cfg inp n (a # q) (ad, m, full) = ok (ad3, m3, full3)" using False i(1) k(1) True IH(1) by simp
        have un: "A \<union> set (a # new) = insert a A \<union> set new" by auto
        have "admission m A p ad (a # q) ad3 m3"
          unfolding admission_def using I k(5) m2(1,2) out same_pool_trans [OF m2(1) I(3)] p chunks ctx2
          by (intro exI [of _ p3] exI [of _ L3] exI [of _ F3] exI [of _ V3] exI [of _ "a # new"], unfold un) auto
        then show ?thesis using run by blast
      next
        case False': False
        obtain full' where run: "admit_waiting cfg inp n (a # q) (ad, m, full) = ok (ad', ?m2, full')"
          using False i(1) k(1) False' by (cases res) auto
        have un: "A \<union> set [a] = insert a A" by auto
        have "admission m A p ad (a # q) ad' ?m2"
          unfolding admission_def using k m2(1,2) out p rest Cons.prems(4)
          by (intro exI [of _ p'] exI [of _ L1] exI [of _ F1] exI [of _ V1] exI [of _ "[a]"], unfold un) auto
        then show ?thesis using run by blast
      qed
    qed
  qed
qed

end
