(* ===== verification/SglResults.thy ===== *)
theory SglResults
  imports SglFit
begin

text \<open>
  The states a request goes through between its batches, and what happens to the requests of a batch when its result is there: each
  is kept for decoding, released, or waits for the next chunk of its prompt.
\<close>

declare map_of_eq_Some_iff [simp del]

section \<open>States of a request\<close>

definition decoding :: "nat \<Rightarrow> radix_req \<Rightarrow> bool" where
  "decoding ctx r \<longleftrightarrow> req_pool_idx r \<noteq> None \<and> \<not> req_finished r \<and> \<not> is_retracted r \<and> inflight_middle_chunks r = 0 \<and> fits ctx r \<and>
     output_ids r \<noteq> [] \<and> kv_allocated_len r + 1 = length (origin_input_ids r @ output_ids r)"

text \<open>A request of a decode batch that runs, and one of a prefill batch; \<open>part\<close> says that its prompt is cut.\<close>

definition stepped :: "nat \<Rightarrow> radix_req \<Rightarrow> bool" where
  "stepped ctx r \<longleftrightarrow> req_pool_idx r \<noteq> None \<and> \<not> req_finished r \<and> \<not> is_retracted r \<and> inflight_middle_chunks r = 0 \<and> fits ctx r \<and>
     output_ids r \<noteq> [] \<and> kv_allocated_len r = length (origin_input_ids r @ output_ids r)"

definition launched :: "nat \<Rightarrow> bool \<Rightarrow> radix_req \<Rightarrow> bool" where
  "launched ctx part r \<longleftrightarrow> req_pool_idx r \<noteq> None \<and> \<not> req_finished r \<and> \<not> is_retracted r \<and> fits ctx r \<and> kv_allocated_len r = fill_len r \<and>
     full_untruncated_fill_ids r = origin_input_ids r @ output_ids r \<and> 0 < fill_len r \<and>
     (if part then inflight_middle_chunks r = 1 \<and> 0 < rest_len r else inflight_middle_chunks r = 0 \<and> fill_len r = length (origin_input_ids r @ output_ids r))"

definition gone :: "radix_req \<Rightarrow> bool" where
  "gone r \<longleftrightarrow> req_finished r \<and> kv_committed_freed r \<and> kv_overallocated_freed r"

lemma update_finish_state_sel:
  "update_finish_state cfg r = r\<lparr>req_finished := req_finished (update_finish_state cfg r), to_finish := to_finish (update_finish_state cfg r),
     output_ids := output_ids (update_finish_state cfg r)\<rparr>"
  "\<exists>x. output_ids (update_finish_state cfg r) = output_ids r \<or> output_ids (update_finish_state cfg r) = butlast (output_ids r) @ [x]"
  by (auto simp: update_finish_state_def)

text \<open>One more token: the memory does not change, and a request that goes on has not used up its tokens.\<close>

lemma append_output_ok:
  assumes r'_def: "r' = append_output cfg t r" and "\<not> req_finished r" "prefix (full_untruncated_fill_ids r) (origin_input_ids r @ output_ids r)"
  shows "same_kv r r'" "length (output_ids r') = length (output_ids r) + 1" "\<not> req_finished r' \<Longrightarrow> length (output_ids r') < max_new_tokens r'"
    "max_new_tokens r' = max_new_tokens r" "inflight_middle_chunks r' = inflight_middle_chunks r" "is_retracted r' = is_retracted r"
    "fill_len r' = fill_len r" "full_untruncated_fill_ids r' = full_untruncated_fill_ids r"
proof -
  let ?r = "r\<lparr>output_ids := output_ids r @ [t]\<rparr>"
  let ?out = "output_ids r'"
  have u: "r' = ?r\<lparr>req_finished := req_finished r', to_finish := to_finish r', output_ids := ?out\<rparr>"
    unfolding r'_def append_output_def by (rule update_finish_state_sel(1))
  obtain x where "?out = output_ids r @ [t] \<or> ?out = output_ids r @ [x]"
    using update_finish_state_sel(2) [of cfg ?r] unfolding r'_def append_output_def by auto
  then have out: "prefix (output_ids r) ?out" "length ?out = length (output_ids r) + 1" by (elim disjE; simp)+
  have sel: "origin_input_ids r' = origin_input_ids r" "full_untruncated_fill_ids r' = full_untruncated_fill_ids r"
    "req_extra_key r' = req_extra_key r" "req_pool_idx r' = req_pool_idx r" "prefix_indices r' = prefix_indices r" "last_node r' = last_node r"
    "cache_protected_len r' = cache_protected_len r" "kv_committed_len r' = kv_committed_len r" "kv_allocated_len r' = kv_allocated_len r"
    "kv_committed_freed r' = kv_committed_freed r" "kv_overallocated_freed r' = kv_overallocated_freed r"
    by (subst u, simp)+
  have "prefix (full_untruncated_fill_ids r) (origin_input_ids r @ ?out)"
    using assms(3) out(1) by (auto intro: prefix_order.trans)
  then show "same_kv r r'" using out(1) sel by (simp add: same_kv_def)
  show "length (output_ids r') = length (output_ids r) + 1" by (rule out(2))
  show "max_new_tokens r' = max_new_tokens r" "inflight_middle_chunks r' = inflight_middle_chunks r" "is_retracted r' = is_retracted r"
    "fill_len r' = fill_len r" "full_untruncated_fill_ids r' = full_untruncated_fill_ids r" by (subst u, simp)+
  show "length (output_ids r') < max_new_tokens r'" if "\<not> req_finished r'"
    using that assms(2) unfolding r'_def append_output_def update_finish_state_def by (auto split: if_splits)
qed

section \<open>One request of a batch\<close>

definition same_len :: "radix_req \<Rightarrow> radix_req \<Rightarrow> bool" where
  "same_len r r' \<longleftrightarrow> kv_allocated_len r' = kv_allocated_len r \<and> max_new_tokens r' = max_new_tokens r"

lemma released_finished:
  assumes inv: "kv_inv m A {#} L F V" and a: "a \<in> A" and r: "same_kv (kv_reqs m a) r" "req_finished r" "req_pool_idx r \<noteq> None"
      "kv_allocated_len r \<le> length (origin_input_ids r @ output_ids r)"
  shows "\<exists>m' L' F' V'. release_kv_cache now False ins a (set_req a r m) = ok m' \<and> kv_inv m' (A - {a}) {#} L' F' V' \<and> same_pool m m' \<and>
    kv_reqs m' = (kv_reqs m)(a := released r) \<and> gone (released r) \<and> same_len r (released r) \<and>
    (is_not_in_free_group (kv_allocator m) \<longrightarrow> room m \<le> room m')"
proof -
  let ?m = "set_req a r m"
  have inv': "kv_inv ?m A {#} L F V" using kv_inv_touch [OF inv] r(1) by blast
  have ra: "kv_reqs ?m a = r" by (simp add: set_req_def)
  obtain i where i: "req_pool_idx r = Some i" using r(3) by blast
  have row: "row_ok (max_context_len ?m) (kv_cache ?m) (req_to_token ?m) r" "unreleased r" using kv_inv_req(2,3) [OF inv' a] ra by simp_all
  have "can_release False (kv_cache ?m) (kv_reqs ?m a)"
    using r(4) row_okD(4) [OF row(1) i] row(2) ra by (simp add: can_release_def cache_commit_len_def unreleased_def)
  then obtain m' L' F' V' where m': "release_kv_cache now False ins a ?m = ok m'" "kv_inv m' (A - {a}) {#} L' F' V'"
    "kv_reqs m' = (kv_reqs ?m)(a := released (kv_reqs ?m a))" "kept L F V F' V'" "settings (kv_cache m') = settings (kv_cache ?m)"
    "max_context_len m' = max_context_len ?m" "pool_size m' = pool_size ?m"
    "is_not_in_free_group (kv_allocator m') = is_not_in_free_group (kv_allocator ?m)" "alloc_size (kv_allocator m') = alloc_size (kv_allocator ?m)"
    using kv_release_ok [OF inv' a _, of i False now ins] i ra by auto
  have "same_pool m m'" using m'(5-9) by (simp add: same_pool_def set_req_def)
  moreover have "kv_reqs m' = (kv_reqs m)(a := released r)" using m'(3) by (simp add: set_req_def fun_eq_iff)
  moreover have "room m \<le> room m'" if "is_not_in_free_group (kv_allocator m)"
  proof -
    have "room ?m \<le> room m'" using that m'(8) by (intro released_room [OF inv' a _ m'(2,4,3) _ m'(9)]) (simp_all add: set_req_def)
    then show ?thesis by (simp add: room_def set_req_def)
  qed
  ultimately show ?thesis using m'(1,2) r(2) by (auto simp: gone_def released_def same_len_def)
qed

lemma change_req_set: "change_req a f m = set_req a (f (kv_reqs m a)) m"
  by (simp add: change_req_def)

lemma cached_unfinished:
  assumes inv: "kv_inv m A {#} L F V" and a: "a \<in> A" and ready: "is_not_in_free_group (kv_allocator m)"
    and r: "req_pool_idx (kv_reqs m a) \<noteq> None" "kv_allocated_len (kv_reqs m a) = fill_len (kv_reqs m a)"
      "fill_len (kv_reqs m a) \<le> length (full_untruncated_fill_ids (kv_reqs m a))"
  shows "\<exists>m' L' F' V' p pre n. kv_cache_unfinished now chunked a m = ok m' \<and> kv_inv m' A {#} L' F' V' \<and> same_pool m m' \<and> room m \<le> room m' \<and>
    kv_reqs m' = (kv_reqs m)(a := (kv_reqs m a)\<lparr>cache_protected_len := p, prefix_indices := pre, last_node := Some n\<rparr>) \<and>
    length pre = fill_len (kv_reqs m a) \<and> free_slots m' = free_slots m"
proof -
  obtain i where i: "req_pool_idx (kv_reqs m a) = Some i" using r(1) by blast
  obtain m' L' F' V' pre n where u: "kv_cache_unfinished now chunked a m = ok m'" "kv_inv m' A {#} L' F' V'"
    "kv_reqs m' = (kv_reqs m)(a := (kv_reqs m a)\<lparr>cache_protected_len := fill_len (kv_reqs m a) - short_by (kv_cache m), prefix_indices := pre, last_node := Some n\<rparr>)"
    "length pre = fill_len (kv_reqs m a)" "kept L F V F' V'" "settings (kv_cache m') = settings (kv_cache m)" "max_context_len m' = max_context_len m"
    "pool_size m' = pool_size m" "free_slots m' = free_slots m" "is_not_in_free_group (kv_allocator m') = is_not_in_free_group (kv_allocator m)"
    "alloc_size (kv_allocator m') = alloc_size (kv_allocator m)"
    using unfinished_ok [OF inv a i r(2,3), of now chunked] by blast
  have "room m \<le> room m'" using unfinished_room [OF inv a i r(2) ready u(2,5,3,6)] u(10,11) ready by simp
  moreover have "same_pool m m'" using u by (simp add: same_pool_def)
  ultimately show ?thesis using u(1-4,9) by blast
qed

section \<open>The result of a prefill batch\<close>

definition after_prefill :: "nat \<Rightarrow> bool \<Rightarrow> radix_req \<Rightarrow> bool" where
  "after_prefill ctx part r \<longleftrightarrow> (if part then cut ctx r else decoding ctx r \<or> gone r)"

lemma prefill_one_ok:
  assumes inv: "kv_inv m A {#} L F V" and a: "a \<in> A" and ready: "is_not_in_free_group (kv_allocator m)"
    and l: "launched (max_context_len m) part (kv_reqs m a)"
  shows "\<exists>m' L' F' V' r. prefill_result cfg inp (a, t) m = ok m' \<and> kv_inv m' (if req_finished r then A - {a} else A) {#} L' F' V' \<and> same_pool m m' \<and>
    room m \<le> room m' \<and> kv_reqs m' = (kv_reqs m)(a := r) \<and> same_len (kv_reqs m a) r \<and> (part \<longrightarrow> rest_len r = rest_len (kv_reqs m a)) \<and> after_prefill (max_context_len m) part r"
proof -
  let ?r = "kv_reqs m a"
  note LL = l [unfolded launched_def]
  have R: "prefix (full_untruncated_fill_ids ?r) (origin_input_ids ?r @ output_ids ?r)" using kv_inv_req(2) [OF inv a] by (simp add: unreleased_def)
  show ?thesis
  proof (cases part)
    case True
    let ?r' = "?r\<lparr>inflight_middle_chunks := inflight_middle_chunks ?r - 1\<rparr>"
    have "prefill_result cfg inp (a, t) m = ok (set_req a ?r' m)" using LL True by (simp add: prefill_result_def change_req_set)
    moreover have "kv_inv (set_req a ?r' m) A {#} L F V" using R by (intro kv_inv_touch [OF inv]) (simp add: same_kv_def)
    moreover have "cut (max_context_len m) ?r'" using LL True R by (auto simp: cut_def fits_def rest_len_def dest: prefix_length_le)
    ultimately show ?thesis using LL True
      by (intro exI [of _ "set_req a ?r' m"] exI [of _ L] exI [of _ F] exI [of _ V] exI [of _ ?r'])
        (simp add: same_pool_def set_req_def room_def same_len_def rest_len_def after_prefill_def)
  next
    case False
    let ?r' = "append_output cfg t ?r"
    have nf: "\<not> req_finished ?r" using LL by simp
    note O = append_output_ok [OF refl nf R, of cfg t]
    let ?m = "set_req a ?r' m"
    have sk: "kv_allocated_len ?r' = kv_allocated_len ?r" "origin_input_ids ?r' = origin_input_ids ?r" "req_pool_idx ?r' = req_pool_idx ?r"
      using O(1) by (simp_all add: same_kv_def)
    have fl: "fill_len ?r = length (origin_input_ids ?r @ output_ids ?r)" using LL False by (auto simp: rest_len_def)
    have len: "kv_allocated_len ?r' + 1 = length (origin_input_ids ?r' @ output_ids ?r')" using sk O(2) fl LL by simp
    have inv': "kv_inv ?m A {#} L F V" using O(1) by (intro kv_inv_touch [OF inv])
    have ra: "kv_reqs ?m a = ?r'" by (simp add: set_req_def)
    have run: "prefill_result cfg inp (a, t) m =
        (if req_finished ?r' then release_kv_cache (result_time inp a) False True a ?m else kv_cache_unfinished (result_time inp a) False a ?m)"
      using LL False ra by (simp add: prefill_result_def change_req_set Let_def)
    have sl: "same_len ?r ?r'" using sk O(4) by (simp add: same_len_def)
    show ?thesis
    proof (cases "req_finished ?r'")
      case True
      then obtain m' L' F' V' where "release_kv_cache (result_time inp a) False True a ?m = ok m'" "kv_inv m' (A - {a}) {#} L' F' V'" "same_pool m m'"
        "kv_reqs m' = (kv_reqs m)(a := released ?r')" "gone (released ?r')" "same_len ?r' (released ?r')" "room m \<le> room m'"
        using released_finished [OF inv a O(1) True, of "result_time inp a" True] LL sk len ready by auto
      then show ?thesis using run True sl False
        by (intro exI [of _ m'] exI [of _ L'] exI [of _ F'] exI [of _ V'] exI [of _ "released ?r'"]) (auto simp: after_prefill_def same_len_def released_def)
    next
      case False': False
      have "req_pool_idx (kv_reqs ?m a) \<noteq> None" "kv_allocated_len (kv_reqs ?m a) = fill_len (kv_reqs ?m a)"
        "fill_len (kv_reqs ?m a) \<le> length (full_untruncated_fill_ids (kv_reqs ?m a))"
        using LL sk O(7,8) ra False by auto
      then obtain m' L' F' V' p pre n where u: "kv_cache_unfinished (result_time inp a) False a ?m = ok m'" "kv_inv m' A {#} L' F' V'" "same_pool ?m m'" "room ?m \<le> room m'"
        "kv_reqs m' = (kv_reqs ?m)(a := (kv_reqs ?m a)\<lparr>cache_protected_len := p, prefix_indices := pre, last_node := Some n\<rparr>)"
        using cached_unfinished [OF inv' a, of "result_time inp a" False] ready by (auto simp: set_req_def)
      let ?r2 = "?r'\<lparr>cache_protected_len := p, prefix_indices := pre, last_node := Some n\<rparr>"
      have reqs: "kv_reqs m' = (kv_reqs m)(a := ?r2)" using u(5) by (simp add: set_req_def fun_eq_iff)
      have "decoding (max_context_len m) ?r2"
        using LL False O(2-6) sk len False' by (auto simp: decoding_def fits_def)
      then show ?thesis using run u(1,2,3,4) False' reqs sl False
        by (intro exI [of _ m'] exI [of _ L'] exI [of _ F'] exI [of _ V'] exI [of _ ?r2]) (auto simp: after_prefill_def same_len_def same_pool_def room_def set_req_def)
    qed
  qed
qed

text \<open>The batch, one request after the other; \<open>c\<close> is the cut request.\<close>

lemma same_len_refl [simp]: "same_len r r"
  by (simp add: same_len_def)

lemma prefill_fold_ok:
  assumes "kv_inv m A {#} L F V" "set as \<subseteq> A" "distinct as" "is_not_in_free_group (kv_allocator m)" "length ts = length as"
    and "\<And>a. a \<in> set as \<Longrightarrow> launched (max_context_len m) (c = Some a) (kv_reqs m a)"
  shows "\<exists>m' L' F' V'. res_fold (prefill_result cfg inp) (zip as ts) m = ok m' \<and> kv_inv m' (A - {a \<in> set as. req_finished (kv_reqs m' a)}) {#} L' F' V' \<and>
    same_pool m m' \<and> room m \<le> room m' \<and> (\<forall>b. b \<notin> set as \<longrightarrow> kv_reqs m' b = kv_reqs m b) \<and>
    (\<forall>a\<in>set as. same_len (kv_reqs m a) (kv_reqs m' a) \<and> after_prefill (max_context_len m) (c = Some a) (kv_reqs m' a) \<and>
      (c = Some a \<longrightarrow> rest_len (kv_reqs m' a) = rest_len (kv_reqs m a)))"
  using assms
proof (induction as arbitrary: m A L F V ts)
  case Nil
  then show ?case by auto
next
  case (Cons a as)
  obtain t ts' where ts: "ts = t # ts'" "length ts' = length as" using Cons.prems(5) by (cases ts) auto
  have a: "a \<in> A" "a \<notin> set as" "distinct as" "set as \<subseteq> A" using Cons.prems(2,3) by auto
  obtain m1 L1 F1 V1 r where p: "prefill_result cfg inp (a, t) m = ok m1" "kv_inv m1 (if req_finished r then A - {a} else A) {#} L1 F1 V1" "same_pool m m1"
    "room m \<le> room m1" "kv_reqs m1 = (kv_reqs m)(a := r)" "same_len (kv_reqs m a) r" "c = Some a \<longrightarrow> rest_len r = rest_len (kv_reqs m a)"
    "after_prefill (max_context_len m) (c = Some a) r"
    using prefill_one_ok [OF Cons.prems(1) a(1) Cons.prems(4) Cons.prems(6) [of a], of cfg inp t] by auto
  let ?A = "if req_finished r then A - {a} else A"
  have ctx: "max_context_len m1 = max_context_len m" "is_not_in_free_group (kv_allocator m1)" using p(3) Cons.prems(4) by (simp_all add: same_pool_def)
  have same: "kv_reqs m1 b = kv_reqs m b" if "b \<in> set as" for b using that a(2) p(5) by auto
  have sub: "set as \<subseteq> ?A" using a by auto
  have rest: "launched (max_context_len m1) (c = Some b) (kv_reqs m1 b)" if "b \<in> set as" for b using Cons.prems(6) [of b] that same ctx(1) by simp
  obtain m' L' F' V' where IH: "res_fold (prefill_result cfg inp) (zip as ts') m1 = ok m'"
    "kv_inv m' (?A - {b \<in> set as. req_finished (kv_reqs m' b)}) {#} L' F' V'" "same_pool m1 m'" "room m1 \<le> room m'" "\<forall>b. b \<notin> set as \<longrightarrow> kv_reqs m' b = kv_reqs m1 b"
    "\<forall>b\<in>set as. same_len (kv_reqs m1 b) (kv_reqs m' b) \<and> after_prefill (max_context_len m1) (c = Some b) (kv_reqs m' b) \<and>
      (c = Some b \<longrightarrow> rest_len (kv_reqs m' b) = rest_len (kv_reqs m1 b))"
    using Cons.IH [OF p(2) sub a(3) ctx(2) ts(2) rest] by blast
  have ma: "kv_reqs m' a = r" using IH(5) a(2) p(5) by simp
  have "?A - {b \<in> set as. req_finished (kv_reqs m' b)} = A - {b \<in> set (a # as). req_finished (kv_reqs m' b)}" using ma a(2) by auto
  then have "kv_inv m' (A - {b \<in> set (a # as). req_finished (kv_reqs m' b)}) {#} L' F' V'" using IH(2) by simp
  moreover have "res_fold (prefill_result cfg inp) (zip (a # as) ts) m = ok m'" using p(1) IH(1) ts(1) by simp
  moreover have "\<forall>b. b \<notin> set (a # as) \<longrightarrow> kv_reqs m' b = kv_reqs m b" using IH(5) p(5) by auto
  moreover have "\<forall>b\<in>set (a # as). same_len (kv_reqs m b) (kv_reqs m' b) \<and> after_prefill (max_context_len m) (c = Some b) (kv_reqs m' b) \<and>
      (c = Some b \<longrightarrow> rest_len (kv_reqs m' b) = rest_len (kv_reqs m b))"
    using IH(6) ma p(6-8) same ctx(1) by auto
  ultimately show ?case using same_pool_trans [OF p(3) IH(3)] p(4) IH(4) by (meson order_trans)
qed

section \<open>The result of a decode batch\<close>

definition after_decode :: "nat \<Rightarrow> radix_req \<Rightarrow> bool" where
  "after_decode ctx r \<longleftrightarrow> (decoding ctx r \<or> gone r) \<and> length (output_ids r) \<le> max_new_tokens r"

lemma decode_one_ok:
  fixes cfg inp t
  assumes inv: "kv_inv m A {#} L F V" and a: "a \<in> A" and st: "stepped (max_context_len m) (kv_reqs m a)"
  defines "m1 \<equiv> change_req a (append_output cfg t) m"
  shows "\<exists>m' L' F' V' r. (if req_finished (kv_reqs m1 a) then release_kv_cache (result_time inp a) False True a m1 else ok m1) = ok m' \<and>
    kv_inv m' (if req_finished r then A - {a} else A) {#} L' F' V' \<and> same_pool m m' \<and> kv_reqs m' = (kv_reqs m)(a := r) \<and>
    same_len (kv_reqs m a) r \<and> after_decode (max_context_len m) r"
proof -
  let ?r = "kv_reqs m a" and ?r' = "append_output cfg t (kv_reqs m a)"
  note S = st [unfolded stepped_def]
  have R: "prefix (full_untruncated_fill_ids ?r) (origin_input_ids ?r @ output_ids ?r)" using kv_inv_req(2) [OF inv a] by (simp add: unreleased_def)
  have nf: "\<not> req_finished ?r" using S by simp
  note O = append_output_ok [OF refl nf R, of cfg t]
  have sk: "kv_allocated_len ?r' = kv_allocated_len ?r" "origin_input_ids ?r' = origin_input_ids ?r" "req_pool_idx ?r' = req_pool_idx ?r"
    using O(1) by (simp_all add: same_kv_def)
  have m1: "m1 = set_req a ?r' m" "kv_reqs m1 a = ?r'" by (simp_all add: m1_def change_req_set set_req_def)
  have len: "kv_allocated_len ?r' + 1 = length (origin_input_ids ?r' @ output_ids ?r')" using S O(2) sk by simp
  have le: "length (output_ids ?r') \<le> max_new_tokens ?r'" using S O(2,4) by (auto simp: fits_def)
  have sl: "same_len ?r ?r'" using sk O(4) by (simp add: same_len_def)
  show ?thesis
  proof (cases "req_finished ?r'")
    case True
    then obtain m' L' F' V' where "release_kv_cache (result_time inp a) False True a m1 = ok m'" "kv_inv m' (A - {a}) {#} L' F' V'" "same_pool m m'"
      "kv_reqs m' = (kv_reqs m)(a := released ?r')" "gone (released ?r')" "same_len ?r' (released ?r')"
      using released_finished [OF inv a O(1) True, of "result_time inp a" True] S sk len unfolding m1(1) by auto
    then show ?thesis using m1(2) True sl le
      by (intro exI [of _ m'] exI [of _ L'] exI [of _ F'] exI [of _ V'] exI [of _ "released ?r'"]) (auto simp: after_decode_def same_len_def released_def)
  next
    case False
    have "kv_inv m1 A {#} L F V" unfolding m1(1) using O(1) by (intro kv_inv_touch [OF inv])
    moreover have "decoding (max_context_len m) ?r'" using S O(2-6) sk len False by (auto simp: decoding_def fits_def)
    ultimately show ?thesis using m1 False sl le
      by (intro exI [of _ m1] exI [of _ L] exI [of _ F] exI [of _ V] exI [of _ ?r']) (auto simp: after_decode_def same_pool_def set_req_def)
  qed
qed

lemma decode_fold_ok:
  assumes "kv_inv m A {#} L F V" "set as \<subseteq> A" "distinct as" "length ts = length as" "\<And>a. a \<in> set as \<Longrightarrow> stepped (max_context_len m) (kv_reqs m a)"
  shows "\<exists>m' L' F' V'. decode_results cfg inp as ts m = ok m' \<and> kv_inv m' (A - {a \<in> set as. req_finished (kv_reqs m' a)}) {#} L' F' V' \<and>
    same_pool m m' \<and> (\<forall>b. b \<notin> set as \<longrightarrow> kv_reqs m' b = kv_reqs m b) \<and>
    (\<forall>a\<in>set as. same_len (kv_reqs m a) (kv_reqs m' a) \<and> after_decode (max_context_len m) (kv_reqs m' a))"
  using assms
proof (induction as arbitrary: m A L F V ts)
  case Nil
  then show ?case by auto
next
  case (Cons a as)
  obtain t ts' where ts: "ts = t # ts'" "length ts' = length as" using Cons.prems(4) by (cases ts) auto
  have a: "a \<in> A" "a \<notin> set as" "distinct as" "set as \<subseteq> A" using Cons.prems(2,3) by auto
  let ?m = "change_req a (append_output cfg t) m"
  obtain m1 L1 F1 V1 r where p: "(if req_finished (kv_reqs ?m a) then release_kv_cache (result_time inp a) False True a ?m else ok ?m) = ok m1"
    "kv_inv m1 (if req_finished r then A - {a} else A) {#} L1 F1 V1" "same_pool m m1" "kv_reqs m1 = (kv_reqs m)(a := r)" "same_len (kv_reqs m a) r"
    "after_decode (max_context_len m) r"
    using decode_one_ok [OF Cons.prems(1) a(1) Cons.prems(5) [of a], of cfg t inp] by auto
  let ?A = "if req_finished r then A - {a} else A"
  have ctx: "max_context_len m1 = max_context_len m" using p(3) by (simp add: same_pool_def)
  have same: "kv_reqs m1 b = kv_reqs m b" if "b \<in> set as" for b using that a(2) p(4) by auto
  have sub: "set as \<subseteq> ?A" using a by auto
  have rest: "stepped (max_context_len m1) (kv_reqs m1 b)" if "b \<in> set as" for b using Cons.prems(5) [of b] that same ctx(1) by simp
  obtain m' L' F' V' where IH: "decode_results cfg inp as ts' m1 = ok m'"
    "kv_inv m' (?A - {b \<in> set as. req_finished (kv_reqs m' b)}) {#} L' F' V'" "same_pool m1 m'" "\<forall>b. b \<notin> set as \<longrightarrow> kv_reqs m' b = kv_reqs m1 b"
    "\<forall>b\<in>set as. same_len (kv_reqs m1 b) (kv_reqs m' b) \<and> after_decode (max_context_len m1) (kv_reqs m' b)"
    using Cons.IH [OF p(2) sub a(3) ts(2) rest] by blast
  have ma: "kv_reqs m' a = r" using IH(4) a(2) p(4) by simp
  have "?A - {b \<in> set as. req_finished (kv_reqs m' b)} = A - {b \<in> set (a # as). req_finished (kv_reqs m' b)}" using ma a(2) by auto
  then have "kv_inv m' (A - {b \<in> set (a # as). req_finished (kv_reqs m' b)}) {#} L' F' V'" using IH(2) by simp
  moreover have "decode_results cfg inp (a # as) ts m = ok m'" using p(1) IH(1) ts(1) by (simp add: Let_def)
  moreover have "\<forall>b. b \<notin> set (a # as) \<longrightarrow> kv_reqs m' b = kv_reqs m b" using IH(4) p(4) by auto
  moreover have "\<forall>b\<in>set (a # as). same_len (kv_reqs m b) (kv_reqs m' b) \<and> after_decode (max_context_len m) (kv_reqs m' b)"
    using IH(5) ma p(5,6) same ctx(1) by auto
  ultimately show ?case using same_pool_trans [OF p(3) IH(3)] by blast
qed

text \<open>The releases of a decode batch are collected in a group of frees.\<close>

lemma decode_batch_ok:
  assumes inv: "kv_inv m A {#} L F V" and as: "set (batch_reqs b) \<subseteq> A" "distinct (batch_reqs b)" and ready: "is_not_in_free_group (kv_allocator m)"
    and ts: "length (sampled inp (batch_reqs b)) = length (batch_reqs b)" and st: "\<And>a. a \<in> set (batch_reqs b) \<Longrightarrow> stepped (max_context_len m) (kv_reqs m a)"
  shows "\<exists>m' L' F' V'. process_batch_result_decode cfg inp b m = ok m' \<and> kv_inv m' (A - {a \<in> set (batch_reqs b). req_finished (kv_reqs m' a)}) {#} L' F' V' \<and>
    same_pool m m' \<and> (\<forall>a. a \<notin> set (batch_reqs b) \<longrightarrow> kv_reqs m' a = kv_reqs m a) \<and>
    (\<forall>a\<in>set (batch_reqs b). same_len (kv_reqs m a) (kv_reqs m' a) \<and> after_decode (max_context_len m) (kv_reqs m' a))"
proof -
  note D = kv_invD [OF inv]
  let ?m = "m\<lparr>kv_allocator := free_group_begin (kv_allocator m)\<rparr>"
  note G = free_group_slots [OF ready D(5)]
  have "kv_inv (m\<lparr>kv_cache := kv_cache m, kv_allocator := free_group_begin (kv_allocator m)\<rparr>) A {#} L F V"
    using D(2-4) G by (intro kv_inv_memory [OF inv D(1)]) (simp_all add: cache_fits_def)
  then have inv1: "kv_inv ?m A {#} L F V" by simp
  obtain m1 L1 F1 V1 where d: "decode_results cfg inp (batch_reqs b) (sampled inp (batch_reqs b)) ?m = ok m1"
    "kv_inv m1 (A - {a \<in> set (batch_reqs b). req_finished (kv_reqs m1 a)}) {#} L1 F1 V1" "same_pool ?m m1" "\<forall>a. a \<notin> set (batch_reqs b) \<longrightarrow> kv_reqs m1 a = kv_reqs ?m a"
    "\<forall>a\<in>set (batch_reqs b). same_len (kv_reqs ?m a) (kv_reqs m1 a) \<and> after_decode (max_context_len ?m) (kv_reqs m1 a)"
    using decode_fold_ok [OF inv1 as ts, of cfg inp] st by auto
  note D1 = kv_invD [OF d(2)]
  have open': "\<not> is_not_in_free_group (kv_allocator m1)" using d(3) by (simp add: same_pool_def free_group_begin_def)
  note E = free_group_end_slots [OF open' D1(5)]
  let ?m2 = "m1\<lparr>kv_allocator := free_group_end (kv_allocator m1)\<rparr>"
  have "kv_inv (m1\<lparr>kv_cache := kv_cache m1, kv_allocator := free_group_end (kv_allocator m1)\<rparr>) (A - {a \<in> set (batch_reqs b). req_finished (kv_reqs m1 a)}) {#} L1 F1 V1"
    using D1(2-4) E by (intro kv_inv_memory [OF d(2) D1(1)]) (simp_all add: cache_fits_def)
  then have "kv_inv ?m2 (A - {a \<in> set (batch_reqs b). req_finished (kv_reqs ?m2 a)}) {#} L1 F1 V1" by simp
  moreover have "process_batch_result_decode cfg inp b m = ok ?m2" using d(1) by (simp add: process_batch_result_decode_def)
  moreover have "same_pool m ?m2" using d(3) E(2,4) G(2) ready by (simp add: same_pool_def)
  ultimately show ?thesis using d(4,5) by (intro exI [of _ ?m2] exI [of _ L1] exI [of _ F1] exI [of _ V1]) auto
qed

end
