(* ===== verification/SglRetract.thy ===== *)
theory SglRetract
  imports SglResults
begin

text \<open>
  Retraction: while a decode step does not fit, the requests with the fewest tokens go back to the waiting queue, and if even the last
  one does not fit it is given up. Afterwards the step fits.
\<close>

declare map_of_eq_Some_iff [simp del] retract_loop.simps [simp del]

lemma check_decode_ok:
  assumes inv: "kv_inv m A {#} L F V" and ready: "is_not_in_free_group (kv_allocator m)" and ord: "lists_sets (leaf_order cfg)"
  shows "\<exists>fits m' L'. check_decode_mem cfg as m = ok (fits, m') \<and> kv_inv m' A {#} L' F V \<and> same_pool m m' \<and> kv_reqs m' = kv_reqs m \<and>
    (fits \<longrightarrow> int (length as) \<le> room m')"
proof -
  have n: "new_tokens_required_next_decode as m = length as" using kv_invD(3) [OF inv] by (simp add: new_tokens_required_next_decode_def)
  obtain c al L' where e: "kv_evict (leaf_order cfg) (length as) m = ok (m\<lparr>kv_cache := c, kv_allocator := al\<rparr>)"
    "kv_inv (m\<lparr>kv_cache := c, kv_allocator := al\<rparr>) A {#} L' F V" "is_not_in_free_group al" "settings c = settings (kv_cache m)" "alloc_size al = alloc_size (kv_allocator m)"
    using kv_evict_ok [OF inv ready ord, of "length as"] by blast
  have "0 \<le> evictable_size c" using kv_invD(1) [OF e(2)] sizes_nonneg unfolding radix_inv_def by fastforce
  then show ?thesis using e ready n
    by (intro exI [of _ "length as \<le> available_size al"] exI [of _ "m\<lparr>kv_cache := c, kv_allocator := al\<rparr>"] exI [of _ L'])
      (auto simp: check_decode_mem_def same_pool_def room_def)
qed

text \<open>A request sent back.\<close>

lemma retract_one_ok:
  assumes inv: "kv_inv m A {#} L F V" and a: "a \<in> A" and ready: "is_not_in_free_group (kv_allocator m)" and ord: "lists_sets (leaf_order cfg)"
    and st: "decoding (max_context_len m) (kv_reqs m a) \<or> cut (max_context_len m) (kv_reqs m a)"
  shows "\<exists>m' L' F' V'. release_req t False (leaf_order cfg) steps n a m = ok m' \<and> kv_inv m' (A - {a}) {#} L' F' V' \<and> same_pool m m' \<and>
    (\<forall>b. b \<noteq> a \<longrightarrow> kv_reqs m' b = kv_reqs m b) \<and> queued (max_context_len m) (kv_reqs m' a)"
proof -
  let ?r = "kv_reqs m a"
  obtain i where i: "req_pool_idx ?r = Some i" using st by (auto simp: decoding_def cut_def)
  have "kv_allocated_len ?r \<le> length (origin_input_ids ?r @ output_ids ?r)" using st by (auto simp: decoding_def cut_def rest_len_def)
  then have "can_release False (kv_cache m) ?r"
    using row_okD(4) [OF kv_inv_req(3) [OF inv a] i] kv_inv_req(2) [OF inv a] by (simp add: can_release_def cache_commit_len_def unreleased_def)
  then obtain m' L' F' V' where r: "release_req t False (leaf_order cfg) steps n a m = ok m'" "kv_inv m' (A - {a}) {#} L' F' V'"
    "kv_reqs m' = (kv_reqs m)(a := reset_for_retract (released ?r))" "waiting_req (kv_reqs m' a)" "settings (kv_cache m') = settings (kv_cache m)"
    "max_context_len m' = max_context_len m" "pool_size m' = pool_size m" "is_not_in_free_group (kv_allocator m')"
    "alloc_size (kv_allocator m') = alloc_size (kv_allocator m)"
    using release_req_ok [OF inv a i _ ready ord, of False t steps n] by blast
  have "queued (max_context_len m) (kv_reqs m' a)"
    using r(3,4) st by (auto simp: queued_def decoding_def cut_def fits_def reset_for_retract_def released_def)
  then show ?thesis using r ready by (intro exI [of _ m'] exI [of _ L'] exI [of _ F'] exI [of _ V']) (auto simp: same_pool_def)
qed

definition retracted_from :: "kv_state \<Rightarrow> nat set \<Rightarrow> nat list \<Rightarrow> kv_state \<Rightarrow> bool" where
  "retracted_from m A ret m' \<longleftrightarrow> (\<exists>L F V. kv_inv m' (A - set ret) {#} L F V) \<and> same_pool m m' \<and> (\<forall>b. b \<notin> set ret \<longrightarrow> kv_reqs m' b = kv_reqs m b) \<and>
     (\<forall>b\<in>set ret. queued (max_context_len m) (kv_reqs m' b))"

lemma retracted_from_trans:
  assumes "retracted_from m A ret m'" "retracted_from m' (A - set ret) ret' m''" "set ret \<inter> set ret' = {}"
  shows "retracted_from m A (ret @ ret') m''"
proof -
  have "A - set (ret @ ret') = A - set ret - set ret'" by auto
  moreover have "max_context_len m' = max_context_len m" using assms(1) by (simp add: retracted_from_def same_pool_def)
  ultimately show ?thesis using assms unfolding retracted_from_def by (auto intro: same_pool_trans)
qed

lemma retract_one_from:
  assumes "kv_inv m A {#} L F V" "a \<in> A" "is_not_in_free_group (kv_allocator m)" "lists_sets (leaf_order cfg)"
    and "decoding (max_context_len m) (kv_reqs m a) \<or> cut (max_context_len m) (kv_reqs m a)"
  shows "\<exists>m'. release_req t False (leaf_order cfg) steps n a m = ok m' \<and> retracted_from m A [a] m'"
  using retract_one_ok [OF assms, of t steps n] unfolding retracted_from_def by force

lemma retract_loop_ok:
  assumes "kv_inv m A {#} L F V" "is \<noteq> []" "distinct (map (nth reqs) is)" "set (map (nth reqs) is) \<subseteq> A" "is_not_in_free_group (kv_allocator m)"
    and "\<And>a. a \<in> set (map (nth reqs) is) \<Longrightarrow> decoding (max_context_len m) (kv_reqs m a)" and ord: "lists_sets (leaf_order cfg)"
  shows "\<exists>is' ret m'. retract_loop cfg inp reqs first is before m = ok (is', before @ ret, m') \<and> is' \<noteq> [] \<and> map (nth reqs) is = ret @ map (nth reqs) is' \<and>
    suffix is' is \<and> retracted_from m A ret m' \<and> (length is' = 1 \<or> int (length is') \<le> room m')"
  using assms(1-6)
proof (induction "is" arbitrary: m A L F V first before)
  case (Cons i "is")
  obtain fits m1 L1 where c: "(if first then ok (False, m) else check_decode_mem cfg (map (nth reqs) (rev (i # is))) m) = ok (fits, m1)"
    "kv_inv m1 A {#} L1 F V" "same_pool m m1" "kv_reqs m1 = kv_reqs m" "fits \<longrightarrow> int (length (i # is)) \<le> room m1"
  proof (cases first)
    case True
    then show thesis using that [of False m L] Cons.prems(1) by simp
  next
    case False
    then show thesis using check_decode_ok [OF Cons.prems(1,5) ord, of "map (nth reqs) (rev (i # is))"] that by auto
  qed
  have from1: "retracted_from m A [] m1" using c(2-4) by (auto simp: retracted_from_def)
  let ?a = "reqs ! i"
  have ctx: "max_context_len m1 = max_context_len m" "is_not_in_free_group (kv_allocator m1)" using c(3) Cons.prems(5) by (simp_all add: same_pool_def)
  show ?case
  proof (cases "fits \<or> length (i # is) = 1")
    case True
    then have "retract_loop cfg inp reqs first (i # is) before m = ok (i # is, before, m1)"
      using c(1) by (subst retract_loop.simps) simp
    then show ?thesis using from1 c(5) True by (intro exI [of _ "i # is"] exI [of _ "[]"] exI [of _ m1]) auto
  next
    case False
    have a: "?a \<in> A" "decoding (max_context_len m1) (kv_reqs m1 ?a)" using Cons.prems(4) Cons.prems(6) [of ?a] c(4) ctx(1) by auto
    obtain m2 where r: "release_req (release_time inp ?a) False (leaf_order cfg) (retract_decode_steps cfg) (length is) ?a m1 = ok m2" "retracted_from m1 A [?a] m2"
      using retract_one_from [OF c(2) a(1) ctx(2) ord disjI1 [OF a(2)]] by blast
    obtain L2 F2 V2 where inv2: "kv_inv m2 (A - {?a}) {#} L2 F2 V2" using r(2) by (auto simp: retracted_from_def)
    have m2: "max_context_len m2 = max_context_len m" "is_not_in_free_group (kv_allocator m2)" "\<And>b. b \<noteq> ?a \<Longrightarrow> kv_reqs m2 b = kv_reqs m b"
      using r(2) ctx c(4) by (auto simp: retracted_from_def same_pool_def)
    have "is \<noteq> []" using False by auto
    moreover have "distinct (map (nth reqs) is)" "set (map (nth reqs) is) \<subseteq> A - {?a}" using Cons.prems(3,4) by (simp_all add: subset_Diff_insert)
    moreover have "decoding (max_context_len m2) (kv_reqs m2 b)" if "b \<in> set (map (nth reqs) is)" for b
      using that Cons.prems(3) Cons.prems(6) [of b] m2(1) m2(3) [of b] by (cases "b = ?a") auto
    ultimately obtain is' ret m' where IH: "retract_loop cfg inp reqs False is (before @ [?a]) m2 = ok (is', (before @ [?a]) @ ret, m')" "is' \<noteq> []"
      "map (nth reqs) is = ret @ map (nth reqs) is'" "suffix is' is" "retracted_from m2 (A - {?a}) ret m'" "length is' = 1 \<or> int (length is') \<le> room m'"
      using Cons.IH [OF inv2 _ _ _ m2(2), where first = False and before = "before @ [?a]"] by blast
    have "retract_loop cfg inp reqs first (i # is) before m = ok (is', before @ (?a # ret), m')"
      using c(1) r(1) IH(1) False by (subst retract_loop.simps) simp
    moreover have "retracted_from m A (?a # ret) m'"
    proof -
      have "?a \<notin> set ret" using Cons.prems(3) IH(3) by auto
      then have "retracted_from m1 A ([?a] @ ret) m'" using IH(5) by (intro retracted_from_trans [OF r(2)]) auto
      then show ?thesis using retracted_from_trans [OF from1, of "?a # ret" m'] by simp
    qed
    ultimately show ?thesis using IH(2-4,6) by (intro exI [of _ is'] exI [of _ "?a # ret"] exI [of _ m']) (auto simp: suffix_Cons)
  qed
qed simp

lemma retract_all_ok:
  assumes "kv_inv m A {#} L F V" "distinct as" "set as \<subseteq> A" "is_not_in_free_group (kv_allocator m)" and ord: "lists_sets (leaf_order cfg)"
    and "\<And>a. a \<in> set as \<Longrightarrow> decoding (max_context_len m) (kv_reqs m a) \<or> cut (max_context_len m) (kv_reqs m a)"
  shows "\<exists>m'. retract_all cfg inp as m = ok m' \<and> retracted_from m A as m'"
  using assms(1-4,6)
proof (induction as arbitrary: m A L F V)
  case Nil
  then show ?case by (auto simp: retracted_from_def)
next
  case (Cons a as)
  obtain m1 where r: "release_req (release_time inp a) False (leaf_order cfg) (retract_decode_steps cfg) (length (a # as)) a m = ok m1" "retracted_from m A [a] m1"
    using retract_one_from [OF Cons.prems(1) _ Cons.prems(4) ord] Cons.prems(3,5) by (meson list.set_intros(1) subsetD)
  obtain L1 F1 V1 where inv1: "kv_inv m1 (A - {a}) {#} L1 F1 V1" using r(2) by (auto simp: retracted_from_def)
  have m1: "max_context_len m1 = max_context_len m" "is_not_in_free_group (kv_allocator m1)" "\<And>b. b \<noteq> a \<Longrightarrow> kv_reqs m1 b = kv_reqs m b"
    using r(2) Cons.prems(4) by (auto simp: retracted_from_def same_pool_def)
  have "distinct as" "set as \<subseteq> A - {a}" using Cons.prems(2,3) by auto
  moreover have "decoding (max_context_len m1) (kv_reqs m1 b) \<or> cut (max_context_len m1) (kv_reqs m1 b)" if "b \<in> set as" for b
    using that Cons.prems(2) Cons.prems(5) [of b] m1(1) m1(3) [of b] by (cases "b = a") auto
  ultimately obtain m' where IH: "retract_all cfg inp as m1 = ok m'" "retracted_from m1 (A - {a}) as m'" using Cons.IH [OF inv1 _ _ m1(2)] by blast
  have "retracted_from m A ([a] @ as) m'" using Cons.prems(2) IH(2) by (intro retracted_from_trans [OF r(2)]) auto
  then show ?case using r(1) IH(1) by auto
qed

section \<open>A decode batch that fits\<close>

definition lens_ok :: "kv_state \<Rightarrow> sgl_batch \<Rightarrow> bool" where
  "lens_ok m b \<longleftrightarrow> batch_reqs b \<noteq> [] \<longrightarrow> batch_seq_lens b = map (\<lambda>a. kv_allocated_len (kv_reqs m a)) (batch_reqs b)"

lemma nth_image_all: "nth xs ` {..<length xs} = set xs"
  unfolding set_conv_nth by blast

lemma keep_indices_lens:
  assumes "lens_ok m b" "set is \<subseteq> {..<length (batch_reqs b)}"
  shows "lens_ok m (keep_indices is b)"
proof (cases "is = [] \<or> length is = length (batch_reqs b)")
  case False
  then have "batch_reqs b \<noteq> []" using assms(2) by (cases "is") auto
  then have "map (nth (batch_seq_lens b)) is = map (\<lambda>i. kv_allocated_len (kv_reqs m (batch_reqs b ! i))) is"
    using assms by (intro map_cong) (auto simp: lens_ok_def)
  then show ?thesis using False by (simp add: lens_ok_def keep_indices_def)
qed (use assms in \<open>auto simp: lens_ok_def keep_indices_def\<close>)

definition retract_result :: "kv_state \<Rightarrow> nat set \<Rightarrow> sgl_batch \<Rightarrow> nat list \<Rightarrow> real \<Rightarrow> sgl_batch \<Rightarrow> kv_state \<Rightarrow> bool" where
  "retract_result m A b ret ratio b' m' \<longleftrightarrow> (\<exists>L F V. kv_inv m' (A - (set (batch_reqs b) - set (batch_reqs b'))) {#} L F V) \<and> same_pool m m' \<and> 0 \<le> ratio \<and>
     set (batch_reqs b') \<subseteq> set (batch_reqs b) \<and> distinct (batch_reqs b') \<and> set ret \<subseteq> set (batch_reqs b) - set (batch_reqs b') \<and> distinct ret \<and>
     (\<forall>a. a \<notin> set (batch_reqs b) \<or> a \<in> set (batch_reqs b') \<longrightarrow> kv_reqs m' a = kv_reqs m a) \<and> (\<forall>a\<in>set ret. queued (max_context_len m) (kv_reqs m' a)) \<and>
     lens_ok m' b' \<and> batch_prefill_only b' = batch_prefill_only b \<and> batch_chunked_req b' = batch_chunked_req b \<and>
     int (length (batch_reqs b')) \<le> room m'"

lemma keep_indices_reqs:
  assumes "distinct (batch_reqs b)" "distinct is" "set is \<subseteq> {..<length (batch_reqs b)}"
  shows "set (batch_reqs (keep_indices is b)) = set (map (nth (batch_reqs b)) is)" "distinct (batch_reqs (keep_indices is b))"
    "length (batch_reqs (keep_indices is b)) = length is"
proof -
  have inj: "inj_on (nth (batch_reqs b)) (set is)" using assms(1,3) by (intro inj_on_nth) auto
  have all: "set (map (nth (batch_reqs b)) is) = set (batch_reqs b)" if "length is = length (batch_reqs b)"
  proof -
    have "card (set is) = card {..<length (batch_reqs b)}" using that distinct_card [OF assms(2)] by simp
    then have "set is = {..<length (batch_reqs b)}" using assms(3) by (intro card_subset_eq) auto
    then show ?thesis by (simp add: nth_image_all)
  qed
  show "set (batch_reqs (keep_indices is b)) = set (map (nth (batch_reqs b)) is)" using all by (auto simp: keep_indices_def)
  show "distinct (batch_reqs (keep_indices is b))" using assms(1,2) inj by (simp add: keep_indices_def distinct_map)
  show "length (batch_reqs (keep_indices is b)) = length is" by (simp add: keep_indices_def)
qed

lemma retract_order_props: "distinct (retract_order reqs m)" "set (retract_order reqs m) = {..<length reqs}"
  by (auto simp: retract_order_def atLeast0LessThan)

lemma estimate_nonneg: "0 \<le> estimate_new_token_ratio cfg as m"
  by (simp add: estimate_new_token_ratio_def)

lemma retract_result_intro:
  assumes b: "distinct (batch_reqs b)" "lens_ok m b" and is0: "distinct is0" "set is0 = {..<length (batch_reqs b)}"
    and split: "map (nth (batch_reqs b)) is0 = out @ map (nth (batch_reqs b)) is1" "suffix is1 is0" "set ret \<subseteq> set out" "distinct ret"
    and inv: "kv_inv m' (A - set out) {#} L F V" "same_pool m m'" "\<And>a. a \<notin> set out \<Longrightarrow> kv_reqs m' a = kv_reqs m a"
      "\<And>a. a \<in> set ret \<Longrightarrow> queued (max_context_len m) (kv_reqs m' a)"
    and room: "int (length is1) \<le> room m'" and ratio: "0 \<le> ratio"
  shows "retract_result m A b ret ratio (keep_indices (rev is1) b) m'"
proof -
  let ?b = "keep_indices (rev is1) b"
  have is1: "distinct is1" using is0(1) split(2) by (metis suffix_def distinct_append)
  have is1_set: "set is1 \<subseteq> {..<length (batch_reqs b)}" using set_mono_suffix [OF split(2)] unfolding is0(2) .
  note K = keep_indices_reqs [OF b(1), of "rev is1"]
  have set: "set (batch_reqs ?b) = nth (batch_reqs b) ` set is1" "distinct (batch_reqs ?b)" "length (batch_reqs ?b) = length is1" using K is1 is1_set by simp_all
  have "distinct (map (nth (batch_reqs b)) is0)" using b(1) is0 by (auto simp: distinct_map intro!: inj_on_nth)
  then have dis: "set out \<inter> nth (batch_reqs b) ` set is1 = {}" unfolding split(1) by auto
  have "nth (batch_reqs b) ` set is0 = set (batch_reqs b)" unfolding is0(2) by (rule nth_image_all)
  then have un: "set (batch_reqs b) = set out \<union> nth (batch_reqs b) ` set is1" using arg_cong [OF split(1), of set] by simp
  have out: "set out = set (batch_reqs b) - set (batch_reqs ?b)" using un dis set(1) by blast
  have "lens_ok m ?b" using is1_set by (intro keep_indices_lens [OF b(2)]) simp
  moreover have "map (\<lambda>a. kv_allocated_len (kv_reqs m' a)) (batch_reqs ?b) = map (\<lambda>a. kv_allocated_len (kv_reqs m a)) (batch_reqs ?b)"
  proof (intro map_cong refl)
    fix a assume "a \<in> set (batch_reqs ?b)"
    then have "a \<notin> set out" using dis unfolding set(1) by (meson disjoint_iff)
    from inv(3) [OF this] show "kv_allocated_len (kv_reqs m' a) = kv_allocated_len (kv_reqs m a)" by simp
  qed
  ultimately have "lens_ok m' ?b" by (simp add: lens_ok_def)
  moreover have "batch_prefill_only ?b = batch_prefill_only b" "batch_chunked_req ?b = batch_chunked_req b" by (simp_all add: keep_indices_def)
  moreover have "set (batch_reqs ?b) \<subseteq> set (batch_reqs b)" using un set(1) by blast
  moreover have "kv_reqs m' a = kv_reqs m a" if "a \<notin> set (batch_reqs b) \<or> a \<in> set (batch_reqs ?b)" for a using that out inv(3) [of a] by blast
  moreover have "kv_inv m' (A - (set (batch_reqs b) - set (batch_reqs ?b))) {#} L F V" using inv(1) out by simp
  moreover have "set ret \<subseteq> set (batch_reqs b) - set (batch_reqs ?b)" using split(3) out by simp
  ultimately show ?thesis unfolding retract_result_def using inv(2,4) set(2,3) split(4) room ratio by auto
qed

lemma retract_decode_ok:
  assumes inv: "kv_inv m A {#} L F V" and b: "batch_reqs b \<noteq> []" "distinct (batch_reqs b)" "set (batch_reqs b) \<subseteq> A" "lens_ok m b"
    and ready: "is_not_in_free_group (kv_allocator m)" and ord: "lists_sets (leaf_order cfg)"
    and st: "\<And>a. a \<in> set (batch_reqs b) \<Longrightarrow> decoding (max_context_len m) (kv_reqs m a)"
  shows "\<exists>ret ratio b' m'. retract_decode cfg inp b m = ok (ret, ratio, b', m') \<and> retract_result m A b ret ratio b' m'"
proof -
  let ?reqs = "batch_reqs b"
  define is0 where "is0 = rev (retract_order ?reqs m)"
  have is0: "distinct is0" "set is0 = {..<length ?reqs}" "is0 \<noteq> []"
    using retract_order_props [of ?reqs m] b(1) by (simp_all add: is0_def) (metis empty_iff set_empty lessThan_iff length_greater_0_conv)
  have nth: "set (map (nth ?reqs) is0) = set ?reqs" using is0(2) by (simp add: nth_image_all)
  have nth_distinct: "distinct (map (nth ?reqs) is0)"
    using b(2) is0(1,2) by (simp add: distinct_map inj_on_nth)
  obtain is1 ret m1 where l: "retract_loop cfg inp ?reqs True is0 [] m = ok (is1, ret, m1)" "is1 \<noteq> []" "map (nth ?reqs) is0 = ret @ map (nth ?reqs) is1"
    "suffix is1 is0" "retracted_from m A ret m1" "length is1 = 1 \<or> int (length is1) \<le> room m1"
    using retract_loop_ok [OF inv is0(3) nth_distinct _ ready _ ord, of inp True "[]"] nth(1) b(3) st by auto
  obtain L1 F1 V1 where inv1: "kv_inv m1 (A - set ret) {#} L1 F1 V1" using l(5) by (auto simp: retracted_from_def)
  have m1: "same_pool m m1" "is_not_in_free_group (kv_allocator m1)" "max_context_len m1 = max_context_len m" "\<And>a. a \<notin> set ret \<Longrightarrow> kv_reqs m1 a = kv_reqs m a"
    "\<And>a. a \<in> set ret \<Longrightarrow> queued (max_context_len m) (kv_reqs m1 a)"
    using l(5) ready by (auto simp: retracted_from_def same_pool_def)
  have ret: "distinct ret" "set ret \<inter> nth ?reqs ` set is1 = {}" using nth_distinct unfolding l(3) by auto
  note intro = retract_result_intro [OF b(2,4) is0(1,2)]
  note ratio = estimate_nonneg
  show ?thesis
  proof (cases "length is1 \<le> 1")
    case False
    then have "retract_decode cfg inp b m = ok (ret, estimate_new_token_ratio cfg (batch_reqs (keep_indices (rev is1) b)) m1, keep_indices (rev is1) b, m1)"
      using l(1) by (simp add: retract_decode_def Let_def flip: is0_def)
    moreover have "retract_result m A b ret (estimate_new_token_ratio cfg (batch_reqs (keep_indices (rev is1) b)) m1) (keep_indices (rev is1) b) m1"
      using l(6) False m1 ret(1) by (intro intro [OF l(3,4) _ _ inv1 _ _ _ _ ratio]) auto
    ultimately show ?thesis by blast
  next
    case True
    then obtain i where i: "is1 = [i]" using l(2) by (cases is1) auto
    let ?a = "?reqs ! i"
    have a: "?a \<in> A - set ret" "?a \<in> set ?reqs"
    proof -
      have "?a \<in> set (map (nth ?reqs) is0)" unfolding l(3) i by simp
      then show "?a \<in> set ?reqs" "?a \<in> A - set ret" using nth b(3) ret(2) i by auto
    qed
    obtain fits m2 L2 where c: "check_decode_mem cfg [?a] m1 = ok (fits, m2)" "kv_inv m2 (A - set ret) {#} L2 F1 V1" "same_pool m1 m2" "kv_reqs m2 = kv_reqs m1"
      "fits \<longrightarrow> int (length [?a]) \<le> room m2" using check_decode_ok [OF inv1 m1(2) ord, of "[?a]"] by blast
    have m2: "same_pool m m2" "is_not_in_free_group (kv_allocator m2)" "max_context_len m2 = max_context_len m"
      using same_pool_trans [OF m1(1) c(3)] m1(2,3) c(3) by (simp_all add: same_pool_def)
    show ?thesis
    proof (cases fits)
      case True
      then have "retract_decode cfg inp b m = ok (ret, estimate_new_token_ratio cfg (batch_reqs (keep_indices (rev [i]) b)) m2, keep_indices (rev [i]) b, m2)"
        using l(1) i c(1) by (simp add: retract_decode_def Let_def flip: is0_def)
      moreover have "retract_result m A b ret (estimate_new_token_ratio cfg (batch_reqs (keep_indices (rev [i]) b)) m2) (keep_indices (rev [i]) b) m2"
        using True c(4,5) m1(4,5) m2(1) ret(1) by (intro intro [OF l(3) [unfolded i] l(4) [unfolded i] _ _ c(2) _ _ _ _ ratio]) auto
      ultimately show ?thesis by blast
    next
      case False
      let ?r = "(kv_reqs m2 ?a)\<lparr>to_finish := True\<rparr>"
      let ?m2 = "set_req ?a ?r m2"
      have r: "kv_reqs m2 ?a = kv_reqs m ?a" using c(4) m1(4) a(1) by auto
      have "kv_inv ?m2 (A - set ret) {#} L2 F1 V1"
        using kv_inv_req(2) [OF c(2) a(1)] by (intro kv_inv_touch [OF c(2)]) (simp add: same_kv_def unreleased_def)
      moreover have "decoding (max_context_len ?m2) (kv_reqs ?m2 ?a)" using st [OF a(2)] r m2(3) by (auto simp: decoding_def fits_def set_req_def)
      ultimately obtain m3 where x: "release_req (release_time inp ?a) False (leaf_order cfg) (retract_decode_steps cfg) 0 ?a ?m2 = ok m3"
        "retracted_from ?m2 (A - set ret) [?a] m3"
        using retract_one_from [of ?m2 "A - set ret" L2 F1 V1 ?a cfg "release_time inp ?a" "retract_decode_steps cfg" 0] a(1) m2(2) ord by (auto simp: set_req_def)
      obtain L3 F3 V3 where inv3: "kv_inv m3 (A - set ret - {?a}) {#} L3 F3 V3" using x(2) by (auto simp: retracted_from_def)
      have m3: "same_pool ?m2 m3" "\<And>b. b \<noteq> ?a \<Longrightarrow> kv_reqs m3 b = kv_reqs m1 b" using x(2) c(4) by (auto simp: retracted_from_def set_req_def)
      have p3: "same_pool m m3" using same_pool_trans [OF m2(1), of m3] m3(1) by (simp add: same_pool_def set_req_def)
      have "A - set ret - {?a} = A - set (ret @ [?a])" by auto
      then have inv3': "kv_inv m3 (A - set (ret @ [?a])) {#} L3 F3 V3" using inv3 by simp
      have run: "retract_decode cfg inp b m = ok (ret, estimate_new_token_ratio cfg (batch_reqs (keep_indices (rev []) b)) m3, keep_indices (rev []) b, m3)"
        using l(1) i c(1) x(1) False by (simp add: retract_decode_def Let_def change_req_set flip: is0_def)
      have "0 \<le> room m3"
      proof -
        have "0 \<le> evictable_size (kv_cache m3)" using kv_invD(1) [OF inv3] sizes_nonneg unfolding radix_inv_def by fastforce
        then show ?thesis by (simp add: room_def)
      qed
      moreover have keep3: "kv_reqs m3 c = kv_reqs m1 c" if "c \<in> set ret" for c using that a(1) m3(2) [of c] by blast
      ultimately have "retract_result m A b ret (estimate_new_token_ratio cfg (batch_reqs (keep_indices (rev []) b)) m3) (keep_indices (rev []) b) m3"
        using m1(4,5) m3(2) p3 ret a(1) i l(3) by (intro intro [where out = "ret @ [?a]", OF _ _ _ _ inv3' _ _ _ _ ratio]) (auto simp: suffix_def keep3)
      then show ?thesis using run by blast
    qed
  qed
qed

end
