(* ===== verification/Spec2Isabelle.thy ===== *)
theory Spec2Isabelle
  imports Prelude PyJson Metrics Profile Program JsonText TraceText Backend Predictor Router Scheduling
    Resume Handlers RouterInv Policy Capacity HandlerInv Control RouterSteps RouterProps Proxy App TraceLoad
    FreeQueue BlockHash BlockPool PoolInv CacheManager CacheCoordinator CacheInv CacheOps CacheProps CacheHits
    CacheRun CacheHybrid RequestQueue EngineRequest EngineScheduler EngineUpdate EngineCore SchedKv SchedInv
    SchedPass SchedAdmit SchedFinish SchedStop SchedStep SchedOutput SchedEngine SchedProps RadixKey RadixTree RadixInv
    RadixSteps RadixLeaf RadixWalk RadixLock RadixHeld RadixEvict RadixOps RadixRun RadixReq RadixUse RadixProps
    SglPool SglInv SglOps SglBatch SglRelease SglAdmit SglLoop SglRoom SglFit SglResults SglRetract
begin

text \<open>
  ThunderAgent (\<open>src/scheduler/ThunderAgent\<close>) is a proxy between LLM agents and inference servers. An
  agent ("program") sends a sequence of chat-completion requests; the proxy assigns programs to
  backends, pauses and resumes whole programs so that a backend's key-value cache is not overcommitted,
  predicts how many steps a program still needs, switches speculative decoding of the backends, and
  forwards requests and responses. The backends are inference engines kept in the same repository, among
  them a modified vLLM (\<open>src/vllm-v0.17.1\<close>) and SGLang (\<open>src/sglang-v0.5.14\<close>). This library models the proxy, of
  vLLM the cache of key-value blocks that the proxy's capacity accounting is about, the scheduler that fills it
  and the engine step around them, and of SGLang the radix cache that shares slots between requests, and proves
  them correct.

  \<^bold>\<open>Theories, bottom up.\<close>
  \<^item> \<open>Prelude\<close>: Python dicts as ordered association lists, stable sorting, an ordering extended by
    infinity, error values (\<open>py_error\<close>, \<open>ebind\<close>), truncation to int, strings.
  \<^item> \<open>PyJson\<close>: JSON values, truthiness, reading of numbers, the regular-expression searches used on
    Prometheus text.
  \<^item> \<open>Metrics\<close> (\<open>backend/vllm_metrics.py\<close>, \<open>sglang_metrics.py\<close>, \<open>skyrl_metrics.py\<close>): the metrics
    records, their parsers, cache capacities, the bounded history. The locale \<open>metrics_interface\<close> is
    the contract of \<open>MetricsClient\<close> in \<open>metrics_base.py\<close>; all three clients interpret it.
  \<^item> \<open>Profile\<close> (\<open>profile/state.py\<close>): the timing callbacks and averages.
  \<^item> \<open>Program\<close> (\<open>program/state.py\<close>) and \<open>Backend\<close> (\<open>backend/state.py\<close>): the two records and the
    capacity computations. Programs live in a store from object numbers to records, because a handler
    keeps a reference to a program that the table may have dropped.
  \<^item> \<open>JsonText\<close>, \<open>TraceText\<close>, \<open>Predictor\<close>, \<open>TraceLoad\<close> (\<open>scheduler/predictor.py\<close>): JSON serialisation, prefix states
    from traces and payloads, the step tables, the prediction of remaining steps and time, the loading
    of trace files and its process-wide cache.
  \<^item> \<open>Router\<close>, \<open>Scheduling\<close>, \<open>Resume\<close>, \<open>Handlers\<close> (\<open>scheduler/router.py\<close>): the router state and
    \<open>MultiBackendRouter.__init__\<close>, backend selection and statistics; pausing, marking, resuming and the
    policies; the greedy placement, speculative decoding and the control-loop tick; the request
    handler's calls.
  \<^item> \<open>RouterInv\<close>, \<open>Policy\<close>, \<open>Capacity\<close>, \<open>HandlerInv\<close>, \<open>Control\<close>: the invariant \<open>router_ok\<close> and that every
    operation keeps it, the order of the policies, the capacity bound of a resume, the effect of the
    capacity check and of the speculative-decoding reconciliation.
  \<^item> \<open>RouterSteps\<close>, \<open>RouterProps\<close>: the asynchronous handlers of \<open>app.py\<close> and the control loop as a step
    relation on the router and the suspended handlers, and the properties of its reachable configurations.
  \<^item> \<open>Proxy\<close> (\<open>scheduler/vllm_request_processor.py\<close>): usage extraction, payload cleaning, the
    server-sent-event parser and its callbacks.
  \<^item> \<open>App\<close> (\<open>app.py\<close>): reading program, type, agent and step fields from a request.

  \<^bold>\<open>Theories of the engine.\<close> They do not depend on the proxy's; they share \<open>Prelude\<close>.
  \<^item> \<open>FreeQueue\<close> (\<open>v1/core/kv_cache_utils.py\<close>): the doubly linked queue of free blocks, as an explicit
    store of links, and its refinement of a list.
  \<^item> \<open>BlockHash\<close> (\<open>v1/core/kv_cache_utils.py\<close>): cache keys, the extra keys of a block and the chain of
    block hashes of a request.
  \<^item> \<open>BlockPool\<close>, \<open>PoolInv\<close> (\<open>v1/core/block_pool.py\<close>): reference counts, allocation, eviction, caching
    and the map from hashes to blocks; the invariant of the pool and what each operation does to it.
  \<^item> \<open>CacheManager\<close> (\<open>v1/core/single_type_kv_cache_manager.py\<close>): the block tables of one attention type
    (full, sliding window, chunked local), their growth, caching, skipping and release, and the search for
    the longest cached prefix. \<open>CacheCoordinator\<close> (\<open>kv_cache_coordinator.py\<close>, \<open>kv_cache_manager.py\<close>): all
    attention types over one pool, \<open>allocate_slots\<close>, \<open>get_computed_blocks\<close> and the other operations the
    engine's scheduler calls.
  \<^item> \<open>CacheInv\<close>, \<open>CacheOps\<close>, \<open>CacheProps\<close>: the invariant of tables and pool; the locale
    \<open>manager_operation\<close> lifts a fact on one manager to the loop over all of them, and each operation
    interprets it. \<open>CacheHits\<close>: what the prefix search returns. \<open>CacheRun\<close>, \<open>CacheHybrid\<close>: the states
    reachable by any sequence of operations and their properties, and the search over several groups.
  \<^item> \<open>RequestQueue\<close> (\<open>v1/core/sched/request_queue.py\<close>): the waiting queue as a deque and as a binary
    heap, with Python's \<open>heapq\<close>; the locale \<open>waiting_queue\<close> is the contract of \<open>RequestQueue\<close>, and both
    implementations, and their union, interpret it.
  \<^item> \<open>EngineRequest\<close> (\<open>v1/request.py\<close>, \<open>sched/utils.py\<close>): requests, their tokens and hashes, the order of
    the statuses, when a request stops, the repetition detector.
  \<^item> \<open>EngineScheduler\<close>, \<open>EngineUpdate\<close> (\<open>sched/scheduler.py\<close>, \<open>async_scheduler.py\<close>): the scheduler's state;
    a pass over the running and the waiting requests with preemption; the output of the model, stopping,
    aborts, arrivals, streaming sessions, draft tokens, pausing, the reset of the prefix cache. Requests
    live in a store from ids to records, and \<open>requests\<close> is the list of known ids. \<open>EngineCore\<close>
    (\<open>v1/engine/core.py\<close>): one step of the engine and the calls from outside.
  \<^item> \<open>SchedKv\<close>: what the scheduler needs of the cache, per request: how many blocks it has.
    \<open>SchedInv\<close>: the scheduler's invariant, with the requests in flight as an argument, and the operations on
    one request. \<open>SchedPass\<close>, \<open>SchedAdmit\<close>, \<open>SchedFinish\<close>: the two loops of a pass and its end.
    \<open>SchedStop\<close>, \<open>SchedStep\<close>, \<open>SchedOutput\<close>: stopping, finishing, and the output of the model.
    \<open>SchedEngine\<close>, \<open>SchedProps\<close>: the engine as a transition system and the properties of its reachable states.

  \<^bold>\<open>Theories of the radix cache\<close> (\<open>sglang/srt/mem_cache\<close>). They share \<open>Prelude\<close> and the \<open>heapq\<close> of \<open>RequestQueue\<close>.
  \<^item> \<open>RadixKey\<close> (\<open>radix_cache.py\<close>, class \<open>RadixKey\<close>): keys of tokens or bigrams, slices, pages, the galloping search
    for the first difference. \<open>RadixTree\<close> (classes \<open>TreeNode\<close>, \<open>RadixCache\<close>; \<open>evict_policy.py\<close>): the nodes in a store,
    matching, inserting, splitting, lock counts, eviction, sizes.
  \<^item> \<open>RadixReq\<close> (\<open>radix_cache.py\<close>, \<open>allocator/token.py\<close>, \<open>common.py\<close>): caching finished and unfinished requests, the
    allocator, allocation with eviction.
  \<^item> \<open>RadixInv\<close>: the invariant, with the live nodes, their paths and slots as ghosts, and what the cache holds for a
    key (\<open>reaches\<close>, \<open>cached\<close>), read off the state. \<open>RadixSteps\<close>, \<open>RadixLeaf\<close>: a split, a new leaf, a deleted leaf.
    \<open>RadixWalk\<close>, \<open>RadixLock\<close>, \<open>RadixEvict\<close>: the descents, the walk to the root, the heap loop, each ending and
    keeping the invariant. \<open>RadixOps\<close>, \<open>RadixRun\<close>: the operations, and runs of them by callers holding handles.
  \<^item> \<open>RadixUse\<close>: the locale \<open>slot_pool\<close> is what the cache expects of an allocator, and
    \<open>TokenToKVPoolAllocator\<close> interprets it; the slots of a request are conserved. \<open>RadixProps\<close>: the properties.

  \<^bold>\<open>How code becomes definitions.\<close> A Python dict is an association list in insertion order. A method
  that changes the router takes and returns the \<open>router\<close> record. An exception is the left side of a
  sum; in the engine's scheduler the result is an option of that sum (\<open>ok\<close>, \<open>fail\<close>, \<open>obind\<close>), \<open>None\<close>
  being a call that does not return. A coroutine is cut at its suspension points into segments, each an atomic function: asyncio runs
  one segment at a time, and the uncontended locks of the code do not suspend. An \<open>asyncio.Event\<close> is a
  number and a bit of the state. Clock readings, HTTP answers and parsed JSON bodies are arguments, one
  clock reading per segment. The text of a float and of a nested container (\<open>str\<close>) is the parameter
  \<open>pytext\<close>; \<open>json.loads\<close> is a parameter of the stream parser.

  \<^bold>\<open>Numbers, bounds, termination.\<close> Python ints are \<open>int\<close>. Floats are exact reals: rounding and overflow
  of floats are not modelled, infinities and NaN of JSON are constructors. Strings and bytes are
  character lists; lower-casing and stripping treat ASCII. No definition needs fuel: the loops that are
  not structural (\<open>pause_until_safe\<close>, \<open>drain\<close>, the two prompt scanners, the heap operations, the loops of a
  scheduling pass, whose measures are the running and the waiting requests left) are total functions with a
  measure, and the loops that need not end (following the links of a queue, hashing with a block size
  of zero, the search over several groups, the descents, walks and the eviction loop of the radix tree) are
  partial functions whose results include that they end where they should. The bytes of a
  block hash are words of eight bits.

  \<^bold>\<open>What the theorems show.\<close> The books of the router agree in every reachable configuration and no wake-up
  is lost; a resume stays within the capacity; a mark is always carried out and a timed-out wait ends;
  the policies order programs as documented; the capacity check leaves running requests alone, ends,
  and marks more programs than its comment suggests; speculative decoding follows its hysteresis;
  predictions lie among possible endpoints; the stream parser does not
  depend on chunking and its progress reports are exact; the scrape parsers and the profile records
  return what was measured. In the engine, the free queue is a list to its callers, no block is handed
  out twice, the cache map agrees with the blocks, and equal block hashes mean equal prefixes, with two
  exceptions that are theorems of their own. Through every sequence of cache operations the reference
  counts are the references of the block tables, an allocation never fails half-way, and a new request is
  always looked up and served; a last theorem shows that tokens of an external cache break this for
  several groups. The engine's scheduler is proved on top of that: for a synchronous scheduler without LoRA
  limits, text requests that fit the model, and prefix caching off or over one group, no step ever fails
  in a reachable state, the requests are partitioned, a pass respects its budget and limits, resets
  succeed and aborts are exact, for every model runner that gives a scheduled request between one token
  and one more than its drafts once its prompt is computed (\<open>runner_ok\<close>). The restrictions are in
  \<open>sync_config\<close>, \<open>kv_plain\<close> and \<open>req_ok\<close>; the definitions cover more. Two lemmas show what lies
  outside: a session that keeps a stale hash, and \<open>min_tokens\<close> beyond the length limit. For the radix cache, no run of operations
  raises or loops, a match returns the longest cached prefix and an insertion adds exactly the rest, eviction
  implements its policy and never touches the path of a held handle, the two sizes add up to the slots of the
  tree, and requests neither lose a slot nor free one twice; an allocation succeeds exactly when free and
  evictable slots suffice. The callers' duties are the predicate \<open>allowed\<close>. A theorem on the proxy shows a defect: a release that overtakes a handler held back by
  a weight synchronisation leaves a stale registration behind. The step relation therefore excludes
  that overtaking, and says so.

  \<^bold>\<open>Not modelled.\<close> Logging, CSV files, the sampling of task counts, task creation and cancellation, the
  HTTP client itself, command-line parsing and the read-only status endpoints. Underscores in float
  literals. SkyRL's engine entries are taken as typed records. Of vLLM: the metrics collector of the
  block pool (taken to be absent), the memo of prompt-embedding digests, the sizing of the cache, the
  cache managers of Mamba, cross attention and attention sinks, the hit statistics, the workers and the models; of its scheduler the KV and encoder
  connectors, the encoder budget of multimodal inputs, Mamba alignment, statistics, log probabilities and
  events; of its engine core the batch queue, processes and sockets. Of SGLang:
  everything but the radix cache, its use by requests and the allocator of single-token pages; of these the page
  hashes with the KV-cache events, metrics, the host side of a node, the paged and hybrid allocators and the
  tensors on the device. \<open>_greedy_resume_specsys\<close>, \<open>_select_backend_for_new_program_specsys\<close> and
  \<open>update_backend_for_program\<close> are modelled although the program does not call them.
\<close>

end
